(* ===== verification/Prelude.thy ===== *)
theory Prelude
  imports Main "HOL-Library.Word"
begin

unbundle bit_operations_syntax

text \<open>
  Shared vocabulary of the development: the widths of the C integer types, results of
  operations that may fail or touch memory out of bounds, the parts of the C string
  library the program calls, the byte-order macros of \<open>rtp.h\<close>, and the generic lemmas
  on lists that several components use.

  Conventions.
  \<^item> An \<open>unsigned char\<close> buffer is a \<open>byte list\<close>, a text buffer a \<open>string\<close>; a pointer
    into a buffer is an offset.
  \<^item> A C \<open>int\<close> whose value stays far from \<open>INT_MAX\<close> is an \<open>int\<close> or a \<open>nat\<close>; the
    fields whose wrap-around the protocol relies on (sequence numbers, timestamps, hash
    words) are words.
  \<^item> \<open>return -1\<close> is \<open>Inl Fail\<close>; a read or write outside the object it addresses is
    \<open>Inl Fault\<close>, so that absence of memory errors is a theorem, not an assumption.
\<close>

section \<open>Integer types\<close>

type_synonym byte = "8 word"
type_synonym u16 = "16 word"
type_synonym u32 = "32 word"

section \<open>Collections of rewrite rules\<close>

named_theorems cres_simps \<open>steps of the result monad\<close>
named_theorems wf_simps \<open>unfolding of the well-formedness predicates\<close>
named_theorems op_defs \<open>definitions of the small operations\<close>

section \<open>Results\<close>

datatype cerr = Fail | Fault

type_synonym 'a cres = "cerr + 'a"

definition bindE :: "'a cres \<Rightarrow> ('a \<Rightarrow> 'b cres) \<Rightarrow> 'b cres" where
  "bindE r k = (case r of Inl e \<Rightarrow> Inl e | Inr x \<Rightarrow> k x)"

definition rd :: "'a list \<Rightarrow> nat \<Rightarrow> 'a cres" where
  "rd d i = (if i < length d then Inr (d ! i) else Inl Fault)"

definition wr :: "'a list \<Rightarrow> nat \<Rightarrow> 'a \<Rightarrow> 'a list cres" where
  "wr d i x = (if i < length d then Inr (d[i := x]) else Inl Fault)"

lemma bindE_simps [simp, cres_simps]:
  "bindE (Inl e) k = Inl e" "bindE (Inr x) k = k x"
  by (simp_all add: bindE_def)

lemma bindE_assoc: "bindE (bindE r f) g = bindE r (\<lambda>x. bindE (f x) g)"
  by (cases r) simp_all

lemma bindE_eq_Inr: "bindE r k = Inr y \<longleftrightarrow> (\<exists>x. r = Inr x \<and> k x = Inr y)"
  by (cases r) simp_all

lemma bindE_cong [fundef_cong]:
  "r = r' \<Longrightarrow> (\<And>x. r' = Inr x \<Longrightarrow> k x = k' x) \<Longrightarrow> bindE r k = bindE r' k'"
  by (cases r') simp_all

lemma bindE_no_fault:
  "r \<noteq> Inl Fault \<Longrightarrow> (\<And>x. r = Inr x \<Longrightarrow> k x \<noteq> Inl Fault) \<Longrightarrow> bindE r k \<noteq> Inl Fault"
  by (cases r) auto

lemma rd_in [simp, cres_simps]: "i < length d \<Longrightarrow> rd d i = Inr (d ! i)"
  by (simp add: rd_def)

lemma wr_in [simp, cres_simps]: "i < length d \<Longrightarrow> wr d i x = Inr (d[i := x])"
  by (simp add: wr_def)

lemma rd_eq_Inr: "rd d i = Inr x \<longleftrightarrow> i < length d \<and> x = d ! i"
  by (auto simp: rd_def)

lemma wr_eq_Inr: "wr d i x = Inr d' \<longleftrightarrow> i < length d \<and> d' = d[i := x]"
  by (auto simp: wr_def)

section \<open>Characters and C strings\<close>

abbreviation NUL :: char where "NUL \<equiv> CHR 0x00"
abbreviation TAB :: char where "TAB \<equiv> CHR 0x09"
abbreviation LF :: char where "LF \<equiv> CHR 0x0A"
abbreviation CR :: char where "CR \<equiv> CHR 0x0D"
abbreviation SPC :: char where "SPC \<equiv> CHR 0x20"
abbreviation QUOTE :: char where "QUOTE \<equiv> CHR 0x22"

definition crlf :: string where
  "crlf = [CR, LF]"

text \<open>The C string that starts at an offset of a buffer: up to the terminating NUL.\<close>

definition cstr :: "string \<Rightarrow> nat \<Rightarrow> string" where
  "cstr d i = takeWhile (\<lambda>c. c \<noteq> NUL) (drop i d)"

definition to_lower :: "char \<Rightarrow> char" where
  "to_lower c = (if 65 \<le> (of_char c :: nat) \<and> (of_char c :: nat) \<le> 90
                 then char_of ((of_char c :: nat) + 32) else c)"

text \<open>\<open>! strcasecmp( a, b )\<close> and \<open>! strncasecmp( a, b, n )\<close>.\<close>

definition str_ieq :: "string \<Rightarrow> string \<Rightarrow> bool" where
  "str_ieq a b \<longleftrightarrow> map to_lower a = map to_lower b"

definition strn_ieq :: "nat \<Rightarrow> string \<Rightarrow> string \<Rightarrow> bool" where
  "strn_ieq n a b \<longleftrightarrow> map to_lower (take n a) = map to_lower (take n b)"

text \<open>\<open>! strncmp( a, b, n )\<close>.\<close>

definition strn_eq :: "nat \<Rightarrow> string \<Rightarrow> string \<Rightarrow> bool" where
  "strn_eq n a b \<longleftrightarrow> take n a = take n b"

text \<open>\<open>strstr\<close>, \<open>strchr\<close>, \<open>strrchr\<close>: the offset of the first (last) occurrence.\<close>

fun strstr :: "'a list \<Rightarrow> 'a list \<Rightarrow> nat option" where
  "strstr hay pat =
     (if take (length pat) hay = pat then Some 0
      else case hay of [] \<Rightarrow> None | _ # h \<Rightarrow> map_option Suc (strstr h pat))"

declare strstr.simps [simp del]

fun strchr :: "string \<Rightarrow> char \<Rightarrow> nat option" where
  "strchr [] c = None"
| "strchr (x # xs) c = (if x = c then Some 0 else map_option Suc (strchr xs c))"

fun strrchr :: "string \<Rightarrow> char \<Rightarrow> nat option" where
  "strrchr [] c = None"
| "strrchr (x # xs) c =
     (case strrchr xs c of Some i \<Rightarrow> Some (Suc i) | None \<Rightarrow> if x = c then Some 0 else None)"

definition is_digit :: "char \<Rightarrow> bool" where
  "is_digit c \<longleftrightarrow> 48 \<le> (of_char c :: nat) \<and> (of_char c :: nat) \<le> 57"

definition digit_val :: "char \<Rightarrow> int" where
  "digit_val c = int (of_char c) - 48"

definition is_space :: "char \<Rightarrow> bool" where
  "is_space c \<longleftrightarrow> c = SPC \<or> (9 \<le> (of_char c :: nat) \<and> (of_char c :: nat) \<le> 13)"

fun digits_val :: "int \<Rightarrow> string \<Rightarrow> int" where
  "digits_val a [] = a"
| "digits_val a (c # cs) = (if is_digit c then digits_val (10 * a + digit_val c) cs else a)"

text \<open>
  \<open>strtol( s, &end, 10 )\<close>: the value and the offset of \<open>end\<close>; no digits leave \<open>end = s\<close>.
  The saturation at \<open>LONG_MAX\<close> is left out: values beyond it are not produced here.
\<close>

definition strtol10 :: "string \<Rightarrow> int \<times> nat" where
  "strtol10 s =
     (let sp = length (takeWhile is_space s);
          r = drop sp s;
          sg = (if r \<noteq> [] \<and> (hd r = CHR ''-'' \<or> hd r = CHR ''+'') then 1 else 0);
          ds = takeWhile is_digit (drop sg r)
      in if ds = [] then (0, 0)
         else ((if sg = 1 \<and> hd r = CHR ''-'' then - digits_val 0 ds else digits_val 0 ds),
               sp + sg + length ds))"

text \<open>
  An \<open>int\<close> that receives the result of \<open>strtol\<close>, which saturates at the range of \<open>long\<close>. The targets
  of the program, to judge by the libraries that come with it, are 32-bit ARM, where \<open>long\<close> is
  as wide as \<open>int\<close>.
\<close>

definition int_of_long :: "int \<Rightarrow> int" where
  "int_of_long v = (if 2 ^ 31 - 1 < v then 2 ^ 31 - 1 else if v < - (2 ^ 31) then - (2 ^ 31) else v)"

text \<open>\<open>sprintf\<close> conversions \<open>%d\<close>, \<open>%u\<close>, \<open>%02x\<close> and \<open>%02X\<close>.\<close>

fun dec_nat :: "nat \<Rightarrow> string" where
  "dec_nat n = (if n < 10 then [char_of (48 + n)] else dec_nat (n div 10) @ [char_of (48 + n mod 10)])"

declare dec_nat.simps [simp del]

definition dec_int :: "int \<Rightarrow> string" where
  "dec_int i = (if i < 0 then CHR ''-'' # dec_nat (nat (- i)) else dec_nat (nat i))"

definition hex_digit :: "nat \<Rightarrow> char" where
  "hex_digit n = (if n < 10 then char_of (48 + n) else char_of (87 + n))"

definition hex_digit_upper :: "nat \<Rightarrow> char" where
  "hex_digit_upper n = (if n < 10 then char_of (48 + n) else char_of (55 + n))"

definition hex2 :: "byte \<Rightarrow> string" where
  "hex2 b = [hex_digit (unat b div 16), hex_digit (unat b mod 16)]"

definition hex2_upper :: "byte \<Rightarrow> string" where
  "hex2_upper b = [hex_digit_upper (unat b div 16), hex_digit_upper (unat b mod 16)]"

text \<open>The cast between \<open>char *\<close> and \<open>unsigned char *\<close>.\<close>

definition byte_of_char :: "char \<Rightarrow> byte" where
  "byte_of_char c = of_nat (of_char c)"

definition char_of_byte :: "byte \<Rightarrow> char" where
  "char_of_byte b = char_of (unat b)"

definition bytes_of :: "string \<Rightarrow> byte list" where
  "bytes_of s = map byte_of_char s"

definition string_of :: "byte list \<Rightarrow> string" where
  "string_of bs = map char_of_byte bs"

section \<open>Network byte order\<close>

text \<open>\<open>PUT_16\<close>, \<open>PUT_32\<close>, \<open>GET_16\<close>, \<open>GET_32\<close>: most significant byte first.\<close>

definition PUT_16 :: "int \<Rightarrow> byte list" where
  "PUT_16 v = [word_of_int (drop_bit 8 v AND 0xff), word_of_int (v AND 0xff)]"

definition PUT_32 :: "u32 \<Rightarrow> byte list" where
  "PUT_32 v = [ucast (drop_bit 24 v AND 0xff), ucast (drop_bit 16 v AND 0xff),
               ucast (drop_bit 8 v AND 0xff), ucast (v AND 0xff)]"

definition GET_16 :: "byte list \<Rightarrow> int" where
  "GET_16 p = push_bit 8 (uint (p ! 0)) OR uint (p ! 1)"

definition GET_32 :: "byte list \<Rightarrow> u32" where
  "GET_32 p = push_bit 24 (ucast (p ! 0)) OR push_bit 16 (ucast (p ! 1))
              OR push_bit 8 (ucast (p ! 2)) OR ucast (p ! 3)"

lemma bit_255_int: "bit (255 :: int) k \<longleftrightarrow> k < 8"
proof -
  have m: "(255 :: int) = mask 8" by (simp add: mask_eq_exp_minus_1)
  show ?thesis by (subst m) (simp add: bit_mask_iff)
qed

lemma bit_small_int: "0 \<le> v \<Longrightarrow> v < 2 ^ m \<Longrightarrow> bit (v::int) n \<Longrightarrow> n < m"
proof -
  assume "0 \<le> v" "v < 2 ^ m" "bit v n"
  then have "take_bit m v = v" by (simp add: take_bit_int_eq_self)
  with \<open>bit v n\<close> have "bit (take_bit m v) n" by simp
  then show "n < m" by (simp add: bit_take_bit_iff)
qed

lemma GET_32_PUT_32 [simp]: "GET_32 (PUT_32 v) = v"
proof (rule bit_word_eqI)
  fix n assume n: "n < LENGTH(32)"
  consider "n < 8" | "8 \<le> n" "n < 16" | "16 \<le> n" "n < 24" | "24 \<le> n" "n < 32"
    using n by fastforce
  then show "bit (GET_32 (PUT_32 v)) n = bit v n"
    by cases (auto simp: GET_32_def PUT_32_def bit_simps bit_255_int simp del: bit_0)
qed

lemma GET_16_PUT_16 [simp]: "0 \<le> v \<Longrightarrow> v < 65536 \<Longrightarrow> GET_16 (PUT_16 v) = v"
proof (rule bit_eqI)
  fix n assume v: "0 \<le> v" "v < 65536"
  have hi: "\<not> bit v n" if "16 \<le> n" using bit_small_int [of v 16 n] v that by auto
  consider "n < 8" | "8 \<le> n" "n < 16" | "16 \<le> n" by linarith
  then show "bit (GET_16 (PUT_16 v)) n = bit v n"
    by cases (auto simp: GET_16_def PUT_16_def bit_simps bit_255_int hi simp del: bit_0)
qed

lemma length_PUT_16 [simp]: "length (PUT_16 v) = 2"
  and length_PUT_32 [simp]: "length (PUT_32 w) = 4"
  by (simp_all add: PUT_16_def PUT_32_def)

text \<open>The header of a packet is read from its first bytes only.\<close>

lemma GET_16_append [simp]: "2 \<le> length p \<Longrightarrow> GET_16 (p @ q) = GET_16 p"
  by (cases p) (auto simp: GET_16_def nth_append)

lemma GET_32_append [simp]: "4 \<le> length p \<Longrightarrow> GET_32 (p @ q) = GET_32 p"
  by (cases p) (auto simp: GET_32_def nth_append)

section \<open>Lists\<close>

text \<open>\<open>memcpy( d + off, xs, length xs )\<close>.\<close>

definition blit :: "'a list \<Rightarrow> nat \<Rightarrow> 'a list \<Rightarrow> 'a list" where
  "blit d off xs = take off d @ xs @ drop (off + length xs) d"

lemma length_blit [simp]: "off + length xs \<le> length d \<Longrightarrow> length (blit d off xs) = length d"
  by (simp add: blit_def)

lemma take_blit [simp]: "off \<le> length d \<Longrightarrow> take off (blit d off xs) = take off d"
  by (simp add: blit_def)

lemma drop_blit [simp]: "off \<le> length d \<Longrightarrow> drop off (blit d off xs) = xs @ drop (off + length xs) d"
  by (simp add: blit_def)

text \<open>Two buffers of one size that agree from an offset on.\<close>

definition agree_from :: "nat \<Rightarrow> 'a list \<Rightarrow> 'a list \<Rightarrow> bool" where
  "agree_from i d d0 \<longleftrightarrow> length d = length d0 \<and> drop i d = drop i d0"

lemma agree_from_refl [simp]: "agree_from i d d"
  by (simp add: agree_from_def)

lemma agree_from_trans: "agree_from i d e \<Longrightarrow> agree_from i e f \<Longrightarrow> agree_from i d f"
  by (simp add: agree_from_def)

lemma agree_from_nth: "agree_from i d d0 \<Longrightarrow> i \<le> j \<Longrightarrow> j < length d0 \<Longrightarrow> d ! j = d0 ! j"
proof -
  assume a: "agree_from i d d0" and "i \<le> j" "j < length d0"
  then have "d ! j = drop i d ! (j - i)" "d0 ! j = drop i d0 ! (j - i)"
    by (subst nth_drop; simp add: agree_from_def)+
  with a show ?thesis by (simp only: agree_from_def)
qed

lemma agree_from_mono: "agree_from i d d0 \<Longrightarrow> i \<le> j \<Longrightarrow> agree_from j d d0"
proof -
  assume a: "agree_from i d d0" and "i \<le> j"
  then have "drop j d = drop (j - i) (drop i d)" "drop j d0 = drop (j - i) (drop i d0)"
    by simp_all
  with a show ?thesis by (simp add: agree_from_def)
qed

lemma agree_from_update: "agree_from i d d0 \<Longrightarrow> k < i \<Longrightarrow> agree_from i (d[k := x]) d0"
  by (simp add: agree_from_def)

lemma agree_from_step: "agree_from i d d0 \<Longrightarrow> agree_from (Suc i) (d[i := x]) d0"
  by (rule agree_from_update [OF agree_from_mono]) auto

lemma agree_from_length: "agree_from i d d0 \<Longrightarrow> length d = length d0"
  by (simp add: agree_from_def)

lemma count_list_drop_step:
  assumes "i < k" "k \<le> length d" "d ! (k - 1) = c"
  shows "count_list (drop k d) c < count_list (drop i d) c"
proof -
  have "drop i d = take (k - 1 - i) (drop i d) @ drop (k - 1) d"
    using assms(1) by (metis Suc_diff_1 append_take_drop_id drop_drop gr_implies_not0
        le_add_diff_inverse2 less_Suc_eq_le not_gr0)
  also have "drop (k - 1) d = d ! (k - 1) # drop k d"
    using assms(1,2) by (metis Cons_nth_drop_Suc Suc_diff_1 gr_implies_not0 less_le_trans not_gr0
        diff_less zero_less_one)
  finally have "count_list (drop i d) c
      = count_list (take (k - 1 - i) (drop i d)) c + Suc (count_list (drop k d) c)"
    using assms(3) by (metis count_list_append count_list.simps(2) add_Suc_right Suc_eq_plus1)
  then show ?thesis by simp
qed

lemma count_list_drop_pos: "i \<le> k \<Longrightarrow> k < length d \<Longrightarrow> d ! k = c \<Longrightarrow> 0 < count_list (drop i d) c"
  by (metis bot_nat_0.not_eq_extremum count_list_drop_step diff_Suc_1 le_imp_less_Suc less_zeroE Suc_leI)

lemma cstr_append_nul: "NUL \<notin> set s \<Longrightarrow> cstr (pre @ s @ NUL # post) (length pre) = s"
  by (induction s) (auto simp: cstr_def)

lemma cstr_eq_of_prefix:
  "i \<le> length pre \<Longrightarrow> NUL \<in> set (drop i pre) \<Longrightarrow> cstr (pre @ x) i = cstr pre i"
  by (simp add: cstr_def takeWhile_append1)

lemma cstr_no_nul: "NUL \<notin> set (cstr d i)"
  by (auto simp: cstr_def dest: set_takeWhileD)

lemma str_ieq_refl [simp]: "str_ieq a a"
  by (simp add: str_ieq_def)

lemma str_ieq_sym: "str_ieq a b \<longleftrightarrow> str_ieq b a"
  by (auto simp: str_ieq_def)

lemma str_ieq_trans: "str_ieq a b \<Longrightarrow> str_ieq b c \<Longrightarrow> str_ieq a c"
  by (simp add: str_ieq_def)

lemma strstr_SomeD:
  "strstr hay pat = Some p \<Longrightarrow>
     p + length pat \<le> length hay \<and> take (length pat) (drop p hay) = pat"
proof (induction hay arbitrary: p)
  case Nil
  then show ?case by (auto simp: strstr.simps split: if_splits)
next
  case (Cons x hay)
  show ?case
  proof (cases "take (length pat) (x # hay) = pat")
    case True
    with Cons.prems have "p = 0" by (simp add: strstr.simps [of "x # hay"])
    with True show ?thesis by (metis add_0 drop0 length_take min.cobounded1)
  next
    case False
    with Cons.prems obtain q where "strstr hay pat = Some q" "p = Suc q"
      by (auto simp: strstr.simps [of "x # hay"])
    with Cons.IH show ?thesis by auto
  qed
qed

lemma strstr_Some_nth:
  assumes "strstr hay pat = Some p" and "j < length pat"
  shows "p + j < length hay \<and> hay ! (p + j) = pat ! j"
proof -
  from strstr_SomeD [OF assms(1)]
  have le: "p + length pat \<le> length hay" and eq: "take (length pat) (drop p hay) = pat" by auto
  have "take (length pat) (drop p hay) ! j = hay ! (p + j)" using assms(2) le by simp
  with eq assms(2) le show ?thesis by simp
qed

section \<open>Decimal numbers\<close>

lemma is_digit_char: "n < 10 \<Longrightarrow> is_digit (char_of (48 + n :: nat))"
  by (simp add: is_digit_def)

lemma digit_val_char: "n < 10 \<Longrightarrow> digit_val (char_of (48 + n :: nat)) = int n"
  by (simp add: digit_val_def)

lemma dec_nat_digits: "\<forall>c\<in>set (dec_nat n). is_digit c"
proof (induction n rule: dec_nat.induct)
  case (1 n)
  then show ?case
    using is_digit_char [of n] is_digit_char [of "n mod 10"] by (subst dec_nat.simps) auto
qed

lemma dec_nat_not_Nil [simp]: "dec_nat n \<noteq> []"
  by (subst dec_nat.simps) simp

lemma digits_val_snoc:
  "\<forall>x\<in>set ds. is_digit x \<Longrightarrow> is_digit c \<Longrightarrow> digits_val a (ds @ [c]) = 10 * digits_val a ds + digit_val c"
  by (induction ds arbitrary: a) auto

lemma digits_val_dec_nat: "digits_val 0 (dec_nat n) = int n"
proof (induction n rule: dec_nat.induct)
  case (1 n)
  show ?case
  proof (cases "n < 10")
    case True
    then show ?thesis
      using is_digit_char [of n] digit_val_char [of n] by (subst dec_nat.simps) simp
  next
    case False
    with 1 have "digits_val 0 (dec_nat (n div 10) @ [char_of (48 + n mod 10)]) = int n"
      using dec_nat_digits [of "n div 10"] is_digit_char [of "n mod 10"] digit_val_char [of "n mod 10"]
      by (subst digits_val_snoc) (auto simp: zdiv_int zmod_int)
    with False show ?thesis by (subst dec_nat.simps) simp
  qed
qed

lemma is_digit_not_space: "is_digit c \<Longrightarrow> \<not> is_space c \<and> c \<noteq> CHR ''-'' \<and> c \<noteq> CHR ''+''"
  by (auto simp: is_digit_def is_space_def)

lemma strtol10_dec_nat:
  assumes "r = [] \<or> \<not> is_digit (hd r)"
  shows "strtol10 (dec_nat n @ r) = (int n, length (dec_nat n))"
proof -
  obtain c w where cw: "dec_nat n = c # w" by (cases "dec_nat n") auto
  with dec_nat_digits [of n] have c: "is_digit c" by simp
  have "takeWhile is_digit (dec_nat n @ r) = dec_nat n"
    using assms dec_nat_digits [of n] by (cases r) (simp_all add: takeWhile_append2)
  then show ?thesis
    using is_digit_not_space [OF c] c digits_val_dec_nat [of n]
    by (simp add: strtol10_def cw Let_def)
qed

lemma dec_int_nonneg: "0 \<le> i \<Longrightarrow> dec_int i = dec_nat (nat i)"
  by (simp add: dec_int_def)

text \<open>A number of three digits is written with three digits.\<close>

lemma dec_nat_3: "100 \<le> n \<Longrightarrow> n < 1000 \<Longrightarrow>
    dec_nat n = [char_of (48 + n div 100), char_of (48 + n div 10 mod 10), char_of (48 + n mod 10)]"
  by (subst dec_nat.simps, subst dec_nat.simps, subst dec_nat.simps)
     (auto simp: div_mult2_eq [symmetric])

lemma length_dec_nat_le: "n < 10 ^ Suc k \<Longrightarrow> length (dec_nat n) \<le> Suc k"
proof (induction k arbitrary: n)
  case 0
  then show ?case by (subst dec_nat.simps) simp
next
  case (Suc k)
  then have "n div 10 < 10 ^ Suc k" by auto
  from Suc.IH [OF this] show ?case by (subst dec_nat.simps) simp
qed

lemma length_dec_nat_pos [simp]: "0 < length (dec_nat n)"
  by simp

section \<open>Characters as bytes\<close>

lemma of_char_char_of_byte: "(of_char (char_of_byte b) :: nat) = unat b"
  using unsigned_less [where ?'a = nat, of b] by (simp add: char_of_byte_def)

lemma byte_of_char_of_byte [simp]: "byte_of_char (char_of_byte b) = b"
  by (simp add: byte_of_char_def of_char_char_of_byte)

lemma char_of_byte_of_char [simp]: "char_of_byte (byte_of_char c) = c"
proof -
  have "(of_char c :: nat) < 256" by simp
  then have "unat (byte_of_char c) = (of_char c :: nat)"
    by (simp add: byte_of_char_def unat_of_nat take_bit_nat_eq_self)
  then show ?thesis by (simp add: char_of_byte_def)
qed

lemma bytes_of_string_of [simp]: "bytes_of (string_of bs) = bs"
  by (simp add: bytes_of_def string_of_def comp_def)

lemma string_of_bytes_of [simp]: "string_of (bytes_of s) = s"
  by (simp add: bytes_of_def string_of_def comp_def)

lemma length_bytes_of [simp]: "length (bytes_of s) = length s"
  and length_string_of [simp]: "length (string_of b) = length b"
  by (simp_all add: bytes_of_def string_of_def)

lemma bytes_of_append [simp]: "bytes_of (s @ t) = bytes_of s @ bytes_of t"
  and string_of_append [simp]: "string_of (x @ y) = string_of x @ string_of y"
  and string_of_Cons: "string_of (z # y) = char_of_byte z # string_of y"
  by (simp_all add: bytes_of_def string_of_def)

section \<open>Bytes, bit by bit\<close>

lemma byte_bit_lt: "bit (x :: byte) k \<Longrightarrow> k < 8"
  by (auto dest: bit_imp_le_length)

lemma byte_eqI:
  assumes "bit (x :: byte) 0 = bit y 0" "bit x 1 = bit y 1" "bit x 2 = bit y 2" "bit x 3 = bit y 3"
    "bit x 4 = bit y 4" "bit x 5 = bit y 5" "bit x 6 = bit y 6" "bit x 7 = bit y 7"
  shows "x = y"
proof (rule bit_word_eqI)
  fix n assume "n < LENGTH(8)"
  then have "n \<in> {0, 1, 2, 3, 4, 5, 6, 7}" by auto
  then show "bit x n = bit y n" using assms by auto
qed

end
