(* ===== verification/Pmsg.thy ===== *)
theory Pmsg
  imports Prelude
begin

text \<open>
  \<open>pmsg.c\<close>: the text messages of RTSP and HTTP. A message is one buffer; the method, the
  URI, the protocol and the header names and values are pointers into it, here offsets.
  \<open>parse_pmsg\<close> cuts the buffer into C strings in place, by writing NULs over the
  delimiters. The buffer has \<open>max_len = length (pm_msg m)\<close> bytes, and every access the C
  code makes without a check of its own goes through \<open>rd\<close> or \<open>wr\<close>.
\<close>

section \<open>State\<close>

datatype pmsg_type = PMSG_REQ | PMSG_RESP

definition MAX_FIELDS :: nat where
  "MAX_FIELDS = 32"

record pmsg =
  pm_msg :: string
  pm_len :: nat
  pm_fields :: "(nat \<times> nat) list"
  pm_type :: pmsg_type
  pm_proto :: nat
  pm_method :: nat
  pm_uri :: nat
  pm_code :: int
  pm_reason :: nat

abbreviation max_len :: "pmsg \<Rightarrow> nat" where
  "max_len m \<equiv> length (pm_msg m)"

definition new_pmsg :: "nat \<Rightarrow> pmsg" where
  "new_pmsg sz =
     \<lparr>pm_msg = replicate sz NUL, pm_len = 0, pm_fields = [], pm_type = PMSG_REQ,
      pm_proto = 0, pm_method = 0, pm_uri = 0, pm_code = 0, pm_reason = 0\<rparr>"

section \<open>Building a message\<close>

definition add_pmsg_string :: "pmsg \<Rightarrow> string \<Rightarrow> (pmsg \<times> nat) option" where
  "add_pmsg_string m s =
     (let len = length s + 1
      in if pm_len m + len > max_len m then None
         else Some (m\<lparr>pm_msg := blit (pm_msg m) (pm_len m) (s @ [NUL]),
                      pm_len := pm_len m + len\<rparr>, pm_len m))"

definition get_header :: "pmsg \<Rightarrow> string \<Rightarrow> string option" where
  "get_header m name =
     map_option (\<lambda>(n, v). cstr (pm_msg m) v)
       (find (\<lambda>(n, v). str_ieq (cstr (pm_msg m) n) name) (pm_fields m))"

text \<open>
  The result \<open>-1\<close> is \<open>False\<close>. On failure the name may already have been appended to the
  buffer; \<open>header_count\<close> is unchanged.
\<close>

definition add_header :: "pmsg \<Rightarrow> string \<Rightarrow> string \<Rightarrow> pmsg \<times> bool" where
  "add_header m name val =
     (if length (pm_fields m) = MAX_FIELDS then (m, False)
      else case add_pmsg_string m name of
        None \<Rightarrow> (m, False)
      | Some (m1, n) \<Rightarrow>
          (case add_pmsg_string m1 val of
             None \<Rightarrow> (m1, False)
           | Some (m2, v) \<Rightarrow> (m2\<lparr>pm_fields := pm_fields m2 @ [(n, v)]\<rparr>, True)))"

text \<open>
  \<open>add_header_printf\<close> formats into the rest of the buffer before it looks at anything, the
  formatted text \<open>s\<close> being cut to what fits; then it adds the name behind it.
\<close>

definition vsnprintf_at :: "string \<Rightarrow> nat \<Rightarrow> string \<Rightarrow> string" where
  "vsnprintf_at d off s =
     (if length d \<le> off then d else blit d off (take (length d - off - 1) s @ [NUL]))"

definition add_header_printf :: "pmsg \<Rightarrow> string \<Rightarrow> string \<Rightarrow> pmsg \<times> bool" where
  "add_header_printf m name s =
     (let m1 = m\<lparr>pm_msg := vsnprintf_at (pm_msg m) (pm_len m) s\<rparr>
      in if length (pm_fields m1) = MAX_FIELDS then (m1, False)
         else if pm_len m1 + length s \<ge> max_len m1 then (m1, False)
         else let v = pm_len m1;
                  m2 = m1\<lparr>pm_len := pm_len m1 + length s + 1\<rparr>
              in case add_pmsg_string m2 name of
                   None \<Rightarrow> (m2, False)
                 | Some (m3, n) \<Rightarrow> (m3\<lparr>pm_fields := pm_fields m3 @ [(n, v)]\<rparr>, True))"

text \<open>\<open>replace_header\<close> overwrites the value in place when the new one is not longer.\<close>

fun find_field :: "pmsg \<Rightarrow> string \<Rightarrow> nat \<Rightarrow> (nat \<times> nat) list \<Rightarrow> nat option" where
  "find_field m name i [] = None"
| "find_field m name i ((n, v) # fs) =
     (if str_ieq (cstr (pm_msg m) n) name then Some i else find_field m name (Suc i) fs)"

definition replace_header :: "pmsg \<Rightarrow> string \<Rightarrow> string \<Rightarrow> pmsg \<times> bool" where
  "replace_header m name val =
     (case find_field m name 0 (pm_fields m) of
        Some i \<Rightarrow>
          (let (n, v) = pm_fields m ! i
           in if length (cstr (pm_msg m) v) < length val
              then case add_pmsg_string m val of
                     None \<Rightarrow> (m, False)
                   | Some (m1, p) \<Rightarrow> (m1\<lparr>pm_fields := (pm_fields m1)[i := (n, p)]\<rparr>, True)
              else (m\<lparr>pm_msg := blit (pm_msg m) v (val @ [NUL])\<rparr>, True))
      | None \<Rightarrow> add_header m name val)"

fun copy_fields :: "pmsg \<Rightarrow> pmsg \<Rightarrow> string \<Rightarrow> (nat \<times> nat) list \<Rightarrow> nat \<Rightarrow> pmsg \<times> nat" where
  "copy_fields dest src name [] count = (dest, count)"
| "copy_fields dest src name ((n, v) # fs) count =
     (if str_ieq (cstr (pm_msg src) n) name
      then copy_fields (fst (add_header dest (cstr (pm_msg src) n) (cstr (pm_msg src) v)))
             src name fs (Suc count)
      else copy_fields dest src name fs count)"

definition copy_headers :: "pmsg \<Rightarrow> pmsg \<Rightarrow> string \<Rightarrow> pmsg \<times> nat" where
  "copy_headers dest src name = copy_fields dest src name (pm_fields src) 0"

section \<open>Header parameters\<close>

text \<open>
  \<open>get_param( value, tag, dest, size )\<close> looks for \<open>;tag\<close> or \<open>;tag=v\<close>. The scan starts by
  stepping over the first character of the value unconditionally (on an empty value that
  is already past the terminating NUL), and resumes at the next semicolon. The result
  pairs the C return value with the bytes left in \<open>dest\<close>, which is not NULL at any call.
\<close>

function get_param_scan :: "string \<Rightarrow> string \<Rightarrow> nat \<Rightarrow> (int \<times> string option) cres" where
  "get_param_scan c tag sz =
     (case c of
        [] \<Rightarrow> Inl Fault
      | _ # c1 \<Rightarrow>
          if strn_ieq (length tag) c1 tag then
            (let c2 = drop (length tag) c1 in
             if c2 = [] \<or> hd c2 = CHR '';'' then Inr (1, if sz > 0 then Some [] else None)
             else if hd c2 = CHR ''='' then
               (if sz = 0 then Inr (1, None)
                else let w = takeWhile (\<lambda>x. x \<noteq> CHR '';'') (tl c2)
                     in if sz \<le> length w then Inr (-1, Some (take sz w)) else Inr (1, Some w))
             else case strchr c2 (CHR '';'') of
                    None \<Rightarrow> Inr (0, None)
                  | Some k \<Rightarrow> get_param_scan (drop k c2) tag sz)
          else case strchr c1 (CHR '';'') of
                 None \<Rightarrow> Inr (0, None)
               | Some k \<Rightarrow> get_param_scan (drop k c1) tag sz)"
  by pat_completeness auto
termination
  by (relation "measure (\<lambda>(c, tag, sz). length c)") auto

declare get_param_scan.simps [simp del]

definition get_param :: "string option \<Rightarrow> string \<Rightarrow> nat \<Rightarrow> (int \<times> string option) cres" where
  "get_param v tag sz = (case v of None \<Rightarrow> Inr (-1, None) | Some s \<Rightarrow> get_param_scan s tag sz)"

section \<open>Parsing\<close>

text \<open>
  \<open>delim( d + i, len - i, a, b )\<close>: how many characters come before the first \<open>a\<close>, \<open>b\<close>,
  carriage return or newline; \<open>skip_chars\<close> is the inline loop
  \<open>while( i < len && P( d[i] ) ) ++i\<close>.
\<close>

function delim :: "string \<Rightarrow> nat \<Rightarrow> nat \<Rightarrow> char \<Rightarrow> char \<Rightarrow> nat" where
  "delim d i len a b =
     (if i < len \<and> \<not> (d ! i = a \<or> d ! i = b \<or> d ! i = CR \<or> d ! i = LF)
      then Suc (delim d (Suc i) len a b) else 0)"
  by pat_completeness auto
termination
  by (relation "measure (\<lambda>(d, i, len, a, b). len - i)") auto

declare delim.simps [simp del]

function skip_chars :: "(char \<Rightarrow> bool) \<Rightarrow> string \<Rightarrow> nat \<Rightarrow> nat \<Rightarrow> nat" where
  "skip_chars P d len i = (if i < len \<and> P (d ! i) then skip_chars P d len (Suc i) else i)"
  by pat_completeness auto
termination
  by (relation "measure (\<lambda>(P, d, len, i). len - i)") auto

declare skip_chars.simps [simp del]

definition is_sp :: "char \<Rightarrow> bool" where
  "is_sp c \<longleftrightarrow> c = SPC"

definition is_blank :: "char \<Rightarrow> bool" where
  "is_blank c \<longleftrightarrow> c = SPC \<or> c = TAB"

text \<open>The first line of a response: protocol, three-digit code, reason.\<close>

definition parse_status_line ::
  "string \<Rightarrow> nat \<Rightarrow> (string \<times> int \<times> nat \<times> nat) cres" where
  "parse_status_line d len =
     (let i = delim d 0 len SPC NUL in
      bindE (rd d i) (\<lambda>c.
      if c \<noteq> SPC then Inl Fail else
      bindE (wr d i NUL) (\<lambda>d.
      let i = skip_chars is_sp d len (Suc i) in
      if len < i + 4 \<or> \<not> is_digit (d ! i) \<or> \<not> is_digit (d ! (i + 1))
         \<or> \<not> is_digit (d ! (i + 2)) \<or> d ! (i + 3) \<noteq> SPC then Inl Fail
      else
        let code = fst (strtol10 (drop i d));
            r = skip_chars is_sp d len (i + 4);
            i = r + delim d r len NUL NUL
        in bindE (wr d i NUL) (\<lambda>d. Inr (d, code, r, Suc i)))))"

text \<open>The first line of a request: method, URI, protocol.\<close>

definition parse_request_line ::
  "string \<Rightarrow> nat \<Rightarrow> (string \<times> nat \<times> nat \<times> nat) cres" where
  "parse_request_line d len =
     (let i = delim d 0 len SPC NUL in
      if len \<le> i \<or> d ! i \<noteq> SPC then Inl Fail else
      bindE (wr d i NUL) (\<lambda>d.
      let u = skip_chars is_sp d len (Suc i);
          i = u + delim d u len SPC NUL in
      if len \<le> i \<or> d ! i \<noteq> SPC then Inl Fail else
      bindE (wr d i NUL) (\<lambda>d.
      let p = skip_chars is_sp d len (Suc i);
          i = p + delim d p len NUL NUL in
      bindE (wr d i NUL) (\<lambda>d. Inr (d, u, p, Suc i)))))"

text \<open>What must follow the first line: spaces, a carriage return if one is left, a newline.\<close>

definition end_of_line :: "string \<Rightarrow> nat \<Rightarrow> nat \<Rightarrow> nat cres" where
  "end_of_line d len i =
     (let i = skip_chars is_sp d len i;
          i = (if i < len \<and> d ! i = CR then Suc i else i)
      in if len \<le> i \<or> d ! i \<noteq> LF then Inl Fail else Inr (Suc i))"

text \<open>
  One header line from offset \<open>i\<close> on: the buffer with the two NULs, the offsets of name and
  value, and the offset of the next line.
\<close>

definition parse_header_line ::
  "string \<Rightarrow> nat \<Rightarrow> nat \<Rightarrow> (string \<times> nat \<times> nat \<times> nat) cres" where
  "parse_header_line d len nm =
     (let i = nm + delim d nm len SPC CHR '':'' in
      if len \<le> i then Inl Fail else
      bindE (if d ! i = SPC
             then bindE (wr d i NUL) (\<lambda>d. Inr (d, skip_chars is_sp d len (Suc i)))
             else Inr (d, i)) (\<lambda>(d, i).
      if len \<le> i \<or> d ! i \<noteq> CHR '':'' then Inl Fail else
      bindE (wr d i NUL) (\<lambda>d.
      let v = skip_chars is_blank d len (Suc i);
          i = v + delim d v len NUL NUL in
      bindE (wr d i NUL) (\<lambda>d.
      let i = Suc i in
      if len \<le> i \<or> d ! i \<noteq> LF then Inl Fail else Inr (d, nm, v, Suc i)))))"

text \<open>
  The loop over the header lines. The store into \<open>msg->fields[header_count]\<close> has no bounds
  check in the code: with \<open>MAX_FIELDS\<close> headers read it goes past the array.
\<close>

lemma skip_chars_ge: "i \<le> skip_chars P d len i"
proof (induction P d len i rule: skip_chars.induct)
  case (1 P d len i)
  then show ?case by (subst skip_chars.simps) auto
qed

lemma parse_header_line_progress:
  "parse_header_line d len nm = Inr (d', n, v, i') \<Longrightarrow> nm < i' \<and> i' \<le> len"
  using skip_chars_ge
  by (auto simp: parse_header_line_def Let_def bindE_eq_Inr split: if_splits)
     (meson le_add1 le_less_trans le_trans lessI less_SucI Suc_leI Suc_le_lessD)+

function parse_headers ::
  "string \<Rightarrow> nat \<Rightarrow> nat \<Rightarrow> (nat \<times> nat) list \<Rightarrow> (string \<times> (nat \<times> nat) list \<times> nat) cres" where
  "parse_headers d len i0 fs =
     (let i = (if i0 < len \<and> d ! i0 = CR then Suc i0 else i0) in
      if i = len then Inr (d, fs, len) else
      bindE (rd d i) (\<lambda>c.
      if c = LF then Inr (d, fs, Suc i)
      else if c = TAB \<or> c = SPC then Inl Fail
      else if MAX_FIELDS \<le> length fs then Inl Fault
      else bindE (parse_header_line d len i) (\<lambda>(d', n, v, i').
             parse_headers d' len i' (fs @ [(n, v)]))))"
  by pat_completeness auto
termination
  by (relation "measure (\<lambda>(d, len, i, fs). len - i)")
     (auto dest!: parse_header_line_progress split: if_splits)

declare parse_headers.simps [simp del]

text \<open>\<open>parse_pmsg\<close> returns how much of the buffer it consumed.\<close>

definition parse_pmsg :: "pmsg \<Rightarrow> (pmsg \<times> nat) cres" where
  "parse_pmsg m =
     (let d = pm_msg m; len = pm_len m in
      if len < 4 then Inl Fail else
      let i = skip_chars (\<lambda>c. c \<noteq> SPC \<and> c \<noteq> CHR ''/'') d len 0 in
      if i = len then Inl Fail
      else if d ! i = CHR ''/'' then
        bindE (parse_status_line d len) (\<lambda>(d, code, r, i).
        bindE (end_of_line d len i) (\<lambda>i.
        bindE (parse_headers d len i []) (\<lambda>(d, fs, k).
          Inr (m\<lparr>pm_msg := d, pm_fields := fs, pm_type := PMSG_RESP, pm_proto := 0,
                 pm_code := code, pm_reason := r\<rparr>, k))))
      else
        bindE (parse_request_line d len) (\<lambda>(d, u, pr, i).
        bindE (end_of_line d len i) (\<lambda>i.
        bindE (parse_headers d len i []) (\<lambda>(d, fs, k).
          Inr (m\<lparr>pm_msg := d, pm_fields := fs, pm_type := PMSG_REQ, pm_method := 0,
                 pm_uri := u, pm_proto := pr\<rparr>, k)))))"

section \<open>Scanning\<close>

lemma delim_le: "i \<le> len \<Longrightarrow> i + delim d i len a b \<le> len"
proof (induction d i len a b rule: delim.induct)
  case (1 d i len a b)
  then show ?case by (subst delim.simps) auto
qed

lemma delim_le_stop:
  "i \<le> p \<Longrightarrow> p < len \<Longrightarrow> d ! p = CR \<or> d ! p = LF \<Longrightarrow> i + delim d i len a b \<le> p"
proof (induction d i len a b rule: delim.induct)
  case (1 d i len a b)
  show ?case
  proof (cases "i = p")
    case True
    with 1 show ?thesis by (subst delim.simps) auto
  next
    case False
    with 1 show ?thesis by (subst delim.simps) auto
  qed
qed

lemma skip_chars_le_stop: "i \<le> p \<Longrightarrow> p < len \<Longrightarrow> \<not> P (d ! p) \<Longrightarrow> skip_chars P d len i \<le> p"
proof (induction P d len i rule: skip_chars.induct)
  case (1 P d len i)
  show ?case
  proof (cases "i = p")
    case True
    with 1 show ?thesis by (subst skip_chars.simps) auto
  next
    case False
    with 1 show ?thesis by (subst skip_chars.simps) auto
  qed
qed

lemma skip_chars_le: "i \<le> len \<Longrightarrow> skip_chars P d len i \<le> len"
proof (induction P d len i rule: skip_chars.induct)
  case (1 P d len i)
  then show ?case by (subst skip_chars.simps) auto
qed

text \<open>
  The parser works left to right and writes only behind its position: \<open>on_track\<close> says that
  a blank line starts at \<open>p\<close>, that the position \<open>i\<close> has not passed it, and that the
  buffer from \<open>i\<close> on is still the one received.
\<close>

definition blank_line_at :: "string \<Rightarrow> nat \<Rightarrow> nat \<Rightarrow> bool" where
  "blank_line_at d p len \<longleftrightarrow>
     p + 4 \<le> len \<and> len \<le> length d \<and> d ! p = CR \<and> d ! (p + 1) = LF \<and> d ! (p + 2) = CR
     \<and> d ! (p + 3) = LF"

definition on_track :: "string \<Rightarrow> nat \<Rightarrow> nat \<Rightarrow> string \<Rightarrow> nat \<Rightarrow> bool" where
  "on_track d0 p len d i \<longleftrightarrow> blank_line_at d0 p len \<and> agree_from i d d0 \<and> i \<le> p"

lemma on_track_len:
  "on_track d0 p len d i \<Longrightarrow>
     i < len \<and> len \<le> length d \<and> i < length d \<and> d ! p = CR \<and> p < len \<and> i \<le> p"
  by (auto simp: on_track_def blank_line_at_def agree_from_length agree_from_nth)

lemma on_track_mono: "on_track d0 p len d i \<Longrightarrow> i \<le> k \<Longrightarrow> k \<le> p \<Longrightarrow> on_track d0 p len d k"
  by (auto simp: on_track_def intro: agree_from_mono)

lemma on_track_delim: "on_track d0 p len d i \<Longrightarrow> on_track d0 p len d (i + delim d i len a b)"
  using on_track_len [of d0 p len d i] delim_le_stop [of i p len d a b]
  by (auto intro: on_track_mono)

lemma on_track_skip:
  "on_track d0 p len d i \<Longrightarrow> \<not> P CR \<Longrightarrow> on_track d0 p len d (skip_chars P d len i)"
  using on_track_len [of d0 p len d i] skip_chars_le_stop [of i p len P d]
    skip_chars_ge [of i P d len]
  by (auto intro: on_track_mono)

lemma on_track_cut:
  "on_track d0 p len d i \<Longrightarrow> d ! i \<noteq> CR \<Longrightarrow> on_track d0 p len (d[i := x]) (Suc i)"
  using on_track_len [of d0 p len d i]
  by (auto simp: on_track_def le_less intro: agree_from_step)

lemma on_track_last:
  "on_track d0 p len d i \<Longrightarrow> agree_from (Suc i) (d[i := x]) d0 \<and> Suc i \<le> p + 1"
  by (auto simp: on_track_def intro: agree_from_step)

lemma on_track_wr: "on_track d0 p len d i \<Longrightarrow> wr d i x = Inr (d[i := x])"
  using on_track_len [of d0 p len d i] by simp

lemma on_track_rd: "on_track d0 p len d i \<Longrightarrow> rd d i = Inr (d ! i)"
  using on_track_len [of d0 p len d i] by simp

lemmas on_track_intros = on_track_delim on_track_skip on_track_cut

lemma not_blank_CR [simp]: "\<not> is_sp CR" "\<not> is_blank CR" "\<not> is_digit CR"
  by (simp_all add: is_sp_def is_blank_def is_digit_def)

section \<open>Memory safety of the parser\<close>

text \<open>
  What a line cutter leaves: the line ended at or before the carriage return at \<open>p\<close>, so the
  position is at most one past it and the rest of the buffer is untouched.
\<close>

definition cut_ok :: "string \<Rightarrow> nat \<Rightarrow> string \<Rightarrow> nat \<Rightarrow> bool" where
  "cut_ok d0 p d i \<longleftrightarrow> agree_from i d d0 \<and> i \<le> p + 1"

lemma parse_request_line_safe:
  assumes b: "blank_line_at d0 p len"
  shows "parse_request_line d0 len \<noteq> Inl Fault \<and>
    (\<forall>d u pr i. parse_request_line d0 len = Inr (d, u, pr, i) \<longrightarrow> cut_ok d0 p d i)"
proof -
  from b have t0: "on_track d0 p len d0 0" by (simp add: on_track_def)
  define i1 where "i1 = delim d0 0 len SPC NUL"
  from on_track_delim [OF t0] have t1: "on_track d0 p len d0 i1" by (simp add: i1_def)
  show ?thesis
  proof (cases "len \<le> i1 \<or> d0 ! i1 \<noteq> SPC")
    case True
    then show ?thesis by (auto simp: parse_request_line_def i1_def [symmetric] Let_def)
  next
    case sp1: False
    define d1 where "d1 = d0[i1 := NUL]"
    define u where "u = skip_chars is_sp d1 len (Suc i1)"
    define i2 where "i2 = u + delim d1 u len SPC NUL"
    from sp1 have "on_track d0 p len d1 (Suc i1)" unfolding d1_def by (intro on_track_cut t1) simp
    then have t2: "on_track d0 p len d1 i2"
      unfolding i2_def u_def by (intro on_track_intros) simp_all
    show ?thesis
    proof (cases "len \<le> i2 \<or> d1 ! i2 \<noteq> SPC")
      case True
      with sp1 show ?thesis
        by (auto simp: parse_request_line_def i1_def [symmetric] d1_def [symmetric]
            u_def [symmetric] i2_def [symmetric] Let_def on_track_wr [OF t1])
    next
      case sp2: False
      define d2 where "d2 = d1[i2 := NUL]"
      define pr where "pr = skip_chars is_sp d2 len (Suc i2)"
      define i3 where "i3 = pr + delim d2 pr len NUL NUL"
      from sp2 have "on_track d0 p len d2 (Suc i2)" unfolding d2_def by (intro on_track_cut t2) simp
      then have t3: "on_track d0 p len d2 i3"
        unfolding i3_def pr_def by (intro on_track_intros) simp_all
      from sp1 sp2 have "parse_request_line d0 len = Inr (d2[i3 := NUL], u, pr, Suc i3)"
        by (auto simp: parse_request_line_def i1_def [symmetric] d1_def [symmetric]
            u_def [symmetric] i2_def [symmetric] d2_def [symmetric] pr_def [symmetric]
            i3_def [symmetric] Let_def on_track_wr [OF t1] on_track_wr [OF t2] on_track_wr [OF t3])
      with on_track_last [OF t3] show ?thesis by (auto simp: cut_ok_def)
    qed
  qed
qed

lemma parse_status_line_safe:
  assumes b: "blank_line_at d0 p len"
  shows "parse_status_line d0 len \<noteq> Inl Fault \<and>
    (\<forall>d c r i. parse_status_line d0 len = Inr (d, c, r, i) \<longrightarrow> cut_ok d0 p d i)"
proof -
  from b have t0: "on_track d0 p len d0 0" by (simp add: on_track_def)
  define i1 where "i1 = delim d0 0 len SPC NUL"
  from on_track_delim [OF t0] have t1: "on_track d0 p len d0 i1" by (simp add: i1_def)
  define d1 where "d1 = d0[i1 := NUL]"
  define i2 where "i2 = skip_chars is_sp d1 len (Suc i1)"
  show ?thesis
  proof (cases "d0 ! i1 \<noteq> SPC \<or> len < i2 + 4 \<or> \<not> is_digit (d1 ! i2) \<or> \<not> is_digit (d1 ! (i2 + 1))
         \<or> \<not> is_digit (d1 ! (i2 + 2)) \<or> d1 ! (i2 + 3) \<noteq> SPC")
    case True
    then show ?thesis
      by (auto simp: parse_status_line_def i1_def [symmetric] d1_def [symmetric]
          i2_def [symmetric] Let_def on_track_wr [OF t1] on_track_rd [OF t1])
  next
    case ok: False
    then have "on_track d0 p len d1 (Suc i1)" unfolding d1_def by (intro on_track_cut t1) simp
    then have t2: "on_track d0 p len d1 i2"
      unfolding i2_def by (intro on_track_intros) simp_all
    have "p \<noteq> i2" "p \<noteq> i2 + 1" "p \<noteq> i2 + 2" "p \<noteq> i2 + 3"
      using ok on_track_len [OF t2] by auto
    with on_track_len [OF t2] have "i2 + 4 \<le> p" by linarith
    then have t3: "on_track d0 p len d1 (i2 + 4)" using t2 by (auto intro: on_track_mono)
    define r where "r = skip_chars is_sp d1 len (i2 + 4)"
    define i3 where "i3 = r + delim d1 r len NUL NUL"
    have t4: "on_track d0 p len d1 i3"
      unfolding i3_def r_def by (intro on_track_intros t3) simp_all
    from ok have "parse_status_line d0 len =
        Inr (d1[i3 := NUL], fst (strtol10 (drop i2 d1)), r, Suc i3)"
      by (auto simp: parse_status_line_def i1_def [symmetric] d1_def [symmetric]
          i2_def [symmetric] r_def [symmetric] i3_def [symmetric] Let_def
          on_track_wr [OF t1] on_track_rd [OF t1] on_track_wr [OF t4])
    with on_track_last [OF t4] show ?thesis by (auto simp: cut_ok_def)
  qed
qed

text \<open>
  A consumed line: the position moved past a newline of the received buffer, at most to the
  second carriage return of the blank line.
\<close>

definition line_done :: "string \<Rightarrow> nat \<Rightarrow> nat \<Rightarrow> string \<Rightarrow> nat \<Rightarrow> bool" where
  "line_done d0 p i0 d i \<longleftrightarrow>
     agree_from i d d0 \<and> i \<le> p + 2 \<and> i0 < i \<and> d0 ! (i - 1) = LF"

lemma cut_then_newline:
  assumes "blank_line_at d0 p len" "cut_ok d0 p d i" "i < len" "d ! i = LF" "i0 \<le> i"
  shows "line_done d0 p i0 d (Suc i)"
proof -
  from assms have "length d = length d0" "i < length d0"
    by (auto simp: cut_ok_def blank_line_at_def agree_from_length)
  with assms have "d0 ! i = LF" using agree_from_nth [of i d d0 i] by (auto simp: cut_ok_def)
  with assms show ?thesis by (auto simp: line_done_def cut_ok_def intro: agree_from_mono)
qed

lemma cut_ok_skip:
  assumes b: "blank_line_at d0 p len" and c: "cut_ok d0 p d i"
  shows "cut_ok d0 p d (skip_chars is_sp d len i)"
proof (cases "i \<le> p")
  case True
  with b c have "on_track d0 p len d i" by (simp add: on_track_def cut_ok_def)
  then have "on_track d0 p len d (skip_chars is_sp d len i)" by (rule on_track_skip) simp
  then show ?thesis by (auto simp: on_track_def cut_ok_def)
next
  case False
  with b c have "d ! i = LF"
    using agree_from_nth [of i d d0 i]
    by (auto simp: cut_ok_def blank_line_at_def le_Suc_eq)
  then have "skip_chars is_sp d len i = i" by (subst skip_chars.simps) (simp add: is_sp_def)
  with c show ?thesis by simp
qed

lemma end_of_line_safe:
  assumes b: "blank_line_at d0 p len" and c: "cut_ok d0 p d i"
  shows "end_of_line d len i \<noteq> Inl Fault \<and>
    (\<forall>k. end_of_line d len i = Inr k \<longrightarrow> line_done d0 p i d k)"
proof -
  define j where "j = skip_chars is_sp d len i"
  define k where "k = (if j < len \<and> d ! j = CR then Suc j else j)"
  from cut_ok_skip [OF assms] have j: "cut_ok d0 p d j" by (simp add: j_def)
  have k: "cut_ok d0 p d k"
  proof (cases "j < len \<and> d ! j = CR")
    case True
    have "j \<noteq> p + 1"
      using True b j agree_from_nth [of j d d0 j] by (auto simp: cut_ok_def blank_line_at_def)
    with True j show ?thesis by (auto simp: k_def cut_ok_def intro: agree_from_mono)
  qed (use j in \<open>auto simp: k_def\<close>)
  have ik: "i \<le> k" using skip_chars_ge [of i is_sp d len] by (auto simp: k_def j_def)
  have "end_of_line d len i = (if len \<le> k \<or> d ! k \<noteq> LF then Inl Fail else Inr (Suc k))"
    by (simp add: end_of_line_def Let_def j_def [symmetric] k_def [symmetric])
  with cut_then_newline [OF b k _ _ ik] show ?thesis by auto
qed

lemma parse_header_line_safe:
  assumes t0: "on_track d0 p len d nm"
  shows "parse_header_line d len nm \<noteq> Inl Fault \<and>
    (\<forall>d' n v i. parse_header_line d len nm = Inr (d', n, v, i) \<longrightarrow> line_done d0 p nm d' i)"
proof -
  have b: "blank_line_at d0 p len" using t0 by (simp add: on_track_def)
  define i1 where "i1 = nm + delim d nm len SPC CHR '':''"
  from on_track_delim [OF t0] have t1: "on_track d0 p len d i1" by (simp add: i1_def)
  define d1 where "d1 = (if d ! i1 = SPC then d[i1 := NUL] else d)"
  define i2 where "i2 = (if d ! i1 = SPC then skip_chars is_sp d1 len (Suc i1) else i1)"
  have t2: "on_track d0 p len d1 i2"
    using t1 on_track_cut [OF t1, of NUL] by (auto simp: i2_def d1_def intro: on_track_skip)
  have i12: "nm \<le> i2"
    using skip_chars_ge [of "Suc i1" is_sp d1 len] by (auto simp: i2_def i1_def)
  have first: "(if d ! i1 = SPC
       then bindE (wr d i1 NUL) (\<lambda>d. Inr (d, skip_chars is_sp d len (Suc i1)))
       else Inr (d, i1)) = Inr (d1, i2)"
    by (simp add: on_track_wr [OF t1] d1_def i2_def)
  show ?thesis
  proof (cases "len \<le> i1 \<or> len \<le> i2 \<or> d1 ! i2 \<noteq> CHR '':''")
    case True
    then show ?thesis
      by (auto simp: parse_header_line_def i1_def [symmetric] Let_def first)
  next
    case ok: False
    define d2 where "d2 = d1[i2 := NUL]"
    define v where "v = skip_chars is_blank d2 len (Suc i2)"
    define i3 where "i3 = v + delim d2 v len NUL NUL"
    from ok have "on_track d0 p len d2 (Suc i2)" unfolding d2_def by (intro on_track_cut t2) simp
    then have t3: "on_track d0 p len d2 i3"
      unfolding i3_def v_def by (intro on_track_intros) simp_all
    have i13: "nm \<le> Suc i3"
      using i12 skip_chars_ge [of "Suc i2" is_blank d2 len] by (simp add: i3_def v_def)
    define d3 where "d3 = d2[i3 := NUL]"
    have c: "cut_ok d0 p d3 (Suc i3)"
      using on_track_last [OF t3] by (simp add: cut_ok_def d3_def)
    have "parse_header_line d len nm =
        (if len \<le> Suc i3 \<or> d3 ! Suc i3 \<noteq> LF then Inl Fail else Inr (d3, nm, v, Suc (Suc i3)))"
      using ok
      by (simp add: parse_header_line_def i1_def [symmetric] d2_def [symmetric] first
          v_def [symmetric] i3_def [symmetric] d3_def [symmetric] Let_def
          on_track_wr [OF t2] on_track_wr [OF t3])
    with cut_then_newline [OF b c _ _ i13] show ?thesis by auto
  qed
qed

lemma parse_headers_safe:
  assumes "blank_line_at d0 p len" "agree_from i d d0" "i \<le> p + 2"
    "length fs + count_list (drop i d0) LF \<le> MAX_FIELDS"
  shows "parse_headers d len i fs \<noteq> Inl Fault"
  using assms
proof (induction d len i fs rule: parse_headers.induct)
  case (1 d len i0 fs)
  note b = "1.prems"(1) and ag = "1.prems"(2) and le = "1.prems"(3) and cnt = "1.prems"(4)
  define i where "i = (if i0 < len \<and> d ! i0 = CR then Suc i0 else i0)"
  have len: "length d = length d0" "p + 4 \<le> len" "len \<le> length d"
    using b ag by (auto simp: blank_line_at_def agree_from_length)
  have dn: "d ! j = d0 ! j" if "i0 \<le> j" "j < length d0" for j using agree_from_nth [OF ag] that by blast
  have ag': "agree_from i d d0" using ag by (auto simp: i_def intro: agree_from_mono)
  have "i \<le> p \<or> i = p + 1 \<or> i = p + 3"
    using le b dn [of i0] len by (auto simp: i_def blank_line_at_def le_Suc_eq)
  then consider "i \<le> p" | "i < len" "d ! i = LF"
    using b dn [of i] len by (auto simp: blank_line_at_def i_def numeral_3_eq_3 split: if_splits)
  then show ?case
  proof cases
    case 2
    then show ?thesis
      using len by (subst parse_headers.simps) (simp add: i_def [symmetric] Let_def)
  next
    case ip: 1
    with b ag' have tr: "on_track d0 p len d i" by (simp add: on_track_def)
    have i0p: "i0 \<le> p + 1" using ip by (auto simp: i_def split: if_splits)
    have room: "length fs < MAX_FIELDS"
      using cnt count_list_drop_pos [of i0 "p + 1" d0 LF] i0p b by (auto simp: blank_line_at_def)
    have ih: "parse_headers d' len i' (fs @ [(n, v)]) \<noteq> Inl Fault"
      if h: "parse_header_line d len i = Inr (d', n, v, i')" "d ! i \<noteq> LF" "d ! i \<noteq> TAB" "d ! i \<noteq> SPC"
      for d' n v i'
    proof -
      from parse_header_line_safe [OF tr] h have ld: "line_done d0 p i d' i'" by blast
      have "i' \<le> length d0" using parse_header_line_progress [OF h(1)] len by simp
      then have "count_list (drop i' d0) LF < count_list (drop i0 d0) LF"
        using ld by (intro count_list_drop_step) (auto simp: line_done_def i_def split: if_splits)
      with cnt have "length (fs @ [(n, v)]) + count_list (drop i' d0) LF \<le> MAX_FIELDS" by simp
      with ld h b ip len room show ?thesis
        by (intro "1.IH" [OF i_def _ _ _ _ _ h(1)]) (auto simp: line_done_def)
    qed
    have "i \<noteq> len" using ip len by simp
    with room ih parse_header_line_safe [OF tr] show ?thesis
      by (subst parse_headers.simps)
         (auto simp: i_def [symmetric] Let_def on_track_rd [OF tr] bindE_def
           split: sum.split prod.split)
  qed
qed

lemma parse_safe:
  assumes "pm_len m = max_len m"
    and "strstr (pm_msg m) [CR, LF, CR, LF] = Some p"
    and "count_list (pm_msg m) LF \<le> MAX_FIELDS + 1"
  shows "parse_pmsg m \<noteq> Inl Fault"
proof -
  define d where "d = pm_msg m"
  from assms have len: "pm_len m = length d" by (simp add: d_def)
  have b: "blank_line_at d p (length d)"
    using strstr_Some_nth [OF assms(2), of 0] strstr_Some_nth [OF assms(2), of 1]
      strstr_Some_nth [OF assms(2), of 2] strstr_Some_nth [OF assms(2), of 3]
    by (simp add: blank_line_at_def d_def)
  have hdrs: "parse_headers d' (length d) i [] \<noteq> Inl Fault" if "line_done d p i0 d' i" for d' i i0
  proof (rule parse_headers_safe [OF b])
    from that b have le: "i \<le> length d" "i0 < i" "d ! (i - 1) = LF"
      by (auto simp: line_done_def blank_line_at_def)
    then have "count_list (drop i d) LF < count_list (drop i0 d) LF"
      by (intro count_list_drop_step)
    also have "\<dots> \<le> count_list d LF"
      by (metis append_take_drop_id count_list_append le_add2)
    finally show "length [] + count_list (drop i d) LF \<le> MAX_FIELDS"
      using assms(3) by (simp add: d_def)
  qed (use that in \<open>auto simp: line_done_def\<close>)
  note st = parse_status_line_safe [OF b] and rq = parse_request_line_safe [OF b]
  note eol = end_of_line_safe [OF b]
  have tail: "bindE (end_of_line d' (length d) i) (\<lambda>i.
          bindE (parse_headers d' (length d) i []) (\<lambda>(d, fs, k). Inr (f d fs k))) \<noteq> Inl Fault"
    if "cut_ok d p d' i" for d' i and f :: "string \<Rightarrow> (nat \<times> nat) list \<Rightarrow> nat \<Rightarrow> pmsg \<times> nat"
  proof (intro bindE_no_fault)
    fix k assume "end_of_line d' (length d) i = Inr k"
    with eol [OF that] have "line_done d p i d' k" by blast
    then show "parse_headers d' (length d) k [] \<noteq> Inl Fault" by (rule hdrs)
  qed (use eol [OF that] in auto)
  have resp: "bindE (parse_status_line d (length d)) (\<lambda>(d', code, r, i).
          bindE (end_of_line d' (length d) i) (\<lambda>i.
          bindE (parse_headers d' (length d) i []) (\<lambda>(d, fs, k). Inr (f code r d fs k)))) \<noteq> Inl Fault"
    for f :: "int \<Rightarrow> nat \<Rightarrow> string \<Rightarrow> (nat \<times> nat) list \<Rightarrow> nat \<Rightarrow> pmsg \<times> nat"
  proof (rule bindE_no_fault)
    fix x assume "parse_status_line d (length d) = Inr x"
    with st show "(case x of (d', code, r, i) \<Rightarrow> bindE (end_of_line d' (length d) i) (\<lambda>i.
        bindE (parse_headers d' (length d) i []) (\<lambda>(d, fs, k). Inr (f code r d fs k)))) \<noteq> Inl Fault"
      by (cases x) (simp add: tail)
  qed (use st in simp)
  have req: "bindE (parse_request_line d (length d)) (\<lambda>(d', u, pr, i).
          bindE (end_of_line d' (length d) i) (\<lambda>i.
          bindE (parse_headers d' (length d) i []) (\<lambda>(d, fs, k). Inr (f u pr d fs k)))) \<noteq> Inl Fault"
    for f :: "nat \<Rightarrow> nat \<Rightarrow> string \<Rightarrow> (nat \<times> nat) list \<Rightarrow> nat \<Rightarrow> pmsg \<times> nat"
  proof (rule bindE_no_fault)
    fix x assume "parse_request_line d (length d) = Inr x"
    with rq show "(case x of (d', u, pr, i) \<Rightarrow> bindE (end_of_line d' (length d) i) (\<lambda>i.
        bindE (parse_headers d' (length d) i []) (\<lambda>(d, fs, k). Inr (f u pr d fs k)))) \<noteq> Inl Fault"
      by (cases x) (simp add: tail)
  qed (use rq in simp)
  show ?thesis
    using resp req by (simp add: parse_pmsg_def Let_def len d_def [symmetric])
qed

text \<open>
  C14. A request that contains the blank line the connection code waits for, in a buffer that
  it fills, and that has at most 33 lines, is parsed without any access outside the message.
\<close>

theorem parse_pmsg_memory_safe:
  assumes "pm_len m = max_len m"
    and "strstr (pm_msg m) [CR, LF, CR, LF] = Some p"
    and "count_list (pm_msg m) LF \<le> MAX_FIELDS + 1"
  shows "parse_pmsg m \<noteq> Inl Fault"
  by (rule parse_safe [OF assms])

section \<open>What the parser finds\<close>

text \<open>
  The text of header lines as senders write them, the same text after the parser has cut it,
  and where the names and values then start.
\<close>

definition header_line :: "string \<times> string \<Rightarrow> string" where
  "header_line h = fst h @ [CHR '':'', SPC] @ snd h @ crlf"

definition header_lines :: "(string \<times> string) list \<Rightarrow> string" where
  "header_lines hs = concat (map header_line hs)"

definition cut_lines :: "(string \<times> string) list \<Rightarrow> string" where
  "cut_lines hs = concat (map (\<lambda>h. fst h @ [NUL, SPC] @ snd h @ [NUL, LF]) hs)"

fun field_offsets :: "nat \<Rightarrow> (string \<times> string) list \<Rightarrow> (nat \<times> nat) list" where
  "field_offsets p [] = []"
| "field_offsets p (h # hs) =
     (p, p + length (fst h) + 2) # field_offsets (p + length (fst h) + length (snd h) + 4) hs"

definition plain_name :: "string \<Rightarrow> bool" where
  "plain_name n \<longleftrightarrow> set n \<inter> {SPC, TAB, CR, LF, NUL, CHR '':''} = {}"

definition plain_value :: "string \<Rightarrow> bool" where
  "plain_value v \<longleftrightarrow> set v \<inter> {CR, LF, NUL} = {} \<and> (v = [] \<or> \<not> is_blank (hd v))"

definition plain_header :: "string \<times> string \<Rightarrow> bool" where
  "plain_header h \<longleftrightarrow> plain_name (fst h) \<and> plain_value (snd h)"

lemma delim_word:
  assumes "\<forall>x\<in>set w. \<not> (x = a \<or> x = b \<or> x = CR \<or> x = LF)" "c = a \<or> c = b \<or> c = CR \<or> c = LF"
    "length pre + length w < len"
  shows "delim (pre @ w @ c # post) (length pre) len a b = length w"
  using assms
proof (induction w arbitrary: pre)
  case Nil
  then show ?case by (subst delim.simps) (auto simp: nth_append)
next
  case (Cons x w)
  from Cons.prems Cons.IH [of "pre @ [x]"] show ?case
    by (subst delim.simps) (auto simp: nth_append)
qed

lemma skip_word:
  assumes "\<forall>x\<in>set w. P x" "\<not> P c" "length pre + length w < len"
  shows "skip_chars P (pre @ w @ c # post) len (length pre) = length pre + length w"
  using assms
proof (induction w arbitrary: pre)
  case Nil
  then show ?case by (subst skip_chars.simps) (auto simp: nth_append)
next
  case (Cons x w)
  from Cons.prems Cons.IH [of "pre @ [x]"] show ?case
    by (subst skip_chars.simps) (auto simp: nth_append)
qed

lemma wr_word: "wr (pre @ w @ c # post) (length pre + length w) x = Inr (pre @ w @ x # post)"
  by (simp add: wr_def list_update_append)

lemma nth_word: "(pre @ w @ c # post) ! (length pre + length w) = c"
  by (simp add: nth_append)

lemma parse_header_line_plain:
  fixes pre post :: string
  assumes "plain_header (n, v)"
  defines "d \<equiv> pre @ header_line (n, v) @ post"
  shows "parse_header_line d (length d) (length pre) =
    Inr (pre @ n @ [NUL, SPC] @ v @ [NUL, LF] @ post, length pre, length pre + length n + 2,
         length pre + length n + length v + 4)"
proof -
  let ?tl = "v @ CR # LF # post"
  have d: "d = pre @ n @ CHR '':'' # SPC # ?tl"
    by (simp add: d_def header_line_def crlf_def)
  from assms(1) have nm: "\<forall>x\<in>set n. \<not> (x = SPC \<or> x = CHR '':'' \<or> x = CR \<or> x = LF)"
    and vl: "\<forall>x\<in>set v. \<not> (x = NUL \<or> x = NUL \<or> x = CR \<or> x = LF)"
    by (auto simp: plain_header_def plain_name_def plain_value_def)
  let ?len = "length d"
  have i1: "delim d (length pre) ?len SPC CHR '':'' = length n"
    unfolding d by (rule delim_word [OF nm]) auto
  let ?d1 = "pre @ n @ NUL # SPC # ?tl"
  have w1: "wr d (length pre + length n) NUL = Inr ?d1"
    unfolding d by (rule wr_word)
  let ?v = "Suc (Suc (length pre + length n))"
  have sk: "skip_chars is_blank ?d1 ?len (Suc (length pre + length n)) = ?v"
  proof (cases v)
    case Nil
    then show ?thesis
      using skip_word [of "[SPC]" is_blank CR "pre @ n @ [NUL]" ?len "LF # post"]
      by (simp add: d is_blank_def)
  next
    case (Cons x v')
    then show ?thesis
      using skip_word [of "[SPC]" is_blank x "pre @ n @ [NUL]" ?len "v' @ CR # LF # post"] assms(1)
      by (simp add: d plain_header_def plain_value_def) (simp add: is_blank_def)
  qed
  have i3: "delim ?d1 ?v ?len NUL NUL = length v"
    using delim_word [OF vl, of CR "pre @ n @ [NUL, SPC]" ?len "LF # post"] by (simp add: d)
  let ?d3 = "pre @ n @ [NUL, SPC] @ v @ [NUL, LF] @ post"
  have w2: "wr ?d1 (Suc (Suc (length pre + length n + length v))) NUL = Inr ?d3"
    using wr_word [of "pre @ n @ [NUL, SPC]" v CR "LF # post" NUL] by simp
  have lf: "?d3 ! Suc (?v + length v) = LF"
    using nth_word [of "pre @ n @ [NUL, SPC]" "v @ [NUL]" LF post] by simp
  have colon: "d ! (length pre + length n) = CHR '':''"
    unfolding d by (rule nth_word)
  have ll: "length pre + length n < ?len" "Suc (?v + length v) < ?len"
    by (simp_all add: d)
  have "parse_header_line d ?len (length pre) =
      Inr (?d3, length pre, ?v, Suc (Suc (?v + length v)))"
    unfolding parse_header_line_def Let_def i1
    using ll lf by (simp add: colon w1 sk i3 w2 del: append_assoc append.simps append_Cons wr_in)
  then show ?thesis by simp
qed

lemma header_line_first:
  assumes "plain_header h"
  shows "\<exists>c w. header_line h = c # w \<and> c \<noteq> CR \<and> c \<noteq> LF \<and> c \<noteq> TAB \<and> c \<noteq> SPC"
  using assms
  by (cases "fst h") (auto simp: header_line_def plain_header_def plain_name_def)

lemma parse_headers_plain:
  assumes "\<forall>h\<in>set hs. plain_header h"
    and "len = length (pre @ header_lines hs @ crlf @ body)"
  shows "parse_headers (pre @ header_lines hs @ crlf @ body) len (length pre) fs =
    (if length fs + length hs \<le> MAX_FIELDS \<or> hs = []
     then Inr (pre @ cut_lines hs @ crlf @ body, fs @ field_offsets (length pre) hs,
               length pre + length (header_lines hs) + 2)
     else Inl Fault)"
  using assms
proof (induction hs arbitrary: pre fs)
  case Nil
  then show ?case
    by (subst parse_headers.simps)
       (simp add: header_lines_def cut_lines_def crlf_def nth_append)
next
  case (Cons h hs)
  obtain n v where h: "h = (n, v)" by (cases h)
  let ?post = "header_lines hs @ crlf @ body"
  let ?d = "pre @ header_line (n, v) @ ?post"
  let ?pre = "pre @ n @ [NUL, SPC] @ v @ [NUL, LF]"
  have ph: "plain_header (n, v)" using Cons.prems(1) h by simp
  have d: "pre @ header_lines (h # hs) @ crlf @ body = ?d"
    by (simp add: header_lines_def h)
  have len: "len = length ?d" using Cons.prems(2) d by simp
  from header_line_first [OF ph] obtain c w where
    c: "header_line (n, v) = c # w" "c \<noteq> CR" "c \<noteq> LF" "c \<noteq> TAB" "c \<noteq> SPC" by blast
  have at: "?d ! length pre = c" "length pre < len" by (simp_all add: c(1) len)
  have ll: "length (header_line (n, v)) = length n + length v + 4"
    by (simp add: header_line_def crlf_def)
  have step: "parse_headers ?d len (length pre) fs =
      (if MAX_FIELDS \<le> length fs then Inl Fault
       else parse_headers (?pre @ ?post) len (length ?pre)
              (fs @ [(length pre, length pre + length n + 2)]))"
  proof -
    have p: "parse_header_line ?d len (length pre) = Inr (?pre @ ?post, length pre,
        length pre + length n + 2, length ?pre)"
      using parse_header_line_plain [OF ph, of pre ?post] by (simp add: len)
    show ?thesis
      by (subst parse_headers.simps) (use at c p in \<open>simp add: Let_def\<close>)
  qed
  have len2: "len = length (?pre @ ?post)" by (simp add: len ll)
  have "header_lines (h # hs) = header_line (n, v) @ header_lines hs"
    "cut_lines (h # hs) = n @ [NUL, SPC] @ v @ [NUL, LF] @ cut_lines hs"
    by (simp_all add: header_lines_def cut_lines_def h)
  with step Cons.IH [of ?pre "fs @ [(length pre, length pre + length n + 2)]"] Cons.prems(1) len2
  show ?case
    unfolding d by (auto simp: h ll add.assoc header_lines_def cut_lines_def eval_nat_numeral)
qed

text \<open>The names and values of the fields of a message, as C strings.\<close>

definition header_strings :: "pmsg \<Rightarrow> (string \<times> string) list" where
  "header_strings m = map (\<lambda>(n, v). (cstr (pm_msg m) n, cstr (pm_msg m) v)) (pm_fields m)"

lemma cstr_word: "NUL \<notin> set w \<Longrightarrow> i = length pre \<Longrightarrow> cstr (pre @ w @ NUL # post) i = w"
  by (simp add: cstr_append_nul)

lemma cut_lines_fields:
  assumes "\<forall>h\<in>set hs. plain_header h"
  shows "map (\<lambda>(n, v). (cstr (pre @ cut_lines hs @ post) n, cstr (pre @ cut_lines hs @ post) v))
           (field_offsets (length pre) hs) = hs"
  using assms
proof (induction hs arbitrary: pre)
  case Nil
  then show ?case by simp
next
  case (Cons h hs)
  obtain n v where h: "h = (n, v)" by (cases h)
  let ?pre = "pre @ n @ [NUL, SPC] @ v @ [NUL, LF]"
  have nul: "NUL \<notin> set n" "NUL \<notin> set v"
    using Cons.prems by (auto simp: h plain_header_def plain_name_def plain_value_def)
  have eq: "pre @ cut_lines (h # hs) @ post = ?pre @ cut_lines hs @ post"
    by (simp add: cut_lines_def h)
  have "cstr (?pre @ cut_lines hs @ post) (length pre) = n"
    using cstr_word [OF nul(1), of _ pre] by simp
  moreover have "cstr (?pre @ cut_lines hs @ post) (length pre + length n + 2) = v"
    using cstr_word [OF nul(2), of _ "pre @ n @ [NUL, SPC]"] by simp
  ultimately show ?case
    using Cons.IH [of ?pre] Cons.prems unfolding eq by (simp add: h add.assoc eval_nat_numeral)
qed

definition plain_word :: "string \<Rightarrow> bool" where
  "plain_word w \<longleftrightarrow> w \<noteq> [] \<and> set w \<inter> {SPC, CR, LF, NUL} = {}"

text \<open>A request as a client writes it, and the same message as the server writes a response.\<close>

definition request_text :: "string \<Rightarrow> string \<Rightarrow> string \<Rightarrow> (string \<times> string) list \<Rightarrow> string" where
  "request_text mth uri proto hs =
     mth @ [SPC] @ uri @ [SPC] @ proto @ crlf @ header_lines hs @ crlf"

lemma skip_word_at:
  assumes "\<forall>x\<in>set w. P x" "\<not> P c" "i = length pre" "k = length pre + length w" "k < len"
  shows "skip_chars P (pre @ w @ c # post) len i = k"
  using skip_word [OF assms(1,2)] assms(3-5) by simp

lemma skip_none: "\<not> P (d ! i) \<Longrightarrow> skip_chars P d len i = i"
  by (subst skip_chars.simps) simp

lemma delim_word_at:
  assumes "\<forall>x\<in>set w. \<not> (x = a \<or> x = b \<or> x = CR \<or> x = LF)" "c = a \<or> c = b \<or> c = CR \<or> c = LF"
    "i = length pre" "length pre + length w < len"
  shows "delim (pre @ w @ c # post) i len a b = length w"
  using delim_word assms by simp

lemma wr_word_at: "i = length pre + length w \<Longrightarrow> wr (pre @ w @ c # post) i x = Inr (pre @ w @ x # post)"
  by (simp add: wr_word)

lemma nth_word_at: "i = length pre + length w \<Longrightarrow> (pre @ w @ c # post) ! i = c"
  by (simp add: nth_word)

lemma plain_word_scan: "plain_word w \<Longrightarrow> \<forall>x\<in>set w. \<not> (x = SPC \<or> x = NUL \<or> x = CR \<or> x = LF)"
  by (auto simp: plain_word_def)

lemma plain_word_hd: "plain_word w \<Longrightarrow> i = length pre \<Longrightarrow> (pre @ w @ post) ! i \<noteq> SPC"
  by (cases w) (auto simp: plain_word_def)

lemma parse_request_line_plain:
  assumes w: "plain_word mth" "plain_word uri" "plain_word proto"
    and len: "len = length (mth @ SPC # uri @ SPC # proto @ CR # rest)"
  shows "parse_request_line (mth @ SPC # uri @ SPC # proto @ CR # rest) len =
    Inr (mth @ NUL # uri @ NUL # proto @ NUL # rest, length mth + 1,
         length mth + length uri + 2, length mth + length uri + length proto + 3)"
proof -
  note scan = plain_word_scan [OF w(1)] plain_word_scan [OF w(2)] plain_word_scan [OF w(3)]
  let ?d0 = "mth @ SPC # uri @ SPC # proto @ CR # rest"
  let ?d1 = "mth @ NUL # uri @ SPC # proto @ CR # rest"
  let ?d2 = "mth @ NUL # uri @ NUL # proto @ CR # rest"
  let ?d3 = "mth @ NUL # uri @ NUL # proto @ NUL # rest"
  let ?i = "length mth"
  let ?u = "Suc (length mth)"
  let ?j = "Suc (length mth + length uri)"
  let ?p = "Suc (Suc (length mth + length uri))"
  let ?k = "Suc (Suc (length mth + length uri + length proto))"
  have l: "?i < len" "?j < len" "?k < len" by (simp_all add: len)
  have s1: "delim ?d0 0 len SPC NUL = ?i"
    using delim_word_at [OF scan(1), of SPC 0 "[]" len] l by simp
  have w1: "wr ?d0 ?i NUL = Inr ?d1" and n1: "?d0 ! ?i = SPC"
    using wr_word_at [of ?i "[]"] by simp_all
  have s2: "skip_chars is_sp ?d1 len ?u = ?u"
    using plain_word_hd [OF w(2), of _ "mth @ [NUL]"] by (intro skip_none) (simp add: is_sp_def)
  have s3: "delim ?d1 ?u len SPC NUL = length uri"
    using delim_word_at [OF scan(2), of SPC ?u "mth @ [NUL]" len] l by simp
  have w2: "wr ?d1 ?j NUL = Inr ?d2" and n2: "?d1 ! ?j = SPC"
    using wr_word_at [of ?j "mth @ [NUL]" uri] nth_word_at [of ?j "mth @ [NUL]" uri] by simp_all
  have s4: "skip_chars is_sp ?d2 len ?p = ?p"
    using plain_word_hd [OF w(3), of _ "mth @ NUL # uri @ [NUL]"]
    by (intro skip_none) (simp add: is_sp_def)
  have s5: "delim ?d2 ?p len NUL NUL = length proto"
    using delim_word_at [of proto NUL NUL CR ?p "mth @ NUL # uri @ [NUL]" len] scan(3) l by simp
  have w3: "wr ?d2 ?k NUL = Inr ?d3"
    using wr_word_at [of ?k "mth @ NUL # uri @ [NUL]" proto] by simp
  show ?thesis
    using l by (simp add: parse_request_line_def eval_nat_numeral Let_def s1 w1 n1 s2 s3 w2 n2 s4 s5 w3 del: wr_in)
qed

lemma end_of_line_LF: "i < len \<Longrightarrow> d ! i = LF \<Longrightarrow> end_of_line d len i = Inr (Suc i)"
  by (simp add: end_of_line_def skip_none is_sp_def)

definition cut_request :: "string \<Rightarrow> string \<Rightarrow> string \<Rightarrow> (string \<times> string) list \<Rightarrow> string" where
  "cut_request mth uri proto hs = mth @ NUL # uri @ NUL # proto @ [NUL, LF] @ cut_lines hs @ crlf"

lemma parse_pmsg_request:
  assumes w: "plain_word mth" "plain_word uri" "plain_word proto" "CHR ''/'' \<notin> set mth"
    and hs: "\<forall>h\<in>set hs. plain_header h"
    and m: "pm_msg m = request_text mth uri proto hs @ body" "pm_len m = max_len m"
  shows "parse_pmsg m =
    (if length hs \<le> MAX_FIELDS
     then Inr (m\<lparr>pm_msg := cut_request mth uri proto hs @ body,
                 pm_fields := field_offsets (length mth + length uri + length proto + 4) hs,
                 pm_type := PMSG_REQ, pm_method := 0, pm_uri := length mth + 1,
                 pm_proto := length mth + length uri + 2\<rparr>,
               length (request_text mth uri proto hs))
     else Inl Fault)"
proof -
  let ?rest = "LF # header_lines hs @ crlf @ body"
  let ?d = "mth @ SPC # uri @ SPC # proto @ CR # ?rest"
  let ?e = "mth @ NUL # uri @ NUL # proto @ NUL # ?rest"
  let ?pre = "mth @ NUL # uri @ NUL # proto @ [NUL, LF]"
  let ?len = "length ?d"
  have d: "pm_msg m = ?d" using m by (simp add: request_text_def crlf_def)
  have "skip_chars (\<lambda>c. c \<noteq> SPC \<and> c \<noteq> CHR ''/'') ?d ?len 0 = length mth"
  proof -
    have "\<forall>c\<in>set mth. c \<noteq> SPC \<and> c \<noteq> CHR ''/''" using w by (auto simp: plain_word_def)
    from skip_word_at [OF this, of SPC 0 "[]"] show ?thesis by simp
  qed
  moreover have "4 \<le> ?len" using w by (auto simp: plain_word_def neq_Nil_conv)
  moreover have "end_of_line ?e ?len (length mth + length uri + length proto + 3)
      = Inr (length ?pre)"
    using nth_word_at [of _ "mth @ NUL # uri @ NUL # proto" "[NUL]" LF]
    by (subst end_of_line_LF) (simp_all add: eval_nat_numeral add.assoc)
  moreover have "parse_headers ?e ?len (length ?pre) [] =
     (if length hs \<le> MAX_FIELDS
      then Inr (?pre @ cut_lines hs @ crlf @ body, field_offsets (length ?pre) hs,
                length ?pre + length (header_lines hs) + 2) else Inl Fault)"
    using parse_headers_plain [OF hs, of ?len ?pre body "[]"] by (auto simp: MAX_FIELDS_def)
  ultimately show ?thesis
    using parse_request_line_plain [OF w(1-3), of ?len ?rest]
    by (simp add: parse_pmsg_def m(2) d cut_request_def request_text_def crlf_def add.assoc
         eval_nat_numeral Let_def)
qed

lemma cut_request_strings:
  fixes body :: string
  assumes "plain_word mth" "plain_word uri" "plain_word proto" "\<forall>h\<in>set hs. plain_header h"
  defines "d \<equiv> cut_request mth uri proto hs @ body"
  shows "cstr d 0 = mth" "cstr d (length mth + 1) = uri"
    "cstr d (length mth + length uri + 2) = proto"
    "map (\<lambda>(n, v). (cstr d n, cstr d v))
       (field_offsets (length mth + length uri + length proto + 4) hs) = hs"
proof -
  note [simp] = d_def cut_request_def eval_nat_numeral add.assoc
  have nul: "NUL \<notin> set mth" "NUL \<notin> set uri" "NUL \<notin> set proto"
    using assms(1-3) by (auto simp: plain_word_def)
  show "cstr d 0 = mth" using cstr_word [OF nul(1), of 0 "[]"] by simp
  show "cstr d (length mth + 1) = uri" using cstr_word [OF nul(2), of _ "mth @ [NUL]"] by simp
  show "cstr d (length mth + length uri + 2) = proto"
    using cstr_word [OF nul(3), of _ "mth @ NUL # uri @ [NUL]"] by simp
  show "map (\<lambda>(n, v). (cstr d n, cstr d v))
       (field_offsets (length mth + length uri + length proto + 4) hs) = hs"
    using cut_lines_fields [OF assms(4), of "mth @ NUL # uri @ NUL # proto @ [NUL, LF]" "crlf @ body"]
    by simp
qed

text \<open>
  C23. A request with at most 32 plain headers is read back exactly: the parser consumes its
  text and nothing behind it, and leaves the method, the URI, the protocol and the header
  names and values of the sender as C strings.
\<close>

theorem parse_pmsg_request_roundtrip:
  assumes "plain_word mth" "plain_word uri" "plain_word proto" "CHR ''/'' \<notin> set mth"
    and "\<forall>h\<in>set hs. plain_header h" "length hs \<le> MAX_FIELDS"
    and "pm_msg m = request_text mth uri proto hs @ body" "pm_len m = max_len m"
  shows "\<exists>m'. parse_pmsg m = Inr (m', length (request_text mth uri proto hs)) \<and>
    pm_type m' = PMSG_REQ \<and> cstr (pm_msg m') (pm_method m') = mth \<and>
    cstr (pm_msg m') (pm_uri m') = uri \<and> cstr (pm_msg m') (pm_proto m') = proto \<and>
    header_strings m' = hs"
  using parse_pmsg_request [OF assms(1-5) assms(7,8)] assms(6)
    cut_request_strings [OF assms(1-3) assms(5), of body]
  by (simp add: header_strings_def)

theorem parse_pmsg_request_roundtrip_witness:
  "\<exists>m'. parse_pmsg ((new_pmsg 0)\<lparr>pm_msg := request_text ''PLAY'' ''rtsp://h/x'' ''RTSP/1.0''
              [(''CSeq'', ''3''), (''Range'', ''npt=0-'')] @ ''OPTIONS'',
          pm_len := length (request_text ''PLAY'' ''rtsp://h/x'' ''RTSP/1.0''
              [(''CSeq'', ''3''), (''Range'', ''npt=0-'')] @ ''OPTIONS'')\<rparr>)
       = Inr (m', length (request_text ''PLAY'' ''rtsp://h/x'' ''RTSP/1.0''
              [(''CSeq'', ''3''), (''Range'', ''npt=0-'')])) \<and>
    pm_type m' = PMSG_REQ \<and> cstr (pm_msg m') (pm_method m') = ''PLAY'' \<and>
    cstr (pm_msg m') (pm_uri m') = ''rtsp://h/x'' \<and> cstr (pm_msg m') (pm_proto m') = ''RTSP/1.0'' \<and>
    header_strings m' = [(''CSeq'', ''3''), (''Range'', ''npt=0-'')]"
  by (rule parse_pmsg_request_roundtrip [where body = "''OPTIONS''"])
     (simp_all add: plain_word_def plain_header_def plain_name_def plain_value_def is_blank_def
        MAX_FIELDS_def)

text \<open>
  The store of a header into the field array has no bound check: every well-formed
  request with more than 32 headers makes the parser write past the array.
\<close>

lemma parse_pmsg_header_overflow:
  assumes "plain_word mth" "plain_word uri" "plain_word proto" "CHR ''/'' \<notin> set mth"
    and "\<forall>h\<in>set hs. plain_header h" "MAX_FIELDS < length hs"
    and "pm_msg m = request_text mth uri proto hs @ body" "pm_len m = max_len m"
  shows "parse_pmsg m = Inl Fault"
  using parse_pmsg_request [OF assms(1-5) assms(7,8)] assms(6) by simp

theorem parse_pmsg_header_overflow_witness:
  "parse_pmsg ((new_pmsg 0)\<lparr>pm_msg := request_text ''GET'' ''/x'' ''HTTP/1.0'' (replicate 33 (''A'', ''b'')),
          pm_len := length (request_text ''GET'' ''/x'' ''HTTP/1.0'' (replicate 33 (''A'', ''b'')))\<rparr>)
       = Inl Fault"
  by (rule parse_pmsg_header_overflow [where body = "[]"])
     (simp_all add: plain_word_def plain_header_def plain_name_def plain_value_def is_blank_def
        MAX_FIELDS_def)

definition response_text :: "string \<Rightarrow> int \<Rightarrow> string \<Rightarrow> (string \<times> string) list \<Rightarrow> string" where
  "response_text proto code reason hs =
     proto @ [SPC] @ dec_int code @ [SPC] @ reason @ crlf @ header_lines hs @ crlf"

definition plain_reason :: "string \<Rightarrow> bool" where
  "plain_reason r \<longleftrightarrow> set r \<inter> {CR, LF, NUL} = {} \<and> (r = [] \<or> hd r \<noteq> SPC)"

lemma plain_reason_hd:
  "plain_reason r \<Longrightarrow> i = length pre \<Longrightarrow> (pre @ r @ CR # post) ! i \<noteq> SPC"
  by (cases r) (auto simp: plain_reason_def)

lemma dec_code:
  assumes "100 \<le> code" "code < 1000"
  obtains x y z where "dec_int code = [x, y, z]" "is_digit x" "is_digit y" "is_digit z"
    "fst (strtol10 (x # y # z # SPC # r)) = code"
proof -
  have d: "dec_int code = dec_nat (nat code)" using assms by (simp add: dec_int_nonneg)
  from assms have "100 \<le> nat code" "nat code < 1000" by linarith+
  from dec_nat_3 [OF this] obtain x y z where xyz: "dec_nat (nat code) = [x, y, z]" by blast
  have "fst (strtol10 (dec_nat (nat code) @ SPC # r)) = int (nat code)"
    by (subst strtol10_dec_nat) (simp_all add: is_digit_def)
  with xyz have "fst (strtol10 (x # y # z # SPC # r)) = code" using assms by simp
  moreover have "is_digit x" "is_digit y" "is_digit z"
    using dec_nat_digits [of "nat code"] xyz by auto
  ultimately show ?thesis using that d xyz by simp
qed

lemma parse_status_line_plain:
  assumes w: "plain_word proto" "plain_reason reason" "100 \<le> code" "code < 1000"
    and len: "len = length (proto @ SPC # dec_int code @ SPC # reason @ CR # rest)"
  shows "parse_status_line (proto @ SPC # dec_int code @ SPC # reason @ CR # rest) len =
    Inr (proto @ NUL # dec_int code @ SPC # reason @ NUL # rest, code, length proto + 5,
         length proto + length reason + 6)"
proof -
  obtain x y z where c: "dec_int code = [x, y, z]" "is_digit x" "is_digit y" "is_digit z"
    and v: "fst (strtol10 (x # y # z # SPC # reason @ CR # rest)) = code"
    using dec_code [OF w(3,4)] by metis
  let ?i = "length proto"
  let ?d0 = "proto @ SPC # x # y # z # SPC # reason @ CR # rest"
  let ?d1 = "proto @ NUL # x # y # z # SPC # reason @ CR # rest"
  let ?d2 = "proto @ NUL # x # y # z # SPC # reason @ NUL # rest"
  let ?r = "Suc (Suc (Suc (Suc (Suc ?i))))"
  have l: "Suc (?r + length reason) \<le> len" by (simp add: len c(1))
  have s1: "delim ?d0 0 len SPC NUL = ?i"
    using delim_word_at [OF plain_word_scan [OF w(1)], of SPC 0 "[]" len] l by simp
  have n1: "rd ?d0 ?i = Inr SPC" by (simp add: rd_def nth_append)
  have w1: "wr ?d0 ?i NUL = Inr ?d1" using wr_word_at [of ?i "[]"] by simp
  have "x \<noteq> SPC" using c(2) by (auto simp: is_digit_def)
  then have s2: "skip_chars is_sp ?d1 len (Suc ?i) = Suc ?i"
    by (intro skip_none) (simp add: is_sp_def nth_append)
  have nth: "?d1 ! Suc ?i = x" "?d1 ! Suc (Suc ?i) = y" "?d1 ! Suc (Suc (Suc ?i)) = z"
    "?d1 ! Suc (Suc (Suc (Suc ?i))) = SPC"
    by (simp_all add: nth_append)
  have s3: "skip_chars is_sp ?d1 len ?r = ?r"
    using plain_reason_hd [OF w(2), of ?r "proto @ [NUL, x, y, z, SPC]" rest]
    by (intro skip_none) (simp add: is_sp_def)
  have s4: "delim ?d1 ?r len NUL NUL = length reason"
    using delim_word_at [of reason NUL NUL CR ?r "proto @ [NUL, x, y, z, SPC]" len rest] w(2) l
    by (auto simp: plain_reason_def)
  have w2: "wr ?d1 (Suc (Suc (Suc (Suc (Suc (?i + length reason)))))) NUL = Inr ?d2"
    using wr_word_at [of _ "proto @ [NUL, x, y, z, SPC]" reason] by simp
  have dr: "drop (Suc ?i) ?d1 = x # y # z # SPC # reason @ CR # rest" by simp
  show ?thesis
    unfolding c(1)
    using l nth c(2-4)
    by (simp add: parse_status_line_def Let_def s1 n1 w1 s2 s3 s4 w2 v dr eval_nat_numeral
        del: wr_in rd_in drop_append)
qed

definition cut_response :: "string \<Rightarrow> int \<Rightarrow> string \<Rightarrow> (string \<times> string) list \<Rightarrow> string" where
  "cut_response proto code reason hs =
     proto @ NUL # dec_int code @ SPC # reason @ [NUL, LF] @ cut_lines hs @ crlf"

lemma parse_pmsg_response:
  assumes w: "plain_word proto" "CHR ''/'' \<in> set proto" "plain_reason reason" "100 \<le> code" "code < 1000"
    and hs: "\<forall>h\<in>set hs. plain_header h" "length hs \<le> MAX_FIELDS"
    and m: "pm_msg m = response_text proto code reason hs @ body" "pm_len m = max_len m"
  shows "parse_pmsg m =
     Inr (m\<lparr>pm_msg := cut_response proto code reason hs @ body,
            pm_fields := field_offsets (length proto + length reason + 7) hs,
            pm_type := PMSG_RESP, pm_proto := 0, pm_code := code, pm_reason := length proto + 5\<rparr>,
          length (response_text proto code reason hs))"
proof -
  obtain x y z where c: "dec_int code = [x, y, z]" using dec_code [OF w(4,5)] by metis
  let ?rest = "LF # header_lines hs @ crlf @ body"
  let ?d = "proto @ SPC # dec_int code @ SPC # reason @ CR # ?rest"
  let ?e = "proto @ NUL # dec_int code @ SPC # reason @ NUL # ?rest"
  let ?pre = "proto @ NUL # dec_int code @ SPC # reason @ [NUL, LF]"
  let ?len = "length ?d"
  have d: "pm_msg m = ?d" using m by (simp add: response_text_def crlf_def)
  obtain a b where ab: "proto = a @ CHR ''/'' # b" "CHR ''/'' \<notin> set a"
    using split_list_first [OF w(2)] by blast
  have "\<forall>c\<in>set a. c \<noteq> SPC \<and> c \<noteq> CHR ''/''" using ab w(1) by (auto simp: plain_word_def)
  from skip_word_at [OF this, of "CHR ''/''" 0 "[]"]
  have sk: "skip_chars (\<lambda>c. c \<noteq> SPC \<and> c \<noteq> CHR ''/'') ?d ?len 0 = length a"
    by (simp add: ab(1))
  have at: "?d ! length a = CHR ''/''" "length a \<noteq> ?len" by (simp_all add: ab(1) nth_append)
  have el: "end_of_line ?e ?len (length proto + length reason + 6) = Inr (length ?pre)"
    using nth_word_at [of _ "proto @ NUL # dec_int code @ SPC # reason" "[NUL]" LF]
    by (subst end_of_line_LF) (simp_all add: c eval_nat_numeral add.assoc)
  have ph: "parse_headers ?e ?len (length ?pre) [] =
     Inr (?pre @ cut_lines hs @ crlf @ body, field_offsets (length ?pre) hs,
                length ?pre + length (header_lines hs) + 2)"
    using parse_headers_plain [OF hs(1), of ?len ?pre body "[]"] hs(2) by simp
  have st: "parse_status_line ?d ?len = Inr (?e, code, length proto + 5, length proto + length reason + 6)"
    using parse_status_line_plain [OF w(1,3-5), of ?len ?rest] by simp
  have "4 \<le> ?len" by (simp add: c)
  with sk at st el ph show ?thesis
    by (simp add: parse_pmsg_def m(2) d Let_def cut_response_def response_text_def crlf_def add.assoc
         eval_nat_numeral c)
qed

lemma cut_response_strings:
  fixes body :: string
  assumes "plain_word proto" "plain_reason reason" "100 \<le> code" "code < 1000"
    "\<forall>h\<in>set hs. plain_header h"
  defines "d \<equiv> cut_response proto code reason hs @ body"
  shows "cstr d 0 = proto" "cstr d (length proto + 5) = reason"
    "map (\<lambda>(n, v). (cstr d n, cstr d v))
       (field_offsets (length proto + length reason + 7) hs) = hs"
proof -
  obtain x y z where c: "dec_int code = [x, y, z]" using dec_code [OF assms(3,4)] by metis
  note [simp] = d_def cut_response_def eval_nat_numeral add.assoc c
  have nul: "NUL \<notin> set proto" "NUL \<notin> set reason"
    using assms(1,2) by (auto simp: plain_word_def plain_reason_def)
  show "cstr d 0 = proto" using cstr_word [OF nul(1), of 0 "[]"] by simp
  show "cstr d (length proto + 5) = reason"
    using cstr_word [OF nul(2), of _ "proto @ [NUL, x, y, z, SPC]"] by simp
  show "map (\<lambda>(n, v). (cstr d n, cstr d v))
       (field_offsets (length proto + length reason + 7) hs) = hs"
    using cut_lines_fields [OF assms(5), of "proto @ [NUL, x, y, z, SPC] @ reason @ [NUL, LF]" "crlf @ body"]
    by simp
qed

lemma parse_pmsg_response_strings:
  assumes w: "plain_word proto" "CHR ''/'' \<in> set proto" "plain_reason reason" "100 \<le> code" "code < 1000"
    and hs: "\<forall>h\<in>set hs. plain_header h" "length hs \<le> MAX_FIELDS"
    and m: "pm_msg m = response_text proto code reason hs @ body" "pm_len m = max_len m"
  shows "\<exists>m'. parse_pmsg m = Inr (m', length (response_text proto code reason hs)) \<and>
    pm_type m' = PMSG_RESP \<and> cstr (pm_msg m') (pm_proto m') = proto \<and> pm_code m' = code \<and>
    cstr (pm_msg m') (pm_reason m') = reason \<and> header_strings m' = hs"
  using parse_pmsg_response [OF assms] cut_response_strings [OF w(1,3-5) hs(1), of body]
  by (simp add: header_strings_def)

section \<open>Messages under construction\<close>

text \<open>
  A message the program builds is a sequence of NUL-terminated strings; every pointer of a
  field is the start of one of them, and no two pointers are equal.
\<close>

definition field_starts :: "pmsg \<Rightarrow> nat list" where
  "field_starts m = map fst (pm_fields m) @ map snd (pm_fields m)"

definition string_start :: "pmsg \<Rightarrow> nat \<Rightarrow> bool" where
  "string_start m p \<longleftrightarrow> p < pm_len m \<and> (p = 0 \<or> pm_msg m ! (p - 1) = NUL)"

definition wf_pmsg :: "pmsg \<Rightarrow> bool" where
  "wf_pmsg m \<longleftrightarrow> pm_len m \<le> max_len m \<and> (0 < pm_len m \<longrightarrow> pm_msg m ! (pm_len m - 1) = NUL) \<and>
     length (pm_fields m) \<le> MAX_FIELDS \<and> distinct (field_starts m) \<and>
     (\<forall>p\<in>set (field_starts m). string_start m p)"

fun replace_assoc :: "string \<Rightarrow> string \<Rightarrow> (string \<times> string) list \<Rightarrow> (string \<times> string) list" where
  "replace_assoc name val [] = [(name, val)]"
| "replace_assoc name val ((n, v) # hs) =
     (if str_ieq n name then (n, val) # hs else (n, v) # replace_assoc name val hs)"

lemma wf_new_pmsg [simp, wf_simps]: "wf_pmsg (new_pmsg sz)"
  by (simp add: wf_pmsg_def new_pmsg_def field_starts_def)

lemma nth_blit_before: "i < off \<Longrightarrow> off \<le> length d \<Longrightarrow> blit d off xs ! i = d ! i"
  by (simp add: blit_def nth_append)

lemma nth_blit_at: "i < length xs \<Longrightarrow> off \<le> length d \<Longrightarrow> blit d off xs ! (off + i) = xs ! i"
  by (simp add: blit_def nth_append)

lemma cstr_blit_before:
  assumes "p < off" "off \<le> length d" "d ! (off - 1) = NUL"
  shows "cstr (blit d off xs) p = cstr d p"
proof -
  have "off - 1 - p < length (drop p (take off d))" "drop p (take off d) ! (off - 1 - p) = NUL"
    using assms by simp_all
  then have "NUL \<in> set (drop p (take off d))" by (metis nth_mem)
  then have *: "cstr (take off d @ x) p = cstr (take off d) p" for x
    using assms by (intro cstr_eq_of_prefix) simp_all
  show ?thesis using * [of "drop off d"] * [of "xs @ drop (off + length xs) d"] by (simp add: blit_def)
qed

lemma cstr_blit_after:
  "off + length xs \<le> p \<Longrightarrow> off \<le> length d \<Longrightarrow> cstr (blit d off xs) p = cstr d p"
  by (simp add: cstr_def blit_def)

lemma cstr_blit_at:
  "off \<le> length d \<Longrightarrow> NUL \<notin> set s \<Longrightarrow> cstr (blit d off (s @ [NUL])) off = s"
  using cstr_append_nul [of s "take off d" "drop (off + length (s @ [NUL])) d"] by (simp add: blit_def)

lemma cstr_nth_not_NUL: "j < length (cstr d p) \<Longrightarrow> d ! (p + j) \<noteq> NUL"
proof -
  assume j: "j < length (cstr d p)"
  then have "cstr d p ! j = drop p d ! j" by (simp add: cstr_def takeWhile_nth)
  moreover have "j < length (drop p d)"
    using j length_takeWhile_le [of "\<lambda>c. c \<noteq> NUL" "drop p d"] unfolding cstr_def by linarith
  moreover have "cstr d p ! j \<noteq> NUL" using j cstr_no_nul [of d p] by (metis nth_mem)
  ultimately show ?thesis by simp
qed

lemma string_start_after:
  "string_start m p \<Longrightarrow> v < p \<Longrightarrow> v + length (cstr (pm_msg m) v) < p"
  using cstr_nth_not_NUL [of "p - 1 - v" "pm_msg m" v]
  by (fastforce simp: string_start_def)

lemma header_strings_cong:
  assumes "pm_fields m' = pm_fields m"
    and "\<And>p. p \<in> set (field_starts m) \<Longrightarrow> cstr (pm_msg m') p = cstr (pm_msg m) p"
  shows "header_strings m' = header_strings m"
  using assms(2) unfolding header_strings_def assms(1)
  by (intro map_cong) (auto simp: field_starts_def rev_image_eqI)

lemma add_pmsg_string_spec:
  assumes "wf_pmsg m" "add_pmsg_string m s = Some (m', p)" "NUL \<notin> set s"
  shows "p = pm_len m" "pm_len m' = pm_len m + length s + 1" "max_len m' = max_len m"
    "pm_fields m' = pm_fields m" "cstr (pm_msg m') p = s"
    "string_start m q \<Longrightarrow> string_start m' q \<and> cstr (pm_msg m') q = cstr (pm_msg m) q"
    "string_start m' p" "wf_pmsg m'" "header_strings m' = header_strings m"
proof -
  from assms have fits: "pm_len m + length s + 1 \<le> max_len m"
    and m': "m' = m\<lparr>pm_msg := blit (pm_msg m) (pm_len m) (s @ [NUL]), pm_len := pm_len m + length s + 1\<rparr>"
    and p: "p = pm_len m"
    by (auto simp: add_pmsg_string_def Let_def split: if_splits)
  show "p = pm_len m" by (rule p)
  show 1: "pm_len m' = pm_len m + length s + 1" "max_len m' = max_len m" "pm_fields m' = pm_fields m"
    using fits by (simp_all add: m')
  show "cstr (pm_msg m') p = s" using fits assms by (simp add: m' p cstr_blit_at)
  have old: "string_start m' q \<and> cstr (pm_msg m') q = cstr (pm_msg m) q" if "string_start m q" for q
  proof -
    from that assms(1) have "0 < pm_len m" "pm_msg m ! (pm_len m - 1) = NUL" "q < pm_len m"
      by (auto simp: string_start_def wf_pmsg_def)
    with that fits show ?thesis
      by (auto simp: string_start_def m' nth_blit_before cstr_blit_before)
  qed
  then show "string_start m q \<Longrightarrow> string_start m' q \<and> cstr (pm_msg m') q = cstr (pm_msg m) q" .
  show "string_start m' p"
    using assms(1) fits nth_blit_before [of "pm_len m - 1" "pm_len m" "pm_msg m"]
    by (cases "pm_len m = 0") (simp_all add: string_start_def m' p wf_pmsg_def)
  have last: "pm_msg m' ! (pm_len m' - 1) = NUL"
    using fits nth_blit_at [of "length s" "s @ [NUL]" "pm_len m" "pm_msg m"] by (simp add: m')
  show "wf_pmsg m'"
    using assms(1) 1 old last fits by (auto simp: wf_pmsg_def field_starts_def)
  show "header_strings m' = header_strings m"
    using assms(1) old by (intro header_strings_cong 1) (simp add: wf_pmsg_def)
qed

lemma add_pmsg_string_bounds: "add_pmsg_string m s = Some (m', p) \<Longrightarrow> p < pm_len m' \<and> p = pm_len m"
  by (auto simp: add_pmsg_string_def Let_def split: if_splits)

lemma wf_pmsg_lt: "wf_pmsg m \<Longrightarrow> p \<in> set (field_starts m) \<Longrightarrow> p < pm_len m"
  by (simp add: wf_pmsg_def string_start_def)

lemma wf_pmsg_snoc:
  assumes "wf_pmsg m" "string_start m n" "string_start m v" "n \<noteq> v" "length (pm_fields m) < MAX_FIELDS"
    "n \<notin> set (field_starts m)" "v \<notin> set (field_starts m)"
  shows "wf_pmsg (m\<lparr>pm_fields := pm_fields m @ [(n, v)]\<rparr>)"
  using assms by (auto simp: wf_pmsg_def field_starts_def string_start_def)

text \<open>
  \<open>add_header\<close> on a well-formed message: on success exactly the new header is appended,
  on failure (32 headers, or no room) the headers are those it had; the message stays
  well-formed in both cases.
\<close>

lemma add_header_appends:
  assumes "wf_pmsg m" "NUL \<notin> set name" "NUL \<notin> set val" "add_header m name val = (m', ok)"
  shows "wf_pmsg m' \<and>
    header_strings m' = (if ok then header_strings m @ [(name, val)] else header_strings m)"
proof (cases "length (pm_fields m) = MAX_FIELDS")
  case True
  with assms show ?thesis by (auto simp: add_header_def)
next
  case room: False
  show ?thesis
  proof (cases "add_pmsg_string m name")
    case None
    with room assms show ?thesis by (auto simp: add_header_def)
  next
    case (Some a)
    then obtain m1 n where 1: "add_pmsg_string m name = Some (m1, n)" by (cases a) auto
    note s1 = add_pmsg_string_spec [OF assms(1) 1 assms(2)]
    show ?thesis
    proof (cases "add_pmsg_string m1 val")
      case None
      with room assms 1 s1(8,9) show ?thesis by (auto simp: add_header_def)
    next
      case (Some b)
      then obtain m2 v where 2: "add_pmsg_string m1 val = Some (m2, v)" by (cases b) auto
      note s2 = add_pmsg_string_spec [OF s1(8) 2 assms(3)]
      from room assms 1 2 have m': "m' = m2\<lparr>pm_fields := pm_fields m2 @ [(n, v)]\<rparr>" and ok
        by (auto simp: add_header_def)
      have fs: "field_starts m2 = field_starts m" by (simp add: field_starts_def s1 s2)
      have "n \<notin> set (field_starts m)" "v \<notin> set (field_starts m)"
        using wf_pmsg_lt [OF assms(1)] s1(1,2) s2(1,2) by fastforce+
      then have "wf_pmsg m'"
        unfolding m' using s2(6) [OF s1(7)] s2(7) s1(1,2) s2(1,2) assms(1) room fs
        by (intro wf_pmsg_snoc s2(8)) (auto simp: s1(4) s2(4) wf_pmsg_def)
      moreover have "header_strings m' = header_strings m @ [(name, val)]"
        using s2(6) [OF s1(7)] s1(5,9) s2(5,9) by (simp add: m' header_strings_def)
      ultimately show ?thesis using \<open>ok\<close> by simp
    qed
  qed
qed

lemma find_field_replace:
  assumes "find_field m name i fs = r"
  defines "hs \<equiv> map (\<lambda>(n, v). (cstr (pm_msg m) n, cstr (pm_msg m) v)) fs"
  shows "r = Some j \<Longrightarrow> i \<le> j \<and> j - i < length fs \<and>
           replace_assoc name val hs = hs[j - i := (fst (hs ! (j - i)), val)]"
    and "r = None \<Longrightarrow> replace_assoc name val hs = hs @ [(name, val)]"
proof -
  show "i \<le> j \<and> j - i < length fs \<and>
      replace_assoc name val hs = hs[j - i := (fst (hs ! (j - i)), val)]" if "r = Some j"
    using assms(1) that unfolding hs_def
  proof (induction m name i fs rule: find_field.induct)
    case (2 m name i n v fs)
    show ?case
    proof (cases "str_ieq (cstr (pm_msg m) n) name")
      case False
      with 2 have "Suc i \<le> j" "j - i = Suc (j - Suc i)" by (auto simp: Suc_diff_Suc)
      with False 2 show ?thesis by auto
    qed (use 2 in auto)
  qed simp
  show "replace_assoc name val hs = hs @ [(name, val)]" if "r = None"
    using assms(1) that unfolding hs_def
    by (induction m name i fs rule: find_field.induct) (auto split: if_splits)
qed

lemma wf_pmsg_set_value:
  assumes "wf_pmsg m" "string_start m p" "p \<notin> set (field_starts m)"
    and i: "i < length (pm_fields m)" "pm_fields m ! i = (n, v)"
  shows "wf_pmsg (m\<lparr>pm_fields := (pm_fields m)[i := (n, p)]\<rparr>)"
proof -
  have "map fst ((pm_fields m)[i := (n, p)]) = map fst (pm_fields m)"
    using i by (metis fst_conv list_update_id map_update nth_map)
  moreover have "map snd ((pm_fields m)[i := (n, p)]) = (map snd (pm_fields m))[i := p]"
    by (simp add: map_update)
  ultimately have fs: "field_starts (m\<lparr>pm_fields := (pm_fields m)[i := (n, p)]\<rparr>)
      = map fst (pm_fields m) @ (map snd (pm_fields m))[i := p]"
    by (simp add: field_starts_def)
  have sub: "set ((map snd (pm_fields m))[i := p]) \<subseteq> insert p (set (map snd (pm_fields m)))"
    by (rule set_update_subset_insert)
  have d: "distinct (map fst (pm_fields m))" "distinct (map snd (pm_fields m))"
    "set (map fst (pm_fields m)) \<inter> set (map snd (pm_fields m)) = {}"
    "p \<notin> set (map fst (pm_fields m))" "p \<notin> set (map snd (pm_fields m))"
    using assms(1,3) unfolding wf_pmsg_def field_starts_def distinct_append set_append by blast+
  have "distinct ((map snd (pm_fields m))[i := p])"
    using d by (intro distinct_list_update) auto
  with d sub have "distinct (field_starts (m\<lparr>pm_fields := (pm_fields m)[i := (n, p)]\<rparr>))"
    unfolding fs distinct_append by blast
  moreover have "set (field_starts (m\<lparr>pm_fields := (pm_fields m)[i := (n, p)]\<rparr>))
      \<subseteq> insert p (set (field_starts m))"
    unfolding fs using sub by (auto simp: field_starts_def)
  moreover have "string_start (m\<lparr>pm_fields := fs\<rparr>) q = string_start m q" for fs q
    by (simp add: string_start_def)
  ultimately show ?thesis
    using assms(1,2) unfolding wf_pmsg_def by auto
qed

text \<open>Writing a value over a longer one disturbs no other string.\<close>

lemma overwrite_value:
  assumes "wf_pmsg m" "string_start m v" "length val \<le> length (cstr (pm_msg m) v)" "NUL \<notin> set val"
    and m': "m' = m\<lparr>pm_msg := blit (pm_msg m) v (val @ [NUL])\<rparr>"
  shows "cstr (pm_msg m') v = val" "max_len m' = max_len m"
    "string_start m q \<Longrightarrow> string_start m' q \<and> (q \<noteq> v \<longrightarrow> cstr (pm_msg m') q = cstr (pm_msg m) q)"
    "wf_pmsg m'"
proof -
  have len: "pm_len m \<le> max_len m" "v < pm_len m" "pm_msg m ! (pm_len m - 1) = NUL"
    using assms(1,2) by (auto simp: wf_pmsg_def string_start_def)
  have fits: "v + length (cstr (pm_msg m) v) < pm_len m"
    using cstr_nth_not_NUL [of "pm_len m - 1 - v" "pm_msg m" v] len by fastforce
  then have fit: "v + length (val @ [NUL]) \<le> pm_len m" using assms(3) by simp
  show "cstr (pm_msg m') v = val" using len assms(4) by (simp add: m' cstr_blit_at)
  show ml: "max_len m' = max_len m" using fit len by (simp add: m')
  have keep: "pm_msg m' ! j = NUL" if "j < max_len m" "pm_msg m ! j = NUL" for j
  proof -
    consider "j < v" | "v \<le> j" "j \<le> v + length val" | "v + length val < j" by linarith
    then show ?thesis
    proof cases
      case 2
      then have "j = v + length val"
        using that(2) cstr_nth_not_NUL [of "j - v" "pm_msg m" v] assms(3) by fastforce
      then show ?thesis
        using nth_blit_at [of "length val" "val @ [NUL]" v] len by (simp add: m')
    next
      case 3
      define k where "k = j - (v + Suc (length val))"
      have j: "j = v + Suc (length val) + k" using 3 by (simp add: k_def)
      have "drop (v + Suc (length val)) (pm_msg m') = drop (v + Suc (length val)) (pm_msg m)"
        using len by (simp add: m' blit_def)
      then have "drop (v + Suc (length val)) (pm_msg m') ! k = drop (v + Suc (length val)) (pm_msg m) ! k"
        by simp
      then show ?thesis using that ml by (simp add: j)
    qed (use that len in \<open>simp add: m' nth_blit_before\<close>)
  qed
  have st: "string_start m' q \<and> (q \<noteq> v \<longrightarrow> cstr (pm_msg m') q = cstr (pm_msg m) q)"
    if "string_start m q" for q
  proof
    show "string_start m' q"
    proof (cases "q = 0")
      case False
      then have "pm_msg m' ! (q - 1) = NUL"
        using that len by (intro keep) (linarith | simp add: string_start_def)+
      then show ?thesis using that by (simp add: string_start_def) (simp add: m')
    qed (use that in \<open>simp add: string_start_def m'\<close>)
    show "q \<noteq> v \<longrightarrow> cstr (pm_msg m') q = cstr (pm_msg m) q"
    proof
      assume "q \<noteq> v"
      then consider "q < v" | "v < q" by linarith
      then show "cstr (pm_msg m') q = cstr (pm_msg m) q"
      proof cases
        case 1
        with assms(2) len show ?thesis by (simp add: m' cstr_blit_before string_start_def)
      next
        case 2
        with string_start_after [OF that 2] assms(3) len show ?thesis
          by (simp add: m' cstr_blit_after)
      qed
    qed
  qed
  then show "string_start m q \<Longrightarrow> string_start m' q \<and> (q \<noteq> v \<longrightarrow> cstr (pm_msg m') q = cstr (pm_msg m) q)" .
  have "pm_msg m' ! (pm_len m - 1) = NUL" using keep len by simp
  then show "wf_pmsg m'"
    using assms(1) st ml by (auto simp: wf_pmsg_def m' field_starts_def)
qed

text \<open>
  \<open>replace_header\<close> on a well-formed message: on success the first header of that name
  (compared without case) has the new value, every other header is unchanged, and a new
  header is appended when there was none; on failure the headers are those it had. This
  covers both the overwriting in place and the copy at the end of the buffer.
\<close>

lemma replace_header_replaces:
  assumes "wf_pmsg m" "NUL \<notin> set name" "NUL \<notin> set val" "replace_header m name val = (m', ok)"
  shows "wf_pmsg m' \<and>
    header_strings m' = (if ok then replace_assoc name val (header_strings m) else header_strings m)"
proof (cases "find_field m name 0 (pm_fields m)")
  case None
  have "replace_assoc name val (header_strings m) = header_strings m @ [(name, val)]"
    using find_field_replace(2) [OF None] by (simp add: header_strings_def)
  with add_header_appends [OF assms(1-3)] assms(4) None show ?thesis by (simp add: replace_header_def)
next
  case (Some i)
  obtain n v where nv: "pm_fields m ! i = (n, v)" by (cases "pm_fields m ! i") auto
  from find_field_replace(1) [OF Some refl, of val] have i: "i < length (pm_fields m)"
    and rep: "replace_assoc name val (header_strings m)
      = (header_strings m)[i := (fst (header_strings m ! i), val)]"
    by (simp_all add: header_strings_def)
  have hi: "fst (header_strings m ! i) = cstr (pm_msg m) n" using i nv by (simp add: header_strings_def)
  have inv: "v \<in> set (field_starts m)" "n \<in> set (field_starts m)"
    using i nv nth_mem [OF i] by (force simp: field_starts_def)+
  then have v: "string_start m v" "string_start m n" using assms(1) by (auto simp: wf_pmsg_def)
  show ?thesis
  proof (cases "length (cstr (pm_msg m) v) < length val")
    case longer: True
    show ?thesis
    proof (cases "add_pmsg_string m val")
      case None
      with longer Some nv assms show ?thesis by (auto simp: replace_header_def)
    next
      case (Some a)
      then obtain m1 p where 1: "add_pmsg_string m val = Some (m1, p)" by (cases a) auto
      note s1 = add_pmsg_string_spec [OF assms(1) 1 assms(3)]
      from longer \<open>find_field m name 0 (pm_fields m) = Some i\<close> nv assms(4) 1
      have m': "m' = m1\<lparr>pm_fields := (pm_fields m1)[i := (n, p)]\<rparr>" and ok
        by (auto simp: replace_header_def)
      have "p \<notin> set (field_starts m1)"
        using wf_pmsg_lt [OF assms(1)] s1(1) by (fastforce simp: field_starts_def s1(4))
      then have "wf_pmsg m'"
        unfolding m' using i nv by (intro wf_pmsg_set_value [where v = v] s1) (simp_all add: s1(4))
      moreover have "header_strings m' = (header_strings m1)[i := (cstr (pm_msg m1) n, cstr (pm_msg m1) p)]"
        by (simp add: m' header_strings_def map_update)
      ultimately show ?thesis using \<open>ok\<close> s1(5,9) s1(6) [OF v(2)] by (simp add: rep hi)
    qed
  next
    case False
    with Some nv assms have m': "m' = m\<lparr>pm_msg := blit (pm_msg m) v (val @ [NUL])\<rparr>" and ok
      by (auto simp: replace_header_def)
    from False have le: "length val \<le> length (cstr (pm_msg m) v)" by simp
    note ow = overwrite_value [OF assms(1) v(1) le assms(3) m']
    have "header_strings m' = (header_strings m)[i := (cstr (pm_msg m) n, val)]"
    proof (rule nth_equalityI)
      show "length (header_strings m') = length ((header_strings m)[i := (cstr (pm_msg m) n, val)])"
        by (simp add: m' header_strings_def)
      fix j assume "j < length (header_strings m')"
      then have j: "j < length (pm_fields m)" by (simp add: m' header_strings_def)
      obtain a b where ab: "pm_fields m ! j = (a, b)" by (cases "pm_fields m ! j") auto
      have mem: "a \<in> set (field_starts m)" "b \<in> set (field_starts m)"
        using ab nth_mem [OF j] by (force simp: field_starts_def)+
      have ne: "a \<noteq> v" "j \<noteq> i \<Longrightarrow> b \<noteq> v"
      proof -
        have "a \<in> set (map fst (pm_fields m))" "v \<in> set (map snd (pm_fields m))"
          using ab nv nth_mem [OF j] nth_mem [OF i] by force+
        moreover from assms(1) have dist: "distinct (map snd (pm_fields m))"
          "set (map fst (pm_fields m)) \<inter> set (map snd (pm_fields m)) = {}"
          by (simp_all add: wf_pmsg_def field_starts_def)
        ultimately show "a \<noteq> v" by blast
        show "b \<noteq> v" if "j \<noteq> i"
          using nth_eq_iff_index_eq [OF dist(1), of j i] that i j ab nv by simp
      qed
      from mem assms(1) have "string_start m a" "string_start m b" by (auto simp: wf_pmsg_def)
      with ow(3) ne have "cstr (pm_msg m') a = cstr (pm_msg m) a"
        "j \<noteq> i \<Longrightarrow> cstr (pm_msg m') b = cstr (pm_msg m) b" by blast+
      moreover have "j = i \<Longrightarrow> a = n \<and> b = v" using ab nv by simp
      moreover have "pm_fields m' = pm_fields m" by (simp add: m')
      ultimately show "header_strings m' ! j = (header_strings m)[i := (cstr (pm_msg m) n, val)] ! j"
        using ab nv i j ow(1) by (simp add: header_strings_def nth_list_update)
    qed
    with \<open>ok\<close> ow(4) show ?thesis by (simp add: rep hi)
  qed
qed

lemma find_map_assoc:
  "map_option (\<lambda>(n, v). f v) (find (\<lambda>(n, v). P (f n)) fs)
     = map_option snd (find (\<lambda>(n, v). P n) (map (\<lambda>(n, v). (f n, f v)) fs))"
  by (induction fs) auto

lemma get_header_lookup:
  "get_header m name = map_option snd (find (\<lambda>(n, v). str_ieq n name) (header_strings m))"
  unfolding get_header_def header_strings_def
  by (rule find_map_assoc [where f = "cstr (pm_msg m)"])

lemma find_replace_assoc:
  "map_option snd (find (\<lambda>(n, v). str_ieq n name') (replace_assoc name val hs)) =
     (if str_ieq name name' then Some val else map_option snd (find (\<lambda>(n, v). str_ieq n name') hs))"
  by (induction hs) (auto simp: str_ieq_def)

lemma get_header_replace:
  assumes "wf_pmsg m" "NUL \<notin> set name" "NUL \<notin> set val" "replace_header m name val = (m', True)"
  shows "get_header m' name' = (if str_ieq name name' then Some val else get_header m name')"
  using replace_header_replaces [OF assms] by (simp add: get_header_lookup find_replace_assoc)

lemma string_start_end:
  assumes "wf_pmsg m" "string_start m p"
  shows "p + length (cstr (pm_msg m) p) < pm_len m"
proof -
  have "p < pm_len m" "pm_msg m ! (pm_len m - 1) = NUL"
    using assms by (auto simp: wf_pmsg_def string_start_def)
  then show ?thesis
    using cstr_nth_not_NUL [of "pm_len m - 1 - p" "pm_msg m" p] by fastforce
qed

text \<open>The strings of a message lie one behind the other, so together they fit in it.\<close>

lemma strings_fit:
  assumes "wf_pmsg m" "distinct ps" "\<forall>p\<in>set ps. string_start m p"
  shows "(\<Sum>p\<leftarrow>ps. length (cstr (pm_msg m) p) + 1) \<le> pm_len m"
proof -
  let ?I = "\<lambda>p. {p..p + length (cstr (pm_msg m) p)}"
  have dis: "?I p \<inter> ?I q = {}" if "p \<in> set ps" "q \<in> set ps" "p \<noteq> q" for p q
    using that assms(3) string_start_after [of m p q] string_start_after [of m q p]
    by (cases "p < q") fastforce+
  have "(\<Sum>p\<leftarrow>ps. length (cstr (pm_msg m) p) + 1) = (\<Sum>p\<in>set ps. card (?I p))"
    using assms(2) by (simp add: sum_list_distinct_conv_sum_set)
  also have "\<dots> = card (\<Union>p\<in>set ps. ?I p)"
    using dis by (intro card_UN_disjoint [symmetric]) auto
  also have "\<dots> \<le> card {..<pm_len m}"
    using string_start_end [OF assms(1)] assms(3) by (intro card_mono) fastforce+
  finally show ?thesis by simp
qed

text \<open>A reply under construction: its status strings are strings of the message too.\<close>

definition wf_reply :: "pmsg \<Rightarrow> bool" where
  "wf_reply m \<longleftrightarrow> wf_pmsg m \<and> string_start m (pm_proto m) \<and> string_start m (pm_reason m) \<and>
     distinct (pm_proto m # pm_reason m # field_starts m)"

section \<open>Witnesses\<close>

definition demo_msg :: pmsg where
  "demo_msg = (let t = ''OPTIONS * RTSP/1.0'' @ crlf @ ''CSeq: 1'' @ crlf @ crlf
               in (new_pmsg 0)\<lparr>pm_msg := t, pm_len := length t\<rparr>)"

theorem parse_pmsg_memory_safe_witness: "parse_pmsg demo_msg \<noteq> Inl Fault"
proof (rule parse_pmsg_memory_safe)
  show "pm_len demo_msg = max_len demo_msg" by code_simp
  show "strstr (pm_msg demo_msg) [CR, LF, CR, LF] = Some 27" by code_simp
  show "count_list (pm_msg demo_msg) LF \<le> MAX_FIELDS + 1" by code_simp
qed

theorem add_header_appends_witness:
  "wf_pmsg (fst (add_header (new_pmsg 20) ''CSeq'' ''12'')) \<and>
   header_strings (fst (add_header (new_pmsg 20) ''CSeq'' ''12'')) =
     (if True then header_strings (new_pmsg 20) @ [(''CSeq'', ''12'')] else header_strings (new_pmsg 20))"
proof (rule add_header_appends)
  have "snd (add_header (new_pmsg 20) ''CSeq'' ''12'')" by code_simp
  then show "add_header (new_pmsg 20) ''CSeq'' ''12'' = (fst (add_header (new_pmsg 20) ''CSeq'' ''12''), True)"
    by (metis prod.collapse)
qed simp_all

theorem replace_header_replaces_witness:
  "wf_pmsg (fst (replace_header (fst (add_header (new_pmsg 20) ''CSeq'' ''12'')) ''cseq'' ''7'')) \<and>
   header_strings (fst (replace_header (fst (add_header (new_pmsg 20) ''CSeq'' ''12'')) ''cseq'' ''7'')) =
     (if True then replace_assoc ''cseq'' ''7'' (header_strings (fst (add_header (new_pmsg 20) ''CSeq'' ''12'')))
      else header_strings (fst (add_header (new_pmsg 20) ''CSeq'' ''12'')))"
proof (rule replace_header_replaces)
  show "wf_pmsg (fst (add_header (new_pmsg 20) ''CSeq'' ''12''))" by code_simp
  have "snd (replace_header (fst (add_header (new_pmsg 20) ''CSeq'' ''12'')) ''cseq'' ''7'')" by code_simp
  then show "replace_header (fst (add_header (new_pmsg 20) ''CSeq'' ''12'')) ''cseq'' ''7'' =
      (fst (replace_header (fst (add_header (new_pmsg 20) ''CSeq'' ''12'')) ''cseq'' ''7''), True)"
    by (metis prod.collapse)
qed simp_all

end
