(* ===== verification/Fifo.thy ===== *)
theory Fifo
  imports Prelude
begin

text \<open>
  The contract that the queues of the program share: the send buffer of a connection, the
  frame queues of an exchanger and the soft event queue all promise that
  what is accepted comes out once, in order, and that a refused item leaves no trace.
  \<open>items\<close> is the abstract content, oldest first; \<open>put\<close> offers a list of items and says
  whether it took them, \<open>get\<close> hands out a prefix whose length its second argument decides.
\<close>

datatype ('a, 'k) fifo_op = Put "'a list" | Get 'k

fun fifo_run ::
  "('s \<Rightarrow> 'a list \<Rightarrow> 's \<times> bool) \<Rightarrow> ('s \<Rightarrow> 'k \<Rightarrow> 's \<times> 'a list) \<Rightarrow> 's \<Rightarrow> ('a, 'k) fifo_op list
     \<Rightarrow> 's \<times> 'a list \<times> 'a list" where
  "fifo_run put get s [] = (s, [], [])"
| "fifo_run put get s (Put xs # ops) =
     (let (s1, ok) = put s xs; (s2, acc, out) = fifo_run put get s1 ops
      in (s2, (if ok then xs @ acc else acc), out))"
| "fifo_run put get s (Get k # ops) =
     (let (s1, o1) = get s k; (s2, acc, out) = fifo_run put get s1 ops in (s2, acc, o1 @ out))"

locale fifo =
  fixes inv :: "'s \<Rightarrow> bool"
    and items :: "'s \<Rightarrow> 'a list"
    and put :: "'s \<Rightarrow> 'a list \<Rightarrow> 's \<times> bool"
    and get :: "'s \<Rightarrow> 'k \<Rightarrow> 's \<times> 'a list"
  assumes put_inv: "inv s \<Longrightarrow> inv (fst (put s xs))"
    and put_items: "inv s \<Longrightarrow> items (fst (put s xs)) = (if snd (put s xs) then items s @ xs else items s)"
    and get_inv: "inv s \<Longrightarrow> inv (fst (get s k))"
    and get_items: "inv s \<Longrightarrow> items s = snd (get s k) @ items (fst (get s k))"
begin

text \<open>Whatever the interleaving of puts and gets, the output is a prefix of what was accepted.\<close>

lemma run_fifo:
  assumes "inv s" "fifo_run put get s ops = (s', acc, out)"
  shows "inv s' \<and> items s @ acc = out @ items s'"
  using assms
proof (induction ops arbitrary: s s' acc out)
  case Nil
  then show ?case by simp
next
  case (Cons a ops)
  show ?case
  proof (cases a)
    case (Put xs)
    obtain s1 ok where p: "put s xs = (s1, ok)" by (cases "put s xs")
    obtain s2 acc2 out2 where r: "fifo_run put get s1 ops = (s2, acc2, out2)"
      by (cases "fifo_run put get s1 ops") auto
    have 1: "inv s1" "items s1 = (if ok then items s @ xs else items s)"
      using put_inv [OF Cons.prems(1), of xs] put_items [OF Cons.prems(1), of xs] p by auto
    have res: "s' = s2" "acc = (if ok then xs @ acc2 else acc2)" "out = out2"
      using Cons.prems(2) Put p r by (auto split: if_splits)
    show ?thesis using Cons.IH [OF 1(1) r] 1(2) res by auto
  next
    case (Get k)
    obtain s1 o1 where p: "get s k = (s1, o1)" by (cases "get s k")
    obtain s2 acc2 out2 where r: "fifo_run put get s1 ops = (s2, acc2, out2)"
      by (cases "fifo_run put get s1 ops") auto
    have 1: "inv s1" "items s = o1 @ items s1"
      using get_inv [OF Cons.prems(1), of k] get_items [OF Cons.prems(1), of k] p by auto
    have res: "s' = s2" "acc = acc2" "out = o1 @ out2"
      using Cons.prems(2) Get p r by auto
    show ?thesis using Cons.IH [OF 1(1) r] 1(2) res by auto
  qed
qed

lemma run_inv: "inv s \<Longrightarrow> inv (fst (fifo_run put get s ops))"
  using run_fifo [of s ops] by (cases "fifo_run put get s ops") auto

end

end
