(* ===== verification/Tcp.thy ===== *)
theory Tcp
  imports Pmsg Fifo
begin

text \<open>
  \<open>tcp.c\<close>, the part that concerns one connection: the circular send buffer, the writer that
  drains it, the formatting of responses, the base64 decoder of the QuickTime tunnel, the
  framing of interleaved packets (\<open>interleave_send\<close> of \<open>rtsp.c\<close>), and the cutting of the
  received bytes into messages. The connection list and what the handlers do with a message
  are in the theory of the server.
\<close>

section \<open>State\<close>

datatype conn_proto = CONN_PROTO_START | CONN_PROTO_RTSP | CONN_PROTO_HTTP | CONN_PROTO_SIP

text \<open>
  Buffers have the size of their lists: \<open>sizeof( c->send_buf )\<close> is \<open>length (send_buf c)\<close>.
  \<open>write_enabled\<close> is the state of \<open>write_event\<close>.
\<close>

record conn =
  c_fd :: int
  c_second_fd :: int
  c_second_read :: bool
  c_proto :: conn_proto
  c_cookie :: string
  c_base64_count :: int
  c_req_buf :: string
  c_req_len :: nat
  send_buf :: "byte list"
  send_buf_r :: nat
  send_buf_w :: nat
  write_enabled :: bool
  drop_after :: bool

definition REQ_BUF :: nat where "REQ_BUF = 4096"
definition SEND_BUF :: nat where "SEND_BUF = 65536"

definition new_conn :: "int \<Rightarrow> nat \<Rightarrow> nat \<Rightarrow> conn" where
  "new_conn fd rsz ssz =
     \<lparr>c_fd = fd, c_second_fd = -1, c_second_read = False, c_proto = CONN_PROTO_START,
      c_cookie = [], c_base64_count = -1, c_req_buf = replicate rsz NUL, c_req_len = 0,
      send_buf = replicate ssz 0, send_buf_r = 0, send_buf_w = 0,
      write_enabled = False, drop_after = False\<rparr>"

section \<open>The send buffer\<close>

definition avail_send_buf :: "conn \<Rightarrow> nat" where
  "avail_send_buf c =
     (if send_buf_w c < send_buf_r c then send_buf_r c - send_buf_w c - 1
      else length (send_buf c) - send_buf_w c + send_buf_r c - 1)"

fun put_bytes :: "conn \<Rightarrow> byte list \<Rightarrow> conn" where
  "put_bytes c [] = c"
| "put_bytes c (x # xs) =
     (let b = (send_buf c)[send_buf_w c := x];
          w = send_buf_w c + 1
      in put_bytes (c\<lparr>send_buf := b, send_buf_w := (if w = length b then 0 else w)\<rparr>) xs)"

text \<open>\<open>send_data\<close> returns 1 when there is no room, here \<open>False\<close>.\<close>

definition send_data :: "conn \<Rightarrow> byte list \<Rightarrow> conn \<times> bool" where
  "send_data c d =
     (if avail_send_buf c < length d then (c, False)
      else ((put_bytes c d)\<lparr>write_enabled := True\<rparr>, True))"

text \<open>
  The kernel's answers to the successive \<open>write\<close> calls of one \<open>conn_write\<close>: it takes some
  bytes, at least one, it would block, or it fails. An exhausted list of answers blocks.
\<close>

datatype write_answer = Wrote nat | EAgain | WError

definition contiguous :: "conn \<Rightarrow> nat" where
  "contiguous c =
     (if send_buf_w c < send_buf_r c then length (send_buf c) - send_buf_r c
      else send_buf_w c - send_buf_r c)"

text \<open>
  \<open>conn_write\<close>: the connection after the call, the bytes handed to the kernel, and whether
  the connection is to be dropped.
\<close>

fun conn_write :: "conn \<Rightarrow> write_answer list \<Rightarrow> conn \<times> byte list \<times> bool" where
  "conn_write c ws =
     (if send_buf_r c = send_buf_w c
      then (if drop_after c then (c, [], True) else (c\<lparr>write_enabled := False\<rparr>, [], False))
      else case ws of
        [] \<Rightarrow> (c, [], False)
      | EAgain # _ \<Rightarrow> (c, [], False)
      | WError # _ \<Rightarrow> (c, [], True)
      | Wrote n # ws' \<Rightarrow>
          (let len = contiguous c;
               ret = min len (max 1 n);
               out = take ret (drop (send_buf_r c) (send_buf c));
               r = send_buf_r c + ret;
               c' = c\<lparr>send_buf_r := (if r = length (send_buf c) then 0 else r)\<rparr>;
               (c'', out', dr) = conn_write c' ws'
           in (c'', out @ out', dr)))"

declare conn_write.simps [simp del]

section \<open>The buffer is a queue\<close>

definition wf_ring :: "conn \<Rightarrow> bool" where
  "wf_ring c \<longleftrightarrow> send_buf_r c < length (send_buf c) \<and> send_buf_w c < length (send_buf c)"

text \<open>What is still to be written, in order.\<close>

definition pending :: "conn \<Rightarrow> byte list" where
  "pending c =
     (if send_buf_r c \<le> send_buf_w c
      then take (send_buf_w c - send_buf_r c) (drop (send_buf_r c) (send_buf c))
      else drop (send_buf_r c) (send_buf c) @ take (send_buf_w c) (send_buf c))"

lemma wf_new_conn [simp, wf_simps]: "0 < ssz \<Longrightarrow> wf_ring (new_conn fd rsz ssz)"
  by (simp add: wf_ring_def new_conn_def)

lemma length_pending: "wf_ring c \<Longrightarrow> length (pending c) + avail_send_buf c + 1 = length (send_buf c)"
  by (auto simp: wf_ring_def pending_def avail_send_buf_def)

definition put_byte :: "conn \<Rightarrow> byte \<Rightarrow> conn" where
  "put_byte c x =
     c\<lparr>send_buf := (send_buf c)[send_buf_w c := x],
       send_buf_w := (if send_buf_w c + 1 = length (send_buf c) then 0 else send_buf_w c + 1)\<rparr>"

lemma put_bytes_Cons [simp]: "put_bytes c (x # xs) = put_bytes (put_byte c x) xs"
  by (simp add: put_byte_def Let_def)

declare put_bytes.simps(2) [simp del]

lemma put_byte_spec:
  assumes "wf_ring c" "0 < avail_send_buf c"
  shows "wf_ring (put_byte c x)" "pending (put_byte c x) = pending c @ [x]"
    "avail_send_buf c = Suc (avail_send_buf (put_byte c x))"
proof -
  obtain r w b where rw: "r = send_buf_r c" "w = send_buf_w c" "b = send_buf c" by simp
  have lt: "w < length b" "r < length b" using assms(1) by (auto simp: wf_ring_def rw)
  show "wf_ring (put_byte c x)" using assms(1) by (auto simp: wf_ring_def put_byte_def)
  consider "w < r" "Suc w < r" | "r \<le> w" "Suc w < length b" | "r \<le> w" "Suc w = length b" "0 < r"
    using assms(2) lt by (fastforce simp: avail_send_buf_def rw [symmetric] split: if_splits)
  then show "pending (put_byte c x) = pending c @ [x]"
  proof cases
    case 1
    then show ?thesis using lt
      by (simp add: pending_def put_byte_def rw [symmetric] take_Suc_conv_app_nth)
  next
    case 2
    then have "take (Suc w - r) (drop r (b[w := x])) = take (w - r) (drop r b) @ [x]"
      using lt by (simp add: Suc_diff_le take_Suc_conv_app_nth drop_update_swap)
    with 2 lt show ?thesis by (simp add: pending_def put_byte_def rw [symmetric])
  next
    case 3
    then have "w - r < length (drop r b)" "length (drop r b) = Suc (w - r)" using lt by simp_all
    then have "drop r (b[w := x]) = take (w - r) (drop r b) @ [x]"
      using 3 lt take_Suc_conv_app_nth [of "w - r" "(drop r b)[w - r := x]"]
      by (simp add: drop_update_swap)
    with 3 lt show ?thesis by (simp add: pending_def put_byte_def rw [symmetric])
  qed
  show "avail_send_buf c = Suc (avail_send_buf (put_byte c x))"
    using assms(2) lt by (auto simp: avail_send_buf_def put_byte_def rw [symmetric])
qed

lemma put_bytes_spec:
  "wf_ring c \<Longrightarrow> length d \<le> avail_send_buf c \<Longrightarrow>
     wf_ring (put_bytes c d) \<and> pending (put_bytes c d) = pending c @ d \<and>
     avail_send_buf (put_bytes c d) = avail_send_buf c - length d \<and>
     length (send_buf (put_bytes c d)) = length (send_buf c)"
proof (induction d arbitrary: c)
  case (Cons x d)
  then have "0 < avail_send_buf c" by simp
  note p = put_byte_spec [OF Cons.prems(1) this, of x]
  have "length (send_buf (put_byte c x)) = length (send_buf c)" by (simp add: put_byte_def)
  with Cons.IH [OF p(1)] Cons.prems(2) p show ?case by simp
qed simp

lemma send_data_spec:
  assumes "wf_ring c"
  shows "wf_ring (fst (send_data c d))"
    "pending (fst (send_data c d)) = (if snd (send_data c d) then pending c @ d else pending c)"
    "snd (send_data c d) \<longleftrightarrow> length d \<le> avail_send_buf c"
proof -
  have upd: "wf_ring (c\<lparr>write_enabled := e\<rparr>) = wf_ring c" "pending (c\<lparr>write_enabled := e\<rparr>) = pending c" for c e
    by (simp_all add: wf_ring_def pending_def)
  show "wf_ring (fst (send_data c d))"
    "pending (fst (send_data c d)) = (if snd (send_data c d) then pending c @ d else pending c)"
    "snd (send_data c d) \<longleftrightarrow> length d \<le> avail_send_buf c"
    using put_bytes_spec [OF assms, of d] assms by (auto simp: send_data_def upd)
qed

lemma contiguous_pending:
  assumes "wf_ring c" "send_buf_r c \<noteq> send_buf_w c"
  shows "0 < contiguous c" "take (contiguous c) (pending c) = take (contiguous c) (drop (send_buf_r c) (send_buf c))"
    "contiguous c \<le> length (pending c)"
  using assms by (auto simp: wf_ring_def contiguous_def pending_def)

lemma advance_pending:
  assumes "wf_ring c" "n \<le> contiguous c" "send_buf_r c \<noteq> send_buf_w c" "0 < n"
  defines "c' \<equiv> c\<lparr>send_buf_r := (if send_buf_r c + n = length (send_buf c) then 0 else send_buf_r c + n)\<rparr>"
  shows "wf_ring c'" "pending c' = drop n (pending c)"
    "pending c = take n (drop (send_buf_r c) (send_buf c)) @ pending c'"
proof -
  obtain r w b where rw: "r = send_buf_r c" "w = send_buf_w c" "b = send_buf c" by simp
  have lt: "w < length b" "r < length b" using assms(1) by (auto simp: wf_ring_def rw)
  show "wf_ring c'"
    using assms(2) lt by (auto simp: wf_ring_def c'_def contiguous_def rw [symmetric] split: if_splits)
  show d: "pending c' = drop n (pending c)"
    using assms(2) lt
    by (auto simp: pending_def c'_def contiguous_def rw [symmetric] drop_take add.commute split: if_splits)
  have "take n (pending c) = take n (take (contiguous c) (pending c))"
    using assms(2) by (simp add: min_absorb1)
  also have "\<dots> = take n (drop (send_buf_r c) (send_buf c))"
    using contiguous_pending(2) [OF assms(1,3)] assms(2) by (simp add: min_absorb1)
  finally show "pending c = take n (drop (send_buf_r c) (send_buf c)) @ pending c'"
    using append_take_drop_id [of n "pending c"] by (simp add: d)
qed

lemma enable_ring [simp]:
  "wf_ring (c\<lparr>write_enabled := e\<rparr>) = wf_ring c" "pending (c\<lparr>write_enabled := e\<rparr>) = pending c"
  "avail_send_buf (c\<lparr>write_enabled := e\<rparr>) = avail_send_buf c"
  by (simp_all add: wf_ring_def pending_def avail_send_buf_def)

lemma conn_write_stop:
  "send_buf_r c = send_buf_w c \<Longrightarrow>
     conn_write c ws = (if drop_after c then (c, [], True) else (c\<lparr>write_enabled := False\<rparr>, [], False))"
  "send_buf_r c \<noteq> send_buf_w c \<Longrightarrow> conn_write c [] = (c, [], False)"
  "send_buf_r c \<noteq> send_buf_w c \<Longrightarrow> conn_write c (EAgain # ws) = (c, [], False)"
  "send_buf_r c \<noteq> send_buf_w c \<Longrightarrow> conn_write c (WError # ws) = (c, [], True)"
  by (subst conn_write.simps, simp)+

lemma conn_write_step:
  assumes "send_buf_r c \<noteq> send_buf_w c" "ret = min (contiguous c) (max 1 n)"
    "c1 = c\<lparr>send_buf_r := (if send_buf_r c + ret = length (send_buf c) then 0 else send_buf_r c + ret)\<rparr>"
    "conn_write c1 ws = (c2, o2, d2)"
  shows "conn_write c (Wrote n # ws) = (c2, take ret (drop (send_buf_r c) (send_buf c)) @ o2, d2)"
  using assms(1,4) unfolding assms(2,3) by (subst conn_write.simps) (auto simp: Let_def)

lemma conn_write_spec:
  assumes "wf_ring c" "conn_write c ws = (c', out, dr)"
  shows "wf_ring c' \<and> pending c = out @ pending c'"
  using assms
proof (induction ws arbitrary: c out)
  case Nil
  then show ?case
    by (cases "send_buf_r c = send_buf_w c") (auto simp: conn_write_stop split: if_splits)
next
  case (Cons a ws)
  show ?case
  proof (cases "send_buf_r c = send_buf_w c \<or> a = EAgain \<or> a = WError")
    case True
    with Cons.prems show ?thesis
      by (cases "send_buf_r c = send_buf_w c") (auto simp: conn_write_stop split: if_splits)
  next
    case False
    then obtain n where ne: "send_buf_r c \<noteq> send_buf_w c" and a: "a = Wrote n"
      by (cases a) auto
    define ret where "ret = min (contiguous c) (max 1 n)"
    define c1 where
      "c1 = c\<lparr>send_buf_r := (if send_buf_r c + ret = length (send_buf c) then 0 else send_buf_r c + ret)\<rparr>"
    obtain c2 o2 d2 where r: "conn_write c1 ws = (c2, o2, d2)" by (cases "conn_write c1 ws") auto
    have res: "c' = c2" "out = take ret (drop (send_buf_r c) (send_buf c)) @ o2" "dr = d2"
      using Cons.prems(2) conn_write_step [OF ne ret_def c1_def r] a by simp_all
    have "ret \<le> contiguous c" "0 < ret"
      using contiguous_pending(1) [OF Cons.prems(1) ne] by (auto simp: ret_def)
    note adv = advance_pending [OF Cons.prems(1) this(1) ne this(2), folded c1_def]
    from Cons.IH [OF adv(1)] r res have "wf_ring c2 \<and> pending c1 = o2 @ pending c2" by simp
    with adv(3) res show ?thesis by simp
  qed
qed

text \<open>The send buffer of a connection and its writer satisfy the queue contract.\<close>

definition drain :: "conn \<Rightarrow> write_answer list \<Rightarrow> conn \<times> byte list" where
  "drain c ws = (let (c', out, dr) = conn_write c ws in (c', out))"

lemma drain_spec: "wf_ring c \<Longrightarrow> wf_ring (fst (drain c ws)) \<and> pending c = snd (drain c ws) @ pending (fst (drain c ws))"
  using conn_write_spec [of c ws] by (cases "conn_write c ws") (auto simp: drain_def)

interpretation ring: fifo wf_ring pending send_data drain
  using send_data_spec drain_spec by unfold_locales auto

section \<open>Responses\<close>

definition MSG_BUF :: nat where "MSG_BUF = 2048"

text \<open>
  \<open>tcp_send_pmsg\<close> formats the response with \<open>sprintf\<close> into an array of 2048 bytes without a
  length check, so a longer text (with its NUL) is a write outside the array. A negative
  \<open>len\<close> means that no body follows; otherwise room for the body is asked for as well.
\<close>

definition pmsg_text :: "pmsg \<Rightarrow> int \<Rightarrow> string" where
  "pmsg_text m len =
     cstr (pm_msg m) (pm_proto m) @ '' '' @ dec_int (pm_code m) @ '' '' @
     cstr (pm_msg m) (pm_reason m) @ crlf @
     concat (map (\<lambda>(n, v). cstr (pm_msg m) n @ '': '' @ cstr (pm_msg m) v @ crlf) (pm_fields m)) @
     (if 0 \<le> len then ''Content-Length: '' @ dec_int len @ crlf @ crlf else crlf)"

definition tcp_send_pmsg :: "conn \<Rightarrow> pmsg \<Rightarrow> int \<Rightarrow> (conn \<times> bool) cres" where
  "tcp_send_pmsg c m len =
     (if pm_type m \<noteq> PMSG_RESP then Inr (c, False)
      else let buf = pmsg_text m len;
               i = length buf;
               totlen = (if 0 \<le> len then i + nat len else i)
           in if MSG_BUF < i + 1 then Inl Fault
              else if avail_send_buf c < totlen then Inr (c, False)
              else Inr (fst (send_data c (bytes_of buf)), True))"

lemma pmsg_text_response:
  "pmsg_text m len = response_text (cstr (pm_msg m) (pm_proto m)) (pm_code m)
     (cstr (pm_msg m) (pm_reason m))
     (header_strings m @ (if 0 \<le> len then [(''Content-Length'', dec_int len)] else []))"
  by (simp add: pmsg_text_def response_text_def header_lines_def header_strings_def header_line_def
      comp_def split_def)

lemma dec_nat_length: "n < 10 ^ k \<Longrightarrow> 0 < k \<Longrightarrow> length (dec_nat n) \<le> k"
proof (induction n arbitrary: k rule: dec_nat.induct)
  case (1 n)
  show ?case
  proof (cases "n < 10")
    case False
    with 1 obtain j where k: "k = Suc j" "0 < j" by (cases k; cases "k - 1") auto
    with 1 False have "length (dec_nat (n div 10)) \<le> j" by (intro "1.IH") auto
    with False k show ?thesis by (subst dec_nat.simps) simp
  qed (use 1 in \<open>subst dec_nat.simps, simp\<close>)
qed

text \<open>
  C24. The array never overflows for the replies the servers build: a well-formed reply in a
  message of at most 1024 bytes (they are 256 to 512), a status code of at most four digits
  and a body length below 10^10 give a text that fits.
\<close>

theorem tcp_send_pmsg_no_overflow:
  assumes "wf_reply m" "max_len m \<le> 1024" "0 \<le> pm_code m" "pm_code m < 10 ^ 4" "len < 10 ^ 10"
  shows "tcp_send_pmsg c m len \<noteq> Inl Fault"
proof -
  have wf: "wf_pmsg m" using assms(1) by (simp add: wf_reply_def)
  let ?s = "\<lambda>p. length (cstr (pm_msg m) p)"
  have "(\<Sum>p\<leftarrow>pm_proto m # pm_reason m # field_starts m. ?s p + 1) \<le> pm_len m"
    using assms(1) by (intro strings_fit) (auto simp: wf_reply_def wf_pmsg_def)
  moreover have "(\<Sum>p\<leftarrow>map fst fs @ map snd fs. ?s p + 1) = (\<Sum>(n, v)\<leftarrow>fs. ?s n + ?s v + 2)"
    for fs :: "(nat \<times> nat) list"
    by (induction fs) auto
  ultimately have sum: "?s (pm_proto m) + ?s (pm_reason m)
      + (\<Sum>(n, v)\<leftarrow>pm_fields m. ?s n + ?s v + 2) + 2 \<le> 1024"
    using wf assms(2) unfolding field_starts_def by (simp add: wf_pmsg_def)
  have lines: "length (concat (map (\<lambda>(n, v). cstr (pm_msg m) n @ '': '' @ cstr (pm_msg m) v @ crlf) fs))
      = (\<Sum>(n, v)\<leftarrow>fs. ?s n + ?s v + 2) + 2 * length fs" for fs
    by (induction fs) (auto simp: crlf_def)
  have "length (dec_int (pm_code m)) \<le> 4"
    using assms(3,4) dec_nat_length [of "nat (pm_code m)" 4] by (simp add: dec_int_nonneg)
  moreover have "length (dec_int len) \<le> 10" if "0 \<le> len"
    using that assms(5) dec_nat_length [of "nat len" 10] by (simp add: dec_int_nonneg)
  moreover have "length (pm_fields m) \<le> 32" using wf by (simp add: wf_pmsg_def MAX_FIELDS_def)
  ultimately have "length (pmsg_text m len) + 1 \<le> MSG_BUF"
    using sum lines [of "pm_fields m"]
    by (cases "0 \<le> len") (simp_all add: pmsg_text_def crlf_def MSG_BUF_def)
  then show ?thesis by (simp add: tcp_send_pmsg_def Let_def)
qed

lemma tcp_send_pmsg_sends:
  assumes "tcp_send_pmsg c m len = Inr (c', True)" "wf_ring c"
  shows "wf_ring c' \<and> pending c' = pending c @ bytes_of (pmsg_text m len)"
proof -
  from assms have c': "c' = fst (send_data c (bytes_of (pmsg_text m len)))"
    and av: "(if 0 \<le> len then length (pmsg_text m len) + nat len else length (pmsg_text m len)) \<le> avail_send_buf c"
    by (auto simp: tcp_send_pmsg_def Let_def split: if_splits)
  then have "length (bytes_of (pmsg_text m len)) \<le> avail_send_buf c" by (auto split: if_splits)
  then show ?thesis using send_data_spec [OF assms(2), of "bytes_of (pmsg_text m len)"] by (simp add: c')
qed

text \<open>
  What \<open>tcp_send_pmsg\<close> queues is a response that \<open>parse_pmsg\<close> reads back: the protocol,
  the status, the reason and the headers of the reply, followed by a Content-Length header
  exactly when a body length was given; the parser stops where the body starts.
\<close>

lemma response_roundtrip:
  assumes sent: "tcp_send_pmsg c m len = Inr (c', True)" "wf_ring c"
    and plain: "plain_word (cstr (pm_msg m) (pm_proto m))" "CHR ''/'' \<in> set (cstr (pm_msg m) (pm_proto m))"
      "plain_reason (cstr (pm_msg m) (pm_reason m))" "100 \<le> pm_code m" "pm_code m < 1000"
      "\<forall>h\<in>set (header_strings m). plain_header h"
    and room: "length (pm_fields m) < MAX_FIELDS"
  shows "\<exists>txt. pending c' = pending c @ bytes_of txt \<and>
    (\<forall>r body. pm_msg r = txt @ body \<and> pm_len r = max_len r \<longrightarrow>
      (\<exists>r'. parse_pmsg r = Inr (r', length txt) \<and> pm_type r' = PMSG_RESP \<and>
         cstr (pm_msg r') (pm_proto r') = cstr (pm_msg m) (pm_proto m) \<and>
         pm_code r' = pm_code m \<and> cstr (pm_msg r') (pm_reason r') = cstr (pm_msg m) (pm_reason m) \<and>
         header_strings r' = header_strings m @
           (if 0 \<le> len then [(''Content-Length'', dec_int len)] else [])))"
  (is "\<exists>txt. _ \<and> (\<forall>r body. _ \<longrightarrow> ?P txt r)")
proof (rule exI, intro conjI allI impI)
  let ?R = "?P (pmsg_text m len)"
  define hs where
    "hs = header_strings m @ (if 0 \<le> len then [(''Content-Length'', dec_int len)] else [])"
  show "pending c' = pending c @ bytes_of (pmsg_text m len)"
    using tcp_send_pmsg_sends [OF sent] by simp
  have "plain_value (dec_int len)" if "0 \<le> len"
  proof -
    have "\<forall>x\<in>set (dec_int len). is_digit x" using that dec_nat_digits by (simp add: dec_int_nonneg)
    then have "\<forall>x\<in>set (dec_int len). x \<noteq> CR \<and> x \<noteq> LF \<and> x \<noteq> NUL \<and> \<not> is_blank x"
      by (auto simp: is_digit_def is_blank_def)
    then show ?thesis by (cases "dec_int len") (auto simp: plain_value_def)
  qed
  then have ph: "\<forall>h\<in>set hs. plain_header h"
    using plain(6) by (auto simp: hs_def plain_header_def plain_name_def)
  have len: "length hs \<le> MAX_FIELDS" using room by (simp add: hs_def header_strings_def)
  fix r body assume r: "pm_msg r = pmsg_text m len @ body \<and> pm_len r = max_len r"
  then have "pm_msg r = response_text (cstr (pm_msg m) (pm_proto m)) (pm_code m)
      (cstr (pm_msg m) (pm_reason m)) hs @ body"
    by (simp add: pmsg_text_response hs_def)
  from parse_pmsg_response_strings [OF plain(1-5) ph len this conjunct2 [OF r]]
  show "?R r" by (simp add: pmsg_text_response hs_def)
qed

section \<open>Interleaved packets\<close>

text \<open>
  \<open>interleave_send\<close> gathers the pieces of a packet behind a header of four bytes: a dollar
  sign, the channel and the length. \<open>False\<close> is the result 1, no room.
\<close>

definition interleave_send :: "conn \<Rightarrow> nat \<Rightarrow> byte list list \<Rightarrow> conn \<times> bool" where
  "interleave_send c chan v =
     (let len = sum_list (map length v) in
      if avail_send_buf c < len + 4 then (c, False)
      else let head = [0x24, of_nat chan] @ PUT_16 (int len);
               c1 = fst (send_data c head)
           in (foldl (\<lambda>c p. fst (send_data c p)) c1 v, True))"

lemma send_pieces:
  "wf_ring c \<Longrightarrow> sum_list (map length v) \<le> avail_send_buf c \<Longrightarrow>
     wf_ring (foldl (\<lambda>c p. fst (send_data c p)) c v) \<and>
     pending (foldl (\<lambda>c p. fst (send_data c p)) c v) = pending c @ concat v"
proof (induction v arbitrary: c)
  case (Cons p v)
  note s = send_data_spec [OF Cons.prems(1), of p]
  have "avail_send_buf (fst (send_data c p)) = avail_send_buf c - length p"
    using Cons.prems put_bytes_spec [OF Cons.prems(1), of p]
    by (simp add: send_data_def)
  with Cons s show ?case by simp
qed simp

lemma interleave_send_spec:
  assumes "wf_ring c"
  shows "wf_ring (fst (interleave_send c chan v))"
    "snd (interleave_send c chan v) \<longleftrightarrow> length (concat v) + 4 \<le> avail_send_buf c"
    "snd (interleave_send c chan v) \<Longrightarrow> pending (fst (interleave_send c chan v)) =
       pending c @ [0x24, of_nat chan] @ PUT_16 (int (length (concat v))) @ concat v"
    "\<not> snd (interleave_send c chan v) \<Longrightarrow> fst (interleave_send c chan v) = c"
proof -
  define head where "head = [0x24, of_nat chan :: byte] @ PUT_16 (int (length (concat v)))"
  have h: "length head = 4" by (simp add: head_def)
  have len: "sum_list (map length v) = length (concat v)" by (simp add: length_concat)
  show "snd (interleave_send c chan v) \<longleftrightarrow> length (concat v) + 4 \<le> avail_send_buf c"
    by (auto simp: interleave_send_def Let_def len)
  show "\<not> snd (interleave_send c chan v) \<Longrightarrow> fst (interleave_send c chan v) = c"
    by (auto simp: interleave_send_def Let_def split: if_splits)
  have room: "wf_ring (fst (send_data c head)) \<and> pending (fst (send_data c head)) = pending c @ head \<and>
      avail_send_buf (fst (send_data c head)) = avail_send_buf c - 4"
    if "length (concat v) + 4 \<le> avail_send_buf c"
    using that put_bytes_spec [OF assms, of head] h
    by (simp add: send_data_def)
  have eq: "fst (interleave_send c chan v) = foldl (\<lambda>c p. fst (send_data c p)) (fst (send_data c head)) v"
    if "length (concat v) + 4 \<le> avail_send_buf c"
    using that by (simp add: interleave_send_def Let_def len head_def)
  show "wf_ring (fst (interleave_send c chan v))"
  proof (cases "length (concat v) + 4 \<le> avail_send_buf c")
    case True
    then show ?thesis using room eq send_pieces [of "fst (send_data c head)" v] len by simp
  qed (use assms in \<open>simp add: interleave_send_def Let_def len\<close>)
  show "pending (fst (interleave_send c chan v)) =
       pending c @ [0x24, of_nat chan] @ PUT_16 (int (length (concat v))) @ concat v"
    if "snd (interleave_send c chan v)"
  proof -
    have l: "length (concat v) + 4 \<le> avail_send_buf c"
      using that by (auto simp: interleave_send_def Let_def len split: if_splits)
    with room eq send_pieces [of "fst (send_data c head)" v] len show ?thesis
      by (simp add: head_def)
  qed
qed

section \<open>Cutting the input into messages\<close>

text \<open>
  What \<open>parse_client_data\<close> finds in the request buffer. \<open>Again\<close> is its result 1, after the
  first line has told the protocol; \<open>Wait\<close> leaves the buffer for more input; a packet or a
  request is handed to the code above, and then the buffer is emptied.
\<close>

datatype client_input =
  Wait | Bad | Again conn_proto | Packet nat string | Request

definition client_input :: "conn \<Rightarrow> client_input" where
  "client_input c =
     (let s = cstr (c_req_buf c) 0 in
      case c_proto c of
        CONN_PROTO_START \<Rightarrow>
          (case strchr s LF of
             None \<Rightarrow> Wait
           | Some a \<Rightarrow>
               (case strrchr (take a s) SPC of
                  None \<Rightarrow> Bad
                | Some b \<Rightarrow>
                    if strn_eq 5 (drop (b + 1) (take a s)) ''HTTP/'' then Again CONN_PROTO_HTTP
                    else if strn_eq 5 (drop (b + 1) (take a s)) ''RTSP/'' then Again CONN_PROTO_RTSP
                    else Bad))
      | CONN_PROTO_RTSP \<Rightarrow>
          (if c_req_len c < 4 then Wait
           else if c_req_buf c ! 0 = CHR ''$''
           then let len = nat (GET_16 (bytes_of (drop 2 (c_req_buf c))))
                in if c_req_len c < len + 4 then Wait
                   else Packet (of_char (c_req_buf c ! 1)) (take len (drop 4 (c_req_buf c)))
           else if strstr s [CR, LF, CR, LF] = None then Wait else Request)
      | CONN_PROTO_HTTP \<Rightarrow> (if strstr s [CR, LF, CR, LF] = None then Wait else Request)
      | CONN_PROTO_SIP \<Rightarrow> Wait)"

lemma char_dollar: "char_of_byte 0x24 = CHR ''$''"
  by code_simp

text \<open>
  A packet queued by \<open>interleave_send\<close> is one frame, and the code that cuts the
  received bytes finds exactly its channel and its payload in that frame; no packet that fits
  the send buffer of 65536 bytes is too long for the 16-bit length field.
\<close>

lemma interleave_roundtrip:
  assumes "wf_ring c" "length (send_buf c) \<le> SEND_BUF" "chan < 256" "interleave_send c chan v = (c', True)"
  shows "\<exists>frame. pending c' = pending c @ frame \<and>
    (\<forall>r rest. c_proto r = CONN_PROTO_RTSP \<and> c_req_buf r = string_of frame @ rest \<and>
       length frame \<le> c_req_len r \<longrightarrow> client_input r = Packet chan (string_of (concat v)))"
proof (rule exI, intro conjI allI impI)
  let ?n = "length (concat v)"
  let ?frame = "[0x24, of_nat chan] @ PUT_16 (int ?n) @ concat v"
  note s = interleave_send_spec [OF assms(1), of chan v]
  show "pending c' = pending c @ ?frame" using s(3) assms(4) by simp
  have n: "?n < 65536"
    using s(2) assms(2,4) length_pending [OF assms(1)] by (simp add: SEND_BUF_def)
  have p16: "PUT_16 (int ?n) = [PUT_16 (int ?n) ! 0, PUT_16 (int ?n) ! 1]" by (simp add: PUT_16_def)
  fix r :: conn and rest
  assume r: "c_proto r = CONN_PROTO_RTSP \<and> c_req_buf r = string_of ?frame @ rest \<and>
    length ?frame \<le> c_req_len r"
  have buf: "c_req_buf r = CHR ''$'' # char_of_byte (of_nat chan) # string_of (PUT_16 (int ?n)) @
      string_of (concat v) @ rest"
    using r by (simp add: string_of_Cons char_dollar)
  have "GET_16 (bytes_of (drop 2 (c_req_buf r))) = int ?n"
    using n by (simp add: buf)
  moreover have "of_char (c_req_buf r ! 1) = chan"
    using assms(3) by (simp add: buf of_char_char_of_byte unat_of_nat take_bit_nat_eq_self)
  moreover have "take ?n (drop 4 (c_req_buf r)) = string_of (concat v)"
  proof -
    have "drop 4 (c_req_buf r) = string_of (concat v) @ rest"
      unfolding buf by (simp add: eval_nat_numeral)
    then show ?thesis by simp
  qed
  moreover have "c_req_buf r ! 0 = CHR ''$''" by (simp add: buf)
  ultimately show "client_input r = Packet chan (string_of (concat v))"
    using r by (simp add: client_input_def)
qed

theorem interleave_roundtrip_witness:
  "\<exists>frame. pending (fst (interleave_send (new_conn 5 16 32) 3 [[0x80], [1, 2]])) =
      pending (new_conn 5 16 32) @ frame \<and>
    (\<forall>r rest. c_proto r = CONN_PROTO_RTSP \<and> c_req_buf r = string_of frame @ rest \<and>
       length frame \<le> c_req_len r \<longrightarrow> client_input r = Packet 3 (string_of (concat [[0x80], [1, 2]])))"
proof -
  have "snd (interleave_send (new_conn 5 16 32) 3 [[0x80], [1, 2]])"
    by (simp add: interleave_send_def new_conn_def avail_send_buf_def)
  then have "interleave_send (new_conn 5 16 32) 3 [[0x80], [1, 2]] =
      (fst (interleave_send (new_conn 5 16 32) 3 [[0x80], [1, 2]]), True)"
    by (metis prod.collapse)
  then show ?thesis
    by (rule interleave_roundtrip [rotated 3]) (simp_all add: new_conn_def SEND_BUF_def wf_ring_def)
qed

section \<open>The base64 decoder of the tunnel\<close>

text \<open>The table of \<open>base64_table.h\<close>; the padding character counts as the value 0.\<close>

definition base64 :: "byte \<Rightarrow> int" where
  "base64 c =
     (let v = uint c in
      if 65 \<le> v \<and> v \<le> 90 then v - 65
      else if 97 \<le> v \<and> v \<le> 122 then v - 71
      else if 48 \<le> v \<and> v \<le> 57 then v + 4
      else if v = 43 then 62
      else if v = 47 then 63
      else if v = 61 then 0
      else -1)"

text \<open>
  The inner loop of \<open>unbase64\<close>: the next characters of the alphabet, at most four, and the
  offset behind them.
\<close>

function gather :: "byte list \<Rightarrow> nat \<Rightarrow> nat \<Rightarrow> byte list \<Rightarrow> byte list \<times> nat" where
  "gather d src len enc =
     (if length enc < 4 \<and> src < len
      then if base64 (d ! src) < 0 then gather d (Suc src) len enc
           else gather d (Suc src) len (enc @ [d ! src])
      else (enc, src))"
  by pat_completeness auto
termination
  by (relation "measure (\<lambda>(d, src, len, enc). len - src)") auto

declare gather.simps [simp del]

definition b64_bytes :: "byte list \<Rightarrow> byte list" where
  "b64_bytes e =
     [word_of_int ((push_bit 2 (base64 (e ! 0)) AND 0xFC) OR drop_bit 4 (base64 (e ! 1))),
      word_of_int ((push_bit 4 (base64 (e ! 1)) AND 0xF0) OR drop_bit 2 (base64 (e ! 2))),
      word_of_int ((push_bit 6 (base64 (e ! 2)) AND 0xC0) OR base64 (e ! 3))]"

definition b64_count :: "byte list \<Rightarrow> nat" where
  "b64_count e = (if e ! 3 = 61 then if e ! 2 = 61 then 1 else 2 else 3)"

text \<open>
  The outer loop, in place: each group of four writes three bytes and advances by one to
  three; what is left is copied behind the output. The result is the buffer, the number of
  bytes in it, and how many of them are still encoded.
\<close>

lemma gather_src: "gather d src len enc = (e, src') \<Longrightarrow> src \<le> src' \<and> length enc \<le> length e \<and>
    (length enc < length e \<longrightarrow> src < src' \<and> src < len) \<and> length e + src \<le> length enc + src'"
proof (induction d src len enc rule: gather.induct)
  case (1 d src len enc)
  show ?case
  proof (cases "length enc < 4 \<and> src < len")
    case True
    with 1(1,2,3) show ?thesis
      by (cases "base64 (d ! src) < 0") (fastforce simp: gather.simps [of d src])+
  next
    case False
    with 1(3) show ?thesis by (auto simp: gather.simps [of d src])
  qed
qed

function unbase64_loop :: "byte list \<Rightarrow> nat \<Rightarrow> nat \<Rightarrow> nat \<Rightarrow> byte list \<times> nat \<times> nat" where
  "unbase64_loop d src dest len =
     (let (enc, src') = gather d src len [] in
      if length enc < 4 then (blit d dest enc, dest + length enc, length enc)
      else unbase64_loop (blit d dest (b64_bytes enc)) src' (dest + b64_count enc) len)"
  by pat_completeness auto
termination
proof (relation "measure (\<lambda>(d, src, dest, len). len - src)", goal_cases)
  case (2 d src dest len x enc src')
  then have "gather d src len [] = (enc, src')" by simp
  from gather_src [OF this] 2(3) show ?case by auto
qed auto

declare unbase64_loop.simps [simp del]

definition unbase64 :: "byte list \<Rightarrow> nat \<Rightarrow> byte list \<times> nat \<times> nat" where
  "unbase64 d len = unbase64_loop d 0 0 len"

text \<open>What the decoder means: the characters of the alphabet in groups of four.\<close>

definition b64_valid :: "byte \<Rightarrow> bool" where
  "b64_valid c \<longleftrightarrow> 0 \<le> base64 c"

fun b64_groups :: "byte list \<Rightarrow> byte list \<times> byte list" where
  "b64_groups (a # b # c # e # r) =
     (let (out, rest) = b64_groups r
      in (take (b64_count [a, b, c, e]) (b64_bytes [a, b, c, e]) @ out, rest))"
| "b64_groups r = ([], r)"

definition b64_decode :: "byte list \<Rightarrow> byte list \<times> byte list" where
  "b64_decode xs = b64_groups (filter b64_valid xs)"

lemma b64_groups_append:
  assumes "b64_groups xs = (o1, r1)" "b64_groups (r1 @ ys) = (o2, r2)"
  shows "b64_groups (xs @ ys) = (o1 @ o2, r2)"
  using assms by (induction xs arbitrary: o1 rule: b64_groups.induct) (auto split: prod.splits)

lemma b64_groups_rest: "b64_groups xs = (out, rest) \<Longrightarrow> length rest < 4 \<and> set rest \<subseteq> set xs"
  by (induction xs arbitrary: out rule: b64_groups.induct) (auto split: prod.splits)

lemma gather_spec:
  assumes "gather d src len enc = (e, src')" "len \<le> length d" "length enc \<le> 4"
  shows "e = enc @ take (4 - length enc) (filter b64_valid (drop src (take len d))) \<and>
    filter b64_valid (drop src' (take len d)) =
      drop (4 - length enc) (filter b64_valid (drop src (take len d)))"
  using assms
proof (induction d src len enc rule: gather.induct)
  case (1 d src len enc)
  show ?case
  proof (cases "length enc < 4 \<and> src < len")
    case True
    then have h: "drop src (take len d) = d ! src # drop (Suc src) (take len d)"
      using 1(4) by (simp add: Cons_nth_drop_Suc [symmetric])
    show ?thesis
    proof (cases "base64 (d ! src) < 0")
      case True2: True
      with True 1(3) have "gather d (Suc src) len enc = (e, src')" by (simp add: gather.simps [of d src])
      with 1(1) [OF True True2] 1(4,5) True2 show ?thesis by (simp add: h b64_valid_def)
    next
      case False
      with True 1(3) have "gather d (Suc src) len (enc @ [d ! src]) = (e, src')"
        by (simp add: gather.simps [of d src])
      with 1(2) [OF True False] 1(4) True
      have ih: "e = (enc @ [d ! src]) @ take (4 - Suc (length enc)) (filter b64_valid (drop (Suc src) (take len d)))"
        "filter b64_valid (drop src' (take len d)) =
          drop (4 - Suc (length enc)) (filter b64_valid (drop (Suc src) (take len d)))"
        by auto
      have "4 - length enc = Suc (4 - Suc (length enc))" using True by arith
      moreover have "b64_valid (d ! src)" using False by (simp add: b64_valid_def)
      ultimately show ?thesis using ih by (simp add: h)
    qed
  next
    case False
    with 1(3) have e: "e = enc" "src' = src" by (auto simp: gather.simps [of d src])
    from False 1(5) consider "length enc = 4" | "len \<le> src" by linarith
    then show ?thesis using e by cases auto
  qed
qed

lemma gather_le: "gather d src len enc = (e, src') \<Longrightarrow> src \<le> len \<Longrightarrow> src' \<le> len"
proof (induction d src len enc rule: gather.induct)
  case (1 d src len enc)
  then show ?case
    by (cases "length enc < 4 \<and> src < len"; cases "base64 (d ! src) < 0")
       (auto simp: gather.simps [of d src])
qed

lemma b64_count_pos: "0 < b64_count e" "b64_count e \<le> 3"
  by (auto simp: b64_count_def)

lemma length_b64_bytes [simp]: "length (b64_bytes e) = 3"
  by (simp add: b64_bytes_def)

lemma b64_groups_four:
  assumes "4 \<le> length f"
  shows "b64_groups f = (let (out, rest) = b64_groups (drop 4 f)
    in (take (b64_count (take 4 f)) (b64_bytes (take 4 f)) @ out, rest))"
  using assms by (cases f rule: b64_groups.cases) auto

lemma b64_groups_short: "length f < 4 \<Longrightarrow> b64_groups f = ([], f)"
  by (induction f rule: b64_groups.induct) auto

lemma unbase64_loop_spec:
  assumes "unbase64_loop d src dest len = (d', n, rem)" "len \<le> length d" "dest \<le> src" "src \<le> len"
    and "b64_groups (filter b64_valid (drop src (take len d))) = (out, rest)"
  shows "length d' = length d \<and> n = dest + length out + length rest \<and> rem = length rest \<and>
    take n d' = take dest d @ out @ rest \<and> n \<le> len \<and> drop len d' = drop len d"
  using assms
proof (induction d src dest len arbitrary: out rule: unbase64_loop.induct)
  case (1 d src dest len)
  obtain enc src' where g: "gather d src len [] = (enc, src')" by (cases "gather d src len []")
  let ?f = "filter b64_valid (drop src (take len d))"
  from gather_spec [OF g] 1(3)
  have enc: "enc = take 4 ?f" and rest': "filter b64_valid (drop src' (take len d)) = drop 4 ?f" by auto
  from gather_src [OF g] have s': "src \<le> src'" "length enc + src \<le> src'" by auto
  have fl: "length ?f \<le> len - src" using length_filter_le [of b64_valid "drop src (take len d)"] 1(3) by simp
  show ?case
  proof (cases "length enc < 4")
    case True
    then have short: "length ?f < 4" "enc = ?f" using enc by auto
    then have "out = []" "rest = ?f" using 1(6) by (simp_all add: b64_groups_short)
    moreover have res: "d' = blit d dest enc" "n = dest + length enc" "rem = length enc"
      using 1(2) True g by (auto simp: unbase64_loop.simps [of d src])
    moreover have "dest + length enc \<le> len" using short(2) fl 1(4,5) by simp
    moreover have "take (dest + length enc) (blit d dest enc) = take dest d @ enc"
      using 1(3) \<open>dest + length enc \<le> len\<close> by (simp add: blit_def)
    moreover have "drop len (blit d dest enc) = drop len d"
      using 1(3) \<open>dest + length enc \<le> len\<close> by (simp add: blit_def)
    ultimately show ?thesis using short(2) 1(3) by simp
  next
    case False
    then have e4: "length enc = 4" "4 \<le> length ?f" using enc by auto
    let ?d = "blit d dest (b64_bytes enc)"
    let ?k = "b64_count enc"
    have fit: "dest + 3 < src'" "src' \<le> len"
    proof -
      show "dest + 3 < src'" using s' e4 1(4) by simp
      show "src' \<le> len" by (rule gather_le [OF g 1(5)])
    qed
    have same: "drop src' ?d = drop src' d" "length ?d = length d" "drop src' (take len ?d) = drop src' (take len d)"
      using fit 1(3) by (simp_all add: blit_def drop_take)
    obtain out2 where out2: "b64_groups (drop 4 ?f) = (out2, rest)" "out = take ?k (b64_bytes enc) @ out2"
      using 1(6) b64_groups_four [OF e4(2)] enc by (auto split: prod.splits)
    have "unbase64_loop ?d src' (dest + ?k) len = (d', n, rem)"
      using 1(2) False g by (simp add: unbase64_loop.simps [of d src])
    moreover have "len \<le> length ?d" "dest + ?k \<le> src'"
      using same(2) 1(3) fit b64_count_pos [of enc] by simp_all
    moreover have "b64_groups (filter b64_valid (drop src' (take len ?d))) = (out2, rest)"
      using same(3) rest' out2(1) by simp
    ultimately have ih: "length d' = length d \<and> n = dest + ?k + length out2 + length rest \<and> rem = length rest \<and>
        take n d' = take (dest + ?k) ?d @ out2 @ rest \<and> n \<le> len \<and> drop len d' = drop len ?d"
      using "1.IH" [OF g [symmetric] refl False _ _ _ fit(2)] same(2) by metis
    have "take (dest + ?k) ?d = take dest d @ take ?k (b64_bytes enc)"
      using b64_count_pos [of enc] fit 1(3) by (simp add: blit_def)
    moreover have "drop len ?d = drop len d" using fit 1(3) by (simp add: blit_def)
    moreover have "length (take ?k (b64_bytes enc)) = ?k" using b64_count_pos [of enc] by simp
    moreover have "length out = ?k + length out2"
      using b64_count_pos [of enc] by (simp add: out2(2))
    moreover have "length d' = length d" "rem = length rest" "n \<le> len" "drop len d' = drop len ?d"
      "take n d' = take (dest + ?k) ?d @ out2 @ rest" "n = dest + ?k + length out2 + length rest"
      using ih by blast+
    ultimately show ?thesis using out2(2) by simp
  qed
qed

lemma unbase64_spec:
  assumes "unbase64 d len = (d', n, rem)" "len \<le> length d" "b64_decode (take len d) = (out, rest)"
  shows "length d' = length d \<and> n = length out + length rest \<and> rem = length rest \<and>
    take n d' = out @ rest \<and> n \<le> len"
proof -
  have "b64_groups (filter b64_valid (drop 0 (take len d))) = (out, rest)"
    using assms(3) by (simp add: b64_decode_def)
  from unbase64_loop_spec [OF assms(1) [unfolded unbase64_def] assms(2) le_refl le0 this]
  show ?thesis by (simp only: take_0 append_Nil add_0) blast
qed

lemma b64_decode_append:
  assumes "b64_decode xs = (o1, r1)" "b64_decode (r1 @ ys) = (o2, r2)"
  shows "b64_decode (xs @ ys) = (o1 @ o2, r2)"
proof -
  have "set r1 \<subseteq> set (filter b64_valid xs)"
    using b64_groups_rest assms(1) unfolding b64_decode_def by blast
  then have "filter b64_valid r1 = r1" by (auto simp: filter_id_conv)
  with assms show ?thesis by (auto simp: b64_decode_def intro: b64_groups_append)
qed

text \<open>
  Decoding as the data arrives is decoding it at once: after a first read the connection
  keeps the decoded bytes followed by the characters of an incomplete group; when the next
  read is decoded behind the decoded bytes, together with those characters, the buffer holds
  what decoding both reads together gives.
\<close>

lemma unbase64_incremental:
  assumes "unbase64 d1 len1 = (d1', n1, rem1)" "len1 \<le> length d1"
    and "unbase64 d2 (rem1 + length ys) = (d2', n2, rem2)"
    and "take (rem1 + length ys) d2 = drop (n1 - rem1) (take n1 d1') @ ys" "rem1 + length ys \<le> length d2"
  shows "\<exists>out rest. b64_decode (take len1 d1 @ ys) = (out, rest) \<and> rem2 = length rest \<and>
    take (n1 - rem1) d1' @ take n2 d2' = out @ rest"
proof -
  obtain o1 r1 where 1: "b64_decode (take len1 d1) = (o1, r1)" by (cases "b64_decode (take len1 d1)")
  note s1 = unbase64_spec [OF assms(1,2) 1]
  then have r1: "drop (n1 - rem1) (take n1 d1') = r1" "take (n1 - rem1) d1' = o1"
    by (auto simp: min_def) (metis append_eq_conv_conj take_take min_def le_add1)
  obtain o2 r2 where 2: "b64_decode (r1 @ ys) = (o2, r2)" by (cases "b64_decode (r1 @ ys)")
  have "b64_decode (take (rem1 + length ys) d2) = (o2, r2)" using assms(4) 2 r1 by simp
  note s2 = unbase64_spec [OF assms(3,5) this]
  from b64_decode_append [OF 1 2] s2 r1 show ?thesis by auto
qed

text \<open>The encoder the tunnel clients use, for the round trip.\<close>

definition b64_char :: "int \<Rightarrow> byte" where
  "b64_char v = word_of_int
     (if v < 26 then v + 65 else if v < 52 then v + 71 else if v < 62 then v - 4
      else if v = 62 then 43 else 47)"

definition b64_values :: "byte \<Rightarrow> byte \<Rightarrow> byte \<Rightarrow> int list" where
  "b64_values a b c =
     [drop_bit 2 (uint a), push_bit 4 (take_bit 2 (uint a)) OR drop_bit 4 (uint b),
      push_bit 2 (take_bit 4 (uint b)) OR drop_bit 6 (uint c), take_bit 6 (uint c)]"

fun b64_encode :: "byte list \<Rightarrow> byte list" where
  "b64_encode (a # b # c # r) = map b64_char (b64_values a b c) @ b64_encode r"
| "b64_encode [a, b] = map b64_char (take 3 (b64_values a b 0)) @ [61]"
| "b64_encode [a] = map b64_char (take 2 (b64_values a 0 0)) @ [61, 61]"
| "b64_encode [] = []"

lemma b64_char_spec:
  assumes "0 \<le> v" "v < 64"
  shows "base64 (b64_char v) = v" "b64_char v \<noteq> 61"
proof -
  have u: "uint (b64_char v) = (if v < 26 then v + 65 else if v < 52 then v + 71 else if v < 62 then v - 4
      else if v = 62 then 43 else 47)"
    using assms by (simp add: b64_char_def unsigned_of_int take_bit_int_eq_self)
  then show "base64 (b64_char v) = v" using assms by (auto simp: base64_def Let_def)
  show "b64_char v \<noteq> 61" 
  proof
    assume "b64_char v = 61"
    then have "uint (b64_char v) = 61" by simp
    with u assms show False by (auto split: if_splits)
  qed
qed

lemma b64_values_range: "v \<in> set (b64_values a b c) \<Longrightarrow> 0 \<le> v \<and> v < 64"
proof -
  assume v: "v \<in> set (b64_values a b c)"
  have u: "uint x < 256" "0 \<le> uint x" for x :: byte using unsigned_less [where ?'a = int, of x] by simp_all
  have d: "drop_bit 2 (uint a) < 64" "drop_bit 4 (uint b) < 64" "drop_bit 6 (uint c) < 64"
    using u [of a] u [of b] u [of c] by (auto simp: drop_bit_eq_div)
  have p: "push_bit 4 (take_bit 2 (uint a)) < 64" "push_bit 2 (take_bit 4 (uint b)) < 64" "take_bit 6 (uint c) < 64"
    by (simp_all add: push_bit_eq_mult take_bit_eq_mod)
  have "push_bit 4 (take_bit 2 (uint a)) OR drop_bit 4 (uint b) < 2 ^ 6"
    "push_bit 2 (take_bit 4 (uint b)) OR drop_bit 6 (uint c) < 2 ^ 6"
    using d p by (intro OR_upper; simp)+
  with v d p show ?thesis by (auto simp: b64_values_def)
qed

lemma b64_bytes_values:
  assumes "base64 e0 = b64_values a b c ! 0" "base64 e1 = b64_values a b c ! 1"
    "base64 e2 = b64_values a b c ! 2" "base64 e3 = b64_values a b c ! 3"
  shows "b64_bytes [e0, e1, e2, e3] = [a, b, c]"
proof -
  have nb: "8 \<le> k \<Longrightarrow> \<not> bit (x :: byte) k" for x k using byte_bit_lt [of x k] by auto
  show ?thesis
    unfolding b64_bytes_def list.inject
    by (intro conjI refl; rule byte_eqI)
       (simp_all add: assms b64_values_def bit_simps nb del: bit_0)
qed

lemma b64_values_zero: "b64_values a 0 0 ! 2 = 0" "b64_values a 0 0 ! 3 = 0" "b64_values a b 0 ! 3 = 0"
  by (simp_all add: b64_values_def)

lemma b64_encode_valid: "\<forall>x\<in>set (b64_encode xs). b64_valid x"
proof -
  have "b64_valid (b64_char v)" if "v \<in> set (b64_values a b c)" for v a b c
    using b64_values_range [OF that] by (simp add: b64_valid_def b64_char_spec)
  moreover have "b64_valid 61" by (simp add: b64_valid_def base64_def)
  ultimately show ?thesis
    by (induction xs rule: b64_encode.induct) (auto dest: in_set_takeD)
qed

text \<open>
  The decoder inverts base64: whatever the tunnel client encodes is what the connection
  sees, padding included, with nothing left over.
\<close>

lemma b64_decode_encode: "b64_decode (b64_encode xs) = (xs, [])"
proof -
  have r: "base64 (b64_char (b64_values a b c ! i)) = b64_values a b c ! i \<and>
      b64_char (b64_values a b c ! i) \<noteq> 61" if "i < 4" for a b c i
  proof -
    have "i < length (b64_values a b c)" using that by (simp add: b64_values_def)
    from b64_values_range [OF nth_mem [OF this]] show ?thesis using b64_char_spec by blast
  qed
  have pad: "base64 61 = 0" by (simp add: base64_def)
  have m: "map b64_char (b64_values a b c) = [b64_char (b64_values a b c ! 0),
      b64_char (b64_values a b c ! 1), b64_char (b64_values a b c ! 2), b64_char (b64_values a b c ! 3)]"
    for a b c by (simp add: b64_values_def)
  have "b64_groups (b64_encode xs) = (xs, [])"
  proof (induction xs rule: b64_encode.induct)
    case (1 a b c r')
    have "b64_bytes [b64_char (b64_values a b c ! 0), b64_char (b64_values a b c ! 1),
        b64_char (b64_values a b c ! 2), b64_char (b64_values a b c ! 3)] = [a, b, c]"
      using r by (intro b64_bytes_values) auto
    with 1 r [of 3 a b c] show ?case by (simp add: m b64_count_def)
  next
    case (2 a b)
    have "b64_bytes [b64_char (b64_values a b 0 ! 0), b64_char (b64_values a b 0 ! 1),
        b64_char (b64_values a b 0 ! 2), 61] = [a, b, 0]"
      using r pad b64_values_zero by (intro b64_bytes_values) auto
    with r [of 2 a b 0] show ?case by (simp add: take_map [symmetric] m b64_count_def)
  next
    case (3 a)
    have "b64_bytes [b64_char (b64_values a 0 0 ! 0), b64_char (b64_values a 0 0 ! 1), 61, 61] = [a, 0, 0]"
      using r pad b64_values_zero by (intro b64_bytes_values) auto
    then show ?case by (simp add: take_map [symmetric] m b64_count_def)
  qed simp
  moreover have "filter b64_valid (b64_encode xs) = b64_encode xs"
    using b64_encode_valid by (simp add: filter_id_conv)
  ultimately show ?thesis by (simp add: b64_decode_def)
qed

section \<open>The output stream\<close>

text \<open>
  C28. The bytes of a connection come out in the order in which they were accepted, once
  each: for every sequence of \<open>send_data\<close> calls and of runs of the writer, with any answers
  of the kernel, the bytes written followed by the bytes still in the buffer are the bytes
  of the calls that succeeded, and the buffer holds at most one byte less than its size.
\<close>

theorem send_stream_fifo:
  assumes "fifo_run send_data drain (new_conn fd rsz ssz) ops = (c', accepted, written)" "0 < ssz"
  shows "accepted = written @ pending c' \<and> length (pending c') < length (send_buf c')"
proof -
  have "wf_ring (new_conn fd rsz ssz)" "pending (new_conn fd rsz ssz) = []"
    using assms(2) by (simp_all add: pending_def new_conn_def wf_ring_def)
  with ring.run_fifo [OF _ assms(1)] length_pending [of c'] show ?thesis by simp
qed

definition stream_ops :: "(byte, write_answer list) fifo_op list" where
  "stream_ops = [Put [1, 2, 3], Get [Wrote 2], Put [4, 5, 6], Put [7], Get [Wrote 9, EAgain]]"

theorem send_stream_fifo_witness:
  "\<exists>c'. fifo_run send_data drain (new_conn 5 16 4) stream_ops = (c', [1, 2, 3, 7], [1, 2, 3, 7]) \<and>
     [1, 2, 3, 7] = [1, 2, 3, 7] @ pending c' \<and> length (pending c') < length (send_buf c')"
proof -
  obtain c' a w where r: "fifo_run send_data drain (new_conn 5 16 4) stream_ops = (c', a, w)"
    by (cases "fifo_run send_data drain (new_conn 5 16 4) stream_ops") auto
  have "snd (fifo_run send_data drain (new_conn 5 16 4) stream_ops) = ([1, 2, 3, 7], [1, 2, 3, 7])"
    by code_simp
  with r have "a = [1, 2, 3, 7]" "w = [1, 2, 3, 7]" by simp_all
  with r send_stream_fifo [OF r] show ?thesis by auto
qed

definition demo_reply :: pmsg where
  "demo_reply =
     fst (add_header
       (let m0 = new_pmsg 64; (m1, p) = the (add_pmsg_string m0 ''RTSP/1.0'');
            (m2, r) = the (add_pmsg_string m1 ''OK'')
        in m2\<lparr>pm_type := PMSG_RESP, pm_proto := p, pm_code := 200, pm_reason := r\<rparr>)
       ''CSeq'' ''7'')"

theorem tcp_send_pmsg_no_overflow_witness:
  "tcp_send_pmsg (new_conn 5 16 128) demo_reply 40 \<noteq> Inl Fault"
proof (rule tcp_send_pmsg_no_overflow)
  show "wf_reply demo_reply" by code_simp
  show "max_len demo_reply \<le> 1024" "0 \<le> pm_code demo_reply" "pm_code demo_reply < 10 ^ 4" by code_simp+
qed simp

theorem response_roundtrip_witness:
  "\<exists>c' txt. tcp_send_pmsg (new_conn 5 16 128) demo_reply 40 = Inr (c', True) \<and>
    pending c' = pending (new_conn 5 16 128) @ bytes_of txt \<and>
    (\<forall>r body. pm_msg r = txt @ body \<and> pm_len r = max_len r \<longrightarrow>
      (\<exists>r'. parse_pmsg r = Inr (r', length txt) \<and> pm_type r' = PMSG_RESP \<and>
         cstr (pm_msg r') (pm_proto r') = cstr (pm_msg demo_reply) (pm_proto demo_reply) \<and>
         pm_code r' = pm_code demo_reply \<and>
         cstr (pm_msg r') (pm_reason r') = cstr (pm_msg demo_reply) (pm_reason demo_reply) \<and>
         header_strings r' = header_strings demo_reply @
           (if 0 \<le> (40 :: int) then [(''Content-Length'', dec_int 40)] else [])))"
proof -
  have "map_sum id snd (tcp_send_pmsg (new_conn 5 16 128) demo_reply 40) = Inr True" by code_simp
  then obtain c' where c': "tcp_send_pmsg (new_conn 5 16 128) demo_reply 40 = Inr (c', True)"
    by (cases "tcp_send_pmsg (new_conn 5 16 128) demo_reply 40") auto
  show ?thesis
  proof (rule exI [of _ c'], rule exE [OF response_roundtrip [OF c']])
    show "wf_ring (new_conn 5 16 128)" by simp
    show "plain_word (cstr (pm_msg demo_reply) (pm_proto demo_reply))"
      "CHR ''/'' \<in> set (cstr (pm_msg demo_reply) (pm_proto demo_reply))"
      "plain_reason (cstr (pm_msg demo_reply) (pm_reason demo_reply))"
      "100 \<le> pm_code demo_reply" "pm_code demo_reply < 1000"
      "\<forall>h\<in>set (header_strings demo_reply). plain_header h"
      "length (pm_fields demo_reply) < MAX_FIELDS"
      by code_simp+
  qed (use c' in blast)
qed

theorem unbase64_incremental_witness:
  "\<exists>out rest. b64_decode (take 6 (bytes_of ''T1BUSU'') @ bytes_of ''9OUw=='') = (out, rest) \<and>
    0 = length rest \<and>
    take (5 - 2) (fst (unbase64 (bytes_of ''T1BUSU'') 6)) @
    take 4 (fst (unbase64 (bytes_of ''SU9OUw=='') (2 + 6))) = out @ rest"
proof -
  have 1: "unbase64 (bytes_of ''T1BUSU'') 6 = (fst (unbase64 (bytes_of ''T1BUSU'') 6), 5, 2)"
    by code_simp
  have 2: "unbase64 (bytes_of ''SU9OUw=='') (2 + length (bytes_of ''9OUw=='')) =
      (fst (unbase64 (bytes_of ''SU9OUw=='') (2 + 6)), 4, 0)"
    by code_simp
  show ?thesis
    by (rule unbase64_incremental [OF 1 _ 2]) code_simp+
qed

end
