(* ===== verification/Ring.thy ===== *)
theory Ring
  imports Prelude
begin

text \<open>
  Circular arrays read from a moving start: the lists of slots of the frame heap and of the
  frame exchangers are closed into rings, and the soft event queue indexes an array modulo
  its size. \<open>view xs i\<close> is the content of the ring in order, from slot \<open>i\<close> on.
\<close>

definition view :: "'a list \<Rightarrow> nat \<Rightarrow> 'a list" where
  "view xs i = map (\<lambda>j. xs ! ((i + j) mod length xs)) [0..<length xs]"

lemma length_view [simp]: "length (view xs i) = length xs"
  by (simp add: view_def)

lemma nth_view [simp]: "j < length xs \<Longrightarrow> view xs i ! j = xs ! ((i + j) mod length xs)"
  by (simp add: view_def)

lemma mod_add_inj:
  assumes "a < n" "b < n" "(i + a) mod n = (i + b) mod n"
  shows "a = (b::nat)"
proof -
  have *: "a = b" if "a \<le> b" "b < n" "(i + b) mod n = (i + a) mod n" for a b :: nat
  proof -
    have "n dvd (i + b) - (i + a)" using that by (subst mod_eq_dvd_iff_nat [symmetric]) auto
    then have "n dvd b - a" by simp
    moreover have "b - a < n" using that by simp
    ultimately have "b - a = 0" by (meson dvd_imp_le leD not_gr_zero)
    with that show ?thesis by simp
  qed
  show ?thesis
    using *[of a b] *[of b a] assms by (cases "a \<le> b") auto
qed

lemma view_update:
  assumes "j < length xs"
  shows "view (xs[(i + j) mod length xs := x]) i = (view xs i)[j := x]"
proof (rule nth_equalityI)
  fix k assume "k < length (view (xs[(i + j) mod length xs := x]) i)"
  then have k: "k < length xs" by simp
  then have "(i + j) mod length xs < length xs" by (metis gr_implies_not0 mod_less_divisor not_gr_zero)
  then show "view (xs[(i + j) mod length xs := x]) i ! k = (view xs i)[j := x] ! k"
    using k assms mod_add_inj [of j "length xs" k i]
    by (cases "j = k") (auto simp: nth_list_update)
qed simp

lemma view_step: "xs \<noteq> [] \<Longrightarrow> view xs ((i + 1) mod length xs) = rotate1 (view xs i)"
proof (rule nth_equalityI)
  assume ne: "xs \<noteq> []"
  show "length (view xs ((i + 1) mod length xs)) = length (rotate1 (view xs i))" by simp
  fix k assume "k < length (view xs ((i + 1) mod length xs))"
  then have k: "k < length xs" by simp
  then have "0 < length xs" by linarith
  then have "Suc k mod length xs < length xs" by (rule mod_less_divisor)
  then have "rotate1 (view xs i) ! k = xs ! ((i + Suc k mod length xs) mod length xs)"
    using k by (simp add: nth_rotate1)
  then show "view xs ((i + 1) mod length xs) ! k = rotate1 (view xs i) ! k"
    using k by (simp add: mod_simps)
qed

lemma view_Suc: "xs \<noteq> [] \<Longrightarrow> view xs (Suc i mod length xs) = rotate1 (view xs i)"
  using view_step [of xs i] by simp

lemma set_view: "xs \<noteq> [] \<Longrightarrow> i < length xs \<Longrightarrow> set (view xs i) = set xs"
proof -
  assume "xs \<noteq> []" "i < length xs"
  have "view xs i = rotate i xs"
    by (rule nth_equalityI) (simp_all add: nth_rotate)
  then show ?thesis by simp
qed

lemma view_rotate: "view xs i = rotate i xs"
  by (rule nth_equalityI) (simp_all add: nth_rotate)

lemma view_at: "i < length xs \<Longrightarrow> view xs i ! 0 = xs ! i"
  by (cases xs) (simp_all add: view_rotate nth_rotate)

lemma view_offset: "k < length xs \<Longrightarrow> p = (i + k) mod length xs \<Longrightarrow> xs ! p = view xs i ! k"
  by simp

end
