(* ===== verification/Frame.thy ===== *)
theory Frame
  imports Ring Fifo
begin

text \<open>
  \<open>frame.c\<close>: the heap of reference-counted frames, a ring of slots with a take and a put
  pointer, and the exchangers, by which a slave thread and the event loop pass frames to
  each other through a ring of slots and a pipe. Frames and data blocks are numbers; the
  memory behind them is a map. The heap mutex is part of the state, because one path of
  \<open>unref_frame\<close> returns with it locked: an operation that would wait for it for ever is
  \<open>None\<close>. The rate meter, floating point and unused by the streaming path, is left out.
\<close>

section \<open>Frames\<close>

abbreviation (input) FORMAT_EMPTY :: int where "FORMAT_EMPTY \<equiv> 0"
abbreviation (input) FORMAT_RAW_RGB24 :: int where "FORMAT_RAW_RGB24 \<equiv> 1"
abbreviation (input) FORMAT_RAW_UYVY :: int where "FORMAT_RAW_UYVY \<equiv> 2"
abbreviation (input) FORMAT_PCM :: int where "FORMAT_PCM \<equiv> 64"
abbreviation (input) FORMAT_MPEG4 :: int where "FORMAT_MPEG4 \<equiv> 100"
abbreviation (input) FORMAT_JPEG :: int where "FORMAT_JPEG \<equiv> 101"
abbreviation (input) FORMAT_MPV :: int where "FORMAT_MPV \<equiv> 102"
abbreviation (input) FORMAT_H263 :: int where "FORMAT_H263 \<equiv> 103"
abbreviation (input) FORMAT_H264 :: int where "FORMAT_H264 \<equiv> 104"
abbreviation (input) FORMAT_MPA :: int where "FORMAT_MPA \<equiv> 200"
abbreviation (input) FORMAT_ALAW :: int where "FORMAT_ALAW \<equiv> 201"
abbreviation (input) FORMAT_ADPCM :: int where "FORMAT_ADPCM \<equiv> 202"

text \<open>The only destructor of the program is that of a clone; its data is the original.\<close>

record frame =
  ref_count :: int
  fr_destructor :: "nat option"
  fr_format :: int
  fr_width :: int
  fr_height :: int
  fr_length :: int
  fr_key :: bool
  fr_step :: int
  fr_seq :: u32
  fr_timestamp :: u32
  fr_d :: "nat option"

record frame_heap =
  heap_slots :: "nat option list"
  heap_take :: nat
  heap_put :: nat
  heap_locked :: bool
  frames :: "nat \<Rightarrow> frame"
  blocks :: "nat \<Rightarrow> byte list option"
  max_frame_size :: int

definition blank_frame :: frame where
  "blank_frame = \<lparr>ref_count = 0, fr_destructor = None, fr_format = FORMAT_EMPTY, fr_width = 0,
     fr_height = 0, fr_length = 0, fr_key = False, fr_step = 0, fr_seq = 0, fr_timestamp = 0,
     fr_d = None\<rparr>"

definition upd_frame :: "nat \<Rightarrow> (frame \<Rightarrow> frame) \<Rightarrow> frame_heap \<Rightarrow> frame_heap" where
  "upd_frame f g h = h\<lparr>frames := (frames h)(f := g (frames h f))\<rparr>"

text \<open>With \<open>count = 0\<close> the ring is closed through a null pointer.\<close>

definition init_frame_heap :: "int \<Rightarrow> nat \<Rightarrow> frame_heap cres" where
  "init_frame_heap sz count =
     (if count = 0 then Inl Fault
      else Inr \<lparr>heap_slots = map Some [0..<count], heap_take = 0, heap_put = 0, heap_locked = False,
                frames = (\<lambda>_. blank_frame), blocks = (\<lambda>_. None), max_frame_size = sz\<rparr>)"

definition new_frame :: "frame_heap \<Rightarrow> (frame_heap \<times> nat option) option" where
  "new_frame h =
     (if heap_locked h then None
      else case heap_slots h ! heap_take h of
        Some f \<Rightarrow>
          Some (upd_frame f (\<lambda>fr. fr\<lparr>ref_count := 1, fr_destructor := None, fr_d := None,
                  fr_format := FORMAT_EMPTY, fr_width := 0, fr_height := 0, fr_length := 0,
                  fr_key := False, fr_timestamp := 0\<rparr>)
                (h\<lparr>heap_slots := (heap_slots h)[heap_take h := None],
                   heap_take := (heap_take h + 1) mod length (heap_slots h)\<rparr>), Some f)
      | None \<Rightarrow> Some (h, None))"

definition ref_frame :: "frame_heap \<Rightarrow> nat \<Rightarrow> frame_heap" where
  "ref_frame h f = upd_frame f (\<lambda>fr. fr\<lparr>ref_count := ref_count fr + 1\<rparr>) h"

definition clone_frame :: "frame_heap \<Rightarrow> nat \<Rightarrow> (frame_heap \<times> nat option) option" where
  "clone_frame h orig =
     (case new_frame h of
        None \<Rightarrow> None
      | Some (h1, None) \<Rightarrow> Some (h1, None)
      | Some (h1, Some f) \<Rightarrow>
          (let fo = frames h1 orig in
           Some (ref_frame (upd_frame f (\<lambda>fr. fr\<lparr>fr_destructor := Some orig,
                   fr_format := fr_format fo, fr_width := fr_width fo, fr_height := fr_height fo,
                   fr_length := fr_length fo, fr_key := fr_key fo, fr_step := fr_step fo,
                   fr_d := fr_d fo\<rparr>) h1) orig, Some f)))"

text \<open>
  The end of \<open>unref_frame\<close>: the data is freed (freeing a block twice is a fault), and the
  frame goes to the put slot. When that slot is taken the function returns without
  unlocking the heap.
\<close>

definition free_data :: "frame_heap \<Rightarrow> nat \<Rightarrow> frame_heap cres" where
  "free_data h f =
     (case fr_d (frames h f) of
        None \<Rightarrow> Inr h
      | Some b \<Rightarrow>
          if blocks h b = None then Inl Fault
          else Inr (upd_frame f (\<lambda>fr. fr\<lparr>fr_d := None, fr_length := 0\<rparr>)
                     (h\<lparr>blocks := (blocks h)(b := None)\<rparr>)))"

definition put_frame :: "frame_heap \<Rightarrow> nat \<Rightarrow> frame_heap cres option" where
  "put_frame h f =
     (if heap_locked h then None
      else if heap_slots h ! heap_put h \<noteq> None then Some (Inr (h\<lparr>heap_locked := True\<rparr>))
      else Some (Inr (h\<lparr>heap_slots := (heap_slots h)[heap_put h := Some f],
                        heap_put := (heap_put h + 1) mod length (heap_slots h)\<rparr>)))"

definition release_frame :: "frame_heap \<Rightarrow> nat \<Rightarrow> frame_heap cres option" where
  "release_frame h f =
     (case free_data h f of
        Inl e \<Rightarrow> Some (Inl e)
      | Inr h1 \<Rightarrow> put_frame (upd_frame f (\<lambda>fr. fr\<lparr>fr_timestamp := 0\<rparr>) h1) f)"

partial_function (option) unref_frame :: "frame_heap \<Rightarrow> nat \<Rightarrow> frame_heap cres option" where
  "unref_frame h f =
     (let r = ref_count (frames h f) - 1;
          h1 = upd_frame f (\<lambda>fr. fr\<lparr>ref_count := r\<rparr>) h
      in if 0 < r then Some (Inr h1)
         else case fr_destructor (frames h1 f) of
           None \<Rightarrow> release_frame h1 f
         | Some orig \<Rightarrow>
             Option.bind (unref_frame (upd_frame f (\<lambda>fr. fr\<lparr>ref_count := 1\<rparr>) h1) orig)
               (\<lambda>res. case res of Inl e \<Rightarrow> Some (Inl e) | Inr h2 \<Rightarrow> release_frame h2 f))"

section \<open>The heap is a queue of free frames\<close>

definition free_list :: "frame_heap \<Rightarrow> nat list" where
  "free_list h = map the (takeWhile (\<lambda>s. s \<noteq> None) (view (heap_slots h) (heap_take h)))"

definition live :: "frame_heap \<Rightarrow> nat \<Rightarrow> bool" where
  "live h f \<longleftrightarrow> f < length (heap_slots h) \<and> f \<notin> set (free_list h)"

text \<open>
  The slots from the take pointer on are the free frames, then empty slots, and the put
  pointer is the first empty one; a frame is live exactly when its count is positive; live
  frames own distinct allocated blocks; there are no clones.
\<close>

definition wf_heap :: "frame_heap \<Rightarrow> bool" where
  "wf_heap h \<longleftrightarrow>
     heap_take h < length (heap_slots h) \<and> \<not> heap_locked h \<and>
     view (heap_slots h) (heap_take h) =
       map Some (free_list h) @ replicate (length (heap_slots h) - length (free_list h)) None \<and>
     heap_put h = (heap_take h + length (free_list h)) mod length (heap_slots h) \<and>
     distinct (free_list h) \<and> (\<forall>f\<in>set (free_list h). f < length (heap_slots h)) \<and>
     (\<forall>f < length (heap_slots h). live h f \<longleftrightarrow> 0 < ref_count (frames h f)) \<and>
     (\<forall>f. live h f \<longrightarrow> fr_destructor (frames h f) = None) \<and>
     (\<forall>f b. live h f \<and> fr_d (frames h f) = Some b \<longrightarrow> blocks h b \<noteq> None) \<and>
     (\<forall>f g b. live h f \<and> live h g \<and> fr_d (frames h f) = Some b \<and> fr_d (frames h g) = Some b \<longrightarrow> f = g)"

lemma free_listI:
  assumes "view (heap_slots h) (heap_take h) = map Some fs @ replicate k None"
  shows "free_list h = fs"
proof -
  have "takeWhile (\<lambda>s. s \<noteq> None) (map Some fs @ replicate k None) = map Some fs"
    by (induction fs) (auto intro: takeWhile_eq_Nil_iff [THEN iffD2])
  then show ?thesis by (simp add: free_list_def assms)
qed

lemma upd_frame_simps [simp]:
  "heap_slots (upd_frame f g h) = heap_slots h" "heap_take (upd_frame f g h) = heap_take h"
  "heap_put (upd_frame f g h) = heap_put h" "heap_locked (upd_frame f g h) = heap_locked h"
  "blocks (upd_frame f g h) = blocks h" "free_list (upd_frame f g h) = free_list h"
  "frames (upd_frame f g h) = (frames h)(f := g (frames h f))"
  "live (upd_frame f g h) = live h"
  by (simp_all add: upd_frame_def free_list_def live_def fun_eq_iff)

lemma wf_heap_view:
  "wf_heap h \<Longrightarrow> view (heap_slots h) (heap_take h) =
     map Some (free_list h) @ replicate (length (heap_slots h) - length (free_list h)) None"
  by (simp add: wf_heap_def)

lemma length_free_list: "wf_heap h \<Longrightarrow> length (free_list h) \<le> length (heap_slots h)"
  using arg_cong [OF wf_heap_view, of h length] by simp

text \<open>Taking a frame removes the first free one; only an empty heap refuses.\<close>

lemma new_frame_empty:
  assumes "wf_heap h" "free_list h = []"
  shows "new_frame h = Some (h, None)"
proof -
  have "heap_take h < length (heap_slots h)" using assms by (simp add: wf_heap_def)
  then have "heap_slots h ! heap_take h = view (heap_slots h) (heap_take h) ! 0" by (simp add: view_at)
  also have "\<dots> = None"
    using assms(2) wf_heap_view [OF assms(1)] \<open>heap_take h < _\<close>
    by simp (metis gr_implies_not0 not_gr_zero nth_replicate)
  finally show ?thesis using assms(1) by (simp add: new_frame_def wf_heap_def)
qed

lemma new_frame_some:
  assumes wf: "wf_heap h" and fl: "free_list h = f # fs"
  shows "\<exists>h'. new_frame h = Some (h', Some f) \<and> wf_heap h' \<and> free_list h' = fs \<and>
    ref_count (frames h' f) = 1 \<and> fr_d (frames h' f) = None \<and>
    (\<forall>g. g \<noteq> f \<longrightarrow> frames h' g = frames h g) \<and> blocks h' = blocks h"
proof -
  let ?s = "heap_slots h" and ?t = "heap_take h"
  let ?n = "length ?s"
  have t: "?t < ?n" using wf by (simp add: wf_heap_def)
  have v: "view ?s ?t = Some f # map Some fs @ replicate (?n - Suc (length fs)) None"
    using wf_heap_view [OF wf] fl by simp
  have at: "?s ! ?t = Some f" using v view_at [OF t] by simp
  define h' where "h' = upd_frame f (\<lambda>fr. fr\<lparr>ref_count := 1, fr_destructor := None, fr_d := None,
                  fr_format := FORMAT_EMPTY, fr_width := 0, fr_height := 0, fr_length := 0,
                  fr_key := False, fr_timestamp := 0\<rparr>)
                (h\<lparr>heap_slots := ?s[?t := None], heap_take := (?t + 1) mod ?n\<rparr>)"
  have nf: "new_frame h = Some (h', Some f)"
    using wf at by (simp add: new_frame_def wf_heap_def h'_def)
  have "view (?s[?t := None]) ?t = None # map Some fs @ replicate (?n - Suc (length fs)) None"
  proof -
    have "0 < ?n" "?t mod ?n = ?t" using t by (linarith, simp)
    with view_update [of 0 ?s ?t None] v show ?thesis by simp
  qed
  then have v': "view (heap_slots h') (heap_take h') = map Some fs @ replicate (?n - length fs) None"
  proof -
    have "?s[?t := None] \<noteq> []" "?n - length fs = Suc (?n - Suc (length fs))"
      using t length_free_list [OF wf] fl by auto
    with view_step [of "?s[?t := None]" ?t] \<open>view (?s[?t := None]) ?t = _\<close> show ?thesis
      by (simp add: h'_def replicate_append_same)
  qed
  then have fl': "free_list h' = fs" by (rule free_listI)
  have fin: "f < ?n" "f \<notin> set fs" "distinct fs" using wf fl by (auto simp: wf_heap_def)
  have live': "live h' g \<longleftrightarrow> g = f \<or> live h g" for g
    using fin fl fl' by (auto simp: live_def h'_def)
  have notlive: "\<not> live h f" using fl by (simp add: live_def)
  have fr: "frames h' g = (if g = f then (frames h f)\<lparr>ref_count := 1, fr_destructor := None, fr_d := None,
                  fr_format := FORMAT_EMPTY, fr_width := 0, fr_height := 0, fr_length := 0,
                  fr_key := False, fr_timestamp := 0\<rparr> else frames h g)" for g
    by (simp add: h'_def)
  have hp: "heap_put h' = (heap_take h' + length fs) mod length (heap_slots h')"
    using wf fl by (simp add: h'_def wf_heap_def mod_simps)
  have sl: "length (heap_slots h') = ?n" "heap_take h' < ?n" "\<not> heap_locked h'" "blocks h' = blocks h"
    using wf t by (auto simp: h'_def wf_heap_def) (metis less_nat_zero_code mod_less_divisor neq0_conv)
  have "wf_heap h'"
    unfolding wf_heap_def
  proof (intro conjI)
    show "heap_take h' < length (heap_slots h')" "\<not> heap_locked h'" using sl by simp_all
    show "view (heap_slots h') (heap_take h') = map Some (free_list h') @
        replicate (length (heap_slots h') - length (free_list h')) None"
      using v' by (simp add: fl' sl)
    show "heap_put h' = (heap_take h' + length (free_list h')) mod length (heap_slots h')"
      using hp by (simp add: fl')
    show "distinct (free_list h')" "\<forall>f\<in>set (free_list h'). f < length (heap_slots h')"
      using fin wf fl by (auto simp: fl' sl wf_heap_def)
    show "\<forall>g<length (heap_slots h'). live h' g \<longleftrightarrow> 0 < ref_count (frames h' g)"
      using wf by (auto simp: live' fr sl wf_heap_def)
    show "\<forall>g. live h' g \<longrightarrow> fr_destructor (frames h' g) = None"
      using wf by (auto simp: live' fr wf_heap_def)
    show "\<forall>g b. live h' g \<and> fr_d (frames h' g) = Some b \<longrightarrow> blocks h' b \<noteq> None"
      using wf by (auto simp: live' fr sl wf_heap_def)
    show "\<forall>g k b. live h' g \<and> live h' k \<and> fr_d (frames h' g) = Some b \<and> fr_d (frames h' k) = Some b \<longrightarrow> g = k"
      using wf by (auto simp: live' fr wf_heap_def)
  qed
  with nf fl' fr sl(4) show ?thesis by auto
qed

text \<open>Dropping the last reference appends the frame to the free frames and frees its data.\<close>

lemma unref_frame_simple:
  "fr_destructor (frames h f) = None \<Longrightarrow>
     unref_frame h f =
       (if 1 < ref_count (frames h f)
        then Some (Inr (upd_frame f (\<lambda>fr. fr\<lparr>ref_count := ref_count fr - 1\<rparr>) h))
        else release_frame (upd_frame f (\<lambda>fr. fr\<lparr>ref_count := ref_count fr - 1\<rparr>) h) f)"
  by (subst unref_frame.simps) (simp add: Let_def upd_frame_def)

lemma unref_last:
  assumes wf: "wf_heap h" and f: "live h f" "ref_count (frames h f) = 1"
  shows "\<exists>h'. unref_frame h f = Some (Inr h') \<and> wf_heap h' \<and> free_list h' = free_list h @ [f] \<and>
    fr_d (frames h' f) = None \<and> (\<forall>g. g \<noteq> f \<longrightarrow> frames h' g = frames h g) \<and>
    (\<forall>b. fr_d (frames h f) = Some b \<longrightarrow> blocks h' b = None) \<and>
    (\<forall>b. fr_d (frames h f) \<noteq> Some b \<longrightarrow> blocks h' b = blocks h b)"
proof -
  let ?s = "heap_slots h" and ?t = "heap_take h" and ?fl = "free_list h"
  let ?n = "length ?s"
  have t: "?t < ?n" "0 < ?n" using wf by (auto simp: wf_heap_def)
  have fn: "f < ?n" "f \<notin> set ?fl" using f by (auto simp: live_def)
  have sub: "insert f (set ?fl) \<subseteq> {..<?n}" "distinct ?fl" using wf fn by (auto simp: wf_heap_def)
  then have "card (insert f (set ?fl)) \<le> ?n" using card_mono [of "{..<?n}"] by fastforce
  then have lt: "length ?fl < ?n" using fn sub by (simp add: distinct_card)
  have put: "heap_put h = (?t + length ?fl) mod ?n" using wf by (simp add: wf_heap_def)
  have "?s ! heap_put h = view ?s ?t ! length ?fl" using lt put by simp
  also have "\<dots> = None" using lt by (simp add: wf_heap_view [OF wf] nth_append del: nth_view)
  finally have free_slot: "?s ! heap_put h = None" .
  define h1 where "h1 = upd_frame f (\<lambda>fr. fr\<lparr>ref_count := ref_count fr - 1\<rparr>) h"
  define bl where "bl = (case fr_d (frames h f) of None \<Rightarrow> blocks h | Some b \<Rightarrow> (blocks h)(b := None))"
  obtain h2 where h2: "free_data h1 f = Inr h2" "heap_slots h2 = ?s" "heap_take h2 = ?t"
    "heap_put h2 = heap_put h" "\<not> heap_locked h2" "blocks h2 = bl" "fr_d (frames h2 f) = None"
    "ref_count (frames h2 f) = 0" "\<forall>g. g \<noteq> f \<longrightarrow> frames h2 g = frames h g"
  proof (cases "fr_d (frames h f)")
    case None
    with that [of h1] wf f show ?thesis by (simp add: free_data_def h1_def bl_def wf_heap_def)
  next
    case (Some b)
    moreover have "blocks h b \<noteq> None" using wf f Some by (auto simp: wf_heap_def)
    ultimately show ?thesis
      using that [of "upd_frame f (\<lambda>fr. fr\<lparr>fr_d := None, fr_length := 0\<rparr>) (h1\<lparr>blocks := (blocks h)(b := None)\<rparr>)"] wf f
      by (auto simp: free_data_def h1_def bl_def wf_heap_def upd_frame_def)
  qed
  define h3 where "h3 = upd_frame f (\<lambda>fr. fr\<lparr>fr_timestamp := 0\<rparr>) h2"
  define h' where "h' = h3\<lparr>heap_slots := ?s[heap_put h := Some f], heap_put := (heap_put h + 1) mod ?n\<rparr>"
  have res: "unref_frame h f = Some (Inr h')"
    using wf f free_slot h2 
    by (simp add: unref_frame_simple wf_heap_def h1_def [symmetric] release_frame_def put_frame_def
        h3_def [symmetric] h'_def) (simp add: h3_def)
  have view': "view (heap_slots h') (heap_take h') = map Some (?fl @ [f]) @ replicate (?n - length (?fl @ [f])) None"
    using view_update [of "length ?fl" ?s ?t "Some f"] lt h2 wf_heap_view [OF wf]
    by (simp add: h'_def h3_def put list_update_append Suc_diff_Suc [symmetric])
  then have fl': "free_list h' = ?fl @ [f]" by (rule free_listI)
  have fr: "frames h' g = (if g = f then (frames h2 f)\<lparr>fr_timestamp := 0\<rparr> else frames h g)" for g
    using h2 by (simp add: h'_def h3_def)
  have live': "live h' g \<longleftrightarrow> g \<noteq> f \<and> live h g" for g
    by (auto simp: live_def fl') (simp_all add: h'_def h3_def h2)
  have sl: "length (heap_slots h') = ?n" "heap_take h' = ?t" "\<not> heap_locked h'" "blocks h' = bl"
    using h2 by (simp_all add: h'_def h3_def)
  have other: "fr_d (frames h g) \<noteq> fr_d (frames h f) \<or> fr_d (frames h g) = None" if "live h g" "g \<noteq> f" for g
    using wf f that unfolding wf_heap_def by (metis not_None_eq)
  have "wf_heap h'"
    unfolding wf_heap_def
  proof (intro conjI)
    show "heap_take h' < length (heap_slots h')" "\<not> heap_locked h'" using sl t by simp_all
    show "view (heap_slots h') (heap_take h') = map Some (free_list h') @
        replicate (length (heap_slots h') - length (free_list h')) None"
      using view' by (simp add: fl' sl)
    show "heap_put h' = (heap_take h' + length (free_list h')) mod length (heap_slots h')"
      using put sl unfolding fl' by (simp add: h'_def mod_simps)
    show "distinct (free_list h')" "\<forall>f\<in>set (free_list h'). f < length (heap_slots h')"
      using fn sub by (auto simp: fl' sl)
    show "\<forall>g<length (heap_slots h'). live h' g \<longleftrightarrow> 0 < ref_count (frames h' g)"
      using wf h2 by (auto simp: live' fr sl wf_heap_def)
    show "\<forall>g. live h' g \<longrightarrow> fr_destructor (frames h' g) = None"
      using wf by (auto simp: live' fr wf_heap_def)
    show "\<forall>g b. live h' g \<and> fr_d (frames h' g) = Some b \<longrightarrow> blocks h' b \<noteq> None"
      using wf other by (fastforce simp: live' fr sl bl_def wf_heap_def split: option.splits)
    show "\<forall>g k b. live h' g \<and> live h' k \<and> fr_d (frames h' g) = Some b \<and> fr_d (frames h' k) = Some b \<longrightarrow> g = k"
      using wf by (auto simp: live' fr wf_heap_def)
  qed
  moreover have "fr_d (frames h' f) = None" "\<forall>g. g \<noteq> f \<longrightarrow> frames h' g = frames h g"
    "\<forall>b. fr_d (frames h f) = Some b \<longrightarrow> blocks h' b = None"
    "\<forall>b. fr_d (frames h f) \<noteq> Some b \<longrightarrow> blocks h' b = blocks h b"
    using h2 fr by (auto simp: sl bl_def split: option.splits)
  ultimately show ?thesis using res fl' by blast
qed

lemma wf_heap_recount:
  assumes wf: "wf_heap h" and f: "live h f" and g: "\<And>fr. 0 < ref_count fr \<Longrightarrow> 0 < ref_count (g fr) \<or> fr \<noteq> frames h f"
    "\<And>fr. fr_destructor (g fr) = fr_destructor fr" "\<And>fr. fr_d (g fr) = fr_d fr"
  shows "wf_heap (upd_frame f g h)"
proof -
  have "0 < ref_count (g (frames h f))"
    using g(1) [of "frames h f"] wf f by (auto simp: wf_heap_def live_def)
  then show ?thesis using wf f g(2,3) by (auto simp: wf_heap_def live_def)
qed

text \<open>
  C29. Dropping a reference of a live frame always returns, never frees data twice, never
  meets a frame at the put slot (the path that leaves the heap locked is unreachable), and
  keeps the heap well-formed: while others hold the frame only its count changes; with the
  last reference its data is freed and the frame goes behind the other free frames.
\<close>

theorem unref_frame_correct:
  assumes "wf_heap h" "live h f"
  shows "\<exists>h'. unref_frame h f = Some (Inr h') \<and> wf_heap h' \<and>
    (if 1 < ref_count (frames h f)
     then live h' f \<and> ref_count (frames h' f) = ref_count (frames h f) - 1 \<and>
          free_list h' = free_list h \<and> blocks h' = blocks h
     else \<not> live h' f \<and> free_list h' = free_list h @ [f] \<and> fr_d (frames h' f) = None \<and>
          (\<forall>b. blocks h' b = (if fr_d (frames h f) = Some b then None else blocks h b)))"
proof (cases "1 < ref_count (frames h f)")
  case True
  let ?h = "upd_frame f (\<lambda>fr. fr\<lparr>ref_count := ref_count fr - 1\<rparr>) h"
  have "fr_destructor (frames h f) = None" using assms by (simp add: wf_heap_def)
  then have "unref_frame h f = Some (Inr ?h)" using True by (simp add: unref_frame_simple)
  moreover have "wf_heap ?h" using assms True by (intro wf_heap_recount) auto
  ultimately show ?thesis using assms(2) True by simp
next
  case False
  have "0 < ref_count (frames h f)" using assms by (auto simp: wf_heap_def live_def)
  with False have 1: "ref_count (frames h f) = 1" by simp
  from unref_last [OF assms 1] obtain h' where
    "unref_frame h f = Some (Inr h')" "wf_heap h'" "free_list h' = free_list h @ [f]"
    "fr_d (frames h' f) = None" "\<forall>b. fr_d (frames h f) = Some b \<longrightarrow> blocks h' b = None"
    "\<forall>b. fr_d (frames h f) \<noteq> Some b \<longrightarrow> blocks h' b = blocks h b" by blast
  with False show ?thesis by (auto simp: live_def)
qed

text \<open>
  \<open>new_frame\<close> hands out the frame that has been free longest, with a count of one and no
  data, and refuses exactly when no frame is free; no live frame is touched.
\<close>

lemma new_frame_correct:
  assumes "wf_heap h"
  shows "\<exists>h' r. new_frame h = Some (h', r) \<and> wf_heap h' \<and>
    (case r of
       None \<Rightarrow> free_list h = [] \<and> h' = h
     | Some f \<Rightarrow> \<not> live h f \<and> live h' f \<and> free_list h = f # free_list h' \<and>
         ref_count (frames h' f) = 1 \<and> fr_d (frames h' f) = None \<and>
         (\<forall>g. live h g \<longrightarrow> live h' g \<and> frames h' g = frames h g))"
proof (cases "free_list h")
  case Nil
  with new_frame_empty [OF assms] assms show ?thesis by simp
next
  case (Cons f fs)
  from new_frame_some [OF assms Cons] obtain h' where h': "new_frame h = Some (h', Some f)"
    "wf_heap h'" "free_list h' = fs" "ref_count (frames h' f) = 1" "fr_d (frames h' f) = None"
    "\<forall>g. g \<noteq> f \<longrightarrow> frames h' g = frames h g" by blast
  have len: "length (heap_slots h') = length (heap_slots h)"
    using h'(1) by (auto simp: new_frame_def split: if_splits option.splits)
  have f: "f < length (heap_slots h)" "f \<notin> set fs" using assms Cons by (auto simp: wf_heap_def)
  have "live h' g \<and> frames h' g = frames h g" if "live h g" for g
    using that h' Cons len by (auto simp: live_def)
  moreover have "\<not> live h f" "live h' f" using f h' Cons len by (auto simp: live_def)
  ultimately show ?thesis using h' Cons by auto
qed

lemma init_frame_heap_wf:
  assumes "0 < count"
  shows "\<exists>h. init_frame_heap sz count = Inr h \<and> wf_heap h \<and> free_list h = [0..<count]"
proof -
  obtain h where h: "init_frame_heap sz count = Inr h" "heap_slots h = map Some [0..<count]"
    "heap_take h = 0" "heap_put h = 0" "\<not> heap_locked h" "frames h = (\<lambda>_. blank_frame)"
    using assms by (simp add: init_frame_heap_def)
  have v: "view (heap_slots h) (heap_take h) = map Some [0..<count] @ replicate 0 None"
    by (simp add: view_rotate h)
  then have fl: "free_list h = [0..<count]" by (rule free_listI)
  have "wf_heap h"
    unfolding wf_heap_def live_def fl using assms v by (simp add: h blank_frame_def)
  with fl h show ?thesis by blast
qed

section \<open>Exchangers\<close>

text \<open>
  A slot holds a frame or null, and the flag \<open>pending\<close>: the frame waits to be used by the
  slave. \<open>ex_pipe\<close> is the number of bytes in the pipe between the two threads.
\<close>

record exchanger =
  ex_slots :: "(nat option \<times> bool) list"
  slave_cur :: nat
  master_read :: nat
  master_write :: nat
  ex_pipe :: nat
  nDelivers :: nat
  nGets :: nat
  nReads :: nat
  nExchanges :: nat

definition next_slot :: "exchanger \<Rightarrow> nat \<Rightarrow> nat" where
  "next_slot ex i = (i + 1) mod length (ex_slots ex)"

definition new_exchanger :: "nat \<Rightarrow> exchanger cres" where
  "new_exchanger n =
     (if n = 0 then Inl Fault
      else Inr \<lparr>ex_slots = replicate n (None, False), slave_cur = 0, master_read = 0,
                master_write = 0, ex_pipe = 0, nDelivers = 0, nGets = 0, nReads = 0, nExchanges = 0\<rparr>)"

definition exchange_frame :: "exchanger \<Rightarrow> nat \<Rightarrow> exchanger \<times> bool" where
  "exchange_frame ex f =
     (if fst (ex_slots ex ! master_write ex) \<noteq> None then (ex, False)
      else (ex\<lparr>ex_slots := (ex_slots ex)[master_write ex := (Some f, True)],
              master_write := next_slot ex (master_write ex),
              nExchanges := nExchanges ex + 1\<rparr>, True))"

definition pending_frame :: "exchanger \<Rightarrow> nat option" where
  "pending_frame ex =
     (if snd (ex_slots ex ! slave_cur ex) then fst (ex_slots ex ! slave_cur ex) else None)"

text \<open>
  \<open>get_next_frame\<close>: without a frame and with \<open>wait\<close> set, the slave sleeps once; \<open>woken\<close> is
  what the other thread has made of the exchanger when it wakes up.
\<close>

definition get_next_frame ::
  "(exchanger \<Rightarrow> exchanger) \<Rightarrow> exchanger \<Rightarrow> bool \<Rightarrow> exchanger \<times> nat option" where
  "get_next_frame woken ex wait =
     (let ex1 = (if pending_frame ex = None \<and> wait then woken ex else ex)
      in case pending_frame ex1 of
           None \<Rightarrow> (ex1, None)
         | Some f \<Rightarrow>
             (ex1\<lparr>nGets := nGets ex1 + 1,
                 ex_slots := (ex_slots ex1)[slave_cur ex1 := (None, snd (ex_slots ex1 ! slave_cur ex1))]\<rparr>,
              Some f))"

definition deliver_frame :: "exchanger \<Rightarrow> nat \<Rightarrow> exchanger" where
  "deliver_frame ex f =
     ex\<lparr>ex_slots := (ex_slots ex)[slave_cur ex := (Some f, False)],
        ex_pipe := ex_pipe ex + 1,
        slave_cur := next_slot ex (slave_cur ex),
        nDelivers := nDelivers ex + 1\<rparr>"

text \<open>One turn of \<open>exchanger_read\<close>, when the pipe is not empty; the loop until it is.\<close>

definition exchanger_take :: "exchanger \<Rightarrow> exchanger \<times> nat option" where
  "exchanger_take ex =
     (let f = fst (ex_slots ex ! master_read ex)
      in (ex\<lparr>ex_pipe := ex_pipe ex - 1,
             ex_slots := (ex_slots ex)[master_read ex := (None, snd (ex_slots ex ! master_read ex))],
             master_read := next_slot ex (master_read ex),
             nReads := nReads ex + 1\<rparr>, f))"

partial_function (option) exchanger_read ::
  "(nat option \<Rightarrow> exchanger \<times> 'w \<Rightarrow> exchanger \<times> 'w) \<Rightarrow> exchanger \<times> 'w \<Rightarrow> (exchanger \<times> 'w) option" where
  "exchanger_read cb s =
     (if ex_pipe (fst s) = 0 then Some s
      else exchanger_read cb
             (cb (snd (exchanger_take (fst s))) (fst (exchanger_take (fst s)), snd s)))"

text \<open>
  The contract: a queue of empty frames from the master to the slave, at most one frame in
  the slave's hands, and a queue of delivered frames back.
\<close>

datatype ex_op = Exchange nat | Get_Next | Deliver nat | Take

type_synonym ex_state = "nat list \<times> bool \<times> nat list"

fun ex_spec :: "nat \<Rightarrow> ex_state \<Rightarrow> ex_op \<Rightarrow> (ex_state \<times> nat option) option" where
  "ex_spec n (ds, held, es) (Exchange f) =
     (if length ds + of_bool held + length es < n then Some ((ds, held, es @ [f]), None) else None)"
| "ex_spec n (ds, held, es) Get_Next =
     (if held then Some ((ds, held, es), None)
      else case es of [] \<Rightarrow> Some ((ds, held, es), None) | e # es' \<Rightarrow> Some ((ds, True, es'), Some e))"
| "ex_spec n (ds, held, es) (Deliver f) =
     (if held then Some ((ds @ [f], False, es), None) else None)"
| "ex_spec n (ds, held, es) Take =
     (case ds of [] \<Rightarrow> Some ((ds, held, es), None) | d # ds' \<Rightarrow> Some ((ds', held, es), Some d))"

fun ex_spec_run :: "nat \<Rightarrow> ex_state \<Rightarrow> ex_op list \<Rightarrow> (ex_state \<times> nat option list) option" where
  "ex_spec_run n s [] = Some (s, [])"
| "ex_spec_run n s (x # xs) =
     (case ex_spec n s x of None \<Rightarrow> None
      | Some (s1, r) \<Rightarrow> map_option (\<lambda>(s2, rs). (s2, r # rs)) (ex_spec_run n s1 xs))"

fun ex_step :: "exchanger \<Rightarrow> ex_op \<Rightarrow> exchanger \<times> nat option" where
  "ex_step ex (Exchange f) = (fst (exchange_frame ex f), None)"
| "ex_step ex Get_Next = get_next_frame id ex False"
| "ex_step ex (Deliver f) = (deliver_frame ex f, None)"
| "ex_step ex Take = (if ex_pipe ex = 0 then (ex, None) else exchanger_take ex)"

fun ex_run :: "exchanger \<Rightarrow> ex_op list \<Rightarrow> exchanger \<times> nat option list" where
  "ex_run ex [] = (ex, [])"
| "ex_run ex (x # xs) =
     (let (ex1, r) = ex_step ex x; (ex2, rs) = ex_run ex1 xs in (ex2, r # rs))"

definition ex_view :: "nat \<Rightarrow> ex_state \<Rightarrow> (nat option \<times> bool) list" where
  "ex_view n s = (case s of (ds, held, es) \<Rightarrow>
     map (\<lambda>f. (Some f, False)) ds @ (if held then [(None, True)] else []) @
     map (\<lambda>f. (Some f, True)) es @
     replicate (n - (length ds + of_bool held + length es)) (None, False))"

definition ex_rel :: "exchanger \<Rightarrow> ex_state \<Rightarrow> bool" where
  "ex_rel ex s \<longleftrightarrow> (case s of (ds, held, es) \<Rightarrow>
     let n = length (ex_slots ex); k = length ds + of_bool held + length es
     in master_read ex < n \<and> k \<le> n \<and> view (ex_slots ex) (master_read ex) = ex_view n s \<and>
        ex_pipe ex = length ds \<and> slave_cur ex = (master_read ex + length ds) mod n \<and>
        master_write ex = (master_read ex + k) mod n)"

lemma ex_rel_at:
  assumes "ex_rel ex s" "j < length (ex_slots ex)"
  shows "ex_slots ex ! ((master_read ex + j) mod length (ex_slots ex)) = ex_view (length (ex_slots ex)) s ! j"
    "view ((ex_slots ex)[(master_read ex + j) mod length (ex_slots ex) := x]) (master_read ex)
       = (ex_view (length (ex_slots ex)) s)[j := x]"
proof -
  have v: "view (ex_slots ex) (master_read ex) = ex_view (length (ex_slots ex)) s"
    using assms(1) by (auto simp: ex_rel_def Let_def)
  show "ex_slots ex ! ((master_read ex + j) mod length (ex_slots ex)) = ex_view (length (ex_slots ex)) s ! j"
    using nth_view [OF assms(2), of "master_read ex"] by (simp add: v)
  show "view ((ex_slots ex)[(master_read ex + j) mod length (ex_slots ex) := x]) (master_read ex)
       = (ex_view (length (ex_slots ex)) s)[j := x]"
    using view_update [OF assms(2), of "master_read ex" x] by (simp add: v)
qed

lemma ex_exchange:
  assumes r: "ex_rel ex (ds, held, es)" and k: "length ds + of_bool held + length es < length (ex_slots ex)"
  shows "ex_rel (fst (exchange_frame ex f)) (ds, held, es @ [f])" "snd (exchange_frame ex f)"
proof -
  define n where "n = length (ex_slots ex)"
  define j where "j = length ds + of_bool held + length es"
  have j: "j < n" using k by (simp add: j_def n_def)
  have mw: "master_write ex = (master_read ex + j) mod n"
    using r by (auto simp: ex_rel_def Let_def j_def n_def)
  note at = ex_rel_at [OF r, of j, folded n_def, OF j]
  have v: "ex_view n (ds, held, es) = (map (\<lambda>f. (Some f, False)) ds @ (if held then [(None, True)] else []) @
     map (\<lambda>f. (Some f, True)) es) @ (None, False) # replicate (n - Suc j) (None, False)"
    using j by (simp add: ex_view_def j_def Suc_diff_Suc [symmetric])
  have l: "length (map (\<lambda>f. (Some f, False)) ds @ (if held then [(None, True)] else []) @
     map (\<lambda>f. (Some f, True)) es) = j" by (simp add: j_def)
  have "ex_view n (ds, held, es) ! j = (None, False)" unfolding v using l by (metis nth_append_length)
  then have e: "fst (ex_slots ex ! master_write ex) = None" using at(1) mw by simp
  then show "snd (exchange_frame ex f)" by (simp add: exchange_frame_def)
  have "(ex_view n (ds, held, es))[j := (Some f, True)] = ex_view n (ds, held, es @ [f])"
    unfolding v l [symmetric] list_update_length using j by (simp add: ex_view_def j_def)
  with at(2) e mw r j show "ex_rel (fst (exchange_frame ex f)) (ds, held, es @ [f])"
    by (simp add: ex_rel_def exchange_frame_def next_slot_def Let_def n_def [symmetric] j_def mod_simps)
qed

lemma ex_get:
  assumes r: "ex_rel ex (ds, False, e # es)"
  shows "ex_rel (fst (get_next_frame id ex False)) (ds, True, es)" "snd (get_next_frame id ex False) = Some e"
proof -
  define n where "n = length (ex_slots ex)"
  define j where "j = length ds"
  have j: "j < n" and sc: "slave_cur ex = (master_read ex + j) mod n"
    using r by (auto simp: ex_rel_def Let_def j_def n_def)
  note at = ex_rel_at [OF r, of j, folded n_def, OF j]
  have v: "ex_view n (ds, False, e # es) = map (\<lambda>f. (Some f, False)) ds @ (Some e, True) #
     map (\<lambda>f. (Some f, True)) es @ replicate (n - (length ds + Suc (length es))) (None, False)"
    by (simp add: ex_view_def)
  have l: "length (map (\<lambda>f. (Some f, False)) ds) = j" by (simp add: j_def)
  have "ex_view n (ds, False, e # es) ! j = (Some e, True)" unfolding v using l by (metis nth_append_length)
  then have e: "ex_slots ex ! slave_cur ex = (Some e, True)" using at(1) sc by simp
  then show "snd (get_next_frame id ex False) = Some e"
    by (simp add: get_next_frame_def pending_frame_def Let_def)
  have "(ex_view n (ds, False, e # es))[j := (None, True)] = ex_view n (ds, True, es)"
    unfolding v l [symmetric] list_update_length by (simp add: ex_view_def)
  with at(2) e sc r show "ex_rel (fst (get_next_frame id ex False)) (ds, True, es)"
    by (simp add: ex_rel_def get_next_frame_def pending_frame_def Let_def n_def [symmetric] j_def)
qed

lemma ex_get_none:
  assumes r: "ex_rel ex (ds, held, es)" "held \<or> es = []"
  shows "get_next_frame id ex False = (ex, None)"
proof -
  define n where "n = length (ex_slots ex)"
  define j where "j = length ds"
  have n: "0 < n" and sc: "slave_cur ex = (master_read ex + j) mod n" and jn: "j \<le> n"
    using r by (auto simp: ex_rel_def Let_def j_def n_def)
  have "pending_frame ex = None"
  proof (cases "j < n")
    case True
    note at = ex_rel_at(1) [OF r(1), of j, folded n_def, OF True]
    have "ex_view n (ds, held, es) ! j = (if held then (None, True) else (None, False))"
      using r(2) True by (auto simp: ex_view_def j_def nth_append)
    then show ?thesis using at sc by (simp add: pending_frame_def)
  next
    case False
    then have jn: "j = n" "\<not> held" using jn r(1) by (auto simp: ex_rel_def Let_def n_def j_def)
    note at = ex_rel_at(1) [OF r(1), of 0, folded n_def, OF n]
    have "ex_view n (ds, held, es) ! 0 = (Some (hd ds), False)"
      using jn n by (cases ds) (auto simp: ex_view_def j_def)
    then have "snd (ex_slots ex ! slave_cur ex) = False" using at sc jn by simp
    then show ?thesis by (simp add: pending_frame_def)
  qed
  then show ?thesis by (simp add: get_next_frame_def)
qed

lemma ex_deliver:
  assumes r: "ex_rel ex (ds, True, es)"
  shows "ex_rel (deliver_frame ex f) (ds @ [f], False, es)"
proof -
  define n where "n = length (ex_slots ex)"
  define j where "j = length ds"
  have j: "j < n" and sc: "slave_cur ex = (master_read ex + j) mod n"
    using r by (auto simp: ex_rel_def Let_def j_def n_def)
  note at = ex_rel_at [OF r, of j, folded n_def, OF j]
  have v: "ex_view n (ds, True, es) = map (\<lambda>f. (Some f, False)) ds @ (None, True) #
     map (\<lambda>f. (Some f, True)) es @ replicate (n - (length ds + Suc (length es))) (None, False)"
    by (simp add: ex_view_def)
  have l: "length (map (\<lambda>f. (Some f, False)) ds) = j" by (simp add: j_def)
  have "(ex_view n (ds, True, es))[j := (Some f, False)] = ex_view n (ds @ [f], False, es)"
    unfolding v l [symmetric] list_update_length by (simp add: ex_view_def)
  with at(2) sc r show ?thesis
    by (simp add: ex_rel_def deliver_frame_def next_slot_def Let_def n_def [symmetric] j_def mod_simps)
qed

lemma ex_take:
  assumes r: "ex_rel ex (d # ds, held, es)"
  shows "ex_rel (fst (exchanger_take ex)) (ds, held, es)" "snd (exchanger_take ex) = Some d" "ex_pipe ex \<noteq> 0"
proof -
  define n where "n = length (ex_slots ex)"
  have n: "0 < n" "master_read ex mod n = master_read ex" and p: "ex_pipe ex = Suc (length ds)"
    using r by (auto simp: ex_rel_def Let_def n_def)
  note at = ex_rel_at [OF r, of 0, folded n_def, OF n(1)]
  show "ex_pipe ex \<noteq> 0" using p by simp
  have v: "ex_view n (d # ds, held, es) = (Some d, False) # (map (\<lambda>f. (Some f, False)) ds @
     (if held then [(None, True)] else []) @ map (\<lambda>f. (Some f, True)) es @
     replicate (n - (Suc (length ds) + of_bool held + length es)) (None, False))"
    by (simp add: ex_view_def)
  have e: "ex_slots ex ! master_read ex = (Some d, False)" using at(1) n v by simp
  then show "snd (exchanger_take ex) = Some d" by (simp add: exchanger_take_def Let_def)
  let ?s = "(ex_slots ex)[master_read ex := (None, False)]"
  have k: "Suc (length ds) + of_bool held + length es \<le> n"
    using r by (auto simp: ex_rel_def Let_def n_def)
  have "view ?s ((master_read ex + 1) mod length ?s) = rotate1 (view ?s (master_read ex))"
    using n by (intro view_step) (auto simp: n_def)
  also have "view ?s (master_read ex) = (ex_view n (d # ds, held, es))[0 := (None, False)]"
    using at(2) n by simp
  also have "rotate1 \<dots> = ex_view n (ds, held, es)"
    using k unfolding v by (simp add: ex_view_def Suc_diff_Suc [symmetric] replicate_append_same)
  finally have "view ?s ((master_read ex + 1) mod n) = ex_view n (ds, held, es)" by (simp add: n_def)
  moreover have "(master_read ex + 1) mod n < n" using n by simp
  ultimately show "ex_rel (fst (exchanger_take ex)) (ds, held, es)"
    using r e k p
    by (simp add: ex_rel_def exchanger_take_def next_slot_def Let_def n_def [symmetric] mod_simps)
qed

lemma ex_step_refines:
  assumes "ex_rel ex s" "ex_spec (length (ex_slots ex)) s x = Some (s', r)"
  shows "ex_rel (fst (ex_step ex x)) s' \<and> snd (ex_step ex x) = r \<and>
    length (ex_slots (fst (ex_step ex x))) = length (ex_slots ex)"
proof -
  obtain ds held es where s: "s = (ds, held, es)" by (cases s)
  have len: "length (ex_slots (fst (ex_step ex x))) = length (ex_slots ex)"
    by (cases x) (auto simp: exchange_frame_def get_next_frame_def deliver_frame_def exchanger_take_def
        Let_def split: option.split)
  show ?thesis
  proof (cases x)
    case (Exchange f)
    with assms ex_exchange [of ex ds held es f] len show ?thesis by (auto simp: s split: if_splits)
  next
    case Get_Next
    show ?thesis
    proof (cases "held \<or> es = []")
      case True
      with assms Get_Next ex_get_none [of ex ds held es] show ?thesis by (auto simp: s split: if_splits)
    next
      case False
      then obtain e es' where "es = e # es'" "\<not> held" by (cases es) auto
      with assms Get_Next ex_get [of ex ds e es'] len show ?thesis by (auto simp: s)
    qed
  next
    case (Deliver f)
    with assms ex_deliver [of ex ds es f] len show ?thesis by (auto simp: s split: if_splits)
  next
    case Take
    show ?thesis
    proof (cases ds)
      case Nil
      with assms Take show ?thesis by (auto simp: s ex_rel_def)
    next
      case (Cons d ds')
      with assms Take ex_take [of ex d ds' held es] len show ?thesis by (auto simp: s)
    qed
  qed
qed

lemma ex_rel_new: "0 < n \<Longrightarrow> \<exists>ex. new_exchanger n = Inr ex \<and> ex_rel ex ([], False, []) \<and> length (ex_slots ex) = n"
  by (simp add: new_exchanger_def ex_rel_def ex_view_def Let_def view_rotate)

text \<open>
  C30. An exchanger behaves as its contract: as long as no more frames are in circulation than
  it has slots, and the slave delivers only a frame it has taken, the slots, the three
  pointers and the pipe implement two first-in-first-out queues, of empty frames to the slave
  and of delivered frames to the master, and every call returns what the contract says.
\<close>

theorem exchanger_refines:
  assumes "new_exchanger n = Inr ex" "ex_spec_run n ([], False, []) ops = Some (s', rs)"
  shows "\<exists>ex'. ex_run ex ops = (ex', rs) \<and> ex_rel ex' s'"
proof -
  have "\<exists>ex'. ex_run ex ops = (ex', rs) \<and> ex_rel ex' s'"
    if "ex_rel ex s" "length (ex_slots ex) = n" "ex_spec_run n s ops = Some (s', rs)" for ex s
    using that
  proof (induction ops arbitrary: ex s rs)
    case (Cons x ops)
    then obtain s1 r rs' where 1: "ex_spec n s x = Some (s1, r)" "ex_spec_run n s1 ops = Some (s', rs')"
      "rs = r # rs'"
      by (auto split: option.splits)
    from ex_step_refines [OF Cons.prems(1)] Cons.prems(2) 1(1)
    have st: "ex_rel (fst (ex_step ex x)) s1" "snd (ex_step ex x) = r" "length (ex_slots (fst (ex_step ex x))) = n"
      by auto
    from Cons.IH [OF st(1,3) 1(2)] obtain ex' where "ex_run (fst (ex_step ex x)) ops = (ex', rs')" "ex_rel ex' s'"
      by blast
    with st(2) 1(3) show ?case by (auto simp: split_def Let_def)
  qed simp
  moreover have "0 < n" using assms(1) by (auto simp: new_exchanger_def split: if_splits)
  ultimately show ?thesis using ex_rel_new [of n] assms by auto
qed

section \<open>Clones\<close>

text \<open>
  A clone shares the data block of its original, and dropping the clone frees that block
  together with the clone: for every frame that owns its data and whose only reference is
  its owner's, cloning it, dropping the clone and dropping the frame frees the block twice.
\<close>

lemma clone_frame_double_free:
  assumes "wf_heap h" "live h f" "ref_count (frames h f) = 1" "fr_d (frames h f) = Some b"
    and "clone_frame h f = Some (h1, Some c)"
  shows "\<exists>h2. unref_frame h1 c = Some (Inr h2) \<and> unref_frame h2 f = Some (Inl Fault)"
proof -
  from assms(5) obtain h0 where nf: "new_frame h = Some (h0, Some c)"
    by (auto simp: clone_frame_def Let_def split: option.splits)
  have "free_list h \<noteq> []" using nf new_frame_empty [OF assms(1)] by auto
  then obtain x fs where x: "free_list h = x # fs" by (cases "free_list h") auto
  from new_frame_some [OF assms(1) x] obtain h' where h': "new_frame h = Some (h', Some x)"
    and k: "wf_heap h'" "free_list h' = fs" "ref_count (frames h' x) = 1"
      "\<forall>g. g \<noteq> x \<longrightarrow> frames h' g = frames h g" "blocks h' = blocks h"
    by blast
  from nf h' have eq: "h' = h0" "x = c" by simp_all
  note fl = x [unfolded eq] and h0 = k [unfolded eq]
  have fc: "f \<noteq> c" using assms(2) fl by (auto simp: live_def)
  have len: "length (heap_slots h0) = length (heap_slots h)"
    using nf by (auto simp: new_frame_def split: if_splits option.splits)
  have lc: "live h0 c" "fr_destructor (frames h0 f) = None" "blocks h0 b \<noteq> None"
  proof -
    have "c < length (heap_slots h)" "c \<notin> set fs" using assms(1) fl by (auto simp: wf_heap_def)
    then show "live h0 c" by (simp add: live_def len h0(2))
    have "frames h0 f = frames h f" using h0(4) fc by simp
    then show "fr_destructor (frames h0 f) = None" "blocks h0 b \<noteq> None"
      using assms(1,2,4) h0(5) unfolding wf_heap_def by auto
  qed
  have h1: "frames h1 c = (frames h0 c)\<lparr>fr_destructor := Some f, fr_format := fr_format (frames h f),
      fr_width := fr_width (frames h f), fr_height := fr_height (frames h f),
      fr_length := fr_length (frames h f), fr_key := fr_key (frames h f),
      fr_step := fr_step (frames h f), fr_d := Some b\<rparr>"
    "frames h1 f = (frames h f)\<lparr>ref_count := 2\<rparr>"
    "heap_slots h1 = heap_slots h0" "heap_put h1 = heap_put h0" "blocks h1 = blocks h0" "heap_locked h1 = heap_locked h0"
    using assms(3-5) nf h0 fc by (auto simp: clone_frame_def ref_frame_def Let_def)
  have put: "\<exists>h2. put_frame k x = Some (Inr h2) \<and> frames h2 = frames k \<and> blocks h2 = blocks k"
    if "\<not> heap_locked k" for k x
    using that by (simp add: put_frame_def)
  define k where "k = upd_frame f (\<lambda>fr. fr\<lparr>ref_count := 1\<rparr>) (upd_frame c (\<lambda>fr. fr\<lparr>ref_count := 1\<rparr>) h1)"
  have f2: "fr_destructor (frames h1 f) = None" "ref_count (frames h1 f) = 2" "fr_d (frames h1 f) = Some b"
    using lc fc h0(4) assms(4) h1(2) by simp_all
  have "unref_frame (upd_frame c (\<lambda>fr. fr\<lparr>ref_count := 1\<rparr>) h1) f = Some (Inr k)"
    using fc f2 by (subst unref_frame.simps) (simp add: k_def upd_frame_def fun_eq_iff)
  moreover have "upd_frame c (\<lambda>fr. fr\<lparr>ref_count := 1\<rparr>) (upd_frame c (\<lambda>fr. fr\<lparr>ref_count := 0\<rparr>) h1) =
      upd_frame c (\<lambda>fr. fr\<lparr>ref_count := 1\<rparr>) h1"
    by (simp add: upd_frame_def)
  ultimately have 1: "unref_frame h1 c = release_frame k c"
    using h1(1) h0(3) by (subst unref_frame.simps) (simp add: Let_def)
  have kc: "fr_d (frames k c) = Some b" "blocks k b \<noteq> None" "\<not> heap_locked k" "frames k f = (frames h1 f)\<lparr>ref_count := 1\<rparr>"
    using fc h1 h0(1,5) lc(3) by (auto simp: k_def wf_heap_def)
  define k2 where "k2 = upd_frame c (\<lambda>fr. fr\<lparr>fr_timestamp := 0\<rparr>)
      (upd_frame c (\<lambda>fr. fr\<lparr>fr_d := None, fr_length := 0\<rparr>) (k\<lparr>blocks := (blocks k)(b := None)\<rparr>))"
  have rel: "release_frame k c = put_frame k2 c"
    using kc(1,2) by (auto simp: release_frame_def free_data_def k2_def)
  have "\<not> heap_locked k2" using kc(3) by (simp add: k2_def)
  from put [OF this] obtain h2 where h2: "put_frame k2 c = Some (Inr h2)" "frames h2 = frames k2" "blocks h2 = blocks k2"
    by blast
  have fr2: "frames h2 f = (frames h1 f)\<lparr>ref_count := 1\<rparr>" "blocks h2 b = None"
    using h2 kc(4) fc by (simp_all add: k2_def upd_frame_def)
  then have "unref_frame h2 f = Some (Inl Fault)"
    using f2 by (simp add: unref_frame_simple release_frame_def free_data_def)
  with 1 rel h2(1) show ?thesis by simp
qed

definition demo_heap :: frame_heap where
  "demo_heap = (case init_frame_heap 0 3 of Inr h \<Rightarrow> h)"

lemma wf_demo_heap: "wf_heap demo_heap" "free_list demo_heap = [0, 1, 2]"
  using init_frame_heap_wf [of 3 0] by (auto simp: demo_heap_def upt_rec)

theorem new_frame_correct_witness:
  "\<exists>h' r. new_frame demo_heap = Some (h', r) \<and> wf_heap h' \<and>
    (case r of
       None \<Rightarrow> free_list demo_heap = [] \<and> h' = demo_heap
     | Some f \<Rightarrow> \<not> live demo_heap f \<and> live h' f \<and> free_list demo_heap = f # free_list h' \<and>
         ref_count (frames h' f) = 1 \<and> fr_d (frames h' f) = None \<and>
         (\<forall>g. live demo_heap g \<longrightarrow> live h' g \<and> frames h' g = frames demo_heap g))"
  by (rule new_frame_correct) (rule wf_demo_heap)

text \<open>A heap with one frame taken, which owns block 7.\<close>

definition demo_heap1 :: frame_heap where
  "demo_heap1 = (let h = fst (the (new_frame demo_heap)) in
     upd_frame 0 (\<lambda>fr. fr\<lparr>fr_d := Some 7\<rparr>) (h\<lparr>blocks := (blocks h)(7 := Some [1, 2])\<rparr>))"

lemma demo_heap1: "wf_heap demo_heap1" "live demo_heap1 0" "ref_count (frames demo_heap1 0) = 1"
  "fr_d (frames demo_heap1 0) = Some 7"
proof -
  from new_frame_some [OF wf_demo_heap] obtain h where h: "new_frame demo_heap = Some (h, Some 0)"
    "wf_heap h" "free_list h = [1, 2]" "ref_count (frames h 0) = 1" by auto
  have len: "length (heap_slots h) = 3"
    using h(1) by (auto simp: new_frame_def demo_heap_def init_frame_heap_def split: if_splits option.splits)
  have eq: "demo_heap1 = upd_frame 0 (\<lambda>fr. fr\<lparr>fr_d := Some 7\<rparr>) (h\<lparr>blocks := (blocks h)(7 := Some [1, 2])\<rparr>)"
    by (simp add: demo_heap1_def h(1) Let_def)
  have fl: "free_list demo_heap1 = [1, 2]" using h(3) by (simp add: eq free_list_def)
  then show l0: "live demo_heap1 0" by (simp add: live_def len eq)
  have only: "live demo_heap1 g \<longleftrightarrow> g = 0" "live h g \<longleftrightarrow> g = 0" for g
    using fl h(3) len by (auto simp: live_def eq)
  show "ref_count (frames demo_heap1 0) = 1" "fr_d (frames demo_heap1 0) = Some 7"
    using h(4) by (simp_all add: eq)
  show "wf_heap demo_heap1"
    using h(2,4) unfolding wf_heap_def only fl h(3) by (simp add: eq)
qed

theorem unref_frame_correct_witness:
  "\<exists>h'. unref_frame demo_heap1 0 = Some (Inr h') \<and> wf_heap h' \<and>
    (if 1 < ref_count (frames demo_heap1 0)
     then live h' 0 \<and> ref_count (frames h' 0) = ref_count (frames demo_heap1 0) - 1 \<and>
          free_list h' = free_list demo_heap1 \<and> blocks h' = blocks demo_heap1
     else \<not> live h' 0 \<and> free_list h' = free_list demo_heap1 @ [0] \<and> fr_d (frames h' 0) = None \<and>
          (\<forall>b. blocks h' b = (if fr_d (frames demo_heap1 0) = Some b then None else blocks demo_heap1 b)))"
  by (rule unref_frame_correct) (rule demo_heap1)+

theorem clone_frame_double_free_witness:
  "\<exists>h1 c h2. clone_frame demo_heap1 0 = Some (h1, Some c) \<and>
     unref_frame h1 c = Some (Inr h2) \<and> unref_frame h2 0 = Some (Inl Fault)"
proof -
  have "map_option snd (clone_frame demo_heap1 0) = Some (Some 1)" by code_simp
  then obtain h1 where "clone_frame demo_heap1 0 = Some (h1, Some 1)" by auto
  from clone_frame_double_free [OF demo_heap1 this] this show ?thesis by blast
qed

definition demo_exchange :: "ex_op list" where
  "demo_exchange = [Exchange 4, Exchange 5, Get_Next, Deliver 4, Get_Next, Take, Exchange 4, Deliver 5, Take]"

theorem exchanger_refines_witness:
  "\<exists>ex ex'. new_exchanger 2 = Inr ex \<and>
     ex_run ex demo_exchange = (ex', [None, None, Some 4, None, Some 5, Some 4, None, None, Some 5]) \<and>
     ex_rel ex' ([], False, [4])"
proof -
  have "ex_spec_run 2 ([], False, []) demo_exchange =
      Some (([], False, [4]), [None, None, Some 4, None, Some 5, Some 4, None, None, Some 5])"
    by code_simp
  moreover obtain ex where "new_exchanger 2 = Inr ex" by (simp add: new_exchanger_def)
  ultimately show ?thesis using exchanger_refines [of 2 ex] by blast
qed

end
