(* ===== verification/Stream.thy ===== *)
theory Stream
  imports Frame
begin

text \<open>
  \<open>stream.c\<close> and \<open>filter-framedrop.c\<close>: named streams with lists of destinations, the
  switching on and off of the sources by \<open>set_waiting\<close>, the delivery of a frame to the
  destinations that wait for it, the search for a stream by name and format with the
  insertion of a converter, and the frame dropper.

  Streams and destinations are numbers. The function pointer \<open>set_running\<close> of a stream is
  one of: null, \<open>Up d\<close> for a converter or a filter, which passes the call on to
  \<open>set_waiting\<close> on its own input destination \<open>d\<close>, and \<open>Source\<close> for an input, whose running
  state is kept in \<open>running\<close>.
\<close>

section \<open>State\<close>

datatype set_running_fn = No_Fn | Up nat | Source

record stream =
  st_name :: string
  st_format :: int
  st_dests :: "nat list"
  st_set_running :: set_running_fn

record graph =
  streams :: "nat \<Rightarrow> stream"
  stream_list :: "nat list"
  dest_stream :: "nat \<Rightarrow> nat"
  waiting :: "nat \<Rightarrow> bool"
  running :: "nat \<Rightarrow> bool"
  next_stream :: nat
  next_dest :: nat

definition any_waiting :: "graph \<Rightarrow> nat \<Rightarrow> bool" where
  "any_waiting g s \<longleftrightarrow> (\<exists>d\<in>set (st_dests (streams g s)). waiting g d)"

section \<open>Operations\<close>

text \<open>
  The name is copied into an array of 256 characters without a test. Every caller gives a text of the
  configuration, which the scanner keeps below 256 characters (\<open>TOKEN_LEN\<close> in \<open>Conf_Scan\<close>), so it fits; the
  model takes a name of any length.
\<close>

definition new_stream :: "graph \<Rightarrow> string \<Rightarrow> int \<Rightarrow> graph \<times> nat" where
  "new_stream g name fmt =
     (let s = next_stream g
      in (g\<lparr>streams := (streams g)(s := \<lparr>st_name = name, st_format = fmt, st_dests = [],
                                         st_set_running = No_Fn\<rparr>),
            stream_list := s # stream_list g, next_stream := s + 1\<rparr>, s))"

definition del_stream :: "graph \<Rightarrow> nat \<Rightarrow> graph" where
  "del_stream g s = g\<lparr>stream_list := remove1 s (stream_list g)\<rparr>"

definition format_match :: "int \<Rightarrow> int list \<Rightarrow> bool" where
  "format_match fmt formats \<longleftrightarrow> formats = [] \<or> fmt \<in> set formats"

definition new_dest :: "graph \<Rightarrow> nat \<Rightarrow> graph \<times> nat" where
  "new_dest g s =
     (let d = next_dest g; st = streams g s
      in (g\<lparr>streams := (streams g)(s := st\<lparr>st_dests := d # st_dests st\<rparr>),
            dest_stream := (dest_stream g)(d := s), waiting := (waiting g)(d := False),
            next_dest := d + 1\<rparr>, d))"

fun insert_after :: "nat \<Rightarrow> nat \<Rightarrow> nat list \<Rightarrow> nat list" where
  "insert_after base s [] = []"
| "insert_after base s (x # xs) = (if x = base then x # s # xs else x # insert_after base s xs)"

definition new_convert_stream :: "graph \<Rightarrow> nat \<Rightarrow> int \<Rightarrow> graph \<times> nat" where
  "new_convert_stream g base fmt =
     (let s = next_stream g;
          (g1, d) = new_dest g base
      in (g1\<lparr>streams := (streams g1)(s := \<lparr>st_name = st_name (streams g base), st_format = fmt,
                                           st_dests = [], st_set_running = Up d\<rparr>),
             stream_list := insert_after base s (stream_list g1), next_stream := s + 1\<rparr>, s))"

text \<open>
  First a stream of that name whose format matches; failing that, the first raw UYVY stream
  of that name, through a converter, when RGB is accepted.
\<close>

definition connect_to_stream :: "graph \<Rightarrow> string \<Rightarrow> int list \<Rightarrow> graph \<times> nat option" where
  "connect_to_stream g name formats =
     (case find (\<lambda>s. st_name (streams g s) = name \<and> format_match (st_format (streams g s)) formats)
             (stream_list g) of
        Some s \<Rightarrow> (let (g1, d) = new_dest g s in (g1, Some d))
      | None \<Rightarrow>
          (case find (\<lambda>s. st_name (streams g s) = name \<and> st_format (streams g s) = FORMAT_RAW_UYVY \<and>
                     format_match FORMAT_RAW_RGB24 formats) (stream_list g) of
             Some s \<Rightarrow> (let (g1, c) = new_convert_stream g s FORMAT_RAW_RGB24;
                            (g2, d) = new_dest g1 c in (g2, Some d))
           | None \<Rightarrow> (g, None)))"

text \<open>
  \<open>set_waiting\<close>: the source is told of every destination that starts to wait, and of the
  last one that stops. A null \<open>set_running\<close> is a fault.
\<close>

partial_function (option) set_waiting :: "graph \<Rightarrow> nat \<Rightarrow> bool \<Rightarrow> graph cres option" where
  "set_waiting g d w =
     (let s = dest_stream g d;
          g1 = g\<lparr>waiting := (waiting g)(d := w)\<rparr>
      in if waiting g d = w then Some (Inr g)
         else if \<not> w \<and> any_waiting g1 s then Some (Inr g1)
         else case st_set_running (streams g s) of
           No_Fn \<Rightarrow> Some (Inl Fault)
         | Source \<Rightarrow> Some (Inr (g1\<lparr>running := (running g1)(s := w)\<rparr>))
         | Up d' \<Rightarrow> set_waiting g1 d' w)"

declare set_waiting.simps [code]

text \<open>
  \<open>deliver_frame_to_stream\<close> takes a reference for every destination that waits when its
  turn comes, calls it, and drops the reference it was given. \<open>proc d\<close> is the callback of
  destination \<open>d\<close>; the rest of the program is the state \<open>'w\<close>.
\<close>

fun deliver_dests ::
  "('w \<Rightarrow> nat \<Rightarrow> bool) \<Rightarrow> (nat \<Rightarrow> nat \<Rightarrow> frame_heap \<times> 'w \<Rightarrow> (frame_heap \<times> 'w) cres option) \<Rightarrow> nat \<Rightarrow>
     nat list \<Rightarrow> frame_heap \<times> 'w \<Rightarrow> (frame_heap \<times> 'w) cres option" where
  "deliver_dests wt proc f [] hw = Some (Inr hw)"
| "deliver_dests wt proc f (d # ds) hw =
     (if \<not> wt (snd hw) d then deliver_dests wt proc f ds hw
      else case proc d f (ref_frame (fst hw) f, snd hw) of
        None \<Rightarrow> None
      | Some (Inl e) \<Rightarrow> Some (Inl e)
      | Some (Inr hw') \<Rightarrow> deliver_dests wt proc f ds hw')"

definition deliver_frame_to_stream ::
  "('w \<Rightarrow> nat \<Rightarrow> bool) \<Rightarrow> (nat \<Rightarrow> nat \<Rightarrow> frame_heap \<times> 'w \<Rightarrow> (frame_heap \<times> 'w) cres option) \<Rightarrow> nat \<Rightarrow>
     nat list \<Rightarrow> frame_heap \<times> 'w \<Rightarrow> (frame_heap \<times> 'w) cres option" where
  "deliver_frame_to_stream wt proc f ds hw =
     (case deliver_dests wt proc f ds hw of
        None \<Rightarrow> None
      | Some (Inl e) \<Rightarrow> Some (Inl e)
      | Some (Inr (h, w)) \<Rightarrow> map_option (map_sum id (\<lambda>h'. (h', w))) (unref_frame h f))"

section \<open>Sources run exactly when somebody listens\<close>

definition stream_ok :: "graph \<Rightarrow> nat \<Rightarrow> bool" where
  "stream_ok g s \<longleftrightarrow>
     (case st_set_running (streams g s) of
        No_Fn \<Rightarrow> \<not> any_waiting g s
      | Up d \<Rightarrow> waiting g d = any_waiting g s
      | Source \<Rightarrow> running g s = any_waiting g s)"

text \<open>
  The shape of the graph: a destination is in the list of its stream only; every input
  destination belongs to one filter; filters point towards the sources, \<open>rank\<close> decreasing.
\<close>

definition wf_graph :: "(nat \<Rightarrow> nat) \<Rightarrow> graph \<Rightarrow> bool" where
  "wf_graph rank g \<longleftrightarrow>
     (\<forall>s d. d \<in> set (st_dests (streams g s)) \<longrightarrow> dest_stream g d = s) \<and>
     (\<forall>s t d. st_set_running (streams g s) = Up d \<and> st_set_running (streams g t) = Up d \<longrightarrow> s = t) \<and>
     (\<forall>s d. st_set_running (streams g s) = Up d \<longrightarrow>
        rank (dest_stream g d) < rank s \<and> d \<in> set (st_dests (streams g (dest_stream g d))) \<and>
        st_set_running (streams g (dest_stream g d)) \<noteq> No_Fn)"

lemma wf_graph_upd [simp]:
  "wf_graph rank (g\<lparr>waiting := x\<rparr>) = wf_graph rank g" "wf_graph rank (g\<lparr>running := y\<rparr>) = wf_graph rank g"
  by (simp_all add: wf_graph_def)

lemma any_waiting_upd [simp]: "any_waiting (g\<lparr>running := y\<rparr>) s = any_waiting g s"
  by (simp add: any_waiting_def)

lemma any_waiting_other:
  assumes "wf_graph rank g" "dest_stream g d \<noteq> s"
  shows "any_waiting (g\<lparr>waiting := (waiting g)(d := w)\<rparr>) s = any_waiting g s"
proof -
  have "d \<notin> set (st_dests (streams g s))" using assms by (auto simp: wf_graph_def)
  then show ?thesis by (auto simp: any_waiting_def)
qed

lemma stream_ok_other:
  assumes "wf_graph rank g" "dest_stream g d \<noteq> s" "st_set_running (streams g s) \<noteq> Up d"
  shows "stream_ok (g\<lparr>waiting := (waiting g)(d := w)\<rparr>) s = stream_ok g s"
  using assms any_waiting_other [OF assms(1,2), of w]
  by (auto simp: stream_ok_def split: set_running_fn.splits)

text \<open>
  The effect of one call, on the way through the filters: the streams in \<open>X\<close> may be out of
  step with their input destination, as the caller's is.
\<close>

lemma set_waiting_effect:
  assumes "wf_graph rank g" "d \<in> set (st_dests (streams g (dest_stream g d)))"
    and "st_set_running (streams g (dest_stream g d)) \<noteq> No_Fn"
    and "\<forall>s. st_set_running (streams g s) = Up d \<longrightarrow> s \<in> X"
    and "\<forall>s\<in>X. rank (dest_stream g d) < rank s"
    and "\<forall>s. s \<notin> X \<longrightarrow> stream_ok g s"
  shows "\<exists>g'. set_waiting g d w = Some (Inr g') \<and> wf_graph rank g' \<and> streams g' = streams g \<and>
    dest_stream g' = dest_stream g \<and> waiting g' d = w \<and>
    (\<forall>s. s \<notin> X \<longrightarrow> stream_ok g' s) \<and>
    (\<forall>e. rank (dest_stream g d) \<le> rank (dest_stream g e) \<and> e \<noteq> d \<longrightarrow> waiting g' e = waiting g e)"
  using assms
proof (induction "rank (dest_stream g d)" arbitrary: g d X rule: less_induct)
  case less
  let ?s = "dest_stream g d"
  let ?g1 = "g\<lparr>waiting := (waiting g)(d := w)\<rparr>"
  note wf = less.prems(1)
  have sX: "?s \<notin> X" using less.prems(5) by auto
  have ok1: "stream_ok ?g1 t" if "t \<notin> X" "t \<noteq> ?s" for t
    using that less.prems(4,6) stream_ok_other [OF wf, of d t w] by auto
  show ?case
  proof (cases "waiting g d = w \<or> (\<not> w \<and> any_waiting ?g1 ?s)")
    case True
    then consider "waiting g d = w" | "waiting g d" "\<not> w" "any_waiting ?g1 ?s"
      by (cases "waiting g d = w") auto
    then show ?thesis
    proof cases
      case 1
      then show ?thesis using less.prems by (subst set_waiting.simps) auto
    next
      case 2
      have a: "any_waiting g ?s" using 2(1) less.prems(2) by (auto simp: any_waiting_def)
      have "st_set_running (streams g ?s) \<noteq> Up d"
        using wf by (auto simp: wf_graph_def)
      then have "stream_ok ?g1 ?s"
        using less.prems(6) sX a 2(3) by (auto simp: stream_ok_def split: set_running_fn.splits)
      with ok1 have "\<forall>t. t \<notin> X \<longrightarrow> stream_ok ?g1 t" by blast
      then show ?thesis using 2 wf by (subst set_waiting.simps) auto
    qed
  next
    case False
    then have flip: "waiting g d \<noteq> w" "w \<or> \<not> any_waiting ?g1 ?s" by auto
    have any: "any_waiting ?g1 ?s = w"
      using flip(2) less.prems(2) by (cases w) (auto simp: any_waiting_def)
    show ?thesis
    proof (cases "st_set_running (streams g ?s)")
      case No_Fn
      with less.prems(3) show ?thesis by simp
    next
      case Source
      let ?g2 = "?g1\<lparr>running := (running g)(?s := w)\<rparr>"
      have "set_waiting g d w = Some (Inr ?g2)"
        using flip Source by (subst set_waiting.simps) (auto simp: Let_def)
      moreover have "stream_ok ?g2 t" if "t \<notin> X" for t
      proof (cases "t = ?s")
        case True
        then show ?thesis using Source any by (simp add: stream_ok_def)
      next
        case False
        then show ?thesis using ok1 [OF that False]
          by (auto simp: stream_ok_def split: set_running_fn.splits)
      qed
      ultimately show ?thesis using wf by auto
    next
      case (Up d')
      have up: "rank (dest_stream ?g1 d') < rank ?s" "d' \<in> set (st_dests (streams ?g1 (dest_stream ?g1 d')))"
        "st_set_running (streams ?g1 (dest_stream ?g1 d')) \<noteq> No_Fn"
        using wf Up unfolding wf_graph_def by simp_all
      have un: "\<forall>t. st_set_running (streams ?g1 t) = Up d' \<longrightarrow> t \<in> insert ?s X"
        using wf Up unfolding wf_graph_def by simp
      have rX: "\<forall>t\<in>insert ?s X. rank (dest_stream ?g1 d') < rank t"
        using up(1) less.prems(5) by fastforce
      have okX: "\<forall>t. t \<notin> insert ?s X \<longrightarrow> stream_ok ?g1 t" using ok1 by auto
      have wf1: "wf_graph rank ?g1" using wf by simp
      have lt: "rank (dest_stream ?g1 d') < rank (dest_stream g d)" using up(1) .
      from less.hyps [OF lt wf1 up(2,3) un rX okX] obtain g' where g':
        "set_waiting ?g1 d' w = Some (Inr g')" "wf_graph rank g'" "streams g' = streams g"
        "dest_stream g' = dest_stream g" "waiting g' d' = w"
        "\<forall>s. s \<notin> insert ?s X \<longrightarrow> stream_ok g' s"
        "\<forall>e. rank (dest_stream ?g1 d') \<le> rank (dest_stream g e) \<and> e \<noteq> d' \<longrightarrow> waiting g' e = waiting ?g1 e"
        by auto
      have res: "set_waiting g d w = Some (Inr g')"
        using flip Up g'(1) by (subst set_waiting.simps) (auto simp: Let_def)
      have keep: "waiting g' e = waiting ?g1 e" if "rank ?s \<le> rank (dest_stream g e)" for e
      proof -
        have "e \<noteq> d'" "rank (dest_stream g d') \<le> rank (dest_stream g e)" using that up(1) by auto
        with g'(7) show ?thesis by simp
      qed
      have "waiting g' e = waiting ?g1 e" if "e \<in> set (st_dests (streams g ?s))" for e
        using keep that wf by (auto simp: wf_graph_def)
      then have "any_waiting g' ?s = w" using any g'(3) by (simp add: any_waiting_def)
      then have "stream_ok g' ?s" using Up g'(3,5) by (simp add: stream_ok_def)
      with g'(6) have "\<forall>t. t \<notin> X \<longrightarrow> stream_ok g' t" by (metis insert_iff)
      moreover have "waiting g' d = w" using keep [of d] by simp
      moreover have "\<forall>e. rank ?s \<le> rank (dest_stream g e) \<and> e \<noteq> d \<longrightarrow> waiting g' e = waiting g e"
        using keep by auto
      ultimately show ?thesis using res g'(2-4) by blast
    qed
  qed
qed

lemma set_waiting_end:
  "wf_graph rank g \<Longrightarrow> set_waiting g d w = Some (Inr g') \<Longrightarrow>
     (\<forall>t. st_set_running (streams g t) \<noteq> Up e) \<Longrightarrow> e \<noteq> d \<Longrightarrow> waiting g' e = waiting g e"
proof (induction "rank (dest_stream g d)" arbitrary: g d rule: less_induct)
  case less
  let ?g1 = "g\<lparr>waiting := (waiting g)(d := w)\<rparr>"
  let ?s = "dest_stream g d"
  show ?case
  proof (cases "waiting g d = w \<or> (\<not> w \<and> any_waiting ?g1 ?s)")
    case True
    with less.prems(2) have "g' = g \<or> g' = ?g1"
      by (subst (asm) set_waiting.simps) (auto simp: Let_def split: if_splits set_running_fn.splits)
    with less.prems(4) show ?thesis by auto
  next
    case False
    show ?thesis
    proof (cases "st_set_running (streams g ?s)")
      case (Up d')
      with False less.prems(2) have r: "set_waiting ?g1 d' w = Some (Inr g')"
        by (subst (asm) set_waiting.simps) (auto simp: Let_def)
      have lt: "rank (dest_stream ?g1 d') < rank ?s" using less.prems(1) Up by (auto simp: wf_graph_def)
      have "e \<noteq> d'" using less.prems(3) Up by metis
      moreover have "wf_graph rank ?g1" "\<forall>t. st_set_running (streams ?g1 t) \<noteq> Up e" using less.prems by simp_all
      ultimately have "waiting g' e = waiting ?g1 e" using less.hyps [OF lt _ r] by blast
      with less.prems(4) show ?thesis by simp
    next
      case No_Fn
      with False less.prems(2) show ?thesis by (subst (asm) set_waiting.simps) (auto simp: Let_def)
    next
      case Source
      with False less.prems(2) have "g' = ?g1\<lparr>running := (running ?g1)(?s := w)\<rparr>"
        by (subst (asm) set_waiting.simps) (auto simp: Let_def)
      with less.prems(4) show ?thesis by simp
    qed
  qed
qed

text \<open>The destinations a stream feeds, directly or through filters.\<close>

inductive feeds :: "graph \<Rightarrow> nat \<Rightarrow> nat \<Rightarrow> bool" for g where
  direct: "d \<in> set (st_dests (streams g s)) \<Longrightarrow> feeds g s d"
| through: "d \<in> set (st_dests (streams g s)) \<Longrightarrow> st_set_running (streams g t) = Up d \<Longrightarrow>
     feeds g t e \<Longrightarrow> feeds g s e"

definition end_dest :: "graph \<Rightarrow> nat \<Rightarrow> bool" where
  "end_dest g d \<longleftrightarrow> (\<forall>t. st_set_running (streams g t) \<noteq> Up d)"

lemma feeds_any_waiting:
  "feeds g s e \<Longrightarrow> \<forall>s. stream_ok g s \<Longrightarrow> waiting g e \<Longrightarrow> any_waiting g s"
proof (induction rule: feeds.induct)
  case (direct d s)
  then show ?case by (auto simp: any_waiting_def)
next
  case (through d s t e)
  then have "any_waiting g t" by simp
  moreover have "stream_ok g t" using through.prems by simp
  ultimately have "waiting g d" using through.hyps by (simp add: stream_ok_def)
  with through.hyps show ?case by (auto simp: any_waiting_def)
qed

lemma any_waiting_feeds:
  assumes "wf_graph rank g" "\<forall>s. stream_ok g s" "\<forall>s. rank s \<le> B" "any_waiting g s"
  shows "\<exists>e. feeds g s e \<and> waiting g e \<and> end_dest g e"
  using assms(4)
proof (induction "B - rank s" arbitrary: s rule: less_induct)
  case less
  then obtain d where d: "d \<in> set (st_dests (streams g s))" "waiting g d" by (auto simp: any_waiting_def)
  show ?case
  proof (cases "end_dest g d")
    case True
    with d show ?thesis by (auto intro: feeds.direct)
  next
    case False
    then obtain t where t: "st_set_running (streams g t) = Up d" by (auto simp: end_dest_def)
    have "dest_stream g d = s" using assms(1) d by (auto simp: wf_graph_def)
    with assms(1) t have "rank s < rank t" by (auto simp: wf_graph_def)
    moreover have "rank t \<le> B" using assms(3) by simp
    ultimately have "B - rank t < B - rank s" by simp
    moreover have "any_waiting g t"
      using assms(2) t d(2) by (auto simp: stream_ok_def split: set_running_fn.splits dest: spec [of _ t])
    ultimately obtain e where "feeds g t e" "waiting g e" "end_dest g e" using less.hyps by blast
    with d t show ?thesis by (auto intro: feeds.through)
  qed
qed

text \<open>
  \<open>set_waiting\<close> on a destination of the program returns, and afterwards every source runs
  exactly when some end destination that it feeds, directly or through converters and
  filters, waits for frames: the last listener that leaves stops the whole chain, the first
  one starts it, and all the streams stay in step.
\<close>

lemma set_waiting_runs_sources:
  assumes "wf_graph rank g" "\<forall>s. rank s \<le> B" "\<forall>s. stream_ok g s"
    and "d \<in> set (st_dests (streams g (dest_stream g d)))" "end_dest g d"
    and "st_set_running (streams g (dest_stream g d)) \<noteq> No_Fn"
  shows "\<exists>g'. set_waiting g d w = Some (Inr g') \<and> streams g' = streams g \<and> waiting g' d = w \<and>
    (\<forall>s. stream_ok g' s) \<and>
    (\<forall>s. st_set_running (streams g' s) = Source \<longrightarrow>
       running g' s = (\<exists>e. feeds g' s e \<and> waiting g' e \<and> end_dest g' e))"
proof -
  have "\<forall>s. st_set_running (streams g s) = Up d \<longrightarrow> s \<in> {}" using assms(5) by (simp add: end_dest_def)
  from set_waiting_effect [OF assms(1,4,6) this, of w] assms(3) obtain g' where
    g': "set_waiting g d w = Some (Inr g')" "wf_graph rank g'" "streams g' = streams g" "waiting g' d = w"
    "\<forall>s. stream_ok g' s" by auto
  have "running g' s = (\<exists>e. feeds g' s e \<and> waiting g' e \<and> end_dest g' e)"
    if "st_set_running (streams g' s) = Source" for s
  proof -
    have "running g' s = any_waiting g' s"
      using spec [OF g'(5), of s] that by (simp add: stream_ok_def)
    also have "\<dots> = (\<exists>e. feeds g' s e \<and> waiting g' e \<and> end_dest g' e)"
      using any_waiting_feeds [OF g'(2,5) assms(2)] feeds_any_waiting [OF _ g'(5)] by blast
    finally show ?thesis .
  qed
  with g' show ?thesis by blast
qed

text \<open>The ranks are bounded when there are finitely many filters.\<close>

lemma source_runs_iff:
  assumes g: "wf_graph rank g" "\<forall>s. stream_ok g s" and fin: "finite {t. \<exists>d. st_set_running (streams g t) = Up d}"
    and x: "st_set_running (streams g x) = Source"
  shows "running g x \<longleftrightarrow> (\<exists>e. feeds g x e \<and> waiting g e \<and> end_dest g e)"
proof -
  let ?F = "{t. \<exists>d. st_set_running (streams g t) = Up d}"
  define rank' where "rank' = (\<lambda>t. if t \<in> ?F then Suc (rank t) else 0)"
  have "wf_graph rank' g" using g(1) by (auto simp: wf_graph_def rank'_def)
  moreover have "\<forall>s. rank' s \<le> Max (insert 0 (rank' ` ?F))"
  proof
    fix s
    show "rank' s \<le> Max (insert 0 (rank' ` ?F))"
      using fin by (cases "s \<in> ?F") (simp_all add: rank'_def)
  qed
  ultimately have "any_waiting g x \<longleftrightarrow> (\<exists>e. feeds g x e \<and> waiting g e \<and> end_dest g e)"
    using any_waiting_feeds [OF _ g(2)] feeds_any_waiting [OF _ g(2)] by blast
  with spec [OF g(2), of x] x show ?thesis by (simp add: stream_ok_def)
qed

section \<open>The frame dropper\<close>

text \<open>
  \<open>do_framedrop\<close> passes a frame on when its counter is 0 and drops it otherwise; here the
  new counter and whether the frame was passed on. The counter wraps at \<open>scale\<close>.
\<close>

record framedropper =
  fd_scale :: int
  fd_count :: int

definition framedrop_start :: framedropper where
  "framedrop_start = \<lparr>fd_scale = 0, fd_count = 0\<rparr>"

definition framedrop_set_scale :: "framedropper \<Rightarrow> int \<Rightarrow> framedropper option" where
  "framedrop_set_scale fdr n = (if n < 1 then None else Some (fdr\<lparr>fd_scale := n\<rparr>))"

definition do_framedrop :: "framedropper \<Rightarrow> framedropper \<times> bool" where
  "do_framedrop fdr =
     (let c = fd_count fdr + 1
      in (fdr\<lparr>fd_count := (if c = fd_scale fdr then 0 else c)\<rparr>, fd_count fdr = 0))"

definition framedrop_framerate :: "framedropper \<Rightarrow> int \<times> int \<Rightarrow> int \<times> int" where
  "framedrop_framerate fdr fr = (fst fr * fd_scale fdr, snd fr)"

fun framedrop_run :: "framedropper \<Rightarrow> nat \<Rightarrow> bool list" where
  "framedrop_run fdr 0 = []"
| "framedrop_run fdr (Suc n) = (let (fdr', b) = do_framedrop fdr in b # framedrop_run fdr' n)"

lemma framedrop_run_nth:
  assumes "0 < fd_scale fdr" "0 \<le> fd_count fdr" "fd_count fdr < fd_scale fdr" "i < n"
  shows "framedrop_run fdr n ! i = ((fd_count fdr + int i) mod fd_scale fdr = 0)"
  using assms
proof (induction n arbitrary: fdr i)
  case (Suc n)
  let ?d = "fst (do_framedrop fdr)"
  show ?case
  proof (cases i)
    case 0
    with Suc.prems show ?thesis by (simp add: do_framedrop_def Let_def)
  next
    case (Suc j)
    have "fd_scale ?d = fd_scale fdr" by (simp add: do_framedrop_def Let_def)
    moreover have "0 \<le> fd_count ?d" "fd_count ?d < fd_scale ?d"
      using Suc.prems(1-3) by (auto simp: do_framedrop_def Let_def)
    moreover have "(fd_count ?d + int j) mod fd_scale fdr = (fd_count fdr + int i) mod fd_scale fdr"
    proof (cases "fd_count fdr + 1 = fd_scale fdr")
      case True
      then have "fd_count ?d = 0" by (simp add: do_framedrop_def Let_def)
      moreover have "fd_count fdr + int i = int j + fd_scale fdr" using True Suc by simp
      ultimately show ?thesis by simp
    qed (simp add: do_framedrop_def Let_def Suc add.commute add.left_commute)
    ultimately show ?thesis
      using Suc.IH [of ?d j] Suc.prems Suc by (simp add: split_def Let_def)
  qed
qed simp

text \<open>
  A dropper configured with a scale passes on exactly every \<open>scale\<close>-th frame, beginning
  with the first.
\<close>

lemma framedrop_every_nth:
  assumes "framedrop_set_scale framedrop_start k = Some fdr" "i < n"
  shows "framedrop_run fdr n ! i \<longleftrightarrow> int i mod k = 0"
proof -
  have "0 < k" "fdr = \<lparr>fd_scale = k, fd_count = 0\<rparr>"
    using assms(1) by (auto simp: framedrop_set_scale_def framedrop_start_def split: if_splits)
  then show ?thesis using framedrop_run_nth [of fdr i n] assms(2) by simp
qed

theorem framedrop_every_nth_witness:
  "framedrop_run \<lparr>fd_scale = 3, fd_count = 0\<rparr> 8 ! 6 \<longleftrightarrow> int 6 mod 3 = 0"
  by (rule framedrop_every_nth [where k = 3])
     (simp_all add: framedrop_set_scale_def framedrop_start_def)

section \<open>Connecting\<close>

text \<open>
  A successful \<open>connect_to_stream\<close> gives a new destination, not waiting, of a stream
  that has the requested name and a format the caller accepts; it is the stream itself when
  one matches, and otherwise an RGB converter inserted behind a raw UYVY stream.
\<close>

lemma connect_to_stream_matches:
  assumes "connect_to_stream g name formats = (g', Some d)"
    and "\<forall>s\<in>set (stream_list g). s < next_stream g"
  shows "\<exists>s. st_name (streams g' s) = name \<and> format_match (st_format (streams g' s)) formats \<and>
    d \<in> set (st_dests (streams g' s)) \<and> dest_stream g' d = s \<and> \<not> waiting g' d \<and>
    (s \<in> set (stream_list g) \<or> (\<exists>c base. st_set_running (streams g' s) = Up c \<and>
       base \<in> set (stream_list g) \<and> dest_stream g' c = base \<and> c \<in> set (st_dests (streams g' base)) \<and>
       st_format (streams g' base) = FORMAT_RAW_UYVY \<and> st_name (streams g' base) = name))"
proof (cases "find (\<lambda>s. st_name (streams g s) = name \<and> format_match (st_format (streams g s)) formats)
             (stream_list g)")
  case (Some s)
  then have s: "s \<in> set (stream_list g)" "st_name (streams g s) = name"
    "format_match (st_format (streams g s)) formats"
    by (auto simp: find_Some_iff)
  have "g' = fst (new_dest g s)" "d = snd (new_dest g s)"
    using assms(1) Some by (auto simp: connect_to_stream_def Let_def split: prod.splits)
  with s show ?thesis by (intro exI [of _ s]) (auto simp: new_dest_def Let_def)
next
  case None
  then obtain s where f: "find (\<lambda>s. st_name (streams g s) = name \<and> st_format (streams g s) = FORMAT_RAW_UYVY \<and>
                     format_match FORMAT_RAW_RGB24 formats) (stream_list g) = Some s"
    using assms(1) by (auto simp: connect_to_stream_def split: option.splits)
  then have s: "s \<in> set (stream_list g)" "st_name (streams g s) = name"
    "st_format (streams g s) = FORMAT_RAW_UYVY" "format_match FORMAT_RAW_RGB24 formats"
    by (auto simp: find_Some_iff)
  have ne: "next_stream g \<noteq> s" using assms(2) s(1) by auto
  show ?thesis
    using assms(1) None f s ne
    by (intro exI [of _ "next_stream g"])
       (auto simp: connect_to_stream_def new_convert_stream_def new_dest_def Let_def)
qed

section \<open>A small graph\<close>

text \<open>A camera (stream 0), a frame dropper on it (stream 1, input destination 0), one listener (1).\<close>

definition demo_graph :: graph where
  "demo_graph = \<lparr>streams = (\<lambda>s. if s = 0 then \<lparr>st_name = ''cam'', st_format = FORMAT_JPEG, st_dests = [0], st_set_running = Source\<rparr>
       else if s = 1 then \<lparr>st_name = ''slow'', st_format = FORMAT_JPEG, st_dests = [1], st_set_running = Up 0\<rparr>
       else \<lparr>st_name = [], st_format = 0, st_dests = [], st_set_running = No_Fn\<rparr>),
     stream_list = [1, 0], dest_stream = (\<lambda>d. d), waiting = (\<lambda>_. False), running = (\<lambda>_. False),
     next_stream = 2, next_dest = 2\<rparr>"

theorem set_waiting_runs_sources_witness:
  "\<exists>g'. set_waiting demo_graph 1 True = Some (Inr g') \<and> streams g' = streams demo_graph \<and> waiting g' 1 = True \<and>
    (\<forall>s. stream_ok g' s) \<and>
    (\<forall>s. st_set_running (streams g' s) = Source \<longrightarrow>
       running g' s = (\<exists>e. feeds g' s e \<and> waiting g' e \<and> end_dest g' e))"
  by (rule set_waiting_runs_sources [where rank = "\<lambda>s. if s = 1 then 1 else 0" and B = 1])
     (auto simp: demo_graph_def wf_graph_def stream_ok_def any_waiting_def end_dest_def split: if_splits)

theorem connect_to_stream_matches_witness:
  "\<exists>g' d s. connect_to_stream demo_graph ''cam'' [FORMAT_MPEG4, FORMAT_JPEG] = (g', Some d) \<and>
    st_name (streams g' s) = ''cam'' \<and> d \<in> set (st_dests (streams g' s))"
proof -
  obtain g' where c: "connect_to_stream demo_graph ''cam'' [FORMAT_MPEG4, FORMAT_JPEG] = (g', Some 2)"
    by (simp add: connect_to_stream_def demo_graph_def format_match_def new_dest_def Let_def)
  have "\<forall>s\<in>set (stream_list demo_graph). s < next_stream demo_graph" by (simp add: demo_graph_def)
  from connect_to_stream_matches [OF c this] c show ?thesis by blast
qed

end
