(* ===== verification/Rtp_Media.thy ===== *)
theory Rtp_Media
  imports Frame
begin

text \<open>
  What the RTP packetisers share. A packetiser gives \<open>send_rtp_packet\<close> a vector of pieces,
  a timestamp and the marker bit, and stops at the first packet that cannot be sent. A
  \<open>sender\<close> is \<open>send_rtp_packet\<close> on some endpoint: it changes the state of the program and
  says whether the result was not negative. \<open>send_packets\<close> is the reference behaviour, a list
  of packets sent in order, to which the loops of the packetisers are shown equal.
\<close>

type_synonym packet = "byte list list \<times> u32 \<times> bool"

type_synonym 'w sender = "'w \<Rightarrow> packet \<Rightarrow> 'w \<times> bool"

definition payload :: "packet \<Rightarrow> byte list" where
  "payload p = concat (fst p)"

definition marker :: "packet \<Rightarrow> bool" where
  "marker p = snd (snd p)"

definition rtp_time :: "packet \<Rightarrow> u32" where
  "rtp_time p = fst (snd p)"

lemma packet_simps [simp]:
  "payload (v, t, b) = concat v" "marker (v, t, b) = b" "rtp_time (v, t, b) = t"
  by (simp_all add: payload_def marker_def rtp_time_def)

fun send_packets :: "'w sender \<Rightarrow> 'w \<Rightarrow> packet list \<Rightarrow> 'w \<times> bool" where
  "send_packets send w [] = (w, True)"
| "send_packets send w (p # ps) =
     (let (w', ok) = send w p in if ok then send_packets send w' ps else (w', False))"

text \<open>A sender that records what it is given, for reading off the packets.\<close>

definition collect :: "packet list sender" where
  "collect ps p = (ps @ [p], True)"

lemma send_packets_collect: "send_packets collect ps qs = (ps @ qs, True)"
  by (induction qs arbitrary: ps) (simp_all add: collect_def)

text \<open>Fragments of \<open>n\<close> bytes, the last one possibly shorter.\<close>

function chunks :: "nat \<Rightarrow> 'a list \<Rightarrow> 'a list list" where
  "chunks n xs =
     (if n = 0 \<or> length xs \<le> n then (if xs = [] then [] else [xs])
      else take n xs # chunks n (drop n xs))"
  by pat_completeness auto
termination
  by (relation "measure (\<lambda>(n, xs). length xs)") auto

declare chunks.simps [simp del]

lemma concat_chunks [simp]: "concat (chunks n xs) = xs"
proof (induction n xs rule: chunks.induct)
  case (1 n xs)
  then show ?case by (subst chunks.simps) auto
qed

lemma chunks_length: "0 < n \<Longrightarrow> c \<in> set (chunks n xs) \<Longrightarrow> 0 < length c \<and> length c \<le> n"
proof (induction n xs rule: chunks.induct)
  case (1 n xs)
  show ?case
  proof (cases "length xs \<le> n")
    case True
    with 1(2,3) show ?thesis by (subst (asm) chunks.simps) (auto split: if_splits)
  next
    case False
    with 1(3) have "c = take n xs \<or> c \<in> set (chunks n (drop n xs))"
      using 1(2) by (subst (asm) chunks.simps) auto
    with 1(1,2) False show ?thesis by auto
  qed
qed

lemma chunks_Nil [simp]: "chunks n [] = []"
  by (subst chunks.simps) simp

lemma chunks_eq_Nil [simp]: "chunks n xs = [] \<longleftrightarrow> xs = []"
  by (metis chunks_Nil concat.simps(1) concat_chunks)

lemma chunks_short: "xs \<noteq> [] \<Longrightarrow> length xs \<le> n \<Longrightarrow> chunks n xs = [xs]"
  by (subst chunks.simps) simp

lemma chunks_long: "0 < n \<Longrightarrow> n < length xs \<Longrightarrow> chunks n xs = take n xs # chunks n (drop n xs)"
  by (subst chunks.simps) simp

text \<open>All fragments but the last are full.\<close>

lemma chunks_full:
  "0 < n \<Longrightarrow> i + 1 < length (chunks n xs) \<Longrightarrow> length (chunks n xs ! i) = n"
proof (induction n xs arbitrary: i rule: chunks.induct)
  case (1 n xs)
  show ?case
  proof (cases "length xs \<le> n")
    case True
    with 1(2,3) show ?thesis by (subst (asm) chunks.simps) (auto split: if_splits)
  next
    case False
    then have c: "chunks n xs = take n xs # chunks n (drop n xs)" using 1(2) by (simp add: chunks_long)
    with 1 False show ?thesis by (cases i) auto
  qed
qed

text \<open>Only the last packet of a frame has the marker.\<close>

definition last_marked :: "packet list \<Rightarrow> bool" where
  "last_marked ps \<longleftrightarrow> ps \<noteq> [] \<and> (\<forall>i < length ps. marker (ps ! i) \<longleftrightarrow> i + 1 = length ps)"

lemma last_marked_Cons: "ps \<noteq> [] \<Longrightarrow> last_marked (p # ps) \<longleftrightarrow> \<not> marker p \<and> last_marked ps"
proof -
  assume ne: "ps \<noteq> []"
  have "(\<forall>i < length (p # ps). marker ((p # ps) ! i) \<longleftrightarrow> i + 1 = length (p # ps)) \<longleftrightarrow>
      \<not> marker p \<and> (\<forall>i < length ps. marker (ps ! i) \<longleftrightarrow> i + 1 = length ps)"
    using ne by (auto simp: All_less_Suc2 nth_Cons')
  with ne show ?thesis by (simp add: last_marked_def)
qed

lemma last_marked_single [simp]: "last_marked [p] \<longleftrightarrow> marker p"
  by (simp add: last_marked_def)

lemma last_marked_append: "\<forall>p\<in>set ps. \<not> marker p \<Longrightarrow> last_marked qs \<Longrightarrow> last_marked (ps @ qs)"
proof (induction ps)
  case (Cons p ps)
  then have "ps @ qs \<noteq> []" by (auto simp: last_marked_def)
  with Cons show ?case by (simp add: last_marked_Cons)
qed simp

section \<open>Bit fields and start codes\<close>

text \<open>
  \<open>get_field\<close> of \<open>rtp-mpeg4.c\<close> and \<open>rtp-mpv.c\<close>: \<open>bits\<close> bits from bit offset \<open>off\<close> on, a byte
  at a time where the offset allows it. The value and the new offset.
\<close>

function get_field_loop :: "byte list \<Rightarrow> nat \<Rightarrow> nat \<Rightarrow> nat \<Rightarrow> u32 \<Rightarrow> (u32 \<times> nat) cres" where
  "get_field_loop d bits i off v =
     (if i < bits then
        bindE (rd d (off div 8)) (\<lambda>b.
          if 8 \<le> bits - i \<and> off mod 8 = 0
          then get_field_loop d bits (i + 8) (off + 8) (push_bit 8 v OR ucast b)
          else get_field_loop d bits (i + 1) (off + 1)
                 (push_bit 1 v OR (ucast (drop_bit (7 - off mod 8) b) AND 1)))
      else Inr (v, off))"
  by pat_completeness auto
termination
  by (relation "measure (\<lambda>(d, bits, i, off, v). bits - i)") auto

declare get_field_loop.simps [simp del]

definition get_field :: "byte list \<Rightarrow> nat \<Rightarrow> nat \<Rightarrow> (u32 \<times> nat) cres" where
  "get_field d bits off = get_field_loop d bits 0 off 0"

lemma get_field_loop_total:
  "off + (bits - i) \<le> 8 * length d \<Longrightarrow> \<exists>v'. get_field_loop d bits i off v = Inr (v', off + (bits - i))"
proof (induction d bits i off v rule: get_field_loop.induct)
  case (1 d bits i off v)
  show ?case
  proof (cases "i < bits")
    case False
    then show ?thesis by (subst get_field_loop.simps) simp
  next
    case True
    with "1.prems" have in_d: "off div 8 < length d" by linarith
    show ?thesis
    proof (cases "8 \<le> bits - i \<and> off mod 8 = 0")
      case byte: True
      with "1.IH"(1) [OF True rd_in [OF in_d] byte] "1.prems" obtain v' where
        "get_field_loop d bits (i + 8) (off + 8) (push_bit 8 v OR ucast (d ! (off div 8)))
          = Inr (v', off + 8 + (bits - (i + 8)))" by auto
      moreover have "off + 8 + (bits - (i + 8)) = off + (bits - i)" using byte by arith
      ultimately show ?thesis
        using True byte in_d by (subst get_field_loop.simps) simp
    next
      case bit: False
      have "off + 1 + (bits - (i + 1)) \<le> 8 * length d" using "1.prems" True by arith
      with "1.IH"(2) [OF True rd_in [OF in_d] bit] obtain v' where
        "get_field_loop d bits (i + 1) (off + 1)
           (push_bit 1 v OR (ucast (drop_bit (7 - off mod 8) (d ! (off div 8))) AND 1))
          = Inr (v', off + 1 + (bits - (i + 1)))" by blast
      moreover have "off + 1 + (bits - (i + 1)) = off + (bits - i)" using True by arith
      ultimately show ?thesis
        using True bit in_d by (subst get_field_loop.simps) (auto simp del: One_nat_def)
    qed
  qed
qed

lemma get_field_total: "off + bits \<le> 8 * length d \<Longrightarrow> \<exists>v. get_field d bits off = Inr (v, off + bits)"
  using get_field_loop_total [of off bits 0 d 0] by (simp add: get_field_def)

text \<open>
  \<open>find_next_code\<close>: the offset of the next start code after offset 0 among the first \<open>len\<close>
  bytes, 0 if there is none.
\<close>

fun find_code_from :: "byte list \<Rightarrow> nat \<Rightarrow> nat" where
  "find_code_from (a # b # c # r) i =
     (if a = 0 \<and> b = 0 \<and> c = 1 then i else find_code_from (b # c # r) (i + 1))"
| "find_code_from r i = 0"

definition find_next_code :: "byte list \<Rightarrow> nat" where
  "find_next_code d = find_code_from (tl d) 1"

lemma find_code_from_bounds:
  "find_code_from d i = k \<Longrightarrow> k \<noteq> 0 \<Longrightarrow>
     i \<le> k \<and> k - i + 3 \<le> length d \<and> take 3 (drop (k - i) d) = [0, 0, 1]"
proof (induction d i rule: find_code_from.induct)
  case (1 a b c r i)
  show ?case
  proof (cases "a = 0 \<and> b = 0 \<and> c = 1")
    case True
    with 1 show ?thesis by auto
  next
    case False
    with 1 have ih: "i + 1 \<le> k \<and> k - (i + 1) + 3 \<le> length (b # c # r) \<and>
        take 3 (drop (k - (i + 1)) (b # c # r)) = [0, 0, 1]" by auto
    then have "k - i = Suc (k - (i + 1))" by arith
    with ih show ?thesis by auto
  qed
qed auto

lemma find_next_code_bounds:
  "find_next_code d = k \<Longrightarrow> k \<noteq> 0 \<Longrightarrow> 0 < k \<and> k + 3 \<le> length d \<and> take 3 (drop k d) = [0, 0, 1]"
  using find_code_from_bounds [of "tl d" 1 k]
  by (cases d) (auto simp: find_next_code_def drop_Cons' split: if_splits)

end
