(* ===== verification/Rtp_H264.thy ===== *)
theory Rtp_H264
  imports Rtp_Media
begin

text \<open>
  \<open>rtp-h264.c\<close> and \<open>rtp-h263.c\<close>: one NAL unit per frame, sent whole when it fits and as
  fragmentation units (FU-A) otherwise; H.263 pictures cut behind their two zero bytes.
\<close>

section \<open>H.264\<close>

record rtp_h264 =
  h264_d :: "byte list"
  h264_init_done :: bool
  h264_ts_incr :: u32
  h264_timestamp :: u32

text \<open>
  \<open>h264_process_frame\<close> on a frame whose data is the list \<open>d\<close>: it wants a start code of three
  or four bytes, and keeps the NAL unit behind it.
\<close>

definition h264_take :: "rtp_h264 \<Rightarrow> byte list \<Rightarrow> u32 \<Rightarrow> nat \<Rightarrow> rtp_h264 \<times> bool" where
  "h264_take out d ts i =
     (out\<lparr>h264_d := drop (i + 1) d,
          h264_timestamp := (if ts \<noteq> 0 then ts else h264_timestamp out + h264_ts_incr out)\<rparr>,
      h264_init_done out)"

definition h264_process_frame :: "rtp_h264 \<Rightarrow> byte list \<Rightarrow> u32 \<Rightarrow> (rtp_h264 \<times> bool) cres" where
  "h264_process_frame out d ts =
     bindE (rd d 0) (\<lambda>b0. bindE (if b0 \<noteq> 0 then Inr 1 else rd d 1) (\<lambda>b1.
       if b0 \<noteq> 0 \<or> b1 \<noteq> 0 then Inr (out, False)
       else bindE (rd d 2) (\<lambda>b2.
         if b2 = 1 then Inr (h264_take out d ts 2)
         else if b2 \<noteq> 0 then Inr (out, False)
         else bindE (rd d 3) (\<lambda>b3.
           if b3 = 1 then Inr (h264_take out d ts 3) else Inr (out, False)))))"

partial_function (option) h264_loop ::
  "'w sender \<Rightarrow> 'w \<Rightarrow> byte list \<Rightarrow> u32 \<Rightarrow> nat \<Rightarrow> byte \<Rightarrow> byte \<Rightarrow> nat \<Rightarrow> ('w \<times> bool) option" where
  "h264_loop send w d ts mx v0 v1 i =
     (if i < length d then
        (let rest = length d - i;
             plen = (if mx - 2 < rest then mx - 2 else rest);
             v1 = (if mx - 2 < rest then v1 else v1 OR 0x40);
             (w', ok) = send w ([[v0, v1], take plen (drop i d)], ts, plen + i = length d)
         in if ok then h264_loop send w' d ts mx v0 (v1 AND NOT 0x80) (i + plen)
            else Some (w', False))
      else Some (w, True))"

definition h264_send :: "'w sender \<Rightarrow> 'w \<Rightarrow> nat \<Rightarrow> rtp_h264 \<Rightarrow> ('w \<times> bool) option" where
  "h264_send send w mx out =
     (let d = h264_d out in
      if mx < length d
      then h264_loop send w d (h264_timestamp out) mx ((d ! 0 AND 0xE0) OR 28) ((d ! 0 AND 0x1F) OR 0x80) 1
      else Some (send w ([d], h264_timestamp out, True)))"

definition h264_get_sdp :: "int \<Rightarrow> int \<Rightarrow> string" where
  "h264_get_sdp pt port =
     ''m=video '' @ dec_int port @ '' RTP/AVP '' @ dec_int pt @ crlf @
     ''a=rtpmap:'' @ dec_int pt @ '' H264/90000'' @ crlf @
     ''a=fmtp:'' @ dec_int pt @ '' packetization-mode=1'' @ crlf"

definition new_rtp_media_h264 :: "int \<Rightarrow> int \<Rightarrow> rtp_h264 cres" where
  "new_rtp_media_h264 fincr fbase =
     (if fbase = 0 then Inl Fault
      else Inr \<lparr>h264_d = [], h264_init_done = True,
                h264_ts_incr = word_of_int (90000 * fincr div fbase), h264_timestamp = 0\<rparr>)"

subsection \<open>The packets\<close>

fun fu_packets :: "byte \<Rightarrow> byte \<Rightarrow> u32 \<Rightarrow> byte list list \<Rightarrow> packet list" where
  "fu_packets v0 v1 ts [] = []"
| "fu_packets v0 v1 ts (c # cs) =
     ([[v0, if cs = [] then v1 OR 0x40 else v1], c], ts, cs = []) #
     fu_packets v0 (v1 AND NOT 0x80) ts cs"

definition h264_packets :: "nat \<Rightarrow> rtp_h264 \<Rightarrow> packet list" where
  "h264_packets mx out =
     (let d = h264_d out in
      if mx < length d
      then fu_packets ((d ! 0 AND 0xE0) OR 28) ((d ! 0 AND 0x1F) OR 0x80) (h264_timestamp out)
             (chunks (mx - 2) (drop 1 d))
      else [([d], h264_timestamp out, True)])"

lemma h264_loop_packets:
  assumes "2 < mx"
  shows "h264_loop send w d ts mx v0 v1 i =
    Some (send_packets send w (fu_packets v0 v1 ts (chunks (mx - 2) (drop i d))))"
  using assms
proof (induction "length d - i" arbitrary: w v1 i rule: less_induct)
  case less
  show ?case
  proof (cases "i < length d")
    case False
    then show ?thesis by (subst h264_loop.simps) simp
  next
    case True
    define plen where "plen = (if mx - 2 < length d - i then mx - 2 else length d - i)"
    have "length d - (i + plen) < length d - i" using True less.prems by (auto simp: plen_def)
    note ih = less.hyps [OF this less.prems]
    show ?thesis
    proof (cases "mx - 2 < length d - i")
      case long: True
      have c: "chunks (mx - 2) (drop i d) = take plen (drop i d) # chunks (mx - 2) (drop (i + plen) d)"
        using long less.prems by (simp add: chunks_long plen_def add.commute)
      have ne: "drop (i + plen) d \<noteq> []" "plen + i \<noteq> length d" using long by (auto simp: plen_def)
      show ?thesis
      proof -
        have pl: "plen = mx - 2" using long by (simp add: plen_def)
        show ?thesis
          using True long ih c ne unfolding pl
          by (subst h264_loop.simps) (simp add: Let_def split: prod.split)
      qed
    next
      case short: False
      have c: "chunks (mx - 2) (drop i d) = [drop i d]"
        using short True by (intro chunks_short) simp_all
      show ?thesis
      proof -
        have stop: "h264_loop send w' d ts mx v0 v (length d) = Some (w', True)" for w' v
          by (subst h264_loop.simps) simp
        show ?thesis
          using True short c stop
          by (subst h264_loop.simps) (simp add: Let_def split: prod.split)
      qed
    qed
  qed
qed

lemma h264_send_packets:
  "2 < mx \<Longrightarrow> h264_send send w mx out = Some (send_packets send w (h264_packets mx out))"
  by (simp add: h264_send_def h264_packets_def Let_def h264_loop_packets split: prod.split)

lemma byte_clear_twice: "(v AND NOT 0x80) AND NOT 0x80 = (v AND NOT 0x80 :: byte)"
  by (simp add: and.assoc)

lemma length_fu_packets [simp]: "length (fu_packets v0 v1 ts cs) = length cs"
  by (induction cs arbitrary: v1) auto

definition fu_header :: "byte \<Rightarrow> bool \<Rightarrow> bool \<Rightarrow> byte" where
  "fu_header v1 fst_frag lst_frag =
     (let u = (if fst_frag then v1 else v1 AND NOT 0x80) in if lst_frag then u OR 0x40 else u)"

lemma nth_fu_packets:
  "i < length cs \<Longrightarrow> fu_packets v0 v1 ts cs ! i =
     ([[v0, fu_header v1 (i = 0) (Suc i = length cs)], cs ! i], ts, Suc i = length cs)"
proof (induction cs arbitrary: v1 i)
  case (Cons c cs)
  show ?case
  proof (cases i)
    case 0
    then show ?thesis by (auto simp: fu_header_def Let_def)
  next
    case (Suc j)
    with Cons show ?thesis by (simp add: fu_header_def Let_def byte_clear_twice)
  qed
qed simp

text \<open>
  The receiver of RFC 6184: a packet with a NAL unit type other than 28 is a whole unit; a
  run of FU-A packets must agree in indicator and type, have the start bit on the first
  only and the end bit on the last only, and gives the header byte rebuilt from indicator
  and type, followed by the fragments.
\<close>

definition fu_run :: "byte list list \<Rightarrow> bool" where
  "fu_run ps \<longleftrightarrow> (\<forall>i < length ps. 2 \<le> length (ps ! i) \<and> ps ! i ! 0 = hd ps ! 0 \<and>
     ps ! i ! 1 AND 0x1F = hd ps ! 1 AND 0x1F \<and>
     (ps ! i ! 1 AND 0x80 \<noteq> 0 \<longleftrightarrow> i = 0) \<and> (ps ! i ! 1 AND 0x40 \<noteq> 0 \<longleftrightarrow> Suc i = length ps))"

definition h264_depacketise :: "byte list list \<Rightarrow> byte list option" where
  "h264_depacketise ps =
     (case ps of
        (b # r) # qs \<Rightarrow>
          if b AND 0x1F \<noteq> 28 then (if qs = [] then Some (b # r) else None)
          else if fu_run ps
          then Some (((b AND 0xE0) OR (hd ps ! 1 AND 0x1F)) # concat (map (drop 2) ps)) else None
      | _ \<Rightarrow> None)"

lemma fu_bits:
  fixes d0 :: byte
  defines "v0 \<equiv> (d0 AND 0xE0) OR 28"
  defines "v1 \<equiv> (d0 AND 0x1F) OR 0x80"
  shows "v0 AND 0x1F = 28" "(v0 AND 0xE0) OR (fu_header v1 f l AND 0x1F) = d0"
    "fu_header v1 f l AND 0x1F = d0 AND 0x1F"
    "bit (fu_header v1 f l) 7 = f" "bit (fu_header v1 f l) 6 = l"
proof -
  have m: "fu_header v1 f l AND 0x1F = d0 AND 0x1F"
    by (rule byte_eqI) (auto simp: fu_header_def v1_def Let_def bit_simps simp del: bit_0)
  then show "fu_header v1 f l AND 0x1F = d0 AND 0x1F" .
  show "v0 AND 0x1F = 28"
    by (rule byte_eqI) (auto simp: v0_def bit_simps simp del: bit_0)
  show "(v0 AND 0xE0) OR (fu_header v1 f l AND 0x1F) = d0"
    unfolding m by (rule byte_eqI) (auto simp: v0_def bit_simps simp del: bit_0)
  show "bit (fu_header v1 f l) 7 = f" "bit (fu_header v1 f l) 6 = l"
    by (auto simp: fu_header_def v1_def Let_def bit_simps)
qed

lemma and_bit_ne_0: "(v AND 0x80 \<noteq> (0 :: byte)) = bit v 7" "(v AND 0x40 \<noteq> (0 :: byte)) = bit v 6"
proof -
  have "v AND 0x80 = of_bool (bit v 7) * 0x80"
    by (rule byte_eqI) (auto simp: bit_simps simp del: bit_0)
  then show "(v AND 0x80 \<noteq> (0 :: byte)) = bit v 7" by simp
  have "v AND 0x40 = of_bool (bit v 6) * 0x40"
    by (rule byte_eqI) (auto simp: bit_simps simp del: bit_0)
  then show "(v AND 0x40 \<noteq> (0 :: byte)) = bit v 6" by simp
qed

lemma fu_packets_last_marked: "cs \<noteq> [] \<Longrightarrow> last_marked (fu_packets v0 v1 ts cs)"
  by (auto simp: last_marked_def nth_fu_packets neq_Nil_conv)

lemma concat_fu_packets: "concat (map (drop 2 \<circ> payload) (fu_packets v0 v1 ts cs)) = concat cs"
  by (induction cs arbitrary: v1) (auto simp: payload_def)

lemma fu_packets_depacketise:
  fixes d0 :: byte and ts :: u32
  assumes "cs \<noteq> []"
  defines "ps \<equiv> map payload (fu_packets ((d0 AND 0xE0) OR 28) ((d0 AND 0x1F) OR 0x80) ts cs)"
  shows "h264_depacketise ps = Some (d0 # concat cs)"
proof -
  let ?v0 = "(d0 AND 0xE0) OR 28" and ?v1 = "(d0 AND 0x1F) OR 0x80"
  have len: "length ps = length cs" by (simp add: ps_def)
  have nth: "ps ! i = [?v0, fu_header ?v1 (i = 0) (Suc i = length cs)] @ cs ! i" if "i < length cs" for i
    using that by (simp add: ps_def nth_fu_packets)
  have 0: "0 < length cs" using assms(1) by simp
  have hd: "hd ps = ps ! 0" using 0 len by (cases ps) auto
  have "fu_run ps"
    unfolding fu_run_def hd len using 0
    by (intro allI impI) (simp add: nth fu_bits and_bit_ne_0)
  moreover have "concat (map (drop 2) ps) = concat cs"
    using concat_fu_packets [of ?v0 ?v1 ts cs] by (simp add: ps_def comp_def)
  moreover obtain r qs where ps: "ps = (?v0 # r) # qs"
    using nth [OF 0] 0 len by (cases ps) auto
  moreover have "hd ps ! 1 AND 0x1F = d0 AND 0x1F"
    using nth [OF 0] 0 by (simp add: hd fu_bits)
  moreover have "(?v0 AND 0xE0) OR (d0 AND 0x1F) = d0"
    using fu_bits(2,3) [of d0 True True] by simp
  ultimately show ?thesis using fu_bits(1) [of d0] by (simp add: h264_depacketise_def)
qed

text \<open>
  C32. Sending an H.264 frame always ends, and what it sends is a list of packets from which
  a receiver that follows RFC 6184 rebuilds the NAL unit exactly: one packet when the unit
  fits, otherwise fragmentation units with start and end bits in the right places. No packet
  is larger than the limit of the endpoint, the marker is on the last packet only, and all
  carry the timestamp of the frame.
\<close>

theorem h264_send_reassembles:
  assumes "2 < mx" "h264_d out \<noteq> []" "hd (h264_d out) AND 0x1F \<noteq> 28"
  shows "\<exists>ps. h264_send collect [] mx out = Some (ps, True) \<and>
    h264_depacketise (map payload ps) = Some (h264_d out) \<and> last_marked ps \<and>
    (\<forall>p\<in>set ps. length (payload p) \<le> mx \<and> rtp_time p = h264_timestamp out)"
proof (intro exI conjI)
  let ?d = "h264_d out" and ?ts = "h264_timestamp out"
  let ?ps = "h264_packets mx out"
  show "h264_send collect [] mx out = Some (?ps, True)"
    using h264_send_packets [OF assms(1), of collect "[]" out] by (simp add: send_packets_collect)
  obtain b r where d: "?d = b # r" using assms(2) by (cases ?d) auto
  have "h264_depacketise (map payload ?ps) = Some ?d \<and> last_marked ?ps \<and>
      (\<forall>p\<in>set ?ps. length (payload p) \<le> mx \<and> rtp_time p = ?ts)"
  proof (cases "mx < length ?d")
    case False
    then show ?thesis using assms(3) d by (simp add: h264_packets_def h264_depacketise_def)
  next
    case True
    let ?cs = "chunks (mx - 2) r"
    have ps: "?ps = fu_packets ((b AND 0xE0) OR 28) ((b AND 0x1F) OR 0x80) ?ts ?cs"
      using True d by (simp add: h264_packets_def)
    have ne: "?cs \<noteq> []" using True d assms(1) by auto
    have "length (payload p) \<le> mx \<and> rtp_time p = ?ts" if "p \<in> set ?ps" for p
    proof -
      from that ps obtain i where i: "i < length ?cs" "p = ?ps ! i"
        by (auto simp: in_set_conv_nth)
      have "?cs ! i \<in> set ?cs" "0 < mx - 2" using i assms(1) by simp_all
      from chunks_length [OF this(2,1)] have "length (?cs ! i) + 2 \<le> mx" using assms(1) by linarith
      with i show ?thesis by (simp add: ps nth_fu_packets)
    qed
    with fu_packets_depacketise [OF ne, of b ?ts] fu_packets_last_marked [OF ne] d show ?thesis
      by (simp add: ps)
  qed
  then show "h264_depacketise (map payload ?ps) = Some ?d" "last_marked ?ps"
    "\<forall>p\<in>set ?ps. length (payload p) \<le> mx \<and> rtp_time p = ?ts" by blast+
qed

theorem h264_send_reassembles_witness:
  "\<exists>ps. h264_send collect [] 4 \<lparr>h264_d = [0x65, 1, 2, 3, 4, 5], h264_init_done = True,
       h264_ts_incr = 0, h264_timestamp = 9\<rparr> = Some (ps, True) \<and>
    h264_depacketise (map payload ps) = Some [0x65, 1, 2, 3, 4, 5] \<and> last_marked ps \<and>
    (\<forall>p\<in>set ps. length (payload p) \<le> 4 \<and> rtp_time p = 9)"
proof -
  let ?o = "\<lparr>h264_d = [0x65, 1, 2, 3, 4, 5], h264_init_done = True, h264_ts_incr = 0, h264_timestamp = 9\<rparr>"
  have "hd (h264_d ?o) AND 0x1F \<noteq> 28" by code_simp
  from h264_send_reassembles [OF _ _ this, of 4] show ?thesis by simp
qed

section \<open>H.263\<close>

record rtp_h263 =
  h263_d :: "byte list"
  h263_init_done :: bool
  h263_ts_incr :: u32
  h263_timestamp :: u32

definition h263_process_frame :: "rtp_h263 \<Rightarrow> byte list \<Rightarrow> rtp_h263 \<times> bool" where
  "h263_process_frame out d =
     (out\<lparr>h263_d := drop 2 d, h263_timestamp := h263_timestamp out + h263_ts_incr out\<rparr>,
      h263_init_done out)"

partial_function (option) h263_loop ::
  "'w sender \<Rightarrow> 'w \<Rightarrow> byte list \<Rightarrow> u32 \<Rightarrow> nat \<Rightarrow> byte \<Rightarrow> nat \<Rightarrow> ('w \<times> bool) option" where
  "h263_loop send w d ts mx v0 i =
     (if i < length d then
        (let rest = length d - i;
             plen = (if mx < rest then mx else rest);
             (w', ok) = send w ([[v0, 0], take plen (drop i d)], ts, plen + i = length d)
         in if ok then h263_loop send w' d ts mx 0 (i + plen) else Some (w', False))
      else Some (w, True))"

definition h263_send :: "'w sender \<Rightarrow> 'w \<Rightarrow> nat \<Rightarrow> rtp_h263 \<Rightarrow> ('w \<times> bool) option" where
  "h263_send send w mx out = h263_loop send w (h263_d out) (h263_timestamp out) mx 0x04 0"

definition h263_get_sdp :: "int \<Rightarrow> int \<Rightarrow> string" where
  "h263_get_sdp pt port =
     ''m=video '' @ dec_int port @ '' RTP/AVP '' @ dec_int pt @ crlf @
     ''a=rtpmap:'' @ dec_int pt @ '' H263-1998/90000'' @ crlf"

definition new_rtp_media_h263 :: "int \<Rightarrow> int \<Rightarrow> rtp_h263 cres" where
  "new_rtp_media_h263 fincr fbase =
     (if fbase = 0 then Inl Fault
      else Inr \<lparr>h263_d = [], h263_init_done = True,
                h263_ts_incr = word_of_int (90000 * fincr div fbase), h263_timestamp = 0\<rparr>)"

fun h263_packets :: "byte \<Rightarrow> u32 \<Rightarrow> byte list list \<Rightarrow> packet list" where
  "h263_packets v0 ts [] = []"
| "h263_packets v0 ts (c # cs) = ([[v0, 0], c], ts, cs = []) # h263_packets 0 ts cs"

lemma h263_loop_packets:
  assumes "0 < mx"
  shows "h263_loop send w d ts mx v0 i =
    Some (send_packets send w (h263_packets v0 ts (chunks mx (drop i d))))"
  using assms
proof (induction "length d - i" arbitrary: w v0 i rule: less_induct)
  case less
  show ?case
  proof (cases "i < length d")
    case False
    then show ?thesis by (subst h263_loop.simps) simp
  next
    case True
    show ?thesis
    proof (cases "mx < length d - i")
      case long: True
      have "length d - (i + mx) < length d - i" using True less.prems by auto
      note ih = less.hyps [OF this less.prems]
      have "chunks mx (drop i d) = take mx (drop i d) # chunks mx (drop (i + mx) d)"
        using long less.prems by (simp add: chunks_long add.commute)
      moreover have "drop (i + mx) d \<noteq> []" "mx + i \<noteq> length d" using long by auto
      ultimately show ?thesis
        using True long ih by (subst h263_loop.simps) (simp add: Let_def split: prod.split)
    next
      case short: False
      have "chunks mx (drop i d) = [drop i d]"
        using short True by (intro chunks_short) simp_all
      moreover have "h263_loop send w' d ts mx v (length d) = Some (w', True)" for w' v
        by (subst h263_loop.simps) simp
      ultimately show ?thesis
        using True short by (subst h263_loop.simps) (simp add: Let_def split: prod.split)
    qed
  qed
qed

lemma h263_packets_facts:
  "concat (map (drop 2 \<circ> payload) (h263_packets v0 ts cs)) = concat cs"
  "cs \<noteq> [] \<Longrightarrow> last_marked (h263_packets v0 ts cs)"
  "p \<in> set (h263_packets v0 ts cs) \<Longrightarrow> \<exists>c\<in>set cs. \<exists>b. payload p = [b, 0] @ c"
proof -
  show "concat (map (drop 2 \<circ> payload) (h263_packets v0 ts cs)) = concat cs"
    by (induction cs arbitrary: v0) (auto simp: payload_def)
  show "cs \<noteq> [] \<Longrightarrow> last_marked (h263_packets v0 ts cs)"
  proof (induction cs arbitrary: v0)
    case (Cons c cs)
    then show ?case by (cases cs) (auto simp: last_marked_Cons)
  qed simp
  show "p \<in> set (h263_packets v0 ts cs) \<Longrightarrow> \<exists>c\<in>set cs. \<exists>b. payload p = [b, 0] @ c"
    by (induction cs arbitrary: v0) (auto simp: payload_def)
qed

text \<open>
  Sending an H.263 picture always ends; the fragments behind the two header bytes are the
  picture, the P bit is in the first packet only, the marker on the last only. The limit of
  the endpoint is applied to the fragment without its header, so packets may exceed it by
  two bytes.
\<close>

lemma h263_send_fragments:
  assumes "0 < mx" "h263_d out \<noteq> []"
  shows "\<exists>ps. h263_send collect [] mx out = Some (ps, True) \<and>
    concat (map (drop 2 \<circ> payload) ps) = h263_d out \<and> last_marked ps \<and>
    (\<forall>i < length ps. hd (payload (ps ! i)) = (if i = 0 then 4 else 0)) \<and>
    (\<forall>p\<in>set ps. length (payload p) \<le> mx + 2)"
proof (intro exI conjI)
  let ?cs = "chunks mx (h263_d out)"
  let ?ps = "h263_packets 0x04 (h263_timestamp out) ?cs"
  show "h263_send collect [] mx out = Some (?ps, True)"
    by (simp add: h263_send_def h263_loop_packets [OF assms(1)] send_packets_collect)
  show "concat (map (drop 2 \<circ> payload) ?ps) = h263_d out" "last_marked ?ps"
    using h263_packets_facts assms(2) by simp_all
  have *: "hd (payload (h263_packets v ts cs ! i)) = (if i = 0 then v else 0)"
    if "i < length (h263_packets v ts cs)" for v ts cs i
    using that
  proof (induction cs arbitrary: v i)
    case (Cons c cs)
    then show ?case by (cases i) (auto simp: payload_def)
  qed simp
  then show "\<forall>i < length ?ps. hd (payload (?ps ! i)) = (if i = 0 then 4 else 0)" by auto
  show "\<forall>p\<in>set ?ps. length (payload p) \<le> mx + 2"
    using h263_packets_facts(3) chunks_length [OF assms(1)] by fastforce
qed

theorem h263_send_fragments_witness:
  "\<exists>ps. h263_send collect [] 3 \<lparr>h263_d = [1, 2, 3, 4], h263_init_done = True, h263_ts_incr = 0,
       h263_timestamp = 9\<rparr> = Some (ps, True) \<and>
    concat (map (drop 2 \<circ> payload) ps) = [1, 2, 3, 4] \<and> last_marked ps \<and>
    (\<forall>i < length ps. hd (payload (ps ! i)) = (if i = 0 then 4 else 0)) \<and>
    (\<forall>p\<in>set ps. length (payload p) \<le> 3 + 2)"
  using h263_send_fragments [of 3 "\<lparr>h263_d = [1, 2, 3, 4], h263_init_done = True, h263_ts_incr = 0,
       h263_timestamp = 9\<rparr>"] by simp

end
