(* ===== verification/Rtp_Audio.thy ===== *)
theory Rtp_Audio
  imports Rtp_Media
begin

text \<open>
  \<open>rtp-rawaudio.c\<close> and \<open>rtp-mpa.c\<close>: PCM, ADPCM and A-law audio, cut between sample frames,
  and MPEG audio, each fragment behind its offset in the frame.
\<close>

section \<open>Raw audio\<close>

record rtp_rawaudio =
  rawaudio_data :: "byte list"
  ra_format :: int
  ra_sampsize :: nat
  ra_channels :: nat
  ra_rate :: nat
  ra_timestamp :: u32

definition rawaudio_process_frame :: "rtp_rawaudio \<Rightarrow> byte list \<Rightarrow> u32 \<Rightarrow> rtp_rawaudio \<times> bool" where
  "rawaudio_process_frame out d ts =
     (out\<lparr>ra_timestamp := (if ts \<noteq> 0 then ts else ra_timestamp out), rawaudio_data := d\<rparr>, True)"

text \<open>When a sample frame does not fit into a packet, the loop never advances.\<close>

partial_function (option) rawaudio_loop ::
  "'w sender \<Rightarrow> 'w \<Rightarrow> rtp_rawaudio \<Rightarrow> nat \<Rightarrow> nat \<Rightarrow> ('w \<times> bool) option" where
  "rawaudio_loop send w out mx i =
     (let d = rawaudio_data out in
      if i < length d then
        (let rest = length d - i;
             plen = (if mx < rest then mx - mx mod (ra_channels out * ra_sampsize out) else rest);
             ts = ra_timestamp out + of_nat (i div ra_channels out div ra_sampsize out);
             (w', ok) = send w ([take plen (drop i d)], ts, False)
         in if ok then rawaudio_loop send w' out mx (i + plen) else Some (w', False))
      else Some (w, True))"

definition rawaudio_send :: "'w sender \<Rightarrow> 'w \<Rightarrow> nat \<Rightarrow> rtp_rawaudio \<Rightarrow> ('w \<times> bool) option" where
  "rawaudio_send send w mx out = rawaudio_loop send w out mx 0"

definition rawaudio_get_payload :: "rtp_rawaudio \<Rightarrow> int \<Rightarrow> int" where
  "rawaudio_get_payload out pt =
     (if ra_format out = FORMAT_PCM then
        if ra_rate out = 44100 \<and> ra_channels out = 2 then 10
        else if ra_rate out = 44100 \<and> ra_channels out = 1 then 11 else pt
      else if ra_format out = FORMAT_ADPCM then
        if ra_channels out = 1 \<and> ra_rate out = 8000 then 5
        else if ra_channels out = 1 \<and> ra_rate out = 16000 then 6
        else if ra_channels out = 1 \<and> ra_rate out = 11025 then 16
        else if ra_channels out = 1 \<and> ra_rate out = 22050 then 17 else pt
      else if ra_format out = FORMAT_ALAW then
        if ra_rate out = 8000 \<and> ra_channels out = 1 then 8 else pt
      else -1)"

definition audio_sdp :: "int \<Rightarrow> int \<Rightarrow> string" where
  "audio_sdp port pt = ''m=audio '' @ dec_int port @ '' RTP/AVP '' @ dec_int pt @ crlf"

definition audio_sdp_map :: "int \<Rightarrow> int \<Rightarrow> string \<Rightarrow> rtp_rawaudio \<Rightarrow> string" where
  "audio_sdp_map port pt enc out =
     audio_sdp port pt @ ''a=rtpmap:'' @ dec_int pt @ '' '' @ enc @ ''/'' @
     dec_nat (ra_rate out) @ ''/'' @ dec_nat (ra_channels out) @ crlf"

definition rawaudio_get_sdp :: "rtp_rawaudio \<Rightarrow> int \<Rightarrow> int \<Rightarrow> string option" where
  "rawaudio_get_sdp out pt port =
     (if ra_format out = FORMAT_PCM then
        if ra_rate out = 44100 \<and> ra_channels out = 2 then Some (audio_sdp port 10)
        else if ra_rate out = 44100 \<and> ra_channels out = 1 then Some (audio_sdp port 11)
        else Some (audio_sdp_map port pt ''L16'' out)
      else if ra_format out = FORMAT_ADPCM then
        if ra_channels out = 1 \<and> ra_rate out = 8000 then Some (audio_sdp port 5)
        else if ra_channels out = 1 \<and> ra_rate out = 16000 then Some (audio_sdp port 6)
        else if ra_channels out = 1 \<and> ra_rate out = 11025 then Some (audio_sdp port 16)
        else if ra_channels out = 1 \<and> ra_rate out = 22050 then Some (audio_sdp port 17)
        else Some (audio_sdp_map port pt ''DVI'' out)
      else if ra_format out = FORMAT_ALAW then
        if ra_rate out = 8000 \<and> ra_channels out = 1 then Some (audio_sdp port 8)
        else Some (audio_sdp_map port pt ''PCMA'' out)
      else None)"

text \<open>\<open>get_framerate\<close> of the stream gives the channels and the rate times the channels.\<close>

definition new_rtp_media_rawaudio :: "int \<Rightarrow> nat \<Rightarrow> nat \<Rightarrow> rtp_rawaudio cres" where
  "new_rtp_media_rawaudio fmt channels rate =
     (if channels = 0 then Inl Fault
      else Inr \<lparr>rawaudio_data = [], ra_format = fmt, ra_sampsize = (if fmt = FORMAT_PCM then 2 else 1),
                ra_channels = channels, ra_rate = rate div channels, ra_timestamp = 0\<rparr>)"

subsection \<open>The packets\<close>

function sample_chunks :: "nat \<Rightarrow> nat \<Rightarrow> 'a list \<Rightarrow> 'a list list" where
  "sample_chunks mx n xs =
     (if n = 0 \<or> length xs \<le> mx then (if xs = [] then [] else [xs])
      else take n xs # sample_chunks mx n (drop n xs))"
  by pat_completeness auto
termination
  by (relation "measure (\<lambda>(mx, n, xs). length xs)") auto

declare sample_chunks.simps [simp del]

fun timed_packets :: "rtp_rawaudio \<Rightarrow> nat \<Rightarrow> byte list list \<Rightarrow> packet list" where
  "timed_packets out i [] = []"
| "timed_packets out i (c # cs) =
     ([c], ra_timestamp out + of_nat (i div ra_channels out div ra_sampsize out), False) #
     timed_packets out (i + length c) cs"

lemma rawaudio_loop_packets:
  assumes "n = mx - mx mod (ra_channels out * ra_sampsize out)" "0 < n"
  shows "rawaudio_loop send w out mx i =
    Some (send_packets send w (timed_packets out i (sample_chunks mx n (drop i (rawaudio_data out)))))"
  using assms
proof (induction "length (rawaudio_data out) - i" arbitrary: w i rule: less_induct)
  case less
  let ?d = "rawaudio_data out"
  show ?case
  proof (cases "i < length ?d")
    case False
    then show ?thesis by (subst rawaudio_loop.simps) (simp add: sample_chunks.simps)
  next
    case True
    show ?thesis
    proof (cases "mx < length ?d - i")
      case long: True
      have n: "n \<le> mx" using less.prems by simp
      have "length ?d - (i + n) < length ?d - i" using True less.prems by auto
      note ih = less.hyps [OF this less.prems]
      have c: "sample_chunks mx n (drop i ?d) = take n (drop i ?d) # sample_chunks mx n (drop (i + n) ?d)"
        using long less.prems(2) by (subst sample_chunks.simps) (simp add: add.commute)
      have l: "min (length ?d - i) n = n" using long n by simp
      show ?thesis
        using True long ih
        by (subst rawaudio_loop.simps)
           (simp add: Let_def less.prems(1) [symmetric] c l split: prod.split)
    next
      case short: False
      have "sample_chunks mx n (drop i ?d) = [drop i ?d]"
        using short True by (subst sample_chunks.simps) simp
      moreover have "rawaudio_loop send w' out mx (length ?d) = Some (w', True)" for w'
        by (subst rawaudio_loop.simps) simp
      ultimately show ?thesis
        using True short by (subst rawaudio_loop.simps) (simp add: Let_def split: prod.split)
    qed
  qed
qed

lemma sample_chunks_facts:
  assumes "0 < n" "n \<le> mx"
  shows "concat (sample_chunks mx n xs) = xs"
    "c \<in> set (sample_chunks mx n xs) \<Longrightarrow> 0 < length c \<and> length c \<le> mx"
    "i + 1 < length (sample_chunks mx n xs) \<Longrightarrow> length (sample_chunks mx n xs ! i) = n"
proof -
  show "concat (sample_chunks mx n xs) = xs"
  proof (induction mx n xs rule: sample_chunks.induct)
    case (1 mx n xs)
    then show ?case by (subst sample_chunks.simps) auto
  qed
  show "c \<in> set (sample_chunks mx n xs) \<Longrightarrow> 0 < length c \<and> length c \<le> mx"
    using assms
  proof (induction mx n xs rule: sample_chunks.induct)
    case (1 mx n xs)
    show ?case
    proof (cases "length xs \<le> mx")
      case True
      with 1(2) show ?thesis by (subst (asm) sample_chunks.simps) (auto split: if_splits)
    next
      case False
      with 1(2,3) have "c = take n xs \<or> c \<in> set (sample_chunks mx n (drop n xs))"
        by (subst (asm) sample_chunks.simps) auto
      with 1(1,3,4) False show ?thesis by auto
    qed
  qed
  show "i + 1 < length (sample_chunks mx n xs) \<Longrightarrow> length (sample_chunks mx n xs ! i) = n"
    using assms
  proof (induction mx n xs arbitrary: i rule: sample_chunks.induct)
    case (1 mx n xs)
    show ?case
    proof (cases "length xs \<le> mx")
      case True
      with 1(2) show ?thesis by (subst (asm) sample_chunks.simps) (auto split: if_splits)
    next
      case False
      then have "sample_chunks mx n xs = take n xs # sample_chunks mx n (drop n xs)"
        using 1(3) by (subst sample_chunks.simps) simp
      with 1 False show ?thesis by (cases i) auto
    qed
  qed
qed

lemma timed_packets_facts:
  "length (timed_packets out i cs) = length cs"
  "j < length cs \<Longrightarrow> timed_packets out i cs ! j =
     ([cs ! j], ra_timestamp out + of_nat ((i + length (concat (take j cs))) div ra_channels out div ra_sampsize out), False)"
proof -
  show "length (timed_packets out i cs) = length cs" by (induction cs arbitrary: i) auto
  show "j < length cs \<Longrightarrow> timed_packets out i cs ! j =
     ([cs ! j], ra_timestamp out + of_nat ((i + length (concat (take j cs))) div ra_channels out div ra_sampsize out), False)"
  proof (induction cs arbitrary: i j)
    case (Cons c cs)
    then show ?case by (cases j) (auto simp: add.assoc)
  qed simp
qed

text \<open>
  When a sample frame fits into a packet, sending audio ends; the packets together are
  the data, none exceeds the limit, every packet but the last is cut between sample frames,
  and each carries the time of its first sample: the timestamp of the frame plus the number
  of sample frames sent before it.
\<close>

lemma rawaudio_send_samples:
  assumes "0 < ra_channels out" "0 < ra_sampsize out" "ra_channels out * ra_sampsize out \<le> mx"
  shows "\<exists>ps. rawaudio_send collect [] mx out = Some (ps, True) \<and>
    concat (map payload ps) = rawaudio_data out \<and>
    (\<forall>i < length ps. 0 < length (payload (ps ! i)) \<and> length (payload (ps ! i)) \<le> mx \<and> \<not> marker (ps ! i) \<and>
       (i + 1 < length ps \<longrightarrow> length (payload (ps ! i)) mod (ra_channels out * ra_sampsize out) = 0) \<and>
       rtp_time (ps ! i) = ra_timestamp out +
         of_nat (length (concat (map payload (take i ps))) div (ra_channels out * ra_sampsize out)))"
proof -
  define fs where "fs = ra_channels out * ra_sampsize out"
  define n where "n = mx - mx mod fs"
  define cs where "cs = sample_chunks mx n (rawaudio_data out)"
  define ps where "ps = timed_packets out 0 cs"
  have fs: "0 < fs" "fs \<le> mx" using assms by (simp_all add: fs_def)
  have "mx mod fs < fs" using fs by simp
  then have n: "0 < n" "n \<le> mx" using fs unfolding n_def by linarith+
  have "n mod fs = 0" unfolding n_def by (simp add: minus_mod_eq_div_mult)
  note sc = sample_chunks_facts [OF n, where xs = "rawaudio_data out", folded cs_def]
  have nth: "ps ! j = ([cs ! j], ra_timestamp out + of_nat (length (concat (take j cs)) div fs), False)"
    if "j < length cs" for j
    using that timed_packets_facts(2) [of j cs out 0] by (simp add: ps_def fs_def div_mult2_eq)
  have len: "length ps = length cs" by (simp add: ps_def timed_packets_facts)
  have pay: "map payload ps = cs"
    by (rule nth_equalityI) (simp_all add: len nth)
  have "rawaudio_send collect [] mx out = Some (ps, True)"
    using rawaudio_loop_packets [of n mx out collect "[]" 0] n
    by (simp add: rawaudio_send_def n_def fs_def send_packets_collect ps_def cs_def)
  moreover have "concat (map payload ps) = rawaudio_data out" using sc(1) by (simp add: pay)
  moreover have "concat (map payload (take i ps)) = concat (take i cs)" for i
    by (simp add: take_map [symmetric] pay)
  moreover have "length (payload (ps ! i)) mod fs = 0" if "i + 1 < length ps" for i
    using that sc(3) [of i] \<open>n mod fs = 0\<close> by (simp add: len nth)
  moreover have "0 < length (payload (ps ! i)) \<and> length (payload (ps ! i)) \<le> mx" if "i < length ps" for i
    using that sc(2) [of "cs ! i"] by (simp add: len nth)
  ultimately show ?thesis
    unfolding fs_def [symmetric] by (intro exI [of _ ps]) (auto simp: len nth)
qed

theorem rawaudio_send_samples_witness:
  "\<exists>ps. rawaudio_send collect [] 7 \<lparr>rawaudio_data = [1, 2, 3, 4, 5, 6, 7, 8, 9, 10], ra_format = 64,
        ra_sampsize = 2, ra_channels = 2, ra_rate = 8000, ra_timestamp = 5\<rparr> = Some (ps, True) \<and>
    concat (map payload ps) = [1, 2, 3, 4, 5, 6, 7, 8, 9, 10] \<and>
    (\<forall>i < length ps. 0 < length (payload (ps ! i)) \<and> length (payload (ps ! i)) \<le> 7 \<and> \<not> marker (ps ! i) \<and>
       (i + 1 < length ps \<longrightarrow> length (payload (ps ! i)) mod (2 * 2) = 0) \<and>
       rtp_time (ps ! i) = 5 + of_nat (length (concat (map payload (take i ps))) div (2 * 2)))"
  using rawaudio_send_samples [of "\<lparr>rawaudio_data = [1, 2, 3, 4, 5, 6, 7, 8, 9, 10], ra_format = 64,
        ra_sampsize = 2, ra_channels = 2, ra_rate = 8000, ra_timestamp = 5\<rparr>" 7] by simp

section \<open>MPEG audio\<close>

record rtp_mpa =
  mpa_data :: "byte list"
  mpa_ts_incr :: u32
  mpa_timestamp :: u32

text \<open>
  The sampling rate index of a frame header has two bits, the table three entries: index 3
  reads past it.
\<close>

definition samrate_tab :: "nat list" where
  "samrate_tab = [44100, 48000, 32000]"

definition mpa_process_frame :: "rtp_mpa \<Rightarrow> byte list option \<Rightarrow> (rtp_mpa \<times> bool) cres" where
  "mpa_process_frame out f =
     (case f of
        None \<Rightarrow> Inr (out\<lparr>mpa_ts_incr := 0, mpa_data := []\<rparr>, True)
      | Some d \<Rightarrow>
          bindE (rd d 2) (\<lambda>b. bindE (rd samrate_tab (unat (drop_bit 2 b AND 3))) (\<lambda>rate.
            Inr (out\<lparr>mpa_timestamp := mpa_timestamp out + mpa_ts_incr out,
                     mpa_ts_incr := of_nat (90000 * 1152 div rate), mpa_data := d\<rparr>, True))))"

partial_function (option) mpa_loop ::
  "'w sender \<Rightarrow> 'w \<Rightarrow> byte list \<Rightarrow> u32 \<Rightarrow> nat \<Rightarrow> nat \<Rightarrow> ('w \<times> bool) option" where
  "mpa_loop send w d ts mx i =
     (if i < length d then
        (let rest = length d - i;
             plen = (if mx < rest then mx else rest);
             (w', ok) = send w ([PUT_16 0 @ PUT_16 (int i), take plen (drop i d)], ts, plen + i = length d)
         in if ok then mpa_loop send w' d ts mx (i + plen) else Some (w', False))
      else Some (w, True))"

definition mpa_send :: "'w sender \<Rightarrow> 'w \<Rightarrow> nat \<Rightarrow> rtp_mpa \<Rightarrow> ('w \<times> bool) option" where
  "mpa_send send w mx out = mpa_loop send w (mpa_data out) (mpa_timestamp out) mx 0"

definition mpa_get_sdp :: "int \<Rightarrow> int \<Rightarrow> string" where
  "mpa_get_sdp pt port = audio_sdp port 14"

definition mpa_get_payload :: "int \<Rightarrow> int" where
  "mpa_get_payload pt = 14"

fun offset_packets :: "u32 \<Rightarrow> nat \<Rightarrow> byte list list \<Rightarrow> packet list" where
  "offset_packets ts i [] = []"
| "offset_packets ts i (c # cs) =
     ([PUT_16 0 @ PUT_16 (int i), c], ts, cs = []) # offset_packets ts (i + length c) cs"

lemma mpa_loop_packets:
  assumes "0 < mx"
  shows "mpa_loop send w d ts mx i =
    Some (send_packets send w (offset_packets ts i (chunks mx (drop i d))))"
  using assms
proof (induction "length d - i" arbitrary: w i rule: less_induct)
  case less
  show ?case
  proof (cases "i < length d")
    case False
    then show ?thesis by (subst mpa_loop.simps) simp
  next
    case True
    show ?thesis
    proof (cases "mx < length d - i")
      case long: True
      have "length d - (i + mx) < length d - i" using True less.prems by auto
      note ih = less.hyps [OF this less.prems]
      have c: "chunks mx (drop i d) = take mx (drop i d) # chunks mx (drop (i + mx) d)"
        using long less.prems by (simp add: chunks_long add.commute)
      have ne: "drop (i + mx) d \<noteq> []" "mx + i \<noteq> length d" "min (length d - i) mx = mx" using long by auto
      show ?thesis
        using True long ih c ne by (subst mpa_loop.simps) (simp add: Let_def split: prod.split)
    next
      case short: False
      have "chunks mx (drop i d) = [drop i d]"
        using short True by (intro chunks_short) simp_all
      moreover have "mpa_loop send w' d ts mx (length d) = Some (w', True)" for w'
        by (subst mpa_loop.simps) simp
      ultimately show ?thesis
        using True short by (subst mpa_loop.simps) (simp add: Let_def split: prod.split)
    qed
  qed
qed

lemma nth_offset_packets:
  "j < length cs \<Longrightarrow> offset_packets ts i cs ! j =
     ([PUT_16 0 @ PUT_16 (int (i + length (concat (take j cs)))), cs ! j], ts, Suc j = length cs)"
proof (induction cs arbitrary: i j)
  case (Cons c cs)
  then show ?case by (cases j) (auto simp: add.assoc)
qed simp

lemma length_offset_packets [simp]: "length (offset_packets ts i cs) = length cs"
  by (induction cs arbitrary: i) auto

text \<open>
  Sending an MPEG audio frame always ends; the fragments behind the four header bytes are
  the frame, the marker is on the last packet only, and in a frame of less than 64 KB every
  packet names the offset of its fragment.
\<close>

lemma mpa_send_offsets:
  assumes "0 < mx" "mpa_data out \<noteq> []" "length (mpa_data out) < 65536"
  shows "\<exists>ps. mpa_send collect [] mx out = Some (ps, True) \<and>
    concat (map (drop 4 \<circ> payload) ps) = mpa_data out \<and> last_marked ps \<and>
    (\<forall>i < length ps. GET_16 (drop 2 (payload (ps ! i))) =
       int (length (concat (map (drop 4 \<circ> payload) (take i ps)))))"
proof -
  define cs where "cs = chunks mx (mpa_data out)"
  define ps where "ps = offset_packets (mpa_timestamp out) 0 cs"
  have len: "length ps = length cs" by (simp add: ps_def)
  have nth: "ps ! j = ([PUT_16 0 @ PUT_16 (int (length (concat (take j cs)))), cs ! j],
      mpa_timestamp out, Suc j = length cs)" if "j < length cs" for j
    using that nth_offset_packets [of j cs _ 0] by (simp add: ps_def)
  have pay: "map (drop 4 \<circ> payload) ps = cs"
    by (rule nth_equalityI) (simp_all add: len nth)
  have cc: "concat cs = mpa_data out" by (simp add: cs_def)
  have "mpa_send collect [] mx out = Some (ps, True)"
    using mpa_loop_packets [OF assms(1), of collect "[]"]
    by (simp add: mpa_send_def send_packets_collect ps_def cs_def)
  moreover have "concat (map (drop 4 \<circ> payload) ps) = mpa_data out" unfolding pay by (rule cc)
  moreover have "last_marked ps"
  proof -
    have "cs \<noteq> []" using assms(2) cc by auto
    then have "ps \<noteq> []" using len by auto
    then show ?thesis by (simp add: last_marked_def len nth)
  qed
  moreover have "GET_16 (drop 2 (payload (ps ! i))) = int (length (concat (map (drop 4 \<circ> payload) (take i ps))))"
    if "i < length ps" for i
  proof -
    have "length (concat (take i cs)) \<le> length (concat cs)"
      by (metis append_take_drop_id concat_append le_add1 length_append)
    with assms(3) cc have "int (length (concat (take i cs))) < 65536" by simp
    moreover have "map (drop 4 \<circ> payload) (take i ps) = take i cs" by (simp add: take_map [symmetric] pay)
    ultimately show ?thesis using that by (simp add: len nth)
  qed
  ultimately show ?thesis by blast
qed

theorem mpa_send_offsets_witness:
  "\<exists>ps. mpa_send collect [] 3 \<lparr>mpa_data = [1, 2, 3, 4, 5], mpa_ts_incr = 0, mpa_timestamp = 5\<rparr> = Some (ps, True) \<and>
    concat (map (drop 4 \<circ> payload) ps) = [1, 2, 3, 4, 5] \<and> last_marked ps \<and>
    (\<forall>i < length ps. GET_16 (drop 2 (payload (ps ! i))) =
       int (length (concat (map (drop 4 \<circ> payload) (take i ps)))))"
  using mpa_send_offsets [of 3 "\<lparr>mpa_data = [1, 2, 3, 4, 5], mpa_ts_incr = 0, mpa_timestamp = 5\<rparr>"] by simp

end
