(* ===== verification/Rtp_Jpeg.thy ===== *)
theory Rtp_Jpeg
  imports Rtp_Media
begin

text \<open>
  \<open>rtp-jpeg.c\<close>: the parser that finds the quantisation tables, the frame header and the scan
  of a JPEG image, and the packetiser of RFC 2435. Pointers into the frame are offsets; the
  frame itself is kept in the record, as the C code keeps pointers into it.
\<close>

section \<open>State\<close>

record rtp_jpeg =
  jp_type :: int
  jp_width :: int
  jp_height :: int
  luma_table :: int
  chroma_table :: int
  jp_quant :: "nat option list"
  jp_frame :: "byte list"
  scan_data :: nat
  scan_data_len :: int
  jp_init_done :: bool
  jp_timestamp :: u32

text \<open>Fields that \<open>malloc\<close> leaves undefined are those of the argument \<open>g\<close>.\<close>

definition new_rtp_media_jpeg :: "rtp_jpeg \<Rightarrow> int \<Rightarrow> int \<Rightarrow> rtp_jpeg cres" where
  "new_rtp_media_jpeg g fincr fbase =
     (if fbase = 0 then Inl Fault else Inr (g\<lparr>jp_init_done := False, jp_timestamp := 0\<rparr>))"

section \<open>Parsing\<close>

text \<open>The segment parsers return the record and whether the segment was accepted.\<close>

function parse_DQT :: "byte list \<Rightarrow> rtp_jpeg \<Rightarrow> nat \<Rightarrow> nat \<Rightarrow> nat \<Rightarrow> (rtp_jpeg \<times> bool) cres" where
  "parse_DQT f out base len i =
     (if i < len then
        bindE (rd f (base + i)) (\<lambda>b.
          if b AND 0xF0 \<noteq> 0 then Inr (out, False)
          else parse_DQT f (out\<lparr>jp_quant := (jp_quant out)[unat (b AND 0xF) := Some (base + i + 1)]\<rparr>)
                 base len (i + 65))
      else Inr (out, True))"
  by pat_completeness auto
termination
  by (relation "measure (\<lambda>(f, out, base, len, i). len - i)") auto

declare parse_DQT.simps [simp del]

definition component_ok :: "rtp_jpeg \<Rightarrow> byte \<Rightarrow> bool" where
  "component_ok out q \<longleftrightarrow> unat q < 16 \<and> jp_quant out ! unat q \<noteq> None"

text \<open>One of the three components of the frame header, at offset \<open>c\<close>.\<close>

definition parse_component :: "rtp_jpeg \<Rightarrow> byte \<Rightarrow> byte \<Rightarrow> byte \<Rightarrow> rtp_jpeg \<times> bool" where
  "parse_component out ident samp q =
     (if \<not> component_ok out q then (out, False)
      else if ident = 1 then
        (if samp = 0x11 then (out\<lparr>jp_type := 0, luma_table := uint q\<rparr>, True)
         else if samp = 0x22 then (out\<lparr>jp_type := 1, luma_table := uint q\<rparr>, True)
         else (out, False))
      else if ident = 2 \<or> ident = 3 then
        (if samp \<noteq> 0x11 then (out, False)
         else if chroma_table out < 0 then (out\<lparr>chroma_table := uint q\<rparr>, True)
         else if chroma_table out \<noteq> uint q then (out, False)
         else (out, True))
      else (out, False))"

fun parse_components :: "byte list \<Rightarrow> rtp_jpeg \<Rightarrow> nat \<Rightarrow> nat \<Rightarrow> (rtp_jpeg \<times> bool) cres" where
  "parse_components f out c 0 = Inr (out, True)"
| "parse_components f out c (Suc k) =
     bindE (rd f (c + 2)) (\<lambda>q. bindE (rd f c) (\<lambda>ident.
     bindE (rd f (c + 1)) (\<lambda>samp.
       let (out', ok) = parse_component out ident samp q
       in if ok then parse_components f out' (c + 3) k else Inr (out', False))))"

definition parse_SOF :: "byte list \<Rightarrow> rtp_jpeg \<Rightarrow> nat \<Rightarrow> (rtp_jpeg \<times> bool) cres" where
  "parse_SOF f out0 base =
     (let out = out0\<lparr>chroma_table := -1\<rparr> in
      bindE (rd f base) (\<lambda>prec.
        if prec \<noteq> 8 then Inr (out, False)
        else if length f < base + 6 then Inl Fault
        else let h = GET_16 (drop (base + 1) f); w = GET_16 (drop (base + 3) f) in
          if h AND 7 \<noteq> 0 \<or> w AND 7 \<noteq> 0 then Inr (out\<lparr>jp_height := h, jp_width := w\<rparr>, False)
          else let out = out\<lparr>jp_width := drop_bit 3 w, jp_height := drop_bit 3 h\<rparr> in
            if f ! (base + 5) \<noteq> 3 then Inr (out, False) else parse_components f out (base + 6) 3))"

text \<open>
  The walk over the segments. The length of a segment is read from its two length bytes,
  except for the start of the image; the start of the scan ends the walk.
\<close>

definition no_scan :: "rtp_jpeg \<Rightarrow> (rtp_jpeg \<times> bool) cres" where
  "no_scan out = Inr (out\<lparr>scan_data_len := 0\<rparr>, False)"

definition segment_length :: "byte list \<Rightarrow> nat \<Rightarrow> byte \<Rightarrow> nat cres" where
  "segment_length f i m =
     (if m = 0xD8 then Inr 0
      else if i + 3 < length f then Inr (nat (GET_16 (drop (i + 2) f))) else Inl Fault)"

function jpeg_segments :: "byte list \<Rightarrow> rtp_jpeg \<Rightarrow> nat \<Rightarrow> (rtp_jpeg \<times> bool) cres" where
  "jpeg_segments f out i =
     (if i < length f then
        if f ! i \<noteq> 0xFF then no_scan out
        else bindE (rd f (i + 1)) (\<lambda>m. bindE (segment_length f i m) (\<lambda>blen.
            if m = 0xDB then
              bindE (parse_DQT f out (i + 4) (blen - 2) 0) (\<lambda>(out', ok).
                if ok then jpeg_segments f out' (i + blen + 2) else no_scan out')
            else if m = 0xC0 then
              bindE (parse_SOF f out (i + 4)) (\<lambda>(out', ok).
                if ok then jpeg_segments f out' (i + blen + 2) else no_scan out')
            else if m = 0xC4 then jpeg_segments f (out\<lparr>jp_init_done := True\<rparr>) (i + blen + 2)
            else if m = 0xDA then
              Inr (out\<lparr>scan_data := i + 2 + blen,
                       scan_data_len := int (length f) - int i - 2 - int blen\<rparr>, jp_init_done out)
            else jpeg_segments f out (i + blen + 2)))
      else no_scan out)"
  by pat_completeness auto
termination
  by (relation "measure (\<lambda>(f, out, i). length f - i)") auto

declare jpeg_segments.simps [simp del]

definition jpeg_process_frame :: "rtp_jpeg \<Rightarrow> byte list \<Rightarrow> u32 \<Rightarrow> (rtp_jpeg \<times> bool) cres" where
  "jpeg_process_frame out d ts =
     jpeg_segments d (out\<lparr>jp_frame := d, jp_timestamp := ts, jp_quant := replicate 16 None\<rparr>) 0"

section \<open>Sending\<close>

definition jpeg_get_sdp :: "int \<Rightarrow> int \<Rightarrow> string" where
  "jpeg_get_sdp pt port = ''m=video '' @ dec_int port @ '' RTP/AVP 26'' @ crlf"

definition jpeg_get_payload :: "int \<Rightarrow> int" where
  "jpeg_get_payload pt = 26"

text \<open>A quantisation table: 64 bytes at the recorded place.\<close>

definition quant_table :: "rtp_jpeg \<Rightarrow> int \<Rightarrow> byte list cres" where
  "quant_table out t =
     (if t < 0 \<or> 16 \<le> t then Inl Fault
      else case jp_quant out ! nat t of
        None \<Rightarrow> Inl Fault
      | Some off \<Rightarrow> if off + 64 \<le> length (jp_frame out) then Inr (take 64 (drop off (jp_frame out)))
                     else Inl Fault)"

definition jpeg_header :: "rtp_jpeg \<Rightarrow> nat \<Rightarrow> byte list" where
  "jpeg_header out i =
     [0, word_of_int (drop_bit 16 (int i)), word_of_int (drop_bit 8 (int i) AND 0xff), word_of_int (int i AND 0xff),
      word_of_int (jp_type out), 255, word_of_int (jp_width out), word_of_int (jp_height out)]"

definition scan :: "rtp_jpeg \<Rightarrow> byte list" where
  "scan out = take (nat (scan_data_len out)) (drop (scan_data out) (jp_frame out))"

partial_function (option) jpeg_loop ::
  "'w sender \<Rightarrow> 'w \<Rightarrow> rtp_jpeg \<Rightarrow> byte list list \<Rightarrow> nat \<Rightarrow> nat \<Rightarrow> nat \<Rightarrow> ('w \<times> bool) option" where
  "jpeg_loop send w out tables hdr_len mx i =
     (if int i < scan_data_len out then
        (let rest = nat (scan_data_len out) - i;
             plen = (if mx - hdr_len < rest then mx - hdr_len else rest);
             (w', ok) = send w (jpeg_header out i # tables @ [take plen (drop i (scan out))],
                                jp_timestamp out, int (plen + i) = scan_data_len out)
         in if ok then jpeg_loop send w' out [] 8 mx (i + plen) else Some (w', False))
      else Some (w, True))"

text \<open>
  The tables are read only when a packet is sent; the kernel reads them, so a bad table
  shows with the first packet.
\<close>

definition jpeg_send :: "'w sender \<Rightarrow> 'w \<Rightarrow> nat \<Rightarrow> rtp_jpeg \<Rightarrow> ('w \<times> bool) option cres" where
  "jpeg_send send w mx out =
     (if scan_data_len out \<le> 0 then Inr (Some (w, True))
      else bindE (quant_table out (luma_table out)) (\<lambda>lt. bindE (quant_table out (chroma_table out)) (\<lambda>ct.
        Inr (jpeg_loop send w out [[0, 0] @ PUT_16 128, lt, ct] 140 mx 0))))"

subsection \<open>The packets\<close>

fun jpeg_packets :: "rtp_jpeg \<Rightarrow> byte list list \<Rightarrow> nat \<Rightarrow> byte list list \<Rightarrow> packet list" where
  "jpeg_packets out tables i [] = []"
| "jpeg_packets out tables i (c # cs) =
     (jpeg_header out i # tables @ [c], jp_timestamp out, cs = []) # jpeg_packets out [] (i + length c) cs"

definition scan_ok :: "rtp_jpeg \<Rightarrow> bool" where
  "scan_ok out \<longleftrightarrow> 0 < scan_data_len out \<and> int (scan_data out) + scan_data_len out \<le> int (length (jp_frame out))"

lemma scan_length: "scan_ok out \<Longrightarrow> int (length (scan out)) = scan_data_len out"
  unfolding scan_ok_def scan_def length_take length_drop by arith

definition jpeg_frags :: "nat \<Rightarrow> nat \<Rightarrow> byte list \<Rightarrow> byte list list" where
  "jpeg_frags n1 n2 s = (if length s \<le> n1 then [s] else take n1 s # chunks n2 (drop n1 s))"

lemma jpeg_loop_step:
  assumes ok: "scan_ok out" and i: "i < length (scan out)" and n: "0 < n" "n = mx - hdr"
    and rec: "\<And>w'. jpeg_loop send w' out [] 8 mx (i + n) =
      Some (send_packets send w' (jpeg_packets out [] (i + n) (chunks (mx - 8) (drop (i + n) (scan out)))))"
  shows "jpeg_loop send w out tables hdr mx i =
    Some (send_packets send w (jpeg_packets out tables i (jpeg_frags n (mx - 8) (drop i (scan out)))))"
proof -
  let ?s = "scan out"
  have len: "scan_data_len out = int (length ?s)" using scan_length [OF ok] by simp
  show ?thesis
  proof (cases "n < length ?s - i")
    case True
    then have "jpeg_frags n (mx - 8) (drop i ?s) = take n (drop i ?s) # chunks (mx - 8) (drop (i + n) ?s)"
      by (simp add: jpeg_frags_def add.commute)
    moreover have "n + i \<noteq> length ?s" "drop (i + n) ?s \<noteq> []" "min (length ?s - i) n = n" using True by auto
    ultimately show ?thesis
      using i True rec n(2) by (subst jpeg_loop.simps) (simp add: len Let_def split: prod.split)
  next
    case False
    then have "jpeg_frags n (mx - 8) (drop i ?s) = [drop i ?s]" by (simp add: jpeg_frags_def)
    moreover have "jpeg_loop send w' out t h mx (length ?s) = Some (w', True)" for w' t h
      by (subst jpeg_loop.simps) (simp add: len)
    ultimately show ?thesis
      using i False n(2) by (subst jpeg_loop.simps) (simp add: len Let_def split: prod.split)
  qed
qed

lemma jpeg_frags_chunks: "xs \<noteq> [] \<Longrightarrow> 0 < n \<Longrightarrow> jpeg_frags n n xs = chunks n xs"
  by (cases "length xs \<le> n") (simp_all add: jpeg_frags_def chunks_short chunks_long)

lemma jpeg_loop_rest:
  assumes ok: "scan_ok out" and mx: "8 < mx"
  shows "jpeg_loop send w out [] 8 mx i =
    Some (send_packets send w (jpeg_packets out [] i (chunks (mx - 8) (drop i (scan out)))))"
proof (induction "length (scan out) - i" arbitrary: w i rule: less_induct)
  case less
  show ?case
  proof (cases "i < length (scan out)")
    case False
    then show ?thesis using scan_length [OF ok] by (subst jpeg_loop.simps) simp
  next
    case True
    have "length (scan out) - (i + (mx - 8)) < length (scan out) - i" using True mx by auto
    note rec = less.hyps [OF this]
    have "0 < mx - 8" "drop i (scan out) \<noteq> []" using mx True by auto
    with jpeg_loop_step [OF ok True \<open>0 < mx - 8\<close> refl rec, of w "[]"] show ?thesis
      by (simp add: jpeg_frags_chunks)
  qed
qed

lemma jpeg_packets_length [simp]: "length (jpeg_packets out t i cs) = length cs"
  by (induction cs arbitrary: t i) auto

lemma nth_jpeg_packets:
  "j < length cs \<Longrightarrow> jpeg_packets out t i cs ! j =
     (jpeg_header out (i + length (concat (take j cs))) # (if j = 0 then t else []) @ [cs ! j],
      jp_timestamp out, Suc j = length cs)"
proof (induction cs arbitrary: t i j)
  case (Cons c cs)
  then show ?case by (cases j) (auto simp: add.assoc)
qed simp

text \<open>The offset field of a JPEG packet.\<close>

definition jpeg_offset :: "byte list \<Rightarrow> int" where
  "jpeg_offset p = uint (p ! 1) * 65536 + uint (p ! 2) * 256 + uint (p ! 3)"

lemma uint_low_byte: "uint (word_of_int (v AND 255) :: byte) = v mod 256"
proof -
  have "v AND 255 = take_bit 8 v" using take_bit_eq_mask [of 8 v] by (simp add: mask_eq_exp_minus_1)
  then show ?thesis by (simp add: unsigned_of_int take_bit_eq_mod)
qed

lemma three_bytes: "(v :: int) div 65536 * 65536 + v div 256 mod 256 * 256 + v mod 256 = v"
proof -
  have "v div 65536 = v div 256 div 256" by (simp add: div_mult2_eq [symmetric] zdiv_zmult2_eq [symmetric])
  then show ?thesis using div_mult_mod_eq [of "v div 256" 256] div_mult_mod_eq [of v 256] by linarith
qed

lemma jpeg_header_offset:
  assumes "i < 2 ^ 24"
  shows "jpeg_offset (jpeg_header out i @ r) = int i"
proof -
  have "int i div 65536 < 256" using assms by simp
  then have "uint (word_of_int (drop_bit 16 (int i)) :: byte) = int i div 65536"
    by (simp add: unsigned_of_int drop_bit_eq_div take_bit_int_eq_self)
  moreover have "uint (word_of_int (drop_bit 8 (int i) AND 255) :: byte) = int i div 256 mod 256"
    by (subst uint_low_byte) (simp add: drop_bit_eq_div)
  ultimately show ?thesis
    using three_bytes [of "int i"]
    by (simp only: jpeg_offset_def jpeg_header_def append_Cons nth_Cons_0 nth_Cons_Suc One_nat_def
        numeral_2_eq_2 numeral_3_eq_3 uint_low_byte)
qed

text \<open>
  C34. Sending a JPEG image whose scan lies in the frame and whose two tables are there always
  ends. The first packet carries the two quantisation tables; the fragments behind the
  headers are the scan data, every packet names the offset of its fragment, none exceeds the
  limit, and the marker is on the last only.
\<close>

theorem jpeg_send_reassembles:
  assumes "scan_ok out" "scan_data_len out < 2 ^ 24" "140 < mx"
    and "quant_table out (luma_table out) = Inr lt" "quant_table out (chroma_table out) = Inr ct"
  shows "\<exists>ps. jpeg_send collect [] mx out = Inr (Some (ps, True)) \<and> last_marked ps \<and>
    take 132 (drop 8 (payload (hd ps))) = [0, 0] @ PUT_16 128 @ lt @ ct \<and>
    (let frag = (\<lambda>j. drop (if j = 0 then 140 else 8) (payload (ps ! j))) in
     concat (map frag [0..<length ps]) = scan out \<and>
     (\<forall>j < length ps. jpeg_offset (payload (ps ! j)) = int (length (concat (map frag [0..<j]))) \<and>
        length (payload (ps ! j)) \<le> mx))"
proof -
  let ?s = "scan out"
  let ?t = "[[0, 0] @ PUT_16 128, lt, ct]"
  define cs where "cs = jpeg_frags (mx - 140) (mx - 8) ?s"
  define ps where "ps = jpeg_packets out ?t 0 cs"
  have len: "int (length ?s) = scan_data_len out" by (rule scan_length [OF assms(1)])
  have pos: "0 < scan_data_len out" using assms(1) by (simp add: scan_ok_def)
  then have ne: "?s \<noteq> []" using len by auto
  have tl: "length lt = 64" "length ct = 64"
    using assms(4,5) by (auto simp: quant_table_def split: if_splits option.splits)
  have run: "jpeg_send collect [] mx out = Inr (Some (ps, True))"
    using jpeg_loop_step [OF assms(1) _ _ refl jpeg_loop_rest [OF assms(1)], of 0 mx 140 collect "[]" ?t]
      assms(3-5) ne pos
    by (simp add: jpeg_send_def send_packets_collect ps_def cs_def)
  have cc: "concat cs = ?s" by (auto simp: cs_def jpeg_frags_def)
  have cne: "cs \<noteq> []" using cc ne by auto
  have l: "length ps = length cs" by (simp add: ps_def)
  have nth: "ps ! j = (jpeg_header out (length (concat (take j cs))) # (if j = 0 then ?t else []) @ [cs ! j],
      jp_timestamp out, Suc j = length cs)" if "j < length cs" for j
    using that nth_jpeg_packets [of j cs out ?t 0] by (simp add: ps_def)
  have hl: "length (jpeg_header out i) = 8" for i by (simp add: jpeg_header_def)
  have pl: "payload (ps ! j) = jpeg_header out (length (concat (take j cs))) @
      (if j = 0 then [0, 0] @ PUT_16 128 @ lt @ ct else []) @ cs ! j" if "j < length cs" for j
    using nth [OF that] by simp
  have frag: "drop (if j = 0 then 140 else 8) (payload (ps ! j)) = cs ! j" if "j < length cs" for j
    using pl [OF that] by (simp add: hl tl)
  have frags: "map (\<lambda>j. drop (if j = 0 then 140 else 8) (payload (ps ! j))) [0..<k] = take k cs"
    if "k \<le> length cs" for k
    using that by (intro nth_equalityI) (simp_all add: frag)
  have "ps \<noteq> []" using l cne by auto
  then have "last_marked ps" by (auto simp: last_marked_def l nth)
  moreover have "take 132 (drop 8 (payload (hd ps))) = [0, 0] @ PUT_16 128 @ lt @ ct"
  proof -
    have "0 < length cs" using cne by simp
    moreover have "hd ps = ps ! 0" using l cne by (cases ps) auto
    ultimately show ?thesis using pl [of 0] by (simp add: hl tl)
  qed
  moreover have "jpeg_offset (payload (ps ! j)) = int (length (concat (take j cs)))" if "j < length cs" for j
  proof -
    have "length (concat (take j cs)) \<le> length (concat cs)"
      by (metis append_take_drop_id concat_append le_add1 length_append)
    then have "length (concat (take j cs)) < 2 ^ 24" using cc len assms(2) by simp
    then show ?thesis using pl [OF that] by (simp add: jpeg_header_offset)
  qed
  moreover have "length (payload (ps ! j)) \<le> mx" if "j < length cs" for j
  proof (cases j)
    case 0
    have "length (cs ! 0) \<le> mx - 140" by (simp add: cs_def jpeg_frags_def)
    with 0 pl [OF that] assms(3) show ?thesis by (simp add: hl tl)
  next
    case (Suc k)
    then have "cs ! j \<in> set (chunks (mx - 8) (drop (mx - 140) ?s))"
      using that by (auto simp: cs_def jpeg_frags_def split: if_splits)
    from chunks_length [OF _ this] assms(3) have "length (cs ! j) \<le> mx - 8" by simp
    with Suc pl [OF that] assms(3) show ?thesis by (simp add: hl)
  qed
  ultimately show ?thesis
    using run frags cc unfolding Let_def by (intro exI [of _ ps]) (simp add: l)
qed

text \<open>An image that is parsed, and then sent with a small limit.\<close>

definition demo_jpeg :: "byte list" where
  "demo_jpeg = [0xFF, 0xD8, 0xFF, 0xDB, 0, 67, 0] @ replicate 64 7 @
     [0xFF, 0xC0, 0, 17, 8, 0, 16, 0, 24, 3, 1, 0x22, 0, 2, 0x11, 0, 3, 0x11, 0,
      0xFF, 0xC4, 0, 2, 0xFF, 0xDA, 0, 2, 50, 51, 52, 53, 54]"

definition demo_jpeg_out :: rtp_jpeg where
  "demo_jpeg_out = \<lparr>jp_type = 0, jp_width = 0, jp_height = 0, luma_table = 0, chroma_table = 0,
     jp_quant = [], jp_frame = [], scan_data = 0, scan_data_len = 0, jp_init_done = False, jp_timestamp = 0\<rparr>"

theorem jpeg_send_reassembles_witness:
  "\<exists>out ps. jpeg_process_frame demo_jpeg_out demo_jpeg 9 = Inr (out, True) \<and>
    jpeg_send collect [] 142 out = Inr (Some (ps, True)) \<and> last_marked ps \<and>
    take 132 (drop 8 (payload (hd ps))) = [0, 0] @ PUT_16 128 @ replicate 64 7 @ replicate 64 7 \<and>
    concat (map (\<lambda>j. drop (if j = 0 then 140 else 8) (payload (ps ! j))) [0..<length ps]) = [50, 51, 52, 53, 54]"
proof -
  define out where "out = \<lparr>jp_type = 1, jp_width = 3, jp_height = 2, luma_table = 0, chroma_table = 0,
     jp_quant = Some 7 # replicate 15 None, jp_frame = demo_jpeg, scan_data = 98, scan_data_len = 5,
     jp_init_done = True, jp_timestamp = 9\<rparr>"
  have p: "jpeg_process_frame demo_jpeg_out demo_jpeg 9 = Inr (out, True)" unfolding out_def by code_simp
  have q: "quant_table out (luma_table out) = Inr (replicate 64 7)"
    "quant_table out (chroma_table out) = Inr (replicate 64 7)" unfolding out_def by code_simp+
  have s: "scan_ok out" "scan_data_len out < 2 ^ 24" "scan out = [50, 51, 52, 53, 54]"
    unfolding out_def by code_simp+
  have "(140 :: nat) < 142" by simp
  from jpeg_send_reassembles [OF s(1,2) this q] p s(3) show ?thesis
    unfolding Let_def by (metis (no_types, lifting))
qed

end
