(* ===== verification/Rtp_Mpeg4.thy ===== *)
theory Rtp_Mpeg4
  imports Rtp_Media "HOL-Library.Sublist"
begin

text \<open>
  \<open>rtp-mpeg4.c\<close>: the MPEG-4 part 2 elementary stream. A frame is cut at its start codes; the
  configuration headers are collected until the first picture and become the \<open>config\<close>
  parameter of the SDP, and the elements are sent as one run of bytes cut to the packet size.
  An element is handed on as the rest of the frame from its start code and its length, since
  the bit parser does not look at the length. Reading behind the frame is a fault.
\<close>

section \<open>State\<close>

record rtp_mpeg4 =
  m4_iov :: "byte list list"
  m4_config :: "byte list"
  pali :: byte
  fmtp :: string
  m4_init_done :: bool
  m4_ts_incr :: int
  vop_time_increment_resolution :: nat
  vop_time_increment :: nat
  vtir_bitlen :: nat
  m4_timestamp :: u32

definition new_rtp_media_mpeg4 :: "rtp_mpeg4 \<Rightarrow> rtp_mpeg4" where
  "new_rtp_media_mpeg4 g =
     g\<lparr>m4_iov := [], m4_config := [], m4_init_done := False, pali := 0, m4_timestamp := 0\<rparr>"

definition add_to_rtp_buf :: "rtp_mpeg4 \<Rightarrow> byte list \<Rightarrow> rtp_mpeg4 \<times> bool" where
  "add_to_rtp_buf out e =
     (if length (m4_iov out) = 24 then (out, False) else (out\<lparr>m4_iov := m4_iov out @ [e]\<rparr>, True))"

definition add_to_config :: "rtp_mpeg4 \<Rightarrow> byte list \<Rightarrow> rtp_mpeg4 \<times> bool" where
  "add_to_config out e =
     (if 512 < length (m4_config out) + length e then (out, False)
      else (out\<lparr>m4_config := m4_config out @ e\<rparr>, True))"

definition hex_digit :: "nat \<Rightarrow> char" where
  "hex_digit n = ''0123456789ABCDEF'' ! n"

definition hex_bytes :: "byte list \<Rightarrow> string" where
  "hex_bytes bs = concat (map (\<lambda>b. [hex_digit (unat b div 16), hex_digit (unat b mod 16)]) bs)"

text \<open>The 600 bytes of \<open>fmtp\<close> hold the text and its end; what \<open>sprintf\<close> writes is not bounded.\<close>

definition finish_config :: "rtp_mpeg4 \<Rightarrow> rtp_mpeg4 cres" where
  "finish_config out =
     (let s = ''profile-level-id='' @ dec_int (uint (pali out)) @ '';config='' @ hex_bytes (m4_config out)
      in if length s < 600 then Inr (out\<lparr>fmtp := s, m4_config := [], m4_init_done := True\<rparr>)
         else Inl Fault)"

section \<open>Elements\<close>

definition both_bufs :: "rtp_mpeg4 \<Rightarrow> byte list \<Rightarrow> rtp_mpeg4" where
  "both_bufs out e = fst (add_to_rtp_buf (fst (add_to_config out e)) e)"

definition keep_bufs :: "rtp_mpeg4 \<Rightarrow> byte list \<Rightarrow> rtp_mpeg4" where
  "keep_bufs out e =
     fst (add_to_rtp_buf (if m4_config out \<noteq> [] then fst (add_to_config out e) else out) e)"

definition parse_visual_object_sequence :: "rtp_mpeg4 \<Rightarrow> byte list \<Rightarrow> nat \<Rightarrow> rtp_mpeg4 cres" where
  "parse_visual_object_sequence out d len =
     bindE (rd d 4) (\<lambda>p. Inr (both_bufs (out\<lparr>pali := p\<rparr>) (take len d)))"

definition parse_visual_object :: "rtp_mpeg4 \<Rightarrow> byte list \<Rightarrow> nat \<Rightarrow> rtp_mpeg4 cres" where
  "parse_visual_object out d len =
     bindE (get_field d 1 32) (\<lambda>(b, off).
     bindE (get_field d 4 (if b \<noteq> 0 then off + 7 else off)) (\<lambda>_.
     Inr (keep_bufs out (take len d))))"

definition parse_video_object :: "rtp_mpeg4 \<Rightarrow> byte list \<Rightarrow> nat \<Rightarrow> rtp_mpeg4 cres" where
  "parse_video_object out d len = Inr (both_bufs out (take len d))"

definition parse_1b2 :: "rtp_mpeg4 \<Rightarrow> byte list \<Rightarrow> nat \<Rightarrow> rtp_mpeg4 cres" where
  "parse_1b2 out d len = Inr (keep_bufs out (take len d))"

fun bit_length :: "nat \<Rightarrow> nat" where
  "bit_length n = (if n = 0 then 0 else Suc (bit_length (n div 2)))"

declare bit_length.simps [simp del]

text \<open>
  The layer header. The offset goes past the fields that are not used; the product of
  \<open>ts_incr\<close> is computed in \<open>int\<close>, and overflowing it is a fault.
\<close>

definition vol_resolution_offset :: "byte list \<Rightarrow> nat cres" where
  "vol_resolution_offset d =
     bindE (get_field d 1 41) (\<lambda>(b, off). let off = (if b \<noteq> 0 then off + 7 else off) in
     bindE (get_field d 4 off) (\<lambda>(b, off). let off = (if b = 15 then off + 16 else off) in
     bindE (get_field d 1 off) (\<lambda>(b, off).
       if b = 0 then Inr (off + 2)
       else bindE (get_field d 1 (off + 3)) (\<lambda>(b, off). Inr ((if b \<noteq> 0 then off + 79 else off) + 2)))))"

definition vop_ts_incr :: "nat \<Rightarrow> nat \<Rightarrow> int cres" where
  "vop_ts_incr incr res =
     (if res = 0 \<or> 2 ^ 31 \<le> 90000 * incr then Inl Fault else Inr (int (90000 * incr div res)))"

definition parse_fixed_rate :: "rtp_mpeg4 \<Rightarrow> byte list \<Rightarrow> nat \<Rightarrow> (rtp_mpeg4 \<times> bool) cres" where
  "parse_fixed_rate out d off =
     bindE (get_field d 1 off) (\<lambda>(b, off).
       if b = 0 then Inr (out\<lparr>vop_time_increment := 0\<rparr>, True)
       else bindE (get_field d (vtir_bitlen out) off) (\<lambda>(incr, off).
         let out' = out\<lparr>vop_time_increment := unat incr\<rparr> in
         if incr = 0 then Inr (out', False)
         else bindE (vop_ts_incr (unat incr) (vop_time_increment_resolution out)) (\<lambda>t.
           Inr (out'\<lparr>m4_ts_incr := t\<rparr>, True))))"

definition parse_video_object_layer :: "rtp_mpeg4 \<Rightarrow> byte list \<Rightarrow> nat \<Rightarrow> rtp_mpeg4 cres" where
  "parse_video_object_layer out d len =
     bindE (vol_resolution_offset d) (\<lambda>off.
     bindE (get_field d 1 off) (\<lambda>(b, off).
       if b = 0 then Inr out
       else bindE (get_field d 16 off) (\<lambda>(res, off).
         let out1 = out\<lparr>vop_time_increment_resolution := unat res\<rparr> in
         bindE (get_field d 1 off) (\<lambda>(b, off).
           if b = 0 then Inr out1
           else bindE (parse_fixed_rate (out1\<lparr>vtir_bitlen := bit_length (unat res)\<rparr>) d off) (\<lambda>(out2, ok).
             if ok then Inr (keep_bufs out2 (take len d)) else Inr out2)))))"

text \<open>The run of one bits of \<open>modulo_time_base\<close>; the offset behind it.\<close>

function modulo_time_base :: "byte list \<Rightarrow> nat \<Rightarrow> nat \<Rightarrow> nat cres" where
  "modulo_time_base d len off =
     (if off div 8 < len then
        bindE (rd d (off div 8)) (\<lambda>b.
          if drop_bit (7 - off mod 8) b AND 1 = 0 then Inr (off + 1) else modulo_time_base d len (off + 1))
      else Inr off)"
  by pat_completeness auto
termination
  by (relation "measure (\<lambda>(d, len, off). 8 * len - off)") auto

declare modulo_time_base.simps [simp del]

definition parse_video_object_plane :: "rtp_mpeg4 \<Rightarrow> byte list \<Rightarrow> nat \<Rightarrow> rtp_mpeg4 cres" where
  "parse_video_object_plane out0 d len =
     bindE (if m4_config out0 \<noteq> [] then finish_config out0 else Inr out0) (\<lambda>out.
       if \<not> m4_init_done out then Inr out
       else bindE (get_field d 2 32) (\<lambda>(vop_coding_type, off).
         bindE (modulo_time_base d len off) (\<lambda>off.
         bindE (get_field d 1 off) (\<lambda>(b, off).
           if b = 0 then Inr out
           else bindE (get_field d (vtir_bitlen out) off) (\<lambda>_.
             Inr (fst (add_to_rtp_buf out (take len d))))))))"

definition parse_mpeg4_frame :: "rtp_mpeg4 \<Rightarrow> byte list \<Rightarrow> nat \<Rightarrow> (rtp_mpeg4 \<times> bool) cres" where
  "parse_mpeg4_frame out d len =
     (if length d < 4 then Inl Fault
      else let start_code = GET_32 d;
               other = (\<lambda>r. bindE r (\<lambda>out'. Inr (out', False)))
      in if start_code = 0x1B0 then other (parse_visual_object_sequence out d len)
         else if start_code = 0x1B2 then other (parse_1b2 out d len)
         else if start_code = 0x1B5 then other (parse_visual_object out d len)
         else if 0x100 \<le> start_code \<and> start_code \<le> 0x11F then other (parse_video_object out d len)
         else if 0x120 \<le> start_code \<and> start_code \<le> 0x12F then other (parse_video_object_layer out d len)
         else if start_code = 0x1B6
         then bindE (parse_video_object_plane out d len) (\<lambda>out'. Inr (out', True))
         else Inr (out, False))"

definition element_length :: "byte list \<Rightarrow> nat" where
  "element_length d = (if find_next_code d = 0 then length d else find_next_code d)"

lemma element_length_bounds: "d \<noteq> [] \<Longrightarrow> 0 < element_length d \<and> element_length d \<le> length d"
  using find_next_code_bounds [of d "find_next_code d"] by (auto simp: element_length_def)

function mpeg4_elements :: "rtp_mpeg4 \<Rightarrow> byte list \<Rightarrow> rtp_mpeg4 cres" where
  "mpeg4_elements out d =
     (if d = [] then Inr out
      else bindE (parse_mpeg4_frame out d (element_length d)) (\<lambda>(out', _).
        mpeg4_elements out' (drop (element_length d) d)))"
  by pat_completeness auto
termination
  using element_length_bounds by (relation "measure (\<lambda>(out, d). length d)") auto

declare mpeg4_elements.simps [simp del]

definition mpeg4_process_frame :: "rtp_mpeg4 \<Rightarrow> byte list \<Rightarrow> u32 \<Rightarrow> (rtp_mpeg4 \<times> bool) cres" where
  "mpeg4_process_frame out d ts =
     bindE (mpeg4_elements (out\<lparr>m4_iov := [], m4_timestamp := ts\<rparr>) d) (\<lambda>out'. Inr (out', m4_init_done out'))"

definition mpeg4_get_sdp :: "rtp_mpeg4 \<Rightarrow> int \<Rightarrow> int \<Rightarrow> string option" where
  "mpeg4_get_sdp out pt port =
     (if \<not> m4_init_done out then None
      else Some (''m=video '' @ dec_int port @ '' RTP/AVP '' @ dec_int pt @ crlf @
        ''a=rtpmap:'' @ dec_int pt @ '' MP4V-ES/90000'' @ crlf @
        ''a=fmtp:'' @ dec_int pt @ '' '' @ fmtp out @ crlf))"

section \<open>Sending\<close>

text \<open>
  The element vector is walked with the offset \<open>off\<close> into its first element; \<open>v\<close> holds the
  pieces of the packet under construction and \<open>space\<close> what it can still take.
\<close>

partial_function (option) mpeg4_loop ::
  "'w sender \<Rightarrow> 'w \<Rightarrow> u32 \<Rightarrow> nat \<Rightarrow> byte list list \<Rightarrow> nat \<Rightarrow> byte list list \<Rightarrow> nat \<Rightarrow> ('w \<times> bool) option" where
  "mpeg4_loop send w ts mx es off v space =
     (case es of
        [] \<Rightarrow> Some (send w (v, ts, True))
      | e # r \<Rightarrow>
          (if space < length e - off then
             (let (w', ok) = send w (v @ [take space (drop off e)], ts, False)
              in if ok then mpeg4_loop send w' ts mx es (off + space) [] mx else Some (w', False))
           else mpeg4_loop send w ts mx r 0 (v @ [drop off e]) (space - (length e - off))))"

definition mpeg4_send :: "'w sender \<Rightarrow> 'w \<Rightarrow> nat \<Rightarrow> rtp_mpeg4 \<Rightarrow> ('w \<times> bool) option" where
  "mpeg4_send send w mx out = mpeg4_loop send w (m4_timestamp out) mx (m4_iov out) 0 [] mx"

section \<open>The packets\<close>

lemma mpeg4_loop_runs:
  assumes mx: "0 < mx"
  shows "off \<le> length (concat (take 1 es)) \<Longrightarrow> length (concat v) + space = mx \<Longrightarrow>
    length v + length es \<le> n \<Longrightarrow>
    \<exists>ps. mpeg4_loop collect qs ts mx es off v space = Some (qs @ ps, True) \<and>
      concat (map payload ps) = concat v @ drop off (concat es) \<and> last_marked ps \<and>
      (\<forall>p\<in>set ps. rtp_time p = ts \<and> length (payload p) \<le> mx \<and> length (fst p) \<le> n) \<and>
      (\<forall>p\<in>set (butlast ps). length (payload p) = mx)"
proof (induction "2 * (length (concat es) - off) + length es + (if space = 0 then 1 else 0)"
    arbitrary: es off v space qs rule: less_induct)
  case less
  show ?case
  proof (cases es)
    case Nil
    with less.prems show ?thesis
      by (intro exI [of _ "[(v, ts, True)]"]) (subst mpeg4_loop.simps, simp add: collect_def)
  next
    case (Cons e r)
    let ?len = "length e - off"
    show ?thesis
    proof (cases "space < ?len")
      case True
      let ?p = "(v @ [take space (drop off e)], ts, False)"
      have "2 * (length (concat es) - (off + space)) + length es + (if mx = 0 then 1 else 0)
          < 2 * (length (concat es) - off) + length es + (if space = 0 then 1 else 0)"
        using True Cons mx by auto
      note ih = less.hyps [OF this, of "[]" "qs @ [?p]"]
      have "off + space \<le> length (concat (take 1 es))" "length (concat []) + mx = mx"
        "length ([] :: byte list list) + length es \<le> n" using True Cons less.prems by auto
      from ih [OF this] obtain ps where ps:
        "mpeg4_loop collect (qs @ [?p]) ts mx es (off + space) [] mx = Some ((qs @ [?p]) @ ps, True)"
        "concat (map payload ps) = concat [] @ drop (off + space) (concat es)" "last_marked ps"
        "\<forall>p\<in>set ps. rtp_time p = ts \<and> length (payload p) \<le> mx \<and> length (fst p) \<le> n"
        "\<forall>p\<in>set (butlast ps). length (payload p) = mx"
        by blast
      have "ps \<noteq> []" using ps(3) by (auto simp: last_marked_def)
      have "mpeg4_loop collect qs ts mx es off v space = Some (qs @ ?p # ps, True)"
        using ps(1) True Cons by (subst mpeg4_loop.simps) (simp add: collect_def)
      moreover have "concat (map payload (?p # ps)) = concat v @ drop off (concat es)"
      proof -
        have "drop off (concat es) = take space (drop off (concat es)) @ drop (off + space) (concat es)"
          by (metis append_take_drop_id drop_drop add.commute)
        moreover have "take space (drop off (concat es)) = take space (drop off e)"
          using True Cons by simp
        ultimately show ?thesis using ps(2) by simp
      qed
      moreover have "last_marked (?p # ps)" using ps(3) \<open>ps \<noteq> []\<close> by (simp add: last_marked_Cons)
      moreover have "length (payload ?p) = mx" "rtp_time ?p = ts" "length (fst ?p) \<le> n"
        using True less.prems(2,3) Cons by auto
      moreover from this have "\<forall>p\<in>set (?p # ps). rtp_time p = ts \<and> length (payload p) \<le> mx \<and> length (fst p) \<le> n"
        using ps(4) by simp
      moreover have "\<forall>p\<in>set (butlast (?p # ps)). length (payload p) = mx"
        using ps(5) calculation(4) \<open>ps \<noteq> []\<close> by simp
      ultimately show ?thesis by (intro exI [of _ "?p # ps"]) blast
    next
      case False
      have step: "mpeg4_loop collect qs ts mx es off v space
          = mpeg4_loop collect qs ts mx r 0 (v @ [drop off e]) (space - ?len)"
        using False Cons by (subst mpeg4_loop.simps) simp
      have off: "off \<le> length e" using less.prems(1) Cons by simp
      then have dr: "drop off (concat es) = drop off e @ concat r" using Cons by simp
      have "2 * (length (concat r) - 0) + length r + (if space - ?len = 0 then 1 else 0)
          < 2 * (length (concat es) - off) + length es + (if space = 0 then 1 else 0)"
        using False Cons off by auto
      from less.hyps [OF this, of "v @ [drop off e]" qs] show ?thesis
        using less.prems(2,3) False Cons unfolding step dr by auto
    qed
  qed
qed

text \<open>
  C33. Sending an MPEG-4 frame always ends. The packets together are the elements of the frame
  in order; every packet is filled to the limit of the endpoint but the last, which has the
  marker, and no packet needs more pieces than the 31 that the vector of the code has room for
  behind the RTP header.
\<close>

theorem mpeg4_send_fills_packets:
  assumes "0 < mx" "length (m4_iov out) \<le> 24"
  shows "\<exists>ps. mpeg4_send collect [] mx out = Some (ps, True) \<and>
    concat (map payload ps) = concat (m4_iov out) \<and> last_marked ps \<and>
    (\<forall>p\<in>set ps. rtp_time p = m4_timestamp out \<and> length (payload p) \<le> mx \<and> length (fst p) \<le> 31) \<and>
    (\<forall>p\<in>set (butlast ps). length (payload p) = mx)"
  using mpeg4_loop_runs [OF assms(1), of 0 "m4_iov out" "[]" mx 31 "[]" "m4_timestamp out"] assms(2)
  by (simp add: mpeg4_send_def)

section \<open>The elements of a frame\<close>

function elements :: "byte list \<Rightarrow> byte list list" where
  "elements d = (if d = [] then [] else take (element_length d) d # elements (drop (element_length d) d))"
  by pat_completeness auto
termination
  using element_length_bounds by (relation "measure length") auto

declare elements.simps [simp del]

lemma concat_elements: "concat (elements d) = d"
  by (induction d rule: elements.induct) (subst elements.simps, simp)

definition m4_inv :: "rtp_mpeg4 \<Rightarrow> bool" where
  "m4_inv out \<longleftrightarrow> length (m4_iov out) \<le> 24 \<and> length (m4_config out) \<le> 512 \<and>
     (m4_init_done out \<longrightarrow> length (fmtp out) < 600)"

definition m4_step :: "byte list \<Rightarrow> rtp_mpeg4 \<Rightarrow> rtp_mpeg4 \<Rightarrow> bool" where
  "m4_step e out out' \<longleftrightarrow> (m4_inv out \<longrightarrow> m4_inv out') \<and> (m4_iov out' = m4_iov out \<or> m4_iov out' = m4_iov out @ [e])"

lemma m4_step_refl: "m4_step e out out"
  by (simp add: m4_step_def)

lemma m4_step_bufs:
  "m4_step e out (both_bufs out e)" "m4_step e out (keep_bufs out e)" "m4_step e out (fst (add_to_rtp_buf out e))"
  by (auto simp: m4_step_def m4_inv_def both_bufs_def keep_bufs_def add_to_config_def add_to_rtp_buf_def)

lemma m4_step_upd:
  assumes "m4_inv out \<longrightarrow> m4_inv out1" "m4_iov out1 = m4_iov out" "m4_step e out1 out'"
  shows "m4_step e out out'"
  using assms by (auto simp: m4_step_def)

definition m4_same :: "rtp_mpeg4 \<Rightarrow> rtp_mpeg4 \<Rightarrow> bool" where
  "m4_same out out1 \<longleftrightarrow> m4_iov out1 = m4_iov out \<and> m4_config out1 = m4_config out \<and>
     fmtp out1 = fmtp out \<and> m4_init_done out1 = m4_init_done out"

lemma m4_same_step: "m4_same out out1 \<Longrightarrow> m4_step e out1 out' \<Longrightarrow> m4_step e out out'"
  by (auto simp: m4_same_def m4_step_def m4_inv_def)

lemma parse_fixed_rate_same: "parse_fixed_rate out d off = Inr (out', ok) \<Longrightarrow> m4_same out out'"
  by (auto simp: parse_fixed_rate_def m4_same_def bindE_eq_Inr Let_def split: prod.splits if_splits)

lemma m4_same_upd [simp]:
  "m4_same (out\<lparr>vop_time_increment_resolution := r, vtir_bitlen := b\<rparr>) out1 \<longleftrightarrow> m4_same out out1"
  "m4_same out (out\<lparr>vop_time_increment_resolution := r\<rparr>)"
  by (simp_all add: m4_same_def)

lemma parse_video_object_layer_step: "parse_video_object_layer out d len = Inr out' \<Longrightarrow> m4_step (take len d) out out'"
  unfolding parse_video_object_layer_def bindE_eq_Inr Let_def
  by (auto simp: bindE_eq_Inr m4_step_refl dest!: parse_fixed_rate_same split: prod.splits if_splits
      intro: m4_same_step [OF _ m4_step_refl] m4_same_step [OF _ m4_step_bufs(2)])
    (metis m4_same_step m4_same_upd(2) m4_step_refl)

lemma finish_config_step: "finish_config out = Inr out1 \<Longrightarrow> (m4_inv out \<longrightarrow> m4_inv out1) \<and> m4_iov out1 = m4_iov out"
  by (auto simp: finish_config_def m4_inv_def Let_def split: if_splits)

lemma parse_video_object_plane_step: "parse_video_object_plane out d len = Inr out' \<Longrightarrow> m4_step (take len d) out out'"
proof -
  assume "parse_video_object_plane out d len = Inr out'"
  then obtain out1 where 1: "(if m4_config out \<noteq> [] then finish_config out else Inr out) = Inr out1"
    and 2: "out' = out1 \<or> out' = fst (add_to_rtp_buf out1 (take len d))"
    unfolding parse_video_object_plane_def bindE_eq_Inr by (auto simp: bindE_eq_Inr split: prod.splits if_splits)
  from 1 have "(m4_inv out \<longrightarrow> m4_inv out1) \<and> m4_iov out1 = m4_iov out"
    using finish_config_step by (auto split: if_splits)
  with 2 m4_step_upd m4_step_refl m4_step_bufs(3) show ?thesis by metis
qed

lemma parse_mpeg4_frame_step: "parse_mpeg4_frame out d len = Inr (out', b) \<Longrightarrow> m4_step (take len d) out out'"
  unfolding parse_mpeg4_frame_def Let_def
  by (auto simp: bindE_eq_Inr parse_visual_object_sequence_def parse_1b2_def parse_visual_object_def
      parse_video_object_def m4_step_refl m4_step_bufs parse_video_object_layer_step parse_video_object_plane_step
      m4_inv_def split: prod.splits if_splits intro: m4_step_upd [OF _ _ m4_step_bufs(1)])

lemma mpeg4_elements_step:
  "mpeg4_elements out d = Inr out' \<Longrightarrow>
     (m4_inv out \<longrightarrow> m4_inv out') \<and> (\<exists>es. m4_iov out' = m4_iov out @ es \<and> subseq es (elements d))"
proof (induction out d rule: mpeg4_elements.induct)
  case (1 out d)
  show ?case
  proof (cases "d = []")
    case True
    with "1.prems" show ?thesis by (subst (asm) mpeg4_elements.simps) (simp add: elements.simps)
  next
    case False
    with "1.prems" obtain out1 b where p: "parse_mpeg4_frame out d (element_length d) = Inr (out1, b)"
      and r: "mpeg4_elements out1 (drop (element_length d) d) = Inr out'"
      by (subst (asm) mpeg4_elements.simps) (auto simp: bindE_eq_Inr)
    from "1.IH" [OF False p refl r] obtain es where es: "m4_inv out1 \<longrightarrow> m4_inv out'"
      "m4_iov out' = m4_iov out1 @ es" "subseq es (elements (drop (element_length d) d))" by blast
    have "elements d = take (element_length d) d # elements (drop (element_length d) d)"
      using False by (subst elements.simps) simp
    with es parse_mpeg4_frame_step [OF p] show ?thesis by (auto simp: m4_step_def)
  qed
qed

text \<open>
  Whatever the frame holds, what is queued for sending is a subsequence of the elements
  that the start codes of the frame delimit, each complete and in order; and the bounds of
  the element vector, of the configuration buffer and of the published text are kept.
\<close>

lemma mpeg4_process_frame_elements:
  assumes "mpeg4_process_frame out d ts = Inr (out', ok)" "m4_inv out"
  shows "subseq (m4_iov out') (elements d) \<and> concat (elements d) = d \<and> m4_inv out'"
proof -
  from assms(1) have "mpeg4_elements (out\<lparr>m4_iov := [], m4_timestamp := ts\<rparr>) d = Inr out'"
    by (auto simp: mpeg4_process_frame_def bindE_eq_Inr)
  from mpeg4_elements_step [OF this] assms(2) show ?thesis by (auto simp: m4_inv_def concat_elements)
qed

section \<open>The published configuration\<close>

definition hex_value :: "char \<Rightarrow> nat" where
  "hex_value c = (if of_char c < (58 :: nat) then of_char c - 48 else of_char c - 55)"

fun unhex :: "string \<Rightarrow> byte list" where
  "unhex (a # b # r) = word_of_nat (16 * hex_value a + hex_value b) # unhex r"
| "unhex r = []"

lemma hex_value_digit: "n < 16 \<Longrightarrow> hex_value (hex_digit n) = n"
proof -
  have "\<forall>n\<in>set [0..<16]. hex_value (hex_digit n) = n" by code_simp
  moreover assume "n < 16"
  ultimately show ?thesis by auto
qed

lemma unhex_hex_bytes: "unhex (hex_bytes bs) = bs"
proof (induction bs)
  case (Cons b bs)
  have "unat b < 2 ^ LENGTH(8)" by (rule unsigned_less)
  then have "unat b < 256" by simp
  then have "unat b div 16 < 16" "unat b mod 16 < 16" by simp_all
  with Cons show ?case by (simp add: hex_bytes_def hex_value_digit)
qed (simp add: hex_bytes_def)

lemma length_hex_bytes: "length (hex_bytes bs) = 2 * length bs"
  by (induction bs) (simp_all add: hex_bytes_def)

definition fmtp_prefix :: "byte \<Rightarrow> string" where
  "fmtp_prefix p = ''profile-level-id='' @ dec_int (uint p) @ '';config=''"

lemma fmtp_prefix_length: "26 \<le> length (fmtp_prefix p) \<and> length (fmtp_prefix p) \<le> 28"
proof -
  have "unat p < 2 ^ LENGTH(8)" by (rule unsigned_less)
  then have "unat p < 10 ^ Suc 2" by simp
  then have "length (dec_int (uint p)) \<le> 3"
    using length_dec_nat_le [of "unat p" 2] by (simp add: dec_int_nonneg)
  moreover have "0 < length (dec_int (uint p))" by (simp add: dec_int_nonneg)
  moreover have "length (fmtp_prefix p) = 25 + length (dec_int (uint p))" by (simp add: fmtp_prefix_def)
  ultimately show ?thesis by arith
qed

lemma finish_config_alt:
  "finish_config out =
     (if length (fmtp_prefix (pali out)) + 2 * length (m4_config out) < 600
      then Inr (out\<lparr>fmtp := fmtp_prefix (pali out) @ hex_bytes (m4_config out), m4_config := [], m4_init_done := True\<rparr>)
      else Inl Fault)"
  unfolding finish_config_def fmtp_prefix_def Let_def append_assoc length_append length_hex_bytes
  by (simp only: add.assoc)

lemma finish_config_ok:
  "length (m4_config out) \<le> 285 \<Longrightarrow> finish_config out =
     Inr (out\<lparr>fmtp := fmtp_prefix (pali out) @ hex_bytes (m4_config out), m4_config := [], m4_init_done := True\<rparr>)"
  using fmtp_prefix_length [of "pali out"] by (simp add: finish_config_alt)

lemma parse_video_object_plane_published:
  assumes "parse_video_object_plane out d len = Inr out'" "m4_config out \<noteq> []" "finish_config out = Inr out1"
  shows "fmtp out' = fmtp out1 \<and> m4_config out' = m4_config out1 \<and> m4_init_done out' = m4_init_done out1"
  using assms unfolding parse_video_object_plane_def
  by (auto simp: bindE_eq_Inr add_to_rtp_buf_def split: prod.splits if_splits)

text \<open>
  The first picture after configuration headers of up to 285 bytes publishes them: the
  parameter of the SDP names the profile, and its \<open>config\<close> part decodes to exactly the
  headers; the collection starts anew.
\<close>

lemma mpeg4_config_published:
  assumes "parse_mpeg4_frame out d len = Inr (out', b)" "GET_32 d = 0x1B6"
    and "m4_config out \<noteq> []" "length (m4_config out) \<le> 285"
  shows "b \<and> m4_config out' = [] \<and> mpeg4_get_sdp out' pt port \<noteq> None \<and>
    (\<exists>hex. fmtp out' = fmtp_prefix (pali out) @ hex \<and> unhex hex = m4_config out)"
proof -
  from assms(1,2) have b: "b" and p: "parse_video_object_plane out d len = Inr out'"
    by (auto simp: parse_mpeg4_frame_def Let_def bindE_eq_Inr split: if_splits)
  from parse_video_object_plane_published [OF p assms(3) finish_config_ok [OF assms(4)]] b show ?thesis
    by (simp add: mpeg4_get_sdp_def unhex_hex_bytes)
qed

text \<open>
  The buffer of the published text is too small for the configuration buffer: headers of
  287 to 512 bytes are collected, and the first picture after them makes \<open>finish_config\<close>
  write behind the 600 bytes of \<open>fmtp\<close>.
\<close>

lemma mpeg4_config_overflow:
  assumes "4 \<le> length d" "GET_32 d = 0x1B6" "287 \<le> length (m4_config out)"
  shows "parse_mpeg4_frame out d len = Inl Fault"
proof -
  have "finish_config out = Inl Fault"
    using fmtp_prefix_length [of "pali out"] assms(3)
    by (simp add: finish_config_alt)
  moreover have "m4_config out \<noteq> []" using assms(3) by auto
  ultimately show ?thesis
    using assms(1,2) by (simp add: parse_mpeg4_frame_def parse_video_object_plane_def)
qed

text \<open>A short stream: configuration headers, a picture, and a header of 300 bytes.\<close>

definition demo_m4 :: rtp_mpeg4 where
  "demo_m4 = \<lparr>m4_iov = [], m4_config = [], pali = 0, fmtp = [], m4_init_done = False, m4_ts_incr = 0,
     vop_time_increment_resolution = 0, vop_time_increment = 0, vtir_bitlen = 0, m4_timestamp = 0\<rparr>"

definition demo_m4_frame :: "byte list" where
  "demo_m4_frame = [0, 0, 1, 0xB0, 3, 0, 0, 1, 0xB5, 9, 9, 9, 0, 0, 1, 0xB6, 0x50, 0x55, 0x55, 0x55]"

theorem mpeg4_process_frame_elements_witness:
  "\<exists>out' ok. mpeg4_process_frame demo_m4 demo_m4_frame 9 = Inr (out', ok) \<and>
     subseq (m4_iov out') (elements demo_m4_frame) \<and> m4_inv out' \<and> length (m4_iov out') = 3"
proof -
  have "m4_inv demo_m4" by (simp add: m4_inv_def demo_m4_def)
  moreover have "(case mpeg4_process_frame demo_m4 demo_m4_frame 9 of
      Inl _ \<Rightarrow> False | Inr (out', ok) \<Rightarrow> length (m4_iov out') = 3)" by code_simp
  ultimately show ?thesis
    using mpeg4_process_frame_elements [of demo_m4 demo_m4_frame 9] by (auto split: sum.splits)
qed

theorem mpeg4_send_fills_packets_witness:
  "\<exists>ps. mpeg4_send collect [] 4 (demo_m4\<lparr>m4_iov := [[1, 2, 3], [4, 5, 6, 7, 8, 9]]\<rparr>) = Some (ps, True) \<and>
    concat (map payload ps) = [1, 2, 3, 4, 5, 6, 7, 8, 9] \<and> last_marked ps"
  using mpeg4_send_fills_packets [of 4 "demo_m4\<lparr>m4_iov := [[1, 2, 3], [4, 5, 6, 7, 8, 9]]\<rparr>"] by auto

theorem mpeg4_config_published_witness:
  "\<exists>out'. parse_mpeg4_frame (demo_m4\<lparr>m4_config := [0, 0, 1, 0xB0, 3], pali := 3\<rparr>)
      [0, 0, 1, 0xB6, 0x50, 0x55, 0x55, 0x55] 8 = Inr (out', True) \<and>
    (\<exists>hex. fmtp out' = fmtp_prefix 3 @ hex \<and> unhex hex = [0, 0, 1, 0xB0, 3])"
proof -
  let ?out = "demo_m4\<lparr>m4_config := [0, 0, 1, 0xB0, 3], pali := 3\<rparr>"
  let ?d = "[0, 0, 1, 0xB6, 0x50, 0x55, 0x55, 0x55] :: byte list"
  have "case parse_mpeg4_frame ?out ?d 8 of Inl _ \<Rightarrow> False | Inr _ \<Rightarrow> True" by code_simp
  then obtain out' b where r: "parse_mpeg4_frame ?out ?d 8 = Inr (out', b)" by (auto split: sum.splits)
  have "GET_32 ?d = 0x1B6" by code_simp
  from mpeg4_config_published [OF r this, of 96 5000] r show ?thesis by simp
qed

theorem mpeg4_config_overflow_witness:
  "parse_mpeg4_frame (demo_m4\<lparr>m4_config := replicate 300 7\<rparr>) [0, 0, 1, 0xB6, 0x50, 0x55] 6 = Inl Fault"
proof -
  have "GET_32 [0, 0, 1, 0xB6, 0x50, 0x55] = 0x1B6" by code_simp
  from mpeg4_config_overflow [OF _ this] show ?thesis by simp
qed

end
