(* ===== verification/Rtp_Mpv.thy ===== *)
theory Rtp_Mpv
  imports Rtp_Media
begin

text \<open>
  \<open>rtp-mpv.c\<close>: MPEG-1 and MPEG-2 video over RTP (RFC 2250). A frame is cut at its start codes
  into blocks; the sequence header is saved and repeated before every I picture. A block is
  the rest of the frame from its start code and its length. Reading behind the frame is a
  fault, and so is an access outside the fixed arrays \<open>vsh\<close> and \<open>v\<close>.
\<close>

section \<open>State\<close>

record rtp_mpv =
  blk :: "(byte list \<times> nat) list"
  temporal_reference :: u32
  picture_type :: u32
  vectors :: u32
  vsh :: "byte list"
  mpv_init_done :: bool
  mpv_ts_incr :: u32
  mpv_timestamp :: u32

definition new_rtp_media_mpv :: "rtp_mpv \<Rightarrow> rtp_mpv" where
  "new_rtp_media_mpv g = g\<lparr>mpv_init_done := False, mpv_timestamp := 0\<rparr>"

definition frame_rate_tab :: "(int \<times> int) list" where
  "frame_rate_tab =
     [(0, 0), (1001, 24000), (1, 24), (1, 25), (1001, 30000), (1, 30), (1, 50), (1001, 60000), (1, 60),
      (0, 0), (0, 0), (0, 0), (0, 0), (0, 0), (0, 0), (0, 0)]"

section \<open>Parsing\<close>

text \<open>The frame rate code indexes the table; a forbidden or reserved code divides by zero.\<close>

definition parse_video_sequence_header :: "rtp_mpv \<Rightarrow> byte list \<Rightarrow> rtp_mpv cres" where
  "parse_video_sequence_header out d =
     bindE (get_field d 4 (32 + 12 + 12 + 4)) (\<lambda>(frc, _).
       let (a, b) = frame_rate_tab ! unat frc
       in if b = 0 then Inl Fault
          else Inr (out\<lparr>mpv_ts_incr := word_of_int (90000 * a div b), mpv_init_done := True\<rparr>))"

text \<open>The motion vector codes of P and B pictures.\<close>

definition forward_vectors :: "byte list \<Rightarrow> nat \<Rightarrow> nat \<Rightarrow> (u32 \<times> nat) cres" where
  "forward_vectors d len off =
     bindE (get_field d 1 off) (\<lambda>(ffv, off).
     bindE (if 8 < len then get_field d 3 off
            else bindE (get_field d 2 off) (\<lambda>(c, off). Inr (push_bit 1 c, off))) (\<lambda>(ffc, off).
     Inr (push_bit 3 ffv OR ffc, off)))"

definition backward_vectors :: "byte list \<Rightarrow> nat \<Rightarrow> u32 cres" where
  "backward_vectors d off =
     bindE (get_field d 1 off) (\<lambda>(fbv, off).
     bindE (get_field d 3 off) (\<lambda>(bfc, _).
     Inr (push_bit 7 fbv OR push_bit 4 bfc)))"

definition parse_picture_header :: "rtp_mpv \<Rightarrow> byte list \<Rightarrow> nat \<Rightarrow> rtp_mpv cres" where
  "parse_picture_header out d len =
     (if \<not> mpv_init_done out then Inr out
      else bindE (get_field d 10 32) (\<lambda>(tr, off). bindE (get_field d 3 off) (\<lambda>(pt, off).
        let out1 = out\<lparr>mpv_timestamp := mpv_timestamp out + mpv_ts_incr out, temporal_reference := tr,
                        picture_type := pt, vectors := 0\<rparr> in
        if pt = 2 \<or> pt = 3
        then bindE (forward_vectors d len (off + 16)) (\<lambda>(v, off).
               if pt = 3 \<and> 8 < len
               then bindE (backward_vectors d off) (\<lambda>v'. Inr (out1\<lparr>vectors := v OR v'\<rparr>))
               else Inr (out1\<lparr>vectors := v\<rparr>))
        else Inr out1)))"

definition block_length :: "byte list \<Rightarrow> nat" where
  "block_length d = (if find_next_code d = 0 then length d else find_next_code d)"

lemma block_length_bounds: "d \<noteq> [] \<Longrightarrow> 0 < block_length d \<and> block_length d \<le> length d"
  using find_next_code_bounds [of d "find_next_code d"] by (auto simp: block_length_def)

text \<open>One block: of the picture, or of the headers before it.\<close>

definition mpv_picture_block :: "rtp_mpv \<Rightarrow> byte list \<Rightarrow> nat \<Rightarrow> rtp_mpv cres" where
  "mpv_picture_block out d flen =
     bindE (if GET_32 d = 0x100 then parse_picture_header out d flen else Inr out) (\<lambda>out'.
       Inr (out'\<lparr>blk := blk out' @ [(d, flen)]\<rparr>))"

definition mpv_header_block :: "rtp_mpv \<Rightarrow> bool \<Rightarrow> byte list \<Rightarrow> nat \<Rightarrow> (rtp_mpv \<times> bool) cres" where
  "mpv_header_block out have_vsh d flen =
     (let seq = GET_32 d = 0x1B3 in
      bindE (if seq then parse_video_sequence_header (out\<lparr>vsh := []\<rparr>) d else Inr out) (\<lambda>out'.
        if \<not> have_vsh \<and> \<not> seq then Inr (out', False)
        else if length (vsh out') + flen \<le> 4096 then Inr (out'\<lparr>vsh := vsh out' @ take flen d\<rparr>, True)
        else Inl Fault))"

function mpv_blocks_of :: "rtp_mpv \<Rightarrow> bool \<Rightarrow> bool \<Rightarrow> byte list \<Rightarrow> rtp_mpv cres" where
  "mpv_blocks_of out in_picture have_vsh d =
     (if d = [] \<or> length (blk out) = 48 then Inr out
      else if length d < 4 then Inl Fault
      else let flen = block_length d; start_code = GET_32 d;
               in_picture = (in_picture \<or> start_code \<le> 0x1AF \<or> start_code = 0x1B8)
      in if in_picture
         then bindE (mpv_picture_block out d flen) (\<lambda>out'.
                mpv_blocks_of out' True have_vsh (drop flen d))
         else bindE (mpv_header_block out have_vsh d flen) (\<lambda>(out', have_vsh).
                mpv_blocks_of out' False have_vsh (drop flen d)))"
  by pat_completeness auto
termination
  using block_length_bounds by (relation "measure (\<lambda>(out, p, h, d). length d)") auto

declare mpv_blocks_of.simps [simp del]

definition mpv_process_frame :: "rtp_mpv \<Rightarrow> byte list \<Rightarrow> (rtp_mpv \<times> bool) cres" where
  "mpv_process_frame out d =
     bindE (mpv_blocks_of (out\<lparr>blk := []\<rparr>) False False d) (\<lambda>out'. Inr (out', mpv_init_done out'))"

definition mpv_get_sdp :: "int \<Rightarrow> int \<Rightarrow> string" where
  "mpv_get_sdp pt port = ''m=video '' @ dec_int port @ '' RTP/AVP 32'' @ crlf"

definition mpv_get_payload :: "int \<Rightarrow> int" where
  "mpv_get_payload pt = 32"

section \<open>Sending\<close>

definition vhdr :: "rtp_mpv \<Rightarrow> byte \<Rightarrow> byte list" where
  "vhdr out b2 = PUT_16 (uint (temporal_reference out)) @ [b2, ucast (vectors out)]"

definition pic_byte :: "rtp_mpv \<Rightarrow> byte" where
  "pic_byte out = ucast (picture_type out)"

definition is_slice :: "byte \<Rightarrow> bool" where
  "is_slice b \<longleftrightarrow> 0 < b \<and> b \<le> 0xAF"

text \<open>\<open>a > b\<close> for a \<open>size_t\<close> and an \<open>int\<close>: a negative \<open>b\<close> becomes a very large number.\<close>

definition size_gt :: "nat \<Rightarrow> int \<Rightarrow> bool" where
  "size_gt a b \<longleftrightarrow> 0 \<le> b \<and> b < int a"

text \<open>The fragments of a block behind the first one, each in a packet of its own.\<close>

partial_function (option) mpv_fragments ::
  "'w sender \<Rightarrow> 'w \<Rightarrow> rtp_mpv \<Rightarrow> int \<Rightarrow> byte list \<Rightarrow> nat \<Rightarrow> bool \<Rightarrow> nat \<Rightarrow> ('w \<times> bool) option" where
  "mpv_fragments send w out lim d len last_blk off =
     (if off < len then
        (let big = size_gt (len - off) lim;
             n = (if big then nat lim else len - off);
             b2 = (if big then pic_byte out else pic_byte out OR 0x08);
             (w', ok) = send w ([vhdr out b2, take n (drop off d)], mpv_timestamp out,
                                b2 AND 0x08 \<noteq> 0 \<and> last_blk)
         in if ok then mpv_fragments send w' out lim d len last_blk (off + n) else Some (w', False))
      else Some (w, True))"

text \<open>
  The blocks: \<open>vs\<close> are the pieces of the packet under construction behind the video header,
  \<open>b2\<close> the third byte of that header, \<open>space\<close> what the packet can still take. The array of
  the code holds the RTP header, the video header and 46 pieces.
\<close>

fun mpv_blocks ::
  "'w sender \<Rightarrow> 'w \<Rightarrow> rtp_mpv \<Rightarrow> int \<Rightarrow> (byte list \<times> nat) list \<Rightarrow> byte list list \<Rightarrow> byte \<Rightarrow> int
     \<Rightarrow> ('w \<times> bool) cres option" where
  "mpv_blocks send w out lim [] vs b2 space =
     Some (Inr (if vs \<noteq> [] then send w (vhdr out b2 # vs, mpv_timestamp out, True) else (w, True)))"
| "mpv_blocks send w out lim ((d, len) # bs) vs b2 space =
     (let min_space = (if lim < int len then 4 else int len);
          flush = space < min_space;
          (w, ok) = (if flush then send w (vhdr out b2 # vs, mpv_timestamp out, False) else (w, True));
          vs = (if flush then [] else vs);
          b2 = (if flush then pic_byte out else b2);
          space = (if flush then lim else space)
      in if \<not> ok then Some (Inr (w, False))
         else if length d < 4 \<or> 46 \<le> length vs then Some (Inl Fault)
         else let b2 = (if is_slice (d ! 3) then b2 OR 0x10 else b2)
         in if \<not> size_gt len space
            then mpv_blocks send w out lim bs (vs @ [take len d])
                   (if is_slice (d ! 3) then b2 OR 0x08 else b2) (space - int len)
            else let (w, ok) = send w (vhdr out (b2 AND NOT 0x08) # vs @ [take (nat space) d], mpv_timestamp out, False)
            in if \<not> ok then Some (Inr (w, False))
               else Option.bind (mpv_fragments send w out lim d len (bs = []) (nat space)) (\<lambda>(w, ok).
                 if ok then mpv_blocks send w out lim bs [] (pic_byte out) lim else Some (Inr (w, False))))"

definition mpv_send :: "'w sender \<Rightarrow> 'w \<Rightarrow> nat \<Rightarrow> rtp_mpv \<Rightarrow> ('w \<times> bool) cres option" where
  "mpv_send send w mx out =
     (let lim = int mx - 4 in
      if picture_type out = 1
      then mpv_blocks send w out lim (blk out) [vsh out] (pic_byte out OR 0x20) (lim - int (length (vsh out)))
      else mpv_blocks send w out lim (blk out) [] (pic_byte out) lim)"

section \<open>The packets\<close>

definition mpv_body :: "packet \<Rightarrow> byte list" where
  "mpv_body p = concat (tl (fst p))"

definition mpv_packet :: "rtp_mpv \<Rightarrow> int \<Rightarrow> packet \<Rightarrow> bool" where
  "mpv_packet out lim p \<longleftrightarrow>
     (\<exists>b2 r. fst p = vhdr out b2 # r \<and> b2 AND 7 = pic_byte out) \<and>
     int (length (mpv_body p)) \<le> lim \<and> rtp_time p = mpv_timestamp out"

lemma mpv_packetI:
  "b2 AND 7 = pic_byte out \<Longrightarrow> int (length (concat vs)) \<le> lim \<Longrightarrow>
     mpv_packet out lim (vhdr out b2 # vs, mpv_timestamp out, m)"
  by (auto simp: mpv_packet_def mpv_body_def)

text \<open>The flag bits of the header leave the picture type alone.\<close>

lemma flag_bits [simp]:
  "((b :: byte) OR 0x20) AND 7 = b AND 7" "(b OR 0x10) AND 7 = b AND 7" "(b OR 8) AND 7 = b AND 7"
  "(b AND - 9) AND 7 = b AND 7"
  by (simp_all add: bit.conj_disj_distrib2 and.assoc)

lemma eight_bit [simp]: "(((b :: byte) OR 8) AND 8) \<noteq> 0"
  by (simp add: bit.conj_disj_distrib2 or_eq_0_iff)

lemma mpv_fragments_runs:
  assumes lim: "0 < lim" and pt: "pic_byte out AND 7 = pic_byte out" "pic_byte out AND 8 = 0"
  shows "off < len \<Longrightarrow> len \<le> length d \<Longrightarrow>
    \<exists>ps. mpv_fragments collect qs out lim d len lb off = Some (qs @ ps, True) \<and>
      concat (map mpv_body ps) = drop off (take len d) \<and> (\<forall>p\<in>set ps. mpv_packet out lim p) \<and>
      (lb \<longrightarrow> last_marked ps) \<and> (\<not> lb \<longrightarrow> (\<forall>p\<in>set ps. \<not> marker p))"
proof (induction "len - off" arbitrary: off qs rule: less_induct)
  case less
  have stop: "mpv_fragments collect w out lim d len lb len = Some (w, True)" for w
    by (subst mpv_fragments.simps) simp
  show ?case
  proof (cases "size_gt (len - off) lim")
    case True
    let ?n = "nat lim"
    let ?p = "([vhdr out (pic_byte out), take ?n (drop off d)], mpv_timestamp out, False)"
    have n: "0 < ?n" "?n < len - off" using True lim by (auto simp: size_gt_def)
    then have "len - (off + ?n) < len - off" "off + ?n < len" by arith+
    from less.hyps [OF this less.prems(2), of "qs @ [?p]"] obtain ps where ps:
      "mpv_fragments collect (qs @ [?p]) out lim d len lb (off + ?n) = Some ((qs @ [?p]) @ ps, True)"
      "concat (map mpv_body ps) = drop (off + ?n) (take len d)" "\<forall>p\<in>set ps. mpv_packet out lim p"
      "lb \<longrightarrow> last_marked ps" "\<not> lb \<longrightarrow> (\<forall>p\<in>set ps. \<not> marker p)" by blast
    have "mpv_fragments collect qs out lim d len lb off = Some (qs @ ?p # ps, True)"
      using ps(1) True pt less.prems(1) by (subst mpv_fragments.simps) (simp add: collect_def)
    moreover have "concat (map mpv_body (?p # ps)) = drop off (take len d)"
    proof -
      have "drop off (take len d) = take ?n (drop off (take len d)) @ drop (off + ?n) (take len d)"
        by (metis append_take_drop_id drop_drop add.commute)
      moreover have "take ?n (drop off (take len d)) = take ?n (drop off d)"
        using n(2) by (simp add: drop_take min_def)
      ultimately show ?thesis using ps(2) by (simp add: mpv_body_def)
    qed
    moreover have "mpv_packet out lim ?p" using lim by (intro mpv_packetI pt) simp
    moreover have "lb \<longrightarrow> last_marked (?p # ps)"
      using ps(4) last_marked_append [of "[?p]" ps] by simp
    ultimately show ?thesis using ps(3,5) by (intro exI [of _ "?p # ps"]) simp
  next
    case False
    let ?p = "([vhdr out (pic_byte out OR 8), drop off (take len d)], mpv_timestamp out, lb)"
    have "mpv_fragments collect qs out lim d len lb off = Some (qs @ [?p], True)"
      using False less.prems stop by (subst mpv_fragments.simps) (simp add: collect_def drop_take)
    moreover have "mpv_packet out lim ?p"
      using False lim pt less.prems by (intro mpv_packetI) (auto simp: size_gt_def)
    ultimately show ?thesis by (intro exI [of _ "[?p]"]) (simp add: mpv_body_def)
  qed
qed

definition mpv_block_ok :: "byte list \<times> nat \<Rightarrow> bool" where
  "mpv_block_ok b \<longleftrightarrow> 4 \<le> length (fst b) \<and> snd b \<le> length (fst b)"

lemma mpv_blocks_flush:
  assumes "space < (if lim < int len then 4 else int len)" "4 \<le> lim"
  shows "mpv_blocks collect qs out lim ((d, len) # bs) vs b2 space =
    mpv_blocks collect (qs @ [(vhdr out b2 # vs, mpv_timestamp out, False)]) out lim ((d, len) # bs) [] (pic_byte out) lim"
proof -
  have 1: "(space < (if lim < int len then 4 else int len)) = True"
    "(lim < (if lim < int len then 4 else int len)) = False" using assms by auto
  show ?thesis
    unfolding mpv_blocks.simps Let_def 1 by (simp add: collect_def)
qed

text \<open>What a run of \<open>mpv_blocks\<close> sends, for the pieces \<open>vs\<close> and the blocks \<open>bs\<close>.\<close>

definition mpv_run :: "rtp_mpv \<Rightarrow> int \<Rightarrow> (byte list \<times> nat) list \<Rightarrow> byte list list \<Rightarrow> packet list \<Rightarrow> bool" where
  "mpv_run out lim bs vs ps \<longleftrightarrow>
     concat (map mpv_body ps) = concat vs @ concat (map (\<lambda>(d, len). take len d) bs) \<and>
     (\<forall>p\<in>set ps. mpv_packet out lim p) \<and> (vs \<noteq> [] \<or> bs \<noteq> [] \<longrightarrow> last_marked ps)"

lemma mpv_blocks_runs:
  assumes lim: "4 \<le> lim" and pt: "pic_byte out AND 7 = pic_byte out" "pic_byte out AND 8 = 0"
  shows "\<forall>b\<in>set bs. mpv_block_ok b \<Longrightarrow> b2 AND 7 = pic_byte out \<Longrightarrow> 0 \<le> space \<Longrightarrow>
    int (length (concat vs)) + space = lim \<Longrightarrow> length vs + length bs \<le> 46 \<Longrightarrow>
    \<exists>ps. mpv_blocks collect qs out lim bs vs b2 space = Some (Inr (qs @ ps, True)) \<and> mpv_run out lim bs vs ps"
proof (induction bs arbitrary: qs vs b2 space)
  case Nil
  then show ?case
    by (intro exI [of _ "if vs = [] then [] else [(vhdr out b2 # vs, mpv_timestamp out, True)]"])
      (auto simp: collect_def mpv_run_def mpv_body_def intro!: mpv_packetI)
next
  case (Cons b bs)
  obtain d len where b: "b = (d, len)" by (cases b)
  have d: "4 \<le> length d" "len \<le> length d" using Cons.prems(1) b by (auto simp: mpv_block_ok_def)
  have bs: "\<forall>b\<in>set bs. mpv_block_ok b" using Cons.prems(1) by simp
  have main: "\<exists>ps. mpv_blocks collect qs out lim (b # bs) vs b2 space = Some (Inr (qs @ ps, True)) \<and>
      mpv_run out lim (b # bs) vs ps"
    if "\<not> space < (if lim < int len then 4 else int len)" "b2 AND 7 = pic_byte out" "0 \<le> space"
      "int (length (concat vs)) + space = lim" "length vs + length bs < 46" for qs vs b2 space
  proof -
    let ?b2 = "if is_slice (d ! 3) then b2 OR 0x10 else b2"
    have min: "(space < (if lim < int len then 4 else int len)) = False" using that(1) by simp
    have b2: "?b2 AND 7 = pic_byte out" using that(2) by simp
    show ?thesis
    proof (cases "size_gt len space")
      case False
      let ?b3 = "if is_slice (d ! 3) then ?b2 OR 8 else ?b2"
      have b3: "?b3 AND 7 = pic_byte out" using that(2) by simp
      have len: "0 \<le> space - int len" using False that(3) by (simp add: size_gt_def)
      from Cons.IH [OF bs b3 len, of "vs @ [take len d]" qs] that(4,5) d(2) obtain ps where ps:
        "mpv_blocks collect qs out lim bs (vs @ [take len d]) ?b3 (space - int len) = Some (Inr (qs @ ps, True))"
        "mpv_run out lim bs (vs @ [take len d]) ps" by (auto simp: min_absorb2)
      have "mpv_blocks collect qs out lim (b # bs) vs b2 space = Some (Inr (qs @ ps, True))"
        using ps(1) False that(5) d(1) unfolding b mpv_blocks.simps Let_def min
        by (cases "is_slice (d ! 3)") simp_all
      with ps(2) b show ?thesis by (auto simp: mpv_run_def)
    next
      case True
      let ?p = "(vhdr out (?b2 AND NOT 8) # vs @ [take (nat space) d], mpv_timestamp out, False)"
      let ?off = "nat space"
      have off: "?off < len" using True unfolding size_gt_def by arith
      have "0 < lim" using lim by simp
      from mpv_fragments_runs [OF this pt off d(2), of "qs @ [?p]" "bs = []"] obtain fs where fs:
        "mpv_fragments collect (qs @ [?p]) out lim d len (bs = []) ?off = Some ((qs @ [?p]) @ fs, True)"
        "concat (map mpv_body fs) = drop ?off (take len d)" "\<forall>p\<in>set fs. mpv_packet out lim p"
        "bs = [] \<longrightarrow> last_marked fs" "bs \<noteq> [] \<longrightarrow> (\<forall>p\<in>set fs. \<not> marker p)" by blast
      have "0 \<le> lim" "int (length (concat ([] :: byte list list))) + lim = lim"
        "length ([] :: byte list list) + length bs \<le> 46" using lim that(5) by simp_all
      from Cons.IH [OF bs pt(1) this, of "(qs @ [?p]) @ fs"] obtain ps where ps:
        "mpv_blocks collect ((qs @ [?p]) @ fs) out lim bs [] (pic_byte out) lim = Some (Inr (((qs @ [?p]) @ fs) @ ps, True))"
        "mpv_run out lim bs [] ps" by blast
      have "mpv_blocks collect qs out lim (b # bs) vs b2 space = Some (Inr (qs @ ?p # fs @ ps, True))"
        using ps(1) fs(1) True that(5) d(1) unfolding b mpv_blocks.simps Let_def min
        by (cases "is_slice (d ! 3)") (simp_all add: collect_def)
      moreover have "mpv_run out lim (b # bs) vs (?p # fs @ ps)"
      proof -
        have "take ?off d @ drop ?off (take len d) = take len d"
          using off by (metis append_take_drop_id less_imp_le min_absorb1 take_take)
        moreover have "mpv_packet out lim ?p"
          using b2 that(3,4) by (intro mpv_packetI) auto
        moreover have "bs = [] \<Longrightarrow> ps = []"
          using ps(1) by simp
        moreover have "last_marked (?p # fs @ ps)"
        proof (cases "bs = []")
          case True
          with calculation(3) fs(4) last_marked_append [of "[?p]" fs] show ?thesis by simp
        next
          case False
          with fs(5) ps(2) have "last_marked (fs @ ps)" by (intro last_marked_append) (auto simp: mpv_run_def)
          with last_marked_append [of "[?p]" "fs @ ps"] show ?thesis by simp
        qed
        ultimately show ?thesis
          using fs(2,3) ps(2) b by (auto simp: mpv_run_def mpv_body_def)
      qed
      ultimately show ?thesis by blast
    qed
  qed
  show ?case
  proof (cases "space < (if lim < int len then 4 else int len)")
    case False
    with main [of space b2 vs qs] Cons.prems show ?thesis by simp
  next
    case True
    let ?p = "(vhdr out b2 # vs, mpv_timestamp out, False)"
    have "\<not> lim < (if lim < int len then 4 else int len)" using lim by simp
    from main [OF this pt(1), of "[]" "qs @ [?p]"] lim Cons.prems(5) obtain ps where ps:
      "mpv_blocks collect (qs @ [?p]) out lim (b # bs) [] (pic_byte out) lim = Some (Inr ((qs @ [?p]) @ ps, True))"
      "mpv_run out lim (b # bs) [] ps" by auto
    have "mpv_blocks collect qs out lim (b # bs) vs b2 space = Some (Inr (qs @ ?p # ps, True))"
      using mpv_blocks_flush [OF True lim, of qs out d bs vs b2] ps(1) b by simp
    moreover have "mpv_run out lim (b # bs) vs (?p # ps)"
      using ps(2) Cons.prems(2,3,4) last_marked_append [of "[?p]" ps]
      by (auto simp: mpv_run_def mpv_body_def intro!: mpv_packetI)
    ultimately show ?thesis by blast
  qed
qed

text \<open>
  Sending an MPEG video frame of up to 45 blocks always ends, within the piece array. The
  packets together are the saved sequence header, before an I picture, and the blocks in
  order; every packet starts with the RFC 2250 header with the picture type, none exceeds the
  limit of the endpoint, and the marker is on the last only.
\<close>

lemma mpv_send_reassembles:
  assumes "8 \<le> mx" "picture_type out < 8" "\<forall>b\<in>set (blk out). mpv_block_ok b"
    and "length (blk out) \<le> 45" "picture_type out = 1 \<Longrightarrow> length (vsh out) + 4 \<le> mx" "blk out \<noteq> []"
  shows "\<exists>ps. mpv_send collect [] mx out = Some (Inr (ps, True)) \<and>
    concat (map (\<lambda>p. drop 4 (payload p)) ps) =
      (if picture_type out = 1 then vsh out else []) @ concat (map (\<lambda>(d, len). take len d) (blk out)) \<and>
    last_marked ps \<and>
    (\<forall>p\<in>set ps. length (payload p) \<le> mx \<and> rtp_time p = mpv_timestamp out \<and>
       (payload p ! 2) AND 7 = ucast (picture_type out))"
proof -
  let ?lim = "int mx - 4"
  have pt7: "pic_byte out AND 7 = pic_byte out" and pt8: "pic_byte out AND 8 = 0"
  proof -
    have "picture_type out \<in> {0, 1, 2, 3, 4, 5, 6, 7}"
    proof -
      have "unat (picture_type out) < 8" using assms(2) by (simp add: word_less_nat_alt)
      then have "unat (picture_type out) \<in> set [0..<8]" by simp
      then have "word_of_nat (unat (picture_type out)) \<in> (word_of_nat ` set [0..<8] :: u32 set)" by blast
      then show ?thesis by (simp add: upt_rec)
    qed
    then show "pic_byte out AND 7 = pic_byte out" "pic_byte out AND 8 = 0" by (auto simp: pic_byte_def)
  qed
  have lim: "4 \<le> ?lim" using assms(1) by simp
  define vs where "vs = (if picture_type out = 1 then [vsh out] else [])"
  define b2 where "b2 = (if picture_type out = 1 then pic_byte out OR 0x20 else pic_byte out)"
  have vs: "int (length (concat vs)) + (?lim - int (length (concat vs))) = ?lim" "length vs + length (blk out) \<le> 46"
    "0 \<le> ?lim - int (length (concat vs))"
    using assms(1,4,5) by (auto simp: vs_def)
  have b2: "b2 AND 7 = pic_byte out" by (simp add: b2_def pt7)
  have "mpv_send collect [] mx out = mpv_blocks collect [] out ?lim (blk out) vs b2 (?lim - int (length (concat vs)))"
    by (simp add: mpv_send_def Let_def vs_def b2_def)
  with mpv_blocks_runs [OF lim pt7 pt8 assms(3) b2 vs(3,1,2), of "[]"] obtain ps where
    ps: "mpv_send collect [] mx out = Some (Inr (ps, True))" "mpv_run out ?lim (blk out) vs ps" by auto
  have hdr: "length (vhdr out b) = 4" "vhdr out b ! 2 = b" for b by (simp_all add: vhdr_def PUT_16_def)
  have p: "drop 4 (payload p) = mpv_body p \<and> length (payload p) \<le> mx \<and> rtp_time p = mpv_timestamp out \<and>
      (payload p ! 2) AND 7 = ucast (picture_type out)" if "p \<in> set ps" for p
  proof -
    from that ps(2) have "mpv_packet out ?lim p" by (simp add: mpv_run_def)
    then obtain b r where p: "fst p = vhdr out b # r" "b AND 7 = pic_byte out"
      "int (length (mpv_body p)) \<le> ?lim" "rtp_time p = mpv_timestamp out"
      by (auto simp: mpv_packet_def)
    then show ?thesis by (auto simp: payload_def mpv_body_def hdr nth_append pic_byte_def)
  qed
  then have "map (\<lambda>p. drop 4 (payload p)) ps = map mpv_body ps" by simp
  then have body: "concat (map (\<lambda>p. drop 4 (payload p)) ps) = concat (map mpv_body ps)" by (rule arg_cong)
  show ?thesis
    by (intro exI [of _ ps], unfold body) (use ps p assms(6) in \<open>auto simp: mpv_run_def vs_def\<close>)
qed

section \<open>The bounds\<close>

text \<open>
  The piece array is too small for the blocks that the parser accepts: with 47 or more
  blocks that fit into one packet, sending the frame writes behind the array.
\<close>

lemma mpv_send_overflow:
  assumes "bs = replicate n (d, len)" "47 \<le> n" "blk out = bs" "4 \<le> length d" "picture_type out \<noteq> 1"
    and "int (n * len) \<le> int mx - 4"
  shows "mpv_send send w mx out = Some (Inl Fault)"
proof -
  have run: "mpv_blocks send w out lim (replicate n (d, len)) vs b2 space = Some (Inl Fault)"
    if "length vs \<le> 46" "46 < length vs + n" "int (n * len) \<le> space" "space \<le> lim" for n vs b2 space lim
    using that
  proof (induction n arbitrary: vs b2 space)
    case (Suc n)
    have "0 \<le> int (n * len)" by simp
    then have len: "int len \<le> space" "int (n * len) \<le> space - int len"
      using Suc.prems(3) by (simp_all only: mult_Suc of_nat_add)
    then have 1: "(space < (if lim < int len then 4 else int len)) = False" "size_gt len space = False"
      using len(1) Suc.prems(4) unfolding size_gt_def by (cases "lim < int len"; simp)+
    show ?case
    proof (cases "46 \<le> length vs")
      case True
      then show ?thesis unfolding replicate_Suc mpv_blocks.simps Let_def 1 by simp
    next
      case False
      have "space - int len \<le> lim" using Suc.prems(4) by simp
      then have "mpv_blocks send w out lim (replicate n (d, len)) (vs @ [take len d]) b (space - int len) = Some (Inl Fault)" for b
        using Suc.IH [of "vs @ [take len d]" "space - int len" b] False Suc.prems(2) len(2) by simp
      with False assms(4) show ?thesis unfolding replicate_Suc mpv_blocks.simps Let_def 1(1) by (simp add: 1(2))
    qed
  qed simp
  show ?thesis using assms run [of "[]" n "int mx - 4" "int mx - 4"] by (simp add: mpv_send_def Let_def)
qed

text \<open>
  A sequence header whose frame rate code is 0 or above 8 makes the parser divide by zero.
\<close>

lemma mpv_reserved_rate_divides_by_zero:
  assumes "4 \<le> length d" "GET_32 d = 0x1B3" "get_field d 4 60 = Inr (frc, off)" "frc = 0 \<or> 8 < frc \<and> frc < 16"
  shows "mpv_process_frame out d = Inl Fault"
proof -
  have "unat frc = 0 \<or> 8 < unat frc \<and> unat frc < 16"
    using assms(4) by (auto simp: word_less_nat_alt)
  then have "unat frc \<in> set (0 # [9..<16])" by auto
  then have "snd (frame_rate_tab ! unat frc) = 0" by (auto simp: frame_rate_tab_def upt_rec)
  then obtain a where "frame_rate_tab ! unat frc = (a, 0)" by (metis prod.collapse)
  then have "parse_video_sequence_header (out\<lparr>blk := [], vsh := []\<rparr>) d = Inl Fault"
    using assms(3) by (simp add: parse_video_sequence_header_def)
  moreover have "d \<noteq> []" using assms(1) by auto
  ultimately show ?thesis
    using assms(1,2) by (simp add: mpv_process_frame_def mpv_blocks_of.simps [of "out\<lparr>blk := []\<rparr>"] mpv_header_block_def Let_def)
qed

text \<open>An I picture with its sequence header, and frames that meet the two bounds.\<close>

definition demo_mpv :: rtp_mpv where
  "demo_mpv = \<lparr>blk = [], temporal_reference = 0, picture_type = 0, vectors = 0, vsh = [],
     mpv_init_done = False, mpv_ts_incr = 0, mpv_timestamp = 0\<rparr>"

definition demo_mpv_frame :: "byte list" where
  "demo_mpv_frame = [0, 0, 1, 0xB3, 1, 1, 1, 0x13, 0, 0, 1, 0, 0, 0x08, 0, 0,
     0, 0, 1, 1, 60, 61, 62, 63, 64, 65, 66, 67, 68, 69]"

theorem mpv_send_reassembles_witness:
  "\<exists>out ps. mpv_process_frame demo_mpv demo_mpv_frame = Inr (out, True) \<and>
    mpv_send collect [] 12 out = Some (Inr (ps, True)) \<and>
    concat (map (\<lambda>p. drop 4 (payload p)) ps) = demo_mpv_frame \<and> last_marked ps"
proof -
  define out where "out = \<lparr>blk = [(drop 8 demo_mpv_frame, 8), (drop 16 demo_mpv_frame, 14)], temporal_reference = 0,
    picture_type = 1, vectors = 0, vsh = take 8 demo_mpv_frame, mpv_init_done = True, mpv_ts_incr = 3600, mpv_timestamp = 3600\<rparr>"
  have "mpv_process_frame demo_mpv demo_mpv_frame = Inr (out, True)" unfolding out_def by code_simp
  moreover have "\<forall>b\<in>set (blk out). mpv_block_ok b" unfolding out_def by code_simp
  moreover have "concat (map (\<lambda>(d, len). take len d) (blk out)) = drop 8 demo_mpv_frame" unfolding out_def by code_simp
  moreover have "vsh out @ drop 8 demo_mpv_frame = demo_mpv_frame" by (simp add: out_def)
  moreover have "picture_type out = 1" "length (blk out) = 2" "length (vsh out) = 8" "blk out \<noteq> []"
    by (simp_all add: out_def demo_mpv_frame_def)
  ultimately show ?thesis using mpv_send_reassembles [of 12 out] by auto
qed

theorem mpv_send_overflow_witness:
  "mpv_send collect [] 1400 (demo_mpv\<lparr>blk := replicate 48 ([0, 0, 1, 1], 4)\<rparr>) = Some (Inl Fault)"
  by (rule mpv_send_overflow [OF refl, of 48 _ "[0, 0, 1, 1]" 4]) (simp_all add: demo_mpv_def)

theorem mpv_reserved_rate_divides_by_zero_witness:
  "mpv_process_frame demo_mpv [0, 0, 1, 0xB3, 1, 1, 1, 0x10] = Inl Fault"
proof -
  let ?d = "[0, 0, 1, 0xB3, 1, 1, 1, 0x10] :: byte list"
  have "GET_32 ?d = 0x1B3" "get_field ?d 4 60 = Inr (0, 64)" by code_simp+
  from mpv_reserved_rate_divides_by_zero [OF _ this] show ?thesis by simp
qed

end
