(* ===== verification/Rtp.thy ===== *)
theory Rtp
  imports Rtp_Media
begin

text \<open>
  \<open>rtp.c\<close>, the part that concerns one endpoint: its record, the RTP header, the counters, the
  reports received from the client, and the search for a pair of free UDP ports. Sending,
  which needs the connections, is in the theory of the whole program state.
\<close>

section \<open>State\<close>

text \<open>
  \<open>Inter c rtp rtcp\<close> names the connection and the two channels. An endpoint is created
  without transport. The random values come from outside.
\<close>

datatype trans = No_Trans | Udp string int | Inter nat nat nat

record endpoint =
  ep_session :: nat
  ep_payload :: int
  max_data_size :: nat
  tick2tsratio :: int
  ssrc :: u32
  start_timestamp :: u32
  last_timestamp :: u32
  recv_start_ts :: u32
  seqnum :: int
  packet_count :: u32
  octet_count :: u32
  send_drop_rate :: byte
  rtcp_enabled :: bool
  force_rtcp :: bool
  last_rtcp_recv :: int
  lost_key_frame :: bool
  trigger_wireless_check :: bool
  ep_trans :: trans

record random_values =
  rnd_ssrc :: u32
  rnd_timestamp :: u32
  rnd_seqnum :: nat

definition new_rtp_endpoint :: "random_values \<Rightarrow> int \<Rightarrow> nat \<Rightarrow> int \<Rightarrow> int \<Rightarrow> endpoint" where
  "new_rtp_endpoint r now s pt ratio =
     \<lparr>ep_session = s, ep_payload = pt, max_data_size = 8192, tick2tsratio = ratio,
      ssrc = rnd_ssrc r, start_timestamp = rnd_timestamp r, last_timestamp = rnd_timestamp r,
      recv_start_ts = 0, seqnum = int (rnd_seqnum r mod 65536), packet_count = 0, octet_count = 0,
      send_drop_rate = 0, rtcp_enabled = False, force_rtcp = True, last_rtcp_recv = now,
      lost_key_frame = True, trigger_wireless_check = False, ep_trans = No_Trans\<rparr>"

definition update_rtp_timestamp :: "endpoint \<Rightarrow> int \<Rightarrow> endpoint" where
  "update_rtp_timestamp E t = E\<lparr>last_timestamp := last_timestamp E + word_of_int t\<rparr>"

section \<open>Packets\<close>

definition stamp :: "endpoint \<Rightarrow> u32 \<Rightarrow> endpoint" where
  "stamp E ts = E\<lparr>last_timestamp := start_timestamp E + ts * word_of_int (tick2tsratio E)\<rparr>"

definition rtp_header :: "endpoint \<Rightarrow> bool \<Rightarrow> byte list" where
  "rtp_header E m =
     [push_bit 6 2, word_of_int (ep_payload E) OR (if m then 0x80 else 0)] @
     PUT_16 (seqnum E) @ PUT_32 (last_timestamp E) @ PUT_32 (ssrc E)"

definition count_packet :: "endpoint \<Rightarrow> byte list list \<Rightarrow> endpoint" where
  "count_packet E v =
     E\<lparr>octet_count := octet_count E + word_of_nat (sum_list (map length v)),
       packet_count := packet_count E + 1\<rparr>"

definition next_seqnum :: "endpoint \<Rightarrow> endpoint" where
  "next_seqnum E = E\<lparr>seqnum := (seqnum E + 1) AND 0xFFFF\<rparr>"

text \<open>What the receiver reads from a header.\<close>

record rtp_fields =
  rf_marker :: bool
  rf_payload :: int
  rf_seqnum :: int
  rf_timestamp :: u32
  rf_ssrc :: u32

definition rtp_read :: "byte list \<Rightarrow> rtp_fields option" where
  "rtp_read p =
     (if length p < 12 \<or> drop_bit 6 (p ! 0) \<noteq> 2 then None
      else Some \<lparr>rf_marker = bit (p ! 1) 7, rf_payload = uint (p ! 1 AND 0x7F), rf_seqnum = GET_16 (drop 2 p),
                 rf_timestamp = GET_32 (drop 4 p), rf_ssrc = GET_32 (drop 8 p)\<rparr>)"

lemma seven_bits: "0 \<le> p \<Longrightarrow> p < 128 \<Longrightarrow>
    uint ((word_of_int p OR (if m then 0x80 else 0)) AND (0x7F :: byte)) = p \<and>
    bit (word_of_int p OR (if m then 0x80 else 0 :: byte)) 7 = m"
proof -
  assume p: "0 \<le> p" "p < 128"
  have t: "take_bit 7 p = p" using p by (simp add: take_bit_int_eq_self)
  have "(0x7F :: byte) = mask 7" by (simp add: mask_eq_exp_minus_1)
  then have "(word_of_int p :: byte) AND 0x7F = take_bit 7 (word_of_int p)" by (simp add: take_bit_eq_mask)
  also have "\<dots> = word_of_int (take_bit 7 p)" by (simp add: take_bit_of_int)
  finally have "(word_of_int p :: byte) AND 0x7F = word_of_int p" using t by simp
  then have "((word_of_int p OR (if m then 0x80 else 0)) AND (0x7F :: byte)) = word_of_int p"
    by (simp add: bit.conj_disj_distrib2)
  moreover have "uint (word_of_int p :: byte) = p"
    using p by (simp add: unsigned_of_int take_bit_int_eq_self)
  moreover have "\<not> bit p 7" using bit_small_int [of p 7 7] p by auto
  moreover have "bit (0x80 :: byte) 7" by code_simp
  ultimately show ?thesis by (auto simp: bit_simps)
qed

text \<open>
  C35. A receiver reads from the header of a packet the marker, the payload type, the sequence
  number, the timestamp and the source that the endpoint has.
\<close>

theorem rtp_header_roundtrip:
  assumes "0 \<le> ep_payload E" "ep_payload E < 128" "0 \<le> seqnum E" "seqnum E < 65536"
  shows "rtp_read (rtp_header E m @ d) =
    Some \<lparr>rf_marker = m, rf_payload = ep_payload E, rf_seqnum = seqnum E,
          rf_timestamp = last_timestamp E, rf_ssrc = ssrc E\<rparr>"
proof -
  have "drop_bit 6 (push_bit 6 2 :: byte) = 2" by code_simp
  moreover have "drop 2 (rtp_header E m @ d) = PUT_16 (seqnum E) @ PUT_32 (last_timestamp E) @ PUT_32 (ssrc E) @ d"
    "drop 4 (rtp_header E m @ d) = PUT_32 (last_timestamp E) @ PUT_32 (ssrc E) @ d"
    "drop 8 (rtp_header E m @ d) = PUT_32 (ssrc E) @ d"
    by (simp_all add: rtp_header_def PUT_16_def PUT_32_def)
  moreover have "length (rtp_header E m) = 12" by (simp add: rtp_header_def)
  moreover have "(rtp_header E m @ d) ! 0 = push_bit 6 2"
    "(rtp_header E m @ d) ! 1 = word_of_int (ep_payload E) OR (if m then 0x80 else 0)"
    by (simp_all add: rtp_header_def)
  ultimately show ?thesis
    using seven_bits [OF assms(1,2), of m] assms(3,4) by (simp add: rtp_read_def)
qed

theorem rtp_header_roundtrip_witness:
  "rtp_read (rtp_header (new_rtp_endpoint \<lparr>rnd_ssrc = 7, rnd_timestamp = 9, rnd_seqnum = 65535\<rparr> 0 1 96 900) True @ [1, 2]) =
    Some \<lparr>rf_marker = True, rf_payload = 96, rf_seqnum = 65535, rf_timestamp = 9, rf_ssrc = 7\<rparr>"
  using rtp_header_roundtrip [of "new_rtp_endpoint \<lparr>rnd_ssrc = 7, rnd_timestamp = 9, rnd_seqnum = 65535\<rparr> 0 1 96 900" True "[1, 2]"]
  by (simp add: new_rtp_endpoint_def)

section \<open>Reports\<close>

text \<open>
  What \<open>udp_rtp_read\<close> and \<open>udp_rtcp_read\<close> do to an endpoint without recorder when data has
  come. A receiver report is looked for in a fixed place; \<open>buf\<close> is the whole array, of which
  only the beginning is fresh. The result of the second says whether the wireless check is
  to be begun or ended.
\<close>

definition udp_rtp_read :: "endpoint \<Rightarrow> byte list \<Rightarrow> int \<Rightarrow> endpoint" where
  "udp_rtp_read E buf now =
     E\<lparr>last_rtcp_recv := now,
       recv_start_ts := (if recv_start_ts E = 0 then GET_32 (drop 4 buf) else recv_start_ts E)\<rparr>"

definition udp_rtcp_read :: "endpoint \<Rightarrow> byte list \<Rightarrow> int \<Rightarrow> byte \<Rightarrow> endpoint \<times> bool option" where
  "udp_rtcp_read E buf now threshold =
     (if buf ! 1 = 0xc9 \<and> buf ! 2 = 0 \<and> buf ! 3 = 7 then
        (let E1 = E\<lparr>send_drop_rate := buf ! 12, last_rtcp_recv := now\<rparr> in
         if threshold \<le> buf ! 12 then (E1\<lparr>trigger_wireless_check := True\<rparr>, Some True)
         else if buf ! 12 = 0 then (E1\<lparr>trigger_wireless_check := False\<rparr>, Some False)
         else (E1, None))
      else (E, None))"

definition interleave_recv_rtcp :: "endpoint \<Rightarrow> int \<Rightarrow> endpoint" where
  "interleave_recv_rtcp E now = E\<lparr>last_rtcp_recv := now\<rparr>"

section \<open>UDP ports\<close>

record rtp_range =
  rtp_port_start :: int
  rtp_port_end :: int

definition config_rtprange :: "int \<Rightarrow> int \<Rightarrow> rtp_range option" where
  "config_rtprange a b =
     (let s = (if odd a then a + 1 else a); e = (if odd b then b else b - 1)
      in if e - s + 1 < 8 then None else Some \<lparr>rtp_port_start = s, rtp_port_end = e\<rparr>)"

text \<open>
  The kernel: whether a socket can be created at a try, and what \<open>bind\<close> says for a port. The
  result is the port of the pair, and how many sockets are left open when there is none.
\<close>

datatype bind_answer = Bound | In_Use | Bind_Error

record kernel =
  sock_rtp :: "nat \<Rightarrow> bool"
  sock_rtcp :: "nat \<Rightarrow> bool"
  bind_port :: "int \<Rightarrow> bind_answer"

fun find_ports :: "kernel \<Rightarrow> rtp_range \<Rightarrow> nat \<Rightarrow> nat \<Rightarrow> int \<Rightarrow> bool \<Rightarrow> bool \<Rightarrow> nat + int" where
  "find_ports k r i 0 port rtp rtcp = Inl (of_bool rtp + of_bool rtcp)"
| "find_ports k r i (Suc n) port rtp rtcp =
     (let port = (if port + 1 > rtp_port_end r then rtp_port_start r else port) in
      if \<not> rtp \<and> \<not> sock_rtp k i then Inl (of_bool rtcp)
      else if \<not> rtcp \<and> \<not> sock_rtcp k i then Inl 0
      else case bind_port k port of
        Bind_Error \<Rightarrow> Inl 0
      | In_Use \<Rightarrow> find_ports k r (i + 1) n (port + 2) True True
      | Bound \<Rightarrow>
          (case bind_port k (port + 1) of
             Bind_Error \<Rightarrow> Inl 0
           | In_Use \<Rightarrow> find_ports k r (i + 1) n (port + 2) False True
           | Bound \<Rightarrow> Inr port))"

definition start_port :: "rtp_range \<Rightarrow> nat \<Rightarrow> int" where
  "start_port r rnd =
     (let p = rtp_port_start r + int rnd mod (rtp_port_end r - rtp_port_start r) in if odd p then p + 1 else p)"

definition connect_udp_ports :: "kernel \<Rightarrow> rtp_range \<Rightarrow> nat \<Rightarrow> nat + int" where
  "connect_udp_ports k r rnd =
     find_ports k r 0 (nat ((rtp_port_end r - rtp_port_start r + 1) div 2)) (start_port r rnd) False False"

text \<open>The endpoint after \<open>connect_udp_endpoint\<close> has found its ports: local address and port are kept.\<close>

definition connect_udp_endpoint :: "endpoint \<Rightarrow> string \<Rightarrow> int \<Rightarrow> endpoint" where
  "connect_udp_endpoint E addr port = E\<lparr>max_data_size := 1400, ep_trans := Udp addr port\<rparr>"

definition connect_interleaved_endpoint :: "endpoint \<Rightarrow> nat \<Rightarrow> nat \<Rightarrow> nat \<Rightarrow> endpoint" where
  "connect_interleaved_endpoint E c rtp rtcp = E\<lparr>ep_trans := Inter c rtp rtcp\<rparr>"

text \<open>A range as \<open>config_rtprange\<close> leaves it, and a pair of ports in it.\<close>

definition wf_range :: "rtp_range \<Rightarrow> bool" where
  "wf_range r \<longleftrightarrow> even (rtp_port_start r) \<and> odd (rtp_port_end r) \<and> 8 \<le> rtp_port_end r - rtp_port_start r + 1"

lemma config_rtprange_wf: "config_rtprange a b = Some r \<Longrightarrow> wf_range r"
  by (auto simp: config_rtprange_def wf_range_def Let_def split: if_splits)

definition pair_at :: "rtp_range \<Rightarrow> int \<Rightarrow> bool" where
  "pair_at r p \<longleftrightarrow> even p \<and> rtp_port_start r \<le> p \<and> p + 1 \<le> rtp_port_end r"

definition free_pair :: "kernel \<Rightarrow> int \<Rightarrow> bool" where
  "free_pair k p \<longleftrightarrow> bind_port k p = Bound \<and> bind_port k (p + 1) = Bound"

definition wrap_port :: "rtp_range \<Rightarrow> int \<Rightarrow> int" where
  "wrap_port r p = (if p + 1 > rtp_port_end r then rtp_port_start r else p)"

lemma find_ports_Suc:
  "find_ports k r i (Suc n) port rtp rtcp =
     (if \<not> rtp \<and> \<not> sock_rtp k i then Inl (of_bool rtcp)
      else if \<not> rtcp \<and> \<not> sock_rtcp k i then Inl 0
      else case bind_port k (wrap_port r port) of
        Bind_Error \<Rightarrow> Inl 0
      | In_Use \<Rightarrow> find_ports k r (i + 1) n (wrap_port r port + 2) True True
      | Bound \<Rightarrow>
          (case bind_port k (wrap_port r port + 1) of
             Bind_Error \<Rightarrow> Inl 0
           | In_Use \<Rightarrow> find_ports k r (i + 1) n (wrap_port r port + 2) False True
           | Bound \<Rightarrow> Inr (wrap_port r port)))"
  by (simp only: find_ports.simps Let_def wrap_port_def)

lemma wf_range_size: "wf_range r \<Longrightarrow> rtp_port_end r + 1 = rtp_port_start r + 2 * ((rtp_port_end r - rtp_port_start r + 1) div 2)"
proof -
  assume "wf_range r"
  then have "even (rtp_port_end r - rtp_port_start r + 1)" by (auto simp: wf_range_def)
  then have "2 * ((rtp_port_end r - rtp_port_start r + 1) div 2) = rtp_port_end r - rtp_port_start r + 1"
    by (rule dvd_mult_div_cancel)
  then show ?thesis by linarith
qed

lemma find_ports_in_range:
  "wf_range r \<Longrightarrow> even port \<Longrightarrow> rtp_port_start r \<le> port \<Longrightarrow>
     find_ports k r i n port a b = Inr p \<Longrightarrow> pair_at r p \<and> free_pair k p"
proof (induction n arbitrary: i port a b)
  case (Suc n)
  let ?q = "wrap_port r port"
  have q: "even ?q" "rtp_port_start r \<le> ?q" "?q + 1 \<le> rtp_port_end r"
    using Suc.prems(1-3) by (auto simp: wf_range_def wrap_port_def)
  have "even (?q + 2)" "rtp_port_start r \<le> ?q + 2" using q by simp_all
  note ih = Suc.IH [OF Suc.prems(1) this]
  from Suc.prems(4) ih q show ?case
    unfolding find_ports_Suc by (auto simp: pair_at_def free_pair_def split: if_splits bind_answer.splits)
qed simp

text \<open>The ports that \<open>n\<close> tries from \<open>port\<close> on look at.\<close>

fun tried :: "rtp_range \<Rightarrow> nat \<Rightarrow> int \<Rightarrow> int list" where
  "tried r 0 port = []"
| "tried r (Suc n) port = wrap_port r port # tried r n (wrap_port r port + 2)"

lemma find_ports_fails:
  assumes "\<forall>i. sock_rtp k i \<and> sock_rtcp k i" "\<forall>p. bind_port k p \<noteq> Bind_Error"
  shows "find_ports k r i n port a b = Inl l \<Longrightarrow> \<forall>p\<in>set (tried r n port). \<not> free_pair k p"
proof (induction n arbitrary: i port a b)
  case (Suc n)
  have "bind_port k (wrap_port r port) \<noteq> Bind_Error" "bind_port k (wrap_port r port + 1) \<noteq> Bind_Error"
    using assms(2) by blast+
  with Suc assms(1) show ?case
    unfolding find_ports_Suc by (auto simp: free_pair_def split: bind_answer.splits)
qed simp

lemma tried_nth:
  assumes "wf_range r" "m = (rtp_port_end r - rtp_port_start r + 1) div 2"
  shows "0 \<le> q \<Longrightarrow> q \<le> m \<Longrightarrow> j < n \<Longrightarrow> tried r n (rtp_port_start r + 2 * q) ! j = rtp_port_start r + 2 * ((q + int j) mod m)"
proof (induction n arbitrary: q j)
  case (Suc n)
  let ?s = "rtp_port_start r"
  have m: "rtp_port_end r + 1 = ?s + 2 * m" "0 < m"
    using wf_range_size [OF assms(1)] assms by (auto simp: wf_range_def)
  define q' where "q' = (if q = m then 0 else q)"
  have q': "wrap_port r (?s + 2 * q) = ?s + 2 * q'" "0 \<le> q'" "q' < m" "q' mod m = q mod m"
    using Suc.prems(1,2) m by (auto simp: q'_def wrap_port_def)
  show ?case
  proof (cases j)
    case 0
    then show ?thesis using q' m(2) by (simp add: mod_pos_pos_trivial)
  next
    case (Suc j')
    have "tried r n (?s + 2 * (q' + 1)) ! j' = ?s + 2 * ((q' + 1 + int j') mod m)"
      using Suc.IH [of "q' + 1" j'] q' Suc.prems(3) \<open>j = Suc j'\<close> by simp
    moreover have "(q' + 1 + int j') mod m = (q + int j) mod m"
      using q'(4) \<open>j = Suc j'\<close> by (metis add.assoc add.commute mod_add_left_eq of_nat_Suc)
    ultimately show ?thesis using q'(1) \<open>j = Suc j'\<close> by (simp add: algebra_simps)
  qed
qed simp

lemma length_tried [simp]: "length (tried r n p) = n"
  by (induction n arbitrary: p) auto

lemma start_port_pair:
  assumes "wf_range r"
  shows "pair_at r (start_port r rnd)"
proof -
  let ?s = "rtp_port_start r" and ?e = "rtp_port_end r"
  have w: "even ?s" "odd ?e" "8 \<le> ?e - ?s + 1" using assms by (auto simp: wf_range_def)
  define x where "x = int rnd mod (?e - ?s)"
  have x: "0 \<le> x" "x < ?e - ?s" using w(3) by (simp_all add: x_def)
  have "odd (?s + x) \<Longrightarrow> ?s + x + 1 \<noteq> ?e" using w by (metis add.commute even_add even_plus_one_iff odd_one)
  with x w show ?thesis
    unfolding pair_at_def start_port_def x_def [symmetric] Let_def by auto
qed

text \<open>
  When the only trouble is ports in use, \<open>connect_udp_endpoint\<close> finds a pair of ports
  exactly when some even port of the configured range and the port after it are free, and
  the pair it finds is such a pair.
\<close>

lemma connect_udp_ports_finds_free_pair:
  assumes "config_rtprange a b = Some r" "\<forall>i. sock_rtp k i \<and> sock_rtcp k i" "\<forall>p. bind_port k p \<noteq> Bind_Error"
  shows "((\<exists>p. connect_udp_ports k r rnd = Inr p) \<longleftrightarrow> (\<exists>p. pair_at r p \<and> free_pair k p)) \<and>
    (\<forall>p. connect_udp_ports k r rnd = Inr p \<longrightarrow> pair_at r p \<and> free_pair k p)"
proof -
  let ?s = "rtp_port_start r"
  define m where "m = (rtp_port_end r - ?s + 1) div 2"
  note wf = config_rtprange_wf [OF assms(1)]
  have p0: "pair_at r (start_port r rnd)" by (rule start_port_pair [OF wf])
  have found: "pair_at r p \<and> free_pair k p" if "connect_udp_ports k r rnd = Inr p" for p
    using find_ports_in_range [OF wf _ _ that [unfolded connect_udp_ports_def]] p0 by (auto simp: pair_at_def)
  have m: "rtp_port_end r + 1 = ?s + 2 * m" "0 < m"
    using wf_range_size [OF wf] wf by (auto simp: wf_range_def m_def)
  have "\<not> free_pair k p" if r: "connect_udp_ports k r rnd = Inl l" and p: "pair_at r p" for l p
  proof -
    define q where "q = (start_port r rnd - ?s) div 2"
    define x where "x = (p - ?s) div 2"
    have e: "even ?s" using wf by (simp add: wf_range_def)
    have q: "start_port r rnd = ?s + 2 * q" "0 \<le> q" "q < m"
      using p0 e m(1) by (auto simp: pair_at_def q_def elim!: evenE)
    have x: "p = ?s + 2 * x" "0 \<le> x" "x < m" using p e m(1) by (auto simp: pair_at_def x_def elim!: evenE)
    define j where "j = nat ((x - q) mod m)"
    have j: "int j = (x - q) mod m" "j < nat m" using m(2) by (simp_all add: j_def)
    have "(q + int j) mod m = x" using x m(2) by (simp add: j(1) mod_add_right_eq)
    then have "tried r (nat m) (start_port r rnd) ! j = p"
      using tried_nth [OF wf m_def q(2), of j "nat m"] q j(2) x(1) by simp
    then have "p \<in> set (tried r (nat m) (start_port r rnd))" using j(2) by (metis length_tried nth_mem)
    with find_ports_fails [OF assms(2,3) r [unfolded connect_udp_ports_def m_def [symmetric]]] show ?thesis by blast
  qed
  with found show ?thesis by (metis sum.exhaust)
qed

theorem connect_udp_ports_finds_free_pair_witness:
  "connect_udp_ports \<lparr>sock_rtp = \<lambda>i. True, sock_rtcp = \<lambda>i. True, bind_port = \<lambda>p. if p < 5006 then In_Use else Bound\<rparr>
     \<lparr>rtp_port_start = 5000, rtp_port_end = 5009\<rparr> 8 = Inr 5008 \<and>
   pair_at \<lparr>rtp_port_start = 5000, rtp_port_end = 5009\<rparr> 5008"
proof -
  let ?k = "\<lparr>sock_rtp = \<lambda>i. True, sock_rtcp = \<lambda>i. True, bind_port = \<lambda>p. if p < 5006 then In_Use else Bound\<rparr>"
  let ?r = "\<lparr>rtp_port_start = 5000, rtp_port_end = 5009\<rparr>"
  have "config_rtprange 5000 5009 = Some ?r" by code_simp
  moreover have "connect_udp_ports ?k ?r 8 = Inr 5008" by code_simp
  ultimately show ?thesis using connect_udp_ports_finds_free_pair [of 5000 5009 ?r ?k 8] by simp
qed

end
