(* ===== verification/World.thy ===== *)
theory World
  imports Rtp Tcp Stream Rtp_H264 Rtp_Mpeg4 Rtp_Jpeg Rtp_Audio
begin

text \<open>
  The state of the streaming server: connections, RTP endpoints, sessions (\<open>session.c\<close>, with
  the \<open>live_session\<close> that \<open>live.c\<close> hangs on each), RTSP sessions (\<open>rtsp.c\<close>), and the entries
  and tracks of \<open>live.c\<close>. Objects are numbers; a table maps the number of an allocated object
  to its record, and \<open>None\<close> after \<open>free\<close>, so that following a dangling pointer is a fault.
  The invariant \<open>links_ok\<close> says that none dangles and that pointers in both directions agree.
\<close>

section \<open>State\<close>

text \<open>
  What \<open>proto_state\<close> of a connection points to: a channel table of \<open>rtsp.c\<close>, each channel
  with its endpoint and whether it is an RTCP channel, or a session of \<open>http.c\<close>.
\<close>

datatype proto_state = No_State | Rtsp_State "(nat option \<times> bool) list" | Http_State nat

definition MAX_INTERLEAVE_CHANNELS :: nat where "MAX_INTERLEAVE_CHANNELS = 8"
definition MAX_TRACKS :: nat where "MAX_TRACKS = 2"

record session =
  s_eps :: "nat option list"
  s_entry :: nat
  s_playing :: bool
  s_record :: bool
  s_addr :: string
  s_control :: "nat option"

record rtsp_session =
  rs_id :: string
  rs_sess :: nat

datatype media =
  Media_Mpeg4 rtp_mpeg4 | Media_H264 rtp_h264 | Media_Jpeg rtp_jpeg | Media_Raw rtp_rawaudio

record live_track =
  lt_entries :: "nat list"
  lt_dest :: nat
  lt_ready :: bool
  lt_tick2ts :: int
  lt_media :: "media option"
  lt_name :: string

record live_entry =
  le_sessions :: "nat list"
  le_tracks :: "nat option list"

record location =
  loc_path :: string
  loc_realm :: string
  loc_username :: string
  loc_password :: string
  loc_private :: nat

text \<open>
  A location of \<open>http.c\<close> with its last frame and the length that frame has on the wire, and the
  connections it streams to. Its path is an array of characters.
\<close>

record http_location =
  hl_path :: string
  hl_frame :: "byte list option"
  hl_jfif :: nat
  hl_sess :: "nat list"
  hl_streaming :: bool

record http_stream_session =
  hs_loc :: nat
  hs_conn :: nat

record world =
  conns :: "nat \<Rightarrow> conn option"
  proto_state :: "nat \<Rightarrow> proto_state"
  conn_list :: "nat list"
  endpoints :: "nat \<Rightarrow> endpoint option"
  sessions :: "nat \<Rightarrow> session option"
  session_list :: "nat list"
  rs_tab :: "nat \<Rightarrow> rtsp_session option"
  rs_list :: "nat list"
  entries :: "nat \<Rightarrow> live_entry"
  tracks :: "nat \<Rightarrow> live_track"
  streams_of :: graph
  udp_out :: "(nat \<times> byte list) list"
  fresh :: nat
  rtsp_loc_list :: "location list"
  digest_secret :: "string option"
  http_locs :: "nat \<Rightarrow> http_location"
  http_loc_list :: "nat list"
  http_sess :: "nat \<Rightarrow> http_stream_session option"
  http_fresh :: nat

definition deref :: "(nat \<Rightarrow> 'a option) \<Rightarrow> nat \<Rightarrow> 'a cres" where
  "deref f i = (case f i of None \<Rightarrow> Inl Fault | Some x \<Rightarrow> Inr x)"

lemma deref_Some [simp, cres_simps]: "f i = Some x \<Longrightarrow> deref f i = Inr x"
  by (simp add: deref_def)

lemma deref_eq_Inr: "deref f i = Inr x \<longleftrightarrow> f i = Some x"
  by (simp add: deref_def split: option.splits)

abbreviation upd_session :: "nat \<Rightarrow> (session \<Rightarrow> session) \<Rightarrow> world \<Rightarrow> world" where
  "upd_session s f w \<equiv> w\<lparr>sessions := (sessions w)(s := map_option f (sessions w s))\<rparr>"

abbreviation upd_endpoint :: "nat \<Rightarrow> (endpoint \<Rightarrow> endpoint) \<Rightarrow> world \<Rightarrow> world" where
  "upd_endpoint e f w \<equiv> w\<lparr>endpoints := (endpoints w)(e := map_option f (endpoints w e))\<rparr>"

section \<open>Sessions and endpoints\<close>

definition new_session :: "world \<Rightarrow> nat \<Rightarrow> world \<times> nat" where
  "new_session w entry =
     (let s = fresh w in
      (w\<lparr>sessions := (sessions w)(s := Some \<lparr>s_eps = replicate MAX_TRACKS None, s_entry = entry,
                         s_playing = False, s_record = False, s_addr = ''(unconnected)'', s_control = None\<rparr>),
         session_list := s # session_list w, fresh := s + 1\<rparr>, s))"

definition rtsp_session_close :: "world \<Rightarrow> nat \<Rightarrow> world cres" where
  "rtsp_session_close w r =
     bindE (deref (rs_tab w) r) (\<lambda>_.
       Inr (w\<lparr>rs_list := remove1 r (rs_list w), rs_tab := (rs_tab w)(r := None)\<rparr>))"

definition del_session :: "world \<Rightarrow> nat \<Rightarrow> world cres" where
  "del_session w s =
     bindE (deref (sessions w) s) (\<lambda>S.
       let w1 = w\<lparr>session_list := remove1 s (session_list w)\<rparr> in
       bindE (case s_control S of None \<Rightarrow> Inr w1 | Some r \<Rightarrow> rtsp_session_close w1 r) (\<lambda>w2.
         Inr (w2\<lparr>sessions := (sessions w2)(s := None)\<rparr>)))"

definition new_rtsp_session :: "world \<Rightarrow> nat \<Rightarrow> string \<Rightarrow> (world \<times> nat) cres" where
  "new_rtsp_session w s ident =
     bindE (deref (sessions w) s) (\<lambda>_.
       let r = fresh w in
       Inr (upd_session s (\<lambda>S. S\<lparr>s_control := Some r\<rparr>)
              (w\<lparr>rs_tab := (rs_tab w)(r := Some \<lparr>rs_id = ident, rs_sess = s\<rparr>),
                 rs_list := r # rs_list w, fresh := r + 1\<rparr>), r))"

text \<open>\<open>get_session\<close> returns the RTSP session with the given identifier; no header finds none.\<close>

definition get_session :: "world \<Rightarrow> string option \<Rightarrow> nat option" where
  "get_session w ident =
     (case ident of None \<Rightarrow> None
      | Some i \<Rightarrow> find (\<lambda>r. case rs_tab w r of None \<Rightarrow> False | Some R \<Rightarrow> rs_id R = i) (rs_list w))"

definition interleave_disconnect :: "world \<Rightarrow> nat \<Rightarrow> nat \<Rightarrow> world cres" where
  "interleave_disconnect w c chan =
     bindE (deref (conns w) c) (\<lambda>_.
       case proto_state w c of
         Rtsp_State ch \<Rightarrow>
           if chan < length ch
           then Inr (w\<lparr>proto_state := (proto_state w)(c := Rtsp_State (ch[chan := (None, snd (ch ! chan))]))\<rparr>)
           else Inl Fault
       | _ \<Rightarrow> Inl Fault)"

definition del_rtp_endpoint :: "world \<Rightarrow> nat \<Rightarrow> world cres" where
  "del_rtp_endpoint w e =
     bindE (deref (endpoints w) e) (\<lambda>E.
       bindE (case ep_trans E of
                Inter c rtp rtcp \<Rightarrow>
                  bindE (interleave_disconnect w c rtp) (\<lambda>w1. interleave_disconnect w1 c rtcp)
              | _ \<Rightarrow> Inr w) (\<lambda>w'.
         Inr (w'\<lparr>endpoints := (endpoints w')(e := None)\<rparr>)))"

section \<open>No dangling pointers\<close>

definition slots_ok :: "world \<Rightarrow> bool" where
  "slots_ok w \<longleftrightarrow> (\<forall>s S i e. sessions w s = Some S \<and> i < length (s_eps S) \<and> s_eps S ! i = Some e \<longrightarrow>
     (\<exists>E. endpoints w e = Some E \<and> ep_session E = s) \<and>
     (\<forall>j < length (s_eps S). s_eps S ! j = Some e \<longrightarrow> j = i))"

definition owners_ok :: "world \<Rightarrow> bool" where
  "owners_ok w \<longleftrightarrow> (\<forall>e E. endpoints w e = Some E \<longrightarrow>
     (\<exists>S. sessions w (ep_session E) = Some S \<and> Some e \<in> set (s_eps S)))"

definition channels_ok :: "world \<Rightarrow> bool" where
  "channels_ok w \<longleftrightarrow> (\<forall>c ch k e b. proto_state w c = Rtsp_State ch \<and> k < length ch \<and> ch ! k = (Some e, b) \<longrightarrow>
     (\<exists>E r q. endpoints w e = Some E \<and> ep_trans E = Inter c r q \<and> k = (if b then q else r)))"

definition inter_ok :: "world \<Rightarrow> bool" where
  "inter_ok w \<longleftrightarrow> (\<forall>e E c r q. endpoints w e = Some E \<and> ep_trans E = Inter c r q \<longrightarrow>
     conns w c \<noteq> None \<and> r \<noteq> q \<and>
     (\<exists>ch. proto_state w c = Rtsp_State ch \<and> r < length ch \<and> q < length ch \<and>
        ch ! r = (Some e, False) \<and> ch ! q = (Some e, True)))"

definition rtsp_ok :: "world \<Rightarrow> bool" where
  "rtsp_ok w \<longleftrightarrow> distinct (rs_list w) \<and>
     (\<forall>r. r \<in> set (rs_list w) \<longleftrightarrow> rs_tab w r \<noteq> None) \<and>
     (\<forall>r R. rs_tab w r = Some R \<longrightarrow> map_option s_control (sessions w (rs_sess R)) = Some (Some r)) \<and>
     (\<forall>s r. map_option s_control (sessions w s) = Some (Some r) \<longrightarrow> (\<exists>R. rs_tab w r = Some R \<and> rs_sess R = s))"

definition entries_ok :: "world \<Rightarrow> bool" where
  "entries_ok w \<longleftrightarrow>
     (\<forall>en. distinct (le_sessions (entries w en))) \<and>
     (\<forall>en s. s \<in> set (le_sessions (entries w en)) \<longleftrightarrow> map_option s_entry (sessions w s) = Some en) \<and>
     (\<forall>s S. sessions w s = Some S \<longrightarrow> length (s_eps S) = MAX_TRACKS)"

definition conns_ok :: "world \<Rightarrow> bool" where
  "conns_ok w \<longleftrightarrow> distinct (conn_list w) \<and> (\<forall>c. c \<in> set (conn_list w) \<longleftrightarrow> conns w c \<noteq> None) \<and>
     (\<forall>c ch. proto_state w c = Rtsp_State ch \<longrightarrow>
        length ch = MAX_INTERLEAVE_CHANNELS \<and> (\<exists>C. conns w c = Some C \<and> c_proto C = CONN_PROTO_RTSP))"

definition fresh_ok :: "world \<Rightarrow> bool" where
  "fresh_ok w \<longleftrightarrow> (\<forall>i \<ge> fresh w. conns w i = None \<and> endpoints w i = None \<and> sessions w i = None \<and> rs_tab w i = None)"

definition links_ok :: "world \<Rightarrow> bool" where
  "links_ok w \<longleftrightarrow> slots_ok w \<and> owners_ok w \<and> channels_ok w \<and> inter_ok w \<and> rtsp_ok w \<and>
     entries_ok w \<and> conns_ok w \<and> fresh_ok w"

lemmas links_defs = slots_ok_def owners_ok_def channels_ok_def inter_ok_def rtsp_ok_def
  entries_ok_def conns_ok_def fresh_ok_def

text \<open>Parts of the state that the links do not depend on.\<close>

lemma links_ok_upd [simp]:
  "links_ok (w\<lparr>streams_of := g\<rparr>) = links_ok w" "links_ok (w\<lparr>tracks := t\<rparr>) = links_ok w"
  "links_ok (w\<lparr>udp_out := u\<rparr>) = links_ok w" "links_ok (w\<lparr>session_list := l\<rparr>) = links_ok w"
  "links_ok (w\<lparr>digest_secret := d\<rparr>) = links_ok w"
  by (simp_all add: links_ok_def links_defs)

text \<open>Which fields of a session the parts depend on.\<close>

lemma rtsp_ok_cong:
  assumes "rtsp_ok w" "rs_list w' = rs_list w" "rs_tab w' = rs_tab w"
    and "\<And>s. map_option s_control (sessions w' s) = map_option s_control (sessions w s)"
  shows "rtsp_ok w'"
  using assms(1) unfolding rtsp_ok_def assms(2-4) .

lemma entries_ok_cong:
  assumes "entries_ok w" "\<And>en. le_sessions (entries w' en) = le_sessions (entries w en)"
    and "\<And>s. map_option s_entry (sessions w' s) = map_option s_entry (sessions w s)"
    and "\<And>s S'. sessions w' s = Some S' \<Longrightarrow> \<exists>S. sessions w s = Some S \<and> length (s_eps S') = length (s_eps S)"
  shows "entries_ok w'"
  using assms(1,4) unfolding entries_ok_def assms(2,3) by metis

section \<open>Dropping an endpoint\<close>

text \<open>The channel tables without the channels of an endpoint.\<close>

definition cut_channels :: "world \<Rightarrow> endpoint \<Rightarrow> nat \<Rightarrow> proto_state" where
  "cut_channels w E =
     (case ep_trans E of
        Inter c r q \<Rightarrow>
          (case proto_state w c of
             Rtsp_State ch \<Rightarrow> (proto_state w)(c := Rtsp_State (ch[r := (None, False), q := (None, True)]))
           | _ \<Rightarrow> proto_state w)
      | _ \<Rightarrow> proto_state w)"

lemma inter_okD:
  assumes "inter_ok w" "endpoints w e = Some E" "ep_trans E = Inter c r q"
  obtains C ch where "conns w c = Some C" "r \<noteq> q" "proto_state w c = Rtsp_State ch" "r < length ch" "q < length ch"
    "ch ! r = (Some e, False)" "ch ! q = (Some e, True)"
  using assms unfolding inter_ok_def by blast

lemma del_rtp_endpoint_eval:
  assumes "inter_ok w" "endpoints w e = Some E"
  shows "del_rtp_endpoint w e =
    Inr (w\<lparr>endpoints := (endpoints w)(e := None), proto_state := cut_channels w E\<rparr>)"
proof (cases "ep_trans E")
  case (Inter c r q)
  from inter_okD [OF assms Inter] obtain C ch where c: "conns w c = Some C" "r \<noteq> q"
    "proto_state w c = Rtsp_State ch" "r < length ch" "q < length ch"
    "ch ! r = (Some e, False)" "ch ! q = (Some e, True)" .
  then show ?thesis
    using assms(2) Inter by (simp add: del_rtp_endpoint_def interleave_disconnect_def cut_channels_def)
qed (use assms(2) in \<open>simp_all add: del_rtp_endpoint_def cut_channels_def\<close>)

text \<open>Which channels remain.\<close>

lemma cut_channels_cases:
  assumes "inter_ok w" "endpoints w e = Some E" "cut_channels w E c = Rtsp_State ch'"
  obtains ch where "proto_state w c = Rtsp_State ch" "length ch' = length ch"
    "\<And>k. k < length ch \<Longrightarrow> ch' ! k = ch ! k \<or>
       (\<exists>r q. ep_trans E = Inter c r q \<and> (k = r \<or> k = q) \<and> fst (ch' ! k) = None)"
    "\<And>k e' b. k < length ch \<Longrightarrow> ch ! k = (Some e', b) \<Longrightarrow> e' \<noteq> e \<Longrightarrow> ch' ! k = ch ! k"
proof (cases "ep_trans E")
  case (Inter c0 r q)
  from inter_okD [OF assms(1,2) Inter] obtain C ch where c: "r \<noteq> q"
    "proto_state w c0 = Rtsp_State ch" "r < length ch" "q < length ch"
    "ch ! r = (Some e, False)" "ch ! q = (Some e, True)" by metis
  show ?thesis
  proof (cases "c = c0")
    case True
    with assms(3) Inter c have ch': "ch' = ch[r := (None, False), q := (None, True)]"
      by (simp add: cut_channels_def)
    show ?thesis
      by (rule that [of ch]) (use True Inter c in \<open>auto simp: ch' nth_list_update\<close>)
  next
    case False
    with assms(3) Inter c have "proto_state w c = Rtsp_State ch'" by (simp add: cut_channels_def)
    then show ?thesis by (rule that) auto
  qed
next
  case No_Trans
  with assms(3) have "proto_state w c = Rtsp_State ch'" by (simp add: cut_channels_def)
  then show ?thesis by (rule that) auto
next
  case (Udp a p)
  with assms(3) have "proto_state w c = Rtsp_State ch'" by (simp add: cut_channels_def)
  then show ?thesis by (rule that) auto
qed

lemma cut_channels_Rtsp:
  assumes "inter_ok w" "endpoints w e = Some E" "proto_state w c = Rtsp_State ch"
  shows "\<exists>ch'. cut_channels w E c = Rtsp_State ch'"
  using assms by (auto simp: cut_channels_def split: trans.splits proto_state.splits)

text \<open>The world after an endpoint has been deleted and its slot cleared.\<close>

definition without_endpoint :: "world \<Rightarrow> nat \<Rightarrow> nat \<Rightarrow> nat \<Rightarrow> endpoint \<Rightarrow> world" where
  "without_endpoint w s i e E =
     upd_session s (\<lambda>S. S\<lparr>s_eps := (s_eps S)[i := None]\<rparr>)
       (w\<lparr>endpoints := (endpoints w)(e := None), proto_state := cut_channels w E\<rparr>)"

lemma without_endpoint_links:
  assumes ok: "links_ok w" and s: "sessions w s = Some S" and i: "i < length (s_eps S)" "s_eps S ! i = Some e"
    and e: "endpoints w e = Some E"
  shows "links_ok (without_endpoint w s i e E)"
proof -
  let ?w = "without_endpoint w s i e E"
  have oks: "slots_ok w" "owners_ok w" "channels_ok w" "inter_ok w" "rtsp_ok w" "entries_ok w" "conns_ok w" "fresh_ok w"
    using ok by (simp_all add: links_ok_def)
  have owner: "ep_session E = s" and uniq: "\<And>j. j < length (s_eps S) \<Longrightarrow> s_eps S ! j = Some e \<Longrightarrow> j = i"
    using oks(1) s i e unfolding slots_ok_def by (metis option.inject)+
  have other: "s' = s" if "sessions w s' = Some S'" "j < length (s_eps S')" "s_eps S' ! j = Some e" for s' S' j
    using oks(1) that e owner unfolding slots_ok_def by (metis option.inject)
  have upd: "l ! k = Some x" if "k < length l" "l[i := None] ! k = Some x" for l :: "nat option list" and k x
    using that by (cases "k = i") auto
  have "slots_ok ?w"
    unfolding slots_ok_def
  proof (intro allI impI, elim conjE)
    fix s' S' j e'
    assume a: "sessions ?w s' = Some S'" "j < length (s_eps S')" "s_eps S' ! j = Some e'"
    obtain S0 where S0: "sessions w s' = Some S0" "j < length (s_eps S0)" "s_eps S0 ! j = Some e'"
      "\<And>k. k < length (s_eps S') \<Longrightarrow> s_eps S' ! k = Some e' \<Longrightarrow> k < length (s_eps S0) \<and> s_eps S0 ! k = Some e'"
    proof (cases "s' = s")
      case True
      with a(1) s have "S' = S\<lparr>s_eps := (s_eps S)[i := None]\<rparr>" by (simp add: without_endpoint_def)
      with a(2,3) s True show ?thesis by (intro that [of S]) (auto dest: upd)
    next
      case False
      with a(1) have "sessions w s' = Some S'" by (simp add: without_endpoint_def)
      with a(2,3) show ?thesis by (intro that [of S']) simp_all
    qed
    have "e' \<noteq> e"
    proof
      assume "e' = e"
      with S0 other have "s' = s" by blast
      with S0 s uniq \<open>e' = e\<close> have "j = i" by auto
      with a \<open>s' = s\<close> s show False by (auto simp: without_endpoint_def nth_list_update)
    qed
    then show "(\<exists>E'. endpoints ?w e' = Some E' \<and> ep_session E' = s') \<and>
        (\<forall>k<length (s_eps S'). s_eps S' ! k = Some e' \<longrightarrow> k = j)"
      using S0 oks(1) unfolding slots_ok_def without_endpoint_def by (auto; metis)
  qed
  moreover have "owners_ok ?w"
    unfolding owners_ok_def
  proof (intro allI impI)
    fix e' E' assume a: "endpoints ?w e' = Some E'"
    then have ne: "e' \<noteq> e" and e': "endpoints w e' = Some E'" by (auto simp: without_endpoint_def split: if_splits)
    from oks(2) e' obtain S' where S': "sessions w (ep_session E') = Some S'" "Some e' \<in> set (s_eps S')"
      unfolding owners_ok_def by blast
    have "Some e' \<in> set ((s_eps S')[i := None])" if "S' = S"
      using S'(2) ne i that by (auto simp: in_set_conv_nth nth_list_update) (metis option.inject)
    with S' s show "\<exists>S'. sessions ?w (ep_session E') = Some S' \<and> Some e' \<in> set (s_eps S')"
      by (auto simp: without_endpoint_def)
  qed
  moreover have "channels_ok ?w"
    unfolding channels_ok_def
  proof (intro allI impI, elim conjE)
    fix c ch' k e' b assume "proto_state ?w c = Rtsp_State ch'" and k: "k < length ch'" "ch' ! k = (Some e', b)"
    then have "cut_channels w E c = Rtsp_State ch'" by (simp add: without_endpoint_def)
    from cut_channels_cases [OF oks(4) e this] obtain ch where ch: "proto_state w c = Rtsp_State ch" "length ch' = length ch"
      "\<And>k. k < length ch \<Longrightarrow> ch' ! k = ch ! k \<or> (\<exists>r q. ep_trans E = Inter c r q \<and> (k = r \<or> k = q) \<and> fst (ch' ! k) = None)"
      by metis
    from ch(2,3) k have "ch ! k = (Some e', b)" by force
    with oks(3) ch k obtain E' r q where E': "endpoints w e' = Some E'" "ep_trans E' = Inter c r q" "k = (if b then q else r)"
      unfolding channels_ok_def by metis
    have "e' \<noteq> e"
    proof
      assume "e' = e"
      with E' e have "ep_trans E = Inter c r q" by simp
      moreover from inter_okD [OF oks(4) e this] ch(1) have rq: "r \<noteq> q" "r < length ch" "q < length ch" by auto
      ultimately have "ch' = ch[r := (None, False), q := (None, True)]"
        using \<open>cut_channels w E c = Rtsp_State ch'\<close> ch(1) by (simp add: cut_channels_def)
      with k E'(3) ch(2) rq show False by (auto simp: nth_list_update split: if_splits)
    qed
    with E' show "\<exists>E r q. endpoints ?w e' = Some E \<and> ep_trans E = Inter c r q \<and> k = (if b then q else r)"
      by (auto simp: without_endpoint_def)
  qed
  moreover have "inter_ok ?w"
    unfolding inter_ok_def
  proof (intro allI impI, elim conjE)
    fix e' E' c r q assume a: "endpoints ?w e' = Some E'" "ep_trans E' = Inter c r q"
    then have ne: "e' \<noteq> e" and e': "endpoints w e' = Some E'" by (auto simp: without_endpoint_def split: if_splits)
    from inter_okD [OF oks(4) e' a(2)] obtain C ch where c: "conns w c = Some C" "r \<noteq> q" "proto_state w c = Rtsp_State ch"
      "r < length ch" "q < length ch" "ch ! r = (Some e', False)" "ch ! q = (Some e', True)" .
    from cut_channels_Rtsp [OF oks(4) e c(3)] obtain ch' where ch': "cut_channels w E c = Rtsp_State ch'" by blast
    from cut_channels_cases [OF oks(4) e this] c(3) have "length ch' = length ch"
      "\<And>k e' b. k < length ch \<Longrightarrow> ch ! k = (Some e', b) \<Longrightarrow> e' \<noteq> e \<Longrightarrow> ch' ! k = ch ! k" by (metis proto_state.inject(1))+
    with c ch' ne show "conns ?w c \<noteq> None \<and> r \<noteq> q \<and> (\<exists>ch. proto_state ?w c = Rtsp_State ch \<and> r < length ch \<and> q < length ch \<and>
        ch ! r = (Some e', False) \<and> ch ! q = (Some e', True))" by (auto simp: without_endpoint_def)
  qed
  moreover have "rtsp_ok ?w"
    by (rule rtsp_ok_cong [OF oks(5)]) (simp_all add: without_endpoint_def option.map_comp comp_def)
  moreover have "entries_ok ?w"
    by (rule entries_ok_cong [OF oks(6)]) (auto simp: without_endpoint_def option.map_comp comp_def split: if_splits)
  moreover have "conns_ok ?w"
  proof -
    have "length ch' = MAX_INTERLEAVE_CHANNELS \<and> (\<exists>C. conns w c = Some C \<and> c_proto C = CONN_PROTO_RTSP)"
      if "cut_channels w E c = Rtsp_State ch'" for c ch'
      using cut_channels_cases [OF oks(4) e that] oks(7) unfolding conns_ok_def by metis
    with oks(7) show ?thesis by (simp add: conns_ok_def without_endpoint_def)
  qed
  moreover have "fresh_ok ?w" using oks(8) s by (auto simp: fresh_ok_def without_endpoint_def)
  ultimately show ?thesis by (simp add: links_ok_def)
qed

end
