(* ===== verification/Sessions.thy ===== *)
theory Sessions
  imports World
begin

text \<open>
  What a server relies on when it calls the functions of a session: the function pointers of
  \<open>struct session\<close> and \<open>struct rtsp_location\<close>, and the contract of the code behind them. The
  contract is a locale; \<open>live.c\<close> provides it, \<open>rtsp.c\<close> uses it.
\<close>

section \<open>The function pointers\<close>

record provider =
  pr_open :: "world \<Rightarrow> nat \<Rightarrow> world \<times> nat"
  pr_get_sdp :: "world \<Rightarrow> nat \<Rightarrow> string option cres"
  pr_setup :: "world \<Rightarrow> random_values \<Rightarrow> int \<Rightarrow> nat \<Rightarrow> nat \<Rightarrow> (world \<times> bool) cres"
  pr_play :: "world \<Rightarrow> nat \<Rightarrow> bool \<Rightarrow> (world \<times> int option) cres"
  pr_pause :: "(world \<Rightarrow> nat \<Rightarrow> world) option"
  pr_teardown :: "world \<Rightarrow> nat \<Rightarrow> nat option \<Rightarrow> world cres"

section \<open>Basic facts\<close>

lemma drop_ConsD:
  assumes "t # ts = drop i l"
  shows "i < length l" "t = l ! i" "ts = drop (i + 1) l"
proof -
  show "i < length l" using assms by (metis drop_eq_Nil list.distinct(1) not_le)
  from Cons_nth_drop_Suc [OF this] assms show "t = l ! i" "ts = drop (i + 1) l" by (metis list.inject, simp) (metis list.sel(3))
qed

lemma inter_ok_cong:
  assumes "inter_ok w" "endpoints w' = endpoints w" "\<And>c. conns w' c = None \<longleftrightarrow> conns w c = None"
    and "proto_state w' = proto_state w"
  shows "inter_ok w'"
  using assms(1) unfolding inter_ok_def assms(2-4) .

lemma channels_ok_cong:
  assumes "channels_ok w" "endpoints w' = endpoints w" "proto_state w' = proto_state w"
  shows "channels_ok w'"
  using assms(1) unfolding channels_ok_def assms(2,3) .

lemma links_ok_parts:
  assumes "links_ok w" "endpoints w' = endpoints w" "sessions w' = sessions w" "proto_state w' = proto_state w"
    "rs_tab w' = rs_tab w" "rs_list w' = rs_list w" "entries w' = entries w"
  shows "slots_ok w'" "owners_ok w'" "channels_ok w'" "rtsp_ok w'" "entries_ok w'"
proof -
  have oks: "slots_ok w" "owners_ok w" "channels_ok w" "rtsp_ok w" "entries_ok w"
    using assms(1) by (simp_all add: links_ok_def)
  show "slots_ok w'" using oks(1) unfolding slots_ok_def assms(2-) .
  show "owners_ok w'" using oks(2) unfolding owners_ok_def assms(2-) .
  show "channels_ok w'" using oks(3) unfolding channels_ok_def assms(2-) .
  show "rtsp_ok w'" using oks(4) unfolding rtsp_ok_def assms(2-) .
  show "entries_ok w'" using oks(5) unfolding entries_ok_def assms(2-) .
qed

lemma fresh_okD:
  assumes "fresh_ok w"
  shows "sessions w (fresh w) = None" "endpoints w (fresh w) = None" "conns w (fresh w) = None" "rs_tab w (fresh w) = None"
  using assms by (simp_all add: fresh_ok_def)

lemma slot_endpoint:
  assumes "links_ok w" "sessions w s = Some S" "i < length (s_eps S)" "s_eps S ! i = Some e"
  obtains E where "endpoints w e = Some E" "ep_session E = s"
  using assms unfolding links_ok_def slots_ok_def by blast

lemma eps_length: "links_ok w \<Longrightarrow> sessions w s = Some S \<Longrightarrow> length (s_eps S) = MAX_TRACKS"
  by (auto simp: links_ok_def entries_ok_def)

section \<open>What an operation may change\<close>

text \<open>Channels are only cleared.\<close>

definition chan_le :: "nat option \<times> bool \<Rightarrow> nat option \<times> bool \<Rightarrow> bool" where
  "chan_le x y \<longleftrightarrow> snd x = snd y \<and> (fst x = fst y \<or> fst x = None)"

definition ps_le :: "proto_state \<Rightarrow> proto_state \<Rightarrow> bool" where
  "ps_le x y \<longleftrightarrow> x = y \<or> (\<exists>a b. x = Rtsp_State a \<and> y = Rtsp_State b \<and> list_all2 chan_le a b)"

lemma chan_le_refl [simp]: "chan_le x x"
  by (simp add: chan_le_def)

lemma ps_le_refl [simp]: "ps_le x x"
  by (simp add: ps_le_def)

lemma chan_le_trans: "chan_le x y \<Longrightarrow> chan_le y z \<Longrightarrow> chan_le x z"
  by (auto simp: chan_le_def)

lemma ps_le_trans: "ps_le x y \<Longrightarrow> ps_le y z \<Longrightarrow> ps_le x z"
  unfolding ps_le_def
  by (elim disjE exE conjE) (auto intro: list_all2_trans [of chan_le chan_le chan_le, OF chan_le_trans])

lemma ps_le_cut:
  assumes "inter_ok w" "endpoints w e = Some E"
  shows "ps_le (cut_channels w E c) (proto_state w c)"
proof (cases "ep_trans E")
  case (Inter c0 r q)
  from inter_okD [OF assms Inter] obtain C ch where c: "r \<noteq> q" "proto_state w c0 = Rtsp_State ch"
    "r < length ch" "q < length ch" "ch ! r = (Some e, False)" "ch ! q = (Some e, True)" by metis
  have "list_all2 chan_le (ch[r := (None, False), q := (None, True)]) ch"
    using c by (auto simp: list_all2_conv_all_nth nth_list_update chan_le_def)
  with c show ?thesis by (auto simp: cut_channels_def Inter ps_le_def)
qed (simp_all add: cut_channels_def)

text \<open>What a teardown may change: the session, and what depends on its endpoints.\<close>

definition torn_down :: "nat \<Rightarrow> world \<Rightarrow> world \<Rightarrow> bool" where
  "torn_down s w w' \<longleftrightarrow> conns w' = conns w \<and> conn_list w' = conn_list w \<and> fresh w' = fresh w \<and>
     (\<forall>s'. s' \<noteq> s \<longrightarrow> sessions w' s' = sessions w s') \<and>
     (\<forall>S'. sessions w' s = Some S' \<longrightarrow> (\<exists>S eps. sessions w s = Some S \<and> S' = S\<lparr>s_eps := eps\<rparr>)) \<and>
     (\<forall>e. endpoints w' e = endpoints w e \<or> endpoints w' e = None) \<and>
     (\<forall>c. ps_le (proto_state w' c) (proto_state w c))"

text \<open>
  What is left of the session that \<open>live_teardown\<close> is called for: without its endpoints, or without the
  one that is named, and nothing when no endpoint remains.
\<close>

definition drop_ep :: "nat option \<Rightarrow> nat option list \<Rightarrow> nat option list" where
  "drop_ep ep = map (\<lambda>x. if ep = None \<or> x = ep then None else x)"

definition torn_session :: "nat option \<Rightarrow> session \<Rightarrow> session option" where
  "torn_session ep S =
     (if list_all (\<lambda>x. x = None) (drop_ep ep (s_eps S)) then None else Some (S\<lparr>s_eps := drop_ep ep (s_eps S)\<rparr>))"

lemma torn_session_all [simp]: "torn_session None S = None"
  by (simp add: torn_session_def drop_ep_def list.pred_map list_all_iff)

lemma torn_session_ep: "torn_session (Some e) S = Some S' \<Longrightarrow> Some e \<notin> set (s_eps S')"
  by (auto simp: torn_session_def drop_ep_def split: if_splits)

definition blank_session :: "nat \<Rightarrow> session" where
  "blank_session en = \<lparr>s_eps = replicate MAX_TRACKS None, s_entry = en, s_playing = False, s_record = False,
     s_addr = ''(unconnected)'', s_control = None\<rparr>"


text \<open>A new session for an entry.\<close>

definition opened :: "world \<Rightarrow> nat \<Rightarrow> world \<Rightarrow> nat \<Rightarrow> bool" where
  "opened w en w' s \<longleftrightarrow> s = fresh w \<and> sessions w' = (sessions w)(s := Some (blank_session en)) \<and>
     fresh w' = fresh w + 1 \<and> conns w' = conns w \<and> conn_list w' = conn_list w \<and> proto_state w' = proto_state w \<and>
     endpoints w' = endpoints w \<and> rs_tab w' = rs_tab w \<and> rs_list w' = rs_list w \<and>
     rtsp_loc_list w' = rtsp_loc_list w \<and> digest_secret w' = digest_secret w"

definition with_endpoint :: "world \<Rightarrow> nat \<Rightarrow> nat \<Rightarrow> endpoint \<Rightarrow> world" where
  "with_endpoint w s t E =
     upd_session s (\<lambda>S. S\<lparr>s_eps := (s_eps S)[t := Some (fresh w)]\<rparr>)
       (w\<lparr>endpoints := (endpoints w)(fresh w := Some E), fresh := fresh w + 1\<rparr>)"

lemma with_endpoint_links:
  assumes ok: "links_ok w" and s: "sessions w s = Some S" and t: "t < MAX_TRACKS" "s_eps S ! t = None"
    and E: "ep_session E = s" "ep_trans E = No_Trans"
  shows "links_ok (with_endpoint w s t E)"
proof -
  let ?w = "with_endpoint w s t E" and ?e = "fresh w"
  have oks: "slots_ok w" "owners_ok w" "channels_ok w" "inter_ok w" "rtsp_ok w" "entries_ok w" "conns_ok w" "fresh_ok w"
    using ok by (simp_all add: links_ok_def)
  note new = fresh_okD [OF oks(8)]
  have len: "length (s_eps S) = MAX_TRACKS" by (rule eps_length [OF ok s])
  let ?S = "S\<lparr>s_eps := (s_eps S)[t := Some ?e]\<rparr>"
  have sess: "sessions ?w = (sessions w)(s := Some ?S)" using s by (simp add: with_endpoint_def)
  have eq: "endpoints ?w = (endpoints w)(?e := Some E)" "proto_state ?w = proto_state w" "conns ?w = conns w"
    "conn_list ?w = conn_list w" "entries ?w = entries w" "rs_tab ?w = rs_tab w" "rs_list ?w = rs_list w"
    by (simp_all add: with_endpoint_def)
  have old: "e \<noteq> ?e" if "sessions w s' = Some S'" "i < length (s_eps S')" "s_eps S' ! i = Some e" for s' S' i e
    using oks(1) that new(2) unfolding slots_ok_def by (metis option.distinct(1))
  have "slots_ok ?w"
    unfolding slots_ok_def sess eq
  proof (intro allI impI, elim conjE)
    fix s' S' i e assume a: "((sessions w)(s := Some ?S)) s' = Some S'" "i < length (s_eps S')" "s_eps S' ! i = Some e"
    show "(\<exists>E'. ((endpoints w)(?e := Some E)) e = Some E' \<and> ep_session E' = s') \<and>
        (\<forall>j < length (s_eps S'). s_eps S' ! j = Some e \<longrightarrow> j = i)"
    proof (cases "s' = s")
      case False
      with a old oks(1) show ?thesis unfolding slots_ok_def by simp
    next
      case True
      with a have S': "S' = ?S" by simp
      have i: "i < length (s_eps S)" using a(2) S' by simp
      show ?thesis
      proof (cases "i = t")
        case True
        then have "e = ?e" using a(3) S' i by simp
        moreover have "j = t" if "j < length (s_eps S)" "s_eps ?S ! j = Some ?e" for j
          using that old [OF s that(1)] by (cases "j = t") auto
        ultimately show ?thesis using True S' E(1) \<open>s' = s\<close> by simp
      next
        case False
        then have e: "s_eps S ! i = Some e" using a(3) S' by simp
        have ne: "e \<noteq> ?e" by (rule old [OF s i e])
        have "(\<exists>E'. endpoints w e = Some E' \<and> ep_session E' = s) \<and>
          (\<forall>j < length (s_eps S). s_eps S ! j = Some e \<longrightarrow> j = i)" using oks(1) s i e unfolding slots_ok_def by blast
        moreover have "s_eps S ! j = Some e" if "j < length (s_eps S)" "s_eps ?S ! j = Some e" for j
          using that ne by (cases "j = t") auto
        ultimately show ?thesis using ne S' \<open>s' = s\<close> by simp
      qed
    qed
  qed
  moreover have "owners_ok ?w"
    unfolding owners_ok_def sess eq
  proof (intro allI impI)
    fix e E' assume a: "((endpoints w)(?e := Some E)) e = Some E'"
    show "\<exists>S'. ((sessions w)(s := Some ?S)) (ep_session E') = Some S' \<and> Some e \<in> set (s_eps S')"
    proof (cases "e = ?e")
      case True
      with a E(1) t(1) len show ?thesis by (auto intro: set_update_memI)
    next
      case False
      with a oks(2) obtain S' where S': "sessions w (ep_session E') = Some S'" "Some e \<in> set (s_eps S')"
        unfolding owners_ok_def by auto
      show ?thesis
      proof (cases "ep_session E' = s")
        case True
        with S' s have "Some e \<in> set (s_eps S)" by simp
        then obtain j where j: "j < length (s_eps S)" "s_eps S ! j = Some e" by (metis in_set_conv_nth)
        with t(2) have "j \<noteq> t" by auto
        with j have "(s_eps S)[t := Some ?e] ! j = Some e" by simp
        with j(1) have "Some e \<in> set ((s_eps S)[t := Some ?e])" by (metis length_list_update nth_mem)
        with True show ?thesis by simp
      next
        case False
        with S' show ?thesis by simp
      qed
    qed
  qed
  moreover have "channels_ok ?w"
    unfolding channels_ok_def eq
  proof (intro allI impI, elim conjE)
    fix c ch k e b assume "proto_state w c = Rtsp_State ch" "k < length ch" "ch ! k = (Some e, b)"
    then obtain E' r q where E': "endpoints w e = Some E'" "ep_trans E' = Inter c r q" "k = (if b then q else r)"
      using oks(3) unfolding channels_ok_def by blast
    with new(2) have "e \<noteq> ?e" by auto
    with E' show "\<exists>E' r q. ((endpoints w)(?e := Some E)) e = Some E' \<and> ep_trans E' = Inter c r q \<and> k = (if b then q else r)"
      by simp
  qed
  moreover have "inter_ok ?w"
    unfolding inter_ok_def eq
  proof (intro allI impI, elim conjE)
    fix e E' c r q assume "((endpoints w)(?e := Some E)) e = Some E'" "ep_trans E' = Inter c r q"
    with E(2) have "endpoints w e = Some E'" "ep_trans E' = Inter c r q" by (auto split: if_splits)
    with oks(4) show "conns w c \<noteq> None \<and> r \<noteq> q \<and> (\<exists>ch. proto_state w c = Rtsp_State ch \<and> r < length ch \<and> q < length ch \<and>
        ch ! r = (Some e, False) \<and> ch ! q = (Some e, True))" unfolding inter_ok_def by blast
  qed
  moreover have "rtsp_ok ?w" by (rule rtsp_ok_cong [OF oks(5)]) (use s in \<open>simp_all add: sess eq\<close>)
  moreover have "entries_ok ?w"
    by (rule entries_ok_cong [OF oks(6)]) (use s in \<open>auto simp: sess eq split: if_splits\<close>)
  moreover have "conns_ok ?w" using oks(7) unfolding conns_ok_def eq .
  moreover have "fresh_ok ?w"
    using oks(8) new(1) s unfolding fresh_ok_def sess eq by (auto simp: with_endpoint_def)
  ultimately show ?thesis by (simp add: links_ok_def)
qed

text \<open>
  Without a variable for the start position, playing is only safe while no endpoint of the
  session has sent a packet.
\<close>

definition may_play :: "world \<Rightarrow> session \<Rightarrow> bool \<Rightarrow> bool" where
  "may_play w S have_start \<longleftrightarrow>
     have_start \<or> (\<forall>i<MAX_TRACKS. \<forall>e E. s_eps S ! i = Some e \<and> endpoints w e = Some E \<longrightarrow> packet_count E = 0)"

text \<open>Playing changes the sessions only in that they play.\<close>

definition played :: "world \<Rightarrow> world \<Rightarrow> bool" where
  "played w w' \<longleftrightarrow> conns w' = conns w \<and> conn_list w' = conn_list w \<and> proto_state w' = proto_state w \<and>
     endpoints w' = endpoints w \<and> rs_tab w' = rs_tab w \<and> rs_list w' = rs_list w \<and>
     (\<forall>s. map_option s_eps (sessions w' s) = map_option s_eps (sessions w s))"

section \<open>What live sessions depend on\<close>

definition live_fields :: "session \<Rightarrow> nat option list \<times> nat \<times> bool" where
  "live_fields S = (s_eps S, s_entry S, s_playing S)"

definition same_view :: "world \<Rightarrow> world \<Rightarrow> bool" where
  "same_view w w' \<longleftrightarrow> entries w' = entries w \<and> tracks w' = tracks w \<and> streams_of w' = streams_of w \<and>
     (\<forall>s. map_option live_fields (sessions w' s) = map_option live_fields (sessions w s))"

lemma same_view_refl [simp]: "same_view w w"
  by (simp add: same_view_def)

lemma same_view_trans: "same_view w w1 \<Longrightarrow> same_view w1 w2 \<Longrightarrow> same_view w w2"
  by (simp add: same_view_def)

lemma same_view_sessionD:
  assumes "same_view w w'" "sessions w' s = Some S'"
  obtains S where "sessions w s = Some S" "live_fields S = live_fields S'"
proof -
  have "map_option live_fields (sessions w' s) = map_option live_fields (sessions w s)"
    using assms(1) by (simp add: same_view_def)
  with assms(2) that show ?thesis by (cases "sessions w s") simp_all
qed

lemma same_view_sym: "same_view w w' \<Longrightarrow> same_view w' w"
  by (simp add: same_view_def)

section \<open>The contract\<close>

locale session_provider =
  fixes P :: provider and inv :: "world \<Rightarrow> bool"
  assumes inv_links: "inv w \<Longrightarrow> links_ok w"
    and inv_view: "inv w \<Longrightarrow> links_ok w' \<Longrightarrow> same_view w w' \<Longrightarrow> inv w'"
    and open_ok: "inv w \<Longrightarrow> pr_open P w en = (w', s) \<Longrightarrow> inv w' \<and> opened w en w' s"
    and setup_ok: "inv w \<Longrightarrow> sessions w s = Some S \<Longrightarrow> t < MAX_TRACKS \<Longrightarrow> s_eps S ! t = None \<Longrightarrow>
      pr_setup P w rnd now s t = Inr (w, False) \<or>
      (\<exists>E. pr_setup P w rnd now s t = Inr (with_endpoint w s t E, True) \<and> inv (with_endpoint w s t E) \<and>
         ep_session E = s \<and> ep_trans E = No_Trans)"
    and play_ok: "inv w \<Longrightarrow> sessions w s = Some S \<Longrightarrow> may_play w S have_start \<Longrightarrow>
      \<exists>w' start. pr_play P w s have_start = Inr (w', start) \<and> inv w' \<and> played w w'"
    and teardown_ok: "inv w \<Longrightarrow> sessions w s = Some S \<Longrightarrow>
      \<exists>w'. pr_teardown P w s ep = Inr w' \<and> inv w' \<and> torn_down s w w' \<and> sessions w' s = torn_session ep S"
    and pause_ok: "inv w \<Longrightarrow> pr_pause P = Some f \<Longrightarrow> inv (f w s) \<and> played w (f w s)"

end
