(* ===== verification/Live.thy ===== *)
theory Live
  imports Sessions
begin

text \<open>
  \<open>live.c\<close>: the sessions that watch live streams. An entry (\<open>RTSP-Handler Live\<close>) has up to
  two tracks; a track takes its frames from a destination of a stream, has one packetiser,
  and is shared by up to four entries. Opening, setting up, playing and tearing down a
  session switch the sources on and off, and a new frame goes to the endpoints of all
  playing sessions. Multicast (\<open>g_bMulticastMode\<close>) is off, as it is unless other code of the
  program switches it on.
\<close>

section \<open>Tracks\<close>

definition LIVE_MAX_ENTRIES :: nat where "LIVE_MAX_ENTRIES = 4"

definition has_media :: "world \<Rightarrow> nat option \<Rightarrow> bool" where
  "has_media w t = (case t of None \<Rightarrow> False | Some k \<Rightarrow> lt_media (tracks w k) \<noteq> None)"

text \<open>
  The tracks that the loops over \<open>tracklist\<close> go through: up to the first that is missing or has
  no packetiser.
\<close>

definition entry_tracks :: "world \<Rightarrow> nat \<Rightarrow> nat list" where
  "entry_tracks w en = map the (takeWhile (has_media w) (take MAX_TRACKS (le_tracks (entries w en))))"

text \<open>A call of \<open>set_waiting\<close> that does not return counts as a fault, as it would exhaust the stack.\<close>

definition world_set_waiting :: "world \<Rightarrow> nat \<Rightarrow> bool \<Rightarrow> world cres" where
  "world_set_waiting w d b =
     (case set_waiting (streams_of w) d b of
        None \<Rightarrow> Inl Fault
      | Some (Inl e) \<Rightarrow> Inl e
      | Some (Inr g) \<Rightarrow> Inr (w\<lparr>streams_of := g\<rparr>))"

section \<open>Opening and setting up\<close>

definition live_open :: "world \<Rightarrow> nat \<Rightarrow> world \<times> nat" where
  "live_open w en =
     (let (w1, s) = new_session w en
      in (w1\<lparr>entries := (entries w1)(en := (entries w1 en)\<lparr>le_sessions := s # le_sessions (entries w1 en)\<rparr>)\<rparr>, s))"

definition media_payload :: "media \<Rightarrow> int \<Rightarrow> int" where
  "media_payload m p =
     (case m of Media_Mpeg4 _ \<Rightarrow> p | Media_H264 _ \<Rightarrow> p
      | Media_Jpeg _ \<Rightarrow> jpeg_get_payload p | Media_Raw r \<Rightarrow> rawaudio_get_payload r p)"

definition live_setup :: "world \<Rightarrow> random_values \<Rightarrow> int \<Rightarrow> nat \<Rightarrow> nat \<Rightarrow> (world \<times> bool) cres" where
  "live_setup w rnd now s t =
     bindE (deref (sessions w) s) (\<lambda>S.
       case le_tracks (entries w (s_entry S)) ! t of
         None \<Rightarrow> Inr (w, False)
       | Some k \<Rightarrow>
           (case lt_media (tracks w k) of
              None \<Rightarrow> Inr (w, False)
            | Some m \<Rightarrow>
                let e = fresh w;
                    E = new_rtp_endpoint rnd now s (media_payload m (96 + int t)) (lt_tick2ts (tracks w k))
                in Inr (upd_session s (\<lambda>S. S\<lparr>s_eps := (s_eps S)[t := Some e]\<rparr>)
                          (w\<lparr>endpoints := (endpoints w)(e := Some E), fresh := e + 1\<rparr>), True)))"

section \<open>Playing\<close>

text \<open>
  \<open>start\<close> is what the caller's variable holds afterwards, when it gave one: \<open>-1\<close>, or \<open>0\<close> when an
  endpoint has sent before. Without the variable the store of \<open>0\<close> goes through a null pointer.
\<close>

fun play_tracks :: "world \<Rightarrow> nat \<Rightarrow> nat \<Rightarrow> nat list \<Rightarrow> int option \<Rightarrow> (world \<times> int option) cres" where
  "play_tracks w s i [] start = Inr (w, start)"
| "play_tracks w s i (t # ts) start =
     bindE (deref (sessions w) s) (\<lambda>S.
       case s_eps S ! i of
         None \<Rightarrow> play_tracks w s (i + 1) ts start
       | Some e \<Rightarrow>
           bindE (world_set_waiting w (lt_dest (tracks w t)) True) (\<lambda>w1.
           bindE (deref (endpoints w1) e) (\<lambda>E.
             if packet_count E = 0 then play_tracks w1 s (i + 1) ts start
             else if start = None then Inl Fault
             else play_tracks w1 s (i + 1) ts (Some 0))))"

definition live_play :: "world \<Rightarrow> nat \<Rightarrow> bool \<Rightarrow> (world \<times> int option) cres" where
  "live_play w s have_start =
     bindE (deref (sessions w) s) (\<lambda>S.
       play_tracks (upd_session s (\<lambda>S. S\<lparr>s_playing := True\<rparr>) w) s 0 (entry_tracks w (s_entry S))
         (if have_start then Some (-1) else None))"

section \<open>Tearing down\<close>

text \<open>The sessions that \<open>track_check_running1\<close> looks at, with the position of the track.\<close>

definition track_listeners :: "world \<Rightarrow> nat \<Rightarrow> (nat \<times> nat) list" where
  "track_listeners w t =
     [(j, s). en \<leftarrow> lt_entries (tracks w t), j \<leftarrow> [0..<MAX_TRACKS],
              le_tracks (entries w en) ! j = Some t, s \<leftarrow> le_sessions (entries w en)]"

fun any_playing :: "world \<Rightarrow> (nat \<times> nat) list \<Rightarrow> bool cres" where
  "any_playing w [] = Inr False"
| "any_playing w ((j, s) # r) =
     bindE (deref (sessions w) s) (\<lambda>S.
       if s_playing S \<and> s_eps S ! j \<noteq> None then Inr True else any_playing w r)"

definition track_check_running1 :: "world \<Rightarrow> nat \<Rightarrow> world cres" where
  "track_check_running1 w t =
     bindE (any_playing w (track_listeners w t)) (\<lambda>p.
       if p then Inr w else world_set_waiting w (lt_dest (tracks w t)) False)"

text \<open>
  The loop of \<open>live_teardown\<close> counts the endpoints that remain; \<open>ep\<close> is the one to be dropped,
  or none for all.
\<close>

fun teardown_tracks :: "world \<Rightarrow> nat \<Rightarrow> nat option \<Rightarrow> nat \<Rightarrow> nat list \<Rightarrow> nat \<Rightarrow> (world \<times> nat) cres" where
  "teardown_tracks w s ep i [] remaining = Inr (w, remaining)"
| "teardown_tracks w s ep i (t # ts) remaining =
     bindE (deref (sessions w) s) (\<lambda>S.
       case s_eps S ! i of
         None \<Rightarrow> teardown_tracks w s ep (i + 1) ts remaining
       | Some e \<Rightarrow>
           if ep = None \<or> ep = Some e
           then bindE (del_rtp_endpoint w e) (\<lambda>w1.
                bindE (track_check_running1 (upd_session s (\<lambda>S. S\<lparr>s_eps := (s_eps S)[i := None]\<rparr>) w1) t) (\<lambda>w2.
                  teardown_tracks w2 s ep (i + 1) ts remaining))
           else teardown_tracks w s ep (i + 1) ts (remaining + 1))"

definition live_teardown :: "world \<Rightarrow> nat \<Rightarrow> nat option \<Rightarrow> world cres" where
  "live_teardown w s ep =
     bindE (deref (sessions w) s) (\<lambda>S.
     bindE (teardown_tracks w s ep 0 (entry_tracks w (s_entry S)) 0) (\<lambda>(w1, remaining).
       if remaining \<noteq> 0 then Inr w1
       else let en = s_entry S
            in del_session (w1\<lparr>entries := (entries w1)(en :=
                 (entries w1 en)\<lparr>le_sessions := remove1 s (le_sessions (entries w1 en))\<rparr>)\<rparr>) s))"

section \<open>Sending\<close>

text \<open>
  What the environment does during a call: the time in seconds, whether \<open>sendmsg\<close> succeeds, and
  whether the value that \<open>rtcp_send\<close> returns by \<open>return;\<close>, which is indeterminate, is negative.
\<close>

record send_env =
  se_now :: int
  se_udp_ok :: bool
  se_negative :: bool
  se_stop :: bool

text \<open>The result is whether the value returned is not negative.\<close>

definition rtcp_send :: "send_env \<Rightarrow> world \<Rightarrow> nat \<Rightarrow> (world \<times> bool) cres" where
  "rtcp_send env w e =
     bindE (deref (endpoints w) e) (\<lambda>E.
       let w1 = upd_endpoint e (\<lambda>E. E\<lparr>force_rtcp := False\<rparr>) w in
       if (case ep_trans E of Udp _ _ \<Rightarrow> 15 < se_now env - last_rtcp_recv E | _ \<Rightarrow> False)
       then bindE (live_teardown w1 (ep_session E) (Some e)) (\<lambda>w2. Inr (w2, False))
       else Inr (w1, \<not> se_negative env))"

definition transmit :: "send_env \<Rightarrow> world \<Rightarrow> nat \<Rightarrow> endpoint \<Rightarrow> byte list list \<Rightarrow> (world \<times> bool) cres" where
  "transmit env w e E v =
     (case ep_trans E of
        No_Trans \<Rightarrow> Inr (w, True)
      | Udp _ _ \<Rightarrow>
          if se_udp_ok env then Inr (w\<lparr>udp_out := udp_out w @ [(e, concat v)]\<rparr>, True) else Inr (w, False)
      | Inter c rtp _ \<Rightarrow>
          bindE (deref (conns w) c) (\<lambda>C.
            Inr (w\<lparr>conns := (conns w)(c := Some (fst (interleave_send C rtp v)))\<rparr>, True)))"

definition send_rtp_packet :: "send_env \<Rightarrow> nat \<Rightarrow> world \<Rightarrow> packet \<Rightarrow> (world \<times> bool) cres" where
  "send_rtp_packet env e w p =
     (let (v, ts, m) = p in
      bindE (deref (endpoints w) e) (\<lambda>E0.
        let E = stamp E0 ts; w1 = upd_endpoint e (\<lambda>_. E) w in
        bindE (transmit env w1 e E (rtp_header E m # v)) (\<lambda>(w2, ok).
          if \<not> ok then Inr (w2, False)
          else let w3 = upd_endpoint e (\<lambda>E. count_packet E v) w2 in
               if \<not> force_rtcp E then Inr (upd_endpoint e next_seqnum w3, True)
               else bindE (rtcp_send env w3 e) (\<lambda>(w4, ok).
                 if \<not> ok then Inr (w4, False)
                 else Inr (upd_endpoint e next_seqnum (upd_endpoint e (\<lambda>E. E\<lparr>rtcp_enabled := True\<rparr>) w4), True)))))"

text \<open>\<open>send_rtp_packet\<close> as a sender for the packetisers: after a fault nothing is sent.\<close>

definition endpoint_sender :: "send_env \<Rightarrow> nat \<Rightarrow> world cres sender" where
  "endpoint_sender env e r p =
     (case r of
        Inl x \<Rightarrow> (Inl x, False)
      | Inr w \<Rightarrow> (case send_rtp_packet env e w p of Inl x \<Rightarrow> (Inl x, False) | Inr (w', ok) \<Rightarrow> (Inr w', ok)))"

definition media_send :: "send_env \<Rightarrow> media \<Rightarrow> world \<Rightarrow> nat \<Rightarrow> (world \<times> bool) cres" where
  "media_send env m w e =
     bindE (deref (endpoints w) e) (\<lambda>E.
       let send = endpoint_sender env e; mx = max_data_size E;
           run = (\<lambda>r. case r of None \<Rightarrow> Inl Fault | Some (w', ok) \<Rightarrow> bindE w' (\<lambda>w'. Inr (w', ok)))
       in case m of
            Media_Mpeg4 out \<Rightarrow> run (mpeg4_send send (Inr w) mx out)
          | Media_H264 out \<Rightarrow> run (h264_send send (Inr w) mx out)
          | Media_Jpeg out \<Rightarrow> bindE (jpeg_send send (Inr w) mx out) run
          | Media_Raw out \<Rightarrow> run (rawaudio_send send (Inr w) mx out))"

section \<open>A new frame\<close>

definition media_frame :: "media \<Rightarrow> byte list \<Rightarrow> u32 \<Rightarrow> (media \<times> bool) cres" where
  "media_frame m d ts =
     (case m of
        Media_Mpeg4 out \<Rightarrow> bindE (mpeg4_process_frame out d ts) (\<lambda>(o', ok). Inr (Media_Mpeg4 o', ok))
      | Media_H264 out \<Rightarrow> bindE (h264_process_frame out d ts) (\<lambda>(o', ok). Inr (Media_H264 o', ok))
      | Media_Jpeg out \<Rightarrow> bindE (jpeg_process_frame out d ts) (\<lambda>(o', ok). Inr (Media_Jpeg o', ok))
      | Media_Raw out \<Rightarrow> (let (o', ok) = rawaudio_process_frame out d ts in Inr (Media_Raw o', ok)))"

text \<open>
  One session: the first position of the track at which it may send. After sending, the endpoint
  is written to, whether or not it still exists.
\<close>

fun send_to_session :: "send_env \<Rightarrow> world \<Rightarrow> nat \<Rightarrow> nat \<Rightarrow> bool \<Rightarrow> nat \<Rightarrow> nat list \<Rightarrow> world cres" where
  "send_to_session env w t en key s [] = Inr w"
| "send_to_session env w t en key s (j # js) =
     (if le_tracks (entries w en) ! j \<noteq> Some t then send_to_session env w t en key s js
      else bindE (deref (sessions w) s) (\<lambda>S.
        case (if s_playing S then s_eps S ! j else None) of
          None \<Rightarrow> Inr w
        | Some e \<Rightarrow>
            bindE (deref (endpoints w) e) (\<lambda>E.
              if lost_key_frame E \<and> \<not> key then send_to_session env w t en key s js
              else bindE (if se_stop env then Inr (w, False)
                          else case lt_media (tracks w t) of
                                 None \<Rightarrow> Inl Fault | Some m \<Rightarrow> media_send env m w e) (\<lambda>(w1, ok).
                if \<not> key then Inr w1
                else bindE (deref (endpoints w1) e) (\<lambda>_.
                  Inr (upd_endpoint e (\<lambda>E. E\<lparr>lost_key_frame := \<not> ok\<rparr>) w1))))))"

fun send_to_sessions :: "send_env \<Rightarrow> world \<Rightarrow> nat \<Rightarrow> bool \<Rightarrow> (nat \<times> nat) list \<Rightarrow> world cres" where
  "send_to_sessions env w t key [] = Inr w"
| "send_to_sessions env w t key ((en, s) # r) =
     bindE (send_to_session env w t en key s [0..<MAX_TRACKS]) (\<lambda>w1. send_to_sessions env w1 t key r)"

definition next_live_frame :: "send_env \<Rightarrow> world \<Rightarrow> nat \<Rightarrow> byte list \<Rightarrow> u32 \<Rightarrow> bool \<Rightarrow> world cres" where
  "next_live_frame env w t d ts key =
     (case lt_media (tracks w t) of
        None \<Rightarrow> Inl Fault
      | Some m \<Rightarrow>
          bindE (media_frame m d ts) (\<lambda>(m', ok).
            let w1 = w\<lparr>tracks := (tracks w)(t := (tracks w t)\<lparr>lt_media := Some m'\<rparr>)\<rparr> in
            if \<not> ok then Inr w1
            else bindE (if lt_ready (tracks w1 t) then Inr w1
                        else bindE (world_set_waiting w1 (lt_dest (tracks w1 t)) False) (\<lambda>w2.
                          Inr (w2\<lparr>tracks := (tracks w2)(t := (tracks w2 t)\<lparr>lt_ready := True\<rparr>)\<rparr>))) (\<lambda>w2.
              send_to_sessions env w2 t key
                [(en, s). en \<leftarrow> lt_entries (tracks w2 t), s \<leftarrow> le_sessions (entries w2 en)])))"

section \<open>The session description\<close>

definition media_sdp :: "media \<Rightarrow> int \<Rightarrow> int \<Rightarrow> string option" where
  "media_sdp m pt port =
     (case m of Media_Mpeg4 out \<Rightarrow> mpeg4_get_sdp out pt port | Media_H264 _ \<Rightarrow> Some (h264_get_sdp pt port)
      | Media_Jpeg _ \<Rightarrow> Some (jpeg_get_sdp pt port) | Media_Raw out \<Rightarrow> rawaudio_get_sdp out pt port)"

text \<open>Address and port that a description names for an endpoint; a fresh one has neither.\<close>

definition endpoint_sdp :: "world \<Rightarrow> nat option \<Rightarrow> string \<times> int \<Rightarrow> (string \<times> int) cres" where
  "endpoint_sdp w slot dflt =
     (case slot of
        None \<Rightarrow> Inr dflt
      | Some e \<Rightarrow>
          bindE (deref (endpoints w) e) (\<lambda>E.
            case ep_trans E of Inter _ _ _ \<Rightarrow> Inr dflt | Udp addr port \<Rightarrow> Inr (addr, port) | No_Trans \<Rightarrow> Inl Fault))"

text \<open>
  \<open>dims\<close> is what \<open>get_property\<close> of the stream says about width and height, 0 without that
  function. A packetiser that fails returns \<open>-1\<close>, which moves the end of the text back by one.
  The text has to stay in the array of 8192 bytes.
\<close>

fun sdp_tracks :: "(nat \<Rightarrow> int \<times> int) \<Rightarrow> world \<Rightarrow> session \<Rightarrow> nat \<Rightarrow> nat list \<Rightarrow> string \<Rightarrow> string option cres" where
  "sdp_tracks dims w S i [] acc = Inr (Some acc)"
| "sdp_tracks dims w S i (t # ts) acc =
     (if \<not> lt_ready (tracks w t) then Inr None
      else bindE (endpoint_sdp w (s_eps S ! i) ([], 0)) (\<lambda>(_, port).
        case lt_media (tracks w t) of
          None \<Rightarrow> Inl Fault
        | Some m \<Rightarrow>
            (let acc = (case media_sdp m (96 + int i) port of None \<Rightarrow> butlast acc | Some x \<Rightarrow> acc @ x);
                 acc = acc @ ''a=control:track'' @ dec_nat i @ crlf;
                 (width, height) = dims (lt_dest (tracks w t));
                 acc = (if height \<noteq> 0 \<and> width \<noteq> 0
                        then acc @ ''a=x-dimensions:'' @ dec_int width @ '','' @ dec_int height @ crlf else acc)
             in if 8192 \<le> length acc then Inl Fault else sdp_tracks dims w S (i + 1) ts acc)))"

definition live_get_sdp :: "(nat \<Rightarrow> int \<times> int) \<Rightarrow> world \<Rightarrow> nat \<Rightarrow> string option cres" where
  "live_get_sdp dims w s =
     bindE (deref (sessions w) s) (\<lambda>S.
       case le_tracks (entries w (s_entry S)) ! 0 of
         None \<Rightarrow> Inl Fault
       | Some t \<Rightarrow>
           if lt_media (tracks w t) = None \<or> \<not> lt_ready (tracks w t) then Inr None
           else bindE (endpoint_sdp w (s_eps S ! 0) (''0.0.0.0'', 0)) (\<lambda>(addr, _).
             sdp_tracks dims w S 0 (entry_tracks w (s_entry S))
               (''v=0'' @ crlf @ ''o=- 1 1 IN IP4 127.0.0.1'' @ crlf @ ''s=Test'' @ crlf @ ''a=type:broadcast'' @ crlf @
                ''t=0 0'' @ crlf @ ''c=IN IP4 '' @ addr @ ''/1'' @ crlf)))"

definition live_provider :: "(nat \<Rightarrow> int \<times> int) \<Rightarrow> provider" where
  "live_provider dims = \<lparr>pr_open = live_open, pr_get_sdp = live_get_sdp dims, pr_setup = live_setup,
     pr_play = live_play, pr_pause = None, pr_teardown = live_teardown\<rparr>"

end
