(* ===== verification/Live_Proofs.thy ===== *)
theory Live_Proofs
  imports Live
begin

text \<open>
  The sessions of \<open>live.c\<close> keep the state well-formed: no pointer dangles, the streams stay in
  step, and a source that has delivered its first frame runs only while somebody watches.
\<close>

section \<open>Well-formed worlds\<close>

definition used :: "world \<Rightarrow> nat \<Rightarrow> bool" where
  "used w t \<longleftrightarrow> (\<exists>en. Some t \<in> set (le_tracks (entries w en)))"

text \<open>The configuration: how entries and tracks refer to each other.\<close>

definition config_ok :: "world \<Rightarrow> bool" where
  "config_ok w \<longleftrightarrow>
     (\<forall>en. length (le_tracks (entries w en)) = MAX_TRACKS) \<and>
     (\<forall>en j. j < MAX_TRACKS \<and> has_media w (le_tracks (entries w en) ! j) \<longrightarrow> j < length (entry_tracks w en)) \<and>
     (\<forall>en t. Some t \<in> set (le_tracks (entries w en)) \<longrightarrow> en \<in> set (lt_entries (tracks w t))) \<and>
     (\<forall>t t'. used w t \<and> used w t' \<and> lt_dest (tracks w t) = lt_dest (tracks w t') \<longrightarrow> t = t')"

definition eps_ok :: "world \<Rightarrow> bool" where
  "eps_ok w \<longleftrightarrow> (\<forall>s S i. sessions w s = Some S \<and> i < MAX_TRACKS \<and> s_eps S ! i \<noteq> None \<longrightarrow>
     has_media w (le_tracks (entries w (s_entry S)) ! i))"

definition dest_ok :: "graph \<Rightarrow> nat \<Rightarrow> bool" where
  "dest_ok g d \<longleftrightarrow> d \<in> set (st_dests (streams g (dest_stream g d))) \<and> end_dest g d \<and>
     st_set_running (streams g (dest_stream g d)) \<noteq> No_Fn"

definition graph_ok :: "world \<Rightarrow> bool" where
  "graph_ok w \<longleftrightarrow> (\<exists>rank. wf_graph rank (streams_of w)) \<and> (\<forall>s. stream_ok (streams_of w) s) \<and>
     (\<forall>t. used w t \<longrightarrow> dest_ok (streams_of w) (lt_dest (tracks w t)))"

text \<open>Somebody watches the track: a playing session has an endpoint for it.\<close>

definition watches :: "world \<Rightarrow> nat \<times> nat \<Rightarrow> bool" where
  "watches w p \<longleftrightarrow> (\<exists>S. sessions w (snd p) = Some S \<and> s_playing S \<and> s_eps S ! fst p \<noteq> None)"

definition watched :: "world \<Rightarrow> nat \<Rightarrow> bool" where
  "watched w t \<longleftrightarrow> (\<exists>p\<in>set (track_listeners w t). watches w p)"

definition idle_ok :: "world \<Rightarrow> nat \<Rightarrow> bool" where
  "idle_ok w t \<longleftrightarrow> (lt_ready (tracks w t) \<and> waiting (streams_of w) (lt_dest (tracks w t)) \<longrightarrow> watched w t)"

definition world_ok :: "world \<Rightarrow> bool" where
  "world_ok w \<longleftrightarrow> links_ok w \<and> config_ok w \<and> eps_ok w \<and> graph_ok w \<and> (\<forall>t. used w t \<longrightarrow> idle_ok w t)"

section \<open>Basic facts\<close>

definition same_config :: "world \<Rightarrow> world \<Rightarrow> bool" where
  "same_config w w' \<longleftrightarrow> (\<forall>en. le_tracks (entries w' en) = le_tracks (entries w en)) \<and>
     (\<forall>t. lt_entries (tracks w' t) = lt_entries (tracks w t) \<and> lt_dest (tracks w' t) = lt_dest (tracks w t) \<and>
          (lt_media (tracks w' t) = None \<longleftrightarrow> lt_media (tracks w t) = None))"

lemma same_config_simps:
  assumes "same_config w w'"
  shows "has_media w' = has_media w" "entry_tracks w' = entry_tracks w" "used w' = used w" "config_ok w' = config_ok w"
proof -
  show m: "has_media w' = has_media w"
    using assms by (auto simp: fun_eq_iff has_media_def same_config_def split: option.splits)
  show e: "entry_tracks w' = entry_tracks w"
    using assms by (simp add: fun_eq_iff entry_tracks_def same_config_def m)
  show u: "used w' = used w" using assms by (simp add: fun_eq_iff used_def same_config_def)
  show "config_ok w' = config_ok w" using assms by (simp add: config_ok_def same_config_def m e u)
qed

lemma same_configI: "entries w' = entries w \<Longrightarrow> tracks w' = tracks w \<Longrightarrow> same_config w w'"
  by (simp add: same_config_def)

lemma entry_tracks_nth:
  assumes "i < length (entry_tracks w en)"
  shows "le_tracks (entries w en) ! i = Some (entry_tracks w en ! i)" "i < MAX_TRACKS"
    "entry_tracks w en ! i = t \<Longrightarrow> used w t"
proof -
  let ?l = "take MAX_TRACKS (le_tracks (entries w en))"
  have i: "i < length (takeWhile (has_media w) ?l)" using assms by (simp add: entry_tracks_def)
  then have il: "i < length ?l" using length_takeWhile_le [of "has_media w" ?l] by linarith
  have "takeWhile (has_media w) ?l ! i = ?l ! i" by (rule takeWhile_nth [OF i])
  moreover have "has_media w (takeWhile (has_media w) ?l ! i)" using i by (metis nth_mem set_takeWhileD)
  ultimately show *: "le_tracks (entries w en) ! i = Some (entry_tracks w en ! i)"
    using i il by (auto simp: entry_tracks_def has_media_def split: option.splits)
  show "i < MAX_TRACKS" using il by simp
  show "used w t" if "entry_tracks w en ! i = t"
    using * il that unfolding used_def by (metis nth_mem length_take min_less_iff_conj)
qed

lemma listeners_live:
  assumes "entries_ok w" "(j, s) \<in> set (track_listeners w t)"
  shows "\<exists>S. sessions w s = Some S \<and> length (s_eps S) = MAX_TRACKS \<and> j < MAX_TRACKS \<and>
    le_tracks (entries w (s_entry S)) ! j = Some t"
  using assms by (fastforce simp: track_listeners_def entries_ok_def)

lemma any_playing_watches:
  "\<forall>p\<in>set l. sessions w (snd p) \<noteq> None \<Longrightarrow> any_playing w l = Inr (\<exists>p\<in>set l. watches w p)"
proof (induction w l rule: any_playing.induct)
  case (2 w j s r)
  then obtain S where S: "sessions w s = Some S" by auto
  then have "watches w (j, s) \<longleftrightarrow> s_playing S \<and> s_eps S ! j \<noteq> None" by (simp add: watches_def)
  with 2 S show ?case by auto
qed simp

lemma any_playing_watched:
  "entries_ok w \<Longrightarrow> any_playing w (track_listeners w t) = Inr (watched w t)"
  unfolding watched_def by (rule any_playing_watches) (auto dest: listeners_live)

section \<open>Switching a source\<close>

text \<open>What a change of the graph keeps.\<close>

lemma graph_change:
  assumes "graph_ok w" "streams g = streams (streams_of w)" "dest_stream g = dest_stream (streams_of w)"
    and "wf_graph rank g" "\<forall>s. stream_ok g s"
  shows "graph_ok (w\<lparr>streams_of := g\<rparr>)"
  using assms unfolding graph_ok_def dest_ok_def end_dest_def used_def by auto

lemma world_set_waiting_ok:
  assumes "graph_ok w" "used w t" "config_ok w"
  shows "\<exists>g. world_set_waiting w (lt_dest (tracks w t)) b = Inr (w\<lparr>streams_of := g\<rparr>) \<and>
    graph_ok (w\<lparr>streams_of := g\<rparr>) \<and> waiting g (lt_dest (tracks w t)) = b \<and>
    (\<forall>t'. used w t' \<and> t' \<noteq> t \<longrightarrow> waiting g (lt_dest (tracks w t')) = waiting (streams_of w) (lt_dest (tracks w t')))"
proof -
  let ?g = "streams_of w" and ?d = "lt_dest (tracks w t)"
  obtain rank where wf: "wf_graph rank ?g" and ok: "\<forall>s. stream_ok ?g s" and d: "dest_ok ?g ?d"
    using assms(1,2) by (auto simp: graph_ok_def)
  have "\<forall>s. st_set_running (streams ?g s) = Up ?d \<longrightarrow> s \<in> {}" using d by (simp add: dest_ok_def end_dest_def)
  from set_waiting_effect [OF wf _ _ this, of b] d ok obtain g where g: "set_waiting ?g ?d b = Some (Inr g)"
    "wf_graph rank g" "streams g = streams ?g" "dest_stream g = dest_stream ?g" "waiting g ?d = b" "\<forall>s. stream_ok g s"
    by (auto simp: dest_ok_def)
  have "waiting g (lt_dest (tracks w t')) = waiting ?g (lt_dest (tracks w t'))" if t': "used w t'" "t' \<noteq> t" for t'
  proof -
    have "lt_dest (tracks w t') \<noteq> ?d" using assms(2,3) t' unfolding config_ok_def by blast
    moreover have "end_dest ?g (lt_dest (tracks w t'))" using assms(1) t'(1) by (auto simp: graph_ok_def dest_ok_def)
    ultimately show ?thesis using set_waiting_end [OF wf g(1)] by (simp add: end_dest_def)
  qed
  moreover have "graph_ok (w\<lparr>streams_of := g\<rparr>)" by (rule graph_change [OF assms(1) g(3,4,2,6)])
  ultimately show ?thesis using g(1,5) by (auto simp: world_set_waiting_def)
qed

lemma track_check_running1_ok:
  assumes "graph_ok w" "used w t" "config_ok w" "entries_ok w"
  shows "\<exists>g. track_check_running1 w t = Inr (w\<lparr>streams_of := g\<rparr>) \<and> graph_ok (w\<lparr>streams_of := g\<rparr>) \<and>
    (waiting g (lt_dest (tracks w t)) \<longrightarrow> watched w t) \<and>
    (\<forall>t'. used w t' \<and> t' \<noteq> t \<longrightarrow> waiting g (lt_dest (tracks w t')) = waiting (streams_of w) (lt_dest (tracks w t')))"
proof (cases "watched w t")
  case True
  then show ?thesis
    using assms by (intro exI [of _ "streams_of w"]) (simp add: track_check_running1_def any_playing_watched)
next
  case False
  then show ?thesis
    using world_set_waiting_ok [OF assms(1-3), of False] assms(4)
    by (auto simp: track_check_running1_def any_playing_watched)
qed

lemma watched_cong:
  assumes "entries w' = entries w" "lt_entries (tracks w' t) = lt_entries (tracks w t)"
    and "\<And>p. p \<in> set (track_listeners w t) \<Longrightarrow> watches w p \<Longrightarrow> watches w' p"
  shows "watched w t \<Longrightarrow> watched w' t"
proof -
  have "track_listeners w' t = track_listeners w t" unfolding track_listeners_def assms(1,2) ..
  then show "watched w t \<Longrightarrow> watched w' t" using assms(3) unfolding watched_def by metis
qed

section \<open>Dropping one endpoint of a session\<close>

text \<open>Only the endpoints of one session, the graph and the channel tables change.\<close>

definition only_session :: "nat \<Rightarrow> world \<Rightarrow> world \<Rightarrow> bool" where
  "only_session s w w' \<longleftrightarrow> entries w' = entries w \<and> tracks w' = tracks w \<and> conns w' = conns w \<and>
     conn_list w' = conn_list w \<and> rs_tab w' = rs_tab w \<and> rs_list w' = rs_list w \<and> fresh w' = fresh w \<and>
     (\<forall>s'. s' \<noteq> s \<longrightarrow> sessions w' s' = sessions w s') \<and>
     (\<forall>e. endpoints w' e = endpoints w e \<or> endpoints w' e = None) \<and>
     (\<forall>c. ps_le (proto_state w' c) (proto_state w c))"

lemma only_session_refl [simp]: "only_session s w w"
  by (simp add: only_session_def)

lemma only_session_trans:
  assumes "only_session s w w1" "only_session s w1 w2"
  shows "only_session s w w2"
proof -
  have "ps_le (proto_state w2 c) (proto_state w c)" for c
    using assms ps_le_trans unfolding only_session_def by metis
  moreover have "endpoints w2 e = endpoints w e \<or> endpoints w2 e = None" for e
    using assms unfolding only_session_def by metis
  ultimately show ?thesis using assms by (simp add: only_session_def)
qed

lemma only_session_config:
  assumes "only_session s w w'"
  shows "same_config w w'"
  by (rule same_configI) (use assms in \<open>simp_all add: only_session_def\<close>)

lemmas only_session_tracks = same_config_simps(2) [OF only_session_config]

lemma drop_slot_ok:
  assumes ok: "world_ok w" and s: "sessions w s = Some S" and i: "i < length (entry_tracks w (s_entry S))"
    and t: "t = entry_tracks w (s_entry S) ! i" and e: "s_eps S ! i = Some e"
  shows "\<exists>w'. bindE (del_rtp_endpoint w e) (\<lambda>w1.
      track_check_running1 (upd_session s (\<lambda>S. S\<lparr>s_eps := (s_eps S)[i := None]\<rparr>) w1) t) = Inr w' \<and>
    world_ok w' \<and> only_session s w w' \<and> sessions w' s = Some (S\<lparr>s_eps := (s_eps S)[i := None]\<rparr>)"
proof -
  have oks: "links_ok w" "config_ok w" "eps_ok w" "graph_ok w" "\<And>t. used w t \<Longrightarrow> idle_ok w t"
    using ok by (simp_all add: world_ok_def)
  have i2: "i < MAX_TRACKS" and ut: "used w t" using entry_tracks_nth [OF i] t by auto
  have il: "i < length (s_eps S)" using i2 eps_length [OF oks(1) s] by simp
  obtain E where E: "endpoints w e = Some E" "ep_session E = s" using slot_endpoint [OF oks(1) s il e] .
  have int: "inter_ok w" using oks(1) by (simp add: links_ok_def)
  let ?w = "without_endpoint w s i e E"
  have links: "links_ok ?w" by (rule without_endpoint_links [OF oks(1) s il e E(1)])
  have del: "del_rtp_endpoint w e = Inr (w\<lparr>endpoints := (endpoints w)(e := None), proto_state := cut_channels w E\<rparr>)"
    by (rule del_rtp_endpoint_eval [OF int E(1)])
  have same: "same_config w ?w" by (rule same_configI) (simp_all add: without_endpoint_def)
  note cfg = same_config_simps [OF same]
  have ents: "entries_ok ?w" using links by (simp add: links_ok_def)
  have gr: "graph_ok ?w" using oks(4) unfolding graph_ok_def cfg by (auto simp: without_endpoint_def)
  have "used ?w t" "config_ok ?w" using ut oks(2) by (simp_all add: cfg)
  note chk = track_check_running1_ok [OF gr this ents]
  have st: "streams_of ?w = streams_of w" "tracks ?w = tracks w" by (simp_all add: without_endpoint_def)
  from chk obtain g where g:
    "track_check_running1 ?w t = Inr (?w\<lparr>streams_of := g\<rparr>)" "graph_ok (?w\<lparr>streams_of := g\<rparr>)"
    "waiting g (lt_dest (tracks w t)) \<longrightarrow> watched ?w t"
    "\<And>t'. used w t' \<Longrightarrow> t' \<noteq> t \<Longrightarrow> waiting g (lt_dest (tracks w t')) = waiting (streams_of w) (lt_dest (tracks w t'))"
    unfolding cfg st by blast
  let ?w' = "?w\<lparr>streams_of := g\<rparr>"
  have same': "same_config w ?w'" by (rule same_configI) (simp_all add: without_endpoint_def)
  note cfg' = same_config_simps [OF same']
  have sess: "sessions ?w' s = Some (S\<lparr>s_eps := (s_eps S)[i := None]\<rparr>)" using s by (simp add: without_endpoint_def)
  have os: "only_session s w ?w'"
    using ps_le_cut [OF int E(1)] by (simp add: only_session_def without_endpoint_def)
  have "eps_ok ?w'"
    unfolding eps_ok_def cfg'
  proof (intro allI impI, elim conjE)
    fix s' S' j assume a: "sessions ?w' s' = Some S'" "j < MAX_TRACKS" "s_eps S' ! j \<noteq> None"
    obtain S0 where S0: "sessions w s' = Some S0" "s_eps S0 ! j \<noteq> None" "s_entry S0 = s_entry S'"
    proof (cases "s' = s")
      case True
      with a sess s that [of S] show ?thesis by (cases "j = i") (use il in auto)
    next
      case False
      with a that [of S'] os show ?thesis by (simp add: only_session_def)
    qed
    have "has_media w (le_tracks (entries w (s_entry S0)) ! j)"
      using oks(3) S0(1,2) a(2) unfolding eps_ok_def by blast
    then show "has_media w (le_tracks (entries ?w' (s_entry S')) ! j)"
      using S0(3) by (simp add: without_endpoint_def)
  qed
  moreover have "idle_ok ?w' t'" if u: "used ?w' t'" for t'
  proof (cases "t' = t")
    case True
    have "watched ?w t \<Longrightarrow> watched ?w' t" by (erule watched_cong [rotated -1]) (simp_all add: watches_def)
    with g(3) True show ?thesis by (simp add: idle_ok_def without_endpoint_def)
  next
    case False
    have "watches ?w' p" if p: "p \<in> set (track_listeners w t')" "watches w p" for p
    proof (cases "snd p = s")
      case True
      have lst: "le_tracks (entries w (s_entry S)) ! fst p = Some t'"
        using listeners_live [of w "fst p" "snd p" t'] p(1) s oks(1) True by (auto simp: links_ok_def)
      have "fst p \<noteq> i" using lst entry_tracks_nth(1) [OF i] t False by auto
      then show ?thesis using p(2) True sess s by (simp add: watches_def)
    next
      case False
      then show ?thesis using p(2) os by (simp add: watches_def only_session_def)
    qed
    then have "watched w t' \<Longrightarrow> watched ?w' t'"
      by (intro watched_cong [of ?w' w]) (simp_all add: without_endpoint_def)
    moreover have u': "used w t'" using u unfolding cfg' .
    moreover note oks(5) [OF u'] g(4) [OF u' False]
    ultimately show ?thesis unfolding idle_ok_def by (simp add: without_endpoint_def)
  qed
  ultimately have "world_ok ?w'" using links oks(2) g(2) by (simp add: world_ok_def cfg')
  moreover have "bindE (del_rtp_endpoint w e) (\<lambda>w1.
      track_check_running1 (upd_session s (\<lambda>S. S\<lparr>s_eps := (s_eps S)[i := None]\<rparr>) w1) t) = Inr ?w'"
    using g(1) by (simp add: del without_endpoint_def)
  ultimately show ?thesis using os sess by blast
qed

section \<open>Tearing down\<close>

text \<open>What a pass over the tracks from position \<open>i\<close> leaves of the endpoints \<open>old\<close>.\<close>

definition torn_from :: "nat \<Rightarrow> nat \<Rightarrow> nat option \<Rightarrow> nat option list \<Rightarrow> nat option list \<Rightarrow> nat \<Rightarrow> bool" where
  "torn_from i n ep old eps r \<longleftrightarrow>
     (\<forall>j < MAX_TRACKS. eps ! j = old ! j \<or> eps ! j = None) \<and> (ep = None \<longrightarrow> r = 0) \<and>
     (r = 0 \<longrightarrow> (\<forall>j. i \<le> j \<and> j < n \<longrightarrow> eps ! j = None)) \<and>
     (\<forall>j e. i \<le> j \<and> j < n \<and> ep = Some e \<longrightarrow> eps ! j \<noteq> Some e) \<and>
     (\<forall>j < MAX_TRACKS. \<forall>e. ep = Some e \<and> old ! j \<noteq> Some e \<longrightarrow> eps ! j = old ! j) \<and>
     (r \<noteq> 0 \<longrightarrow> (\<exists>j < MAX_TRACKS. eps ! j \<noteq> None))"

lemma torn_fromD:
  assumes t: "torn_from i n ep old eps r"
  shows "j < MAX_TRACKS \<Longrightarrow> eps ! j = old ! j \<or> eps ! j = None" "ep = None \<Longrightarrow> r = 0"
    "r = 0 \<Longrightarrow> i \<le> j \<Longrightarrow> j < n \<Longrightarrow> eps ! j = None" "i \<le> j \<Longrightarrow> j < n \<Longrightarrow> ep = Some e \<Longrightarrow> eps ! j \<noteq> Some e"
    "j < MAX_TRACKS \<Longrightarrow> ep = Some e \<Longrightarrow> old ! j \<noteq> Some e \<Longrightarrow> eps ! j = old ! j"
    "r \<noteq> 0 \<Longrightarrow> \<exists>j < MAX_TRACKS. eps ! j \<noteq> None"
proof -
  note a = t [unfolded torn_from_def, THEN conjunct1, rule_format]
  note t1 = t [unfolded torn_from_def, THEN conjunct2]
  note b = t1 [THEN conjunct1, rule_format] and t2 = t1 [THEN conjunct2]
  note c = t2 [THEN conjunct1, rule_format] and t3 = t2 [THEN conjunct2]
  note d = t3 [THEN conjunct1, rule_format] and t4 = t3 [THEN conjunct2]
  note e = t4 [THEN conjunct1, rule_format] and f = t4 [THEN conjunct2, rule_format]
  show "j < MAX_TRACKS \<Longrightarrow> eps ! j = old ! j \<or> eps ! j = None" "ep = None \<Longrightarrow> r = 0" by (fact a b)+
  show "r = 0 \<Longrightarrow> i \<le> j \<Longrightarrow> j < n \<Longrightarrow> eps ! j = None" by (rule c) (simp_all only: simp_thms)
  show "i \<le> j \<Longrightarrow> j < n \<Longrightarrow> ep = Some e \<Longrightarrow> eps ! j \<noteq> Some e" by (rule d) (simp only: simp_thms)
  show "j < MAX_TRACKS \<Longrightarrow> ep = Some e \<Longrightarrow> old ! j \<noteq> Some e \<Longrightarrow> eps ! j = old ! j" by (rule e) (simp_all only: simp_thms)
  show "r \<noteq> 0 \<Longrightarrow> \<exists>j < MAX_TRACKS. eps ! j \<noteq> None" by (rule f)
qed

lemma torn_fromI:
  assumes "\<And>j. j < MAX_TRACKS \<Longrightarrow> eps ! j = old ! j \<or> eps ! j = None" "ep = None \<Longrightarrow> r = 0"
    "\<And>j. r = 0 \<Longrightarrow> i \<le> j \<Longrightarrow> j < n \<Longrightarrow> eps ! j = None" "\<And>j e. i \<le> j \<Longrightarrow> j < n \<Longrightarrow> ep = Some e \<Longrightarrow> eps ! j \<noteq> Some e"
    "\<And>j e. j < MAX_TRACKS \<Longrightarrow> ep = Some e \<Longrightarrow> old ! j \<noteq> Some e \<Longrightarrow> eps ! j = old ! j"
    "r \<noteq> 0 \<Longrightarrow> \<exists>j < MAX_TRACKS. eps ! j \<noteq> None"
  shows "torn_from i n ep old eps r"
  unfolding torn_from_def by (intro conjI allI impI; (elim conjE)?) (fact assms | erule (2) assms | erule (1) assms)+

lemma torn_from_step:
  assumes t: "torn_from (i + 1) n ep old' eps r" and r: "ep = None \<Longrightarrow> r' = 0" "r' = 0 \<Longrightarrow> r = 0 \<and> eps ! i = None"
    "r' \<noteq> 0 \<Longrightarrow> r = 0 \<Longrightarrow> i < MAX_TRACKS \<and> eps ! i \<noteq> None"
    and i: "\<And>e. ep = Some e \<Longrightarrow> eps ! i \<noteq> Some e"
    and old: "\<And>j. j < MAX_TRACKS \<Longrightarrow> eps ! j = old ! j \<or> eps ! j = None"
    "\<And>j e. j < MAX_TRACKS \<Longrightarrow> ep = Some e \<Longrightarrow> old ! j \<noteq> Some e \<Longrightarrow> eps ! j = old ! j"
  shows "torn_from i n ep old eps r'"
proof (rule torn_fromI)
  fix j assume j: "i \<le> j" "j < n"
  show "eps ! j = None" if "r' = 0"
    using torn_fromD(3) [OF t, of j] r(2) [OF that] j by (cases "j = i") simp_all
  show "eps ! j \<noteq> Some e" if "ep = Some e" for e
    using torn_fromD(4) [OF t, of j e] i [OF that] that j by (cases "j = i") simp_all
next
  show "\<exists>j < MAX_TRACKS. eps ! j \<noteq> None" if "r' \<noteq> 0"
    using torn_fromD(6) [OF t] r(3) [OF that] by (cases "r = 0") blast+
qed (fact r old)+

lemma torn_from_skip:
  assumes t: "torn_from (i + 1) n ep old eps r" and "old ! i = None" "i < MAX_TRACKS"
  shows "torn_from i n ep old eps r"
proof -
  have i: "eps ! i = None" using torn_fromD(1) [OF t assms(3)] assms(2) by simp
  show ?thesis by (rule torn_from_step [OF t]) (use i torn_fromD(1,2,5) [OF t] in simp_all)
qed

lemma torn_from_keep:
  assumes t: "torn_from (i + 1) n ep old eps r" and "old ! i = Some e" "ep = Some e'" "e' \<noteq> e" "i < MAX_TRACKS"
  shows "torn_from i n ep old eps (r + 1)"
proof -
  have i: "eps ! i = Some e" using torn_fromD(5) [OF t assms(5,3)] assms(2,4) by simp
  show ?thesis by (rule torn_from_step [OF t]) (use i assms(3-5) torn_fromD(1,5) [OF t] in simp_all)
qed

lemma torn_from_drop:
  assumes t: "torn_from (i + 1) n ep (old[i := None]) eps r" and i: "i < MAX_TRACKS" "i < length old" "ep = None \<or> ep = old ! i"
  shows "torn_from i n ep old eps r"
proof -
  have none: "eps ! i = None" using torn_fromD(1) [OF t i(1)] i(2) by simp
  show ?thesis
  proof (rule torn_from_step [OF t])
    show "eps ! j = old ! j \<or> eps ! j = None" if "j < MAX_TRACKS" for j
      using torn_fromD(1) [OF t that] none by (cases "j = i") simp_all
    show "eps ! j = old ! j" if "j < MAX_TRACKS" "ep = Some e" "old ! j \<noteq> Some e" for j e
      using torn_fromD(5) [OF t that(1,2)] that(2,3) i(3) by (cases "j = i") auto
  qed (use none torn_fromD(2) [OF t] in simp_all)
qed

lemma teardown_tracks_ok:
  "world_ok w \<Longrightarrow> sessions w s = Some S \<Longrightarrow> entry_tracks w (s_entry S) = l \<Longrightarrow> ts = drop i l \<Longrightarrow>
     \<exists>w' r eps. teardown_tracks w s ep i ts n = Inr (w', n + r) \<and> world_ok w' \<and> only_session s w w' \<and>
       sessions w' s = Some (S\<lparr>s_eps := eps\<rparr>) \<and> torn_from i (length l) ep (s_eps S) eps r"
proof (induction ts arbitrary: w S i n)
  case Nil
  then show ?case
    by (intro exI [of _ w] exI [of _ 0] exI [of _ "s_eps S"]) (auto simp: torn_from_def)
next
  case (Cons t ts)
  note i = drop_ConsD [OF Cons.prems(4)]
  have i1: "i < length (entry_tracks w (s_entry S))" "t = entry_tracks w (s_entry S) ! i"
    using i Cons.prems(3) by simp_all
  have i2: "i < MAX_TRACKS" by (rule entry_tracks_nth(2) [OF i1(1)])
  show ?case
  proof (cases "s_eps S ! i")
    case None
    from Cons.IH [OF Cons.prems(1-3) i(3), of n] obtain w' r eps where ih:
      "teardown_tracks w s ep (i + 1) ts n = Inr (w', n + r)" "world_ok w'" "only_session s w w'"
      "sessions w' s = Some (S\<lparr>s_eps := eps\<rparr>)" "torn_from (i + 1) (length l) ep (s_eps S) eps r" by blast
    with None Cons.prems(2) torn_from_skip [OF ih(5) None i2] show ?thesis
      by (intro exI [of _ w'] exI [of _ r] exI [of _ eps]) (simp del: One_nat_def)
  next
    case (Some e)
    show ?thesis
    proof (cases "ep = None \<or> ep = Some e")
      case False
      then obtain e' where e': "ep = Some e'" "e' \<noteq> e" by auto
      from Cons.IH [OF Cons.prems(1-3) i(3), of "n + 1"] obtain w' r eps where ih:
        "teardown_tracks w s ep (i + 1) ts (n + 1) = Inr (w', n + 1 + r)" "world_ok w'" "only_session s w w'"
        "sessions w' s = Some (S\<lparr>s_eps := eps\<rparr>)" "torn_from (i + 1) (length l) ep (s_eps S) eps r" by blast
      with Some e' Cons.prems(2) torn_from_keep [OF ih(5) Some e' i2] show ?thesis
        by (intro exI [of _ w'] exI [of _ "r + 1"] exI [of _ eps]) simp
    next
      case True
      let ?S = "S\<lparr>s_eps := (s_eps S)[i := None]\<rparr>"
      from drop_slot_ok [OF Cons.prems(1,2) i1 Some] obtain w1 where w1:
        "bindE (del_rtp_endpoint w e) (\<lambda>w1. track_check_running1
           (upd_session s (\<lambda>S. S\<lparr>s_eps := (s_eps S)[i := None]\<rparr>) w1) t) = Inr w1"
        "world_ok w1" "only_session s w w1" "sessions w1 s = Some ?S" by blast
      have l: "entry_tracks w1 (s_entry ?S) = l"
        using only_session_tracks [OF w1(3)] Cons.prems(3) by simp
      have il: "i < length (s_eps S)"
        using i2 eps_length [OF _ Cons.prems(2)] Cons.prems(1) by (simp add: world_ok_def)
      from Cons.IH [OF w1(2,4) l i(3), of n] obtain w' r eps where ih:
        "teardown_tracks w1 s ep (i + 1) ts n = Inr (w', n + r)" "world_ok w'" "only_session s w1 w'"
        "sessions w' s = Some (?S\<lparr>s_eps := eps\<rparr>)" "torn_from (i + 1) (length l) ep (s_eps ?S) eps r"
        by blast
      have torn: "torn_from i (length l) ep (s_eps S) eps r"
        by (rule torn_from_drop [OF _ i2 il]) (use ih(5) True Some in auto)
      have run: "teardown_tracks w s ep i (t # ts) n = teardown_tracks w1 s ep (i + 1) ts n"
        using w1(1) True Some Cons.prems(2) by (simp add: bindE_assoc [symmetric])
      show ?thesis
        by (intro exI [of _ w'] exI [of _ r] exI [of _ eps] conjI only_session_trans [OF w1(3) ih(3)] torn ih(2))
          (use run ih(1,4) in simp_all)
    qed
  qed
qed

end
