(* ===== verification/Md5.thy ===== *)
theory Md5
  imports Prelude
begin

text \<open>
  \<open>md5.c\<close>: the MD5 digest, with the rounds unrolled as in the code, and its incremental
  interface. The reference is the definition of RFC 1321: padding, then one compression per block.
  Words are read in little-endian order, as they are on either kind of machine after \<open>byteReverse\<close>.
\<close>

section \<open>The compression function\<close>

definition F1 :: "u32 \<Rightarrow> u32 \<Rightarrow> u32 \<Rightarrow> u32" where "F1 x y z = z XOR (x AND (y XOR z))"
definition F2 :: "u32 \<Rightarrow> u32 \<Rightarrow> u32 \<Rightarrow> u32" where "F2 x y z = F1 z x y"
definition F3 :: "u32 \<Rightarrow> u32 \<Rightarrow> u32 \<Rightarrow> u32" where "F3 x y z = x XOR y XOR z"
definition F4 :: "u32 \<Rightarrow> u32 \<Rightarrow> u32 \<Rightarrow> u32" where "F4 x y z = y XOR (x OR NOT z)"

definition MD5STEP ::
  "(u32 \<Rightarrow> u32 \<Rightarrow> u32 \<Rightarrow> u32) \<Rightarrow> u32 \<Rightarrow> u32 \<Rightarrow> u32 \<Rightarrow> u32 \<Rightarrow> u32 \<Rightarrow> nat \<Rightarrow> u32" where
  "MD5STEP f w x y z dat s =
     (let w = w + (f x y z + dat); w = push_bit s w OR drop_bit (32 - s) w in w + x)"

definition MD5_round1 :: "u32 \<Rightarrow> u32 \<Rightarrow> u32 \<Rightarrow> u32 \<Rightarrow> u32 list \<Rightarrow> u32 \<times> u32 \<times> u32 \<times> u32" where
  "MD5_round1 a b c d inp =
     (let a = MD5STEP F1 a b c d (inp ! 0 + 0xd76aa478) 7 in
     let d = MD5STEP F1 d a b c (inp ! 1 + 0xe8c7b756) 12 in
     let c = MD5STEP F1 c d a b (inp ! 2 + 0x242070db) 17 in
     let b = MD5STEP F1 b c d a (inp ! 3 + 0xc1bdceee) 22 in
     let a = MD5STEP F1 a b c d (inp ! 4 + 0xf57c0faf) 7 in
     let d = MD5STEP F1 d a b c (inp ! 5 + 0x4787c62a) 12 in
     let c = MD5STEP F1 c d a b (inp ! 6 + 0xa8304613) 17 in
     let b = MD5STEP F1 b c d a (inp ! 7 + 0xfd469501) 22 in
     let a = MD5STEP F1 a b c d (inp ! 8 + 0x698098d8) 7 in
     let d = MD5STEP F1 d a b c (inp ! 9 + 0x8b44f7af) 12 in
     let c = MD5STEP F1 c d a b (inp ! 10 + 0xffff5bb1) 17 in
     let b = MD5STEP F1 b c d a (inp ! 11 + 0x895cd7be) 22 in
     let a = MD5STEP F1 a b c d (inp ! 12 + 0x6b901122) 7 in
     let d = MD5STEP F1 d a b c (inp ! 13 + 0xfd987193) 12 in
     let c = MD5STEP F1 c d a b (inp ! 14 + 0xa679438e) 17 in
     let b = MD5STEP F1 b c d a (inp ! 15 + 0x49b40821) 22 in (a, b, c, d))"

definition MD5_round2 :: "u32 \<Rightarrow> u32 \<Rightarrow> u32 \<Rightarrow> u32 \<Rightarrow> u32 list \<Rightarrow> u32 \<times> u32 \<times> u32 \<times> u32" where
  "MD5_round2 a b c d inp =
     (let a = MD5STEP F2 a b c d (inp ! 1 + 0xf61e2562) 5 in
     let d = MD5STEP F2 d a b c (inp ! 6 + 0xc040b340) 9 in
     let c = MD5STEP F2 c d a b (inp ! 11 + 0x265e5a51) 14 in
     let b = MD5STEP F2 b c d a (inp ! 0 + 0xe9b6c7aa) 20 in
     let a = MD5STEP F2 a b c d (inp ! 5 + 0xd62f105d) 5 in
     let d = MD5STEP F2 d a b c (inp ! 10 + 0x02441453) 9 in
     let c = MD5STEP F2 c d a b (inp ! 15 + 0xd8a1e681) 14 in
     let b = MD5STEP F2 b c d a (inp ! 4 + 0xe7d3fbc8) 20 in
     let a = MD5STEP F2 a b c d (inp ! 9 + 0x21e1cde6) 5 in
     let d = MD5STEP F2 d a b c (inp ! 14 + 0xc33707d6) 9 in
     let c = MD5STEP F2 c d a b (inp ! 3 + 0xf4d50d87) 14 in
     let b = MD5STEP F2 b c d a (inp ! 8 + 0x455a14ed) 20 in
     let a = MD5STEP F2 a b c d (inp ! 13 + 0xa9e3e905) 5 in
     let d = MD5STEP F2 d a b c (inp ! 2 + 0xfcefa3f8) 9 in
     let c = MD5STEP F2 c d a b (inp ! 7 + 0x676f02d9) 14 in
     let b = MD5STEP F2 b c d a (inp ! 12 + 0x8d2a4c8a) 20 in (a, b, c, d))"

definition MD5_round3 :: "u32 \<Rightarrow> u32 \<Rightarrow> u32 \<Rightarrow> u32 \<Rightarrow> u32 list \<Rightarrow> u32 \<times> u32 \<times> u32 \<times> u32" where
  "MD5_round3 a b c d inp =
     (let a = MD5STEP F3 a b c d (inp ! 5 + 0xfffa3942) 4 in
     let d = MD5STEP F3 d a b c (inp ! 8 + 0x8771f681) 11 in
     let c = MD5STEP F3 c d a b (inp ! 11 + 0x6d9d6122) 16 in
     let b = MD5STEP F3 b c d a (inp ! 14 + 0xfde5380c) 23 in
     let a = MD5STEP F3 a b c d (inp ! 1 + 0xa4beea44) 4 in
     let d = MD5STEP F3 d a b c (inp ! 4 + 0x4bdecfa9) 11 in
     let c = MD5STEP F3 c d a b (inp ! 7 + 0xf6bb4b60) 16 in
     let b = MD5STEP F3 b c d a (inp ! 10 + 0xbebfbc70) 23 in
     let a = MD5STEP F3 a b c d (inp ! 13 + 0x289b7ec6) 4 in
     let d = MD5STEP F3 d a b c (inp ! 0 + 0xeaa127fa) 11 in
     let c = MD5STEP F3 c d a b (inp ! 3 + 0xd4ef3085) 16 in
     let b = MD5STEP F3 b c d a (inp ! 6 + 0x04881d05) 23 in
     let a = MD5STEP F3 a b c d (inp ! 9 + 0xd9d4d039) 4 in
     let d = MD5STEP F3 d a b c (inp ! 12 + 0xe6db99e5) 11 in
     let c = MD5STEP F3 c d a b (inp ! 15 + 0x1fa27cf8) 16 in
     let b = MD5STEP F3 b c d a (inp ! 2 + 0xc4ac5665) 23 in (a, b, c, d))"

definition MD5_round4 :: "u32 \<Rightarrow> u32 \<Rightarrow> u32 \<Rightarrow> u32 \<Rightarrow> u32 list \<Rightarrow> u32 \<times> u32 \<times> u32 \<times> u32" where
  "MD5_round4 a b c d inp =
     (let a = MD5STEP F4 a b c d (inp ! 0 + 0xf4292244) 6 in
     let d = MD5STEP F4 d a b c (inp ! 7 + 0x432aff97) 10 in
     let c = MD5STEP F4 c d a b (inp ! 14 + 0xab9423a7) 15 in
     let b = MD5STEP F4 b c d a (inp ! 5 + 0xfc93a039) 21 in
     let a = MD5STEP F4 a b c d (inp ! 12 + 0x655b59c3) 6 in
     let d = MD5STEP F4 d a b c (inp ! 3 + 0x8f0ccc92) 10 in
     let c = MD5STEP F4 c d a b (inp ! 10 + 0xffeff47d) 15 in
     let b = MD5STEP F4 b c d a (inp ! 1 + 0x85845dd1) 21 in
     let a = MD5STEP F4 a b c d (inp ! 8 + 0x6fa87e4f) 6 in
     let d = MD5STEP F4 d a b c (inp ! 15 + 0xfe2ce6e0) 10 in
     let c = MD5STEP F4 c d a b (inp ! 6 + 0xa3014314) 15 in
     let b = MD5STEP F4 b c d a (inp ! 13 + 0x4e0811a1) 21 in
     let a = MD5STEP F4 a b c d (inp ! 4 + 0xf7537e82) 6 in
     let d = MD5STEP F4 d a b c (inp ! 11 + 0xbd3af235) 10 in
     let c = MD5STEP F4 c d a b (inp ! 2 + 0x2ad7d2bb) 15 in
     let b = MD5STEP F4 b c d a (inp ! 9 + 0xeb86d391) 21 in (a, b, c, d))"

type_synonym md5_words = "u32 \<times> u32 \<times> u32 \<times> u32"

definition MD5Transform :: "md5_words \<Rightarrow> u32 list \<Rightarrow> md5_words" where
  "MD5Transform buf inp =
     (let (a, b, c, d) = buf;
          (a', b', c', d') = MD5_round1 a b c d inp;
          (a', b', c', d') = MD5_round2 a' b' c' d' inp;
          (a', b', c', d') = MD5_round3 a' b' c' d' inp;
          (a', b', c', d') = MD5_round4 a' b' c' d' inp
      in (a + a', b + b', c + c', d + d'))"

section \<open>The incremental interface\<close>

fun words_le :: "byte list \<Rightarrow> u32 list" where
  "words_le (a # b # c # d # r) =
     (ucast a OR push_bit 8 (ucast b) OR push_bit 16 (ucast c) OR push_bit 24 (ucast d)) # words_le r"
| "words_le _ = []"

definition bytes_le :: "u32 \<Rightarrow> byte list" where
  "bytes_le w = [ucast w, ucast (drop_bit 8 w), ucast (drop_bit 16 w), ucast (drop_bit 24 w)]"

record md5_context =
  md5_buf :: md5_words
  md5_bits0 :: u32
  md5_bits1 :: u32
  md5_in :: "byte list"

text \<open>The input area is not initialised: \<open>garbage\<close> is what it holds.\<close>

definition MD5Init :: "byte list \<Rightarrow> md5_context" where
  "MD5Init garbage = \<lparr>md5_buf = (0x67452301, 0xefcdab89, 0x98badcfe, 0x10325476),
     md5_bits0 = 0, md5_bits1 = 0, md5_in = garbage\<rparr>"

definition transform_in :: "md5_context \<Rightarrow> md5_context" where
  "transform_in ctx = ctx\<lparr>md5_buf := MD5Transform (md5_buf ctx) (words_le (md5_in ctx))\<rparr>"

function update_blocks :: "md5_context \<Rightarrow> byte list \<Rightarrow> md5_context \<times> byte list" where
  "update_blocks ctx d =
     (if length d < 64 then (ctx, d)
      else update_blocks (transform_in (ctx\<lparr>md5_in := take 64 d\<rparr>)) (drop 64 d))"
  by auto
termination by (relation "measure (length \<circ> snd)") auto

declare update_blocks.simps [simp del]

definition MD5Update :: "md5_context \<Rightarrow> byte list \<Rightarrow> md5_context" where
  "MD5Update ctx d =
     (let t = md5_bits0 ctx;
          b0 = t + push_bit 3 (word_of_nat (length d));
          b1 = md5_bits1 ctx + (if b0 < t then 1 else 0) + drop_bit 29 (word_of_nat (length d));
          ctx = ctx\<lparr>md5_bits0 := b0, md5_bits1 := b1\<rparr>;
          n = unat (drop_bit 3 t AND 0x3f);
          k = 64 - n
      in if n \<noteq> 0 \<and> length d < k then ctx\<lparr>md5_in := blit (md5_in ctx) n d\<rparr>
         else let (ctx, d) = (if n \<noteq> 0
                    then (transform_in (ctx\<lparr>md5_in := blit (md5_in ctx) n (take k d)\<rparr>), drop k d) else (ctx, d));
                  (ctx, d) = update_blocks ctx d
              in ctx\<lparr>md5_in := blit (md5_in ctx) 0 d\<rparr>)"

definition MD5Final :: "md5_context \<Rightarrow> byte list" where
  "MD5Final ctx =
     (let n = unat (drop_bit 3 (md5_bits0 ctx) AND 0x3f);
          inp = blit (md5_in ctx) n [0x80];
          count = 64 - 1 - n;
          ctx = (if count < 8
                 then (transform_in (ctx\<lparr>md5_in := blit inp (n + 1) (replicate count 0)\<rparr>))\<lparr>md5_in := replicate 64 0\<rparr>
                 else ctx\<lparr>md5_in := blit inp (n + 1) (replicate (count - 8) 0)\<rparr>);
          ctx = transform_in (ctx\<lparr>md5_in := blit (md5_in ctx) 56 (bytes_le (md5_bits0 ctx) @ bytes_le (md5_bits1 ctx))\<rparr>);
          (a, b, c, d) = md5_buf ctx
      in bytes_le a @ bytes_le b @ bytes_le c @ bytes_le d)"

section \<open>The reference\<close>

definition rfc_K :: "u32 list" where
  "rfc_K =
     [0xd76aa478, 0xe8c7b756, 0x242070db, 0xc1bdceee, 0xf57c0faf, 0x4787c62a, 0xa8304613,
      0xfd469501, 0x698098d8, 0x8b44f7af, 0xffff5bb1, 0x895cd7be, 0x6b901122, 0xfd987193,
      0xa679438e, 0x49b40821, 0xf61e2562, 0xc040b340, 0x265e5a51, 0xe9b6c7aa, 0xd62f105d,
      0x02441453, 0xd8a1e681, 0xe7d3fbc8, 0x21e1cde6, 0xc33707d6, 0xf4d50d87, 0x455a14ed,
      0xa9e3e905, 0xfcefa3f8, 0x676f02d9, 0x8d2a4c8a, 0xfffa3942, 0x8771f681, 0x6d9d6122,
      0xfde5380c, 0xa4beea44, 0x4bdecfa9, 0xf6bb4b60, 0xbebfbc70, 0x289b7ec6, 0xeaa127fa,
      0xd4ef3085, 0x04881d05, 0xd9d4d039, 0xe6db99e5, 0x1fa27cf8, 0xc4ac5665, 0xf4292244,
      0x432aff97, 0xab9423a7, 0xfc93a039, 0x655b59c3, 0x8f0ccc92, 0xffeff47d, 0x85845dd1,
      0x6fa87e4f, 0xfe2ce6e0, 0xa3014314, 0x4e0811a1, 0xf7537e82, 0xbd3af235, 0x2ad7d2bb, 0xeb86d391]"

definition rfc_shift :: "nat \<Rightarrow> nat" where
  "rfc_shift i = [[7, 12, 17, 22], [5, 9, 14, 20], [4, 11, 16, 23], [6, 10, 15, 21]] ! (i div 16) ! (i mod 4)"

definition rfc_word :: "nat \<Rightarrow> nat" where
  "rfc_word i = [i, 5 * i + 1, 3 * i + 5, 7 * i] ! (i div 16) mod 16"

definition rfc_fun :: "nat \<Rightarrow> u32 \<Rightarrow> u32 \<Rightarrow> u32 \<Rightarrow> u32" where
  "rfc_fun i x y z =
     (if i < 16 then (x AND y) OR (NOT x AND z)
      else if i < 32 then (x AND z) OR (y AND NOT z)
      else if i < 48 then x XOR y XOR z
      else y XOR (x OR NOT z))"

definition rotl :: "nat \<Rightarrow> u32 \<Rightarrow> u32" where
  "rotl s w = push_bit s w OR drop_bit (32 - s) w"

definition rfc_step :: "u32 list \<Rightarrow> md5_words \<Rightarrow> nat \<Rightarrow> md5_words" where
  "rfc_step m st i =
     (let (a, b, c, d) = st
      in (d, b + rotl (rfc_shift i) (a + rfc_fun i b c d + m ! rfc_word i + rfc_K ! i), b, c))"

definition rfc_compress :: "md5_words \<Rightarrow> u32 list \<Rightarrow> md5_words" where
  "rfc_compress st m =
     (let (a, b, c, d) = st; (a', b', c', d') = foldl (rfc_step m) st [0..<64]
      in (a + a', b + b', c + c', d + d'))"

function rfc_blocks :: "md5_words \<Rightarrow> byte list \<Rightarrow> md5_words" where
  "rfc_blocks st d = (if length d < 64 then st else rfc_blocks (rfc_compress st (words_le (take 64 d))) (drop 64 d))"
  by auto
termination by (relation "measure (length \<circ> snd)") auto

declare rfc_blocks.simps [simp del]

definition rfc_pad :: "nat \<Rightarrow> byte list" where
  "rfc_pad n = 0x80 # replicate ((119 - n mod 64) mod 64) 0 @
     bytes_le (word_of_nat (8 * n)) @ bytes_le (word_of_nat (8 * n div 2 ^ 32))"

definition rfc_md5 :: "byte list \<Rightarrow> byte list" where
  "rfc_md5 m =
     (let (a, b, c, d) = rfc_blocks (0x67452301, 0xefcdab89, 0x98badcfe, 0x10325476) (m @ rfc_pad (length m))
      in bytes_le a @ bytes_le b @ bytes_le c @ bytes_le d)"

section \<open>The rounds\<close>

lemma F1_select: "F1 x y z = (x AND y) OR (NOT x AND z)"
  by (rule bit_word_eqI) (auto simp: F1_def bit_simps)

lemma F2_select: "F2 x y z = (x AND z) OR (y AND NOT z)"
  by (rule bit_word_eqI) (auto simp: F2_def F1_select bit_simps)

lemma rfc_fun_cases:
  "i < 16 \<Longrightarrow> rfc_fun i = F1" "16 \<le> i \<Longrightarrow> i < 32 \<Longrightarrow> rfc_fun i = F2"
  "32 \<le> i \<Longrightarrow> i < 48 \<Longrightarrow> rfc_fun i = F3" "48 \<le> i \<Longrightarrow> rfc_fun i = F4"
  by (simp_all add: rfc_fun_def fun_eq_iff F1_select F2_select F3_def F4_def)

lemma MD5STEP_rotl: "MD5STEP f w x y z (p + k) s = x + rotl s (w + f x y z + p + k)"
  by (simp add: MD5STEP_def rotl_def Let_def ac_simps)

text \<open>The steps of a round from its schedule: word, constant, rotation.\<close>

fun run_steps :: "u32 list \<Rightarrow> (u32 \<Rightarrow> u32 \<Rightarrow> u32 \<Rightarrow> u32) \<Rightarrow> md5_words \<Rightarrow> (nat \<times> u32 \<times> nat) list \<Rightarrow> md5_words" where
  "run_steps m f st [] = st"
| "run_steps m f (a, b, c, d) ((j, k, s) # r) =
     (let a' = MD5STEP f a b c d (m ! j + k) s in run_steps m f (d, a', b, c) r)"

lemma foldl_rfc_step:
  "\<forall>i\<in>set is. rfc_fun i = f \<Longrightarrow>
     foldl (rfc_step m) st is = run_steps m f st (map (\<lambda>i. (rfc_word i, rfc_K ! i, rfc_shift i)) is)"
proof (induction "is" arbitrary: st)
  case (Cons i "is")
  obtain a b c d where st: "st = (a, b, c, d)" by (cases st)
  show ?case using Cons by (simp add: st rfc_step_def MD5STEP_rotl Let_def)
qed simp

lemma round_schedule:
  "map (\<lambda>i. (rfc_word i, rfc_K ! i, rfc_shift i)) [0..<16] =
    [(0, 0xd76aa478, 7), (1, 0xe8c7b756, 12), (2, 0x242070db, 17), (3, 0xc1bdceee, 22),
     (4, 0xf57c0faf, 7), (5, 0x4787c62a, 12), (6, 0xa8304613, 17), (7, 0xfd469501, 22),
     (8, 0x698098d8, 7), (9, 0x8b44f7af, 12), (10, 0xffff5bb1, 17), (11, 0x895cd7be, 22),
     (12, 0x6b901122, 7), (13, 0xfd987193, 12), (14, 0xa679438e, 17), (15, 0x49b40821, 22)]"
  "map (\<lambda>i. (rfc_word i, rfc_K ! i, rfc_shift i)) [16..<32] =
    [(1, 0xf61e2562, 5), (6, 0xc040b340, 9), (11, 0x265e5a51, 14), (0, 0xe9b6c7aa, 20),
     (5, 0xd62f105d, 5), (10, 0x02441453, 9), (15, 0xd8a1e681, 14), (4, 0xe7d3fbc8, 20),
     (9, 0x21e1cde6, 5), (14, 0xc33707d6, 9), (3, 0xf4d50d87, 14), (8, 0x455a14ed, 20),
     (13, 0xa9e3e905, 5), (2, 0xfcefa3f8, 9), (7, 0x676f02d9, 14), (12, 0x8d2a4c8a, 20)]"
  "map (\<lambda>i. (rfc_word i, rfc_K ! i, rfc_shift i)) [32..<48] =
    [(5, 0xfffa3942, 4), (8, 0x8771f681, 11), (11, 0x6d9d6122, 16), (14, 0xfde5380c, 23),
     (1, 0xa4beea44, 4), (4, 0x4bdecfa9, 11), (7, 0xf6bb4b60, 16), (10, 0xbebfbc70, 23),
     (13, 0x289b7ec6, 4), (0, 0xeaa127fa, 11), (3, 0xd4ef3085, 16), (6, 0x04881d05, 23),
     (9, 0xd9d4d039, 4), (12, 0xe6db99e5, 11), (15, 0x1fa27cf8, 16), (2, 0xc4ac5665, 23)]"
  "map (\<lambda>i. (rfc_word i, rfc_K ! i, rfc_shift i)) [48..<64] =
    [(0, 0xf4292244, 6), (7, 0x432aff97, 10), (14, 0xab9423a7, 15), (5, 0xfc93a039, 21),
     (12, 0x655b59c3, 6), (3, 0x8f0ccc92, 10), (10, 0xffeff47d, 15), (1, 0x85845dd1, 21),
     (8, 0x6fa87e4f, 6), (15, 0xfe2ce6e0, 10), (6, 0xa3014314, 15), (13, 0x4e0811a1, 21),
     (4, 0xf7537e82, 6), (11, 0xbd3af235, 10), (2, 0x2ad7d2bb, 15), (9, 0xeb86d391, 21)]"
  by code_simp+

lemma MD5_rounds:
  "MD5_round1 a b c d m = foldl (rfc_step m) (a, b, c, d) [0..<16]"
  "MD5_round2 a b c d m = foldl (rfc_step m) (a, b, c, d) [16..<32]"
  "MD5_round3 a b c d m = foldl (rfc_step m) (a, b, c, d) [32..<48]"
  "MD5_round4 a b c d m = foldl (rfc_step m) (a, b, c, d) [48..<64]"
proof -
  have f: "\<forall>i\<in>set [0..<16]. rfc_fun i = F1" "\<forall>i\<in>set [16..<32]. rfc_fun i = F2"
    "\<forall>i\<in>set [32..<48]. rfc_fun i = F3" "\<forall>i\<in>set [48..<64]. rfc_fun i = F4"
    by (simp_all add: rfc_fun_cases)
  note run = f [THEN foldl_rfc_step, unfolded round_schedule]
  show "MD5_round1 a b c d m = foldl (rfc_step m) (a, b, c, d) [0..<16]"
    unfolding run MD5_round1_def run_steps.simps ..
  show "MD5_round2 a b c d m = foldl (rfc_step m) (a, b, c, d) [16..<32]"
    unfolding run MD5_round2_def run_steps.simps ..
  show "MD5_round3 a b c d m = foldl (rfc_step m) (a, b, c, d) [32..<48]"
    unfolding run MD5_round3_def run_steps.simps ..
  show "MD5_round4 a b c d m = foldl (rfc_step m) (a, b, c, d) [48..<64]"
    unfolding run MD5_round4_def run_steps.simps ..
qed

theorem MD5Transform_rfc: "MD5Transform st m = rfc_compress st m"
proof -
  have split: "[0..<64] = [0..<16] @ [16..<32] @ [32..<48] @ [48..<64::nat]"
    by code_simp
  obtain a b c d where st: "st = (a, b, c, d)" by (cases st)
  show ?thesis
    unfolding st rfc_compress_def MD5Transform_def split MD5_rounds by (simp add: split_def Let_def)
qed

section \<open>The incremental interface computes the digest\<close>

lemma rfc_blocks_short [simp]: "length d < 64 \<Longrightarrow> rfc_blocks st d = st"
  by (subst rfc_blocks.simps) simp

lemma rfc_blocks_step: "length b = 64 \<Longrightarrow> rfc_blocks st (b @ d) = rfc_blocks (rfc_compress st (words_le b)) d"
  by (subst rfc_blocks.simps) simp

lemma rfc_blocks_append: "64 dvd length a \<Longrightarrow> rfc_blocks st (a @ d) = rfc_blocks (rfc_blocks st a) d"
proof (induction st a rule: rfc_blocks.induct)
  case (1 st a)
  show ?case
  proof (cases "length a < 64")
    case True
    with 1(2) have "a = []" by (auto dest: nat_dvd_not_less)
    then show ?thesis by simp
  next
    case False
    then have "length (take 64 a) = 64" by simp
    note step = rfc_blocks_step [OF this]
    have "64 dvd length (drop 64 a)" using 1(2) by (simp add: dvd_diff_nat)
    with 1(1) [OF False] have "rfc_blocks (rfc_compress st (words_le (take 64 a))) (drop 64 a @ d) =
      rfc_blocks (rfc_blocks (rfc_compress st (words_le (take 64 a))) (drop 64 a)) d" by simp
    then show ?thesis using step [of st "drop 64 a @ d"] step [of st "drop 64 a"] by (simp flip: append_assoc)
  qed
qed

text \<open>What follows the last whole block.\<close>

definition md5_rest :: "byte list \<Rightarrow> byte list" where
  "md5_rest m = drop (64 * (length m div 64)) m"

lemma length_md5_rest [simp]: "length (md5_rest m) = length m mod 64"
  by (simp add: md5_rest_def minus_mult_div_eq_mod)

lemma md5_rest_append:
  "rfc_blocks st (m @ d) = rfc_blocks (rfc_blocks st m) (md5_rest m @ d)"
  "md5_rest (m @ d) = md5_rest (md5_rest m @ d)"
proof -
  let ?w = "take (64 * (length m div 64)) m"
  have m: "m = ?w @ md5_rest m" by (simp add: md5_rest_def)
  have l: "length ?w = 64 * (length m div 64)" by simp
  have *: "rfc_blocks st (?w @ x) = rfc_blocks (rfc_blocks st ?w) x" for x
    by (rule rfc_blocks_append) (unfold l, simp)
  have "rfc_blocks st m = rfc_blocks st ?w" using * [of "md5_rest m"] m by simp
  with * [of "md5_rest m @ d"] m show "rfc_blocks st (m @ d) = rfc_blocks (rfc_blocks st m) (md5_rest m @ d)"
    by (metis append_assoc)
  have q: "length (m @ d) div 64 = length m div 64 + length (md5_rest m @ d) div 64"
    by simp (metis div_mult_mod_eq div_mult_self3 add.assoc zero_neq_numeral)
  have "md5_rest (m @ d) = drop (length ?w + 64 * (length (md5_rest m @ d) div 64)) (?w @ (md5_rest m @ d))"
    unfolding md5_rest_def [of "m @ d"] q using m l by (metis append_assoc distrib_left)
  then show "md5_rest (m @ d) = md5_rest (md5_rest m @ d)"
    by (simp add: md5_rest_def [of "md5_rest m @ d"] del: length_append)
qed

lemma md5_rest_short [simp]: "length d < 64 \<Longrightarrow> md5_rest d = d"
  by (simp add: md5_rest_def)

lemma update_blocks_eval:
  assumes "length (md5_in ctx) = 64"
  shows "\<exists>inp. length inp = 64 \<and>
    update_blocks ctx d = (ctx\<lparr>md5_buf := rfc_blocks (md5_buf ctx) d, md5_in := inp\<rparr>, md5_rest d)"
  using assms
proof (induction ctx d rule: update_blocks.induct)
  case (1 ctx d)
  show ?case
  proof (cases "length d < 64")
    case True
    then show ?thesis
      by (intro exI [of _ "md5_in ctx"]) (simp add: update_blocks.simps [of ctx d] 1(2))
  next
    case False
    let ?c = "transform_in (ctx\<lparr>md5_in := take 64 d\<rparr>)"
    have "length (md5_in ?c) = 64" using False by (simp add: transform_in_def)
    from 1(1) [OF False this] obtain inp where inp: "length inp = 64"
      "update_blocks ?c (drop 64 d) = (?c\<lparr>md5_buf := rfc_blocks (md5_buf ?c) (drop 64 d), md5_in := inp\<rparr>, md5_rest (drop 64 d))"
      by blast
    have l: "length (take 64 d) = 64" using False by simp
    have "rfc_blocks (md5_buf ctx) d = rfc_blocks (md5_buf ?c) (drop 64 d)"
      using rfc_blocks_step [OF l, of "md5_buf ctx" "drop 64 d"] by (simp add: transform_in_def MD5Transform_rfc)
    moreover have "md5_rest d = md5_rest (drop 64 d)"
      using md5_rest_append(2) [of "take 64 d" "drop 64 d"] False by (simp add: md5_rest_def)
    ultimately show ?thesis using inp False
      by (intro exI [of _ inp]) (simp add: update_blocks.simps [of ctx d] transform_in_def)
  qed
qed

text \<open>The state after a message \<open>m\<close>.\<close>

definition md5_inv :: "md5_context \<Rightarrow> byte list \<Rightarrow> bool" where
  "md5_inv ctx m \<longleftrightarrow> length (md5_in ctx) = 64 \<and>
     md5_bits0 ctx = word_of_nat (8 * length m) \<and> md5_bits1 ctx = word_of_nat (8 * length m div 2 ^ 32) \<and>
     md5_buf ctx = rfc_blocks (0x67452301, 0xefcdab89, 0x98badcfe, 0x10325476) m \<and>
     take (length m mod 64) (md5_in ctx) = md5_rest m"

lemma MD5Init_inv: "length g = 64 \<Longrightarrow> md5_inv (MD5Init g) []"
  by (simp add: md5_inv_def MD5Init_def)

lemma unat_and_63: "unat (w AND 0x3f :: u32) = unat w mod 64"
proof -
  have "w AND 0x3f = take_bit 6 w" by (simp add: take_bit_eq_mask mask_eq_exp_minus_1)
  then show ?thesis by (simp add: unsigned_take_bit_eq) (simp add: take_bit_eq_mod)
qed

lemma unat_drop_word: "unat (drop_bit k (word_of_nat n :: u32)) = n mod 2 ^ 32 div 2 ^ k"
  by (simp only: unsigned_drop_bit_eq) (simp add: unsigned_of_nat take_bit_eq_mod drop_bit_eq_div)

lemma byte_count: "unat (drop_bit 3 (word_of_nat (8 * n) :: u32) AND 0x3f) = n mod 64"
proof -
  have "unat (drop_bit 3 (word_of_nat (8 * n) :: u32) AND 0x3f) = (8 * n) mod 2 ^ 32 div 2 ^ 3 mod 64"
    unfolding unat_and_63 unat_drop_word ..
  also have "(8 * n) mod 2 ^ 32 div 2 ^ 3 = n mod 2 ^ 29" using mod_mult_mult1 [of 8 n "2 ^ 29"] by simp
  also have "n mod 2 ^ 29 mod 64 = n mod 64" by (rule mod_mod_cancel) simp
  finally show ?thesis .
qed

lemma carry_count:
  fixes M D W :: nat
  assumes "0 < W"
  shows "(M + D) div W = M div W + D div W + (if (M + D) mod W < M mod W then 1 else 0)"
proof -
  define p q where "p = M mod W" and "q = D mod W"
  have lt: "p < W" "q < W" using assms by (simp_all add: p_def q_def)
  have md: "(M + D) mod W = (p + q) mod W" by (simp add: p_def q_def mod_add_eq)
  have dv: "(M + D) div W = M div W + D div W + (p + q) div W" unfolding p_def q_def by (rule div_add1_eq)
  show ?thesis
  proof (cases "p + q < W")
    case True
    then show ?thesis unfolding dv md by (simp flip: p_def)
  next
    case False
    then have "(p + q) mod W = p + q - W" "(p + q) div W = 1" using lt by (simp_all add: mod_if div_if)
    then show ?thesis using False lt unfolding dv md by (simp flip: p_def)
  qed
qed

lemma word_of_nat_less: "(word_of_nat a :: u32) < word_of_nat b \<longleftrightarrow> a mod 2 ^ 32 < b mod 2 ^ 32"
  by (simp add: word_less_nat_alt unsigned_of_nat take_bit_eq_mod)

lemma bit_counts:
  assumes "length d < 2 ^ 32"
  shows "(word_of_nat (8 * length m) :: u32) + push_bit 3 (word_of_nat (length d)) = word_of_nat (8 * length (m @ d))"
    and "(word_of_nat (8 * length m div 2 ^ 32) :: u32) +
      (if (word_of_nat (8 * length (m @ d)) :: u32) < word_of_nat (8 * length m) then 1 else 0) +
      drop_bit 29 (word_of_nat (length d)) = word_of_nat (8 * length (m @ d) div 2 ^ 32)"
proof -
  show "(word_of_nat (8 * length m) :: u32) + push_bit 3 (word_of_nat (length d)) = word_of_nat (8 * length (m @ d))"
    by (simp add: push_bit_eq_mult algebra_simps)
  let ?M = "8 * length m" and ?D = "8 * length d" and ?W = "2 ^ 32 :: nat"
  have lt: "(word_of_nat (8 * length (m @ d)) :: u32) < word_of_nat ?M \<longleftrightarrow> (?M + ?D) mod ?W < ?M mod ?W"
    using word_of_nat_less [of "8 * length (m @ d)" ?M] by (simp only: length_append distrib_left)
  have "unat (drop_bit 29 (word_of_nat (length d) :: u32)) = ?D div ?W"
    using assms unfolding unat_drop_word by simp
  then have "drop_bit 29 (word_of_nat (length d) :: u32) = word_of_nat (?D div ?W)" by (metis of_nat_unat ucast_id)
  then show "(word_of_nat (8 * length m div 2 ^ 32) :: u32) +
      (if (word_of_nat (8 * length (m @ d)) :: u32) < word_of_nat (8 * length m) then 1 else 0) +
      drop_bit 29 (word_of_nat (length d)) = word_of_nat (8 * length (m @ d) div 2 ^ 32)"
    unfolding lt using carry_count [of ?W ?M ?D] by (simp add: algebra_simps)
qed

lemma blit_at_prefix:
  "n \<le> length inp \<Longrightarrow> blit inp n xs = take n inp @ xs @ drop (n + length xs) inp"
  by (simp add: blit_def)

lemma blit_behind: "length x = n \<Longrightarrow> length y \<le> length l \<Longrightarrow> blit (x @ y) n l = x @ l"
  by (auto simp: blit_def)

lemma pad_count: "(n::nat) < 56 \<Longrightarrow> (119 - n) mod 64 = 55 - n"
proof -
  assume n: "n < 56"
  then have "119 - n = 55 - n + 64" by simp
  then show "(119 - n) mod 64 = 55 - n" by (simp only: mod_add_self2) simp
qed

lemma MD5Update_inv:
  assumes inv: "md5_inv ctx m" and d: "length d < 2 ^ 32"
  shows "md5_inv (MD5Update ctx d) (m @ d)"
proof -
  let ?n = "length m mod 64" and ?k = "64 - length m mod 64"
  let ?b0 = "word_of_nat (8 * length (m @ d)) :: u32" and ?b1 = "word_of_nat (8 * length (m @ d) div 2 ^ 32) :: u32"
  let ?X = "rfc_blocks (0x67452301, 0xefcdab89, 0x98badcfe, 0x10325476) m"
  let ?c = "ctx\<lparr>md5_bits0 := ?b0, md5_bits1 := ?b1\<rparr>"
  have i: "length (md5_in ctx) = 64" "md5_bits0 ctx = word_of_nat (8 * length m)"
    "md5_bits1 ctx = word_of_nat (8 * length m div 2 ^ 32)" "md5_buf ctx = ?X" "take ?n (md5_in ctx) = md5_rest m"
    using inv by (simp_all add: md5_inv_def)
  have n: "?n < 64" by simp
  have upd: "MD5Update ctx d =
    (if ?n \<noteq> 0 \<and> length d < ?k then ?c\<lparr>md5_in := blit (md5_in ctx) ?n d\<rparr>
     else let (c, d) = (if ?n \<noteq> 0
              then (transform_in (?c\<lparr>md5_in := blit (md5_in ctx) ?n (take ?k d)\<rparr>), drop ?k d) else (?c, d));
              (c, d) = update_blocks c d
          in c\<lparr>md5_in := blit (md5_in c) 0 d\<rparr>)"
    unfolding MD5Update_def Let_def i(2,3) bit_counts [OF d] byte_count by simp
  have goal: "md5_inv (?c\<lparr>md5_buf := rfc_blocks ?X (md5_rest m @ d), md5_in := inp\<rparr>) (m @ d)"
    if "length inp = 64" "take (length (m @ d) mod 64) inp = md5_rest (md5_rest m @ d)" for inp
    using that md5_rest_append(1) [of _ m d] md5_rest_append(2) [of m d] by (simp add: md5_inv_def)
  show ?thesis
  proof (cases "?n \<noteq> 0 \<and> length d < ?k")
    case True
    have l: "length (md5_rest m @ d) < 64" using True by (simp add: less_diff_conv add.commute)
    have "length (m @ d) mod 64 = length (md5_rest m @ d) mod 64" by (simp add: mod_add_left_eq)
    then have "length (m @ d) mod 64 = length (md5_rest m @ d)" using l by (simp only: mod_less)
    moreover have "blit (md5_in ctx) ?n d = (md5_rest m @ d) @ drop (?n + length d) (md5_in ctx)"
      using n by (simp add: blit_at_prefix i)
    moreover have "?n + length d \<le> length (md5_in ctx)" using l i(1) by simp
    then have "length (blit (md5_in ctx) ?n d) = 64" using i(1) by simp
    ultimately have "md5_inv (?c\<lparr>md5_buf := rfc_blocks ?X (md5_rest m @ d), md5_in := blit (md5_in ctx) ?n d\<rparr>) (m @ d)"
      using l by (intro goal) simp_all
    moreover have "rfc_blocks ?X (md5_rest m @ d) = ?X" using l by simp
    moreover have "?c\<lparr>md5_buf := ?X, md5_in := inp\<rparr> = ?c\<lparr>md5_in := inp\<rparr>" for inp using i(4) by simp
    ultimately show ?thesis using True unfolding upd by simp
  next
    case False
    define c1 where "c1 = (if ?n \<noteq> 0 then transform_in (?c\<lparr>md5_in := blit (md5_in ctx) ?n (take ?k d)\<rparr>) else ?c)"
    define d1 where "d1 = (if ?n \<noteq> 0 then drop ?k d else d)"
    have c1: "length (md5_in c1) = 64" "rfc_blocks (md5_buf c1) d1 = rfc_blocks ?X (md5_rest m @ d)"
      "md5_rest d1 = md5_rest (md5_rest m @ d)"
    proof -
      show "length (md5_in c1) = 64" using i(1) False by (simp add: c1_def transform_in_def)
      have "rfc_blocks (md5_buf c1) d1 = rfc_blocks ?X (md5_rest m @ d) \<and> md5_rest d1 = md5_rest (md5_rest m @ d)"
      proof (cases "?n = 0")
        case True
        then have "md5_rest m = []" by (metis length_0_conv length_md5_rest)
        then show "rfc_blocks (md5_buf c1) d1 = rfc_blocks ?X (md5_rest m @ d) \<and> md5_rest d1 = md5_rest (md5_rest m @ d)"
          using True i(4) by (simp_all add: c1_def d1_def)
      next
        case n0: False
        with False have k: "?k \<le> length d" by simp
        let ?b = "md5_rest m @ take ?k d"
        have b: "length ?b = 64" "md5_rest m @ d = ?b @ drop ?k d" using k by simp_all
        have "blit (md5_in ctx) ?n (take ?k d) = ?b" using n k i(1,5) by (simp add: blit_at_prefix)
        then have "md5_buf c1 = rfc_compress ?X (words_le ?b)"
          using n0 i(4) by (simp add: c1_def transform_in_def MD5Transform_rfc)
        then have *: "rfc_blocks (md5_buf c1) d1 = rfc_blocks ?X (md5_rest m @ d)"
          unfolding b(2) rfc_blocks_step [OF b(1)] using n0 by (simp add: d1_def)
        have "md5_rest ?b = []" by (metis b(1) length_0_conv length_md5_rest mod_self)
        then have "md5_rest d1 = md5_rest (md5_rest m @ d)"
          unfolding b(2) using n0 md5_rest_append(2) [of ?b "drop ?k d"] by (simp add: d1_def)
        with * show ?thesis ..
      qed
      then show "rfc_blocks (md5_buf c1) d1 = rfc_blocks ?X (md5_rest m @ d)" "md5_rest d1 = md5_rest (md5_rest m @ d)" by blast+
    qed
    from update_blocks_eval [OF c1(1), of d1] obtain inp where inp: "length inp = 64"
      "update_blocks c1 d1 = (c1\<lparr>md5_buf := rfc_blocks ?X (md5_rest m @ d), md5_in := inp\<rparr>, md5_rest (md5_rest m @ d))"
      unfolding c1(2,3) by blast
    have c1c: "c1\<lparr>md5_buf := x, md5_in := y\<rparr> = ?c\<lparr>md5_buf := x, md5_in := y\<rparr>" for x y
      by (simp add: c1_def transform_in_def)
    let ?r = "md5_rest (md5_rest m @ d)"
    have rl: "length ?r = length (m @ d) mod 64" using md5_rest_append(2) [of m d] length_md5_rest [of "m @ d"] by simp
    have "MD5Update ctx d = ?c\<lparr>md5_buf := rfc_blocks ?X (md5_rest m @ d), md5_in := blit inp 0 ?r\<rparr>"
    proof -
      have "MD5Update ctx d = (let (c, d) = update_blocks c1 d1 in c\<lparr>md5_in := blit (md5_in c) 0 d\<rparr>)"
        unfolding upd if_not_P [OF False] by (simp add: c1_def d1_def Let_def split del: if_split)
          (cases "?n = 0"; simp)
      then show ?thesis using inp(2) by (simp add: c1c)
    qed
    moreover have "take (length (m @ d) mod 64) (blit inp 0 ?r) = ?r" unfolding rl [symmetric] by (simp add: blit_def)
    moreover have "length (blit inp 0 ?r) = 64" using inp(1) rl by simp
    ultimately show ?thesis using goal by simp
  qed
qed

lemma MD5Final_inv:
  assumes inv: "md5_inv ctx m"
  shows "MD5Final ctx = rfc_md5 m"
proof -
  let ?n = "length m mod 64" and ?L = "bytes_le (word_of_nat (8 * length m)) @ bytes_le (word_of_nat (8 * length m div 2 ^ 32))"
  let ?X = "rfc_blocks (0x67452301, 0xefcdab89, 0x98badcfe, 0x10325476) m"
  have i: "length (md5_in ctx) = 64" "md5_bits0 ctx = word_of_nat (8 * length m)"
    "md5_bits1 ctx = word_of_nat (8 * length m div 2 ^ 32)" "md5_buf ctx = ?X" "take ?n (md5_in ctx) = md5_rest m"
    using inv by (simp_all add: md5_inv_def)
  have L: "length ?L = 8" by (simp add: bytes_le_def)
  have n: "?n < 64" by simp
  define inp where "inp = blit (md5_in ctx) ?n [0x80]"
  have inp: "length inp = 64" "take (?n + 1) inp = md5_rest m @ [0x80]"
    using n i(1,5) by (simp_all add: inp_def blit_at_prefix)
  define c1 where "c1 = (if 63 - ?n < 8
                 then (transform_in (ctx\<lparr>md5_in := blit inp (?n + 1) (replicate (63 - ?n) 0)\<rparr>))\<lparr>md5_in := replicate 64 0\<rparr>
                 else ctx\<lparr>md5_in := blit inp (?n + 1) (replicate (63 - ?n - 8) 0)\<rparr>)"
  have c1: "rfc_compress (md5_buf c1) (words_le (blit (md5_in c1) 56 ?L)) =
      rfc_blocks ?X (md5_rest m @ rfc_pad (length m))"
  proof (cases "63 - ?n < 8")
    case True
    let ?b = "md5_rest m @ 0x80 # replicate (63 - ?n) 0"
    have "blit inp (?n + 1) (replicate (63 - ?n) 0) = ?b" using inp n by (simp add: blit_at_prefix del: take_Suc)
    then have "md5_buf c1 = rfc_compress ?X (words_le ?b)" "md5_in c1 = replicate 64 0"
      using True i(4) by (simp_all add: c1_def transform_in_def MD5Transform_rfc)
    moreover have "(119 - ?n) mod 64 = (63 - ?n) + 56" using True by simp
    then have "md5_rest m @ rfc_pad (length m) = ?b @ (replicate 56 0 @ ?L)"
      using n by (simp only: rfc_pad_def replicate_add append_assoc append_Cons)
    moreover have "length ?b = 64" "length (replicate 56 0 @ ?L) = 64" using n L by simp_all
    moreover have "blit (replicate 64 0) 56 ?L = replicate 56 0 @ ?L" using L by (simp add: blit_at_prefix)
    ultimately show ?thesis
      using rfc_blocks_step [of ?b ?X "replicate 56 0 @ ?L"] rfc_blocks_step [of "replicate 56 0 @ ?L" "md5_buf c1" "[]"]
      by simp
  next
    case False
    let ?b = "md5_rest m @ 0x80 # replicate (55 - ?n) 0"
    have lb: "length ?b = 56" using False by simp
    have "blit inp (?n + 1) (replicate (63 - ?n - 8) 0) = ?b @ drop 56 inp"
      using inp n False by (simp add: blit_at_prefix)
    then have "md5_buf c1 = ?X" "md5_in c1 = ?b @ drop 56 inp" using False i(4) by (simp_all add: c1_def)
    moreover have "blit (?b @ drop 56 inp) 56 ?L = ?b @ ?L" by (rule blit_behind [OF lb]) (use inp(1) L in simp)
    moreover have "(119 - ?n) mod 64 = 55 - ?n" by (rule pad_count) (use False in simp)
    then have "md5_rest m @ rfc_pad (length m) = ?b @ ?L" by (simp add: rfc_pad_def)
    moreover have "rfc_blocks ?X (?b @ ?L) = rfc_compress ?X (words_le (?b @ ?L))"
      using rfc_blocks_step [of "?b @ ?L" ?X "[]"] lb L by simp
    ultimately show ?thesis by (simp only:)
  qed
  have "MD5Final ctx = (let (a, b, c, d) = rfc_compress (md5_buf c1) (words_le (blit (md5_in c1) 56 ?L))
      in bytes_le a @ bytes_le b @ bytes_le c @ bytes_le d)"
    unfolding MD5Final_def Let_def i(2,3) byte_count by (simp add: c1_def inp_def transform_in_def MD5Transform_rfc i(2,3))
  then show ?thesis unfolding c1 rfc_md5_def md5_rest_append(1) [of _ m, symmetric] .
qed

text \<open>
  C13. However a message is cut into pieces of less than 4 GB, feeding the pieces to \<open>MD5Update\<close>
  one after the other and closing with \<open>MD5Final\<close> gives the MD5 digest of RFC 1321 of the
  whole message, whatever the context area held before.
\<close>

theorem MD5_incremental:
  assumes "\<forall>d\<in>set ds. length d < 2 ^ 32" "length garbage = 64"
  shows "MD5Final (foldl MD5Update (MD5Init garbage) ds) = rfc_md5 (concat ds)"
proof -
  have "md5_inv (foldl MD5Update ctx ds) (m @ concat ds)" if "md5_inv ctx m" "\<forall>d\<in>set ds. length d < 2 ^ 32" for ctx m
    using that
  proof (induction ds arbitrary: ctx m)
    case (Cons d ds)
    from Cons.IH [OF MD5Update_inv [OF Cons.prems(1)]] Cons.prems(2) show ?case by simp
  qed simp
  from this [OF MD5Init_inv [OF assms(2)] assms(1)] show ?thesis using MD5Final_inv by fastforce
qed

theorem MD5_incremental_witness:
  "MD5Final (foldl MD5Update (MD5Init (replicate 64 0)) [bytes_of ''mess'', bytes_of ''age digest'']) =
     rfc_md5 (concat [bytes_of ''mess'', bytes_of ''age digest''])"
  by (rule MD5_incremental) simp_all

end
