(* ===== verification/Http_Auth.thy ===== *)
theory Http_Auth
  imports Md5 Pmsg
begin

text \<open>
  \<open>http-auth.c\<close>: digest authentication. The time, the random bytes and the secret (none until the
  first challenge is made) are arguments. The MD5 context is on the stack; what it holds
  before \<open>MD5Init\<close> does not matter, so it is taken to be zero here.
\<close>

section \<open>Hashes\<close>

definition md5_pieces :: "string list \<Rightarrow> byte list list" where
  "md5_pieces vs = (case vs of [] \<Rightarrow> [] | v # r \<Rightarrow> bytes_of v # concat (map (\<lambda>u. [bytes_of '':'', bytes_of u]) r))"

definition md5_hash :: "string list \<Rightarrow> string" where
  "md5_hash vs = concat (map hex2 (MD5Final (foldl MD5Update (MD5Init (replicate 64 0)) (md5_pieces vs))))"

record digest_auth_info =
  da_realm :: string
  da_uri :: string
  da_nonce :: string
  da_opaque :: string
  da_username :: string
  da_response :: string

definition no_auth :: digest_auth_info where
  "no_auth = \<lparr>da_realm = [], da_uri = [], da_nonce = [], da_opaque = [], da_username = [], da_response = []\<rparr>"

definition create_nonce :: "string \<Rightarrow> u32 \<Rightarrow> byte list \<Rightarrow> string" where
  "create_nonce secret now rnd =
     (let nonce = concat (map hex2 (PUT_32 now @ rnd)) in nonce @ md5_hash [nonce, secret])"

section \<open>The Authorization header\<close>

text \<open>
  One directive: \<open>n\<close> begins with its name, the value is the first \<open>len\<close> characters of \<open>v\<close>.
  A value that does not fit its array is refused.
\<close>

definition set_directive :: "string \<Rightarrow> string \<Rightarrow> nat \<Rightarrow> digest_auth_info \<Rightarrow> digest_auth_info option" where
  "set_directive n v len auth =
     (if strn_ieq 6 n ''realm='' then if 128 \<le> len then None else Some (auth\<lparr>da_realm := take len v\<rparr>)
      else if strn_ieq 4 n ''uri='' then if 512 \<le> len then None else Some (auth\<lparr>da_uri := take len v\<rparr>)
      else if strn_ieq 6 n ''nonce='' then if 128 \<le> len then None else Some (auth\<lparr>da_nonce := take len v\<rparr>)
      else if strn_ieq 7 n ''opaque='' then if 128 \<le> len then None else Some (auth\<lparr>da_opaque := take len v\<rparr>)
      else if strn_ieq 9 n ''username='' then if 128 \<le> len then None else Some (auth\<lparr>da_username := take len v\<rparr>)
      else if strn_ieq 9 n ''response='' then if 33 \<le> len then None else Some (auth\<lparr>da_response := take len v\<rparr>)
      else if strn_ieq 10 n ''algorithm='' then if strn_ieq 3 v ''md5'' then Some auth else None
      else Some auth)"

text \<open>Where the value starts, quoted or not, and its length.\<close>

definition directive_value :: "string \<Rightarrow> (string \<times> nat) option" where
  "directive_value n =
     (case strchr n CHR ''='' of
        None \<Rightarrow> None
      | Some i \<Rightarrow>
          (case drop (i + 1) n of
             [] \<Rightarrow> None
           | c # r \<Rightarrow>
               if c = QUOTE then map_option (\<lambda>len. (r, len)) (strchr r QUOTE)
               else Some (c # r, length (takeWhile (\<lambda>x. x \<noteq> CHR '','' \<and> x \<noteq> SPC) (c # r)))))"

definition skip_seps :: "string \<Rightarrow> string" where
  "skip_seps = dropWhile (\<lambda>x. x = QUOTE \<or> x = CHR '','' \<or> x = SPC)"

lemma skip_seps_length: "length (skip_seps v) \<le> length v"
  unfolding skip_seps_def by (rule length_dropWhile_le)

lemma directive_value_length:
  assumes "directive_value n = Some (v, len)"
  shows "length v < length n"
proof -
  obtain i where i: "strchr n CHR ''='' = Some i" using assms by (auto simp: directive_value_def split: option.splits)
  obtain c r where cr: "drop (i + 1) n = c # r"
    using assms i by (cases "drop (i + 1) n") (auto simp: directive_value_def)
  have "v = r \<or> v = c # r" using assms i cr by (auto simp: directive_value_def split: if_splits)
  moreover have "Suc (length r) = length n - (i + 1)" using cr by (metis length_Cons length_drop)
  ultimately show ?thesis by auto
qed

function parse_directives :: "string \<Rightarrow> digest_auth_info \<Rightarrow> digest_auth_info option" where
  "parse_directives n auth =
     (if n = [] then Some auth
      else case directive_value n of
        None \<Rightarrow> None
      | Some (v, len) \<Rightarrow>
          (case set_directive n v len auth of
             None \<Rightarrow> None
           | Some auth' \<Rightarrow> parse_directives (skip_seps (drop len v)) auth'))"
  by auto
termination
proof (relation "measure (length \<circ> fst)")
  fix n :: string and auth auth' x v len
  assume "directive_value n = Some x" "(v, len) = x"
  then have "length v < length n" by (auto dest: directive_value_length)
  moreover have "length (skip_seps (drop len v)) \<le> length v"
    using skip_seps_length [of "drop len v"] by simp
  ultimately show "((skip_seps (drop len v), auth'), n, auth) \<in> measure (length \<circ> fst)" by simp
qed simp

declare parse_directives.simps [simp del]

definition parse_auth_header :: "string \<Rightarrow> digest_auth_info option" where
  "parse_auth_header hdr = (if \<not> strn_ieq 7 hdr ''digest '' then None else parse_directives (drop 7 hdr) no_auth)"

section \<open>Checking\<close>

definition create_response :: "digest_auth_info \<Rightarrow> string \<Rightarrow> string \<Rightarrow> string" where
  "create_response auth meth password =
     (let ha1 = md5_hash [da_username auth, da_realm auth, password];
          ha2 = md5_hash [meth, da_uri auth]
      in md5_hash [ha1, da_nonce auth, ha2])"

text \<open>
  The value of a hexadecimal number of up to eight digits, as computed: the code subtracts
  \<open>0\<close> from a decimal digit, not \<open>'0'\<close>.
\<close>

definition hex_value :: "char \<Rightarrow> u32 option" where
  "hex_value c =
     (let n = of_char c :: nat
      in if 48 \<le> n \<and> n \<le> 57 then Some (word_of_nat n)
         else if 65 \<le> n \<and> n \<le> 70 then Some (word_of_nat (n - 65 + 10))
         else if 97 \<le> n \<and> n \<le> 102 then Some (word_of_nat (n - 97 + 10))
         else None)"

fun hex_loop :: "nat \<Rightarrow> u32 \<Rightarrow> string \<Rightarrow> u32" where
  "hex_loop (Suc k) val (c # r) =
     (case hex_value c of None \<Rightarrow> val | Some x \<Rightarrow> hex_loop k (push_bit 4 val OR x) r)"
| "hex_loop _ val _ = val"

definition get_hex_u32 :: "string \<Rightarrow> u32" where
  "get_hex_u32 hex = hex_loop 8 0 hex"

text \<open>Positive when the client may pass, 0 when it knows the password but the nonce is stale.\<close>

definition check_digest_response ::
  "string option \<Rightarrow> int \<Rightarrow> pmsg \<Rightarrow> string \<Rightarrow> string \<Rightarrow> string \<Rightarrow> int" where
  "check_digest_response secret now msg realm username password =
     (case get_header msg ''authorization'' of
        None \<Rightarrow> -1
      | Some hdr \<Rightarrow>
          (case parse_auth_header hdr of
             None \<Rightarrow> -1
           | Some auth0 \<Rightarrow>
               let uri = cstr (pm_msg msg) (pm_uri msg);
                   meth = cstr (pm_msg msg) (pm_method msg);
                   auth = (if da_uri auth0 = [] then auth0\<lparr>da_uri := uri\<rparr> else auth0)
               in if da_realm auth0 \<noteq> realm then -1
                  else if \<not> str_ieq (da_username auth0) username then -1
                  else if da_uri auth0 = [] \<and> 512 \<le> length uri then -1
                  else if \<not> str_ieq (da_response auth) (create_response auth meth password) then -1
                  else case secret of
                    None \<Rightarrow> 0
                  | Some sec \<Rightarrow>
                      if length (da_nonce auth) \<noteq> 64 then 0
                      else let token = take 32 (da_nonce auth)
                           in if drop 32 (da_nonce auth) \<noteq> md5_hash [token, sec] then 0
                              else if uint (get_hex_u32 token + 15) < now then 0
                              else 1))"

definition add_digest_challenge :: "string \<Rightarrow> u32 \<Rightarrow> byte list \<Rightarrow> pmsg \<Rightarrow> string \<Rightarrow> bool \<Rightarrow> pmsg \<times> bool" where
  "add_digest_challenge secret now rnd msg realm stale =
     add_header_printf msg ''WWW-Authenticate''
       (''Digest realm='' @ [QUOTE] @ realm @ [QUOTE] @ '', nonce='' @ [QUOTE] @ create_nonce secret now rnd @ [QUOTE] @
        (if stale then '', stale=true'' else []))"

section \<open>The date in a nonce\<close>

text \<open>What \<open>hex_value\<close> gives for a digit that \<open>sprintf\<close> wrote: the digit, and 3 in the next nibble.\<close>

definition nibble_read :: "nat \<Rightarrow> u32" where
  "nibble_read n = word_of_nat n OR (if n < 10 then 0x30 else 0)"

lemma hex_value_read: "n < 16 \<Longrightarrow> hex_value (hex_digit n) = Some (nibble_read n)"
proof -
  have "list_all (\<lambda>n. (word_of_nat (48 + n) :: u32) = word_of_nat n OR 0x30) [0..<10]" by code_simp
  then have "n < 10 \<Longrightarrow> (word_of_nat (48 + n) :: u32) = word_of_nat n OR 0x30" by (simp only: list_all_iff set_upt) simp
  then show "n < 16 \<Longrightarrow> hex_value (hex_digit n) = Some (nibble_read n)"
    by (simp add: hex_value_def hex_digit_def nibble_read_def Let_def)
qed

definition shift_in :: "u32 \<Rightarrow> u32 \<Rightarrow> u32" where
  "shift_in v x = push_bit 4 v OR x"

lemma hex_loop_digits:
  "\<forall>n\<in>set ns. n < 16 \<Longrightarrow> length ns = k \<Longrightarrow>
     hex_loop k v (map hex_digit ns @ r) = foldl shift_in v (map nibble_read ns)"
proof (induction ns arbitrary: k v)
  case (Cons n ns)
  then obtain j where "k = Suc j" by (cases k) auto
  with Cons show ?case by (simp add: hex_value_read shift_in_def)
qed simp

definition nibbles :: "byte list \<Rightarrow> nat list" where
  "nibbles bs = concat (map (\<lambda>b. [unat b div 16, unat b mod 16]) bs)"

lemma hex2_nibbles: "concat (map hex2 bs) = map hex_digit (nibbles bs)"
  by (induction bs) (simp_all add: nibbles_def hex2_def)

lemma unat_byte_less: "unat (b :: byte) < 256"
  using unsigned_less [where 'a = nat, of b] by simp

lemma nibbles_less: "n \<in> set (nibbles bs) \<Longrightarrow> n < 16"
proof -
  have "unat (b :: byte) div 16 < 16" for b using unat_byte_less [of b] by simp
  then show "n \<in> set (nibbles bs) \<Longrightarrow> n < 16" by (auto simp: nibbles_def)
qed

lemma length_nibbles [simp]: "length (nibbles bs) = 2 * length bs"
  by (induction bs) (simp_all add: nibbles_def)

definition nib :: "nat \<Rightarrow> u32 \<Rightarrow> u32" where
  "nib k w = drop_bit k w AND 15"

lemma nibble_words:
  assumes "b = (ucast (drop_bit k w) :: byte)"
  shows "(word_of_nat (unat b div 16) :: u32) = nib (k + 4) w" "(word_of_nat (unat b mod 16) :: u32) = nib k w"
proof -
  have m: "(15 :: u32) = mask 4" by (simp add: mask_eq_exp_minus_1)
  have "unat b div 16 = unat (drop_bit 4 b)" 
    by (simp add: unsigned_drop_bit_eq) (simp add: drop_bit_eq_div take_bit_nat_eq_self unat_byte_less)
  then have "(word_of_nat (unat b div 16) :: u32) = ucast (drop_bit 4 b)" by simp
  also have "\<dots> = nib (k + 4) w"
    unfolding nib_def m assms by (rule bit_word_eqI) (auto simp: bit_simps add.commute add.left_commute)
  finally show "(word_of_nat (unat b div 16) :: u32) = nib (k + 4) w" .
  have "unat b mod 16 = unat (take_bit 4 b)" by (simp add: unsigned_take_bit_eq) (simp add: take_bit_eq_mod)
  then have "(word_of_nat (unat b mod 16) :: u32) = ucast (take_bit 4 b)" by simp
  also have "\<dots> = nib k w"
    unfolding nib_def m assms by (rule bit_word_eqI) (auto simp: bit_simps)
  finally show "(word_of_nat (unat b mod 16) :: u32) = nib k w" .
qed

lemma nib_step: "shift_in (drop_bit (k + 4) w) (nib k w) = drop_bit k w"
proof -
  have m: "(15 :: u32) = mask 4" by (simp add: mask_eq_exp_minus_1)
  show ?thesis unfolding shift_in_def nib_def m by (rule bit_word_eqI) (auto simp: bit_simps)
qed

lemma nib_byte: "nib 4 (drop_bit k w AND 255) = nib (k + 4) w" "nib 0 (drop_bit k w AND 255) = nib k w"
proof -
  have m: "(15 :: u32) = mask 4" "(255 :: u32) = mask 8" by (simp_all add: mask_eq_exp_minus_1)
  show "nib 4 (drop_bit k w AND 255) = nib (k + 4) w" "nib 0 (drop_bit k w AND 255) = nib k w"
    unfolding nib_def m by (rule bit_word_eqI; auto simp: bit_simps add.commute add.left_commute)+
qed

lemma nib_drop: "nib i (drop_bit k w) = nib (i + k) w"
  by (simp add: nib_def add.commute)

lemma ucast_low_byte: "(ucast (w AND 255 :: u32) :: byte) = ucast w"
proof -
  have m: "(255 :: u32) = mask 8" by (simp add: mask_eq_exp_minus_1)
  show ?thesis unfolding m by (rule bit_word_eqI) (auto simp: bit_simps)
qed

lemma exact_value: "foldl shift_in 0 (map word_of_nat (nibbles (PUT_32 w))) = w"
proof -
  have top: "shift_in 0 (nib 28 w) = drop_bit 28 w"
    using nib_step [of 28 w] by (simp add: drop_bit_word_beyond)
  show ?thesis
    using nib_step [of 24 w] nib_step [of 20 w] nib_step [of 16 w] nib_step [of 12 w] nib_step [of 8 w]
      nib_step [of 4 w] nib_step [of 0 w]
    by (simp add: nibbles_def PUT_32_def nibble_words [OF refl] top nibble_words [where k = 0, simplified, OF refl]
        nib_byte nib_byte [of 0, simplified] nib_drop)
qed

text \<open>The value read has all the bits of the exact one, and no others above bit 30.\<close>

lemma foldl_shift_sub:
  "t OR v = v \<Longrightarrow> foldl shift_in t (map word_of_nat ns) OR foldl shift_in v (map nibble_read ns) =
     foldl shift_in v (map nibble_read ns)"
proof (induction ns arbitrary: t v)
  case (Cons n ns)
  have "shift_in t (word_of_nat n) OR shift_in v (nibble_read n) = shift_in v (nibble_read n)"
  proof (rule bit_word_eqI)
    fix i assume "i < LENGTH(32)"
    have "bit v j" if "bit t j" for j using Cons.prems that by (metis bit_or_iff)
    then show "bit (shift_in t (word_of_nat n) OR shift_in v (nibble_read n)) i = bit (shift_in v (nibble_read n)) i"
      by (auto simp: shift_in_def nibble_read_def bit_simps)
  qed
  with Cons.IH show ?case by simp
qed simp

lemma foldl_shift_append: "foldl shift_in v (xs @ [x]) = shift_in (foldl shift_in v xs) x"
  by simp

lemma bit_nibble_read: "n < 16 \<Longrightarrow> bit (nibble_read n) i \<Longrightarrow> i < 6"
proof -
  have "list_all (\<lambda>n. nibble_read n AND mask 6 = nibble_read n) [0..<16]" by code_simp
  then show "n < 16 \<Longrightarrow> bit (nibble_read n) i \<Longrightarrow> i < 6"
    by (simp only: list_all_iff set_upt) (metis atLeastLessThan_iff bit_and_iff bit_mask_iff zero_le)
qed

text \<open>The sign bit of the value comes from the first digit alone.\<close>

lemma top_bit_read:
  assumes "bit (foldl shift_in 0 (map nibble_read (n # ns))) 31" "\<forall>m\<in>set (n # ns). m < 16" "length ns = 7"
  shows "8 \<le> n"
proof -
  have step: "bit (foldl shift_in v (map nibble_read ms)) (i + 4 * length ms) \<Longrightarrow> bit v i"
    if "\<forall>m\<in>set ms. m < 16" "2 \<le> i" for v ms i
    using that
  proof (induction ms arbitrary: v i)
    case (Cons m ms)
    have "bit (shift_in v (nibble_read m)) (i + 4)"
      by (rule Cons.IH) (use Cons.prems in \<open>simp_all add: algebra_simps\<close>)
    then show ?case using Cons.prems bit_nibble_read [of m "i + 4"] by (auto simp: shift_in_def bit_simps)
  qed simp
  have "bit (shift_in 0 (nibble_read n)) 3" by (rule step [of ns 3]) (use assms in simp_all)
  then have "bit (nibble_read n) 3" by (simp add: shift_in_def)
  moreover have "list_all (\<lambda>n. bit (nibble_read n) 3 \<longrightarrow> 8 \<le> n) [0..<16]" by code_simp
  ultimately show ?thesis using assms(2) by (simp add: list_all_iff)
qed

lemma nonce_date:
  assumes "uint w < 2 ^ 31" "length r = 24"
  shows "uint w \<le> uint (get_hex_u32 (concat (map hex2 (PUT_32 w)) @ r))"
    and "uint (get_hex_u32 (concat (map hex2 (PUT_32 w)) @ r)) < 2 ^ 31"
proof -
  let ?ns = "nibbles (PUT_32 w)" and ?v = "foldl shift_in 0 (map nibble_read (nibbles (PUT_32 w)))"
  have ns: "\<forall>n\<in>set ?ns. n < 16" "length ?ns = 8" by (auto simp: nibbles_less PUT_32_def)
  have v: "get_hex_u32 (concat (map hex2 (PUT_32 w)) @ r) = ?v"
    unfolding get_hex_u32_def hex2_nibbles by (rule hex_loop_digits [OF ns])
  have "w OR ?v = ?v" using foldl_shift_sub [of 0 0 ?ns] by (simp add: exact_value)
  then have "uint w OR uint ?v = uint ?v" by (metis unsigned_or_eq)
  then show "uint w \<le> uint (get_hex_u32 (concat (map hex2 (PUT_32 w)) @ r))"
    unfolding v by (metis or_greater_eq uint_nonnegative)
  obtain n ns' where n: "?ns = n # ns'" "length ns' = 7" using ns(2) by (cases ?ns) auto
  have "n = unat (ucast (drop_bit 24 w) :: byte) div 16" 
    using n(1) by (auto simp: nibbles_def PUT_32_def ucast_low_byte)
  also have "\<dots> < 8"
  proof -
    have "int (unat w) < int (2 ^ 31)" using assms(1) by (simp only: uint_nat of_nat_power of_nat_numeral)
    then have "unat w < 2 ^ 31" by (simp only: of_nat_less_iff)
    then have "unat (drop_bit 24 w) < 128" 
      by (simp add: unsigned_drop_bit_eq) (simp add: drop_bit_eq_div take_bit_eq_mod)
    then show ?thesis by (simp add: unsigned_ucast_eq) (simp add: take_bit_eq_mod)
  qed
  finally have "\<not> bit ?v 31" using top_bit_read [of n ns'] ns(1) n by auto
  then have "?v = take_bit 31 ?v"
    by (intro bit_word_eqI) (auto simp: bit_simps less_Suc_eq numeral_eq_Suc)
  then have "uint ?v = take_bit 31 (uint ?v)" by (metis unsigned_take_bit_eq)
  then show "uint (get_hex_u32 (concat (map hex2 (PUT_32 w)) @ r)) < 2 ^ 31"
    unfolding v by (metis take_bit_int_less_exp)
qed

section \<open>A client that answers a challenge\<close>

definition quoted :: "string \<Rightarrow> string \<Rightarrow> string" where
  "quoted name v = name @ ''='' @ [QUOTE] @ v @ [QUOTE]"

definition client_header :: "string \<Rightarrow> string \<Rightarrow> string \<Rightarrow> string \<Rightarrow> string \<Rightarrow> string" where
  "client_header user realm nonce uri resp =
     ''Digest '' @ quoted ''username'' user @ '', '' @ quoted ''realm'' realm @ '', '' @ quoted ''nonce'' nonce @ '', '' @
     quoted ''uri'' uri @ '', '' @ quoted ''response'' resp"

lemma strchr_append: "c \<notin> set xs \<Longrightarrow> strchr (xs @ c # ys) c = Some (length xs)"
  by (induction xs) auto

lemma directive_value_quoted:
  assumes "CHR ''='' \<notin> set name" "QUOTE \<notin> set v"
  shows "directive_value (quoted name v @ r) = Some (v @ QUOTE # r, length v)"
proof -
  have "strchr (quoted name v @ r) CHR ''='' = Some (length name)"
    using strchr_append [OF assms(1)] by (simp add: quoted_def)
  moreover have "drop (length name + 1) (quoted name v @ r) = QUOTE # v @ QUOTE # r" by (simp add: quoted_def)
  ultimately show ?thesis using strchr_append [OF assms(2)] by (simp add: directive_value_def)
qed

lemma skip_seps_comma: "skip_seps (QUOTE # CHR '','' # SPC # r) = skip_seps r"
  by (simp add: skip_seps_def)

lemma parse_quoted:
  assumes "CHR ''='' \<notin> set name" "QUOTE \<notin> set v"
    and "set_directive (quoted name v @ r) (v @ QUOTE # r) (length v) auth = Some auth'"
  shows "parse_directives (quoted name v @ r) auth = parse_directives (skip_seps (QUOTE # r)) auth'"
proof -
  have "quoted name v \<noteq> []" by (simp add: quoted_def)
  then show ?thesis
    using assms(3) directive_value_quoted [OF assms(1,2), of r]
    by (simp add: parse_directives.simps [of "quoted name v @ r"])
qed

lemma set_directive_quoted:
  "length v < 128 \<Longrightarrow> set_directive (quoted ''realm'' v @ r) (v @ q) (length v) auth = Some (auth\<lparr>da_realm := v\<rparr>)"
  "length v < 512 \<Longrightarrow> set_directive (quoted ''uri'' v @ r) (v @ q) (length v) auth = Some (auth\<lparr>da_uri := v\<rparr>)"
  "length v < 128 \<Longrightarrow> set_directive (quoted ''nonce'' v @ r) (v @ q) (length v) auth = Some (auth\<lparr>da_nonce := v\<rparr>)"
  "length v < 128 \<Longrightarrow> set_directive (quoted ''username'' v @ r) (v @ q) (length v) auth = Some (auth\<lparr>da_username := v\<rparr>)"
  "length v < 33 \<Longrightarrow> set_directive (quoted ''response'' v @ r) (v @ q) (length v) auth = Some (auth\<lparr>da_response := v\<rparr>)"
  by (simp_all add: set_directive_def quoted_def strn_ieq_def to_lower_def)

definition plain_value :: "nat \<Rightarrow> string \<Rightarrow> bool" where
  "plain_value n v \<longleftrightarrow> QUOTE \<notin> set v \<and> length v < n"

lemma skip_seps_quoted:
  "name \<noteq> [] \<Longrightarrow> hd name \<notin> {QUOTE, CHR '','', SPC} \<Longrightarrow> skip_seps (quoted name v @ r) = quoted name v @ r"
  by (cases name) (auto simp: skip_seps_def quoted_def)

lemma parse_client_header:
  assumes "plain_value 128 user" "plain_value 128 realm" "plain_value 128 nonce" "plain_value 512 uri" "plain_value 33 resp"
  shows "parse_auth_header (client_header user realm nonce uri resp) =
    Some \<lparr>da_realm = realm, da_uri = uri, da_nonce = nonce, da_opaque = [], da_username = user, da_response = resp\<rparr>"
proof -
  have q: "QUOTE \<notin> set user" "QUOTE \<notin> set realm" "QUOTE \<notin> set nonce" "QUOTE \<notin> set uri" "QUOTE \<notin> set resp"
    and l: "length user < 128" "length realm < 128" "length nonce < 128" "length uri < 512" "length resp < 33"
    using assms by (simp_all add: plain_value_def)
  note step = parse_quoted [OF _ q(1) set_directive_quoted(4) [OF l(1)]]
    parse_quoted [OF _ q(2) set_directive_quoted(1) [OF l(2)]]
    parse_quoted [OF _ q(3) set_directive_quoted(3) [OF l(3)]]
    parse_quoted [OF _ q(4) set_directive_quoted(2) [OF l(4)]]
    parse_quoted [OF _ q(5) set_directive_quoted(5) [OF l(5)], where r = "[]", simplified]
  have "map to_lower ''Digest '' = map to_lower ''digest ''" by code_simp
  then have d: "strn_ieq 7 (''Digest '' @ x) ''digest ''" for x by (simp add: strn_ieq_def)
  have h: "parse_auth_header (''Digest '' @ x) = parse_directives x no_auth" for x
    unfolding parse_auth_header_def using d [of x] by simp
  have "parse_directives [] auth = Some auth" for auth by (subst parse_directives.simps) simp
  moreover have "skip_seps [QUOTE] = []" by (simp add: skip_seps_def)
  ultimately show ?thesis
    unfolding client_header_def h
    by (simp add: step skip_seps_comma skip_seps_quoted skip_seps_quoted [where r = "[]", simplified] no_auth_def)
qed

lemma length_hex2_concat: "length (concat (map hex2 bs)) = 2 * length bs"
  by (induction bs) (simp_all add: hex2_def)

lemma length_MD5Final: "length (MD5Final ctx) = 16"
  by (simp add: MD5Final_def Let_def bytes_le_def split: prod.split)

lemma length_md5_hash [simp]: "length (md5_hash vs) = 32"
  by (simp only: md5_hash_def length_hex2_concat length_MD5Final)

lemma hex_text_chars:
  assumes "c \<in> set (concat (map hex2 bs))"
  shows "c \<noteq> QUOTE" "c \<noteq> NUL"
proof -
  have "list_all (\<lambda>n. hex_digit n \<noteq> QUOTE \<and> hex_digit n \<noteq> NUL) [0..<16]" by code_simp
  then have "hex_digit n \<noteq> QUOTE \<and> hex_digit n \<noteq> NUL" if "n < 16" for n using that by (simp add: list_all_iff)
  then show "c \<noteq> QUOTE" "c \<noteq> NUL" using assms nibbles_less unfolding hex2_nibbles by fastforce+
qed

lemma hash_chars: "c \<in> set (md5_hash vs) \<Longrightarrow> c \<noteq> QUOTE" "c \<in> set (md5_hash vs) \<Longrightarrow> c \<noteq> NUL"
  unfolding md5_hash_def by (erule hex_text_chars)+

definition answer :: "string \<Rightarrow> string \<Rightarrow> string \<Rightarrow> string \<Rightarrow> string \<Rightarrow> digest_auth_info" where
  "answer user realm nonce uri resp =
     \<lparr>da_realm = realm, da_uri = uri, da_nonce = nonce, da_opaque = [], da_username = user, da_response = resp\<rparr>"

lemma check_answer:
  assumes "get_header msg ''authorization'' = Some (client_header user realm nonce uri resp)"
    and "nonce = create_nonce secret date rnd" "length rnd = 12"
    and "plain_value 128 user" "plain_value 128 realm" "plain_value 512 uri" "plain_value 33 resp" "uri \<noteq> []"
  shows "check_digest_response (Some secret) now msg realm user password =
    (if \<not> str_ieq resp (create_response (answer user realm nonce uri resp) (cstr (pm_msg msg) (pm_method msg)) password)
     then -1 else if uint (get_hex_u32 (concat (map hex2 (PUT_32 date)) @ concat (map hex2 rnd)) + 15) < now then 0 else 1)"
proof -
  define tok where "tok = concat (map hex2 (PUT_32 date)) @ concat (map hex2 rnd)"
  have tok: "length tok = 32" using assms(3) by (simp only: tok_def length_hex2_concat length_append) (simp add: PUT_32_def)
  have nonce: "nonce = tok @ md5_hash [tok, secret]" by (simp add: assms(2) create_nonce_def tok_def Let_def)
  have "QUOTE \<notin> set tok" "QUOTE \<notin> set (md5_hash vs)" for vs
    unfolding tok_def md5_hash_def set_append using hex_text_chars by blast+
  then have "plain_value 128 nonce" using tok by (simp add: plain_value_def nonce)
  note parsed = parse_client_header [OF assms(4,5) this assms(6,7)]
  show ?thesis
    unfolding tok_def [symmetric] using assms(1,8) parsed nonce tok
    by (simp add: check_digest_response_def answer_def Let_def str_ieq_refl)
qed

text \<open>The response that RFC 2069 asks for.\<close>

definition digest_of :: "string \<Rightarrow> string \<Rightarrow> string \<Rightarrow> string \<Rightarrow> string \<Rightarrow> string \<Rightarrow> string" where
  "digest_of user realm password nonce meth uri =
     md5_hash [md5_hash [user, realm, password], nonce, md5_hash [meth, uri]]"

text \<open>A nonce that this server made: 32 characters, and the hash of them with the secret. \<open>until\<close> is when it ends.\<close>

definition own_nonce :: "string \<Rightarrow> string \<Rightarrow> int \<Rightarrow> bool" where
  "own_nonce secret nonce until \<longleftrightarrow>
     (\<exists>token. length token = 32 \<and> nonce = token @ md5_hash [token, secret] \<and> until = uint (get_hex_u32 token + 15))"

lemma own_nonce_split:
  "own_nonce secret nonce until \<longleftrightarrow> length nonce = 64 \<and> drop 32 nonce = md5_hash [take 32 nonce, secret] \<and>
     until = uint (get_hex_u32 (take 32 nonce) + 15)"
proof
  assume "own_nonce secret nonce until"
  then obtain token where "length token = 32" "nonce = token @ md5_hash [token, secret]" "until = uint (get_hex_u32 token + 15)"
    by (auto simp: own_nonce_def)
  then show "length nonce = 64 \<and> drop 32 nonce = md5_hash [take 32 nonce, secret] \<and> until = uint (get_hex_u32 (take 32 nonce) + 15)" by simp
next
  assume a: "length nonce = 64 \<and> drop 32 nonce = md5_hash [take 32 nonce, secret] \<and> until = uint (get_hex_u32 (take 32 nonce) + 15)"
  then have "nonce = take 32 nonce @ md5_hash [take 32 nonce, secret]" by (metis append_take_drop_id)
  with a show "own_nonce secret nonce until" unfolding own_nonce_def by (intro exI [of _ "take 32 nonce"]) simp
qed

lemma fresh_nonce:
  assumes "uint date < 2 ^ 31" "length rnd = 12"
  shows "\<exists>until. own_nonce secret (create_nonce secret date rnd) until \<and> uint date + 15 \<le> until"
proof -
  let ?t = "concat (map hex2 (PUT_32 date)) @ concat (map hex2 rnd)"
  have r: "length (concat (map hex2 rnd)) = 24" using assms(2) by (simp only: length_hex2_concat)
  note d = nonce_date [OF assms(1) r]
  have "length ?t = 32" using r by (simp only: length_append length_hex2_concat) (simp add: PUT_32_def)
  moreover have "uint (get_hex_u32 ?t + 15) = uint (get_hex_u32 ?t) + 15" using d(2) by (simp add: uint_plus_if')
  ultimately show ?thesis using d(1) unfolding own_nonce_def
    by (intro exI [of _ "uint (get_hex_u32 ?t + 15)"] conjI exI [of _ ?t]) (simp_all add: create_nonce_def Let_def)
qed


text \<open>
  The date of a nonce is read wrongly (the digits \<open>0\<close> to \<open>9\<close> are taken for their character
  codes): a nonce made in January 2021 is still accepted ten years later, not for 15 seconds.
\<close>

lemma nonce_accepted_for_years:
  assumes "get_header msg ''authorization'' = Some (client_header user realm nonce uri resp)"
    and "nonce = create_nonce secret 0x60000000 rnd" "length rnd = 12"
    and "plain_value 128 user" "plain_value 128 realm" "plain_value 512 uri" "plain_value 33 resp" "uri \<noteq> []"
    and "str_ieq resp (create_response (answer user realm nonce uri resp) (cstr (pm_msg msg) (pm_method msg)) password)"
    and "now \<le> 0x60000000 + 10 * 365 * 24 * 3600"
  shows "check_digest_response (Some secret) now msg realm user password = 1"
proof -
  have ns: "\<forall>n\<in>set (nibbles (PUT_32 0x60000000)). n < 16" "length (nibbles (PUT_32 0x60000000)) = 8"
    by (auto simp: nibbles_less PUT_32_def)
  have "foldl shift_in 0 (map nibble_read (nibbles (PUT_32 0x60000000))) = 0x73333330" by code_simp
  then have "get_hex_u32 (concat (map hex2 (PUT_32 0x60000000)) @ concat (map hex2 rnd)) = 0x73333330"
    unfolding get_hex_u32_def hex2_nibbles [of "PUT_32 0x60000000"] hex_loop_digits [OF ns] .
  then show ?thesis using assms(9,10) unfolding check_answer [OF assms(1-8)] by simp
qed

text \<open>A request with a given Authorization header.\<close>

definition auth_request :: "string \<Rightarrow> pmsg" where
  "auth_request hdr = \<lparr>pm_msg = ''authorization'' @ [NUL] @ hdr @ [NUL] @ ''DESCRIBE'' @ [NUL], pm_len = 0,
     pm_fields = [(0, 14)], pm_type = PMSG_REQ, pm_proto = 0, pm_method = length (''authorization'' @ [NUL] @ hdr @ [NUL]), pm_uri = 0, pm_code = 0,
     pm_reason = 0\<rparr>"

lemma auth_request_header:
  assumes "NUL \<notin> set hdr"
  shows "get_header (auth_request hdr) ''authorization'' = Some hdr"
proof -
  have l: "length (''authorization'' @ [NUL]) = 14" by simp
  have "cstr (''authorization'' @ [NUL] @ hdr @ [NUL] @ ''DESCRIBE'' @ [NUL]) 14 = hdr"
    using cstr_append_nul [OF assms, of "''authorization'' @ [NUL]" "''DESCRIBE'' @ [NUL]", unfolded l] by simp
  then show ?thesis by (simp add: get_header_def auth_request_def cstr_def)
qed

definition demo_nonce :: string where "demo_nonce = create_nonce ''key'' 0x60000000 (replicate 12 0)"

definition demo_response :: string where
  "demo_response = create_response (answer ''u'' ''r'' demo_nonce ''/'' []) ''DESCRIBE'' ''p''"

lemma demo_request:
  "get_header (auth_request (client_header ''u'' ''r'' demo_nonce ''/'' demo_response)) ''authorization'' =
     Some (client_header ''u'' ''r'' demo_nonce ''/'' demo_response)"
  "plain_value 33 demo_response"
  "str_ieq demo_response (create_response (answer ''u'' ''r'' demo_nonce ''/'' demo_response)
     (cstr (pm_msg (auth_request (client_header ''u'' ''r'' demo_nonce ''/'' demo_response)))
        (pm_method (auth_request (client_header ''u'' ''r'' demo_nonce ''/'' demo_response)))) ''p'')"
proof -
  let ?h = "client_header ''u'' ''r'' demo_nonce ''/'' demo_response"
  have resp: "demo_response = md5_hash [md5_hash [''u'', ''r'', ''p''], demo_nonce, md5_hash [''DESCRIBE'', ''/'']]"
    by (simp add: demo_response_def create_response_def answer_def)
  have "NUL \<notin> set (md5_hash vs)" "NUL \<notin> set (concat (map hex2 bs))" for vs bs
    using hash_chars(2) hex_text_chars(2) by blast+
  then have nul: "NUL \<notin> set demo_nonce" "NUL \<notin> set demo_response"
    by (simp_all only: demo_nonce_def create_nonce_def resp Let_def set_append Un_iff simp_thms)
  have h: "NUL \<notin> set ?h" using nul by (simp add: client_header_def quoted_def)
  show "get_header (auth_request ?h) ''authorization'' = Some ?h" by (rule auth_request_header [OF h])
  show "plain_value 33 demo_response" using hash_chars(1) by (auto simp: plain_value_def resp)
  have "NUL \<notin> set ''DESCRIBE''" by simp
  from cstr_append_nul [OF this, of "''authorization'' @ [NUL] @ ?h @ [NUL]" "[]"]
  have "cstr (pm_msg (auth_request ?h)) (pm_method (auth_request ?h)) = ''DESCRIBE''" by (simp add: auth_request_def)
  then show "str_ieq demo_response (create_response (answer ''u'' ''r'' demo_nonce ''/'' demo_response)
     (cstr (pm_msg (auth_request ?h)) (pm_method (auth_request ?h))) ''p'')"
    by (simp add: resp create_response_def answer_def)
qed


theorem nonce_accepted_for_years_witness:
  "check_digest_response (Some ''key'') 0x70000000
     (auth_request (client_header ''u'' ''r'' demo_nonce ''/'' demo_response)) ''r'' ''u'' ''p'' = 1"
  by (rule nonce_accepted_for_years [OF demo_request(1) demo_nonce_def _ _ _ _ demo_request(2)])
    (use demo_request(3) in \<open>simp_all add: plain_value_def\<close>)

end
