(* ===== verification/Replies.thy ===== *)
theory Replies
  imports Tcp
begin

text \<open>
  The replies of the servers: how \<open>rtsp_create_reply\<close> and \<open>http_create_reply\<close> start one, and that
  the functions of \<open>pmsg.c\<close> keep it a message that \<open>tcp_send_pmsg\<close> can format.
\<close>

section \<open>Starting a reply\<close>

definition start_reply :: "nat \<Rightarrow> string \<Rightarrow> int \<Rightarrow> string \<Rightarrow> pmsg option" where
  "start_reply n proto code reason =
     (case add_pmsg_string ((new_pmsg n)\<lparr>pm_type := PMSG_RESP\<rparr>) proto of
        None \<Rightarrow> None
      | Some (r, p) \<Rightarrow>
          map_option (\<lambda>(r, p). r\<lparr>pm_reason := p\<rparr>) (add_pmsg_string (r\<lparr>pm_proto := p, pm_code := code\<rparr>) reason))"

section \<open>Replies that can be sent\<close>

definition reply_ok :: "pmsg \<Rightarrow> bool" where
  "reply_ok r \<longleftrightarrow> wf_reply r \<and> max_len r = 512 \<and> 0 \<le> pm_code r \<and> pm_code r < 10 ^ 4"

lemma add_string_reply:
  assumes "wf_reply r" "add_pmsg_string r s = Some (r', p)" "NUL \<notin> set s"
  shows "wf_reply r'" "string_start r' p" "p \<notin> set (pm_proto r' # pm_reason r' # field_starts r')"
    "pm_fields r' = pm_fields r" "max_len r' = max_len r" "pm_code r' = pm_code r"
proof -
  have wf: "wf_pmsg r" using assms(1) by (simp add: wf_reply_def)
  note spec = add_pmsg_string_spec [OF wf assms(2,3)]
  have same: "pm_proto r' = pm_proto r" "pm_reason r' = pm_reason r" "pm_code r' = pm_code r"
    using assms(2) by (auto simp: add_pmsg_string_def Let_def split: if_splits)
  have starts: "field_starts r' = field_starts r" by (simp add: field_starts_def spec(4))
  show "wf_reply r'" using assms(1) spec(6,8) by (simp add: wf_reply_def same starts)
  show "string_start r' p" by (rule spec(7))
  have "q < p" if "string_start r q" for q using that spec(1) by (simp add: string_start_def)
  then show "p \<notin> set (pm_proto r' # pm_reason r' # field_starts r')"
    using assms(1) by (auto simp: wf_reply_def wf_pmsg_def same starts)
  show "pm_fields r' = pm_fields r" "max_len r' = max_len r" "pm_code r' = pm_code r" using spec same by simp_all
qed

lemma add_field_reply:
  assumes "wf_reply r" "string_start r n" "string_start r v" "n \<noteq> v" "length (pm_fields r) < MAX_FIELDS"
    "n \<notin> set (pm_proto r # pm_reason r # field_starts r)" "v \<notin> set (pm_proto r # pm_reason r # field_starts r)"
  shows "wf_reply (r\<lparr>pm_fields := pm_fields r @ [(n, v)]\<rparr>)"
proof -
  have "wf_pmsg (r\<lparr>pm_fields := pm_fields r @ [(n, v)]\<rparr>)" using assms by (intro wf_pmsg_snoc) (auto simp: wf_reply_def)
  with assms show ?thesis by (auto simp: wf_reply_def field_starts_def string_start_def)
qed

lemma add_header_reply:
  assumes "reply_ok r" "NUL \<notin> set name" "NUL \<notin> set val"
  shows "reply_ok (fst (add_header r name val))"
proof (cases "length (pm_fields r) = MAX_FIELDS")
  case True
  with assms show ?thesis by (simp add: add_header_def)
next
  case room: False
  have wf: "wf_reply r" using assms(1) by (simp add: reply_ok_def)
  show ?thesis
  proof (cases "add_pmsg_string r name")
    case None
    with room assms show ?thesis by (simp add: add_header_def)
  next
    case (Some a)
    then obtain r1 n where 1: "add_pmsg_string r name = Some (r1, n)" by (cases a) auto
    note s1 = add_string_reply [OF wf 1 assms(2)]
    have ok1: "reply_ok r1" using assms(1) s1 by (simp add: reply_ok_def)
    show ?thesis
    proof (cases "add_pmsg_string r1 val")
      case None
      with room 1 ok1 show ?thesis by (simp add: add_header_def)
    next
      case (Some b)
      then obtain r2 v where 2: "add_pmsg_string r1 val = Some (r2, v)" by (cases b) auto
      note s2 = add_string_reply [OF s1(1) 2 assms(3)]
      have wf1: "wf_pmsg r1" using s1(1) by (simp add: wf_reply_def)
      note spec = add_pmsg_string_spec [OF wf1 2 assms(3)]
      have same: "pm_proto r2 = pm_proto r1" "pm_reason r2 = pm_reason r1" "field_starts r2 = field_starts r1"
        using 2 by (auto simp: add_pmsg_string_def Let_def field_starts_def split: if_splits)
      have "n \<noteq> v" using s1(2) spec(1) by (auto simp: string_start_def)
      moreover have "length (pm_fields r2) < MAX_FIELDS"
        using room wf by (auto simp: s1(4) s2(4) wf_reply_def wf_pmsg_def)
      ultimately have "wf_reply (r2\<lparr>pm_fields := pm_fields r2 @ [(n, v)]\<rparr>)"
        using s1(3) s2(3) spec(6) [OF s1(2)] s2(2) by (intro add_field_reply [OF s2(1)]) (simp_all add: same)
      then show ?thesis using room 1 2 assms(1) s1(5,6) s2(5,6) by (simp add: add_header_def reply_ok_def)
    qed
  qed
qed

lemma formatted_reply:
  assumes "reply_ok r" "NUL \<notin> set s"
  shows "reply_ok (r\<lparr>pm_msg := vsnprintf_at (pm_msg r) (pm_len r) s\<rparr>)"
proof -
  let ?r = "r\<lparr>pm_msg := vsnprintf_at (pm_msg r) (pm_len r) s\<rparr>"
  have le: "pm_len r \<le> max_len r" using assms(1) by (simp add: reply_ok_def wf_reply_def wf_pmsg_def)
  have nth: "pm_msg ?r ! i = pm_msg r ! i" if "i < pm_len r" for i
    using that le by (simp add: vsnprintf_at_def nth_blit_before)
  have start: "string_start ?r p = string_start r p" for p
    using nth [of "p - 1"] by (cases p) (simp_all add: string_start_def, metis Suc_lessD)
  have "max_len ?r = max_len r" using le by (auto simp: vsnprintf_at_def blit_def)
  then show ?thesis
    using assms(1) nth [of "pm_len r - 1"] by (auto simp: reply_ok_def wf_reply_def wf_pmsg_def start field_starts_def)
qed

lemma add_header_printf_reply:
  assumes "reply_ok r" "NUL \<notin> set name" "NUL \<notin> set s"
  shows "reply_ok (fst (add_header_printf r name s))"
proof -
  let ?r1 = "r\<lparr>pm_msg := vsnprintf_at (pm_msg r) (pm_len r) s\<rparr>"
  show ?thesis
  proof (cases "length (pm_fields r) = MAX_FIELDS \<or> max_len ?r1 \<le> pm_len r + length s")
    case True
    then have "fst (add_header_printf r name s) = ?r1" by (auto simp: add_header_printf_def Let_def)
    then show ?thesis using formatted_reply [OF assms(1,3)] by simp
  next
    case False
    have wf: "wf_reply r" using assms(1) by (simp add: reply_ok_def)
    have l1: "max_len ?r1 = max_len r" using formatted_reply [OF assms(1,3)] assms(1) by (simp add: reply_ok_def)
    let ?r2 = "?r1\<lparr>pm_len := pm_len r + length s + 1\<rparr>"
    have fit: "pm_len r + length s < max_len r" using False l1 by simp
    have 2: "add_pmsg_string r s = Some (?r2, pm_len r)"
      using fit by (simp add: add_pmsg_string_def vsnprintf_at_def Let_def)
    note s2 = add_string_reply [OF wf 2 assms(3)]
    show ?thesis
    proof (cases "add_pmsg_string ?r2 name")
      case None
      with False show ?thesis using s2 assms(1) by (simp add: add_header_printf_def Let_def reply_ok_def)
    next
      case (Some b)
      then obtain r3 n where 3: "add_pmsg_string ?r2 name = Some (r3, n)" by (cases b) auto
      note s3 = add_string_reply [OF s2(1) 3 assms(2)]
      have wf2: "wf_pmsg ?r2" using s2(1) by (simp add: wf_reply_def)
      note spec = add_pmsg_string_spec [OF wf2 3 assms(2)]
      have same: "pm_proto r3 = pm_proto ?r2" "pm_reason r3 = pm_reason ?r2" "field_starts r3 = field_starts ?r2"
        using 3 by (auto simp: add_pmsg_string_def Let_def field_starts_def split: if_splits)
      have "n \<noteq> pm_len r" using spec(1) by simp
      moreover have "length (pm_fields r3) < MAX_FIELDS"
        using False wf by (auto simp: s3(4) wf_reply_def wf_pmsg_def)
      ultimately have "wf_reply (r3\<lparr>pm_fields := pm_fields r3 @ [(n, pm_len r)]\<rparr>)"
        using s3(2,3) s2(3) spec(6) [OF s2(2)] by (intro add_field_reply [OF s3(1)]) (simp_all add: same)
      then show ?thesis
        using False 3 assms(1) s3(5,6) s2(5,6) by (simp add: add_header_printf_def Let_def reply_ok_def)
    qed
  qed
qed

lemma copy_fields_reply: "reply_ok r \<Longrightarrow> reply_ok (fst (copy_fields r m name fs k))"
  by (induction r m name fs k rule: copy_fields.induct) (simp_all add: add_header_reply cstr_no_nul)

lemma start_reply_ok:
  assumes "NUL \<notin> set proto" "length proto \<le> 10" "NUL \<notin> set reason" "length reason \<le> 100" "0 \<le> code" "code < 10 ^ 4"
  shows "\<exists>r. start_reply 512 proto code reason = Some r \<and> reply_ok r"
proof -
  let ?r0 = "(new_pmsg 512)\<lparr>pm_type := PMSG_RESP\<rparr>"
  have wf0: "wf_pmsg ?r0" by (simp add: wf_pmsg_def new_pmsg_def field_starts_def)
  obtain r1 p1 where 1: "add_pmsg_string ?r0 proto = Some (r1, p1)"
    using assms(2) by (simp add: add_pmsg_string_def new_pmsg_def Let_def)
  note s1 = add_pmsg_string_spec [OF wf0 1 assms(1)]
  let ?r1 = "r1\<lparr>pm_proto := p1, pm_code := code\<rparr>"
  have wf1: "wf_pmsg ?r1" using s1(8) by (simp add: wf_pmsg_def field_starts_def string_start_def)
  have len: "pm_len ?r1 = length proto + 1" "max_len ?r1 = 512" "pm_fields ?r1 = []"
    using s1(2-4) by (simp_all add: new_pmsg_def)
  obtain r2 p2 where 2: "add_pmsg_string ?r1 reason = Some (r2, p2)"
    using len assms(2,4) by (simp add: add_pmsg_string_def Let_def)
  note s2 = add_pmsg_string_spec [OF wf1 2 assms(3)]
  have r2: "pm_proto r2 = p1" "pm_code r2 = code" using 2 by (auto simp: add_pmsg_string_def Let_def split: if_splits)
  have p: "p1 = 0" "p2 = length proto + 1" using s1(1) s2(1) len by (simp_all add: new_pmsg_def)
  have st: "string_start r2 p1" using s2(6) [of p1] s1(7) by (simp add: string_start_def)
  have f: "pm_fields r2 = []" using s2(4) len by simp
  have "reply_ok (r2\<lparr>pm_reason := p2\<rparr>)"
    using s2(3,7,8) st len(2) r2 p f assms(5,6) by (simp add: reply_ok_def wf_reply_def wf_pmsg_def field_starts_def string_start_def)
  then show ?thesis using 1 2 by (simp add: start_reply_def)
qed

end
