(* ===== verification/Rtsp.thy ===== *)
theory Rtsp
  imports Sessions Http_Auth Replies
begin

text \<open>
  \<open>rtsp.c\<close>: the RTSP requests. What a request needs from the sessions is a record of function
  pointers, as \<open>struct session\<close> and \<open>struct rtsp_location\<close> hold them. The messages in the log are
  left out.
\<close>

section \<open>Environment\<close>

text \<open>
  What a request gets from outside: the time, the random numbers, the sockets (whether
  the pair that was bound can be connected, the local address), the address of the client.
\<close>

record rtsp_env =
  re_now :: int
  re_secret :: "byte list"
  re_nonce :: "byte list"
  re_id :: "byte list"
  re_endpoint :: random_values
  re_kernel :: kernel
  re_range :: rtp_range
  re_port :: nat
  re_connects :: bool
  re_local :: string
  re_addr :: string

text \<open>\<open>random_id\<close> of \<open>spook.c\<close>.\<close>

definition random_id :: "byte list \<Rightarrow> string" where
  "random_id rnd = concat (map hex2_upper rnd)"

section \<open>Locations\<close>

definition get_local_path :: "string \<Rightarrow> string option" where
  "get_local_path path =
     (if \<not> strn_ieq 7 path ''rtsp://'' then None
      else let c = dropWhile (\<lambda>x. x \<noteq> CHR ''/'') (drop 7 path) in Some (if c = [] then ''/'' else c))"

definition node_matches :: "string \<Rightarrow> nat \<Rightarrow> string \<Rightarrow> bool" where
  "node_matches path len p \<longleftrightarrow>
     strn_eq (if length p < len then len else length p) path p \<and>
     (if len < length p then p ! len = CHR ''/'' else len = length p)"

definition node_find_location :: "location list \<Rightarrow> string \<Rightarrow> nat \<Rightarrow> location option" where
  "node_find_location locs path len = find (\<lambda>l. node_matches path len (loc_path l)) locs"

text \<open>
  The track of a path that ends in \<open>/track\<close> and a number, and the length of the rest.
\<close>

definition path_track :: "string \<Rightarrow> int \<times> nat" where
  "path_track path =
     (case strrchr path CHR ''/'' of
        None \<Rightarrow> (-1, length path)
      | Some i \<Rightarrow>
          (let c = drop i path in
           if \<not> strn_eq 6 c ''/track'' then (-1, length path)
           else let (t, n) = strtol10 (drop 6 c)
                in (int_of_long t, if n = length (drop 6 c) then length path - length c else length path)))"

text \<open>
  The result is the location, the base path, copied into an array of 256 bytes when the
  caller has one, and the track.
\<close>

definition find_rtsp_location :: "location list \<Rightarrow> string \<Rightarrow> bool \<Rightarrow> bool \<Rightarrow> (location option \<times> string \<times> int) cres" where
  "find_rtsp_location locs uri want_base want_track =
     (case get_local_path uri of
        None \<Rightarrow> Inr (None, [], -1)
      | Some path \<Rightarrow>
          (let (track, len) = (if want_track then path_track path else (-1, length path));
               len = (if 1 < len \<and> path ! (len - 1) = CHR ''/'' then len - 1 else len)
           in if want_base \<and> 256 \<le> len then Inl Fault
              else Inr (node_find_location locs path len, take len path, track)))"

section \<open>Replies\<close>

definition rtsp_create_reply :: "pmsg \<Rightarrow> int \<Rightarrow> string \<Rightarrow> pmsg cres" where
  "rtsp_create_reply m code reason =
     (case start_reply 512 ''RTSP/1.0'' code reason of
        None \<Rightarrow> Inl Fault | Some r \<Rightarrow> Inr (fst (copy_headers r m ''CSeq'')))"

definition send_reply :: "world \<Rightarrow> nat \<Rightarrow> pmsg \<Rightarrow> int \<Rightarrow> (world \<times> bool) cres" where
  "send_reply w c r len =
     bindE (deref (conns w) c) (\<lambda>C.
     bindE (tcp_send_pmsg C r len) (\<lambda>(C', ok). Inr (w\<lparr>conns := (conns w)(c := Some C')\<rparr>, ok)))"

definition rtsp_send_error :: "world \<Rightarrow> nat \<Rightarrow> pmsg \<Rightarrow> int \<Rightarrow> string \<Rightarrow> world cres" where
  "rtsp_send_error w c m code reason =
     bindE (rtsp_create_reply m code reason) (\<lambda>r.
     bindE (send_reply w c r (-1)) (\<lambda>(w', _). Inr w'))"

definition request_uri :: "pmsg \<Rightarrow> string" where "request_uri m = cstr (pm_msg m) (pm_uri m)"
definition request_method :: "pmsg \<Rightarrow> string" where "request_method m = cstr (pm_msg m) (pm_method m)"

definition rtsp_verify_auth :: "rtsp_env \<Rightarrow> world \<Rightarrow> nat \<Rightarrow> pmsg \<Rightarrow> location \<Rightarrow> (world \<times> bool) cres" where
  "rtsp_verify_auth env w c m loc =
     (let ret = check_digest_response (digest_secret w) (re_now env) m (loc_realm loc) (loc_username loc) (loc_password loc)
      in if 0 < ret then Inr (w, True)
         else bindE (rtsp_create_reply m 401 ''Unauthorized'') (\<lambda>r.
              let sec = (case digest_secret w of None \<Rightarrow> random_id (re_secret env) | Some s \<Rightarrow> s);
                  r = fst (add_digest_challenge sec (word_of_int (re_now env)) (re_nonce env) r (loc_realm loc) (ret = 0))
              in bindE (send_reply (w\<lparr>digest_secret := Some sec\<rparr>) c r (-1)) (\<lambda>(w', _). Inr (w', False))))"

text \<open>The guard that the requests with a location share: a realm demands authentication.\<close>

definition authorised :: "rtsp_env \<Rightarrow> world \<Rightarrow> nat \<Rightarrow> pmsg \<Rightarrow> location \<Rightarrow> (world \<times> bool) cres" where
  "authorised env w c m loc = (if loc_realm loc = [] then Inr (w, True) else rtsp_verify_auth env w c m loc)"

section \<open>Transports\<close>

text \<open>The value of a parameter \<open>name=number\<close> of the Transport header.\<close>

definition number_after :: "string \<Rightarrow> nat \<Rightarrow> int option" where
  "number_after t p =
     (if drop (p + 11) t = [] \<or> t ! (p + 11) \<noteq> CHR ''='' then None
      else let (v, n) = strtol10 (drop (p + 12) t) in if n = 0 then None else Some (int_of_long v))"

definition rtsp_udp_setup :: "rtsp_env \<Rightarrow> world \<Rightarrow> nat \<Rightarrow> string \<Rightarrow> pmsg \<Rightarrow> world \<times> pmsg \<times> bool" where
  "rtsp_udp_setup env w e t r =
     (case Option.bind (strstr t ''client_port'') (number_after t) of
        None \<Rightarrow> (w, r, False)
      | Some cport \<Rightarrow>
          (case connect_udp_ports (re_kernel env) (re_range env) (re_port env) of
             Inl _ \<Rightarrow> (w, r, False)
           | Inr port \<Rightarrow>
               if \<not> re_connects env then (w, r, False)
               else
               (upd_endpoint e (\<lambda>E. connect_udp_endpoint E (re_local env) port) w,
                fst (add_header r ''Transport''
                  (''RTP/AVP;unicast;client_port='' @ dec_int cport @ ''-'' @ dec_int (cport + 1) @
                   '';server_port='' @ dec_int port @ ''-'' @ dec_int (port + 1))), True)))"

text \<open>The channels of a connection; none before the first interleaved setup.\<close>

definition channels :: "world \<Rightarrow> nat \<Rightarrow> (nat option \<times> bool) list option cres" where
  "channels w c =
     (case proto_state w c of No_State \<Rightarrow> Inr None | Rtsp_State ch \<Rightarrow> Inr (Some ch) | Http_State _ \<Rightarrow> Inl Fault)"

definition free_channels :: "(nat option \<times> bool) list \<Rightarrow> nat option" where
  "free_channels ch = find (\<lambda>i. even i \<and> fst (ch ! i) = None \<and> fst (ch ! (i + 1)) = None) [0..<MAX_INTERLEAVE_CHANNELS]"

definition choose_channels :: "(nat option \<times> bool) list option \<Rightarrow> string \<Rightarrow> nat option" where
  "choose_channels rc t =
     (case strstr t ''interleaved'' of
        Some p \<Rightarrow>
          (case number_after t p of
             None \<Rightarrow> None
           | Some n \<Rightarrow>
               if n < 0 \<or> int MAX_INTERLEAVE_CHANNELS \<le> n + 1 then None
               else case rc of
                 None \<Rightarrow> Some (nat n)
               | Some ch \<Rightarrow>
                   if fst (ch ! nat n) \<noteq> None \<or> fst (ch ! (nat n + 1)) \<noteq> None then None else Some (nat n))
      | None \<Rightarrow> (case rc of None \<Rightarrow> Some 0 | Some ch \<Rightarrow> free_channels ch))"

definition rtsp_interleave_setup :: "world \<Rightarrow> nat \<Rightarrow> nat \<Rightarrow> string \<Rightarrow> pmsg \<Rightarrow> (world \<times> pmsg \<times> bool) cres" where
  "rtsp_interleave_setup w e c t r =
     bindE (channels w c) (\<lambda>rc.
       case choose_channels rc t of
         None \<Rightarrow> Inr (w, r, False)
       | Some n \<Rightarrow>
           (let ch = (case rc of None \<Rightarrow> replicate MAX_INTERLEAVE_CHANNELS (None, False) | Some ch \<Rightarrow> ch);
                ch = ch[n := (Some e, False), n + 1 := (Some e, True)]
            in Inr (upd_endpoint e (\<lambda>E. connect_interleaved_endpoint E c n (n + 1))
                      (w\<lparr>proto_state := (proto_state w)(c := Rtsp_State ch)\<rparr>),
                    fst (add_header r ''Transport''
                      (''RTP/AVP/TCP;unicast;interleaved='' @ dec_nat n @ ''-'' @ dec_nat (n + 1))), True)))"

section \<open>Requests\<close>

definition handle_OPTIONS :: "world \<Rightarrow> nat \<Rightarrow> pmsg \<Rightarrow> world cres" where
  "handle_OPTIONS w c m =
     bindE (rtsp_create_reply m 200 ''OK'') (\<lambda>r.
     bindE (send_reply w c (fst (add_header r ''Public'' ''DESCRIBE, SETUP, TEARDOWN, PLAY, PAUSE'')) (-1)) (\<lambda>(w', _).
       Inr w'))"

text \<open>The session writes its description into an array here; the base URI goes through one of 512 bytes.\<close>

definition handle_DESCRIBE :: "provider \<Rightarrow> rtsp_env \<Rightarrow> world \<Rightarrow> nat \<Rightarrow> pmsg \<Rightarrow> world cres" where
  "handle_DESCRIBE P env w c m =
     bindE (find_rtsp_location (rtsp_loc_list w) (request_uri m) True False) (\<lambda>(loc, path, _).
       case loc of
         None \<Rightarrow> rtsp_send_error w c m 404 ''Not Found''
       | Some loc \<Rightarrow>
           (let (w1, s) = pr_open P w (loc_private loc) in
            bindE (authorised env w1 c m loc) (\<lambda>(w2, ok).
              if \<not> ok then pr_teardown P w2 s None
              else bindE (pr_get_sdp P w2 s) (\<lambda>sdp.
                bindE (case sdp of
                         None \<Rightarrow> rtsp_send_error w2 c m 404 ''SDP Not Found''
                       | Some sdp \<Rightarrow>
                           bindE (rtsp_create_reply m 200 ''OK'') (\<lambda>r.
                             if 512 < length (request_uri m) + 2 then Inl Fault
                             else let r = fst (add_header r ''Content-Base'' (request_uri m @ ''/''));
                                      r = fst (add_header r ''Content-Type'' ''application/sdp'')
                                  in bindE (send_reply w2 c r (int (length sdp))) (\<lambda>(w3, sent).
                                       if \<not> sent then Inr w3
                                       else bindE (deref (conns w3) c) (\<lambda>C.
                                         Inr (w3\<lparr>conns := (conns w3)(c := Some (fst (send_data C (bytes_of sdp))))\<rparr>)))))
                  (\<lambda>w4. pr_teardown P w4 s None)))))"

text \<open>\<open>new_session\<close> leaves \<open>set_sdp\<close> undefined, and no session that a location opens sets it.\<close>

definition handle_ANNOUNCE :: "provider \<Rightarrow> rtsp_env \<Rightarrow> world \<Rightarrow> nat \<Rightarrow> pmsg \<Rightarrow> world cres" where
  "handle_ANNOUNCE P env w c m =
     bindE (find_rtsp_location (rtsp_loc_list w) (request_uri m) True False) (\<lambda>(loc, path, _).
       case loc of
         None \<Rightarrow> rtsp_send_error w c m 404 ''Not Found''
       | Some loc \<Rightarrow>
           (let (w1, s) = pr_open P w (loc_private loc) in
            bindE (authorised env w1 c m loc) (\<lambda>(w2, ok). if \<not> ok then Inr w2 else Inl Fault)))"

definition transport_setup :: "rtsp_env \<Rightarrow> world \<Rightarrow> nat \<Rightarrow> nat \<Rightarrow> string \<Rightarrow> pmsg \<Rightarrow> (world \<times> pmsg \<times> bool) cres" where
  "transport_setup env w e c t r =
     (if strn_ieq 11 t ''RTP/AVP/TCP'' then rtsp_interleave_setup w e c t r
      else if (strn_ieq 7 t ''RTP/AVP'' \<and> (drop 7 t = [] \<or> t ! 7 \<noteq> CHR ''/'')) \<or> strn_ieq 11 t ''RTP/AVP/UDP''
      then Inr (rtsp_udp_setup env w e t r)
      else Inr (w, r, False))"

text \<open>What follows once the session is known; \<open>rs\<close> is the RTSP session when there is one already.\<close>

definition setup_track :: "provider \<Rightarrow> rtsp_env \<Rightarrow> world \<Rightarrow> nat \<Rightarrow> pmsg \<Rightarrow> string \<Rightarrow> nat \<Rightarrow> nat \<Rightarrow> nat option \<Rightarrow> world cres" where
  "setup_track P env w c m t s track rs =
     bindE (deref (sessions w) s) (\<lambda>S.
       if s_eps S ! track \<noteq> None then rtsp_send_error w c m 461 ''Unsupported Transport1''
       else bindE (get_param (Some t) ''mode'' 256) (\<lambda>(n, mode).
         let recv = (0 < n \<and> (case mode of None \<Rightarrow> False
                      | Some x \<Rightarrow> strn_ieq 7 x ''receive'' \<or> strn_ieq 6 x ''record''));
             w = (if recv then upd_session s (\<lambda>S. S\<lparr>s_record := True\<rparr>) w else w)
         in bindE (pr_setup P w (re_endpoint env) (re_now env) s track) (\<lambda>(w1, ok).
              if \<not> ok
              then bindE (rtsp_send_error w1 c m 404 ''Not Found'') (\<lambda>w2.
                     if rs = None then pr_teardown P w2 s None else Inr w2)
              else bindE (rtsp_create_reply m 200 ''OK'') (\<lambda>r.
                   bindE (deref (sessions w1) s) (\<lambda>S.
                     case s_eps S ! track of
                       None \<Rightarrow> Inl Fault
                     | Some e \<Rightarrow>
                         bindE (deref (endpoints w1) e) (\<lambda>_.
                         bindE (transport_setup env w1 e c t r) (\<lambda>(w2, r, ok).
                           if \<not> ok
                           then bindE (rtsp_send_error w2 c m 461 ''Unsupported Transport'') (\<lambda>w3. pr_teardown P w3 s (Some e))
                           else bindE (case rs of
                                         Some rs \<Rightarrow> Inr (w2, rs)
                                       | None \<Rightarrow> new_rtsp_session w2 s (random_id (re_id env))) (\<lambda>(w3, rs).
                                bindE (deref (rs_tab w3) rs) (\<lambda>R.
                                bindE (send_reply w3 c (fst (add_header r ''Session'' (rs_id R))) (-1)) (\<lambda>(w4, _).
                                  Inr w4))))))))))"

definition handle_SETUP :: "provider \<Rightarrow> rtsp_env \<Rightarrow> world \<Rightarrow> nat \<Rightarrow> pmsg \<Rightarrow> world cres" where
  "handle_SETUP P env w c m =
     bindE (find_rtsp_location (rtsp_loc_list w) (request_uri m) True True) (\<lambda>(loc, path, track).
       case loc of
         None \<Rightarrow> rtsp_send_error w c m 404 ''Not Found''
       | Some loc \<Rightarrow>
           if track < 0 \<or> int MAX_TRACKS \<le> track then rtsp_send_error w c m 404 ''Not Found''
           else bindE (authorised env w c m loc) (\<lambda>(w1, ok).
             if \<not> ok then Inr w1
             else case get_header m ''Transport'' of
               None \<Rightarrow> rtsp_send_error w1 c m 461 ''Unspecified Transport''
             | Some t \<Rightarrow>
                 (case get_header m ''Session'' of
                    None \<Rightarrow>
                      (let (w2, s) = pr_open P w1 (loc_private loc)
                       in setup_track P env (upd_session s (\<lambda>S. S\<lparr>s_addr := ''IP4 '' @ re_addr env\<rparr>) w2)
                            c m t s (nat track) None)
                  | Some sh \<Rightarrow>
                      (case get_session w1 (Some sh) of
                         None \<Rightarrow> rtsp_send_error w1 c m 454 ''Session Not Found''
                       | Some rs \<Rightarrow>
                           bindE (deref (rs_tab w1) rs) (\<lambda>R. setup_track P env w1 c m t (rs_sess R) (nat track) (Some rs))))))"

text \<open>
  \<open>sscanf( range, "npt=%lf-", &start ) == 1\<close>: white space and a sign may precede the number,
  which begins with a digit, with a point and a digit, or is infinite or not a number.
\<close>

definition scans_npt :: "string \<Rightarrow> bool" where
  "scans_npt rng \<longleftrightarrow> take 4 rng = ''npt='' \<and>
     (let r = dropWhile is_space (drop 4 rng);
          r = (if r \<noteq> [] \<and> (hd r = CHR ''-'' \<or> hd r = CHR ''+'') then tl r else r)
      in case r of
           [] \<Rightarrow> False
         | x # y \<Rightarrow> is_digit x \<or> (x = CHR ''.'' \<and> y \<noteq> [] \<and> is_digit (hd y)) \<or> strn_ieq 3 r ''inf'' \<or> strn_ieq 3 r ''nan'')"

text \<open>The RTP-Info header, as long as it fits the 512 bytes; an empty text adds none.\<close>

fun rtp_info :: "world \<Rightarrow> string \<Rightarrow> nat \<Rightarrow> nat option list \<Rightarrow> string \<Rightarrow> string option cres" where
  "rtp_info w uri i [] acc = Inr (Some acc)"
| "rtp_info w uri i (None # es) acc = rtp_info w uri (i + 1) es acc"
| "rtp_info w uri i (Some e # es) acc =
     bindE (deref (endpoints w) e) (\<lambda>E.
       let x = ''url='' @ uri @ ''/track'' @ dec_nat i @ '';seq='' @ dec_int (seqnum E) @ '';rtptime='' @
               dec_nat (unat (last_timestamp E)) @ '',''
       in if 512 - length acc \<le> length x then Inr None else rtp_info w uri (i + 1) es (acc @ x))"

definition handle_PLAY :: "provider \<Rightarrow> world \<Rightarrow> nat \<Rightarrow> pmsg \<Rightarrow> world cres" where
  "handle_PLAY P w c m =
     (case get_session w (get_header m ''Session'') of
        None \<Rightarrow> rtsp_send_error w c m 454 ''Session Not Found''
      | Some rs \<Rightarrow>
          bindE (deref (rs_tab w) rs) (\<lambda>R.
            let have_start = (case get_header m ''Range'' of None \<Rightarrow> False | Some rng \<Rightarrow> scans_npt rng) in
            bindE (pr_play P w (rs_sess R) have_start) (\<lambda>(w1, start).
            bindE (rtsp_create_reply m 200 ''OK'') (\<lambda>r.
            let r = fst (add_header r ''Session'' (rs_id R)) in
            bindE (case start of
                     None \<Rightarrow> Inr r
                   | Some x \<Rightarrow>
                       if x < 0 then Inr r
                       else bindE (deref (sessions w1) (rs_sess R)) (\<lambda>S.
                            bindE (rtp_info w1 (request_uri m) 0 (s_eps S) []) (\<lambda>info.
                              let r = fst (add_header r ''Range'' (''npt='' @ dec_int x @ ''.0000-'')) in
                              Inr (case info of
                                     None \<Rightarrow> r
                                   | Some i \<Rightarrow> if i = [] then r else fst (add_header r ''RTP-Info'' (butlast i))))))
              (\<lambda>r. bindE (send_reply w1 c r (-1)) (\<lambda>(w2, _). Inr w2))))))"

definition handle_PAUSE :: "provider \<Rightarrow> world \<Rightarrow> nat \<Rightarrow> pmsg \<Rightarrow> world cres" where
  "handle_PAUSE P w c m =
     (case get_session w (get_header m ''Session'') of
        None \<Rightarrow> rtsp_send_error w c m 454 ''Session Not Found''
      | Some rs \<Rightarrow>
          bindE (deref (rs_tab w) rs) (\<lambda>R.
            case pr_pause P of
              None \<Rightarrow> rtsp_send_error w c m 501 ''Not Implemented''
            | Some pause \<Rightarrow>
                bindE (rtsp_create_reply m 200 ''OK'') (\<lambda>r.
                bindE (send_reply (pause w (rs_sess R)) c (fst (add_header r ''Session'' (rs_id R))) (-1)) (\<lambda>(w2, _).
                  Inr w2))))"

definition handle_TEARDOWN :: "provider \<Rightarrow> world \<Rightarrow> nat \<Rightarrow> pmsg \<Rightarrow> world cres" where
  "handle_TEARDOWN P w c m =
     bindE (find_rtsp_location (rtsp_loc_list w) (request_uri m) False True) (\<lambda>(loc, path, track).
       if loc = None \<or> int MAX_TRACKS \<le> track then rtsp_send_error w c m 404 ''Not Found''
       else case get_session w (get_header m ''Session'') of
         None \<Rightarrow> rtsp_send_error w c m 454 ''Session Not Found''
       | Some rs \<Rightarrow>
           bindE (deref (rs_tab w) rs) (\<lambda>R.
           bindE (rtsp_create_reply m 200 ''OK'') (\<lambda>r.
           let r = fst (add_header r ''Session'' (rs_id R)) in
           bindE (deref (sessions w) (rs_sess R)) (\<lambda>S.
           bindE (pr_teardown P w (rs_sess R) (if track < 0 then None else s_eps S ! nat track)) (\<lambda>w1.
           bindE (send_reply w1 c r (-1)) (\<lambda>(w2, _). Inr w2))))))"

definition rtsp_handle_unknown :: "world \<Rightarrow> nat \<Rightarrow> pmsg \<Rightarrow> world cres" where
  "rtsp_handle_unknown w c m = rtsp_send_error w c m 501 ''Not Implemented''"

definition rtsp_handle_msg :: "provider \<Rightarrow> rtsp_env \<Rightarrow> world \<Rightarrow> nat \<Rightarrow> pmsg \<Rightarrow> world cres" where
  "rtsp_handle_msg P env w c m =
     (if str_ieq (request_method m) ''OPTIONS'' then handle_OPTIONS w c m
      else if str_ieq (request_method m) ''ANNOUNCE'' then handle_ANNOUNCE P env w c m
      else if str_ieq (request_method m) ''DESCRIBE'' then handle_DESCRIBE P env w c m
      else if str_ieq (request_method m) ''SETUP'' then handle_SETUP P env w c m
      else if str_ieq (request_method m) ''PLAY'' then handle_PLAY P w c m
      else if str_ieq (request_method m) ''PAUSE'' then handle_PAUSE P w c m
      else if str_ieq (request_method m) ''TEARDOWN'' then handle_TEARDOWN P w c m
      else rtsp_handle_unknown w c m)"

section \<open>Interleaved data and the end of a connection\<close>

text \<open>A frame with the \<open>$\<close> sign: \<open>rc\<close> is used without a test. No endpoint has a recorder.\<close>

definition interleave_recv :: "world \<Rightarrow> nat \<Rightarrow> nat \<Rightarrow> int \<Rightarrow> world cres" where
  "interleave_recv w c chan now =
     (if MAX_INTERLEAVE_CHANNELS \<le> chan then Inr w
      else bindE (channels w c) (\<lambda>rc.
        case rc of
          None \<Rightarrow> Inl Fault
        | Some ch \<Rightarrow>
            (case ch ! chan of
               (None, _) \<Rightarrow> Inr w
             | (Some e, rtcp) \<Rightarrow>
                 bindE (deref (endpoints w) e) (\<lambda>_.
                   Inr (if rtcp then upd_endpoint e (\<lambda>E. interleave_recv_rtcp E now) w else w)))))"

fun disconnect_channels :: "provider \<Rightarrow> world \<Rightarrow> nat \<Rightarrow> nat list \<Rightarrow> world cres" where
  "disconnect_channels P w c [] = Inr w"
| "disconnect_channels P w c (i # is) =
     bindE (channels w c) (\<lambda>rc.
       case rc of
         None \<Rightarrow> Inl Fault
       | Some ch \<Rightarrow>
           (case ch ! i of
              (Some e, False) \<Rightarrow>
                bindE (deref (endpoints w) e) (\<lambda>E.
                bindE (pr_teardown P w (ep_session E) (Some e)) (\<lambda>w'. disconnect_channels P w' c is))
            | _ \<Rightarrow> disconnect_channels P w c is))"

definition rtsp_conn_disconnect :: "provider \<Rightarrow> world \<Rightarrow> nat \<Rightarrow> world cres" where
  "rtsp_conn_disconnect P w c =
     bindE (disconnect_channels P w c [0..<MAX_INTERLEAVE_CHANNELS]) (\<lambda>w'.
       Inr (w'\<lparr>proto_state := (proto_state w')(c := No_State)\<rparr>))"

end
