(* ===== verification/Rtsp_Proofs.thy ===== *)
theory Rtsp_Proofs
  imports Rtsp
begin

text \<open>
  The RTSP requests on any sessions that keep the contract: no request faults, apart from the
  ways out that are named, and all keep the state well-formed.
\<close>

section \<open>Replies\<close>

lemma create_reply:
  assumes "NUL \<notin> set reason" "length reason \<le> 100" "0 \<le> code" "code < 10 ^ 4"
  shows "\<exists>r. rtsp_create_reply m code reason = Inr r \<and> reply_ok r"
proof -
  have "NUL \<notin> set ''RTSP/1.0''" "length ''RTSP/1.0'' \<le> 10" by simp_all
  from start_reply_ok [OF this assms] obtain r where r: "start_reply 512 ''RTSP/1.0'' code reason = Some r" "reply_ok r" by blast
  then have "reply_ok (fst (copy_headers r m ''CSeq''))" unfolding copy_headers_def by (intro copy_fields_reply)
  with r(1) show ?thesis by (simp add: rtsp_create_reply_def)
qed

section \<open>Steps that keep the links\<close>

lemma send_data_proto [simp]: "c_proto (fst (send_data C d)) = c_proto C"
proof -
  have "c_proto (put_bytes C d) = c_proto C" by (induction d arbitrary: C) (simp_all add: put_byte_def)
  then show ?thesis by (simp add: send_data_def)
qed

lemma links_ok_conn:
  assumes ok: "links_ok w" and c: "conns w c = Some C" "c_proto C' = c_proto C"
  shows "links_ok (w\<lparr>conns := (conns w)(c := Some C')\<rparr>)"
proof -
  let ?w = "w\<lparr>conns := (conns w)(c := Some C')\<rparr>"
  have oks: "inter_ok w" "conns_ok w" "fresh_ok w" using ok by (simp_all add: links_ok_def)
  have none: "conns ?w c' = None \<longleftrightarrow> conns w c' = None" for c' using c(1) by simp
  have "inter_ok ?w" by (rule inter_ok_cong [OF oks(1) _ none]) simp_all
  moreover have "conns_ok ?w"
  proof -
    have "(\<exists>D. conns ?w c' = Some D \<and> c_proto D = CONN_PROTO_RTSP) \<longleftrightarrow>
        (\<exists>D. conns w c' = Some D \<and> c_proto D = CONN_PROTO_RTSP)" for c' using c by simp
    with oks(2) none show ?thesis unfolding conns_ok_def by simp
  qed
  moreover have "fresh_ok ?w" using oks(3) none unfolding fresh_ok_def by simp
  moreover have "slots_ok ?w" "owners_ok ?w" "channels_ok ?w" "rtsp_ok ?w" "entries_ok ?w"
    by (rule links_ok_parts [OF ok]; simp)+
  ultimately show ?thesis by (simp add: links_ok_def)
qed

lemma send_reply_ok:
  assumes "reply_ok r" "len < 10 ^ 10" "conns w c = Some C"
  shows "\<exists>C' sent. send_reply w c r len = Inr (w\<lparr>conns := (conns w)(c := Some C')\<rparr>, sent) \<and> c_proto C' = c_proto C"
proof -
  have "tcp_send_pmsg C r len \<noteq> Inl Fault"
    by (rule tcp_send_pmsg_no_overflow) (use assms(1,2) in \<open>simp_all add: reply_ok_def\<close>)
  then obtain C' sent where t: "tcp_send_pmsg C r len = Inr (C', sent)" "c_proto C' = c_proto C"
    by (auto simp: tcp_send_pmsg_def Let_def split: if_splits)
  then show ?thesis using assms(3) by (intro exI [of _ C'] exI [of _ sent]) (simp add: send_reply_def)
qed

text \<open>A connection that the RTSP code may use.\<close>

definition ready :: "world \<Rightarrow> nat \<Rightarrow> bool" where
  "ready w c \<longleftrightarrow> (\<exists>C. conns w c = Some C \<and> c_proto C = CONN_PROTO_RTSP) \<and> (\<forall>h. proto_state w c \<noteq> Http_State h)"

lemma ready_cong: "conns w' = conns w \<Longrightarrow> proto_state w' = proto_state w \<Longrightarrow> ready w' c = ready w c"
  by (simp add: ready_def)

lemma ready_torn: "torn_down s w w' \<Longrightarrow> ready w c \<Longrightarrow> ready w' c"
  unfolding ready_def torn_down_def ps_le_def by (metis proto_state.distinct(5))

lemma ready_conn: "ready w c \<Longrightarrow> conns w c = Some C \<Longrightarrow> c_proto C' = c_proto C \<Longrightarrow>
    ready (w\<lparr>conns := (conns w)(c := Some C')\<rparr>) c"
  by (simp add: ready_def)

text \<open>The fields of a session that only the server uses.\<close>

lemma upd_session_links:
  assumes ok: "links_ok w" and f: "\<And>S. s_eps (f S) = s_eps S \<and> s_entry (f S) = s_entry S \<and> s_control (f S) = s_control S"
  shows "links_ok (upd_session s f w)"
proof -
  let ?w = "upd_session s f w"
  have oks: "slots_ok w" "owners_ok w" "channels_ok w" "inter_ok w" "rtsp_ok w" "entries_ok w" "conns_ok w" "fresh_ok w"
    using ok by (simp_all add: links_ok_def)
  have sess: "\<exists>S. sessions w s' = Some S \<and> s_eps S' = s_eps S" if "sessions ?w s' = Some S'" for s' S'
    using that f by (auto split: if_splits)
  have sess': "\<exists>S'. sessions ?w s' = Some S' \<and> s_eps S' = s_eps S" if "sessions w s' = Some S" for s' S
    using that f by auto
  have "slots_ok ?w"
    unfolding slots_ok_def
  proof (intro allI impI, elim conjE)
    fix s' S' i e assume a: "sessions ?w s' = Some S'" "i < length (s_eps S')" "s_eps S' ! i = Some e"
    from sess [OF a(1)] obtain S where "sessions w s' = Some S" "s_eps S' = s_eps S" by blast
    with oks(1) a(2,3) show "(\<exists>E. endpoints ?w e = Some E \<and> ep_session E = s') \<and>
        (\<forall>j < length (s_eps S'). s_eps S' ! j = Some e \<longrightarrow> j = i)" unfolding slots_ok_def by simp
  qed
  moreover have "owners_ok ?w"
    unfolding owners_ok_def
  proof (intro allI impI)
    fix e E assume "endpoints ?w e = Some E"
    with oks(2) obtain S where S: "sessions w (ep_session E) = Some S" "Some e \<in> set (s_eps S)"
      unfolding owners_ok_def by auto
    from sess' [OF S(1)] S(2) show "\<exists>S. sessions ?w (ep_session E) = Some S \<and> Some e \<in> set (s_eps S)" by metis
  qed
  moreover have "channels_ok ?w" using oks(3) by (simp add: channels_ok_def)
  moreover have "inter_ok ?w" by (rule inter_ok_cong [OF oks(4)]) simp_all
  moreover have "rtsp_ok ?w"
    by (rule rtsp_ok_cong [OF oks(5)]) (use f in \<open>simp_all add: option.map_comp comp_def\<close>)
  moreover have "entries_ok ?w"
    by (rule entries_ok_cong [OF oks(6)]) (use f sess in \<open>auto simp: option.map_comp comp_def split: if_splits\<close>)
  moreover have "conns_ok ?w" using oks(7) by (simp add: conns_ok_def)
  moreover have "fresh_ok ?w" using oks(8) by (simp add: fresh_ok_def)
  ultimately show ?thesis by (simp add: links_ok_def)
qed

lemma upd_session_view:
  assumes "\<And>S. live_fields (f S) = live_fields S"
  shows "same_view w (upd_session s f w)"
  using assms by (simp add: same_view_def option.map_comp comp_def)

lemma new_rtsp_session_ok:
  assumes ok: "links_ok w" and s: "sessions w s = Some S" "s_control S = None"
  shows "\<exists>w' r. new_rtsp_session w s i = Inr (w', r) \<and> links_ok w' \<and> same_view w w' \<and>
    rs_tab w' r = Some \<lparr>rs_id = i, rs_sess = s\<rparr> \<and> conns w' = conns w \<and> proto_state w' = proto_state w"
proof -
  let ?r = "fresh w"
  let ?w = "upd_session s (\<lambda>S. S\<lparr>s_control := Some ?r\<rparr>)
              (w\<lparr>rs_tab := (rs_tab w)(?r := Some \<lparr>rs_id = i, rs_sess = s\<rparr>), rs_list := ?r # rs_list w, fresh := ?r + 1\<rparr>)"
  have oks: "slots_ok w" "owners_ok w" "channels_ok w" "inter_ok w" "rtsp_ok w" "entries_ok w" "conns_ok w" "fresh_ok w"
    using ok by (simp_all add: links_ok_def)
  note new = fresh_okD [OF oks(8)]
  have run: "new_rtsp_session w s i = Inr (?w, ?r)" using s by (simp add: new_rtsp_session_def Let_def)
  have sess: "sessions ?w = (sessions w)(s := Some (S\<lparr>s_control := Some ?r\<rparr>))" using s by simp
  have "slots_ok ?w" using oks(1) s unfolding slots_ok_def sess by (auto split: if_splits)
  moreover have "owners_ok ?w"
    unfolding owners_ok_def sess
  proof (intro allI impI)
    fix e E assume "endpoints ?w e = Some E"
    with oks(2) obtain S' where S': "sessions w (ep_session E) = Some S'" "Some e \<in> set (s_eps S')"
      unfolding owners_ok_def by auto
    then show "\<exists>S'. ((sessions w)(s := Some (S\<lparr>s_control := Some ?r\<rparr>))) (ep_session E) = Some S' \<and> Some e \<in> set (s_eps S')"
      using s by (cases "ep_session E = s") auto
  qed
  moreover have "channels_ok ?w" using oks(3) by (simp add: channels_ok_def)
  moreover have "inter_ok ?w" by (rule inter_ok_cong [OF oks(4)]) simp_all
  moreover have "rtsp_ok ?w"
  proof -
    have nin: "?r \<notin> set (rs_list w)" using oks(5) new(4) unfolding rtsp_ok_def by simp
    have c: "map_option s_control (((sessions w)(s := Some (S\<lparr>s_control := Some ?r\<rparr>))) s') =
        (if s' = s then Some (Some ?r) else map_option s_control (sessions w s'))" for s' by simp
    have l: "rs_list ?w = ?r # rs_list w" "rs_tab ?w = (rs_tab w)(?r := Some \<lparr>rs_id = i, rs_sess = s\<rparr>)" by simp_all
    have not_r: "map_option s_control (sessions w s') \<noteq> Some (Some ?r)" for s'
      using oks(5) new(4) unfolding rtsp_ok_def by (metis option.distinct(1))
    show ?thesis
      unfolding rtsp_ok_def sess c l
    proof (intro conjI allI impI)
      show "distinct (?r # rs_list w)" using nin oks(5) by (simp add: rtsp_ok_def)
      show "r \<in> set (?r # rs_list w) \<longleftrightarrow> ((rs_tab w)(?r := Some \<lparr>rs_id = i, rs_sess = s\<rparr>)) r \<noteq> None" for r
        using oks(5) unfolding rtsp_ok_def by simp
      show "(if rs_sess R = s then Some (Some ?r) else map_option s_control (sessions w (rs_sess R))) = Some (Some r)"
        if "((rs_tab w)(?r := Some \<lparr>rs_id = i, rs_sess = s\<rparr>)) r = Some R" for r R
      proof (cases "r = ?r")
        case True
        with that show ?thesis by auto
      next
        case False
        with that have "map_option s_control (sessions w (rs_sess R)) = Some (Some r)"
          using oks(5) unfolding rtsp_ok_def by simp
        with s show ?thesis by auto
      qed
      show "\<exists>R. ((rs_tab w)(?r := Some \<lparr>rs_id = i, rs_sess = s\<rparr>)) r = Some R \<and> rs_sess R = s'"
        if "(if s' = s then Some (Some ?r) else map_option s_control (sessions w s')) = Some (Some r)" for s' r
      proof (cases "s' = s")
        case True
        with that show ?thesis by simp
      next
        case False
        with that have m: "map_option s_control (sessions w s') = Some (Some r)" by simp
        with oks(5) obtain R where "rs_tab w r = Some R" "rs_sess R = s'" unfolding rtsp_ok_def by blast
        moreover have "r \<noteq> ?r" using m not_r by auto
        ultimately show ?thesis by simp
      qed
    qed
  qed
  moreover have "entries_ok ?w" by (rule entries_ok_cong [OF oks(6)]) (use s in \<open>auto simp: sess split: if_splits\<close>)
  moreover have "conns_ok ?w" using oks(7) by (simp add: conns_ok_def)
  moreover have "fresh_ok ?w" using oks(8) new(1) s unfolding fresh_ok_def sess by (auto split: if_splits)
  ultimately have "links_ok ?w" by (simp add: links_ok_def)
  moreover have "same_view w ?w" using s by (simp add: same_view_def live_fields_def)
  ultimately show ?thesis using run by (intro exI [of _ ?w] exI [of _ ?r]) simp
qed

section \<open>Connecting an endpoint\<close>

lemma upd_endpoint_parts:
  assumes ok: "links_ok w" and e: "endpoints w e = Some E" and f: "ep_session (f E) = ep_session E"
    and w': "endpoints w' = (endpoints w)(e := Some (f E))" "sessions w' = sessions w" "conns w' = conns w"
      "conn_list w' = conn_list w" "rs_tab w' = rs_tab w" "rs_list w' = rs_list w" "entries w' = entries w" "fresh w' = fresh w"
  shows "slots_ok w'" "owners_ok w'" "rtsp_ok w'" "entries_ok w'" "fresh_ok w'"
proof -
  have oks: "slots_ok w" "owners_ok w" "rtsp_ok w" "entries_ok w" "fresh_ok w"
    using ok by (simp_all add: links_ok_def)
  have m: "map_option ep_session (endpoints w' e') = map_option ep_session (endpoints w e')" for e'
    using e f by (simp add: w')
  show "slots_ok w'"
    unfolding slots_ok_def w'(2)
  proof (intro allI impI, elim conjE)
    fix s S i e' assume a: "sessions w s = Some S" "i < length (s_eps S)" "s_eps S ! i = Some e'"
    with oks(1) have "map_option ep_session (endpoints w e') = Some s"
      "\<forall>j < length (s_eps S). s_eps S ! j = Some e' \<longrightarrow> j = i" unfolding slots_ok_def by fastforce+
    with m [of e'] show "(\<exists>E. endpoints w' e' = Some E \<and> ep_session E = s) \<and>
        (\<forall>j < length (s_eps S). s_eps S ! j = Some e' \<longrightarrow> j = i)" by auto
  qed
  show "owners_ok w'"
    unfolding owners_ok_def w'(2)
  proof (intro allI impI)
    fix e' E' assume "endpoints w' e' = Some E'"
    with m [of e'] obtain E0 where "endpoints w e' = Some E0" "ep_session E0 = ep_session E'"
      by (cases "endpoints w e'") auto
    with oks(2) show "\<exists>S. sessions w (ep_session E') = Some S \<and> Some e' \<in> set (s_eps S)"
      unfolding owners_ok_def by metis
  qed
  show "rtsp_ok w'" using oks(3) unfolding rtsp_ok_def w' .
  show "entries_ok w'" using oks(4) unfolding entries_ok_def w' .
  show "fresh_ok w'" using oks(5) e unfolding fresh_ok_def w' by auto
qed

lemma udp_connect_links:
  assumes ok: "links_ok w" and e: "endpoints w e = Some E" "ep_trans E = No_Trans"
    and f: "ep_session (f E) = ep_session E" "\<And>c r q. ep_trans (f E) \<noteq> Inter c r q"
  shows "links_ok (upd_endpoint e f w)"
proof -
  let ?w = "upd_endpoint e f w"
  have oks: "channels_ok w" "inter_ok w" "conns_ok w" using ok by (simp_all add: links_ok_def)
  have eps: "endpoints ?w = (endpoints w)(e := Some (f E))" using e by simp
  note parts = upd_endpoint_parts [where w' = ?w and f = f, OF ok e(1) f(1) eps, simplified]
  have "channels_ok ?w"
    unfolding channels_ok_def
  proof (intro allI impI, elim conjE)
    fix c ch k e' b assume "proto_state ?w c = Rtsp_State ch" "k < length ch" "ch ! k = (Some e', b)"
    with oks(1) obtain E' r q where E': "endpoints w e' = Some E'" "ep_trans E' = Inter c r q" "k = (if b then q else r)"
      unfolding channels_ok_def by (metis world.ext_inject world.surjective world.update_convs(4))
    with e have "e' \<noteq> e" by auto
    with E' show "\<exists>E' r q. endpoints ?w e' = Some E' \<and> ep_trans E' = Inter c r q \<and> k = (if b then q else r)" by simp
  qed
  moreover have "inter_ok ?w"
    unfolding inter_ok_def
  proof (intro allI impI, elim conjE)
    fix e' E' c r q assume a: "endpoints ?w e' = Some E'" "ep_trans E' = Inter c r q"
    with f(2) e have "endpoints w e' = Some E'" by (auto split: if_splits)
    with oks(2) a(2) show "conns ?w c \<noteq> None \<and> r \<noteq> q \<and> (\<exists>ch. proto_state ?w c = Rtsp_State ch \<and> r < length ch \<and>
        q < length ch \<and> ch ! r = (Some e', False) \<and> ch ! q = (Some e', True))"
      unfolding inter_ok_def by simp
  qed
  moreover have "conns_ok ?w" using oks(3) by (simp add: conns_ok_def)
  ultimately show ?thesis using parts by (simp add: links_ok_def)
qed

lemma choose_channels_free:
  assumes "choose_channels rc t = Some n"
  shows "n + 1 < MAX_INTERLEAVE_CHANNELS" "rc = Some ch \<Longrightarrow> fst (ch ! n) = None \<and> fst (ch ! (n + 1)) = None"
proof -
  have *: "n + 1 < MAX_INTERLEAVE_CHANNELS \<and> (\<forall>ch. rc = Some ch \<longrightarrow> fst (ch ! n) = None \<and> fst (ch ! (n + 1)) = None)"
  proof (cases "strstr t ''interleaved''")
    case (Some p)
    with assms obtain k where k: "number_after t p = Some k" "0 \<le> k" "k + 1 < int MAX_INTERLEAVE_CHANNELS" "n = nat k"
      by (auto simp: choose_channels_def split: option.splits if_splits)
    have "fst (ch ! n) = None \<and> fst (ch ! (n + 1)) = None" if "rc = Some ch" for ch
      using assms Some k that by (auto simp: choose_channels_def split: if_splits)
    with k show ?thesis by auto
  next
    case None
    show ?thesis
    proof (cases rc)
      case None
      then show ?thesis using assms \<open>strstr t _ = None\<close> by (simp add: choose_channels_def MAX_INTERLEAVE_CHANNELS_def)
    next
      case (Some ch)
      then have "free_channels ch = Some n" using assms None by (simp add: choose_channels_def)
      then have f: "n < MAX_INTERLEAVE_CHANNELS" "even n" "fst (ch ! n) = None" "fst (ch ! (n + 1)) = None"
        unfolding free_channels_def by (auto simp: find_Some_iff)
      then have "n \<noteq> 7" by auto
      with f(1) have "n + 1 < MAX_INTERLEAVE_CHANNELS" by (simp add: MAX_INTERLEAVE_CHANNELS_def)
      with f Some show ?thesis by simp
    qed
  qed
  show "n + 1 < MAX_INTERLEAVE_CHANNELS" "rc = Some ch \<Longrightarrow> fst (ch ! n) = None \<and> fst (ch ! (n + 1)) = None"
    using * by blast+
qed

lemma channels_ready:
  assumes "ready w c" "links_ok w"
  obtains rc where "channels w c = Inr rc" "\<And>ch. rc = Some ch \<longleftrightarrow> proto_state w c = Rtsp_State ch"
    "\<And>ch. rc = Some ch \<Longrightarrow> length ch = MAX_INTERLEAVE_CHANNELS"
proof (cases "proto_state w c")
  case (Rtsp_State ch)
  then show ?thesis using assms(2) that [of "Some ch"] by (auto simp: channels_def links_ok_def conns_ok_def)
next
  case No_State
  then show ?thesis using that [of None] by (simp add: channels_def)
next
  case (Http_State h)
  with assms(1) show ?thesis by (simp add: ready_def)
qed

lemma interleave_connect_links:
  assumes ok: "links_ok w" and e: "endpoints w e = Some E" "ep_trans E = No_Trans" and rdy: "ready w c"
    and old: "ch0 = (case proto_state w c of Rtsp_State ch \<Rightarrow> ch | _ \<Rightarrow> replicate MAX_INTERLEAVE_CHANNELS (None, False))"
    and n: "n + 1 < MAX_INTERLEAVE_CHANNELS" "fst (ch0 ! n) = None" "fst (ch0 ! (n + 1)) = None"
  defines "w' \<equiv> upd_endpoint e (\<lambda>E. connect_interleaved_endpoint E c n (n + 1))
      (w\<lparr>proto_state := (proto_state w)(c := Rtsp_State (ch0[n := (Some e, False), n + 1 := (Some e, True)]))\<rparr>)"
  shows "links_ok w'"
proof -
  let ?E = "connect_interleaved_endpoint E c n (n + 1)" and ?ch = "ch0[n := (Some e, False), n + 1 := (Some e, True)]"
  have oks: "channels_ok w" "inter_ok w" "conns_ok w" using ok by (simp_all add: links_ok_def)
  have len: "length ch0 = MAX_INTERLEAVE_CHANNELS"
    using oks(3) unfolding old by (auto simp: conns_ok_def split: proto_state.split)
  have E': "ep_session ?E = ep_session E" "ep_trans ?E = Inter c n (n + 1)" by (simp_all add: connect_interleaved_endpoint_def)
  have eps: "endpoints w' = (endpoints w)(e := Some ?E)" using e by (simp add: w'_def)
  have ps: "proto_state w' = (proto_state w)(c := Rtsp_State ?ch)" by (simp add: w'_def)
  have cs: "conns w' = conns w" by (simp add: w'_def)
  note parts = upd_endpoint_parts [where w' = w' and f = "\<lambda>E. connect_interleaved_endpoint E c n (n + 1)", OF ok e(1) E'(1) eps]
  have old_ch: "\<exists>ch. proto_state w c = Rtsp_State ch \<and> k < length ch \<and> ch ! k = ch0 ! k"
    if "fst (ch0 ! k) \<noteq> None" "k < MAX_INTERLEAVE_CHANNELS" for k
    using that len unfolding old by (auto split: proto_state.splits)
  have ne: "e' \<noteq> e" if "endpoints w e' = Some E'" "ep_trans E' = Inter x y z" for e' E' x y z using that e by auto
  have "channels_ok w'"
    unfolding channels_ok_def
  proof (intro allI impI, elim conjE)
    fix c' ch k e' b assume a: "proto_state w' c' = Rtsp_State ch" "k < length ch" "ch ! k = (Some e', b)"
    show "\<exists>E' r q. endpoints w' e' = Some E' \<and> ep_trans E' = Inter c' r q \<and> k = (if b then q else r)"
    proof (cases "c' = c \<and> (k = n \<or> k = n + 1)")
      case True
      with a len n(1) have "e' = e" "b = (k = n + 1)" by (auto simp: ps nth_list_update split: if_splits)
      with True E'(2) show ?thesis by (auto simp: eps)
    next
      case False
      have "\<exists>ch. proto_state w c' = Rtsp_State ch \<and> k < length ch \<and> ch ! k = (Some e', b)"
      proof (cases "c' = c")
        case True
        with False a len have "ch0 ! k = (Some e', b)" "k < MAX_INTERLEAVE_CHANNELS"
          by (auto simp: ps nth_list_update split: if_splits)
        with old_ch [of k] True show ?thesis by auto
      next
        case False
        with a show ?thesis by (auto simp: ps)
      qed
      with oks(1) obtain E' r q where "endpoints w e' = Some E'" "ep_trans E' = Inter c' r q" "k = (if b then q else r)"
        unfolding channels_ok_def by blast
      with ne [of e' E'] show ?thesis by (auto simp: eps)
    qed
  qed
  moreover have "inter_ok w'"
    unfolding inter_ok_def
  proof (intro allI impI, elim conjE)
    fix e' E1 c' r q assume a: "endpoints w' e' = Some E1" "ep_trans E1 = Inter c' r q"
    show "conns w' c' \<noteq> None \<and> r \<noteq> q \<and> (\<exists>ch. proto_state w' c' = Rtsp_State ch \<and> r < length ch \<and> q < length ch \<and>
        ch ! r = (Some e', False) \<and> ch ! q = (Some e', True))"
    proof (cases "e' = e")
      case True
      with a E'(2) have "c' = c" "r = n" "q = n + 1" by (auto simp: eps)
      with True rdy len n(1) show ?thesis by (auto simp: ps cs ready_def)
    next
      case False
      with a have "endpoints w e' = Some E1" by (simp add: eps)
      from inter_okD [OF oks(2) this a(2)] obtain C ch where c': "conns w c' = Some C" "r \<noteq> q"
        "proto_state w c' = Rtsp_State ch" "r < length ch" "q < length ch" "ch ! r = (Some e', False)" "ch ! q = (Some e', True)" .
      show ?thesis
      proof (cases "c' = c")
        case False
        with c' show ?thesis by (simp add: ps cs)
      next
        case True
        with c'(3) have "ch = ch0" by (simp add: old)
        with c' n(2,3) have "r \<notin> {n, n + 1}" "q \<notin> {n, n + 1}" by auto
        with True c' \<open>ch = ch0\<close> show ?thesis by (simp add: ps cs)
      qed
    qed
  qed
  moreover have "conns_ok w'"
    using oks(3) rdy len unfolding conns_ok_def ps cs by (auto simp: ready_def w'_def split: if_splits)
  ultimately show ?thesis using parts by (simp add: links_ok_def w'_def)
qed

section \<open>Requests\<close>

text \<open>Talking to a client changes only the send buffers, and the secret of the digests.\<close>

definition talked :: "world \<Rightarrow> world \<Rightarrow> bool" where
  "talked w w' \<longleftrightarrow> sessions w' = sessions w \<and> endpoints w' = endpoints w \<and> rs_tab w' = rs_tab w \<and>
     rs_list w' = rs_list w \<and> proto_state w' = proto_state w \<and> entries w' = entries w \<and> tracks w' = tracks w \<and>
     streams_of w' = streams_of w"

lemma talked_view: "talked w w' \<Longrightarrow> same_view w w'"
  by (simp add: talked_def same_view_def)

lemma talked_trans: "talked w w1 \<Longrightarrow> talked w1 w2 \<Longrightarrow> talked w w2"
  by (simp add: talked_def)

text \<open>The request returns, and the connection can be used for the next.\<close>

definition done_ok :: "(world \<Rightarrow> bool) \<Rightarrow> nat \<Rightarrow> world cres \<Rightarrow> bool" where
  "done_ok Q c r \<longleftrightarrow> (\<exists>w'. r = Inr w' \<and> Q w' \<and> ready w' c)"

lemma done_okI: "r = Inr w' \<Longrightarrow> Q w' \<Longrightarrow> ready w' c \<Longrightarrow> done_ok Q c r"
  by (simp add: done_ok_def)

definition locs_ok :: "world \<Rightarrow> bool" where
  "locs_ok w \<longleftrightarrow> (\<forall>l\<in>set (rtsp_loc_list w). NUL \<notin> set (loc_realm l))"

lemma dec_int_no_nul: "NUL \<notin> set (dec_int i)"
proof -
  have "NUL \<notin> set (dec_nat n)" for n using dec_nat_digits [of n] by (auto simp: is_digit_def)
  then show ?thesis by (simp add: dec_int_def)
qed

lemma dec_nat_no_nul: "NUL \<notin> set (dec_nat n)"
  using dec_nat_digits [of n] by (auto simp: is_digit_def)

lemma get_param_total: "v \<noteq> [] \<Longrightarrow> \<exists>n x. get_param (Some v) tag sz = Inr (n, x)"
proof -
  have nonempty: "drop k x \<noteq> []" if "strchr x CHR '';'' = Some k" for x k
    using that by (induction x arbitrary: k) (auto split: if_splits)
  have "v \<noteq> [] \<Longrightarrow> \<exists>n x. get_param_scan v tag sz = Inr (n, x)"
  proof (induction v rule: length_induct)
    case (1 v)
    then obtain a c1 where c: "v = a # c1" by (cases v) auto
    have ih: "\<exists>n x. get_param_scan (drop k y) tag sz = Inr (n, x)"
      if "strchr y CHR '';'' = Some k" "length y \<le> length c1" for y k
    proof -
      have "length (drop k y) < length v" using that(2) by (simp add: c)
      then show ?thesis using 1(1) nonempty [OF that(1)] by blast
    qed
    show ?case
      using ih [of c1] ih [of "drop (length tag) c1"]
      by (subst get_param_scan.simps) (auto simp: c Let_def simp del: drop_drop split: option.split)
  qed
  then show "v \<noteq> [] \<Longrightarrow> \<exists>n x. get_param (Some v) tag sz = Inr (n, x)" by (simp add: get_param_def)
qed

lemma get_session_found:
  assumes "get_session w (Some i) = Some r"
  shows "r \<in> set (rs_list w) \<and> (\<exists>R. rs_tab w r = Some R \<and> rs_id R = i)"
  using assms by (auto simp: get_session_def find_Some_iff split: option.splits)

lemma random_id_no_nul: "NUL \<notin> set (random_id rnd)"
proof -
  have "list_all (\<lambda>n. hex_digit_upper n \<noteq> NUL) [0..<16]" by code_simp
  then have d: "hex_digit_upper n \<noteq> NUL" if "n < 16" for n using that by (simp add: list_all_iff)
  have "unat (b :: byte) div 16 < 16" "unat b mod 16 < 16" for b using unat_byte_less [of b] by simp_all
  then have "NUL \<noteq> hex_digit_upper (unat (b :: byte) div 16)" "NUL \<noteq> hex_digit_upper (unat b mod 16)" for b
    using d by metis+
  then show ?thesis by (auto simp: random_id_def hex2_upper_def)
qed

lemma get_header_no_nul: "get_header m name = Some v \<Longrightarrow> NUL \<notin> set v"
  by (auto simp: get_header_def cstr_no_nul)

lemma find_location_mem: "node_find_location locs path len \<noteq> None \<longrightarrow> the (node_find_location locs path len) \<in> set locs"
proof (cases "node_find_location locs path len")
  case (Some l)
  then have "l \<in> set locs" unfolding node_find_location_def by (metis find_Some_iff nth_mem)
  with Some show ?thesis by simp
qed simp

lemma find_location_base:
  assumes "length uri < 256"
  shows "\<exists>loc path track. find_rtsp_location locs uri b t = Inr (loc, path, track) \<and> (loc \<noteq> None \<longrightarrow> the loc \<in> set locs)"
proof (cases "get_local_path uri")
  case None
  then show ?thesis by (simp add: find_rtsp_location_def)
next
  case (Some path)
  let ?c = "dropWhile (\<lambda>x. x \<noteq> CHR ''/'') (drop 7 uri)"
  have "length ?c \<le> length (drop 7 uri)" by (rule length_dropWhile_le)
  then have "length ?c < 256" using assms by simp
  moreover have "path = ''/'' \<or> path = ?c" using Some by (simp add: get_local_path_def Let_def split: if_splits)
  ultimately have "length path < 256" by (elim disjE) simp_all
  moreover obtain tr len where tl: "(if t then path_track path else (-1, length path)) = (tr, len)" by fastforce
  moreover have "len \<le> length path" using tl by (auto simp: path_track_def Let_def split: if_splits option.splits prod.splits)
  moreover define l where "l = (if 1 < len \<and> path ! (len - 1) = CHR ''/'' then len - 1 else len)"
  ultimately have "\<not> 256 \<le> l" by auto
  then have "find_rtsp_location locs uri b t = Inr (node_find_location locs path l, take l path, tr)"
    by (simp add: find_rtsp_location_def Some tl Let_def l_def)
  with find_location_mem show ?thesis by blast
qed

text \<open>The description of every location can be had.\<close>

definition describes :: "provider \<Rightarrow> world \<Rightarrow> bool" where
  "describes P w \<longleftrightarrow> (\<forall>l\<in>set (rtsp_loc_list w). \<forall>w1 s w2. pr_open P w (loc_private l) = (w1, s) \<and> talked w1 w2 \<longrightarrow>
     (\<exists>x. pr_get_sdp P w2 s = Inr x \<and> (\<forall>t. x = Some t \<longrightarrow> length t < 10 ^ 9)))"

definition has_start :: "pmsg \<Rightarrow> bool" where
  "has_start m = (case get_header m ''Range'' of None \<Rightarrow> False | Some rng \<Rightarrow> scans_npt rng)"

definition plays_ok :: "world \<Rightarrow> pmsg \<Rightarrow> bool" where
  "plays_ok w m \<longleftrightarrow> (\<forall>r R S. get_session w (get_header m ''Session'') = Some r \<and> rs_tab w r = Some R \<and>
     sessions w (rs_sess R) = Some S \<longrightarrow> may_play w S (has_start m))"

lemma rtp_info_ok:
  "\<forall>e. Some e \<in> set es \<longrightarrow> endpoints w e \<noteq> None \<Longrightarrow> NUL \<notin> set uri \<Longrightarrow> NUL \<notin> set acc \<Longrightarrow>
     \<exists>x. rtp_info w uri i es acc = Inr x \<and> (\<forall>t. x = Some t \<longrightarrow> NUL \<notin> set t)"
proof (induction w uri i es acc rule: rtp_info.induct)
  case (3 w uri i e es acc)
  from 3(2) obtain E where E: "endpoints w e = Some E" by fastforce
  let ?x = "''url='' @ uri @ ''/track'' @ dec_nat i @ '';seq='' @ dec_int (seqnum E) @ '';rtptime='' @
               dec_nat (unat (last_timestamp E)) @ '',''"
  have dE: "deref (endpoints w) e = Inr E" using E by (simp add: deref_def)
  have nul: "NUL \<notin> set (acc @ ?x)" using 3(3,4) by (simp add: dec_nat_no_nul dec_int_no_nul)
  have es: "\<forall>e. Some e \<in> set es \<longrightarrow> endpoints w e \<noteq> None" using 3(2) by simp
  have ih: "\<exists>x. rtp_info w uri (i + 1) es (acc @ ?x) = Inr x \<and> (\<forall>t. x = Some t \<longrightarrow> NUL \<notin> set t)"
    if "\<not> 512 - length acc \<le> length ?x" by (rule 3(1) [OF dE refl that es 3(3) nul])
  show ?case
  proof (cases "512 - length acc \<le> length ?x")
    case True
    then show ?thesis unfolding rtp_info.simps Let_def dE by simp
  next
    case False
    have "rtp_info w uri i (Some e # es) acc = rtp_info w uri (i + 1) es (acc @ ?x)"
      using False unfolding rtp_info.simps Let_def dE by simp
    with ih [OF False] show ?thesis by simp
  qed
qed simp_all

context session_provider
begin

lemma send_ok:
  assumes "inv w" "ready w c" "reply_ok r" "len < 10 ^ 10"
  shows "\<exists>w' sent. send_reply w c r len = Inr (w', sent) \<and> inv w' \<and> ready w' c \<and> talked w w'"
proof -
  obtain C where C: "conns w c = Some C" using assms(2) by (auto simp: ready_def)
  from send_reply_ok [OF assms(3,4) C] obtain C' sent where s:
    "send_reply w c r len = Inr (w\<lparr>conns := (conns w)(c := Some C')\<rparr>, sent)" "c_proto C' = c_proto C" by blast
  let ?w = "w\<lparr>conns := (conns w)(c := Some C')\<rparr>"
  have t: "talked w ?w" by (simp add: talked_def)
  have "inv ?w" by (rule inv_view [OF assms(1) links_ok_conn [OF inv_links [OF assms(1)] C s(2)] talked_view [OF t]])
  with s(1) t ready_conn [OF assms(2) C s(2)] show ?thesis by blast
qed

lemma error_ok:
  assumes "inv w" "ready w c" "NUL \<notin> set reason" "length reason \<le> 100" "0 \<le> code" "code < 10 ^ 4"
  shows "\<exists>w'. rtsp_send_error w c m code reason = Inr w' \<and> inv w' \<and> ready w' c \<and> talked w w'"
proof -
  from create_reply [OF assms(3-6), of m] obtain r where r: "rtsp_create_reply m code reason = Inr r" "reply_ok r" by blast
  from send_ok [OF assms(1,2) r(2), of "-1"] r(1) show ?thesis by (auto simp: rtsp_send_error_def)
qed

lemma error_done:
  assumes "inv w" "ready w c" "NUL \<notin> set reason" "length reason \<le> 100" "0 \<le> code" "code < 10 ^ 4"
  shows "done_ok inv c (rtsp_send_error w c m code reason)"
  using error_ok [OF assms, of m] by (auto simp: done_ok_def)

lemma reply_done:
  assumes "inv w" "ready w c" "reply_ok r" "len < 10 ^ 10"
  shows "done_ok inv c (bindE (send_reply w c r len) (\<lambda>(w', _). Inr w'))"
  using send_ok [OF assms] by (auto simp: done_ok_def)

lemma create_ok: "\<exists>r. rtsp_create_reply m 200 ''OK'' = Inr r \<and> reply_ok r"
  by (rule create_reply) simp_all

lemma auth_ok:
  assumes "inv w" "ready w c" "NUL \<notin> set (loc_realm loc)"
  shows "\<exists>w' ok. authorised env w c m loc = Inr (w', ok) \<and> inv w' \<and> ready w' c \<and> talked w w'"
proof (cases "loc_realm loc = [] \<or>
    0 < check_digest_response (digest_secret w) (re_now env) m (loc_realm loc) (loc_username loc) (loc_password loc)")
  case True
  then show ?thesis using assms(1,2) by (auto simp: authorised_def rtsp_verify_auth_def Let_def talked_def)
next
  case False
  let ?ret = "check_digest_response (digest_secret w) (re_now env) m (loc_realm loc) (loc_username loc) (loc_password loc)"
  let ?sec = "case digest_secret w of None \<Rightarrow> random_id (re_secret env) | Some s \<Rightarrow> s"
  have "NUL \<notin> set ''Unauthorized''" by simp
  from create_reply [OF this, of 401 m] obtain r where r: "rtsp_create_reply m 401 ''Unauthorized'' = Inr r" "reply_ok r" by auto
  let ?r = "fst (add_digest_challenge ?sec (word_of_int (re_now env)) (re_nonce env) r (loc_realm loc) (?ret = 0))"
  have "NUL \<notin> set (create_nonce sec now rnd)" for sec now rnd
    unfolding create_nonce_def Let_def set_append Un_iff using hex_text_chars(2) hash_chars(2) by blast
  then have r2: "reply_ok ?r"
    unfolding add_digest_challenge_def by (intro add_header_printf_reply r(2)) (use assms(3) in auto)
  let ?w = "w\<lparr>digest_secret := Some ?sec\<rparr>"
  have t: "talked w ?w" by (simp add: talked_def)
  have i: "inv ?w" by (rule inv_view [OF assms(1) _ talked_view [OF t]]) (use inv_links [OF assms(1)] in simp)
  have "ready ?w c" using assms(2) by (simp add: ready_def)
  from send_ok [OF i this r2, of "-1"] obtain w' sent where s:
    "send_reply ?w c ?r (-1) = Inr (w', sent)" "inv w'" "ready w' c" "talked ?w w'" by auto
  have "authorised env w c m loc = Inr (w', False)"
    using False r(1) s(1) by (simp add: authorised_def rtsp_verify_auth_def Let_def)
  with s(2,3) talked_trans [OF t s(4)] show ?thesis by blast
qed

lemma options_ok: "inv w \<Longrightarrow> ready w c \<Longrightarrow> done_ok inv c (handle_OPTIONS w c m)"
proof -
  assume a: "inv w" "ready w c"
  obtain r where r: "rtsp_create_reply m 200 ''OK'' = Inr r" "reply_ok r" using create_ok by blast
  have "reply_ok (fst (add_header r ''Public'' ''DESCRIBE, SETUP, TEARDOWN, PLAY, PAUSE''))"
    by (rule add_header_reply [OF r(2)]) simp_all
  from reply_done [OF a this, of "-1"] r(1) show ?thesis by (simp add: handle_OPTIONS_def)
qed

lemma teardown_done:
  assumes "inv w" "ready w c" "sessions w s = Some S"
  shows "done_ok inv c (pr_teardown P w s ep)"
proof -
  from teardown_ok [OF assms(1,3), of ep] obtain w' where "pr_teardown P w s ep = Inr w'" "inv w'" "torn_down s w w'" by blast
  then show ?thesis using ready_torn [OF _ assms(2)] by (auto simp: done_ok_def)
qed

lemma opened_ready: "opened w en w' s \<Longrightarrow> ready w c \<Longrightarrow> ready w' c"
  by (simp add: opened_def ready_def)

lemma send_body_ok:
  assumes "inv w" "ready w c"
  shows "\<exists>w'. bindE (deref (conns w) c) (\<lambda>C. Inr (w\<lparr>conns := (conns w)(c := Some (fst (send_data C d)))\<rparr>)) = Inr w' \<and>
    inv w' \<and> ready w' c \<and> talked w w'"
proof -
  obtain C where C: "conns w c = Some C" using assms(2) by (auto simp: ready_def)
  let ?w = "w\<lparr>conns := (conns w)(c := Some (fst (send_data C d)))\<rparr>"
  have p: "c_proto (fst (send_data C d)) = c_proto C" by simp
  have t: "talked w ?w" by (simp add: talked_def)
  have "inv ?w" by (rule inv_view [OF assms(1) links_ok_conn [OF inv_links [OF assms(1)] C p] talked_view [OF t]])
  with C t ready_conn [OF assms(2) C p] show ?thesis by (intro exI [of _ ?w]) simp
qed

lemma describe_ok:
  assumes "inv w" "ready w c" "locs_ok w" "length (request_uri m) < 256" "describes P w"
  shows "done_ok inv c (handle_DESCRIBE P env w c m)"
proof -
  from find_location_base [OF assms(4)] obtain loc path track where
    f: "find_rtsp_location (rtsp_loc_list w) (request_uri m) True False = Inr (loc, path, track)"
      "loc \<noteq> None \<longrightarrow> the loc \<in> set (rtsp_loc_list w)" by blast
  show ?thesis
  proof (cases loc)
    case None
    then show ?thesis using error_done [OF assms(1,2), of "''Not Found''" 404 m] f(1) by (simp add: handle_DESCRIBE_def)
  next
    case (Some l)
    with f(2) assms(3) have l: "NUL \<notin> set (loc_realm l)" by (auto simp: locs_ok_def)
    obtain w1 s where o: "pr_open P w (loc_private l) = (w1, s)" by fastforce
    from open_ok [OF assms(1) o] have i1: "inv w1" and op: "opened w (loc_private l) w1 s" by simp_all
    from auth_ok [OF i1 opened_ready [OF op assms(2)] l, of env m] obtain w2 ok where
      a: "authorised env w1 c m l = Inr (w2, ok)" "inv w2" "ready w2 c" "talked w1 w2" by blast
    have s1: "sessions w1 s = Some (blank_session (loc_private l))" using op by (simp add: opened_def)
    have sess: "sessions w' s = Some (blank_session (loc_private l))" if "talked w2 w'" for w'
      using that a(4) s1 by (simp add: talked_def)
    show ?thesis
    proof (cases ok)
      case False
      have "talked w2 w2" by (simp add: talked_def)
      from teardown_done [OF a(2,3) sess [OF this]] a(1) o f(1) Some False show ?thesis by (simp add: handle_DESCRIBE_def)
    next
      case True
      have "l \<in> set (rtsp_loc_list w)" using f(2) Some by simp
      with assms(5) o a(4) obtain x where x: "pr_get_sdp P w2 s = Inr x" "\<forall>t. x = Some t \<longrightarrow> length t < 10 ^ 9"
        unfolding describes_def by blast
      let ?k = "\<lambda>w4. pr_teardown P w4 s None"
      have body: "\<exists>w4. (case x of
          None \<Rightarrow> rtsp_send_error w2 c m 404 ''SDP Not Found''
        | Some sdp \<Rightarrow> bindE (rtsp_create_reply m 200 ''OK'') (\<lambda>r.
            if 512 < length (request_uri m) + 2 then Inl Fault
            else let r = fst (add_header r ''Content-Base'' (request_uri m @ ''/''));
                     r = fst (add_header r ''Content-Type'' ''application/sdp'')
                 in bindE (send_reply w2 c r (int (length sdp))) (\<lambda>(w3, sent).
                      if \<not> sent then Inr w3
                      else bindE (deref (conns w3) c) (\<lambda>C.
                        Inr (w3\<lparr>conns := (conns w3)(c := Some (fst (send_data C (bytes_of sdp))))\<rparr>))))) = Inr w4 \<and>
          inv w4 \<and> ready w4 c \<and> talked w2 w4"
      proof (cases x)
        case None
        then show ?thesis using error_ok [OF a(2,3), of "''SDP Not Found''" 404 m] by simp
      next
        case (Some sdp)
        obtain r where r: "rtsp_create_reply m 200 ''OK'' = Inr r" "reply_ok r" using create_ok by blast
        have "reply_ok (fst (add_header r ''Content-Base'' (request_uri m @ ''/'')))"
          by (rule add_header_reply [OF r(2)]) (simp_all add: request_uri_def cstr_no_nul)
        then have r2: "reply_ok (fst (add_header (fst (add_header r ''Content-Base'' (request_uri m @ ''/'')))
            ''Content-Type'' ''application/sdp''))" by (rule add_header_reply) simp_all
        have "int (length sdp) < 10 ^ 10" using x(2) Some by auto
        from send_ok [OF a(2,3) r2 this] obtain w3 sent where w3:
          "send_reply w2 c (fst (add_header (fst (add_header r ''Content-Base'' (request_uri m @ ''/'')))
            ''Content-Type'' ''application/sdp'')) (int (length sdp)) = Inr (w3, sent)"
          "inv w3" "ready w3 c" "talked w2 w3" by blast
        show ?thesis
        proof (cases sent)
          case False
          then show ?thesis using Some r(1) w3 assms(4) by simp
        next
          case True
          from send_body_ok [OF w3(2,3), of "bytes_of sdp"] obtain w4 where
            "bindE (deref (conns w3) c) (\<lambda>C. Inr (w3\<lparr>conns := (conns w3)(c := Some (fst (send_data C (bytes_of sdp))))\<rparr>)) = Inr w4"
            "inv w4" "ready w4 c" "talked w3 w4" by blast
          then show ?thesis using Some r(1) w3 assms(4) True talked_trans [OF w3(4)] by simp
        qed
      qed
      then obtain w4 where w4: "inv w4" "ready w4 c" "talked w2 w4"
        "handle_DESCRIBE P env w c m = pr_teardown P w4 s None"
        using a(1) o f(1) \<open>loc = Some l\<close> True x(1) by (auto simp: handle_DESCRIBE_def)
      from teardown_done [OF w4(1,2) sess [OF w4(3)]] w4(4) show ?thesis by simp
    qed
  qed
qed

lemma unknown_ok: "inv w \<Longrightarrow> ready w c \<Longrightarrow> done_ok inv c (rtsp_handle_unknown w c m)"
  unfolding rtsp_handle_unknown_def by (rule error_done) simp_all

text \<open>A session that the client names.\<close>

lemma named_session:
  assumes "inv w" "get_session w (get_header m ''Session'') = Some r"
  obtains R S where "rs_tab w r = Some R" "NUL \<notin> set (rs_id R)" "sessions w (rs_sess R) = Some S" "s_control S = Some r"
proof -
  obtain i where h: "get_header m ''Session'' = Some i"
    using assms(2) by (cases "get_header m ''Session''") (simp_all add: get_session_def)
  from get_session_found [OF assms(2) [unfolded h]] obtain R where R: "rs_tab w r = Some R" "rs_id R = i" by blast
  have "rtsp_ok w" using inv_links [OF assms(1)] by (simp add: links_ok_def)
  then have "map_option s_control (sessions w (rs_sess R)) = Some (Some r)" using R(1) unfolding rtsp_ok_def by blast
  then obtain S where "sessions w (rs_sess R) = Some S" "s_control S = Some r" by auto
  then show ?thesis using that R get_header_no_nul [OF h] by blast
qed

lemma session_reply:
  assumes "reply_ok r" "NUL \<notin> set i"
  shows "reply_ok (fst (add_header r ''Session'' i))"
  by (rule add_header_reply [OF assms(1) _ assms(2)]) simp

lemma play_done:
  assumes "inv w" "ready w c" "plays_ok w m"
  shows "done_ok inv c (handle_PLAY P w c m)"
proof (cases "get_session w (get_header m ''Session'')")
  case None
  then show ?thesis using error_done [OF assms(1,2), of "''Session Not Found''" 454 m] by (simp add: handle_PLAY_def)
next
  case (Some rs)
  from named_session [OF assms(1) Some] obtain R S where R: "rs_tab w rs = Some R" "NUL \<notin> set (rs_id R)"
    "sessions w (rs_sess R) = Some S" .
  have "may_play w S (has_start m)" using assms(3) Some R unfolding plays_ok_def by blast
  from play_ok [OF assms(1) R(3) this] obtain w1 start where
    p: "pr_play P w (rs_sess R) (has_start m) = Inr (w1, start)" "inv w1" "played w w1" by blast
  have rdy: "ready w1 c" using assms(2) p(3) by (simp add: played_def ready_def)
  obtain r where r: "rtsp_create_reply m 200 ''OK'' = Inr r" "reply_ok r" using create_ok by blast
  let ?r = "fst (add_header r ''Session'' (rs_id R))"
  have r1: "reply_ok ?r" by (rule session_reply [OF r(2) R(2)])
  have "map_option s_eps (sessions w1 (rs_sess R)) = map_option s_eps (sessions w (rs_sess R))"
    using p(3) by (simp add: played_def)
  with R(3) obtain S1 where S1: "sessions w1 (rs_sess R) = Some S1" by (cases "sessions w1 (rs_sess R)") auto
  have "slots_ok w1" using inv_links [OF p(2)] by (simp add: links_ok_def)
  then have "\<forall>e. Some e \<in> set (s_eps S1) \<longrightarrow> endpoints w1 e \<noteq> None"
    using S1 unfolding slots_ok_def by (metis in_set_conv_nth option.distinct(1))
  from rtp_info_ok [OF this, of "request_uri m" "[]" 0] obtain info where
    info: "rtp_info w1 (request_uri m) 0 (s_eps S1) [] = Inr info" "\<forall>t. info = Some t \<longrightarrow> NUL \<notin> set t"
    by (auto simp: request_uri_def cstr_no_nul)
  have "\<exists>r'. (case start of
                None \<Rightarrow> Inr ?r
              | Some x \<Rightarrow>
                  if x < 0 then Inr ?r
                  else bindE (deref (sessions w1) (rs_sess R)) (\<lambda>S.
                       bindE (rtp_info w1 (request_uri m) 0 (s_eps S) []) (\<lambda>info.
                         let r = fst (add_header ?r ''Range'' (''npt='' @ dec_int x @ ''.0000-'')) in
                         Inr (case info of
                                None \<Rightarrow> r
                              | Some i \<Rightarrow> if i = [] then r else fst (add_header r ''RTP-Info'' (butlast i)))))) = Inr r' \<and> reply_ok r'"
  proof (cases "\<exists>x. start = Some x \<and> \<not> x < 0")
    case False
    then show ?thesis using r1 by (auto split: option.split)
  next
    case True
    then obtain x where x: "start = Some x" "\<not> x < 0" by blast
    have r2: "reply_ok (fst (add_header ?r ''Range'' (''npt='' @ dec_int x @ ''.0000-'')))"
      by (rule add_header_reply [OF r1]) (simp_all add: dec_int_no_nul)
    have "reply_ok (fst (add_header (fst (add_header ?r ''Range'' (''npt='' @ dec_int x @ ''.0000-''))) ''RTP-Info'' (butlast i)))"
      if "info = Some i" for i
      by (rule add_header_reply [OF r2]) (use info(2) that in \<open>auto dest: in_set_butlastD\<close>)
    with r2 show ?thesis using x S1 info(1) by (auto simp: Let_def split: option.split)
  qed
  then obtain r' where r': "reply_ok r'" "handle_PLAY P w c m = bindE (send_reply w1 c r' (-1)) (\<lambda>(w2, _). Inr w2)"
    using Some R(1) p(1) r(1) by (auto simp: handle_PLAY_def has_start_def [symmetric] Let_def)
  show ?thesis unfolding r'(2) by (rule reply_done [OF p(2) rdy r'(1)]) simp
qed

lemma pause_done:
  assumes "inv w" "ready w c"
  shows "done_ok inv c (handle_PAUSE P w c m)"
proof (cases "get_session w (get_header m ''Session'')")
  case None
  then show ?thesis using error_done [OF assms, of "''Session Not Found''" 454 m] by (simp add: handle_PAUSE_def)
next
  case (Some rs)
  from named_session [OF assms(1) Some] obtain R where R: "rs_tab w rs = Some R" "NUL \<notin> set (rs_id R)" by metis
  show ?thesis
  proof (cases "pr_pause P")
    case None
    then show ?thesis using error_done [OF assms, of "''Not Implemented''" 501 m] Some R by (simp add: handle_PAUSE_def)
  next
    case pause: (Some f)
    from pause_ok [OF assms(1) pause, of "rs_sess R"] have p: "inv (f w (rs_sess R))" "played w (f w (rs_sess R))" by simp_all
    have rdy: "ready (f w (rs_sess R)) c" using assms(2) p(2) by (simp add: played_def ready_def)
    obtain r where r: "rtsp_create_reply m 200 ''OK'' = Inr r" "reply_ok r" using create_ok by blast
    from reply_done [OF p(1) rdy session_reply [OF r(2) R(2)], of "-1"] show ?thesis
      using Some R r(1) pause by (simp add: handle_PAUSE_def)
  qed
qed

lemma teardown_request_done:
  assumes "inv w" "ready w c" "length (request_uri m) < 256"
  shows "done_ok inv c (handle_TEARDOWN P w c m)"
proof -
  from find_location_base [OF assms(3)] obtain loc path track where
    f: "find_rtsp_location (rtsp_loc_list w) (request_uri m) False True = Inr (loc, path, track)" by blast
  show ?thesis
  proof (cases "loc = None \<or> int MAX_TRACKS \<le> track")
    case True
    then show ?thesis using error_done [OF assms(1,2), of "''Not Found''" 404 m] f by (auto simp: handle_TEARDOWN_def)
  next
    case found: False
    show ?thesis
    proof (cases "get_session w (get_header m ''Session'')")
      case None
      obtain l where "loc = Some l" using found by (cases loc) simp_all
      with None show ?thesis
        using error_done [OF assms(1,2), of "''Session Not Found''" 454 m] f found by (simp add: handle_TEARDOWN_def)
    next
      case (Some rs)
      from named_session [OF assms(1) Some] obtain R S where R: "rs_tab w rs = Some R" "NUL \<notin> set (rs_id R)"
        "sessions w (rs_sess R) = Some S" by metis
      obtain r where r: "rtsp_create_reply m 200 ''OK'' = Inr r" "reply_ok r" using create_ok by blast
      let ?ep = "if track < 0 then None else s_eps S ! nat track"
      obtain l where l: "loc = Some l" using found by (cases loc) simp_all
      from teardown_done [OF assms(1,2) R(3), of ?ep] obtain w1 where
        w1: "pr_teardown P w (rs_sess R) ?ep = Inr w1" "inv w1" "ready w1 c" by (auto simp: done_ok_def)
      from reply_done [OF w1(2,3) session_reply [OF r(2) R(2)], of "-1"] show ?thesis
        using Some R f found r(1) w1(1) l by (simp add: handle_TEARDOWN_def Let_def)
    qed
  qed
qed

end

end
