(* ===== verification/Rtsp_Setup.thy ===== *)
theory Rtsp_Setup
  imports Rtsp_Proofs
begin

text \<open>
  \<open>rtsp.c\<close>, continued: the SETUP request with its transports, every request in one statement, and
  the end of a connection. All of it rests on the contract of the sessions alone.
\<close>

section \<open>Transports\<close>

text \<open>What a transport may change: the endpoint and the channels of the connection.\<close>

definition transported :: "nat \<Rightarrow> nat \<Rightarrow> world \<Rightarrow> world \<Rightarrow> bool" where
  "transported c e w w' \<longleftrightarrow> links_ok w' \<and> ready w' c \<and> same_view w w' \<and> sessions w' = sessions w \<and>
     rs_tab w' = rs_tab w"

lemma udp_setup_ok:
  assumes "links_ok w" "endpoints w e = Some E" "ep_trans E = No_Trans" "ready w c" "reply_ok r"
  shows "\<exists>w' r' ok. rtsp_udp_setup env w e t r = (w', r', ok) \<and> reply_ok r' \<and> transported c e w w'"
proof -
  have same: "transported c e w w" using assms by (simp add: transported_def)
  have udp: "transported c e w (upd_endpoint e (\<lambda>E. connect_udp_endpoint E a p) w)" for a p
  proof -
    have "links_ok (upd_endpoint e (\<lambda>E. connect_udp_endpoint E a p) w)"
      by (rule udp_connect_links [OF assms(1-3)]) (simp_all add: connect_udp_endpoint_def)
    then show ?thesis using assms(4) by (simp add: transported_def ready_def same_view_def)
  qed
  have hdr: "reply_ok (fst (add_header r ''Transport''
      (''RTP/AVP;unicast;client_port='' @ dec_int cport @ ''-'' @ dec_int (cport + 1) @
       '';server_port='' @ dec_int port @ ''-'' @ dec_int (port + 1))))" for cport port
    by (rule add_header_reply [OF assms(5)]) (simp_all add: dec_int_no_nul)
  show ?thesis
    using same udp hdr assms(5) by (auto simp: rtsp_udp_setup_def split: option.split sum.split)
qed

lemma interleave_setup_ok:
  assumes ok: "links_ok w" and e: "endpoints w e = Some E" "ep_trans E = No_Trans" and rdy: "ready w c" and r: "reply_ok r"
  shows "\<exists>w' r' ok. rtsp_interleave_setup w e c t r = Inr (w', r', ok) \<and> reply_ok r' \<and> transported c e w w'"
proof -
  from channels_ready [OF rdy ok] obtain rc where rc: "channels w c = Inr rc"
    "\<And>ch. rc = Some ch \<longleftrightarrow> proto_state w c = Rtsp_State ch" by metis
  show ?thesis
  proof (cases "choose_channels rc t")
    case None
    then have "rtsp_interleave_setup w e c t r = Inr (w, r, False)" by (simp add: rtsp_interleave_setup_def rc(1))
    moreover have "transported c e w w" using ok rdy by (simp add: transported_def)
    ultimately show ?thesis using r by blast
  next
    case (Some n)
    let ?ch = "case rc of None \<Rightarrow> replicate MAX_INTERLEAVE_CHANNELS (None, False) | Some ch \<Rightarrow> ch"
    let ?w = "upd_endpoint e (\<lambda>E. connect_interleaved_endpoint E c n (n + 1))
      (w\<lparr>proto_state := (proto_state w)(c := Rtsp_State (?ch[n := (Some e, False), n + 1 := (Some e, True)]))\<rparr>)"
    let ?r = "fst (add_header r ''Transport''
      (''RTP/AVP/TCP;unicast;interleaved='' @ dec_nat n @ ''-'' @ dec_nat (n + 1)))"
    have n: "n + 1 < MAX_INTERLEAVE_CHANNELS" by (rule choose_channels_free(1) [OF Some])
    have old: "?ch = (case proto_state w c of Rtsp_State ch \<Rightarrow> ch | _ \<Rightarrow> replicate MAX_INTERLEAVE_CHANNELS (None, False))"
    proof (cases "proto_state w c")
      case (Rtsp_State ch)
      with rc(2) have "rc = Some ch" by blast
      with Rtsp_State show ?thesis by simp
    next
      case No_State
      with rc(2) have "rc = None" by (metis option.exhaust proto_state.distinct(1))
      with No_State show ?thesis by simp
    next
      case (Http_State h)
      with rdy show ?thesis by (simp add: ready_def)
    qed
    have free: "fst (?ch ! n) = None \<and> fst (?ch ! (n + 1)) = None"
    proof (cases rc)
      case None
      have "n < MAX_INTERLEAVE_CHANNELS" "n + 1 < MAX_INTERLEAVE_CHANNELS" using n by simp_all
      with None show ?thesis by (simp del: replicate_Suc add: nth_replicate)
    next
      case ch: (Some ch)
      from choose_channels_free(2) [OF Some ch] ch show ?thesis by simp
    qed
    have links: "links_ok ?w" by (rule interleave_connect_links [OF ok e rdy old n conjunct1 [OF free] conjunct2 [OF free]])
    have run: "rtsp_interleave_setup w e c t r = Inr (?w, ?r, True)"
      by (simp add: rtsp_interleave_setup_def rc(1) Some Let_def)
    have "reply_ok ?r" by (rule add_header_reply [OF r]) (simp_all add: dec_nat_no_nul)
    moreover have "transported c e w ?w" using links rdy by (simp add: transported_def ready_def same_view_def)
    ultimately show ?thesis using run by (intro exI conjI)
  qed
qed

lemma transport_ok:
  assumes "links_ok w" "endpoints w e = Some E" "ep_trans E = No_Trans" "ready w c" "reply_ok r"
  shows "\<exists>w' r' ok. transport_setup env w e c t r = Inr (w', r', ok) \<and> reply_ok r' \<and> transported c e w w'"
proof -
  have same: "transported c e w w" using assms by (simp add: transported_def)
  show ?thesis
    using udp_setup_ok [OF assms, of env t] interleave_setup_ok [OF assms, of t] same assms(5)
    unfolding transport_setup_def by (cases "strn_ieq 11 t ''RTP/AVP/TCP''") auto
qed

section \<open>SETUP\<close>

text \<open>The session of a request: a new one, or that of the RTSP session \<open>rs\<close>.\<close>

definition setup_session :: "world \<Rightarrow> nat \<Rightarrow> nat option \<Rightarrow> bool" where
  "setup_session w s rs \<longleftrightarrow>
     (case rs of
        None \<Rightarrow> map_option s_control (sessions w s) = Some None
      | Some r \<Rightarrow> sessions w s \<noteq> None \<and> (\<exists>R. rs_tab w r = Some R \<and> NUL \<notin> set (rs_id R)))"

lemma setup_session_cong:
  assumes "setup_session w s rs" "rs_tab w' = rs_tab w"
    "map_option s_control (sessions w' s) = map_option s_control (sessions w s)"
  shows "setup_session w' s rs"
proof -
  have "sessions w' s \<noteq> None \<longleftrightarrow> sessions w s \<noteq> None" using assms(3) by (cases "sessions w s") auto
  then show ?thesis using assms(1) unfolding setup_session_def assms(2,3) by (cases rs) simp_all
qed

lemma setup_session_ex: "setup_session w s rs \<Longrightarrow> \<exists>S. sessions w s = Some S"
  by (auto simp: setup_session_def split: option.splits)

context session_provider
begin

text \<open>The RTSP session that the reply names.\<close>

lemma reply_session_ok:
  assumes "inv w" "ready w c" "setup_session w s rs" "reply_ok r"
  shows "done_ok inv c (bindE (case rs of Some rs \<Rightarrow> Inr (w, rs) | None \<Rightarrow> new_rtsp_session w s (random_id rnd)) (\<lambda>(w3, rs).
    bindE (deref (rs_tab w3) rs) (\<lambda>R.
    bindE (send_reply w3 c (fst (add_header r ''Session'' (rs_id R))) (-1)) (\<lambda>(w4, _). Inr w4))))"
proof (cases rs)
  case (Some x)
  with assms(3) obtain R where R: "rs_tab w x = Some R" "NUL \<notin> set (rs_id R)" by (auto simp: setup_session_def)
  from reply_done [OF assms(1,2) session_reply [OF assms(4) R(2)], of "-1"] show ?thesis using Some R(1) by simp
next
  case None
  with assms(3) obtain S where S: "sessions w s = Some S" "s_control S = None" by (auto simp: setup_session_def)
  from new_rtsp_session_ok [OF inv_links [OF assms(1)] S, of "random_id rnd"] obtain w' x where
    n: "new_rtsp_session w s (random_id rnd) = Inr (w', x)" "links_ok w'" "same_view w w'"
    "rs_tab w' x = Some \<lparr>rs_id = random_id rnd, rs_sess = s\<rparr>" "conns w' = conns w" "proto_state w' = proto_state w" by metis
  have i: "inv w'" by (rule inv_view [OF assms(1) n(2,3)])
  have rdy: "ready w' c" using assms(2) ready_cong [OF n(5,6)] by simp
  from reply_done [OF i rdy session_reply [OF assms(4) random_id_no_nul [of rnd]], of "-1"]
  show ?thesis using None n(1,4) by simp
qed

text \<open>The rest of a SETUP once the track has its endpoint.\<close>

lemma connect_track_ok:
  assumes i: "inv w" and rdy: "ready w c" and ss: "setup_session w s rs"
    and e: "endpoints w e = Some E" "ep_trans E = No_Trans" and r: "reply_ok r"
  shows "done_ok inv c (bindE (transport_setup env w e c t r) (\<lambda>(w2, r, ok).
    if \<not> ok
    then bindE (rtsp_send_error w2 c m 461 ''Unsupported Transport'') (\<lambda>w3. pr_teardown P w3 s (Some e))
    else bindE (case rs of Some rs \<Rightarrow> Inr (w2, rs) | None \<Rightarrow> new_rtsp_session w2 s (random_id rnd)) (\<lambda>(w3, rs).
         bindE (deref (rs_tab w3) rs) (\<lambda>R.
         bindE (send_reply w3 c (fst (add_header r ''Session'' (rs_id R))) (-1)) (\<lambda>(w4, _). Inr w4)))))"
proof -
  from transport_ok [OF inv_links [OF i] e rdy r, of env t] obtain w2 r2 ok where
    t: "transport_setup env w e c t r = Inr (w2, r2, ok)" "reply_ok r2" "transported c e w w2" by blast
  have i2: "inv w2" and rdy2: "ready w2 c" and eq: "sessions w2 = sessions w" "rs_tab w2 = rs_tab w"
    using t(3) inv_view [OF i] by (simp_all add: transported_def)
  have ss2: "setup_session w2 s rs" by (rule setup_session_cong [OF ss]) (simp_all add: eq)
  show ?thesis
  proof (cases ok)
    case True
    with reply_session_ok [OF i2 rdy2 ss2 t(2), of rnd] t(1) show ?thesis by simp
  next
    case False
    from error_ok [OF i2 rdy2, of "''Unsupported Transport''" 461 m] obtain w3 where
      w3: "rtsp_send_error w2 c m 461 ''Unsupported Transport'' = Inr w3" "inv w3" "ready w3 c" "talked w2 w3" by auto
    obtain S where "sessions w3 s = Some S" using setup_session_ex [OF ss2] w3(4) by (auto simp: talked_def)
    from teardown_done [OF w3(2,3) this, of "Some e"] show ?thesis using False t(1) w3(1) by simp
  qed
qed

lemma setup_track_ok:
  assumes i: "inv w" and rdy: "ready w c" and ss: "setup_session w s rs" and t: "t \<noteq> []" and track: "track < MAX_TRACKS"
  shows "done_ok inv c (setup_track P env w c m t s track rs)"
proof -
  obtain S where S: "sessions w s = Some S" using setup_session_ex [OF ss] by blast
  show ?thesis
  proof (cases "s_eps S ! track")
    case (Some e)
    then show ?thesis
      using error_done [OF i rdy, of "''Unsupported Transport1''" 461 m] S by (simp add: setup_track_def)
  next
    case None
    obtain n mode where g: "get_param (Some t) ''mode'' 256 = Inr (n, mode)" using get_param_total [OF t] by blast
    define recv where "recv = (0 < n \<and> (case mode of None \<Rightarrow> False
                      | Some x \<Rightarrow> strn_ieq 7 x ''receive'' \<or> strn_ieq 6 x ''record''))"
    define w0 where "w0 = (if recv then upd_session s (\<lambda>S. S\<lparr>s_record := True\<rparr>) w else w)"
    have "links_ok (upd_session s (\<lambda>S. S\<lparr>s_record := True\<rparr>) w)" by (rule upd_session_links [OF inv_links [OF i]]) simp
    moreover have "same_view w (upd_session s (\<lambda>S. S\<lparr>s_record := True\<rparr>) w)" by (rule upd_session_view) (simp add: live_fields_def)
    ultimately have i0: "inv w0" using i inv_view [OF i] by (simp add: w0_def)
    have rdy0: "ready w0 c" using rdy by (simp add: w0_def ready_def)
    have ss0: "setup_session w0 s rs" by (rule setup_session_cong [OF ss]) (simp_all add: w0_def option.map_comp comp_def)
    obtain S0 where S0: "sessions w0 s = Some S0" "s_eps S0 ! track = None"
      using S None by (cases recv) (auto simp: w0_def)
    have run: "setup_track P env w c m t s track rs = bindE (pr_setup P w0 (re_endpoint env) (re_now env) s track) (\<lambda>(w1, ok).
              if \<not> ok
              then bindE (rtsp_send_error w1 c m 404 ''Not Found'') (\<lambda>w2.
                     if rs = None then pr_teardown P w2 s None else Inr w2)
              else bindE (rtsp_create_reply m 200 ''OK'') (\<lambda>r.
                   bindE (deref (sessions w1) s) (\<lambda>S.
                     case s_eps S ! track of
                       None \<Rightarrow> Inl Fault
                     | Some e \<Rightarrow>
                         bindE (deref (endpoints w1) e) (\<lambda>_.
                         bindE (transport_setup env w1 e c t r) (\<lambda>(w2, r, ok).
                           if \<not> ok
                           then bindE (rtsp_send_error w2 c m 461 ''Unsupported Transport'') (\<lambda>w3. pr_teardown P w3 s (Some e))
                           else bindE (case rs of
                                         Some rs \<Rightarrow> Inr (w2, rs)
                                       | None \<Rightarrow> new_rtsp_session w2 s (random_id (re_id env))) (\<lambda>(w3, rs).
                                bindE (deref (rs_tab w3) rs) (\<lambda>R.
                                bindE (send_reply w3 c (fst (add_header r ''Session'' (rs_id R))) (-1)) (\<lambda>(w4, _).
                                  Inr w4))))))))"
      unfolding setup_track_def w0_def recv_def using S None g by (simp add: Let_def)
    from setup_ok [OF i0 S0(1) track S0(2), of "re_endpoint env" "re_now env"] show ?thesis
    proof (elim disjE exE conjE)
      assume no: "pr_setup P w0 (re_endpoint env) (re_now env) s track = Inr (w0, False)"
      from error_ok [OF i0 rdy0, of "''Not Found''" 404 m] obtain w2 where
        w2: "rtsp_send_error w0 c m 404 ''Not Found'' = Inr w2" "inv w2" "ready w2 c" "talked w0 w2" by auto
      from S0(1) w2(4) have "sessions w2 s = Some S0" by (simp add: talked_def)
      from teardown_done [OF w2(2,3) this, of None] show ?thesis
        unfolding run using no w2 by (simp add: done_ok_def)
    next
      fix E assume y: "pr_setup P w0 (re_endpoint env) (re_now env) s track = Inr (with_endpoint w0 s track E, True)"
        "inv (with_endpoint w0 s track E)" "ep_session E = s" "ep_trans E = No_Trans"
      let ?w = "with_endpoint w0 s track E" and ?e = "fresh w0"
      obtain r where r: "rtsp_create_reply m 200 ''OK'' = Inr r" "reply_ok r" using create_ok by blast
      have len: "length (s_eps S0) = MAX_TRACKS" by (rule eps_length [OF inv_links [OF i0] S0(1)])
      have sess: "sessions ?w s = Some (S0\<lparr>s_eps := (s_eps S0)[track := Some ?e]\<rparr>)" and ep: "endpoints ?w ?e = Some E"
        using S0(1) by (simp_all add: with_endpoint_def)
      have rdy1: "ready ?w c" using rdy0 by (simp add: with_endpoint_def ready_def)
      have ss1: "setup_session ?w s rs"
        by (rule setup_session_cong [OF ss0]) (simp_all add: with_endpoint_def option.map_comp comp_def)
      from connect_track_ok [OF y(2) rdy1 ss1 ep y(4) r(2), of env t m "re_id env"]
      show ?thesis unfolding run using y(1) r(1) sess ep len track by simp
    qed
  qed
qed

lemma setup_done:
  assumes i: "inv w" and rdy: "ready w c" and locs: "locs_ok w" and uri: "length (request_uri m) < 256"
    and t: "get_header m ''Transport'' \<noteq> Some []"
  shows "done_ok inv c (handle_SETUP P env w c m)"
proof -
  from find_location_base [OF uri] obtain loc path track where
    f: "find_rtsp_location (rtsp_loc_list w) (request_uri m) True True = Inr (loc, path, track)"
      "loc \<noteq> None \<longrightarrow> the loc \<in> set (rtsp_loc_list w)" by blast
  show ?thesis
  proof (cases "loc = None \<or> track < 0 \<or> int MAX_TRACKS \<le> track")
    case True
    then show ?thesis
      using error_done [OF i rdy, of "''Not Found''" 404 m] f(1) by (auto simp: handle_SETUP_def split: option.split)
  next
    case False
    then obtain l where l: "loc = Some l" and tr: "\<not> track < 0" "\<not> int MAX_TRACKS \<le> track" by auto
    with f(2) locs have nul: "NUL \<notin> set (loc_realm l)" by (auto simp: locs_ok_def)
    from auth_ok [OF i rdy nul, of env m] obtain w1 ok where
      a: "authorised env w c m l = Inr (w1, ok)" "inv w1" "ready w1 c" "talked w w1" by blast
    note ev = handle_SETUP_def f(1) l tr a(1)
    have track: "nat track < MAX_TRACKS" using tr by auto
    show ?thesis
    proof (cases ok)
      case False
      then show ?thesis using a(2,3) by (simp add: ev done_ok_def)
    next
      case auth: True
      show ?thesis
      proof (cases "get_header m ''Transport''")
        case None
        then show ?thesis
          using error_done [OF a(2,3), of "''Unspecified Transport''" 461 m] auth by (simp add: ev)
      next
        case tp: (Some tp)
        with t have tp_ne: "tp \<noteq> []" by simp
        show ?thesis
        proof (cases "get_header m ''Session''")
          case None
          obtain w2 s where o: "pr_open P w1 (loc_private l) = (w2, s)" by fastforce
          from open_ok [OF a(2) o] have i2: "inv w2" and op: "opened w1 (loc_private l) w2 s" by simp_all
          let ?w = "upd_session s (\<lambda>S. S\<lparr>s_addr := ''IP4 '' @ re_addr env\<rparr>) w2"
          have "inv ?w" by (rule inv_view [OF i2 upd_session_links [OF inv_links [OF i2]] upd_session_view])
            (simp_all add: live_fields_def)
          moreover have "ready ?w c" using opened_ready [OF op a(3)] by (simp add: ready_def)
          moreover have "setup_session ?w s None" using op by (simp add: opened_def setup_session_def blank_session_def)
          ultimately have "done_ok inv c (setup_track P env ?w c m tp s (nat track) None)"
            using tp_ne track by (rule setup_track_ok)
          then show ?thesis using auth tp None o by (simp add: ev)
        next
          case (Some sh)
          show ?thesis
          proof (cases "get_session w1 (Some sh)")
            case None
            then show ?thesis
              using error_done [OF a(2,3), of "''Session Not Found''" 454 m] auth tp Some by (simp add: ev)
          next
            case rs: (Some rs)
            with Some have "get_session w1 (get_header m ''Session'') = Some rs" by simp
            from named_session [OF a(2) this] obtain R S where R: "rs_tab w1 rs = Some R" "NUL \<notin> set (rs_id R)"
              "sessions w1 (rs_sess R) = Some S" by metis
            then have "setup_session w1 (rs_sess R) (Some rs)" by (simp add: setup_session_def)
            from setup_track_ok [OF a(2,3) this tp_ne track, of env m] show ?thesis
              using auth tp Some rs R(1) by (simp add: ev)
          qed
        qed
      qed
    qed
  qed
qed

section \<open>Every request\<close>

lemma handle_msg_done:
  assumes "inv w" "ready w c" "locs_ok w" "describes P w" "str_ieq (request_method m) ''PLAY'' \<Longrightarrow> plays_ok w m" "length (request_uri m) < 256"
    "get_header m ''Transport'' \<noteq> Some []" "\<not> str_ieq (request_method m) ''ANNOUNCE''"
  shows "done_ok inv c (rtsp_handle_msg P env w c m)"
  unfolding rtsp_handle_msg_def
  using assms(8) options_ok [OF assms(1,2)] describe_ok [OF assms(1-3,6,4)] setup_done [OF assms(1-3,6,7)]
    play_done [OF assms(1,2) assms(5)] pause_done [OF assms(1,2)] teardown_request_done [OF assms(1,2,6)]
    unknown_ok [OF assms(1,2)] by simp

end

end
