(* ===== verification/Rtsp_Close.thy ===== *)
theory Rtsp_Close
  imports Rtsp_Setup
begin

text \<open>
  \<open>rtsp_conn_disconnect\<close> of \<open>rtsp.c\<close>: the end of a connection tears down every session that sends
  over one of its channels. The loop is followed with the set of channels that are already free.
\<close>

section \<open>Channels that stay free\<close>

definition freed :: "world \<Rightarrow> nat \<Rightarrow> nat set \<Rightarrow> bool" where
  "freed w c K \<longleftrightarrow> (\<exists>ch. proto_state w c = Rtsp_State ch \<and> (\<forall>k\<in>K. k < length ch \<longrightarrow> (\<forall>e. ch ! k \<noteq> (Some e, False))))"

lemma freed_torn:
  assumes "torn_down s w w'" "freed w c K"
  shows "freed w' c K"
proof -
  from assms(2) obtain ch where ch: "proto_state w c = Rtsp_State ch"
    "\<And>k e. k \<in> K \<Longrightarrow> k < length ch \<Longrightarrow> ch ! k \<noteq> (Some e, False)" unfolding freed_def by metis
  have "ps_le (proto_state w' c) (proto_state w c)" using assms(1) by (simp add: torn_down_def)
  with ch(1) obtain a where a: "proto_state w' c = Rtsp_State a" "list_all2 chan_le a ch"
    unfolding ps_le_def by (metis list_all2_refl chan_le_refl proto_state.inject(1))
  have "a ! k \<noteq> (Some e, False)" if "k \<in> K" "k < length a" for k e
  proof
    assume e: "a ! k = (Some e, False)"
    have "length a = length ch" using a(2) by (rule list_all2_lengthD)
    moreover have "chan_le (a ! k) (ch ! k)" using list_all2_nthD [OF a(2) that(2)] .
    ultimately have "ch ! k = (Some e, False)" using e by (simp add: chan_le_def prod_eq_iff)
    with ch(2) that \<open>length a = length ch\<close> show False by simp
  qed
  with a(1) show ?thesis by (auto simp: freed_def)
qed

lemma torn_endpoint_gone:
  assumes l: "links_ok w'" and t: "torn_down s w w'" and e: "endpoints w e = Some E" "ep_session E = s"
    and gone: "\<And>S'. sessions w' s = Some S' \<Longrightarrow> Some e \<notin> set (s_eps S')"
  shows "endpoints w' e = None"
proof (rule ccontr)
  assume "endpoints w' e \<noteq> None"
  with t e(1) have E: "endpoints w' e = Some E" unfolding torn_down_def by metis
  have "owners_ok w'" using l by (simp add: links_ok_def)
  with E e(2) gone show False unfolding owners_ok_def by blast
qed

lemma freed_insert:
  assumes l: "links_ok w" and f: "freed w c K" and i: "\<And>ch e. proto_state w c = Rtsp_State ch \<Longrightarrow> i < length ch \<Longrightarrow> ch ! i \<noteq> (Some e, False)"
  shows "freed w c (insert i K)"
proof -
  from f obtain ch where ch: "proto_state w c = Rtsp_State ch"
    "\<forall>k\<in>K. k < length ch \<longrightarrow> (\<forall>e. ch ! k \<noteq> (Some e, False))" unfolding freed_def by blast
  have "\<forall>k\<in>insert i K. k < length ch \<longrightarrow> (\<forall>e. ch ! k \<noteq> (Some e, False))" using ch(2) i [OF ch(1)] by blast
  with ch(1) show ?thesis unfolding freed_def by blast
qed

lemma channel_endpoint:
  assumes "links_ok w" "proto_state w c = Rtsp_State ch" "k < length ch" "ch ! k = (Some e, b)"
  obtains E r q S where "endpoints w e = Some E" "ep_trans E = Inter c r q" "k = (if b then q else r)"
    "sessions w (ep_session E) = Some S"
proof -
  have ok: "channels_ok w" "owners_ok w" using assms(1) by (simp_all add: links_ok_def)
  from ok(1) assms(2-4) obtain E r q where E: "endpoints w e = Some E" "ep_trans E = Inter c r q" "k = (if b then q else r)"
    unfolding channels_ok_def by blast
  with ok(2) obtain S where "sessions w (ep_session E) = Some S" unfolding owners_ok_def by blast
  with E that show ?thesis by blast
qed

text \<open>With its RTP channels free, no endpoint uses the connection.\<close>

lemma freed_all:
  assumes "links_ok w" "freed w c {..<MAX_INTERLEAVE_CHANNELS}" "endpoints w e = Some E"
  shows "ep_trans E \<noteq> Inter c r q"
proof
  assume t: "ep_trans E = Inter c r q"
  have "inter_ok w" "conns_ok w" using assms(1) by (simp_all add: links_ok_def)
  from inter_okD [OF this(1) assms(3) t] obtain C ch where
    ch: "proto_state w c = Rtsp_State ch" "r < length ch" "ch ! r = (Some e, False)" by metis
  with \<open>conns_ok w\<close> have "length ch = MAX_INTERLEAVE_CHANNELS" unfolding conns_ok_def by blast
  with ch(2) have "r \<in> {..<MAX_INTERLEAVE_CHANNELS}" by simp
  with ch assms(2) show False unfolding freed_def by (metis proto_state.inject(1))
qed

lemma closed_links:
  assumes ok: "links_ok w" and none: "\<And>e E r q. endpoints w e = Some E \<Longrightarrow> ep_trans E \<noteq> Inter c r q"
  shows "links_ok (w\<lparr>proto_state := (proto_state w)(c := No_State)\<rparr>)"
proof -
  let ?w = "w\<lparr>proto_state := (proto_state w)(c := No_State)\<rparr>"
  have eq: "sessions ?w = sessions w" "endpoints ?w = endpoints w" by simp_all
  have oks: "slots_ok w" "owners_ok w" "channels_ok w" "inter_ok w" "rtsp_ok w" "entries_ok w" "conns_ok w" "fresh_ok w"
    using ok by (simp_all add: links_ok_def)
  have "slots_ok ?w" using oks(1) unfolding slots_ok_def eq .
  moreover have "owners_ok ?w" using oks(2) by (simp add: owners_ok_def)
  moreover have "channels_ok ?w" 
    unfolding channels_ok_def
  proof (intro allI impI, elim conjE)
    fix c' ch k e b assume a: "proto_state ?w c' = Rtsp_State ch" and k: "k < length ch" "ch ! k = (Some e, b)"
    from a have "proto_state w c' = Rtsp_State ch" by (simp split: if_splits)
    with oks(3) k show "\<exists>E r q. endpoints ?w e = Some E \<and> ep_trans E = Inter c' r q \<and> k = (if b then q else r)"
      unfolding channels_ok_def eq by blast
  qed
  moreover have "inter_ok ?w"
    unfolding inter_ok_def
  proof (intro allI impI, elim conjE)
    fix e E c' r q assume a: "endpoints ?w e = Some E" "ep_trans E = Inter c' r q"
    then have e: "endpoints w e = Some E" by simp
    with a none have "c' \<noteq> c" by auto
    moreover have "conns w c' \<noteq> None \<and> r \<noteq> q \<and> (\<exists>ch. proto_state w c' = Rtsp_State ch \<and> r < length ch \<and> q < length ch \<and>
        ch ! r = (Some e, False) \<and> ch ! q = (Some e, True))" using oks(4) e a(2) unfolding inter_ok_def by blast
    ultimately show "conns ?w c' \<noteq> None \<and> r \<noteq> q \<and> (\<exists>ch. proto_state ?w c' = Rtsp_State ch \<and> r < length ch \<and>
        q < length ch \<and> ch ! r = (Some e, False) \<and> ch ! q = (Some e, True))" by simp
  qed
  moreover have "rtsp_ok ?w" using oks(5) by (simp add: rtsp_ok_def)
  moreover have "entries_ok ?w" using oks(6) by (simp add: entries_ok_def)
  moreover have "conns_ok ?w" using oks(7) unfolding conns_ok_def by auto
  moreover have "fresh_ok ?w" using oks(8) by (simp add: fresh_ok_def)
  ultimately show ?thesis by (simp add: links_ok_def)
qed

text \<open>The connection itself goes once nothing points to it.\<close>

lemma removed_links:
  assumes ok: "links_ok w" and ps: "\<And>ch. proto_state w c \<noteq> Rtsp_State ch"
  shows "links_ok (w\<lparr>conns := (conns w)(c := None), conn_list := remove1 c (conn_list w)\<rparr>)"
proof -
  let ?w = "w\<lparr>conns := (conns w)(c := None), conn_list := remove1 c (conn_list w)\<rparr>"
  have oks: "slots_ok w" "owners_ok w" "channels_ok w" "inter_ok w" "rtsp_ok w" "entries_ok w" "conns_ok w" "fresh_ok w"
    using ok by (simp_all add: links_ok_def)
  have "slots_ok ?w" "owners_ok ?w" "channels_ok ?w" "rtsp_ok ?w" "entries_ok ?w"
    by (rule links_ok_parts [OF ok]; simp)+
  moreover have "inter_ok ?w"
    unfolding inter_ok_def
  proof (intro allI impI, elim conjE)
    fix e E c' r q assume a: "endpoints ?w e = Some E" "ep_trans E = Inter c' r q"
    then have *: "conns w c' \<noteq> None \<and> r \<noteq> q \<and> (\<exists>ch. proto_state w c' = Rtsp_State ch \<and> r < length ch \<and> q < length ch \<and>
        ch ! r = (Some e, False) \<and> ch ! q = (Some e, True))" using oks(4) unfolding inter_ok_def by simp
    with ps have "c' \<noteq> c" by blast
    with * show "conns ?w c' \<noteq> None \<and> r \<noteq> q \<and> (\<exists>ch. proto_state ?w c' = Rtsp_State ch \<and> r < length ch \<and>
        q < length ch \<and> ch ! r = (Some e, False) \<and> ch ! q = (Some e, True))" by simp
  qed
  moreover have "conns_ok ?w"
    unfolding conns_ok_def
  proof (intro conjI allI impI)
    show "distinct (conn_list ?w)" using oks(7) by (simp add: conns_ok_def)
    show "c' \<in> set (conn_list ?w) \<longleftrightarrow> conns ?w c' \<noteq> None" for c' using oks(7) unfolding conns_ok_def by simp
    fix c' ch assume "proto_state ?w c' = Rtsp_State ch"
    then have p: "proto_state w c' = Rtsp_State ch" by simp
    with ps have "c' \<noteq> c" by auto
    with p oks(7) show "length ch = MAX_INTERLEAVE_CHANNELS" "\<exists>C. conns ?w c' = Some C \<and> c_proto C = CONN_PROTO_RTSP"
      unfolding conns_ok_def by simp_all
  qed
  moreover have "fresh_ok ?w" using oks(8) unfolding fresh_ok_def by simp
  ultimately show ?thesis by (simp add: links_ok_def)
qed

section \<open>What a session keeps\<close>

text \<open>An endpoint that sends over the connection \<open>c\<close>; a session loses these, and ends when none is left.\<close>

definition over :: "world \<Rightarrow> nat \<Rightarrow> nat option \<Rightarrow> bool" where
  "over w c x \<longleftrightarrow> (\<exists>e E r q. x = Some e \<and> endpoints w e = Some E \<and> ep_trans E = Inter c r q)"

definition cut_eps :: "world \<Rightarrow> nat \<Rightarrow> nat option list \<Rightarrow> nat option list" where
  "cut_eps w c = map (\<lambda>x. if over w c x then None else x)"

definition reduced :: "session \<Rightarrow> nat option list \<Rightarrow> session option" where
  "reduced S eps = (if eps \<noteq> s_eps S \<and> list_all (\<lambda>x. x = None) eps then None else Some (S\<lparr>s_eps := eps\<rparr>))"

text \<open>In the loop: some of these endpoints are gone.\<close>

definition part_cut :: "world \<Rightarrow> nat \<Rightarrow> world \<Rightarrow> bool" where
  "part_cut w c w' \<longleftrightarrow>
     (\<forall>e. endpoints w' e = endpoints w e \<or> endpoints w' e = None \<and> over w c (Some e)) \<and>
     (\<forall>s. case sessions w s of None \<Rightarrow> sessions w' s = None
        | Some S \<Rightarrow> \<exists>eps. list_all2 (\<lambda>x y. y = x \<or> y = None \<and> over w c x) (s_eps S) eps \<and> sessions w' s = reduced S eps)"

lemma part_cut_refl: "part_cut w c w"
  unfolding part_cut_def by (auto simp: reduced_def list_all2_same split: option.split intro!: exI [of _ "s_eps _"])

lemma part_cut_endpoint: "part_cut w c w' \<Longrightarrow> endpoints w' e = endpoints w e \<or> endpoints w' e = None \<and> over w c (Some e)"
  by (simp add: part_cut_def)

lemma part_cut_session:
  assumes "part_cut w c w'" "sessions w s = Some S"
  obtains eps where "list_all2 (\<lambda>x y. y = x \<or> y = None \<and> over w c x) (s_eps S) eps" "sessions w' s = reduced S eps"
proof -
  have "case sessions w s of None \<Rightarrow> sessions w' s = None
      | Some S \<Rightarrow> \<exists>eps. list_all2 (\<lambda>x y. y = x \<or> y = None \<and> over w c x) (s_eps S) eps \<and> sessions w' s = reduced S eps"
    using assms(1) by (simp add: part_cut_def)
  with assms(2) that show ?thesis by auto
qed

lemma part_cut_no_session: "part_cut w c w' \<Longrightarrow> sessions w s = None \<Longrightarrow> sessions w' s = None"
  unfolding part_cut_def by (drule conjunct2, drule spec [of _ s]) simp

text \<open>Only the endpoint that the teardown is called for goes.\<close>

lemma torn_endpoints:
  assumes l: "links_ok w1" "links_ok w2" and t: "torn_down s w1 w2" and s: "sessions w1 s = Some S"
    and after: "sessions w2 s = torn_session (Some e) S" and e': "e' \<noteq> e"
  shows "endpoints w2 e' = endpoints w1 e'"
proof (cases "endpoints w1 e'")
  case None
  with t show ?thesis unfolding torn_down_def by metis
next
  case (Some E)
  have o: "owners_ok w1" "slots_ok w2" using l by (simp_all add: links_ok_def)
  from o(1) Some obtain S' where S': "sessions w1 (ep_session E) = Some S'" "Some e' \<in> set (s_eps S')" unfolding owners_ok_def by blast
  have "\<exists>S2. sessions w2 (ep_session E) = Some S2 \<and> Some e' \<in> set (s_eps S2)"
  proof (cases "ep_session E = s")
    case True
    with s S' have "Some e' \<in> set (drop_ep (Some e) (s_eps S))" using e' by (force simp: drop_ep_def)
    moreover from this have "\<not> list_all (\<lambda>x. x = None) (drop_ep (Some e) (s_eps S))" by (auto simp: list_all_iff)
    ultimately show ?thesis using True after by (simp add: torn_session_def)
  next
    case False
    with t S' show ?thesis by (simp add: torn_down_def)
  qed
  then obtain S2 i where "sessions w2 (ep_session E) = Some S2" "i < length (s_eps S2)" "s_eps S2 ! i = Some e'"
    by (metis in_set_conv_nth)
  with o(2) have "endpoints w2 e' \<noteq> None" unfolding slots_ok_def by blast
  with t show ?thesis unfolding torn_down_def by metis
qed

lemma part_cut_step:
  assumes p: "part_cut w c w1" and l: "links_ok w1" "links_ok w2" and t: "torn_down (ep_session E) w1 w2"
    and E: "endpoints w1 e = Some E" "ep_trans E = Inter c r q" and S: "sessions w1 (ep_session E) = Some S1"
    and after: "sessions w2 (ep_session E) = torn_session (Some e) S1"
  shows "part_cut w c w2"
proof -
  have "endpoints w e = Some E" using part_cut_endpoint [OF p, of e] E(1) by auto
  with E(2) have ov: "over w c (Some e)" by (auto simp: over_def)
  have eps: "endpoints w2 x = endpoints w x \<or> endpoints w2 x = None \<and> over w c (Some x)" for x
  proof (cases "x = e")
    case True
    have "endpoints w2 e = endpoints w1 e \<or> endpoints w2 e = None" using t by (simp add: torn_down_def)
    with part_cut_endpoint [OF p, of e] ov True show ?thesis by auto
  next
    case False
    with part_cut_endpoint [OF p, of x] torn_endpoints [OF l t S after] show ?thesis by simp
  qed
  have sess: "case sessions w s of None \<Rightarrow> sessions w2 s = None
      | Some S \<Rightarrow> \<exists>eps. list_all2 (\<lambda>x y. y = x \<or> y = None \<and> over w c x) (s_eps S) eps \<and> sessions w2 s = reduced S eps" for s
  proof (cases "s = ep_session E")
    case False
    then have "sessions w2 s = sessions w1 s" using t by (simp add: torn_down_def)
    with p [unfolded part_cut_def, THEN conjunct2, THEN spec, of s] show ?thesis by (simp only:)
  next
    case True
    show ?thesis
    proof (cases "sessions w s")
      case None
      have "sessions w1 s = None" by (rule part_cut_no_session [OF p None])
      with S True show ?thesis by simp
    next
      case (Some S0)
      from part_cut_session [OF p Some] obtain ys where
        ys: "list_all2 (\<lambda>x y. y = x \<or> y = None \<and> over w c x) (s_eps S0) ys" "sessions w1 s = reduced S0 ys" .
      with S True have S1: "S1 = S0\<lparr>s_eps := ys\<rparr>" by (simp add: reduced_def split: if_splits)
      let ?zs = "drop_ep (Some e) ys"
      have "list_all2 (\<lambda>x y. y = x \<or> y = None \<and> over w c x) (s_eps S0) ?zs"
        unfolding drop_ep_def list_all2_map2 by (rule list_all2_mono [OF ys(1)]) (use ov in auto)
      moreover have "?zs \<noteq> s_eps S0"
      proof -
        have "owners_ok w1" using l(1) by (simp add: links_ok_def)
        with E(1) S have "Some e \<in> set (s_eps S1)" unfolding owners_ok_def by (metis option.inject)
        then have "Some e \<in> set ys" by (simp add: S1)
        then obtain i where i: "i < length ys" "ys ! i = Some e" by (auto simp: in_set_conv_nth)
        with list_all2_nthD2 [OF ys(1) i(1)] have "s_eps S0 ! i = Some e" by simp
        moreover have "?zs ! i = None" using i by (simp add: drop_ep_def)
        ultimately show ?thesis by auto
      qed
      ultimately show ?thesis using after True Some
        by (intro option.case_eq_if [THEN iffD2]) (auto simp: torn_session_def reduced_def S1 intro!: exI [of _ ?zs])
    qed
  qed
  from eps sess show ?thesis by (simp add: part_cut_def)
qed

text \<open>When no endpoint is left on the connection, all of them are gone.\<close>

lemma part_cut_whole:
  assumes p: "part_cut w c w'" and l: "links_ok w'" and none: "\<And>e E r q. endpoints w' e = Some E \<Longrightarrow> ep_trans E \<noteq> Inter c r q"
  shows "endpoints w' e = (if over w c (Some e) then None else endpoints w e)"
    and "sessions w' s = Option.bind (sessions w s) (\<lambda>S. reduced S (cut_eps w c (s_eps S)))"
proof -
  have gone: "endpoints w' e = None" if "over w c (Some e)" for e
    using part_cut_endpoint [OF p, of e] that none [of e] by (auto simp: over_def)
  show "endpoints w' e = (if over w c (Some e) then None else endpoints w e)"
    using part_cut_endpoint [OF p, of e] gone [of e] by auto
  show "sessions w' s = Option.bind (sessions w s) (\<lambda>S. reduced S (cut_eps w c (s_eps S)))"
  proof (cases "sessions w s")
    case None
    with part_cut_no_session [OF p None] show ?thesis by simp
  next
    case (Some S)
    from part_cut_session [OF p Some] obtain ys where
      ys: "list_all2 (\<lambda>x y. y = x \<or> y = None \<and> over w c x) (s_eps S) ys" "sessions w' s = reduced S ys" .
    have "ys = cut_eps w c (s_eps S)"
    proof (rule nth_equalityI)
      fix i assume i: "i < length ys"
      have len: "length (s_eps S) = length ys" by (rule list_all2_lengthD [OF ys(1)])
      have "ys ! i = None" if ov: "over w c (s_eps S ! i)"
      proof (rule ccontr)
        assume "ys ! i \<noteq> None"
        then obtain e where e: "ys ! i = Some e" by blast
        with list_all2_nthD2 [OF ys(1) i] have old: "s_eps S ! i = Some e" by simp
        have "\<not> list_all (\<lambda>x. x = None) ys" using i e by (auto simp: list_all_length)
        then have "sessions w' s = Some (S\<lparr>s_eps := ys\<rparr>)" using ys(2) by (simp add: reduced_def)
        moreover have "slots_ok w'" using l by (simp add: links_ok_def)
        ultimately have "endpoints w' e \<noteq> None" using i e unfolding slots_ok_def by fastforce
        with gone ov old show False by simp
      qed
      then show "ys ! i = cut_eps w c (s_eps S) ! i" using list_all2_nthD2 [OF ys(1) i] i len by (auto simp: cut_eps_def)
    qed (simp add: cut_eps_def list_all2_lengthD [OF ys(1)])
    with ys(2) Some show ?thesis by simp
  qed
qed

section \<open>The loop\<close>

context session_provider
begin

lemma disconnect_channels_ok:
  "inv w \<Longrightarrow> freed w c K \<Longrightarrow> part_cut w0 c w \<Longrightarrow> set is \<subseteq> {..<MAX_INTERLEAVE_CHANNELS} \<Longrightarrow>
     \<exists>w'. disconnect_channels P w c is = Inr w' \<and> inv w' \<and> freed w' c (K \<union> set is) \<and> part_cut w0 c w' \<and>
     conns w' = conns w \<and> conn_list w' = conn_list w"
proof (induction "is" arbitrary: w K)
  case Nil
  then show ?case by simp
next
  case (Cons i "is")
  note l = inv_links [OF Cons.prems(1)]
  from Cons.prems(2) obtain ch where ch: "proto_state w c = Rtsp_State ch" unfolding freed_def by blast
  then have chs: "channels w c = Inr (Some ch)" by (simp add: channels_def)
  have "length ch = MAX_INTERLEAVE_CHANNELS" using l ch unfolding links_ok_def conns_ok_def by blast
  with Cons.prems(4) have i: "i < length ch" and "is": "set is \<subseteq> {..<MAX_INTERLEAVE_CHANNELS}" by simp_all
  have un: "insert i K \<union> set is = K \<union> set (i # is)" by simp
  show ?case
  proof (cases "\<exists>e. ch ! i = (Some e, False)")
    case True
    with i obtain e where e: "i < length ch" "ch ! i = (Some e, False)" by blast
    from channel_endpoint [OF l ch e] obtain E r q S where E: "endpoints w e = Some E" "ep_trans E = Inter c r q"
      "sessions w (ep_session E) = Some S" by metis
    from teardown_ok [OF Cons.prems(1) E(3), of "Some e"] obtain w1 where
      t: "pr_teardown P w (ep_session E) (Some e) = Inr w1" "inv w1" "torn_down (ep_session E) w w1"
        "sessions w1 (ep_session E) = torn_session (Some e) S" by blast
    note l1 = inv_links [OF t(2)]
    have gone: "endpoints w1 e = None"
      by (rule torn_endpoint_gone [OF l1 t(3) E(1) refl]) (use t(4) torn_session_ep in metis)
    have p1: "part_cut w0 c w1" by (rule part_cut_step [OF Cons.prems(3) l l1 t(3) E(1,2,3) t(4)])
    have "ch' ! i \<noteq> (Some x, False)" if "proto_state w1 c = Rtsp_State ch'" "i < length ch'" for ch' x
    proof
      assume x: "ch' ! i = (Some x, False)"
      have "ps_le (proto_state w1 c) (proto_state w c)" using t(3) by (simp add: torn_down_def)
      then have "list_all2 chan_le ch' ch" unfolding that(1) ch ps_le_def by (auto intro: list_all2_refl)
      from list_all2_nthD [OF this that(2)] x e(2) have "x = e" by (simp add: chan_le_def)
      with channel_endpoint [OF l1 that x] gone show False by simp
    qed
    with freed_torn [OF t(3) Cons.prems(2)] have f1: "freed w1 c (insert i K)" by (intro freed_insert [OF l1]) blast+
    have "conns w1 = conns w" "conn_list w1 = conn_list w" using t(3) by (simp_all add: torn_down_def)
    with Cons.IH [OF t(2) f1 p1 "is"] show ?thesis unfolding un using chs e(2) E(1) t(1) by simp
  next
    case False
    have step: "disconnect_channels P w c (i # is) = disconnect_channels P w c is"
    proof (cases "ch ! i")
      case (Pair o_e rtcp)
      with False have "o_e = None \<or> rtcp" by auto
      with Pair chs show ?thesis by (cases o_e) auto
    qed
    have "ch' ! i \<noteq> (Some e, False)" if "proto_state w c = Rtsp_State ch'" for ch' e using False ch that by auto
    then have "freed w c (insert i K)" by (intro freed_insert [OF l Cons.prems(2)])
    from Cons.IH [OF Cons.prems(1) this Cons.prems(3) "is"] show ?thesis unfolding un step .
  qed
qed

lemma conn_disconnect_ok:
  assumes i: "inv w" and ch: "proto_state w c = Rtsp_State ch"
  shows "\<exists>w'. rtsp_conn_disconnect P w c = Inr w' \<and> inv w' \<and> proto_state w' c = No_State \<and>
    conns w' = conns w \<and> conn_list w' = conn_list w \<and>
    (\<forall>e E r q. endpoints w' e = Some E \<longrightarrow> ep_trans E \<noteq> Inter c r q) \<and>
    (\<forall>e. endpoints w' e = (if over w c (Some e) then None else endpoints w e)) \<and>
    (\<forall>s. sessions w' s = Option.bind (sessions w s) (\<lambda>S. reduced S (cut_eps w c (s_eps S))))"
proof -
  have "freed w c {}" using ch by (simp add: freed_def)
  from disconnect_channels_ok [OF i this part_cut_refl, of "[0..<MAX_INTERLEAVE_CHANNELS]"] obtain w1 where
    w1: "disconnect_channels P w c [0..<MAX_INTERLEAVE_CHANNELS] = Inr w1" "inv w1"
      "freed w1 c {..<MAX_INTERLEAVE_CHANNELS}" "part_cut w c w1" "conns w1 = conns w" "conn_list w1 = conn_list w"
    by (auto simp: atLeast0LessThan)
  note l = inv_links [OF w1(2)]
  let ?w = "w1\<lparr>proto_state := (proto_state w1)(c := No_State)\<rparr>"
  have none: "ep_trans E \<noteq> Inter c r q" if "endpoints w1 e = Some E" for e E r q by (rule freed_all [OF l w1(3) that])
  have whole: "endpoints w1 e = (if over w c (Some e) then None else endpoints w e)"
    "sessions w1 s = Option.bind (sessions w s) (\<lambda>S. reduced S (cut_eps w c (s_eps S)))" for e s
    by (rule part_cut_whole [OF w1(4) l none]; assumption)+
  have "inv ?w" by (rule inv_view [OF w1(2) closed_links [OF l none]]) (simp_all add: same_view_def)
  moreover have "\<forall>e. endpoints ?w e = (if over w c (Some e) then None else endpoints w e)"
    "\<forall>s. sessions ?w s = Option.bind (sessions w s) (\<lambda>S. reduced S (cut_eps w c (s_eps S)))" by (simp_all add: whole)
  moreover have "\<forall>e E r q. endpoints ?w e = Some E \<longrightarrow> ep_trans E \<noteq> Inter c r q" using none by simp
  ultimately show ?thesis using w1(1,5,6) by (intro exI [of _ ?w]) (simp add: rtsp_conn_disconnect_def)
qed

end

end
