(* ===== verification/Live_Calls.thy ===== *)
theory Live_Calls
  imports Live_Proofs Rtsp_Close
begin

text \<open>
  The calls that a server makes on a live session (open, set up, play, tear down) are total and
  keep the state well-formed, and what each does to the sessions.
\<close>

section \<open>Removing a session\<close>

definition drop_control :: "nat option \<Rightarrow> world \<Rightarrow> world" where
  "drop_control c w = (case c of None \<Rightarrow> w
     | Some r \<Rightarrow> w\<lparr>rs_list := remove1 r (rs_list w), rs_tab := (rs_tab w)(r := None)\<rparr>)"

definition without_session :: "world \<Rightarrow> nat \<Rightarrow> session \<Rightarrow> world" where
  "without_session w s S =
     (let w1 = drop_control (s_control S) (w\<lparr>entries := (entries w)(s_entry S :=
                 (entries w (s_entry S))\<lparr>le_sessions := remove1 s (le_sessions (entries w (s_entry S)))\<rparr>),
                 session_list := remove1 s (session_list w)\<rparr>)
      in w1\<lparr>sessions := (sessions w1)(s := None)\<rparr>)"

lemma drop_control_simps [simp]:
  "conns (drop_control c w) = conns w" "proto_state (drop_control c w) = proto_state w"
  "conn_list (drop_control c w) = conn_list w" "endpoints (drop_control c w) = endpoints w"
  "sessions (drop_control c w) = sessions w" "entries (drop_control c w) = entries w"
  "tracks (drop_control c w) = tracks w" "streams_of (drop_control c w) = streams_of w"
  "fresh (drop_control c w) = fresh w" "udp_out (drop_control c w) = udp_out w"
  "session_list (drop_control c w) = session_list w"
  by (simp_all add: drop_control_def split: option.split)

lemma rs_tab_drop_control: "rs_tab (drop_control c w) r = (if c = Some r then None else rs_tab w r)"
  by (auto simp: drop_control_def split: option.split)

lemma rs_list_drop_control:
  "distinct (rs_list w) \<Longrightarrow> distinct (rs_list (drop_control c w)) \<and>
     set (rs_list (drop_control c w)) = {r \<in> set (rs_list w). c \<noteq> Some r}"
  by (auto simp: drop_control_def split: option.split)

lemma without_session_simps [simp]:
  "conns (without_session w s S) = conns w" "proto_state (without_session w s S) = proto_state w"
  "conn_list (without_session w s S) = conn_list w" "endpoints (without_session w s S) = endpoints w"
  "sessions (without_session w s S) = (sessions w)(s := None)"
  "tracks (without_session w s S) = tracks w" "streams_of (without_session w s S) = streams_of w"
  "fresh (without_session w s S) = fresh w" "udp_out (without_session w s S) = udp_out w"
  "rs_tab (without_session w s S) r = (if s_control S = Some r then None else rs_tab w r)"
  "le_tracks (entries (without_session w s S) en) = le_tracks (entries w en)"
  "le_sessions (entries (without_session w s S) en) =
     (if en = s_entry S then remove1 s (le_sessions (entries w en)) else le_sessions (entries w en))"
  by (simp_all add: without_session_def Let_def rs_tab_drop_control)

lemma rtsp_okD:
  assumes "rtsp_ok w" "sessions w s = Some S" "s_control S = Some r"
  shows "\<exists>R. rs_tab w r = Some R \<and> rs_sess R = s"
  using assms unfolding rtsp_ok_def by auto

lemma del_session_eval:
  assumes "links_ok w" "sessions w s = Some S"
  shows "del_session (w\<lparr>entries := (entries w)(s_entry S :=
      (entries w (s_entry S))\<lparr>le_sessions := remove1 s (le_sessions (entries w (s_entry S)))\<rparr>)\<rparr>) s =
    Inr (without_session w s S)"
proof -
  have r: "rtsp_ok w" using assms(1) by (simp add: links_ok_def)
  show ?thesis
  proof (cases "s_control S")
    case None
    then show ?thesis using assms(2) by (simp add: del_session_def without_session_def drop_control_def)
  next
    case (Some c)
    from rtsp_okD [OF r assms(2) Some] obtain R where "rs_tab w c = Some R" by blast
    with Some show ?thesis using assms(2)
      by (simp add: del_session_def without_session_def drop_control_def rtsp_session_close_def)
  qed
qed

lemma without_session_links:
  assumes ok: "links_ok w" and s: "sessions w s = Some S" and none: "\<And>i. i < MAX_TRACKS \<Longrightarrow> s_eps S ! i = None"
  shows "links_ok (without_session w s S)"
proof -
  let ?w = "without_session w s S"
  have oks: "slots_ok w" "owners_ok w" "channels_ok w" "inter_ok w" "rtsp_ok w" "entries_ok w" "conns_ok w" "fresh_ok w"
    using ok by (simp_all add: links_ok_def)
  have no_ep: "None = x" if "x \<in> set (s_eps S)" for x
    using that none eps_length [OF ok s] by (metis in_set_conv_nth)
  have "slots_ok ?w" using oks(1) unfolding slots_ok_def by (simp split: if_splits) blast
  moreover have "owners_ok ?w"
    unfolding owners_ok_def
  proof (intro allI impI)
    fix e E assume e: "endpoints ?w e = Some E"
    with oks(2) obtain S' where S': "sessions w (ep_session E) = Some S'" "Some e \<in> set (s_eps S')"
      unfolding owners_ok_def by auto
    with no_ep s have "ep_session E \<noteq> s" by (metis option.distinct(1) option.inject)
    with S' show "\<exists>S. sessions ?w (ep_session E) = Some S \<and> Some e \<in> set (s_eps S)" by simp
  qed
  moreover have "channels_ok ?w" using oks(3) unfolding channels_ok_def without_session_simps .
  moreover have "inter_ok ?w" using oks(4) unfolding inter_ok_def without_session_simps .
  moreover have "rtsp_ok ?w"
  proof -
    let ?v = "w\<lparr>entries := (entries w)(s_entry S :=
                 (entries w (s_entry S))\<lparr>le_sessions := remove1 s (le_sessions (entries w (s_entry S)))\<rparr>),
                 session_list := remove1 s (session_list w)\<rparr>"
    have l: "rs_list ?w = rs_list (drop_control (s_control S) ?v)" by (simp add: without_session_def Let_def)
    have d: "distinct (rs_list ?v)" "rs_list ?v = rs_list w" using oks(5) by (simp_all add: rtsp_ok_def)
    from rs_list_drop_control [OF d(1), of "s_control S"] have lst: "distinct (rs_list ?w)"
      "set (rs_list ?w) = {r \<in> set (rs_list w). s_control S \<noteq> Some r}" unfolding l d(2) by auto
    have tab: "rs_tab ?w r = (if s_control S = Some r then None else rs_tab w r)" for r by simp
    show ?thesis
      unfolding rtsp_ok_def
    proof (intro conjI allI impI)
      show "distinct (rs_list ?w)" by (rule lst(1))
      show "r \<in> set (rs_list ?w) \<longleftrightarrow> rs_tab ?w r \<noteq> None" for r
        using oks(5) unfolding lst(2) tab rtsp_ok_def by simp
      show "map_option s_control (sessions ?w (rs_sess R)) = Some (Some r)" if "rs_tab ?w r = Some R" for r R
      proof -
        from that have r: "rs_tab w r = Some R" "s_control S \<noteq> Some r" by (simp_all add: tab split: if_splits)
        from oks(5) r(1) have m: "map_option s_control (sessions w (rs_sess R)) = Some (Some r)"
          unfolding rtsp_ok_def by blast
        with s r(2) have "rs_sess R \<noteq> s" by auto
        with m show ?thesis by simp
      qed
      show "\<exists>R. rs_tab ?w r = Some R \<and> rs_sess R = s'" if "map_option s_control (sessions ?w s') = Some (Some r)" for s' r
      proof -
        from that have m: "map_option s_control (sessions w s') = Some (Some r)" "s' \<noteq> s" by (simp_all split: if_splits)
        from oks(5) m(1) obtain R where R: "rs_tab w r = Some R" "rs_sess R = s'" unfolding rtsp_ok_def by blast
        have "s_control S \<noteq> Some r" using rtsp_okD [OF oks(5) s] R m(2) by auto
        with R show ?thesis by (simp add: tab)
      qed
    qed
  qed
  moreover have "entries_ok ?w"
  proof -
    have e: "map_option s_entry (sessions w s) = Some (s_entry S)" using s by simp
    show ?thesis using oks(6) e unfolding entries_ok_def by (auto split: if_splits)
  qed
  moreover have "conns_ok ?w" using oks(7) by (simp add: conns_ok_def)
  moreover have "fresh_ok ?w" using oks(8) by (simp add: fresh_ok_def)
  ultimately show ?thesis by (simp add: links_ok_def)
qed

section \<open>What live sessions depend on\<close>

lemma world_ok_view:
  assumes ok: "world_ok w" and links: "links_ok w'" and v: "same_view w w'"
  shows "world_ok w'"
proof -
  have eq: "entries w' = entries w" "tracks w' = tracks w" "streams_of w' = streams_of w"
    using v by (simp_all add: same_view_def)
  note cfg = same_config_simps [OF same_configI [OF eq(1,2)]]
  have "eps_ok w'"
    unfolding eps_ok_def cfg eq
  proof (intro allI impI, elim conjE)
    fix s S i assume a: "sessions w' s = Some S" "i < MAX_TRACKS" "s_eps S ! i \<noteq> None"
    from same_view_sessionD [OF v a(1)] obtain S0 where S0: "sessions w s = Some S0" "live_fields S0 = live_fields S" .
    have "s_eps S0 ! i \<noteq> None" "s_entry S0 = s_entry S" using S0(2) a(3) by (simp_all add: live_fields_def)
    moreover have "eps_ok w" using ok by (simp add: world_ok_def)
    ultimately have "has_media w (le_tracks (entries w (s_entry S0)) ! i)" using S0(1) a(2) unfolding eps_ok_def by blast
    then show "has_media w (le_tracks (entries w (s_entry S)) ! i)" using \<open>s_entry S0 = s_entry S\<close> by simp
  qed
  moreover have "graph_ok w'" using ok unfolding world_ok_def graph_ok_def cfg eq by blast
  moreover have "idle_ok w' t" if "used w' t" for t
  proof -
    have "watches w' p" if "watches w p" for p
    proof -
      from that obtain S where S: "sessions w (snd p) = Some S" "s_playing S" "s_eps S ! fst p \<noteq> None"
        unfolding watches_def by blast
      from same_view_sessionD [OF same_view_sym [OF v] S(1)] obtain S' where
        S': "sessions w' (snd p) = Some S'" "live_fields S' = live_fields S" .
      show ?thesis using S S' by (simp add: watches_def live_fields_def)
    qed
    then have "watched w t \<Longrightarrow> watched w' t" by (intro watched_cong [OF eq(1)]) (simp_all add: eq)
    moreover have "idle_ok w t" using ok that by (simp add: world_ok_def cfg)
    ultimately show ?thesis by (simp add: idle_ok_def eq)
  qed
  ultimately show ?thesis using ok links by (simp add: world_ok_def cfg)
qed

section \<open>Tearing down\<close>

lemma track_listeners_iff:
  "(j, s) \<in> set (track_listeners w t) \<longleftrightarrow> (\<exists>en\<in>set (lt_entries (tracks w t)). j < MAX_TRACKS \<and>
     le_tracks (entries w en) ! j = Some t \<and> s \<in> set (le_sessions (entries w en)))"
  by (fastforce simp: track_listeners_def image_iff)

lemma listeners_remove:
  assumes "(j, s') \<in> set (track_listeners w t)" "s' \<noteq> s"
  shows "(j, s') \<in> set (track_listeners (without_session w s S) t)"
  using assms by (auto simp: track_listeners_iff intro!: bexI)

lemma without_session_ok:
  assumes ok: "world_ok w" and s: "sessions w s = Some S" and none: "\<And>i. i < MAX_TRACKS \<Longrightarrow> s_eps S ! i = None"
  shows "world_ok (without_session w s S)"
proof -
  let ?w = "without_session w s S"
  have oks: "links_ok w" "config_ok w" "eps_ok w" "graph_ok w" "entries_ok w"
    using ok by (simp_all add: world_ok_def links_ok_def)
  have same: "same_config w ?w" by (simp add: same_config_def)
  note cfg = same_config_simps [OF same]
  have "eps_ok ?w" using oks(3) unfolding eps_ok_def cfg by (simp split: if_splits) blast
  moreover have "graph_ok ?w" using oks(4) unfolding graph_ok_def cfg without_session_simps .
  moreover have "idle_ok ?w t" if "used ?w t" for t
  proof -
    have "watched ?w t" if "watched w t"
    proof -
      from that obtain p where p: "p \<in> set (track_listeners w t)" "watches w p" unfolding watched_def by blast
      obtain j s' where js: "p = (j, s')" by (cases p)
      have "j < MAX_TRACKS" using listeners_live [OF oks(5)] p(1) js by blast
      with p(2) s none js have "s' \<noteq> s" by (auto simp: watches_def)
      have "watches ?w (j, s')" using p(2) js \<open>s' \<noteq> s\<close> by (simp add: watches_def)
      moreover have "(j, s') \<in> set (track_listeners ?w t)" by (rule listeners_remove) (use p(1) js \<open>s' \<noteq> s\<close> in simp_all)
      ultimately show ?thesis unfolding watched_def by blast
    qed
    moreover have "idle_ok w t" using ok that by (simp add: world_ok_def cfg)
    ultimately show ?thesis by (simp add: idle_ok_def)
  qed
  ultimately show ?thesis
    using oks(2) without_session_links [OF oks(1) s none] by (simp add: world_ok_def cfg)
qed

lemma live_teardown_ok:
  assumes ok: "world_ok w" and s: "sessions w s = Some S"
  shows "\<exists>w'. live_teardown w s ep = Inr w' \<and> world_ok w' \<and> torn_down s w w' \<and> sessions w' s = torn_session ep S"
proof -
  let ?l = "entry_tracks w (s_entry S)"
  have "?l = drop 0 ?l" by simp
  from teardown_tracks_ok [OF ok s refl this, of ep 0] obtain w1 r eps where w1:
    "teardown_tracks w s ep 0 ?l 0 = Inr (w1, r)" "world_ok w1" "only_session s w w1"
    "sessions w1 s = Some (S\<lparr>s_eps := eps\<rparr>)" "torn_from 0 (length ?l) ep (s_eps S) eps r" by auto
  have links: "links_ok w1" "config_ok w1" "eps_ok w1" using w1(2) by (simp_all add: world_ok_def)
  have len: "length eps = MAX_TRACKS" using eps_length [OF links(1) w1(4)] by simp
  have beyond: "eps ! j = None" if j: "j < MAX_TRACKS" "\<not> j < length ?l" for j
  proof (rule ccontr)
    assume "eps ! j \<noteq> None"
    then have "has_media w1 (le_tracks (entries w1 (s_entry S)) ! j)"
      using links(3) w1(4) j(1) unfolding eps_ok_def by fastforce
    with links(2) j(1) have "j < length (entry_tracks w1 (s_entry S))" unfolding config_ok_def by blast
    with j(2) only_session_tracks [OF w1(3)] show False by simp
  qed
  have old: "length (s_eps S) = MAX_TRACKS" using eps_length [OF _ s] ok by (simp add: world_ok_def)
  have gone: "eps ! j \<noteq> Some e" if "ep = Some e" "j < MAX_TRACKS" for e j
    using beyond [OF that(2)] torn_fromD(4) [OF w1(5) _ _ that(1), of j] by (cases "j < length ?l") simp_all
  have same: "eps ! j = s_eps S ! j \<or> eps ! j = None" "ep = Some e \<and> s_eps S ! j \<noteq> Some e \<longrightarrow> eps ! j = s_eps S ! j" if "j < MAX_TRACKS" for e j
    using torn_fromD(1,5) [OF w1(5) that] by blast+
  have cut: "eps = drop_ep ep (s_eps S)" if "ep \<noteq> None"
  proof (rule nth_equalityI)
    fix j assume "j < length eps"
    with len have j: "j < MAX_TRACKS" by simp
    from that obtain e where e: "ep = Some e" by blast
    show "eps ! j = drop_ep ep (s_eps S) ! j"
    proof (cases "s_eps S ! j = Some e")
      case True
      then show ?thesis using same(1) [OF j] gone [OF e j] j e by (simp add: drop_ep_def old)
    next
      case False
      then show ?thesis using same(2) [OF j] j e by (simp add: drop_ep_def old)
    qed
  qed (simp add: len old drop_ep_def)
  show ?thesis
  proof (cases "r = 0")
    case False
    have td: "torn_down s w w1"
      using w1(3,4) s by (auto simp: torn_down_def only_session_def)
    have "ep \<noteq> None" using False torn_fromD(2) [OF w1(5)] by blast
    note eps = cut [OF this]
    from torn_fromD(6) [OF w1(5) False] obtain j where "j < MAX_TRACKS" "eps ! j \<noteq> None" by blast
    then have "\<not> list_all (\<lambda>x. x = None) eps" using len by (auto simp: list_all_length)
    then have "torn_session ep S = Some (S\<lparr>s_eps := eps\<rparr>)" by (simp add: torn_session_def eps)
    moreover have "live_teardown w s ep = Inr w1" using w1(1) False s by (simp add: live_teardown_def)
    ultimately show ?thesis using w1(2,4) td by (intro exI [of _ w1]) simp
  next
    case True
    let ?S = "S\<lparr>s_eps := eps\<rparr>"
    have none: "s_eps ?S ! j = None" if "j < MAX_TRACKS" for j
      using beyond [OF that] torn_fromD(3) [OF w1(5) True, of j] by (cases "j < length ?l") simp_all
    have "torn_session ep S = None"
    proof (cases ep)
      case (Some e)
      have "list_all (\<lambda>x. x = None) eps" using none len by (simp add: list_all_length)
      then show ?thesis using cut Some by (simp add: torn_session_def)
    qed simp
    note whole = this
    have run: "live_teardown w s ep = Inr (without_session w1 s ?S)"
      using w1(1) True s del_session_eval [OF links(1) w1(4)] by (simp add: live_teardown_def)
    have "torn_down s w (without_session w1 s ?S)"
      using w1(3) by (auto simp: torn_down_def only_session_def)
    then show ?thesis unfolding whole using run without_session_ok [OF w1(2,4) none] by (intro exI) auto
  qed
qed

section \<open>Opening\<close>

lemma live_open_eval:
  "live_open w en = (w\<lparr>sessions := (sessions w)(fresh w := Some (blank_session en)),
       session_list := fresh w # session_list w, fresh := fresh w + 1,
       entries := (entries w)(en := (entries w en)\<lparr>le_sessions := fresh w # le_sessions (entries w en)\<rparr>)\<rparr>, fresh w)"
  by (simp add: live_open_def new_session_def blank_session_def Let_def)

lemma live_open_links:
  assumes ok: "links_ok w"
  shows "links_ok (fst (live_open w en))"
proof -
  let ?s = "fresh w" and ?w = "fst (live_open w en)"
  have oks: "slots_ok w" "owners_ok w" "channels_ok w" "inter_ok w" "rtsp_ok w" "entries_ok w" "conns_ok w" "fresh_ok w"
    using ok by (simp_all add: links_ok_def)
  note new = fresh_okD [OF oks(8)]
  have eq: "sessions ?w = (sessions w)(?s := Some (blank_session en))" "endpoints ?w = endpoints w"
    "proto_state ?w = proto_state w" "conns ?w = conns w" "conn_list ?w = conn_list w" "rs_tab ?w = rs_tab w"
    "rs_list ?w = rs_list w" "fresh ?w = fresh w + 1" by (simp_all add: live_open_eval)
  have blank: "s_eps (blank_session en) ! i = None" if "i < MAX_TRACKS" for i
    using that by (simp add: blank_session_def)
  have len: "length (s_eps (blank_session en)) = MAX_TRACKS" by (simp add: blank_session_def)
  have "slots_ok ?w"
    unfolding slots_ok_def eq
  proof (intro allI impI, elim conjE)
    fix s S i e assume a: "((sessions w)(?s := Some (blank_session en))) s = Some S" "i < length (s_eps S)" "s_eps S ! i = Some e"
    with blank len have "s \<noteq> ?s" by (metis fun_upd_same option.distinct(1) option.inject)
    with a oks(1) show "(\<exists>E. endpoints w e = Some E \<and> ep_session E = s) \<and>
        (\<forall>j < length (s_eps S). s_eps S ! j = Some e \<longrightarrow> j = i)" unfolding slots_ok_def by simp
  qed
  moreover have "owners_ok ?w"
    unfolding owners_ok_def eq
  proof (intro allI impI)
    fix e E assume "endpoints w e = Some E"
    with oks(2) obtain S where S: "sessions w (ep_session E) = Some S" "Some e \<in> set (s_eps S)"
      unfolding owners_ok_def by blast
    with new(1) have "ep_session E \<noteq> ?s" by auto
    with S show "\<exists>S. ((sessions w)(?s := Some (blank_session en))) (ep_session E) = Some S \<and> Some e \<in> set (s_eps S)" by simp
  qed
  moreover have "channels_ok ?w" using oks(3) unfolding channels_ok_def eq .
  moreover have "inter_ok ?w" using oks(4) unfolding inter_ok_def eq .
  moreover have "rtsp_ok ?w"
  proof -
    have c: "map_option s_control (((sessions w)(?s := Some (blank_session en))) s) = Some (Some r) \<longleftrightarrow>
        map_option s_control (sessions w s) = Some (Some r)" for s r
      using new(1) by (simp add: blank_session_def)
    show ?thesis using oks(5) unfolding rtsp_ok_def eq c .
  qed
  moreover have "entries_ok ?w"
  proof -
    have nin: "?s \<notin> set (le_sessions (entries w en'))" for en'
    proof
      assume "?s \<in> set (le_sessions (entries w en'))"
      with oks(6) have "map_option s_entry (sessions w ?s) = Some en'" unfolding entries_ok_def by blast
      with new(1) show False by simp
    qed
    have le: "le_sessions (entries ?w en') = (if en' = en then ?s # le_sessions (entries w en') else le_sessions (entries w en'))" for en'
      by (simp add: live_open_eval)
    have ent: "map_option s_entry (((sessions w)(?s := Some (blank_session en))) s) = Some en' \<longleftrightarrow>
        (if s = ?s then en' = en else map_option s_entry (sessions w s) = Some en')" for s en'
      by (auto simp: blank_session_def)
    show ?thesis
      unfolding entries_ok_def le eq ent using oks(6) nin len unfolding entries_ok_def by (auto split: if_splits)
  qed
  moreover have "conns_ok ?w" using oks(7) unfolding conns_ok_def eq .
  moreover have "fresh_ok ?w" using oks(8) unfolding fresh_ok_def eq by simp
  ultimately show ?thesis by (simp add: links_ok_def)
qed

lemma live_open_ok:
  assumes ok: "world_ok w"
  shows "world_ok (fst (live_open w en))"
proof -
  let ?w = "fst (live_open w en)" and ?s = "fresh w"
  have links: "links_ok w" and new: "sessions w ?s = None" and ents: "entries_ok w"
    using ok by (auto simp: world_ok_def links_ok_def dest: fresh_okD)
  have same: "same_config w ?w" by (simp add: same_config_def live_open_eval)
  note cfg = same_config_simps [OF same]
  have "eps_ok ?w"
    unfolding eps_ok_def cfg
  proof (intro allI impI, elim conjE)
    fix s S i assume a: "sessions ?w s = Some S" "i < MAX_TRACKS" "s_eps S ! i \<noteq> None"
    then have "s \<noteq> ?s" by (auto simp: live_open_eval blank_session_def)
    with a ok have "has_media w (le_tracks (entries w (s_entry S)) ! i)"
      unfolding world_ok_def eps_ok_def by (simp add: live_open_eval)
    then show "has_media w (le_tracks (entries ?w (s_entry S)) ! i)" by (auto simp: live_open_eval)
  qed
  moreover have "graph_ok ?w" using ok unfolding world_ok_def graph_ok_def cfg by (simp add: live_open_eval) blast
  moreover have "idle_ok ?w t" if "used ?w t" for t
  proof -
    have "watched ?w t" if w: "watched w t"
    proof -
      from w obtain p where p: "p \<in> set (track_listeners w t)" "watches w p" unfolding watched_def by blast
      have "p \<in> set (track_listeners ?w t)" 
        using p(1) track_listeners_iff [of "fst p" "snd p"] by (auto simp: live_open_eval intro!: bexI)
      moreover have "watches ?w p" using p(2) new by (auto simp: watches_def live_open_eval)
      ultimately show ?thesis unfolding watched_def by blast
    qed
    moreover have "idle_ok w t" using ok that by (simp add: world_ok_def cfg)
    ultimately show ?thesis by (simp add: idle_ok_def live_open_eval)
  qed
  ultimately show ?thesis using ok live_open_links [OF links] by (simp add: world_ok_def cfg)
qed

section \<open>Setting up\<close>

lemma live_setup_eval:
  assumes "sessions w s = Some S" "le_tracks (entries w (s_entry S)) ! t = Some k" "lt_media (tracks w k) = Some m"
  shows "live_setup w rnd now s t = Inr (with_endpoint w s t
    (new_rtp_endpoint rnd now s (media_payload m (96 + int t)) (lt_tick2ts (tracks w k))), True)"
  using assms by (simp add: live_setup_def with_endpoint_def Let_def)

lemma new_rtp_endpoint_links [simp]:
  "ep_session (new_rtp_endpoint rnd now s p r) = s" "ep_trans (new_rtp_endpoint rnd now s p r) = No_Trans"
  "packet_count (new_rtp_endpoint rnd now s p r) = 0"
  by (simp_all add: new_rtp_endpoint_def)

lemma with_endpoint_ok:
  assumes ok: "world_ok w" and s: "sessions w s = Some S" and t: "t < MAX_TRACKS" "s_eps S ! t = None"
    and m: "has_media w (le_tracks (entries w (s_entry S)) ! t)" and E: "ep_session E = s" "ep_trans E = No_Trans"
  shows "world_ok (with_endpoint w s t E)"
proof -
  let ?w = "with_endpoint w s t E"
  have links: "links_ok w" "entries_ok w" using ok by (simp_all add: world_ok_def links_ok_def)
  have len: "length (s_eps S) = MAX_TRACKS" by (rule eps_length [OF links(1) s])
  have sess: "sessions ?w = (sessions w)(s := Some (S\<lparr>s_eps := (s_eps S)[t := Some (fresh w)]\<rparr>))"
    using s by (simp add: with_endpoint_def)
  have eq: "entries ?w = entries w" "tracks ?w = tracks w" "streams_of ?w = streams_of w"
    by (simp_all add: with_endpoint_def)
  note cfg = same_config_simps [OF same_configI [OF eq(1,2)]]
  have "eps_ok ?w"
    unfolding eps_ok_def cfg eq
  proof (intro allI impI, elim conjE)
    fix s' S' i assume a: "sessions ?w s' = Some S'" "i < MAX_TRACKS" "s_eps S' ! i \<noteq> None"
    show "has_media w (le_tracks (entries w (s_entry S')) ! i)"
    proof (cases "s' = s \<and> i = t")
      case True
      with a(1) m show ?thesis by (auto simp: sess)
    next
      case False
      with a(1,3) s obtain S0 where "sessions w s' = Some S0" "s_eps S0 ! i \<noteq> None" "s_entry S0 = s_entry S'"
        by (auto simp: sess split: if_splits)
      moreover have "eps_ok w" using ok by (simp add: world_ok_def)
      ultimately show ?thesis using a(2) unfolding eps_ok_def by metis
    qed
  qed
  moreover have "graph_ok ?w" using ok unfolding world_ok_def graph_ok_def cfg eq by blast
  moreover have "idle_ok ?w t'" if "used ?w t'" for t'
  proof -
    have "watches ?w p" if p: "watches w p" "p \<in> set (track_listeners w t')" for p
    proof -
      have "fst p < MAX_TRACKS" using listeners_live [OF links(2), of "fst p" "snd p" t'] p(2) by auto
      with p(1) s len show ?thesis by (cases "fst p = t") (auto simp: watches_def sess)
    qed
    then have "watched w t' \<Longrightarrow> watched ?w t'" by (intro watched_cong [OF eq(1)]) (simp_all add: eq)
    moreover have "idle_ok w t'" using ok that by (simp add: world_ok_def cfg)
    ultimately show ?thesis by (simp add: idle_ok_def eq)
  qed
  ultimately show ?thesis
    using ok with_endpoint_links [OF links(1) s t E] by (simp add: world_ok_def cfg)
qed

text \<open>Setting up a track either refuses, and changes nothing, or adds an endpoint in its slot.\<close>

lemma live_setup_ok:
  assumes ok: "world_ok w" and s: "sessions w s = Some S" and t: "t < MAX_TRACKS" "s_eps S ! t = None"
  shows "live_setup w rnd now s t = Inr (w, False) \<or>
    (\<exists>E. live_setup w rnd now s t = Inr (with_endpoint w s t E, True) \<and> world_ok (with_endpoint w s t E) \<and>
       ep_session E = s \<and> ep_trans E = No_Trans \<and> packet_count E = 0)"
proof (cases "has_media w (le_tracks (entries w (s_entry S)) ! t)")
  case False
  then show ?thesis using s by (auto simp: has_media_def live_setup_def split: option.splits)
next
  case True
  then obtain k m where k: "le_tracks (entries w (s_entry S)) ! t = Some k" "lt_media (tracks w k) = Some m"
    by (auto simp: has_media_def split: option.splits)
  let ?E = "new_rtp_endpoint rnd now s (media_payload m (96 + int t)) (lt_tick2ts (tracks w k))"
  have "world_ok (with_endpoint w s t ?E)" by (rule with_endpoint_ok [OF ok s t True]) simp_all
  then show ?thesis
    using live_setup_eval [OF s k, of rnd now] by (intro disjI2 exI [of _ ?E]) simp
qed

section \<open>Playing\<close>

lemma waiting_on_ok:
  assumes ok: "world_ok w" and s: "sessions w s = Some S" "s_playing S"
    and i: "i < length (entry_tracks w (s_entry S))" "t = entry_tracks w (s_entry S) ! i" and e: "s_eps S ! i = Some e"
  shows "\<exists>g. world_set_waiting w (lt_dest (tracks w t)) True = Inr (w\<lparr>streams_of := g\<rparr>) \<and>
    world_ok (w\<lparr>streams_of := g\<rparr>) \<and> waiting g (lt_dest (tracks w t)) \<and>
    (\<forall>t'. used w t' \<and> waiting (streams_of w) (lt_dest (tracks w t')) \<longrightarrow> waiting g (lt_dest (tracks w t')))"
proof -
  have oks: "graph_ok w" "config_ok w" "entries_ok w" using ok by (simp_all add: world_ok_def links_ok_def)
  have ut: "used w t" and it: "le_tracks (entries w (s_entry S)) ! i = Some t" and im: "i < MAX_TRACKS"
    using entry_tracks_nth [OF i(1)] i(2) by auto
  from world_set_waiting_ok [OF oks(1) ut oks(2), of True] obtain g where g:
    "world_set_waiting w (lt_dest (tracks w t)) True = Inr (w\<lparr>streams_of := g\<rparr>)" "graph_ok (w\<lparr>streams_of := g\<rparr>)"
    "waiting g (lt_dest (tracks w t))"
    "\<And>t'. used w t' \<Longrightarrow> t' \<noteq> t \<Longrightarrow> waiting g (lt_dest (tracks w t')) = waiting (streams_of w) (lt_dest (tracks w t'))"
    by auto
  let ?w = "w\<lparr>streams_of := g\<rparr>"
  have same: "same_config w ?w" by (rule same_configI) simp_all
  note cfg = same_config_simps [OF same]
  have "watched w t"
  proof -
    have "Some t \<in> set (le_tracks (entries w (s_entry S)))"
      using it im oks(2) unfolding config_ok_def by (metis nth_mem)
    then have "s_entry S \<in> set (lt_entries (tracks w t))" using oks(2) unfolding config_ok_def by blast
    moreover have "s \<in> set (le_sessions (entries w (s_entry S)))" using oks(3) s(1) unfolding entries_ok_def by auto
    ultimately have "(i, s) \<in> set (track_listeners w t)" using it im by (auto simp: track_listeners_iff)
    then show ?thesis unfolding watched_def using s e by (intro bexI [of _ "(i, s)"]) (simp_all add: watches_def)
  qed
  then have wt: "watched ?w t" by (rule watched_cong [rotated -1]) (simp_all add: watches_def)
  have "idle_ok ?w t'" if u: "used ?w t'" for t'
  proof (cases "t' = t")
    case True
    with wt show ?thesis by (simp add: idle_ok_def)
  next
    case False
    have u': "used w t'" using u unfolding cfg .
    have "watched w t' \<Longrightarrow> watched ?w t'" by (rule watched_cong) (simp_all add: watches_def)
    moreover have "idle_ok w t'" using ok u' by (simp add: world_ok_def)
    ultimately show ?thesis using g(4) [OF u' False] by (simp add: idle_ok_def)
  qed
  moreover have "eps_ok ?w" using ok unfolding world_ok_def eps_ok_def cfg by simp blast
  ultimately have "world_ok ?w" using ok g(2) by (simp add: world_ok_def cfg)
  moreover have "waiting g (lt_dest (tracks w t'))" if "used w t'" "waiting (streams_of w) (lt_dest (tracks w t'))" for t'
    using g(3,4) that by (cases "t' = t") auto
  ultimately show ?thesis using g(1,3) by blast
qed

lemma play_tracks_ok:
  "world_ok w \<Longrightarrow> sessions w s = Some S \<Longrightarrow> s_playing S \<Longrightarrow> entry_tracks w (s_entry S) = l \<Longrightarrow> ts = drop i l \<Longrightarrow>
     may_play w S (st \<noteq> None) \<Longrightarrow>
     \<exists>g st'. play_tracks w s i ts st = Inr (w\<lparr>streams_of := g\<rparr>, st') \<and> world_ok (w\<lparr>streams_of := g\<rparr>) \<and>
       (st' = st \<or> st \<noteq> None \<and> st' = Some 0) \<and>
       (\<forall>t'. used w t' \<and> waiting (streams_of w) (lt_dest (tracks w t')) \<longrightarrow> waiting g (lt_dest (tracks w t'))) \<and>
       (\<forall>j. i \<le> j \<and> j < length l \<and> s_eps S ! j \<noteq> None \<longrightarrow> waiting g (lt_dest (tracks w (l ! j))))"
proof (induction ts arbitrary: w i st)
  case Nil
  then show ?case by (intro exI [of _ "streams_of w"] exI [of _ st]) auto
next
  case (Cons t ts)
  note i = drop_ConsD [OF Cons.prems(5)]
  have i1: "i < length (entry_tracks w (s_entry S))" "t = entry_tracks w (s_entry S) ! i"
    using i Cons.prems(4) by simp_all
  have i2: "i < MAX_TRACKS" and ut: "used w t" using entry_tracks_nth [OF i1(1)] i1(2) by auto
  have Suc_le: "i \<le> j \<longleftrightarrow> j = i \<or> i + 1 \<le> j" for j by auto
  show ?case
  proof (cases "s_eps S ! i")
    case None
    from Cons.IH [OF Cons.prems(1-4) i(3) Cons.prems(6)] obtain g st' where ih:
      "play_tracks w s (i + 1) ts st = Inr (w\<lparr>streams_of := g\<rparr>, st')" "world_ok (w\<lparr>streams_of := g\<rparr>)" "st' = st \<or> st \<noteq> None \<and> st' = Some 0"
      "\<forall>t'. used w t' \<and> waiting (streams_of w) (lt_dest (tracks w t')) \<longrightarrow> waiting g (lt_dest (tracks w t'))"
      "\<forall>j. i + 1 \<le> j \<and> j < length l \<and> s_eps S ! j \<noteq> None \<longrightarrow> waiting g (lt_dest (tracks w (l ! j)))" by blast
    have "play_tracks w s i (t # ts) st = Inr (w\<lparr>streams_of := g\<rparr>, st')" using ih(1) None Cons.prems(2) by simp
    moreover have "waiting g (lt_dest (tracks w (l ! j)))" if "i \<le> j" "j < length l" "s_eps S ! j \<noteq> None" for j
      using ih(5) that None unfolding Suc_le by blast
    ultimately show ?thesis using ih(2-4) by blast
  next
    case (Some e)
    from waiting_on_ok [OF Cons.prems(1-3) i1 Some] obtain g1 where g1:
      "world_set_waiting w (lt_dest (tracks w t)) True = Inr (w\<lparr>streams_of := g1\<rparr>)" "world_ok (w\<lparr>streams_of := g1\<rparr>)"
      "waiting g1 (lt_dest (tracks w t))"
      "\<forall>t'. used w t' \<and> waiting (streams_of w) (lt_dest (tracks w t')) \<longrightarrow> waiting g1 (lt_dest (tracks w t'))" by blast
    let ?w = "w\<lparr>streams_of := g1\<rparr>"
    have links: "links_ok w" using Cons.prems(1) by (simp add: world_ok_def)
    have "i < length (s_eps S)" using eps_length [OF links Cons.prems(2)] i2 by simp
    then obtain E where E: "endpoints w e = Some E" using slot_endpoint [OF links Cons.prems(2) _ Some] by blast
    define st1 where "st1 = (if packet_count E = 0 then st else Some 0)"
    have step: "play_tracks w s i (t # ts) st = play_tracks ?w s (i + 1) ts st1"
      using g1(1) Cons.prems(2,6) Some E i2 by (auto simp: st1_def may_play_def)
    have same: "same_config w ?w" by (rule same_configI) simp_all
    note cfg = same_config_simps [OF same]
    have "sessions ?w s = Some S" "entry_tracks ?w (s_entry S) = l" "may_play ?w S (st1 \<noteq> None)"
      using Cons.prems(2,4,6) by (simp_all add: cfg may_play_def st1_def)
    from Cons.IH [OF g1(2) this(1) Cons.prems(3) this(2) i(3) this(3)] obtain g st' where ih:
      "play_tracks ?w s (i + 1) ts st1 = Inr (?w\<lparr>streams_of := g\<rparr>, st')" "world_ok (?w\<lparr>streams_of := g\<rparr>)" "st' = st1 \<or> st1 \<noteq> None \<and> st' = Some 0"
      "\<forall>t'. used ?w t' \<and> waiting g1 (lt_dest (tracks w t')) \<longrightarrow> waiting g (lt_dest (tracks w t'))"
      "\<forall>j. i + 1 \<le> j \<and> j < length l \<and> s_eps S ! j \<noteq> None \<longrightarrow> waiting g (lt_dest (tracks w (l ! j)))" by auto
    have keep: "\<forall>t'. used w t' \<and> waiting (streams_of w) (lt_dest (tracks w t')) \<longrightarrow> waiting g (lt_dest (tracks w t'))"
      using g1(4) ih(4) unfolding cfg by blast
    have "waiting g (lt_dest (tracks w (l ! i)))" using ih(4) g1(3) ut i unfolding cfg by blast
    then have "waiting g (lt_dest (tracks w (l ! j)))" if "i \<le> j" "j < length l" "s_eps S ! j \<noteq> None" for j
      using ih(5) that unfolding Suc_le by blast
    moreover have "st' = st \<or> st \<noteq> None \<and> st' = Some 0" 
      using ih(3) Cons.prems(6) Some E i2 by (auto simp: st1_def may_play_def split: if_splits)
    ultimately show ?thesis using ih(1,2) keep step by auto
  qed
qed

lemma live_play_ok:
  assumes ok: "world_ok w" and s: "sessions w s = Some S" and may: "may_play w S have_start"
  shows "\<exists>g st. live_play w s have_start = Inr ((upd_session s (\<lambda>S. S\<lparr>s_playing := True\<rparr>) w)\<lparr>streams_of := g\<rparr>, st) \<and>
    world_ok ((upd_session s (\<lambda>S. S\<lparr>s_playing := True\<rparr>) w)\<lparr>streams_of := g\<rparr>) \<and>
    (st \<noteq> None \<longleftrightarrow> have_start) \<and>
    (\<forall>j < length (entry_tracks w (s_entry S)). s_eps S ! j \<noteq> None \<longrightarrow>
       waiting g (lt_dest (tracks w (entry_tracks w (s_entry S) ! j))))"
proof -
  let ?w = "upd_session s (\<lambda>S. S\<lparr>s_playing := True\<rparr>) w" and ?S = "S\<lparr>s_playing := True\<rparr>"
  have same: "same_config w ?w" by (rule same_configI) simp_all
  note cfg = same_config_simps [OF same]
  have sess: "sessions ?w = (sessions w)(s := Some ?S)" using s by simp
  have oks: "slots_ok w" "owners_ok w" "channels_ok w" "inter_ok w" "rtsp_ok w" "entries_ok w" "conns_ok w" "fresh_ok w"
    using ok by (simp_all add: world_ok_def links_ok_def)
  have "slots_ok ?w" using oks(1) s unfolding slots_ok_def sess by (auto split: if_splits)
  moreover have "owners_ok ?w" using oks(2) s unfolding owners_ok_def sess by (auto split: if_splits) (metis option.inject)+
  moreover have "channels_ok ?w" using oks(3) by (simp add: channels_ok_def)
  moreover have "inter_ok ?w" by (rule inter_ok_cong [OF oks(4)]) simp_all
  moreover have "rtsp_ok ?w" by (rule rtsp_ok_cong [OF oks(5)]) (use s in \<open>simp_all add: sess\<close>)
  moreover have "entries_ok ?w" by (rule entries_ok_cong [OF oks(6)]) (use s in \<open>auto simp: sess split: if_splits\<close>)
  moreover have "conns_ok ?w" using oks(7) by (simp add: conns_ok_def)
  moreover have "fresh_ok ?w" using oks(8) by (simp add: fresh_ok_def)
  ultimately have links: "links_ok ?w" by (simp add: links_ok_def)
  have "eps_ok ?w" using ok s unfolding world_ok_def eps_ok_def cfg sess by (auto split: if_splits)
  moreover have "graph_ok ?w" using ok unfolding world_ok_def graph_ok_def cfg by simp blast
  moreover have "idle_ok ?w t" if "used ?w t" for t
  proof -
    have "watched w t \<Longrightarrow> watched ?w t" by (rule watched_cong) (use s in \<open>auto simp: watches_def\<close>)
    moreover have "idle_ok w t" using ok that by (simp add: world_ok_def cfg)
    ultimately show ?thesis by (simp add: idle_ok_def)
  qed
  ultimately have ok': "world_ok ?w" using ok links by (simp add: world_ok_def cfg)
  let ?l = "entry_tracks w (s_entry S)" and ?st = "if have_start then Some (-1 :: int) else None"
  have "sessions ?w s = Some ?S" "s_playing ?S" "entry_tracks ?w (s_entry ?S) = ?l" "?l = drop 0 ?l"
    "may_play ?w ?S (?st \<noteq> None)"
    using s may fun_cong [OF cfg(2)] by (auto simp: may_play_def)
  from play_tracks_ok [OF ok' this] obtain g st where g:
    "play_tracks ?w s 0 ?l ?st = Inr (?w\<lparr>streams_of := g\<rparr>, st)" "world_ok (?w\<lparr>streams_of := g\<rparr>)" "st = ?st \<or> ?st \<noteq> None \<and> st = Some 0"
    "\<forall>j. 0 \<le> j \<and> j < length ?l \<and> s_eps ?S ! j \<noteq> None \<longrightarrow> waiting g (lt_dest (tracks w (?l ! j)))" by auto
  have "live_play w s have_start = Inr (?w\<lparr>streams_of := g\<rparr>, st)" using g(1) s by (simp add: live_play_def)
  moreover have "st \<noteq> None \<longleftrightarrow> have_start" using g(3) by (auto split: if_splits)
  ultimately show ?thesis using g(2,4) by (intro exI [of _ g] exI [of _ st]) simp
qed

section \<open>The contract\<close>

interpretation live: session_provider "live_provider dims" world_ok
proof unfold_locales
  fix w w' :: world and s en t :: nat and S :: session and rnd now have_start ep f
  show "world_ok w \<Longrightarrow> links_ok w" by (simp add: world_ok_def)
  show "world_ok w \<Longrightarrow> links_ok w' \<Longrightarrow> same_view w w' \<Longrightarrow> world_ok w'" by (rule world_ok_view)
  show "world_ok w \<Longrightarrow> pr_open (live_provider dims) w en = (w', s) \<Longrightarrow> world_ok w' \<and> opened w en w' s"
    using live_open_ok [of w en] by (auto simp: live_provider_def live_open_eval opened_def)
  show "pr_setup (live_provider dims) w rnd now s t = Inr (w, False) \<or>
      (\<exists>E. pr_setup (live_provider dims) w rnd now s t = Inr (with_endpoint w s t E, True) \<and>
         world_ok (with_endpoint w s t E) \<and> ep_session E = s \<and> ep_trans E = No_Trans)"
    if "world_ok w" "sessions w s = Some S" "t < MAX_TRACKS" "s_eps S ! t = None"
    using live_setup_ok [OF that, of rnd now] by (auto simp: live_provider_def)
  show "\<exists>w' start. pr_play (live_provider dims) w s have_start = Inr (w', start) \<and> world_ok w' \<and> played w w'"
    if "world_ok w" "sessions w s = Some S" "may_play w S have_start"
    using live_play_ok [OF that] that(2) by (fastforce simp: live_provider_def played_def)
  show "\<exists>w'. pr_teardown (live_provider dims) w s ep = Inr w' \<and> world_ok w' \<and> torn_down s w w' \<and> sessions w' s = torn_session ep S"
    if "world_ok w" "sessions w s = Some S"
    using live_teardown_ok [OF that, of ep] by (simp add: live_provider_def)
  show "world_ok (f w s) \<and> played w (f w s)" if "pr_pause (live_provider dims) = Some f"
    using that by (simp add: live_provider_def)
qed

end
