(* ===== verification/Rtsp_Live.thy ===== *)
theory Rtsp_Live
  imports Live_Calls
begin

text \<open>
  The RTSP server of \<open>rtsp.c\<close> on top of the live sessions of \<open>live.c\<close>: what a request may do to
  the whole state, how playing and tearing down switch the sources, and the requests that
  the code does not survive.
\<close>

section \<open>Descriptions\<close>

text \<open>
  A location can be described when its first track exists and the texts of its tracks, which
  the packetisers write, are not longer than 3000 characters each.
\<close>

definition track_fits :: "(nat \<Rightarrow> int \<times> int) \<Rightarrow> world \<Rightarrow> nat \<Rightarrow> nat \<Rightarrow> bool" where
  "track_fits dims w i t \<longleftrightarrow>
     (\<forall>m x. lt_media (tracks w t) = Some m \<and> media_sdp m (96 + int i) 0 = Some x \<longrightarrow> length x \<le> 3000) \<and>
     \<bar>fst (dims (lt_dest (tracks w t)))\<bar> < 10 ^ 10 \<and> \<bar>snd (dims (lt_dest (tracks w t)))\<bar> < 10 ^ 10"

definition sdp_fits :: "(nat \<Rightarrow> int \<times> int) \<Rightarrow> world \<Rightarrow> bool" where
  "sdp_fits dims w \<longleftrightarrow> (\<forall>l\<in>set (rtsp_loc_list w).
     le_tracks (entries w (loc_private l)) ! 0 \<noteq> None \<and>
     (\<forall>i<MAX_TRACKS. \<forall>t. le_tracks (entries w (loc_private l)) ! i = Some t \<longrightarrow> track_fits dims w i t))"

lemma dec_int_length: "\<bar>x\<bar> < 10 ^ 10 \<Longrightarrow> length (dec_int x) \<le> 11"
  using dec_nat_length [of "nat \<bar>x\<bar>" 10] by (auto simp: dec_int_def nat_less_iff)

lemma sdp_tracks_ok:
  assumes "\<And>j. j < MAX_TRACKS \<Longrightarrow> s_eps S ! j = None"
  shows "(\<And>j. j < length ts \<Longrightarrow> lt_media (tracks w (ts ! j)) \<noteq> None \<and> track_fits dims w (i + j) (ts ! j)) \<Longrightarrow>
     i + length ts \<le> MAX_TRACKS \<Longrightarrow> length acc + 3100 * length ts < 8192 \<Longrightarrow>
     \<exists>x. sdp_tracks dims w S i ts acc = Inr x \<and> (\<forall>t. x = Some t \<longrightarrow> length t < 8192)"
proof (induction ts arbitrary: i acc)
  case Nil
  then show ?case by simp
next
  case (Cons t ts)
  show ?case
  proof (cases "lt_ready (tracks w t)")
    case False
    then show ?thesis by simp
  next
    case True
    from Cons.prems(1) [of 0] obtain m where m: "lt_media (tracks w t) = Some m" "track_fits dims w i t" by auto
    obtain width height where d: "dims (lt_dest (tracks w t)) = (width, height)" by fastforce
    have dl: "length (dec_int width) \<le> 11" "length (dec_int height) \<le> 11"
      using m(2) d by (simp_all add: track_fits_def dec_int_length)
    have slot: "s_eps S ! i = None" using assms [of i] Cons.prems(2) by simp
    define a1 where "a1 = (case media_sdp m (96 + int i) 0 of None \<Rightarrow> butlast acc | Some x \<Rightarrow> acc @ x)"
    define a2 where "a2 = a1 @ ''a=control:track'' @ dec_nat i @ crlf"
    define a3 where "a3 = (if height \<noteq> 0 \<and> width \<noteq> 0
        then a2 @ ''a=x-dimensions:'' @ dec_int width @ '','' @ dec_int height @ crlf else a2)"
    have "length a1 \<le> length acc + 3000"
      using m by (auto simp: a1_def track_fits_def split: option.split)
    moreover have "length (dec_nat i) \<le> 1"
      using dec_nat_length [of i 1] Cons.prems(2) by (simp add: MAX_TRACKS_def)
    ultimately have "length a2 \<le> length acc + 3018" by (simp add: a2_def crlf_def)
    then have "length a3 \<le> length acc + 3100" using dl by (simp add: a3_def crlf_def)
    then have len: "length a3 + 3100 * length ts < 8192" using Cons.prems(3) by simp
    have "sdp_tracks dims w S i (t # ts) acc = (if 8192 \<le> length a3 then Inl Fault else sdp_tracks dims w S (i + 1) ts a3)"
      using True m(1) d slot by (simp add: endpoint_sdp_def Let_def a1_def a2_def a3_def)
    moreover have "\<not> 8192 \<le> length a3" using len by simp
    ultimately have step: "sdp_tracks dims w S i (t # ts) acc = sdp_tracks dims w S (i + 1) ts a3" by simp
    have "lt_media (tracks w (ts ! j)) \<noteq> None \<and> track_fits dims w (i + 1 + j) (ts ! j)" if "j < length ts" for j
      using Cons.prems(1) [of "Suc j"] that by simp
    from Cons.IH [OF this _ len] Cons.prems(2) show ?thesis unfolding step by simp
  qed
qed

lemma entry_tracks_media:
  assumes "i < length (entry_tracks w en)"
  shows "lt_media (tracks w (entry_tracks w en ! i)) \<noteq> None"
proof -
  let ?l = "takeWhile (has_media w) (take MAX_TRACKS (le_tracks (entries w en)))"
  have "i < length ?l" using assms by (simp add: entry_tracks_def)
  then have "has_media w (?l ! i)" by (metis nth_mem set_takeWhileD)
  then show ?thesis using assms by (auto simp: entry_tracks_def has_media_def split: option.splits)
qed

lemma live_describes: "sdp_fits dims w \<Longrightarrow> describes (live_provider dims) w"
  unfolding describes_def
proof (intro ballI allI impI, elim conjE)
  fix l w1 s w2 assume fits: "sdp_fits dims w" and l: "l \<in> set (rtsp_loc_list w)"
    and o: "pr_open (live_provider dims) w (loc_private l) = (w1, s)" and t: "talked w1 w2"
  let ?en = "loc_private l"
  have tr: "tracks w2 = tracks w" "le_tracks (entries w2 en) = le_tracks (entries w en)" for en
    using o t by (auto simp: live_provider_def live_open_def new_session_def Let_def talked_def)
  have S: "sessions w2 s = Some (blank_session ?en)"
    using o t by (auto simp: live_provider_def live_open_def new_session_def Let_def talked_def blank_session_def)
  from fits l obtain t0 where t0: "le_tracks (entries w ?en) ! 0 = Some t0"
    and fit: "\<And>i t. i < MAX_TRACKS \<Longrightarrow> le_tracks (entries w ?en) ! i = Some t \<Longrightarrow> track_fits dims w i t"
    unfolding sdp_fits_def by blast
  let ?ts = "entry_tracks w2 ?en"
  let ?acc = "''v=0'' @ crlf @ ''o=- 1 1 IN IP4 127.0.0.1'' @ crlf @ ''s=Test'' @ crlf @ ''a=type:broadcast'' @ crlf @
                ''t=0 0'' @ crlf @ ''c=IN IP4 '' @ ''0.0.0.0'' @ ''/1'' @ crlf"
  have eps: "s_eps (blank_session ?en) ! j = None" if "j < MAX_TRACKS" for j using that by (simp add: blank_session_def)
  have "lt_media (tracks w2 (?ts ! j)) \<noteq> None \<and> track_fits dims w2 (0 + j) (?ts ! j)" if "j < length ?ts" for j
  proof -
    have "track_fits dims w j (?ts ! j)" using entry_tracks_nth(1,2) [OF that] fit [of j "?ts ! j"] by (simp add: tr)
    then have "track_fits dims w2 (0 + j) (?ts ! j)" unfolding track_fits_def tr(1) add_0 .
    with entry_tracks_media [OF that] show ?thesis by simp
  qed
  moreover have n: "length ?ts \<le> MAX_TRACKS"
    using length_takeWhile_le [of "has_media w2" "take MAX_TRACKS (le_tracks (entries w2 ?en))"] by (simp add: entry_tracks_def)
  moreover have "length ?acc + 3100 * length ?ts < 8192" using n by (simp add: crlf_def MAX_TRACKS_def)
  ultimately obtain x where x: "sdp_tracks dims w2 (blank_session ?en) 0 ?ts ?acc = Inr x"
    "\<forall>t. x = Some t \<longrightarrow> length t < 8192" using sdp_tracks_ok [OF eps, of ?ts w2 dims 0 ?acc] by auto
  show "\<exists>x. pr_get_sdp (live_provider dims) w2 s = Inr x \<and> (\<forall>t. x = Some t \<longrightarrow> length t < 10 ^ 9)"
  proof (cases "lt_media (tracks w2 t0) = None \<or> \<not> lt_ready (tracks w2 t0)")
    case True
    then show ?thesis using S t0 by (simp add: live_provider_def live_get_sdp_def blank_session_def tr)
  next
    case False
    have e: "endpoint_sdp w2 (s_eps (blank_session ?en) ! 0) (''0.0.0.0'', 0) = Inr (''0.0.0.0'', 0)"
      using eps [of 0] by (simp add: endpoint_sdp_def MAX_TRACKS_def)
    have en: "s_entry (blank_session ?en) = ?en" and d: "deref (sessions w2) s = Inr (blank_session ?en)"
      and t2: "le_tracks (entries w2 ?en) ! 0 = Some t0" using S t0 by (simp_all add: blank_session_def tr)
    have "live_get_sdp dims w2 s = sdp_tracks dims w2 (blank_session ?en) 0 ?ts ?acc"
      unfolding live_get_sdp_def d bindE_simps en t2 option.case e prod.case using False by (simp only: if_False)
    with x show ?thesis by (auto simp: live_provider_def)
  qed
qed

section \<open>Requests\<close>

text \<open>
  C5. A request to the RTSP server that is not an ANNOUNCE, nor a PLAY without start position for a
  session that has been sending, and that has a URI of less than 256 characters and no empty
  Transport header, keeps the whole state well-formed: the handler returns without following a
  dangling pointer or overflowing an array, sessions, endpoints, channels and connections still
  agree with each other, and no track waits for frames that no session watches. The locations have
  texts without NUL, and the description of an entry fits into its buffer.
\<close>

theorem rtsp_requests_safe:
  assumes "world_ok w" "ready w c" "locs_ok w" "sdp_fits dims w" "str_ieq (request_method m) ''PLAY'' \<Longrightarrow> plays_ok w m"
    and "length (request_uri m) < 256" "get_header m ''Transport'' \<noteq> Some []"
    and "\<not> str_ieq (request_method m) ''ANNOUNCE''"
  shows "\<exists>w'. rtsp_handle_msg (live_provider dims) env w c m = Inr w' \<and> world_ok w' \<and> ready w' c"
proof -
  have "done_ok world_ok c (rtsp_handle_msg (live_provider dims) env w c m)"
    by (rule live.handle_msg_done [OF assms(1-3) live_describes [OF assms(4)] _ assms(6-8)]) (rule assms(5))
  then show ?thesis by (simp add: done_ok_def)
qed

text \<open>
  C6. The end of a connection releases exactly what sends over it. The loop over the channels returns with a
  well-formed state; the endpoints that send over the connection (\<open>over\<close>) are freed and all others are as
  they were; every session loses the endpoints that are freed (\<open>cut_eps\<close>) and nothing else, a session that
  thereby has none left is freed, and no other session appears or goes (\<open>reduced\<close>). A source whose stream
  has begun and whose track nobody watches any more has stopped waiting for frames.
\<close>

theorem rtsp_disconnect_releases:
  assumes "world_ok w" "proto_state w c = Rtsp_State ch"
  shows "\<exists>w'. rtsp_conn_disconnect (live_provider dims) w c = Inr w' \<and> world_ok w' \<and> proto_state w' c = No_State \<and>
    (\<forall>e. endpoints w' e = (if over w c (Some e) then None else endpoints w e)) \<and>
    (\<forall>s. sessions w' s =
       (case sessions w s of None \<Rightarrow> None | Some S \<Rightarrow> reduced S (cut_eps w c (s_eps S)))) \<and>
    (\<forall>t. used w' t \<and> lt_ready (tracks w' t) \<and> \<not> watched w' t \<longrightarrow> \<not> waiting (streams_of w') (lt_dest (tracks w' t)))"
proof -
  from live.conn_disconnect_ok [OF assms, of dims] obtain w' where
    w': "rtsp_conn_disconnect (live_provider dims) w c = Inr w'" "world_ok w'" "proto_state w' c = No_State"
      "\<forall>e. endpoints w' e = (if over w c (Some e) then None else endpoints w e)"
      "\<forall>s. sessions w' s = Option.bind (sessions w s) (\<lambda>S. reduced S (cut_eps w c (s_eps S)))" by blast
  have "\<forall>t. used w' t \<longrightarrow> idle_ok w' t" using w'(2) by (simp add: world_ok_def)
  then have "\<forall>t. used w' t \<and> lt_ready (tracks w' t) \<and> \<not> watched w' t \<longrightarrow> \<not> waiting (streams_of w') (lt_dest (tracks w' t))"
    unfolding idle_ok_def by blast
  moreover have "\<forall>s. sessions w' s = (case sessions w s of None \<Rightarrow> None | Some S \<Rightarrow> reduced S (cut_eps w c (s_eps S)))"
    using w'(5) by (simp split: option.split)
  ultimately show ?thesis using w'(1-4) by blast
qed

text \<open>
  C9. A location with a realm: without a valid digest a SETUP opens no session, connects no
  endpoint and starts no source. All it does is to answer.
\<close>

theorem setup_requires_authentication:
  assumes "world_ok w" "ready w c" "locs_ok w" "length (request_uri m) < 256"
    and "find_rtsp_location (rtsp_loc_list w) (request_uri m) True True = Inr (Some loc, path, track)"
    and "loc_realm loc \<noteq> []"
    and "check_digest_response (digest_secret w) (re_now env) m (loc_realm loc) (loc_username loc) (loc_password loc) \<le> 0"
  shows "\<exists>w'. handle_SETUP (live_provider dims) env w c m = Inr w' \<and> talked w w'"
proof (cases "track < 0 \<or> int MAX_TRACKS \<le> track")
  case True
  from live.error_ok [OF assms(1,2), of "''Not Found''" 404 m] obtain w' where
    "rtsp_send_error w c m 404 ''Not Found'' = Inr w'" "talked w w'" by auto
  then show ?thesis using True assms(5) by (auto simp: handle_SETUP_def)
next
  case False
  from find_location_base [OF assms(4), of "rtsp_loc_list w" True True] assms(5)
  have "loc \<in> set (rtsp_loc_list w)" by auto
  then have nul: "NUL \<notin> set (loc_realm loc)" using assms(3) by (simp add: locs_ok_def)
  from live.auth_ok [OF assms(1,2) nul, of env m] obtain w' ok where
    a: "authorised env w c m loc = Inr (w', ok)" "talked w w'" by blast
  have "\<not> ok"
    using a(1) assms(6,7) by (auto simp: authorised_def rtsp_verify_auth_def Let_def bindE_eq_Inr split: prod.splits)
  then show ?thesis using a False assms(5) by (simp add: handle_SETUP_def)
qed

section \<open>Sources\<close>

text \<open>
  C7. Playing starts the sources: after a PLAY that gives a start position, or comes before any packet
  was sent for the session (\<open>may_play\<close>), every track that the session has set up waits for frames,
  and every source that feeds the track runs, also through converters and filters. The PLAY that is
  left out crashes, see \<open>play_without_range_crashes\<close>.
\<close>

theorem play_starts_sources:
  assumes "world_ok w" "sessions w s = Some S" "may_play w S have_start"
  shows "\<exists>w' st. live_play w s have_start = Inr (w', st) \<and> world_ok w' \<and>
    map_option s_playing (sessions w' s) = Some True \<and>
    (\<forall>j t. j < MAX_TRACKS \<and> s_eps S ! j \<noteq> None \<and> le_tracks (entries w (s_entry S)) ! j = Some t \<longrightarrow>
       waiting (streams_of w') (lt_dest (tracks w' t)) \<and>
       (\<forall>x. feeds (streams_of w') x (lt_dest (tracks w' t)) \<and> st_set_running (streams (streams_of w') x) = Source \<longrightarrow>
          running (streams_of w') x))"
proof -
  from live_play_ok [OF assms] obtain g st where p:
    "live_play w s have_start = Inr ((upd_session s (\<lambda>S. S\<lparr>s_playing := True\<rparr>) w)\<lparr>streams_of := g\<rparr>, st)"
    "world_ok ((upd_session s (\<lambda>S. S\<lparr>s_playing := True\<rparr>) w)\<lparr>streams_of := g\<rparr>)"
    "\<And>j. j < length (entry_tracks w (s_entry S)) \<Longrightarrow> s_eps S ! j \<noteq> None \<Longrightarrow>
       waiting g (lt_dest (tracks w (entry_tracks w (s_entry S) ! j)))" by blast
  let ?w = "(upd_session s (\<lambda>S. S\<lparr>s_playing := True\<rparr>) w)\<lparr>streams_of := g\<rparr>"
  have ok: "eps_ok w" "config_ok w" and g: "\<forall>x. stream_ok g x"
    using assms(1) p(2) by (simp_all add: world_ok_def graph_ok_def)
  have "waiting g (lt_dest (tracks w t)) \<and>
      (\<forall>x. feeds g x (lt_dest (tracks w t)) \<and> st_set_running (streams g x) = Source \<longrightarrow> running g x)"
    if j: "j < MAX_TRACKS" "s_eps S ! j \<noteq> None" "le_tracks (entries w (s_entry S)) ! j = Some t" for j t
  proof -
    have "has_media w (le_tracks (entries w (s_entry S)) ! j)" using ok(1) assms(2) j unfolding eps_ok_def by blast
    then have l: "j < length (entry_tracks w (s_entry S))" using ok(2) j(1) unfolding config_ok_def by blast
    from p(3) [OF l j(2)] entry_tracks_nth(1) [OF l] j(3) have wt: "waiting g (lt_dest (tracks w t))" by simp
    have "running g x" if "feeds g x (lt_dest (tracks w t))" "st_set_running (streams g x) = Source" for x
      using feeds_any_waiting [OF that(1) g wt] spec [OF g, of x] that(2) by (simp add: stream_ok_def)
    with wt show ?thesis by blast
  qed
  then have "\<forall>j t. j < MAX_TRACKS \<and> s_eps S ! j \<noteq> None \<and> le_tracks (entries w (s_entry S)) ! j = Some t \<longrightarrow>
      waiting g (lt_dest (tracks w t)) \<and>
      (\<forall>x. feeds g x (lt_dest (tracks w t)) \<and> st_set_running (streams g x) = Source \<longrightarrow> running g x)" by blast
  moreover have "map_option s_playing (sessions ?w s) = Some True" using assms(2) by simp
  moreover have "tracks ?w = tracks w" "streams_of ?w = g" by simp_all
  ultimately show ?thesis using p(1,2) by metis
qed

text \<open>
  C8. Tearing a session down releases everything it holds: the session and all its endpoints are
  freed, and a source whose stream has begun stops when nobody else watches it.
\<close>

theorem teardown_releases_session:
  assumes "world_ok w" "sessions w s = Some S"
  shows "\<exists>w'. live_teardown w s None = Inr w' \<and> world_ok w' \<and> sessions w' s = None \<and>
    (\<forall>s'. s' \<noteq> s \<longrightarrow> sessions w' s' = sessions w s') \<and>
    (\<forall>e E. endpoints w' e = Some E \<longrightarrow> ep_session E \<noteq> s) \<and>
    (\<forall>t. used w' t \<and> lt_ready (tracks w' t) \<and> \<not> watched w' t \<longrightarrow> \<not> waiting (streams_of w') (lt_dest (tracks w' t)))"
proof -
  from live.teardown_ok [OF assms, of undefined None] obtain w' where
    w': "live_teardown w s None = Inr w'" "world_ok w'" "torn_down s w w'" "sessions w' s = None"
    by (auto simp: live_provider_def)
  have "owners_ok w'" "\<forall>t. used w' t \<longrightarrow> idle_ok w' t" using w'(2) by (simp_all add: world_ok_def links_ok_def)
  then have "\<forall>e E. endpoints w' e = Some E \<longrightarrow> ep_session E \<noteq> s"
    "\<forall>t. used w' t \<and> lt_ready (tracks w' t) \<and> \<not> watched w' t \<longrightarrow> \<not> waiting (streams_of w') (lt_dest (tracks w' t))"
    using w'(4) unfolding owners_ok_def idle_ok_def by (fastforce, blast)
  with w' show ?thesis unfolding torn_down_def by blast
qed

section \<open>Requests that the code does not survive\<close>

text \<open>
  C38. A PLAY without the Range header for a session that has sent a packet: \<open>live_play\<close> stores the
  start position through the null pointer that \<open>handle_PLAY\<close> gave it.
\<close>

theorem play_without_range_crashes:
  assumes "world_ok w" "get_session w (get_header m ''Session'') = Some r" "rs_tab w r = Some R"
    and "sessions w (rs_sess R) = Some S" "s_eps S ! 0 = Some e" "endpoints w e = Some E" "packet_count E \<noteq> 0"
    and "get_header m ''Range'' = None"
  shows "handle_PLAY (live_provider dims) w c m = Inl Fault"
proof -
  let ?s = "rs_sess R" and ?en = "s_entry S"
  let ?w = "upd_session ?s (\<lambda>S. S\<lparr>s_playing := True\<rparr>) w"
  have ok: "eps_ok w" "config_ok w" "graph_ok w" using assms(1) by (simp_all add: world_ok_def)
  have m0: "(0::nat) < MAX_TRACKS" by (simp add: MAX_TRACKS_def)
  have "has_media w (le_tracks (entries w ?en) ! 0)"
    using ok(1) assms(4,5) m0 unfolding eps_ok_def by (metis option.distinct(1))
  then have l: "0 < length (entry_tracks w ?en)" using ok(2) m0 unfolding config_ok_def by blast
  then obtain t ts where ts: "entry_tracks w ?en = t # ts" by (cases "entry_tracks w ?en") auto
  have "used w t" using entry_tracks_nth(3) [OF l] ts by simp
  have same: "same_config w ?w" by (rule same_configI) simp_all
  note cfg = same_config_simps [OF same]
  have "graph_ok ?w" using ok(3) by (simp add: graph_ok_def used_def)
  moreover have "used ?w t" "config_ok ?w" using \<open>used w t\<close> ok(2) by (simp_all add: cfg)
  ultimately obtain g where g: "world_set_waiting ?w (lt_dest (tracks ?w t)) True = Inr (?w\<lparr>streams_of := g\<rparr>)"
    using world_set_waiting_ok by blast
  have "play_tracks ?w ?s 0 (t # ts) None = Inl Fault"
    using assms(4-7) g by simp
  then have "live_play w ?s False = Inl Fault" using assms(4) ts by (simp add: live_play_def)
  then show ?thesis using assms(2,3,8) by (simp add: handle_PLAY_def live_provider_def)
qed

text \<open>
  An ANNOUNCE for a location that needs no authentication: \<open>handle_ANNOUNCE\<close> calls \<open>set_sdp\<close> of
  the new session, which nothing has set.
\<close>

lemma announce_crashes:
  assumes "str_ieq (request_method m) ''ANNOUNCE''"
    and "find_rtsp_location (rtsp_loc_list w) (request_uri m) True False = Inr (Some loc, path, track)"
    and "loc_realm loc = []"
  shows "rtsp_handle_msg (live_provider dims) env w c m = Inl Fault"
proof -
  have "\<not> str_ieq (request_method m) ''OPTIONS''"
    using assms(1) by (auto simp: str_ieq_def)
  then show ?thesis using assms
    by (simp add: rtsp_handle_msg_def handle_ANNOUNCE_def authorised_def split: prod.split)
qed

section \<open>A small server\<close>

text \<open>
  One camera stream behind a filter, one location for it, one RTSP connection; and the same
  server with a session that sends over the connection.
\<close>

definition demo_request :: "string \<Rightarrow> string \<Rightarrow> string \<Rightarrow> pmsg" where
  "demo_request method uri ident =
     (let start = method @ [NUL]; name = start @ uri @ [NUL]; val = name @ ''Session'' @ [NUL]
      in \<lparr>pm_msg = val @ ident @ [NUL], pm_len = 0, pm_fields = [(length name, length val)],
          pm_type = PMSG_REQ, pm_proto = 0, pm_method = 0, pm_uri = length start, pm_code = 0, pm_reason = 0\<rparr>)"

definition demo_endpoint :: endpoint where
  "demo_endpoint = (connect_interleaved_endpoint (new_rtp_endpoint \<lparr>rnd_ssrc = 1, rnd_timestamp = 2, rnd_seqnum = 3\<rparr> 0 5 96 90) 1 0 1)
     \<lparr>packet_count := 1\<rparr>"

definition demo_world :: "string \<Rightarrow> world" where
  "demo_world realm =
     \<lparr>conns = (\<lambda>c. if c = 1 then Some ((new_conn 4 REQ_BUF SEND_BUF)\<lparr>c_proto := CONN_PROTO_RTSP\<rparr>) else None),
      proto_state = (\<lambda>_. No_State), conn_list = [1], endpoints = (\<lambda>_. None), sessions = (\<lambda>_. None), session_list = [],
      rs_tab = (\<lambda>_. None), rs_list = [],
      entries = (\<lambda>en. \<lparr>le_sessions = [], le_tracks = if en = 0 then [Some 0, None] else [None, None]\<rparr>),
      tracks = (\<lambda>_. \<lparr>lt_entries = [0], lt_dest = 1, lt_ready = True, lt_tick2ts = 90,
        lt_media = Some (Media_H264 \<lparr>h264_d = [], h264_init_done = False, h264_ts_incr = 0, h264_timestamp = 0\<rparr>), lt_name = []\<rparr>),
      streams_of = demo_graph, udp_out = [], fresh = 2,
      rtsp_loc_list = [\<lparr>loc_path = ''/live'', loc_realm = realm, loc_username = ''u'', loc_password = ''p'', loc_private = 0\<rparr>],
      digest_secret = None,
      http_locs = (\<lambda>_. \<lparr>hl_path = [], hl_frame = None, hl_jfif = 0, hl_sess = [], hl_streaming = False\<rparr>), http_loc_list = [],
      http_sess = (\<lambda>_. None), http_fresh = 0\<rparr>"

definition demo_sending :: world where
  "demo_sending = (demo_world [])
     \<lparr>proto_state := (\<lambda>c. if c = 1 then Rtsp_State ([(Some 6, False), (Some 6, True)] @ replicate 6 (None, False)) else No_State),
      endpoints := (\<lambda>e. if e = 6 then Some demo_endpoint else None),
      sessions := (\<lambda>s. if s = 5 then Some ((blank_session 0)\<lparr>s_eps := [Some 6, None], s_control := Some 7\<rparr>) else None),
      session_list := [5], rs_tab := (\<lambda>r. if r = 7 then Some \<lparr>rs_id = ''A'', rs_sess = 5\<rparr> else None), rs_list := [7],
      entries := (\<lambda>en. \<lparr>le_sessions = if en = 0 then [5] else [], le_tracks = if en = 0 then [Some 0, None] else [None, None]\<rparr>),
      fresh := 8\<rparr>"

lemma demo_request_fields:
  assumes "NUL \<notin> set method" "NUL \<notin> set uri" "NUL \<notin> set ident"
  shows "request_method (demo_request method uri ident) = method" "request_uri (demo_request method uri ident) = uri"
    "get_header (demo_request method uri ident) nm = (if str_ieq ''Session'' nm then Some ident else None)"
proof -
  define start where "start = method @ [NUL]"
  define name where "name = start @ uri @ [NUL]"
  define val where "val = name @ ''Session'' @ [NUL]"
  have n: "NUL \<notin> set ''Session''" by simp
  have c: "cstr (val @ ident @ [NUL]) 0 = method" "cstr (val @ ident @ [NUL]) (length start) = uri"
    "cstr (val @ ident @ [NUL]) (length name) = ''Session''" "cstr (val @ ident @ [NUL]) (length val) = ident"
    using cstr_append_nul [OF assms(1), of "[]"] cstr_append_nul [OF assms(2), of start] cstr_append_nul [OF n, of name]
      cstr_append_nul [OF assms(3), of val]
    unfolding start_def name_def val_def append_assoc by (simp_all only: append_Nil append_Cons list.size)
  have m: "demo_request method uri ident = \<lparr>pm_msg = val @ ident @ [NUL], pm_len = 0, pm_fields = [(length name, length val)],
      pm_type = PMSG_REQ, pm_proto = 0, pm_method = 0, pm_uri = length start, pm_code = 0, pm_reason = 0\<rparr>"
    by (simp only: demo_request_def Let_def start_def name_def val_def)
  show "request_method (demo_request method uri ident) = method" "request_uri (demo_request method uri ident) = uri"
    by (simp_all only: m request_method_def request_uri_def pmsg.simps c)
  show "get_header (demo_request method uri ident) nm = (if str_ieq ''Session'' nm then Some ident else None)"
    unfolding get_header_def m pmsg.simps by (simp add: c)
qed

lemma demo_graph_ok:
  "\<exists>rank. wf_graph rank demo_graph" "stream_ok demo_graph s" "dest_ok demo_graph 1"
  "waiting demo_graph d = False"
proof -
  have "wf_graph (\<lambda>s. if s = 1 then 1 else 0) demo_graph"
    by (auto simp: demo_graph_def wf_graph_def split: if_splits)
  then show "\<exists>rank. wf_graph rank demo_graph" by blast
  show "stream_ok demo_graph s" by (simp add: demo_graph_def stream_ok_def any_waiting_def)
  show "dest_ok demo_graph 1" by (simp add: demo_graph_def dest_ok_def end_dest_def)
  show "waiting demo_graph d = False" by (simp add: demo_graph_def)
qed

lemma demo_config_ok:
  assumes "\<And>en. le_tracks (entries w en) = (if en = 0 then [Some 0, None] else [None, None])" "tracks w = tracks (demo_world [])"
    and "streams_of w = demo_graph"
  shows "config_ok w" "graph_ok w" "idle_ok w t"
proof -
  have u: "used w t \<longleftrightarrow> t = 0" for t unfolding used_def assms(1) by (auto split: if_splits)
  have hm: "has_media w None = False" "has_media w (Some t) = True" for t
    by (simp_all add: has_media_def assms(2) demo_world_def)
  have et: "entry_tracks w en = (if en = 0 then [0] else [])" for en
    by (simp add: entry_tracks_def assms(1) hm MAX_TRACKS_def)
  have "j < length (entry_tracks w en)" if "j < 2" "has_media w (le_tracks (entries w en) ! j)" for en j
    using that by (auto simp: et assms(1) hm less_2_cases_iff split: if_splits)
  then show "config_ok w"
    unfolding config_ok_def u by (auto simp: assms(1,2) MAX_TRACKS_def demo_world_def split: if_splits)
  show "graph_ok w" unfolding graph_ok_def u using demo_graph_ok(1-3) unfolding assms(2,3) by (auto simp: demo_world_def)
  show "idle_ok w t" by (simp add: idle_ok_def assms(3) demo_graph_ok)
qed

lemma demo_world_ok: "world_ok (demo_world realm)"
proof -
  have "links_ok (demo_world realm)"
    by (simp add: links_ok_def links_defs demo_world_def MAX_TRACKS_def)
  moreover have "eps_ok (demo_world realm)" by (simp add: eps_ok_def demo_world_def)
  ultimately show ?thesis
    using demo_config_ok [of "demo_world realm"] by (simp add: world_ok_def) (simp add: demo_world_def)
qed

lemma demo_sending_ok: "world_ok demo_sending"
proof -
  have ep: "ep_session demo_endpoint = 5" "ep_trans demo_endpoint = Inter 1 0 1"
    by (simp_all add: demo_endpoint_def connect_interleaved_endpoint_def new_rtp_endpoint_def)
  have "slots_ok demo_sending"
    by (auto simp: slots_ok_def demo_sending_def ep nth_Cons' split: if_splits)
  moreover have "owners_ok demo_sending" by (auto simp: owners_ok_def demo_sending_def ep split: if_splits)
  moreover have "channels_ok demo_sending"
    by (auto simp: channels_ok_def demo_sending_def ep nth_Cons' nth_append split: if_splits)
  moreover have "inter_ok demo_sending"
    by (auto simp: inter_ok_def demo_sending_def demo_world_def ep split: if_splits)
  moreover have "rtsp_ok demo_sending" by (auto simp: rtsp_ok_def demo_sending_def split: if_splits)
  moreover have "entries_ok demo_sending"
    by (auto simp: entries_ok_def demo_sending_def MAX_TRACKS_def blank_session_def split: if_splits)
  moreover have "conns_ok demo_sending"
    by (auto simp: conns_ok_def demo_sending_def demo_world_def MAX_INTERLEAVE_CHANNELS_def split: if_splits)
  moreover have "fresh_ok demo_sending" by (auto simp: fresh_ok_def demo_sending_def demo_world_def)
  ultimately have "links_ok demo_sending" by (simp add: links_ok_def)
  moreover have "eps_ok demo_sending"
    by (auto simp: eps_ok_def demo_sending_def demo_world_def has_media_def blank_session_def MAX_TRACKS_def less_2_cases_iff split: if_splits)
  ultimately show ?thesis
    using demo_config_ok [of demo_sending] by (simp add: world_ok_def) (simp add: demo_sending_def demo_world_def)
qed

lemma demo_texts:
  "\<not> str_ieq ''TEARDOWN'' ''ANNOUNCE''" "\<not> str_ieq ''TEARDOWN'' ''PLAY''" "\<not> str_ieq ''Session'' ''Transport''" "\<not> str_ieq ''Session'' ''Range''"
  "\<not> str_ieq ''Session'' ''authorization''"
  by code_simp+

lemma demo_find:
  "find_rtsp_location (rtsp_loc_list (demo_world realm)) ''rtsp://h/live/track0'' True True =
     Inr (Some \<lparr>loc_path = ''/live'', loc_realm = realm, loc_username = ''u'', loc_password = ''p'', loc_private = 0\<rparr>, ''/live'', 0)"
  "find_rtsp_location (rtsp_loc_list (demo_world realm)) ''rtsp://h/live'' True False =
     Inr (Some \<lparr>loc_path = ''/live'', loc_realm = realm, loc_username = ''u'', loc_password = ''p'', loc_private = 0\<rparr>, ''/live'', -1)"
proof -
  have l: "rtsp_loc_list (demo_world realm) =
    [\<lparr>loc_path = ''/live'', loc_realm = realm, loc_username = ''u'', loc_password = ''p'', loc_private = 0\<rparr>]"
    by (simp add: demo_world_def)
  show "find_rtsp_location (rtsp_loc_list (demo_world realm)) ''rtsp://h/live/track0'' True True =
     Inr (Some \<lparr>loc_path = ''/live'', loc_realm = realm, loc_username = ''u'', loc_password = ''p'', loc_private = 0\<rparr>, ''/live'', 0)"
    unfolding l by code_simp
  show "find_rtsp_location (rtsp_loc_list (demo_world realm)) ''rtsp://h/live'' True False =
     Inr (Some \<lparr>loc_path = ''/live'', loc_realm = realm, loc_username = ''u'', loc_password = ''p'', loc_private = 0\<rparr>, ''/live'', -1)"
    unfolding l by code_simp
qed

lemma demo_ready: "ready (demo_world realm) 1" "ready demo_sending 1"
  by (simp_all add: ready_def demo_world_def demo_sending_def)

lemma demo_locs: "NUL \<notin> set realm \<Longrightarrow> locs_ok (demo_world realm)" "locs_ok demo_sending"
  by (simp_all add: locs_ok_def demo_world_def demo_sending_def)

lemma demo_session:
  "get_session demo_sending (Some ''A'') = Some 7" "rs_tab demo_sending 7 = Some \<lparr>rs_id = ''A'', rs_sess = 5\<rparr>"
  "sessions demo_sending 5 = Some ((blank_session 0)\<lparr>s_eps := [Some 6, None], s_control := Some 7\<rparr>)"
  "endpoints demo_sending 6 = Some demo_endpoint" "packet_count demo_endpoint = 1"
  "proto_state demo_sending 1 = Rtsp_State ([(Some 6, False), (Some 6, True)] @ replicate 6 (None, False))"
  by (simp_all add: demo_sending_def get_session_def demo_endpoint_def)

theorem rtsp_requests_safe_witness:
  "\<forall>env. \<exists>w'. rtsp_handle_msg (live_provider (\<lambda>_. (0, 0))) env demo_sending 1 (demo_request ''TEARDOWN'' ''rtsp://h/live/track0'' ''A'') = Inr w' \<and>
     world_ok w' \<and> ready w' 1"
proof
  fix env
  let ?m = "demo_request ''TEARDOWN'' ''rtsp://h/live/track0'' ''A''"
  have m: "request_method ?m = ''TEARDOWN''" "request_uri ?m = ''rtsp://h/live/track0''"
    "\<And>n. get_header ?m n = (if str_ieq ''Session'' n then Some ''A'' else None)"
    by (rule demo_request_fields; simp)+
  have "length x \<le> 3000" if "media_sdp (Media_H264 out) (96 + int i) 0 = Some x" "i < 2" for out i x
  proof -
    have "length (dec_int (96 + int i)) \<le> 11" "length (dec_int 0) \<le> 11" using that(2) by (auto intro: dec_int_length)
    with that(1) show ?thesis by (auto simp: media_sdp_def h264_get_sdp_def crlf_def)
  qed
  then have "sdp_fits (\<lambda>_. (0, 0)) demo_sending"
    by (auto simp: sdp_fits_def track_fits_def demo_sending_def demo_world_def MAX_TRACKS_def split: if_splits)
  then show "\<exists>w'. rtsp_handle_msg (live_provider (\<lambda>_. (0, 0))) env demo_sending 1 ?m = Inr w' \<and> world_ok w' \<and> ready w' 1"
    by (intro rtsp_requests_safe demo_sending_ok demo_ready demo_locs) (simp_all add: m demo_texts)
qed

theorem rtsp_disconnect_releases_witness:
  "\<exists>w'. rtsp_conn_disconnect (live_provider (\<lambda>_. (0, 0))) demo_sending 1 = Inr w' \<and>
     sessions demo_sending 5 \<noteq> None \<and> sessions w' 5 = None \<and> endpoints demo_sending 6 \<noteq> None \<and> endpoints w' 6 = None"
proof -
  have "ep_trans demo_endpoint = Inter 1 0 1" by (simp add: demo_endpoint_def connect_interleaved_endpoint_def)
  then have "over demo_sending 1 (Some 6)" unfolding over_def by (intro exI [of _ 6] exI [of _ demo_endpoint] exI [of _ 0] exI [of _ 1]) (simp add: demo_session(4))
  moreover have "\<not> over demo_sending 1 None" by (simp add: over_def)
  ultimately have o: "over demo_sending 1 (Some 6)" "\<not> over demo_sending 1 None" by blast+
  have "reduced S (cut_eps demo_sending 1 (s_eps S)) = None" if "s_eps S = [Some 6, None]" for S
    by (simp add: reduced_def cut_eps_def that o [simplified])
  with rtsp_disconnect_releases [OF demo_sending_ok demo_session(6), of "\<lambda>_. (0, 0)"] show ?thesis
    by (auto simp: demo_session(3,4) o [simplified])
qed

theorem setup_requires_authentication_witness:
  "\<forall>env. \<exists>w'. handle_SETUP (live_provider (\<lambda>_. (0, 0))) env (demo_world ''r'') 1 (demo_request ''SETUP'' ''rtsp://h/live/track0'' ''A'') = Inr w' \<and>
     talked (demo_world ''r'') w'"
proof
  fix env
  let ?m = "demo_request ''SETUP'' ''rtsp://h/live/track0'' ''A''"
  have m: "request_uri ?m = ''rtsp://h/live/track0''" "\<And>n. get_header ?m n = (if str_ieq ''Session'' n then Some ''A'' else None)"
    by (rule demo_request_fields; simp)+
  have f: "find_rtsp_location (rtsp_loc_list (demo_world ''r'')) (request_uri ?m) True True = Inr
      (Some \<lparr>loc_path = ''/live'', loc_realm = ''r'', loc_username = ''u'', loc_password = ''p'', loc_private = 0\<rparr>, ''/live'', 0)"
    unfolding m(1) by (rule demo_find(1))
  show "\<exists>w'. handle_SETUP (live_provider (\<lambda>_. (0, 0))) env (demo_world ''r'') 1 ?m = Inr w' \<and> talked (demo_world ''r'') w'"
    by (rule setup_requires_authentication [OF demo_world_ok demo_ready(1) demo_locs(1) _ f])
      (simp_all add: m check_digest_response_def demo_texts)
qed

theorem play_starts_sources_witness:
  "\<exists>w' st. live_play demo_sending 5 True = Inr (w', st) \<and> waiting (streams_of w') (lt_dest (tracks w' 0)) \<and>
     (\<forall>x. feeds (streams_of w') x (lt_dest (tracks w' 0)) \<and> st_set_running (streams (streams_of w') x) = Source \<longrightarrow> running (streams_of w') x)"
proof -
  let ?S = "(blank_session 0)\<lparr>s_eps := [Some 6, None], s_control := Some 7\<rparr>"
  have "may_play demo_sending ?S True" by (simp add: may_play_def)
  from play_starts_sources [OF demo_sending_ok demo_session(3) this] obtain w' st where
    p: "live_play demo_sending 5 True = Inr (w', st)" and
    j: "\<And>j t. j < MAX_TRACKS \<Longrightarrow> s_eps ?S ! j \<noteq> None \<Longrightarrow> le_tracks (entries demo_sending (s_entry ?S)) ! j = Some t \<Longrightarrow>
       waiting (streams_of w') (lt_dest (tracks w' t)) \<and>
       (\<forall>x. feeds (streams_of w') x (lt_dest (tracks w' t)) \<and> st_set_running (streams (streams_of w') x) = Source \<longrightarrow>
          running (streams_of w') x)" by blast
  have "le_tracks (entries demo_sending (s_entry ?S)) ! 0 = Some 0" by (simp add: demo_sending_def blank_session_def)
  with j [of 0 0] p show ?thesis by (simp add: MAX_TRACKS_def)
qed

theorem teardown_releases_session_witness:
  "\<exists>w'. live_teardown demo_sending 5 None = Inr w' \<and> sessions w' 5 = None \<and> (\<forall>e E. endpoints w' e = Some E \<longrightarrow> ep_session E \<noteq> 5)"
  using teardown_releases_session [OF demo_sending_ok demo_session(3)] by blast

theorem play_without_range_crashes_witness:
  "handle_PLAY (live_provider (\<lambda>_. (0, 0))) demo_sending 1 (demo_request ''PLAY'' ''rtsp://h/live/track0'' ''A'') = Inl Fault"
proof -
  let ?m = "demo_request ''PLAY'' ''rtsp://h/live/track0'' ''A''"
  have m: "\<And>n. get_header ?m n = (if str_ieq ''Session'' n then Some ''A'' else None)"
    by (rule demo_request_fields; simp)+
  have s: "get_session demo_sending (get_header ?m ''Session'') = Some 7" by (simp add: m demo_session)
  show ?thesis
    by (rule play_without_range_crashes [OF demo_sending_ok s demo_session(2) _ _ demo_session(4), unfolded rtsp_session.simps, OF demo_session(3)])
      (simp_all add: demo_session m demo_texts)
qed

theorem announce_crashes_witness:
  "\<forall>env. rtsp_handle_msg (live_provider (\<lambda>_. (0, 0))) env (demo_world []) 1 (demo_request ''ANNOUNCE'' ''rtsp://h/live'' []) = Inl Fault"
proof
  fix env
  let ?m = "demo_request ''ANNOUNCE'' ''rtsp://h/live'' []"
  have m: "request_method ?m = ''ANNOUNCE''" "request_uri ?m = ''rtsp://h/live''" by (rule demo_request_fields; simp)+
  have f: "find_rtsp_location (rtsp_loc_list (demo_world [])) (request_uri ?m) True False = Inr
      (Some \<lparr>loc_path = ''/live'', loc_realm = [], loc_username = ''u'', loc_password = ''p'', loc_private = 0\<rparr>, ''/live'', -1)"
    unfolding m(2) by (rule demo_find(2))
  show "rtsp_handle_msg (live_provider (\<lambda>_. (0, 0))) env (demo_world []) 1 ?m = Inl Fault"
    by (rule announce_crashes [OF _ f]) (simp_all add: m)
qed

end
