(* ===== verification/Stable.thy ===== *)
theory Stable
  imports Rtsp_Live
begin

text \<open>
  What the RTSP server and the live sessions leave alone, whenever they return: the HTTP side of
  the state, the configuration, the list of connections, and of a connection everything but
  its send buffer.
\<close>

section \<open>Connections but for the send buffer\<close>

definition same_conn :: "conn \<Rightarrow> conn \<Rightarrow> bool" where
  "same_conn C C' \<longleftrightarrow>
     C' = C\<lparr>send_buf := send_buf C', send_buf_r := send_buf_r C', send_buf_w := send_buf_w C', write_enabled := write_enabled C'\<rparr> \<and>
     length (send_buf C') = length (send_buf C) \<and> (wf_ring C \<longrightarrow> wf_ring C')"

lemma same_conn_refl [simp]: "same_conn C C"
  by (simp add: same_conn_def)

lemma same_conn_trans:
  assumes "same_conn C C1" "same_conn C1 C2"
  shows "same_conn C C2"
  using assms unfolding same_conn_def by (cases C; cases C1; cases C2) simp

lemma same_conn_fields:
  assumes "same_conn C C'"
  shows "c_proto C' = c_proto C" "c_fd C' = c_fd C" "c_second_fd C' = c_second_fd C" "c_second_read C' = c_second_read C"
    "c_cookie C' = c_cookie C" "c_base64_count C' = c_base64_count C" "c_req_buf C' = c_req_buf C" "c_req_len C' = c_req_len C"
    "drop_after C' = drop_after C" "length (send_buf C') = length (send_buf C)" "wf_ring C \<Longrightarrow> wf_ring C'"
  using assms unfolding same_conn_def by (cases C; cases C'; simp)+

lemma put_bytes_same:
  "put_bytes C d = C\<lparr>send_buf := send_buf (put_bytes C d), send_buf_w := send_buf_w (put_bytes C d)\<rparr> \<and>
   length (send_buf (put_bytes C d)) = length (send_buf C)"
proof (induction d arbitrary: C)
  case (Cons x d)
  show ?case using Cons.IH [of "put_byte C x"] by (simp add: put_byte_def)
qed simp

lemma send_data_same: "same_conn C (fst (send_data C d))"
proof -
  have "wf_ring C \<Longrightarrow> wf_ring (fst (send_data C d))" using send_data_spec(1) by blast
  moreover have "length (send_buf (fst (send_data C d))) = length (send_buf C)"
    using put_bytes_same [of C d] by (simp add: send_data_def)
  moreover have "fst (send_data C d) = C\<lparr>send_buf := send_buf (fst (send_data C d)), send_buf_r := send_buf_r (fst (send_data C d)),
      send_buf_w := send_buf_w (fst (send_data C d)), write_enabled := write_enabled (fst (send_data C d))\<rparr>"
    using put_bytes_same [of C d]
    by (cases "put_bytes C d"; cases C) (simp add: send_data_def)
  ultimately show ?thesis unfolding same_conn_def by blast
qed

lemma tcp_send_pmsg_same: "tcp_send_pmsg C m len = Inr (C', ok) \<Longrightarrow> same_conn C C'"
  using send_data_same by (auto simp: tcp_send_pmsg_def Let_def split: if_splits)

section \<open>What stays\<close>

definition stable :: "world \<Rightarrow> world \<Rightarrow> bool" where
  "stable w w' \<longleftrightarrow>
     http_locs w' = http_locs w \<and> http_loc_list w' = http_loc_list w \<and> http_sess w' = http_sess w \<and>
     http_fresh w' = http_fresh w \<and> rtsp_loc_list w' = rtsp_loc_list w \<and> tracks w' = tracks w \<and>
     (\<forall>en. le_tracks (entries w' en) = le_tracks (entries w en)) \<and> conn_list w' = conn_list w \<and>
     (\<forall>c. rel_option same_conn (conns w c) (conns w' c)) \<and>
     (\<forall>c h. proto_state w' c = Http_State h \<longleftrightarrow> proto_state w c = Http_State h)"

lemma same_option_refl [simp]: "rel_option same_conn x x"
  by (cases x) simp_all

lemma same_option_trans:
  "rel_option same_conn x y \<Longrightarrow> rel_option same_conn y z \<Longrightarrow> rel_option same_conn x z"
  by (cases x; cases y; cases z) (auto intro: same_conn_trans)

lemma stable_refl [simp]: "stable w w"
  by (simp add: stable_def)

lemma stable_trans:
  assumes "stable w w1" "stable w1 w2"
  shows "stable w w2"
proof -
  have "rel_option same_conn (conns w c) (conns w2 c)" for c
    using assms same_option_trans unfolding stable_def by blast
  with assms show ?thesis by (simp add: stable_def)
qed

text \<open>A step that keeps the state, followed by one that does.\<close>

definition keeps :: "('a \<Rightarrow> world) \<Rightarrow> world \<Rightarrow> 'a cres \<Rightarrow> bool" where
  "keeps f w r \<longleftrightarrow> (\<forall>x. r = Inr x \<longrightarrow> stable w (f x))"

lemma keeps_Inl [simp]: "keeps f w (Inl e)"
  by (simp add: keeps_def)

lemma keeps_Inr [simp]: "keeps f w (Inr x) = stable w (f x)"
  by (simp add: keeps_def)

lemma keepsD: "keeps f w r \<Longrightarrow> r = Inr x \<Longrightarrow> stable w (f x)"
  by (simp add: keeps_def)

lemma keeps_bind:
  assumes "keeps f w r" "\<And>x. stable w (f x) \<Longrightarrow> r = Inr x \<Longrightarrow> keeps g (f x) (k x)"
  shows "keeps g w (bindE r k)"
  using assms by (cases r) (auto simp: keeps_def intro: stable_trans)

text \<open>A step whose result is not a state.\<close>

lemma keeps_pure: "(\<And>x. r = Inr x \<Longrightarrow> keeps g w (k x)) \<Longrightarrow> keeps g w (bindE r k)"
  by (cases r) auto

lemma keeps_from: "stable w w1 \<Longrightarrow> keeps g w1 r \<Longrightarrow> keeps g w r"
  by (auto simp: keeps_def intro: stable_trans)

lemma stable_conn: "conns w c = Some C \<Longrightarrow> same_conn C C' \<Longrightarrow> stable w (w\<lparr>conns := (conns w)(c := Some C')\<rparr>)"
  by (simp add: stable_def)

section \<open>Sessions and endpoints\<close>

lemma rtsp_session_close_keeps: "keeps id w (rtsp_session_close w r)"
  by (simp add: rtsp_session_close_def keeps_def bindE_eq_Inr) (simp add: stable_def)

lemma stable_upds:
  "stable w w1 \<Longrightarrow> stable w (w1\<lparr>sessions := m\<rparr>)" "stable w w1 \<Longrightarrow> stable w (w1\<lparr>endpoints := n\<rparr>)"
  "stable w w1 \<Longrightarrow> stable w (w1\<lparr>session_list := l\<rparr>)" "stable w w1 \<Longrightarrow> stable w (w1\<lparr>digest_secret := d\<rparr>)"
  "stable w w1 \<Longrightarrow> stable w (w1\<lparr>fresh := i\<rparr>)" "stable w w1 \<Longrightarrow> stable w (w1\<lparr>streams_of := g\<rparr>)"
  by (simp_all add: stable_def)

lemma del_session_keeps: "keeps id w (del_session w s)"
proof -
  have "keeps id w (case S of None \<Rightarrow> Inr (w\<lparr>session_list := l\<rparr>) | Some r \<Rightarrow> rtsp_session_close (w\<lparr>session_list := l\<rparr>) r)" for S l
    using keeps_from [OF stable_upds(3) [OF stable_refl] rtsp_session_close_keeps] by (cases S) (simp_all add: stable_upds)
  then show ?thesis
    unfolding del_session_def Let_def by (intro keeps_pure keeps_bind) (auto intro: stable_upds)
qed

lemma interleave_disconnect_keeps: "keeps id w (interleave_disconnect w c chan)"
  unfolding interleave_disconnect_def
  by (intro keeps_pure) (auto simp: stable_def split: proto_state.splits)

lemma del_rtp_endpoint_keeps: "keeps id w (del_rtp_endpoint w e)"
proof -
  have two: "keeps id w (bindE (interleave_disconnect w c i) (\<lambda>w1. interleave_disconnect w1 c j))" for c i j
    by (rule keeps_bind [OF interleave_disconnect_keeps]) (simp add: interleave_disconnect_keeps)
  have "keeps id w (case t of Inter c i j \<Rightarrow> bindE (interleave_disconnect w c i) (\<lambda>w1. interleave_disconnect w1 c j)
     | _ \<Rightarrow> Inr w)" for t
    using two by (auto split: trans.split)
  then show ?thesis
    unfolding del_rtp_endpoint_def by (intro keeps_pure keeps_bind) (auto intro: stable_upds)
qed

lemma new_rtsp_session_keeps: "keeps fst w (new_rtsp_session w s i)"
  unfolding new_rtsp_session_def Let_def by (intro keeps_pure) (simp add: stable_def)

section \<open>Live sessions\<close>

lemma world_set_waiting_keeps: "keeps id w (world_set_waiting w d b)"
  by (auto simp: keeps_def world_set_waiting_def stable_def split: option.splits sum.splits)

lemma track_check_running1_keeps: "keeps id w (track_check_running1 w t)"
  unfolding track_check_running1_def by (intro keeps_pure) (simp add: world_set_waiting_keeps)

lemma stable_upd_session: "stable w (upd_session s f w)"
  and stable_upd_endpoint: "stable w (upd_endpoint e h w)"
  by (simp_all add: stable_def)

lemma teardown_tracks_keeps: "keeps fst w (teardown_tracks w s ep i ts remaining)"
proof (induction w s ep i ts remaining rule: teardown_tracks.induct)
  case (2 w s ep i t ts remaining)
  show ?case
    unfolding teardown_tracks.simps(2)
  proof (rule keeps_pure)
    fix S assume S: "deref (sessions w) s = Inr S"
    show "keeps fst w (case s_eps S ! i of None \<Rightarrow> teardown_tracks w s ep (i + 1) ts remaining
      | Some e \<Rightarrow> if ep = None \<or> ep = Some e
           then bindE (del_rtp_endpoint w e) (\<lambda>w1.
                bindE (track_check_running1 (upd_session s (\<lambda>S. S\<lparr>s_eps := (s_eps S)[i := None]\<rparr>) w1) t) (\<lambda>w2.
                  teardown_tracks w2 s ep (i + 1) ts remaining))
           else teardown_tracks w s ep (i + 1) ts (remaining + 1))"
    proof (cases "s_eps S ! i")
      case None
      then show ?thesis using 2(1) [OF S None] by simp
    next
      case e: (Some e)
      show ?thesis
      proof (cases "ep = None \<or> ep = Some e")
        case True
        have "keeps fst w1 (bindE (track_check_running1 (upd_session s (\<lambda>S. S\<lparr>s_eps := (s_eps S)[i := None]\<rparr>) w1) t) (\<lambda>w2.
                  teardown_tracks w2 s ep (i + 1) ts remaining))" if d: "del_rtp_endpoint w e = Inr w1" for w1
          by (rule keeps_from [OF stable_upd_session keeps_bind [OF track_check_running1_keeps]])
            (simp only: id_apply 2(2) [OF S e True d])
        then have "keeps fst w (bindE (del_rtp_endpoint w e) (\<lambda>w1.
                bindE (track_check_running1 (upd_session s (\<lambda>S. S\<lparr>s_eps := (s_eps S)[i := None]\<rparr>) w1) t) (\<lambda>w2.
                  teardown_tracks w2 s ep (i + 1) ts remaining)))"
          by (intro keeps_bind [OF del_rtp_endpoint_keeps]) (simp only: id_apply)
        with e True show ?thesis by simp
      next
        case False
        from 2(3) [OF S e this] show ?thesis unfolding e option.case if_not_P [OF False] .
      qed
    qed
  qed
qed simp

lemma live_teardown_keeps: "keeps id w (live_teardown w s ep)"
proof -
  have "keeps id w1 (del_session (w1\<lparr>entries := (entries w1)(en :=
                 (entries w1 en)\<lparr>le_sessions := l\<rparr>)\<rparr>) s)" for w1 en l
    by (rule keeps_from [OF _ del_session_keeps]) (simp add: stable_def)
  then show ?thesis
    unfolding live_teardown_def Let_def
    by (intro keeps_pure keeps_bind [OF teardown_tracks_keeps]) (auto split: prod.split)
qed

lemma live_open_stable: "live_open w en = (w', s) \<Longrightarrow> stable w w'"
  by (auto simp: live_open_def new_session_def stable_def Let_def)

lemma live_setup_keeps: "keeps fst w (live_setup w rnd now s t)"
  unfolding live_setup_def Let_def
  by (intro keeps_pure) (auto intro!: stable_upds split: option.split)

lemma play_tracks_keeps: "keeps fst w (play_tracks w s i ts start)"
proof (induction ts arbitrary: w i start)
  case (Cons t ts)
  have "keeps fst w (bindE (world_set_waiting w d True) (\<lambda>w1. bindE (deref (endpoints w1) e) (\<lambda>E.
             if packet_count E = 0 then play_tracks w1 s (i + 1) ts start
             else if start = None then Inl Fault
             else play_tracks w1 s (i + 1) ts (Some 0))))" for d e
    by (intro keeps_bind [OF world_set_waiting_keeps] keeps_pure) (simp add: Cons.IH)
  with Cons.IH show ?case
    unfolding play_tracks.simps by (intro keeps_pure) (auto split: option.split)
qed simp

lemma live_play_keeps: "keeps fst w (live_play w s b)"
  unfolding live_play_def
  by (intro keeps_pure keeps_from [OF stable_upd_session play_tracks_keeps])

section \<open>Requests\<close>

lemma send_reply_keeps: "keeps fst w (send_reply w c r len)"
  unfolding send_reply_def
  by (intro keeps_pure) (auto simp: keeps_def bindE_eq_Inr deref_eq_Inr intro: stable_conn tcp_send_pmsg_same)

lemma keeps_fst: "keeps fst w r \<Longrightarrow> keeps id w (bindE r (\<lambda>(w', x). Inr w'))"
  by (auto intro: keeps_bind)

lemma rtsp_send_error_keeps: "keeps id w (rtsp_send_error w c m code reason)"
  unfolding rtsp_send_error_def by (intro keeps_pure keeps_fst send_reply_keeps)

lemma rtsp_verify_auth_keeps: "keeps fst w (rtsp_verify_auth env w c m loc)"
proof -
  have "keeps fst w (bindE (send_reply (w\<lparr>digest_secret := d\<rparr>) c r len) (\<lambda>(w', x). Inr (w', False)))" for d r len
    by (rule keeps_from [OF stable_upds(4) [OF stable_refl] keeps_bind [OF send_reply_keeps]]) auto
  then show ?thesis unfolding rtsp_verify_auth_def Let_def by (auto intro: keeps_pure)
qed

lemma authorised_keeps: "keeps fst w (authorised env w c m loc)"
  by (simp add: authorised_def rtsp_verify_auth_keeps)

lemma options_keeps: "keeps id w (handle_OPTIONS w c m)"
  unfolding handle_OPTIONS_def by (intro keeps_pure keeps_fst send_reply_keeps)

lemma provider_keeps:
  "pr_open (live_provider dims) w en = (w', s) \<Longrightarrow> stable w w'"
  "keeps id w (pr_teardown (live_provider dims) w s ep)"
  "keeps fst w (pr_setup (live_provider dims) w rnd now s t)"
  "keeps fst w (pr_play (live_provider dims) w s b)"
  by (simp_all add: live_provider_def live_open_stable live_teardown_keeps live_setup_keeps live_play_keeps)

lemma send_body_keeps:
  "keeps id w (bindE (send_reply w c r len) (\<lambda>(w3, sent). if \<not> sent then Inr w3
     else bindE (deref (conns w3) c) (\<lambda>C. Inr (w3\<lparr>conns := (conns w3)(c := Some (fst (send_data C d)))\<rparr>))))"
  by (rule keeps_bind [OF send_reply_keeps])
    (auto intro!: keeps_pure stable_conn send_data_same simp: deref_eq_Inr)

lemma describe_keeps: "keeps id w (handle_DESCRIBE (live_provider dims) env w c m)"
proof -
  let ?P = "live_provider dims"
  have body: "keeps id w2 (case sdp of
                         None \<Rightarrow> rtsp_send_error w2 c m 404 ''SDP Not Found''
                       | Some sdp \<Rightarrow>
                           bindE (rtsp_create_reply m 200 ''OK'') (\<lambda>r.
                             if 512 < length (request_uri m) + 2 then Inl Fault
                             else let r = fst (add_header r ''Content-Base'' (request_uri m @ ''/''));
                                      r = fst (add_header r ''Content-Type'' ''application/sdp'')
                                  in bindE (send_reply w2 c r (int (length sdp))) (\<lambda>(w3, sent).
                                       if \<not> sent then Inr w3
                                       else bindE (deref (conns w3) c) (\<lambda>C.
                                         Inr (w3\<lparr>conns := (conns w3)(c := Some (fst (send_data C (bytes_of sdp))))\<rparr>)))))"
    for w2 sdp
    using send_body_keeps rtsp_send_error_keeps by (cases sdp) (auto simp: Let_def intro!: keeps_pure)
  have main: "keeps id w1 (bindE (authorised env w1 c m loc) (\<lambda>(w2, ok).
              if \<not> ok then pr_teardown ?P w2 s None
              else bindE (pr_get_sdp ?P w2 s) (\<lambda>sdp. bindE (F w2 sdp) (\<lambda>w4. pr_teardown ?P w4 s None))))"
    if "\<And>w2 sdp. keeps id w2 (F w2 sdp)" for w1 loc s F
  proof (rule keeps_bind [OF authorised_keeps], clarify, goal_cases)
    case (1 w2 ok)
    show ?case
      by (cases ok) (auto simp: provider_keeps(2) intro!: keeps_pure keeps_bind [OF that])
  qed
  show ?thesis
    unfolding handle_DESCRIBE_def
  proof (rule keeps_pure, clarify, goal_cases)
    case (1 loc path track)
    show ?case
    proof (cases loc)
      case None
      then show ?thesis by (simp add: rtsp_send_error_keeps)
    next
      case (Some l)
      obtain w1 s where o: "pr_open ?P w (loc_private l) = (w1, s)" by fastforce
      from keeps_from [OF provider_keeps(1) [OF o] main [OF body]] Some o show ?thesis by simp
    qed
  qed
qed

section \<open>Transports\<close>

lemma udp_setup_stable: "rtsp_udp_setup env w e t r = (w', r', ok) \<Longrightarrow> stable w w'"
  unfolding rtsp_udp_setup_def
  by (auto split: option.splits sum.splits if_splits intro: stable_upd_endpoint)

lemma interleave_setup_keeps: "keeps fst w (rtsp_interleave_setup w e c t r)"
proof -
  have "stable w (upd_endpoint e f (w\<lparr>proto_state := (proto_state w)(c := Rtsp_State ch)\<rparr>))"
    if "channels w c = Inr rc" for rc f ch
    using that by (auto simp: stable_def channels_def split: proto_state.splits)
  then show ?thesis
    unfolding rtsp_interleave_setup_def Let_def by (intro keeps_pure) (auto split: option.split)
qed

lemma transport_setup_keeps: "keeps fst w (transport_setup env w e c t r)"
  using udp_setup_stable interleave_setup_keeps
  by (cases "rtsp_udp_setup env w e t r") (auto simp: transport_setup_def)

lemma keeps_reply: "keeps id w (bindE (send_reply w c r len) (\<lambda>(w4, _). Inr w4))"
  by (rule keeps_fst [OF send_reply_keeps])

lemma setup_track_keeps: "keeps id w (setup_track (live_provider dims) env w c m t s track rs)"
proof -
  let ?P = "live_provider dims"
  have end_part: "keeps id w2 (bindE (case rs of Some rs \<Rightarrow> Inr (w2, rs) | None \<Rightarrow> new_rtsp_session w2 s i) (\<lambda>(w3, rs).
                                bindE (deref (rs_tab w3) rs) (\<lambda>R.
                                bindE (send_reply w3 c (h r R) (-1)) (\<lambda>(w4, _). Inr w4))))" for w2 i r h
    by (rule keeps_bind [where f = fst])
      (auto simp: new_rtsp_session_keeps split: option.split intro!: keeps_pure dest: keepsD [OF send_reply_keeps])
  have mid: "keeps id w1 (bindE (transport_setup env w1 e c t r) (\<lambda>(w2, r, ok).
                           if \<not> ok
                           then bindE (rtsp_send_error w2 c m 461 ''Unsupported Transport'') (\<lambda>w3. pr_teardown ?P w3 s (Some e))
                           else bindE (case rs of Some rs \<Rightarrow> Inr (w2, rs) | None \<Rightarrow> new_rtsp_session w2 s i) (\<lambda>(w3, rs).
                                bindE (deref (rs_tab w3) rs) (\<lambda>R.
                                bindE (send_reply w3 c (h r R) (-1)) (\<lambda>(w4, _). Inr w4)))))" for w1 e r i h
    by (rule keeps_bind [OF transport_setup_keeps])
      (auto simp: provider_keeps(2) end_part intro!: keeps_bind [OF rtsp_send_error_keeps])
  have ready: "keeps id w0 (bindE (pr_setup ?P w0 rnd now s track) (\<lambda>(w1, ok).
              if \<not> ok
              then bindE (rtsp_send_error w1 c m 404 ''Not Found'') (\<lambda>w2.
                     if rs = None then pr_teardown ?P w2 s None else Inr w2)
              else bindE (rtsp_create_reply m 200 ''OK'') (\<lambda>r.
                   bindE (deref (sessions w1) s) (\<lambda>S.
                     case s_eps S ! track of
                       None \<Rightarrow> Inl Fault
                     | Some e \<Rightarrow> bindE (deref (endpoints w1) e) (\<lambda>_. M w1 r e)))))"
    if "\<And>w1 r e. keeps id w1 (M w1 r e)" for w0 rnd now M
    by (rule keeps_bind [OF provider_keeps(3)])
      (auto simp: provider_keeps(2) intro!: keeps_pure that keeps_bind [OF rtsp_send_error_keeps] split: option.split)
  show ?thesis
    unfolding setup_track_def Let_def
  proof (rule keeps_pure, goal_cases)
    case (1 S)
    show ?case
    proof (cases "s_eps S ! track \<noteq> None")
      case True
      then show ?thesis by (simp add: rtsp_send_error_keeps)
    next
      case False
      have st: "stable w (if b then upd_session s f w else w)" for b f using stable_upd_session by simp
      show ?thesis
        unfolding if_not_P [OF False]
        by (rule keeps_pure, clarify, rule keeps_from [OF st ready], rule mid)
    qed
  qed
qed

section \<open>The dispatcher\<close>

lemma setup_keeps: "keeps id w (handle_SETUP (live_provider dims) env w c m)"
proof -
  let ?P = "live_provider dims"
  have known: "keeps id w1 (case get_session w1 (Some sh) of
                         None \<Rightarrow> rtsp_send_error w1 c m 454 ''Session Not Found''
                       | Some rs \<Rightarrow> bindE (deref (rs_tab w1) rs) (\<lambda>R. setup_track ?P env w1 c m t (rs_sess R) k (Some rs)))"
    for w1 sh t k
    by (auto simp: rtsp_send_error_keeps setup_track_keeps split: option.split intro!: keeps_pure)
  have new: "keeps id w1 (let (w2, s) = pr_open ?P w1 (loc_private loc)
                       in setup_track ?P env (upd_session s f w2) c m t s k None)" for w1 loc f t k
  proof -
    obtain w2 s where o: "pr_open ?P w1 (loc_private loc) = (w2, s)" by fastforce
    from stable_trans [OF provider_keeps(1) [OF o] stable_upd_session]
    show ?thesis unfolding o Let_def prod.case by (rule keeps_from [OF _ setup_track_keeps])
  qed
  show ?thesis
    unfolding handle_SETUP_def
  proof (rule keeps_pure, clarify, goal_cases)
    case (1 loc path track)
    show ?case
    proof (cases "loc = None \<or> track < 0 \<or> int MAX_TRACKS \<le> track")
      case True
      then show ?thesis by (auto simp: rtsp_send_error_keeps split: option.split)
    next
      case False
      then obtain l where l: "loc = Some l" and n: "\<not> (track < 0 \<or> int MAX_TRACKS \<le> track)" by (cases loc) auto
      show ?thesis
        unfolding l option.case if_not_P [OF n]
      proof (rule keeps_bind [OF authorised_keeps], clarify, goal_cases)
        case (1 w1 ok)
        show ?case using known new by (auto simp: rtsp_send_error_keeps split: option.split)
      qed
    qed
  qed
qed

lemma play_keeps: "keeps id w (handle_PLAY (live_provider dims) w c m)"
proof -
  have "keeps id w1 (bindE X (\<lambda>r. bindE (Y r) (\<lambda>r. bindE (send_reply w1 c r (-1)) (\<lambda>(w2, _). Inr w2))))" for w1 X Y
    by (intro keeps_pure keeps_reply)
  then show ?thesis
    unfolding handle_PLAY_def Let_def
    by (auto simp: rtsp_send_error_keeps split: option.split intro!: keeps_pure [of "deref _ _"] keeps_bind [OF provider_keeps(4)])
qed

lemma pause_keeps: "keeps id w (handle_PAUSE (live_provider dims) w c m)"
  unfolding handle_PAUSE_def
  by (auto simp: rtsp_send_error_keeps live_provider_def split: option.split intro!: keeps_pure)

lemma teardown_request_keeps: "keeps id w (handle_TEARDOWN (live_provider dims) w c m)"
proof -
  have "keeps id w (bindE (pr_teardown (live_provider dims) w s ep) (\<lambda>w1. bindE (send_reply w1 c r (-1)) (\<lambda>(w2, _). Inr w2)))"
    for s ep r
    by (rule keeps_bind [OF provider_keeps(2)]) (simp add: keeps_reply)
  note td = this
  have *: "keeps id w (bindE (deref (rs_tab w) rs) (\<lambda>R.
           bindE (rtsp_create_reply m 200 ''OK'') (\<lambda>r.
           bindE (deref (sessions w) (rs_sess R)) (\<lambda>S.
           bindE (pr_teardown (live_provider dims) w (rs_sess R) (if k < 0 then None else s_eps S ! nat k)) (\<lambda>w1.
           bindE (send_reply w1 c (fst (add_header r ''Session'' (rs_id R))) (-1)) (\<lambda>(w2, _). Inr w2))))))" for rs k
    by (rule keeps_pure, rule keeps_pure, rule keeps_pure, rule td)
  show ?thesis
    unfolding handle_TEARDOWN_def Let_def
    by (rule keeps_pure) (auto simp: rtsp_send_error_keeps * split: option.split)
qed

lemma handle_msg_keeps: "keeps id w (rtsp_handle_msg (live_provider dims) env w c m)"
proof -
  have "keeps id w (handle_ANNOUNCE (live_provider dims) env w c m)"
    unfolding handle_ANNOUNCE_def
  proof (rule keeps_pure, clarify, goal_cases)
    case (1 loc path track)
    show ?case
    proof (cases loc)
      case None
      then show ?thesis by (simp add: rtsp_send_error_keeps)
    next
      case (Some l)
      obtain w1 s where o: "pr_open (live_provider dims) w (loc_private l) = (w1, s)" by fastforce
      have "keeps id w1 (bindE (authorised env w1 c m l) (\<lambda>(w2, ok). if \<not> ok then Inr w2 else Inl Fault))"
        by (rule keeps_bind [OF authorised_keeps]) auto
      from keeps_from [OF provider_keeps(1) [OF o] this] Some o show ?thesis by simp
    qed
  qed
  then show ?thesis
    by (simp add: rtsp_handle_msg_def options_keeps describe_keeps setup_keeps play_keeps pause_keeps
        teardown_request_keeps rtsp_handle_unknown_def rtsp_send_error_keeps)
qed

section \<open>Interleaved input and the end of a connection\<close>

lemma interleave_recv_keeps: "keeps id w (interleave_recv w c chan now)"
  unfolding interleave_recv_def
  by (auto intro!: keeps_pure simp: stable_upd_endpoint split: option.split prod.split)

lemma disconnect_channels_keeps: "keeps id w (disconnect_channels (live_provider dims) w c is)"
proof (induction "is" arbitrary: w)
  case (Cons i "is")
  have "keeps id w (bindE (deref (endpoints w) e) (\<lambda>E. bindE (pr_teardown (live_provider dims) w (ep_session E) (Some e))
      (\<lambda>w'. disconnect_channels (live_provider dims) w' c is)))" for e
    by (intro keeps_pure keeps_bind [OF provider_keeps(2)]) (simp add: Cons.IH)
  note td = this
  show ?case
    unfolding disconnect_channels.simps
  proof (rule keeps_pure, goal_cases)
    case (1 rc)
    show ?case
    proof (cases rc)
      case (Some ch)
      obtain oe b where "ch ! i = (oe, b)" by fastforce
      then show ?thesis unfolding Some option.case by (cases oe; cases b) (simp_all only: prod.case option.case bool.case td Cons.IH if_True if_False)
    qed simp
  qed
qed simp

lemma conn_disconnect_keeps:
  assumes "rtsp_conn_disconnect (live_provider dims) w c = Inr w'" "\<And>h. proto_state w c \<noteq> Http_State h"
  shows "stable w w'"
proof -
  from assms(1) obtain w1 where w1: "disconnect_channels (live_provider dims) w c [0..<MAX_INTERLEAVE_CHANNELS] = Inr w1"
    "w' = w1\<lparr>proto_state := (proto_state w1)(c := No_State)\<rparr>" by (auto simp: rtsp_conn_disconnect_def bindE_eq_Inr)
  from keepsD [OF disconnect_channels_keeps w1(1)] have "stable w w1" by simp
  with assms(2) show ?thesis by (auto simp: w1(2) stable_def)
qed

end
