(* ===== verification/Http.thy ===== *)
theory Http
  imports World Replies
begin

text \<open>
  \<open>http.c\<close>: JPEG pictures over HTTP, one picture per request, or a picture after the other as a
  multipart stream. A location keeps the last frame of its stream; a connection that gets the
  stream of a location hangs a session on it. The access log is left out.
\<close>

section \<open>Locations\<close>

text \<open>The byte behind the part of the path that was compared may lie outside the array of the path.\<close>

definition http_matches :: "string \<Rightarrow> nat \<Rightarrow> string \<Rightarrow> bool cres" where
  "http_matches path len p =
     (let q = cstr p 0 in
      if \<not> strn_eq (length q) path q then Inr False
      else bindE (rd p len) (\<lambda>c. Inr (c = CHR ''/'' \<or> c = NUL)))"

fun http_node_find_location :: "world \<Rightarrow> nat list \<Rightarrow> string \<Rightarrow> nat \<Rightarrow> nat option cres" where
  "http_node_find_location w [] path len = Inr None"
| "http_node_find_location w (l # ls) path len =
     bindE (http_matches path len (hl_path (http_locs w l))) (\<lambda>b.
       if b then Inr (Some l) else http_node_find_location w ls path len)"

text \<open>An empty path is preceded by the NUL or the space in front of it.\<close>

definition find_http_location :: "world \<Rightarrow> string \<Rightarrow> nat option cres" where
  "find_http_location w path =
     (let len = length path;
          len = (if path \<noteq> [] \<and> path ! (len - 1) = CHR ''/'' then len - 1 else len)
      in http_node_find_location w (http_loc_list w) path len)"

section \<open>Replies\<close>

definition http_create_reply :: "int \<Rightarrow> string \<Rightarrow> pmsg cres" where
  "http_create_reply code reason =
     (case start_reply 512 ''HTTP/1.0'' code reason of None \<Rightarrow> Inl Fault | Some r \<Rightarrow> Inr r)"

abbreviation upd_conn :: "nat \<Rightarrow> conn \<Rightarrow> world \<Rightarrow> world" where
  "upd_conn c C w \<equiv> w\<lparr>conns := (conns w)(c := Some C)\<rparr>"

text \<open>The reply with a text as its body, and the end of the connection behind it.\<close>

definition http_error_to :: "conn \<Rightarrow> int \<Rightarrow> string \<Rightarrow> string \<Rightarrow> conn cres" where
  "http_error_to C code reason t =
     bindE (http_create_reply code reason) (\<lambda>r.
       let r = fst (add_header r ''Connection'' ''close'');
           r = fst (add_header r ''Content-Type'' ''text/html'')
       in bindE (tcp_send_pmsg (C\<lparr>drop_after := True\<rparr>) r (int (length t))) (\<lambda>(C, ok).
            Inr (if ok then fst (send_data C (bytes_of t)) else C)))"

definition http_send_error :: "world \<Rightarrow> nat \<Rightarrow> int \<Rightarrow> string \<Rightarrow> string \<Rightarrow> world cres" where
  "http_send_error w c code reason t =
     bindE (deref (conns w) c) (\<lambda>C. bindE (http_error_to C code reason t) (\<lambda>C'. Inr (upd_conn c C' w)))"

section \<open>Sessions\<close>

definition http_conn_disconnect :: "world \<Rightarrow> nat \<Rightarrow> world cres" where
  "http_conn_disconnect w c =
     (case proto_state w c of
        Http_State h \<Rightarrow>
          bindE (deref (http_sess w) h) (\<lambda>H.
            let l = hs_loc H; L = http_locs w l in
            Inr (w\<lparr>http_locs := (http_locs w)(l := L\<lparr>hl_sess := remove1 h (hl_sess L)\<rparr>),
                   http_sess := (http_sess w)(h := None), proto_state := (proto_state w)(c := No_State)\<rparr>))
      | _ \<Rightarrow> Inl Fault)"

definition add_http_stream_session :: "world \<Rightarrow> nat \<Rightarrow> nat \<Rightarrow> world" where
  "add_http_stream_session w l c =
     (let h = http_fresh w; L = http_locs w l in
      w\<lparr>http_locs := (http_locs w)(l := L\<lparr>hl_sess := h # hl_sess L\<rparr>),
        http_sess := (http_sess w)(h := Some \<lparr>hs_loc = l, hs_conn = c\<rparr>), http_fresh := h + 1,
        proto_state := (proto_state w)(c := Http_State h)\<rparr>)"

section \<open>Pictures\<close>

definition add_jfif :: "byte list" where
  "add_jfif = [0xff, 0xd8, 0xff, 0xe0, 0x00, 0x10, 0x4a, 0x46, 0x49, 0x46,
     0x00, 0x01, 0x02, 0x01, 0x00, 0x48, 0x00, 0x48, 0x00, 0x00]"

text \<open>\<open>d\<close> and \<open>jfif\<close> are the frame of the location and its length with a JFIF header.\<close>

definition send_frame_with_jfif :: "conn \<Rightarrow> byte list \<Rightarrow> nat \<Rightarrow> conn" where
  "send_frame_with_jfif C d jfif =
     (if length d < jfif then fst (send_data (fst (send_data C add_jfif)) (drop 2 d))
      else fst (send_data C d))"

definition part_header :: "nat \<Rightarrow> string" where
  "part_header len = ''--boundary'' @ crlf @ ''Content-Type: image/jpeg'' @ crlf @
     ''Content-Length: '' @ dec_nat len @ crlf @ crlf"

definition send_multipart_frame :: "conn \<Rightarrow> byte list \<Rightarrow> nat \<Rightarrow> conn" where
  "send_multipart_frame C d jfif =
     (let hdrs = part_header jfif in
      if avail_send_buf C < jfif + length hdrs then C
      else send_frame_with_jfif (fst (send_data C (bytes_of hdrs))) d jfif)"

section \<open>Requests\<close>

definition http_handle_GET :: "world \<Rightarrow> nat \<Rightarrow> string \<Rightarrow> world cres" where
  "http_handle_GET w c uri =
     bindE (find_http_location w uri) (\<lambda>loc.
       case loc of
         None \<Rightarrow> http_send_error w c 404 ''Not Found'' ''<html><body><p>File not found</p></body></html>''
       | Some l \<Rightarrow>
           (let L = http_locs w l in
            if length (cstr (hl_path L) 0) < length uri
            then http_send_error w c 404 ''Not Found'' ''<html><body><p>File not found</p></body></html>''
            else bindE (deref (conns w) c) (\<lambda>C.
              case hl_frame L of
                None \<Rightarrow> http_send_error w c 404 ''Not Found'' ''<html><body><p>Image not available</p></body></html>''
              | Some d \<Rightarrow>
                  if avail_send_buf C < length d + 400
                  then http_send_error w c 404 ''Not Found'' ''<html><body><p>Image not available</p></body></html>''
                  else bindE (http_create_reply 200 ''OK'') (\<lambda>r.
                    let r = fst (add_header r ''Expires'' ''0'');
                        r = fst (add_header r ''Pragma'' ''no-cache'');
                        r = fst (add_header r ''Cache-Control'' ''no-cache'')
                    in if hl_streaming L
                       then let r = fst (add_header r ''Content-Type''
                                      (''multipart/x-mixed-replace;boundary='' @ [QUOTE] @ ''boundary'' @ [QUOTE]))
                            in bindE (tcp_send_pmsg C r (-1)) (\<lambda>(C, _).
                                 let w = add_http_stream_session (upd_conn c C w) l c
                                 in Inr (upd_conn c (send_multipart_frame C d (hl_jfif L)) w))
                       else let r = fst (add_header r ''Connection'' ''close'');
                                r = fst (add_header r ''Content-Type'' ''image/jpeg'')
                            in bindE (tcp_send_pmsg (C\<lparr>drop_after := True\<rparr>) r (int (hl_jfif L))) (\<lambda>(C, ok).
                                 Inr (upd_conn c (if ok then send_frame_with_jfif C d (hl_jfif L) else C) w))))))"

definition http_handle_unknown :: "world \<Rightarrow> nat \<Rightarrow> world cres" where
  "http_handle_unknown w c =
     http_send_error w c 501 ''Not Implemented'' ''<html><body><p>POST requests are unsupported here</p></body></html>''"

definition http_handle_msg :: "world \<Rightarrow> nat \<Rightarrow> string \<Rightarrow> string \<Rightarrow> world cres" where
  "http_handle_msg w c meth uri =
     (if str_ieq meth ''GET'' then http_handle_GET w c uri else http_handle_unknown w c)"

section \<open>A new frame\<close>

text \<open>The tests of the first bytes, which are read without a test of the length.\<close>

definition malformed :: "byte list \<Rightarrow> bool cres" where
  "malformed d =
     bindE (rd d 0) (\<lambda>a. if a \<noteq> 0xff then Inr True
       else bindE (rd d 1) (\<lambda>b. if b \<noteq> 0xd8 then Inr True
         else bindE (rd d 2) (\<lambda>c. Inr (c \<noteq> 0xff))))"

text \<open>Is the JFIF header missing? The bytes are read without a test of the length.\<close>

definition no_jfif :: "byte list \<Rightarrow> bool cres" where
  "no_jfif d =
     bindE (rd d 3) (\<lambda>b. if b \<noteq> 0xe0 then Inr True
       else bindE (rd d 10) (\<lambda>b. Inr (b \<noteq> 0 \<or> take 4 (drop 6 d) \<noteq> [0x4a, 0x46, 0x49, 0x46])))"

fun send_to_streams :: "world \<Rightarrow> nat \<Rightarrow> nat list \<Rightarrow> world cres" where
  "send_to_streams w l [] = Inr w"
| "send_to_streams w l (h # hs) =
     bindE (deref (http_sess w) h) (\<lambda>H.
     bindE (deref (conns w) (hs_conn H)) (\<lambda>C.
       case hl_frame (http_locs w l) of
         None \<Rightarrow> Inl Fault
       | Some d \<Rightarrow> send_to_streams (upd_conn (hs_conn H) (send_multipart_frame C d (hl_jfif (http_locs w l))) w) l hs))"

definition jpeg_next_frame :: "world \<Rightarrow> nat \<Rightarrow> byte list \<Rightarrow> world cres" where
  "jpeg_next_frame w l d =
     bindE (malformed d) (\<lambda>bad.
       if bad then Inr w
       else bindE (no_jfif d) (\<lambda>no.
         let w = w\<lparr>http_locs := (http_locs w)(l := (http_locs w l)
                     \<lparr>hl_frame := Some d, hl_jfif := (if no then length d + 18 else length d)\<rparr>)\<rparr>
         in send_to_streams w l (hl_sess (http_locs w l))))"

section \<open>Configuration\<close>

text \<open>\<open>junk\<close> is what the allocated memory holds; the token is at most 255 characters long.\<close>

definition http_start_block :: "world \<Rightarrow> nat \<Rightarrow> string \<Rightarrow> world" where
  "http_start_block w l junk =
     w\<lparr>http_locs := (http_locs w)(l := \<lparr>hl_path = blit junk 0 [NUL], hl_frame = None, hl_jfif = 0, hl_sess = [],
                                      hl_streaming = False\<rparr>),
       http_loc_list := l # http_loc_list w\<rparr>"

definition http_set_path :: "world \<Rightarrow> nat \<Rightarrow> string \<Rightarrow> world" where
  "http_set_path w l str =
     w\<lparr>http_locs := (http_locs w)(l := (http_locs w l)\<lparr>hl_path := blit (hl_path (http_locs w l)) 0 (str @ [NUL])\<rparr>)\<rparr>"

definition http_set_mode :: "world \<Rightarrow> nat \<Rightarrow> string \<Rightarrow> world option" where
  "http_set_mode w l str =
     (if str_ieq str ''single'' then Some (w\<lparr>http_locs := (http_locs w)(l := (http_locs w l)\<lparr>hl_streaming := False\<rparr>)\<rparr>)
      else if str_ieq str ''stream'' then Some (w\<lparr>http_locs := (http_locs w)(l := (http_locs w l)\<lparr>hl_streaming := True\<rparr>)\<rparr>)
      else None)"

section \<open>The wire format of a picture\<close>

text \<open>What a client gets: the picture with a JFIF header in front if it has none.\<close>

definition wire_picture :: "byte list \<Rightarrow> nat \<Rightarrow> byte list" where
  "wire_picture d jfif = (if length d < jfif then add_jfif @ drop 2 d else d)"

definition picture_ok :: "byte list \<Rightarrow> nat \<Rightarrow> bool" where
  "picture_ok d jfif \<longleftrightarrow> 2 \<le> length d \<and> (jfif = length d \<or> jfif = length d + 18)"

lemma length_wire_picture: "picture_ok d jfif \<Longrightarrow> length (wire_picture d jfif) = jfif"
  by (auto simp: picture_ok_def wire_picture_def add_jfif_def)

lemma send_data_room:
  assumes "wf_ring C" "length d \<le> avail_send_buf C"
  shows "wf_ring (fst (send_data C d))" "pending (fst (send_data C d)) = pending C @ d"
    "avail_send_buf (fst (send_data C d)) = avail_send_buf C - length d"
proof -
  note s = send_data_spec [OF assms(1), of d]
  show "wf_ring (fst (send_data C d))" "pending (fst (send_data C d)) = pending C @ d" using s assms(2) by simp_all
  show "avail_send_buf (fst (send_data C d)) = avail_send_buf C - length d"
    using put_bytes_spec [OF assms(1), of d] assms(2) by (simp add: send_data_def)
qed

lemma send_frame_spec:
  assumes "wf_ring C" "picture_ok d jfif" "jfif \<le> avail_send_buf C"
  shows "wf_ring (send_frame_with_jfif C d jfif)" "pending (send_frame_with_jfif C d jfif) = pending C @ wire_picture d jfif"
proof -
  have *: "wf_ring (send_frame_with_jfif C d jfif) \<and>
    pending (send_frame_with_jfif C d jfif) = pending C @ wire_picture d jfif"
  proof (cases "length d < jfif")
    case True
    then have j: "jfif = length d + 18" "2 \<le> length d" using assms(2) by (auto simp: picture_ok_def)
    have l: "length add_jfif = 20" by (simp add: add_jfif_def)
    have room: "length add_jfif \<le> avail_send_buf C" using assms(3) j by (simp add: l)
    note s = send_data_room [OF assms(1) room]
    have "length (drop 2 d) \<le> avail_send_buf (fst (send_data C add_jfif))" using s(3) assms(3) j by (simp add: l)
    note s2 = send_data_room [OF s(1) this]
    show ?thesis using True s(2) s2(1,2) by (simp add: send_frame_with_jfif_def wire_picture_def)
  next
    case False
    then have "length d \<le> avail_send_buf C" using assms(2,3) by (auto simp: picture_ok_def)
    note s = send_data_room [OF assms(1) this]
    show ?thesis using False s(1,2) by (simp add: send_frame_with_jfif_def wire_picture_def)
  qed
  then show "wf_ring (send_frame_with_jfif C d jfif)"
    "pending (send_frame_with_jfif C d jfif) = pending C @ wire_picture d jfif" by simp_all
qed

text \<open>
  A part of a multipart stream is queued whole, with the event for output enabled, when the buffer has
  room for it, and not at all otherwise. Its Content-Length is the number of bytes of the picture
  that follows the header.
\<close>

definition part_fits :: "conn \<Rightarrow> nat \<Rightarrow> bool" where
  "part_fits C jfif \<longleftrightarrow> jfif + length (part_header jfif) \<le> avail_send_buf C"

lemma send_data_enabled: "write_enabled C \<Longrightarrow> write_enabled (fst (send_data C d))"
  by (simp add: send_data_def)

lemma send_frame_enabled: "write_enabled C \<Longrightarrow> write_enabled (send_frame_with_jfif C d jfif)"
  by (simp add: send_frame_with_jfif_def Let_def send_data_enabled)

lemma send_multipart_spec:
  assumes "wf_ring C" "picture_ok d jfif"
  shows "wf_ring (send_multipart_frame C d jfif) \<and>
    (if part_fits C jfif
     then pending (send_multipart_frame C d jfif) = pending C @ bytes_of (part_header jfif) @ wire_picture d jfif \<and>
       write_enabled (send_multipart_frame C d jfif)
     else send_multipart_frame C d jfif = C)"
proof (cases "part_fits C jfif")
  case False
  then show ?thesis using assms(1) by (simp add: send_multipart_frame_def part_fits_def)
next
  case True
  then have room: "length (bytes_of (part_header jfif)) \<le> avail_send_buf C" by (simp add: part_fits_def)
  note s = send_data_room [OF assms(1) room]
  have "write_enabled (fst (send_data C (bytes_of (part_header jfif))))" using room by (simp add: send_data_def)
  note e = send_frame_enabled [OF this, of d jfif]
  have "jfif \<le> avail_send_buf (fst (send_data C (bytes_of (part_header jfif))))" using s(3) True by (simp add: part_fits_def)
  note f = send_frame_spec [OF s(1) assms(2) this]
  show ?thesis
    using True f s(2) e length_wire_picture [OF assms(2)] by (simp add: send_multipart_frame_def part_fits_def Let_def)
qed

end
