(* ===== verification/Server_State.thy ===== *)
theory Server_State
  imports Stable Http
begin

text \<open>
  The invariant of the whole server: the RTSP side (\<open>world_ok\<close>), the HTTP side (\<open>http_ok\<close>: the
  sessions of \<open>http.c\<close> and the connections point to each other), the buffers of the connections,
  and the locations.
\<close>

section \<open>The invariant\<close>

definition COOKIE :: nat where "COOKIE = 128"

definition wf_conn :: "conn \<Rightarrow> bool" where
  "wf_conn C \<longleftrightarrow> length (c_req_buf C) = REQ_BUF \<and> c_req_len C < REQ_BUF \<and> length (send_buf C) = SEND_BUF \<and>
     wf_ring C \<and> length (c_cookie C) < COOKIE \<and> c_base64_count C \<le> 3 \<and> nat (c_base64_count C) \<le> c_req_len C"

definition conns_wf :: "world \<Rightarrow> bool" where
  "conns_wf w \<longleftrightarrow> (\<forall>c C. conns w c = Some C \<longrightarrow> wf_conn C)"

definition is_http :: "world \<Rightarrow> nat \<Rightarrow> bool" where
  "is_http w c \<longleftrightarrow> map_option c_proto (conns w c) = Some CONN_PROTO_HTTP"

text \<open>Sessions and connections.\<close>

definition http_links :: "world \<Rightarrow> bool" where
  "http_links w \<longleftrightarrow>
     (\<forall>c h. proto_state w c = Http_State h \<longrightarrow> is_http w c \<and> (\<exists>H. http_sess w h = Some H \<and> hs_conn H = c)) \<and>
     (\<forall>h H. http_sess w h = Some H \<longrightarrow> proto_state w (hs_conn H) = Http_State h \<and> h < http_fresh w) \<and>
     (\<forall>l. distinct (hl_sess (http_locs w l)) \<and>
          (\<forall>h. h \<in> set (hl_sess (http_locs w l)) \<longleftrightarrow> (\<exists>H. http_sess w h = Some H \<and> hs_loc H = l)))"

definition pictures_ok :: "world \<Rightarrow> bool" where
  "pictures_ok w \<longleftrightarrow> (\<forall>l d. hl_frame (http_locs w l) = Some d \<longrightarrow>
     picture_ok d (hl_jfif (http_locs w l)) \<and> length d < 2 ^ 30)"

definition PATH :: nat where "PATH = 256"

definition paths_ok :: "world \<Rightarrow> bool" where
  "paths_ok w \<longleftrightarrow> (\<forall>l\<in>set (http_loc_list w). length (hl_path (http_locs w l)) = PATH)"

definition http_ok :: "world \<Rightarrow> bool" where
  "http_ok w \<longleftrightarrow> http_links w \<and> pictures_ok w \<and> paths_ok w"

text \<open>What the packetisers know fits the descriptions.\<close>

definition media_bounded :: "media \<Rightarrow> bool" where
  "media_bounded m \<longleftrightarrow>
     (case m of
        Media_Mpeg4 out \<Rightarrow> m4_inv out
      | Media_Raw out \<Rightarrow> ra_rate out < 10 ^ 10 \<and> ra_channels out < 10 ^ 10
      | _ \<Rightarrow> True)"

definition media_ok :: "world \<Rightarrow> bool" where
  "media_ok w \<longleftrightarrow> (\<forall>t m. used w t \<and> lt_media (tracks w t) = Some m \<longrightarrow> media_bounded m)"

text \<open>What the configuration and the first frames decide.\<close>

definition static_ok :: "(nat \<Rightarrow> int \<times> int) \<Rightarrow> world \<Rightarrow> bool" where
  "static_ok dims w \<longleftrightarrow> locs_ok w \<and> sdp_fits dims w \<and> media_ok w"

definition server_ok :: "(nat \<Rightarrow> int \<times> int) \<Rightarrow> world \<Rightarrow> bool" where
  "server_ok dims w \<longleftrightarrow> world_ok w \<and> http_ok w \<and> conns_wf w \<and> static_ok dims w"

section \<open>What the RTSP side keeps\<close>

lemma same_conn_wf: "same_conn C C' \<Longrightarrow> wf_conn C \<Longrightarrow> wf_conn C'"
  using same_conn_fields [of C C'] by (simp add: wf_conn_def)

lemma stable_conn_cases:
  assumes "stable w w'"
  shows "conns w c = None \<and> conns w' c = None \<or> (\<exists>C C'. conns w c = Some C \<and> conns w' c = Some C' \<and> same_conn C C')"
  using assms unfolding stable_def by (cases "conns w c"; cases "conns w' c") (metis option.rel_distinct option.rel_inject(2))+

lemma stable_is_http: "stable w w' \<Longrightarrow> is_http w' c = is_http w c"
  using stable_conn_cases [of w w' c] same_conn_fields(1) by (auto simp: is_http_def)

lemma http_links_cong:
  assumes "http_links w" "http_locs w' = http_locs w" "http_sess w' = http_sess w" "http_fresh w' = http_fresh w"
    and "\<And>c h. proto_state w' c = Http_State h \<longleftrightarrow> proto_state w c = Http_State h"
    and "\<And>c h. proto_state w c = Http_State h \<Longrightarrow> is_http w' c = is_http w c"
  shows "http_links w'"
  using assms(1) assms(6) unfolding http_links_def assms(2-5) by blast

lemma stable_http_ok:
  assumes "stable w w'" "http_ok w"
  shows "http_ok w'"
proof -
  have eq: "http_locs w' = http_locs w" "http_loc_list w' = http_loc_list w" "http_sess w' = http_sess w"
    "http_fresh w' = http_fresh w" "\<And>c h. proto_state w' c = Http_State h \<longleftrightarrow> proto_state w c = Http_State h"
    using assms(1) by (simp_all add: stable_def)
  have "http_links w'"
    by (rule http_links_cong [OF _ eq(1,3,4,5) stable_is_http [OF assms(1)]]) (use assms(2) in \<open>simp add: http_ok_def\<close>)
  with assms(2) show ?thesis by (simp add: http_ok_def pictures_ok_def paths_ok_def eq(1,2))
qed

lemma stable_conns_wf:
  assumes "stable w w'" "conns_wf w"
  shows "conns_wf w'"
  unfolding conns_wf_def
proof (intro allI impI)
  fix c C' assume "conns w' c = Some C'"
  with stable_conn_cases [OF assms(1), of c] obtain C where "conns w c = Some C" "same_conn C C'" by auto
  with assms(2) show "wf_conn C'" unfolding conns_wf_def by (blast intro: same_conn_wf)
qed

lemma static_ok_cong:
  assumes "rtsp_loc_list w' = rtsp_loc_list w" "tracks w' = tracks w" "\<And>en. le_tracks (entries w' en) = le_tracks (entries w en)"
  shows "static_ok dims w' = static_ok dims w"
  unfolding static_ok_def locs_ok_def media_ok_def used_def sdp_fits_def track_fits_def assms ..

lemma stable_server_ok:
  assumes "stable w w'" "server_ok dims w" "world_ok w'"
  shows "server_ok dims w'"
proof -
  have eq: "rtsp_loc_list w' = rtsp_loc_list w" "tracks w' = tracks w" "\<And>en. le_tracks (entries w' en) = le_tracks (entries w en)"
    using assms(1) by (simp_all add: stable_def)
  have "static_ok dims w'" using assms(2) by (simp add: server_ok_def static_ok_cong [OF eq])
  with assms stable_http_ok stable_conns_wf show ?thesis by (simp add: server_ok_def)
qed

section \<open>Changing one connection\<close>

lemma server_conn:
  assumes "server_ok dims w" "conns w c = Some C" "c_proto C' = c_proto C" "wf_conn C'"
  shows "server_ok dims (upd_conn c C' w)"
proof -
  let ?w = "upd_conn c C' w"
  have ok: "world_ok w" "http_ok w" "conns_wf w" "static_ok dims w" using assms(1) by (simp_all add: server_ok_def)
  have "links_ok w" using ok(1) by (simp add: world_ok_def)
  have "world_ok ?w"
    by (rule world_ok_view [OF ok(1) links_ok_conn [OF \<open>links_ok w\<close> assms(2,3)]]) (simp add: same_view_def)
  moreover have "http_links ?w"
    by (rule http_links_cong) (use ok(2) assms(2,3) in \<open>auto simp: http_ok_def is_http_def\<close>)
  then have "http_ok ?w" using ok(2) by (simp add: http_ok_def pictures_ok_def paths_ok_def)
  moreover have "conns_wf ?w" using ok(3) assms(4) by (simp add: conns_wf_def)
  moreover have "static_ok dims ?w" using ok(4) by (subst static_ok_cong [where w = w]) simp_all
  ultimately show ?thesis by (simp add: server_ok_def)
qed

lemma server_conn_wf: "server_ok dims w \<Longrightarrow> conns w c = Some C \<Longrightarrow> wf_conn C"
  unfolding server_ok_def conns_wf_def by blast

text \<open>
  What the handlers of the HTTP side do to a connection: they send, and may mark it for the end.
\<close>

definition sent_to :: "conn \<Rightarrow> conn \<Rightarrow> bool" where
  "sent_to C C' \<longleftrightarrow> (\<exists>d. same_conn (C\<lparr>drop_after := d\<rparr>) C')"

lemma sent_to_refl [simp]: "sent_to C C"
  unfolding sent_to_def by (rule exI [of _ "drop_after C"]) simp

lemma same_conn_drop: "same_conn C C' \<Longrightarrow> same_conn (C\<lparr>drop_after := d\<rparr>) (C'\<lparr>drop_after := d\<rparr>)"
  unfolding same_conn_def wf_ring_def by (cases C; cases C'; auto)

lemma sent_to_step:
  assumes "sent_to C C1" "same_conn C1 C2"
  shows "sent_to C C2"
  using assms same_conn_trans unfolding sent_to_def by blast

lemma sent_to_drop: "sent_to C C1 \<Longrightarrow> sent_to C (C1\<lparr>drop_after := d\<rparr>)"
  unfolding sent_to_def using same_conn_drop by fastforce

lemma sent_to_fields:
  assumes "sent_to C C'"
  shows "c_proto C' = c_proto C" "c_cookie C' = c_cookie C" "c_base64_count C' = c_base64_count C" "c_req_len C' = c_req_len C"
    "c_req_buf C' = c_req_buf C" "wf_conn C \<Longrightarrow> wf_conn C'"
proof -
  from assms obtain d where d: "same_conn (C\<lparr>drop_after := d\<rparr>) C'" unfolding sent_to_def by blast
  from same_conn_fields [OF d] show "c_proto C' = c_proto C" "c_cookie C' = c_cookie C" "c_base64_count C' = c_base64_count C"
    "c_req_len C' = c_req_len C" "c_req_buf C' = c_req_buf C" by simp_all
  show "wf_conn C \<Longrightarrow> wf_conn C'" by (rule same_conn_wf [OF d]) (simp add: wf_conn_def wf_ring_def)
qed

lemmas sent_to_send = sent_to_step [OF _ send_data_same]

lemma server_sent:
  assumes "server_ok dims w" "conns w c = Some C" "sent_to C C'"
  shows "server_ok dims (upd_conn c C' w)"
  using server_conn [OF assms(1,2)] sent_to_fields(1,6) [OF assms(3)] server_conn_wf [OF assms(1,2)] by blast

end
