(* ===== verification/Server.thy ===== *)
theory Server
  imports Server_State
begin

text \<open>
  \<open>tcp.c\<close>: the list of connections, the tunnel of RTSP through HTTP, the dispatch of the requests
  to the servers above, and the event handlers \<open>do_accept\<close>, \<open>do_read\<close> and \<open>conn_write\<close>. The
  messages in the log are left out, and so is the bookkeeping of the event loop: a handler is
  called with the connection it was registered for.
\<close>

section \<open>The end of a connection\<close>

definition free_conn :: "world \<Rightarrow> nat \<Rightarrow> world" where
  "free_conn w c = w\<lparr>conns := (conns w)(c := None), conn_list := remove1 c (conn_list w),
     proto_state := (proto_state w)(c := No_State)\<rparr>"

definition drop_conn :: "provider \<Rightarrow> world \<Rightarrow> nat \<Rightarrow> world cres" where
  "drop_conn P w c =
     bindE (deref (conns w) c) (\<lambda>C.
     bindE (if proto_state w c = No_State then Inr w
            else case c_proto C of
                   CONN_PROTO_HTTP \<Rightarrow> http_conn_disconnect w c
                 | CONN_PROTO_RTSP \<Rightarrow> rtsp_conn_disconnect P w c
                 | _ \<Rightarrow> Inr w) (\<lambda>w1.
       Inr (free_conn w1 c)))"

section \<open>The tunnel of RTSP through HTTP\<close>

text \<open>A text that is sent as it is.\<close>

definition send_text :: "conn \<Rightarrow> string \<Rightarrow> conn" where
  "send_text C s = fst (send_data C (bytes_of s))"

definition tunnel_refused :: "string \<Rightarrow> string" where
  "tunnel_refused reason = ''HTTP/1.0 400 '' @ reason @ crlf @ ''Connection: close'' @ crlf @
     ''Content-Type: text/html'' @ crlf @ crlf @
     ''<html><body><p>Broken RTSP/HTTP tunnel request</p></body></html>'' @ [LF]"

definition tunnel_opened :: string where
  "tunnel_opened = ''HTTP/1.0 200 OK'' @ crlf @ ''Connection: close'' @ crlf @ ''Cache-Control: no-cache'' @ crlf @
     ''Pragma: no-cache'' @ crlf @ ''Content-Type: application/x-rtsp-tunnelled'' @ crlf @ crlf"

definition find_cookie :: "world \<Rightarrow> string \<Rightarrow> nat option" where
  "find_cookie w t = find (\<lambda>g. map_option c_cookie (conns w g) = Some t) (conn_list w)"

text \<open>\<open>True\<close> when the descriptor has been handed over, so that the rest of the connection may go.\<close>

definition handle_QT_tunnel :: "world \<Rightarrow> nat \<Rightarrow> pmsg \<Rightarrow> bool \<Rightarrow> (world \<times> bool) cres" where
  "handle_QT_tunnel w c m post =
     bindE (deref (conns w) c) (\<lambda>C.
       case get_header m ''x-sessioncookie'' of
         None \<Rightarrow> Inr (upd_conn c ((send_text C (tunnel_refused ''Missing session cookie''))\<lparr>drop_after := True\<rparr>) w, False)
       | Some t \<Rightarrow>
           if COOKIE < length t + 1
           then Inr (upd_conn c ((send_text C (tunnel_refused ''Missing session cookie''))\<lparr>drop_after := True\<rparr>) w, False)
           else if \<not> post
           then Inr (upd_conn c ((send_text (C\<lparr>c_cookie := t\<rparr>) tunnel_opened)
                       \<lparr>c_proto := CONN_PROTO_RTSP, c_base64_count := 0\<rparr>) w, False)
           else case find_cookie w t of
             None \<Rightarrow>
               Inr (upd_conn c ((send_text C (tunnel_refused ''Unknown session cookie''))\<lparr>drop_after := True\<rparr>) w, False)
           | Some g \<Rightarrow>
               bindE (deref (conns w) g) (\<lambda>G.
               let w1 = upd_conn g (G\<lparr>c_second_fd := c_fd C, c_second_read := True\<rparr>) w in
               bindE (deref (conns w1) c) (\<lambda>C1. Inr (upd_conn c (C1\<lparr>c_fd := -1\<rparr>) w1, True))))"

section \<open>Requests\<close>

definition is_tunnel :: "pmsg \<Rightarrow> string \<Rightarrow> bool" where
  "is_tunnel m name =
     (case get_header m name of None \<Rightarrow> False | Some t \<Rightarrow> str_ieq t ''application/x-rtsp-tunnelled'')"

text \<open>The result of a handler is \<open>False\<close> when the connection is to be dropped.\<close>

definition handle_GET :: "world \<Rightarrow> nat \<Rightarrow> pmsg \<Rightarrow> (world \<times> bool) cres" where
  "handle_GET w c m =
     (if is_tunnel m ''Accept'' then bindE (handle_QT_tunnel w c m False) (\<lambda>(w, gone). Inr (w, \<not> gone))
      else bindE (http_handle_msg w c (request_method m) (request_uri m)) (\<lambda>w. Inr (w, True)))"

definition handle_POST :: "world \<Rightarrow> nat \<Rightarrow> pmsg \<Rightarrow> (world \<times> bool) cres" where
  "handle_POST w c m =
     (if is_tunnel m ''Content-Type'' then bindE (handle_QT_tunnel w c m True) (\<lambda>(w, gone). Inr (w, \<not> gone))
      else bindE (http_handle_msg w c (request_method m) (request_uri m)) (\<lambda>w. Inr (w, True)))"

definition tcp_handle_unknown :: "world \<Rightarrow> nat \<Rightarrow> pmsg \<Rightarrow> (world \<times> bool) cres" where
  "tcp_handle_unknown w c m =
     bindE (deref (conns w) c) (\<lambda>C.
     bindE (case start_reply 256 (cstr (pm_msg m) (pm_proto m)) 501 ''Not Implemented'' of
              None \<Rightarrow> Inl Fault | Some r \<Rightarrow> Inr (fst (copy_headers r m ''CSeq''))) (\<lambda>r.
     bindE (tcp_send_pmsg (C\<lparr>drop_after := True\<rparr>) r (-1)) (\<lambda>(C, _). Inr (upd_conn c C w, True))))"

definition dispatch :: "provider \<Rightarrow> rtsp_env \<Rightarrow> world \<Rightarrow> nat \<Rightarrow> conn_proto \<Rightarrow> pmsg \<Rightarrow> (world \<times> bool) cres" where
  "dispatch P env w c p m =
     (case p of
        CONN_PROTO_HTTP \<Rightarrow>
          if str_ieq (request_method m) ''GET'' then handle_GET w c m
          else if str_ieq (request_method m) ''POST'' then handle_POST w c m
          else bindE (http_handle_msg w c (request_method m) (request_uri m)) (\<lambda>w. Inr (w, True))
      | CONN_PROTO_RTSP \<Rightarrow> bindE (rtsp_handle_msg P env w c m) (\<lambda>w. Inr (w, True))
      | _ \<Rightarrow> tcp_handle_unknown w c m)"

definition request_of :: "conn \<Rightarrow> pmsg" where
  "request_of C = (new_pmsg (c_req_len C))\<lparr>pm_msg := take (c_req_len C) (c_req_buf C), pm_len := c_req_len C\<rparr>"

text \<open>
  A response is parsed as well, and then its code is taken for the pointer to the method.
\<close>

definition handle_request :: "provider \<Rightarrow> rtsp_env \<Rightarrow> world \<Rightarrow> nat \<Rightarrow> (world \<times> bool) cres" where
  "handle_request P env w c =
     bindE (deref (conns w) c) (\<lambda>C.
       if c_req_buf C ! 0 = NUL then Inr (w, False)
       else case parse_pmsg (request_of C) of
         Inl Fail \<Rightarrow> Inr (w, False)
       | Inl Fault \<Rightarrow> Inl Fault
       | Inr (m, _) \<Rightarrow> if pm_type m = PMSG_RESP then Inl Fault else dispatch P env w c (c_proto C) m)"

section \<open>Input\<close>

definition empty_req_buf :: "world \<Rightarrow> nat \<Rightarrow> world cres" where
  "empty_req_buf w c = bindE (deref (conns w) c) (\<lambda>C. Inr (upd_conn c (C\<lparr>c_req_len := 0\<rparr>) w))"

definition parse_client_data :: "provider \<Rightarrow> rtsp_env \<Rightarrow> world \<Rightarrow> nat \<Rightarrow> (world \<times> int) cres" where
  "parse_client_data P env w c =
     bindE (deref (conns w) c) (\<lambda>C.
       case client_input C of
         Wait \<Rightarrow> Inr (w, 0)
       | Bad \<Rightarrow> Inr (w, -1)
       | Again p \<Rightarrow> Inr (upd_conn c (C\<lparr>c_proto := p\<rparr>) w, 1)
       | Packet chan d \<Rightarrow>
           bindE (interleave_recv w c chan (re_now env)) (\<lambda>w1. bindE (empty_req_buf w1 c) (\<lambda>w2. Inr (w2, 0)))
       | Request \<Rightarrow>
           bindE (handle_request P env w c) (\<lambda>(w1, ok).
             if \<not> ok then Inr (w1, -1) else bindE (empty_req_buf w1 c) (\<lambda>w2. Inr (w2, 0))))"

text \<open>\<open>while( ( ret = parse_client_data( c ) ) > 0 )\<close>, for at most \<open>n\<close> rounds.\<close>

fun parse_loop :: "provider \<Rightarrow> rtsp_env \<Rightarrow> nat \<Rightarrow> world \<Rightarrow> nat \<Rightarrow> (world \<times> int) cres option" where
  "parse_loop P env 0 w c = None"
| "parse_loop P env (Suc n) w c =
     (case parse_client_data P env w c of
        Inl x \<Rightarrow> Some (Inl x)
      | Inr (w1, ret) \<Rightarrow> if 0 < ret then parse_loop P env n w1 c else Some (Inr (w1, ret)))"

text \<open>The received bytes behind what the buffer holds; a tunnel decodes them with what it left over.\<close>

definition receive :: "conn \<Rightarrow> byte list \<Rightarrow> conn" where
  "receive C d =
     (let buf = blit (c_req_buf C) (c_req_len C) (string_of d)
      in if 0 \<le> c_base64_count C
         then let i = c_req_len C - nat (c_base64_count C);
                  (t, n, r) = unbase64 (bytes_of (drop i buf)) (length d + nat (c_base64_count C))
              in C\<lparr>c_req_buf := take i buf @ string_of t, c_req_len := i + n, c_base64_count := int r\<rparr>
         else C\<lparr>c_req_buf := buf, c_req_len := c_req_len C + length d\<rparr>)"

text \<open>The answer to \<open>read\<close>: bytes, that there are none now, or that there will be no more.\<close>

datatype read_answer = Got "byte list" | RAgain | RClosed

definition close_input :: "provider \<Rightarrow> world \<Rightarrow> nat \<Rightarrow> bool \<Rightarrow> world cres" where
  "close_input P w c second =
     (if second then bindE (deref (conns w) c) (\<lambda>C. Inr (upd_conn c (C\<lparr>c_second_fd := -1, c_second_read := False\<rparr>) w))
      else drop_conn P w c)"

text \<open>What follows once there is new input in the buffer; the result is whether the loop goes on.\<close>

definition process_input :: "provider \<Rightarrow> rtsp_env \<Rightarrow> world \<Rightarrow> nat \<Rightarrow> conn \<Rightarrow> (world \<times> bool) cres" where
  "process_input P env w c C =
     (if c_req_len C = length (c_req_buf C) - 1
      then bindE (drop_conn P (upd_conn c C w) c) (\<lambda>w1. Inr (w1, False))
      else if 0 < c_base64_count C then Inr (upd_conn c C w, True)
      else bindE (wr (c_req_buf C) (c_req_len C) NUL) (\<lambda>buf.
           case parse_loop P env 2 (upd_conn c (C\<lparr>c_req_buf := buf\<rparr>) w) c of
             None \<Rightarrow> Inl Fault
           | Some r \<Rightarrow>
               bindE r (\<lambda>(w1, ret).
                 if ret < 0 then bindE (drop_conn P w1 c) (\<lambda>w2. Inr (w2, False)) else Inr (w1, True))))"

text \<open>One turn of the loop of \<open>do_read\<close>. \<open>read\<close> returns at most what there is room for.\<close>

definition read_one :: "provider \<Rightarrow> rtsp_env \<Rightarrow> world \<Rightarrow> nat \<Rightarrow> bool \<Rightarrow> read_answer \<Rightarrow> (world \<times> bool) cres" where
  "read_one P env w c second a =
     bindE (deref (conns w) c) (\<lambda>C.
       let d = (case a of Got d \<Rightarrow> take (length (c_req_buf C) - c_req_len C - 1) d | _ \<Rightarrow> [])
       in if a = RAgain then Inr (w, False)
          else if d = [] then bindE (close_input P w c second) (\<lambda>w1. Inr (w1, False))
          else process_input P env w c (receive C d))"

text \<open>\<open>do_read\<close>, with the environment of each turn; when there are no more answers, \<open>read\<close> would block.\<close>

fun do_read :: "provider \<Rightarrow> world \<Rightarrow> nat \<Rightarrow> bool \<Rightarrow> (rtsp_env \<times> read_answer) list \<Rightarrow> world cres" where
  "do_read P w c second [] = bindE (deref (conns w) c) (\<lambda>_. Inr w)"
| "do_read P w c second ((env, a) # as) =
     bindE (read_one P env w c second a) (\<lambda>(w1, more). if more then do_read P w1 c second as else Inr w1)"

section \<open>Output and new connections\<close>

definition server_write :: "provider \<Rightarrow> world \<Rightarrow> nat \<Rightarrow> write_answer list \<Rightarrow> (world \<times> byte list) cres" where
  "server_write P w c ws =
     bindE (deref (conns w) c) (\<lambda>C.
       let (C1, out, gone) = conn_write C ws; w1 = upd_conn c C1 w
       in if gone then bindE (drop_conn P w1 c) (\<lambda>w2. Inr (w2, out)) else Inr (w1, out))"

definition do_accept :: "world \<Rightarrow> int \<Rightarrow> world" where
  "do_accept w fd =
     (let c = fresh w in
      if fd < 0 then w
      else w\<lparr>conns := (conns w)(c := Some (new_conn fd REQ_BUF SEND_BUF)), conn_list := c # conn_list w,
             proto_state := (proto_state w)(c := No_State), fresh := c + 1\<rparr>)"

definition config_port :: "int \<Rightarrow> bool" where
  "config_port port \<longleftrightarrow> 0 < port \<and> port \<le> 65535"

end
