(* ===== verification/Server_Close.thy ===== *)
theory Server_Close
  imports Server
begin

text \<open>
  The end of a connection, whatever it was used for, and a new connection: both keep the whole
  state of the server well-formed.
\<close>

section \<open>The HTTP side of a connection\<close>

lemma links_ok_rtsp:
  assumes ok: "links_ok w" and eq: "endpoints w' = endpoints w" "sessions w' = sessions w" "rs_tab w' = rs_tab w"
    "rs_list w' = rs_list w" "entries w' = entries w" "conns w' = conns w" "conn_list w' = conn_list w" "fresh w' = fresh w"
    and ps: "\<And>c ch. proto_state w' c = Rtsp_State ch \<longleftrightarrow> proto_state w c = Rtsp_State ch"
  shows "links_ok w'"
  using ok unfolding links_ok_def slots_ok_def owners_ok_def channels_ok_def inter_ok_def rtsp_ok_def entries_ok_def
    conns_ok_def fresh_ok_def eq ps .

lemma conns_okD:
  "conns_ok w \<Longrightarrow> proto_state w c = Rtsp_State ch \<Longrightarrow> \<exists>C. conns w c = Some C \<and> c_proto C = CONN_PROTO_RTSP"
  unfolding conns_ok_def by blast

lemma http_linksD: "http_links w \<Longrightarrow> proto_state w c = Http_State h \<Longrightarrow> is_http w c"
  unfolding http_links_def by blast

text \<open>Changes of the HTTP side only.\<close>

lemma http_change:
  assumes ok: "server_ok dims w" and eq: "endpoints w' = endpoints w" "sessions w' = sessions w" "rs_tab w' = rs_tab w"
    "rs_list w' = rs_list w" "entries w' = entries w" "conns w' = conns w" "conn_list w' = conn_list w" "fresh w' = fresh w"
    "tracks w' = tracks w" "streams_of w' = streams_of w" "rtsp_loc_list w' = rtsp_loc_list w"
    and ps: "\<And>c ch. proto_state w' c = Rtsp_State ch \<longleftrightarrow> proto_state w c = Rtsp_State ch"
    and http: "http_ok w'"
  shows "server_ok dims w'"
proof -
  have oks: "world_ok w" "conns_wf w" "static_ok dims w" using ok by (simp_all add: server_ok_def)
  have "links_ok w" using oks(1) by (simp add: world_ok_def)
  then have "links_ok w'" by (rule links_ok_rtsp [OF _ eq(1-8) ps])
  with oks(1) have "world_ok w'" by (rule world_ok_view) (simp add: same_view_def eq)
  moreover have "static_ok dims w' = static_ok dims w" by (rule static_ok_cong) (simp_all add: eq)
  ultimately show ?thesis using oks http by (simp add: server_ok_def conns_wf_def eq)
qed

lemma http_conn_disconnect_ok:
  assumes ok: "server_ok dims w" and h: "proto_state w c = Http_State h"
  shows "\<exists>w'. http_conn_disconnect w c = Inr w' \<and> server_ok dims w' \<and> proto_state w' c = No_State \<and> conns w' = conns w \<and>
    conn_list w' = conn_list w \<and> (\<forall>c'. c' \<noteq> c \<longrightarrow> proto_state w' c' = proto_state w c')"
proof -
  have links: "http_links w" and rest: "pictures_ok w" "paths_ok w" using ok by (simp_all add: server_ok_def http_ok_def)
  from links h obtain H where H: "http_sess w h = Some H" "hs_conn H = c" unfolding http_links_def by blast
  let ?l = "hs_loc H"
  let ?w = "w\<lparr>http_locs := (http_locs w)(?l := (http_locs w ?l)\<lparr>hl_sess := remove1 h (hl_sess (http_locs w ?l))\<rparr>),
      http_sess := (http_sess w)(h := None), proto_state := (proto_state w)(c := No_State)\<rparr>"
  have run: "http_conn_disconnect w c = Inr ?w" using h H by (simp add: http_conn_disconnect_def Let_def)
  have ps: "proto_state w c' = Http_State h' \<Longrightarrow> is_http w c' \<and> (\<exists>H. http_sess w h' = Some H \<and> hs_conn H = c')"
    and hs: "http_sess w h' = Some H' \<Longrightarrow> proto_state w (hs_conn H') = Http_State h' \<and> h' < http_fresh w"
    and ls: "distinct (hl_sess (http_locs w l))" "h' \<in> set (hl_sess (http_locs w l)) \<longleftrightarrow> (\<exists>H. http_sess w h' = Some H \<and> hs_loc H = l)"
    for c' h' H' l using links unfolding http_links_def by blast+
  have "http_links ?w"
    unfolding http_links_def
  proof (intro conjI allI impI)
    fix c' h' assume "proto_state ?w c' = Http_State h'"
    then have c': "c' \<noteq> c" "proto_state w c' = Http_State h'" by (auto split: if_splits)
    from ps [OF c'(2)] obtain H' where H': "is_http w c'" "http_sess w h' = Some H'" "hs_conn H' = c'" by blast
    have "h' \<noteq> h" using H' H c'(1) by auto
    then show "is_http ?w c'" "\<exists>H. http_sess ?w h' = Some H \<and> hs_conn H = c'" using H' by (simp_all add: is_http_def)
  next
    fix h' H' assume "http_sess ?w h' = Some H'"
    then have h': "h' \<noteq> h" "http_sess w h' = Some H'" by (auto split: if_splits)
    have "hs_conn H' \<noteq> c" using hs [OF h'(2)] h h'(1) by auto
    with hs [OF h'(2)] show "proto_state ?w (hs_conn H') = Http_State h'" "h' < http_fresh ?w" by simp_all
  next
    fix l show "distinct (hl_sess (http_locs ?w l))" using ls(1) by simp
    fix h' show "h' \<in> set (hl_sess (http_locs ?w l)) \<longleftrightarrow> (\<exists>H. http_sess ?w h' = Some H \<and> hs_loc H = l)"
      using ls(1) [of ?l] ls(2) [of h' l] H(1) by auto
  qed
  moreover have "pictures_ok ?w" "paths_ok ?w" using rest by (simp_all add: pictures_ok_def paths_ok_def)
  ultimately have "http_ok ?w" by (simp add: http_ok_def)
  moreover have "proto_state ?w c' = Rtsp_State ch \<longleftrightarrow> proto_state w c' = Rtsp_State ch" for c' ch using h by auto
  ultimately have "server_ok dims ?w" by (intro http_change [OF ok]) simp_all
  with run show ?thesis by (intro exI [of _ ?w]) simp
qed

section \<open>Freeing a connection\<close>

lemma free_conn_links:
  assumes ok: "links_ok w" and c: "proto_state w c = No_State"
  shows "links_ok (free_conn w c)"
proof -
  let ?w = "free_conn w c"
  have oks: "slots_ok w" "owners_ok w" "channels_ok w" "inter_ok w" "rtsp_ok w" "entries_ok w" "conns_ok w" "fresh_ok w"
    using ok by (simp_all add: links_ok_def)
  have ps: "proto_state ?w = proto_state w" using c by (auto simp: free_conn_def)
  have eq: "endpoints ?w = endpoints w" "sessions ?w = sessions w" "rs_tab ?w = rs_tab w" "rs_list ?w = rs_list w"
    "entries ?w = entries w" "fresh ?w = fresh w" by (simp_all add: free_conn_def)
  have "inter_ok ?w"
    unfolding inter_ok_def
  proof (intro allI impI, elim conjE)
    fix e E c' r q assume a: "endpoints ?w e = Some E" "ep_trans E = Inter c' r q"
    then have "endpoints w e = Some E" by (simp add: eq)
    from inter_okD [OF oks(4) this a(2)] obtain C ch where i: "conns w c' = Some C" "r \<noteq> q" "proto_state w c' = Rtsp_State ch"
      "r < length ch" "q < length ch" "ch ! r = (Some e, False)" "ch ! q = (Some e, True)" .
    then have "c' \<noteq> c" using c by auto
    with i show "conns ?w c' \<noteq> None \<and> r \<noteq> q \<and> (\<exists>ch. proto_state ?w c' = Rtsp_State ch \<and> r < length ch \<and> q < length ch \<and>
        ch ! r = (Some e, False) \<and> ch ! q = (Some e, True))" by (simp add: ps) (simp add: free_conn_def)
  qed
  moreover have "conns_ok ?w"
    unfolding conns_ok_def
  proof (intro conjI allI impI)
    show "distinct (conn_list ?w)" "\<And>c'. c' \<in> set (conn_list ?w) \<longleftrightarrow> conns ?w c' \<noteq> None"
      using oks(7) by (auto simp: free_conn_def conns_ok_def)
    fix c' ch assume "proto_state ?w c' = Rtsp_State ch"
    then have "proto_state w c' = Rtsp_State ch" "c' \<noteq> c" using c by (auto simp: ps)
    with oks(7) show "length ch = MAX_INTERLEAVE_CHANNELS" "\<exists>C. conns ?w c' = Some C \<and> c_proto C = CONN_PROTO_RTSP"
      unfolding conns_ok_def by (simp_all add: free_conn_def)
  qed
  moreover have "fresh_ok ?w" using oks(8) by (simp add: free_conn_def fresh_ok_def)
  moreover have "slots_ok ?w" "owners_ok ?w" "channels_ok ?w" "rtsp_ok ?w" "entries_ok ?w"
    by (rule links_ok_parts [OF ok eq(1,2) ps eq(3-5)])+
  ultimately show ?thesis by (simp add: links_ok_def)
qed

lemma free_conn_ok:
  assumes ok: "server_ok dims w" and c: "proto_state w c = No_State"
  shows "server_ok dims (free_conn w c)"
proof -
  let ?w = "free_conn w c"
  have oks: "world_ok w" "http_links w" "pictures_ok w" "paths_ok w" "conns_wf w" "static_ok dims w"
    using ok by (simp_all add: server_ok_def http_ok_def)
  have "links_ok w" using oks(1) by (simp add: world_ok_def)
  from world_ok_view [OF oks(1) free_conn_links [OF this c]] have "world_ok ?w" by (simp add: same_view_def free_conn_def)
  moreover have "http_links ?w"
    by (rule http_links_cong [OF oks(2)]) (use c in \<open>auto simp: free_conn_def is_http_def\<close>)
  moreover have "pictures_ok ?w" "paths_ok ?w" "conns_wf ?w"
    using oks(3-5) by (simp_all add: free_conn_def pictures_ok_def paths_ok_def conns_wf_def)
  moreover have "static_ok dims ?w = static_ok dims w" by (rule static_ok_cong) (simp_all add: free_conn_def)
  ultimately show ?thesis using oks(6) by (simp add: server_ok_def http_ok_def)
qed

lemma drop_conn_ok:
  assumes ok: "server_ok dims w" and C: "conns w c = Some C"
  shows "\<exists>w'. drop_conn (live_provider dims) w c = Inr w' \<and> server_ok dims w' \<and> conns w' c = None \<and>
    conn_list w' = remove1 c (conn_list w)"
proof -
  have w: "world_ok w" and links: "http_links w" using ok by (simp_all add: server_ok_def http_ok_def)
  then have co: "conns_ok w" by (simp add: world_ok_def links_ok_def)
  obtain w1 where w1: "(if proto_state w c = No_State then Inr w
            else case c_proto C of
                   CONN_PROTO_HTTP \<Rightarrow> http_conn_disconnect w c
                 | CONN_PROTO_RTSP \<Rightarrow> rtsp_conn_disconnect (live_provider dims) w c
                 | _ \<Rightarrow> Inr w) = Inr w1" "server_ok dims w1" "proto_state w1 c = No_State" "conn_list w1 = conn_list w"
  proof (cases "proto_state w c")
    case No_State
    with ok show ?thesis by (intro that [of w]) simp_all
  next
    case (Rtsp_State ch)
    with conns_okD [OF co, of c ch] C have "c_proto C = CONN_PROTO_RTSP" by simp
    moreover from live.conn_disconnect_ok [OF w Rtsp_State, of dims] obtain w' where
      w': "rtsp_conn_disconnect (live_provider dims) w c = Inr w'" "world_ok w'" "proto_state w' c = No_State"
        "conn_list w' = conn_list w" by blast
    moreover have "stable w w'" by (rule conn_disconnect_keeps [OF w'(1)]) (simp add: Rtsp_State)
    ultimately show ?thesis using Rtsp_State stable_server_ok [OF _ ok w'(2)] by (intro that [of w']) simp_all
  next
    case (Http_State h)
    with links have "is_http w c" by (rule http_linksD)
    with C have "c_proto C = CONN_PROTO_HTTP" by (simp add: is_http_def)
    with http_conn_disconnect_ok [OF ok Http_State] Http_State that show ?thesis by auto
  qed
  have "server_ok dims (free_conn w1 c)" by (rule free_conn_ok [OF w1(2,3)])
  moreover have "drop_conn (live_provider dims) w c = Inr (free_conn w1 c)"
    unfolding drop_conn_def deref_Some [of "conns w", OF C] bindE_simps w1(1) ..
  ultimately show ?thesis using w1(4) by (intro exI [of _ "free_conn w1 c"]) (simp add: free_conn_def)
qed

section \<open>A new connection\<close>

lemma do_accept_links:
  assumes ok: "links_ok w" and ps: "\<And>ch. proto_state w (fresh w) \<noteq> Rtsp_State ch"
  shows "links_ok (do_accept w fd)"
proof (cases "fd < 0")
  case False
  let ?w = "do_accept w fd"
  have oks: "inter_ok w" "conns_ok w" "fresh_ok w" "channels_ok w" using ok by (simp_all add: links_ok_def)
  have eq: "endpoints ?w = endpoints w" "sessions ?w = sessions w" "rs_tab ?w = rs_tab w" "rs_list ?w = rs_list w"
    "entries ?w = entries w" using False by (simp_all add: do_accept_def Let_def)
  have psr: "proto_state ?w c = Rtsp_State ch \<longleftrightarrow> proto_state w c = Rtsp_State ch" for c ch
    using False ps by (auto simp: do_accept_def Let_def)
  have cs: "conns ?w c = (if c = fresh w then Some (new_conn fd REQ_BUF SEND_BUF) else conns w c)" for c
    using False by (simp add: do_accept_def Let_def)
  have none: "conns w (fresh w) = None" using oks(3) by (rule fresh_okD)
  have "inter_ok ?w"
    unfolding inter_ok_def eq psr
  proof (intro allI impI, elim conjE)
    fix e E c r q assume "endpoints w e = Some E" "ep_trans E = Inter c r q"
    with oks(1) show "conns ?w c \<noteq> None \<and> r \<noteq> q \<and> (\<exists>ch. proto_state w c = Rtsp_State ch \<and> r < length ch \<and> q < length ch \<and>
        ch ! r = (Some e, False) \<and> ch ! q = (Some e, True))"
      unfolding inter_ok_def cs by (metis option.distinct(1))
  qed
  moreover have "conns_ok ?w"
    unfolding conns_ok_def psr
  proof (intro conjI allI impI)
    show "distinct (conn_list ?w)" using oks(2) none False by (simp add: do_accept_def Let_def conns_ok_def)
    show "c \<in> set (conn_list ?w) \<longleftrightarrow> conns ?w c \<noteq> None" for c
      using oks(2) False by (simp add: do_accept_def Let_def conns_ok_def)
    fix c ch assume "proto_state w c = Rtsp_State ch"
    with conns_okD [OF oks(2), of c ch] none show "\<exists>C. conns ?w c = Some C \<and> c_proto C = CONN_PROTO_RTSP"
      unfolding cs by auto
    show "length ch = MAX_INTERLEAVE_CHANNELS" using oks(2) \<open>proto_state w c = Rtsp_State ch\<close> unfolding conns_ok_def by blast
  qed
  moreover have "fresh_ok ?w" using oks(3) False by (simp add: do_accept_def Let_def fresh_ok_def)
  moreover have "channels_ok ?w" using oks(4) unfolding channels_ok_def eq psr .
  moreover have "slots_ok ?w" "owners_ok ?w" "rtsp_ok ?w" "entries_ok ?w"
    using ok unfolding links_ok_def slots_ok_def owners_ok_def rtsp_ok_def entries_ok_def eq by blast+
  ultimately show ?thesis by (simp add: links_ok_def)
qed (use ok in \<open>simp add: do_accept_def\<close>)

lemma do_accept_ok:
  assumes ok: "server_ok dims w"
  shows "server_ok dims (do_accept w fd)"
proof (cases "fd < 0")
  case False
  let ?w = "do_accept w fd"
  have oks: "world_ok w" "http_links w" "pictures_ok w" "paths_ok w" "conns_wf w" "static_ok dims w"
    using ok by (simp_all add: server_ok_def http_ok_def)
  then have links: "links_ok w" by (simp add: world_ok_def)
  then have none: "conns w (fresh w) = None" and co: "conns_ok w" by (simp_all add: links_ok_def fresh_okD)
  have ps: "proto_state w (fresh w) \<noteq> Rtsp_State ch" "proto_state w (fresh w) \<noteq> Http_State h" for ch h
    using conns_okD [OF co, of "fresh w" ch] http_linksD [OF oks(2), of "fresh w" h] none by (auto simp: is_http_def)
  have "world_ok ?w"
    by (rule world_ok_view [OF oks(1) do_accept_links [OF links ps(1)]])
      (use False in \<open>simp add: same_view_def do_accept_def Let_def\<close>)
  moreover have "http_links ?w"
    by (rule http_links_cong [OF oks(2)]) (use False ps(2) none in \<open>auto simp: do_accept_def Let_def is_http_def\<close>)
  moreover have "pictures_ok ?w" "paths_ok ?w"
    using oks(3,4) False by (simp_all add: do_accept_def Let_def pictures_ok_def paths_ok_def)
  moreover have "wf_conn (new_conn fd REQ_BUF SEND_BUF)"
    by (simp add: wf_conn_def wf_ring_def new_conn_def REQ_BUF_def SEND_BUF_def COOKIE_def)
  then have "conns_wf ?w" using oks(5) False by (simp add: do_accept_def Let_def conns_wf_def)
  moreover have "static_ok dims ?w = static_ok dims w" by (rule static_ok_cong) (use False in \<open>simp_all add: do_accept_def Let_def\<close>)
  ultimately show ?thesis using oks(6) by (simp add: server_ok_def http_ok_def)
qed (use ok in \<open>simp add: do_accept_def\<close>)

end
