(* ===== verification/Server_Http.thy ===== *)
theory Server_Http
  imports Server_Close
begin

text \<open>
  The requests and the pictures of \<open>http.c\<close> keep the state of the server well-formed, and every
  client of a stream gets each picture whole, or not at all when its buffer is full.
\<close>

section \<open>Answers\<close>

lemma http_create_reply_ok:
  assumes "NUL \<notin> set reason" "length reason \<le> 100" "0 \<le> code" "code < 10 ^ 4"
  obtains r where "http_create_reply code reason = Inr r" "reply_ok r"
proof -
  have "NUL \<notin> set ''HTTP/1.0''" "length ''HTTP/1.0'' \<le> 10" by simp_all
  from start_reply_ok [OF this assms] show ?thesis by (auto simp: http_create_reply_def intro: that)
qed

lemma tcp_send_reply:
  assumes "reply_ok r" "len < 10 ^ 10"
  obtains C' ok where "tcp_send_pmsg C r len = Inr (C', ok)" "same_conn C C'"
proof -
  have "tcp_send_pmsg C r len \<noteq> Inl Fault"
    by (rule tcp_send_pmsg_no_overflow) (use assms in \<open>simp_all add: reply_ok_def\<close>)
  then have "\<exists>p. tcp_send_pmsg C r len = Inr p" by (auto simp: tcp_send_pmsg_def Let_def split: if_splits)
  then obtain C' ok where "tcp_send_pmsg C r len = Inr (C', ok)" by auto
  from this tcp_send_pmsg_same [OF this] show ?thesis by (rule that)
qed

lemma http_error_ok:
  assumes "server_ok dims w" "conns w c = Some C"
    and "NUL \<notin> set reason" "length reason \<le> 100" "0 \<le> code" "code < 10 ^ 4" "length t < 10 ^ 9"
  shows "\<exists>C'. http_send_error w c code reason t = Inr (upd_conn c C' w) \<and> sent_to C C'"
proof -
  obtain r where r: "http_create_reply code reason = Inr r" "reply_ok r" using http_create_reply_ok [OF assms(3-6)] .
  let ?r = "fst (add_header (fst (add_header r ''Connection'' ''close'')) ''Content-Type'' ''text/html'')"
  have ok: "reply_ok ?r" by (intro add_header_reply r(2)) simp_all
  have "int (length t) < 10 ^ 10" using assms(7) by simp
  from tcp_send_reply [OF ok this] obtain C1 sent where
    s: "tcp_send_pmsg (C\<lparr>drop_after := True\<rparr>) ?r (int (length t)) = Inr (C1, sent)" "same_conn (C\<lparr>drop_after := True\<rparr>) C1" .
  have "sent_to C C1" by (rule sent_to_step [OF sent_to_drop [OF sent_to_refl] s(2)])
  then have "sent_to C (if sent then fst (send_data C1 (bytes_of t)) else C1)" by (auto intro: sent_to_send)
  moreover have "http_send_error w c code reason t = Inr (upd_conn c (if sent then fst (send_data C1 (bytes_of t)) else C1) w)"
    using r(1) s(1) assms(2) by (simp add: http_send_error_def http_error_to_def Let_def)
  ultimately show ?thesis by blast
qed

text \<open>A request that is answered, on a connection that stays.\<close>

definition answered :: "(nat \<Rightarrow> int \<times> int) \<Rightarrow> world \<Rightarrow> nat \<Rightarrow> world cres \<Rightarrow> bool" where
  "answered dims w c r \<longleftrightarrow> (\<exists>w' C C'. r = Inr w' \<and> server_ok dims w' \<and> conns w c = Some C \<and> conns w' c = Some C' \<and> sent_to C C')"

lemma http_error_answered:
  assumes "server_ok dims w" "conns w c = Some C"
    and "NUL \<notin> set reason" "length reason \<le> 100" "0 \<le> code" "code < 10 ^ 4" "length t < 10 ^ 9"
  shows "answered dims w c (http_send_error w c code reason t)"
proof -
  from http_error_ok [OF assms] obtain C' where C': "http_send_error w c code reason t = Inr (upd_conn c C' w)" "sent_to C C'"
    by blast
  with server_sent [OF assms(1,2) C'(2)] assms(2) show ?thesis unfolding answered_def by (intro exI [of _ "upd_conn c C' w"]) simp
qed

section \<open>Locations\<close>

lemma node_find_http:
  assumes "\<And>l. l \<in> set ls \<Longrightarrow> length (hl_path (http_locs w l)) = PATH" "len < PATH"
  shows "\<exists>r. http_node_find_location w ls path len = Inr r"
  using assms
proof (induction ls)
  case (Cons l ls)
  then have len: "len < length (hl_path (http_locs w l))" by simp
  obtain b where "http_matches path len (hl_path (http_locs w l)) = Inr b"
    by (cases "strn_eq (length (cstr (hl_path (http_locs w l)) 0)) path (cstr (hl_path (http_locs w l)) 0)")
      (use len in \<open>simp_all add: http_matches_def Let_def\<close>)
  with Cons show ?case by (cases b) simp_all
qed simp

lemma find_http_ok:
  assumes "paths_ok w" "length uri < PATH"
  obtains r where "find_http_location w uri = Inr r"
proof -
  let ?len = "if uri \<noteq> [] \<and> uri ! (length uri - 1) = CHR ''/'' then length uri - 1 else length uri"
  have "?len < PATH" using assms(2) by (simp add: less_imp_diff_less)
  then show ?thesis using node_find_http [of "http_loc_list w" w ?len uri] assms(1) that
    by (auto simp: find_http_location_def paths_ok_def Let_def)
qed

section \<open>Pictures\<close>

lemma send_frame_sent: "sent_to C (send_frame_with_jfif C d n)"
  unfolding send_frame_with_jfif_def using sent_to_send [OF sent_to_send [OF sent_to_refl]] sent_to_send [OF sent_to_refl] by simp

lemma sent_to_trans:
  assumes "sent_to C C1" "sent_to C1 C2"
  shows "sent_to C C2"
proof -
  from assms obtain d d' where d: "same_conn (C\<lparr>drop_after := d\<rparr>) C1" "same_conn (C1\<lparr>drop_after := d'\<rparr>) C2"
    unfolding sent_to_def by blast
  from same_conn_trans [OF same_conn_drop [OF d(1), of d'] d(2)] show ?thesis unfolding sent_to_def by auto
qed

lemma send_multipart_sent: "sent_to C (send_multipart_frame C d n)"
  unfolding send_multipart_frame_def Let_def
  using sent_to_trans [OF sent_to_send [OF sent_to_refl] send_frame_sent] by simp

section \<open>A stream for a client\<close>

lemma add_stream_ok:
  assumes ok: "server_ok dims w" and c: "is_http w c" "proto_state w c = No_State"
  shows "server_ok dims (add_http_stream_session w l c)"
proof -
  let ?w = "add_http_stream_session w l c" and ?h = "http_fresh w"
  have links: "http_links w" and rest: "pictures_ok w" "paths_ok w" using ok by (simp_all add: server_ok_def http_ok_def)
  have hs: "http_sess w h = Some H \<Longrightarrow> proto_state w (hs_conn H) = Http_State h \<and> h < http_fresh w"
    and ls: "distinct (hl_sess (http_locs w l'))" "h \<in> set (hl_sess (http_locs w l')) \<longleftrightarrow> (\<exists>H. http_sess w h = Some H \<and> hs_loc H = l')"
    for h H l' using links unfolding http_links_def by blast+
  have new: "http_sess w ?h = None" using hs [of ?h] by (cases "http_sess w ?h") auto
  have "http_links ?w"
    unfolding http_links_def
  proof (intro conjI allI impI)
    fix c' h assume s: "proto_state ?w c' = Http_State h"
    have *: "is_http ?w c' \<and> (\<exists>H. http_sess ?w h = Some H \<and> hs_conn H = c')"
    proof (cases "c' = c")
      case True
      with s c(1) show ?thesis
        by (simp_all add: add_http_stream_session_def Let_def is_http_def)
    next
      case False
      with s have "proto_state w c' = Http_State h" by (simp add: add_http_stream_session_def Let_def)
      with links obtain H where H: "is_http w c'" "http_sess w h = Some H" "hs_conn H = c'" unfolding http_links_def by blast
      with new have "h \<noteq> ?h" by auto
      with H show ?thesis by (simp add: add_http_stream_session_def Let_def is_http_def)
    qed
    then show "is_http ?w c'" "\<exists>H. http_sess ?w h = Some H \<and> hs_conn H = c'" by simp_all
  next
    fix h H assume s: "http_sess ?w h = Some H"
    show "proto_state ?w (hs_conn H) = Http_State h" "h < http_fresh ?w"
      using s hs [of h H] c(2) by (auto simp: add_http_stream_session_def Let_def split: if_splits)
  next
    fix l' show "distinct (hl_sess (http_locs ?w l'))"
      using ls(1) [of l'] ls(1) [of l] ls(2) [of ?h l] new by (simp add: add_http_stream_session_def Let_def)
    fix h show "h \<in> set (hl_sess (http_locs ?w l')) \<longleftrightarrow> (\<exists>H. http_sess ?w h = Some H \<and> hs_loc H = l')"
      using ls(2) [of h l'] new by (auto simp: add_http_stream_session_def Let_def)
  qed
  moreover have "pictures_ok ?w" "paths_ok ?w"
    using rest by (simp_all add: add_http_stream_session_def Let_def pictures_ok_def paths_ok_def)
  ultimately have "http_ok ?w" by (simp add: http_ok_def)
  moreover have "proto_state ?w c' = Rtsp_State ch \<longleftrightarrow> proto_state w c' = Rtsp_State ch" for c' ch
    using c(2) by (simp add: add_http_stream_session_def Let_def)
  ultimately show ?thesis by (intro http_change [OF ok]) (simp_all add: add_http_stream_session_def Let_def)
qed

section \<open>Requests\<close>

lemma stream_answer_ok:
  assumes ok: "server_ok dims w" and C: "conns w c = Some C" "c_proto C = CONN_PROTO_HTTP" "proto_state w c = No_State"
    and r: "reply_ok r"
  shows "answered dims w c (bindE (tcp_send_pmsg C r (-1)) (\<lambda>(C, _).
     let w = add_http_stream_session (upd_conn c C w) l c in Inr (upd_conn c (send_multipart_frame C d n) w)))"
proof -
  obtain C1 sent where s: "tcp_send_pmsg C r (-1) = Inr (C1, sent)" "same_conn C C1" using tcp_send_reply [OF r, of "-1" C] by auto
  have t: "sent_to C C1" by (rule sent_to_step [OF sent_to_refl s(2)])
  let ?w1 = "upd_conn c C1 w" and ?w2 = "add_http_stream_session (upd_conn c C1 w) l c"
  have "is_http ?w1 c" using sent_to_fields(1) [OF t] C(2) by (simp add: is_http_def)
  then have ok2: "server_ok dims ?w2" using C(3) by (intro add_stream_ok server_sent [OF ok C(1) t]) simp_all
  have c2: "conns ?w2 c = Some C1" by (simp add: add_http_stream_session_def Let_def)
  have "server_ok dims (upd_conn c (send_multipart_frame C1 d n) ?w2)"
    by (rule server_sent [OF ok2 c2 send_multipart_sent])
  then show ?thesis
    using s(1) C(1) sent_to_trans [OF t send_multipart_sent [of C1 d n]]
    unfolding answered_def by (intro exI [of _ "upd_conn c (send_multipart_frame C1 d n) ?w2"]) (simp add: Let_def)
qed

lemma picture_answer_ok:
  assumes ok: "server_ok dims w" and C: "conns w c = Some C" and r: "reply_ok r" and n: "int n < 10 ^ 10"
  shows "answered dims w c (bindE (tcp_send_pmsg (C\<lparr>drop_after := True\<rparr>) r (int n)) (\<lambda>(C, ok).
     Inr (upd_conn c (if ok then send_frame_with_jfif C d n else C) w)))"
proof -
  obtain C1 sent where s: "tcp_send_pmsg (C\<lparr>drop_after := True\<rparr>) r (int n) = Inr (C1, sent)" "same_conn (C\<lparr>drop_after := True\<rparr>) C1"
    using tcp_send_reply [OF r n] .
  have "sent_to C C1" by (rule sent_to_step [OF sent_to_drop [OF sent_to_refl] s(2)])
  then have t: "sent_to C (if sent then send_frame_with_jfif C1 d n else C1)" by (auto intro: sent_to_trans send_frame_sent)
  with server_sent [OF ok C t] s(1) C show ?thesis
    unfolding answered_def by (intro exI [of _ "upd_conn c (if sent then send_frame_with_jfif C1 d n else C1) w"]) simp
qed

lemma http_GET_ok:
  assumes ok: "server_ok dims w" and C: "conns w c = Some C" "c_proto C = CONN_PROTO_HTTP" "proto_state w c = No_State"
    and uri: "length uri < PATH"
  shows "answered dims w c (http_handle_GET w c uri)"
proof -
  have h: "pictures_ok w" "paths_ok w" using ok by (simp_all add: server_ok_def http_ok_def)
  obtain loc where loc: "find_http_location w uri = Inr loc" using find_http_ok [OF h(2) uri] .
  note err = http_error_answered [OF ok C(1)]
  have err1: "answered dims w c (http_send_error w c 404 ''Not Found'' ''<html><body><p>File not found</p></body></html>'')"
    "answered dims w c (http_send_error w c 404 ''Not Found'' ''<html><body><p>Image not available</p></body></html>'')"
    by (rule err; simp)+
  obtain r where r: "http_create_reply 200 ''OK'' = Inr r" "reply_ok r" by (rule http_create_reply_ok [of "''OK''" 200]) simp_all
  let ?r = "fst (add_header (fst (add_header (fst (add_header r ''Expires'' ''0'')) ''Pragma'' ''no-cache'')) ''Cache-Control'' ''no-cache'')"
  have ok3: "reply_ok ?r" by (intro add_header_reply r(2)) simp_all
  have ok4: "reply_ok (fst (add_header ?r ''Content-Type'' (''multipart/x-mixed-replace;boundary='' @ [QUOTE] @ ''boundary'' @ [QUOTE])))"
    "reply_ok (fst (add_header (fst (add_header ?r ''Connection'' ''close'')) ''Content-Type'' ''image/jpeg''))"
    by (intro add_header_reply ok3; simp)+
  show ?thesis
  proof (cases loc)
    case None
    with loc err1 show ?thesis by (simp add: http_handle_GET_def)
  next
    case l: (Some l)
    let ?L = "http_locs w l"
    show ?thesis
    proof (cases "length (cstr (hl_path ?L) 0) < length uri")
      case True
      with loc l err1 show ?thesis by (simp add: http_handle_GET_def Let_def)
    next
      case len: False
      show ?thesis
      proof (cases "hl_frame ?L")
        case None
        with loc l len err1 C(1) show ?thesis by (simp add: http_handle_GET_def Let_def)
      next
        case (Some d)
        have "picture_ok d (hl_jfif ?L)" "length d < 2 ^ 30" using h(1) Some by (auto simp: pictures_ok_def)
        then have n: "int (hl_jfif ?L) < 10 ^ 10" by (auto simp: picture_ok_def)
        have eval: "http_handle_GET w c uri = (if avail_send_buf C < length d + 400
            then http_send_error w c 404 ''Not Found'' ''<html><body><p>Image not available</p></body></html>''
            else if hl_streaming ?L
            then bindE (tcp_send_pmsg C (fst (add_header ?r ''Content-Type''
                (''multipart/x-mixed-replace;boundary='' @ [QUOTE] @ ''boundary'' @ [QUOTE]))) (-1)) (\<lambda>(C, _).
                let w = add_http_stream_session (upd_conn c C w) l c in Inr (upd_conn c (send_multipart_frame C d (hl_jfif ?L)) w))
            else bindE (tcp_send_pmsg (C\<lparr>drop_after := True\<rparr>)
                (fst (add_header (fst (add_header ?r ''Connection'' ''close'')) ''Content-Type'' ''image/jpeg'')) (int (hl_jfif ?L)))
                (\<lambda>(C, ok). Inr (upd_conn c (if ok then send_frame_with_jfif C d (hl_jfif ?L) else C) w)))"
          using len unfolding http_handle_GET_def loc l bindE_simps option.case Let_def deref_Some [of "conns w", OF C(1)] Some r(1)
          by (simp only: if_False)
        show ?thesis unfolding eval
          using err1(2) stream_answer_ok [OF ok C ok4(1), of l d "hl_jfif ?L"] picture_answer_ok [OF ok C(1) ok4(2) n, of d]
          by (simp only: split: if_split) blast
      qed
    qed
  qed
qed

lemma http_handle_msg_ok:
  assumes "server_ok dims w" "conns w c = Some C" "c_proto C = CONN_PROTO_HTTP" "proto_state w c = No_State" "length uri < PATH"
  shows "answered dims w c (http_handle_msg w c meth uri)"
  using http_GET_ok [OF assms] http_error_answered [OF assms(1,2), of "''Not Implemented''" 501]
  by (simp add: http_handle_msg_def http_handle_unknown_def)

section \<open>A new picture\<close>

definition streams_to :: "world \<Rightarrow> nat list \<Rightarrow> nat \<Rightarrow> bool" where
  "streams_to w hs c \<longleftrightarrow> (\<exists>h\<in>set hs. map_option hs_conn (http_sess w h) = Some c)"

lemma send_to_streams_ok:
  assumes "server_ok dims w" "hl_frame (http_locs w l) = Some d" "distinct hs" "\<And>h. h \<in> set hs \<Longrightarrow> http_sess w h \<noteq> None"
  shows "\<exists>w'. send_to_streams w l hs = Inr w' \<and> server_ok dims w' \<and> w' = w\<lparr>conns := conns w'\<rparr> \<and>
    (\<forall>c. conns w' c = (if streams_to w hs c then map_option (\<lambda>C. send_multipart_frame C d (hl_jfif (http_locs w l))) (conns w c)
                       else conns w c))"
  using assms
proof (induction hs arbitrary: w)
  case Nil
  then show ?case by (intro exI [of _ w]) (simp add: streams_to_def)
next
  case (Cons h hs)
  have links: "http_links w" using Cons.prems(1) by (simp add: server_ok_def http_ok_def)
  obtain H where H: "http_sess w h = Some H" using Cons.prems(4) by fastforce
  with links have ps: "proto_state w (hs_conn H) = Http_State h" unfolding http_links_def by blast
  from http_linksD [OF links ps] obtain C where C: "conns w (hs_conn H) = Some C" by (auto simp: is_http_def)
  let ?n = "hl_jfif (http_locs w l)"
  let ?w = "upd_conn (hs_conn H) (send_multipart_frame C d ?n) w"
  have "server_ok dims ?w" by (rule server_sent [OF Cons.prems(1) C send_multipart_sent])
  from Cons.IH [OF this] Cons.prems(2-4) obtain w' where w': "send_to_streams ?w l hs = Inr w'" "server_ok dims w'"
    "w' = ?w\<lparr>conns := conns w'\<rparr>" "\<And>c. conns w' c = (if streams_to ?w hs c
       then map_option (\<lambda>C. send_multipart_frame C d ?n) (conns ?w c) else conns ?w c)" by auto
  have st: "streams_to ?w hs c = streams_to w hs c" for c by (simp add: streams_to_def)
  have no: "\<not> streams_to w hs (hs_conn H)"
  proof
    assume "streams_to w hs (hs_conn H)"
    then obtain h' H' where h': "h' \<in> set hs" "http_sess w h' = Some H'" "hs_conn H' = hs_conn H" by (auto simp: streams_to_def)
    with links have "proto_state w (hs_conn H) = Http_State h'" unfolding http_links_def by metis
    with ps h'(1) Cons.prems(3) show False by simp
  qed
  have "conns w' c = (if streams_to w (h # hs) c then map_option (\<lambda>C. send_multipart_frame C d ?n) (conns w c) else conns w c)" for c
    using w'(4) [of c] no C H by (auto simp: st) (auto simp: streams_to_def)
  moreover have "w' = w\<lparr>conns := conns w'\<rparr>" by (subst w'(3)) simp
  moreover have "send_to_streams w l (h # hs) = Inr w'" using H C Cons.prems(2) w'(1) by simp
  ultimately show ?case using w'(2) by blast
qed

lemma location_change:
  assumes ok: "server_ok dims w" and L: "hl_sess L = hl_sess (http_locs w l)" "hl_path L = hl_path (http_locs w l)"
    and pic: "\<And>d. hl_frame L = Some d \<Longrightarrow> picture_ok d (hl_jfif L) \<and> length d < 2 ^ 30"
  shows "server_ok dims (w\<lparr>http_locs := (http_locs w)(l := L)\<rparr>)"
proof -
  let ?w = "w\<lparr>http_locs := (http_locs w)(l := L)\<rparr>"
  have oks: "http_links w" "pictures_ok w" "paths_ok w" using ok by (simp_all add: server_ok_def http_ok_def)
  have sess: "hl_sess (http_locs ?w l') = hl_sess (http_locs w l')" for l' using L(1) by simp
  have "is_http ?w c = is_http w c" for c by (simp add: is_http_def)
  then have "http_links ?w" using oks(1) unfolding http_links_def sess by simp
  moreover have "pictures_ok ?w" using oks(2) pic by (simp add: pictures_ok_def)
  moreover have "paths_ok ?w" using oks(3) L(2) by (simp add: paths_ok_def)
  ultimately have "http_ok ?w" by (simp add: http_ok_def)
  then show ?thesis by (intro http_change [OF ok]) simp_all
qed

text \<open>A picture in the format of JPEG, of at least the eleven bytes that are looked at.\<close>

definition jpeg_frame :: "byte list \<Rightarrow> bool" where
  "jpeg_frame d \<longleftrightarrow> take 3 d = [0xff, 0xd8, 0xff] \<and> 11 \<le> length d \<and> length d < 2 ^ 30"

definition jfif_length :: "byte list \<Rightarrow> nat" where
  "jfif_length d = (if no_jfif d = Inr True then length d + 18 else length d)"

lemma jpeg_frame_tests:
  assumes "jpeg_frame d"
  shows "malformed d = Inr False" "\<exists>b. no_jfif d = Inr b"
proof -
  have t: "take 3 d = [0xff, 0xd8, 0xff]" "11 \<le> length d" using assms by (auto simp: jpeg_frame_def)
  then have "d ! 0 = 0xff" "d ! 1 = 0xd8" "d ! 2 = 0xff"
    using nth_take [of 0 3 d] nth_take [of 1 3 d] nth_take [of 2 3 d] by simp_all
  moreover have "rd d 0 = Inr (d ! 0)" "rd d 1 = Inr (d ! 1)" "rd d 2 = Inr (d ! 2)" using t(2) by (auto simp: rd_def)
  ultimately show "malformed d = Inr False" by (simp add: malformed_def)
  show "\<exists>b. no_jfif d = Inr b" using t(2) by (cases "d ! 3 = 0xe0") (auto simp: no_jfif_def)
qed

lemma jpeg_next_frame_ok:
  assumes ok: "server_ok dims w" and d: "jpeg_frame d"
  shows "\<exists>w'. jpeg_next_frame w l d = Inr w' \<and> server_ok dims w' \<and>
    hl_frame (http_locs w' l) = Some d \<and> hl_jfif (http_locs w' l) = jfif_length d \<and>
    (\<forall>c. conns w' c = (if streams_to w (hl_sess (http_locs w l)) c
                       then map_option (\<lambda>C. send_multipart_frame C d (jfif_length d)) (conns w c) else conns w c))"
proof -
  obtain b where b: "no_jfif d = Inr b" using jpeg_frame_tests(2) [OF d] by blast
  let ?L = "(http_locs w l)\<lparr>hl_frame := Some d, hl_jfif := jfif_length d\<rparr>"
  let ?w = "w\<lparr>http_locs := (http_locs w)(l := ?L)\<rparr>"
  have ok1: "server_ok dims ?w"
    by (rule location_change [OF ok]) (use d in \<open>auto simp: picture_ok_def jfif_length_def jpeg_frame_def\<close>)
  have links: "http_links ?w" using ok1 by (simp add: server_ok_def http_ok_def)
  have "distinct (hl_sess (http_locs ?w l))" and mem: "h \<in> set (hl_sess (http_locs ?w l)) \<Longrightarrow> http_sess ?w h \<noteq> None" for h
    using links unfolding http_links_def by blast+
  from send_to_streams_ok [OF ok1 _ this, of l d] obtain w' where w': "send_to_streams ?w l (hl_sess (http_locs ?w l)) = Inr w'"
    "server_ok dims w'" "w' = ?w\<lparr>conns := conns w'\<rparr>" "\<And>c. conns w' c = (if streams_to ?w (hl_sess (http_locs ?w l)) c
       then map_option (\<lambda>C. send_multipart_frame C d (hl_jfif (http_locs ?w l))) (conns ?w c) else conns ?w c)" by auto
  have run: "jpeg_next_frame w l d = Inr w'"
    using w'(1) jpeg_frame_tests(1) [OF d] b by (cases b) (simp_all add: jpeg_next_frame_def Let_def jfif_length_def)
  have "streams_to ?w hs c = streams_to w hs c" for hs c by (simp add: streams_to_def)
  moreover have "hl_sess (http_locs ?w l) = hl_sess (http_locs w l)" "hl_jfif (http_locs ?w l) = jfif_length d" "conns ?w = conns w"
    by simp_all
  ultimately have eqs: "streams_to ?w hs c = streams_to w hs c" "hl_sess (http_locs ?w l) = hl_sess (http_locs w l)"
    "hl_jfif (http_locs ?w l) = jfif_length d" "conns ?w = conns w" for hs c by simp_all
  have "http_locs w' = http_locs ?w" by (subst w'(3)) simp
  then have "hl_frame (http_locs w' l) = Some d" "hl_jfif (http_locs w' l) = jfif_length d" by simp_all
  moreover have "conns w' c = (if streams_to w (hl_sess (http_locs w l)) c
      then map_option (\<lambda>C. send_multipart_frame C d (jfif_length d)) (conns w c) else conns w c)" for c
    using w'(4) [of c] unfolding eqs .
  ultimately show ?thesis using run w'(2) by blast
qed

lemma jpeg_frame_picture: "jpeg_frame d \<Longrightarrow> picture_ok d (jfif_length d)"
  by (auto simp: jpeg_frame_def picture_ok_def jfif_length_def)

end
