(* ===== verification/Server_Proofs.thy ===== *)
theory Server_Proofs
  imports Server_Http
begin

text \<open>
  Every event keeps the state of the server well-formed: a new connection, input of any kind but
  the requests that the code does not survive, output, a picture.
\<close>

section \<open>Tunnels\<close>

text \<open>A connection that nothing hangs on may change its protocol.\<close>

lemma links_ok_proto:
  assumes ok: "links_ok w" and c: "conns w c = Some C" "proto_state w c = No_State"
  shows "links_ok (upd_conn c C' w)"
proof -
  let ?w = "upd_conn c C' w"
  have oks: "inter_ok w" "conns_ok w" "fresh_ok w" using ok by (simp_all add: links_ok_def)
  have none: "conns ?w c' = None \<longleftrightarrow> conns w c' = None" for c' using c(1) by simp
  have "inter_ok ?w" by (rule inter_ok_cong [OF oks(1) _ none]) simp_all
  moreover have "conns_ok ?w"
    unfolding conns_ok_def
  proof (intro conjI allI impI)
    show "distinct (conn_list ?w)" "c' \<in> set (conn_list ?w) \<longleftrightarrow> conns ?w c' \<noteq> None" for c'
      using oks(2) none by (simp_all add: conns_ok_def)
    fix c' ch assume a: "proto_state ?w c' = Rtsp_State ch"
    then have "c' \<noteq> c" "proto_state w c' = Rtsp_State ch" using c(2) by auto
    with oks(2) show "length ch = MAX_INTERLEAVE_CHANNELS" "\<exists>C. conns ?w c' = Some C \<and> c_proto C = CONN_PROTO_RTSP"
      unfolding conns_ok_def by simp_all
  qed
  moreover have "fresh_ok ?w" using oks(3) none unfolding fresh_ok_def by simp
  moreover have "slots_ok ?w" "owners_ok ?w" "channels_ok ?w" "rtsp_ok ?w" "entries_ok ?w"
    by (rule links_ok_parts [OF ok]; simp)+
  ultimately show ?thesis by (simp add: links_ok_def)
qed

lemma server_proto:
  assumes "server_ok dims w" "conns w c = Some C" "proto_state w c = No_State" "wf_conn C'"
  shows "server_ok dims (upd_conn c C' w)"
proof -
  let ?w = "upd_conn c C' w"
  have ok: "world_ok w" "http_ok w" "conns_wf w" "static_ok dims w" using assms(1) by (simp_all add: server_ok_def)
  have "links_ok w" using ok(1) by (simp add: world_ok_def)
  have "world_ok ?w"
    by (rule world_ok_view [OF ok(1) links_ok_proto [OF \<open>links_ok w\<close> assms(2,3)]]) (simp add: same_view_def)
  moreover have "http_links ?w"
    by (rule http_links_cong) (use ok(2) assms(3) in \<open>auto simp: http_ok_def is_http_def\<close>)
  then have "http_ok ?w" using ok(2) by (simp add: http_ok_def pictures_ok_def paths_ok_def)
  moreover have "conns_wf ?w" using ok(3) assms(4) by (simp add: conns_wf_def)
  moreover have "static_ok dims ?w" using ok(4) by (subst static_ok_cong [where w = w]) simp_all
  ultimately show ?thesis by (simp add: server_ok_def)
qed

text \<open>The connection after a request that was understood.\<close>

definition usable :: "(nat \<Rightarrow> int \<times> int) \<Rightarrow> nat \<Rightarrow> world \<Rightarrow> bool" where
  "usable dims c w \<longleftrightarrow> server_ok dims w \<and> (\<exists>C. conns w c = Some C \<and> c_base64_count C \<le> 0)"

lemma usableI: "server_ok dims w \<Longrightarrow> conns w c = Some C \<Longrightarrow> c_base64_count C \<le> 0 \<Longrightarrow> usable dims c w"
  by (auto simp: usable_def)

lemma usable_upd: "server_ok dims (upd_conn c C w) \<Longrightarrow> c_base64_count C \<le> 0 \<Longrightarrow> usable dims c (upd_conn c C w)"
  by (simp add: usable_def)

lemma usable_answered:
  assumes "answered dims w c r" "conns w c = Some C" "c_base64_count C \<le> 0"
  shows "\<exists>w'. r = Inr w' \<and> usable dims c w'"
  using assms sent_to_fields(3) unfolding answered_def usable_def by auto

lemma send_text_sent: "sent_to C (send_text C s)"
  unfolding send_text_def by (rule sent_to_send [OF sent_to_refl])

lemma find_cookie_conn:
  assumes "find_cookie w t = Some g"
  obtains G where "conns w g = Some G" "c_cookie G = t" "g \<in> set (conn_list w)"
proof -
  from assms obtain i where "i < length (conn_list w)" "map_option c_cookie (conns w g) = Some t" "g = conn_list w ! i"
    unfolding find_cookie_def find_Some_iff by auto
  then show ?thesis using that by (auto simp: nth_mem)
qed

lemma tunnel_ok:
  assumes ok: "server_ok dims w" and C: "conns w c = Some C" "c_base64_count C \<le> 0" "proto_state w c = No_State"
  shows "\<exists>w' gone. handle_QT_tunnel w c m post = Inr (w', gone) \<and> usable dims c w'"
proof -
  note wf = server_conn_wf [OF ok C(1)]
  have refuse: "usable dims c (upd_conn c ((send_text C s)\<lparr>drop_after := True\<rparr>) w)" for s
  proof -
    have t: "sent_to C ((send_text C s)\<lparr>drop_after := True\<rparr>)" by (rule sent_to_drop [OF send_text_sent])
    show ?thesis by (rule usable_upd [OF server_sent [OF ok C(1) t]]) (use sent_to_fields(3) [OF t] C(2) in simp)
  qed
  show ?thesis
  proof (cases "get_header m ''x-sessioncookie''")
    case None
    then show ?thesis using refuse C(1) by (auto simp: handle_QT_tunnel_def)
  next
    case (Some t)
    show ?thesis
    proof (cases "COOKIE < length t + 1")
      case True
      then show ?thesis using refuse C(1) Some by (auto simp: handle_QT_tunnel_def)
    next
      case short: False
      show ?thesis
      proof (cases post)
        case False
        let ?C = "(send_text (C\<lparr>c_cookie := t\<rparr>) tunnel_opened)\<lparr>c_proto := CONN_PROTO_RTSP, c_base64_count := 0\<rparr>"
        have "wf_conn (C\<lparr>c_cookie := t\<rparr>)" using wf short by (simp add: wf_conn_def wf_ring_def)
        then have "wf_conn (send_text (C\<lparr>c_cookie := t\<rparr>) tunnel_opened)" by (rule sent_to_fields(6) [OF send_text_sent])
        then have "wf_conn ?C" by (simp add: wf_conn_def wf_ring_def)
        then have "usable dims c (upd_conn c ?C w)" by (intro usable_upd [OF server_proto [OF ok C(1,3)]]) simp_all
        then show ?thesis using Some short False C(1) by (auto simp: handle_QT_tunnel_def)
      next
        case True
        show ?thesis
        proof (cases "find_cookie w t")
          case None
          then show ?thesis using refuse C(1) Some short True by (auto simp: handle_QT_tunnel_def)
        next
          case g: (Some g)
          obtain G where G: "conns w g = Some G" using find_cookie_conn [OF g] by metis
          let ?w = "upd_conn g (G\<lparr>c_second_fd := c_fd C, c_second_read := True\<rparr>) w"
          have "wf_conn G" by (rule server_conn_wf [OF ok G])
          then have ok1: "server_ok dims ?w" by (intro server_conn [OF ok G]) (simp_all add: wf_conn_def wf_ring_def)
          obtain C1 where C1: "conns ?w c = Some C1" "c_base64_count C1 \<le> 0" using C G by (cases "c = g") auto
          have "wf_conn C1" by (rule server_conn_wf [OF ok1 C1(1)])
          then have "server_ok dims (upd_conn c (C1\<lparr>c_fd := -1\<rparr>) ?w)"
            by (intro server_conn [OF ok1 C1(1)]) (simp_all add: wf_conn_def wf_ring_def)
          then have "usable dims c (upd_conn c (C1\<lparr>c_fd := -1\<rparr>) ?w)" by (rule usable_upd) (use C1(2) in simp)
          moreover have "handle_QT_tunnel w c m post = Inr (upd_conn c (C1\<lparr>c_fd := -1\<rparr>) ?w, True)"
            using C(1) Some short True g G C1(1) by (simp add: handle_QT_tunnel_def Let_def)
          ultimately show ?thesis by blast
        qed
      qed
    qed
  qed
qed

section \<open>Requests\<close>

text \<open>
  The requests that the code survives. Those on an HTTP connection must not follow a request for a
  stream, because its session would be replaced, or taken for channels.
\<close>

definition survivable_request :: "world \<Rightarrow> nat \<Rightarrow> conn_proto \<Rightarrow> pmsg \<Rightarrow> bool" where
  "survivable_request w c p m \<longleftrightarrow> pm_type m = PMSG_REQ \<and> length (request_uri m) < PATH \<and>
     (case p of
        CONN_PROTO_RTSP \<Rightarrow> \<not> str_ieq (request_method m) ''ANNOUNCE'' \<and> get_header m ''Transport'' \<noteq> Some [] \<and>
          (str_ieq (request_method m) ''PLAY'' \<longrightarrow> plays_ok w m)
      | CONN_PROTO_HTTP \<Rightarrow> proto_state w c = No_State
      | _ \<Rightarrow> False)"

definition survivable :: "world \<Rightarrow> nat \<Rightarrow> conn \<Rightarrow> bool" where
  "survivable w c C \<longleftrightarrow>
     (case client_input C of
        Packet chan _ \<Rightarrow> chan < MAX_INTERLEAVE_CHANNELS \<longrightarrow> proto_state w c \<noteq> No_State
      | Request \<Rightarrow> count_list (take (c_req_len C) (c_req_buf C)) LF \<le> MAX_FIELDS + 1 \<and>
          (case parse_pmsg (request_of C) of Inr (m, _) \<Rightarrow> survivable_request w c (c_proto C) m | _ \<Rightarrow> True)
      | _ \<Rightarrow> True)"

lemma dispatch_ok:
  assumes ok: "server_ok dims w" and C: "conns w c = Some C" "c_base64_count C \<le> 0"
    and m: "survivable_request w c (c_proto C) m"
  shows "\<exists>w' r. dispatch (live_provider dims) env w c (c_proto C) m = Inr (w', r) \<and> usable dims c w'"
proof (cases "c_proto C")
  case CONN_PROTO_RTSP
  have oks: "world_ok w" "locs_ok w" "sdp_fits dims w" "http_links w" using ok by (simp_all add: server_ok_def static_ok_def http_ok_def)
  have rdy: "ready w c" using C(1) CONN_PROTO_RTSP http_linksD [OF oks(4), of c] by (auto simp: ready_def is_http_def)
  have r: "length (request_uri m) < 256" "str_ieq (request_method m) ''PLAY'' \<Longrightarrow> plays_ok w m"
    "get_header m ''Transport'' \<noteq> Some []" "\<not> str_ieq (request_method m) ''ANNOUNCE''"
    using m CONN_PROTO_RTSP by (simp_all add: survivable_request_def PATH_def)
  have "done_ok world_ok c (rtsp_handle_msg (live_provider dims) env w c m)"
    by (rule live.handle_msg_done [OF oks(1) rdy oks(2) live_describes [OF oks(3)] _ r(1) r(3,4)]) (rule r(2))
  then obtain w' where w': "rtsp_handle_msg (live_provider dims) env w c m = Inr w'" "world_ok w'"
    by (auto simp: done_ok_def)
  have st: "stable w w'" using keepsD [OF handle_msg_keeps w'(1)] by simp
  from stable_conn_cases [OF st, of c] C obtain C' where C': "conns w' c = Some C'" "same_conn C C'" by auto
  have "usable dims c w'"
    by (rule usableI [OF stable_server_ok [OF st ok w'(2)] C'(1)]) (use same_conn_fields(6) [OF C'(2)] C(2) in simp)
  then show ?thesis using w'(1) CONN_PROTO_RTSP by (auto simp: dispatch_def)
next
  case CONN_PROTO_HTTP
  then have p: "proto_state w c = No_State" "length (request_uri m) < PATH" using m by (simp_all add: survivable_request_def)
  have "answered dims w c (http_handle_msg w c (request_method m) (request_uri m))"
    by (rule http_handle_msg_ok [OF ok C(1) CONN_PROTO_HTTP p])
  then obtain w1 where w1: "http_handle_msg w c (request_method m) (request_uri m) = Inr w1" "usable dims c w1"
    using usable_answered [OF _ C] by blast
  have t: "\<exists>w' r. bindE (handle_QT_tunnel w c m post) (\<lambda>(w, gone). Inr (w, \<not> gone)) = Inr (w', r) \<and> usable dims c w'" for post
    using tunnel_ok [OF ok C p(1), of m post] by auto
  show ?thesis using w1 t by (auto simp: CONN_PROTO_HTTP dispatch_def handle_GET_def handle_POST_def)
qed (use m in \<open>simp_all add: survivable_request_def\<close>)

lemma strstr_append: "strstr s p = Some k \<Longrightarrow> strstr (s @ t) p = Some k"
proof (induction s arbitrary: k)
  case Nil
  then show ?case by (cases t) (auto simp: strstr.simps [of "[]"] strstr.simps [of "_ # _"] split: if_splits)
next
  case (Cons x s)
  show ?case
  proof (cases "take (length p) (x # s) = p")
    case True
    then have "length p \<le> length (x # s)" by (metis length_take min.cobounded1)
    then have "take (length p) (x # s @ t) = p" using True by (simp add: take_Cons split: nat.splits)
    with True Cons.prems show ?thesis by (simp add: strstr.simps [of "x # _"])
  next
    case False
    with Cons.prems obtain j where j: "strstr s p = Some j" "k = Suc j" by (auto simp: strstr.simps [of "x # s"])
    have "take (length p) (x # s @ t) \<noteq> p"
    proof
      assume a: "take (length p) (x # s @ t) = p"
      from strstr_SomeD [OF j(1)] have "length p \<le> length s" by (auto dest: arg_cong [of _ _ length])
      with a False show False by (simp add: take_Cons split: nat.splits)
    qed
    with j Cons.IH [OF j(1)] show ?thesis by (simp add: strstr.simps [of "x # s @ t"])
  qed
qed

lemma received_string:
  assumes "c_req_len C < length (c_req_buf C)" "c_req_buf C ! c_req_len C = NUL"
  shows "\<exists>t. take (c_req_len C) (c_req_buf C) = cstr (c_req_buf C) 0 @ t"
proof -
  let ?b = "c_req_buf C" and ?n = "length (cstr (c_req_buf C) 0)"
  have c: "cstr ?b 0 = take ?n ?b" unfolding cstr_def drop_0 by (rule takeWhile_eq_take)
  have "?n \<le> c_req_len C"
  proof (rule ccontr)
    assume "\<not> ?n \<le> c_req_len C"
    then have lt: "c_req_len C < length (takeWhile (\<lambda>x. x \<noteq> NUL) ?b)" by (simp add: cstr_def)
    then have "takeWhile (\<lambda>x. x \<noteq> NUL) ?b ! c_req_len C = NUL" using assms(2) by (simp add: takeWhile_nth)
    with nth_mem [OF lt] show False using set_takeWhileD by fastforce
  qed
  then have "take (c_req_len C) ?b = take ?n ?b @ drop ?n (take (c_req_len C) ?b)"
    by (metis append_take_drop_id min.absorb1 take_take)
  then show ?thesis using c by metis
qed

lemma handle_request_ok:
  assumes ok: "server_ok dims w" and C: "conns w c = Some C" "c_base64_count C \<le> 0"
    and req: "client_input C = Request" "survivable w c C" and nul: "c_req_buf C ! c_req_len C = NUL"
  shows "\<exists>w' r. handle_request (live_provider dims) env w c = Inr (w', r) \<and> usable dims c w'"
proof -
  have wf: "wf_conn C" by (rule server_conn_wf [OF ok C(1)])
  have same: "usable dims c w" using ok C by (rule usableI)
  let ?s = "take (c_req_len C) (c_req_buf C)"
  have "strstr (cstr (c_req_buf C) 0) [CR, LF, CR, LF] \<noteq> None"
    using req(1) by (auto simp: client_input_def Let_def split: conn_proto.splits option.splits if_splits)
  then obtain p where p: "strstr (cstr (c_req_buf C) 0) [CR, LF, CR, LF] = Some p" by blast
  have len: "c_req_len C < length (c_req_buf C)" using wf by (simp add: wf_conn_def)
  from received_string [OF this nul] p have "strstr ?s [CR, LF, CR, LF] = Some p" by (metis strstr_append)
  moreover have "count_list ?s LF \<le> MAX_FIELDS + 1" using req by (simp add: survivable_def)
  ultimately have safe: "parse_pmsg (request_of C) \<noteq> Inl Fault"
    using len by (intro parse_safe) (simp_all add: request_of_def)
  show ?thesis
  proof (cases "c_req_buf C ! 0 = NUL")
    case True
    then show ?thesis using same C(1) by (auto simp: handle_request_def)
  next
    case False
    show ?thesis
    proof (cases "parse_pmsg (request_of C)")
      case (Inl e)
      with safe have "e = Fail" by (cases e) simp_all
      then show ?thesis using same C(1) False Inl by (auto simp: handle_request_def)
    next
      case (Inr p)
      obtain m k where p: "p = (m, k)" by fastforce
      have m: "survivable_request w c (c_proto C) m" using req Inr p by (simp add: survivable_def)
      then have "pm_type m = PMSG_REQ" by (simp add: survivable_request_def)
      then show ?thesis using dispatch_ok [OF ok C m, of env] C(1) False Inr p by (simp add: handle_request_def)
    qed
  qed
qed

section \<open>Input\<close>

lemma upd_endpoint_links:
  assumes ok: "links_ok w" and e: "endpoints w e = Some E" and f: "ep_session (f E) = ep_session E" "ep_trans (f E) = ep_trans E"
  shows "links_ok (upd_endpoint e f w)"
proof -
  let ?w = "upd_endpoint e f w"
  have oks: "channels_ok w" "inter_ok w" "conns_ok w" using ok by (simp_all add: links_ok_def)
  have eps: "endpoints ?w = (endpoints w)(e := Some (f E))" using e by simp
  note parts = upd_endpoint_parts [where w' = ?w and f = f, OF ok e f(1) eps, simplified]
  have tr: "map_option ep_trans (endpoints ?w e') = map_option ep_trans (endpoints w e')" for e' using e f(2) by simp
  have "channels_ok ?w"
    unfolding channels_ok_def
  proof (intro allI impI, elim conjE)
    fix c ch k e' b assume "proto_state ?w c = Rtsp_State ch" "k < length ch" "ch ! k = (Some e', b)"
    then have "proto_state w c = Rtsp_State ch" "k < length ch" "ch ! k = (Some e', b)" by simp_all
    then obtain E' r q where E': "endpoints w e' = Some E'" "ep_trans E' = Inter c r q" "k = (if b then q else r)"
      using oks(1) unfolding channels_ok_def by metis
    then show "\<exists>E r q. endpoints ?w e' = Some E \<and> ep_trans E = Inter c r q \<and> k = (if b then q else r)"
      using tr [of e'] by (cases "endpoints ?w e'") auto
  qed
  moreover have "inter_ok ?w"
    unfolding inter_ok_def
  proof (intro allI impI, elim conjE)
    fix e' E' c r q assume a: "endpoints ?w e' = Some E'" "ep_trans E' = Inter c r q"
    then obtain E0 where "endpoints w e' = Some E0" "ep_trans E0 = Inter c r q" using tr [of e'] by (cases "endpoints w e'") auto
    with oks(2) show "conns ?w c \<noteq> None \<and> r \<noteq> q \<and> (\<exists>ch. proto_state ?w c = Rtsp_State ch \<and> r < length ch \<and> q < length ch \<and>
        ch ! r = (Some e', False) \<and> ch ! q = (Some e', True))"
      unfolding inter_ok_def by (metis world.ext_inject world.surjective world.update_convs(4))
  qed
  moreover have "conns_ok ?w" using oks(3) by (simp add: conns_ok_def)
  ultimately show ?thesis using parts by (simp add: links_ok_def)
qed

lemma interleave_recv_ok:
  assumes ok: "server_ok dims w" and C: "conns w c = Some C" "c_proto C = CONN_PROTO_RTSP"
    and chan: "chan < MAX_INTERLEAVE_CHANNELS \<Longrightarrow> proto_state w c \<noteq> No_State"
  shows "\<exists>w'. interleave_recv w c chan now = Inr w' \<and> server_ok dims w' \<and> stable w w'"
proof (cases "chan < MAX_INTERLEAVE_CHANNELS")
  case False
  then show ?thesis using ok by (simp add: interleave_recv_def)
next
  case True
  have w: "world_ok w" and hl: "http_links w" using ok by (simp_all add: server_ok_def http_ok_def)
  then have l: "links_ok w" by (simp add: world_ok_def)
  have "proto_state w c \<noteq> Http_State h" for h using http_linksD [OF hl, of c h] C by (auto simp: is_http_def)
  with chan [OF True] obtain ch where ch: "proto_state w c = Rtsp_State ch" by (cases "proto_state w c") auto
  have len: "length ch = MAX_INTERLEAVE_CHANNELS" and cok: "channels_ok w"
    using l ch unfolding links_ok_def conns_ok_def by blast+
  have "\<exists>w'. interleave_recv w c chan now = Inr w' \<and> world_ok w'"
  proof (cases "ch ! chan")
    case (Pair oe b)
    show ?thesis
    proof (cases oe)
      case None
      then show ?thesis using True Pair ch w by (simp add: interleave_recv_def channels_def)
    next
      case (Some e)
      have "chan < length ch" using True len by simp
      with cok ch Pair Some obtain E where E: "endpoints w e = Some E" unfolding channels_ok_def by metis
      let ?w = "upd_endpoint e (\<lambda>E. interleave_recv_rtcp E now) w"
      have "links_ok ?w" by (rule upd_endpoint_links [OF l E]) (simp_all add: interleave_recv_rtcp_def)
      then have "world_ok ?w" by (rule world_ok_view [OF w]) (simp add: same_view_def)
      then show ?thesis using True Pair Some ch E w by (cases b) (simp_all add: interleave_recv_def channels_def)
    qed
  qed
  then obtain w' where w': "interleave_recv w c chan now = Inr w'" "world_ok w'" by blast
  have "stable w w'" using keepsD [OF interleave_recv_keeps w'(1)] by simp
  with w' stable_server_ok [OF _ ok] show ?thesis by blast
qed

section \<open>One message after the other\<close>

lemma server_start:
  assumes ok: "server_ok dims w" and C: "conns w c = Some C" "c_proto C = CONN_PROTO_START"
  shows "proto_state w c = No_State"
proof (cases "proto_state w c")
  case (Rtsp_State ch)
  have "conns_ok w" using ok by (simp add: server_ok_def world_ok_def links_ok_def)
  from conns_okD [OF this Rtsp_State] C show ?thesis by simp
next
  case (Http_State h)
  have "http_links w" using ok by (simp add: server_ok_def http_ok_def)
  from http_linksD [OF this Http_State] C show ?thesis by (simp add: is_http_def)
qed

lemma client_input_proto:
  "client_input C = Again p \<Longrightarrow> c_proto C = CONN_PROTO_START \<and> p \<noteq> CONN_PROTO_START"
  "client_input C = Packet i d \<Longrightarrow> c_proto C = CONN_PROTO_RTSP"
  by (auto simp: client_input_def Let_def split: conn_proto.splits option.splits if_splits)

lemma survivable_upd [simp]: "survivable (upd_conn c C w) = survivable w"
proof -
  have "get_session (upd_conn c C w) i = get_session w i" for i by (cases i) (simp_all add: get_session_def)
  then have "plays_ok (upd_conn c C w) = plays_ok w" by (simp add: fun_eq_iff plays_ok_def may_play_def)
  then have eq: "survivable_request (upd_conn c C w) = survivable_request w" "proto_state (upd_conn c C w) = proto_state w"
    by (simp_all add: fun_eq_iff survivable_request_def split: conn_proto.split)
  show ?thesis unfolding fun_eq_iff survivable_def eq by simp
qed

lemma empty_req_buf_ok:
  assumes "usable dims c w"
  shows "\<exists>w'. empty_req_buf w c = Inr w' \<and> usable dims c w'"
proof -
  obtain C where C: "server_ok dims w" "conns w c = Some C" "c_base64_count C \<le> 0" using assms by (auto simp: usable_def)
  have "wf_conn (C\<lparr>c_req_len := 0\<rparr>)"
    using server_conn_wf [OF C(1,2)] C(3) by (simp add: wf_conn_def wf_ring_def REQ_BUF_def)
  then have "usable dims c (upd_conn c (C\<lparr>c_req_len := 0\<rparr>) w)"
    using C by (intro usable_upd server_conn) simp_all
  then show ?thesis using C(2) by (simp add: empty_req_buf_def)
qed

lemma parse_client_data_ok:
  assumes ok: "server_ok dims w" and C: "conns w c = Some C" "c_base64_count C \<le> 0"
    and s: "survivable w c C" and nul: "c_req_buf C ! c_req_len C = NUL"
  shows "\<exists>w' ret. parse_client_data (live_provider dims) env w c = Inr (w', ret) \<and> usable dims c w' \<and>
    (if \<exists>p. client_input C = Again p then ret = 1 \<and> (\<exists>p. client_input C = Again p \<and> w' = upd_conn c (C\<lparr>c_proto := p\<rparr>) w)
     else ret \<le> 0)"
proof -
  have u: "usable dims c w" using ok C by (rule usableI)
  show ?thesis
  proof (cases "client_input C")
    case (Again p)
    have "proto_state w c = No_State" using server_start [OF ok C(1)] client_input_proto(1) [OF Again] by simp
    moreover have "wf_conn (C\<lparr>c_proto := p\<rparr>)" using server_conn_wf [OF ok C(1)] by (simp add: wf_conn_def wf_ring_def)
    ultimately have "usable dims c (upd_conn c (C\<lparr>c_proto := p\<rparr>) w)"
      using C(2) by (intro usable_upd server_proto [OF ok C(1)]) simp_all
    then show ?thesis using C(1) Again by (simp add: parse_client_data_def)
  next
    case (Packet chan d)
    have "chan < MAX_INTERLEAVE_CHANNELS \<Longrightarrow> proto_state w c \<noteq> No_State" using s Packet by (simp add: survivable_def)
    from interleave_recv_ok [OF ok C(1) client_input_proto(2) [OF Packet] this, where now = "re_now env"] obtain w1 where
      w1: "interleave_recv w c chan (re_now env) = Inr w1" "server_ok dims w1" "stable w w1" by blast
    from stable_conn_cases [OF w1(3), of c] C obtain C' where C': "conns w1 c = Some C'" "same_conn C C'" by auto
    have "usable dims c w1" by (rule usableI [OF w1(2) C'(1)]) (use same_conn_fields(6) [OF C'(2)] C(2) in simp)
    from empty_req_buf_ok [OF this] show ?thesis using C(1) Packet w1(1) by (auto simp: parse_client_data_def)
  next
    case Request
    from handle_request_ok [OF ok C Request s nul, of env] obtain w1 r where
      w1: "handle_request (live_provider dims) env w c = Inr (w1, r)" "usable dims c w1" by blast
    from empty_req_buf_ok [OF w1(2)] show ?thesis using C(1) Request w1 by (cases r) (auto simp: parse_client_data_def)
  qed (use C(1) u in \<open>simp_all add: parse_client_data_def\<close>)
qed

definition survives :: "world \<Rightarrow> nat \<Rightarrow> conn \<Rightarrow> bool" where
  "survives w c C \<longleftrightarrow>
     (case client_input C of Again p \<Rightarrow> survivable w c (C\<lparr>c_proto := p\<rparr>) | _ \<Rightarrow> survivable w c C)"

lemma survives_upd [simp]: "survives (upd_conn c C w) = survives w"
  unfolding fun_eq_iff survives_def survivable_upd by simp

text \<open>The first line tells the protocol, and then there is at most one message: two rounds are enough.\<close>

lemma parse_loop_ok:
  assumes ok: "server_ok dims w" and C: "conns w c = Some C" "c_base64_count C \<le> 0"
    and s: "survives w c C" and nul: "c_req_buf C ! c_req_len C = NUL"
  shows "\<exists>w' ret. parse_loop (live_provider dims) env 2 w c = Some (Inr (w', ret)) \<and> usable dims c w' \<and> ret \<le> 0"
proof (cases "\<exists>p. client_input C = Again p")
  case False
  then have "survivable w c C" using s by (auto simp: survives_def split: client_input.splits)
  from parse_client_data_ok [OF ok C this nul, of env] False obtain w' ret where
    "parse_client_data (live_provider dims) env w c = Inr (w', ret)" "usable dims c w'" "ret \<le> 0" by auto
  then show ?thesis by (simp add: numeral_2_eq_2)
next
  case True
  then obtain p where p: "client_input C = Again p" by blast
  then have "survivable w c C" by (simp add: survivable_def)
  from parse_client_data_ok [OF ok C this nul, of env] p obtain w1 where
    w1: "parse_client_data (live_provider dims) env w c = Inr (w1, 1)" "usable dims c w1"
    "w1 = upd_conn c (C\<lparr>c_proto := p\<rparr>) w" by auto
  let ?C = "C\<lparr>c_proto := p\<rparr>"
  have c1: "conns w1 c = Some ?C" "server_ok dims w1" using w1(2,3) by (simp_all add: usable_def)
  have no: "client_input ?C \<noteq> Again q" for q
    using client_input_proto(1) [of ?C q] client_input_proto(1) [OF p] by auto
  have "survivable w1 c ?C" using s p by (simp add: survives_def w1(3))
  from parse_client_data_ok [OF c1(2,1) _ this, of env] no C(2) nul obtain w' ret where
    "parse_client_data (live_provider dims) env w1 c = Inr (w', ret)" "usable dims c w'" "ret \<le> 0" by auto
  then show ?thesis using w1(1) by (simp add: numeral_2_eq_2)
qed

section \<open>Received bytes\<close>

lemma receive_ok:
  assumes "wf_conn C" "d \<noteq> []" "length d \<le> length (c_req_buf C) - c_req_len C - 1"
  shows "wf_conn (receive C d)" "c_proto (receive C d) = c_proto C"
proof -
  let ?n = "c_req_len C" and ?k = "nat (c_base64_count C)"
  have wf: "length (c_req_buf C) = REQ_BUF" "?n < REQ_BUF" "length (send_buf C) = SEND_BUF" "wf_ring C"
    "length (c_cookie C) < COOKIE" "c_base64_count C \<le> 3" "?k \<le> ?n" using assms(1) by (simp_all add: wf_conn_def)
  let ?b = "blit (c_req_buf C) ?n (string_of d)"
  have lb: "length ?b = REQ_BUF" and le: "?n + length d < REQ_BUF"
    using wf assms(2,3) by (simp_all add: string_of_def)
  show "c_proto (receive C d) = c_proto C" by (simp add: receive_def Let_def split: prod.split)
  show "wf_conn (receive C d)"
  proof (cases "0 \<le> c_base64_count C")
    case False
    then show ?thesis using wf lb le by (simp add: receive_def wf_conn_def wf_ring_def Let_def)
  next
    case True
    let ?i = "?n - ?k"
    obtain t n r where u: "unbase64 (bytes_of (drop ?i ?b)) (length d + ?k) = (t, n, r)" by (metis prod_cases3)
    obtain out rest where o: "b64_decode (take (length d + ?k) (bytes_of (drop ?i ?b))) = (out, rest)" by fastforce
    have "length d + ?k \<le> length (bytes_of (drop ?i ?b))" using lb le wf(7) by (simp add: bytes_of_def)
    from unbase64_spec [OF u this o] have s: "length t = length (bytes_of (drop ?i ?b))" "n = length out + length rest"
      "r = length rest" "n \<le> length d + ?k" by blast+
    have r: "r < 4" using b64_groups_rest o s(3) unfolding b64_decode_def by blast
    have "receive C d = C\<lparr>c_req_buf := take ?i ?b @ string_of t, c_req_len := ?i + n, c_base64_count := int r\<rparr>"
      using True u by (simp add: receive_def Let_def)
    moreover have "length (take ?i ?b @ string_of t) = REQ_BUF"
      using s(1) lb wf(2) by (simp add: string_of_def bytes_of_def)
    moreover have "?i + n < REQ_BUF" using s(4) le wf(7) by linarith
    ultimately show ?thesis using wf r s(2,3) by (simp add: wf_conn_def wf_ring_def)
  qed
qed

end
