(* ===== verification/Live_Frames.thy ===== *)
theory Live_Frames
  imports Server_Proofs
begin

text \<open>
  A frame from a source, \<open>next_live_frame\<close>, keeps the state of the server well-formed whenever it
  returns, whatever happens on the way: endpoints send over UDP or over a connection, a session
  may end because its client is silent.
\<close>

section \<open>Sending through a packetiser\<close>

text \<open>What every packet keeps, the whole run of a packetiser keeps.\<close>

definition keeps_inv :: "('w \<Rightarrow> bool) \<Rightarrow> 'w sender \<Rightarrow> bool" where
  "keeps_inv I send \<longleftrightarrow> (\<forall>w p. I w \<longrightarrow> I (fst (send w p)))"

lemma keeps_invD: "keeps_inv I send \<Longrightarrow> I w \<Longrightarrow> send w p = (w', ok) \<Longrightarrow> I w'"
  unfolding keeps_inv_def by (metis fst_conv)

lemma keeps_inv_fst: "keeps_inv I send \<Longrightarrow> I w \<Longrightarrow> I (fst (send w p))"
  unfolding keeps_inv_def by blast

lemma h264_loop_inv:
  "h264_loop send w d ts mx v0 v1 i = Some r \<Longrightarrow> keeps_inv I send \<Longrightarrow> I w \<Longrightarrow> I (fst r)"
proof (induction send w d ts mx v0 v1 i r rule: h264_loop.raw_induct [rotated 1, consumes 1])
  case (1 rec send w d ts mx v0 v1 i r)
  from 1(2-) show ?case
    by (cases r) (auto simp: Let_def split: if_splits prod.splits intro: keeps_inv_fst, (metis 1(1) fst_conv keeps_invD)+)
qed

lemma rawaudio_loop_inv:
  "rawaudio_loop send w out mx i = Some r \<Longrightarrow> keeps_inv I send \<Longrightarrow> I w \<Longrightarrow> I (fst r)"
proof (induction send w out mx i r rule: rawaudio_loop.raw_induct [rotated 1, consumes 1])
  case (1 rec send w out mx i r)
  from 1(2-) show ?case
    by (cases r) (auto simp: Let_def split: if_splits prod.splits intro: keeps_inv_fst, (metis 1(1) fst_conv keeps_invD)+)
qed

lemma jpeg_loop_inv:
  "jpeg_loop send w out tables n mx i = Some r \<Longrightarrow> keeps_inv I send \<Longrightarrow> I w \<Longrightarrow> I (fst r)"
proof (induction send w out tables n mx i r rule: jpeg_loop.raw_induct [rotated 1, consumes 1])
  case (1 rec send w out tables n mx i r)
  from 1(2-) show ?case
    by (cases r) (auto simp: Let_def split: if_splits prod.splits intro: keeps_inv_fst, (metis 1(1) fst_conv keeps_invD)+)
qed

lemma mpeg4_loop_inv:
  "mpeg4_loop send w ts mx es off v space = Some r \<Longrightarrow> keeps_inv I send \<Longrightarrow> I w \<Longrightarrow> I (fst r)"
proof (induction send w ts mx es off v space r rule: mpeg4_loop.raw_induct [rotated 1, consumes 1])
  case (1 rec send w ts mx es off v space r)
  show ?case
  proof (cases es)
    case Nil
    then show ?thesis using 1(2-) by (auto intro: keeps_inv_fst)
  next
    case (Cons e es')
    with 1(2-) show ?thesis
      by (cases r) (auto simp: Let_def split: if_splits prod.splits intro: keeps_inv_fst, (metis 1(1) fst_conv keeps_invD)+)
  qed
qed

lemma packetisers_inv:
  assumes "keeps_inv I send" "I w"
  shows "h264_send send w mx o1 = Some r \<Longrightarrow> I (fst r)" "rawaudio_send send w mx o2 = Some r \<Longrightarrow> I (fst r)"
    "mpeg4_send send w mx o3 = Some r \<Longrightarrow> I (fst r)" "jpeg_send send w mx o4 = Inr (Some r) \<Longrightarrow> I (fst r)"
proof -
  show "I (fst r)" if "h264_send send w mx o1 = Some r"
  proof (cases "mx < length (h264_d o1)")
    case True
    from that show ?thesis unfolding h264_send_def Let_def if_P [OF True] by (rule h264_loop_inv [OF _ assms])
  next
    case False
    with that show ?thesis using keeps_inv_fst [OF assms] by (auto simp: h264_send_def)
  qed
  show "I (fst r)" if "rawaudio_send send w mx o2 = Some r" using that unfolding rawaudio_send_def by (rule rawaudio_loop_inv [OF _ assms])
  show "I (fst r)" if "mpeg4_send send w mx o3 = Some r" using that unfolding mpeg4_send_def by (rule mpeg4_loop_inv [OF _ assms])
  show "I (fst r)" if "jpeg_send send w mx o4 = Inr (Some r)"
  proof (cases "scan_data_len o4 \<le> 0")
    case True
    with that assms(2) show ?thesis by (auto simp: jpeg_send_def)
  next
    case False
    with that obtain t where "jpeg_loop send w o4 t 140 mx 0 = Some r" by (auto simp: jpeg_send_def bindE_eq_Inr)
    then show ?thesis by (rule jpeg_loop_inv [OF _ assms])
  qed
qed

section \<open>Endpoints\<close>

lemma upd_endpoint_ok:
  assumes ok: "server_ok dims w" and e: "endpoints w e = Some E" and f: "ep_session (f E) = ep_session E" "ep_trans (f E) = ep_trans E"
  shows "server_ok dims (upd_endpoint e f w)"
proof -
  have w: "world_ok w" using ok by (simp add: server_ok_def)
  then have "links_ok w" by (simp add: world_ok_def)
  from world_ok_view [OF w upd_endpoint_links [where f = f, OF this e f]] have "world_ok (upd_endpoint e f w)"
    by (simp add: same_view_def)
  then show ?thesis by (rule stable_server_ok [OF stable_upd_endpoint ok])
qed

text \<open>An endpoint that is not there is not changed.\<close>

lemma upd_endpoint_any:
  assumes "server_ok dims w" "\<And>E. ep_session (f E) = ep_session E" "\<And>E. ep_trans (f E) = ep_trans E"
  shows "server_ok dims (upd_endpoint e f w)"
proof (cases "endpoints w e")
  case None
  then have "upd_endpoint e f w = w" by (simp add: fun_upd_idem)
  with assms(1) show ?thesis by simp
next
  case (Some E)
  from upd_endpoint_ok [where f = f, OF assms(1) Some assms(2,3)] show ?thesis .
qed

lemma interleave_send_same: "same_conn C (fst (interleave_send C chan v))"
proof -
  have "same_conn C (foldl (\<lambda>c p. fst (send_data c p)) C1 v)" if "same_conn C C1" for C1
    using that
  proof (induction v arbitrary: C1)
    case (Cons a v)
    show ?case using Cons.IH [OF same_conn_trans [OF Cons.prems send_data_same]] by simp
  qed simp
  from this [OF send_data_same] show ?thesis by (simp add: interleave_send_def Let_def)
qed

lemma server_same:
  "server_ok dims w \<Longrightarrow> conns w c = Some C \<Longrightarrow> same_conn C C' \<Longrightarrow> server_ok dims (upd_conn c C' w)"
  by (rule server_conn) (auto simp: same_conn_fields(1) intro: same_conn_wf server_conn_wf)

lemma transmit_inv: "transmit env w e E v = Inr (w', ok) \<Longrightarrow> server_ok dims w \<Longrightarrow> server_ok dims w'"
proof -
  assume r: "transmit env w e E v = Inr (w', ok)" and s: "server_ok dims w"
  show "server_ok dims w'"
  proof (cases "ep_trans E")
    case (Inter c rtp rtcp)
    with r obtain C where "conns w c = Some C" "w' = upd_conn c (fst (interleave_send C rtp v)) w"
      by (auto simp: transmit_def bindE_eq_Inr deref_eq_Inr)
    with server_same [OF s _ interleave_send_same] show ?thesis by simp
  next
    case (Udp a p)
    have w: "world_ok w" "links_ok w" using s by (simp_all add: server_ok_def world_ok_def)
    have "world_ok (w\<lparr>udp_out := u\<rparr>)" for u
      by (rule world_ok_view [OF w(1)]) (use w(2) in \<open>simp_all add: same_view_def\<close>)
    moreover have "stable w (w\<lparr>udp_out := u\<rparr>)" for u by (simp add: stable_def)
    ultimately have "server_ok dims (w\<lparr>udp_out := u\<rparr>)" for u using stable_server_ok [OF _ s] by blast
    with r s Udp show ?thesis by (auto simp: transmit_def split: if_splits)
  qed (use r s in \<open>auto simp: transmit_def\<close>)
qed

lemma live_teardown_inv:
  assumes "live_teardown w s ep = Inr w'" "server_ok dims w"
  shows "server_ok dims w'"
proof -
  have w: "world_ok w" using assms(2) by (simp add: server_ok_def)
  from assms(1) obtain S where S: "sessions w s = Some S"
    by (cases "sessions w s") (simp_all add: live_teardown_def deref_def)
  from live.teardown_ok [OF w S, of dims ep] obtain w1 where "pr_teardown (live_provider dims) w s ep = Inr w1" "world_ok w1" by blast
  with assms(1) have "world_ok w'" by (simp add: live_provider_def)
  moreover have "stable w w'" using keepsD [OF live_teardown_keeps assms(1)] by simp
  ultimately show ?thesis by (rule stable_server_ok [OF _ assms(2), rotated])
qed

lemma rtcp_send_inv:
  assumes r: "rtcp_send env w e = Inr (w', ok)" and s: "server_ok dims w"
  shows "server_ok dims w'"
proof -
  from r obtain E where E: "endpoints w e = Some E"
    by (cases "endpoints w e") (simp_all add: rtcp_send_def deref_def)
  let ?w = "upd_endpoint e (\<lambda>E. E\<lparr>force_rtcp := False\<rparr>) w"
  let ?late = "case ep_trans E of Udp _ _ \<Rightarrow> 15 < se_now env - last_rtcp_recv E | _ \<Rightarrow> False"
  have ok1: "server_ok dims ?w" by (rule upd_endpoint_any [OF s]) simp_all
  show ?thesis
  proof (cases ?late)
    case True
    with r have "live_teardown ?w (ep_session E) (Some e) = Inr w'"
      unfolding rtcp_send_def deref_Some [of "endpoints w", OF E] bindE_simps Let_def if_P [OF True] by (auto simp: bindE_eq_Inr)
    then show ?thesis using ok1 by (rule live_teardown_inv)
  next
    case False
    with r have "w' = ?w"
      unfolding rtcp_send_def deref_Some [of "endpoints w", OF E] bindE_simps Let_def if_not_P [OF False] by simp
    with ok1 show ?thesis by simp
  qed
qed

lemma send_rtp_packet_inv:
  assumes "send_rtp_packet env e w p = Inr (w', ok)" "server_ok dims w"
  shows "server_ok dims w'"
proof -
  obtain v ts m where p: "p = (v, ts, m)" by (cases p)
  from assms(1) obtain E0 where E0: "endpoints w e = Some E0"
    by (cases "endpoints w e") (simp_all add: p send_rtp_packet_def deref_def)
  let ?E = "stamp E0 ts"
  let ?w1 = "upd_endpoint e (\<lambda>_. ?E) w"
  have ok1: "server_ok dims ?w1" by (rule upd_endpoint_ok [OF assms(2) E0]) (simp_all add: stamp_def)
  have e1: "endpoints ?w1 e = Some ?E" using E0 by simp
  from assms(1) E0 obtain w2 ok2 where t: "transmit env ?w1 e ?E (rtp_header ?E m # v) = Inr (w2, ok2)"
    by (auto simp: p send_rtp_packet_def bindE_eq_Inr Let_def)
  have ok2: "server_ok dims w2" by (rule transmit_inv [OF t ok1])
  have "endpoints w2 = endpoints ?w1"
    using t by (auto simp: transmit_def bindE_eq_Inr split: trans.splits if_splits)
  then have e2: "endpoints w2 e = Some ?E" using e1 by simp
  let ?w3 = "upd_endpoint e (\<lambda>E. count_packet E v) w2"
  have ok3: "server_ok dims ?w3" by (rule upd_endpoint_any [OF ok2]) (simp_all add: count_packet_def)
  have seq: "server_ok dims (upd_endpoint e next_seqnum x)" if "server_ok dims x" for x
    by (rule upd_endpoint_any [OF that]) (simp_all add: next_seqnum_def)
  have en: "server_ok dims (upd_endpoint e (\<lambda>E. E\<lparr>rtcp_enabled := True\<rparr>) x)" if "server_ok dims x" for x
    by (rule upd_endpoint_any [OF that]) simp_all
  note run = assms(1) [unfolded p send_rtp_packet_def prod.case deref_Some [of "endpoints w", OF E0] bindE_simps Let_def t]
  show ?thesis
  proof (cases "ok2 \<and> force_rtcp ?E")
    case False
    then consider "\<not> ok2" | "ok2" "\<not> force_rtcp ?E" by blast
    then show ?thesis
    proof cases
      case 1
      with run ok2 show ?thesis by simp
    next
      case 2
      with run have "w' = upd_endpoint e next_seqnum ?w3" by simp
      with seq [OF ok3] show ?thesis by simp
    qed
  next
    case True
    with run obtain w4 b where r: "rtcp_send env ?w3 e = Inr (w4, b)"
      "w' = (if b then upd_endpoint e next_seqnum (upd_endpoint e (\<lambda>E. E\<lparr>rtcp_enabled := True\<rparr>) w4) else w4)"
      by (cases "rtcp_send env ?w3 e") (auto split: if_splits)
    note ok4 = rtcp_send_inv [OF r(1) ok3]
    show ?thesis unfolding r(2) using ok4 seq [OF en [OF ok4]] by simp
  qed
qed

section \<open>A frame for one session\<close>

definition cres_ok :: "(nat \<Rightarrow> int \<times> int) \<Rightarrow> world cres \<Rightarrow> bool" where
  "cres_ok dims r \<longleftrightarrow> (\<forall>w. r = Inr w \<longrightarrow> server_ok dims w)"

lemma endpoint_sender_inv: "keeps_inv (cres_ok dims) (endpoint_sender env e)"
  unfolding keeps_inv_def
proof (intro allI impI)
  fix r p assume r: "cres_ok dims r"
  show "cres_ok dims (fst (endpoint_sender env e r p))"
  proof (cases r)
    case (Inr w)
    then show ?thesis using r send_rtp_packet_inv [of env e w p]
      by (cases "send_rtp_packet env e w p") (auto simp: endpoint_sender_def cres_ok_def)
  qed (simp add: endpoint_sender_def cres_ok_def)
qed

lemma media_send_inv:
  assumes "media_send env m w e = Inr (w', ok)" "server_ok dims w"
  shows "server_ok dims w'"
proof -
  let ?s = "endpoint_sender env e"
  have i: "cres_ok dims (Inr w)" using assms(2) by (simp add: cres_ok_def)
  obtain E where E: "endpoints w e = Some E"
    using assms(1) by (cases "endpoints w e") (simp_all add: media_send_def deref_def)
  note runs = packetisers_inv [OF endpoint_sender_inv i, of env e "max_data_size E"]
  have fin: "server_ok dims w'" if "cres_ok dims (fst x)" "(case x of (w', ok) \<Rightarrow> bindE w' (\<lambda>w'. Inr (w', ok))) = Inr (w', ok)" for x
    using that by (cases x) (auto simp: bindE_eq_Inr cres_ok_def)
  note run = assms(1) [unfolded media_send_def deref_Some [of "endpoints w", OF E] bindE_simps Let_def]
  show ?thesis
  proof (cases m)
    case (Media_Mpeg4 out)
    with run obtain x where "mpeg4_send ?s (Inr w) (max_data_size E) out = Some x"
      "(case x of (w', ok) \<Rightarrow> bindE w' (\<lambda>w'. Inr (w', ok))) = Inr (w', ok)" by (auto split: option.splits)
    with runs(3) fin show ?thesis by blast
  next
    case (Media_H264 out)
    with run obtain x where "h264_send ?s (Inr w) (max_data_size E) out = Some x"
      "(case x of (w', ok) \<Rightarrow> bindE w' (\<lambda>w'. Inr (w', ok))) = Inr (w', ok)" by (auto split: option.splits)
    with runs(1) fin show ?thesis by blast
  next
    case (Media_Jpeg out)
    with run obtain x where "jpeg_send ?s (Inr w) (max_data_size E) out = Inr (Some x)"
      "(case x of (w', ok) \<Rightarrow> bindE w' (\<lambda>w'. Inr (w', ok))) = Inr (w', ok)" by (auto simp: bindE_eq_Inr split: option.splits)
    with runs(4) fin show ?thesis by blast
  next
    case (Media_Raw out)
    with run obtain x where "rawaudio_send ?s (Inr w) (max_data_size E) out = Some x"
      "(case x of (w', ok) \<Rightarrow> bindE w' (\<lambda>w'. Inr (w', ok))) = Inr (w', ok)" by (auto split: option.splits)
    with runs(2) fin show ?thesis by blast
  qed
qed

lemma send_to_session_inv:
  "send_to_session env w t en key s js = Inr w' \<Longrightarrow> server_ok dims w \<Longrightarrow> server_ok dims w'"
proof (induction js)
  case (Cons j js)
  show ?case
  proof (cases "le_tracks (entries w en) ! j \<noteq> Some t")
    case True
    with Cons show ?thesis by simp
  next
    case here: False
    with Cons.prems(1) obtain S where S: "sessions w s = Some S" by (cases "sessions w s") (simp_all add: deref_def)
    show ?thesis
    proof (cases "if s_playing S then s_eps S ! j else None")
      case None
      with Cons.prems here S show ?thesis by simp
    next
      case (Some e)
      with Cons.prems(1) here S obtain E where E: "endpoints w e = Some E" by (cases "endpoints w e") (simp_all add: deref_def)
      show ?thesis
      proof (cases "lost_key_frame E \<and> \<not> key")
        case True
        with Cons here S Some E show ?thesis by simp
      next
        case False
        from Cons.prems(1) obtain w1 ok where
          m: "(if se_stop env then Inr (w, False) else case lt_media (tracks w t) of None \<Rightarrow> Inl Fault | Some m \<Rightarrow> media_send env m w e) = Inr (w1, ok)"
          and w': "w' = w1 \<or> w' = upd_endpoint e (\<lambda>E. E\<lparr>lost_key_frame := \<not> ok\<rparr>) w1"
          using here S Some E False by (auto simp: bindE_eq_Inr deref_eq_Inr split: if_splits)
        have "server_ok dims w1"
          using m Cons.prems(2) media_send_inv by (auto split: if_splits option.splits)
        moreover from this have "server_ok dims (upd_endpoint e (\<lambda>E. E\<lparr>lost_key_frame := \<not> ok\<rparr>) w1)"
          by (rule upd_endpoint_any) simp_all
        ultimately show ?thesis using w' by blast
      qed
    qed
  qed
qed simp

lemma send_to_sessions_inv:
  "send_to_sessions env w t key ls = Inr w' \<Longrightarrow> server_ok dims w \<Longrightarrow> server_ok dims w'"
proof (induction ls arbitrary: w)
  case (Cons p ls)
  obtain en s where p: "p = (en, s)" by (cases p)
  from Cons.prems(1) obtain w1 where "send_to_session env w t en key s [0..<MAX_TRACKS] = Inr w1"
    "send_to_sessions env w1 t key ls = Inr w'" by (auto simp: p bindE_eq_Inr)
  with Cons.IH send_to_session_inv Cons.prems(2) show ?case by blast
qed simp

section \<open>The packetiser of the track\<close>

lemma media_frame_bounded:
  assumes "media_frame m d ts = Inr (m', ok)" "media_bounded m"
  shows "media_bounded m'"
proof (cases m)
  case (Media_Mpeg4 out)
  with assms(1) obtain o' where "mpeg4_elements (out\<lparr>m4_iov := [], m4_timestamp := ts\<rparr>) d = Inr o'" "m' = Media_Mpeg4 o'"
    by (auto simp: media_frame_def mpeg4_process_frame_def bindE_eq_Inr)
  with mpeg4_elements_step [OF this(1)] assms(2) Media_Mpeg4 show ?thesis by (simp add: media_bounded_def m4_inv_def)
qed (use assms in \<open>auto simp: media_frame_def rawaudio_process_frame_def bindE_eq_Inr media_bounded_def\<close>)

lemma media_fits:
  assumes "media_bounded m" "i < MAX_TRACKS" "media_sdp m (96 + int i) 0 = Some x"
  shows "length x \<le> 3000"
proof -
  have i: "length (dec_int (96 + int i)) \<le> 11" "length (dec_int 0) \<le> 11"
    using assms(2) by (auto intro: dec_int_length simp: MAX_TRACKS_def)
  have n: "length (dec_int k) \<le> 11" if "k \<in> {5, 6, 8, 10, 11, 16, 17}" for k using that by (auto intro: dec_int_length)
  show ?thesis
  proof (cases m)
    case (Media_Mpeg4 out)
    with assms(1,3) i show ?thesis
      by (auto simp: media_bounded_def m4_inv_def media_sdp_def mpeg4_get_sdp_def crlf_def split: if_splits)
  next
    case (Media_H264 out)
    with assms(3) i show ?thesis by (auto simp: media_sdp_def h264_get_sdp_def crlf_def)
  next
    case (Media_Jpeg out)
    with assms(3) i show ?thesis by (auto simp: media_sdp_def jpeg_get_sdp_def crlf_def)
  next
    case (Media_Raw out)
    then have "length (dec_nat (ra_rate out)) \<le> 10" "length (dec_nat (ra_channels out)) \<le> 10"
      using assms(1) by (auto simp: media_bounded_def intro: dec_nat_length)
    note len = this
    have short: "length (audio_sdp 0 k) \<le> 100" if "length (dec_int k) \<le> 11" for k
      using that i(2) by (simp add: audio_sdp_def crlf_def)
    have long: "length (audio_sdp_map 0 (96 + int i) enc out) \<le> 200" if "length enc \<le> 10" for enc
      using that short [OF i(1)] i(1) len by (simp add: audio_sdp_map_def crlf_def)
    have "length (audio_sdp 0 k) \<le> 3000" if "k \<in> {5, 6, 8, 10, 11, 16, 17}" for k
      using short [OF n [OF that]] by simp
    then have s: "length (audio_sdp 0 5) \<le> 3000" "length (audio_sdp 0 6) \<le> 3000" "length (audio_sdp 0 8) \<le> 3000"
      "length (audio_sdp 0 10) \<le> 3000" "length (audio_sdp 0 11) \<le> 3000" "length (audio_sdp 0 16) \<le> 3000"
      "length (audio_sdp 0 17) \<le> 3000" by simp_all
    have l: "length (audio_sdp_map 0 (96 + int i) enc out) \<le> 3000" if "length enc \<le> 10" for enc
      using long [OF that] by simp
    from assms(3) s l Media_Raw show ?thesis by (auto simp: media_sdp_def rawaudio_get_sdp_def split: if_splits)
  qed
qed

text \<open>Tracks that differ only in what they have learnt from frames.\<close>

lemma tracks_change:
  assumes ok: "server_ok dims w" and w': "w' = w\<lparr>tracks := T, streams_of := g\<rparr>"
    and T: "\<And>t. lt_entries (T t) = lt_entries (tracks w t)" "\<And>t. lt_dest (T t) = lt_dest (tracks w t)"
      "\<And>t. lt_media (T t) = None \<longleftrightarrow> lt_media (tracks w t) = None"
      "\<And>t m. used w t \<Longrightarrow> lt_media (T t) = Some m \<Longrightarrow> media_bounded m"
    and g: "graph_ok w'"
    and idle: "\<And>t. used w t \<Longrightarrow> lt_ready (T t) \<Longrightarrow> waiting g (lt_dest (tracks w t)) \<Longrightarrow>
      lt_ready (tracks w t) \<and> waiting (streams_of w) (lt_dest (tracks w t))"
  shows "server_ok dims w'"
proof -
  have oks: "links_ok w" "config_ok w" "eps_ok w" "\<And>t. used w t \<Longrightarrow> idle_ok w t" "http_ok w" "conns_wf w" "locs_ok w" "sdp_fits dims w"
    using ok by (simp_all add: server_ok_def world_ok_def static_ok_def)
  have "same_config w w'" using T(1-3) by (simp add: same_config_def w')
  note cfg = same_config_simps [OF this]
  have "links_ok w'" using oks(1) by (simp add: w')
  moreover have "eps_ok w'" using oks(3) unfolding eps_ok_def cfg by (simp add: w')
  moreover have "idle_ok w' t" if u: "used w t" for t
  proof -
    have "watched w t \<Longrightarrow> watched w' t"
      by (rule watched_cong [rotated 3]) (simp_all add: w' T(1) watches_def)
    with idle [OF u] oks(4) [OF u] show ?thesis by (auto simp: idle_ok_def w' T(2))
  qed
  ultimately have "world_ok w'" using g oks(2) by (simp add: world_ok_def cfg)
  moreover have "http_ok w'" using oks(5) by (simp add: http_ok_def http_links_def is_http_def pictures_ok_def paths_ok_def w')
  moreover have "conns_wf w'" "locs_ok w'" using oks(6,7) by (simp_all add: conns_wf_def locs_ok_def w')
  moreover have m: "media_ok w'" unfolding media_ok_def cfg using T(4) by (auto simp: w')
  moreover have "sdp_fits dims w'"
    unfolding sdp_fits_def
  proof (intro ballI conjI allI impI)
    fix l assume "l \<in> set (rtsp_loc_list w')"
    then have l: "l \<in> set (rtsp_loc_list w)" by (simp add: w')
    have e: "le_tracks (entries w' en) = le_tracks (entries w en)" for en by (simp add: w')
    show "le_tracks (entries w' (loc_private l)) ! 0 \<noteq> None" using oks(8) l unfolding sdp_fits_def e by blast
    fix i t assume i: "i < MAX_TRACKS" "le_tracks (entries w' (loc_private l)) ! i = Some t"
    then have old: "track_fits dims w i t" using oks(8) l unfolding sdp_fits_def e by blast
    have "length (le_tracks (entries w (loc_private l))) = MAX_TRACKS" using oks(2) unfolding config_ok_def by blast
    then have "used w t" using i unfolding used_def e by (metis nth_mem)
    then have "used w' t" by (simp add: cfg)
    with m have "\<And>m'. lt_media (tracks w' t) = Some m' \<Longrightarrow> media_bounded m'" unfolding media_ok_def by blast
    with media_fits i(1) old show "track_fits dims w' i t" by (auto simp: track_fits_def w' T(2))
  qed
  ultimately show ?thesis by (simp add: server_ok_def static_ok_def)
qed

lemma next_live_frame_inv:
  assumes r: "next_live_frame env w t d ts key = Inr w'" and ok: "server_ok dims w" and t: "used w t"
  shows "server_ok dims w'"
proof -
  from r obtain m where m: "lt_media (tracks w t) = Some m" by (cases "lt_media (tracks w t)") (simp_all add: next_live_frame_def)
  with r obtain m' b where m': "media_frame m d ts = Inr (m', b)" by (auto simp: next_live_frame_def bindE_eq_Inr)
  have gr: "graph_ok w" and co: "config_ok w" and mo: "media_ok w" using ok by (simp_all add: server_ok_def world_ok_def static_ok_def)
  have mb: "media_bounded m'" using media_frame_bounded [OF m'] mo m t by (simp add: media_ok_def)
  let ?T = "(tracks w)(t := (tracks w t)\<lparr>lt_media := Some m'\<rparr>)"
  let ?w1 = "w\<lparr>tracks := ?T\<rparr>"
  have u1: "used ?w1 = used w" "config_ok ?w1 = config_ok w"
    by (rule same_config_simps(3,4), simp add: same_config_def m)+
  have g1: "graph_ok ?w1" using gr unfolding graph_ok_def u1 by auto
  have ok1: "server_ok dims ?w1"
    by (rule tracks_change [where T = ?T and g = "streams_of w", OF ok]) (use m mb mo g1 in \<open>auto simp: media_ok_def split: if_splits\<close>)
  note run = r [unfolded next_live_frame_def m option.case m' bindE_simps prod.case Let_def]
  show ?thesis
  proof (cases b)
    case False
    with run ok1 show ?thesis by simp
  next
    case b: True
    obtain w2 where w2: "(if lt_ready (tracks ?w1 t) then Inr ?w1
        else bindE (world_set_waiting ?w1 (lt_dest (tracks ?w1 t)) False) (\<lambda>w2.
          Inr (w2\<lparr>tracks := (tracks w2)(t := (tracks w2 t)\<lparr>lt_ready := True\<rparr>)\<rparr>))) = Inr w2"
      "send_to_sessions env w2 t key [(en, s). en \<leftarrow> lt_entries (tracks w2 t), s \<leftarrow> le_sessions (entries w2 en)] = Inr w'"
      using run b by (auto simp: bindE_eq_Inr)
    have "server_ok dims w2"
    proof (cases "lt_ready (tracks ?w1 t)")
      case True
      with w2(1) ok1 show ?thesis by simp
    next
      case False
      from world_set_waiting_ok [OF g1, of t False] t co obtain g where
        g: "world_set_waiting ?w1 (lt_dest (tracks ?w1 t)) False = Inr (?w1\<lparr>streams_of := g\<rparr>)"
          "graph_ok (?w1\<lparr>streams_of := g\<rparr>)" "\<not> waiting g (lt_dest (tracks w t))"
          "\<And>t'. used w t' \<Longrightarrow> t' \<noteq> t \<Longrightarrow> waiting g (lt_dest (tracks w t')) = waiting (streams_of w) (lt_dest (tracks w t'))"
        by (auto simp: u1)
      let ?T2 = "(tracks w)(t := (tracks w t)\<lparr>lt_media := Some m', lt_ready := True\<rparr>)"
      have eq: "w2 = ?w1\<lparr>tracks := ?T2, streams_of := g\<rparr>" using w2(1) g(1) False by (auto intro: world.equality)
      have "graph_ok w2" using g(2) unfolding graph_ok_def eq used_def by auto
      then show ?thesis
        by (intro tracks_change [OF ok1 eq]) (use mb mo m g(3,4) in \<open>auto simp: media_ok_def u1 split: if_splits\<close>)
    qed
    with send_to_sessions_inv [OF w2(2)] show ?thesis by blast
  qed
qed

end
