(* ===== verification/Server_Demo.thy ===== *)
theory Server_Demo
  imports Live_Frames
begin

text \<open>
  Two states of the server for the examples: one with an RTSP client that has set up a session,
  and the same with an HTTP client that streams the pictures of a location.
\<close>

definition demo_picture :: "byte list" where
  "demo_picture = [0xff, 0xd8, 0xff, 0, 0, 0, 0, 0, 0, 0, 0]"

definition demo_server :: world where
  "demo_server = demo_sending\<lparr>http_locs := (\<lambda>_. \<lparr>hl_path = ''/cam'' @ replicate 252 NUL, hl_frame = Some demo_picture,
     hl_jfif = 29, hl_sess = [], hl_streaming = True\<rparr>), http_loc_list := [0]\<rparr>"

text \<open>The new connection has the number 8.\<close>

definition demo_client :: world where
  "demo_client = upd_conn 8 ((new_conn 9 REQ_BUF SEND_BUF)\<lparr>c_proto := CONN_PROTO_HTTP\<rparr>) (do_accept demo_server 9)"

definition demo_streaming :: world where "demo_streaming = add_http_stream_session demo_client 0 8"

lemma demo_picture_frame: "jpeg_frame demo_picture" "jfif_length demo_picture = 29"
  by (simp_all add: demo_picture_def jpeg_frame_def jfif_length_def no_jfif_def rd_def)

lemma wf_proto_conn: "wf_conn ((new_conn fd REQ_BUF SEND_BUF)\<lparr>c_proto := p\<rparr>)"
  by (simp add: wf_conn_def wf_ring_def new_conn_def REQ_BUF_def SEND_BUF_def COOKIE_def)

lemma demo_sdp_fits: "sdp_fits (\<lambda>_. (0, 0)) demo_sending"
proof -
  have "length x \<le> 3000" if "media_sdp (Media_H264 out) (96 + int i) 0 = Some x" "i < 2" for out i x
  proof -
    have "length (dec_int (96 + int i)) \<le> 11" "length (dec_int 0) \<le> 11" using that(2) by (auto intro: dec_int_length)
    with that(1) show ?thesis by (auto simp: media_sdp_def h264_get_sdp_def crlf_def)
  qed
  then show ?thesis
    by (auto simp: sdp_fits_def track_fits_def demo_sending_def demo_world_def MAX_TRACKS_def split: if_splits)
qed

lemma demo_server_ok: "server_ok (\<lambda>_. (0, 0)) demo_server"
proof -
  have conns: "conns_wf demo_sending"
    using wf_proto_conn by (auto simp: conns_wf_def demo_sending_def demo_world_def)
  have "media_ok demo_sending"
    by (simp add: media_ok_def media_bounded_def demo_sending_def demo_world_def)
  then have static: "static_ok (\<lambda>_. (0, 0)) demo_sending"
    by (simp add: static_ok_def demo_locs(2) demo_sdp_fits)
  have http: "http_ok demo_sending"
    by (auto simp: http_ok_def http_links_def pictures_ok_def paths_ok_def demo_sending_def demo_world_def split: if_splits)
  have ok: "server_ok (\<lambda>_. (0, 0)) demo_sending"
    by (simp add: server_ok_def demo_sending_ok conns static http)
  have "http_links demo_server"
    by (auto simp: http_links_def demo_server_def demo_sending_def demo_world_def split: if_splits)
  moreover have "pictures_ok demo_server" "paths_ok demo_server"
    by (simp_all add: pictures_ok_def paths_ok_def picture_ok_def demo_server_def demo_picture_def PATH_def)
  ultimately have "http_ok demo_server" by (simp add: http_ok_def)
  then show ?thesis by (intro http_change [OF ok]) (simp_all add: demo_server_def)
qed

lemma demo_client_fields:
  "conns demo_client 8 = Some ((new_conn 9 REQ_BUF SEND_BUF)\<lparr>c_proto := CONN_PROTO_HTTP\<rparr>)" "proto_state demo_client 8 = No_State"
  "conn_list demo_client = [8, 1]" "http_locs demo_client = http_locs demo_server" "http_loc_list demo_client = [0]"
  "http_fresh demo_client = 0"
  "conns demo_client 1 = Some ((new_conn 4 REQ_BUF SEND_BUF)\<lparr>c_proto := CONN_PROTO_RTSP\<rparr>)"
  by (simp_all add: demo_client_def do_accept_def demo_server_def demo_sending_def demo_world_def Let_def)

lemma demo_client_ok: "server_ok (\<lambda>_. (0, 0)) demo_client"
  unfolding demo_client_def
  by (rule server_proto [OF do_accept_ok [OF demo_server_ok]])
    (simp_all add: do_accept_def demo_server_def demo_sending_def Let_def wf_proto_conn)

lemma demo_streaming_ok: "server_ok (\<lambda>_. (0, 0)) demo_streaming"
  unfolding demo_streaming_def
  by (rule add_stream_ok [OF demo_client_ok]) (simp_all add: is_http_def demo_client_fields)

lemma demo_streaming_fields:
  "conns demo_streaming = conns demo_client" "proto_state demo_streaming 8 = Http_State 0"
  "http_sess demo_streaming 0 = Some \<lparr>hs_loc = 0, hs_conn = 8\<rparr>" "http_loc_list demo_streaming = [0]"
  "http_locs demo_streaming 0 = \<lparr>hl_path = ''/cam'' @ replicate 252 NUL, hl_frame = Some demo_picture,
     hl_jfif = 29, hl_sess = [0], hl_streaming = True\<rparr>"
  by (simp_all add: demo_streaming_def add_http_stream_session_def Let_def demo_client_fields) (simp add: demo_server_def)

text \<open>The session plays.\<close>

lemma demo_playing:
  obtains w where "server_ok (\<lambda>_. (0, 0)) w" "used w 0" "lt_ready (tracks w 0)" "waiting (streams_of w) (lt_dest (tracks w 0))"
    "sessions w = [5 \<mapsto> (blank_session 0)\<lparr>s_eps := [Some 6, None], s_control := Some 7, s_playing := True\<rparr>]"
    "le_tracks (entries w 0) = [Some 0, None]" "streams (streams_of w) = streams demo_graph" "lt_dest (tracks w 0) = 1"
    "running (streams_of w) 0"
proof -
  let ?g = "demo_graph\<lparr>waiting := (\<lambda>d. d = 0 \<or> d = 1), running := (\<lambda>s. s = 0)\<rparr>"
  have demo: "lt_dest (tracks demo_server 0) = 1" "endpoints demo_server 6 = Some demo_endpoint" "packet_count demo_endpoint = 1"
    "streams_of demo_server = demo_graph" "s_entry (blank_session 0) = 0"
    by (simp_all add: demo_server_def demo_sending_def demo_world_def demo_endpoint_def blank_session_def)
  let ?S = "(blank_session 0)\<lparr>s_eps := [Some 6, None], s_control := Some 7\<rparr>"
  let ?w = "\<lambda>g. (upd_session 5 (\<lambda>S. S\<lparr>s_playing := True\<rparr>) demo_server)\<lparr>streams_of := g\<rparr>"
  have ok: "world_ok demo_server" using demo_server_ok by (simp add: server_ok_def)
  have S: "sessions demo_server = [5 \<mapsto> ?S]" by (auto simp: demo_server_def demo_sending_def)
  have "may_play demo_server ?S True" by (simp add: may_play_def)
  from live_play_ok [OF ok _ this, of 5] S obtain g st where p: "live_play demo_server 5 True = Inr (?w g, st)" "world_ok (?w g)"
    "\<forall>j < length (entry_tracks demo_server (s_entry ?S)). s_eps ?S ! j \<noteq> None \<longrightarrow>
       waiting g (lt_dest (tracks demo_server (entry_tracks demo_server (s_entry ?S) ! j)))" by auto
  have t: "entry_tracks demo_server (s_entry ?S) = [0]"
    by (simp add: entry_tracks_def demo_server_def demo_sending_def demo_world_def blank_session_def has_media_def MAX_TRACKS_def)
  have "stable demo_server (?w g)" using keepsD [OF live_play_keeps p(1)] by simp
  note server = stable_server_ok [OF this demo_server_ok p(2)]
  have l: "used (?w g) 0" "lt_ready (tracks (?w g) 0)" "le_tracks (entries (?w g) 0) = [Some 0, None]"
    unfolding used_def by (rule exI [of _ 0]) (simp_all add: demo_server_def demo_sending_def demo_world_def)
  have wt: "waiting (streams_of (?w g)) (lt_dest (tracks (?w g) 0))" using p(3) t by simp
  have "set_waiting demo_graph 1 True = Some (Inr ?g)"
    by (simp add: set_waiting.simps demo_graph_def fun_eq_iff)
  then have "world_set_waiting (upd_session 5 (\<lambda>S. S\<lparr>s_playing := True\<rparr>) demo_server) 1 True = Inr (?w ?g)"
    by (simp add: world_set_waiting_def demo)
  then have "live_play demo_server 5 True = Inr (?w ?g, Some 0)"
    using t S by (simp add: live_play_def demo)
  with p(1) have "streams_of (?w g) = streams_of (?w ?g)" by simp
  then have g: "streams (streams_of (?w g)) = streams demo_graph" "running (streams_of (?w g)) 0" by simp_all
  show thesis by (rule that [OF server l(1,2) wt _ l(3) g(1) _ g(2)]) (use S in \<open>simp_all add: demo\<close>)
qed

end
