(* ===== verification/Reports.thy ===== *)
theory Reports
  imports Live_Frames
begin

text \<open>
  The events of an endpoint: the timer for its reports, and what comes in on its two UDP sockets. A read
  that fails or meets the end of the input ends the endpoint, as does the timer after too long a silence.
\<close>

section \<open>Handlers\<close>

definition rtcp_fire :: "send_env \<Rightarrow> world \<Rightarrow> nat \<Rightarrow> world cres" where
  "rtcp_fire env w e = bindE (rtcp_send env w e) (\<lambda>(w', _). Inr w')"

text \<open>
  \<open>got\<close> is the array \<open>buf\<close> after a read that has returned data, nothing for any other result; \<open>thr\<close> is
  \<open>g_nDroprateThreshold\<close>. The call of the wireless check that a report may cause is in \<open>Wifi\<close>.
\<close>

definition udp_rtp_event :: "world \<Rightarrow> nat \<Rightarrow> int \<Rightarrow> byte list option \<Rightarrow> world cres" where
  "udp_rtp_event w e now got =
     bindE (deref (endpoints w) e) (\<lambda>E.
       case got of
         Some buf \<Rightarrow> Inr (upd_endpoint e (\<lambda>E. udp_rtp_read E buf now) w)
       | None \<Rightarrow> live_teardown w (ep_session E) (Some e))"

definition udp_rtcp_event :: "world \<Rightarrow> nat \<Rightarrow> int \<Rightarrow> byte \<Rightarrow> byte list option \<Rightarrow> world cres" where
  "udp_rtcp_event w e now thr got =
     bindE (deref (endpoints w) e) (\<lambda>E.
       case got of
         Some buf \<Rightarrow> Inr (upd_endpoint e (\<lambda>E. fst (udp_rtcp_read E buf now thr)) w)
       | None \<Rightarrow> live_teardown w (ep_session E) (Some e))"

section \<open>They return, and keep the state well-formed\<close>

lemma udp_rtcp_read_links:
  "ep_session (fst (udp_rtcp_read E buf now thr)) = ep_session E" "ep_trans (fst (udp_rtcp_read E buf now thr)) = ep_trans E"
  by (simp_all add: udp_rtcp_read_def Let_def)

lemma teardown_returns:
  assumes ok: "server_ok dims w" and E: "endpoints w e = Some E"
  shows "\<exists>w'. live_teardown w (ep_session E) ep = Inr w' \<and> server_ok dims w'"
proof -
  have w: "world_ok w" using ok by (simp add: server_ok_def)
  then have "owners_ok w" by (simp add: world_ok_def links_ok_def)
  with E obtain S where "sessions w (ep_session E) = Some S" unfolding owners_ok_def by blast
  from live.teardown_ok [OF w this, of dims ep] obtain w' where "live_teardown w (ep_session E) ep = Inr w'"
    by (auto simp: live_provider_def)
  with live_teardown_inv [OF this ok] show ?thesis by blast
qed

lemma rtcp_fire_ok:
  assumes ok: "server_ok dims w" and E: "endpoints w e = Some E"
  shows "\<exists>w'. rtcp_fire env w e = Inr w' \<and> server_ok dims w'"
proof -
  let ?w = "upd_endpoint e (\<lambda>E. E\<lparr>force_rtcp := False\<rparr>) w"
  let ?late = "case ep_trans E of Udp _ _ \<Rightarrow> 15 < se_now env - last_rtcp_recv E | _ \<Rightarrow> False"
  have ok1: "server_ok dims ?w" by (rule upd_endpoint_any [OF ok]) simp_all
  have "endpoints ?w e = Some (E\<lparr>force_rtcp := False\<rparr>)" using E by simp
  from teardown_returns [OF ok1 this, of "Some e"] obtain w' where
    t: "live_teardown ?w (ep_session E) (Some e) = Inr w'" "server_ok dims w'" by auto
  show ?thesis
    unfolding rtcp_fire_def rtcp_send_def deref_Some [of "endpoints w", OF E] bindE_simps Let_def
    by (cases ?late) (use ok1 t in simp_all)
qed

lemma udp_rtp_event_ok:
  assumes ok: "server_ok dims w" and E: "endpoints w e = Some E"
  shows "\<exists>w'. udp_rtp_event w e now got = Inr w' \<and> server_ok dims w'"
proof -
  have "server_ok dims (upd_endpoint e (\<lambda>E. udp_rtp_read E buf now) w)" for buf
    by (rule upd_endpoint_any [OF ok]) (simp_all add: udp_rtp_read_def)
  with teardown_returns [OF ok E, of "Some e"] E show ?thesis by (cases got) (simp_all add: udp_rtp_event_def)
qed

lemma udp_rtcp_event_ok:
  assumes ok: "server_ok dims w" and E: "endpoints w e = Some E"
  shows "\<exists>w'. udp_rtcp_event w e now thr got = Inr w' \<and> server_ok dims w'"
proof -
  have "server_ok dims (upd_endpoint e (\<lambda>E. fst (udp_rtcp_read E buf now thr)) w)" for buf
    by (rule upd_endpoint_any [OF ok]) (simp_all add: udp_rtcp_read_links)
  with teardown_returns [OF ok E, of "Some e"] E show ?thesis by (cases got) (simp_all add: udp_rtcp_event_def)
qed

end
