(* ===== verification/Server_Run.thy ===== *)
theory Server_Run
  imports Server_Demo Reports
begin

text \<open>
  The server as a state machine: its events in any order. Every reachable state is well-formed,
  and no event that the code is meant to handle follows a dangling pointer or writes outside
  an array; and the requests that do.
\<close>

section \<open>Reading\<close>

text \<open>What the connection holds when its input is parsed, if it is.\<close>

definition next_input :: "conn \<Rightarrow> read_answer \<Rightarrow> conn option" where
  "next_input C a =
     (case a of
        Got d \<Rightarrow>
          (let C1 = receive C (take (length (c_req_buf C) - c_req_len C - 1) d)
           in if c_req_len C1 = length (c_req_buf C1) - 1 \<or> 0 < c_base64_count C1 then None
              else Some (C1\<lparr>c_req_buf := (c_req_buf C1)[c_req_len C1 := NUL]\<rparr>))
      | _ \<Rightarrow> None)"

definition benign_read :: "world \<Rightarrow> nat \<Rightarrow> read_answer \<Rightarrow> bool" where
  "benign_read w c a \<longleftrightarrow>
     (case Option.bind (conns w c) (\<lambda>C. next_input C a) of None \<Rightarrow> True | Some C1 \<Rightarrow> survives w c C1)"

lemma close_input_ok:
  assumes ok: "server_ok dims w" and C: "conns w c = Some C"
  shows "\<exists>w'. close_input (live_provider dims) w c second = Inr w' \<and> server_ok dims w'"
proof (cases second)
  case True
  have "wf_conn (C\<lparr>c_second_fd := -1, c_second_read := False\<rparr>)"
    using server_conn_wf [OF ok C] by (simp add: wf_conn_def wf_ring_def)
  then have "server_ok dims (upd_conn c (C\<lparr>c_second_fd := -1, c_second_read := False\<rparr>) w)"
    by (intro server_conn [OF ok C]) simp_all
  with True C show ?thesis by (simp add: close_input_def)
next
  case False
  with drop_conn_ok [OF ok C] show ?thesis by (auto simp: close_input_def)
qed

lemma process_input_ok:
  assumes ok: "server_ok dims w" and C: "conns w c = Some C0" "c_proto C = c_proto C0" "wf_conn C"
    and s: "c_req_len C \<noteq> length (c_req_buf C) - 1 \<Longrightarrow> c_base64_count C \<le> 0 \<Longrightarrow>
      survives w c (C\<lparr>c_req_buf := (c_req_buf C)[c_req_len C := NUL]\<rparr>)"
  shows "\<exists>w' more. process_input (live_provider dims) env w c C = Inr (w', more) \<and> server_ok dims w' \<and>
    (more \<longrightarrow> conns w' c \<noteq> None)"
proof -
  let ?w1 = "upd_conn c C w"
  have ok1: "server_ok dims ?w1" by (rule server_conn [OF ok C])
  show ?thesis
  proof (cases "c_req_len C = length (c_req_buf C) - 1")
    case True
    with drop_conn_ok [OF ok1, of c C] show ?thesis by (auto simp: process_input_def)
  next
    case room: False
    show ?thesis
    proof (cases "0 < c_base64_count C")
      case True
      with room ok1 show ?thesis by (auto simp: process_input_def)
    next
      case False
      let ?buf = "(c_req_buf C)[c_req_len C := NUL]"
      let ?C = "C\<lparr>c_req_buf := ?buf\<rparr>"
      have len: "c_req_len C < length (c_req_buf C)" using C(3) by (simp add: wf_conn_def)
      have "wf_conn ?C" using C(3) by (simp add: wf_conn_def wf_ring_def)
      then have ok2: "server_ok dims (upd_conn c ?C w)" using C(2) by (intro server_conn [OF ok C(1)]) simp_all
      have c2: "conns (upd_conn c ?C w) c = Some ?C" "c_base64_count ?C \<le> 0" "?buf ! c_req_len C = NUL"
        using False len by simp_all
      have "survives (upd_conn c ?C w) c ?C" using s [OF room] False by simp
      from parse_loop_ok [OF ok2 c2(1,2) this, of env] c2(3) obtain w1 ret where
        l: "parse_loop (live_provider dims) env 2 (upd_conn c ?C w) c = Some (Inr (w1, ret))" "usable dims c w1" "ret \<le> 0" by auto
      then obtain C1 where C1: "server_ok dims w1" "conns w1 c = Some C1" by (auto simp: usable_def)
      show ?thesis
      proof (cases "ret < 0")
        case True
        with drop_conn_ok [OF C1] room False len l(1) show ?thesis by (auto simp: process_input_def)
      next
        case False': False
        with room False len l(1) C1 show ?thesis by (auto simp: process_input_def)
      qed
    qed
  qed
qed

lemma read_one_ok:
  assumes ok: "server_ok dims w" and C: "conns w c = Some C" and s: "benign_read w c a"
  shows "\<exists>w' more. read_one (live_provider dims) env w c second a = Inr (w', more) \<and> server_ok dims w' \<and>
    (more \<longrightarrow> conns w' c \<noteq> None)"
proof -
  define d where "d = (case a of Got d \<Rightarrow> take (length (c_req_buf C) - c_req_len C - 1) d | _ \<Rightarrow> [])"
  have eval: "read_one (live_provider dims) env w c second a =
    (if a = RAgain then Inr (w, False)
     else if d = [] then bindE (close_input (live_provider dims) w c second) (\<lambda>w1. Inr (w1, False))
     else process_input (live_provider dims) env w c (receive C d))"
    unfolding read_one_def deref_Some [of "conns w", OF C] bindE_simps Let_def d_def ..
  consider "a = RAgain" | "a \<noteq> RAgain" "d = []" | "a \<noteq> RAgain" "d \<noteq> []" by blast
  then show ?thesis
  proof cases
    case 1
    with ok show ?thesis unfolding eval by auto
  next
    case 2
    with close_input_ok [OF ok C, of second] show ?thesis unfolding eval by auto
  next
    case 3
    then obtain d0 where a: "a = Got d0" by (cases a) (auto simp: d_def)
    then have len: "length d \<le> length (c_req_buf C) - c_req_len C - 1" by (simp add: d_def)
    note rec = receive_ok [OF server_conn_wf [OF ok C] 3(2) len]
    have "\<exists>w' more. process_input (live_provider dims) env w c (receive C d) = Inr (w', more) \<and> server_ok dims w' \<and>
        (more \<longrightarrow> conns w' c \<noteq> None)"
    proof (rule process_input_ok [OF ok C rec(2,1)])
      assume "c_req_len (receive C d) \<noteq> length (c_req_buf (receive C d)) - 1" "c_base64_count (receive C d) \<le> 0"
      then have "next_input C a = Some (receive C d\<lparr>c_req_buf := (c_req_buf (receive C d))[c_req_len (receive C d) := NUL]\<rparr>)"
        by (simp add: next_input_def a Let_def) (simp add: d_def a)
      with s C show "survives w c (receive C d\<lparr>c_req_buf := (c_req_buf (receive C d))[c_req_len (receive C d) := NUL]\<rparr>)"
        by (simp add: benign_read_def)
    qed
    with 3 show ?thesis unfolding eval by simp
  qed
qed

fun benign_reads :: "provider \<Rightarrow> world \<Rightarrow> nat \<Rightarrow> bool \<Rightarrow> (rtsp_env \<times> read_answer) list \<Rightarrow> bool" where
  "benign_reads P w c second [] = True"
| "benign_reads P w c second ((env, a) # as) =
     (benign_read w c a \<and>
      (case read_one P env w c second a of Inr (w1, True) \<Rightarrow> benign_reads P w1 c second as | _ \<Rightarrow> True))"

lemma do_read_ok:
  "server_ok dims w \<Longrightarrow> conns w c \<noteq> None \<Longrightarrow> benign_reads (live_provider dims) w c second as \<Longrightarrow>
    \<exists>w'. do_read (live_provider dims) w c second as = Inr w' \<and> server_ok dims w'"
proof (induction as arbitrary: w)
  case Nil
  then show ?case by auto
next
  case (Cons p as)
  obtain env a where p: "p = (env, a)" by (cases p)
  from Cons.prems obtain C where C: "conns w c = Some C" by blast
  have "benign_read w c a" using Cons.prems(3) by (simp add: p)
  from read_one_ok [OF Cons.prems(1) C this, of env second] obtain w1 more where
    r: "read_one (live_provider dims) env w c second a = Inr (w1, more)" "server_ok dims w1" "more \<Longrightarrow> conns w1 c \<noteq> None" by blast
  show ?case
  proof (cases more)
    case True
    with Cons.prems(3) r(1) have "benign_reads (live_provider dims) w1 c second as" by (simp add: p)
    from Cons.IH [OF r(2,3) this] True r(1) show ?thesis by (simp add: p)
  next
    case False
    with r show ?thesis by (simp add: p)
  qed
qed

section \<open>Writing\<close>

lemma conn_write_same: "conn_write C ws = (C', out, gone) \<Longrightarrow> same_conn C C'"
proof -
  have "conn_write C ws = (C', out, gone) \<Longrightarrow>
      C' = C\<lparr>send_buf_r := send_buf_r C', write_enabled := write_enabled C'\<rparr>" for C out
  proof (induction ws arbitrary: C out)
    case Nil
    then show ?case by (cases "send_buf_r C = send_buf_w C") (auto simp: conn_write_stop split: if_splits)
  next
    case (Cons a ws)
    show ?case
    proof (cases "send_buf_r C = send_buf_w C \<or> a = EAgain \<or> a = WError")
      case True
      with Cons.prems show ?thesis
        by (cases "send_buf_r C = send_buf_w C") (auto simp: conn_write_stop split: if_splits)
    next
      case False
      then obtain n where ne: "send_buf_r C \<noteq> send_buf_w C" and a: "a = Wrote n" by (cases a) auto
      define ret where "ret = min (contiguous C) (max 1 n)"
      define C1 where "C1 = C\<lparr>send_buf_r := (if send_buf_r C + ret = length (send_buf C) then 0 else send_buf_r C + ret)\<rparr>"
      obtain C2 o2 d2 where r: "conn_write C1 ws = (C2, o2, d2)" by (cases "conn_write C1 ws") auto
      with conn_write_step [OF ne ret_def C1_def r] Cons.prems a have "C' = C2" "gone = d2" by simp_all
      with Cons.IH [of C1 o2] r show ?thesis by (cases C) (simp add: C1_def)
    qed
  qed
  note eq = this
  assume r: "conn_write C ws = (C', out, gone)"
  from eq [OF r] have "send_buf C' = send_buf C" "send_buf_w C' = send_buf_w C"
    "C' = C\<lparr>send_buf := send_buf C', send_buf_r := send_buf_r C', send_buf_w := send_buf_w C', write_enabled := write_enabled C'\<rparr>"
    by (cases C; cases C'; simp)+
  moreover have "wf_ring C \<Longrightarrow> wf_ring C'" using conn_write_spec [OF _ r] by blast
  ultimately show ?thesis unfolding same_conn_def by simp
qed

lemma server_write_ok:
  assumes ok: "server_ok dims w" and C: "conns w c = Some C"
  shows "\<exists>w' out. server_write (live_provider dims) w c ws = Inr (w', out) \<and> server_ok dims w'"
proof -
  obtain C1 out gone where r: "conn_write C ws = (C1, out, gone)" by (cases "conn_write C ws") auto
  have ok1: "server_ok dims (upd_conn c C1 w)" by (rule server_same [OF ok C conn_write_same [OF r]])
  show ?thesis
  proof (cases gone)
    case True
    with drop_conn_ok [OF ok1, of c C1] C r show ?thesis by (auto simp: server_write_def)
  next
    case False
    with ok1 C r show ?thesis by (auto simp: server_write_def)
  qed
qed

section \<open>Events\<close>

text \<open>
  A client connects; input is read from the descriptor of a connection, or from the second one of
  a tunnel; the kernel takes output; the timer for the reports of an endpoint fires; something comes in on a
  UDP socket of an endpoint, or the socket fails; a picture arrives for \<open>http.c\<close>, or a frame for
  \<open>live.c\<close>. The control socket only reads the list of sessions, see \<open>Control\<close>.
\<close>

inductive server_step :: "(nat \<Rightarrow> int \<times> int) \<Rightarrow> world \<Rightarrow> world \<Rightarrow> bool" for dims where
  Accept: "server_step dims w (do_accept w fd)"
| Input: "conns w c \<noteq> None \<Longrightarrow> benign_reads (live_provider dims) w c second as \<Longrightarrow>
    do_read (live_provider dims) w c second as = Inr w' \<Longrightarrow> server_step dims w w'"
| Output: "conns w c \<noteq> None \<Longrightarrow> server_write (live_provider dims) w c ws = Inr (w', out) \<Longrightarrow> server_step dims w w'"
| Timer: "endpoints w e = Some E \<Longrightarrow> rtcp_enabled E \<Longrightarrow> rtcp_fire env w e = Inr w' \<Longrightarrow> server_step dims w w'"
| Rtp_In: "endpoints w e = Some E \<Longrightarrow> ep_trans E = Udp x y \<Longrightarrow> udp_rtp_event w e now got = Inr w' \<Longrightarrow> server_step dims w w'"
| Rtcp_In: "endpoints w e = Some E \<Longrightarrow> ep_trans E = Udp x y \<Longrightarrow> udp_rtcp_event w e now thr got = Inr w' \<Longrightarrow> server_step dims w w'"
| Picture: "jpeg_frame d \<Longrightarrow> jpeg_next_frame w l d = Inr w' \<Longrightarrow> server_step dims w w'"
| Frame: "used w t \<Longrightarrow> next_live_frame env w t d ts key = Inr w' \<Longrightarrow> server_step dims w w'"

inductive_cases server_stepE: "server_step dims w w'"

lemma server_step_ok:
  assumes "server_step dims w w'" "server_ok dims w"
  shows "server_ok dims w'"
  using assms(1)
proof cases
  case (Input c second as)
  with do_read_ok [OF assms(2) Input(1,2)] show ?thesis by simp
next
  case (Output c ws out)
  then obtain C where "conns w c = Some C" by blast
  from server_write_ok [OF assms(2) this, of ws] Output(2) show ?thesis by simp
next
  case (Timer e E env)
  with rtcp_fire_ok [OF assms(2) Timer(1), of env] show ?thesis by simp
next
  case (Rtp_In e E x y now got)
  with udp_rtp_event_ok [OF assms(2) Rtp_In(1), of now got] show ?thesis by simp
next
  case (Rtcp_In e E x y now thr got)
  with udp_rtcp_event_ok [OF assms(2) Rtcp_In(1), of now thr got] show ?thesis by simp
next
  case (Picture d l)
  with jpeg_next_frame_ok [OF assms(2) Picture(1), of l] show ?thesis by simp
next
  case (Frame t env d ts key)
  with next_live_frame_inv [OF _ assms(2)] show ?thesis by blast
qed (simp add: do_accept_ok [OF assms(2)])

lemma server_reach_ok: "(server_step dims)\<^sup>*\<^sup>* w w' \<Longrightarrow> server_ok dims w \<Longrightarrow> server_ok dims w'"
  by (induction rule: rtranclp_induct) (auto intro: server_step_ok)

text \<open>In a well-formed state the handler of every event that the code is meant to handle returns.\<close>

lemma events_handled:
  assumes ok: "server_ok dims w"
  shows "(\<forall>c second as. conns w c \<noteq> None \<and> benign_reads (live_provider dims) w c second as \<longrightarrow>
       (\<exists>w'. do_read (live_provider dims) w c second as = Inr w')) \<and>
    (\<forall>c ws. conns w c \<noteq> None \<longrightarrow> (\<exists>w' out. server_write (live_provider dims) w c ws = Inr (w', out))) \<and>
    (\<forall>l d. jpeg_frame d \<longrightarrow> (\<exists>w'. jpeg_next_frame w l d = Inr w')) \<and>
    (\<forall>e. endpoints w e \<noteq> None \<longrightarrow>
       (\<forall>env. \<exists>w'. rtcp_fire env w e = Inr w') \<and>
       (\<forall>now got. \<exists>w'. udp_rtp_event w e now got = Inr w') \<and>
       (\<forall>now thr got. \<exists>w'. udp_rtcp_event w e now thr got = Inr w'))"
proof -
  have "\<exists>w'. do_read (live_provider dims) w c second as = Inr w'"
    if "conns w c \<noteq> None \<and> benign_reads (live_provider dims) w c second as" for c second as
    using do_read_ok [OF ok, of c second as] that by blast
  moreover have "\<exists>w' out. server_write (live_provider dims) w c ws = Inr (w', out)" if "conns w c \<noteq> None" for c ws
    using server_write_ok [OF ok, of c _ ws] that by blast
  moreover have "\<exists>w'. jpeg_next_frame w l d = Inr w'" if "jpeg_frame d" for l d using jpeg_next_frame_ok [OF ok that, of l] by blast
  moreover have "(\<forall>env. \<exists>w'. rtcp_fire env w e = Inr w') \<and> (\<forall>now got. \<exists>w'. udp_rtp_event w e now got = Inr w') \<and>
      (\<forall>now thr got. \<exists>w'. udp_rtcp_event w e now thr got = Inr w')" if e: "endpoints w e \<noteq> None" for e
  proof -
    from e obtain E where E: "endpoints w e = Some E" by blast
    show ?thesis using rtcp_fire_ok [OF ok E] udp_rtp_event_ok [OF ok E] udp_rtcp_event_ok [OF ok E] by meson
  qed
  ultimately show ?thesis by blast
qed

text \<open>
  C1. The server over its events in any order: connections, inputs that the code survives, output, timers and
  UDP input of endpoints, JPEG pictures for locations, and frames of sources whose handler returns. The
  state stays well-formed (no list of connections, sessions, endpoints, channels or streams holds a
  dangling pointer, pointers in both directions agree, every buffer index is in range), and in every
  reachable state the handler of the next such input, of any output, timer or UDP input, and of any
  picture returns without a memory error. An input is survived (\<open>survivable\<close>) when the message has at
  most 33 lines, is a request with a URI of less than 256 characters, and is not one of: an RTSP request
  ANNOUNCE, one with an empty Transport header, a PLAY without start position for a session that has
  sent packets, an HTTP request on a connection that already streams or is a tunnel, or interleaved
  data on a connection without channels. What the others do is in \<open>Server_Attacks\<close> and
  \<open>Rtsp_Live\<close>. A frame of a source may fault, as when a packet is sent after the endpoint has ended its own
  session; only the turns that return are steps.
\<close>

theorem server_run_safe:
  assumes "server_ok dims w0" "(server_step dims)\<^sup>*\<^sup>* w0 w"
  shows "server_ok dims w \<and>
    (\<forall>c second as. conns w c \<noteq> None \<and> benign_reads (live_provider dims) w c second as \<longrightarrow>
       (\<exists>w'. do_read (live_provider dims) w c second as = Inr w')) \<and>
    (\<forall>c ws. conns w c \<noteq> None \<longrightarrow> (\<exists>w' out. server_write (live_provider dims) w c ws = Inr (w', out))) \<and>
    (\<forall>l d. jpeg_frame d \<longrightarrow> (\<exists>w'. jpeg_next_frame w l d = Inr w')) \<and>
    (\<forall>e. endpoints w e \<noteq> None \<longrightarrow>
       (\<forall>env. \<exists>w'. rtcp_fire env w e = Inr w') \<and>
       (\<forall>now got. \<exists>w'. udp_rtp_event w e now got = Inr w') \<and>
       (\<forall>now thr got. \<exists>w'. udp_rtcp_event w e now thr got = Inr w'))"
  using server_reach_ok [OF assms(2,1)] events_handled [OF server_reach_ok [OF assms(2,1)]] by blast

text \<open>A track that has begun waits for somebody.\<close>

lemma waiting_track_played:
  assumes "world_ok w" "used w t" "lt_ready (tracks w t)" "waiting (streams_of w) (lt_dest (tracks w t))"
  shows "\<exists>s S i. sessions w s = Some S \<and> s_playing S \<and> i < MAX_TRACKS \<and> s_eps S ! i \<noteq> None \<and>
    le_tracks (entries w (s_entry S)) ! i = Some t"
proof -
  have "idle_ok w t" "entries_ok w" using assms(1,2) by (simp_all add: world_ok_def links_ok_def)
  with assms(3,4) obtain p where p: "p \<in> set (track_listeners w t)" "watches w p" by (auto simp: idle_ok_def watched_def)
  from listeners_live [OF \<open>entries_ok w\<close>, of "fst p" "snd p" t] p(1) obtain S where
    S: "sessions w (snd p) = Some S" "fst p < MAX_TRACKS" "le_tracks (entries w (s_entry S)) ! fst p = Some t" by auto
  with p(2) show ?thesis by (auto simp: watches_def)
qed

text \<open>
  C10. In every reachable state whose graph has finitely many filters, a source runs exactly when one of the
  ends of the graph that it feeds, directly or through filters, waits for frames; and when such an end
  is the destination of a track that has begun (its first frame has come), it waits for somebody: a
  playing session has an endpoint for the track. So a source runs for the tracks it feeds on demand only;
  other ends are the locations of \<open>http.c\<close>, and tracks that still wait for their first frame.
\<close>

theorem sources_run_on_demand:
  assumes "server_ok dims w0" "(server_step dims)\<^sup>*\<^sup>* w0 w"
    and "finite {y. \<exists>d. st_set_running (streams (streams_of w) y) = Up d}" "st_set_running (streams (streams_of w) x) = Source"
  shows "(running (streams_of w) x \<longleftrightarrow>
       (\<exists>e. feeds (streams_of w) x e \<and> waiting (streams_of w) e \<and> end_dest (streams_of w) e)) \<and>
    (\<forall>t. used w t \<and> lt_ready (tracks w t) \<and> waiting (streams_of w) (lt_dest (tracks w t)) \<longrightarrow>
       (\<exists>s S i. sessions w s = Some S \<and> s_playing S \<and> i < MAX_TRACKS \<and> s_eps S ! i \<noteq> None \<and>
          le_tracks (entries w (s_entry S)) ! i = Some t))"
proof -
  have ok: "world_ok w" using server_reach_ok [OF assms(2,1)] by (simp add: server_ok_def)
  then obtain rank where g: "wf_graph rank (streams_of w)" "\<forall>s. stream_ok (streams_of w) s"
    by (auto simp: world_ok_def graph_ok_def)
  show ?thesis using source_runs_iff [OF g assms(3,4)] waiting_track_played [OF ok] by blast
qed

text \<open>
  C25. A JPEG picture (\<open>jpeg_frame\<close>: the bytes FF D8 FF and at least eight more) of a location reaches every client that streams it and has room: the whole part, with its
  header, is queued behind what the client is still to get, with the event for output enabled. A
  client whose buffer has no room for the whole part gets nothing of it, and no other connection is
  touched. The location keeps the picture for the clients to come, and the state stays well-formed.
\<close>

theorem jpeg_frame_delivered:
  assumes "server_ok dims w" "jpeg_frame d"
  shows "\<exists>w'. jpeg_next_frame w l d = Inr w' \<and> server_ok dims w' \<and> hl_frame (http_locs w' l) = Some d \<and>
    (\<forall>c C. conns w c = Some C \<longrightarrow> (\<exists>C'. conns w' c = Some C' \<and>
       (if streams_to w (hl_sess (http_locs w l)) c \<and> part_fits C (jfif_length d)
        then pending C' = pending C @ bytes_of (part_header (jfif_length d)) @ wire_picture d (jfif_length d) \<and> write_enabled C'
        else C' = C)))"
proof -
  from jpeg_next_frame_ok [OF assms, of l] obtain w' where w': "jpeg_next_frame w l d = Inr w'" "server_ok dims w'"
    "hl_frame (http_locs w' l) = Some d"
    "\<And>c. conns w' c = (if streams_to w (hl_sess (http_locs w l)) c
       then map_option (\<lambda>C. send_multipart_frame C d (jfif_length d)) (conns w c) else conns w c)" by blast
  note pic = jpeg_frame_picture [OF assms(2)]
  have "\<exists>C'. conns w' c = Some C' \<and>
       (if streams_to w (hl_sess (http_locs w l)) c \<and> part_fits C (jfif_length d)
        then pending C' = pending C @ bytes_of (part_header (jfif_length d)) @ wire_picture d (jfif_length d) \<and> write_enabled C'
        else C' = C)" if C: "conns w c = Some C" for c C
  proof -
    have "wf_ring C" using server_conn_wf [OF assms(1) C] by (simp add: wf_conn_def)
    from send_multipart_spec [OF this pic] w'(4) [of c] C show ?thesis by (auto split: if_splits)
  qed
  with w'(1-3) show ?thesis by blast
qed

section \<open>Examples\<close>

theorem server_run_safe_witness:
  "\<forall>env. server_ok (\<lambda>_. (0, 0)) (do_accept demo_streaming 7) \<and>
     (\<exists>w'. do_read (live_provider (\<lambda>_. (0, 0))) (do_accept demo_streaming 7) 8 False [(env, RClosed)] = Inr w') \<and>
     (\<exists>w'. jpeg_next_frame (do_accept demo_streaming 7) 0 demo_picture = Inr w')"
proof
  fix env
  have reach: "(server_step (\<lambda>_. (0, 0)))\<^sup>*\<^sup>* demo_streaming (do_accept demo_streaming 7)"
    by (rule r_into_rtranclp) (rule server_step.Accept)
  have "conns (do_accept demo_streaming 7) 8 \<noteq> None"
    by (simp add: do_accept_def Let_def demo_streaming_fields demo_client_fields)
  moreover have "benign_reads (live_provider (\<lambda>_. (0, 0))) (do_accept demo_streaming 7) 8 False [(env, RClosed)]"
    by (auto simp: benign_read_def next_input_def split: option.splits sum.splits bool.splits)
  ultimately show "server_ok (\<lambda>_. (0, 0)) (do_accept demo_streaming 7) \<and>
     (\<exists>w'. do_read (live_provider (\<lambda>_. (0, 0))) (do_accept demo_streaming 7) 8 False [(env, RClosed)] = Inr w') \<and>
     (\<exists>w'. jpeg_next_frame (do_accept demo_streaming 7) 0 demo_picture = Inr w')"
    using server_run_safe [OF demo_streaming_ok reach] demo_picture_frame(1) by blast
qed

text \<open>A camera that runs for a session, after another client has connected.\<close>

theorem sources_run_on_demand_witness:
  "\<exists>w. server_ok (\<lambda>_. (0, 0)) w \<and> st_set_running (streams (streams_of (do_accept w 9)) 0) = Source \<and>
     running (streams_of (do_accept w 9)) 0 \<and>
     (\<exists>e. feeds (streams_of (do_accept w 9)) 0 e \<and> waiting (streams_of (do_accept w 9)) e \<and> end_dest (streams_of (do_accept w 9)) e) \<and>
     (\<exists>s S i. sessions (do_accept w 9) s = Some S \<and> s_playing S \<and> i < MAX_TRACKS \<and> s_eps S ! i \<noteq> None \<and>
        le_tracks (entries (do_accept w 9) (s_entry S)) ! i = Some 0)"
proof -
  obtain w where w: "server_ok (\<lambda>_. (0, 0)) w" "used w 0" "lt_ready (tracks w 0)" "waiting (streams_of w) (lt_dest (tracks w 0))"
    "streams (streams_of w) = streams demo_graph" "running (streams_of w) 0"
    by (rule demo_playing)
  let ?w = "do_accept w 9"
  have eq: "streams_of ?w = streams_of w" "tracks ?w = tracks w" "entries ?w = entries w"
    by (simp_all add: do_accept_def Let_def)
  have reach: "(server_step (\<lambda>_. (0, 0)))\<^sup>*\<^sup>* w ?w" by (rule r_into_rtranclp) (rule server_step.Accept)
  have "{y. \<exists>d. st_set_running (streams (streams_of ?w) y) = Up d} = {1}"
    by (auto simp: eq w(5) demo_graph_def split: if_splits)
  then have fin: "finite {y. \<exists>d. st_set_running (streams (streams_of ?w) y) = Up d}" by simp
  have src: "st_set_running (streams (streams_of ?w) 0) = Source" by (simp add: eq w(5) demo_graph_def)
  have "used ?w 0" "lt_ready (tracks ?w 0)" "waiting (streams_of ?w) (lt_dest (tracks ?w 0))" "running (streams_of ?w) 0"
    using w(2-4,6) by (simp_all add: eq used_def)
  with sources_run_on_demand [OF w(1) reach fin src] src w(1) show ?thesis by blast
qed

theorem jpeg_frame_delivered_witness:
  "\<exists>w' C'. jpeg_next_frame demo_streaming 0 demo_picture = Inr w' \<and> conns w' 8 = Some C' \<and>
     pending C' = bytes_of (part_header 29) @ wire_picture demo_picture 29 \<and> write_enabled C'"
proof -
  let ?C = "(new_conn 9 REQ_BUF SEND_BUF)\<lparr>c_proto := CONN_PROTO_HTTP\<rparr>"
  have st: "streams_to demo_streaming (hl_sess (http_locs demo_streaming 0)) 8"
    by (simp add: streams_to_def demo_streaming_fields)
  have C: "conns demo_streaming 8 = Some ?C" using demo_streaming_fields(1) demo_client_fields(1) by simp
  have p: "pending ?C = []" by (simp add: pending_def new_conn_def)
  have "length (part_header 29) = 60" by code_simp
  then have "part_fits ?C 29" by (simp add: part_fits_def avail_send_buf_def new_conn_def SEND_BUF_def)
  with jpeg_frame_delivered [OF demo_streaming_ok demo_picture_frame(1), of 0] st C p show ?thesis
    unfolding demo_picture_frame(2) by fastforce
qed

end
