(* ===== verification/Server_Attacks.thy ===== *)
theory Server_Attacks
  imports Server_Run
begin

text \<open>
  The tunnel of QuickTime does what it should, and what a client can do to the server: requests
  that crash it or reach into the connection of somebody else.
\<close>

section \<open>Tunnels\<close>

lemma tunnel_post_eval:
  assumes "conns w c = Some C" "get_header m ''x-sessioncookie'' = Some t" "length t < COOKIE"
    and "find_cookie w t = Some g" "conns w g = Some G" "g \<noteq> c"
  shows "handle_QT_tunnel w c m True =
    Inr (upd_conn c (C\<lparr>c_fd := -1\<rparr>) (upd_conn g (G\<lparr>c_second_fd := c_fd C, c_second_read := True\<rparr>) w), True)"
  using assms by (simp add: handle_QT_tunnel_def Let_def)

lemma drop_plain:
  assumes "conns w c = Some C" "proto_state w c = No_State"
  shows "drop_conn P w c = Inr (free_conn w c)"
  using assms by (simp add: drop_conn_def)

text \<open>
  C27. The POST of a tunnel: its descriptor becomes the second one of the connection whose GET had
  the cookie, the connection of the POST is freed without closing the descriptor, and the
  GET connection is otherwise unchanged.
\<close>

theorem tunnel_joins:
  assumes "server_ok dims w" "conns w c = Some C" "proto_state w c = No_State"
    and "get_header m ''x-sessioncookie'' = Some t" "length t < COOKIE" "find_cookie w t = Some g" "g \<noteq> c"
  shows "\<exists>w1 w2 G. handle_QT_tunnel w c m True = Inr (w1, True) \<and> map_option c_fd (conns w1 c) = Some (-1) \<and>
    drop_conn (live_provider dims) w1 c = Inr w2 \<and> server_ok dims w2 \<and> conns w2 c = None \<and>
    conns w g = Some G \<and> c_cookie G = t \<and> conns w2 g = Some (G\<lparr>c_second_fd := c_fd C, c_second_read := True\<rparr>)"
proof -
  obtain G where G: "conns w g = Some G" "c_cookie G = t" using find_cookie_conn [OF assms(6)] by metis
  let ?w0 = "upd_conn g (G\<lparr>c_second_fd := c_fd C, c_second_read := True\<rparr>) w"
  let ?w1 = "upd_conn c (C\<lparr>c_fd := -1\<rparr>) ?w0"
  have "wf_conn G" "wf_conn C" using server_conn_wf [OF assms(1)] G(1) assms(2) by blast+
  then have ok0: "server_ok dims ?w0" by (intro server_conn [OF assms(1) G(1)]) (simp_all add: wf_conn_def wf_ring_def)
  have ok1: "server_ok dims ?w1"
    by (rule server_conn [OF ok0]) (use \<open>wf_conn C\<close> assms(2,7) in \<open>simp_all add: wf_conn_def wf_ring_def\<close>)
  have d: "drop_conn (live_provider dims) ?w1 c = Inr (free_conn ?w1 c)" using assms(3) by (intro drop_plain) simp_all
  have "server_ok dims (free_conn ?w1 c)" using assms(3) by (intro free_conn_ok [OF ok1]) simp
  then show ?thesis
    using tunnel_post_eval [OF assms(2,4,5,6) G(1) assms(7)] d G assms(7)
    by (intro exI [of _ ?w1] exI [of _ "free_conn ?w1 c"] exI [of _ G]) (simp add: free_conn_def)
qed

text \<open>
  C40. A connection that has not opened a tunnel has an empty cookie, and so a POST with an empty
  cookie makes its sender the second source of input of the newest connection, whoever that
  belongs to.
\<close>

theorem empty_cookie_joins_stranger:
  assumes "conns w c = Some C" "get_header m ''x-sessioncookie'' = Some []"
    and "conn_list w = g # gs" "g \<noteq> c" "conns w g = Some G" "c_cookie G = []"
  shows "\<exists>w1. handle_QT_tunnel w c m True = Inr (w1, True) \<and>
    conns w1 g = Some (G\<lparr>c_second_fd := c_fd C, c_second_read := True\<rparr>)"
proof -
  have "find_cookie w [] = Some g" using assms(3,5,6) by (simp add: find_cookie_def)
  from tunnel_post_eval [OF assms(1,2) _ this assms(5,4)] show ?thesis using assms(4) by (simp add: COOKIE_def)
qed

text \<open>
  A connection that streams pictures and then opens a tunnel keeps its picture session, but the
  session is taken for a table of channels when the connection ends.
\<close>

lemma tunnel_after_stream_crashes:
  assumes "conns w c = Some C" "proto_state w c = Http_State h"
    and "get_header m ''x-sessioncookie'' = Some t" "length t < COOKIE"
  shows "\<exists>w1. handle_QT_tunnel w c m False = Inr (w1, False) \<and> drop_conn (live_provider dims) w1 c = Inl Fault"
proof -
  let ?C = "(send_text (C\<lparr>c_cookie := t\<rparr>) tunnel_opened)\<lparr>c_proto := CONN_PROTO_RTSP, c_base64_count := 0\<rparr>"
  let ?w = "upd_conn c ?C w"
  have "[0..<MAX_INTERLEAVE_CHANNELS] = 0 # [1..<MAX_INTERLEAVE_CHANNELS]"
    by (simp add: MAX_INTERLEAVE_CHANNELS_def upt_conv_Cons)
  then have "rtsp_conn_disconnect (live_provider dims) ?w c = Inl Fault"
    using assms(2) by (simp add: rtsp_conn_disconnect_def channels_def)
  then have "drop_conn (live_provider dims) ?w c = Inl Fault" using assms(2) by (simp add: drop_conn_def)
  moreover have "handle_QT_tunnel w c m False = Inr (?w, False)" using assms by (simp add: handle_QT_tunnel_def)
  ultimately show ?thesis by blast
qed

section \<open>Pictures\<close>

lemma send_to_streams_dangling:
  assumes "h \<in> set hs" "http_sess w h = Some H" "conns w (hs_conn H) = None"
  shows "send_to_streams w l hs = Inl Fault"
  using assms
proof (induction hs arbitrary: w)
  case (Cons k hs)
  show ?case
  proof (cases "\<exists>K C d. http_sess w k = Some K \<and> conns w (hs_conn K) = Some C \<and> hl_frame (http_locs w l) = Some d")
    case False
    then show ?thesis
      by (cases "http_sess w k") (auto simp: deref_def bindE_def split: option.splits)
  next
    case True
    then obtain K C d where K: "http_sess w k = Some K" "conns w (hs_conn K) = Some C" "hl_frame (http_locs w l) = Some d" by blast
    have "h \<noteq> k" using Cons.prems(2,3) K by auto
    moreover have "hs_conn K \<noteq> hs_conn H" using Cons.prems(3) K(2) by auto
    ultimately show ?thesis using Cons K by simp
  qed
qed simp

lemma http_GET_stream:
  assumes "conns w c = Some C" "find_http_location w uri = Inr (Some l)" "length uri \<le> length (cstr (hl_path (http_locs w l)) 0)"
    and "hl_streaming (http_locs w l)" "hl_frame (http_locs w l) = Some d" "length d + 400 \<le> avail_send_buf C"
  obtains C1 where "http_handle_GET w c uri = Inr (upd_conn c C1 (add_http_stream_session w l c))" "c_proto C1 = c_proto C"
proof -
  obtain r where r: "http_create_reply 200 ''OK'' = Inr r" "reply_ok r" by (rule http_create_reply_ok [of "''OK''" 200]) simp_all
  let ?r = "fst (add_header (fst (add_header (fst (add_header (fst (add_header r ''Expires'' ''0'')) ''Pragma'' ''no-cache''))
    ''Cache-Control'' ''no-cache'')) ''Content-Type'' (''multipart/x-mixed-replace;boundary='' @ [QUOTE] @ ''boundary'' @ [QUOTE]))"
  have "reply_ok ?r" by (intro add_header_reply r(2)) simp_all
  then obtain C1 sent where s: "tcp_send_pmsg C ?r (-1) = Inr (C1, sent)" "same_conn C C1" using tcp_send_reply [of ?r "-1" C] by auto
  let ?C = "send_multipart_frame C1 d (hl_jfif (http_locs w l))"
  have "sent_to C ?C" by (rule sent_to_trans [OF sent_to_step [OF sent_to_refl s(2)] send_multipart_sent])
  note p = sent_to_fields(1) [OF this]
  have "http_handle_GET w c uri = Inr (upd_conn c ?C (add_http_stream_session w l c))"
    using assms r(1) s(1) by (simp add: http_handle_GET_def Let_def add_http_stream_session_def)
  from that [OF this p] show thesis .
qed

text \<open>
  A connection that streams a location already and asks for a stream again gets a second
  session but remembers only that one. When it ends, the first stays in the list of its location, and
  the next picture there is sent through a connection that has been freed.
\<close>

lemma second_stream_dangles:
  assumes "server_ok dims w" "conns w c = Some C" "proto_state w c = Http_State h" "http_sess w h = Some H"
    and "find_http_location w uri = Inr (Some l)" "length uri \<le> length (cstr (hl_path (http_locs w l)) 0)"
    and "hl_streaming (http_locs w l)" "hl_frame (http_locs w l) = Some d0" "length d0 + 400 \<le> avail_send_buf C"
    and "jpeg_frame d"
  shows "\<exists>w1 w2. http_handle_GET w c uri = Inr w1 \<and> drop_conn (live_provider dims) w1 c = Inr w2 \<and>
    jpeg_next_frame w2 (hs_loc H) d = Inl Fault"
proof -
  let ?k = "http_fresh w" and ?wa = "add_http_stream_session w l c"
  have links: "http_links w" using assms(1) by (simp add: server_ok_def http_ok_def)
  from http_linksD [OF links assms(3)] assms(2,4) have c: "c_proto C = CONN_PROTO_HTTP" by (auto simp: is_http_def)
  have c2: "hs_conn H = c" using links assms(3,4) unfolding http_links_def by (metis option.inject)
  have h: "h < ?k" "h \<in> set (hl_sess (http_locs w (hs_loc H)))" using links assms(4) unfolding http_links_def by blast+
  obtain C1 where get: "http_handle_GET w c uri = Inr (upd_conn c C1 ?wa)" "c_proto C1 = c_proto C"
    using http_GET_stream [OF assms(2,5-9)] .
  let ?w1 = "upd_conn c C1 ?wa"
  let ?w2 = "free_conn (?w1\<lparr>http_locs := (http_locs ?w1)(l := (http_locs ?w1 l)\<lparr>hl_sess := hl_sess (http_locs w l)\<rparr>),
      http_sess := (http_sess ?w1)(?k := None), proto_state := (proto_state ?w1)(c := No_State)\<rparr>) c"
  have drop: "drop_conn (live_provider dims) ?w1 c = Inr ?w2"
    using c c2 get(2) by (simp add: drop_conn_def http_conn_disconnect_def add_http_stream_session_def Let_def)
  have k: "http_sess ?w2 h = Some H" "conns ?w2 (hs_conn H) = None" "h \<in> set (hl_sess (http_locs ?w2 (hs_loc H)))"
    using h assms(4) c2 by (simp_all add: free_conn_def add_http_stream_session_def Let_def)
  obtain b where b: "no_jfif d = Inr b" using jpeg_frame_tests(2) [OF assms(10)] by blast
  let ?L = "(http_locs ?w2 (hs_loc H))\<lparr>hl_frame := Some d, hl_jfif := if b then length d + 18 else length d\<rparr>"
  have "send_to_streams (?w2\<lparr>http_locs := (http_locs ?w2)(hs_loc H := ?L)\<rparr>) (hs_loc H) (hl_sess (http_locs ?w2 (hs_loc H))) = Inl Fault"
    by (rule send_to_streams_dangling [of h _ _ H]) (use k in simp_all)
  then have "jpeg_next_frame ?w2 (hs_loc H) d = Inl Fault"
    using jpeg_frame_tests(1) [OF assms(10)] b by (simp add: jpeg_next_frame_def Let_def)
  with get(1) drop show ?thesis by blast
qed

section \<open>Examples\<close>

text \<open>A request with one header.\<close>

definition header_request :: "string \<Rightarrow> string \<Rightarrow> pmsg" where
  "header_request name val =
     \<lparr>pm_msg = name @ NUL # val @ [NUL], pm_len = 0, pm_fields = [(0, Suc (length name))], pm_type = PMSG_REQ,
      pm_proto = 0, pm_method = 0, pm_uri = 0, pm_code = 0, pm_reason = 0\<rparr>"

lemma header_request:
  assumes "NUL \<notin> set name" "NUL \<notin> set val"
  shows "get_header (header_request name val) name = Some val"
proof -
  have "cstr (name @ NUL # val @ [NUL]) 0 = name" using cstr_append_nul [OF assms(1), of "[]" "val @ [NUL]"] by simp
  moreover have "cstr (name @ NUL # val @ [NUL]) (Suc (length name)) = val"
    using cstr_append_nul [OF assms(2), of "name @ [NUL]" "[]"] by simp
  ultimately show ?thesis by (simp add: header_request_def get_header_def str_ieq_refl)
qed

lemma demo_cookie: "get_header (header_request ''x-sessioncookie'' ''abc'') ''x-sessioncookie'' = Some ''abc''"
  "get_header (header_request ''x-sessioncookie'' []) ''x-sessioncookie'' = Some []"
  by (rule header_request; simp)+

text \<open>The client of connection 1 has opened a tunnel.\<close>

definition demo_tunnel :: world where
  "demo_tunnel = upd_conn 1 ((new_conn 4 REQ_BUF SEND_BUF)\<lparr>c_proto := CONN_PROTO_RTSP, c_cookie := ''abc''\<rparr>) demo_client"

lemma demo_tunnel_ok: "server_ok (\<lambda>_. (0, 0)) demo_tunnel"
proof -
  have "wf_conn ((new_conn 4 REQ_BUF SEND_BUF)\<lparr>c_proto := CONN_PROTO_RTSP, c_cookie := ''abc''\<rparr>)"
    by (simp add: wf_conn_def wf_ring_def new_conn_def REQ_BUF_def SEND_BUF_def COOKIE_def)
  then show ?thesis unfolding demo_tunnel_def by (intro server_conn [OF demo_client_ok demo_client_fields(7)]) simp_all
qed

theorem tunnel_joins_witness:
  "\<exists>w1 w2. handle_QT_tunnel demo_tunnel 8 (header_request ''x-sessioncookie'' ''abc'') True = Inr (w1, True) \<and>
     drop_conn (live_provider (\<lambda>_. (0, 0))) w1 8 = Inr w2 \<and> conns w2 8 = None \<and> map_option c_second_fd (conns w2 1) = Some 9"
proof -
  have 8: "conns demo_tunnel 8 = Some ((new_conn 9 REQ_BUF SEND_BUF)\<lparr>c_proto := CONN_PROTO_HTTP\<rparr>)" "proto_state demo_tunnel 8 = No_State"
    by (simp_all add: demo_tunnel_def demo_client_fields)
  have "find_cookie demo_tunnel ''abc'' = Some 1"
    by (simp add: find_cookie_def demo_tunnel_def demo_client_fields) (simp add: new_conn_def)
  from tunnel_joins [OF demo_tunnel_ok 8 demo_cookie(1) _ this] show ?thesis by (fastforce simp: COOKIE_def new_conn_def)
qed

theorem empty_cookie_joins_stranger_witness:
  "\<exists>w1. handle_QT_tunnel demo_client 1 (header_request ''x-sessioncookie'' []) True = Inr (w1, True) \<and>
     map_option c_second_fd (conns w1 8) = Some 4"
proof -
  have "c_cookie ((new_conn 9 REQ_BUF SEND_BUF)\<lparr>c_proto := CONN_PROTO_HTTP\<rparr>) = []" by (simp add: new_conn_def)
  from empty_cookie_joins_stranger [OF demo_client_fields(7) demo_cookie(2) demo_client_fields(3) _ demo_client_fields(1) this]
  show ?thesis by (fastforce simp: new_conn_def)
qed

theorem tunnel_after_stream_crashes_witness:
  "\<exists>w1. handle_QT_tunnel demo_streaming 8 (header_request ''x-sessioncookie'' ''abc'') False = Inr (w1, False) \<and>
     drop_conn (live_provider (\<lambda>_. (0, 0))) w1 8 = Inl Fault"
proof -
  have "conns demo_streaming 8 = Some ((new_conn 9 REQ_BUF SEND_BUF)\<lparr>c_proto := CONN_PROTO_HTTP\<rparr>)"
    by (simp add: demo_streaming_fields demo_client_fields)
  from tunnel_after_stream_crashes [OF this demo_streaming_fields(2) demo_cookie(1)] show ?thesis by (simp add: COOKIE_def)
qed

theorem second_stream_dangles_witness:
  "\<exists>w1 w2. http_handle_GET demo_streaming 8 ''/cam'' = Inr w1 \<and> drop_conn (live_provider (\<lambda>_. (0, 0))) w1 8 = Inr w2 \<and>
     jpeg_next_frame w2 0 demo_picture = Inl Fault"
proof -
  have C: "conns demo_streaming 8 = Some ((new_conn 9 REQ_BUF SEND_BUF)\<lparr>c_proto := CONN_PROTO_HTTP\<rparr>)"
    by (simp add: demo_streaming_fields demo_client_fields)
  have path: "cstr (''/cam'' @ replicate 252 NUL) 0 = ''/cam''" by code_simp
  have "http_matches ''/cam'' 4 (''/cam'' @ replicate 252 NUL) = Inr True" by code_simp
  then have "find_http_location demo_streaming ''/cam'' = Inr (Some 0)"
    by (simp add: find_http_location_def demo_streaming_fields numeral_eq_Suc)
  moreover have "length demo_picture + 400 \<le> avail_send_buf ((new_conn 9 REQ_BUF SEND_BUF)\<lparr>c_proto := CONN_PROTO_HTTP\<rparr>)"
    by (simp add: avail_send_buf_def new_conn_def SEND_BUF_def demo_picture_def)
  ultimately show ?thesis
    using second_stream_dangles [OF demo_streaming_ok C demo_streaming_fields(2,3) _ _ _ _ _ demo_picture_frame(1), of "''/cam''" 0 demo_picture]
    by (simp add: demo_streaming_fields path [simplified])
qed

end
