(* ===== verification/Sound_Conv.thy ===== *)
theory Sound_Conv
  imports Prelude
begin

text \<open>
  \<open>sound_conv.c\<close>: the A-law and mu-law codecs of G.711, between 16-bit samples and octets, and
  the loops over a block of samples. \<open>short\<close> is little-endian, as on the targets of the program.
\<close>

section \<open>Single samples\<close>

definition val_seg :: "int \<Rightarrow> nat" where
  "val_seg val =
     (let val = drop_bit 7 val; r = 0;
          (val, r) = (if val AND 0xf0 \<noteq> 0 then (drop_bit 4 val, r + 4) else (val, r));
          (val, r) = (if val AND 0x0c \<noteq> 0 then (drop_bit 2 val, r + 2) else (val, r))
      in if val AND 0x02 \<noteq> 0 then r + 1 else r)"

definition s16_to_alaw :: "int \<Rightarrow> byte" where
  "s16_to_alaw pcm =
     (let (mask, pcm) = (if 0 \<le> pcm then (0xD5, pcm) else (0x55, if 0x7fff < - pcm then 0x7fff else - pcm));
          aval = (if pcm < 256 then drop_bit 4 pcm
                  else let seg = val_seg pcm in push_bit 4 (int seg) OR (drop_bit (seg + 3) pcm AND 0x0f))
      in word_of_int aval XOR mask)"

definition alaw_to_s16 :: "byte \<Rightarrow> int" where
  "alaw_to_s16 a =
     (let a = a XOR 0x55; t = uint (a AND 0x7f);
          t = (if t < 16 then push_bit 4 t + 8
               else let seg = nat (drop_bit 4 t AND 0x07) in push_bit (seg - 1) (push_bit 4 (t AND 0x0f) + 0x108))
      in if a AND 0x80 \<noteq> 0 then t else - t)"

definition s16_to_ulaw :: "int \<Rightarrow> byte" where
  "s16_to_ulaw pcm =
     (let (pcm, mask) = (if pcm < 0 then (0x84 - pcm, 0x7f) else (pcm + 0x84, 0xff));
          pcm = (if 0x7fff < pcm then 0x7fff else pcm);
          seg = val_seg pcm
      in word_of_int (push_bit 4 (int seg) OR (drop_bit (seg + 3) pcm AND 0x0f)) XOR mask)"

definition ulaw_to_s16 :: "byte \<Rightarrow> int" where
  "ulaw_to_s16 u =
     (let u = NOT u;
          t = push_bit 3 (uint (u AND 0x0f)) + 0x84;
          t = push_bit (unat (drop_bit 4 (u AND 0x70))) t
      in if u AND 0x80 \<noteq> 0 then 0x84 - t else t - 0x84)"

section \<open>Blocks\<close>

text \<open>A \<open>signed short\<close> of two octets, and back.\<close>

definition s16_of :: "byte \<Rightarrow> byte \<Rightarrow> int" where
  "s16_of lo hi = sint (word_cat hi lo :: 16 word)"

definition s16_bytes :: "int \<Rightarrow> byte list" where
  "s16_bytes v = (let w = (word_of_int v :: 16 word) in [ucast w, ucast (drop_bit 8 w)])"

text \<open>
  The loops: \<open>n\<close> rounds from round \<open>i\<close> on, from one buffer into another; every access is
  checked. \<open>f\<close> is what is done to a sample.
\<close>

fun dec_loop :: "(byte \<Rightarrow> int) \<Rightarrow> byte list \<Rightarrow> byte list \<Rightarrow> nat \<Rightarrow> nat \<Rightarrow> byte list cres" where
  "dec_loop f src dst i 0 = Inr dst"
| "dec_loop f src dst i (Suc n) =
     bindE (rd src i) (\<lambda>a.
     bindE (wr dst (2 * i) (s16_bytes (f a) ! 0)) (\<lambda>dst.
     bindE (wr dst (2 * i + 1) (s16_bytes (f a) ! 1)) (\<lambda>dst. dec_loop f src dst (i + 1) n)))"

fun enc_loop :: "(byte \<Rightarrow> byte \<Rightarrow> byte) \<Rightarrow> byte list \<Rightarrow> byte list \<Rightarrow> nat \<Rightarrow> nat \<Rightarrow> byte list cres" where
  "enc_loop f src dst i 0 = Inr dst"
| "enc_loop f src dst i (Suc n) =
     bindE (rd src (2 * i)) (\<lambda>a. bindE (rd src (2 * i + 1)) (\<lambda>b.
     bindE (wr dst i (f a b)) (\<lambda>dst. enc_loop f src dst (i + 1) n)))"

definition mulaw_dec :: "byte list \<Rightarrow> byte list \<Rightarrow> byte list cres" where
  "mulaw_dec src dst = dec_loop ulaw_to_s16 src dst 0 160"

definition mulaw_enc :: "byte list \<Rightarrow> byte list \<Rightarrow> nat \<Rightarrow> byte list cres" where
  "mulaw_enc src dst pcm_size = enc_loop (\<lambda>a b. s16_to_ulaw (s16_of a b)) src dst 0 (pcm_size div 2)"

definition alaw_dec :: "byte list \<Rightarrow> byte list \<Rightarrow> nat \<Rightarrow> byte list cres" where
  "alaw_dec src dst limit = dec_loop alaw_to_s16 src dst 0 limit"

text \<open>The encoder for A-law takes samples in network order, unlike the others.\<close>

definition alaw_enc :: "byte list \<Rightarrow> byte list \<Rightarrow> nat \<Rightarrow> byte list cres" where
  "alaw_enc src dst pcm_size = enc_loop (\<lambda>a b. s16_to_alaw (s16_of b a)) src dst 0 (pcm_size div 2)"

section \<open>Codes\<close>

lemma codes_all: "(\<forall>a :: byte. P a) \<longleftrightarrow> list_all (\<lambda>n. P (word_of_nat n)) [0..<256]"
proof
  assume "list_all (\<lambda>n. P (word_of_nat n)) [0..<256]"
  then have P: "P (word_of_nat n)" if "n < 256" for n using that by (simp add: list_all_iff)
  show "\<forall>a. P a"
  proof
    fix a :: byte
    have "unat a < 256" using unsigned_less [of a] by simp
    from P [OF this] show "P a" by simp
  qed
qed (simp add: list_all_iff)

lemma alaw_code: "s16_to_alaw (alaw_to_s16 a) = a"
proof -
  have "list_all (\<lambda>n. s16_to_alaw (alaw_to_s16 (word_of_nat n)) = word_of_nat n) [0..<256]" by code_simp
  then show ?thesis using codes_all [of "\<lambda>a. s16_to_alaw (alaw_to_s16 a) = a"] by blast
qed

text \<open>Mu-law has two codes of zero.\<close>

lemma ulaw_code: "s16_to_ulaw (ulaw_to_s16 u) = (if u = 0x7f then 0xff else u)"
proof -
  have "list_all (\<lambda>n. s16_to_ulaw (ulaw_to_s16 (word_of_nat n)) = (if (word_of_nat n :: byte) = 0x7f then 0xff else word_of_nat n)) [0..<256]"
    by code_simp
  then show ?thesis using codes_all [of "\<lambda>u. s16_to_ulaw (ulaw_to_s16 u) = (if u = 0x7f then 0xff else u)"] by blast
qed

section \<open>Quantisation\<close>

lemma val_seg_bounds:
  assumes "128 \<le> x" "x < 32768"
  shows "2 ^ (val_seg x + 7) \<le> x" "x < 2 ^ (val_seg x + 8)" "val_seg x \<le> 7"
proof -
  have "list_all (\<lambda>v. 2 ^ val_seg (int v * 128) \<le> v \<and> v < 2 ^ (val_seg (int v * 128) + 1)) [1..<256]" by code_simp
  moreover obtain v where v: "x div 128 = int v" "1 \<le> v" "v < 256"
  proof -
    have "0 \<le> x div 128" using assms(1) by simp
    then obtain v where "x div 128 = int v" using zero_le_imp_eq_int by metis
    moreover have "1 \<le> x div 128" "x div 128 < 256" using assms by simp_all
    ultimately show thesis using that [of v] by simp
  qed
  ultimately have c: "2 ^ val_seg (int v * 128) \<le> v" "v < 2 ^ (val_seg (int v * 128) + 1)" unfolding list_all_iff by auto
  have "val_seg (x div 128 * 128) = val_seg x" by (simp add: val_seg_def drop_bit_eq_div)
  then have e: "val_seg (int v * 128) = val_seg x" by (simp add: v(1))
  have "int (2 ^ val_seg x) \<le> int v" "int v < int (2 ^ (val_seg x + 1))" using c unfolding e by (simp_all only: of_nat_le_iff of_nat_less_iff)
  then have b: "2 ^ val_seg x \<le> x div 128" "x div 128 < 2 ^ (val_seg x + 1)" unfolding v(1) by simp_all
  note m = div_mult_mod_eq [of x 128] pos_mod_bound [of 128 x, OF zero_less_numeral] pos_mod_sign [of 128 x, OF zero_less_numeral]
  have "x div 128 * 128 \<le> x" using m by linarith
  moreover have "x < (x div 128 + 1) * 128" using m by (simp add: algebra_simps)
  moreover note b
  ultimately show "2 ^ (val_seg x + 7) \<le> x" "x < 2 ^ (val_seg x + 8)" by (simp_all add: power_add)
  show "val_seg x \<le> 7"
  proof (rule ccontr)
    assume "\<not> val_seg x \<le> 7"
    then have "(2 :: int) ^ 15 \<le> 2 ^ (val_seg x + 7)" by (intro power_increasing) simp_all
    with \<open>2 ^ (val_seg x + 7) \<le> x\<close> assms(2) show False by simp
  qed
qed

text \<open>The code without its mask: the segment and four bits of the sample.\<close>

lemma seg_code: "push_bit 4 (int s) OR (drop_bit k x AND 0x0f) = 16 * int s + (x div 2 ^ k) mod 16"
proof -
  have "drop_bit k x AND 0x0f = take_bit 4 (x div 2 ^ k)"
    by (simp add: take_bit_eq_mask drop_bit_eq_div mask_eq_exp_minus_1)
  then have "push_bit 4 (int s) OR (drop_bit k x AND 0x0f) = concat_bit 4 (x div 2 ^ k) (int s)"
    by (simp add: concat_bit_def or.commute)
  then show ?thesis by (simp add: concat_bit_eq push_bit_eq_mult take_bit_eq_mod)
qed

lemma segment:
  assumes "128 \<le> x" "x < 32768"
  defines "s \<equiv> val_seg x" and "q \<equiv> x div 2 ^ (val_seg x + 3)"
  shows "16 \<le> q" "q < 32" "32 * \<bar>(2 * q + 1) * 2 ^ (s + 2) - x\<bar> \<le> x"
proof -
  note b = val_seg_bounds [OF assms(1,2), folded s_def]
  have pos: "(0 :: int) < 2 ^ (s + 3)" by simp
  have x: "q * 2 ^ (s + 3) \<le> x" "x < q * 2 ^ (s + 3) + 2 ^ (s + 3)"
    using div_mult_mod_eq [of x "2 ^ (s + 3)"] pos_mod_bound [OF pos, of x] pos_mod_sign [OF pos, of x]
    unfolding q_def s_def by linarith+
  have p: "(2 :: int) ^ (s + 7) = 16 * 2 ^ (s + 3)" "(2 :: int) ^ (s + 8) = 32 * 2 ^ (s + 3)" "(2 :: int) ^ (s + 3) = 2 * 2 ^ (s + 2)"
    by (simp_all add: power_add)
  have "16 * 2 ^ (s + 3) div 2 ^ (s + 3) \<le> q" unfolding q_def s_def [symmetric] using b(1) p(1) by (intro zdiv_mono1) simp_all
  then show "16 \<le> q" by simp
  have "q * 2 ^ (s + 3) < 32 * 2 ^ (s + 3)" using x(1) b(2) p(2) by linarith
  then show "q < 32" by (simp only: mult_less_cancel_right) simp
  have "(2 * q + 1) * 2 ^ (s + 2) = q * 2 ^ (s + 3) + 2 ^ (s + 2)" by (simp add: p(3) algebra_simps)
  with x p b(1) show "32 * \<bar>(2 * q + 1) * 2 ^ (s + 2) - x\<bar> \<le> x" by (simp add: abs_le_iff abs_if)
qed

text \<open>What a code without its mask stands for, by segment and step.\<close>

definition level :: "nat \<Rightarrow> int" where
  "level c = (2 * (int (c mod 16) + 16) + 1) * 2 ^ (c div 16 + 2)"

lemma alaw_levels:
  assumes "c < 128"
  shows "alaw_to_s16 (word_of_nat c XOR 0xD5) = (if c < 16 then 16 * int c + 8 else level c)"
    "alaw_to_s16 (word_of_nat c XOR 0x55) = - (if c < 16 then 16 * int c + 8 else level c)"
proof -
  have "list_all (\<lambda>c. alaw_to_s16 (word_of_nat c XOR 0xD5) = (if c < 16 then 16 * int c + 8 else level c) \<and>
      alaw_to_s16 (word_of_nat c XOR 0x55) = - (if c < 16 then 16 * int c + 8 else level c)) [0..<128]" by code_simp
  with assms show "alaw_to_s16 (word_of_nat c XOR 0xD5) = (if c < 16 then 16 * int c + 8 else level c)"
    "alaw_to_s16 (word_of_nat c XOR 0x55) = - (if c < 16 then 16 * int c + 8 else level c)" by (simp_all add: list_all_iff)
qed

lemma ulaw_levels:
  assumes "c < 128"
  shows "ulaw_to_s16 (word_of_nat c XOR 0xff) = level c - 132" "ulaw_to_s16 (word_of_nat c XOR 0x7f) = 132 - level c"
proof -
  have "list_all (\<lambda>c. ulaw_to_s16 (word_of_nat c XOR 0xff) = level c - 132 \<and>
      ulaw_to_s16 (word_of_nat c XOR 0x7f) = 132 - level c) [0..<128]" by code_simp
  with assms show "ulaw_to_s16 (word_of_nat c XOR 0xff) = level c - 132" "ulaw_to_s16 (word_of_nat c XOR 0x7f) = 132 - level c"
    by (simp_all add: list_all_iff)
qed

lemma segment_level:
  assumes "128 \<le> x" "x < 32768"
  obtains c where "push_bit 4 (int (val_seg x)) OR (drop_bit (val_seg x + 3) x AND 0x0f) = int c" "c < 128"
    "32 * \<bar>level c - x\<bar> \<le> x" "256 \<le> x \<Longrightarrow> 16 \<le> c"
proof -
  define s where "s = val_seg x"
  define q where "q = x div 2 ^ (s + 3)"
  note g = segment [OF assms, folded s_def, folded q_def] and b = val_seg_bounds [OF assms, folded s_def]
  define l where "l = nat (q - 16)"
  have l: "q = int l + 16" "l < 16" using g(1,2) by (simp_all add: l_def)
  have "push_bit 4 (int s) OR (drop_bit (s + 3) x AND 0x0f) = 16 * int s + q mod 16" unfolding seg_code q_def ..
  also have "\<dots> = int (16 * s + l)" using l by simp
  finally have c: "push_bit 4 (int (val_seg x)) OR (drop_bit (val_seg x + 3) x AND 0x0f) = int (16 * s + l)" by (simp only: s_def)
  have d: "(16 * s + l) div 16 = s" "(16 * s + l) mod 16 = l" using l(2) by simp_all
  have "level (16 * s + l) = (2 * q + 1) * 2 ^ (s + 2)" unfolding level_def d l(1) ..
  with g(3) have e: "32 * \<bar>level (16 * s + l) - x\<bar> \<le> x" by simp
  have "16 \<le> 16 * s + l" if "256 \<le> x"
  proof -
    have "s \<noteq> 0" using b(2) that by (intro notI) simp
    then show ?thesis by simp
  qed
  moreover have "16 * s + l < 128" using b(3) l(2) by simp
  ultimately show thesis using that [OF c _ e] by blast
qed

lemma alaw_error:
  assumes "-32768 \<le> x" "x \<le> 32767"
  shows "32 * \<bar>alaw_to_s16 (s16_to_alaw x) - x\<bar> \<le> max 256 \<bar>x\<bar>"
proof -
  define y where "y = (if 0 \<le> x then x else if 0x7fff < - x then 0x7fff else - x)"
  have y: "0 \<le> y" "y < 32768" using assms by (auto simp: y_def)
  have clipped: "x = -32768 \<and> y = 32767" if "y \<noteq> \<bar>x\<bar>"
  proof -
    have "\<not> 0 \<le> x" "0x7fff < - x" using that by (auto simp: y_def split: if_splits)
    with assms show ?thesis by (simp add: y_def)
  qed
  define aval where "aval = (if y < 256 then drop_bit 4 y else push_bit 4 (int (val_seg y)) OR (drop_bit (val_seg y + 3) y AND 0x0f))"
  have enc: "s16_to_alaw x = word_of_int aval XOR (if 0 \<le> x then 0xD5 else 0x55)"
    by (simp add: s16_to_alaw_def y_def aval_def Let_def)
  obtain c where c: "aval = int c" "c < 128" "32 * \<bar>(if c < 16 then 16 * int c + 8 else level c) - y\<bar> \<le> max 256 y"
  proof (cases "y < 256")
    case True
    have "aval = int (nat (y div 16))" "nat (y div 16) < 16" using True y(1) by (simp_all add: aval_def drop_bit_eq_div)
    moreover have "32 * \<bar>16 * int (nat (y div 16)) + 8 - y\<bar> \<le> max 256 y" using True y(1) by (simp add: abs_if) linarith
    ultimately show thesis using that [of "nat (y div 16)"] by simp
  next
    case False
    then obtain c where "aval = int c" "c < 128" "32 * \<bar>level c - y\<bar> \<le> y" "16 \<le> c"
      using segment_level [of y] y(2) by (auto simp: aval_def)
    then show thesis using that [of c] by simp
  qed
  have dec: "alaw_to_s16 (s16_to_alaw x) = (if 0 \<le> x then 1 else -1) * (if c < 16 then 16 * int c + 8 else level c)"
    using alaw_levels [OF c(2)] by (simp add: enc c(1))
  show ?thesis
  proof (cases "y = \<bar>x\<bar>")
    case True
    with c(3) show ?thesis unfolding dec by (auto simp: abs_if split: if_splits)
  next
    case False
    with clipped have x: "x = -32768" "y = 32767" by simp_all
    have "alaw_to_s16 (s16_to_alaw (-32768)) = -32256" by code_simp
    then show ?thesis unfolding x(1) by simp
  qed
qed

lemma ulaw_error:
  assumes "-32768 \<le> x" "x \<le> 32767"
  shows "32 * \<bar>ulaw_to_s16 (s16_to_ulaw x) - x\<bar> \<le> \<bar>x\<bar> + 132"
proof -
  define y where "y = (if 0x7fff < \<bar>x\<bar> + 132 then 0x7fff else \<bar>x\<bar> + 132)"
  have y: "128 \<le> y" "y < 32768" by (auto simp: y_def)
  have enc: "s16_to_ulaw x = word_of_int (push_bit 4 (int (val_seg y)) OR (drop_bit (val_seg y + 3) y AND 0x0f)) XOR (if 0 \<le> x then 0xff else 0x7f)"
    by (cases "x < 0") (simp_all add: s16_to_ulaw_def y_def Let_def algebra_simps)
  obtain c where c: "push_bit 4 (int (val_seg y)) OR (drop_bit (val_seg y + 3) y AND 0x0f) = int c" "c < 128" "32 * \<bar>level c - y\<bar> \<le> y"
    using segment_level [OF y] by blast
  have dec: "ulaw_to_s16 (s16_to_ulaw x) = (if 0 \<le> x then 1 else -1) * (level c - 132)"
    using ulaw_levels [OF c(2)] by (simp add: enc c(1))
  show ?thesis
  proof (cases "0x7fff < \<bar>x\<bar> + 132")
    case True
    have "push_bit 4 (int (val_seg 0x7fff)) OR (drop_bit (val_seg 0x7fff + 3) 0x7fff AND 0x0f) = (127 :: int)" "level 127 = 32256" by code_simp+
    with c(1) True have "level c = 32256" by (simp add: y_def)
    with True assms show ?thesis unfolding dec by (auto simp: abs_if split: if_splits)
  next
    case False
    with c(3) show ?thesis unfolding dec y_def by (auto simp: abs_if split: if_splits)
  qed
qed

section \<open>Blocks of samples\<close>

lemma dec_loop_spec:
  assumes "i + n \<le> length src" "2 * (i + n) \<le> length dst"
  shows "dec_loop f src dst i n =
    Inr (take (2 * i) dst @ concat (map (\<lambda>a. s16_bytes (f a)) (take n (drop i src))) @ drop (2 * (i + n)) dst)"
  using assms
proof (induction n arbitrary: i dst)
  case (Suc n)
  let ?s = "s16_bytes (f (src ! i))"
  have s: "?s = [?s ! 0, ?s ! 1]" by (simp add: s16_bytes_def Let_def)
  let ?d = "dst[2 * i := ?s ! 0, 2 * i + 1 := ?s ! 1]"
  have "dec_loop f src dst i (Suc n) = dec_loop f src ?d (i + 1) n" using Suc.prems by simp
  also have "\<dots> = Inr (take (2 * (i + 1)) ?d @ concat (map (\<lambda>a. s16_bytes (f a)) (take n (drop (i + 1) src))) @ drop (2 * (i + 1 + n)) ?d)"
    using Suc.prems by (intro Suc.IH) simp_all
  also have "take (2 * (i + 1)) ?d = take (2 * i) dst @ [?s ! 0, ?s ! 1]"
    using Suc.prems by (simp add: take_Suc_conv_app_nth list_update_append)
  also note s [symmetric]
  also have "drop (2 * (i + 1 + n)) ?d = drop (2 * (i + Suc n)) dst" by simp
  also have "drop i src = src ! i # drop (i + 1) src" using Suc.prems by (simp add: Cons_nth_drop_Suc)
  ultimately show ?case using Suc.prems by (simp add: Cons_nth_drop_Suc [symmetric])
qed simp

lemma enc_loop_spec:
  assumes "2 * (i + n) \<le> length src" "i + n \<le> length dst"
  shows "enc_loop f src dst i n =
    Inr (take i dst @ map (\<lambda>k. f (src ! (2 * k)) (src ! (2 * k + 1))) [i..<i + n] @ drop (i + n) dst)"
  using assms
proof (induction n arbitrary: i dst)
  case (Suc n)
  let ?d = "dst[i := f (src ! (2 * i)) (src ! (2 * i + 1))]"
  have "enc_loop f src dst i (Suc n) = enc_loop f src ?d (i + 1) n" using Suc.prems by simp
  also have "\<dots> = Inr (take (i + 1) ?d @ map (\<lambda>k. f (src ! (2 * k)) (src ! (2 * k + 1))) [i + 1..<i + 1 + n] @ drop (i + 1 + n) ?d)"
    using Suc.prems by (intro Suc.IH) simp_all
  also have "[i..<i + Suc n] = i # [i + 1..<i + 1 + n]" by (subst upt_conv_Cons) simp_all
  ultimately show ?case using Suc.prems by (simp add: take_Suc_conv_app_nth)
qed simp

lemma s16_of_bytes:
  assumes "-32768 \<le> x" "x \<le> 32767"
  shows "s16_of (s16_bytes x ! 0) (s16_bytes x ! 1) = x"
proof -
  have "word_cat (ucast (drop_bit 8 w) :: byte) (ucast w :: byte) = w" for w :: u16
    by (rule bit_word_eqI) (auto simp: bit_word_cat_iff bit_ucast_iff bit_drop_bit_eq)
  then have "s16_of (s16_bytes x ! 0) (s16_bytes x ! 1) = sint (word_of_int x :: u16)"
    by (simp add: s16_of_def s16_bytes_def Let_def)
  also have "\<dots> = x" using assms by (simp add: signed_of_int signed_take_bit_int_eq_self)
  finally show ?thesis .
qed

text \<open>Two octets of every sample exchanged.\<close>

fun swap16 :: "byte list \<Rightarrow> byte list" where
  "swap16 (a # b # d) = b # a # swap16 d"
| "swap16 d = d"

lemma swap16_samples:
  "concat (map (\<lambda>a. [g a, h a]) xs) = d \<Longrightarrow> swap16 d = concat (map (\<lambda>a. [h a, g a]) xs)"
  by (induction xs arbitrary: d) auto

lemma nth_samples:
  assumes "k < length xs"
  shows "concat (map (\<lambda>a. [g a, h a]) xs) ! (2 * k) = g (xs ! k)" "concat (map (\<lambda>a. [g a, h a]) xs) ! (2 * k + 1) = h (xs ! k)"
  using assms by (induction xs arbitrary: k) (auto simp: nth_Cons' less_Suc_eq_0_disj split: nat.splits)

lemma length_samples: "length (concat (map (\<lambda>a. [g a, h a]) xs)) = 2 * length xs"
  by (induction xs) simp_all

lemma alaw_range: "-32768 \<le> alaw_to_s16 a" "alaw_to_s16 a \<le> 32767"
proof -
  have "list_all (\<lambda>n. -32768 \<le> alaw_to_s16 (word_of_nat n) \<and> alaw_to_s16 (word_of_nat n) \<le> 32767) [0..<256]" by code_simp
  then have "\<forall>a. -32768 \<le> alaw_to_s16 a \<and> alaw_to_s16 a \<le> 32767" by (subst codes_all)
  then show "-32768 \<le> alaw_to_s16 a" "alaw_to_s16 a \<le> 32767" by blast+
qed

text \<open>
  A block of A-law octets survives decoding and encoding unchanged, and neither loop leaves its
  buffers; since the decoder writes samples in the order of the machine and the encoder reads them
  in network order, the octets of each sample have to be exchanged in between.
\<close>

lemma alaw_block_roundtrip:
  assumes "n \<le> length src" "2 * n \<le> length pcm" "n \<le> length dst"
  shows "\<exists>out. alaw_dec src pcm n = Inr out \<and> length out = length pcm \<and>
    alaw_enc (swap16 (take (2 * n) out)) dst (2 * n) = Inr (take n src @ drop n dst)"
proof -
  let ?s = "\<lambda>a. s16_bytes (alaw_to_s16 a)"
  let ?lo = "\<lambda>a. ?s a ! 0" and ?hi = "\<lambda>a. ?s a ! 1"
  have s: "?s a = [?lo a, ?hi a]" for a by (simp add: s16_bytes_def Let_def)
  let ?x = "take n src" and ?out = "concat (map (\<lambda>a. [?lo a, ?hi a]) (take n src)) @ drop (2 * n) pcm"
  have x: "length ?x = n" using assms(1) by simp
  have dec: "alaw_dec src pcm n = Inr ?out"
    using dec_loop_spec [of 0 n src pcm alaw_to_s16] assms(1,2) s by (simp add: alaw_dec_def)
  have "length (concat (map (\<lambda>a. [?lo a, ?hi a]) ?x)) = 2 * n" by (simp only: length_samples x)
  then have "take (2 * n) ?out = concat (map (\<lambda>a. [?lo a, ?hi a]) ?x)" and len: "length ?out = length pcm" using assms(2) by simp_all
  then have swap: "swap16 (take (2 * n) ?out) = concat (map (\<lambda>a. [?hi a, ?lo a]) ?x)" (is "_ = ?net") by (simp only: swap16_samples)
  have "length ?net = 2 * n" by (simp only: length_samples x)
  then have "alaw_enc ?net dst (2 * n) = Inr (map (\<lambda>k. s16_to_alaw (s16_of (?net ! (2 * k + 1)) (?net ! (2 * k)))) [0..<n] @ drop n dst)"
    using enc_loop_spec [of 0 n ?net dst] assms(3) by (simp add: alaw_enc_def)
  moreover have "map (\<lambda>k. s16_to_alaw (s16_of (?net ! (2 * k + 1)) (?net ! (2 * k)))) [0..<n] = ?x"
  proof (rule nth_equalityI)
    fix k assume "k < length (map (\<lambda>k. s16_to_alaw (s16_of (?net ! (2 * k + 1)) (?net ! (2 * k)))) [0..<n])"
    then have k: "k < length ?x" using x by simp
    have "s16_to_alaw (s16_of (?net ! (2 * k + 1)) (?net ! (2 * k))) = ?x ! k"
      unfolding nth_samples [OF k] s16_of_bytes [OF alaw_range] alaw_code ..
    then show "map (\<lambda>k. s16_to_alaw (s16_of (?net ! (2 * k + 1)) (?net ! (2 * k)))) [0..<n] ! k = ?x ! k" using k x by simp
  qed (use x in simp)
  ultimately show ?thesis using dec len swap by (intro exI [of _ ?out]) simp
qed

text \<open>
  Both codecs keep a sample up to one part in 32 (and 8 in absolute terms near zero), samples
  that are clipped included.
\<close>

lemma companding_error:
  assumes "-32768 \<le> x" "x \<le> 32767"
  shows "32 * \<bar>alaw_to_s16 (s16_to_alaw x) - x\<bar> \<le> max 256 \<bar>x\<bar> \<and> 32 * \<bar>ulaw_to_s16 (s16_to_ulaw x) - x\<bar> \<le> \<bar>x\<bar> + 132"
  using alaw_error [OF assms] ulaw_error [OF assms] by blast

theorem alaw_block_roundtrip_witness:
  "\<exists>out. alaw_dec [1, 2, 3] [0, 0, 0, 0] 2 = Inr out \<and> alaw_enc (swap16 out) [9, 9, 9] 4 = Inr [1, 2, 9]"
  using alaw_block_roundtrip [of 2 "[1, 2, 3]" "[0, 0, 0, 0]" "[9, 9, 9]"] by auto

theorem companding_error_witness:
  "32 * \<bar>alaw_to_s16 (s16_to_alaw 1000) - 1000\<bar> \<le> 1000 \<and> 32 * \<bar>ulaw_to_s16 (s16_to_ulaw 1000) - 1000\<bar> \<le> 1132"
  using companding_error [of 1000] by simp

end
