(* ===== verification/Conversions.thy ===== *)
theory Conversions
  imports Prelude
begin

text \<open>
  \<open>conversions.c\<close>: conversions between the pixel formats of cameras. Every routine is a loop that
  reads a fixed number of octets and writes a fixed number of octets in each round, until the
  read position reaches a limit computed from the number of pixels.
\<close>

section \<open>The loop\<close>

function block_loop :: "nat \<Rightarrow> nat \<Rightarrow> (byte list \<Rightarrow> byte list) \<Rightarrow> byte list \<Rightarrow> byte list \<Rightarrow> nat \<Rightarrow> nat \<Rightarrow> nat \<Rightarrow> byte list cres" where
  "block_loop r m f src dst lim i j =
     (if lim \<le> i \<or> r = 0 then Inr dst
      else if length src < i + r \<or> length dst < j + m then Inl Fault
      else block_loop r m f src (blit dst j (f (take r (drop i src)))) lim (i + r) (j + m))"
  by auto
termination by (relation "measure (\<lambda>(r, m, f, src, dst, lim, i, j). lim - i)") auto

declare block_loop.simps [simp del]

section \<open>To YUY2\<close>

text \<open>\<open>swab\<close> exchanges the octets of each pair.\<close>

fun swab_block :: "byte list \<Rightarrow> byte list" where
  "swab_block [a, b] = [b, a]"
| "swab_block _ = []"

definition uyvy2yuy2 :: "byte list \<Rightarrow> byte list \<Rightarrow> nat \<Rightarrow> byte list cres" where
  "uyvy2yuy2 src dst n = block_loop 2 2 swab_block src dst (2 * n) 0 0"

definition yuv2yuy2 :: "byte list \<Rightarrow> byte list \<Rightarrow> nat \<Rightarrow> byte list cres" where
  "yuv2yuy2 src dst n = block_loop 2 2 swab_block src dst (2 * n) 0 0"

fun y41p_block :: "byte list \<Rightarrow> byte list" where
  "y41p_block [u0, y0, v0, y1, u4, y2, v4, y3, y4, y5, y6, y7] =
     [y0, u0, y1, v0, y2, u0, y3, v0, y4, u4, y5, v4, y6, u4, y7, v4]"
| "y41p_block _ = []"

definition y41p2yuyv :: "byte list \<Rightarrow> byte list \<Rightarrow> nat \<Rightarrow> byte list cres" where
  "y41p2yuyv src dst n = block_loop 12 16 y41p_block src dst (2 * n) 0 0"

fun iyu1_block :: "byte list \<Rightarrow> byte list" where
  "iyu1_block [u, y0, y1, v, y2, y3] = [y0, u, y1, v, y2, u, y3, v]"
| "iyu1_block _ = []"

definition iyu12yuy2 :: "byte list \<Rightarrow> byte list \<Rightarrow> nat \<Rightarrow> byte list cres" where
  "iyu12yuy2 src dst n = block_loop 6 8 iyu1_block src dst (n + n div 2) 0 0"

definition mean :: "byte \<Rightarrow> byte \<Rightarrow> byte" where
  "mean a b = word_of_nat ((unat a + unat b) div 2)"

fun iyu2_block :: "byte list \<Rightarrow> byte list" where
  "iyu2_block [u0, y0, v0, u1, y1, v1] = [y0, mean u0 u1, y1, mean v0 v1]"
| "iyu2_block _ = []"

definition iyu22yuy2 :: "byte list \<Rightarrow> byte list \<Rightarrow> nat \<Rightarrow> byte list cres" where
  "iyu22yuy2 src dst n = block_loop 6 4 iyu2_block src dst (n + 2 * n) 0 0"

fun y_block :: "byte list \<Rightarrow> byte list" where
  "y_block [y0, y1] = [y0, 128, y1, 128]"
| "y_block _ = []"

definition y2yuy2 :: "byte list \<Rightarrow> byte list \<Rightarrow> nat \<Rightarrow> byte list cres" where
  "y2yuy2 src dst n = block_loop 2 4 y_block src dst n 0 0"

section \<open>Colours\<close>

definition clamp :: "int \<Rightarrow> int" where
  "clamp x = (let x = (if x < 0 then 0 else x) in if 255 < x then 255 else x)"

definition YUV2RGB :: "int \<Rightarrow> int \<Rightarrow> int \<Rightarrow> byte list" where
  "YUV2RGB y u v =
     (let r = y + drop_bit 11 (push_bit 10 v + push_bit 8 v + push_bit 7 v + push_bit 4 v + push_bit 3 v + push_bit 1 v);
          g = y - drop_bit 11 (push_bit 8 u + push_bit 7 u + push_bit 4 u + push_bit 2 u + push_bit 1 u)
                - drop_bit 11 (push_bit 9 v + push_bit 6 v + push_bit 4 v + push_bit 1 v + v);
          b = y + drop_bit 11 (push_bit 11 u + push_bit 5 u - push_bit 1 u)
      in [word_of_int (clamp r), word_of_int (clamp g), word_of_int (clamp b)])"

definition RGB2YUV :: "int \<Rightarrow> int \<Rightarrow> int \<Rightarrow> int \<times> int \<times> int" where
  "RGB2YUV r g b =
     (clamp (drop_bit 15 (9798 * r + 19235 * g + 3736 * b)),
      clamp (drop_bit 15 (-4784 * r - 9437 * g + 14221 * b) + 128),
      clamp (drop_bit 15 (20218 * r - 16941 * g - 3277 * b) + 128))"

text \<open>A chroma octet without its offset.\<close>

definition chroma :: "byte \<Rightarrow> int" where "chroma b = uint b - 128"

section \<open>To and from RGB\<close>

fun rgb_block :: "byte list \<Rightarrow> byte list" where
  "rgb_block [r0, g0, b0, r1, g1, b1] =
     (let (y0, u0, v0) = RGB2YUV (uint r0) (uint g0) (uint b0); (y1, u1, v1) = RGB2YUV (uint r1) (uint g1) (uint b1)
      in map word_of_int [y0, drop_bit 1 (u0 + u1), y1, drop_bit 1 (v0 + v1)])"
| "rgb_block _ = []"

definition rgb2yuy2 :: "byte list \<Rightarrow> byte list \<Rightarrow> nat \<Rightarrow> byte list cres" where
  "rgb2yuy2 src dst n = block_loop 6 4 rgb_block src dst (n + 2 * n) 0 0"

fun uyvy_rgb :: "byte list \<Rightarrow> byte list" where
  "uyvy_rgb [u, y0, v, y1] = YUV2RGB (uint y0) (chroma u) (chroma v) @ YUV2RGB (uint y1) (chroma u) (chroma v)"
| "uyvy_rgb _ = []"

definition uyvy2rgb :: "byte list \<Rightarrow> byte list \<Rightarrow> nat \<Rightarrow> byte list cres" where
  "uyvy2rgb src dst n = block_loop 4 6 uyvy_rgb src dst (2 * n) 0 0"

fun yuy2_rgb :: "byte list \<Rightarrow> byte list" where
  "yuy2_rgb [y0, u, y1, v] = YUV2RGB (uint y0) (chroma u) (chroma v) @ YUV2RGB (uint y1) (chroma u) (chroma v)"
| "yuy2_rgb _ = []"

definition yuy22rgb :: "byte list \<Rightarrow> byte list \<Rightarrow> nat \<Rightarrow> byte list cres" where
  "yuy22rgb src dst n = block_loop 4 6 yuy2_rgb src dst (2 * n) 0 0"

fun iyu1_rgb :: "byte list \<Rightarrow> byte list" where
  "iyu1_rgb [u, y0, y1, v, y2, y3] = concat (map (\<lambda>y. YUV2RGB (uint y) (chroma u) (chroma v)) [y0, y1, y2, y3])"
| "iyu1_rgb _ = []"

definition iyu12rgb :: "byte list \<Rightarrow> byte list \<Rightarrow> nat \<Rightarrow> byte list cres" where
  "iyu12rgb src dst n = block_loop 6 12 iyu1_rgb src dst (n + n div 2) 0 0"

fun iyu2_rgb :: "byte list \<Rightarrow> byte list" where
  "iyu2_rgb [u0, y0, v0, u1, y1, v1] = YUV2RGB (uint y0) (chroma u0) (chroma v0) @ YUV2RGB (uint y1) (chroma u1) (chroma v1)"
| "iyu2_rgb _ = []"

definition iyu22rgb :: "byte list \<Rightarrow> byte list \<Rightarrow> nat \<Rightarrow> byte list cres" where
  "iyu22rgb src dst n = block_loop 6 6 iyu2_rgb src dst (n + 2 * n) 0 0"

fun y_rgb :: "byte list \<Rightarrow> byte list" where
  "y_rgb [y] = YUV2RGB (uint y) 0 0"
| "y_rgb _ = []"

definition y2rgb :: "byte list \<Rightarrow> byte list \<Rightarrow> nat \<Rightarrow> byte list cres" where
  "y2rgb src dst n = block_loop 1 3 y_rgb src dst n 0 0"

section \<open>What the loop computes\<close>

text \<open>\<open>n\<close> whole blocks of \<open>r\<close> octets.\<close>

fun blocks_of :: "nat \<Rightarrow> nat \<Rightarrow> 'a list \<Rightarrow> 'a list list" where
  "blocks_of r 0 d = []"
| "blocks_of r (Suc n) d = take r d # blocks_of r n (drop r d)"

definition conv :: "nat \<Rightarrow> ('a list \<Rightarrow> 'b list) \<Rightarrow> nat \<Rightarrow> 'a list \<Rightarrow> 'b list" where
  "conv r f n d = concat (map f (blocks_of r n d))"

lemma conv_simps [simp]: "conv r f 0 d = []" "conv r f (Suc n) d = f (take r d) @ conv r f n (drop r d)"
  by (simp_all add: conv_def)

lemma length_conv:
  "(\<And>x. length x = r \<Longrightarrow> length (f x) = m) \<Longrightarrow> r * n \<le> length d \<Longrightarrow> length (conv r f n d) = m * n"
  by (induction n arbitrary: d) simp_all

lemma conv_cong:
  "(\<And>x. length x = r \<Longrightarrow> f x = g x) \<Longrightarrow> r * n \<le> length d \<Longrightarrow> conv r f n d = conv r g n d"
  by (induction n arbitrary: d) simp_all

lemma conv_append: "r * n \<le> length d \<Longrightarrow> conv r f n (d @ e) = conv r f n d"
  by (induction n arbitrary: d) simp_all

lemma conv_add: "conv r f (a + b) d = conv r f a d @ conv r f b (drop (r * a) d)"
  by (induction a arbitrary: d) (simp_all add: algebra_simps)

lemma conv_take: "conv r f n (take (r * n) d) = conv r f n d"
  by (induction n arbitrary: d) (simp_all add: drop_take min_def)

text \<open>Blocks can be taken together, and two conversions can be composed block by block.\<close>

lemma conv_group: "conv r f (p * n) d = conv (r * p) (conv r f p) n d"
proof (induction n arbitrary: d)
  case (Suc n)
  have "conv r f (p * Suc n) d = conv r f p d @ conv r f (p * n) (drop (r * p) d)" by (simp add: conv_add)
  then show ?case by (simp add: Suc.IH conv_take)
qed simp

lemma conv_comp:
  assumes "\<And>x. length x = r \<Longrightarrow> length (f x) = m" "r * n \<le> length d"
  shows "conv m g n (conv r f n d @ e) = conv r (\<lambda>x. g (f x)) n d"
  using assms(2)
proof (induction n arbitrary: d)
  case (Suc n)
  then have "length (f (take r d)) = m" by (intro assms(1)) simp
  with Suc show ?case by simp
qed simp

lemma block_loop_spec:
  assumes "0 < r" "\<And>x. length x = r \<Longrightarrow> length (f x) = m"
    and "i + r * n \<le> length src" "j + m * n \<le> length dst"
  shows "block_loop r m f src dst (i + r * n) i j =
    Inr (take j dst @ conv r f n (drop i src) @ drop (j + m * n) dst)"
  using assms(3,4)
proof (induction n arbitrary: i j dst)
  case 0
  then show ?case by (subst block_loop.simps) simp
next
  case (Suc n)
  let ?x = "take r (drop i src)"
  have x: "length ?x = r" using Suc.prems(1) by simp
  let ?d = "blit dst j (f ?x)"
  have "block_loop r m f src dst (i + r * Suc n) i j = block_loop r m f src ?d (i + r + r * n) (i + r) (j + m)"
    using Suc.prems assms(1) by (subst block_loop.simps) (auto simp: algebra_simps)
  also have "\<dots> = Inr (take (j + m) ?d @ conv r f n (drop (i + r) src) @ drop (j + m + m * n) ?d)"
    using Suc.prems assms(2) [OF x] by (intro Suc.IH) (simp_all add: algebra_simps)
  finally show ?case
    using Suc.prems assms(2) [OF x] by (simp add: blit_def algebra_simps)
qed

lemma block_loop_overrun:
  assumes "0 < r" "i + r * n < lim" "length src < i + r * n + r \<or> length dst < j + m * n + m"
    and "\<And>x. length x = r \<Longrightarrow> length (f x) = m"
  shows "block_loop r m f src dst lim i j = Inl Fault"
  using assms(2,3)
proof (induction n arbitrary: i j dst)
  case 0
  then show ?case using assms(1) by (subst block_loop.simps) auto
next
  case (Suc n)
  show ?case
  proof (cases "length src < i + r \<or> length dst < j + m")
    case True
    then show ?thesis using Suc.prems assms(1) by (subst block_loop.simps) auto
  next
    case False
    have "block_loop r m f src (blit dst j (f (take r (drop i src)))) lim (i + r) (j + m) = Inl Fault"
      using Suc.prems False assms(4) by (intro Suc.IH) (auto simp: algebra_simps)
    then show ?thesis using Suc.prems assms(1) False by (subst block_loop.simps) auto
  qed
qed

lemma convert:
  assumes "0 < r" "\<And>x. length x = r \<Longrightarrow> length (f x) = m" "r * n \<le> length src" "m * n \<le> length dst"
  shows "block_loop r m f src dst (r * n) 0 0 = Inr (conv r f n src @ drop (m * n) dst)"
  using block_loop_spec [of r f m 0 n src 0 dst] assms by simp

lemma lists_of_length:
  "length x = 1 \<longleftrightarrow> (\<exists>a. x = [a])" "length x = 2 \<longleftrightarrow> (\<exists>a b. x = [a, b])" "length x = 4 \<longleftrightarrow> (\<exists>a b c d. x = [a, b, c, d])"
  "length x = 6 \<longleftrightarrow> (\<exists>a b c d e f. x = [a, b, c, d, e, f])"
  by (auto simp: numeral_eq_Suc length_Suc_conv)

lemma length_YUV2RGB [simp]: "length (YUV2RGB y u v) = 3"
  by (simp add: YUV2RGB_def Let_def)

lemma block_lengths:
  "length x = 2 \<Longrightarrow> length (swab_block x) = 2" "length x = 6 \<Longrightarrow> length (iyu1_block x) = 8" "length x = 2 \<Longrightarrow> length (y_block x) = 4"
  "length x = 4 \<Longrightarrow> length (uyvy_rgb x) = 6" "length x = 4 \<Longrightarrow> length (yuy2_rgb x) = 6" "length x = 6 \<Longrightarrow> length (iyu1_rgb x) = 12"
  "length x = 1 \<Longrightarrow> length (y_rgb x) = 3"
  by (auto dest!: iffD1 [OF lists_of_length(2)] iffD1 [OF lists_of_length(3)] iffD1 [OF lists_of_length(4)] simp: length_Suc_conv)

lemma conv_2: "length d = 2 * r \<Longrightarrow> conv r f 2 d = f (take r d) @ f (drop r d)"
  by (simp add: numeral_2_eq_2)

lemma block_paths:
  shows "length x = 4 \<Longrightarrow> yuy2_rgb (conv 2 swab_block 2 x) = uyvy_rgb x" "length x = 6 \<Longrightarrow> conv 4 yuy2_rgb 2 (iyu1_block x) = iyu1_rgb x"
    "length x = 2 \<Longrightarrow> yuy2_rgb (y_block x) = conv 1 y_rgb 2 x"
proof -
  show "yuy2_rgb (conv 2 swab_block 2 x) = uyvy_rgb x" if "length x = 4"
    using that by (simp add: conv_2) (auto simp: lists_of_length)
  show "conv 4 yuy2_rgb 2 (iyu1_block x) = iyu1_rgb x" if "length x = 6"
    using that by (simp add: conv_2 block_lengths) (auto simp: lists_of_length)
  have "chroma 128 = 0" by (simp add: chroma_def)
  then show "yuy2_rgb (y_block x) = conv 1 y_rgb 2 x" if "length x = 2"
    using that by (simp add: conv_2) (auto simp: lists_of_length)
qed

lemma via_uyvy:
  assumes "length src = 4 * n" "length yuy2 = 4 * n" "length rgb = 6 * n"
  shows "\<exists>mid out. uyvy2yuy2 src yuy2 (2 * n) = Inr mid \<and> yuy22rgb mid rgb (2 * n) = Inr out \<and> uyvy2rgb src rgb (2 * n) = Inr out"
proof -
  let ?mid = "conv 2 swab_block (2 * n) src"
  have len: "length ?mid = 4 * n" using length_conv [of 2 swab_block 2 "2 * n" src] assms(1) by (simp add: block_lengths)
  have "conv 4 yuy2_rgb n ?mid = conv 4 (\<lambda>x. yuy2_rgb (conv 2 swab_block 2 x)) n src"
    using conv_comp [of 4 "conv 2 swab_block 2" 4 n src yuy2_rgb "[]"] assms(1) length_conv [of 2 swab_block 2 2]
    by (simp add: conv_group block_lengths)
  also have "\<dots> = conv 4 uyvy_rgb n src" using assms(1) by (intro conv_cong block_paths) simp_all
  finally have eq: "conv 4 yuy2_rgb n ?mid = conv 4 uyvy_rgb n src" .
  have "uyvy2yuy2 src yuy2 (2 * n) = Inr ?mid"
    using convert [of 2 swab_block 2 "2 * n" src yuy2] assms by (simp add: uyvy2yuy2_def block_lengths)
  moreover have "yuy22rgb ?mid rgb (2 * n) = Inr (conv 4 yuy2_rgb n ?mid)"
    using convert [of 4 yuy2_rgb 6 n ?mid rgb] assms len by (simp add: yuy22rgb_def block_lengths)
  moreover have "uyvy2rgb src rgb (2 * n) = Inr (conv 4 uyvy_rgb n src)"
    using convert [of 4 uyvy_rgb 6 n src rgb] assms by (simp add: uyvy2rgb_def block_lengths)
  ultimately show ?thesis using eq by simp
qed

lemma via_iyu1:
  assumes "length src = 6 * n" "length yuy2 = 8 * n" "length rgb = 12 * n"
  shows "\<exists>mid out. iyu12yuy2 src yuy2 (4 * n) = Inr mid \<and> yuy22rgb mid rgb (4 * n) = Inr out \<and> iyu12rgb src rgb (4 * n) = Inr out"
proof -
  let ?mid = "conv 6 iyu1_block n src"
  have len: "length ?mid = 8 * n" using length_conv [of 6 iyu1_block 8 n src] assms(1) by (simp add: block_lengths)
  have "conv 4 yuy2_rgb (2 * n) ?mid = conv 8 (conv 4 yuy2_rgb 2) n ?mid" by (simp add: conv_group)
  also have "\<dots> = conv 6 (\<lambda>x. conv 4 yuy2_rgb 2 (iyu1_block x)) n src"
    using conv_comp [of 6 iyu1_block 8 n src _ "[]"] assms(1) by (simp add: block_lengths)
  also have "\<dots> = conv 6 iyu1_rgb n src" using assms(1) by (intro conv_cong block_paths) simp_all
  finally have eq: "conv 4 yuy2_rgb (2 * n) ?mid = conv 6 iyu1_rgb n src" .
  have lim: "4 * n + 4 * n div 2 = 6 * n" by simp
  have "iyu12yuy2 src yuy2 (4 * n) = Inr ?mid"
    using convert [of 6 iyu1_block 8 n src yuy2] assms by (simp add: iyu12yuy2_def block_lengths lim)
  moreover have "yuy22rgb ?mid rgb (4 * n) = Inr (conv 4 yuy2_rgb (2 * n) ?mid)"
    using convert [of 4 yuy2_rgb 6 "2 * n" ?mid rgb] assms len by (simp add: yuy22rgb_def block_lengths)
  moreover have "iyu12rgb src rgb (4 * n) = Inr (conv 6 iyu1_rgb n src)"
    using convert [of 6 iyu1_rgb 12 n src rgb] assms by (simp add: iyu12rgb_def block_lengths lim)
  ultimately show ?thesis using eq by simp
qed

lemma via_y:
  assumes "length src = 2 * n" "length yuy2 = 4 * n" "length rgb = 6 * n"
  shows "\<exists>mid out. y2yuy2 src yuy2 (2 * n) = Inr mid \<and> yuy22rgb mid rgb (2 * n) = Inr out \<and> y2rgb src rgb (2 * n) = Inr out"
proof -
  let ?mid = "conv 2 y_block n src"
  have len: "length ?mid = 4 * n" using length_conv [of 2 y_block 4 n src] assms(1) by (simp add: block_lengths)
  have "conv 4 yuy2_rgb n ?mid = conv 2 (\<lambda>x. yuy2_rgb (y_block x)) n src"
    using conv_comp [of 2 y_block 4 n src _ "[]"] assms(1) by (simp add: block_lengths)
  also have "\<dots> = conv 2 (conv 1 y_rgb 2) n src" using assms(1) by (intro conv_cong block_paths) simp_all
  also have "\<dots> = conv 1 y_rgb (2 * n) src" by (simp add: conv_group)
  finally have eq: "conv 4 yuy2_rgb n ?mid = conv 1 y_rgb (2 * n) src" .
  have "y2yuy2 src yuy2 (2 * n) = Inr ?mid"
    using convert [of 2 y_block 4 n src yuy2] assms by (simp add: y2yuy2_def block_lengths)
  moreover have "yuy22rgb ?mid rgb (2 * n) = Inr (conv 4 yuy2_rgb n ?mid)"
    using convert [of 4 yuy2_rgb 6 n ?mid rgb] assms len by (simp add: yuy22rgb_def block_lengths)
  moreover have "y2rgb src rgb (2 * n) = Inr (conv 1 y_rgb (2 * n) src)"
    using convert [of 1 y_rgb 3 "2 * n" src rgb] assms by (simp add: y2rgb_def block_lengths)
  ultimately show ?thesis using eq by simp
qed

text \<open>
  The conversions to RGB agree with each other: a picture of \<open>4 * n\<close> pixels in UYVY, IYU1 or Y format gives
  the same RGB picture when it is converted directly and when it is converted to YUY2 first;
  and with buffers of exactly the size of the picture no routine leaves them.
\<close>

lemma rgb_conversions_agree:
  assumes "length uyvy = 8 * n" "length iyu1 = 6 * n" "length y = 4 * n" "length yuy2 = 8 * n" "length rgb = 12 * n"
  shows "(\<exists>mid out. uyvy2yuy2 uyvy yuy2 (4 * n) = Inr mid \<and> yuy22rgb mid rgb (4 * n) = Inr out \<and> uyvy2rgb uyvy rgb (4 * n) = Inr out) \<and>
    (\<exists>mid out. iyu12yuy2 iyu1 yuy2 (4 * n) = Inr mid \<and> yuy22rgb mid rgb (4 * n) = Inr out \<and> iyu12rgb iyu1 rgb (4 * n) = Inr out) \<and>
    (\<exists>mid out. y2yuy2 y yuy2 (4 * n) = Inr mid \<and> yuy22rgb mid rgb (4 * n) = Inr out \<and> y2rgb y rgb (4 * n) = Inr out)"
  using via_uyvy [of uyvy "2 * n" yuy2 rgb] via_iyu1 [of iyu1 n yuy2 rgb] via_y [of y "2 * n" yuy2 rgb] assms by simp

text \<open>
  \<open>y41p2yuyv\<close> takes the number of pixels for the number of pairs of octets: for every picture it reads
  behind the end of the source, which has 12 octets for 8 pixels.
\<close>

lemma y41p_overruns:
  assumes "0 < n" "length src = 12 * n" "length dst = 16 * n"
  shows "y41p2yuyv src dst (8 * n) = Inl Fault"
  unfolding y41p2yuyv_def
  by (rule block_loop_overrun [where n = n]) (use assms in \<open>auto simp: numeral_eq_Suc length_Suc_conv\<close>)

theorem rgb_conversions_agree_witness:
  "\<exists>mid out. uyvy2yuy2 [1, 2, 3, 4, 5, 6, 7, 8] (replicate 8 0) 4 = Inr mid \<and> yuy22rgb mid (replicate 12 0) 4 = Inr out \<and>
     uyvy2rgb [1, 2, 3, 4, 5, 6, 7, 8] (replicate 12 0) 4 = Inr out"
  using rgb_conversions_agree [of "[1, 2, 3, 4, 5, 6, 7, 8]" 1 "replicate 6 0" "replicate 4 0" "replicate 8 0" "replicate 12 0"] by simp

theorem y41p_overruns_witness: "y41p2yuyv (replicate 12 0) (replicate 16 0) 8 = Inl Fault"
  using y41p_overruns [of 1 "replicate 12 0" "replicate 16 0"] by simp

end
