(* ===== verification/Conf_Scan.thy ===== *)
theory Conf_Scan
  imports Prelude
begin

text \<open>
  The scanner of configuration files, from the rules of \<open>conf_scan.l\<close> (\<open>conf_scan.c\<close> is generated
  from them): the longest match wins, and of two equally long ones the rule that comes first.
\<close>

section \<open>Tokens\<close>

datatype token = TOKEN_NUM int | TOKEN_STR string | Punct char

text \<open>The array \<open>str\<close> of a token.\<close>

definition TOKEN_LEN :: nat where "TOKEN_LEN = 256"

section \<open>Rules\<close>

datatype rule = R_oct | R_hex | R_dec | R_word | R_quoted | R_space | R_newline | R_comment | R_punct | R_other

definition is_letter :: "char \<Rightarrow> bool" where
  "is_letter c \<longleftrightarrow> (let n = (of_char c :: nat) in 65 \<le> n \<and> n \<le> 90 \<or> 97 \<le> n \<and> n \<le> 122)"

definition word_start :: "char \<Rightarrow> bool" where
  "word_start c \<longleftrightarrow> is_letter c \<or> c = CHR ''/''"

definition word_char :: "char \<Rightarrow> bool" where
  "word_char c \<longleftrightarrow> is_letter c \<or> is_digit c \<or> c \<in> set ''/_-+@:.%''"

definition is_hex :: "char \<Rightarrow> bool" where
  "is_hex c \<longleftrightarrow> is_digit c \<or> (let n = (of_char c :: nat) in 65 \<le> n \<and> n \<le> 70 \<or> 97 \<le> n \<and> n \<le> 102)"

definition is_blank :: "char \<Rightarrow> bool" where "is_blank c \<longleftrightarrow> c = SPC \<or> c = TAB"

text \<open>How many characters a rule matches, 0 if it does not apply; the text is not empty.\<close>

fun match_len :: "rule \<Rightarrow> string \<Rightarrow> nat" where
  "match_len R_oct (c # s) =
     (if c = CHR ''0'' \<and> s \<noteq> [] \<and> is_digit (hd s) then 1 + length (takeWhile is_digit s) else 0)"
| "match_len R_hex (c # s) =
     (if c = CHR ''0'' \<and> s \<noteq> [] \<and> hd s = CHR ''x'' \<and> tl s \<noteq> [] \<and> is_hex (hd (tl s))
      then 2 + length (takeWhile is_hex (tl s)) else 0)"
| "match_len R_dec (c # s) = length (takeWhile is_digit (c # s))"
| "match_len R_word (c # s) = (if word_start c then 1 + length (takeWhile word_char s) else 0)"
| "match_len R_quoted (c # s) =
     (let b = takeWhile (\<lambda>x. x \<noteq> QUOTE \<and> x \<noteq> LF) s; r = drop (length b) s
      in if c = QUOTE \<and> r \<noteq> [] \<and> hd r = QUOTE then length b + 2 else 0)"
| "match_len R_space (c # s) = length (takeWhile is_blank (c # s))"
| "match_len R_newline (c # s) = (if c = LF then 1 else 0)"
| "match_len R_comment (c # s) = (if c = CHR ''#'' then 1 + length (takeWhile (\<lambda>x. x \<noteq> LF) s) else 0)"
| "match_len R_punct (c # s) = (if c \<in> set '';{}'' then 1 else 0)"
| "match_len R_other (c # s) = (if c \<noteq> LF then 1 else 0)"
| "match_len _ [] = 0"

definition best_rule :: "string \<Rightarrow> rule" where
  "best_rule s = fold (\<lambda>r b. if match_len b s < match_len r s then r else b)
     [R_hex, R_dec, R_word, R_quoted, R_space, R_newline, R_comment, R_punct, R_other] R_oct"

section \<open>Actions\<close>

text \<open>\<open>strtol\<close> in base 8 or 16, for a text without sign.\<close>

definition hex_val :: "char \<Rightarrow> nat" where
  "hex_val c = (let n = of_char c in if is_digit c then n - 48 else if 97 \<le> n then n - 87 else n - 55)"

definition strtol_base :: "nat \<Rightarrow> string \<Rightarrow> int" where
  "strtol_base b s = foldl (\<lambda>v c. int b * v + int (hex_val c)) 0 (takeWhile (\<lambda>c. is_hex c \<and> hex_val c < b) s)"

text \<open>The results of \<open>yylex\<close>; a token that does not fit into its array is a fault.\<close>

datatype lexed = Token token string nat | End_Of_File nat | Stray nat | Overlong

definition string_token :: "string \<Rightarrow> string \<Rightarrow> nat \<Rightarrow> lexed" where
  "string_token s rest line = (if TOKEN_LEN \<le> length s then Overlong else Token (TOKEN_STR (cstr s 0)) rest line)"

text \<open>What a rule does with the text \<open>y\<close> it has matched, and the rules that only skip it.\<close>

fun act :: "rule \<Rightarrow> string \<Rightarrow> string \<Rightarrow> nat \<Rightarrow> lexed" where
  "act R_oct y rest line = Token (TOKEN_NUM (int_of_long (strtol_base 8 (tl y)))) rest line"
| "act R_hex y rest line = Token (TOKEN_NUM (int_of_long (strtol_base 16 (drop 2 y)))) rest line"
| "act R_dec y rest line = Token (TOKEN_NUM (int_of_long (digits_val 0 y))) rest line"
| "act R_word y rest line = string_token y rest line"
| "act R_quoted y rest line = string_token (butlast (tl y)) rest line"
| "act R_punct y rest line = Token (Punct (hd y)) rest line"
| "act _ y rest line = Stray line"

definition skips :: "rule \<Rightarrow> bool" where "skips r \<longleftrightarrow> r \<in> {R_space, R_newline, R_comment}"

definition matched :: "string \<Rightarrow> nat" where "matched s = match_len (best_rule s) s"

lemma best_rule_longest: "match_len r s \<le> matched s"
  by (cases r) (auto simp: best_rule_def matched_def)

lemma matched_pos: "s \<noteq> [] \<Longrightarrow> 0 < matched s"
proof -
  assume "s \<noteq> []"
  then obtain c t where s: "s = c # t" by (cases s) auto
  have "0 < match_len R_newline s \<or> 0 < match_len R_other s" by (simp add: s)
  then show ?thesis using best_rule_longest [of R_newline s] best_rule_longest [of R_other s] by linarith
qed

lemma drop_matched: "s \<noteq> [] \<Longrightarrow> length (drop (matched s) s) < length s"
  using matched_pos by simp

function yylex :: "string \<Rightarrow> nat \<Rightarrow> lexed" where
  "yylex s line =
     (if s = [] then End_Of_File line
      else let r = best_rule s; rest = drop (matched s) s
           in if skips r then yylex rest (if r = R_newline then line + 1 else line)
              else act r (take (matched s) s) rest line)"
  by auto
termination
  by (relation "measure (\<lambda>(s, line). length s)") (use drop_matched in auto)

declare yylex.simps [simp del]

lemma yylex_skip:
  "s \<noteq> [] \<Longrightarrow> skips (best_rule s) \<Longrightarrow>
     yylex s line = yylex (drop (matched s) s) (if best_rule s = R_newline then line + 1 else line)"
  by (subst yylex.simps) (simp add: Let_def)

lemma yylex_act: "s \<noteq> [] \<Longrightarrow> \<not> skips (best_rule s) \<Longrightarrow> yylex s line = act (best_rule s) (take (matched s) s) (drop (matched s) s) line"
  by (subst yylex.simps) (simp add: Let_def)

lemma act_rest: "act r y rest line = Token t rest' line' \<Longrightarrow> rest' = rest \<and> line' = line"
  by (cases r) (auto simp: string_token_def split: if_splits)

lemma yylex_shorter: "yylex s line = Token t rest line' \<Longrightarrow> length rest < length s"
proof (induction s line rule: yylex.induct)
  case (1 s line)
  show ?case
  proof (cases "s = []")
    case True
    with 1(2) show ?thesis by (simp add: yylex.simps)
  next
    case False
    note d = drop_matched [OF False]
    show ?thesis
    proof (cases "skips (best_rule s)")
      case True
      with 1(1) [OF False refl refl True] 1(2) yylex_skip [OF False True] d show ?thesis by simp
    next
      case skip: False
      with act_rest 1(2) yylex_act [OF False skip] d show ?thesis by metis
    qed
  qed
qed

text \<open>\<open>get_next_token\<close>: the token and the line it ends on; 0 at the end, -1 for a stray character.\<close>

definition get_next_token :: "string \<Rightarrow> nat \<Rightarrow> lexed" where "get_next_token s line = yylex s line"

section \<open>Printed tokens are read back\<close>

fun print_token :: "token \<Rightarrow> string" where
  "print_token (TOKEN_NUM n) = dec_nat (nat n)"
| "print_token (TOKEN_STR s) = QUOTE # s @ [QUOTE]"
| "print_token (Punct c) = [c]"

fun token_ok :: "token \<Rightarrow> bool" where
  "token_ok (TOKEN_NUM n) \<longleftrightarrow> 0 \<le> n \<and> n < 2 ^ 31"
| "token_ok (TOKEN_STR s) \<longleftrightarrow> QUOTE \<notin> set s \<and> LF \<notin> set s \<and> NUL \<notin> set s \<and> length s < TOKEN_LEN"
| "token_ok (Punct c) \<longleftrightarrow> c \<in> set '';{}''"

text \<open>The rule that is taken matches as much as any, and more than those that come before it.\<close>

abbreviation rules :: "rule list" where
  "rules \<equiv> [R_oct, R_hex, R_dec, R_word, R_quoted, R_space, R_newline, R_comment, R_punct, R_other]"

lemma best_ruleI:
  assumes "\<forall>r'\<in>set (takeWhile ((\<noteq>) r) rules). match_len r' s < match_len r s" "\<forall>r'\<in>set rules. match_len r' s \<le> match_len r s"
  shows "best_rule s = r" "matched s = match_len r s"
proof -
  show "best_rule s = r" using assms unfolding best_rule_def by (cases r) auto
  then show "matched s = match_len r s" by (simp add: matched_def)
qed

text \<open>All other rules at once.\<close>

lemma best_ruleI':
  assumes "match_len r s = n" "0 < n"
    and "\<And>r'. r' \<noteq> r \<Longrightarrow> r' \<noteq> R_other \<Longrightarrow> match_len r' s = 0" "match_len R_other s \<le> n" "r \<noteq> R_other"
  shows "best_rule s = r" "matched s = n"
proof -
  have "match_len r' s < match_len r s" if "r' \<in> set (takeWhile ((\<noteq>) r) rules)" for r'
  proof -
    have "r' \<noteq> r" using that by (auto dest: set_takeWhileD)
    moreover have "r' \<noteq> R_other" using that assms(5) by (cases r) (auto split: if_splits)
    ultimately show ?thesis using assms(1,2,3) by simp
  qed
  moreover have "match_len r' s \<le> match_len r s" for r'
    using assms by (cases "r' = r"; cases "r' = R_other") auto
  ultimately show "best_rule s = r" "matched s = n" using best_ruleI [of r s] assms(1) by simp_all
qed

lemma digit_classes:
  assumes "is_digit c"
  shows "\<not> word_start c" "\<not> is_blank c" "c \<noteq> QUOTE" "c \<noteq> LF" "c \<noteq> CHR ''#''" "c \<notin> set '';{}''" "c \<noteq> CHR ''x''"
  using assms by (auto simp: is_digit_def word_start_def is_letter_def is_blank_def Let_def)

lemma dec_nat_zero: "dec_nat n = CHR ''0'' # ds \<Longrightarrow> ds = []"
proof (induction n arbitrary: ds rule: dec_nat.induct)
  case (1 n)
  show ?case
  proof (cases "n < 10")
    case True
    with 1(2) show ?thesis by (simp add: dec_nat.simps [of n])
  next
    case False
    then have d: "dec_nat n = dec_nat (n div 10) @ [char_of (48 + n mod 10)]" by (subst dec_nat.simps) simp
    obtain c t where t: "dec_nat (n div 10) = c # t" by (cases "dec_nat (n div 10)") simp_all
    with 1(2) d have "c = CHR ''0''" by simp
    with 1(1) [OF False] t have "t = []" by simp
    with t \<open>c = CHR ''0''\<close> have "int (n div 10) = 0"
      using digits_val_dec_nat [of "n div 10"] by (simp add: is_digit_def digit_val_def)
    with False show ?thesis by simp
  qed
qed

lemma lex_number: "best_rule (dec_nat n @ SPC # r) = R_dec" "matched (dec_nat n @ SPC # r) = length (dec_nat n)"
proof -
  obtain c ds where d: "dec_nat n = c # ds" by (cases "dec_nat n") simp_all
  have dig: "is_digit c" "\<forall>x\<in>set ds. is_digit x" using dec_nat_digits [of n] d by simp_all
  note cl = digit_classes [OF dig(1)]
  have sp: "\<not> is_digit SPC" by (simp add: is_digit_def)
  have t: "takeWhile is_digit (dec_nat n @ SPC # r) = dec_nat n" using dec_nat_digits [of n] sp by (simp add: takeWhile_append2)
  have hd: "is_digit (hd (ds @ SPC # r)) \<Longrightarrow> ds \<noteq> []" using sp by (cases ds) auto
  have hx: "hd (ds @ SPC # r) \<noteq> CHR ''x''" using dig(2) digit_classes(7) by (cases ds) auto
  have z: "c = CHR ''0'' \<Longrightarrow> ds = []" using dec_nat_zero d by blast
  have len: "match_len R_dec (dec_nat n @ SPC # r) = length (dec_nat n)" using t by (simp add: d)
  have others: "match_len r' (dec_nat n @ SPC # r) = 0" if "r' \<noteq> R_dec" "r' \<noteq> R_other" for r'
    using that cl hx hd z sp by (cases r') (simp_all add: d Let_def)
  have other: "match_len R_other (dec_nat n @ SPC # r) \<le> length (dec_nat n)" "0 < length (dec_nat n)" by (simp_all add: d)
  show "best_rule (dec_nat n @ SPC # r) = R_dec" "matched (dec_nat n @ SPC # r) = length (dec_nat n)"
    by (rule best_ruleI' [OF len other(2) others other(1)]; simp)+
qed

lemma lex_quoted:
  assumes "QUOTE \<notin> set s" "LF \<notin> set s"
  shows "best_rule (QUOTE # s @ QUOTE # r) = R_quoted" "matched (QUOTE # s @ QUOTE # r) = length s + 2"
proof -
  let ?s = "QUOTE # s @ QUOTE # r"
  have "takeWhile (\<lambda>x. x \<noteq> QUOTE \<and> x \<noteq> LF) (s @ QUOTE # r) = s" using assms by (subst takeWhile_append2) auto
  then have len: "match_len R_quoted ?s = length s + 2" by (simp add: Let_def)
  have others: "match_len r' ?s = 0" if "r' \<noteq> R_quoted" "r' \<noteq> R_other" for r'
    using that by (cases r') (simp_all add: is_digit_def word_start_def is_letter_def is_blank_def)
  have other: "match_len R_other ?s \<le> length s + 2" "0 < length s + 2" by simp_all
  show "best_rule ?s = R_quoted" "matched ?s = length s + 2"
    by (rule best_ruleI' [OF len other(2) others other(1)]; simp)+
qed

lemma lex_punct:
  assumes "c \<in> set '';{}''"
  shows "best_rule (c # r) = R_punct" "matched (c # r) = 1"
proof -
  have len: "match_len R_punct (c # r) = 1" using assms by simp
  have "\<not> is_digit c" "\<not> word_start c" "\<not> is_blank c" "c \<noteq> QUOTE" "c \<noteq> LF" "c \<noteq> CHR ''#''" "c \<noteq> CHR ''0''"
    using assms by (auto simp: is_digit_def word_start_def is_letter_def is_blank_def Let_def)
  then have others: "match_len r' (c # r) = 0" if "r' \<noteq> R_punct" "r' \<noteq> R_other" for r'
    using that by (cases r') simp_all
  have other: "match_len R_other (c # r) \<le> 1" "(0 :: nat) < 1" by simp_all
  show "best_rule (c # r) = R_punct" "matched (c # r) = 1"
    by (rule best_ruleI' [OF len other(2) others other(1)]; simp)+
qed

lemma lex_blank: "best_rule (SPC # r) = R_space" "matched (SPC # r) = Suc (length (takeWhile is_blank r))"
proof -
  have len: "match_len R_space (SPC # r) = Suc (length (takeWhile is_blank r))" by (simp add: is_blank_def)
  have others: "match_len r' (SPC # r) = 0" if "r' \<noteq> R_space" "r' \<noteq> R_other" for r'
    using that by (cases r') (simp_all add: is_digit_def word_start_def is_letter_def is_blank_def Let_def)
  have other: "match_len R_other (SPC # r) \<le> Suc (length (takeWhile is_blank r))" "0 < Suc (length (takeWhile is_blank r))" by simp_all
  show "best_rule (SPC # r) = R_space" "matched (SPC # r) = Suc (length (takeWhile is_blank r))"
    by (rule best_ruleI' [OF len other(2) others other(1)]; simp)+
qed

lemma yylex_printed:
  assumes "token_ok t"
  shows "yylex (print_token t @ SPC # r) line = Token t (SPC # r) line"
proof (cases t)
  case (TOKEN_NUM n)
  have "dec_nat (nat n) @ SPC # r \<noteq> []" by simp
  note a = yylex_act [OF this, of line, unfolded lex_number]
  have "int_of_long n = n" using assms TOKEN_NUM by (simp add: int_of_long_def)
  then show ?thesis using a assms TOKEN_NUM by (simp add: skips_def digits_val_dec_nat)
next
  case (TOKEN_STR s)
  have s: "QUOTE \<notin> set s" "LF \<notin> set s" "NUL \<notin> set s" "length s < TOKEN_LEN" using assms TOKEN_STR by simp_all
  have "QUOTE # s @ QUOTE # SPC # r \<noteq> []" by simp
  note a = yylex_act [OF this, of line, unfolded lex_quoted [OF s(1,2)]]
  have "cstr s 0 = s" using s(3) by (simp add: cstr_def takeWhile_eq_all_conv) (metis)
  then show ?thesis using a s(4) TOKEN_STR by (simp add: skips_def string_token_def butlast_append)
next
  case (Punct c)
  then have c: "c \<in> set '';{}''" using assms by simp
  have "c # SPC # r \<noteq> []" by simp
  from yylex_act [OF this, of line, unfolded lex_punct [OF c]] show ?thesis using Punct by (simp add: skips_def)
qed

text \<open>A blank between tokens does not count.\<close>

lemma yylex_blank:
  assumes "r = [] \<or> \<not> is_blank (hd r)"
  shows "yylex (SPC # r) line = yylex r line"
proof -
  have "takeWhile is_blank r = []" using assms by (cases r) auto
  then have "matched (SPC # r) = 1" by (simp add: lex_blank)
  with yylex_skip [of "SPC # r" line] show ?thesis by (simp add: lex_blank skips_def)
qed

end
