(* ===== verification/Conf_Parse.thy ===== *)
theory Conf_Parse
  imports Conf_Scan
begin

text \<open>
  \<open>conf_parse.c\<close>: the parser of configuration files. A context is a module with its directives;
  what the directives do to the state \<open>'w\<close> of the program are arguments of the model, as they are
  function pointers in the tables of the code. The messages in the log are left out.
\<close>

section \<open>Tables\<close>

datatype kind = K_NUM | K_STR

text \<open>The pointer that \<open>start_block\<close> returns and the directives get is a number, \<open>None\<close> for \<open>NULL\<close>.\<close>

record 'w statement =
  directive :: string
  process :: "token list \<Rightarrow> nat option \<Rightarrow> 'w \<Rightarrow> 'w \<times> int"
  min_args :: nat
  max_args :: nat
  types :: "kind list"

record 'w config_context =
  cc_type :: string
  cc_name :: string
  start_block :: "('w \<Rightarrow> 'w \<times> nat option) option"
  end_block :: "(nat option \<Rightarrow> 'w \<Rightarrow> 'w \<times> int) option"
  statements :: "'w statement list"

text \<open>The list of contexts behind \<open>global_context\<close>.\<close>

definition register_config_context :: "'w config_context list \<Rightarrow> 'w config_context \<Rightarrow> 'w config_context list" where
  "register_config_context ctxs cc = ctxs @ [cc]"

section \<open>Statements\<close>

fun has_kind :: "kind \<Rightarrow> token \<Rightarrow> bool" where
  "has_kind K_NUM (TOKEN_NUM n) = True"
| "has_kind K_STR (TOKEN_STR s) = True"
| "has_kind _ _ = False"

definition args_match :: "'w statement \<Rightarrow> token list \<Rightarrow> bool" where
  "args_match s args \<longleftrightarrow> min_args s \<le> length args \<and> length args \<le> max_args s \<and>
     list_all2 has_kind (take (length args) (types s)) args"

text \<open>
  \<open>t\<close> holds the tokens of the statement. The result of the directive is not looked at. The
  second component is \<open>False\<close> for -1.
\<close>

definition process_statement :: "'w statement list \<Rightarrow> nat option \<Rightarrow> token list \<Rightarrow> 'w \<Rightarrow> 'w \<times> bool" where
  "process_statement sts d t w =
     (case t of
        TOKEN_STR name # args \<Rightarrow>
          (case find (\<lambda>s. str_ieq (directive s) name \<and> args_match s args) sts of
             None \<Rightarrow> (w, False)
           | Some s \<Rightarrow> (fst (process s t d w), True))
      | _ \<Rightarrow> (w, False))"

section \<open>Files\<close>

definition MAX_TOKENS :: nat where "MAX_TOKENS = 10"

definition find_context :: "'w config_context list \<Rightarrow> token list \<Rightarrow> 'w config_context option" where
  "find_context ctxs t =
     (case t of
        [TOKEN_STR a, TOKEN_STR b] \<Rightarrow> find (\<lambda>cc. str_ieq (cc_type cc) a \<and> str_ieq (cc_name cc) b) ctxs
      | _ \<Rightarrow> None)"

definition open_block :: "'w config_context \<Rightarrow> 'w \<Rightarrow> 'w \<times> nat option \<times> bool" where
  "open_block cc w =
     (case start_block cc of
        None \<Rightarrow> (w, None, True)
      | Some f \<Rightarrow> (case f w of (w', None) \<Rightarrow> (w', None, False) | (w', Some d) \<Rightarrow> (w', Some d, True)))"

definition close_block :: "'w config_context \<Rightarrow> nat option \<Rightarrow> 'w \<Rightarrow> 'w \<times> bool" where
  "close_block cc d w = (case end_block cc of None \<Rightarrow> (w, True) | Some f \<Rightarrow> (let (w', r) = f d w in (w', 0 \<le> r)))"

text \<open>
  The loop of \<open>read_config_file\<close>: the text that is left, the array \<open>t\<close> with \<open>cur\<close> tokens, the context
  (\<open>None\<close> for the global one) and its data. A stray character ends it like the end of the file.
\<close>

function read_loop ::
  "'w statement list \<Rightarrow> 'w config_context list \<Rightarrow> string \<Rightarrow> nat \<Rightarrow> token list \<Rightarrow> nat \<Rightarrow> 'w config_context option \<Rightarrow> nat option
     \<Rightarrow> 'w \<Rightarrow> ('w \<times> bool) cres" where
  "read_loop G ctxs s line t cur cc d w =
     (case get_next_token s line of
        End_Of_File _ \<Rightarrow> Inr (w, True)
      | Stray _ \<Rightarrow> Inr (w, True)
      | Overlong \<Rightarrow> Inl Fault
      | Token tok rest line' \<Rightarrow>
          bindE (wr t cur tok) (\<lambda>t.
            case tok of
              Punct c \<Rightarrow>
                if c = CHR '';'' then
                  (let (w, ok) = process_statement (case cc of None \<Rightarrow> G | Some x \<Rightarrow> statements x) d (take cur t) w
                   in if ok then read_loop G ctxs rest line' t 0 cc d w else Inr (w, False))
                else if c = CHR ''{'' then
                  (if cc \<noteq> None then Inr (w, False)
                   else case find_context ctxs (take cur t) of
                     None \<Rightarrow> Inr (w, False)
                   | Some x \<Rightarrow>
                       (case open_block x w of (w, d, ok) \<Rightarrow>
                          if ok then read_loop G ctxs rest line' t 0 (Some x) d w else Inr (w, False)))
                else if c = CHR ''}'' then
                  (if cur \<noteq> 0 then Inr (w, False)
                   else case cc of
                     None \<Rightarrow> Inr (w, False)
                   | Some x \<Rightarrow>
                       (case close_block x d w of (w, ok) \<Rightarrow>
                          if ok then read_loop G ctxs rest line' t 0 None None w else Inr (w, False)))
                else Inr (w, False)
            | _ \<Rightarrow> if cur + 1 = MAX_TOKENS then Inr (w, False) else read_loop G ctxs rest line' t (cur + 1) cc d w))"
  by pat_completeness auto
termination
  by (relation "measure (\<lambda>(G, ctxs, s, line, t, cur, cc, d, w). length s)") (auto simp: get_next_token_def dest: yylex_shorter)

declare read_loop.simps [simp del]

text \<open>The array is not initialised; \<open>junk\<close> is what it holds.\<close>

definition read_config_file :: "'w statement list \<Rightarrow> 'w config_context list \<Rightarrow> token list \<Rightarrow> string \<Rightarrow> 'w \<Rightarrow> ('w \<times> bool) cres" where
  "read_config_file G ctxs junk s w = read_loop G ctxs s 1 junk 0 None None w"

section \<open>What a configuration means\<close>

datatype item = Directive "token list" | Block string string "token list list"

fun exec_directives :: "'w statement list \<Rightarrow> nat option \<Rightarrow> token list list \<Rightarrow> 'w \<Rightarrow> 'w \<times> bool" where
  "exec_directives sts d [] w = (w, True)"
| "exec_directives sts d (t # ts) w =
     (case process_statement sts d t w of (w, ok) \<Rightarrow> if ok then exec_directives sts d ts w else (w, False))"

fun exec_item :: "'w statement list \<Rightarrow> 'w config_context list \<Rightarrow> item \<Rightarrow> 'w \<Rightarrow> 'w \<times> bool" where
  "exec_item G ctxs (Directive t) w = process_statement G None t w"
| "exec_item G ctxs (Block a b ts) w =
     (case find_context ctxs [TOKEN_STR a, TOKEN_STR b] of
        None \<Rightarrow> (w, False)
      | Some x \<Rightarrow>
          (case open_block x w of (w, d, ok) \<Rightarrow>
             if \<not> ok then (w, False)
             else case exec_directives (statements x) d ts w of (w, ok) \<Rightarrow>
                    if ok then close_block x d w else (w, False)))"

fun exec_items :: "'w statement list \<Rightarrow> 'w config_context list \<Rightarrow> item list \<Rightarrow> 'w \<Rightarrow> 'w \<times> bool" where
  "exec_items G ctxs [] w = (w, True)"
| "exec_items G ctxs (i # is) w = (case exec_item G ctxs i w of (w, ok) \<Rightarrow> if ok then exec_items G ctxs is w else (w, False))"

text \<open>Their tokens, and a text of these tokens.\<close>

definition directive_tokens :: "token list \<Rightarrow> token list" where
  "directive_tokens t = t @ [Punct CHR '';'']"

fun item_tokens :: "item \<Rightarrow> token list" where
  "item_tokens (Directive t) = directive_tokens t"
| "item_tokens (Block a b ts) =
     [TOKEN_STR a, TOKEN_STR b, Punct CHR ''{''] @ concat (map directive_tokens ts) @ [Punct CHR ''}'']"

definition print_tokens :: "token list \<Rightarrow> string" where
  "print_tokens ts = concat (map (\<lambda>t. SPC # print_token t) ts) @ [SPC]"

fun argument :: "token \<Rightarrow> bool" where
  "argument (Punct c) = False"
| "argument t = token_ok t"

definition statement_ok :: "token list \<Rightarrow> bool" where
  "statement_ok t \<longleftrightarrow> length t < MAX_TOKENS \<and> list_all argument t"

fun item_ok :: "item \<Rightarrow> bool" where
  "item_ok (Directive t) \<longleftrightarrow> statement_ok t"
| "item_ok (Block a b ts) \<longleftrightarrow> token_ok (TOKEN_STR a) \<and> token_ok (TOKEN_STR b) \<and> list_all statement_ok ts"

section \<open>Reading printed tokens\<close>

lemma print_tokens_simps [simp]: "print_tokens [] = [SPC]" "print_tokens (t # ts) = SPC # print_token t @ print_tokens ts"
  by (simp_all add: print_tokens_def)

lemma print_tokens_blank: "\<exists>r. print_tokens ts = SPC # r"
  by (cases ts) simp_all

lemma print_token_starts: "token_ok t \<Longrightarrow> print_token t @ r \<noteq> [] \<and> \<not> is_blank (hd (print_token t @ r))"
proof (cases t)
  case (TOKEN_NUM n)
  obtain c ds where d: "dec_nat (nat n) = c # ds" by (cases "dec_nat (nat n)") simp_all
  have "is_digit c" using dec_nat_digits [of "nat n"] d by simp
  from digit_classes(2) [OF this] show ?thesis by (simp add: TOKEN_NUM d)
qed (auto simp: is_blank_def)

lemma lex_print:
  assumes "token_ok t"
  shows "get_next_token (print_tokens (t # ts) @ e) line = Token t (print_tokens ts @ e) line"
proof -
  obtain r where r: "print_tokens ts = SPC # r" using print_tokens_blank by blast
  note st = print_token_starts [OF assms, of "SPC # r @ e"]
  have "yylex (SPC # print_token t @ SPC # r @ e) line = yylex (print_token t @ SPC # r @ e) line"
    by (rule yylex_blank) (use st in blast)
  with yylex_printed [OF assms, of "r @ e" line] show ?thesis by (simp add: get_next_token_def r)
qed

lemma lex_end: "get_next_token (print_tokens []) line = End_Of_File line"
  by (simp add: get_next_token_def yylex_blank) (simp add: yylex.simps)

lemma argument_ok: "argument t \<Longrightarrow> token_ok t"
  by (cases t) simp_all

lemma read_argument:
  assumes "argument a" "cur + 1 < MAX_TOKENS" "length t = MAX_TOKENS"
  shows "read_loop G ctxs (print_tokens (a # toks) @ e) line t cur cc d w =
    read_loop G ctxs (print_tokens toks @ e) line (t[cur := a]) (cur + 1) cc d w"
  using assms by (subst read_loop.simps, subst lex_print [OF argument_ok]) (cases a; simp)+

lemma read_args:
  assumes "list_all argument ts" "cur + length ts < MAX_TOKENS" "length t = MAX_TOKENS"
  shows "\<exists>t'. length t' = MAX_TOKENS \<and> take (cur + length ts) t' = take cur t @ ts \<and>
    read_loop G ctxs (print_tokens (ts @ toks) @ e) line t cur cc d w =
    read_loop G ctxs (print_tokens toks @ e) line t' (cur + length ts) cc d w"
  using assms
proof (induction ts arbitrary: cur t)
  case Nil
  then show ?case by (intro exI [of _ t]) simp
next
  case (Cons a ts)
  have a: "argument a" "cur + 1 < MAX_TOKENS" "length t = MAX_TOKENS" using Cons.prems by simp_all
  obtain t' where t': "length t' = MAX_TOKENS" "take (cur + 1 + length ts) t' = take (cur + 1) (t[cur := a]) @ ts"
    "read_loop G ctxs (print_tokens (ts @ toks) @ e) line (t[cur := a]) (cur + 1) cc d w =
      read_loop G ctxs (print_tokens toks @ e) line t' (cur + 1 + length ts) cc d w"
    using Cons.IH [of "cur + 1" "t[cur := a]"] Cons.prems by auto
  have "take (cur + 1) (t[cur := a]) = take cur t @ [a]" using a by (simp add: take_Suc_conv_app_nth)
  with t' show ?case using read_argument [OF a, of G ctxs "ts @ toks" e line cc d w] by (intro exI [of _ t']) simp
qed

lemma read_semicolon:
  assumes "cur < MAX_TOKENS" "length t = MAX_TOKENS"
  shows "read_loop G ctxs (print_tokens (Punct CHR '';'' # toks) @ e) line t cur cc d w =
    (case process_statement (case cc of None \<Rightarrow> G | Some x \<Rightarrow> statements x) d (take cur t) w of
       (w, ok) \<Rightarrow> if ok then read_loop G ctxs (print_tokens toks @ e) line (t[cur := Punct CHR '';'']) 0 cc d w else Inr (w, False))"
  using assms by (subst read_loop.simps, subst lex_print) (simp_all add: Let_def)

lemma read_directive:
  assumes "statement_ok ts" "length t = MAX_TOKENS"
  shows "\<exists>t'. length t' = MAX_TOKENS \<and> read_loop G ctxs (print_tokens (directive_tokens ts @ toks) @ e) line t 0 cc d w =
    (case process_statement (case cc of None \<Rightarrow> G | Some x \<Rightarrow> statements x) d ts w of
       (w, ok) \<Rightarrow> if ok then read_loop G ctxs (print_tokens toks @ e) line t' 0 cc d w else Inr (w, False))"
proof -
  have ts: "list_all argument ts" "0 + length ts < MAX_TOKENS" using assms(1) by (simp_all add: statement_ok_def)
  obtain t' where t': "length t' = MAX_TOKENS" "take (length ts) t' = ts"
    "read_loop G ctxs (print_tokens (ts @ Punct CHR '';'' # toks) @ e) line t 0 cc d w =
      read_loop G ctxs (print_tokens (Punct CHR '';'' # toks) @ e) line t' (length ts) cc d w"
    using read_args [OF ts assms(2), of G ctxs "Punct CHR '';'' # toks" e line cc d w] by auto
  from read_semicolon [of "length ts" t' G ctxs toks e line cc d w] t' ts(2) show ?thesis
    by (intro exI [of _ "t'[length ts := Punct CHR '';'']"]) (simp add: directive_tokens_def)
qed

lemma read_directives:
  assumes "list_all statement_ok tss" "length t = MAX_TOKENS"
  shows "\<exists>t'. length t' = MAX_TOKENS \<and> read_loop G ctxs (print_tokens (concat (map directive_tokens tss) @ toks) @ e) line t 0 cc d w =
    (case exec_directives (case cc of None \<Rightarrow> G | Some x \<Rightarrow> statements x) d tss w of
       (w, ok) \<Rightarrow> if ok then read_loop G ctxs (print_tokens toks @ e) line t' 0 cc d w else Inr (w, False))"
  using assms
proof (induction tss arbitrary: t w)
  case Nil
  then show ?case by (intro exI [of _ t]) simp
next
  case (Cons ts tss)
  let ?S = "case cc of None \<Rightarrow> G | Some x \<Rightarrow> statements x"
  obtain w1 ok where p: "process_statement ?S d ts w = (w1, ok)" by (cases "process_statement ?S d ts w")
  from read_directive [of ts t G ctxs "concat (map directive_tokens tss) @ toks" e line cc d w] Cons.prems
  obtain t1 where t1: "length t1 = MAX_TOKENS"
    "read_loop G ctxs (print_tokens (directive_tokens ts @ concat (map directive_tokens tss) @ toks) @ e) line t 0 cc d w =
      (if ok then read_loop G ctxs (print_tokens (concat (map directive_tokens tss) @ toks) @ e) line t1 0 cc d w1 else Inr (w1, False))"
    by (auto simp: p)
  from Cons.IH [OF _ t1(1), of w1] Cons.prems t1(2) show ?case
    by (cases ok) (auto simp: p intro: t1(1))
qed

lemma find_context_two: "find_context ctxs ts = Some x \<Longrightarrow> \<exists>a b. ts = [TOKEN_STR a, TOKEN_STR b]"
  by (auto simp: find_context_def split: list.splits token.splits)

lemma read_open:
  assumes "token_ok (TOKEN_STR a)" "token_ok (TOKEN_STR b)" "length t = MAX_TOKENS"
  shows "\<exists>t'. length t' = MAX_TOKENS \<and>
    read_loop G ctxs (print_tokens ([TOKEN_STR a, TOKEN_STR b, Punct CHR ''{''] @ toks) @ e) line t 0 None None w =
    (case find_context ctxs [TOKEN_STR a, TOKEN_STR b] of
       None \<Rightarrow> Inr (w, False)
     | Some x \<Rightarrow> (case open_block x w of (w, d, ok) \<Rightarrow>
         if ok then read_loop G ctxs (print_tokens toks @ e) line t' 0 (Some x) d w else Inr (w, False)))"
proof -
  have "list_all argument [TOKEN_STR a, TOKEN_STR b]" "0 + length [TOKEN_STR a, TOKEN_STR b] < MAX_TOKENS"
    using assms(1,2) by (simp_all add: MAX_TOKENS_def)
  from read_args [OF this assms(3), of G ctxs "Punct CHR ''{'' # toks" e line None None w] obtain t' where
    t': "length t' = MAX_TOKENS" "take 2 t' = [TOKEN_STR a, TOKEN_STR b]"
    "read_loop G ctxs (print_tokens ([TOKEN_STR a, TOKEN_STR b] @ Punct CHR ''{'' # toks) @ e) line t 0 None None w =
      read_loop G ctxs (print_tokens (Punct CHR ''{'' # toks) @ e) line t' 2 None None w" by (auto simp: numeral_2_eq_2)
  have "read_loop G ctxs (print_tokens (Punct CHR ''{'' # toks) @ e) line t' 2 None None w =
    (case find_context ctxs [TOKEN_STR a, TOKEN_STR b] of
       None \<Rightarrow> Inr (w, False)
     | Some x \<Rightarrow> (case open_block x w of (w, d, ok) \<Rightarrow>
         if ok then read_loop G ctxs (print_tokens toks @ e) line (t'[2 := Punct CHR ''{'']) 0 (Some x) d w else Inr (w, False)))"
    using t'(1,2) by (subst read_loop.simps, subst lex_print) (simp_all add: MAX_TOKENS_def cong: option.case_cong)
  with t'(1,3) show ?thesis by (intro exI [of _ "t'[2 := Punct CHR ''{'']"]) simp
qed

lemma read_close:
  assumes "length t = MAX_TOKENS"
  shows "read_loop G ctxs (print_tokens (Punct CHR ''}'' # toks) @ e) line t 0 (Some x) d w =
    (case close_block x d w of (w, ok) \<Rightarrow>
       if ok then read_loop G ctxs (print_tokens toks @ e) line (t[0 := Punct CHR ''}'']) 0 None None w else Inr (w, False))"
  using assms by (subst read_loop.simps, subst lex_print) (simp_all add: MAX_TOKENS_def)

lemma read_item:
  assumes "item_ok i" "length t = MAX_TOKENS"
  shows "\<exists>t'. length t' = MAX_TOKENS \<and> read_loop G ctxs (print_tokens (item_tokens i @ toks) @ e) line t 0 None None w =
    (case exec_item G ctxs i w of (w, ok) \<Rightarrow>
       if ok then read_loop G ctxs (print_tokens toks @ e) line t' 0 None None w else Inr (w, False))"
proof (cases i)
  case (Directive ts)
  then show ?thesis using read_directive [of ts t G ctxs toks e line None None w] assms by simp
next
  case (Block a b tss)
  let ?body = "concat (map directive_tokens tss) @ Punct CHR ''}'' # toks"
  have ok: "token_ok (TOKEN_STR a)" "token_ok (TOKEN_STR b)" "list_all statement_ok tss" using assms(1) Block by simp_all
  obtain t1 where t1: "length t1 = MAX_TOKENS"
    "read_loop G ctxs (print_tokens ([TOKEN_STR a, TOKEN_STR b, Punct CHR ''{''] @ ?body) @ e) line t 0 None None w =
      (case find_context ctxs [TOKEN_STR a, TOKEN_STR b] of
         None \<Rightarrow> Inr (w, False)
       | Some x \<Rightarrow> (case open_block x w of (w, d, ok) \<Rightarrow>
           if ok then read_loop G ctxs (print_tokens ?body @ e) line t1 0 (Some x) d w else Inr (w, False)))"
    using read_open [OF ok(1,2) assms(2), of G ctxs ?body e line w] by blast
  have toks: "item_tokens i @ toks = [TOKEN_STR a, TOKEN_STR b, Punct CHR ''{''] @ ?body" by (simp add: Block)
  show ?thesis
  proof (cases "find_context ctxs [TOKEN_STR a, TOKEN_STR b]")
    case None
    then show ?thesis using t1 unfolding toks by (intro exI [of _ t1]) (simp add: Block)
  next
    case (Some x)
    obtain w1 d o1 where o: "open_block x w = (w1, d, o1)" by (cases "open_block x w") auto
    obtain t2 where t2: "length t2 = MAX_TOKENS" "read_loop G ctxs (print_tokens ?body @ e) line t1 0 (Some x) d w1 =
      (case exec_directives (statements x) d tss w1 of (w, ok) \<Rightarrow>
         if ok then read_loop G ctxs (print_tokens (Punct CHR ''}'' # toks) @ e) line t2 0 (Some x) d w else Inr (w, False))"
      using read_directives [OF ok(3) t1(1), of G ctxs "Punct CHR ''}'' # toks" e line "Some x" d w1] by auto
    obtain w2 o2 where ex: "exec_directives (statements x) d tss w1 = (w2, o2)" by (cases "exec_directives (statements x) d tss w1")
    show ?thesis
      using t1(2) t2 Some o ex read_close [OF t2(1), of G ctxs toks e line x d w2] unfolding toks
      by (intro exI [of _ "t2[0 := Punct CHR ''}'']"]) (auto simp: Block split: prod.splits)
  qed
qed

lemma read_items:
  assumes "list_all item_ok is" "length t = MAX_TOKENS"
  shows "\<exists>t'. length t' = MAX_TOKENS \<and>
    read_loop G ctxs (print_tokens (concat (map item_tokens is) @ toks) @ e) line t 0 None None w =
    (case exec_items G ctxs is w of (w, ok) \<Rightarrow>
       if ok then read_loop G ctxs (print_tokens toks @ e) line t' 0 None None w else Inr (w, False))"
  using assms
proof (induction "is" arbitrary: t w)
  case Nil
  then show ?case by (intro exI [of _ t]) simp
next
  case (Cons i "is")
  obtain w1 ok where p: "exec_item G ctxs i w = (w1, ok)" by (cases "exec_item G ctxs i w")
  from read_item [of i t G ctxs "concat (map item_tokens is) @ toks" e line w] Cons.prems
  obtain t1 where t1: "length t1 = MAX_TOKENS"
    "read_loop G ctxs (print_tokens (item_tokens i @ concat (map item_tokens is) @ toks) @ e) line t 0 None None w =
      (if ok then read_loop G ctxs (print_tokens (concat (map item_tokens is) @ toks) @ e) line t1 0 None None w1 else Inr (w1, False))"
    by (auto simp: p)
  from Cons.IH [OF _ t1(1), of w1] Cons.prems t1(2) show ?case by (cases ok) (auto simp: p intro: t1(1))
qed

lemma read_loop_ends:
  "get_next_token s line = End_Of_File l \<or> get_next_token s line = Stray l \<Longrightarrow> read_loop G ctxs s line t cur cc d w = Inr (w, True)"
  by (subst read_loop.simps) auto

lemma reads_items:
  assumes "list_all item_ok is" "length junk = MAX_TOKENS"
  shows "read_config_file G ctxs junk (print_tokens (concat (map item_tokens is))) w = Inr (exec_items G ctxs is w)"
proof -
  obtain t' where "read_loop G ctxs (print_tokens (concat (map item_tokens is) @ []) @ []) 1 junk 0 None None w =
      (case exec_items G ctxs is w of (w, ok) \<Rightarrow>
         if ok then read_loop G ctxs (print_tokens [] @ []) 1 t' 0 None None w else Inr (w, False))"
    using read_items [OF assms, of G ctxs "[]" "[]" 1 w] by blast
  moreover have "read_loop G ctxs (print_tokens []) 1 t' 0 None None w' = Inr (w', True)" for w'
    by (rule read_loop_ends, rule disjI1, rule lex_end)
  ultimately show ?thesis by (auto simp: read_config_file_def split: prod.splits)
qed

text \<open>
  C17. A configuration file does what it says: reading the text of any list of directives and
  blocks runs the directives and the start and end of the blocks in order, each with the data of its
  block, and stops at the first that is unknown or has arguments of the wrong number or type.
\<close>

theorem config_executes:
  assumes "list_all item_ok is" "length junk = MAX_TOKENS"
  shows "read_config_file G ctxs junk (print_tokens (concat (map item_tokens is))) w = Inr (exec_items G ctxs is w)"
  using assms by (rule reads_items)

section \<open>Files that end early\<close>

definition stray :: "char \<Rightarrow> bool" where
  "stray c \<longleftrightarrow> \<not> word_start c \<and> \<not> is_digit c \<and> \<not> is_blank c \<and> c \<notin> {LF, QUOTE, CHR ''#''} \<and> c \<notin> set '';{}''"

lemma lex_stray:
  assumes "stray c"
  shows "get_next_token (print_tokens [] @ c # e) line = Stray line"
proof -
  have len: "match_len R_other (c # e) = 1" using assms by (simp add: stray_def)
  have cl: "\<not> word_start c" "\<not> is_digit c" "\<not> is_blank c" "c \<noteq> LF" "c \<noteq> QUOTE" "c \<noteq> CHR ''#''" "c \<notin> set '';{}''"
    using assms by (simp_all add: stray_def)
  then have "c \<noteq> CHR ''0''" by (intro notI) (simp add: is_digit_def)
  with cl have others: "match_len r (c # e) = 0" if "r \<noteq> R_other" for r
    using that by (cases r) simp_all
  have "1 \<le> matched (c # e)" using best_rule_longest [of R_other "c # e"] len by simp
  then have best: "best_rule (c # e) = R_other" using others by (force simp: matched_def)
  moreover have "matched (c # e) = 1" using best len by (simp only: matched_def)
  moreover have "\<not> is_blank c" using assms by (simp add: stray_def)
  ultimately show ?thesis
    using yylex_act [of "c # e" line] yylex_blank [of "c # e" line] by (simp add: get_next_token_def skips_def)
qed

text \<open>
  A character that no rule of the scanner knows ends the file without an error: everything
  behind it is ignored, and a block that it interrupts has had its directives run but not its
  end, which would have found out what is missing.
\<close>

lemma stray_character_truncates:
  assumes "list_all item_ok is" "exec_items G ctxs is w = (w1, True)" "length junk = MAX_TOKENS" "stray c"
    and "token_ok (TOKEN_STR a)" "token_ok (TOKEN_STR b)" "list_all statement_ok tss"
    and "find_context ctxs [TOKEN_STR a, TOKEN_STR b] = Some x" "open_block x w1 = (w2, d, True)"
    and "exec_directives (statements x) d tss w2 = (w3, True)"
  shows "read_config_file G ctxs junk (print_tokens (concat (map item_tokens is)) @ c # rest) w = Inr (w1, True) \<and>
    read_config_file G ctxs junk (print_tokens (concat (map item_tokens is) @
      [TOKEN_STR a, TOKEN_STR b, Punct CHR ''{''] @ concat (map directive_tokens tss)) @ c # rest) w = Inr (w3, True)"
proof
  have stop: "read_loop G ctxs (print_tokens [] @ c # rest) 1 t 0 cc d w = Inr (w, True)" for t cc d w
    by (rule read_loop_ends, rule disjI2, rule lex_stray [OF assms(4)])
  obtain t1 where "read_loop G ctxs (print_tokens (concat (map item_tokens is) @ []) @ c # rest) 1 junk 0 None None w =
      read_loop G ctxs (print_tokens [] @ c # rest) 1 t1 0 None None w1"
    using read_items [OF assms(1,3), of G ctxs "[]" "c # rest" 1 w] assms(2) by auto
  then show "read_config_file G ctxs junk (print_tokens (concat (map item_tokens is)) @ c # rest) w = Inr (w1, True)"
    using stop by (simp add: read_config_file_def)
  let ?open = "[TOKEN_STR a, TOKEN_STR b, Punct CHR ''{'']" and ?body = "concat (map directive_tokens tss)"
  obtain t2 where t2: "length t2 = MAX_TOKENS"
    "read_loop G ctxs (print_tokens (concat (map item_tokens is) @ ?open @ ?body) @ c # rest) 1 junk 0 None None w =
      read_loop G ctxs (print_tokens (?open @ ?body) @ c # rest) 1 t2 0 None None w1"
    using read_items [OF assms(1,3), of G ctxs "?open @ ?body" "c # rest" 1 w] assms(2) by auto
  obtain t3 where t3: "length t3 = MAX_TOKENS" "read_loop G ctxs (print_tokens (?open @ ?body) @ c # rest) 1 t2 0 None None w1 =
      read_loop G ctxs (print_tokens ?body @ c # rest) 1 t3 0 (Some x) d w2"
    using read_open [OF assms(5,6) t2(1), of G ctxs ?body "c # rest" 1 w1] assms(8,9) by auto
  obtain t4 where "read_loop G ctxs (print_tokens (?body @ []) @ c # rest) 1 t3 0 (Some x) d w2 =
      read_loop G ctxs (print_tokens [] @ c # rest) 1 t4 0 (Some x) d w3"
    using read_directives [OF assms(7) t3(1), of G ctxs "[]" "c # rest" 1 "Some x" d w2] assms(10) by auto
  then show "read_config_file G ctxs junk (print_tokens (concat (map item_tokens is) @ ?open @ ?body) @ c # rest) w = Inr (w3, True)"
    using t2(2) t3(2) stop by (simp add: read_config_file_def)
qed

section \<open>Examples\<close>

text \<open>A directive \<open>port\<close>, and a module whose blocks must name a path; the state is what has been configured.\<close>

definition demo_port :: "int list statement" where
  "demo_port = \<lparr>directive = ''port'', process = (\<lambda>t d w. case t of [_, TOKEN_NUM n] \<Rightarrow> (n # w, 0) | _ \<Rightarrow> (w, -1)),
     min_args = 1, max_args = 1, types = [K_NUM]\<rparr>"

definition demo_module :: "int list config_context" where
  "demo_module = \<lparr>cc_type = ''output'', cc_name = ''http'', start_block = Some (\<lambda>w. (w, Some 0)), end_block = Some (\<lambda>d w. (w, -1)),
     statements = [\<lparr>directive = ''path'', process = (\<lambda>t d w. (0 # w, 0)), min_args = 1, max_args = 1, types = [K_STR]\<rparr>]\<rparr>"

theorem config_executes_witness:
  "read_config_file [demo_port] [demo_module] (replicate 10 (TOKEN_NUM 0))
     (print_tokens [TOKEN_STR ''Port'', TOKEN_NUM 554, Punct CHR '';'', TOKEN_STR ''Port'', TOKEN_STR ''x'', Punct CHR '';'']) [] =
   Inr ([554], False)"
proof -
  let ?is = "[Directive [TOKEN_STR ''Port'', TOKEN_NUM 554], Directive [TOKEN_STR ''Port'', TOKEN_STR ''x'']]"
  have "exec_items [demo_port] [demo_module] ?is [] = ([554], False)" "list_all item_ok ?is" by code_simp+
  moreover have "concat (map item_tokens ?is) =
      [TOKEN_STR ''Port'', TOKEN_NUM 554, Punct CHR '';'', TOKEN_STR ''Port'', TOKEN_STR ''x'', Punct CHR '';'']"
    by (simp add: directive_tokens_def)
  ultimately show ?thesis
    using config_executes [of ?is "replicate 10 (TOKEN_NUM 0)" "[demo_port]" "[demo_module]" "[]"] by (simp only: length_replicate MAX_TOKENS_def)
qed

theorem stray_character_truncates_witness:
  "read_config_file [demo_port] [demo_module] (replicate 10 (TOKEN_NUM 0)) (print_tokens [TOKEN_STR ''output'', TOKEN_STR ''http'',
     Punct CHR ''{'', TOKEN_STR ''path'', TOKEN_STR ''/cam'', Punct CHR '';''] @ CHR ''?'' # '' nonsense'') [] = Inr ([0], True)"
proof -
  let ?t = "[TOKEN_STR ''path'', TOKEN_STR ''/cam'']"
  have ex: "find_context [demo_module] [TOKEN_STR ''output'', TOKEN_STR ''http''] = Some demo_module"
    by (simp add: find_context_def demo_module_def)
  have o: "open_block demo_module [] = ([], Some 0, True)" by (simp add: open_block_def demo_module_def)
  have p: "exec_directives (statements demo_module) (Some 0) [?t] [] = ([0], True)" by code_simp
  have ok: "stray CHR ''?''" "token_ok (TOKEN_STR ''output'')" "token_ok (TOKEN_STR ''http'')" "list_all statement_ok [?t]" by code_simp+
  show ?thesis
    using stray_character_truncates [OF _ _ _ ok(1,2,3,4) ex o p, of "[]" "[demo_port]" "[]" "replicate 10 (TOKEN_NUM 0)" "'' nonsense''"]
    by (simp add: directive_tokens_def MAX_TOKENS_def)
qed

end
