(* ===== verification/Config.thy ===== *)
theory Config
  imports Conf_Parse Server_State Server
begin

text \<open>
  The directives of the configuration file: the global ones (\<open>tcp.c\<close>, \<open>rtp.c\<close>, \<open>spook.c\<close>,
  \<open>wireless_check.c\<close>), the inputs (\<open>input-video.c\<close>, \<open>input-audio.c\<close>), which make the streams, and the
  two outputs (\<open>live.c\<close> with \<open>new_rtsp_location\<close> of \<open>rtsp.c\<close>, \<open>http.c\<close>), which connect to them and
  build the state that the server starts with.
\<close>

section \<open>State\<close>

text \<open>An input; its frame rate and its exchanger are not initialised before the end of its block.\<close>

record input_conf =
  in_output :: "nat option"
  in_device :: string
  in_format :: int
  in_width :: int
  in_height :: int
  in_rate :: "(int \<times> int) option"
  in_fps :: int
  in_localport :: int
  in_stream :: nat
  in_ex :: "exchanger option"

record wireless =
  wi_country :: int
  wi_droprate :: int
  wi_quality :: int
  wi_diff :: int
  wi_ssid :: string
  wi_address :: string

text \<open>
  The state of the program while it is configured. \<open>cf_private\<close> is the input that a stream belongs
  to, \<open>cf_http_input\<close> the destination of a location of \<open>http.c\<close>; the entries of \<open>live.c\<close>, the inputs and
  the locations have been allocated below \<open>cf_entries\<close>, \<open>cf_new_input\<close> and \<open>cf_new_loc\<close>.
\<close>

record config =
  cf_world :: world
  cf_entries :: nat
  cf_inputs :: "nat \<Rightarrow> input_conf"
  cf_new_input :: nat
  cf_video :: "nat list"
  cf_audio :: "nat list"
  cf_private :: "nat \<Rightarrow> nat option"
  cf_http_input :: "nat \<Rightarrow> nat option"
  cf_new_loc :: nat
  cf_ports :: "int list"
  cf_range :: rtp_range
  cf_heap :: "frame_heap option"
  cf_wireless :: wireless
  cf_log :: bool

text \<open>The answers of the kernel and of the driver of the camera, and what allocated memory holds.\<close>

datatype codec = MP4S | MJPG | H264 | Other_Codec

record env =
  e_listen :: "int \<Rightarrow> bool"
  e_open :: "string \<Rightarrow> bool"
  e_codec :: "nat \<Rightarrow> codec"
  e_size :: "nat \<Rightarrow> int \<times> int"
  e_inet :: "string \<Rightarrow> bool"
  e_m4 :: rtp_mpeg4
  e_jpeg :: rtp_jpeg
  e_path :: string

text \<open>A directive that follows a wrong pointer, ends the program, or waits for a mutex forever.\<close>

datatype stop = Crashed | Exited | Hung

type_synonym 'a conf_res = "stop + 'a"

definition checked :: "'a cres \<Rightarrow> 'a conf_res" where
  "checked r = (case r of Inl _ \<Rightarrow> Inl Crashed | Inr x \<Rightarrow> Inr x)"

definition then_do :: "'a conf_res \<Rightarrow> ('a \<Rightarrow> 'b conf_res) \<Rightarrow> 'b conf_res" where
  "then_do r k = (case r of Inl e \<Rightarrow> Inl e | Inr x \<Rightarrow> k x)"

lemma then_do_simps [simp]: "then_do (Inl e) k = Inl e" "then_do (Inr x) k = k x"
  by (simp_all add: then_do_def)

lemma then_do_eq_Inr: "then_do r k = Inr y \<longleftrightarrow> (\<exists>x. r = Inr x \<and> k x = Inr y)"
  by (cases r) simp_all

lemma checked_eq_Inr: "checked r = Inr x \<longleftrightarrow> r = Inr x"
  by (cases r) (simp_all add: checked_def)

fun str_arg :: "token list \<Rightarrow> nat \<Rightarrow> string" where
  "str_arg ts i = (case ts ! i of TOKEN_STR s \<Rightarrow> s | _ \<Rightarrow> [])"

fun num_arg :: "token list \<Rightarrow> nat \<Rightarrow> int" where
  "num_arg ts i = (case ts ! i of TOKEN_NUM n \<Rightarrow> n | _ \<Rightarrow> 0)"

section \<open>Global directives\<close>

definition do_config_port :: "env \<Rightarrow> token list \<Rightarrow> config \<Rightarrow> (config \<times> int) conf_res" where
  "do_config_port E t c =
     (if \<not> config_port (num_arg t 1) then Inr (c, -1)
      else if e_listen E (num_arg t 1) then Inr (c\<lparr>cf_ports := num_arg t 1 # cf_ports c\<rparr>, 0) else Inr (c, -1))"

definition do_config_rtprange :: "token list \<Rightarrow> config \<Rightarrow> (config \<times> int) conf_res" where
  "do_config_rtprange t c =
     (case config_rtprange (num_arg t 1) (num_arg t 2) of None \<Rightarrow> Inl Exited | Some r \<Rightarrow> Inr (c\<lparr>cf_range := r\<rparr>, 0))"

definition config_frameheap :: "token list \<Rightarrow> config \<Rightarrow> (config \<times> int) conf_res" where
  "config_frameheap t c =
     (let count = num_arg t 1; size = (if length t = 3 then num_arg t 2 else 352 * 288 * 3)
      in if count < 10 then Inr (c, -1)
         else then_do (checked (init_frame_heap size (nat count))) (\<lambda>h. Inr (c\<lparr>cf_heap := Some h\<rparr>, 0)))"

definition upd_wireless :: "(wireless \<Rightarrow> wireless) \<Rightarrow> config \<Rightarrow> config" where
  "upd_wireless f c = c\<lparr>cf_wireless := f (cf_wireless c)\<rparr>"

definition config_wifi_country :: "token list \<Rightarrow> config \<Rightarrow> (config \<times> int) conf_res" where
  "config_wifi_country t c =
     (let n = num_arg t 1 in if n < 0 \<or> n > 7 then Inr (c, -1) else Inr (upd_wireless (\<lambda>w. w\<lparr>wi_country := n\<rparr>) c, 0))"

definition config_droprate :: "token list \<Rightarrow> config \<Rightarrow> (config \<times> int) conf_res" where
  "config_droprate t c =
     (let n = num_arg t 1 in if n \<le> 0 \<or> n > 255 then Inr (c, -1) else Inr (upd_wireless (\<lambda>w. w\<lparr>wi_droprate := n\<rparr>) c, 0))"

definition config_wifi_signal_quality :: "token list \<Rightarrow> config \<Rightarrow> (config \<times> int) conf_res" where
  "config_wifi_signal_quality t c =
     (let n = num_arg t 1 in if n < 0 \<or> n > 100 then Inr (c, -1) else Inr (upd_wireless (\<lambda>w. w\<lparr>wi_quality := n\<rparr>) c, 0))"

definition config_wifi_signal_diff :: "token list \<Rightarrow> config \<Rightarrow> (config \<times> int) conf_res" where
  "config_wifi_signal_diff t c =
     (let n = num_arg t 1 in if n < 0 \<or> n > 255 then Inr (c, -1) else Inr (upd_wireless (\<lambda>w. w\<lparr>wi_diff := n\<rparr>) c, 0))"

definition config_wifi_ssid :: "token list \<Rightarrow> config \<Rightarrow> (config \<times> int) conf_res" where
  "config_wifi_ssid t c =
     (let s = str_arg t 1 in
      if length s = 0 \<or> 64 \<le> length s then Inr (c, -1) else Inr (upd_wireless (\<lambda>w. w\<lparr>wi_ssid := take 63 s\<rparr>) c, 0))"

definition config_wifi_address :: "env \<Rightarrow> token list \<Rightarrow> config \<Rightarrow> (config \<times> int) conf_res" where
  "config_wifi_address E t c =
     (let s = str_arg t 1 in
      if \<not> e_inet E s then Inr (c, -1) else Inr (upd_wireless (\<lambda>w. w\<lparr>wi_address := take 31 s\<rparr>) c, 0))"

text \<open>The file of the access log, in \<open>access_log.c\<close>.\<close>

definition log_set_file :: "env \<Rightarrow> token list \<Rightarrow> config \<Rightarrow> (config \<times> int) conf_res" where
  "log_set_file E t c =
     (if cf_log c then Inr (c, -1)
      else if e_open E (str_arg t 1) then Inr (c\<lparr>cf_log := True\<rparr>, 0) else Inr (c, -1))"

section \<open>Inputs\<close>

definition upd_input :: "nat \<Rightarrow> (input_conf \<Rightarrow> input_conf) \<Rightarrow> config \<Rightarrow> config" where
  "upd_input i f c = c\<lparr>cf_inputs := (cf_inputs c)(i := f (cf_inputs c i))\<rparr>"

definition new_input :: "nat \<Rightarrow> input_conf" where
  "new_input n = \<lparr>in_output = None, in_device = [], in_format = FORMAT_RAW_UYVY, in_width = 0, in_height = 0, in_rate = None,
     in_fps = -1, in_localport = 0, in_stream = n, in_ex = None\<rparr>"

definition MAX_INPUTS :: nat where "MAX_INPUTS = 4"

definition video_start_block :: "config \<Rightarrow> config \<times> nat option" where
  "video_start_block c =
     (let i = cf_new_input c; n = length (cf_video c); c = c\<lparr>cf_new_input := i + 1, cf_inputs := (cf_inputs c)(i := new_input n)\<rparr>
      in if n < MAX_INPUTS then (c\<lparr>cf_video := cf_video c @ [i]\<rparr>, Some i) else (c, None))"

definition audio_start_block :: "config \<Rightarrow> config \<times> nat option" where
  "audio_start_block c =
     (let i = cf_new_input c; n = length (cf_audio c); c = c\<lparr>cf_new_input := i + 1, cf_inputs := (cf_inputs c)(i := new_input n)\<rparr>
      in if n < MAX_INPUTS then (c\<lparr>cf_audio := cf_audio c @ [i]\<rparr>, Some i) else (c, None))"

text \<open>
  The exchanger of an input is filled with frames of the heap; when the heap has none left, the null
  pointer goes into the slot. Before \<open>frameheap\<close> there is no heap.
\<close>

definition exchange_ptr :: "exchanger \<Rightarrow> nat option \<Rightarrow> exchanger \<times> bool" where
  "exchange_ptr ex f =
     (if fst (ex_slots ex ! master_write ex) \<noteq> None then (ex, False)
      else (ex\<lparr>ex_slots := (ex_slots ex)[master_write ex := (f, True)],
              master_write := next_slot ex (master_write ex),
              nExchanges := nExchanges ex + 1\<rparr>, True))"

fun fill_exchanger :: "nat \<Rightarrow> exchanger \<Rightarrow> frame_heap \<Rightarrow> (exchanger \<times> frame_heap) conf_res" where
  "fill_exchanger 0 ex h = Inr (ex, h)"
| "fill_exchanger (Suc n) ex h =
     (case new_frame h of
        None \<Rightarrow> Inl Hung
      | Some (h, f) \<Rightarrow> fill_exchanger n (fst (exchange_ptr ex f)) h)"

definition start_exchanger :: "nat \<Rightarrow> nat \<Rightarrow> config \<Rightarrow> (config \<times> int) conf_res" where
  "start_exchanger n i c =
     then_do (checked (new_exchanger n)) (\<lambda>ex.
       case cf_heap c of
         None \<Rightarrow> Inl Crashed
       | Some h \<Rightarrow> then_do (fill_exchanger n ex h) (\<lambda>(ex, h).
           Inr (upd_input i (\<lambda>v. v\<lparr>in_ex := Some ex\<rparr>) (c\<lparr>cf_heap := Some h\<rparr>), 0)))"

definition audio_end_block :: "nat \<Rightarrow> config \<Rightarrow> (config \<times> int) conf_res" where
  "audio_end_block i c =
     (let v = cf_inputs c i in
      if in_output v = None then Inr (c, -1)
      else if in_fps v \<le> 0 then Inr (c, -1)
      else start_exchanger 25 i (upd_input i (\<lambda>v. v\<lparr>in_rate := Some (1, in_fps v)\<rparr>) c))"

definition video_end_block :: "env \<Rightarrow> nat \<Rightarrow> config \<Rightarrow> (config \<times> int) conf_res" where
  "video_end_block E i c =
     (let v = cf_inputs c i in
      if in_output v = None then Inr (c, -1)
      else if in_fps v \<le> 0 then Inr (c, -1)
      else start_exchanger (nat (in_fps v)) i
             (upd_input i (\<lambda>v. v\<lparr>in_rate := Some (1, in_fps v), in_width := fst (e_size E (in_stream v)),
                in_height := snd (e_size E (in_stream v))\<rparr>) c))"

text \<open>The stream of an input, with the functions that \<open>set_output\<close> gives it.\<close>

definition input_stream :: "nat \<Rightarrow> string \<Rightarrow> int \<Rightarrow> config \<Rightarrow> config" where
  "input_stream i name fmt c =
     (let (g, s) = new_stream (streams_of (cf_world c)) name fmt;
          g = g\<lparr>streams := (streams g)(s := (streams g s)\<lparr>st_set_running := Source\<rparr>)\<rparr>
      in upd_input i (\<lambda>v. v\<lparr>in_output := Some s, in_format := fmt\<rparr>)
           (c\<lparr>cf_world := (cf_world c)\<lparr>streams_of := g\<rparr>, cf_private := (cf_private c)(s := Some i)\<rparr>))"

definition video_set_output :: "env \<Rightarrow> token list \<Rightarrow> nat \<Rightarrow> config \<Rightarrow> (config \<times> int) conf_res" where
  "video_set_output E t i c =
     (case e_codec E (in_stream (cf_inputs c i)) of
        MP4S \<Rightarrow> Inr (input_stream i (str_arg t 1) FORMAT_MPEG4 c, 0)
      | MJPG \<Rightarrow> Inr (input_stream i (str_arg t 1) FORMAT_JPEG c, 0)
      | H264 \<Rightarrow> Inr (input_stream i (str_arg t 1) FORMAT_H264 c, 0)
      | Other_Codec \<Rightarrow> Inr (c, -1))"

definition audio_set_output :: "token list \<Rightarrow> nat \<Rightarrow> config \<Rightarrow> (config \<times> int) conf_res" where
  "audio_set_output t i c = Inr (input_stream i (str_arg t 1) (in_format (cf_inputs c i)) c, 0)"

definition audio_set_format :: "token list \<Rightarrow> nat \<Rightarrow> config \<Rightarrow> (config \<times> int) conf_res" where
  "audio_set_format t i c =
     (if in_output (cf_inputs c i) \<noteq> None then Inr (c, -1)
      else if str_ieq (str_arg t 1) ''pcm'' then Inr (upd_input i (\<lambda>v. v\<lparr>in_format := FORMAT_PCM\<rparr>) c, 0)
      else if str_ieq (str_arg t 1) ''adpcm'' then Inr (upd_input i (\<lambda>v. v\<lparr>in_format := FORMAT_ADPCM\<rparr>) c, 0)
      else Inr (c, -1))"

text \<open>The directive of the video returns before it looks at the format.\<close>

definition video_set_format :: "token list \<Rightarrow> nat \<Rightarrow> config \<Rightarrow> (config \<times> int) conf_res" where
  "video_set_format t i c = Inr (c, 0)"

definition set_device :: "token list \<Rightarrow> nat \<Rightarrow> config \<Rightarrow> (config \<times> int) conf_res" where
  "set_device t i c = Inr (upd_input i (\<lambda>v. v\<lparr>in_device := str_arg t 1\<rparr>) c, 0)"

definition set_framerate_num :: "token list \<Rightarrow> nat \<Rightarrow> config \<Rightarrow> (config \<times> int) conf_res" where
  "set_framerate_num t i c =
     (if 0 \<le> in_fps (cf_inputs c i) then Inr (c, -1) else Inr (upd_input i (\<lambda>v. v\<lparr>in_fps := num_arg t 1\<rparr>) c, 0))"

definition set_framesize :: "token list \<Rightarrow> nat \<Rightarrow> config \<Rightarrow> (config \<times> int) conf_res" where
  "set_framesize t i c = Inr (upd_input i (\<lambda>v. v\<lparr>in_width := num_arg t 1, in_height := num_arg t 2\<rparr>) c, 0)"

definition set_port :: "token list \<Rightarrow> nat \<Rightarrow> config \<Rightarrow> (config \<times> int) conf_res" where
  "set_port t i c = Inr (upd_input i (\<lambda>v. v\<lparr>in_localport := num_arg t 1\<rparr>) c, 0)"

section \<open>RTSP handlers\<close>

definition LIVE_MAX_TRACKS :: nat where "LIVE_MAX_TRACKS = 5"
definition SZNAME :: nat where "SZNAME = 32"

definition live_start_block :: "config \<Rightarrow> config \<times> nat option" where
  "live_start_block c =
     (let en = cf_entries c; w = cf_world c
      in (c\<lparr>cf_world := w\<lparr>entries := (entries w)(en := \<lparr>le_sessions = [], le_tracks = replicate MAX_TRACKS None\<rparr>)\<rparr>,
            cf_entries := en + 1\<rparr>, Some en))"

text \<open>The first element of \<open>tracklist\<close> is followed without a test.\<close>

definition live_end_block :: "nat \<Rightarrow> config \<Rightarrow> (config \<times> int) conf_res" where
  "live_end_block en c =
     (case le_tracks (entries (cf_world c) en) ! 0 of
        None \<Rightarrow> Inl Crashed
      | Some t \<Rightarrow> if lt_media (tracks (cf_world c) t) = None then Inr (c, -1) else Inr (c, 0))"

text \<open>
  The track of that name. A name of 32 characters or more fills its array without an end, so that
  comparing it with a name that begins with the same 32 characters reads behind it.
\<close>

fun find_track :: "world \<Rightarrow> string \<Rightarrow> nat list \<Rightarrow> nat option conf_res" where
  "find_track w name [] = Inr None"
| "find_track w name (i # is) =
     (let n = lt_name (tracks w i) in
      if length n < SZNAME then if n = name then Inr (Some i) else find_track w name is
      else if take SZNAME name = n then Inl Crashed else find_track w name is)"

definition stream_rate :: "config \<Rightarrow> nat \<Rightarrow> (int \<times> int) conf_res" where
  "stream_rate c s =
     (case cf_private c s of
        None \<Rightarrow> Inl Crashed
      | Some i \<Rightarrow> (case in_rate (cf_inputs c i) of None \<Rightarrow> Inl Crashed | Some r \<Rightarrow> Inr r))"

text \<open>The packetiser for a stream, with the ratio of its timestamps.\<close>

definition media_for :: "env \<Rightarrow> config \<Rightarrow> nat \<Rightarrow> (media \<times> int) option conf_res" where
  "media_for E c s =
     (let fmt = st_format (streams (streams_of (cf_world c)) s) in
      if fmt = FORMAT_MPEG4 then Inr (Some (Media_Mpeg4 (new_rtp_media_mpeg4 (e_m4 E)), 900))
      else if fmt = FORMAT_H264 then
        then_do (stream_rate c s) (\<lambda>(i, b). then_do (checked (new_rtp_media_h264 i b)) (\<lambda>m. Inr (Some (Media_H264 m, 900))))
      else if fmt = FORMAT_JPEG then
        then_do (stream_rate c s) (\<lambda>(i, b). then_do (checked (new_rtp_media_jpeg (e_jpeg E) i b)) (\<lambda>m. Inr (Some (Media_Jpeg m, 900))))
      else if fmt = FORMAT_PCM \<or> fmt = FORMAT_ADPCM then
        then_do (stream_rate c s) (\<lambda>(i, b).
          then_do (checked (new_rtp_media_rawaudio fmt (nat i) (nat b))) (\<lambda>m. Inr (Some (Media_Raw m, 80))))
      else Inr None)"

definition live_formats :: "int list" where
  "live_formats = [FORMAT_MPEG4, FORMAT_JPEG, FORMAT_PCM, FORMAT_H264, FORMAT_ADPCM]"

definition free_slot :: "nat option list \<Rightarrow> nat" where
  "free_slot ts = length (takeWhile (\<lambda>t. t \<noteq> None) ts)"

definition set_entry_track :: "nat \<Rightarrow> nat \<Rightarrow> nat option \<Rightarrow> world \<Rightarrow> world" where
  "set_entry_track en k t w =
     w\<lparr>entries := (entries w)(en := (entries w en)\<lparr>le_tracks := (le_tracks (entries w en))[k := t]\<rparr>)\<rparr>"

definition upd_track :: "nat \<Rightarrow> (live_track \<Rightarrow> live_track) \<Rightarrow> world \<Rightarrow> world" where
  "upd_track i f w = w\<lparr>tracks := (tracks w)(i := f (tracks w i))\<rparr>"

text \<open>A track that another entry has set up is shared.\<close>

definition join_track :: "nat \<Rightarrow> nat \<Rightarrow> nat \<Rightarrow> world \<Rightarrow> world \<times> int" where
  "join_track en k i w =
     (if LIVE_MAX_ENTRIES \<le> length (lt_entries (tracks w i)) then (set_entry_track en k None w, -1)
      else (upd_track i (\<lambda>T. T\<lparr>lt_entries := lt_entries T @ [en]\<rparr>) (set_entry_track en k (Some i) w), 0))"

definition live_set_track :: "env \<Rightarrow> token list \<Rightarrow> nat \<Rightarrow> config \<Rightarrow> (config \<times> int) conf_res" where
  "live_set_track E t en c =
     (let w = cf_world c; name = str_arg t 1; k = free_slot (le_tracks (entries w en)) in
      if k = MAX_TRACKS then Inr (c, -1)
      else then_do (find_track w name [0..<LIVE_MAX_TRACKS]) (\<lambda>found.
        case found of
          Some i \<Rightarrow> (let (w, r) = join_track en k i w in Inr (c\<lparr>cf_world := w\<rparr>, r))
        | None \<Rightarrow>
            (case find (\<lambda>i. lt_media (tracks w i) = None) [0..<LIVE_MAX_TRACKS] of
               None \<Rightarrow> Inr (c\<lparr>cf_world := set_entry_track en k None w\<rparr>, -1)
             | Some i \<Rightarrow>
                 (case connect_to_stream (streams_of w) name live_formats of
                    (g, None) \<Rightarrow> Inr (c, -1)
                  | (g, Some d) \<Rightarrow>
                      then_do (media_for E (c\<lparr>cf_world := w\<lparr>streams_of := g\<rparr>\<rparr>) (dest_stream g d)) (\<lambda>m.
                        let w = upd_track i (\<lambda>T. T\<lparr>lt_dest := d\<rparr>) (w\<lparr>streams_of := g\<rparr>) in
                        case m of
                          None \<Rightarrow> Inr (c\<lparr>cf_world := w\<rparr>, -1)
                        | Some (m, ratio) \<Rightarrow>
                            then_do (checked (world_set_waiting (upd_track i (\<lambda>T. T\<lparr>lt_media := Some m, lt_tick2ts := ratio\<rparr>) w) d True)) (\<lambda>w.
                              Inr (c\<lparr>cf_world := upd_track i (\<lambda>T. T\<lparr>lt_name := take SZNAME name, lt_entries := en # tl (lt_entries T)\<rparr>)
                                       (set_entry_track en k (Some i) w)\<rparr>, 0)))))))"

text \<open>Texts that do not fit into the arrays of a location.\<close>

definition new_rtsp_location :: "string \<Rightarrow> string \<Rightarrow> string \<Rightarrow> string \<Rightarrow> nat \<Rightarrow> world \<Rightarrow> world conf_res" where
  "new_rtsp_location path realm username password en w =
     (if 256 \<le> length path \<or> 128 \<le> length realm \<or> 128 \<le> length username \<or> 128 \<le> length password then Inl Crashed
      else Inr (w\<lparr>rtsp_loc_list := \<lparr>loc_path = path, loc_realm = realm, loc_username = username, loc_password = password,
                                    loc_private = en\<rparr> # rtsp_loc_list w\<rparr>))"

definition live_set_path :: "token list \<Rightarrow> nat \<Rightarrow> config \<Rightarrow> (config \<times> int) conf_res" where
  "live_set_path t en c =
     (if length t = 2 then
        then_do (new_rtsp_location (str_arg t 1) [] [] [] en (cf_world c)) (\<lambda>w. Inr (c\<lparr>cf_world := w\<rparr>, 0))
      else if length t = 5 then
        then_do (new_rtsp_location (str_arg t 1) (str_arg t 2) (str_arg t 3) (str_arg t 4) en (cf_world c))
          (\<lambda>w. Inr (c\<lparr>cf_world := w\<rparr>, 0))
      else Inr (c, -1))"

section \<open>HTTP outputs\<close>

definition output_start_block :: "env \<Rightarrow> config \<Rightarrow> config \<times> nat option" where
  "output_start_block E c =
     (let l = cf_new_loc c
      in (c\<lparr>cf_world := http_start_block (cf_world c) l (e_path E), cf_http_input := (cf_http_input c)(l := None), cf_new_loc := l + 1\<rparr>, Some l))"

definition output_set_input :: "token list \<Rightarrow> nat \<Rightarrow> config \<Rightarrow> (config \<times> int) conf_res" where
  "output_set_input t l c =
     (case connect_to_stream (streams_of (cf_world c)) (str_arg t 1) [FORMAT_JPEG] of
        (g, d) \<Rightarrow> Inr (c\<lparr>cf_world := (cf_world c)\<lparr>streams_of := g\<rparr>, cf_http_input := (cf_http_input c)(l := d)\<rparr>,
                      if d = None then -1 else 0))"

definition output_set_path :: "token list \<Rightarrow> nat \<Rightarrow> config \<Rightarrow> (config \<times> int) conf_res" where
  "output_set_path t l c =
     (if 256 \<le> length (str_arg t 1) then Inl Crashed
      else Inr (c\<lparr>cf_world := http_set_path (cf_world c) l (str_arg t 1)\<rparr>, 0))"

definition output_set_mode :: "token list \<Rightarrow> nat \<Rightarrow> config \<Rightarrow> (config \<times> int) conf_res" where
  "output_set_mode t l c =
     (case http_set_mode (cf_world c) l (str_arg t 1) of None \<Rightarrow> Inr (c, -1) | Some w \<Rightarrow> Inr (c\<lparr>cf_world := w\<rparr>, 0))"

definition output_end_block :: "nat \<Rightarrow> config \<Rightarrow> (config \<times> int) conf_res" where
  "output_end_block l c =
     (case cf_http_input c l of
        None \<Rightarrow> Inr (c, -1)
      | Some d \<Rightarrow>
          if hl_path (http_locs (cf_world c) l) ! 0 = NUL then Inr (c, -1)
          else then_do (checked (world_set_waiting (cf_world c) d True)) (\<lambda>w. Inr (c\<lparr>cf_world := w\<rparr>, 0)))"

section \<open>The tables\<close>

text \<open>Once the program has stopped, nothing happens any more.\<close>

definition directive_of :: "(token list \<Rightarrow> config \<Rightarrow> (config \<times> int) conf_res) \<Rightarrow> token list \<Rightarrow> config conf_res \<Rightarrow> config conf_res \<times> int" where
  "directive_of f t r =
     (case r of
        Inl e \<Rightarrow> (Inl e, -1)
      | Inr c \<Rightarrow> (case f t c of Inl e \<Rightarrow> (Inl e, -1) | Inr (c, n) \<Rightarrow> (Inr c, n)))"

definition start_of :: "(config \<Rightarrow> config \<times> nat option) \<Rightarrow> config conf_res \<Rightarrow> config conf_res \<times> nat option" where
  "start_of f r = (case r of Inl e \<Rightarrow> (Inl e, None) | Inr c \<Rightarrow> (case f c of (c, d) \<Rightarrow> (Inr c, d)))"

definition in_block :: "(token list \<Rightarrow> nat \<Rightarrow> config \<Rightarrow> (config \<times> int) conf_res) \<Rightarrow> token list \<Rightarrow> nat option \<Rightarrow> config conf_res \<Rightarrow> config conf_res \<times> int" where
  "in_block f t d r = (case d of None \<Rightarrow> (Inl Crashed, -1) | Some i \<Rightarrow> directive_of (\<lambda>t. f t i) t r)"

definition entry :: "string \<Rightarrow> (token list \<Rightarrow> nat option \<Rightarrow> config conf_res \<Rightarrow> config conf_res \<times> int) \<Rightarrow> nat \<Rightarrow> nat \<Rightarrow> kind list \<Rightarrow> config conf_res statement" where
  "entry name f mn mx ks = \<lparr>directive = name, process = f, min_args = mn, max_args = mx, types = ks\<rparr>"

definition global_statements :: "env \<Rightarrow> config conf_res statement list" where
  "global_statements E =
     [entry ''port'' (\<lambda>t _. directive_of (do_config_port E) t) 1 1 [K_NUM],
      entry ''rtprange'' (\<lambda>t _. directive_of do_config_rtprange t) 2 2 [K_NUM, K_NUM],
      entry ''frameheap'' (\<lambda>t _. directive_of config_frameheap t) 1 2 [K_NUM, K_NUM],
      entry ''contry'' (\<lambda>t _. directive_of config_wifi_country t) 1 1 [K_NUM],
      entry ''droprate'' (\<lambda>t _. directive_of config_droprate t) 1 1 [K_NUM],
      entry ''signalquality'' (\<lambda>t _. directive_of config_wifi_signal_quality t) 1 1 [K_NUM],
      entry ''signaldiff'' (\<lambda>t _. directive_of config_wifi_signal_diff t) 1 1 [K_NUM],
      entry ''ssid'' (\<lambda>t _. directive_of config_wifi_ssid t) 1 1 [K_STR],
      entry ''address'' (\<lambda>t _. directive_of (config_wifi_address E) t) 1 1 [K_STR]]"

definition log_statements :: "env \<Rightarrow> config conf_res statement list" where
  "log_statements E = [entry ''file'' (\<lambda>t _. directive_of (log_set_file E) t) 1 1 [K_STR]]"

definition video_statements :: "env \<Rightarrow> config conf_res statement list" where
  "video_statements E =
     [entry ''device'' (in_block set_device) 1 1 [K_STR],
      entry ''output'' (in_block (video_set_output E)) 1 1 [K_STR],
      entry ''format'' (in_block video_set_format) 1 1 [K_STR],
      entry ''framerate'' (in_block set_framerate_num) 1 1 [K_NUM],
      entry ''framesize'' (in_block set_framesize) 2 2 [K_NUM, K_NUM],
      entry ''port'' (in_block set_port) 1 1 [K_NUM]]"

definition audio_statements :: "config conf_res statement list" where
  "audio_statements =
     [entry ''device'' (in_block set_device) 1 1 [K_STR],
      entry ''output'' (in_block audio_set_output) 1 1 [K_STR],
      entry ''format'' (in_block audio_set_format) 1 1 [K_STR],
      entry ''framerate'' (in_block set_framerate_num) 1 1 [K_NUM],
      entry ''framesize'' (in_block set_framesize) 2 2 [K_NUM, K_NUM],
      entry ''port'' (in_block set_port) 1 1 [K_NUM]]"

definition live_statements :: "env \<Rightarrow> config conf_res statement list" where
  "live_statements E =
     [entry ''track'' (in_block (live_set_track E)) 1 1 [K_STR],
      entry ''path'' (in_block live_set_path) 1 4 [K_STR, K_STR, K_STR, K_STR]]"

definition output_statements :: "config conf_res statement list" where
  "output_statements =
     [entry ''input'' (in_block output_set_input) 1 1 [K_STR],
      entry ''path'' (in_block output_set_path) 1 1 [K_STR],
      entry ''mode'' (in_block output_set_mode) 1 1 [K_STR]]"

definition log_module :: "env \<Rightarrow> config conf_res config_context" where
  "log_module E = \<lparr>cc_type = ''log'', cc_name = ''file'', start_block = None, end_block = None, statements = log_statements E\<rparr>"

definition video_module :: "env \<Rightarrow> config conf_res config_context" where
  "video_module E = \<lparr>cc_type = ''input'', cc_name = ''video'', start_block = Some (start_of video_start_block),
     end_block = Some (in_block (\<lambda>_. video_end_block E) []), statements = video_statements E\<rparr>"

definition audio_module :: "config conf_res config_context" where
  "audio_module = \<lparr>cc_type = ''input'', cc_name = ''audio'', start_block = Some (start_of audio_start_block),
     end_block = Some (in_block (\<lambda>_. audio_end_block) []), statements = audio_statements\<rparr>"

definition live_module :: "env \<Rightarrow> config conf_res config_context" where
  "live_module E = \<lparr>cc_type = ''rtsp-handler'', cc_name = ''live'', start_block = Some (start_of live_start_block),
     end_block = Some (in_block (\<lambda>_. live_end_block) []), statements = live_statements E\<rparr>"

definition output_module :: "env \<Rightarrow> config conf_res config_context" where
  "output_module E = \<lparr>cc_type = ''output'', cc_name = ''http'', start_block = Some (start_of (output_start_block E)),
     end_block = Some (in_block (\<lambda>_. output_end_block) []), statements = output_statements\<rparr>"

definition modules :: "env \<Rightarrow> config conf_res config_context list" where
  "modules E = foldl register_config_context [] [log_module E, video_module E, audio_module, live_module E, output_module E]"

end
