(* ===== verification/Conf_Invariant.thy ===== *)
theory Conf_Invariant
  imports Conf_Parse
begin

text \<open>
  The interface between the parser and the modules that register their contexts with it, as a
  locale: what the modules promise of their directives, and what then holds when a text has been read.
\<close>

section \<open>The tokens of a text\<close>

text \<open>A text without the character 0 and without an empty quotation.\<close>

definition text_ok :: "string \<Rightarrow> bool" where
  "text_ok s \<longleftrightarrow> NUL \<notin> set s \<and> (\<forall>a b. s \<noteq> a @ QUOTE # QUOTE # b)"

fun good_token :: "token \<Rightarrow> bool" where
  "good_token (TOKEN_NUM n) \<longleftrightarrow> \<bar>n\<bar> \<le> 2 ^ 31"
| "good_token (TOKEN_STR s) \<longleftrightarrow> s \<noteq> [] \<and> NUL \<notin> set s"
| "good_token (Punct c) \<longleftrightarrow> True"

lemma text_ok_drop: "text_ok s \<Longrightarrow> text_ok (drop n s)"
proof -
  assume s: "text_ok s"
  have "drop n s \<noteq> a @ QUOTE # QUOTE # b" for a b
  proof
    assume "drop n s = a @ QUOTE # QUOTE # b"
    then have "s = (take n s @ a) @ QUOTE # QUOTE # b" by (metis append_assoc append_take_drop_id)
    moreover have "s \<noteq> (take n s @ a) @ QUOTE # QUOTE # b" using s unfolding text_ok_def by blast
    ultimately show False by blast
  qed
  with s show ?thesis by (auto simp: text_ok_def dest: in_set_dropD)
qed

lemma int_of_long_bound: "\<bar>int_of_long n\<bar> \<le> 2 ^ 31"
  by (auto simp: int_of_long_def abs_le_iff)

lemma cstr_same: "NUL \<notin> set s \<Longrightarrow> cstr s 0 = s"
  by (auto simp: cstr_def takeWhile_eq_all_conv)

lemma word_matched: "match_len R_word s \<noteq> 0 \<Longrightarrow> take (match_len R_word s) s \<noteq> []"
  by (cases s) auto

lemma quoted_matched:
  assumes "match_len R_quoted s \<noteq> 0" "text_ok s"
  shows "butlast (tl (take (match_len R_quoted s) s)) \<noteq> []"
proof -
  obtain c r where s: "s = c # r" using assms(1) by (cases s) auto
  let ?b = "takeWhile (\<lambda>x. x \<noteq> QUOTE \<and> x \<noteq> LF) r"
  have m: "match_len R_quoted s = length ?b + 2" "c = QUOTE" and q: "drop (length ?b) r \<noteq> []" "hd (drop (length ?b) r) = QUOTE"
    using assms(1) by (auto simp: s Let_def split: if_splits)
  have "?b @ drop (length ?b) r = r" unfolding dropWhile_eq_drop [symmetric] by (rule takeWhile_dropWhile_id)
  moreover have "drop (length ?b) r = QUOTE # tl (drop (length ?b) r)" using q list.collapse by metis
  ultimately have r: "r = ?b @ QUOTE # tl (drop (length ?b) r)" by metis
  have "?b \<noteq> []"
  proof
    assume "?b = []"
    then have "s = [] @ QUOTE # QUOTE # tl (drop (length ?b) r)" using r m(2) s by (metis append_Nil)
    moreover have "s \<noteq> [] @ QUOTE # QUOTE # tl (drop (length ?b) r)" using assms(2) unfolding text_ok_def by blast
    ultimately show False by blast
  qed
  moreover have "tl (take (match_len R_quoted s) s) = ?b @ [QUOTE]"
  proof -
    have "take (length ?b + 1) (?b @ QUOTE # tl (drop (length ?b) r)) = ?b @ [QUOTE]" by simp
    then have "take (length ?b + 1) r = ?b @ [QUOTE]" using r by metis
    moreover have "tl (take (length ?b + 2) (c # r)) = take (length ?b + 1) r" by simp
    ultimately show ?thesis using m(1) s by metis
  qed
  ultimately show ?thesis by (simp only: butlast_snoc not_False_eq_True)
qed

lemma best_rule_Nil: "best_rule [] = R_oct"
  by (simp add: best_rule_def)

lemma act_good:
  assumes "act (best_rule s) (take (matched s) s) rest line = Token t rest' line'" "text_ok s"
  shows "good_token t"
proof (cases "best_rule s")
  case R_word
  then have "matched s = match_len R_word s" by (simp add: matched_def)
  moreover have "s \<noteq> []"
  proof
    assume "s = []"
    with R_word show False by (simp add: best_rule_Nil)
  qed
  then have "0 < matched s" by (rule matched_pos)
  ultimately have ne: "take (matched s) s \<noteq> []" using word_matched by simp
  have nul: "NUL \<notin> set (take (matched s) s)" using assms(2) by (auto simp: text_ok_def dest: in_set_takeD)
  have "t = TOKEN_STR (take (matched s) s)"
    using assms(1) R_word cstr_same [OF nul] by (simp add: string_token_def split: if_splits)
  with ne nul show ?thesis by simp
next
  case R_quoted
  then have m: "matched s = match_len R_quoted s" by (simp add: matched_def)
  have t: "t = TOKEN_STR (cstr (butlast (tl (take (matched s) s))) 0)"
    using assms(1) R_quoted by (simp add: string_token_def split: if_splits)
  show ?thesis
  proof (cases "match_len R_quoted s = 0")
    case True
    have "s = []" using True m matched_pos [of s] by linarith
    with R_quoted show ?thesis by (simp add: best_rule_Nil)
  next
    case False
    have "tl (take (matched s) s) = drop 1 (take (matched s) s)" by (simp add: drop_Suc)
    then have "NUL \<notin> set (butlast (tl (take (matched s) s)))"
      using assms(2) by (auto simp: text_ok_def dest!: in_set_butlastD in_set_dropD in_set_takeD)
    with quoted_matched [OF False assms(2)] t m show ?thesis by (simp add: cstr_same)
  qed
qed (use assms int_of_long_bound in auto)

lemma lexed_good:
  "yylex s line = Token t rest line' \<Longrightarrow> text_ok s \<Longrightarrow> good_token t \<and> text_ok rest"
proof (induction s line rule: yylex.induct)
  case (1 s line)
  show ?case
  proof (cases "s = []")
    case True
    with 1(2) show ?thesis by (simp add: yylex.simps)
  next
    case False
    show ?thesis
    proof (cases "skips (best_rule s)")
      case True
      then show ?thesis using 1(1) [OF False refl refl True] 1(2,3) yylex_skip [OF False True] text_ok_drop by simp
    next
      case noskip: False
      have a: "act (best_rule s) (take (matched s) s) (drop (matched s) s) line = Token t rest line'"
        using 1(2) yylex_act [OF False noskip] by simp
      with act_rest [OF a] act_good [OF a 1(3)] text_ok_drop [OF 1(3)] show ?thesis by simp
    qed
  qed
qed

section \<open>The contract\<close>

locale config_modules =
  fixes G :: "'w statement list"
    and ctxs :: "'w config_context list"
    and Inv :: "'w \<Rightarrow> bool"
    and In_Block :: "'w config_context \<Rightarrow> nat option \<Rightarrow> 'w \<Rightarrow> bool"
  assumes global_inv: "s \<in> set G \<Longrightarrow> Inv w \<Longrightarrow> list_all good_token (n # args) \<Longrightarrow> args_match s args \<Longrightarrow>
      Inv (fst (process s (n # args) None w))"
    and start_inv: "cc \<in> set ctxs \<Longrightarrow> Inv w \<Longrightarrow> open_block cc w = (w', d, True) \<Longrightarrow> In_Block cc d w'"
    and block_inv: "cc \<in> set ctxs \<Longrightarrow> s \<in> set (statements cc) \<Longrightarrow> In_Block cc d w \<Longrightarrow> list_all good_token (n # args) \<Longrightarrow>
      args_match s args \<Longrightarrow> In_Block cc d (fst (process s (n # args) d w))"
    and end_inv: "cc \<in> set ctxs \<Longrightarrow> In_Block cc d w \<Longrightarrow> close_block cc d w = (w', True) \<Longrightarrow> Inv w'"
begin

text \<open>Where the parser stands.\<close>

definition here :: "'w config_context option \<Rightarrow> nat option \<Rightarrow> 'w \<Rightarrow> bool" where
  "here cc d w \<longleftrightarrow> (case cc of None \<Rightarrow> d = None \<and> Inv w | Some x \<Rightarrow> x \<in> set ctxs \<and> In_Block x d w)"

lemma statement_inv:
  assumes "here cc d w" "list_all good_token t"
    and "process_statement (case cc of None \<Rightarrow> G | Some x \<Rightarrow> statements x) d t w = (w', ok)"
  shows "here cc d w' \<or> \<not> ok"
proof (cases ok)
  case True
  let ?S = "case cc of None \<Rightarrow> G | Some x \<Rightarrow> statements x"
  obtain name args s where t: "t = TOKEN_STR name # args" "find (\<lambda>s. str_ieq (directive s) name \<and> args_match s args) ?S = Some s"
    "w' = fst (process s t d w)"
    using assms(3) True by (auto simp: process_statement_def split: list.splits token.splits option.splits)
  have s: "s \<in> set ?S" "args_match s args" using t(2) by (auto simp: find_Some_iff)
  show ?thesis
  proof (cases cc)
    case None
    with assms(1,2) s t(1,3) global_inv show ?thesis by (simp add: here_def)
  next
    case (Some x)
    with assms(1,2) s t(1,3) block_inv show ?thesis by (simp add: here_def)
  qed
qed simp

lemma read_loop_inv:
  assumes "here cc d w" "text_ok s" "length t = MAX_TOKENS" "cur < MAX_TOKENS" "list_all good_token (take cur t)"
    and "read_loop G ctxs s line t cur cc d w = Inr (w', True)"
  shows "\<exists>cc d. here cc d w'"
  using assms
proof (induction "length s" arbitrary: s line t cur cc d w rule: less_induct)
  case less
  note eq = less.prems(6) [unfolded read_loop.simps [of G ctxs s line t cur cc d w]]
  show ?case
  proof (cases "get_next_token s line")
    case (Token tok rest line')
    then have lex: "yylex s line = Token tok rest line'" by (simp add: get_next_token_def)
    note g = lexed_good [OF lex less.prems(2)] and short = yylex_shorter [OF lex]
    let ?t = "t[cur := tok]"
    have w: "wr t cur tok = Inr ?t" using less.prems(3,4) by (simp add: wr_def)
    have tk: "take cur ?t = take cur t" by simp
    note go = less.hyps [OF short, where t = ?t, OF _ conjunct2 [OF g]]
    have len: "length ?t = MAX_TOKENS" "0 < MAX_TOKENS" using less.prems(3) by (simp_all add: MAX_TOKENS_def)
    show ?thesis
    proof (cases "\<exists>c. tok = Punct c")
      case False
      then have a: "argument tok = token_ok tok" by (cases tok) simp_all
      have e: "(if cur + 1 = MAX_TOKENS then Inr (w, False) else read_loop G ctxs rest line' ?t (cur + 1) cc d w) = Inr (w', True)"
        using eq Token w False by (cases tok) (auto split: if_splits)
      then have n: "cur + 1 < MAX_TOKENS" using less.prems(4) by (auto split: if_splits)
      have "list_all good_token (take (cur + 1) ?t)"
        using less.prems(3-5) g by (simp add: take_Suc_conv_app_nth)
      with go [OF less.prems(1) len(1) n] e n show ?thesis by simp
    next
      case True
      then obtain c where c: "tok = Punct c" by blast
      consider (semi) "c = CHR '';''" | (op) "c = CHR ''{''" | (cl) "c = CHR ''}''" | (other) "c \<notin> set '';{}''" by auto
      then show ?thesis
      proof cases
        case semi
        obtain w1 ok where p: "process_statement (case cc of None \<Rightarrow> G | Some x \<Rightarrow> statements x) d (take cur t) w = (w1, ok)"
          by (cases "process_statement (case cc of None \<Rightarrow> G | Some x \<Rightarrow> statements x) d (take cur t) w")
        have "ok" "read_loop G ctxs rest line' ?t 0 cc d w1 = Inr (w', True)"
          using eq Token w c semi p by (auto split: if_splits)
        with statement_inv [OF less.prems(1,5) p] go [OF _ len] show ?thesis by auto
      next
        case op
        then have none: "cc = None" using eq Token w c by (auto split: if_splits)
        obtain x where x: "find_context ctxs (take cur t) = Some x"
          using eq Token w c op none by (auto split: option.splits)
        obtain w1 d1 ok where o: "open_block x w = (w1, d1, ok)" by (cases "open_block x w")
        have r: "ok" "read_loop G ctxs rest line' ?t 0 (Some x) d1 w1 = Inr (w', True)"
          using eq Token w c op none x o by (auto split: if_splits)
        have "x \<in> set ctxs" using x by (auto simp: find_context_def find_Some_iff split: list.splits token.splits)
        moreover have "open_block x w = (w1, d1, True)" "Inv w" using o r(1) less.prems(1) none by (simp_all add: here_def)
        ultimately have "here (Some x) d1 w1" using start_inv by (simp add: here_def)
        with go [OF _ len] r(2) show ?thesis by simp
      next
        case cl
        obtain x where x: "cc = Some x" using eq Token w c cl by (auto split: if_splits option.splits)
        obtain w1 ok where o: "close_block x d w = (w1, ok)" by (cases "close_block x d w")
        have r: "ok" "read_loop G ctxs rest line' ?t 0 None None w1 = Inr (w', True)"
          using eq Token w c cl x o by (auto split: if_splits)
        have "close_block x d w = (w1, True)" "x \<in> set ctxs" "In_Block x d w" using o r(1) less.prems(1) x by (simp_all add: here_def)
        then have "here None None w1" using end_inv by (simp add: here_def)
        with go [OF _ len] r(2) show ?thesis by simp
      next
        case other
        with eq Token w c show ?thesis by simp
      qed
    qed
  next
    case (End_Of_File l)
    with eq less.prems(1) show ?thesis by auto
  next
    case (Stray l)
    with eq less.prems(1) show ?thesis by auto
  qed (use eq in simp)
qed

text \<open>Whatever the text: when it has been accepted, the parser stands somewhere the modules promise something of.\<close>

lemma accepted:
  assumes "Inv w" "text_ok s" "length junk = MAX_TOKENS" "read_config_file G ctxs junk s w = Inr (w', True)"
  shows "\<exists>cc d. here cc d w'"
proof (rule read_loop_inv)
  show "here None None w" using assms(1) by (simp add: here_def)
  show "read_loop G ctxs s 1 junk 0 None None w = Inr (w', True)" using assms(4) by (simp add: read_config_file_def)
qed (use assms(2,3) in \<open>simp_all add: MAX_TOKENS_def\<close>)

lemma directives_inv:
  "x \<in> set ctxs \<Longrightarrow> In_Block x d w \<Longrightarrow> list_all (list_all good_token) ts \<Longrightarrow> exec_directives (statements x) d ts w = (w', True) \<Longrightarrow>
     In_Block x d w'"
proof (induction ts arbitrary: w)
  case (Cons t ts)
  obtain w1 ok where p: "process_statement (statements x) d t w = (w1, ok)" by (cases "process_statement (statements x) d t w")
  have "ok" using Cons.prems(4) p by (auto split: if_splits)
  with statement_inv [of "Some x" d w t w1 ok] Cons p show ?case by (auto simp: here_def)
qed simp

fun good_item :: "item \<Rightarrow> bool" where
  "good_item (Directive t) \<longleftrightarrow> list_all good_token t"
| "good_item (Block a b ts) \<longleftrightarrow> list_all (list_all good_token) ts"

lemma items_inv: "Inv w \<Longrightarrow> list_all good_item is \<Longrightarrow> exec_items G ctxs is w = (w', True) \<Longrightarrow> Inv w'"
proof (induction "is" arbitrary: w)
  case (Cons i "is")
  obtain w1 ok where p: "exec_item G ctxs i w = (w1, ok)" by (cases "exec_item G ctxs i w")
  have ok: "ok" "exec_items G ctxs is w1 = (w', True)" using Cons.prems(3) p by (auto split: if_splits)
  have "Inv w1"
  proof (cases i)
    case (Directive t)
    with statement_inv [of None None w t w1 ok] Cons.prems p ok show ?thesis by (simp add: here_def)
  next
    case (Block a b ts)
    obtain x where x: "find_context ctxs [TOKEN_STR a, TOKEN_STR b] = Some x" using p ok(1) Block by (auto split: option.splits)
    obtain w2 d2 ok2 where o: "open_block x w = (w2, d2, ok2)" by (cases "open_block x w")
    obtain w3 ok3 where e: "exec_directives (statements x) d2 ts w2 = (w3, ok3)" by (cases "exec_directives (statements x) d2 ts w2")
    have oks: "ok2" "ok3" "close_block x d2 w3 = (w1, True)" using p ok(1) Block x o e by (auto split: if_splits)
    have xc: "x \<in> set ctxs" using x by (auto simp: find_context_def find_Some_iff)
    have "In_Block x d2 w2" using start_inv [OF xc Cons.prems(1)] o oks(1) by simp
    moreover have "list_all (list_all good_token) ts" "exec_directives (statements x) d2 ts w2 = (w3, True)"
      using Cons.prems(2) Block e oks(2) by simp_all
    ultimately have "In_Block x d2 w3" by (rule directives_inv [OF xc])
    with end_inv [OF xc] oks(3) show ?thesis by blast
  qed
  with Cons.IH Cons.prems(2) ok(2) show ?case by simp
qed simp

end

end
