(* ===== verification/Config_Proofs.thy ===== *)
theory Config_Proofs
  imports Config Conf_Invariant Live_Frames
begin

text \<open>
  Every directive keeps the state well-formed, so that the server that a configuration starts is in
  a state from which it runs safely.
\<close>

section \<open>The invariant of the configuration\<close>

text \<open>No client has come yet.\<close>

definition quiet :: "world \<Rightarrow> bool" where
  "quiet w \<longleftrightarrow> conns w = (\<lambda>_. None) \<and> proto_state w = (\<lambda>_. No_State) \<and> conn_list w = [] \<and> endpoints w = (\<lambda>_. None) \<and>
     sessions w = (\<lambda>_. None) \<and> rs_tab w = (\<lambda>_. None) \<and> rs_list w = [] \<and> http_sess w = (\<lambda>_. None) \<and>
     (\<forall>en. le_sessions (entries w en) = []) \<and> (\<forall>l. hl_sess (http_locs w l) = [] \<and> hl_frame (http_locs w l) = None)"

text \<open>All streams are sources.\<close>

definition sources :: "graph \<Rightarrow> bool" where
  "sources g \<longleftrightarrow> (\<forall>s d. d \<in> set (st_dests (streams g s)) \<longleftrightarrow> d < next_dest g \<and> dest_stream g d = s) \<and>
     (\<forall>s d. st_set_running (streams g s) \<noteq> Up d) \<and>
     (\<forall>d<next_dest g. st_set_running (streams g (dest_stream g d)) = Source \<and> dest_stream g d < next_stream g) \<and>
     (\<forall>s\<in>set (stream_list g). s < next_stream g \<and> st_set_running (streams g s) = Source) \<and>
     (\<forall>s\<ge>next_stream g. \<not> running g s) \<and> (\<forall>s. stream_ok g s)"

definition tracks_inv :: "world \<Rightarrow> bool" where
  "tracks_inv w \<longleftrightarrow>
     (\<forall>i. \<not> lt_ready (tracks w i)) \<and>
     (\<forall>i. lt_media (tracks w i) = None \<longrightarrow> lt_entries (tracks w i) = [] \<and> lt_name (tracks w i) = []) \<and>
     (\<forall>i m. lt_media (tracks w i) = Some m \<longrightarrow>
        media_bounded m \<and> lt_dest (tracks w i) < next_dest (streams_of w) \<and> lt_name (tracks w i) \<noteq> []) \<and>
     (\<forall>i j. lt_media (tracks w i) \<noteq> None \<and> lt_media (tracks w j) \<noteq> None \<and> lt_dest (tracks w i) = lt_dest (tracks w j) \<longrightarrow> i = j)"

text \<open>The tracks of an entry fill its array from the beginning.\<close>

fun filled :: "nat option list \<Rightarrow> bool" where
  "filled (None # ts) \<longleftrightarrow> list_all (\<lambda>t. t = None) ts"
| "filled (Some t # ts) \<longleftrightarrow> filled ts"
| "filled [] \<longleftrightarrow> True"

definition entries_inv :: "world \<Rightarrow> bool" where
  "entries_inv w \<longleftrightarrow> (\<forall>en. length (le_tracks (entries w en)) = MAX_TRACKS \<and> filled (le_tracks (entries w en)) \<and>
     (\<forall>t. Some t \<in> set (le_tracks (entries w en)) \<longrightarrow> lt_media (tracks w t) \<noteq> None \<and> en \<in> set (lt_entries (tracks w t))))"

text \<open>\<open>op\<close> is the entry whose block is being read.\<close>

definition locs_inv :: "nat option \<Rightarrow> nat \<Rightarrow> world \<Rightarrow> bool" where
  "locs_inv op n w \<longleftrightarrow> (\<forall>l\<in>set (rtsp_loc_list w). NUL \<notin> set (loc_realm l) \<and> loc_private l < n \<and>
     (le_tracks (entries w (loc_private l)) ! 0 \<noteq> None \<or> op = Some (loc_private l))) \<and> (\<forall>en. op = Some en \<longrightarrow> en < n)"

definition inputs_inv :: "config \<Rightarrow> bool" where
  "inputs_inv c \<longleftrightarrow> (\<forall>i. in_fps (cf_inputs c i) \<le> 2 ^ 31) \<and>
     (\<forall>i r. in_rate (cf_inputs c i) = Some r \<longrightarrow> fst r = 1 \<and> 0 < snd r \<and> snd r \<le> 2 ^ 31)"

definition http_inv :: "config \<Rightarrow> bool" where
  "http_inv c \<longleftrightarrow> paths_ok (cf_world c) \<and> (\<forall>l d. cf_http_input c l = Some d \<longrightarrow> d < next_dest (streams_of (cf_world c)))"

definition config_inv :: "nat option \<Rightarrow> config \<Rightarrow> bool" where
  "config_inv op c \<longleftrightarrow> quiet (cf_world c) \<and> sources (streams_of (cf_world c)) \<and> tracks_inv (cf_world c) \<and> entries_inv (cf_world c) \<and>
     locs_inv op (cf_entries c) (cf_world c) \<and> inputs_inv c \<and> http_inv c"

section \<open>Such a state is well-formed\<close>

lemma filled_prefix: "filled ts \<Longrightarrow> j < length ts \<Longrightarrow> ts ! j \<noteq> None \<Longrightarrow> list_all (\<lambda>t. t \<noteq> None) (take (Suc j) ts)"
proof (induction ts arbitrary: j rule: filled.induct)
  case (1 ts)
  then show ?case by (cases j) (auto simp: list_all_length)
next
  case (2 t ts)
  then show ?case by (cases j) auto
qed simp

lemma sources_wf: "sources g \<Longrightarrow> wf_graph (\<lambda>_. 0) g"
  by (auto simp: sources_def wf_graph_def)

lemma quiet_links: "quiet w \<Longrightarrow> \<forall>s. sessions w s = None \<Longrightarrow> entries_inv w \<Longrightarrow> links_ok w"
  by (simp add: links_ok_def links_defs quiet_def)

lemma takeWhile_take_le: "length (takeWhile P (take n xs)) \<le> length (takeWhile P xs)"
  by (induction xs arbitrary: n) (simp_all add: take_Cons' split: nat.split)

lemma config_inv_config_ok:
  assumes "tracks_inv w" "entries_inv w"
  shows "config_ok w"
  unfolding config_ok_def
proof (intro conjI allI impI)
  fix en
  show "length (le_tracks (entries w en)) = MAX_TRACKS" using assms(2) by (simp add: entries_inv_def)
  fix j assume j: "j < MAX_TRACKS \<and> has_media w (le_tracks (entries w en) ! j)"
  let ?ts = "le_tracks (entries w en)"
  have len: "length ?ts = MAX_TRACKS" "filled ?ts" using assms(2) by (simp_all add: entries_inv_def)
  have all: "has_media w t" if "t \<in> set ?ts" "t \<noteq> None" for t
    using assms(2) that by (auto simp: entries_inv_def has_media_def)
  have "?ts ! j \<noteq> None" using j by (cases "?ts ! j") (auto simp: has_media_def)
  then have "list_all (\<lambda>t. t \<noteq> None) (take (Suc j) ?ts)" using filled_prefix len j by simp
  then have "\<forall>t\<in>set (take (Suc j) ?ts). has_media w t" using all by (auto simp: list_all_iff dest: in_set_takeD)
  then have "takeWhile (has_media w) (take (Suc j) ?ts) = take (Suc j) ?ts" by (simp add: takeWhile_eq_all_conv)
  moreover have "length (takeWhile (has_media w) (take (Suc j) ?ts)) \<le> length (takeWhile (has_media w) ?ts)"
    by (rule takeWhile_take_le)
  ultimately have "length (take (Suc j) ?ts) \<le> length (takeWhile (has_media w) ?ts)" by metis
  then show "j < length (entry_tracks w en)" using j len by (simp add: entry_tracks_def)
next
  fix en t assume "Some t \<in> set (le_tracks (entries w en))"
  with assms(2) show "en \<in> set (lt_entries (tracks w t))" by (simp add: entries_inv_def)
next
  fix t t' assume "used w t \<and> used w t' \<and> lt_dest (tracks w t) = lt_dest (tracks w t')"
  with assms show "t = t'" unfolding used_def entries_inv_def tracks_inv_def by metis
qed

lemma config_inv_graph_ok:
  assumes "sources (streams_of w)" "tracks_inv w" "entries_inv w"
  shows "graph_ok w"
proof -
  have "dest_ok (streams_of w) (lt_dest (tracks w t))" if "used w t" for t
  proof -
    have "lt_media (tracks w t) \<noteq> None" using that assms(3) by (auto simp: used_def entries_inv_def)
    then have "lt_dest (tracks w t) < next_dest (streams_of w)" using assms(2) by (auto simp: tracks_inv_def)
    with assms(1) show ?thesis by (simp add: sources_def dest_ok_def end_dest_def)
  qed
  with sources_wf [OF assms(1)] assms(1) show ?thesis by (auto simp: graph_ok_def sources_def)
qed

text \<open>The dimensions of the pictures are numbers of ten digits at most.\<close>

definition dims_ok :: "(nat \<Rightarrow> int \<times> int) \<Rightarrow> bool" where
  "dims_ok dims \<longleftrightarrow> (\<forall>d. \<bar>fst (dims d)\<bar> < 10 ^ 10 \<and> \<bar>snd (dims d)\<bar> < 10 ^ 10)"

lemma config_inv_server_ok:
  assumes "config_inv op c" "dims_ok dims"
    and "\<forall>l\<in>set (rtsp_loc_list (cf_world c)). le_tracks (entries (cf_world c) (loc_private l)) ! 0 \<noteq> None"
  shows "server_ok dims (cf_world c)"
proof -
  let ?w = "cf_world c"
  have inv: "quiet ?w" "sources (streams_of ?w)" "tracks_inv ?w" "entries_inv ?w" "locs_inv op (cf_entries c) ?w" "http_inv c"
    using assms(1) by (simp_all add: config_inv_def)
  have q: "conns ?w = (\<lambda>_. None)" "proto_state ?w = (\<lambda>_. No_State)" "sessions ?w = (\<lambda>_. None)" "http_sess ?w = (\<lambda>_. None)"
    "\<And>l. hl_sess (http_locs ?w l) = []" "\<And>l. hl_frame (http_locs ?w l) = None"
    using inv(1) by (simp_all add: quiet_def)
  have used: "lt_media (tracks ?w t) \<noteq> None" if "used ?w t" for t using that inv(4) by (auto simp: used_def entries_inv_def)
  have "links_ok ?w" using quiet_links [OF inv(1) _ inv(4)] q(3) by simp
  moreover have "eps_ok ?w" by (simp add: eps_ok_def q)
  moreover have "idle_ok ?w t" for t using inv(3) by (simp add: idle_ok_def tracks_inv_def)
  ultimately have "world_ok ?w"
    using config_inv_config_ok [OF inv(3,4)] config_inv_graph_ok [OF inv(2-4)] by (simp add: world_ok_def)
  moreover have "http_ok ?w" using inv(6) by (simp add: http_ok_def http_links_def pictures_ok_def q http_inv_def)
  moreover have "conns_wf ?w" by (simp add: conns_wf_def q)
  moreover have "static_ok dims ?w"
  proof -
    have mo: "media_ok ?w" using inv(3) by (auto simp: media_ok_def tracks_inv_def)
    have "track_fits dims ?w i t" if "i < MAX_TRACKS" "le_tracks (entries ?w en) ! i = Some t" for i t en
    proof -
      have "length (le_tracks (entries ?w en)) = MAX_TRACKS" using inv(4) by (simp add: entries_inv_def)
      then have "used ?w t" using that unfolding used_def by (metis nth_mem)
      then have "media_bounded m" if "lt_media (tracks ?w t) = Some m" for m using mo that by (simp add: media_ok_def)
      with media_fits that(1) assms(2) show ?thesis by (auto simp: track_fits_def dims_ok_def)
    qed
    with assms(3) mo inv(5) show ?thesis by (simp add: static_ok_def locs_ok_def sdp_fits_def locs_inv_def)
  qed
  ultimately show ?thesis by (simp add: server_ok_def)
qed

section \<open>The graph of streams\<close>

lemma sourcesD:
  assumes "sources g"
  shows "d \<in> set (st_dests (streams g s)) \<longleftrightarrow> d < next_dest g \<and> dest_stream g d = s" "st_set_running (streams g s) \<noteq> Up d"
    "d < next_dest g \<Longrightarrow> st_set_running (streams g (dest_stream g d)) = Source" "d < next_dest g \<Longrightarrow> dest_stream g d < next_stream g"
    "s \<in> set (stream_list g) \<Longrightarrow> st_set_running (streams g s) = Source" "s \<in> set (stream_list g) \<Longrightarrow> s < next_stream g"
    "next_stream g \<le> s \<Longrightarrow> \<not> running g s" "stream_ok g s"
  using assms by (simp_all add: sources_def)

lemma stream_ok_no_up: "st_set_running (streams g s) \<noteq> Up d \<Longrightarrow> stream_ok g s \<longleftrightarrow>
   (case st_set_running (streams g s) of No_Fn \<Rightarrow> \<not> any_waiting g s | Source \<Rightarrow> running g s = any_waiting g s | Up d \<Rightarrow> waiting g d = any_waiting g s)"
  by (simp add: stream_ok_def split: set_running_fn.split)

definition source_stream :: "graph \<Rightarrow> string \<Rightarrow> int \<Rightarrow> graph" where
  "source_stream g name fmt =
     (let (g, s) = new_stream g name fmt in g\<lparr>streams := (streams g)(s := (streams g s)\<lparr>st_set_running := Source\<rparr>)\<rparr>)"

lemma source_stream_ok:
  assumes "sources g"
  shows "sources (source_stream g name fmt)" "next_dest (source_stream g name fmt) = next_dest g"
proof -
  let ?s = "next_stream g" and ?g = "source_stream g name fmt"
  let ?st = "\<lparr>st_name = name, st_format = fmt, st_dests = [], st_set_running = Source\<rparr>"
  have eq: "streams ?g = (streams g)(?s := ?st)" "next_dest ?g = next_dest g" "dest_stream ?g = dest_stream g" "waiting ?g = waiting g"
    "running ?g = running g" "stream_list ?g = ?s # stream_list g" "next_stream ?g = ?s + 1"
    by (simp_all add: source_stream_def new_stream_def Let_def)
  note D = sourcesD [OF assms]
  have dest: "d < next_dest g \<Longrightarrow> dest_stream g d \<noteq> ?s" for d using D(4) [of d] by auto
  have "stream_ok ?g s" for s
  proof (cases "s = ?s")
    case True
    then show ?thesis using D(7) [of ?s] by (simp add: stream_ok_def any_waiting_def eq)
  next
    case False
    then have "streams ?g s = streams g s" by (simp add: eq(1))
    moreover from this have "any_waiting ?g s = any_waiting g s" by (simp only: any_waiting_def eq(4))
    ultimately show ?thesis using D(8) [of s] by (simp add: stream_ok_def eq(4,5) split: set_running_fn.splits)
  qed
  then show "sources ?g" unfolding sources_def eq using D(1,2,3,4,5,6,7) dest by (auto simp: less_Suc_eq)
  show "next_dest ?g = next_dest g" by (rule eq)
qed

lemma new_dest_sources:
  assumes "sources g" "s \<in> set (stream_list g)" "new_dest g s = (g', d)"
  shows "sources g'" "d = next_dest g" "next_dest g' = d + 1" "dest_stream g' d = s" "\<not> waiting g' d"
proof -
  let ?st = "(streams g s)\<lparr>st_dests := next_dest g # st_dests (streams g s)\<rparr>"
  have eq: "d = next_dest g" "streams g' = (streams g)(s := ?st)" "next_dest g' = next_dest g + 1" "dest_stream g' = (dest_stream g)(d := s)"
    "waiting g' = (waiting g)(d := False)" "running g' = running g" "stream_list g' = stream_list g" "next_stream g' = next_stream g"
    using assms(3) by (auto simp: new_dest_def Let_def)
  note D = sourcesD [OF assms(1)]
  have "any_waiting g' t = any_waiting g t" for t
  proof -
    have "d \<notin> set (st_dests (streams g t))" using D(1) [of d t] by (simp add: eq(1))
    then show ?thesis by (auto simp: any_waiting_def eq(2,5) eq(1) [symmetric])
  qed
  then have "stream_ok g' t" for t using D(8) [of t] D(2) [of t] by (cases "st_set_running (streams g t)") (auto simp: stream_ok_def eq)
  moreover have "e \<in> set (st_dests (streams g' t)) \<longleftrightarrow> e < next_dest g' \<and> dest_stream g' e = t" for e t
    using D(1) [of e t] by (auto simp: eq less_Suc_eq)
  ultimately show "sources g'" unfolding sources_def
    using D(2,3,4,5,6,7) assms(2) by (auto simp: eq less_Suc_eq)
  show "d = next_dest g" "next_dest g' = d + 1" "dest_stream g' d = s" "\<not> waiting g' d" by (simp_all add: eq)
qed

text \<open>Nobody accepts RGB, so no converter is inserted.\<close>

lemma connect_sources:
  assumes "sources g" "connect_to_stream g name formats = (g', r)" "formats \<noteq> []" "FORMAT_RAW_RGB24 \<notin> set formats"
  shows "sources g'" "r = None \<Longrightarrow> g' = g" "next_dest g \<le> next_dest g'"
    "r = Some d \<Longrightarrow> d = next_dest g \<and> next_dest g' = d + 1 \<and> \<not> waiting g' d"
proof -
  have nc: "\<not> format_match FORMAT_RAW_RGB24 formats" using assms(3,4) by (simp add: format_match_def)
  have "find (\<lambda>s. st_name (streams g s) = name \<and> st_format (streams g s) = FORMAT_RAW_UYVY \<and>
      format_match FORMAT_RAW_RGB24 formats) (stream_list g) = None" using nc by (simp add: find_None_iff)
  then have cases: "(\<exists>s\<in>set (stream_list g). \<exists>d. new_dest g s = (g', d) \<and> r = Some d) \<or> g' = g \<and> r = None"
    using assms(2) by (auto simp: connect_to_stream_def find_Some_iff split: option.splits prod.splits)
  then show "sources g'" "r = None \<Longrightarrow> g' = g" "next_dest g \<le> next_dest g'"
    "r = Some d \<Longrightarrow> d = next_dest g \<and> next_dest g' = d + 1 \<and> \<not> waiting g' d"
    using new_dest_sources [OF assms(1)] assms(1) by fastforce+
qed

lemma wait_sources:
  assumes "sources (streams_of w)" "d < next_dest (streams_of w)"
  shows "\<exists>g. world_set_waiting w d True = Inr (w\<lparr>streams_of := g\<rparr>) \<and> sources g \<and> next_dest g = next_dest (streams_of w)"
proof -
  let ?g = "streams_of w" and ?s = "dest_stream (streams_of w) d"
  note D = sourcesD [OF assms(1)]
  have src: "st_set_running (streams ?g ?s) = Source" using D(3) assms(2) by blast
  show ?thesis
  proof (cases "waiting ?g d")
    case True
    then have "set_waiting ?g d True = Some (Inr ?g)" by (subst set_waiting.simps) simp
    then have "world_set_waiting w d True = Inr (w\<lparr>streams_of := ?g\<rparr>)" by (simp add: world_set_waiting_def)
    with assms(1) show ?thesis by blast
  next
    case False
    let ?g2 = "?g\<lparr>waiting := (waiting ?g)(d := True), running := (running ?g)(?s := True)\<rparr>"
    have sw: "set_waiting ?g d True = Some (Inr ?g2)" using False src by (subst set_waiting.simps) (simp add: Let_def)
    have any: "any_waiting ?g2 t \<longleftrightarrow> t = ?s \<or> any_waiting ?g t" for t
      using D(1) [of d t] assms(2) by (auto simp: any_waiting_def)
    have "stream_ok ?g2 t" for t
      using D(8) [of t] D(2) [of t] any [of t] src by (cases "st_set_running (streams ?g t)") (auto simp: stream_ok_def)
    then have "sources ?g2" unfolding sources_def using D(1-7) assms(2) by (auto simp: less_le_not_le)
    with sw show ?thesis by (intro exI [of _ ?g2]) (simp add: world_set_waiting_def)
  qed
qed

section \<open>Each directive\<close>

lemma config_inv_upd [simp]:
  "config_inv op (c\<lparr>cf_ports := a1\<rparr>) = config_inv op c" "config_inv op (c\<lparr>cf_range := a2\<rparr>) = config_inv op c"
  "config_inv op (c\<lparr>cf_heap := a3\<rparr>) = config_inv op c" "config_inv op (c\<lparr>cf_wireless := a4\<rparr>) = config_inv op c"
  "config_inv op (c\<lparr>cf_private := a5\<rparr>) = config_inv op c" "config_inv op (c\<lparr>cf_video := a6\<rparr>) = config_inv op c"
  "config_inv op (c\<lparr>cf_audio := a7\<rparr>) = config_inv op c" "config_inv op (c\<lparr>cf_new_input := a8\<rparr>) = config_inv op c"
  "config_inv op (c\<lparr>cf_new_loc := a9\<rparr>) = config_inv op c" "config_inv op (c\<lparr>cf_log := a10\<rparr>) = config_inv op c"
  by (simp_all add: config_inv_def inputs_inv_def http_inv_def)

lemma upd_input_inv:
  assumes "config_inv op c" "in_fps (f (cf_inputs c i)) \<le> 2 ^ 31"
    "\<And>r. in_rate (f (cf_inputs c i)) = Some r \<Longrightarrow> fst r = 1 \<and> 0 < snd r \<and> snd r \<le> 2 ^ 31"
  shows "config_inv op (upd_input i f c)"
  using assms by (auto simp: config_inv_def inputs_inv_def http_inv_def upd_input_def)

lemma inputs_invD:
  assumes "config_inv op c"
  shows "in_fps (cf_inputs c i) \<le> 2 ^ 31"
    "in_rate (cf_inputs c i) = Some r \<Longrightarrow> fst r = 1 \<and> 0 < snd r \<and> snd r \<le> 2 ^ 31"
  using assms unfolding config_inv_def inputs_inv_def by blast+

lemma upd_input_same:
  assumes "config_inv op c" "\<And>v. in_fps (f v) = in_fps v" "\<And>v. in_rate (f v) = in_rate v"
  shows "config_inv op (upd_input i f c)"
  using inputs_invD [OF assms(1)] assms(2,3) by (intro upd_input_inv [OF assms(1)]) simp_all

lemma num_arg_bound: "list_all good_token t \<Longrightarrow> i < length t \<Longrightarrow> num_arg t i \<le> 2 ^ 31"
proof -
  assume "list_all good_token t" "i < length t"
  then have "good_token (t ! i)" by (simp add: list_all_length)
  then show ?thesis by (cases "t ! i") (auto simp: abs_le_iff)
qed

lemma str_arg_good:
  assumes "list_all good_token t" "i < length t"
  shows "NUL \<notin> set (str_arg t i)"
proof -
  have "good_token (t ! i)" using assms by (simp add: list_all_length)
  then show ?thesis by (cases "t ! i") auto
qed

subsection \<open>Global directives\<close>

lemmas global_defs = do_config_port_def do_config_rtprange_def config_frameheap_def config_wifi_country_def config_droprate_def
  config_wifi_signal_quality_def config_wifi_signal_diff_def config_wifi_ssid_def config_wifi_address_def log_set_file_def upd_wireless_def Let_def

lemma global_directives_inv:
  assumes "config_inv op c"
  shows "do_config_port E t c = Inr (c', n) \<Longrightarrow> config_inv op c'" "do_config_rtprange t c = Inr (c', n) \<Longrightarrow> config_inv op c'"
    "config_frameheap t c = Inr (c', n) \<Longrightarrow> config_inv op c'" "config_wifi_country t c = Inr (c', n) \<Longrightarrow> config_inv op c'"
    "config_droprate t c = Inr (c', n) \<Longrightarrow> config_inv op c'" "config_wifi_signal_quality t c = Inr (c', n) \<Longrightarrow> config_inv op c'"
    "config_wifi_signal_diff t c = Inr (c', n) \<Longrightarrow> config_inv op c'" "config_wifi_ssid t c = Inr (c', n) \<Longrightarrow> config_inv op c'"
    "config_wifi_address E t c = Inr (c', n) \<Longrightarrow> config_inv op c'" "log_set_file E t c = Inr (c', n) \<Longrightarrow> config_inv op c'"
  using assms by (auto simp: global_defs then_do_eq_Inr split: if_splits option.splits)

subsection \<open>Inputs\<close>

lemma input_stream_eq:
  "input_stream i name fmt c = upd_input i (\<lambda>v. v\<lparr>in_output := Some (next_stream (streams_of (cf_world c))), in_format := fmt\<rparr>)
     (c\<lparr>cf_world := (cf_world c)\<lparr>streams_of := source_stream (streams_of (cf_world c)) name fmt\<rparr>,
        cf_private := (cf_private c)(next_stream (streams_of (cf_world c)) := Some i)\<rparr>)"
  by (simp add: input_stream_def source_stream_def new_stream_def Let_def)

lemma graph_upd [simp]:
  "quiet (w\<lparr>streams_of := g\<rparr>) = quiet w" "entries_inv (w\<lparr>streams_of := g\<rparr>) = entries_inv w"
  "locs_inv op n (w\<lparr>streams_of := g\<rparr>) = locs_inv op n w" "paths_ok (w\<lparr>streams_of := g\<rparr>) = paths_ok w"
  by (simp_all add: quiet_def entries_inv_def locs_inv_def paths_ok_def)

lemma tracks_inv_mono:
  assumes "tracks_inv w" "next_dest (streams_of w) \<le> next_dest g"
  shows "tracks_inv (w\<lparr>streams_of := g\<rparr>)"
proof -
  have "lt_dest (tracks w i) < next_dest g" if "lt_media (tracks w i) = Some m" for i m
    using assms that unfolding tracks_inv_def by (meson less_le_trans)
  with assms(1) show ?thesis unfolding tracks_inv_def by simp
qed

lemma http_inv_mono:
  assumes "http_inv c" "next_dest (streams_of (cf_world c)) \<le> next_dest g"
  shows "http_inv (c\<lparr>cf_world := (cf_world c)\<lparr>streams_of := g\<rparr>\<rparr>)"
proof -
  have "d < next_dest g" if "cf_http_input c l = Some d" for l d
    using assms that unfolding http_inv_def by (meson less_le_trans)
  with assms(1) show ?thesis unfolding http_inv_def by simp
qed

lemma graph_upd_inv:
  assumes "config_inv op c" "sources g" "next_dest (streams_of (cf_world c)) \<le> next_dest g"
  shows "config_inv op (c\<lparr>cf_world := (cf_world c)\<lparr>streams_of := g\<rparr>\<rparr>)"
  using assms tracks_inv_mono [of "cf_world c" g] http_inv_mono [of c g] by (simp add: config_inv_def inputs_inv_def)

lemma input_stream_inv:
  assumes "config_inv op c"
  shows "config_inv op (input_stream i name fmt c)"
proof -
  let ?g = "streams_of (cf_world c)"
  have "sources ?g" using assms by (simp add: config_inv_def)
  note g = source_stream_ok [OF this, of name fmt]
  have "config_inv op (c\<lparr>cf_world := (cf_world c)\<lparr>streams_of := source_stream ?g name fmt\<rparr>\<rparr>)"
    using graph_upd_inv [OF assms g(1)] g(2) by simp
  then have "config_inv op (c\<lparr>cf_world := (cf_world c)\<lparr>streams_of := source_stream ?g name fmt\<rparr>,
      cf_private := (cf_private c)(next_stream ?g := Some i)\<rparr>)"
    by (simp only: config_inv_upd)
  then show ?thesis unfolding input_stream_eq by (rule upd_input_inv) (use inputs_invD [OF assms] in auto)
qed

lemma input_directives_inv:
  assumes "config_inv op c" "list_all good_token t"
  shows "set_device t i c = Inr (c', n) \<Longrightarrow> config_inv op c'" "video_set_output E t i c = Inr (c', n) \<Longrightarrow> config_inv op c'"
    "audio_set_output t i c = Inr (c', n) \<Longrightarrow> config_inv op c'" "video_set_format t i c = Inr (c', n) \<Longrightarrow> config_inv op c'"
    "audio_set_format t i c = Inr (c', n) \<Longrightarrow> config_inv op c'" "set_framesize t i c = Inr (c', n) \<Longrightarrow> config_inv op c'"
    "set_port t i c = Inr (c', n) \<Longrightarrow> config_inv op c'"
    "length t = 2 \<Longrightarrow> set_framerate_num t i c = Inr (c', n) \<Longrightarrow> config_inv op c'"
proof -
  note same = upd_input_same [OF assms(1)]
  show "set_device t i c = Inr (c', n) \<Longrightarrow> config_inv op c'" "video_set_format t i c = Inr (c', n) \<Longrightarrow> config_inv op c'"
    "set_framesize t i c = Inr (c', n) \<Longrightarrow> config_inv op c'" "set_port t i c = Inr (c', n) \<Longrightarrow> config_inv op c'"
    using assms(1) by (auto simp: set_device_def video_set_format_def set_framesize_def set_port_def same)
  show "audio_set_format t i c = Inr (c', n) \<Longrightarrow> config_inv op c'"
    using assms(1) by (auto simp: audio_set_format_def same split: if_splits)
  show "video_set_output E t i c = Inr (c', n) \<Longrightarrow> config_inv op c'" "audio_set_output t i c = Inr (c', n) \<Longrightarrow> config_inv op c'"
    using assms(1) input_stream_inv [OF assms(1)]
    by (auto simp: video_set_output_def audio_set_output_def split: codec.splits)
  assume t: "length t = 2" and r: "set_framerate_num t i c = Inr (c', n)"
  have "config_inv op (upd_input i (\<lambda>v. v\<lparr>in_fps := num_arg t 1\<rparr>) c)"
    by (rule upd_input_inv [OF assms(1)]) (use t num_arg_bound [OF assms(2)] inputs_invD(2) [OF assms(1)] in simp_all)
  with r assms(1) show "config_inv op c'" by (auto simp: set_framerate_num_def split: if_splits)
qed

lemma start_exchanger_inv:
  assumes "config_inv op c" "start_exchanger k i c = Inr (c', n)"
  shows "config_inv op c'"
proof -
  obtain ex h where "c' = upd_input i (\<lambda>v. v\<lparr>in_ex := Some ex\<rparr>) (c\<lparr>cf_heap := Some h\<rparr>)"
    using assms(2) by (auto simp: start_exchanger_def then_do_eq_Inr split: option.splits)
  then show ?thesis using assms(1) by (simp add: upd_input_same)
qed

lemma input_blocks_inv:
  assumes "config_inv op c"
  shows "config_inv op (fst (video_start_block c))" "config_inv op (fst (audio_start_block c))"
    "video_end_block E i c = Inr (c', n) \<Longrightarrow> config_inv op c'" "audio_end_block i c = Inr (c', n) \<Longrightarrow> config_inv op c'"
proof -
  have "config_inv op (upd_input i (\<lambda>_. new_input n) (c\<lparr>cf_new_input := m\<rparr>))" for i n m
    by (rule upd_input_inv) (use assms in \<open>simp_all add: new_input_def\<close>)
  then show "config_inv op (fst (video_start_block c))" "config_inv op (fst (audio_start_block c))"
    by (simp_all add: video_start_block_def audio_start_block_def upd_input_def Let_def)
  have rate: "config_inv op (upd_input i (\<lambda>v. v\<lparr>in_rate := Some (1, in_fps v)\<rparr>) c)"
    "config_inv op (upd_input i (\<lambda>v. v\<lparr>in_rate := Some (1, in_fps v), in_width := x v, in_height := y v\<rparr>) c)"
    if "0 < in_fps (cf_inputs c i)" for x y
    using that inputs_invD(1) [OF assms] by (auto intro!: upd_input_inv [OF assms])
  show "video_end_block E i c = Inr (c', n) \<Longrightarrow> config_inv op c'" "audio_end_block i c = Inr (c', n) \<Longrightarrow> config_inv op c'"
    using assms by (auto simp: video_end_block_def audio_end_block_def Let_def not_le split: if_splits
      intro: start_exchanger_inv [OF rate(2)] start_exchanger_inv [OF rate(1)])
qed

subsection \<open>RTSP handlers\<close>

lemma filled_none: "list_all (\<lambda>t. t = None) ts \<Longrightarrow> filled ts"
  by (cases ts) auto

lemma filled_set: "filled ts \<Longrightarrow> free_slot ts < length ts \<Longrightarrow> filled (ts[free_slot ts := Some i])"
  by (induction ts rule: filled.induct) (simp_all add: free_slot_def filled_none)

lemma free_slot_None: "free_slot ts < length ts \<Longrightarrow> ts[free_slot ts := None] = ts"
  by (induction ts) (auto simp: free_slot_def)

lemma entries_inv_set:
  assumes inv: "entries_inv w" and ts: "ts = le_tracks (entries w en)" and k: "free_slot ts < MAX_TRACKS"
    and w': "entries w' = (entries w)(en := (entries w en)\<lparr>le_tracks := ts[free_slot ts := Some i]\<rparr>)"
    and i: "lt_media (tracks w' i) \<noteq> None" "en \<in> set (lt_entries (tracks w' i))"
    and keep: "\<And>t e. lt_media (tracks w t) \<noteq> None \<Longrightarrow> e \<in> set (lt_entries (tracks w t)) \<Longrightarrow>
      lt_media (tracks w' t) \<noteq> None \<and> e \<in> set (lt_entries (tracks w' t))"
  shows "entries_inv w'"
  unfolding entries_inv_def
proof (intro allI conjI impI)
  fix e
  have old: "length (le_tracks (entries w e)) = MAX_TRACKS" "filled (le_tracks (entries w e))" for e
    using inv by (simp_all add: entries_inv_def)
  show "length (le_tracks (entries w' e)) = MAX_TRACKS" using old ts by (simp add: w')
  show "filled (le_tracks (entries w' e))" using old ts k filled_set [of ts i] by (simp add: w')
  fix t assume t: "Some t \<in> set (le_tracks (entries w' e))"
  have "Some t \<in> set (le_tracks (entries w e)) \<or> e = en \<and> t = i"
    using t ts by (auto simp: w' split: if_splits dest!: set_update_subset_insert [THEN subsetD])
  moreover have "lt_media (tracks w' t) \<noteq> None \<and> e \<in> set (lt_entries (tracks w' t))" if "Some t \<in> set (le_tracks (entries w e))"
    using inv that keep unfolding entries_inv_def by blast
  ultimately show "lt_media (tracks w' t) \<noteq> None" "e \<in> set (lt_entries (tracks w' t))" using i by blast+
qed

lemma tracks_inv_new:
  assumes inv: "tracks_inv w" and i: "lt_media (tracks w i) = None" and T: "tracks w' = (tracks w)(i := T)" "lt_media T = Some m"
    "media_bounded m" "lt_dest T = next_dest (streams_of w)" "lt_name T \<noteq> []" "\<not> lt_ready T"
    and g: "next_dest (streams_of w') = next_dest (streams_of w) + 1"
  shows "tracks_inv w'"
proof -
  have old: "\<not> lt_ready (tracks w j)" "lt_media (tracks w j) = None \<Longrightarrow> lt_entries (tracks w j) = [] \<and> lt_name (tracks w j) = []"
    "lt_media (tracks w j) = Some n \<Longrightarrow> media_bounded n \<and> lt_dest (tracks w j) < next_dest (streams_of w) \<and> lt_name (tracks w j) \<noteq> []"
    "lt_media (tracks w j) \<noteq> None \<Longrightarrow> lt_media (tracks w l) \<noteq> None \<Longrightarrow> lt_dest (tracks w j) = lt_dest (tracks w l) \<Longrightarrow> j = l"
    for j n l using inv unfolding tracks_inv_def by blast+
  have less: "lt_dest (tracks w j) < next_dest (streams_of w)" if "lt_media (tracks w j) \<noteq> None" for j using old(3) that by blast
  show ?thesis unfolding tracks_inv_def
  proof (intro conjI allI impI)
    fix j l assume "lt_media (tracks w' j) \<noteq> None \<and> lt_media (tracks w' l) \<noteq> None \<and> lt_dest (tracks w' j) = lt_dest (tracks w' l)"
    then show "j = l" using old(4) [of j l] less [of j] less [of l] T by (auto split: if_splits)
  next
    fix j n assume "lt_media (tracks w' j) = Some n"
    then show "media_bounded n" "lt_dest (tracks w' j) < next_dest (streams_of w')" "lt_name (tracks w' j) \<noteq> []"
      using old(3) [of j n] T g by (auto split: if_splits)
  qed (use old(1,2) T in \<open>auto split: if_splits\<close>)
qed

lemma tracks_inv_same:
  assumes inv: "tracks_inv w" and T: "tracks w' = (tracks w)(i := T)" "lt_media T = lt_media (tracks w i)" "lt_name T = lt_name (tracks w i)"
    "lt_ready T = lt_ready (tracks w i)"
    "lt_media T \<noteq> None \<Longrightarrow> lt_dest T = lt_dest (tracks w i)" "lt_media T = None \<Longrightarrow> lt_entries T = lt_entries (tracks w i)"
    and g: "next_dest (streams_of w) \<le> next_dest (streams_of w')"
  shows "tracks_inv w'"
proof -
  have same: "lt_media (tracks w' j) = lt_media (tracks w j)" "lt_name (tracks w' j) = lt_name (tracks w j)"
    "lt_ready (tracks w' j) = lt_ready (tracks w j)" "lt_media (tracks w j) \<noteq> None \<Longrightarrow> lt_dest (tracks w' j) = lt_dest (tracks w j)"
    "lt_media (tracks w j) = None \<Longrightarrow> lt_entries (tracks w' j) = lt_entries (tracks w j)" for j using T by auto
  have old: "lt_media (tracks w j) = Some n \<Longrightarrow> media_bounded n \<and> lt_dest (tracks w j) < next_dest (streams_of w) \<and> lt_name (tracks w j) \<noteq> []"
    for j n using inv unfolding tracks_inv_def by blast
  have "lt_dest (tracks w' j) < next_dest (streams_of w')" if "lt_media (tracks w j) = Some n" for j n
    using old [OF that] same(4) [of j] that g by simp
  with inv show ?thesis unfolding tracks_inv_def same(1-3) using same(4,5) by (metis option.discI)
qed

lemma media_for_bounded:
  assumes "config_inv op c" "media_for E c' s = Inr (Some (m, r))" "cf_inputs c' = cf_inputs c"
  shows "media_bounded m"
proof -
  have rate: "i = 1 \<and> 0 < b \<and> b \<le> 2 ^ 31" if "stream_rate c' s = Inr (i, b)" for i b
    using that assms(3) inputs_invD(2) [OF assms(1)] by (auto simp: stream_rate_def split: option.splits)
  from assms(2) show ?thesis
    by (auto simp: media_for_def Let_def then_do_eq_Inr checked_eq_Inr media_bounded_def new_rtp_media_mpeg4_def m4_inv_def
      new_rtp_media_rawaudio_def split: if_splits dest!: rate)
qed

lemma live_start_inv:
  assumes "config_inv None c" "live_start_block c = (c', d)"
  shows "config_inv d c'"
proof -
  let ?w = "cf_world c" and ?n = "cf_entries c"
  let ?w' = "?w\<lparr>entries := (entries ?w)(?n := \<lparr>le_sessions = [], le_tracks = replicate MAX_TRACKS None\<rparr>)\<rparr>"
  have c': "c' = c\<lparr>cf_world := ?w', cf_entries := ?n + 1\<rparr>" "d = Some ?n" using assms(2) by (auto simp: live_start_block_def Let_def)
  have fresh: "loc_private l < ?n" "le_tracks (entries ?w (loc_private l)) ! 0 \<noteq> None" "NUL \<notin> set (loc_realm l)"
    if "l \<in> set (rtsp_loc_list ?w)" for l using assms(1) that by (auto simp: config_inv_def locs_inv_def)
  have "quiet ?w'" "sources (streams_of ?w')" "tracks_inv ?w'" using assms(1) by (simp_all add: config_inv_def quiet_def tracks_inv_def)
  moreover have "entries_inv ?w'" using assms(1) by (auto simp: config_inv_def entries_inv_def filled_none list_all_iff)
  moreover have "locs_inv (Some ?n) (?n + 1) ?w'" using fresh less_SucI by (fastforce simp: locs_inv_def)
  ultimately show ?thesis using assms(1) c' by (simp add: config_inv_def inputs_inv_def http_inv_def paths_ok_def)
qed

lemma live_end_inv:
  assumes "config_inv (Some en) c" "live_end_block en c = Inr (c', n)"
  shows "config_inv None c'"
proof -
  have "c' = c" "le_tracks (entries (cf_world c) en) ! 0 \<noteq> None"
    using assms(2) by (auto simp: live_end_block_def split: option.splits if_splits)
  with assms(1) show ?thesis by (auto simp: config_inv_def locs_inv_def)
qed

lemma location_inv:
  assumes "config_inv (Some en) c" "NUL \<notin> set (loc_realm l)" "loc_private l = en"
  shows "config_inv (Some en) (c\<lparr>cf_world := (cf_world c)\<lparr>rtsp_loc_list := l # rtsp_loc_list (cf_world c)\<rparr>\<rparr>)"
proof -
  let ?w' = "(cf_world c)\<lparr>rtsp_loc_list := l # rtsp_loc_list (cf_world c)\<rparr>"
  have "quiet ?w' = quiet (cf_world c)" "tracks_inv ?w' = tracks_inv (cf_world c)" "entries_inv ?w' = entries_inv (cf_world c)"
    "paths_ok ?w' = paths_ok (cf_world c)" by (simp_all add: quiet_def tracks_inv_def entries_inv_def paths_ok_def)
  moreover have "locs_inv (Some en) (cf_entries c) ?w'" using assms by (auto simp: config_inv_def locs_inv_def)
  ultimately show ?thesis using assms(1) by (simp add: config_inv_def inputs_inv_def http_inv_def)
qed

lemma live_set_path_inv:
  assumes "config_inv (Some en) c" "list_all good_token t" "live_set_path t en c = Inr (c', n)"
  shows "config_inv (Some en) c'"
proof -
  have "NUL \<notin> set (str_arg t 2)" if "length t = 5" using str_arg_good [OF assms(2), of 2] that by (simp del: str_arg.simps)
  with assms(1,3) location_inv [OF assms(1)] show ?thesis
    by (auto simp: live_set_path_def new_rtsp_location_def then_do_eq_Inr split: if_splits simp del: str_arg.simps)
qed

text \<open>The parts of the state that \<open>track\<close> does not touch.\<close>

definition same_rest :: "nat \<Rightarrow> world \<Rightarrow> world \<Rightarrow> bool" where
  "same_rest en w w' \<longleftrightarrow> (\<exists>g T E. w' = w\<lparr>streams_of := g, tracks := T, entries := (entries w)(en := (entries w en)\<lparr>le_tracks := E\<rparr>)\<rparr>)"

lemma same_restI:
  assumes "w' = w\<lparr>streams_of := streams_of w', tracks := tracks w', entries := entries w'\<rparr>"
    "entries w' = (entries w)(en := (entries w en)\<lparr>le_tracks := E\<rparr>)"
  shows "same_rest en w w'"
  using assms unfolding same_rest_def by metis

lemma track_inv:
  assumes inv: "config_inv (Some en) c" and w': "same_rest en (cf_world c) w'" and t: "tracks_inv w'" "entries_inv w'"
    and g: "sources (streams_of w')" "next_dest (streams_of (cf_world c)) \<le> next_dest (streams_of w')"
  shows "config_inv (Some en) (c\<lparr>cf_world := w'\<rparr>)"
proof -
  obtain h T X where eq: "w' = (cf_world c)\<lparr>streams_of := h, tracks := T, entries := (entries (cf_world c))(en := (entries (cf_world c) en)\<lparr>le_tracks := X\<rparr>)\<rparr>"
    using w' unfolding same_rest_def by blast
  have "quiet w'" "locs_inv (Some en) (cf_entries c) w'" "paths_ok w'"
    using inv by (auto simp: eq config_inv_def quiet_def locs_inv_def http_inv_def paths_ok_def)
  moreover have "d < next_dest (streams_of w')" if "cf_http_input c l = Some d" for l d
    using inv g(2) that by (auto simp: config_inv_def http_inv_def intro: less_le_trans)
  ultimately show ?thesis using inv t g(1) by (simp add: config_inv_def inputs_inv_def http_inv_def)
qed

lemma find_track_some:
  "find_track w name is = Inr (Some i) \<Longrightarrow> lt_name (tracks w i) = name"
  by (induction "is") (auto simp: Let_def split: if_splits)

lemma join_track_inv:
  assumes inv: "config_inv (Some en) c" and k: "free_slot (le_tracks (entries (cf_world c) en)) < MAX_TRACKS"
    and i: "lt_media (tracks (cf_world c) i) \<noteq> None"
    and r: "join_track en (free_slot (le_tracks (entries (cf_world c) en))) i (cf_world c) = (w', n)"
  shows "config_inv (Some en) (c\<lparr>cf_world := w'\<rparr>)"
proof -
  let ?w = "cf_world c" and ?ts = "le_tracks (entries (cf_world c) en)"
  have parts: "sources (streams_of ?w)" "tracks_inv ?w" "entries_inv ?w" using inv by (simp_all add: config_inv_def)
  have len: "length ?ts = MAX_TRACKS" using parts(3) by (simp add: entries_inv_def)
  show ?thesis
  proof (cases "LIVE_MAX_ENTRIES \<le> length (lt_entries (tracks ?w i))")
    case True
    then have "w' = ?w" using r k len by (auto simp: join_track_def set_entry_track_def free_slot_None)
    with inv show ?thesis by simp
  next
    case False
    let ?T = "(tracks ?w i)\<lparr>lt_entries := lt_entries (tracks ?w i) @ [en]\<rparr>"
    have w': "tracks w' = (tracks ?w)(i := ?T)" "streams_of w' = streams_of ?w"
      "entries w' = (entries ?w)(en := (entries ?w en)\<lparr>le_tracks := ?ts[free_slot ?ts := Some i]\<rparr>)"
      using r False by (auto simp: join_track_def upd_track_def set_entry_track_def)
    have "same_rest en ?w w'"
      by (rule same_restI [OF _ w'(3)]) (use r False in \<open>auto simp: join_track_def upd_track_def set_entry_track_def\<close>)
    moreover have "tracks_inv w'" by (rule tracks_inv_same [OF parts(2) w'(1)]) (use i w'(2) in simp_all)
    moreover have "entries_inv w'" by (rule entries_inv_set [OF parts(3) refl k w'(3)]) (use i w'(1) in auto)
    ultimately show ?thesis using track_inv [OF inv] parts(1) w'(2) by simp
  qed
qed

lemma new_track_inv:
  assumes inv: "config_inv (Some en) c" and k: "free_slot (le_tracks (entries (cf_world c) en)) < MAX_TRACKS"
    and i: "lt_media (tracks (cf_world c) i) = None"
    and con: "connect_to_stream (streams_of (cf_world c)) name live_formats = (g, Some d)"
    and m: "media_bounded m" and name: "name \<noteq> []"
    and w1: "world_set_waiting (upd_track i (\<lambda>T. T\<lparr>lt_media := Some m, lt_tick2ts := ratio\<rparr>)
               (upd_track i (\<lambda>T. T\<lparr>lt_dest := d\<rparr>) (cf_world c\<lparr>streams_of := g\<rparr>))) d True = Inr w1"
    and w': "w' = upd_track i (\<lambda>T. T\<lparr>lt_name := take SZNAME name, lt_entries := en # tl (lt_entries T)\<rparr>)
               (set_entry_track en (free_slot (le_tracks (entries (cf_world c) en))) (Some i) w1)"
  shows "config_inv (Some en) (c\<lparr>cf_world := w'\<rparr>)"
proof -
  let ?w = "cf_world c" and ?ts = "le_tracks (entries (cf_world c) en)"
  have parts: "sources (streams_of ?w)" "tracks_inv ?w" "entries_inv ?w" using inv by (simp_all add: config_inv_def)
  have "FORMAT_RAW_RGB24 \<notin> set live_formats" "live_formats \<noteq> []" by (simp_all add: live_formats_def)
  note g = connect_sources [OF parts(1) con this(2,1)]
  have d: "d = next_dest (streams_of ?w)" "next_dest g = d + 1" using g(4) by blast+
  let ?v = "upd_track i (\<lambda>T. T\<lparr>lt_media := Some m, lt_tick2ts := ratio\<rparr>) (upd_track i (\<lambda>T. T\<lparr>lt_dest := d\<rparr>) (?w\<lparr>streams_of := g\<rparr>))"
  have "streams_of ?v = g" by (simp add: upd_track_def)
  then obtain g2 where g2: "w1 = ?v\<lparr>streams_of := g2\<rparr>" "sources g2" "next_dest g2 = next_dest g"
    using wait_sources [of ?v d] g(1) d(2) w1 by auto
  let ?T = "(tracks ?w i)\<lparr>lt_dest := d, lt_media := Some m, lt_tick2ts := ratio, lt_name := take SZNAME name,
      lt_entries := en # tl (lt_entries (tracks ?w i))\<rparr>"
  have eq: "tracks w' = (tracks ?w)(i := ?T)" "streams_of w' = g2"
    "entries w' = (entries ?w)(en := (entries ?w en)\<lparr>le_tracks := ?ts[free_slot ?ts := Some i]\<rparr>)"
    by (simp_all add: w' g2(1) upd_track_def set_entry_track_def)
  have "same_rest en ?w w'"
    by (rule same_restI [OF _ eq(3)]) (simp add: w' g2(1) upd_track_def set_entry_track_def)
  moreover have "tracks_inv w'"
    by (rule tracks_inv_new [OF parts(2) i eq(1), where m = m])
      (use m name d g2(3) eq(2) parts(2) in \<open>simp_all add: tracks_inv_def SZNAME_def\<close>)
  moreover have "entries_inv w'"
    by (rule entries_inv_set [OF parts(3) refl k eq(3)]) (use i eq(1) in auto)
  ultimately show ?thesis using track_inv [OF inv] g2(2,3) d eq(2) by simp
qed

lemma live_set_track_inv:
  assumes inv: "config_inv (Some en) c" and t: "list_all good_token t" "length t = 2" "has_kind K_STR (t ! 1)"
    and r: "live_set_track E t en c = Inr (c', n)"
  shows "config_inv (Some en) c'"
proof -
  let ?w = "cf_world c" and ?name = "str_arg t 1" and ?k = "free_slot (le_tracks (entries (cf_world c) en))"
  have parts: "sources (streams_of ?w)" "tracks_inv ?w" "entries_inv ?w" using inv by (simp_all add: config_inv_def)
  have "good_token (t ! 1)" using t(1,2) by (simp add: list_all_length)
  with t(3) have name: "?name \<noteq> []" by (cases "t ! 1") auto
  have len: "length (le_tracks (entries ?w en)) = MAX_TRACKS" using parts(3) by (simp add: entries_inv_def)
  have k: "?k \<le> MAX_TRACKS" unfolding free_slot_def using length_takeWhile_le len by metis
  show ?thesis
  proof (cases "?k = MAX_TRACKS")
    case True
    with r inv show ?thesis by (simp add: live_set_track_def Let_def)
  next
    case False
    with k have k: "?k < MAX_TRACKS" by simp
    from r False obtain found where found: "find_track ?w ?name [0..<LIVE_MAX_TRACKS] = Inr found"
      by (auto simp: live_set_track_def Let_def then_do_eq_Inr simp del: str_arg.simps)
    note eq = r [unfolded live_set_track_def Let_def found, simplified False if_False then_do_simps]
    show ?thesis
    proof (cases found)
      case (Some i)
      then have "lt_name (tracks ?w i) = ?name" using found find_track_some by simp
      with parts(2) name have "lt_media (tracks ?w i) \<noteq> None" unfolding tracks_inv_def by metis
      with join_track_inv [OF inv k this] eq Some show ?thesis by (auto split: prod.splits)
    next
      case None
      note eq = eq [unfolded None option.case]
      show ?thesis
      proof (cases "find (\<lambda>i. lt_media (tracks ?w i) = None) [0..<LIVE_MAX_TRACKS]")
        case None
        then have "c' = c" using eq k len by (simp add: set_entry_track_def free_slot_None)
        with inv show ?thesis by simp
      next
        case (Some i)
        then have i: "lt_media (tracks ?w i) = None" by (auto simp: find_Some_iff)
        obtain g d where con: "connect_to_stream (streams_of ?w) ?name live_formats = (g, d)" by (cases "connect_to_stream (streams_of ?w) ?name live_formats")
        note eq = eq [unfolded Some con option.case prod.case]
        show ?thesis
        proof (cases d)
          case None
          with eq inv show ?thesis by simp
        next
          case (Some d)
          note con = con [unfolded Some] and eq = eq [unfolded Some option.case then_do_eq_Inr]
          have "FORMAT_RAW_RGB24 \<notin> set live_formats" "live_formats \<noteq> []" by (simp_all add: live_formats_def)
          note g = connect_sources [OF parts(1) con this(2,1)]
          obtain m where m: "media_for E (c\<lparr>cf_world := ?w\<lparr>streams_of := g\<rparr>\<rparr>) (dest_stream g d) = Inr m"
            "(case m of None \<Rightarrow> Inr (c\<lparr>cf_world := upd_track i (\<lambda>T. T\<lparr>lt_dest := d\<rparr>) (?w\<lparr>streams_of := g\<rparr>)\<rparr>, -1)
              | Some (m, ratio) \<Rightarrow> then_do (checked (world_set_waiting (upd_track i (\<lambda>T. T\<lparr>lt_media := Some m, lt_tick2ts := ratio\<rparr>)
                   (upd_track i (\<lambda>T. T\<lparr>lt_dest := d\<rparr>) (?w\<lparr>streams_of := g\<rparr>))) d True)) (\<lambda>w. Inr (c\<lparr>cf_world := upd_track i
                     (\<lambda>T. T\<lparr>lt_name := take SZNAME ?name, lt_entries := en # tl (lt_entries T)\<rparr>) (set_entry_track en ?k (Some i) w)\<rparr>, 0))) = Inr (c', n)"
            using eq by blast
          show ?thesis
          proof (cases m)
            case None
            let ?w' = "upd_track i (\<lambda>T. T\<lparr>lt_dest := d\<rparr>) (?w\<lparr>streams_of := g\<rparr>)"
            have w': "tracks ?w' = (tracks ?w)(i := (tracks ?w i)\<lparr>lt_dest := d\<rparr>)" "entries ?w' = entries ?w" "streams_of ?w' = g"
              by (simp_all add: upd_track_def)
            have "same_rest en ?w ?w'" by (rule same_restI [where E = "le_tracks (entries ?w en)"]) (simp_all add: upd_track_def)
            moreover have "tracks_inv ?w'" by (rule tracks_inv_same [OF parts(2) w'(1)]) (use i g w'(3) in simp_all)
            moreover have "entries_inv ?w'" using parts(3) by (auto simp: entries_inv_def w'(1,2))
            ultimately show ?thesis using track_inv [OF inv] g(1,3) m(2) w'(3) None by auto
          next
            case (Some mr)
            obtain mm ratio where mr: "mr = (mm, ratio)" by (cases mr)
            have "media_bounded mm" using media_for_bounded [OF inv] m(1) Some mr by simp
            note new = new_track_inv [OF inv k i con this name]
            obtain w1 where "world_set_waiting (upd_track i (\<lambda>T. T\<lparr>lt_media := Some mm, lt_tick2ts := ratio\<rparr>)
                   (upd_track i (\<lambda>T. T\<lparr>lt_dest := d\<rparr>) (?w\<lparr>streams_of := g\<rparr>))) d True = Inr w1"
              "c' = c\<lparr>cf_world := upd_track i (\<lambda>T. T\<lparr>lt_name := take SZNAME ?name, lt_entries := en # tl (lt_entries T)\<rparr>)
                  (set_entry_track en ?k (Some i) w1)\<rparr>"
              using m(2) unfolding Some mr option.case prod.case then_do_eq_Inr checked_eq_Inr by blast
            with new show ?thesis by simp
          qed
        qed
      qed
    qed
  qed
qed

subsection \<open>HTTP outputs\<close>

text \<open>The location of which only the path or the mode changes.\<close>

lemma location_upd_inv:
  assumes inv: "config_inv op c" and w': "w' = (cf_world c)\<lparr>http_locs := (http_locs (cf_world c))(l := L), http_loc_list := ls\<rparr>"
    and L: "hl_sess L = []" "hl_frame L = None" "length (hl_path L) = PATH \<or> l \<notin> set ls" and ls: "set ls \<subseteq> insert l (set (http_loc_list (cf_world c)))"
  shows "config_inv op (c\<lparr>cf_world := w'\<rparr>)"
proof -
  have "quiet w'" "tracks_inv w'" "entries_inv w'" "locs_inv op (cf_entries c) w'" "sources (streams_of w')"
    using inv L(1,2) by (simp_all add: w' config_inv_def quiet_def tracks_inv_def entries_inv_def locs_inv_def)
  moreover have "paths_ok w'" using inv L ls by (auto simp: w' config_inv_def http_inv_def paths_ok_def)
  ultimately show ?thesis using inv by (simp add: config_inv_def inputs_inv_def http_inv_def w')
qed

lemma output_start_inv:
  assumes "config_inv op c" "length (e_path E) = PATH"
  shows "config_inv op (fst (output_start_block E c))"
proof -
  let ?l = "cf_new_loc c" and ?w' = "http_start_block (cf_world c) (cf_new_loc c) (e_path E)"
  have "config_inv op (c\<lparr>cf_world := ?w'\<rparr>)"
    by (rule location_upd_inv [OF assms(1), where l = ?l and ls = "?l # http_loc_list (cf_world c)"])
      (use assms(2) in \<open>auto simp: http_start_block_def PATH_def\<close>)
  then show ?thesis by (auto simp: output_start_block_def Let_def config_inv_def inputs_inv_def http_inv_def)
qed

lemma output_set_input_inv:
  assumes inv: "config_inv op c" and r: "output_set_input t l c = Inr (c', n)"
  shows "config_inv op c'"
proof -
  let ?g = "streams_of (cf_world c)"
  obtain g d where con: "connect_to_stream ?g (str_arg t 1) [FORMAT_JPEG] = (g, d)" by (cases "connect_to_stream ?g (str_arg t 1) [FORMAT_JPEG]")
  have src: "sources ?g" using inv by (simp add: config_inv_def)
  note g = connect_sources [OF src con]
  have c': "c' = c\<lparr>cf_world := (cf_world c)\<lparr>streams_of := g\<rparr>, cf_http_input := (cf_http_input c)(l := d)\<rparr>"
    using r con by (auto simp: output_set_input_def)
  have "config_inv op (c\<lparr>cf_world := (cf_world c)\<lparr>streams_of := g\<rparr>\<rparr>)" using graph_upd_inv [OF inv] g by simp
  moreover have "e < next_dest g" if "d = Some e" for e using g(4) that by simp
  ultimately show ?thesis by (auto simp: c' config_inv_def inputs_inv_def http_inv_def)
qed

lemma output_set_path_inv:
  assumes inv: "config_inv op c" and r: "output_set_path t l c = Inr (c', n)"
  shows "config_inv op c'"
proof -
  let ?L = "http_locs (cf_world c) l"
  have q: "hl_sess ?L = []" "hl_frame ?L = None" "l \<in> set (http_loc_list (cf_world c)) \<longrightarrow> length (hl_path ?L) = PATH"
    using inv by (auto simp: config_inv_def quiet_def http_inv_def paths_ok_def)
  have c': "c' = c\<lparr>cf_world := http_set_path (cf_world c) l (str_arg t 1)\<rparr>" "length (str_arg t 1) < 256"
    using r by (auto simp: output_set_path_def split: if_splits)
  show ?thesis unfolding c'(1)
    by (rule location_upd_inv [OF inv, where l = l and ls = "http_loc_list (cf_world c)" and
          L = "?L\<lparr>hl_path := blit (hl_path ?L) 0 (str_arg t 1 @ [NUL])\<rparr>"])
      (use q c'(2) in \<open>auto simp: http_set_path_def PATH_def simp del: str_arg.simps\<close>)
qed

lemma output_set_mode_inv:
  assumes inv: "config_inv op c" and r: "output_set_mode t l c = Inr (c', n)"
  shows "config_inv op c'"
proof -
  let ?L = "http_locs (cf_world c) l"
  have q: "hl_sess ?L = []" "hl_frame ?L = None" "l \<in> set (http_loc_list (cf_world c)) \<longrightarrow> length (hl_path ?L) = PATH"
    using inv by (auto simp: config_inv_def quiet_def http_inv_def paths_ok_def)
  have "config_inv op (c\<lparr>cf_world := (cf_world c)\<lparr>http_locs := (http_locs (cf_world c))(l := ?L\<lparr>hl_streaming := b\<rparr>)\<rparr>\<rparr>)" for b
    by (rule location_upd_inv [OF inv, where l = l and ls = "http_loc_list (cf_world c)" and L = "?L\<lparr>hl_streaming := b\<rparr>"])
      (use q in auto)
  with inv r show ?thesis by (auto simp: output_set_mode_def http_set_mode_def split: if_splits simp del: str_arg.simps)
qed

lemma output_end_inv:
  assumes inv: "config_inv op c" and r: "output_end_block l c = Inr (c', n)"
  shows "config_inv op c'"
proof (cases "cf_http_input c l")
  case (Some d)
  then have "sources (streams_of (cf_world c))" "d < next_dest (streams_of (cf_world c))"
    using inv by (auto simp: config_inv_def http_inv_def)
  with wait_sources obtain g where g: "world_set_waiting (cf_world c) d True = Inr ((cf_world c)\<lparr>streams_of := g\<rparr>)" "sources g"
    "next_dest g = next_dest (streams_of (cf_world c))" by blast
  from graph_upd_inv [OF inv g(2)] g(3) have "config_inv op (c\<lparr>cf_world := (cf_world c)\<lparr>streams_of := g\<rparr>\<rparr>)" by simp
  with inv r Some show ?thesis by (auto simp: output_end_block_def then_do_eq_Inr checked_eq_Inr g(1) split: if_splits)
qed (use inv r in \<open>simp add: output_end_block_def\<close>)

end
