(* ===== verification/Config_Server.thy ===== *)
theory Config_Server
  imports Config_Proofs Server_Run
begin

text \<open>
  The configuration as a whole: the modules keep the contract of the parser, so that the server that
  a configuration file starts is well-formed, and safe whatever its clients do; and the configuration
  that is built into the program.
\<close>

section \<open>The modules\<close>

definition env_ok :: "env \<Rightarrow> bool" where
  "env_ok E \<longleftrightarrow> length (e_path E) = PATH"

definition returns :: "(config \<Rightarrow> bool) \<Rightarrow> config conf_res \<Rightarrow> bool" where
  "returns P r \<longleftrightarrow> (\<forall>c. r = Inr c \<longrightarrow> P c)"

definition outside :: "env \<Rightarrow> config conf_res \<Rightarrow> bool" where
  "outside E = returns (\<lambda>c. env_ok E \<longrightarrow> config_inv None c)"

text \<open>Inside the block of an RTSP handler, its entry may still have no track.\<close>

definition inside :: "env \<Rightarrow> config conf_res config_context \<Rightarrow> nat option \<Rightarrow> config conf_res \<Rightarrow> bool" where
  "inside E cc d = returns (\<lambda>c. env_ok E \<longrightarrow> config_inv (if cc_name cc = ''live'' then d else None) c)"

lemma returns_Inl [simp]: "returns P (Inl e)"
  by (simp add: returns_def)

lemma returns_Inr [simp]: "returns P (Inr c) = P c"
  by (simp add: returns_def)

lemma directive_of_inv:
  assumes "returns P r" "\<And>c c' n. P c \<Longrightarrow> f t c = Inr (c', n) \<Longrightarrow> Q c'"
  shows "returns Q (fst (directive_of f t r))"
  using assms by (auto simp: returns_def directive_of_def split: sum.splits prod.splits)

lemma in_block_inv:
  assumes "returns P r" "\<And>i c c' n. d = Some i \<Longrightarrow> P c \<Longrightarrow> f t i c = Inr (c', n) \<Longrightarrow> Q c'"
  shows "returns Q (fst (in_block f t d r))"
  using assms by (cases d) (auto simp: in_block_def intro!: directive_of_inv)

lemma modules_eq: "modules E = [log_module E, video_module E, audio_module, live_module E, output_module E]"
  by (simp add: modules_def register_config_context_def)

lemma one_arg: "args_match s args \<Longrightarrow> min_args s = 1 \<Longrightarrow> max_args s = 1 \<Longrightarrow> types s = [k] \<Longrightarrow> length (n # args) = 2 \<and> has_kind k ((n # args) ! 1)"
  by (cases args) (auto simp: args_match_def)

lemma global_kept:
  assumes "s \<in> set (global_statements E)" "outside E r"
  shows "outside E (fst (process s t None r))"
  using assms unfolding outside_def global_statements_def entry_def
  by (auto intro!: directive_of_inv dest: global_directives_inv)

lemma log_kept:
  assumes "s \<in> set (log_statements E)" "outside E r"
  shows "outside E (fst (process s t d r))"
  using assms unfolding outside_def log_statements_def entry_def
  by (auto intro!: directive_of_inv dest: global_directives_inv)

lemma input_kept:
  assumes "s \<in> set (video_statements E) \<union> set audio_statements" "outside E r" "list_all good_token (n # args)" "args_match s args"
  shows "outside E (fst (process s (n # args) d r))"
proof -
  have two: "length (n # args) = 2" if "min_args s = 1" "max_args s = 1" "types s = [K_NUM]" using one_arg [OF assms(4) that] by simp
  note inv = input_directives_inv [OF _ assms(3)]
  from assms(1,2) two show ?thesis unfolding outside_def video_statements_def audio_statements_def entry_def
    by (auto intro!: in_block_inv dest: inv(1-7) inv(8) [simplified])
qed

lemma live_kept:
  assumes "s \<in> set (live_statements E)" "returns (\<lambda>c. env_ok E \<longrightarrow> config_inv d c) r" "list_all good_token (n # args)" "args_match s args"
  shows "returns (\<lambda>c. env_ok E \<longrightarrow> config_inv d c) (fst (process s (n # args) d r))"
proof -
  have arg: "length (n # args) = 2 \<and> has_kind K_STR ((n # args) ! 1)" if "min_args s = 1" "max_args s = 1" "types s = [K_STR]"
    using one_arg [OF assms(4) that] .
  from assms(1,2) arg show ?thesis unfolding live_statements_def entry_def
    by (auto intro!: in_block_inv dest: live_set_path_inv [OF _ assms(3)] live_set_track_inv [OF _ assms(3), simplified])
qed

lemma output_kept:
  assumes "s \<in> set output_statements" "outside E r"
  shows "outside E (fst (process s t d r))"
  using assms unfolding outside_def output_statements_def entry_def
  by (auto intro!: in_block_inv dest: output_set_input_inv output_set_path_inv output_set_mode_inv)

lemma block_starts:
  assumes "cc \<in> set (modules E)" "outside E r" "open_block cc r = (r', d, True)"
  shows "inside E cc d r'"
proof -
  from assms(3) consider (plain) "start_block cc = None" "r' = r"
    | (start) f i where "start_block cc = Some f" "f r = (r', Some i)" "d = Some i"
    by (auto simp: open_block_def split: option.splits prod.splits)
  then show ?thesis
  proof cases
    case plain
    with assms(1,2) show ?thesis
      by (auto simp: modules_eq log_module_def video_module_def audio_module_def live_module_def output_module_def outside_def inside_def)
  next
    case start
    from assms(1) consider "cc = video_module E" | "cc = audio_module" | "cc = live_module E" | "cc = output_module E"
      using start by (auto simp: modules_eq log_module_def)
    then show ?thesis
    proof cases
      case 3
      with start assms(2) show ?thesis
        by (auto simp: live_module_def start_of_def outside_def inside_def split: sum.splits prod.splits) (metis live_start_inv)
    next
      case 1
      with start assms(2) input_blocks_inv(1) show ?thesis
        by (auto simp: video_module_def start_of_def outside_def inside_def split: sum.splits prod.splits) (metis fst_conv)
    next
      case 2
      with start assms(2) input_blocks_inv(2) show ?thesis
        by (auto simp: audio_module_def start_of_def outside_def inside_def split: sum.splits prod.splits) (metis fst_conv)
    next
      case 4
      with start assms(2) output_start_inv [of None _ E] show ?thesis
        by (auto simp: output_module_def start_of_def outside_def inside_def env_ok_def split: sum.splits prod.splits) (metis fst_conv)
    qed
  qed
qed

lemma block_ends:
  assumes "cc \<in> set (modules E)" "inside E cc d r" "close_block cc d r = (r', True)"
  shows "outside E r'"
proof -
  from assms(3) consider (plain) "end_block cc = None" "r' = r" | (ends) f where "end_block cc = Some f" "r' = fst (f d r)"
    by (auto simp: close_block_def split: option.splits prod.splits)
  then show ?thesis
  proof cases
    case plain
    with assms(1,2) show ?thesis
      by (auto simp: modules_eq log_module_def video_module_def audio_module_def live_module_def output_module_def outside_def inside_def)
  next
    case ends
    from assms(1) ends(1) show ?thesis
      using assms(2) unfolding ends(2) outside_def inside_def
      by (auto simp: modules_eq log_module_def video_module_def audio_module_def live_module_def output_module_def
        intro!: in_block_inv dest: input_blocks_inv(3,4) output_end_inv live_end_inv)
  qed
qed

lemma block_kept:
  assumes "cc \<in> set (modules E)" "s \<in> set (statements cc)" "inside E cc d r" "list_all good_token (n # args)" "args_match s args"
  shows "inside E cc d (fst (process s (n # args) d r))"
proof -
  consider "cc = log_module E" | "cc = video_module E \<or> cc = audio_module" | "cc = live_module E" | "cc = output_module E"
    using assms(1) by (auto simp: modules_eq)
  then show ?thesis
  proof cases
    case 1
    then have "inside E cc d = outside E" by (simp add: inside_def outside_def log_module_def)
    with 1 assms(2,3) log_kept show ?thesis by (simp add: log_module_def)
  next
    case 2
    then have "inside E cc d = outside E" by (auto simp: inside_def outside_def video_module_def audio_module_def)
    moreover have "s \<in> set (video_statements E) \<union> set audio_statements" using 2 assms(2) by (auto simp: video_module_def audio_module_def)
    ultimately show ?thesis using input_kept assms(3-5) by metis
  next
    case 3
    with assms(2,3) live_kept [OF _ _ assms(4,5)] show ?thesis by (simp add: inside_def live_module_def)
  next
    case 4
    then have "inside E cc d = outside E" by (simp add: inside_def outside_def output_module_def)
    with 4 assms(2,3) output_kept show ?thesis by (simp add: output_module_def)
  qed
qed

interpretation conf: config_modules "global_statements E" "modules E" "outside E" "inside E" for E
  by unfold_locales (erule (1) global_kept block_starts block_kept block_ends; assumption?; assumption?)+

section \<open>The server that a configuration starts\<close>

text \<open>The state of the program before it reads its configuration.\<close>

definition empty_graph :: graph where
  "empty_graph = \<lparr>streams = (\<lambda>_. \<lparr>st_name = [], st_format = 0, st_dests = [], st_set_running = No_Fn\<rparr>), stream_list = [],
     dest_stream = (\<lambda>_. 0), waiting = (\<lambda>_. False), running = (\<lambda>_. False), next_stream = 0, next_dest = 0\<rparr>"

definition boot :: config where
  "boot = \<lparr>cf_world =
       \<lparr>conns = (\<lambda>_. None), proto_state = (\<lambda>_. No_State), conn_list = [], endpoints = (\<lambda>_. None), sessions = (\<lambda>_. None),
        session_list = [], rs_tab = (\<lambda>_. None), rs_list = [], entries = (\<lambda>_. \<lparr>le_sessions = [], le_tracks = replicate MAX_TRACKS None\<rparr>),
        tracks = (\<lambda>_. \<lparr>lt_entries = [], lt_dest = 0, lt_ready = False, lt_tick2ts = 0, lt_media = None, lt_name = []\<rparr>),
        streams_of = empty_graph, udp_out = [], fresh = 0, rtsp_loc_list = [], digest_secret = None,
        http_locs = (\<lambda>_. \<lparr>hl_path = [], hl_frame = None, hl_jfif = 0, hl_sess = [], hl_streaming = False\<rparr>), http_loc_list = [],
        http_sess = (\<lambda>_. None), http_fresh = 0\<rparr>,
     cf_entries = 0, cf_inputs = new_input, cf_new_input = 0, cf_video = [], cf_audio = [], cf_private = (\<lambda>_. None),
     cf_http_input = (\<lambda>_. None), cf_new_loc = 0, cf_ports = [], cf_range = \<lparr>rtp_port_start = 50000, rtp_port_end = 60000\<rparr>, cf_heap = None,
     cf_wireless = \<lparr>wi_country = 2, wi_droprate = 50, wi_quality = 70, wi_diff = 1, wi_ssid = ''zycamera'',
       wi_address = ''192.168.2.170''\<rparr>, cf_log = False\<rparr>"

lemma boot_inv: "config_inv None boot"
proof -
  have "quiet (cf_world boot)" by (simp add: quiet_def boot_def)
  moreover have "sources (streams_of (cf_world boot))"
    by (simp add: sources_def boot_def empty_graph_def stream_ok_def any_waiting_def)
  moreover have "tracks_inv (cf_world boot)" "locs_inv None (cf_entries boot) (cf_world boot)" "inputs_inv boot" "http_inv boot"
    by (simp_all add: tracks_inv_def locs_inv_def inputs_inv_def http_inv_def paths_ok_def boot_def new_input_def)
  moreover have "entries_inv (cf_world boot)" by (auto simp: entries_inv_def boot_def filled_none list_all_iff)
  ultimately show ?thesis by (simp add: config_inv_def)
qed

text \<open>Every handler that can be asked for has a track; \<open>live_end_block\<close> sees to it, but a file may end before.\<close>

definition handlers_complete :: "world \<Rightarrow> bool" where
  "handlers_complete w \<longleftrightarrow> list_all (\<lambda>l. le_tracks (entries w (loc_private l)) ! 0 \<noteq> None) (rtsp_loc_list w)"

lemma config_accepted_ok:
  assumes "env_ok E" "dims_ok dims" "text_ok s" "length junk = MAX_TOKENS"
    and "read_config_file (global_statements E) (modules E) junk s (Inr boot) = Inr (Inr c, True)" "handlers_complete (cf_world c)"
  shows "server_ok dims (cf_world c)"
proof -
  have "outside E (Inr boot)" using boot_inv by (simp add: outside_def)
  from conf.accepted [OF this assms(3-5)] obtain cc d where here: "conf.here E cc d (Inr c)" by blast
  obtain op where "config_inv op c"
  proof (cases cc)
    case None
    with here have "outside E (Inr c)" by (simp add: conf.here_def)
    with assms(1) show ?thesis using that by (simp add: outside_def)
  next
    case (Some x)
    with here have "inside E x d (Inr c)" by (simp add: conf.here_def)
    with assms(1) show ?thesis using that by (simp add: inside_def)
  qed
  then show ?thesis using assms(2,6) by (intro config_inv_server_ok) (simp_all add: handlers_complete_def list_all_iff)
qed

text \<open>
  C3. From the text of the configuration to the last event: a configuration file without the character 0 and
  without an empty quotation, which the program accepts, and which did not end inside the block of an RTSP
  handler that has no track yet (\<open>handlers_complete\<close>), starts a server in the invariant. After any
  sequence of the events of C1 it is still well-formed, and the handler of the next event returns without
  a memory error: of an input that the code survives (the exclusions are those of C1), of output, of a JPEG
  picture for a location, of the timers and the UDP input of endpoints. The sizes of pictures are
  numbers of at most ten digits.
\<close>

theorem configured_server_safe:
  assumes "env_ok E" "dims_ok dims" "text_ok s" "length junk = MAX_TOKENS"
    and "read_config_file (global_statements E) (modules E) junk s (Inr boot) = Inr (Inr c, True)" "handlers_complete (cf_world c)"
    and "(server_step dims)\<^sup>*\<^sup>* (cf_world c) w"
  shows "server_ok dims w \<and>
    (\<forall>x second as. conns w x \<noteq> None \<and> benign_reads (live_provider dims) w x second as \<longrightarrow>
       (\<exists>w'. do_read (live_provider dims) w x second as = Inr w')) \<and>
    (\<forall>x ws. conns w x \<noteq> None \<longrightarrow> (\<exists>w' out. server_write (live_provider dims) w x ws = Inr (w', out))) \<and>
    (\<forall>l d. jpeg_frame d \<longrightarrow> (\<exists>w'. jpeg_next_frame w l d = Inr w')) \<and>
    (\<forall>e. endpoints w e \<noteq> None \<longrightarrow>
       (\<forall>env. \<exists>w'. rtcp_fire env w e = Inr w') \<and>
       (\<forall>now got. \<exists>w'. udp_rtp_event w e now got = Inr w') \<and>
       (\<forall>now thr got. \<exists>w'. udp_rtcp_event w e now thr got = Inr w'))"
proof -
  have ok: "server_ok dims w" by (rule server_reach_ok [OF assms(7) config_accepted_ok [OF assms(1-6)]])
  with events_handled [OF ok] show ?thesis by blast
qed

text \<open>
  C4. A configuration that is a list of complete directives and blocks, without empty texts, needs no
  such care: the handlers in it have their tracks, and the server that it starts is well-formed.
\<close>

theorem complete_config_starts_server:
  assumes "env_ok E" "dims_ok dims" "list_all item_ok is" "list_all conf.good_item is" "length junk = MAX_TOKENS"
    and "read_config_file (global_statements E) (modules E) junk (print_tokens (concat (map item_tokens is))) (Inr boot) = Inr (Inr c, True)"
  shows "server_ok dims (cf_world c) \<and> handlers_complete (cf_world c)"
proof -
  have ex: "exec_items (global_statements E) (modules E) is (Inr boot) = (Inr c, True)"
    using trans [OF reads_items [OF assms(3,5), symmetric] assms(6)] by simp
  have "outside E (Inr boot)" using boot_inv by (simp add: outside_def)
  from conf.items_inv [OF this assms(4) ex] have inv: "config_inv None c" using assms(1) by (simp add: outside_def)
  then have "handlers_complete (cf_world c)" by (auto simp: config_inv_def locs_inv_def handlers_complete_def list_all_iff)
  with config_inv_server_ok [OF inv assms(2)] show ?thesis by (simp add: handlers_complete_def list_all_iff)
qed

section \<open>An example\<close>

definition demo_env :: env where
  "demo_env = \<lparr>e_listen = (\<lambda>_. True), e_open = (\<lambda>_. True), e_codec = (\<lambda>_. H264), e_size = (\<lambda>_. (640, 480)), e_inet = (\<lambda>_. True),
     e_m4 = \<lparr>m4_iov = [], m4_config = [], pali = 0, fmtp = [], m4_init_done = False, m4_ts_incr = 0, vop_time_increment_resolution = 0,
             vop_time_increment = 0, vtir_bitlen = 0, m4_timestamp = 0\<rparr>,
     e_jpeg = \<lparr>jp_type = 0, jp_width = 0, jp_height = 0, luma_table = 0, chroma_table = 0, jp_quant = [], jp_frame = [], scan_data = 0,
               scan_data_len = 0, jp_init_done = False, jp_timestamp = 0\<rparr>,
     e_path = replicate PATH NUL\<rparr>"

definition demo_text :: string where
  "demo_text = ''frameheap 10; input video { framerate 3; output cam; } rtsp-handler live { path /a; track cam; }''"

definition starts :: "(config conf_res \<times> bool) cres \<Rightarrow> bool" where
  "starts r \<longleftrightarrow> (case r of Inr (Inr c, True) \<Rightarrow> handlers_complete (cf_world c) \<and> length (rtsp_loc_list (cf_world c)) = 1 | _ \<Rightarrow> False)"

lemma demo_starts: "starts (read_config_file (global_statements demo_env) (modules demo_env) (replicate MAX_TOKENS (TOKEN_NUM 0)) demo_text (Inr boot))"
  by code_simp

lemma starts_obtain:
  assumes "starts r"
  obtains c where "r = Inr (Inr c, True)" "handlers_complete (cf_world c)" "length (rtsp_loc_list (cf_world c)) = 1"
proof (cases r)
  case (Inr p)
  obtain x b where "p = (x, b)" by (cases p)
  with Inr assms that show ?thesis by (cases x; cases b) (auto simp: starts_def)
qed (use assms in \<open>simp add: starts_def\<close>)

lemma demo_started:
  obtains c where "read_config_file (global_statements demo_env) (modules demo_env) (replicate MAX_TOKENS (TOKEN_NUM 0)) demo_text (Inr boot)
    = Inr (Inr c, True)" "handlers_complete (cf_world c)" "length (rtsp_loc_list (cf_world c)) = 1"
  using starts_obtain [OF demo_starts] that by blast

lemma demo_env_ok: "env_ok demo_env"
  by (simp add: env_ok_def demo_env_def)

lemma text_ok_no_quote: "QUOTE \<notin> set s \<Longrightarrow> NUL \<notin> set s \<Longrightarrow> text_ok s"
  by (auto simp: text_ok_def)

theorem configured_server_safe_witness:
  "\<exists>c :: config. length (rtsp_loc_list (cf_world c)) = 1 \<and> server_ok (\<lambda>_. (0, 0)) (do_accept (cf_world c) 7)"
proof -
  obtain c where c: "read_config_file (global_statements demo_env) (modules demo_env) (replicate MAX_TOKENS (TOKEN_NUM 0)) demo_text (Inr boot)
    = Inr (Inr c, True)" "handlers_complete (cf_world c)" "length (rtsp_loc_list (cf_world c)) = 1" by (rule demo_started)
  have "dims_ok (\<lambda>_. (0, 0))" by (simp add: dims_ok_def)
  moreover have "text_ok demo_text" by (rule text_ok_no_quote) (simp_all add: demo_text_def)
  moreover have "length (replicate MAX_TOKENS (TOKEN_NUM 0)) = MAX_TOKENS" by simp
  moreover have "(server_step (\<lambda>_. (0, 0)))\<^sup>*\<^sup>* (cf_world c) (do_accept (cf_world c) 7)"
    by (rule r_into_rtranclp) (rule server_step.Accept)
  ultimately have "server_ok (\<lambda>_. (0, 0)) (do_accept (cf_world c) 7)" using configured_server_safe [OF demo_env_ok _ _ _ c(1,2)] by metis
  with c(3) show ?thesis by blast
qed

definition demo_items :: "item list" where
  "demo_items =
     [Directive [TOKEN_STR ''frameheap'', TOKEN_NUM 10],
      Block ''input'' ''video'' [[TOKEN_STR ''framerate'', TOKEN_NUM 3], [TOKEN_STR ''output'', TOKEN_STR ''cam'']],
      Block ''rtsp-handler'' ''live'' [[TOKEN_STR ''path'', TOKEN_STR ''/a''], [TOKEN_STR ''track'', TOKEN_STR ''cam'']]]"

lemma demo_items_start: "starts (Inr (exec_items (global_statements demo_env) (modules demo_env) demo_items (Inr boot)))"
  by code_simp

theorem complete_config_starts_server_witness:
  "\<exists>c. exec_items (global_statements demo_env) (modules demo_env) demo_items (Inr boot) = (Inr c, True) \<and>
     server_ok (\<lambda>_. (0, 0)) (cf_world c)"
proof -
  obtain c where c: "exec_items (global_statements demo_env) (modules demo_env) demo_items (Inr boot) = (Inr c, True)"
    using starts_obtain [OF demo_items_start] by (metis sum.inject(2))
  have items: "list_all item_ok demo_items" "list_all conf.good_item demo_items"
    by (simp_all add: demo_items_def statement_ok_def MAX_TOKENS_def TOKEN_LEN_def)
  have junk: "length (replicate MAX_TOKENS (TOKEN_NUM 0)) = MAX_TOKENS" by simp
  have dims: "dims_ok (\<lambda>_. (0, 0))" by (simp add: dims_ok_def)
  have "read_config_file (global_statements demo_env) (modules demo_env) (replicate MAX_TOKENS (TOKEN_NUM 0))
      (print_tokens (concat (map item_tokens demo_items))) (Inr boot) = Inr (Inr c, True)"
    unfolding reads_items [OF items(1) junk] c ..
  from complete_config_starts_server [OF demo_env_ok dims items junk this] c show ?thesis by blast
qed

end
