(* ===== verification/Event.thy ===== *)
theory Event
  imports Prelude
begin

text \<open>
  \<open>event.c\<close>: timers, events of descriptors, events that always fire, and one round of the event
  loop. An event is a number; a table maps it to its record. The linked lists of events are
  lists, newest first. The handlers are an argument of the loop; they change their own state \<open>'s\<close>
  and, through the functions of \<open>event.h\<close>, the events.
\<close>

section \<open>Time\<close>

record time_ref =
  tv_sec :: int
  tv_usec :: int

text \<open>Microseconds since the epoch.\<close>

definition usecs :: "time_ref \<Rightarrow> int" where "usecs t = tv_sec t * 1000000 + tv_usec t"

text \<open>Division and remainder of C truncate towards zero.\<close>

definition c_div :: "int \<Rightarrow> int \<Rightarrow> int" where
  "c_div a b = (if 0 \<le> a then a div b else - ((- a) div b))"

definition c_mod :: "int \<Rightarrow> int \<Rightarrow> int" where
  "c_mod a b = (if 0 \<le> a then a mod b else - ((- a) mod b))"

text \<open>The product of \<open>time_diff\<close> is a \<open>long\<close> of 32 bits on the targets of the program, and wraps.\<close>

definition time_diff :: "time_ref \<Rightarrow> time_ref \<Rightarrow> int" where
  "time_diff a b =
     c_div (sint (word_of_int ((tv_sec b - tv_sec a) * 1000000 + tv_usec b - tv_usec a + 500) :: u32)) 1000"

definition time_ago :: "time_ref \<Rightarrow> time_ref \<Rightarrow> int" where "time_ago now t = time_diff t now"

definition time_add :: "time_ref \<Rightarrow> int \<Rightarrow> time_ref" where
  "time_add t msec =
     (let s = tv_sec t + c_div msec 1000; u = tv_usec t + c_mod msec 1000 * 1000
      in if 1000000 \<le> u then \<lparr>tv_sec = s + 1, tv_usec = u - 1000000\<rparr> else \<lparr>tv_sec = s, tv_usec = u\<rparr>)"

text \<open>A timer that is set keeps the fields in range and fires that many milliseconds later.\<close>

definition time_ok :: "time_ref \<Rightarrow> bool" where "time_ok t \<longleftrightarrow> 0 \<le> tv_usec t \<and> tv_usec t < 1000000"

lemma time_add_ok:
  assumes "time_ok t" "0 \<le> msec"
  shows "time_ok (time_add t msec)" "usecs (time_add t msec) = usecs t + msec * 1000"
proof -
  have "msec mod 1000 * 1000 < 1000000" "0 \<le> msec mod 1000 * 1000" using pos_mod_bound [of 1000 msec] by simp_all
  with assms show "time_ok (time_add t msec)"
    by (auto simp: time_ok_def time_add_def c_div_def c_mod_def Let_def)
  have "msec * 1000 = msec div 1000 * 1000000 + msec mod 1000 * 1000" using div_mult_mod_eq [of msec 1000] by linarith
  with assms show "usecs (time_add t msec) = usecs t + msec * 1000"
    by (simp add: usecs_def time_add_def c_div_def c_mod_def Let_def)
qed

lemma sint_small: "- (2 ^ 31) \<le> x \<Longrightarrow> x < 2 ^ 31 \<Longrightarrow> sint (word_of_int x :: u32) = x"
  by (simp add: signed_of_int signed_take_bit_int_eq_self)

lemma time_diff_usecs: "time_diff a b = c_div (sint (word_of_int (usecs b - usecs a + 500) :: u32)) 1000"
proof -
  have "(tv_sec b - tv_sec a) * 1000000 + tv_usec b - tv_usec a + 500 = usecs b - usecs a + 500"
    by (simp add: usecs_def algebra_simps)
  then show ?thesis by (simp only: time_diff_def)
qed

lemma time_diff_exact:
  assumes "\<bar>usecs b - usecs a\<bar> < 2 ^ 31 - 500"
  shows "time_diff a b = c_div (usecs b - usecs a + 500) 1000"
proof -
  have "sint (word_of_int (usecs b - usecs a + 500) :: u32) = usecs b - usecs a + 500"
    using assms by (intro sint_small) (simp_all add: abs_if split: if_splits)
  then show ?thesis by (simp only: time_diff_usecs)
qed

section \<open>Events\<close>

datatype ev_kind = EVENT_TIME | EVENT_FD | EVENT_ALWAYS | EVENT_SOFT_QUEUE

definition EVENT_F_ENABLED :: u32 where "EVENT_F_ENABLED = 1"
definition EVENT_F_REMOVE :: u32 where "EVENT_F_REMOVE = 2"
definition EVENT_F_ONESHOT :: u32 where "EVENT_F_ONESHOT = 4"
definition EVENT_F_RUNNING :: u32 where "EVENT_F_RUNNING = 8"

record event =
  ev_type :: ev_kind
  flags :: u32
  fire :: time_ref
  ival :: int
  ev_fd :: int
  ev_write :: bool

record ev_loop =
  events :: "nat \<Rightarrow> event"
  time_event_list :: "nat list"
  fd_event_list :: "nat list"
  always_event_list :: "nat list"
  end_loop :: bool
  ev_fresh :: nat

definition flag :: "u32 \<Rightarrow> ev_loop \<Rightarrow> nat \<Rightarrow> bool" where
  "flag f L e \<longleftrightarrow> flags (events L e) AND f \<noteq> 0"

abbreviation "enabled \<equiv> flag EVENT_F_ENABLED"
abbreviation "removed \<equiv> flag EVENT_F_REMOVE"
abbreviation "oneshot \<equiv> flag EVENT_F_ONESHOT"
abbreviation "ev_running \<equiv> flag EVENT_F_RUNNING"

definition upd_event :: "nat \<Rightarrow> (event \<Rightarrow> event) \<Rightarrow> ev_loop \<Rightarrow> ev_loop" where
  "upd_event e f L = L\<lparr>events := (events L)(e := f (events L e))\<rparr>"

definition set_flags :: "nat \<Rightarrow> u32 \<Rightarrow> ev_loop \<Rightarrow> ev_loop" where
  "set_flags e f = upd_event e (\<lambda>ev. ev\<lparr>flags := flags ev OR f\<rparr>)"

definition clear_flags :: "nat \<Rightarrow> u32 \<Rightarrow> ev_loop \<Rightarrow> ev_loop" where
  "clear_flags e f = upd_event e (\<lambda>ev. ev\<lparr>flags := flags ev AND NOT f\<rparr>)"

definition new_event :: "event" where
  "new_event = \<lparr>ev_type = EVENT_TIME, flags = 0, fire = \<lparr>tv_sec = 0, tv_usec = 0\<rparr>, ival = 0, ev_fd = 0, ev_write = False\<rparr>"

text \<open>\<open>now\<close> is what \<open>gettimeofday\<close> would answer.\<close>

definition resched_event :: "time_ref \<Rightarrow> nat \<Rightarrow> time_ref option \<Rightarrow> ev_loop \<Rightarrow> ev_loop" where
  "resched_event now e tr L =
     (let t = (case tr of
                 Some t \<Rightarrow> t
               | None \<Rightarrow> if enabled L e then time_add (fire (events L e)) (ival (events L e)) else time_add now (ival (events L e)))
      in set_flags e EVENT_F_ENABLED (clear_flags e EVENT_F_REMOVE (upd_event e (\<lambda>ev. ev\<lparr>fire := t\<rparr>) L)))"

definition add_timer_event :: "time_ref \<Rightarrow> time_ref \<Rightarrow> int \<Rightarrow> u32 \<Rightarrow> ev_loop \<Rightarrow> ev_loop \<times> nat" where
  "add_timer_event now now2 msec fl L =
     (let e = ev_fresh L;
          L = L\<lparr>events := (events L)(e := new_event\<lparr>ev_type := EVENT_TIME, flags := fl, ival := msec, fire := now\<rparr>),
                time_event_list := e # time_event_list L, ev_fresh := e + 1\<rparr>
      in (resched_event now2 e None L, e))"

definition add_alarm_event :: "time_ref \<Rightarrow> time_ref \<Rightarrow> u32 \<Rightarrow> ev_loop \<Rightarrow> ev_loop \<times> nat" where
  "add_alarm_event now t fl L =
     (let e = ev_fresh L;
          L = L\<lparr>events := (events L)(e := new_event\<lparr>ev_type := EVENT_TIME, flags := fl OR EVENT_F_ONESHOT\<rparr>),
                time_event_list := e # time_event_list L, ev_fresh := e + 1\<rparr>
      in (resched_event now e (Some t) L, e))"

definition add_fd_event :: "int \<Rightarrow> bool \<Rightarrow> u32 \<Rightarrow> ev_loop \<Rightarrow> ev_loop \<times> nat" where
  "add_fd_event fd write fl L =
     (let e = ev_fresh L
      in (L\<lparr>events := (events L)(e := new_event\<lparr>ev_type := EVENT_FD, flags := fl OR EVENT_F_ENABLED, ev_fd := fd, ev_write := write\<rparr>),
            fd_event_list := e # fd_event_list L, ev_fresh := e + 1\<rparr>, e))"

definition add_always_event :: "u32 \<Rightarrow> ev_loop \<Rightarrow> ev_loop \<times> nat" where
  "add_always_event fl L =
     (let e = ev_fresh L
      in (L\<lparr>events := (events L)(e := new_event\<lparr>ev_type := EVENT_ALWAYS, flags := fl OR EVENT_F_ENABLED\<rparr>),
            always_event_list := e # always_event_list L, ev_fresh := e + 1\<rparr>, e))"

definition remove_event :: "nat \<Rightarrow> ev_loop \<Rightarrow> ev_loop" where
  "remove_event e L = clear_flags e (EVENT_F_RUNNING OR EVENT_F_ENABLED) (set_flags e EVENT_F_REMOVE L)"

definition set_event_enabled :: "nat \<Rightarrow> bool \<Rightarrow> ev_loop \<Rightarrow> ev_loop" where
  "set_event_enabled e on L =
     (let L = clear_flags e EVENT_F_ENABLED L in if on then set_flags e EVENT_F_ENABLED L else L)"

definition get_event_enabled :: "nat \<Rightarrow> ev_loop \<Rightarrow> bool" where "get_event_enabled e L = enabled L e"

definition set_event_interval :: "time_ref \<Rightarrow> nat \<Rightarrow> int \<Rightarrow> ev_loop \<Rightarrow> ev_loop" where
  "set_event_interval now e msec L =
     (let L = upd_event e (\<lambda>ev. ev\<lparr>ival := msec\<rparr>) L in if enabled L e then resched_event now e None L else L)"

definition exit_event_loop :: "ev_loop \<Rightarrow> ev_loop" where "exit_event_loop L = L\<lparr>end_loop := True\<rparr>"

text \<open>An event that is stripped is unlinked but not freed.\<close>

definition strip_events :: "ev_loop \<Rightarrow> nat list \<Rightarrow> nat list" where
  "strip_events L es = filter (\<lambda>e. \<not> removed L e) es"

section \<open>One round of the loop\<close>

text \<open>
  What the kernel answers in a round: the time when an event is looked at before and after
  \<open>select\<close> and when it is scheduled again, the result of \<open>select\<close> and the descriptors it leaves in the sets.
\<close>

record answers =
  clock_before :: "nat \<Rightarrow> time_ref"
  select_ret :: int
  readable :: "int \<Rightarrow> bool"
  writable :: "int \<Rightarrow> bool"
  clock_after :: "nat \<Rightarrow> time_ref"
  clock_resched :: "nat \<Rightarrow> time_ref"

definition mark :: "nat \<Rightarrow> ev_loop \<Rightarrow> ev_loop" where
  "mark e L = (if enabled L e then set_flags e EVENT_F_RUNNING L else clear_flags e EVENT_F_RUNNING L)"

text \<open>The next timer; the values are in milliseconds.\<close>

definition timer_left :: "answers \<Rightarrow> ev_loop \<Rightarrow> nat \<Rightarrow> int" where
  "timer_left A L e = (let diff = - time_ago (clock_before A e) (fire (events L e)) in if diff < 5 then 0 else diff)"

fun next_timer :: "answers \<Rightarrow> ev_loop \<Rightarrow> nat list \<Rightarrow> int option \<Rightarrow> int option" where
  "next_timer A L [] st = st"
| "next_timer A L (e # es) st =
     (if enabled L e
      then let diff = timer_left A L e
           in next_timer A L es (case st of None \<Rightarrow> Some diff | Some n \<Rightarrow> Some (if diff < n then diff else n))
      else next_timer A L es st)"

definition select_timeout :: "answers \<Rightarrow> ev_loop \<Rightarrow> time_ref" where
  "select_timeout A L =
     (let st = next_timer A L (time_event_list L) None;
          st = (if \<exists>e\<in>set (always_event_list L). enabled L e then Some 0 else st)
      in case st of
           None \<Rightarrow> \<lparr>tv_sec = 1, tv_usec = 0\<rparr>
         | Some n \<Rightarrow> \<lparr>tv_sec = n div 1000, tv_usec = n mod 1000 * 1000\<rparr>)"

definition FD_SETSIZE :: int where "FD_SETSIZE = 1024"

text \<open>\<open>FD_SET\<close> writes outside the set for a descriptor that is negative or too large.\<close>

definition fd_sets_ok :: "ev_loop \<Rightarrow> bool" where
  "fd_sets_ok L \<longleftrightarrow> (\<forall>e\<in>set (fd_event_list L). enabled L e \<longrightarrow> 0 \<le> ev_fd (events L e) \<and> ev_fd (events L e) < FD_SETSIZE)"

definition isset :: "answers \<Rightarrow> ev_loop \<Rightarrow> nat \<Rightarrow> bool" where
  "isset A L e = (if ev_write (events L e) then writable A (ev_fd (events L e)) else readable A (ev_fd (events L e)))"

type_synonym 's handler = "ev_kind \<Rightarrow> nat \<Rightarrow> 's \<times> ev_loop \<Rightarrow> 's \<times> ev_loop"

text \<open>
  The three loops over the events differ in which event is due and what is done to it before its
  handler is called. Each call is noted in a trace, with the events as the handler leaves them.
\<close>

fun run_events :: "'s handler \<Rightarrow> ev_kind \<Rightarrow> (ev_loop \<Rightarrow> nat \<Rightarrow> bool) \<Rightarrow> (nat \<Rightarrow> ev_loop \<Rightarrow> ev_loop) \<Rightarrow> nat list
    \<Rightarrow> 's \<times> ev_loop \<Rightarrow> ('s \<times> ev_loop) \<times> (nat \<times> ev_loop) list" where
  "run_events h k due pre [] (s, L) = ((s, L), [])"
| "run_events h k due pre (e # es) (s, L) =
     (if \<not> ev_running L e then run_events h k due pre es (s, L)
      else if end_loop L then ((s, L), [])
      else if \<not> due L e then run_events h k due pre es (s, L)
      else let (s, L) = h k e (s, pre e L); (r, tr) = run_events h k due pre es (s, L) in (r, (e, L) # tr))"

definition timer_due :: "answers \<Rightarrow> ev_loop \<Rightarrow> nat \<Rightarrow> bool" where
  "timer_due A L e \<longleftrightarrow> - time_ago (clock_after A e) (fire (events L e)) < 5"

definition before_timer :: "answers \<Rightarrow> nat \<Rightarrow> ev_loop \<Rightarrow> ev_loop" where
  "before_timer A e L = (if \<not> oneshot L e then resched_event (clock_resched A e) e None L else set_flags e EVENT_F_REMOVE L)"

definition before_call :: "nat \<Rightarrow> ev_loop \<Rightarrow> ev_loop" where
  "before_call e L = (if oneshot L e then set_flags e EVENT_F_REMOVE L else L)"

definition strip_all :: "ev_loop \<Rightarrow> ev_loop" where
  "strip_all L = L\<lparr>time_event_list := strip_events L (time_event_list L), fd_event_list := strip_events L (fd_event_list L),
     always_event_list := strip_events L (always_event_list L)\<rparr>"

definition start_round :: "ev_loop \<Rightarrow> ev_loop" where
  "start_round L = fold mark (time_event_list L @ always_event_list L @ fd_event_list L) L"

definition event_round :: "'s handler \<Rightarrow> answers \<Rightarrow> 's \<times> ev_loop \<Rightarrow> (('s \<times> ev_loop) \<times> (nat \<times> ev_loop) list) cres" where
  "event_round h A p =
     (let (s, L) = p in
      if \<not> fd_sets_ok L then Inl Fault
      else let L = start_round L;
               ((s, L), t1) = run_events h EVENT_TIME (timer_due A) (before_timer A) (time_event_list L) (s, L);
               ((s, L), t2) = run_events h EVENT_ALWAYS (\<lambda>_ _. True) before_call (always_event_list L) (s, L);
               ((s, L), t3) = (if 0 < select_ret A then run_events h EVENT_FD (isset A) before_call (fd_event_list L) (s, L)
                               else ((s, L), []))
           in Inr ((s, strip_all L), t1 @ t2 @ t3))"

text \<open>\<open>event_loop\<close>: rounds until a handler ends it, or only one; the answers of each round are given.\<close>

fun event_rounds :: "bool \<Rightarrow> 's handler \<Rightarrow> answers list \<Rightarrow> 's \<times> ev_loop \<Rightarrow> ('s \<times> ev_loop) cres" where
  "event_rounds single h [] p = Inr p"
| "event_rounds single h (A # As) p =
     bindE (event_round h A p) (\<lambda>(p, _). if end_loop (snd p) \<or> single then Inr p else event_rounds single h As p)"

definition event_loop :: "bool \<Rightarrow> 's handler \<Rightarrow> answers list \<Rightarrow> 's \<times> ev_loop \<Rightarrow> ('s \<times> ev_loop) cres" where
  "event_loop single h As p = event_rounds single h As (fst p, (snd p)\<lparr>end_loop := False\<rparr>)"

section \<open>Flags\<close>

lemma word_and_bit: "(x AND (2 ^ n :: u32)) \<noteq> 0 \<longleftrightarrow> bit x n" if "n < 32"
proof
  assume "x AND 2 ^ n \<noteq> 0"
  then obtain k where "bit (x AND 2 ^ n) k" using bit_word_eqI [of "x AND 2 ^ n" 0] by auto
  then show "bit x n" by (auto simp: bit_and_iff bit_exp_iff)
next
  assume "bit x n"
  then have "bit (x AND 2 ^ n) n" using that by (simp add: bit_and_iff bit_exp_iff)
  then show "x AND 2 ^ n \<noteq> 0" by auto
qed

lemma event_flag_bits:
  "enabled L e \<longleftrightarrow> bit (flags (events L e)) 0" "removed L e \<longleftrightarrow> bit (flags (events L e)) 1"
  "oneshot L e \<longleftrightarrow> bit (flags (events L e)) 2" "ev_running L e \<longleftrightarrow> bit (flags (events L e)) 3"
  using word_and_bit [of 0] word_and_bit [of 1] word_and_bit [of 2] word_and_bit [of 3]
  by (simp_all add: flag_def EVENT_F_ENABLED_def EVENT_F_REMOVE_def EVENT_F_ONESHOT_def EVENT_F_RUNNING_def del: bit_0)

end
