(* ===== verification/Event_Loop.thy ===== *)
theory Event_Loop
  imports Event "HOL-Library.Sublist"
begin

text \<open>
  What the event loop promises: which handlers it calls, in what state, and which it does not; the
  handlers may only use the functions of \<open>event.h\<close> on the events.
\<close>

section \<open>Flags under the operations\<close>

lemma flag_values: "EVENT_F_ENABLED = 2 ^ 0" "EVENT_F_REMOVE = 2 ^ 1" "EVENT_F_ONESHOT = 2 ^ 2" "EVENT_F_RUNNING = 2 ^ 3"
  by (simp_all add: EVENT_F_ENABLED_def EVENT_F_REMOVE_def EVENT_F_ONESHOT_def EVENT_F_RUNNING_def)

lemma flag_disjoint [simp]:
  "EVENT_F_ENABLED AND EVENT_F_ENABLED \<noteq> 0" "EVENT_F_REMOVE AND EVENT_F_ENABLED = 0" "EVENT_F_RUNNING AND EVENT_F_ENABLED = 0"
  "EVENT_F_ENABLED AND EVENT_F_REMOVE = 0" "EVENT_F_REMOVE AND EVENT_F_REMOVE \<noteq> 0" "EVENT_F_RUNNING AND EVENT_F_REMOVE = 0"
  "EVENT_F_ENABLED AND EVENT_F_ONESHOT = 0" "EVENT_F_REMOVE AND EVENT_F_ONESHOT = 0" "EVENT_F_RUNNING AND EVENT_F_ONESHOT = 0"
  "EVENT_F_ENABLED AND EVENT_F_RUNNING = 0" "EVENT_F_REMOVE AND EVENT_F_RUNNING = 0" "EVENT_F_RUNNING AND EVENT_F_RUNNING \<noteq> 0"
  "EVENT_F_ONESHOT AND EVENT_F_RUNNING = 0" "EVENT_F_ONESHOT AND EVENT_F_REMOVE = 0" "EVENT_F_ONESHOT AND EVENT_F_ENABLED = 0"
  "(EVENT_F_RUNNING OR EVENT_F_ENABLED) AND EVENT_F_ENABLED \<noteq> 0" "(EVENT_F_RUNNING OR EVENT_F_ENABLED) AND EVENT_F_REMOVE = 0"
  "(EVENT_F_RUNNING OR EVENT_F_ENABLED) AND EVENT_F_RUNNING \<noteq> 0" "(EVENT_F_RUNNING OR EVENT_F_ENABLED) AND EVENT_F_ONESHOT = 0"
  by (simp_all add: EVENT_F_ENABLED_def EVENT_F_REMOVE_def EVENT_F_ONESHOT_def EVENT_F_RUNNING_def)

lemma flag_not_0 [simp]: "EVENT_F_ENABLED \<noteq> 0" "EVENT_F_REMOVE \<noteq> 0" "EVENT_F_ONESHOT \<noteq> 0" "EVENT_F_RUNNING \<noteq> 0"
  by (simp_all add: EVENT_F_ENABLED_def EVENT_F_REMOVE_def EVENT_F_ONESHOT_def EVENT_F_RUNNING_def)

lemma or_and_0: "((x :: u32) OR g) AND f = 0 \<longleftrightarrow> x AND f = 0 \<and> g AND f = 0"
proof -
  have "(x OR g) AND f = (x AND f) OR (g AND f)" by (rule bit_word_eqI) (auto simp: bit_simps)
  then show ?thesis by (simp add: or_eq_0_iff)
qed

lemma flag_set [simp]: "flag f (set_flags e g L) e' \<longleftrightarrow> flag f L e' \<or> e' = e \<and> g AND f \<noteq> 0"
  by (auto simp: flag_def set_flags_def upd_event_def or_and_0)

lemma clear_bit: "n < 32 \<Longrightarrow> ((x :: u32) AND NOT g) AND 2 ^ n \<noteq> 0 \<longleftrightarrow> x AND 2 ^ n \<noteq> 0 \<and> g AND 2 ^ n = 0"
proof -
  assume n: "n < 32"
  note w = word_and_bit [OF n]
  show ?thesis using w [of "x AND NOT g"] w [of x] w [of g] n by (auto simp: bit_and_iff bit_not_iff)
qed

lemma flag_clear [simp]:
  "f \<in> {EVENT_F_ENABLED, EVENT_F_REMOVE, EVENT_F_ONESHOT, EVENT_F_RUNNING} \<Longrightarrow>
     flag f (clear_flags e g L) e' \<longleftrightarrow> flag f L e' \<and> \<not> (e' = e \<and> g AND f \<noteq> 0)"
  using clear_bit [of 0 "flags (events L e)" g] clear_bit [of 1 "flags (events L e)" g]
    clear_bit [of 2 "flags (events L e)" g] clear_bit [of 3 "flags (events L e)" g]
  by (auto simp: flag_def clear_flags_def upd_event_def flag_values simp del: power_0 power_one_right)

lemma upd_event_fields [simp]:
  "time_event_list (upd_event e f L) = time_event_list L" "fd_event_list (upd_event e f L) = fd_event_list L"
  "always_event_list (upd_event e f L) = always_event_list L" "end_loop (upd_event e f L) = end_loop L"
  "ev_fresh (upd_event e f L) = ev_fresh L"
  by (simp_all add: upd_event_def)

lemma flags_fields [simp]:
  "time_event_list (set_flags e f L) = time_event_list L" "fd_event_list (set_flags e f L) = fd_event_list L"
  "always_event_list (set_flags e f L) = always_event_list L" "end_loop (set_flags e f L) = end_loop L"
  "ev_fresh (set_flags e f L) = ev_fresh L"
  "time_event_list (clear_flags e f L) = time_event_list L" "fd_event_list (clear_flags e f L) = fd_event_list L"
  "always_event_list (clear_flags e f L) = always_event_list L" "end_loop (clear_flags e f L) = end_loop L"
  "ev_fresh (clear_flags e f L) = ev_fresh L"
  by (simp_all add: set_flags_def clear_flags_def)

lemma ev_type_upd [simp]:
  "ev_type (events (set_flags e f L) e') = ev_type (events L e')" "ev_type (events (clear_flags e f L) e') = ev_type (events L e')"
  by (simp_all add: set_flags_def clear_flags_def upd_event_def)

lemma flag_upd [simp]: "(\<And>ev. flags (f ev) = flags ev) \<Longrightarrow> flag g (upd_event e f L) e' = flag g L e'"
  by (simp add: flag_def upd_event_def)

lemma ev_target_upd [simp]:
  "ev_fd (events (set_flags e f L) e') = ev_fd (events L e')" "ev_fd (events (clear_flags e f L) e') = ev_fd (events L e')"
  "ev_write (events (set_flags e f L) e') = ev_write (events L e')" "ev_write (events (clear_flags e f L) e') = ev_write (events L e')"
  "(\<And>ev. ev_fd (g ev) = ev_fd ev) \<Longrightarrow> ev_fd (events (upd_event e g L) e') = ev_fd (events L e')"
  "(\<And>ev. ev_write (g ev) = ev_write ev) \<Longrightarrow> ev_write (events (upd_event e g L) e') = ev_write (events L e')"
  by (simp_all add: set_flags_def clear_flags_def upd_event_def)

lemma ev_type_upd_event [simp]: "(\<And>ev. ev_type (f ev) = ev_type ev) \<Longrightarrow> ev_type (events (upd_event e f L) e') = ev_type (events L e')"
  by (simp add: upd_event_def)

section \<open>Well-formed lists\<close>

definition wf_loop :: "ev_loop \<Rightarrow> bool" where
  "wf_loop L \<longleftrightarrow> distinct (time_event_list L @ fd_event_list L @ always_event_list L) \<and>
     (\<forall>e\<in>set (time_event_list L). e < ev_fresh L \<and> ev_type (events L e) = EVENT_TIME) \<and>
     (\<forall>e\<in>set (fd_event_list L). e < ev_fresh L \<and> ev_type (events L e) = EVENT_FD) \<and>
     (\<forall>e\<in>set (always_event_list L). e < ev_fresh L \<and> ev_type (events L e) = EVENT_ALWAYS)"

lemma wf_loop_cong:
  assumes "wf_loop L" "time_event_list L' = time_event_list L" "fd_event_list L' = fd_event_list L"
    "always_event_list L' = always_event_list L" "ev_fresh L' = ev_fresh L" "\<And>e. ev_type (events L' e) = ev_type (events L e)"
  shows "wf_loop L'"
  using assms(1) unfolding wf_loop_def assms(2-6) .

text \<open>What the functions that handlers call do to the events.\<close>

inductive api_step :: "ev_loop \<Rightarrow> ev_loop \<Rightarrow> bool" where
  "fl AND EVENT_F_RUNNING = 0 \<Longrightarrow> api_step L (fst (add_timer_event now now2 msec fl L))"
| "fl AND EVENT_F_RUNNING = 0 \<Longrightarrow> api_step L (fst (add_alarm_event now t fl L))"
| "fl AND EVENT_F_RUNNING = 0 \<Longrightarrow> api_step L (fst (add_fd_event fd write fl L))"
| "fl AND EVENT_F_RUNNING = 0 \<Longrightarrow> api_step L (fst (add_always_event fl L))"
| "api_step L (remove_event e L)"
| "api_step L (set_event_enabled e on L)"
| "api_step L (set_event_interval now e msec L)"
| "api_step L (resched_event now e tr L)"
| "api_step L (exit_event_loop L)"

inductive_cases api_stepE: "api_step L L'"

abbreviation api :: "ev_loop \<Rightarrow> ev_loop \<Rightarrow> bool" where "api \<equiv> api_step\<^sup>*\<^sup>*"

definition api_only :: "'s handler \<Rightarrow> bool" where
  "api_only h \<longleftrightarrow> (\<forall>k e s L. api L (snd (h k e (s, L))))"

definition listed :: "ev_loop \<Rightarrow> nat set" where
  "listed L = set (time_event_list L) \<union> set (always_event_list L) \<union> set (fd_event_list L)"

text \<open>Events come to the front of the lists; none is switched to running, and no new one runs.\<close>

definition same_target :: "ev_loop \<Rightarrow> ev_loop \<Rightarrow> bool" where
  "same_target L L' \<longleftrightarrow> ev_fresh L \<le> ev_fresh L' \<and>
     (\<forall>e<ev_fresh L. ev_fd (events L' e) = ev_fd (events L e) \<and> ev_write (events L' e) = ev_write (events L e))"

definition grows :: "ev_loop \<Rightarrow> ev_loop \<Rightarrow> bool" where
  "grows L L' \<longleftrightarrow> suffix (time_event_list L) (time_event_list L') \<and> suffix (fd_event_list L) (fd_event_list L') \<and>
     suffix (always_event_list L) (always_event_list L') \<and> (\<forall>e. ev_running L' e \<longrightarrow> ev_running L e) \<and>
     (\<forall>e\<in>listed L'. ev_running L' e \<longrightarrow> e \<in> listed L) \<and> (end_loop L \<longrightarrow> end_loop L') \<and> (wf_loop L \<longrightarrow> wf_loop L') \<and> same_target L L'"

lemma same_target_trans: "same_target L L1 \<Longrightarrow> same_target L1 L2 \<Longrightarrow> same_target L L2"
  by (simp add: same_target_def)

lemma grows_refl [simp]: "grows L L"
  by (simp add: grows_def same_target_def)

lemma grows_trans: "grows L L1 \<Longrightarrow> grows L1 L2 \<Longrightarrow> grows L L2"
  unfolding grows_def by (blast intro: suffix_order.trans same_target_trans)

lemma growsD:
  assumes "grows L L'"
  shows "ev_running L' e \<Longrightarrow> ev_running L e" "\<not> end_loop L' \<Longrightarrow> \<not> end_loop L" "wf_loop L \<Longrightarrow> wf_loop L'"
    "e < ev_fresh L \<Longrightarrow> isset A L' e = isset A L e"
  using assms by (simp_all add: grows_def same_target_def isset_def)

lemma grows_same:
  assumes "time_event_list L' = time_event_list L" "fd_event_list L' = fd_event_list L" "always_event_list L' = always_event_list L"
    "end_loop L \<Longrightarrow> end_loop L'" "ev_fresh L' = ev_fresh L" "\<And>e. ev_type (events L' e) = ev_type (events L e)"
    "\<And>e. ev_running L' e \<Longrightarrow> ev_running L e"
    "\<And>e. ev_fd (events L' e) = ev_fd (events L e) \<and> ev_write (events L' e) = ev_write (events L e)"
  shows "grows L L'"
  using assms(4,7) wf_loop_cong [OF _ assms(1-3,5,6)] by (simp add: grows_def listed_def same_target_def assms(1-3,5,8))

lemma resched_grows: "grows L (resched_event now e tr L)"
  by (rule grows_same) (simp_all add: resched_event_def Let_def)

lemma before_grows: "grows L (before_call e L)" "grows L (before_timer A e L)"
proof -
  have "grows L (set_flags e EVENT_F_REMOVE L)" by (rule grows_same) simp_all
  then show "grows L (before_call e L)" "grows L (before_timer A e L)"
    by (simp_all add: before_call_def before_timer_def resched_grows)
qed

lemma fresh_event:
  assumes "events L' = (events L)(ev_fresh L := ev)" "flags ev AND EVENT_F_RUNNING = 0" "ev_fresh L' = Suc (ev_fresh L)"
    and "end_loop L' = end_loop L"
    and "time_event_list L' = ts @ time_event_list L" "fd_event_list L' = fs @ fd_event_list L" "always_event_list L' = as @ always_event_list L"
    and "ts @ fs @ as = [ev_fresh L]" "ts \<noteq> [] \<Longrightarrow> ev_type ev = EVENT_TIME" "fs \<noteq> [] \<Longrightarrow> ev_type ev = EVENT_FD"
    "as \<noteq> [] \<Longrightarrow> ev_type ev = EVENT_ALWAYS"
  shows "grows L L'"
proof -
  have run: "ev_running L' e \<Longrightarrow> ev_running L e" for e using assms(2) by (auto simp: flag_def assms(1) split: if_splits)
  consider "ts = [ev_fresh L]" "fs = []" "as = []" | "ts = []" "fs = [ev_fresh L]" "as = []" | "ts = []" "fs = []" "as = [ev_fresh L]"
    using assms(8) by (auto simp: append_eq_Cons_conv)
  then have "wf_loop L \<Longrightarrow> wf_loop L'"
    by cases (auto simp: wf_loop_def assms(1,3,5-7) assms(9-11) less_Suc_eq)
  moreover have "\<not> ev_running L' (ev_fresh L)" using assms(2) by (simp add: flag_def assms(1))
  then have "\<forall>e\<in>listed L'. ev_running L' e \<longrightarrow> e \<in> listed L"
    using assms(8) by (auto simp: listed_def assms(5-7) append_eq_Cons_conv)
  ultimately show ?thesis using run by (simp add: grows_def same_target_def assms(1,3-7) suffix_def)
qed

lemma api_step_grows: "api_step L L' \<Longrightarrow> grows L L'"
proof (induction rule: api_step.induct)
  case (1 fl L now now2 msec)
  let ?L = "L\<lparr>events := (events L)(ev_fresh L := new_event\<lparr>ev_type := EVENT_TIME, flags := fl, ival := msec, fire := now\<rparr>),
    time_event_list := ev_fresh L # time_event_list L, ev_fresh := ev_fresh L + 1\<rparr>"
  have "grows L ?L"
    by (rule fresh_event [of _ _ "new_event\<lparr>ev_type := EVENT_TIME, flags := fl, ival := msec, fire := now\<rparr>" "[ev_fresh L]" "[]" "[]"])
      (use 1 in \<open>simp_all add: new_event_def\<close>)
  then show ?case using grows_trans resched_grows by (fastforce simp: add_timer_event_def Let_def)
next
  case (2 fl L now t)
  let ?L = "L\<lparr>events := (events L)(ev_fresh L := new_event\<lparr>ev_type := EVENT_TIME, flags := fl OR EVENT_F_ONESHOT\<rparr>),
    time_event_list := ev_fresh L # time_event_list L, ev_fresh := ev_fresh L + 1\<rparr>"
  have "grows L ?L"
    by (rule fresh_event [of _ _ "new_event\<lparr>ev_type := EVENT_TIME, flags := fl OR EVENT_F_ONESHOT\<rparr>" "[ev_fresh L]" "[]" "[]"])
      (use 2 in \<open>simp_all add: or_and_0 new_event_def\<close>)
  then show ?case using grows_trans resched_grows by (fastforce simp: add_alarm_event_def Let_def)
next
  case (3 fl L fd b)
  show ?case
    by (rule fresh_event [of _ _ "new_event\<lparr>ev_type := EVENT_FD, flags := fl OR EVENT_F_ENABLED, ev_fd := fd, ev_write := b\<rparr>" "[]" "[ev_fresh L]" "[]"])
      (use 3 in \<open>simp_all add: add_fd_event_def Let_def or_and_0 new_event_def\<close>)
next
  case (4 fl L)
  show ?case
    by (rule fresh_event [of _ _ "new_event\<lparr>ev_type := EVENT_ALWAYS, flags := fl OR EVENT_F_ENABLED\<rparr>" "[]" "[]" "[ev_fresh L]"])
      (use 4 in \<open>simp_all add: add_always_event_def Let_def or_and_0 new_event_def\<close>)
next
  case (5 L e)
  show ?case by (rule grows_same) (simp_all add: remove_event_def)
next
  case (6 L e on)
  show ?case by (cases on; rule grows_same) (simp_all add: set_event_enabled_def Let_def)
next
  case (7 L now e msec)
  have "grows L (upd_event e (\<lambda>ev. ev\<lparr>ival := msec\<rparr>) L)" by (rule grows_same) simp_all
  then show ?case using grows_trans resched_grows by (auto simp: set_event_interval_def Let_def)
next
  case (8 L now e tr)
  show ?case by (rule resched_grows)
next
  case (9 L)
  show ?case by (rule grows_same) (simp_all add: exit_event_loop_def flag_def)
qed

lemma api_grows: "api L L' \<Longrightarrow> grows L L'"
  by (induction rule: rtranclp_induct) (auto intro: grows_trans api_step_grows)

section \<open>Traces\<close>

text \<open>
  A trace of calls: each event is running and the loop has not been told to end when it is called,
  and between the calls nothing is switched to running.
\<close>

fun sound :: "ev_loop \<Rightarrow> (nat \<times> ev_loop) list \<Rightarrow> ev_loop \<Rightarrow> bool" where
  "sound L [] L' \<longleftrightarrow> grows L L'"
| "sound L ((e, L1) # tr) L' \<longleftrightarrow> ev_running L e \<and> \<not> end_loop L \<and> grows L L1 \<and> sound L1 tr L'"

lemma sound_grows: "sound L tr L' \<Longrightarrow> grows L L'"
  by (induction L tr L' rule: sound.induct) (auto intro: grows_trans)

lemma sound_before: "grows L0 L \<Longrightarrow> sound L tr L' \<Longrightarrow> sound L0 tr L'"
  by (cases tr) (auto intro: grows_trans growsD(1) dest: growsD(2))

lemma sound_append: "sound L t1 L1 \<Longrightarrow> sound L1 t2 L2 \<Longrightarrow> sound L (t1 @ t2) L2"
  by (induction L t1 L1 rule: sound.induct) (auto intro: sound_before)

lemma sound_running:
  assumes "sound L tr L'" "j < length tr"
  shows "ev_running L (fst (tr ! j)) \<and> (\<forall>i<j. ev_running (snd (tr ! i)) (fst (tr ! j)) \<and> \<not> end_loop (snd (tr ! i)))"
  using assms
proof (induction tr arbitrary: L j)
  case (Cons p tr)
  obtain e L1 where p: "p = (e, L1)" by (cases p)
  have g: "grows L L1" "sound L1 tr L'" and e: "ev_running L e" "\<not> end_loop L" using Cons.prems(1) by (simp_all add: p)
  show ?case
  proof (cases j)
    case 0
    with e show ?thesis by (simp add: p)
  next
    case (Suc k)
    with Cons.prems(2) have k: "k < length tr" by simp
    note IH = Cons.IH [OF g(2) k]
    have "\<not> end_loop L1"
    proof (cases tr)
      case (Cons q tr')
      with g(2) show ?thesis by (cases q) simp
    qed (use k in simp)
    moreover have "ev_running L (fst (tr ! k))" using IH g(1) by (simp add: grows_def)
    ultimately show ?thesis using IH Suc by (auto simp: p nth_Cons' less_Suc_eq_0_disj)
  qed
qed simp

lemma sound_last:
  assumes "sound L tr L'" "ev_running L' e"
  shows "ev_running L e" "\<forall>p\<in>set tr. ev_running (snd p) e"
  using assms by (induction L tr L' rule: sound.induct) (auto dest: sound_grows simp: grows_def)

text \<open>One of the loops over a list of events.\<close>

lemma run_events_spec:
  assumes "api_only h" "\<And>e L. grows L (pre e L)" "run_events h k due pre es (s, L) = ((s', L'), tr)"
  shows "sound L tr L' \<and> subseq (map fst tr) es \<and>
    (\<forall>e\<in>set es. e \<notin> set (map fst tr) \<and> ev_running L' e \<and> \<not> end_loop L' \<longrightarrow>
       (\<exists>L1. grows L L1 \<and> grows L1 L' \<and> \<not> due L1 e))"
  using assms(3)
proof (induction es arbitrary: s L tr)
  case Nil
  then show ?case by simp
next
  case (Cons e es)
  consider "\<not> ev_running L e" | "ev_running L e" "end_loop L" | "ev_running L e" "\<not> end_loop L" "\<not> due L e"
    | "ev_running L e" "\<not> end_loop L" "due L e" by blast
  then show ?case
  proof cases
    case 1
    with Cons.prems have r: "run_events h k due pre es (s, L) = ((s', L'), tr)" by simp
    have "\<not> ev_running L' e" using sound_grows [OF conjunct1 [OF Cons.IH [OF r]]] 1 by (auto simp: grows_def)
    with Cons.IH [OF r] show ?thesis by (auto intro: list_emb_Cons)
  next
    case 2
    with Cons.prems show ?thesis by auto
  next
    case 3
    with Cons.prems have r: "run_events h k due pre es (s, L) = ((s', L'), tr)" by simp
    have "grows L L'" using sound_grows [OF conjunct1 [OF Cons.IH [OF r]]] .
    with Cons.IH [OF r] 3 show ?thesis by (auto intro: list_emb_Cons)
  next
    case 4
    obtain s1 L1 where h: "h k e (s, pre e L) = (s1, L1)" by (cases "h k e (s, pre e L)")
    obtain r tr1 where r: "run_events h k due pre es (s1, L1) = (r, tr1)" by (cases "run_events h k due pre es (s1, L1)")
    have p: "r = (s', L')" "tr = (e, L1) # tr1" using Cons.prems 4 h r by simp_all
    have "api (pre e L) L1" using assms(1) h unfolding api_only_def by (metis snd_conv)
    with assms(2) have g: "grows L L1" using grows_trans api_grows by blast
    note IH = Cons.IH [OF r [unfolded p(1)]]
    have "\<exists>L2. grows L L2 \<and> grows L2 L' \<and> \<not> due L2 e'"
      if "e' \<in> set es" "e' \<notin> set (map fst tr1)" "ev_running L' e'" "\<not> end_loop L'" for e'
      using IH that g grows_trans by blast
    with IH g 4 show ?thesis by (auto simp: p(2))
  qed
qed

section \<open>The beginning of a round\<close>

lemma mark_fields [simp]:
  "time_event_list (mark e L) = time_event_list L" "fd_event_list (mark e L) = fd_event_list L"
  "always_event_list (mark e L) = always_event_list L" "end_loop (mark e L) = end_loop L" "ev_fresh (mark e L) = ev_fresh L"
  "ev_type (events (mark e L) e') = ev_type (events L e')" "enabled (mark e L) e' = enabled L e'"
  "ev_running (mark e L) e' = (if e' = e then enabled L e else ev_running L e')"
  by (cases "enabled L e"; simp add: mark_def)+

lemma upd_other [simp]: "fire (events (mark e L) e') = fire (events L e')" "ev_fd (events (mark e L) e') = ev_fd (events L e')"
  "ev_write (events (mark e L) e') = ev_write (events L e')"
  by (simp_all add: mark_def set_flags_def clear_flags_def upd_event_def)

lemma mark_removed [simp]: "removed (mark e L) e' = removed L e'"
  by (cases "enabled L e") (simp_all add: mark_def)

lemma fold_mark:
  "time_event_list (fold mark es L) = time_event_list L" "fd_event_list (fold mark es L) = fd_event_list L"
  "always_event_list (fold mark es L) = always_event_list L" "end_loop (fold mark es L) = end_loop L" "ev_fresh (fold mark es L) = ev_fresh L"
  "ev_type (events (fold mark es L) e) = ev_type (events L e)" "enabled (fold mark es L) e = enabled L e"
  "fire (events (fold mark es L) e) = fire (events L e)" "ev_fd (events (fold mark es L) e) = ev_fd (events L e)"
  "ev_write (events (fold mark es L) e) = ev_write (events L e)" "removed (fold mark es L) e = removed L e"
  "ev_running (fold mark es L) e = (if e \<in> set es then enabled L e else ev_running L e)"
  by (induction es arbitrary: L) simp_all

lemma start_round_fields:
  "time_event_list (start_round L) = time_event_list L" "fd_event_list (start_round L) = fd_event_list L"
  "always_event_list (start_round L) = always_event_list L" "end_loop (start_round L) = end_loop L"
  "fire (events (start_round L) e) = fire (events L e)" "removed (start_round L) e = removed L e" "enabled (start_round L) e = enabled L e"
  "isset A (start_round L) e = isset A L e"
  by (simp_all add: start_round_def fold_mark isset_def)

lemma start_round_running: "e \<in> listed L \<Longrightarrow> ev_running (start_round L) e \<longleftrightarrow> enabled L e"
  by (auto simp: start_round_def fold_mark listed_def)

lemma start_round_wf: "wf_loop L \<Longrightarrow> wf_loop (start_round L)"
  by (erule wf_loop_cong) (simp_all add: start_round_def fold_mark)

lemma strip_all_fields [simp]:
  "time_event_list (strip_all L) = filter (\<lambda>e. \<not> removed L e) (time_event_list L)"
  "fd_event_list (strip_all L) = filter (\<lambda>e. \<not> removed L e) (fd_event_list L)"
  "always_event_list (strip_all L) = filter (\<lambda>e. \<not> removed L e) (always_event_list L)"
  "end_loop (strip_all L) = end_loop L" "flag f (strip_all L) e = flag f L e" "events (strip_all L) = events L"
  "ev_fresh (strip_all L) = ev_fresh L"
  by (simp_all add: strip_all_def strip_events_def flag_def)

lemma strip_all_wf: "wf_loop L \<Longrightarrow> wf_loop (strip_all L)"
  by (auto simp: wf_loop_def)

section \<open>A round\<close>

text \<open>The states between the loops of a round, and what is called in each.\<close>

lemma round_phases:
  assumes "api_only h" "event_round h A (s, L) = Inr ((s', L'), tr)"
  obtains L1 L2 L3 t1 t2 t3 where "tr = t1 @ t2 @ t3" "L' = strip_all L3"
    "sound (start_round L) t1 L1" "sound L1 t2 L2" "sound L2 t3 L3"
    "subseq (map fst t1) (time_event_list L)" "subseq (map fst t2) (always_event_list L1)" "subseq (map fst t3) (fd_event_list L2)"
    "\<exists>s1. run_events h EVENT_TIME (timer_due A) (before_timer A) (time_event_list L) (s, start_round L) = ((s1, L1), t1)"
    "\<forall>e\<in>set (always_event_list L1). e \<notin> set (map fst t2) \<and> ev_running L2 e \<longrightarrow> end_loop L2"
    "\<forall>e\<in>set (fd_event_list L2). 0 < select_ret A \<and> e \<notin> set (map fst t3) \<and> ev_running L3 e \<and> \<not> end_loop L3 \<longrightarrow>
       (\<exists>Lx. grows L2 Lx \<and> grows Lx L3 \<and> \<not> isset A Lx e)"
proof -
  let ?L = "start_round L"
  obtain s1 L1 t1 where 1: "run_events h EVENT_TIME (timer_due A) (before_timer A) (time_event_list ?L) (s, ?L) = ((s1, L1), t1)"
    by (cases "run_events h EVENT_TIME (timer_due A) (before_timer A) (time_event_list ?L) (s, ?L)") auto
  obtain s2 L2 t2 where 2: "run_events h EVENT_ALWAYS (\<lambda>_ _. True) before_call (always_event_list L1) (s1, L1) = ((s2, L2), t2)"
    by (cases "run_events h EVENT_ALWAYS (\<lambda>_ _. True) before_call (always_event_list L1) (s1, L1)") auto
  obtain s3 L3 t3 where 3: "(if 0 < select_ret A then run_events h EVENT_FD (isset A) before_call (fd_event_list L2) (s2, L2)
      else ((s2, L2), [])) = ((s3, L3), t3)"
    by (cases "if 0 < select_ret A then run_events h EVENT_FD (isset A) before_call (fd_event_list L2) (s2, L2) else ((s2, L2), [])") auto
  have r: "tr = t1 @ t2 @ t3" "L' = strip_all L3"
    using assms(2) 1 2 3 by (simp_all add: event_round_def Let_def split: if_splits)
  note p1 = run_events_spec [OF assms(1) before_grows(2) 1] and p2 = run_events_spec [OF assms(1) before_grows(1) 2]
  have p3: "sound L2 t3 L3 \<and> subseq (map fst t3) (fd_event_list L2) \<and>
    (\<forall>e\<in>set (fd_event_list L2). 0 < select_ret A \<and> e \<notin> set (map fst t3) \<and> ev_running L3 e \<and> \<not> end_loop L3 \<longrightarrow>
       (\<exists>Lx. grows L2 Lx \<and> grows Lx L3 \<and> \<not> isset A Lx e))"
  proof (cases "0 < select_ret A")
    case True
    with 3 have "run_events h EVENT_FD (isset A) before_call (fd_event_list L2) (s2, L2) = ((s3, L3), t3)" by simp
    from run_events_spec [OF assms(1) before_grows(1) this] show ?thesis by blast
  next
    case False
    with 3 show ?thesis by simp
  qed
  show thesis
    by (rule that [OF r]) (use p1 p2 p3 1 in \<open>auto simp: start_round_fields\<close>)
qed

lemma round_sound:
  assumes "api_only h" "event_round h A (s, L) = Inr ((s', L'), tr)"
  obtains L3 where "L' = strip_all L3" "sound (start_round L) tr L3"
  by (rule round_phases [OF assms]) (metis sound_append)

lemma suffix_subset: "suffix xs ys \<Longrightarrow> set xs \<subseteq> set ys"
  by (auto simp: suffix_def)

lemma subseq_subset: "subseq xs ys \<Longrightarrow> set xs \<subseteq> set ys"
  by (auto dest: list_emb_set)

lemma subseq_dist: "subseq xs ys \<Longrightarrow> distinct ys \<Longrightarrow> distinct xs"
  by (induction rule: list_emb.induct) (auto dest: subseq_subset)

text \<open>What \<open>remove_event\<close> and \<open>exit_event_loop\<close> do cannot be undone by any later call of the interface.\<close>

lemma removed_stays:
  assumes "api (remove_event e K) L"
  shows "\<not> ev_running L e"
proof -
  have "\<not> ev_running (remove_event e K) e" by (simp add: remove_event_def)
  then show ?thesis using growsD(1) [OF api_grows [OF assms], of e] by blast
qed

lemma ended_stays: "api (exit_event_loop K) L \<Longrightarrow> end_loop L"
  using growsD(2) [OF api_grows, of "exit_event_loop K" L] by (auto simp: exit_event_loop_def)



section \<open>Who is served\<close>

lemma fire_other [simp]:
  "fire (events (set_flags e' f L) e) = fire (events L e)" "fire (events (clear_flags e' f L) e) = fire (events L e)"
  "e \<noteq> e' \<Longrightarrow> fire (events (upd_event e' g L) e) = fire (events L e)"
  by (simp_all add: set_flags_def clear_flags_def upd_event_def)

lemma before_timer_fire: "e \<noteq> e' \<Longrightarrow> fire (events (before_timer A e' L) e) = fire (events L e)"
  by (simp add: before_timer_def resched_event_def Let_def)

text \<open>A handler that does not change when a timer fires.\<close>

definition keeps_fire :: "'s handler \<Rightarrow> nat \<Rightarrow> bool" where
  "keeps_fire h e \<longleftrightarrow> (\<forall>k e' s L. fire (events (snd (h k e' (s, L))) e) = fire (events L e))"

lemma timers_served:
  assumes "api_only h" "keeps_fire h e" "run_events h k (timer_due A) (before_timer A) es (s, L) = ((s', L'), tr)"
    "e \<in> set es" "timer_due A L e" "ev_running L' e" "\<not> end_loop L'"
  shows "e \<in> set (map fst tr)"
  using assms(3-)
proof (induction es arbitrary: s L tr)
  case (Cons e' es)
  have g: "grows L L'" using run_events_spec [OF assms(1) before_grows(2) Cons.prems(1)] sound_grows by blast
  then have run: "ev_running L e" "\<not> end_loop L" using Cons.prems growsD by blast+
  show ?case
  proof (cases "ev_running L e' \<and> timer_due A L e'")
    case False
    with run have "run_events h k (timer_due A) (before_timer A) es (s, L) = ((s', L'), tr)" "e \<in> set es"
      using Cons.prems by (auto split: if_splits)
    then show ?thesis using Cons.IH Cons.prems(3-) by blast
  next
    case True
    obtain s1 L1 where h: "h k e' (s, before_timer A e' L) = (s1, L1)" by (cases "h k e' (s, before_timer A e' L)")
    obtain tr1 where r: "run_events h k (timer_due A) (before_timer A) es (s1, L1) = ((s', L'), tr1)" "tr = (e', L1) # tr1"
      using Cons.prems(1) True run(2) by (auto simp: h Let_def split: prod.splits)
    show ?thesis
    proof (cases "e' = e")
      case False
      have "fire (events (snd (h k e' (s, before_timer A e' L))) e) = fire (events (before_timer A e' L) e)"
        using assms(2) unfolding keeps_fire_def by blast
      then have "timer_due A L1 e"
        using False Cons.prems(3) before_timer_fire [of e e' A L] by (simp add: h timer_due_def)
      with r Cons.IH [OF r(1)] False Cons.prems show ?thesis by simp
    qed (simp add: r(2))
  qed
qed simp


section \<open>The lists stay as they should\<close>

text \<open>
  C19. The lists of the event loop are well typed however long it runs and whatever its handlers do with the
  functions of \<open>event.h\<close>: no event is in two lists or twice in one, every
  event is of the type of its list, so that the loop reads the part of the union that was written,
  and no removed event is left.
\<close>

theorem event_loop_types:
  assumes "api_only h" "wf_loop (snd p)" "event_loop single h As p = Inr (s', L')"
  shows "wf_loop L' \<and> (As \<noteq> [] \<longrightarrow> (\<forall>e\<in>listed L'. \<not> removed L' e))"
proof -
  have "wf_loop (snd p) \<Longrightarrow> event_rounds single h As p = Inr (s', L') \<Longrightarrow>
      wf_loop L' \<and> (As \<noteq> [] \<longrightarrow> (\<forall>e\<in>listed L'. \<not> removed L' e))" for p
  proof (induction As arbitrary: p)
    case (Cons A As)
    obtain s L where p: "p = (s, L)" by (cases p)
    from Cons.prems(2) obtain s1 L1 tr where r: "event_round h A (s, L) = Inr ((s1, L1), tr)"
      "(if end_loop L1 \<or> single then Inr (s1, L1) else event_rounds single h As (s1, L1)) = Inr (s', L')"
      by (auto simp: p bindE_def split: sum.splits prod.splits)
    obtain L3 where L3: "L1 = strip_all L3" "sound (start_round L) tr L3" by (rule round_sound [OF assms(1) r(1)])
    have wf: "wf_loop L1"
      using growsD(3) [OF sound_grows [OF L3(2)] start_round_wf] Cons.prems(1) strip_all_wf by (simp add: p L3(1))
    moreover have nr: "\<forall>e\<in>listed L1. \<not> removed L1 e" by (auto simp: L3(1) listed_def)
    ultimately show ?case
    proof (cases "end_loop L1 \<or> single \<or> As = []")
      case False
      with Cons.IH [of "(s1, L1)"] r(2) wf show ?thesis by simp
    qed (use r(2) wf nr in \<open>auto split: if_splits\<close>)
  qed simp
  moreover have "wf_loop (snd (fst p, (snd p)\<lparr>end_loop := False\<rparr>))"
    using wf_loop_cong [OF assms(2), of "(snd p)\<lparr>end_loop := False\<rparr>"] by simp
  ultimately show ?thesis using assms(3) unfolding event_loop_def by blast
qed

text \<open>
  A timer that is set for more than 36 minutes ahead fires at once: the difference of the times wraps
  at 32 bits.
\<close>

lemma far_timer_fires_at_once:
  assumes "2 ^ 31 + 500 < usecs (fire (events L e)) - usecs (clock_after A e)"
    "usecs (fire (events L e)) - usecs (clock_after A e) < 2 ^ 32"
  shows "timer_due A L e"
proof -
  let ?d = "usecs (clock_after A e) - usecs (fire (events L e)) + 500"
  have "(word_of_int (2 ^ 32) :: u32) = 0" by simp
  then have "(word_of_int (?d + 2 ^ 32) :: u32) = word_of_int ?d" by (simp only: of_int_add add_0_right)
  then have "sint (word_of_int ?d :: u32) = sint (word_of_int (?d + 2 ^ 32) :: u32)" by (simp only:)
  also have "\<dots> = ?d + 2 ^ 32" using assms by (intro sint_small) simp_all
  finally have "time_diff (fire (events L e)) (clock_after A e) = c_div (?d + 2 ^ 32) 1000"
    unfolding time_diff_usecs by (rule arg_cong)
  then show ?thesis using assms by (simp add: timer_due_def time_ago_def c_div_def pos_imp_zdiv_nonneg_iff)
qed

section \<open>How long the loop sleeps\<close>

lemma c_div_up: "- c_div (500 - d) 1000 * 1000 \<le> d" if "500 \<le> d" for d :: int
proof (cases "d = 500")
  case False
  with that have "- c_div (500 - d) 1000 = (d - 500) div 1000" by (simp add: c_div_def)
  moreover have "(d - 500) div 1000 * 1000 \<le> d - 500"
    using div_mult_mod_eq [of "d - 500" 1000] pos_mod_sign [of 1000 "d - 500"] by linarith
  ultimately show ?thesis by linarith
qed (simp add: c_div_def)

definition usec_left :: "answers \<Rightarrow> ev_loop \<Rightarrow> nat \<Rightarrow> int" where
  "usec_left A L e = usecs (fire (events L e)) - usecs (clock_before A e)"

abbreviation usec_wait :: "answers \<Rightarrow> ev_loop \<Rightarrow> nat \<Rightarrow> int" where
  "usec_wait A L e \<equiv> if usec_left A L e < 0 then 0 else usec_left A L e"

lemma timer_left_bound:
  assumes "\<bar>usec_left A L e\<bar> < 2 ^ 31 - 500"
  shows "timer_left A L e * 1000 \<le> usec_wait A L e"
proof -
  let ?c = "c_div (500 - usec_left A L e) 1000"
  have "time_ago (clock_before A e) (fire (events L e)) = ?c"
    using time_diff_exact [of "clock_before A e" "fire (events L e)"] assms
    by (simp add: time_ago_def usec_left_def abs_minus_commute algebra_simps)
  then have t: "timer_left A L e = (if - ?c < 5 then 0 else - ?c)" by (simp add: timer_left_def Let_def)
  show ?thesis
  proof (cases "usec_left A L e < 500")
    case True
    then have "0 \<le> ?c" by (simp add: c_div_def)
    then show ?thesis by (simp add: t)
  next
    case False
    then show ?thesis using c_div_up [of "usec_left A L e"] by (simp add: t)
  qed
qed

lemma timer_left_nonneg: "0 \<le> timer_left A L e"
  by (simp add: timer_left_def Let_def)

lemma next_timer_mono: "\<exists>m. next_timer A L es (Some n) = Some m \<and> m \<le> n \<and> (0 \<le> n \<longrightarrow> 0 \<le> m)"
proof (induction es arbitrary: n)
  case (Cons e es)
  show ?case
  proof (cases "enabled L e")
    case True
    let ?n = "if timer_left A L e < n then timer_left A L e else n"
    obtain m where "next_timer A L es (Some ?n) = Some m" "m \<le> ?n" "0 \<le> ?n \<longrightarrow> 0 \<le> m" using Cons.IH by blast
    with True timer_left_nonneg [of A L e] show ?thesis by (auto simp: Let_def split: if_splits)
  qed (use Cons in simp)
qed simp

lemma next_timer_none: "next_timer A L es None = None \<or> (\<exists>n. next_timer A L es None = Some n \<and> 0 \<le> n)"
proof (induction es)
  case (Cons e es)
  with next_timer_mono [of A L es "timer_left A L e"] timer_left_nonneg [of A L e] show ?case by auto
qed simp

lemma next_timer_le:
  assumes "e \<in> set es" "enabled L e"
  shows "\<exists>n. next_timer A L es st = Some n \<and> n \<le> timer_left A L e"
  using assms(1)
proof (induction es arbitrary: st)
  case (Cons a es)
  show ?case
  proof (cases "a = e")
    case True
    let ?n = "case st of None \<Rightarrow> timer_left A L e | Some n \<Rightarrow> if timer_left A L e < n then timer_left A L e else n"
    have n: "?n \<le> timer_left A L e" by (simp split: option.split)
    have "next_timer A L (a # es) st = next_timer A L es (Some ?n)"
      using assms(2) True by (simp add: Let_def split: option.split)
    moreover obtain m where "next_timer A L es (Some ?n) = Some m" "m \<le> ?n" using next_timer_mono by blast
    ultimately show ?thesis using n by (intro exI [of _ m]) simp
  next
    case False
    with Cons.prems Cons.IH show ?thesis by (simp add: Let_def)
  qed
qed simp

text \<open>
  \<open>select\<close> is given a time that is a proper one, never past a timer that is within 35 minutes, and
  none when an event always fires.
\<close>

lemma select_wakes_in_time:
  assumes "\<forall>e\<in>set (time_event_list L). enabled L e \<longrightarrow> \<bar>usec_left A L e\<bar> < 2 ^ 31 - 500"
  shows "0 \<le> tv_sec (select_timeout A L) \<and> time_ok (select_timeout A L) \<and>
    (\<forall>e\<in>set (time_event_list L). enabled L e \<longrightarrow>
       usecs (select_timeout A L) \<le> usec_wait A L e) \<and>
    ((\<exists>e\<in>set (always_event_list L). enabled L e) \<longrightarrow> usecs (select_timeout A L) = 0)"
proof -
  let ?nt = "next_timer A L (time_event_list L) None"
  have us: "usecs \<lparr>tv_sec = n div 1000, tv_usec = n mod 1000 * 1000\<rparr> = n * 1000" for n :: int
    unfolding usecs_def time_ref.simps by presburger
  have ok: "time_ok \<lparr>tv_sec = n div 1000, tv_usec = n mod 1000 * 1000\<rparr>" for n :: int
    using pos_mod_bound [of 1000 n] pos_mod_sign [of 1000 n] by (simp add: time_ok_def)
  have le: "\<exists>n. ?nt = Some n \<and> n * 1000 \<le> usec_wait A L e" if "e \<in> set (time_event_list L)" "enabled L e" for e
    using next_timer_le [OF that, of A None] timer_left_bound [of A L e] assms that by fastforce
  show ?thesis
  proof (cases "\<exists>e\<in>set (always_event_list L). enabled L e")
    case True
    then have "select_timeout A L = \<lparr>tv_sec = 0, tv_usec = 0\<rparr>" by (simp add: select_timeout_def)
    then show ?thesis by (simp add: usecs_def time_ok_def)
  next
    case False
    show ?thesis
    proof (cases ?nt)
      case None
      then have "select_timeout A L = \<lparr>tv_sec = 1, tv_usec = 0\<rparr>" using False by (simp add: select_timeout_def)
      with le None False show ?thesis by (auto simp: time_ok_def)
    next
      case (Some n)
      then have "select_timeout A L = \<lparr>tv_sec = n div 1000, tv_usec = n mod 1000 * 1000\<rparr>" "0 \<le> n"
        using False next_timer_none [of A L "time_event_list L"] by (auto simp: select_timeout_def)
      with le Some False show ?thesis by (auto simp: us ok)
    qed
  qed
qed


section \<open>An example\<close>

text \<open>A timer, an event that always fires and a descriptor; the second handler removes the third event.\<close>

definition no_events :: ev_loop where
  "no_events = \<lparr>events = \<lambda>_. new_event, time_event_list = [], fd_event_list = [], always_event_list = [], end_loop = False, ev_fresh = 0\<rparr>"

definition demo_time :: "int \<Rightarrow> time_ref" where "demo_time ms = \<lparr>tv_sec = 1000, tv_usec = ms * 1000\<rparr>"

definition demo_events :: ev_loop where
  "demo_events = fst (add_fd_event 4 False 0 (fst (add_always_event 0 (fst (add_timer_event (demo_time 0) (demo_time 0) 100 0 no_events)))))"

definition demo_answers :: answers where
  "demo_answers = \<lparr>clock_before = \<lambda>_. demo_time 10, select_ret = 1, readable = \<lambda>fd. fd = 4, writable = \<lambda>_. False,
     clock_after = \<lambda>_. demo_time 120, clock_resched = \<lambda>_. demo_time 120\<rparr>"

definition demo_handler :: "nat list handler" where
  "demo_handler k e p = (e # fst p, if e = 1 \<and> length (fst p) = 3 then remove_event 2 (snd p) else snd p)"

lemma demo_handler_ok: "api_only demo_handler" "keeps_fire demo_handler e"
proof -
  have "api L (remove_event 2 L)" for L by (rule r_into_rtranclp) (rule api_step.intros)
  then show "api_only demo_handler" by (simp add: api_only_def demo_handler_def)
  show "keeps_fire demo_handler e" by (simp add: keeps_fire_def demo_handler_def remove_event_def)
qed

lemma no_events_wf: "wf_loop no_events"
  by (simp add: wf_loop_def no_events_def)

lemma demo_events_wf: "wf_loop demo_events"
  unfolding demo_events_def
  by (intro growsD(3) [OF api_step_grows [OF api_step.intros(3)]] growsD(3) [OF api_step_grows [OF api_step.intros(4)]]
      growsD(3) [OF api_step_grows [OF api_step.intros(1)]] no_events_wf) simp_all

lemma demo_round:
  "\<exists>L' tr. event_round demo_handler demo_answers ([], demo_events) = Inr (([2, 1, 0], L'), tr) \<and> map fst tr = [0, 1, 2] \<and>
     \<not> end_loop L' \<and> ev_running L' 0 \<and> ev_running L' 1 \<and> ev_running L' 2"
proof -
  let ?r = "event_round demo_handler demo_answers ([], demo_events)"
  have "case ?r of Inl _ \<Rightarrow> False | Inr ((s, L), tr) \<Rightarrow> s = [2, 1, 0] \<and> map fst tr = [0, 1, 2] \<and>
      \<not> end_loop L \<and> ev_running L 0 \<and> ev_running L 1 \<and> ev_running L 2"
    by code_simp
  then show ?thesis by (auto split: sum.splits)
qed



lemma event_loop_types_witness:
  "\<exists>s' L'. event_loop False demo_handler [demo_answers, demo_answers] ([], demo_events) = Inr (s', L') \<and> wf_loop L' \<and>
     time_event_list L' = [0] \<and> always_event_list L' = [1] \<and> fd_event_list L' = []"
proof -
  let ?r = "event_loop False demo_handler [demo_answers, demo_answers] ([], demo_events)"
  have "case ?r of Inl _ \<Rightarrow> False | Inr (s, L) \<Rightarrow> time_event_list L = [0] \<and> always_event_list L = [1] \<and> fd_event_list L = []"
    by code_simp
  then obtain s' L' where r: "?r = Inr (s', L')" and l: "time_event_list L' = [0]" "always_event_list L' = [1]" "fd_event_list L' = []"
    by (auto split: sum.splits)
  moreover have "wf_loop (snd ([] :: nat list, demo_events))" using demo_events_wf by simp
  from event_loop_types [OF demo_handler_ok(1) this r] have "wf_loop L'" by simp
  ultimately show ?thesis by blast
qed

lemma far_timer_fires_at_once_witness:
  "let L = fst (add_alarm_event (demo_time 0) \<lparr>tv_sec = 3400, tv_usec = 0\<rparr> 0 no_events) in timer_due demo_answers L 0"
  using far_timer_fires_at_once [of "fst (add_alarm_event (demo_time 0) \<lparr>tv_sec = 3400, tv_usec = 0\<rparr> 0 no_events)" 0 demo_answers]
  by (simp add: Let_def add_alarm_event_def resched_event_def set_flags_def clear_flags_def upd_event_def no_events_def
      new_event_def demo_answers_def demo_time_def usecs_def)

lemma select_wakes_in_time_witness:
  "usecs (select_timeout demo_answers (fst (add_timer_event (demo_time 0) (demo_time 0) 100 0 no_events))) \<le> 90000"
proof -
  let ?L = "fst (add_timer_event (demo_time 0) (demo_time 0) 100 0 no_events)"
  have l: "time_event_list ?L = [0]" "enabled ?L 0" "usec_left demo_answers ?L 0 = 90000" by code_simp+
  with select_wakes_in_time [of ?L demo_answers] show ?thesis by simp
qed

end
