(* ===== verification/Soft_Queue.thy ===== *)
theory Soft_Queue
  imports Event_Loop Fifo
begin

text \<open>
  The soft queues of \<open>event.c\<close>, through which threads hand each other frames: two circular lists
  over one set of nodes, and the pipe that wakes the event loop. Nodes are numbers below
  \<open>sq_nodes\<close>; \<open>None\<close> is \<open>NULL\<close>. The mutex makes each function one step.
\<close>

section \<open>Nodes and circular lists\<close>

record soft_event =
  se_next :: nat
  se_prev :: nat
  event_data :: nat

type_synonym nodes = "nat \<Rightarrow> soft_event"

definition set_next :: "nat \<Rightarrow> nat \<Rightarrow> nodes \<Rightarrow> nodes" where "set_next e n h = h(e := (h e)\<lparr>se_next := n\<rparr>)"
definition set_prev :: "nat \<Rightarrow> nat \<Rightarrow> nodes \<Rightarrow> nodes" where "set_prev e p h = h(e := (h e)\<lparr>se_prev := p\<rparr>)"
definition set_data :: "nat \<Rightarrow> nat \<Rightarrow> nodes \<Rightarrow> nodes" where "set_data e d h = h(e := (h e)\<lparr>event_data := d\<rparr>)"

lemma set_fields [simp]:
  "se_next (set_next e n h x) = (if x = e then n else se_next (h x))" "se_prev (set_next e n h x) = se_prev (h x)"
  "se_prev (set_prev e n h x) = (if x = e then n else se_prev (h x))" "se_next (set_prev e n h x) = se_next (h x)"
  "event_data (set_next e n h x) = event_data (h x)" "event_data (set_prev e n h x) = event_data (h x)"
  "se_next (set_data e d h x) = se_next (h x)" "se_prev (set_data e d h x) = se_prev (h x)"
  "event_data (set_data e d h x) = (if x = e then d else event_data (h x))"
  by (simp_all add: set_next_def set_prev_def set_data_def)

text \<open>Both functions change the nodes and the pointer to the list; the first one takes the head \<open>e\<close> out.\<close>

definition remove_from_list :: "nat \<Rightarrow> nodes \<Rightarrow> nodes \<times> nat option" where
  "remove_from_list e h =
     (if se_next (h e) \<noteq> e
      then let h = set_next (se_prev (h e)) (se_next (h e)) h; h = set_prev (se_next (h e)) (se_prev (h e)) h
           in (h, Some (se_next (h e)))
      else (h, None))"

definition add_to_list :: "nat \<Rightarrow> nat option \<Rightarrow> nodes \<Rightarrow> nodes \<times> nat option" where
  "add_to_list e l h =
     (case l of
        Some x \<Rightarrow>
          let h = set_next e x h; h = set_prev e (se_prev (h x)) h; h = set_prev (se_next (h e)) e h; h = set_next (se_prev (h e)) e h
          in (h, l)
      | None \<Rightarrow> (set_prev e e (set_next e e h), Some e))"

fun linked :: "nodes \<Rightarrow> nat list \<Rightarrow> bool" where
  "linked h (x # y # zs) \<longleftrightarrow> se_next (h x) = y \<and> se_prev (h y) = x \<and> linked h (y # zs)"
| "linked h _ \<longleftrightarrow> True"

definition ring :: "nodes \<Rightarrow> nat option \<Rightarrow> nat list \<Rightarrow> bool" where
  "ring h p xs \<longleftrightarrow> distinct xs \<and> (case xs of [] \<Rightarrow> p = None | x # _ \<Rightarrow> p = Some x \<and> linked h (xs @ [x]))"

lemma linked_append: "linked h (xs @ y # ys) \<longleftrightarrow> linked h (xs @ [y]) \<and> linked h (y # ys)"
proof (induction xs)
  case (Cons a xs)
  then show ?case by (cases xs) auto
qed simp

lemma linked_cong:
  "(\<And>x. x \<in> set (butlast xs) \<Longrightarrow> se_next (h' x) = se_next (h x)) \<Longrightarrow> (\<And>x. x \<in> set (tl xs) \<Longrightarrow> se_prev (h' x) = se_prev (h x)) \<Longrightarrow>
     linked h' xs = linked h xs"
proof (induction h xs rule: linked.induct)
  case (1 h x y zs)
  then show ?case by (cases zs) auto
qed simp_all

lemma ring_cong:
  assumes "\<And>x. x \<in> set xs \<Longrightarrow> se_next (h' x) = se_next (h x) \<and> se_prev (h' x) = se_prev (h x)"
  shows "ring h' p xs = ring h p xs"
proof (cases xs)
  case (Cons x ys)
  have "linked h' (xs @ [x]) = linked h (xs @ [x])"
    by (rule linked_cong) (use assms Cons in \<open>auto dest: in_set_butlastD\<close>)
  then show ?thesis by (simp add: ring_def Cons)
qed (simp add: ring_def)

lemma ring_pointer: "ring h p xs \<Longrightarrow> p = (case xs of [] \<Rightarrow> None | x # _ \<Rightarrow> Some x)"
  by (cases xs) (simp_all add: ring_def)

lemma ring_ends:
  assumes "ring h p (ws @ [l])"
  shows "linked h (ws @ [l])" "se_prev (h (hd (ws @ [l]))) = l" "p = Some (hd (ws @ [l]))" "distinct (ws @ [l])"
proof -
  let ?x = "hd (ws @ [l])"
  have "linked h (ws @ l # [?x])" "p = Some ?x" "distinct (ws @ [l])" using assms by (cases ws; simp add: ring_def)+
  with linked_append [of h ws l "[?x]"] show "linked h (ws @ [l])" "se_prev (h ?x) = l" "p = Some ?x" "distinct (ws @ [l])" by simp_all
qed

lemma ring_intro:
  assumes "linked h (ws @ [l])" "se_next (h l) = x" "se_prev (h x) = l" "x = hd (ws @ [l])" "distinct (ws @ [l])"
  shows "ring h (Some x) (ws @ [l])"
proof -
  have "linked h (ws @ l # [x])" using linked_append [of h ws l "[x]"] assms(1-3) by simp
  with assms(4,5) show ?thesis by (cases ws) (simp_all add: ring_def)
qed

text \<open>Only nodes of the list change, and no data.\<close>

lemma remove_from_list_ring:
  assumes "ring h (Some e) (e # xs)" "remove_from_list e h = (h', p')"
  shows "ring h' p' xs"
proof (cases xs rule: rev_cases)
  case Nil
  with assms show ?thesis by (auto simp: ring_def remove_from_list_def split: if_splits)
next
  case (snoc ws l)
  let ?y = "hd (ws @ [l])"
  have r: "ring h (Some e) ((e # ws) @ [l])" using assms(1) snoc by simp
  note ends = ring_ends [OF r]
  have "linked h (e # ?y # tl (ws @ [l]))" using ends(1) by (cases ws) simp_all
  then have n: "se_next (h e) = ?y" and lk: "linked h (ws @ [l])" by (cases ws; simp)+
  have ye: "?y \<noteq> e" "l \<noteq> e" using ends(4) by (cases ws; auto)+
  have res: "h' = set_prev ?y l (set_next l ?y h)" "p' = Some ?y"
    using assms(2) n ends(2) ye by (auto simp: remove_from_list_def Let_def split: if_splits)
  have "linked h' (ws @ [l]) = linked h (ws @ [l])"
    by (rule linked_cong) (use ends(4) in \<open>cases ws; auto simp: res\<close>)+
  then show ?thesis unfolding snoc res(2) using lk ends(4) by (intro ring_intro) (simp_all add: res(1))
qed

lemma remove_from_list_frame:
  assumes "ring h (Some e) (e # xs)" "remove_from_list e h = (h', p')"
  shows "x \<notin> set (e # xs) \<Longrightarrow> h' x = h x" "event_data (h' z) = event_data (h z)"
proof -
  show "event_data (h' z) = event_data (h z)" using assms(2) by (auto simp: remove_from_list_def Let_def split: if_splits)
  assume x: "x \<notin> set (e # xs)"
  show "h' x = h x"
  proof (cases xs rule: rev_cases)
    case Nil
    with assms show ?thesis by (auto simp: ring_def remove_from_list_def split: if_splits)
  next
    case (snoc ws l)
    with assms(1) have r: "ring h (Some e) ((e # ws) @ [l])" by simp
    have "linked h (e # hd (ws @ [l]) # tl (ws @ [l]))" using ring_ends(1) [OF r] by (cases ws) simp_all
    then have "se_next (h e) \<in> set xs" "se_prev (h e) \<in> set xs" using ring_ends(2) [OF r] by (cases ws; auto simp: snoc)+
    with x assms(2) show ?thesis by (auto simp: remove_from_list_def Let_def set_next_def set_prev_def split: if_splits)
  qed
qed

lemma add_to_list_ring:
  assumes "ring h p xs" "e \<notin> set xs" "add_to_list e p h = (h', p')"
  shows "ring h' p' (xs @ [e])"
proof (cases xs rule: rev_cases)
  case Nil
  with assms show ?thesis by (auto simp: ring_def add_to_list_def)
next
  case (snoc ws l)
  let ?x = "hd (ws @ [l])"
  note ends = ring_ends [OF assms(1) [unfolded snoc]]
  have xe: "?x \<noteq> e" "l \<noteq> e" using assms(2) by (cases ws; auto simp: snoc)+
  have res: "h' = set_next l e (set_prev ?x e (set_prev e l (set_next e ?x h)))" "p' = Some ?x"
    using assms(3) ends(2,3) xe by (auto simp: add_to_list_def Let_def)
  have "linked h' (ws @ [l]) = linked h (ws @ [l])"
    by (rule linked_cong) (use ends(4) assms(2) in \<open>cases ws; auto simp: res snoc\<close>)+
  then have "linked h' ((ws @ [l]) @ [e])" using ends(1) linked_append [of h' ws l "[e]"] xe by (simp add: res)
  then show ?thesis unfolding snoc res(2)
    by (rule ring_intro) (use ends(4) assms(2) xe in \<open>cases ws; auto simp: res(1) snoc\<close>)+
qed

lemma add_to_list_frame:
  assumes "ring h p xs" "add_to_list e p h = (h', p')"
  shows "x \<notin> set (e # xs) \<Longrightarrow> h' x = h x" "event_data (h' z) = event_data (h z)"
proof -
  show "event_data (h' z) = event_data (h z)" using assms(2) by (auto simp: add_to_list_def Let_def split: option.splits)
  assume x: "x \<notin> set (e # xs)"
  show "h' x = h x"
  proof (cases xs rule: rev_cases)
    case Nil
    with assms x show ?thesis by (auto simp: ring_def add_to_list_def set_next_def set_prev_def)
  next
    case (snoc ws l)
    note ends = ring_ends [OF assms(1) [unfolded snoc]]
    have "hd (ws @ [l]) \<in> set xs" "l \<in> set xs" by (cases ws; simp add: snoc)+
    with x ends(2,3) assms(2) show ?thesis by (auto simp: add_to_list_def Let_def set_next_def set_prev_def)
  qed
qed

section \<open>Queues\<close>

record softq =
  nodes :: nodes
  sq_nodes :: nat
  empty_se_list :: "nat option"
  se_list :: "nat option"
  ev_list :: "nat list"
  fd_event :: "nat option"
  pipe_bytes :: nat

text \<open>\<open>junk\<close> is what the nodes hold when they have been allocated.\<close>

definition alloc_node :: "softq \<Rightarrow> nat \<Rightarrow> softq" where
  "alloc_node q e = (let (h, p) = add_to_list e (empty_se_list q) (nodes q) in q\<lparr>nodes := h, empty_se_list := p\<rparr>)"

definition new_soft_queue :: "nodes \<Rightarrow> nat \<Rightarrow> softq" where
  "new_soft_queue junk n =
     foldl alloc_node \<lparr>nodes = junk, sq_nodes = n, empty_se_list = None, se_list = None, ev_list = [], fd_event = None, pipe_bytes = 0\<rparr> [0..<n]"

definition locked_get_next_event :: "softq \<Rightarrow> softq \<times> nat" where
  "locked_get_next_event q =
     (case se_list q of
        None \<Rightarrow> (q, 0)
      | Some se \<Rightarrow>
          let (h, p) = remove_from_list se (nodes q); d = event_data (h se); (h, p2) = add_to_list se (empty_se_list q) h
          in (q\<lparr>nodes := h, se_list := p, empty_se_list := p2\<rparr>, d))"

text \<open>\<open>woken\<close> is what other threads do to the queue while the caller waits for the condition.\<close>

definition get_next_event :: "(softq \<Rightarrow> softq) \<Rightarrow> softq \<Rightarrow> softq \<times> nat" where
  "get_next_event woken q = locked_get_next_event (if se_list q = None then woken q else q)"

text \<open>The result \<open>False\<close> stands for -1. A byte goes to the pipe if the queue has an event in the loop.\<close>

definition soft_queue_add :: "nat \<Rightarrow> softq \<Rightarrow> softq \<times> bool" where
  "soft_queue_add d q =
     (case empty_se_list q of
        None \<Rightarrow> (q, False)
      | Some se \<Rightarrow>
          let (h, p) = remove_from_list se (nodes q); (h, p2) = add_to_list se (se_list q) h; h = set_data se d h
          in (q\<lparr>nodes := h, empty_se_list := p, se_list := p2,
                pipe_bytes := (if fd_event q \<noteq> None then pipe_bytes q + 1 else pipe_bytes q)\<rparr>, True))"

text \<open>\<open>pipe_ok\<close> and \<open>fd\<close> are what \<open>pipe\<close> answers.\<close>

definition add_softqueue_event :: "bool \<Rightarrow> int \<Rightarrow> u32 \<Rightarrow> ev_loop \<times> softq \<Rightarrow> (ev_loop \<times> softq) \<times> nat option" where
  "add_softqueue_event pipe_ok fd fl p =
     (let (L, q) = p in
      if fd_event q = None \<and> \<not> pipe_ok then ((L, q), None)
      else let (L, q) = (if fd_event q = None
                         then let (L, e) = add_fd_event fd False 0 L in (L, q\<lparr>fd_event := Some e, pipe_bytes := 0\<rparr>)
                         else (L, q));
               e = ev_fresh L;
               L = L\<lparr>events := (events L)(e := new_event\<lparr>ev_type := EVENT_SOFT_QUEUE, flags := fl OR EVENT_F_ENABLED\<rparr>), ev_fresh := e + 1\<rparr>
           in ((L, q\<lparr>ev_list := e # ev_list q\<rparr>), Some e))"

type_synonym 's soft_handler = "nat \<Rightarrow> nat \<Rightarrow> 's \<times> ev_loop \<times> softq \<Rightarrow> 's \<times> ev_loop \<times> softq"

fun sq_calls :: "'s soft_handler \<Rightarrow> nat \<Rightarrow> nat list \<Rightarrow> 's \<times> ev_loop \<times> softq \<Rightarrow> 's \<times> ev_loop \<times> softq" where
  "sq_calls h d [] st = st"
| "sq_calls h d (e # es) (s, L, q) =
     (if end_loop L then (s, L, q)
      else sq_calls h d es (h d e (s, if oneshot L e then set_flags e EVENT_F_REMOVE L else L, q)))"

text \<open>The handler of the pipe; \<open>got\<close> says whether \<open>read\<close> has returned a byte.\<close>

definition sq_run :: "'s soft_handler \<Rightarrow> bool \<Rightarrow> 's \<times> ev_loop \<times> softq \<Rightarrow> 's \<times> ev_loop \<times> softq" where
  "sq_run h got st =
     (let (s, L, q) = st in
      if \<not> got
      then (s, (case fd_event q of None \<Rightarrow> L | Some e \<Rightarrow> remove_event e L), q\<lparr>fd_event := None\<rparr>)
      else let (q, d) = locked_get_next_event (q\<lparr>pipe_bytes := pipe_bytes q - 1\<rparr>);
               (s, L, q) = sq_calls h d (ev_list q) (s, L, q)
           in (s, L, q\<lparr>ev_list := strip_events L (ev_list q)\<rparr>))"

section \<open>The invariant and the contents\<close>

definition queue_of :: "softq \<Rightarrow> nat list \<Rightarrow> nat list \<Rightarrow> bool" where
  "queue_of q es qs \<longleftrightarrow> ring (nodes q) (empty_se_list q) es \<and> ring (nodes q) (se_list q) qs \<and> distinct (es @ qs) \<and>
     set (es @ qs) = {..<sq_nodes q}"

definition wf_softq :: "softq \<Rightarrow> bool" where
  "wf_softq q \<longleftrightarrow> (\<exists>es qs. queue_of q es qs)"

fun walk :: "nodes \<Rightarrow> nat \<Rightarrow> nat \<Rightarrow> nat \<Rightarrow> nat list" where
  "walk h e0 e 0 = []"
| "walk h e0 e (Suc n) = e # (if se_next (h e) = e0 then [] else walk h e0 (se_next (h e)) n)"

definition queued :: "softq \<Rightarrow> nat list" where
  "queued q = map (\<lambda>e. event_data (nodes q e)) (case se_list q of None \<Rightarrow> [] | Some x \<Rightarrow> walk (nodes q) x x (sq_nodes q))"

lemma walk_linked: "linked h (e # xs @ [e0]) \<Longrightarrow> e0 \<notin> set xs \<Longrightarrow> length xs < n \<Longrightarrow> walk h e0 e n = e # xs"
proof (induction n arbitrary: e xs)
  case (Suc n)
  then show ?case by (cases xs) auto
qed simp

lemma queue_lengths: "queue_of q es qs \<Longrightarrow> length es + length qs = sq_nodes q"
  unfolding queue_of_def using distinct_card [of "es @ qs"] by simp

lemma queued_ring:
  assumes "queue_of q es qs"
  shows "queued q = map (\<lambda>e. event_data (nodes q e)) qs"
proof (cases qs)
  case Nil
  with assms show ?thesis by (simp add: queue_of_def ring_def queued_def)
next
  case (Cons x xs)
  have "walk (nodes q) x x (sq_nodes q) = x # xs"
    by (rule walk_linked) (use assms queue_lengths [OF assms] Cons in \<open>auto simp: queue_of_def ring_def\<close>)
  with assms Cons show ?thesis by (simp add: queue_of_def ring_def queued_def)
qed

lemma alloc_nodes:
  "se_list (foldl alloc_node q es) = se_list q" "sq_nodes (foldl alloc_node q es) = sq_nodes q"
  "fd_event (foldl alloc_node q es) = fd_event q" "pipe_bytes (foldl alloc_node q es) = pipe_bytes q"
  "ev_list (foldl alloc_node q es) = ev_list q"
  by (induction es arbitrary: q) (auto simp: alloc_node_def split: prod.split)

lemma alloc_nodes_ring:
  "ring (nodes q) (empty_se_list q) xs \<Longrightarrow> distinct (xs @ es) \<Longrightarrow>
     ring (nodes (foldl alloc_node q es)) (empty_se_list (foldl alloc_node q es)) (xs @ es)"
proof (induction es arbitrary: q xs)
  case (Cons e es)
  have "ring (nodes (alloc_node q e)) (empty_se_list (alloc_node q e)) (xs @ [e])"
    using Cons.prems by (cases "add_to_list e (empty_se_list q) (nodes q)") (simp add: alloc_node_def add_to_list_ring)
  from Cons.IH [OF this] Cons.prems show ?case by simp
qed simp

lemma new_soft_queue_of: "queue_of (new_soft_queue junk n) [0..<n] []"
  using alloc_nodes_ring [of "\<lparr>nodes = junk, sq_nodes = n, empty_se_list = None, se_list = None, ev_list = [], fd_event = None, pipe_bytes = 0\<rparr>" "[]" "[0..<n]"]
  by (auto simp: queue_of_def new_soft_queue_def ring_def alloc_nodes)

lemma new_soft_queue_ok: "wf_softq (new_soft_queue junk n)" "queued (new_soft_queue junk n) = []"
  using new_soft_queue_of queued_ring [OF new_soft_queue_of] by (auto simp: wf_softq_def)

section \<open>Each operation on the lists\<close>

text \<open>The head of one ring goes to the end of the other.\<close>

lemma move_node:
  assumes "ring h p (e # xs)" "ring h r ys" "distinct (e # xs @ ys)" "remove_from_list e h = (h1, p1)" "add_to_list e r h1 = (h2, r1)"
  shows "ring h2 p1 xs" "ring h2 r1 (ys @ [e])" "event_data (h2 x) = event_data (h x)" "event_data (h1 x) = event_data (h x)"
proof -
  have a: "ring h (Some e) (e # xs)" using assms(1) by (simp add: ring_def)
  note rem = remove_from_list_ring [OF a assms(4)] remove_from_list_frame [OF a assms(4)]
  have "h1 x = h x" if "x \<in> set ys" for x using rem(2) [of x] that assms(3) by auto
  then have "ring h1 r ys = ring h r ys" by (intro ring_cong) simp
  then have r: "ring h1 r ys" using assms(2) by simp
  have e: "e \<notin> set ys" using assms(3) by simp
  note add = add_to_list_ring [OF r e assms(5)] add_to_list_frame [OF r assms(5)]
  have "h2 x = h1 x" if "x \<in> set xs" for x using add(2) [of x] that assms(3) by auto
  then have "ring h2 p1 xs = ring h1 p1 xs" by (intro ring_cong) simp
  then show "ring h2 p1 xs" "ring h2 r1 (ys @ [e])" "event_data (h2 x) = event_data (h x)" "event_data (h1 x) = event_data (h x)"
    using rem add(1,3) by simp_all
qed

lemma add_full:
  assumes "queue_of q [] qs"
  shows "soft_queue_add d q = (q, False)"
  using assms by (simp add: queue_of_def ring_def soft_queue_add_def)

lemma add_free:
  assumes "queue_of q (e # es) qs" "soft_queue_add d q = (q', ok)"
  shows "ok" "queue_of q' es (qs @ [e])" "queued q' = queued q @ [d]"
    "pipe_bytes q' = (if fd_event q \<noteq> None then pipe_bytes q + 1 else pipe_bytes q)" "fd_event q' = fd_event q" "sq_nodes q' = sq_nodes q"
proof -
  have p: "ring (nodes q) (empty_se_list q) (e # es)" "ring (nodes q) (se_list q) qs" "distinct (e # es @ qs)"
    using assms(1) by (simp_all add: queue_of_def)
  then have e: "empty_se_list q = Some e" by (simp add: ring_def)
  obtain h1 p1 where 1: "remove_from_list e (nodes q) = (h1, p1)" by (cases "remove_from_list e (nodes q)")
  obtain h2 r1 where 2: "add_to_list e (se_list q) h1 = (h2, r1)" by (cases "add_to_list e (se_list q) h1")
  note mv = move_node [OF p 1 2]
  have q': "q' = q\<lparr>nodes := set_data e d h2, empty_se_list := p1, se_list := r1,
      pipe_bytes := (if fd_event q \<noteq> None then pipe_bytes q + 1 else pipe_bytes q)\<rparr>" and ok: "ok"
    using assms(2) by (simp_all add: soft_queue_add_def e 1 2)
  have rg: "ring (set_data e d h2) x ys = ring h2 x ys" for x ys by (rule ring_cong) simp
  show w: "queue_of q' es (qs @ [e])" using mv assms(1) by (auto simp: queue_of_def q' rg)
  have "map (\<lambda>x. event_data (nodes q' x)) qs = map (\<lambda>x. event_data (nodes q x)) qs"
    by (rule map_cong [OF refl]) (use p(3) mv(3) in \<open>auto simp: q'\<close>)
  then show "queued q' = queued q @ [d]" unfolding queued_ring [OF w] queued_ring [OF assms(1)] by (simp add: q')
  show "ok" "pipe_bytes q' = (if fd_event q \<noteq> None then pipe_bytes q + 1 else pipe_bytes q)" "fd_event q' = fd_event q"
    "sq_nodes q' = sq_nodes q"
    by (simp_all add: q' ok)
qed

lemma get_empty:
  assumes "queue_of q es []"
  shows "locked_get_next_event q = (q, 0)" "queued q = []"
  using assms queued_ring [OF assms] by (simp_all add: queue_of_def ring_def locked_get_next_event_def)

lemma get_full:
  assumes "queue_of q es (e # qs)" "locked_get_next_event q = (q', d)"
  shows "queue_of q' (es @ [e]) qs" "queued q = d # queued q'" "pipe_bytes q' = pipe_bytes q" "fd_event q' = fd_event q"
    "sq_nodes q' = sq_nodes q" "ev_list q' = ev_list q"
proof -
  have p: "ring (nodes q) (se_list q) (e # qs)" "ring (nodes q) (empty_se_list q) es" "distinct (e # qs @ es)"
    using assms(1) by (auto simp: queue_of_def)
  then have e: "se_list q = Some e" by (simp add: ring_def)
  obtain h1 p1 where 1: "remove_from_list e (nodes q) = (h1, p1)" by (cases "remove_from_list e (nodes q)")
  obtain h2 r1 where 2: "add_to_list e (empty_se_list q) h1 = (h2, r1)" by (cases "add_to_list e (empty_se_list q) h1")
  note mv = move_node [OF p 1 2]
  have q': "q' = q\<lparr>nodes := h2, se_list := p1, empty_se_list := r1\<rparr>" "d = event_data (h1 e)"
    using assms(2) by (simp_all add: locked_get_next_event_def e 1 2)
  show w: "queue_of q' (es @ [e]) qs" using mv assms(1) by (auto simp: queue_of_def q')
  show "queued q = d # queued q'" unfolding queued_ring [OF w] queued_ring [OF assms(1)] using mv(3,4) by (simp add: q')
  show "pipe_bytes q' = pipe_bytes q" "fd_event q' = fd_event q" "sq_nodes q' = sq_nodes q" "ev_list q' = ev_list q"
    by (simp_all add: q')
qed

section \<open>The contract\<close>

definition sq_put :: "softq \<Rightarrow> nat list \<Rightarrow> softq \<times> bool" where
  "sq_put q ds = (case ds of [d] \<Rightarrow> soft_queue_add d q | _ \<Rightarrow> (q, ds = []))"

definition sq_get :: "softq \<Rightarrow> unit \<Rightarrow> softq \<times> nat list" where
  "sq_get q _ = (case se_list q of None \<Rightarrow> (q, []) | Some _ \<Rightarrow> let (q, d) = locked_get_next_event q in (q, [d]))"

lemma add_spec:
  assumes "wf_softq q" "soft_queue_add d q = (q', ok)"
  shows "wf_softq q'" "queued q' = (if ok then queued q @ [d] else queued q)" "ok \<longleftrightarrow> length (queued q) < sq_nodes q"
    "sq_nodes q' = sq_nodes q" "fd_event q' = fd_event q"
    "pipe_bytes q' = (if ok \<and> fd_event q \<noteq> None then pipe_bytes q + 1 else pipe_bytes q)"
proof -
  obtain es qs where w: "queue_of q es qs" using assms(1) by (auto simp: wf_softq_def)
  have len: "length es + length (queued q) = sq_nodes q" using queue_lengths [OF w] queued_ring [OF w] by simp
  have "wf_softq q' \<and> queued q' = (if ok then queued q @ [d] else queued q) \<and> (ok \<longleftrightarrow> length (queued q) < sq_nodes q) \<and>
    sq_nodes q' = sq_nodes q \<and> fd_event q' = fd_event q \<and>
    pipe_bytes q' = (if ok \<and> fd_event q \<noteq> None then pipe_bytes q + 1 else pipe_bytes q)"
  proof (cases es)
    case Nil
    with add_full [of q qs d] assms w len show ?thesis by simp
  next
    case (Cons e es')
    note f = add_free [OF w [unfolded Cons] assms(2)]
    from f(2) have "wf_softq q'" by (auto simp: wf_softq_def)
    with f len Cons show ?thesis by simp
  qed
  then show "wf_softq q'" "queued q' = (if ok then queued q @ [d] else queued q)" "ok \<longleftrightarrow> length (queued q) < sq_nodes q"
    "sq_nodes q' = sq_nodes q" "fd_event q' = fd_event q"
    "pipe_bytes q' = (if ok \<and> fd_event q \<noteq> None then pipe_bytes q + 1 else pipe_bytes q)" by blast+
qed

lemma get_spec:
  assumes "wf_softq q" "locked_get_next_event q = (q', d)"
  shows "wf_softq q'" "queued q = (if queued q = [] then [] else [d]) @ queued q'" "queued q = [] \<Longrightarrow> d = 0"
    "sq_nodes q' = sq_nodes q" "fd_event q' = fd_event q" "pipe_bytes q' = pipe_bytes q" "ev_list q' = ev_list q"
    "se_list q = None \<longleftrightarrow> queued q = []"
proof -
  obtain es qs where w: "queue_of q es qs" using assms(1) by (auto simp: wf_softq_def)
  have "wf_softq q' \<and> queued q = (if queued q = [] then [] else [d]) @ queued q' \<and> (queued q = [] \<longrightarrow> d = 0) \<and>
    sq_nodes q' = sq_nodes q \<and> fd_event q' = fd_event q \<and> pipe_bytes q' = pipe_bytes q \<and> ev_list q' = ev_list q \<and>
    (se_list q = None \<longleftrightarrow> queued q = [])"
  proof (cases qs)
    case Nil
    with get_empty [of q es] assms w show ?thesis by (simp add: queue_of_def ring_def)
  next
    case (Cons e qs')
    note f = get_full [OF w [unfolded Cons] assms(2)]
    from f(1) have "wf_softq q'" by (auto simp: wf_softq_def)
    moreover have "se_list q \<noteq> None" using w Cons by (simp add: queue_of_def ring_def)
    ultimately show ?thesis using f by simp
  qed
  then show "wf_softq q'" "queued q = (if queued q = [] then [] else [d]) @ queued q'" "queued q = [] \<Longrightarrow> d = 0"
    "sq_nodes q' = sq_nodes q" "fd_event q' = fd_event q" "pipe_bytes q' = pipe_bytes q" "ev_list q' = ev_list q"
    "se_list q = None \<longleftrightarrow> queued q = []" by blast+
qed

lemma sq_put_spec:
  assumes "wf_softq q"
  shows "wf_softq (fst (sq_put q ds))" "queued (fst (sq_put q ds)) = (if snd (sq_put q ds) then queued q @ ds else queued q)"
    "sq_nodes (fst (sq_put q ds)) = sq_nodes q"
proof -
  have "wf_softq (fst (sq_put q ds)) \<and> queued (fst (sq_put q ds)) = (if snd (sq_put q ds) then queued q @ ds else queued q) \<and>
      sq_nodes (fst (sq_put q ds)) = sq_nodes q"
  proof (cases "\<exists>d. ds = [d]")
    case True
    then obtain d where d: "ds = [d]" by blast
    obtain q' ok where a: "soft_queue_add d q = (q', ok)" by (cases "soft_queue_add d q")
    show ?thesis using add_spec(1,2,4) [OF assms a] by (simp add: sq_put_def d a)
  next
    case False
    then show ?thesis using assms by (auto simp: sq_put_def split: list.splits)
  qed
  then show "wf_softq (fst (sq_put q ds))" "queued (fst (sq_put q ds)) = (if snd (sq_put q ds) then queued q @ ds else queued q)"
    "sq_nodes (fst (sq_put q ds)) = sq_nodes q" by blast+
qed

lemma sq_get_spec:
  assumes "wf_softq q"
  shows "wf_softq (fst (sq_get q u))" "queued q = snd (sq_get q u) @ queued (fst (sq_get q u))"
proof -
  obtain q' d where g: "locked_get_next_event q = (q', d)" by (cases "locked_get_next_event q")
  note s = get_spec [OF assms g]
  have "wf_softq (fst (sq_get q u)) \<and> queued q = snd (sq_get q u) @ queued (fst (sq_get q u))"
  proof (cases "se_list q")
    case None
    then show ?thesis using assms by (simp add: sq_get_def)
  next
    case (Some x)
    then show ?thesis using s(1,2,8) by (simp add: sq_get_def g)
  qed
  then show "wf_softq (fst (sq_get q u))" "queued q = snd (sq_get q u) @ queued (fst (sq_get q u))" by blast+
qed

interpretation softq: fifo wf_softq queued sq_put sq_get
  by unfold_locales (use sq_put_spec sq_get_spec in blast)+

text \<open>
  C18. The two circular lists of a soft queue implement a bounded first-in-first-out queue: whatever the order in
  which threads add and take, what comes out is what was accepted, in that order, the rest is
  still queued, and the next item is accepted exactly when fewer than the given number are queued.
\<close>

theorem soft_queue_fifo:
  assumes "fifo_run sq_put sq_get (new_soft_queue junk n) ops = (q, accepted, out)"
  shows "accepted = out @ queued q \<and> (snd (soft_queue_add d q) \<longleftrightarrow> length (queued q) < n)"
proof -
  note new = new_soft_queue_ok [of junk n]
  from softq.run_fifo [OF new(1) assms] have run: "wf_softq q" "accepted = out @ queued q" using new(2) by simp_all
  have "sq_nodes q = n"
  proof -
    have "sq_nodes (fst (fifo_run sq_put sq_get q0 ops)) = sq_nodes q0" if "wf_softq q0" for q0
      using that
    proof (induction ops arbitrary: q0)
      case (Cons a ops)
      show ?case
      proof (cases a)
        case (Put xs)
        then show ?thesis using Cons.IH [OF sq_put_spec(1) [OF Cons.prems]] sq_put_spec(3) [OF Cons.prems]
          by (simp split: prod.split) (metis fst_conv)
      next
        case (Get u)
        have "sq_nodes (fst (sq_get q0 u)) = sq_nodes q0"
          using get_spec(4) [OF Cons.prems] by (auto simp: sq_get_def split: option.split prod.split)
        then show ?thesis using Cons.IH [OF sq_get_spec(1) [OF Cons.prems]] Get
          by (simp split: prod.split) (metis fst_conv)
      qed
    qed simp
    from this [OF new(1)] have "sq_nodes q = sq_nodes (new_soft_queue junk n)" by (simp add: assms)
    then show ?thesis using queue_lengths [OF new_soft_queue_of [of junk n]] by simp
  qed
  moreover obtain q' ok where "soft_queue_add d q = (q', ok)" by (cases "soft_queue_add d q")
  ultimately show ?thesis using run add_spec(3) [OF run(1)] by simp
qed

section \<open>Waking the loop\<close>

text \<open>
  Threads add items and the event loop runs the handler of the pipe when it has a byte. The lists
  of the result are the items accepted and the items handed to the handlers.
\<close>

datatype sq_op = Add nat | Run

fun sq_steps :: "'s soft_handler \<Rightarrow> 's \<times> ev_loop \<times> softq \<Rightarrow> sq_op list \<Rightarrow> ('s \<times> ev_loop \<times> softq) \<times> nat list \<times> nat list" where
  "sq_steps h st [] = (st, [], [])"
| "sq_steps h (s, L, q) (Add d # ops) =
     (let (q1, ok) = soft_queue_add d q; (st, acc, out) = sq_steps h (s, L, q1) ops in (st, if ok then d # acc else acc, out))"
| "sq_steps h (s, L, q) (Run # ops) =
     (if pipe_bytes q = 0 then sq_steps h (s, L, q) ops
      else let d = snd (locked_get_next_event q); (st, acc, out) = sq_steps h (sq_run h True (s, L, q)) ops in (st, acc, d # out))"

text \<open>Handlers that leave the queue itself alone.\<close>

definition keeps_queue :: "'s soft_handler \<Rightarrow> bool" where
  "keeps_queue h \<longleftrightarrow> (\<forall>d e s L q. snd (snd (h d e (s, L, q))) = q)"

lemma sq_calls_queue: "keeps_queue h \<Longrightarrow> sq_calls h d es (s, L, q) = (s', L', q') \<Longrightarrow> q' = q"
proof (induction h d es "(s, L, q)" arbitrary: s L q rule: sq_calls.induct)
  case (2 h d e es s L q)
  show ?case
  proof (cases "end_loop L")
    case False
    let ?L = "if oneshot L e then set_flags e EVENT_F_REMOVE L else L"
    obtain s1 L1 q1 where h: "h d e (s, ?L, q) = (s1, L1, q1)" by (cases "h d e (s, ?L, q)")
    have "snd (snd (h d e (s, ?L, q))) = q" using 2(2) unfolding keeps_queue_def by blast
    then have "q1 = q" by (simp add: h)
    with 2(1) [of s1 L1 q1] 2(2,3) False h show ?thesis by simp
  qed (use 2 in simp)
qed simp

lemma sq_run_queue:
  assumes "keeps_queue h" "locked_get_next_event q = (q1, d)" "sq_run h True (s, L, q) = (s', L', q')"
  shows "\<exists>evs. q' = q1\<lparr>pipe_bytes := pipe_bytes q - 1, ev_list := evs\<rparr>"
proof -
  have g: "locked_get_next_event (q\<lparr>pipe_bytes := pipe_bytes q - 1\<rparr>) = (q1\<lparr>pipe_bytes := pipe_bytes q - 1\<rparr>, d)"
    using assms(2) by (auto simp: locked_get_next_event_def split: option.splits prod.splits)
  obtain s2 L2 q2 where c: "sq_calls h d (ev_list q1) (s, L, q1\<lparr>pipe_bytes := pipe_bytes q - 1\<rparr>) = (s2, L2, q2)"
    by (cases "sq_calls h d (ev_list q1) (s, L, q1\<lparr>pipe_bytes := pipe_bytes q - 1\<rparr>)")
  from sq_calls_queue [OF assms(1) c] show ?thesis using assms(3) c g by (auto simp: sq_run_def Let_def)
qed

lemma softq_upd [simp]:
  "queued (q\<lparr>pipe_bytes := b\<rparr>) = queued q" "queued (q\<lparr>ev_list := evs\<rparr>) = queued q" "queued (q\<lparr>fd_event := f\<rparr>) = queued q"
  "wf_softq (q\<lparr>pipe_bytes := b\<rparr>) = wf_softq q" "wf_softq (q\<lparr>ev_list := evs\<rparr>) = wf_softq q" "wf_softq (q\<lparr>fd_event := f\<rparr>) = wf_softq q"
  by (simp_all add: queued_def wf_softq_def queue_of_def split: option.split)

lemma sq_steps_spec:
  assumes "keeps_queue h" "wf_softq q" "fd_event q \<noteq> None" "length (queued q) = pipe_bytes q + k"
    "sq_steps h (s, L, q) ops = ((s', L', q'), acc, out)"
  shows "queued q @ acc = out @ queued q' \<and> length (queued q') = pipe_bytes q' + k"
  using assms(2-)
proof (induction ops arbitrary: s L q acc out)
  case (Cons a ops)
  show ?case
  proof (cases a)
    case (Add d)
    obtain q1 ok where 1: "soft_queue_add d q = (q1, ok)" by (cases "soft_queue_add d q")
    obtain st acc2 where 2: "sq_steps h (s, L, q1) ops = (st, acc2, out)" "st = (s', L', q')" "acc = (if ok then d # acc2 else acc2)"
      using Cons.prems(4) Add by (auto simp: 1 split: prod.splits if_splits)
    note a = add_spec [OF Cons.prems(1) 1]
    have "length (queued q1) = pipe_bytes q1 + k" using a(2,6) Cons.prems(2,3) by simp
    moreover have "fd_event q1 \<noteq> None" using a(5) Cons.prems(2) by simp
    ultimately have "queued q1 @ acc2 = out @ queued q' \<and> length (queued q') = pipe_bytes q' + k"
      using Cons.IH [OF a(1)] 2(1,2) by blast
    then show ?thesis using a(2) 2(3) by (cases ok) simp_all
  next
    case Run
    show ?thesis
    proof (cases "pipe_bytes q = 0")
      case True
      with Cons.IH Cons.prems Run show ?thesis by simp
    next
      case False
      obtain q1 d where g: "locked_get_next_event q = (q1, d)" by (cases "locked_get_next_event q")
      obtain s2 L2 q2 where r: "sq_run h True (s, L, q) = (s2, L2, q2)" by (cases "sq_run h True (s, L, q)")
      obtain evs where q2: "q2 = q1\<lparr>pipe_bytes := pipe_bytes q - 1, ev_list := evs\<rparr>" using sq_run_queue [OF assms(1) g r] by blast
      obtain out2 where 2: "sq_steps h (s2, L2, q2) ops = ((s', L', q'), acc, out2)" "out = d # out2"
        using Cons.prems(4) Run False by (auto simp: g r Let_def split: prod.splits)
      note s = get_spec [OF Cons.prems(1) g]
      have "queued q \<noteq> []" using False Cons.prems(3) by auto
      then have q: "queued q = d # queued q1" using s(2) by simp
      have q2': "queued q2 = queued q1" "wf_softq q2" using s(1) by (simp_all add: q2)
      moreover have "length (queued q2) = pipe_bytes q2 + k" using q Cons.prems(3) False q2'(1) by (simp add: q2)
      moreover have "fd_event q2 \<noteq> None" using s(5) Cons.prems(2) by (simp add: q2)
      ultimately show ?thesis using Cons.IH [OF _ _ _ 2(1)] q 2(2) by simp
    qed
  qed
qed simp

text \<open>
  What the handlers get: \<open>logged h\<close> does what \<open>h\<close> does and writes down every call, with the item
  and the event it is for. No handler starts an ended loop again.
\<close>

definition logged :: "'s soft_handler \<Rightarrow> ((nat \<times> nat) list \<times> 's) soft_handler" where
  "logged h d e st = (case st of ((log, s), L, q) \<Rightarrow> case h d e (s, L, q) of (s', L', q') \<Rightarrow> ((log @ [(d, e)], s'), L', q'))"

definition received :: "nat \<Rightarrow> (nat \<times> nat) list \<Rightarrow> nat list" where
  "received e log = map fst (filter (\<lambda>p. snd p = e) log)"

definition keeps_end :: "'s soft_handler \<Rightarrow> bool" where
  "keeps_end h \<longleftrightarrow> (\<forall>d e s L q. end_loop L \<longrightarrow> end_loop (fst (snd (h d e (s, L, q)))))"

lemma received_simps [simp]: "received e [] = []" "received e (l1 @ l2) = received e l1 @ received e l2"
  by (simp_all add: received_def)

lemma received_item: "distinct es \<Longrightarrow> received e (map (Pair d) es) = (if e \<in> set es then [d] else [])"
  by (induction es) (auto simp: received_def)

lemma logged_keeps: "keeps_queue h \<Longrightarrow> keeps_queue (logged h)"
  by (auto simp: keeps_queue_def logged_def split: prod.splits) (metis snd_conv)

lemma sq_calls_log:
  assumes "keeps_end h"
  shows "sq_calls (logged h) d es ((log, s), L, q) = ((log', s'), L', q') \<Longrightarrow>
    \<exists>called. log' = log @ map (Pair d) called \<and> prefix called es \<and> (end_loop L \<longrightarrow> end_loop L') \<and> (\<not> end_loop L' \<longrightarrow> called = es)"
proof (induction es arbitrary: log s L q)
  case Nil
  then show ?case by (intro exI [of _ "[]"]) simp
next
  case (Cons e es)
  show ?case
  proof (cases "end_loop L")
    case True
    with Cons.prems show ?thesis by (intro exI [of _ "[]"]) auto
  next
    case False
    let ?L = "if oneshot L e then set_flags e EVENT_F_REMOVE L else L"
    obtain s1 L1 q1 where h: "h d e (s, ?L, q) = (s1, L1, q1)" by (cases "h d e (s, ?L, q)")
    have call: "logged h d e ((log, s), ?L, q) = ((log @ [(d, e)], s1), L1, q1)" by (simp only: logged_def h prod.case)
    have "sq_calls (logged h) d es ((log @ [(d, e)], s1), L1, q1) = ((log', s'), L', q')"
      using Cons.prems False call by simp
    from Cons.IH [OF this] obtain called where c: "log' = (log @ [(d, e)]) @ map (Pair d) called" "prefix called es"
      "end_loop L1 \<longrightarrow> end_loop L'" "\<not> end_loop L' \<longrightarrow> called = es" by blast
    with False show ?thesis by (intro exI [of _ "e # called"]) simp
  qed
qed

lemma sq_run_log:
  assumes h: "keeps_queue h" "keeps_end h" and g: "locked_get_next_event q = (q1, d)" "ev_list q1 = ev_list q"
    and r: "sq_run (logged h) True ((log, s), L, q) = ((log', s'), L', q')"
  shows "\<exists>called. log' = log @ map (Pair d) called \<and> prefix called (ev_list q) \<and> (end_loop L \<longrightarrow> end_loop L') \<and>
      (\<not> end_loop L' \<longrightarrow> called = ev_list q)"
    and "q' = q1\<lparr>pipe_bytes := pipe_bytes q - 1, ev_list := strip_events L' (ev_list q)\<rparr>"
proof -
  let ?q = "q1\<lparr>pipe_bytes := pipe_bytes q - 1\<rparr>"
  have g': "locked_get_next_event (q\<lparr>pipe_bytes := pipe_bytes q - 1\<rparr>) = (?q, d)"
    using g(1) by (auto simp: locked_get_next_event_def split: option.splits prod.splits)
  obtain log2 s2 L2 q2 where c: "sq_calls (logged h) d (ev_list q) ((log, s), L, ?q) = ((log2, s2), L2, q2)"
    by (cases "sq_calls (logged h) d (ev_list q) ((log, s), L, ?q)") auto
  with sq_calls_queue [OF logged_keeps [OF h(1)] c] r g g'
  have eq: "log2 = log'" "L2 = L'" "q' = ?q\<lparr>ev_list := strip_events L' (ev_list q)\<rparr>" by (auto simp: sq_run_def)
  show "\<exists>called. log' = log @ map (Pair d) called \<and> prefix called (ev_list q) \<and> (end_loop L \<longrightarrow> end_loop L') \<and>
      (\<not> end_loop L' \<longrightarrow> called = ev_list q)"
    using sq_calls_log [OF h(2) c] unfolding eq .
  show "q' = q1\<lparr>pipe_bytes := pipe_bytes q - 1, ev_list := strip_events L' (ev_list q)\<rparr>" using eq(3) by simp
qed

lemma sq_steps_log:
  assumes h: "keeps_queue h" "keeps_end h"
  shows "wf_softq q \<Longrightarrow> distinct (ev_list q) \<Longrightarrow> sq_steps (logged h) ((log, s), L, q) ops = (((log', s'), L', q'), acc, out) \<Longrightarrow>
    \<exists>new. log' = log @ new \<and> (end_loop L \<longrightarrow> end_loop L') \<and> set (ev_list q') \<subseteq> set (ev_list q) \<and>
      (\<forall>e. subseq (received e new) out \<and> (e \<notin> set (ev_list q) \<longrightarrow> received e new = []) \<and>
         (e \<in> set (ev_list q') \<and> \<not> end_loop L' \<longrightarrow> received e new = out))"
proof (induction ops arbitrary: log s L q acc out)
  case Nil
  then show ?case by (intro exI [of _ "[]"]) simp
next
  case (Cons a ops)
  show ?case
  proof (cases a)
    case (Add d)
    obtain q1 ok where 1: "soft_queue_add d q = (q1, ok)" by (cases "soft_queue_add d q")
    obtain acc2 where 2: "sq_steps (logged h) ((log, s), L, q1) ops = (((log', s'), L', q'), acc2, out)"
      using Cons.prems(3) Add by (auto simp: 1 split: prod.splits if_splits)
    have ev: "ev_list q1 = ev_list q" using 1 by (auto simp: soft_queue_add_def split: option.splits prod.splits)
    from Cons.IH [OF add_spec(1) [OF Cons.prems(1) 1] _ 2] Cons.prems(2) show ?thesis by (simp add: ev)
  next
    case Run
    show ?thesis
    proof (cases "pipe_bytes q = 0")
      case True
      with Cons.IH Cons.prems Run show ?thesis by simp
    next
      case False
      obtain q1 d where g: "locked_get_next_event q = (q1, d)" by (cases "locked_get_next_event q")
      note s = get_spec [OF Cons.prems(1) g]
      obtain log2 s2 L2 q2 where r: "sq_run (logged h) True ((log, s), L, q) = ((log2, s2), L2, q2)"
        by (cases "sq_run (logged h) True ((log, s), L, q)") auto
      obtain out2 where 2: "sq_steps (logged h) ((log2, s2), L2, q2) ops = (((log', s'), L', q'), acc, out2)" "out = d # out2"
        using Cons.prems(3) Run False by (auto simp: g r Let_def split: prod.splits)
      from sq_run_log(1) [OF h g s(7) r] obtain called where c: "log2 = log @ map (Pair d) called" "prefix called (ev_list q)"
        "end_loop L \<longrightarrow> end_loop L2" "\<not> end_loop L2 \<longrightarrow> called = ev_list q" by blast
      have q2: "q2 = q1\<lparr>pipe_bytes := pipe_bytes q - 1, ev_list := strip_events L2 (ev_list q)\<rparr>" by (rule sq_run_log(2) [OF h g s(7) r])
      have ev2: "set (ev_list q2) \<subseteq> set (ev_list q)" "distinct (ev_list q2)"
        using Cons.prems(2) by (auto simp: q2 strip_events_def)
      have "wf_softq q2" using s(1) by (simp add: q2)
      from Cons.IH [OF this ev2(2) 2(1)] obtain new where n: "log' = log2 @ new" "end_loop L2 \<longrightarrow> end_loop L'"
        "set (ev_list q') \<subseteq> set (ev_list q2)"
        "\<And>e. subseq (received e new) out2" "\<And>e. e \<notin> set (ev_list q2) \<Longrightarrow> received e new = []"
        "\<And>e. e \<in> set (ev_list q') \<Longrightarrow> \<not> end_loop L' \<Longrightarrow> received e new = out2" by blast
      have dc: "distinct called" "set called \<subseteq> set (ev_list q)"
        using c(2) Cons.prems(2) by (auto simp: prefix_def)
      have rec: "received e (map (Pair d) called @ new) = (if e \<in> set called then [d] else []) @ received e new" for e
        by (simp add: received_item [OF dc(1)])
      show ?thesis
      proof (intro exI [of _ "map (Pair d) called @ new"] conjI allI impI)
        show "log' = log @ map (Pair d) called @ new" by (simp add: n(1) c(1))
        show "end_loop L \<Longrightarrow> end_loop L'" using c(3) n(2) by blast
        show "set (ev_list q') \<subseteq> set (ev_list q)" using n(3) ev2(1) by blast
        show "subseq (received e (map (Pair d) called @ new)) out" for e
          unfolding rec 2(2) using n(4) [of e] by (cases "e \<in> set called") (simp_all add: list_emb_Cons)
        show "received e (map (Pair d) called @ new) = []" if "e \<notin> set (ev_list q)" for e
          unfolding rec using n(5) [of e] that dc(2) ev2(1) by auto
        show "received e (map (Pair d) called @ new) = out" if "e \<in> set (ev_list q') \<and> \<not> end_loop L'" for e
        proof -
          have "called = ev_list q" using c(4) n(2) that by blast
          then have "e \<in> set called" using that n(3) ev2(1) by blast
          with n(6) [of e] that show ?thesis unfolding rec 2(2) by simp
        qed
      qed
    qed
  qed
qed

text \<open>The loop starts to listen with any number of events.\<close>

fun sq_listen :: "(int \<times> u32) list \<Rightarrow> ev_loop \<times> softq \<Rightarrow> ev_loop \<times> softq" where
  "sq_listen [] p = p"
| "sq_listen ((fd, fl) # r) p = sq_listen r (fst (add_softqueue_event True fd fl p))"

definition listening :: "ev_loop \<times> softq \<Rightarrow> bool" where
  "listening p \<longleftrightarrow> (case p of (L, q) \<Rightarrow> wf_softq q \<and> queued q = [] \<and> (fd_event q = None \<longrightarrow> ev_list q = []) \<and> pipe_bytes q = 0 \<and>
     distinct (ev_list q) \<and> (\<forall>e\<in>set (ev_list q). e < ev_fresh L))"

lemma add_listening:
  assumes "listening p"
  shows "listening (fst (add_softqueue_event True fd fl p))" "fd_event (snd (fst (add_softqueue_event True fd fl p))) \<noteq> None"
proof -
  obtain L q where p: "p = (L, q)" by (cases p)
  have "listening (fst (add_softqueue_event True fd fl p)) \<and> fd_event (snd (fst (add_softqueue_event True fd fl p))) \<noteq> None"
  proof (cases "fd_event q")
    case None
    with assms show ?thesis by (simp add: p listening_def add_softqueue_event_def add_fd_event_def Let_def)
  next
    case (Some x)
    with assms show ?thesis by (auto simp: p listening_def add_softqueue_event_def Let_def)
  qed
  then show "listening (fst (add_softqueue_event True fd fl p))" "fd_event (snd (fst (add_softqueue_event True fd fl p))) \<noteq> None" by blast+
qed

lemma sq_listen_ok:
  "listening p \<Longrightarrow> listening (sq_listen xs p) \<and> (xs \<noteq> [] \<longrightarrow> fd_event (snd (sq_listen xs p)) \<noteq> None)"
proof (induction xs arbitrary: p)
  case (Cons x xs)
  obtain fd fl where x: "x = (fd, fl)" by (cases x)
  note a = add_listening [OF Cons.prems, of fd fl]
  show ?case using Cons.IH [OF a(1)] a(2) by (cases xs) (simp_all add: x)
qed simp

text \<open>
  C36. The pipe of a soft queue forgets nobody. The loop begins to listen, with any number of events, before
  anything is queued; then threads add items and the loop runs when the pipe has a byte. What the loop has
  taken out and what is still queued is what was accepted, in order, and the pipe holds a byte for each item
  that is still queued, so that the loop wakes up until nothing is left. The handlers get the items: the
  calls for an event bring items that were taken out, in their order and each at most once, and an
  event that is still listed at the end, when the loop has not been told to end, has been called
  for every one of them. The handlers do not touch the queue nor restart an ended loop.
\<close>

theorem soft_queue_wakes_loop:
  assumes "keeps_queue h" "keeps_end h" "xs \<noteq> []" "sq_listen xs (L, new_soft_queue junk n) = (L1, q1)"
    "sq_steps (logged h) (([], s), L1, q1) ops = (((log, s'), L', q'), accepted, out)"
  shows "accepted = out @ queued q' \<and> pipe_bytes q' = length (queued q') \<and>
    (\<forall>e. subseq (received e log) out \<and> (e \<notin> set (ev_list q1) \<longrightarrow> received e log = []) \<and>
       (e \<in> set (ev_list q') \<and> \<not> end_loop L' \<longrightarrow> received e log = out))"
proof -
  have "fd_event (new_soft_queue junk n) = None" "ev_list (new_soft_queue junk n) = []" "pipe_bytes (new_soft_queue junk n) = 0"
    by (simp_all add: new_soft_queue_def alloc_nodes)
  with new_soft_queue_ok have "listening (L, new_soft_queue junk n)" by (simp add: listening_def)
  from sq_listen_ok [OF this, of xs] assms(3,4) have q: "wf_softq q1" "queued q1 = []" "pipe_bytes q1 = 0" "distinct (ev_list q1)"
    "fd_event q1 \<noteq> None" by (simp_all add: listening_def)
  have "accepted = out @ queued q' \<and> pipe_bytes q' = length (queued q')"
    using sq_steps_spec [OF logged_keeps [OF assms(1)] q(1,5) _ assms(5), of 0] q(2,3) by simp
  moreover from sq_steps_log [OF assms(1,2) q(1,4) assms(5)] have "\<forall>e. subseq (received e log) out \<and>
      (e \<notin> set (ev_list q1) \<longrightarrow> received e log = []) \<and> (e \<in> set (ev_list q') \<and> \<not> end_loop L' \<longrightarrow> received e log = out)" by auto
  ultimately show ?thesis by blast
qed

text \<open>What was queued before the loop listens has no byte, and the queue stays behind by as many items.\<close>

lemma soft_queue_lags:
  assumes "keeps_queue h" "wf_softq q" "fd_event q = None" "add_softqueue_event True fd fl (L, q) = ((L1, q1), ev)"
    "sq_steps h (s, L1, q1) ops = ((s', L', q'), accepted, out)" "pipe_bytes q' = 0"
  shows "length (queued q') = length (queued q)"
proof -
  have "\<exists>fde evs. q1 = q\<lparr>fd_event := Some fde, pipe_bytes := 0, ev_list := evs\<rparr>"
    using assms(3,4) by (auto simp: add_softqueue_event_def Let_def split: prod.splits)
  then obtain fde evs where q1: "q1 = q\<lparr>fd_event := Some fde, pipe_bytes := 0, ev_list := evs\<rparr>" by blast
  have "wf_softq q1" "queued q1 = queued q" using assms(2) by (simp_all add: q1)
  moreover have "fd_event q1 \<noteq> None" "pipe_bytes q1 = 0" by (simp_all add: q1)
  ultimately show ?thesis using sq_steps_spec [OF assms(1) _ _ _ assms(5), of "length (queued q)"] assms(6) by simp
qed

text \<open>Examples.\<close>

definition demo_nodes :: nodes where "demo_nodes = (\<lambda>_. \<lparr>se_next = 99, se_prev = 99, event_data = 0\<rparr>)"

definition demo_soft :: "nat list soft_handler" where "demo_soft d e st = (d # fst st, snd st)"

lemma soft_queue_fifo_witness:
  "\<exists>q. fifo_run sq_put sq_get (new_soft_queue demo_nodes 2) [Put [7], Put [8], Put [9], Get (), Put [5]] = (q, [7, 8, 5], [7]) \<and>
     queued q = [8, 5] \<and> \<not> snd (soft_queue_add 6 q)"
proof -
  let ?r = "fifo_run sq_put sq_get (new_soft_queue demo_nodes 2) [Put [7], Put [8], Put [9], Get (), Put [5]]"
  have "case ?r of (q, acc, out) \<Rightarrow> acc = [7, 8, 5] \<and> out = [7] \<and> length (queued q) = 2" by code_simp
  then obtain q where r: "?r = (q, [7, 8, 5], [7])" "length (queued q) = 2" by (auto split: prod.splits)
  from soft_queue_fifo [OF r(1)] r show ?thesis by simp
qed

lemma soft_queue_wakes_loop_witness:
  "\<exists>L1 q1 log s' L' q'. sq_listen [(9, 0), (9, 0)] (no_events, new_soft_queue demo_nodes 2) = (L1, q1) \<and> length (ev_list q1) = 2 \<and>
     sq_steps (logged demo_soft) (([], []), L1, q1) [Add 7, Run, Run, Add 8, Add 5, Add 6, Run] = (((log, s'), L', q'), [7, 8, 5], [7, 8]) \<and>
     pipe_bytes q' = 1 \<and> (\<forall>e\<in>set (ev_list q1). received e log = [7, 8])"
proof -
  let ?a = "sq_listen [(9, 0), (9, 0)] (no_events, new_soft_queue demo_nodes 2)"
  let ?ops = "[Add 7, Run, Run, Add 8, Add 5, Add 6, Run]"
  obtain L1 q1 where a: "?a = (L1, q1)" by (cases ?a)
  have "case ?a of (L, q) \<Rightarrow> length (ev_list q) = 2 \<and> (case sq_steps (logged demo_soft) (([], []), L, q) ?ops of
      ((_, L', q'), acc, out) \<Rightarrow> \<not> end_loop L' \<and> ev_list q' = ev_list q \<and> acc = [7, 8, 5] \<and> out = [7, 8])"
    by code_simp
  moreover obtain log s' L' q' acc out where st: "sq_steps (logged demo_soft) (([], []), L1, q1) ?ops = (((log, s'), L', q'), acc, out)"
    by (cases "sq_steps (logged demo_soft) (([], []), L1, q1) ?ops") auto
  ultimately have r: "sq_steps (logged demo_soft) (([], []), L1, q1) ?ops = (((log, s'), L', q'), [7, 8, 5], [7, 8])"
    "length (ev_list q1) = 2" "\<not> end_loop L'" "ev_list q' = ev_list q1"
    by (simp_all add: a st del: sq_listen.simps sq_steps.simps)
  have "keeps_queue demo_soft" "keeps_end demo_soft" by (simp_all add: keeps_queue_def keeps_end_def demo_soft_def)
  note w = soft_queue_wakes_loop [OF this _ a r(1)]
  have "queued q' = [5]" "pipe_bytes q' = length (queued q')" using w by (simp_all add: Cons_eq_append_conv)
  then have "pipe_bytes q' = 1" by simp
  moreover have "\<forall>e\<in>set (ev_list q1). received e log = [7, 8]" using w r(3,4) by simp
  ultimately show ?thesis using a r(1,2) by blast
qed

end
