(* ===== verification/Capture.thy ===== *)
theory Capture
  imports Config
begin

text \<open>
  From the camera to the streams: the callbacks of \<open>input-video.c\<close> and \<open>input-audio.c\<close>, which run in the
  thread of the camera and put its data into a frame of the exchanger, and \<open>get_back_frame\<close>, which the
  event loop calls for every delivered frame. Frames, exchangers and streams are those of
  \<open>Frame\<close> and \<open>Stream\<close>.
\<close>

section \<open>The callbacks of the camera\<close>

text \<open>What the camera hands over; \<open>vf_data\<close> is an allocated block of the heap.\<close>

record video_frame =
  vf_data :: nat
  vf_len :: int
  vf_keyframe :: bool
  vf_tick :: u32

definition free_block :: "frame_heap \<Rightarrow> nat \<Rightarrow> frame_heap cres" where
  "free_block h b = (if blocks h b = None then Inl Fault else Inr (h\<lparr>blocks := (blocks h)(b := None)\<rparr>))"

definition get_video_frame_cb :: "input_conf \<Rightarrow> video_frame \<Rightarrow> exchanger \<times> frame_heap \<Rightarrow> (exchanger \<times> frame_heap) cres" where
  "get_video_frame_cb v vf s =
     (case get_next_frame id (fst s) False of
        (ex, Some f) \<Rightarrow>
          Inr (deliver_frame ex f,
               upd_frame f (\<lambda>fr. fr\<lparr>fr_length := vf_len vf, fr_format := in_format v, fr_width := in_width v, fr_height := in_height v,
                  fr_key := vf_keyframe vf, fr_d := Some (vf_data vf), fr_timestamp := vf_tick vf\<rparr>) (snd s))
      | (ex, None) \<Rightarrow> bindE (free_block (snd s) (vf_data vf)) (\<lambda>h. Inr (ex, h)))"

text \<open>What \<open>live.c\<close> and others may ask of the stream of a camera; \<open>None\<close> is the result \<open>-1\<close>.\<close>

definition VIDEO_HEIGHT :: int where "VIDEO_HEIGHT = 1"

definition VIDEO_WIDTH :: int where "VIDEO_WIDTH = 2"

definition VIDEO_FINCR :: int where "VIDEO_FINCR = 3"

definition VIDEO_FBASE :: int where "VIDEO_FBASE = 4"

definition video_get_property :: "input_conf \<Rightarrow> int \<Rightarrow> int option" where
  "video_get_property v name =
     (if name = VIDEO_HEIGHT then Some (in_height v)
      else if name = VIDEO_WIDTH then Some (in_width v)
      else if name = VIDEO_FINCR then map_option fst (in_rate v)
      else if name = VIDEO_FBASE then map_option snd (in_rate v)
      else None)"

subsection \<open>ADPCM\<close>

definition index_adjust :: "int list" where
  "index_adjust = [-1, -1, -1, -1, 2, 4, 6, 8]"

definition step_table :: "int list" where
  "step_table =
     [7, 8, 9, 10, 11, 12, 13, 14, 16, 17, 19, 21, 23, 25, 28, 31, 34, 37, 41, 45,
      50, 55, 60, 66, 73, 80, 88, 97, 107, 118, 130, 143, 157, 173, 190, 209, 230, 253, 279, 307, 337, 371,
      408, 449, 494, 544, 598, 658, 724, 796, 876, 963, 1060, 1166, 1282, 1411, 1552, 1707, 1878, 2066,
      2272, 2499, 2749, 3024, 3327, 3660, 4026, 4428, 4871, 5358, 5894, 6484, 7132, 7845, 8630, 9493,
      10442, 11487, 12635, 13899, 15289, 16818, 18500, 20350, 22385, 24623, 27086, 29794, 32767]"

definition clip :: "int \<Rightarrow> int \<Rightarrow> int \<Rightarrow> int" where
  "clip lo hi x = (if hi < x then hi else if x < lo then lo else x)"

text \<open>
  One code of four bits; \<open>s\<close> and \<open>i\<close> are the sample and the index before it. The sample and the index are unbounded here, an \<open>int\<close> in C: the only caller gives 16-bit values,
  and with a step of at most 32767 nothing that is computed exceeds seven times that, so no operation wraps.
\<close>

definition adpcm_code :: "nat \<Rightarrow> int \<Rightarrow> int \<Rightarrow> (int \<times> int) cres" where
  "adpcm_code code s i =
     (if i < 0 then Inl Fault
      else bindE (rd step_table (nat i)) (\<lambda>st.
        let delta = st * int (code mod 8) div 4 + st div 8;
            delta = (if 8 \<le> code then - delta else delta)
        in bindE (rd index_adjust (code mod 8)) (\<lambda>a. Inr (clip (-32768) 32767 (s + delta), clip 0 88 (i + a)))))"

fun adpcm_codes :: "nat list \<Rightarrow> int \<Rightarrow> int \<Rightarrow> (int list \<times> int \<times> int) cres" where
  "adpcm_codes [] s i = Inr ([], s, i)"
| "adpcm_codes (c # cs) s i =
     bindE (adpcm_code c s i) (\<lambda>(s, i). bindE (adpcm_codes cs s i) (\<lambda>(xs, r). Inr (s # xs, r)))"

definition nibbles :: "byte list \<Rightarrow> nat list" where
  "nibbles raw = concat (map (\<lambda>b. [unat b div 16, unat b mod 16]) raw)"

definition adpcm_decode :: "byte list \<Rightarrow> int \<Rightarrow> int \<Rightarrow> (int list \<times> int \<times> int) cres" where
  "adpcm_decode raw s i = adpcm_codes (nibbles raw) s i"

text \<open>A \<open>short\<close> in the order of the machine, and the samples with their bytes swapped.\<close>

definition short_at :: "byte list \<Rightarrow> nat \<Rightarrow> int cres" where
  "short_at d i = bindE (rd d i) (\<lambda>lo. bindE (rd d (i + 1)) (\<lambda>hi. Inr (sint (word_of_int (uint lo + 256 * uint hi) :: u16))))"

definition big_endian :: "int list \<Rightarrow> byte list" where
  "big_endian xs = concat (map (\<lambda>x. [word_of_int (x div 256), word_of_int x]) xs)"

subsection \<open>The callback for sound\<close>

datatype audio_codec = Codec_PCM | Codec_ADPCM | Codec_Other

record audio_chunk =
  ac_codec :: audio_codec
  ac_data :: nat
  ac_len :: int
  ac_tick :: u32

definition fill_audio :: "int \<Rightarrow> audio_chunk \<Rightarrow> nat \<Rightarrow> nat option \<Rightarrow> frame_heap \<Rightarrow> frame_heap" where
  "fill_audio fmt vf f d h =
     upd_frame f (\<lambda>fr. fr\<lparr>fr_length := ac_len vf, fr_timestamp := ac_tick vf, fr_format := fmt, fr_d := d\<rparr>) h"

text \<open>
  \<open>room\<close> is the block that \<open>malloc\<close> returns for the decoded samples. On the two early returns the frame has
  been taken from its slot but is not delivered.
\<close>

definition get_audio_chunk_cb ::
  "input_conf \<Rightarrow> nat option \<Rightarrow> audio_chunk \<Rightarrow> exchanger \<times> frame_heap \<Rightarrow> (exchanger \<times> frame_heap) cres" where
  "get_audio_chunk_cb v room vf s =
     (case get_next_frame id (fst s) False of
        (ex, None) \<Rightarrow> bindE (free_block (snd s) (ac_data vf)) (\<lambda>h. Inr (ex, h))
      | (ex, Some f) \<Rightarrow>
          (let key = (\<lambda>h. (deliver_frame ex f, upd_frame f (\<lambda>fr. fr\<lparr>fr_key := True\<rparr>) h)) in
           case ac_codec vf of
             Codec_PCM \<Rightarrow> Inr (key (fill_audio FORMAT_PCM vf f (Some (ac_data vf)) (snd s)))
           | Codec_Other \<Rightarrow>
               bindE (free_block (upd_frame f (\<lambda>fr. fr\<lparr>fr_length := ac_len vf, fr_timestamp := ac_tick vf\<rparr>) (snd s)) (ac_data vf))
                 (\<lambda>h. Inr (ex, h))
           | Codec_ADPCM \<Rightarrow>
               if in_format v = FORMAT_ADPCM then Inr (key (fill_audio FORMAT_ADPCM vf f (Some (ac_data vf)) (snd s)))
               else
                 (case if ac_len vf < 4 then None else room of
                    None \<Rightarrow> bindE (free_block (fill_audio FORMAT_PCM vf f None (snd s)) (ac_data vf)) (\<lambda>h. Inr (ex, h))
                  | Some b \<Rightarrow>
                      (case blocks (snd s) (ac_data vf) of
                         None \<Rightarrow> Inl Fault
                       | Some d \<Rightarrow>
                           if length d < nat (ac_len vf) then Inl Fault
                           else bindE (short_at d 0) (\<lambda>sample. bindE (short_at d 2) (\<lambda>index.
                             bindE (adpcm_decode (take (nat (ac_len vf) - 4) (drop 4 d)) sample index) (\<lambda>(xs, _).
                               bindE (free_block ((fill_audio FORMAT_PCM (vf\<lparr>ac_len := (ac_len vf - 4) * 4\<rparr>) f (Some b) (snd s))
                                   \<lparr>blocks := (blocks (snd s))(b := Some (big_endian xs))\<rparr>) (ac_data vf)) (\<lambda>h. Inr (key h)))))))))"

section \<open>In the event loop\<close>

text \<open>
  \<open>get_back_frame\<close>: the exchanger gets a new frame, and the delivered one goes to the stream, whose
  destinations are \<open>ds\<close>. When the heap has no frame left, the delivered one is dropped.
\<close>

definition get_back_frame ::
  "('w \<Rightarrow> nat \<Rightarrow> bool) \<Rightarrow> (nat \<Rightarrow> nat \<Rightarrow> frame_heap \<times> 'w \<Rightarrow> (frame_heap \<times> 'w) cres option) \<Rightarrow> nat list \<Rightarrow> nat \<Rightarrow>
     exchanger \<times> frame_heap \<times> 'w \<Rightarrow> (exchanger \<times> frame_heap \<times> 'w) cres option" where
  "get_back_frame wt proc ds f s =
     (case s of (ex, h, w) \<Rightarrow>
        (case new_frame h of
           None \<Rightarrow> None
         | Some (h, Some n) \<Rightarrow>
             let ex = fst (exchange_frame ex n)
             in map_option (map_sum id (\<lambda>(h, w). (ex, h, w))) (deliver_frame_to_stream wt proc f ds (h, w))
         | Some (h, None) \<Rightarrow> map_option (map_sum id (\<lambda>h. (ex, h, w))) (unref_frame h f)))"

text \<open>A turn of \<open>exchanger_read\<close>.\<close>

definition capture_turn ::
  "('w \<Rightarrow> nat \<Rightarrow> bool) \<Rightarrow> (nat \<Rightarrow> nat \<Rightarrow> frame_heap \<times> 'w \<Rightarrow> (frame_heap \<times> 'w) cres option) \<Rightarrow> nat list \<Rightarrow>
     exchanger \<times> frame_heap \<times> 'w \<Rightarrow> (exchanger \<times> frame_heap \<times> 'w) cres option" where
  "capture_turn wt proc ds s =
     (case s of (ex, h, w) \<Rightarrow>
        if ex_pipe ex = 0 then Some (Inr s)
        else (case exchanger_take ex of
                (ex, Some f) \<Rightarrow> get_back_frame wt proc ds f (ex, h, w)
              | (ex, None) \<Rightarrow> Some (Inl Fault)))"

end
