(* ===== verification/Capture_Proofs.thy ===== *)
theory Capture_Proofs
  imports Capture
begin

text \<open>
  Frames on their way from the camera to the destinations: each is free, in the exchanger of one
  input, or held by destinations, and goes through these places without being lost or used twice.
  Destinations are an interface, the locale \<open>sink\<close>.
\<close>

lemma map_sum_Inr: "map_sum id F z = Inr y \<longleftrightarrow> (\<exists>x. z = Inr x \<and> F x = y)"
  by (cases z) auto

lemma no_references: "(0::int) \<le> a \<Longrightarrow> 0 \<le> b \<Longrightarrow> a + b + of_bool P = 0 \<Longrightarrow> a = 0 \<and> b = 0 \<and> \<not> P"
  by (cases P) auto

lemma map_result_Inr: "map_option (map_sum id F) x = Some (Inr y) \<longleftrightarrow> (\<exists>z. x = Some (Inr z) \<and> F z = y)"
  by (cases x) (auto simp: map_sum_def split: sum.splits)

section \<open>References\<close>

text \<open>How many references to a frame there are; a free one has none.\<close>

definition refs :: "frame_heap \<Rightarrow> nat \<Rightarrow> int" where
  "refs h g = (if live h g then ref_count (frames h g) else 0)"

lemma live_blocks [simp]: "live (h\<lparr>blocks := B\<rparr>) g = live h g"
  by (simp add: live_def free_list_def)

text \<open>What a destination sees of a frame.\<close>

definition picture :: "frame_heap \<Rightarrow> nat \<Rightarrow> byte list option \<times> int \<times> int \<times> bool \<times> u32" where
  "picture h g = (let fr = frames h g in
     (Option.bind (fr_d fr) (blocks h), fr_length fr, fr_format fr, fr_key fr, fr_timestamp fr))"

text \<open>The step from \<open>h\<close> to \<open>h'\<close> leaves the frames that stay in use as they are.\<close>

definition keeps_pictures :: "frame_heap \<Rightarrow> frame_heap \<Rightarrow> bool" where
  "keeps_pictures h h' \<longleftrightarrow> length (heap_slots h') = length (heap_slots h) \<and>
     (\<forall>g. live h g \<and> live h' g \<longrightarrow> picture h' g = picture h g \<and> fr_d (frames h' g) = fr_d (frames h g))"

lemma keeps_refl [simp]: "keeps_pictures h h"
  by (simp add: keeps_pictures_def)

lemma keeps_trans:
  assumes "keeps_pictures h h1" "keeps_pictures h1 h2" "\<And>g. live h g \<Longrightarrow> live h2 g \<Longrightarrow> live h1 g"
  shows "keeps_pictures h h2"
  using assms unfolding keeps_pictures_def by metis

lemma refs_pos: "wf_heap h \<Longrightarrow> live h g \<longleftrightarrow> 0 < refs h g"
  by (auto simp: refs_def wf_heap_def live_def)

lemma refs_nonneg: "wf_heap h \<Longrightarrow> 0 \<le> refs h g"
  using refs_pos [of h g] by (cases "live h g") (auto simp: refs_def)

lemma ref_frame_ok:
  assumes "wf_heap h" "live h f"
  shows "wf_heap (ref_frame h f)" "refs (ref_frame h f) g = refs h g + of_bool (g = f)" "keeps_pictures h (ref_frame h f)"
    "live (ref_frame h f) g = live h g"
proof -
  show "wf_heap (ref_frame h f)" unfolding ref_frame_def by (rule wf_heap_recount) (use assms in auto)
  have l: "live (ref_frame h f) g = live h g" for g by (simp add: ref_frame_def)
  then show "live (ref_frame h f) g = live h g" .
  show "refs (ref_frame h f) g = refs h g + of_bool (g = f)" using assms(2) by (simp add: refs_def l) (simp add: ref_frame_def)
  show "keeps_pictures h (ref_frame h f)"
    unfolding keeps_pictures_def l by (auto simp: picture_def ref_frame_def Let_def)
qed

lemma unref_frame_slots:
  "unref_frame h f = Some (Inr h') \<Longrightarrow> fr_destructor (frames h f) = None \<Longrightarrow> length (heap_slots h') = length (heap_slots h)"
  by (auto simp: unref_frame_simple release_frame_def free_data_def put_frame_def upd_frame_def split: if_splits option.splits)

lemma unref_frame_ok:
  assumes wf: "wf_heap h" and f: "live h f"
  shows "\<exists>h'. unref_frame h f = Some (Inr h') \<and> wf_heap h' \<and> (\<forall>g. refs h' g = refs h g - of_bool (g = f)) \<and>
    keeps_pictures h h' \<and> (\<forall>b. blocks h b = None \<longrightarrow> blocks h' b = None)"
proof (cases "1 < ref_count (frames h f)")
  case True
  let ?h = "upd_frame f (\<lambda>fr. fr\<lparr>ref_count := ref_count fr - 1\<rparr>) h"
  have "fr_destructor (frames h f) = None" using assms by (simp add: wf_heap_def)
  then have "unref_frame h f = Some (Inr ?h)" using True by (simp add: unref_frame_simple)
  moreover have "wf_heap ?h" using assms True by (intro wf_heap_recount) auto
  moreover have "refs ?h g = refs h g - of_bool (g = f)" for g using f by (simp add: refs_def)
  moreover have "keeps_pictures h ?h" by (auto simp: keeps_pictures_def picture_def Let_def)
  ultimately show ?thesis by auto
next
  case False
  have "0 < ref_count (frames h f)" using assms by (auto simp: wf_heap_def live_def)
  with False have 1: "ref_count (frames h f) = 1" by simp
  from unref_last [OF assms 1] obtain h' where h': "unref_frame h f = Some (Inr h')" "wf_heap h'" "free_list h' = free_list h @ [f]"
    "\<forall>g. g \<noteq> f \<longrightarrow> frames h' g = frames h g" "\<forall>b. fr_d (frames h f) = Some b \<longrightarrow> blocks h' b = None"
    "\<forall>b. fr_d (frames h f) \<noteq> Some b \<longrightarrow> blocks h' b = blocks h b" by blast
  have len: "length (heap_slots h') = length (heap_slots h)" using unref_frame_slots [OF h'(1)] assms by (simp add: wf_heap_def)
  have l: "live h' g \<longleftrightarrow> g \<noteq> f \<and> live h g" for g using h'(3) f by (auto simp: live_def len)
  have r: "refs h' g = refs h g - of_bool (g = f)" for g using h'(4) 1 f by (cases "g = f") (simp_all add: refs_def l)
  have "picture h' g = picture h g \<and> fr_d (frames h' g) = fr_d (frames h g)" if "live h g" "live h' g" for g
  proof -
    have gf: "g \<noteq> f" and fr: "frames h' g = frames h g" using that(2) l h'(4) by blast+
    have "blocks h' b = blocks h b" if "fr_d (frames h g) = Some b" for b
    proof -
      have "fr_d (frames h f) \<noteq> Some b" using wf \<open>live h g\<close> f gf that unfolding wf_heap_def by metis
      with h'(6) show ?thesis by blast
    qed
    then show ?thesis using fr by (cases "fr_d (frames h g)") (simp_all add: picture_def Let_def)
  qed
  then have "keeps_pictures h h'" by (simp add: keeps_pictures_def len)
  moreover have "blocks h b = None \<longrightarrow> blocks h' b = None" for b using h'(5,6) by metis
  ultimately show ?thesis using h'(1,2) r by blast
qed

lemma new_frame_ok:
  assumes wf: "wf_heap h"
  shows "(\<exists>g < length (heap_slots h). \<not> live h g) \<Longrightarrow> \<exists>h' f. new_frame h = Some (h', Some f) \<and> \<not> live h f \<and> wf_heap h' \<and>
      (\<forall>g. refs h' g = refs h g + of_bool (g = f)) \<and> keeps_pictures h h' \<and> blocks h' = blocks h \<and> fr_d (frames h' f) = None"
    "\<forall>g < length (heap_slots h). live h g \<Longrightarrow> new_frame h = Some (h, None)"
proof -
  assume "\<exists>g < length (heap_slots h). \<not> live h g"
  then have "free_list h \<noteq> []" by (auto simp: live_def)
  then obtain f fs where fs: "free_list h = f # fs" by (cases "free_list h") auto
  from new_frame_some [OF wf this] obtain h' where h': "new_frame h = Some (h', Some f)" "wf_heap h'" "free_list h' = fs"
    "ref_count (frames h' f) = 1" "fr_d (frames h' f) = None" "\<forall>g. g \<noteq> f \<longrightarrow> frames h' g = frames h g" "blocks h' = blocks h" by blast
  have len: "length (heap_slots h') = length (heap_slots h)"
    using h'(1) by (auto simp: new_frame_def split: if_splits option.splits)
  have fin: "f < length (heap_slots h)" "f \<notin> set fs" using wf fs by (auto simp: wf_heap_def)
  have l: "live h' g \<longleftrightarrow> g = f \<or> live h g" for g using fin fs h'(3) by (auto simp: live_def len)
  have nf: "\<not> live h f" using fs by (simp add: live_def)
  have "refs h' g = refs h g + of_bool (g = f)" for g using h'(4,6) nf by (auto simp: refs_def l)
  moreover have "keeps_pictures h h'" using h'(6,7) nf by (auto simp: keeps_pictures_def len picture_def)
  ultimately show "\<exists>h' f. new_frame h = Some (h', Some f) \<and> \<not> live h f \<and> wf_heap h' \<and>
      (\<forall>g. refs h' g = refs h g + of_bool (g = f)) \<and> keeps_pictures h h' \<and> blocks h' = blocks h \<and> fr_d (frames h' f) = None"
    using h'(1,2,5,7) nf by blast
next
  assume all: "\<forall>g < length (heap_slots h). live h g"
  have "free_list h = []"
  proof (rule ccontr)
    assume "free_list h \<noteq> []"
    then have "hd (free_list h) \<in> set (free_list h)" by simp
    moreover from this have "hd (free_list h) < length (heap_slots h)" using wf by (auto simp: wf_heap_def)
    ultimately show False using all by (auto simp: live_def)
  qed
  with new_frame_empty [OF wf] show "new_frame h = Some (h, None)" by simp
qed

section \<open>Frames of an input\<close>

text \<open>
  The frames of the exchanger are \<open>ds\<close>, full, and \<open>es\<close>, empty. Of a frame there are the references of
  \<open>others\<close>, those that the destinations hold, and the one of the exchanger.
\<close>

definition cap_ok :: "('w \<Rightarrow> nat \<Rightarrow> int) \<Rightarrow> (nat \<Rightarrow> int) \<Rightarrow> nat list \<Rightarrow> nat list \<Rightarrow> exchanger \<times> frame_heap \<times> 'w \<Rightarrow> bool" where
  "cap_ok hold others ds es s \<longleftrightarrow> (case s of (ex, h, w) \<Rightarrow>
     ex_rel ex (ds, False, es) \<and> wf_heap h \<and> distinct (ds @ es) \<and> (\<forall>g. 0 \<le> hold w g \<and> 0 \<le> others g) \<and>
     (\<forall>g. refs h g = others g + hold w g + of_bool (g \<in> set (ds @ es))) \<and>
     (\<forall>g\<in>set (ds @ es). others g = 0 \<and> hold w g = 0) \<and> (\<forall>g\<in>set es. fr_d (frames h g) = None))"

lemma cap_okD:
  assumes "cap_ok hold others ds es (ex, h, w)"
  shows "ex_rel ex (ds, False, es)" "wf_heap h" "distinct (ds @ es)" "0 \<le> hold w g" "0 \<le> others g"
    "refs h g = others g + hold w g + of_bool (g \<in> set (ds @ es))" "g \<in> set (ds @ es) \<Longrightarrow> others g = 0"
    "g \<in> set (ds @ es) \<Longrightarrow> hold w g = 0" "g \<in> set es \<Longrightarrow> fr_d (frames h g) = None"
  using assms by (simp_all add: cap_ok_def)

lemma cap_ok_live: "cap_ok hold others ds es (ex, h, w) \<Longrightarrow> g \<in> set (ds @ es) \<Longrightarrow> live h g"
  using cap_okD(2,4,5,6) [of hold others ds es ex h w] refs_pos [of h g] by fastforce

text \<open>The camera: the picture is queued, or dropped with its memory when no frame is empty.\<close>

definition video_picture :: "input_conf \<Rightarrow> video_frame \<Rightarrow> byte list \<Rightarrow> byte list option \<times> int \<times> int \<times> bool \<times> u32" where
  "video_picture v vf bytes = (Some bytes, vf_len vf, in_format v, vf_keyframe vf, vf_tick vf)"

lemma camera_dropped:
  assumes ok: "cap_ok hold others ds [] (ex, h, w)" and b: "blocks h (vf_data vf) = None"
  shows "get_video_frame_cb v vf (ex, h\<lparr>blocks := (blocks h)(vf_data vf := Some bytes)\<rparr>) = Inr (ex, h)"
proof -
  have "get_next_frame id ex False = (ex, None)" using ex_get_none [OF cap_okD(1) [OF ok]] by simp
  moreover have "(blocks h)(vf_data vf := None) = blocks h" using b by (simp add: fun_upd_idem)
  ultimately show ?thesis by (simp add: get_video_frame_cb_def free_block_def)
qed

lemma wf_heap_fill:
  assumes wf: "wf_heap h" and b: "blocks h b = None"
    and F: "\<And>fr. ref_count (F fr) = ref_count fr" "\<And>fr. fr_destructor (F fr) = fr_destructor fr" "\<And>fr. fr_d (F fr) = Some b"
  shows "wf_heap (upd_frame e F (h\<lparr>blocks := (blocks h)(b := Some bytes)\<rparr>))" (is "wf_heap ?h")
proof -
  have same: "heap_slots ?h = heap_slots h" "heap_take ?h = heap_take h" "heap_put ?h = heap_put h" "heap_locked ?h = heap_locked h"
    "free_list ?h = free_list h" by (simp_all add: upd_frame_def free_list_def)
  have l: "live ?h g = live h g" for g by (simp add: live_def free_list_def)
  have fr: "frames ?h g = (if g = e then F (frames h g) else frames h g)" "blocks ?h = (blocks h)(b := Some bytes)" for g
    by (simp_all add: upd_frame_def)
  have nb: "fr_d (frames h g) \<noteq> Some b" if "live h g" for g using wf b that unfolding wf_heap_def by metis
  show ?thesis
    unfolding wf_heap_def same l
  proof (intro conjI)
    show "\<forall>f<length (heap_slots h). live h f = (0 < ref_count (frames ?h f))" using wf by (simp add: fr F wf_heap_def)
    show "\<forall>f. live h f \<longrightarrow> fr_destructor (frames ?h f) = None" using wf by (simp add: fr F wf_heap_def)
    show "\<forall>f ba. live h f \<and> fr_d (frames ?h f) = Some ba \<longrightarrow> blocks ?h ba \<noteq> None" using wf by (auto simp: fr F wf_heap_def)
    show "\<forall>f g ba. live h f \<and> live h g \<and> fr_d (frames ?h f) = Some ba \<and> fr_d (frames ?h g) = Some ba \<longrightarrow> f = g"
      using wf nb by (auto simp: fr F wf_heap_def)
  qed (use wf in \<open>simp_all add: wf_heap_def\<close>)
qed

lemma camera_queued:
  assumes ok: "cap_ok hold others ds (e # es) (ex, h, w)" and b: "blocks h (vf_data vf) = None"
  shows "\<exists>ex' h'. get_video_frame_cb v vf (ex, h\<lparr>blocks := (blocks h)(vf_data vf := Some bytes)\<rparr>) = Inr (ex', h') \<and>
    cap_ok hold others (ds @ [e]) es (ex', h', w) \<and> map (picture h') (ds @ [e]) = map (picture h) ds @ [video_picture v vf bytes] \<and>
    length (ex_slots ex') = length (ex_slots ex) \<and> length (heap_slots h') = length (heap_slots h)"
proof -
  let ?F = "\<lambda>fr. fr\<lparr>fr_length := vf_len vf, fr_format := in_format v, fr_width := in_width v, fr_height := in_height v,
                  fr_key := vf_keyframe vf, fr_d := Some (vf_data vf), fr_timestamp := vf_tick vf\<rparr>"
  note C = cap_okD [OF ok]
  obtain ex1 where g: "get_next_frame id ex False = (ex1, Some e)" "ex_rel ex1 (ds, True, es)"
    using ex_get [OF C(1)] by (metis prod.collapse)
  let ?ex = "deliver_frame ex1 e"
    and ?h = "upd_frame e ?F (h\<lparr>blocks := (blocks h)(vf_data vf := Some bytes)\<rparr>)"
  have run: "get_video_frame_cb v vf (ex, h\<lparr>blocks := (blocks h)(vf_data vf := Some bytes)\<rparr>) = Inr (?ex, ?h)"
    by (simp add: get_video_frame_cb_def g(1))
  have rel: "ex_rel ?ex (ds @ [e], False, es)" by (rule ex_deliver [OF g(2)])
  have wf: "wf_heap ?h" by (rule wf_heap_fill [OF C(2) b]) simp_all
  have l: "live ?h g = live h g" for g by (simp add: live_def free_list_def upd_frame_def)
  have fr: "frames ?h g = (if g = e then ?F (frames h g) else frames h g)" "blocks ?h = (blocks h)(vf_data vf := Some bytes)" for g
    by (simp_all add: upd_frame_def)
  have r: "refs ?h g = refs h g" for g by (simp add: refs_def l fr)
  have e: "e \<notin> set ds" "e \<notin> set es" using C(3) by auto
  have ok': "cap_ok hold others (ds @ [e]) es (?ex, ?h, w)"
    unfolding cap_ok_def prod.case r using rel wf C(3-9) e by (auto simp: fr)
  have nb: "fr_d (frames h g) \<noteq> Some (vf_data vf)" if "live h g" for g using C(2) b that unfolding wf_heap_def by metis
  have "picture ?h g = picture h g" if "g \<in> set ds" for g
  proof -
    have "live h g" using cap_ok_live [OF ok] that by simp
    with nb e(1) that show ?thesis by (cases "fr_d (frames h g)") (auto simp: picture_def fr)
  qed
  moreover have "picture ?h e = video_picture v vf bytes" by (simp add: picture_def video_picture_def fr)
  moreover have "length (ex_slots ?ex) = length (ex_slots ex)"
    using g(1) by (auto simp: deliver_frame_def get_next_frame_def Let_def split: option.splits)
  moreover have "heap_slots ?h = heap_slots h" by (simp add: upd_frame_def)
  ultimately show ?thesis using run ok' by (intro exI [of _ ?ex] exI [of _ ?h]) simp
qed

section \<open>Destinations\<close>

text \<open>
  \<open>hold w g\<close> counts the references to frame \<open>g\<close> that the destinations keep in their state \<open>w\<close>. The destination
  \<open>d\<close> of \<open>D\<close> gets one reference: it drops it, or it is among those that it keeps afterwards.
\<close>

definition held_ok :: "('w \<Rightarrow> nat \<Rightarrow> int) \<Rightarrow> frame_heap \<Rightarrow> 'w \<Rightarrow> nat \<Rightarrow> bool" where
  "held_ok hold h w f \<longleftrightarrow> (\<forall>g. 0 \<le> hold w g \<and> hold w g + of_bool (g = f) \<le> refs h g)"

lemma held_ok_diff: "held_ok hold h w f \<longleftrightarrow> (\<forall>g. 0 \<le> hold w g \<and> of_bool (g = f) \<le> refs h g - hold w g)"
  by (simp add: held_ok_def algebra_simps)

lemma held_ok_live: "wf_heap h \<Longrightarrow> held_ok hold h w f \<Longrightarrow> live h f"
proof -
  assume "wf_heap h" "held_ok hold h w f"
  then have "0 \<le> hold w f" "hold w f + of_bool (f = f) \<le> refs h f" unfolding held_ok_def by blast+
  then have "0 < refs h f" by simp
  with refs_pos \<open>wf_heap h\<close> show "live h f" by blast
qed

lemma held_ok_ref:
  assumes "wf_heap h" "live h f" "held_ok hold h w f"
  shows "held_ok hold (ref_frame h f) w f"
  unfolding held_ok_def ref_frame_ok(2) [OF assms(1,2)]
proof
  fix g
  from assms(3) have "0 \<le> hold w g \<and> hold w g + of_bool (g = f) \<le> refs h g" unfolding held_ok_def by blast
  then show "0 \<le> hold w g \<and> hold w g + of_bool (g = f) \<le> refs h g + of_bool (g = f)" by (cases "g = f") simp_all
qed

text \<open>
  The references that come and go between two states: \<open>n\<close> references to \<open>f\<close> are used up, the other changes are
  those of what is held, and only frames that were held, and \<open>f\<close>, are held afterwards.
\<close>

definition passes :: "('w \<Rightarrow> nat \<Rightarrow> int) \<Rightarrow> nat \<Rightarrow> int \<Rightarrow> frame_heap \<times> 'w \<Rightarrow> frame_heap \<times> 'w \<Rightarrow> bool" where
  "passes hold f n s s' \<longleftrightarrow> (case s of (h, w) \<Rightarrow> case s' of (h', w') \<Rightarrow>
     wf_heap h' \<and> keeps_pictures h h' \<and> (\<forall>b. blocks h b = None \<longrightarrow> blocks h' b = None) \<and> (\<forall>g. 0 \<le> hold w' g) \<and>
     (\<forall>g. refs h' g - hold w' g = refs h g - hold w g - (if g = f then n else 0)) \<and>
     (\<forall>g. g \<noteq> f \<longrightarrow> hold w g = 0 \<longrightarrow> hold w' g = 0))"

text \<open>The two courses of a turn of the loop.\<close>

lemma turn_cases:
  assumes ok: "cap_ok hold others (d # ds) es (ex, h, w)"
  obtains
    (room) ex1 h1 f where "ex_rel ex1 (ds, False, es @ [f])" "length (ex_slots ex1) = length (ex_slots ex)" "\<not> live h f" "wf_heap h1"
      "\<And>g. refs h1 g = refs h g + of_bool (g = f)" "keeps_pictures h h1" "blocks h1 = blocks h" "fr_d (frames h1 f) = None"
      "live h1 d" "held_ok hold h1 w d"
      "\<And>wt proc dl. capture_turn wt proc dl (ex, h, w) =
         map_option (map_sum id (\<lambda>(h, w). (ex1, h, w))) (deliver_frame_to_stream wt proc d dl (h1, w))"
  | (full) ex1 h1 where "\<forall>g < length (heap_slots h). live h g" "ex_rel ex1 (ds, False, es)"
      "length (ex_slots ex1) = length (ex_slots ex)" "passes hold d 1 (h, w) (h1, w)"
      "\<And>wt proc dl. capture_turn wt proc dl (ex, h, w) = Some (Inr (ex1, h1, w))"
proof -
  note C = cap_okD [OF ok]
  obtain ex1 where t: "exchanger_take ex = (ex1, Some d)" "ex_rel ex1 (ds, False, es)" "ex_pipe ex \<noteq> 0"
    using ex_take [OF C(1)] by (metis prod.collapse)
  have len1: "length (ex_slots ex1) = length (ex_slots ex)" using t(1) by (auto simp: exchanger_take_def Let_def)
  have turn: "capture_turn wt proc dl (ex, h, w) = get_back_frame wt proc dl d (ex1, h, w)" for wt proc dl
    using t by (simp add: capture_turn_def)
  have ld: "live h d" using cap_ok_live [OF ok] by simp
  have size: "length ds + of_bool False + length es < length (ex_slots ex1)"
    using C(1) by (simp add: ex_rel_def Let_def len1)
  show thesis
  proof (cases "\<exists>g < length (heap_slots h). \<not> live h g")
    case True
    from new_frame_ok(1) [OF C(2) this] obtain h1 f where f: "new_frame h = Some (h1, Some f)" "\<not> live h f" "wf_heap h1"
      "\<And>g. refs h1 g = refs h g + of_bool (g = f)" "keeps_pictures h h1" "blocks h1 = blocks h" "fr_d (frames h1 f) = None" by blast
    have ld1: "live h1 d" using ld f(2,4) refs_pos [OF f(3), of d] refs_pos [OF C(2), of d] by (cases "d = f") auto
    have held: "held_ok hold h1 w d" unfolding held_ok_diff
    proof
      fix g
      have "refs h1 g = others g + hold w g + of_bool (g \<in> set ((d # ds) @ es)) + of_bool (g = f)" using f(4) C(6) by simp
      with C(4,5) [of g] show "0 \<le> hold w g \<and> of_bool (g = d) \<le> refs h1 g - hold w g" by (cases "g = d") auto
    qed
    let ?ex = "fst (exchange_frame ex1 f)"
    have "length (ex_slots ?ex) = length (ex_slots ex)" using len1 by (simp add: exchange_frame_def)
    moreover have "capture_turn wt proc dl (ex, h, w) =
        map_option (map_sum id (\<lambda>(h, w). (?ex, h, w))) (deliver_frame_to_stream wt proc d dl (h1, w))" for wt proc dl
      unfolding turn by (simp add: get_back_frame_def f(1))
    ultimately show ?thesis using room [of ?ex f h1] ex_exchange(1) [OF t(2) size, of f] f(2-7) ld1 held by blast
  next
    case False
    then have all: "\<forall>g < length (heap_slots h). live h g" by blast
    from unref_frame_ok [OF C(2) ld] obtain h2 where u: "unref_frame h d = Some (Inr h2)" "wf_heap h2"
      "\<And>g. refs h2 g = refs h g - of_bool (g = d)" "keeps_pictures h h2" "\<And>b. blocks h b = None \<Longrightarrow> blocks h2 b = None" by blast
    have "capture_turn wt proc dl (ex, h, w) = Some (Inr (ex1, h2, w))" for wt proc dl
      unfolding turn by (simp add: get_back_frame_def new_frame_ok(2) [OF C(2) all] u(1))
    moreover have "passes hold d 1 (h, w) (h2, w)" using u(2-5) C(4) by (auto simp: passes_def)
    ultimately show ?thesis using full [of ex1 h2] all t(2) len1 by blast
  qed
qed

lemma turn_idle: "cap_ok hold others [] es (ex, h, w) \<Longrightarrow> capture_turn wt proc dl (ex, h, w) = Some (Inr (ex, h, w))"
  using cap_okD(1) [of hold others "[]" es ex h w] by (auto simp: capture_turn_def ex_rel_def Let_def)

lemma passes_cap_ok:
  assumes ok: "cap_ok hold others (d # ds) es (ex, h, w)" and p: "passes hold d 1 (h1, w) (h', w')"
    and h1: "wf_heap h1" "keeps_pictures h h1" "\<And>g. refs h1 g = refs h g + of_bool (g \<in> set new)" "\<And>g. g \<in> set new \<Longrightarrow> \<not> live h g"
      "\<And>g. g \<in> set new \<Longrightarrow> fr_d (frames h1 g) = None" "length new \<le> 1"
    and rel: "ex_rel ex' (ds, False, es @ new)"
  shows "cap_ok hold others ds (es @ new) (ex', h', w')" "map (picture h') ds = map (picture h) ds"
    "length (heap_slots h') = length (heap_slots h)"
proof -
  note C = cap_okD [OF ok]
  have wf': "wf_heap h'" and pos: "0 \<le> hold w' g" and r': "refs h' g - hold w' g = refs h1 g - hold w g - (if g = d then 1 else 0)"
    and ho: "g \<noteq> d \<Longrightarrow> hold w g = 0 \<Longrightarrow> hold w' g = 0" and kp: "keeps_pictures h1 h'" for g
    using p by (simp_all add: passes_def)
  have nl: "refs h g = 0 \<and> others g = 0 \<and> hold w g = 0 \<and> g \<notin> set ((d # ds) @ es)" if "g \<in> set new" for g
  proof -
    have "refs h g = 0" using h1(4) [OF that] by (simp add: refs_def)
    with no_references [OF C(5,4), of g g "g \<in> set ((d # ds) @ es)"] C(6) [of g] show ?thesis by metis
  qed
  have new: "distinct new" using h1(6) by (cases new) auto
  have dist: "distinct (ds @ es @ new)" "d \<notin> set (ds @ es @ new)" using C(3) nl new by auto
  have refs': "refs h' g = others g + hold w' g + of_bool (g \<in> set (ds @ es @ new))" for g
    using r' [of g] C(6) [of g] h1(3) [of g] dist nl [of g] C(3) by (auto split: if_splits)
  have zero: "others g = 0 \<and> hold w' g = 0" if "g \<in> set (ds @ es @ new)" for g
  proof -
    have "g \<noteq> d" using that dist(2) by blast
    moreover have "others g = 0 \<and> hold w g = 0" using that nl [of g] C(7,8) [of g] by auto
    ultimately show ?thesis using ho by blast
  qed
  have l': "live h' g" if "g \<in> set (ds @ es @ new)" for g using refs' [of g] zero [OF that] that refs_pos [OF wf'] by (simp del: set_append)
  have l1: "live h1 g" if "live h g \<or> g \<in> set new" for g
    using that refs_pos [OF h1(1), of g] refs_pos [OF C(2), of g] h1(3) [of g] nl [of g] by auto
  have same: "picture h' g = picture h g \<and> fr_d (frames h' g) = fr_d (frames h g)" if "g \<in> set (ds @ es)" for g
  proof -
    have "live h g" using cap_ok_live [OF ok, of g] that by auto
    with l1 l' [of g] that h1(2) kp show ?thesis unfolding keeps_pictures_def by auto
  qed
  have "fr_d (frames h' g) = None" if "g \<in> set (es @ new)" for g
  proof (cases "g \<in> set new")
    case True
    then show ?thesis using l1 [of g] l' [of g] h1(5) kp unfolding keeps_pictures_def by auto
  next
    case False
    with that same [of g] C(9) [of g] show ?thesis by auto
  qed
  with rel wf' dist(1) pos C(5) refs' zero show "cap_ok hold others ds (es @ new) (ex', h', w')" by (simp add: cap_ok_def)
  from same show "map (picture h') ds = map (picture h) ds" by simp
  show "length (heap_slots h') = length (heap_slots h)" using kp h1(2) by (simp add: keeps_pictures_def)
qed

locale sink =
  fixes proc :: "nat \<Rightarrow> nat \<Rightarrow> frame_heap \<times> 'w \<Rightarrow> (frame_heap \<times> 'w) cres option"
    and hold :: "'w \<Rightarrow> nat \<Rightarrow> int"
    and Ok :: "'w \<Rightarrow> bool"
    and D :: "nat set"
    and good :: "byte list option \<times> int \<times> int \<times> bool \<times> u32 \<Rightarrow> bool"
  assumes proc_returns: "d \<in> D \<Longrightarrow> wf_heap h \<Longrightarrow> live h f \<Longrightarrow> held_ok hold h w f \<Longrightarrow> Ok w \<Longrightarrow> good (picture h f) \<Longrightarrow> proc d f (h, w) \<noteq> None"
    and proc_ok: "d \<in> D \<Longrightarrow> wf_heap h \<Longrightarrow> live h f \<Longrightarrow> held_ok hold h w f \<Longrightarrow> Ok w \<Longrightarrow> good (picture h f) \<Longrightarrow> proc d f (h, w) = Some (Inr (h', w')) \<Longrightarrow>
      Ok w' \<and> passes hold f 1 (h, w) (h', w')"
begin

lemma passes_trans:
  assumes "passes hold f m (h, w) (h1, w1)" "passes hold f n (h1, w1) (h2, w2)" "\<And>g. live h g \<Longrightarrow> live h2 g \<Longrightarrow> live h1 g"
  shows "passes hold f (m + n) (h, w) (h2, w2)"
  using assms keeps_trans [of h h1 h2] by (auto simp: passes_def)

text \<open>The reference of the caller stays until the end.\<close>

lemma deliver_dests_ok:
  assumes "set ds \<subseteq> D" "wf_heap h" "live h f" "held_ok hold h w f" "Ok w" "good (picture h f)"
  shows "deliver_dests wt proc f ds (h, w) \<noteq> None \<and>
    (\<forall>h' w'. deliver_dests wt proc f ds (h, w) = Some (Inr (h', w')) \<longrightarrow>
       Ok w' \<and> passes hold f 0 (h, w) (h', w') \<and> live h' f \<and> held_ok hold h' w' f)"
  using assms
proof (induction ds arbitrary: h w)
  case Nil
  then show ?case by (auto simp: passes_def held_ok_def)
next
  case (Cons d ds)
  have ds: "set ds \<subseteq> D" "d \<in> D" using Cons.prems(1) by simp_all
  show ?case
  proof (cases "wt w d")
    case False
    with Cons.IH [OF ds(1) Cons.prems(2-6)] show ?thesis by simp
  next
    case True
    let ?h = "ref_frame h f"
    note R = ref_frame_ok [OF Cons.prems(2,3)]
    have l: "live ?h f" using R(4) Cons.prems(3) by simp
    then have gd: "good (picture ?h f)" using R(3) Cons.prems(3,6) by (simp add: keeps_pictures_def)
    note o = held_ok_ref [OF Cons.prems(2-4)]
    note ret = proc_returns [OF ds(2) R(1) l o Cons.prems(5) gd]
    show ?thesis
    proof (cases "proc d f (?h, w)")
      case (Some r)
      show ?thesis
      proof (cases r)
        case (Inl e)
        with True Some show ?thesis by simp
      next
        case (Inr s)
        obtain h1 w1 where s: "s = (h1, w1)" by (cases s)
        from proc_ok [OF ds(2) R(1) l o Cons.prems(5) gd] Some Inr s have p: "Ok w1" "passes hold f 1 (?h, w) (h1, w1)" by blast+
        have e: "refs h1 g - hold w1 g = refs h g - hold w g" for g using p(2) R(2) [of g] by (auto simp: passes_def)
        have wf1: "wf_heap h1" "\<And>g. 0 \<le> hold w1 g" using p(2) by (auto simp: passes_def)
        have o1: "held_ok hold h1 w1 f" using Cons.prems(4) wf1(2) unfolding held_ok_diff e by simp
        have l1: "live h1 f" by (rule held_ok_live [OF wf1(1) o1])
        have p1: "passes hold f 0 (h, w) (h1, w1)"
          using p(2) e keeps_trans [OF R(3), of h1] R(4) by (auto simp: passes_def ref_frame_def)
        have "good (picture h1 f)" using gd p(2) l l1 by (simp add: passes_def keeps_pictures_def)
        note IH = Cons.IH [OF ds(1) wf1(1) l1 o1 p(1) this]
        have "passes hold f 0 (h, w) (h2, w2)" if p2: "passes hold f 0 (h1, w1) (h2, w2)" for h2 w2
        proof -
          have "live h1 g" if lg: "live h g" "live h2 g" for g
          proof -
            have "0 < refs h g - hold w g \<or> 0 < hold w g" using lg(1) refs_pos [OF Cons.prems(2)] by (smt (verit))
            then show ?thesis
            proof
              assume "0 < refs h g - hold w g"
              then have "0 < refs h1 g" using e [of g] wf1(2) [of g] by simp
              then show ?thesis using refs_pos [OF wf1(1)] by simp
            next
              assume hg: "0 < hold w g"
              show ?thesis
              proof (rule ccontr)
                assume "\<not> live h1 g"
                then have r1: "refs h1 g = 0" using refs_pos [OF wf1(1)] refs_nonneg [OF wf1(1), of g] by (smt (verit))
                moreover have "hold w1 g + of_bool (g = f) \<le> refs h1 g" using o1 unfolding held_ok_def by blast
                ultimately have "hold w1 g = 0" using wf1(2) [of g] by (cases "g = f") simp_all
                moreover have "g \<noteq> f" using l1 \<open>\<not> live h1 g\<close> by blast
                ultimately have w2: "hold w2 g = 0" using p2 by (simp add: passes_def)
                have "refs h2 g - hold w2 g = refs h1 g - hold w1 g" using p2 by (simp add: passes_def)
                then have "refs h2 g = 0" using r1 w2 \<open>hold w1 g = 0\<close> by simp
                moreover have "0 < refs h2 g" using lg(2) refs_pos [of h2 g] p2 by (simp add: passes_def)
                ultimately show False by simp
              qed
            qed
          qed
          with passes_trans [OF p1 p2] show ?thesis by simp
        qed
        with IH True Some Inr s show ?thesis by simp
      qed
    qed (use ret in simp)
  qed
qed

lemma deliver_ok:
  assumes "set ds \<subseteq> D" "wf_heap h" "live h f" "held_ok hold h w f" "Ok w" "good (picture h f)"
  shows "deliver_frame_to_stream wt proc f ds (h, w) \<noteq> None \<and>
    (\<forall>h' w'. deliver_frame_to_stream wt proc f ds (h, w) = Some (Inr (h', w')) \<longrightarrow> Ok w' \<and> passes hold f 1 (h, w) (h', w'))"
proof (cases "deliver_dests wt proc f ds (h, w)")
  case None
  with deliver_dests_ok [OF assms, of wt] show ?thesis by simp
next
  case (Some r)
  show ?thesis
  proof (cases r)
    case (Inl e)
    with Some show ?thesis by (simp add: deliver_frame_to_stream_def)
  next
    case (Inr s)
    obtain h1 w1 where s: "s = (h1, w1)" by (cases s)
    from deliver_dests_ok [OF assms, of wt] Some Inr s have p: "Ok w1" "passes hold f 0 (h, w) (h1, w1)" "live h1 f" by auto
    then have wf1: "wf_heap h1" by (simp add: passes_def)
    from unref_frame_ok [OF wf1 p(3)] obtain h2 where u: "unref_frame h1 f = Some (Inr h2)" "wf_heap h2"
      "\<And>g. refs h2 g = refs h1 g - of_bool (g = f)" "keeps_pictures h1 h2" "\<And>b. blocks h1 b = None \<Longrightarrow> blocks h2 b = None" by blast
    have "live h1 g" if "live h2 g" for g using that u(3) [of g] refs_pos [OF wf1, of g] refs_pos [OF u(2), of g] by (cases "g = f") simp_all
    then have "passes hold f 1 (h, w) (h2, w1)"
      using p(2) u(2-5) keeps_trans [of h h1 h2] by (auto simp: passes_def)
    with p(1) u(1) Some Inr s show ?thesis by (simp add: deliver_frame_to_stream_def)
  qed
qed

text \<open>
  A turn of the loop: the first full frame is handed to the destinations, and a free frame takes its
  place; without one the exchanger has a frame less from then on.
\<close>

lemma turn_ok:
  assumes ok: "cap_ok hold others (d # ds) es (ex, h, w)" and D: "set dl \<subseteq> D" "Ok w" "good (picture h d)"
  shows "capture_turn wt proc dl (ex, h, w) \<noteq> None \<and>
    (\<forall>ex' h' w'. capture_turn wt proc dl (ex, h, w) = Some (Inr (ex', h', w')) \<longrightarrow>
       (\<exists>new. cap_ok hold others ds (es @ new) (ex', h', w') \<and> map (picture h') ds = map (picture h) ds \<and>
         length (ex_slots ex') = length (ex_slots ex) \<and> length (heap_slots h') = length (heap_slots h) \<and>
         (Ok w' \<and> length new = 1 \<or> w' = w \<and> new = [] \<and> (\<forall>g < length (heap_slots h). live h g))))"
  using ok
proof (cases rule: turn_cases)
  case (room ex1 h1 f)
  have "good (picture h1 d)" using D(3) room(6,9) cap_ok_live [OF ok, of d] by (simp add: keeps_pictures_def)
  note del = deliver_ok [OF D(1) room(4,9,10) D(2) this, of wt]
  have "\<exists>new. cap_ok hold others ds (es @ new) (ex1, h', w') \<and> map (picture h') ds = map (picture h) ds \<and>
      length (heap_slots h') = length (heap_slots h) \<and> Ok w' \<and> length new = 1"
    if "deliver_frame_to_stream wt proc d dl (h1, w) = Some (Inr (h', w'))" for h' w'
  proof -
    have p: "Ok w'" "passes hold d 1 (h1, w) (h', w')" using del that by blast+
    note P = passes_cap_ok [OF ok p(2) room(4,6), where new = "[f]" and ex' = ex1]
    have "cap_ok hold others ds (es @ [f]) (ex1, h', w')" by (rule P(1)) (use room(1,3,5,8) in simp_all)
    moreover have "map (picture h') ds = map (picture h) ds" by (rule P(2)) (use room(1,3,5,8) in simp_all)
    moreover have "length (heap_slots h') = length (heap_slots h)" by (rule P(3)) (use room(1,3,5,8) in simp_all)
    ultimately show ?thesis using p(1) by (intro exI [of _ "[f]"]) simp
  qed
  moreover have "ex' = ex1 \<and> deliver_frame_to_stream wt proc d dl (h1, w) = Some (Inr (h', w'))"
    if "capture_turn wt proc dl (ex, h, w) = Some (Inr (ex', h', w'))" for ex' h' w'
    using that unfolding room(11) map_result_Inr by auto
  ultimately show ?thesis using del room(2) unfolding room(11) by blast
next
  case (full ex1 h1)
  note P = passes_cap_ok [OF ok full(4) cap_okD(2) [OF ok], where new = "[]" and ex' = ex1]
  have "cap_ok hold others ds (es @ []) (ex1, h1, w)" by (rule P(1)) (use full(2) in simp_all)
  moreover have "map (picture h1) ds = map (picture h) ds" by (rule P(2)) (use full(2) in simp_all)
  moreover have "length (heap_slots h1) = length (heap_slots h)" by (rule P(3)) (use full(2) in simp_all)
  ultimately show ?thesis using full(1,3,5) by (auto intro: exI [of _ "[]"])
qed

end

text \<open>Destinations that cannot fail on a good picture.\<close>

locale safe_sink = sink proc hold Ok D good
  for proc :: "nat \<Rightarrow> nat \<Rightarrow> frame_heap \<times> 'w \<Rightarrow> (frame_heap \<times> 'w) cres option" and hold Ok D good +
  assumes proc_succeeds: "d \<in> D \<Longrightarrow> wf_heap h \<Longrightarrow> live h f \<Longrightarrow> held_ok hold h w f \<Longrightarrow> Ok w \<Longrightarrow> good (picture h f) \<Longrightarrow>
    \<exists>h' w'. proc d f (h, w) = Some (Inr (h', w'))"
begin

lemma deliver_dests_succeeds:
  assumes "set ds \<subseteq> D" "wf_heap h" "live h f" "held_ok hold h w f" "Ok w" "good (picture h f)"
  shows "\<exists>h' w'. deliver_dests wt proc f ds (h, w) = Some (Inr (h', w')) \<and> wf_heap h' \<and> live h' f"
  using assms
proof (induction ds arbitrary: h w)
  case (Cons d ds)
  have ds: "set ds \<subseteq> D" "set [d] \<subseteq> D" "d \<in> D" using Cons.prems(1) by simp_all
  show ?case
  proof (cases "wt w d")
    case False
    with Cons.IH [OF ds(1) Cons.prems(2-6)] show ?thesis by simp
  next
    case True
    note R = ref_frame_ok [OF Cons.prems(2,3)]
    have l: "live (ref_frame h f) f" using R(4) Cons.prems(3) by simp
    note o = held_ok_ref [OF Cons.prems(2-4)]
    have "good (picture (ref_frame h f) f)" using R(3) Cons.prems(3,6) l by (simp add: keeps_pictures_def)
    then obtain h1 w1 where p: "proc d f (ref_frame h f, w) = Some (Inr (h1, w1))"
      using proc_succeeds [OF ds(3) R(1) l o Cons.prems(5)] by blast
    then have "deliver_dests wt proc f [d] (h, w) = Some (Inr (h1, w1))" using True by simp
    with deliver_dests_ok [OF ds(2) Cons.prems(2-6), of wt]
    have a: "Ok w1" "passes hold f 0 (h, w) (h1, w1)" "live h1 f" "held_ok hold h1 w1 f" by blast+
    then have "wf_heap h1" "good (picture h1 f)" using Cons.prems(3,6) by (simp_all add: passes_def keeps_pictures_def)
    from Cons.IH [OF ds(1) this(1) a(3,4,1) this(2)] True p show ?thesis by simp
  qed
qed simp

lemma turn_succeeds:
  assumes ok: "cap_ok hold others (d # ds) es (ex, h, w)" and D: "set dl \<subseteq> D" "Ok w" "good (picture h d)"
  shows "\<exists>ex' h' w'. capture_turn wt proc dl (ex, h, w) = Some (Inr (ex', h', w'))"
  using ok
proof (cases rule: turn_cases)
  case (room ex1 h1 f)
  have "good (picture h1 d)" using D(3) room(6,9) cap_ok_live [OF ok, of d] by (simp add: keeps_pictures_def)
  from deliver_dests_succeeds [OF D(1) room(4,9,10) D(2) this, of wt] obtain h2 w2 where
    d: "deliver_dests wt proc d dl (h1, w) = Some (Inr (h2, w2))" "wf_heap h2" "live h2 d" by blast
  from unref_frame_ok [OF d(2,3)] obtain h3 where "unref_frame h2 d = Some (Inr h3)" by blast
  with d(1) room(11) show ?thesis by (simp add: deliver_frame_to_stream_def)
qed simp

end

section \<open>ADPCM\<close>

lemma step_table_range: "list_all (\<lambda>st. 0 \<le> st \<and> st \<le> 32767) step_table" "length step_table = 89"
  by (simp_all add: step_table_def)

lemma adpcm_code_ok:
  assumes "0 \<le> i" "i \<le> 88"
  shows "\<exists>s' i'. adpcm_code c s i = Inr (s', i') \<and> -32768 \<le> s' \<and> s' \<le> 32767 \<and> 0 \<le> i' \<and> i' \<le> 88"
proof -
  have "rd step_table (nat i) = Inr (step_table ! nat i)" using assms step_table_range(2) by (simp add: rd_def)
  moreover have "rd index_adjust (c mod 8) = Inr (index_adjust ! (c mod 8))" by (simp add: rd_def index_adjust_def)
  moreover have "-32768 \<le> clip (-32768) 32767 x \<and> clip (-32768) 32767 x \<le> 32767 \<and> 0 \<le> clip 0 88 y \<and> clip 0 88 y \<le> 88" for x y
    by (simp add: clip_def)
  ultimately show ?thesis using assms(1) by (simp add: adpcm_code_def Let_def)
qed

lemma adpcm_codes_ok:
  "0 \<le> i \<Longrightarrow> i \<le> 88 \<Longrightarrow> \<exists>xs s' i'. adpcm_codes cs s i = Inr (xs, s', i') \<and> length xs = length cs \<and>
     list_all (\<lambda>x. -32768 \<le> x \<and> x \<le> 32767) xs \<and> 0 \<le> i' \<and> i' \<le> 88"
proof (induction cs arbitrary: s i)
  case (Cons c cs)
  from adpcm_code_ok [OF Cons.prems] obtain s1 i1 where 1: "adpcm_code c s i = Inr (s1, i1)" "-32768 \<le> s1" "s1 \<le> 32767" "0 \<le> i1" "i1 \<le> 88"
    by blast
  from Cons.IH [OF 1(4,5), of s1] 1 show ?case by auto
qed simp

lemma length_codes [simp]: "length (nibbles raw) = 2 * length raw"
  by (induction raw) (simp_all add: nibbles_def)

lemma adpcm_codes_fault: "i < 0 \<or> 88 < i \<Longrightarrow> adpcm_codes (c # cs) s i = Inl Fault"
  using step_table_range(2) by (auto simp: adpcm_code_def rd_def)

text \<open>
  C37. The decoder turns every byte into two samples of 16 bits, and reads neither of its tables out of
  bounds, exactly when the index in the header of the chunk is one of the table: it is not tested, so that
  any other index makes it read behind the table at the first byte.
\<close>

theorem adpcm_decode_bounds:
  "if 0 \<le> i \<and> i \<le> 88 \<or> raw = []
   then \<exists>xs s' i'. adpcm_decode raw s i = Inr (xs, s', i') \<and> length xs = 2 * length raw \<and> list_all (\<lambda>x. -32768 \<le> x \<and> x \<le> 32767) xs
   else adpcm_decode raw s i = Inl Fault"
proof (cases raw)
  case Nil
  then show ?thesis by (simp add: adpcm_decode_def nibbles_def)
next
  case (Cons b bs)
  then obtain c cs where "nibbles raw = c # cs" by (simp add: nibbles_def)
  with adpcm_codes_fault [of i c cs s] adpcm_codes_ok [of i "nibbles raw" s] Cons show ?thesis
    by (auto simp: adpcm_decode_def)
qed

section \<open>Sound that stops\<close>

text \<open>What the event loop does with an exchanger: it takes a full frame, and mostly gives an empty one.\<close>

inductive loop_side :: "exchanger \<Rightarrow> exchanger \<Rightarrow> bool" where
  Take: "ex_pipe ex \<noteq> 0 \<Longrightarrow> exchanger_take ex = (ex', Some f) \<Longrightarrow> loop_side ex ex'"
| Swap: "ex_pipe ex \<noteq> 0 \<Longrightarrow> exchanger_take ex = (ex', Some f) \<Longrightarrow> loop_side ex (fst (exchange_frame ex' g))"

lemma loop_side_held:
  assumes "loop_side ex ex'" "ex_rel ex (ds, True, es)"
  shows "\<exists>ds' es'. ex_rel ex' (ds', True, es')"
proof -
  have "ds \<noteq> []" using assms by (auto simp: ex_rel_def Let_def elim: loop_side.cases)
  then obtain d ds' where Cons: "ds = d # ds'" by (cases ds) auto
  note t = ex_take [OF assms(2) [unfolded Cons]]
  have "length (ex_slots (fst (exchanger_take ex))) = length (ex_slots ex)" by (simp add: exchanger_take_def Let_def split: prod.split)
  then have room: "length ds' + of_bool True + length es < length (ex_slots (fst (exchanger_take ex)))"
    using assms(2) by (simp add: ex_rel_def Let_def Cons)
  from assms(1) show ?thesis
  proof cases
    case (Take f)
    with t(1) show ?thesis by auto
  next
    case (Swap ex1 f g)
    with ex_exchange(1) [OF t(1) room, of g] show ?thesis by auto
  qed
qed

lemma loop_side_run: "loop_side\<^sup>*\<^sup>* ex ex' \<Longrightarrow> ex_rel ex (ds, True, es) \<Longrightarrow> \<exists>ds' es'. ex_rel ex' (ds', True, es')"
  by (induction rule: rtranclp_induct) (blast intro: loop_side_held)+

lemma audio_dropped:
  assumes "ex_rel ex (ds, True, es)" "blocks h (ac_data vf) \<noteq> None"
  shows "get_audio_chunk_cb v room vf (ex, h) = Inr (ex, h\<lparr>blocks := (blocks h)(ac_data vf := None)\<rparr>)"
  using ex_get_none [OF assms(1)] assms(2) by (simp add: get_audio_chunk_cb_def free_block_def)

text \<open>
  C39. One chunk of sound with an unknown codec, or one for which no memory can be allocated, ends the
  sound for good: the frame that was taken for it is never delivered, so that whatever the event loop does
  from then on, every later chunk finds no frame and is thrown away.
\<close>

theorem lost_chunk_silences:
  assumes "ex_rel ex (ds, False, e # es)" "blocks h (ac_data vf) \<noteq> None"
    and "ac_codec vf = Codec_Other \<or> ac_codec vf = Codec_ADPCM \<and> in_format v \<noteq> FORMAT_ADPCM \<and> room = None"
  shows "\<exists>ex1 h1. get_audio_chunk_cb v room vf (ex, h) = Inr (ex1, h1) \<and>
    (\<forall>ex2 h2 later r. loop_side\<^sup>*\<^sup>* ex1 ex2 \<and> blocks h2 (ac_data later) \<noteq> None \<longrightarrow>
       get_audio_chunk_cb v r later (ex2, h2) = Inr (ex2, h2\<lparr>blocks := (blocks h2)(ac_data later := None)\<rparr>))"
proof -
  obtain ex1 where g: "get_next_frame id ex False = (ex1, Some e)" "ex_rel ex1 (ds, True, es)"
    using ex_get [OF assms(1)] by (metis prod.collapse)
  have "\<exists>h1. get_audio_chunk_cb v room vf (ex, h) = Inr (ex1, h1)"
    using assms(2,3) by (auto simp: get_audio_chunk_cb_def g(1) free_block_def fill_audio_def upd_frame_def)
  moreover have "get_audio_chunk_cb v r later (ex2, h2) = Inr (ex2, h2\<lparr>blocks := (blocks h2)(ac_data later := None)\<rparr>)"
    if "loop_side\<^sup>*\<^sup>* ex1 ex2" "blocks h2 (ac_data later) \<noteq> None" for ex2 h2 later r
    using loop_side_run [OF that(1) g(2)] audio_dropped that(2) by blast
  ultimately show ?thesis by blast
qed

text \<open>An exchanger of one slot.\<close>

lemma lost_chunk_silences_witness:
  "\<exists>ex h ex1 h1. get_audio_chunk_cb (new_input 0) None \<lparr>ac_codec = Codec_Other, ac_data = 0, ac_len = 2, ac_tick = 0\<rparr> (ex, h) = Inr (ex1, h1) \<and>
    get_audio_chunk_cb (new_input 0) None \<lparr>ac_codec = Codec_PCM, ac_data = 0, ac_len = 2, ac_tick = 0\<rparr> (ex1, h) =
      Inr (ex1, h\<lparr>blocks := (blocks h)(0 := None)\<rparr>)"
proof -
  let ?h = "demo_heap\<lparr>blocks := (\<lambda>_. None)(0 := Some [1, 2])\<rparr>"
  obtain ex0 where ex0: "ex_rel ex0 ([], False, [])" "length (ex_slots ex0) = 1" using ex_rel_new [of 1] by auto
  have "ex_rel (fst (exchange_frame ex0 0)) ([], False, [0])" using ex_exchange(1) [OF ex0(1), of 0] ex0(2) by simp
  from lost_chunk_silences [OF this, of ?h "\<lparr>ac_codec = Codec_Other, ac_data = 0, ac_len = 2, ac_tick = 0\<rparr>" "new_input 0" None]
  obtain ex1 h1 where r: "get_audio_chunk_cb (new_input 0) None \<lparr>ac_codec = Codec_Other, ac_data = 0, ac_len = 2, ac_tick = 0\<rparr> (fst (exchange_frame ex0 0), ?h) = Inr (ex1, h1)"
    "\<forall>ex2 h2 later r. loop_side\<^sup>*\<^sup>* ex1 ex2 \<and> blocks h2 (ac_data later) \<noteq> None \<longrightarrow>
       get_audio_chunk_cb (new_input 0) r later (ex2, h2) = Inr (ex2, h2\<lparr>blocks := (blocks h2)(ac_data later := None)\<rparr>)" by auto
  from r(2) [rule_format, of ex1 ?h "\<lparr>ac_codec = Codec_PCM, ac_data = 0, ac_len = 2, ac_tick = 0\<rparr>" None] r(1) show ?thesis
    by (intro exI [of _ "fst (exchange_frame ex0 0)"] exI [of _ ?h] exI [of _ ex1] exI [of _ h1]) simp
qed

end
