(* ===== verification/Layout.thy ===== *)
theory Layout
  imports Server_Run
begin

text \<open>
  Which tracks the entries offer is fixed once the configuration has been read: no event of the
  server changes it, so that a track that is used stays used.
\<close>

definition layout :: "world \<Rightarrow> nat \<Rightarrow> nat option list" where
  "layout w en = le_tracks (entries w en)"

lemma used_layout: "layout w' = layout w \<Longrightarrow> used w' = used w"
  by (simp add: fun_eq_iff used_def layout_def)

lemma layout_simps [simp]:
  "layout (w\<lparr>conns := x1\<rparr>) = layout w" "layout (w\<lparr>conn_list := x2\<rparr>) = layout w" "layout (w\<lparr>proto_state := x3\<rparr>) = layout w"
  "layout (w\<lparr>fresh := x4\<rparr>) = layout w" "layout (w\<lparr>http_locs := x5\<rparr>) = layout w" "layout (w\<lparr>http_sess := x6\<rparr>) = layout w"
  "layout (w\<lparr>http_fresh := x7\<rparr>) = layout w" "layout (w\<lparr>udp_out := x8\<rparr>) = layout w" "layout (w\<lparr>tracks := x9\<rparr>) = layout w"
  "layout (w\<lparr>endpoints := x10\<rparr>) = layout w" "layout (w\<lparr>streams_of := x11\<rparr>) = layout w"
  by (simp_all add: layout_def fun_eq_iff)

lemma stable_layout: "stable w w' \<Longrightarrow> layout w' = layout w"
  by (simp add: stable_def layout_def fun_eq_iff)

text \<open>Computations with a layout: \<open>f\<close> says where the state is in a result.\<close>

definition at_layout :: "(nat \<Rightarrow> nat option list) \<Rightarrow> ('a \<Rightarrow> world) \<Rightarrow> 'a cres \<Rightarrow> bool" where
  "at_layout L f r \<longleftrightarrow> (\<forall>x. r = Inr x \<longrightarrow> layout (f x) = L)"

lemma at_layout_simps [simp]: "at_layout L f (Inl e)" "at_layout L f (Inr x) = (layout (f x) = L)"
  by (simp_all add: at_layout_def)

lemma at_bind: "at_layout L f r \<Longrightarrow> (\<And>x. layout (f x) = L \<Longrightarrow> at_layout L g (k x)) \<Longrightarrow> at_layout L g (bindE r k)"
  by (cases r) (auto simp: at_layout_def)

lemma at_pure: "(\<And>x. r = Inr x \<Longrightarrow> at_layout L g (k x)) \<Longrightarrow> at_layout L g (bindE r k)"
  by (cases r) auto

lemma at_if: "(P \<Longrightarrow> at_layout L g a) \<Longrightarrow> (\<not> P \<Longrightarrow> at_layout L g b) \<Longrightarrow> at_layout L g (if P then a else b)"
  by simp

lemma at_keeps: "keeps f w r \<Longrightarrow> layout w = L \<Longrightarrow> at_layout L f r"
  by (auto simp: keeps_def at_layout_def dest: stable_layout)

lemma at_layoutD: "at_layout L f r \<Longrightarrow> r = Inr x \<Longrightarrow> layout (f x) = L"
  by (simp add: at_layout_def)

section \<open>A frame from a source\<close>

lemma transmit_layout: "layout w = L \<Longrightarrow> at_layout L fst (transmit env w e E v)"
  by (auto simp: transmit_def intro!: at_pure split: trans.splits)

lemma rtcp_send_layout: "layout w = L \<Longrightarrow> at_layout L fst (rtcp_send env w e)"
  unfolding rtcp_send_def Let_def
  by (intro at_pure) (auto intro!: at_bind [OF at_keeps [OF live_teardown_keeps]])

lemma send_rtp_packet_layout: "layout w = L \<Longrightarrow> at_layout L fst (send_rtp_packet env e w p)"
  unfolding send_rtp_packet_def Let_def
  by (cases p) (auto intro!: at_pure [of "deref _ _"] at_bind [OF transmit_layout] at_bind [OF rtcp_send_layout])

lemma endpoint_sender_layout: "keeps_inv (at_layout L id) (endpoint_sender env e)"
  unfolding keeps_inv_def
proof (intro allI impI)
  fix r p assume "at_layout L id r"
  moreover have "layout w' = layout w" if "send_rtp_packet env e w p = Inr (w', ok)" for w w' ok
    using at_layoutD [OF send_rtp_packet_layout that] by simp
  ultimately show "at_layout L id (fst (endpoint_sender env e r p))"
    by (cases r) (auto simp: endpoint_sender_def split: sum.splits)
qed

lemma media_send_layout: "layout w = L \<Longrightarrow> at_layout L fst (media_send env m w e)"
proof -
  assume "layout w = L"
  then have t: "at_layout L id (Inr w)" by simp
  note inv = packetisers_inv [OF endpoint_sender_layout t, of env e]
  have fin: "at_layout L id (fst (a, b)) \<Longrightarrow> at_layout L fst (bindE a (\<lambda>w'. Inr (w', b)))" for a and b :: bool
    by (cases a) auto
  show ?thesis
    unfolding media_send_def Let_def
    by (rule at_pure, cases m) (auto intro!: at_pure [of "jpeg_send _ _ _ _"] fin dest: inv split: option.splits)
qed

lemma send_to_session_layout: "layout w = L \<Longrightarrow> at_layout L id (send_to_session env w t en key s js)"
proof (induction js)
  case (Cons j js)
  then show ?case
    using media_send_layout [OF Cons.prems]
    by (auto intro!: at_pure [of "deref _ _"] at_bind [where f = fst] split: option.splits)
qed simp

lemma send_to_sessions_layout: "layout w = L \<Longrightarrow> at_layout L id (send_to_sessions env w t key ls)"
proof (induction ls arbitrary: w)
  case (Cons p ls)
  then show ?case by (cases p) (auto intro!: at_bind [OF send_to_session_layout])
qed simp

lemma next_live_frame_layout:
  assumes w: "layout w = L"
  shows "at_layout L id (next_live_frame env w t d ts key)"
proof -
  have ready: "at_layout L id (if lt_ready T then Inr w1 else bindE (world_set_waiting w1 (lt_dest T) False) (\<lambda>w2.
      Inr (w2\<lparr>tracks := (tracks w2)(t := (tracks w2 t)\<lparr>lt_ready := True\<rparr>)\<rparr>)))" if "layout w1 = L" for T w1
    using that by (auto intro!: at_bind [OF at_keeps [OF world_set_waiting_keeps]])
  have "at_layout L id (let w1 = w\<lparr>tracks := T\<rparr> in if \<not> ok then Inr w1
      else bindE (if lt_ready (tracks w1 t) then Inr w1
                  else bindE (world_set_waiting w1 (lt_dest (tracks w1 t)) False) (\<lambda>w2.
                    Inr (w2\<lparr>tracks := (tracks w2)(t := (tracks w2 t)\<lparr>lt_ready := True\<rparr>)\<rparr>))) (\<lambda>w2.
             send_to_sessions env w2 t key [(en, s). en \<leftarrow> lt_entries (tracks w2 t), s \<leftarrow> le_sessions (entries w2 en)]))" for ok T
    unfolding Let_def
    by (rule at_if, use w in simp, rule at_bind [OF ready send_to_sessions_layout]) (use w in simp_all)
  note step = this
  show ?thesis
    unfolding next_live_frame_def by (cases "lt_media (tracks w t)") (auto intro!: at_pure step)
qed

section \<open>Connections\<close>

lemma http_conn_disconnect_layout: "layout w = L \<Longrightarrow> at_layout L id (http_conn_disconnect w c)"
  by (auto simp: http_conn_disconnect_def Let_def intro!: at_pure split: proto_state.splits)

lemma rtsp_conn_disconnect_layout: "layout w = L \<Longrightarrow> at_layout L id (rtsp_conn_disconnect (live_provider dims) w c)"
  unfolding rtsp_conn_disconnect_def by (rule at_bind [OF at_keeps [OF disconnect_channels_keeps]]) simp_all

lemma drop_conn_layout:
  assumes "layout w = L"
  shows "at_layout L id (drop_conn (live_provider dims) w c)"
proof -
  have "at_layout L id (if proto_state w c = No_State then Inr w
      else case p of CONN_PROTO_HTTP \<Rightarrow> http_conn_disconnect w c | CONN_PROTO_RTSP \<Rightarrow> rtsp_conn_disconnect (live_provider dims) w c | _ \<Rightarrow> Inr w)" for p
    using http_conn_disconnect_layout [OF assms] rtsp_conn_disconnect_layout [OF assms] assms by (cases p) simp_all
  note handler = this
  show ?thesis unfolding drop_conn_def by (rule at_pure, rule at_bind [OF handler]) (simp add: free_conn_def)
qed

lemma http_send_error_layout: "layout w = L \<Longrightarrow> at_layout L id (http_send_error w c code reason t)"
  unfolding http_send_error_def by (intro at_pure) simp

lemma http_handle_msg_layout: "layout w = L \<Longrightarrow> at_layout L id (http_handle_msg w c meth uri)"
  by (auto simp: http_handle_msg_def http_handle_GET_def http_handle_unknown_def Let_def add_http_stream_session_def
    intro!: at_pure http_send_error_layout split: option.splits)

lemma handle_QT_tunnel_layout: "layout w = L \<Longrightarrow> at_layout L fst (handle_QT_tunnel w c m post)"
  by (auto simp: handle_QT_tunnel_def Let_def intro!: at_pure split: option.splits)

lemma tcp_handle_unknown_layout: "layout w = L \<Longrightarrow> at_layout L fst (tcp_handle_unknown w c m)"
  unfolding tcp_handle_unknown_def by (intro at_pure) (auto split: option.splits)

lemma dispatch_layout: "layout w = L \<Longrightarrow> at_layout L fst (dispatch (live_provider dims) env w c p m)"
  by (auto simp: dispatch_def handle_GET_def handle_POST_def split: conn_proto.splits
    intro!: at_bind [OF http_handle_msg_layout] at_bind [OF handle_QT_tunnel_layout] at_bind [OF at_keeps [OF handle_msg_keeps]]
      tcp_handle_unknown_layout)

lemma handle_request_layout: "layout w = L \<Longrightarrow> at_layout L fst (handle_request (live_provider dims) env w c)"
  unfolding handle_request_def by (rule at_pure) (auto intro: dispatch_layout split: sum.splits cerr.splits)

lemma empty_req_buf_layout: "layout w = L \<Longrightarrow> at_layout L id (empty_req_buf w c)"
  unfolding empty_req_buf_def by (rule at_pure) simp

lemma parse_client_data_layout: "layout w = L \<Longrightarrow> at_layout L fst (parse_client_data (live_provider dims) env w c)"
  unfolding parse_client_data_def
  by (rule at_pure) (auto intro!: at_bind [OF at_keeps [OF interleave_recv_keeps]] at_bind [OF handle_request_layout]
    at_bind [OF empty_req_buf_layout] split: client_input.splits)

lemma parse_loop_layout: "parse_loop (live_provider dims) env n w c = Some (Inr x) \<Longrightarrow> layout (fst x) = layout w"
proof (induction n arbitrary: w)
  case (Suc n)
  from Suc.prems obtain w1 ret where p: "parse_client_data (live_provider dims) env w c = Inr (w1, ret)"
    and x: "0 < ret \<and> parse_loop (live_provider dims) env n w1 c = Some (Inr x) \<or> \<not> 0 < ret \<and> x = (w1, ret)"
    by (auto split: sum.splits prod.splits if_splits)
  have "layout w1 = layout w" using at_layoutD [OF parse_client_data_layout [OF refl] p] by simp
  with x Suc.IH [of w1] show ?case by auto
qed simp

lemma close_input_layout: "layout w = L \<Longrightarrow> at_layout L id (close_input (live_provider dims) w c second)"
  by (auto simp: close_input_def intro!: at_pure [of "deref _ _"] drop_conn_layout)

lemma process_input_layout: "layout w = L \<Longrightarrow> at_layout L fst (process_input (live_provider dims) env w c C)"
proof -
  assume w: "layout w = L"
  have "at_layout L fst (bindE r (\<lambda>(w1, ret).
      if ret < (0 :: int) then bindE (drop_conn (live_provider dims) w1 c) (\<lambda>w2. Inr (w2, False)) else Inr (w1, True)))"
    if "at_layout L fst r" for r
    using that by (rule at_bind) (auto intro!: at_bind [OF drop_conn_layout])
  moreover have "at_layout L fst r" if "parse_loop (live_provider dims) env n (upd_conn c C1 w) c = Some r" for n C1 r
    using parse_loop_layout that w by (fastforce simp: at_layout_def)
  ultimately show ?thesis
    using w by (auto simp: process_input_def intro!: at_bind [OF drop_conn_layout] at_pure [of "wr _ _ _"] split: option.splits)
qed

lemma do_read_layout: "layout w = L \<Longrightarrow> at_layout L id (do_read (live_provider dims) w c second as)"
proof (induction as arbitrary: w)
  case Nil
  then show ?case by (auto intro!: at_pure)
next
  case (Cons p as)
  obtain env a where p: "p = (env, a)" by (cases p)
  have "at_layout L fst (read_one (live_provider dims) env w c second a)"
    using Cons.prems by (auto simp: read_one_def Let_def intro!: at_pure [of "deref _ _"] at_bind [OF close_input_layout] process_input_layout)
  then show ?case unfolding p do_read.simps by (rule at_bind) (use Cons.IH in \<open>auto simp: id_def\<close>)
qed

lemma server_write_layout: "layout w = L \<Longrightarrow> at_layout L fst (server_write (live_provider dims) w c ws)"
  unfolding server_write_def by (rule at_pure) (auto simp: Let_def split: prod.splits intro!: at_bind [OF drop_conn_layout])

lemma send_to_streams_layout: "layout w = L \<Longrightarrow> at_layout L id (send_to_streams w l hs)"
proof (induction hs arbitrary: w)
  case (Cons h hs)
  then show ?case by (auto intro!: at_pure split: option.splits)
qed simp

lemma jpeg_next_frame_layout: "layout w = L \<Longrightarrow> at_layout L id (jpeg_next_frame w l d)"
  unfolding jpeg_next_frame_def by (rule at_pure) (auto simp: Let_def intro!: at_pure send_to_streams_layout)

section \<open>Endpoints\<close>

lemma rtcp_fire_layout: "layout w = L \<Longrightarrow> at_layout L id (rtcp_fire env w e)"
  unfolding rtcp_fire_def by (rule at_bind [OF rtcp_send_layout]) auto

lemma live_teardown_layout: "layout w = L \<Longrightarrow> at_layout L id (live_teardown w s ep)"
  by (rule at_keeps [OF live_teardown_keeps])

lemma udp_read_layout:
  assumes "layout w = L"
  shows "at_layout L id (udp_rtp_event w e now got)" "at_layout L id (udp_rtcp_event w e now thr got)"
  using assms by (auto simp: udp_rtp_event_def udp_rtcp_event_def intro!: at_pure live_teardown_layout split: option.splits)

section \<open>Events\<close>

lemma server_step_layout: "server_step dims w w' \<Longrightarrow> layout w' = layout w"
  by (erule server_stepE) (auto simp: do_accept_def Let_def dest: at_layoutD [OF rtcp_fire_layout [OF refl]]
    at_layoutD [OF udp_read_layout(1) [OF refl]] at_layoutD [OF udp_read_layout(2) [OF refl]] at_layoutD [OF do_read_layout [OF refl]] at_layoutD [OF server_write_layout [OF refl]]
    at_layoutD [OF jpeg_next_frame_layout [OF refl]] at_layoutD [OF next_live_frame_layout [OF refl]])

lemma server_step_used: "server_step dims w w' \<Longrightarrow> used w' = used w"
  by (rule used_layout, rule server_step_layout)

end
