(* ===== verification/Capture_Server.thy ===== *)
theory Capture_Server
  imports Capture_Proofs Layout
begin

text \<open>
  The destinations of the streams: the tracks of \<open>live.c\<close> and the locations of \<open>http.c\<close>, as callbacks that
  own a reference to a frame. With them the server from the callback of the camera to the sockets of its
  clients is one system, which is shown to be a queue of pictures that loses and repeats none.
\<close>

section \<open>The callbacks of the destinations\<close>

text \<open>\<open>st_held\<close> is \<open>loc->frame\<close> of the locations; the bytes of that frame are \<open>hl_frame\<close> in the world.\<close>

record station =
  st_world :: world
  st_held :: "nat \<Rightarrow> nat option"

datatype target = Track nat | Location nat

text \<open>The bytes that \<open>f->d\<close> and \<open>f->length\<close> describe.\<close>

definition frame_bytes :: "frame_heap \<Rightarrow> nat \<Rightarrow> byte list cres" where
  "frame_bytes h f =
     (let n = fr_length (frames h f) in
      case Option.bind (fr_d (frames h f)) (blocks h) of
        None \<Rightarrow> Inl Fault
      | Some d \<Rightarrow> if n < 0 \<or> length d < nat n then Inl Fault else Inr (take (nat n) d))"

definition track_frame :: "send_env \<Rightarrow> nat \<Rightarrow> nat \<Rightarrow> frame_heap \<times> station \<Rightarrow> (frame_heap \<times> station) cres option" where
  "track_frame env t f s =
     (case s of (h, S) \<Rightarrow>
        case bindE (frame_bytes h f) (\<lambda>d. next_live_frame env (st_world S) t d (fr_timestamp (frames h f)) (fr_key (frames h f))) of
          Inl x \<Rightarrow> Some (Inl x)
        | Inr w \<Rightarrow> map_option (map_sum id (\<lambda>h. (h, S\<lparr>st_world := w\<rparr>))) (unref_frame h f))"

definition location_frame :: "nat \<Rightarrow> nat \<Rightarrow> frame_heap \<times> station \<Rightarrow> (frame_heap \<times> station) cres option" where
  "location_frame l f s =
     (case s of (h, S) \<Rightarrow>
        case bindE (frame_bytes h f) (\<lambda>d. bindE (malformed d) (\<lambda>bad. Inr (d, bad))) of
          Inl x \<Rightarrow> Some (Inl x)
        | Inr (d, bad) \<Rightarrow>
            if bad then map_option (map_sum id (\<lambda>h. (h, S))) (unref_frame h f)
            else map_option (\<lambda>r. bindE r (\<lambda>h. bindE (jpeg_next_frame (st_world S) l d) (\<lambda>w.
                   Inr (h, S\<lparr>st_world := w, st_held := (st_held S)(l := Some f)\<rparr>))))
                 (case st_held S l of None \<Rightarrow> Some (Inr h) | Some g \<Rightarrow> unref_frame h g))"

text \<open>\<open>tgt\<close> says what \<open>connect_to_stream\<close> has connected to a destination.\<close>

definition deliver_to ::
  "(nat \<Rightarrow> target option) \<Rightarrow> send_env \<Rightarrow> nat \<Rightarrow> nat \<Rightarrow> frame_heap \<times> station \<Rightarrow> (frame_heap \<times> station) cres option" where
  "deliver_to tgt env d f s =
     (case tgt d of None \<Rightarrow> Some (Inl Fault) | Some (Track t) \<Rightarrow> track_frame env t f s | Some (Location l) \<Rightarrow> location_frame l f s)"

section \<open>References that locations hold\<close>

definition held_refs :: "nat \<Rightarrow> station \<Rightarrow> nat \<Rightarrow> int" where
  "held_refs n S g = (\<Sum>l<n. of_bool (st_held S l = Some g))"

lemma held_refs_nonneg [simp]: "0 \<le> held_refs n S g"
  by (simp add: held_refs_def sum_nonneg)

lemma held_refs_world [simp]: "held_refs n (S\<lparr>st_world := w\<rparr>) = held_refs n S"
  by (simp add: held_refs_def fun_eq_iff)

lemma held_refs_pos: "l < n \<Longrightarrow> st_held S l = Some g \<Longrightarrow> 0 < held_refs n S g"
  unfolding held_refs_def by (rule sum_pos2 [of _ l]) simp_all

lemma held_refs_hold:
  assumes "l < n" "st_held S' = (st_held S)(l := Some f)"
  shows "held_refs n S' g = held_refs n S g - of_bool (st_held S l = Some g) + of_bool (g = f)"
proof -
  have "(\<Sum>k<n. of_bool (st_held X k = Some g)) = of_bool (st_held X l = Some g) + (\<Sum>k\<in>{..<n} - {l}. of_bool (st_held X k = Some g) :: int)" for X
    by (rule sum.remove) (use assms(1) in simp_all)
  note split = this
  have "(\<Sum>k\<in>{..<n} - {l}. of_bool (st_held S' k = Some g)) = (\<Sum>k\<in>{..<n} - {l}. of_bool (st_held S k = Some g) :: int)"
    by (rule sum.cong) (simp_all add: assms(2))
  then show ?thesis using assms(2) unfolding held_refs_def split [of S'] split [of S] by auto
qed

section \<open>The contract of the destinations\<close>

text \<open>
  The state of the server is well-formed, and every destination exists: its track is offered by an
  entry, or its location is among the first \<open>n\<close>.
\<close>

definition targets_ok :: "(nat \<Rightarrow> target option) \<Rightarrow> nat \<Rightarrow> nat set \<Rightarrow> world \<Rightarrow> bool" where
  "targets_ok tgt n D w \<longleftrightarrow>
     (\<forall>d\<in>D. case tgt d of None \<Rightarrow> False | Some (Track t) \<Rightarrow> used w t | Some (Location l) \<Rightarrow> l < n)"

definition station_ok :: "(nat \<Rightarrow> int \<times> int) \<Rightarrow> (nat \<Rightarrow> target option) \<Rightarrow> nat \<Rightarrow> nat set \<Rightarrow> station \<Rightarrow> bool" where
  "station_ok dims tgt n D S \<longleftrightarrow> server_ok dims (st_world S) \<and> targets_ok tgt n D (st_world S)"

text \<open>A picture that \<open>f->d\<close> holds completely; for locations it has to be a JPEG picture of eleven bytes.\<close>

definition whole_picture :: "(nat \<Rightarrow> target option) \<Rightarrow> nat set \<Rightarrow> byte list option \<times> int \<times> int \<times> bool \<times> u32 \<Rightarrow> bool" where
  "whole_picture tgt D p \<longleftrightarrow>
     (case p of (d, n, _) \<Rightarrow>
        (case d of None \<Rightarrow> False | Some b \<Rightarrow>
           0 \<le> n \<and> nat n \<le> length b \<and> ((\<exists>x\<in>D. \<exists>l. tgt x = Some (Location l)) \<longrightarrow> jpeg_frame (take (nat n) b))))"

lemma whole_bytes:
  assumes "whole_picture tgt D (picture h f)"
  shows "\<exists>d. frame_bytes h f = Inr d \<and> ((\<exists>x\<in>D. \<exists>l. tgt x = Some (Location l)) \<longrightarrow> jpeg_frame d)"
  using assms by (auto simp: whole_picture_def picture_def frame_bytes_def Let_def split: option.splits)

lemma station_world:
  assumes "station_ok dims tgt n D S" "server_ok dims w" "used w = used (st_world S)"
  shows "station_ok dims tgt n D (S\<lparr>st_world := w\<rparr>)"
  using assms unfolding station_ok_def targets_ok_def by (auto split: option.splits target.splits)

lemma track_frame_ok:
  assumes wf: "wf_heap h" and f: "live h f" and ok: "station_ok dims tgt n D S" and t: "used (st_world S) t"
  shows "track_frame env t f (h, S) \<noteq> None \<and>
    (\<forall>h' S'. track_frame env t f (h, S) = Some (Inr (h', S')) \<longrightarrow> station_ok dims tgt n D S' \<and> passes (held_refs n) f 1 (h, S) (h', S'))"
proof -
  from unref_frame_ok [OF wf f] obtain h1 where u: "unref_frame h f = Some (Inr h1)" "wf_heap h1"
    "\<And>g. refs h1 g = refs h g - of_bool (g = f)" "keeps_pictures h h1" "\<And>b. blocks h b = None \<Longrightarrow> blocks h1 b = None" by blast
  have "passes (held_refs n) f 1 (h, S) (h1, S\<lparr>st_world := w\<rparr>)" for w using u(2-5) by (auto simp: passes_def)
  moreover have "station_ok dims tgt n D (S\<lparr>st_world := w\<rparr>)" if "next_live_frame env (st_world S) t d ts key = Inr w" for w d ts key
  proof (rule station_world [OF ok])
    have "server_ok dims (st_world S)" using ok by (simp add: station_ok_def)
    with next_live_frame_inv [OF that _ t] show "server_ok dims w" .
    show "used w = used (st_world S)" using at_layoutD [OF next_live_frame_layout [OF refl] that] by (intro used_layout) simp
  qed
  ultimately show ?thesis using u(1) by (auto simp: track_frame_def bindE_eq_Inr split: sum.splits)
qed

lemma location_frame_ok:
  assumes wf: "wf_heap h" and f: "live h f" and held: "held_ok (held_refs n) h S f" and ok: "station_ok dims tgt n D S"
    and l: "l < n" and d: "frame_bytes h f = Inr d" "jpeg_frame d"
  shows "\<exists>h' S'. location_frame l f (h, S) = Some (Inr (h', S')) \<and> station_ok dims tgt n D S' \<and> passes (held_refs n) f 1 (h, S) (h', S')"
proof -
  have ok0: "server_ok dims (st_world S)" using ok by (simp add: station_ok_def)
  from jpeg_next_frame_ok [OF ok0 d(2), of l] obtain w where w: "jpeg_next_frame (st_world S) l d = Inr w" "server_ok dims w" by blast
  let ?S = "S\<lparr>st_world := w, st_held := (st_held S)(l := Some f)\<rparr>"
  have "used w = used (st_world S)" using at_layoutD [OF jpeg_next_frame_layout [OF refl] w(1)] by (intro used_layout) simp
  with station_world [OF ok w(2)] have ok': "station_ok dims tgt n D ?S" by (simp add: station_ok_def)
  have hold: "held_refs n ?S g = held_refs n S g - of_bool (st_held S l = Some g) + of_bool (g = f)" for g
    by (rule held_refs_hold [OF l]) simp
  have other: "g \<noteq> f \<Longrightarrow> held_refs n S g = 0 \<Longrightarrow> held_refs n ?S g = 0" for g
    using held_refs_pos [OF l, of S g] by (auto simp: hold)
  show ?thesis
  proof (cases "st_held S l")
    case None
    then have "location_frame l f (h, S) = Some (Inr (h, ?S))"
      by (simp add: location_frame_def d(1) jpeg_frame_tests(1) [OF d(2)] w(1))
    moreover have "passes (held_refs n) f 1 (h, S) (h, ?S)" using wf other by (simp add: passes_def hold None)
    ultimately show ?thesis using ok' by blast
  next
    case (Some g)
    have "0 < held_refs n S g" by (rule held_refs_pos [OF l Some])
    moreover have "held_refs n S g + of_bool (g = f) \<le> refs h g" using held unfolding held_ok_def by blast
    ultimately have "live h g" unfolding refs_pos [OF wf] by (cases "g = f") simp_all
    from unref_frame_ok [OF wf this] obtain h1 where u: "unref_frame h g = Some (Inr h1)" "wf_heap h1"
      "\<And>x. refs h1 x = refs h x - of_bool (x = g)" "keeps_pictures h h1" "\<And>b. blocks h b = None \<Longrightarrow> blocks h1 b = None" by blast
    have "location_frame l f (h, S) = Some (Inr (h1, ?S))"
      by (simp add: location_frame_def d(1) jpeg_frame_tests(1) [OF d(2)] w(1) Some u(1))
    moreover have "passes (held_refs n) f 1 (h, S) (h1, ?S)" using u(2-5) other by (simp add: passes_def hold Some)
    ultimately show ?thesis using ok' by blast
  qed
qed

lemma location_target: "d \<in> D \<Longrightarrow> tgt d = Some (Location l) \<Longrightarrow> \<exists>x\<in>D. \<exists>l. tgt x = Some (Location l)"
  by blast

lemma deliver_to_ok:
  assumes d: "d \<in> D" and wf: "wf_heap h" "live h f" and held: "held_ok (held_refs n) h S f" and ok: "station_ok dims tgt n D S"
    and p: "whole_picture tgt D (picture h f)"
  shows "deliver_to tgt env d f (h, S) \<noteq> None \<and>
    (\<forall>h' S'. deliver_to tgt env d f (h, S) = Some (Inr (h', S')) \<longrightarrow> station_ok dims tgt n D S' \<and> passes (held_refs n) f 1 (h, S) (h', S')) \<and>
    ((\<exists>l. tgt d = Some (Location l)) \<longrightarrow> (\<exists>h' S'. deliver_to tgt env d f (h, S) = Some (Inr (h', S'))))"
proof -
  have t: "case tgt d of None \<Rightarrow> False | Some (Track t) \<Rightarrow> used (st_world S) t | Some (Location l) \<Rightarrow> l < n"
    using ok d unfolding station_ok_def targets_ok_def by blast
  show ?thesis
  proof (cases "tgt d")
    case None
    with t show ?thesis by simp
  next
    case (Some x)
    show ?thesis
    proof (cases x)
      case (Track t')
      with Some t track_frame_ok [OF wf ok, of t' env] show ?thesis by (simp add: deliver_to_def)
    next
      case (Location l)
      with Some have loc: "tgt d = Some (Location l)" by simp
      with t have l: "l < n" by simp
      from whole_bytes [OF p] location_target [of d D tgt l] d loc obtain b where "frame_bytes h f = Inr b" "jpeg_frame b" by blast
      from location_frame_ok [OF wf held ok l this] loc show ?thesis by (auto simp: deliver_to_def)
    qed
  qed
qed

text \<open>Any destinations, and destinations that are all locations.\<close>

definition locations :: "(nat \<Rightarrow> target option) \<Rightarrow> nat set" where
  "locations tgt = {d. \<exists>l. tgt d = Some (Location l)}"

interpretation destinations: sink "deliver_to tgt env" "held_refs n" "station_ok dims tgt n D" D "whole_picture tgt D" for tgt env n dims D
  by unfold_locales (use deliver_to_ok in blast)+

lemma places_succeed:
  assumes "d \<in> locations tgt" "wf_heap h" "live h f" "held_ok (held_refs n) h S f" "station_ok dims tgt n (locations tgt) S"
    "whole_picture tgt (locations tgt) (picture h f)"
  shows "\<exists>h' S'. deliver_to tgt env d f (h, S) = Some (Inr (h', S'))"
proof -
  have "\<exists>l. tgt d = Some (Location l)" using assms(1) by (simp add: locations_def)
  with deliver_to_ok [OF assms, of env] show ?thesis by blast
qed

interpretation places: safe_sink "deliver_to tgt env" "held_refs n" "station_ok dims tgt n (locations tgt)" "locations tgt"
    "whole_picture tgt (locations tgt)" for tgt env n dims
  by unfold_locales (rule places_succeed)

section \<open>The system\<close>

text \<open>
  The camera delivers a picture, the event loop takes a turn for the exchanger, or something else happens
  to the server. A callback of the camera is one step; that it may be interrupted between taking a
  frame and delivering it is in the state machine of \<open>Frame\<close>.
\<close>

datatype capture_event = Camera input_conf video_frame "byte list" | Turn send_env | Elsewhere

definition listens :: "station \<Rightarrow> nat \<Rightarrow> bool" where
  "listens S d = waiting (streams_of (st_world S)) d"

inductive capture_step ::
  "(nat \<Rightarrow> int \<times> int) \<Rightarrow> (nat \<Rightarrow> target option) \<Rightarrow> nat list \<Rightarrow> capture_event \<Rightarrow>
     exchanger \<times> frame_heap \<times> station \<Rightarrow> exchanger \<times> frame_heap \<times> station \<Rightarrow> bool" for dims tgt dl where
  Shot: "blocks h (vf_data vf) = None \<Longrightarrow>
    get_video_frame_cb v vf (ex, h\<lparr>blocks := (blocks h)(vf_data vf := Some bytes)\<rparr>) = Inr (ex', h') \<Longrightarrow>
    capture_step dims tgt dl (Camera v vf bytes) (ex, h, S) (ex', h', S)"
| Loop: "capture_turn listens (deliver_to tgt env) dl s = Some (Inr s') \<Longrightarrow> capture_step dims tgt dl (Turn env) s s'"
| Other: "server_step dims (st_world S) w \<Longrightarrow> capture_step dims tgt dl Elsewhere (ex, h, S) (ex, h, S\<lparr>st_world := w\<rparr>)"

inductive_cases capture_stepE:
  "capture_step dims tgt dl (Camera v vf bytes) s s'" "capture_step dims tgt dl (Turn env) s s'" "capture_step dims tgt dl Elsewhere s s'"

inductive capture_run :: "(nat \<Rightarrow> int \<times> int) \<Rightarrow> (nat \<Rightarrow> target option) \<Rightarrow> nat list \<Rightarrow> capture_event list \<Rightarrow>
     exchanger \<times> frame_heap \<times> station \<Rightarrow> exchanger \<times> frame_heap \<times> station \<Rightarrow> bool" for dims tgt dl where
  Start: "capture_run dims tgt dl [] s s"
| Step: "capture_run dims tgt dl evs s s1 \<Longrightarrow> capture_step dims tgt dl ev s1 s2 \<Longrightarrow> capture_run dims tgt dl (evs @ [ev]) s s2"

text \<open>What the system is from outside: a queue of \<open>N\<close> pictures; a new one is dropped when it is full.\<close>

fun fifo :: "nat \<Rightarrow> (byte list option \<times> int \<times> int \<times> bool \<times> u32) list \<Rightarrow> capture_event \<Rightarrow>
    (byte list option \<times> int \<times> int \<times> bool \<times> u32) list" where
  "fifo N q (Camera v vf bytes) = (if length q < N then q @ [video_picture v vf bytes] else q)"
| "fifo N q (Turn env) = tl q"
| "fifo N q Elsewhere = q"

definition event_ok :: "(nat \<Rightarrow> target option) \<Rightarrow> nat set \<Rightarrow> capture_event \<Rightarrow> bool" where
  "event_ok tgt D ev \<longleftrightarrow> (case ev of Camera v vf bytes \<Rightarrow> whole_picture tgt D (video_picture v vf bytes) | _ \<Rightarrow> True)"

text \<open>
  The state and the queue belong together: the exchanger has \<open>N\<close> frames, the full ones hold the pictures of the
  queue, and every other frame in use is held by one of the \<open>n\<close> locations.
\<close>

definition capture_rel :: "(nat \<Rightarrow> int \<times> int) \<Rightarrow> (nat \<Rightarrow> target option) \<Rightarrow> nat \<Rightarrow> nat set \<Rightarrow> nat \<Rightarrow>
    (byte list option \<times> int \<times> int \<times> bool \<times> u32) list \<Rightarrow> exchanger \<times> frame_heap \<times> station \<Rightarrow> bool" where
  "capture_rel dims tgt n D N q s \<longleftrightarrow> (case s of (ex, h, S) \<Rightarrow> \<exists>ds es.
     cap_ok (held_refs n) (\<lambda>_. 0) ds es (ex, h, S) \<and> map (picture h) ds = q \<and> length ds + length es = N \<and> length (ex_slots ex) = N \<and>
     N + n < length (heap_slots h) \<and> list_all (whole_picture tgt D) q \<and> station_ok dims tgt n D S)"

lemma capture_relE:
  assumes "capture_rel dims tgt n D N q (ex, h, S)"
  obtains ds es where "cap_ok (held_refs n) (\<lambda>_. 0) ds es (ex, h, S)" "q = map (picture h) ds" "length ds + length es = N"
    "length (ex_slots ex) = N" "N + n < length (heap_slots h)" "list_all (whole_picture tgt D) (map (picture h) ds)" "station_ok dims tgt n D S"
  using assms by (auto simp: capture_rel_def)

lemma capture_relI:
  assumes "cap_ok (held_refs n) (\<lambda>_. 0) ds es (ex, h, S)" "map (picture h) ds = q" "length ds + length es = N" "length (ex_slots ex) = N"
    "N + n < length (heap_slots h)" "list_all (whole_picture tgt D) q" "station_ok dims tgt n D S"
  shows "capture_rel dims tgt n D N q (ex, h, S)"
  using assms by (auto simp: capture_rel_def)

text \<open>A frame is always free: the heap is larger than all that can be in use.\<close>

lemma frame_free:
  assumes ok: "cap_ok (held_refs n) (\<lambda>_. 0) ds es (ex, h, S)" and few: "length ds + length es + n < length (heap_slots h)"
  shows "\<exists>g < length (heap_slots h). \<not> live h g"
proof (rule ccontr)
  assume none: "\<not> ?thesis"
  have "{..<length (heap_slots h)} \<subseteq> set (ds @ es) \<union> (\<lambda>l. the (st_held S l)) ` {..<n}"
  proof
    fix g assume "g \<in> {..<length (heap_slots h)}"
    then have "0 < refs h g" using none refs_pos [OF cap_okD(2) [OF ok]] by auto
    then have "g \<in> set (ds @ es) \<or> 0 < held_refs n S g" using cap_okD(6) [OF ok, of g] by (cases "g \<in> set (ds @ es)") auto
    moreover have "\<exists>l<n. st_held S l = Some g" if "0 < held_refs n S g"
      using that by (rule contrapos_pp) (simp add: held_refs_def)
    ultimately show "g \<in> set (ds @ es) \<union> (\<lambda>l. the (st_held S l)) ` {..<n}" by force
  qed
  then have "length (heap_slots h) \<le> card (set (ds @ es) \<union> (\<lambda>l. the (st_held S l)) ` {..<n})"
    using card_mono [of "set (ds @ es) \<union> (\<lambda>l. the (st_held S l)) ` {..<n}" "{..<length (heap_slots h)}"] by simp
  also have "\<dots> \<le> card (set (ds @ es)) + card ((\<lambda>l. the (st_held S l)) ` {..<n})" by (rule card_Un_le)
  also have "\<dots> \<le> length (ds @ es) + n" using card_length [of "ds @ es"] card_image_le [of "{..<n}" "\<lambda>l. the (st_held S l)"] by (intro add_mono) auto
  finally show False using few by simp
qed

section \<open>The beginning\<close>

text \<open>An input gets its frames from the heap before the first picture.\<close>

lemma exchange_empty:
  assumes ok: "cap_ok hold others [] es (ex, h, w)" and room: "length es < length (ex_slots ex)"
    and f: "\<not> live h f" "wf_heap h1" "\<And>g. refs h1 g = refs h g + of_bool (g = f)" "keeps_pictures h h1" "fr_d (frames h1 f) = None"
  shows "cap_ok hold others [] (es @ [f]) (fst (exchange_frame ex f), h1, w)"
proof -
  note C = cap_okD [OF ok]
  have "refs h f = 0" using f(1) by (simp add: refs_def)
  with no_references [OF C(5,4), of f f "f \<in> set es"] C(6) [of f] have nf: "others f = 0 \<and> hold w f = 0 \<and> f \<notin> set es" by simp
  have "ex_rel (fst (exchange_frame ex f)) ([], False, es @ [f])" using ex_exchange(1) [OF C(1)] room by simp
  moreover have "refs h1 g = others g + hold w g + of_bool (g \<in> set (es @ [f]))" for g
    using C(6) [of g] f(3) nf by (cases "g = f") simp_all
  moreover have "fr_d (frames h1 g) = None" if "g \<in> set (es @ [f])" for g
  proof (cases "g = f")
    case False
    with that have g: "g \<in> set es" by simp
    then have "live h g" using cap_ok_live [OF ok] by simp
    moreover from this have "live h1 g" using refs_pos [OF C(2)] refs_pos [OF f(2)] f(3) [of g] False by simp
    ultimately show ?thesis using C(9) [OF g] f(4) by (simp add: keeps_pictures_def)
  qed (simp add: f(5))
  ultimately show ?thesis using C(3-5,7,8) f(2) nf by (auto simp: cap_ok_def)
qed

lemma fill_exchanger_ok:
  assumes "cap_ok (held_refs n) (\<lambda>_. 0) [] es (ex, h, S)" "length es + k \<le> length (ex_slots ex)" "length es + k + n < length (heap_slots h)"
  shows "\<exists>ex' h' es'. fill_exchanger k ex h = Inr (ex', h') \<and> cap_ok (held_refs n) (\<lambda>_. 0) [] es' (ex', h', S) \<and> length es' = length es + k \<and>
    length (ex_slots ex') = length (ex_slots ex) \<and> length (heap_slots h') = length (heap_slots h)"
  using assms
proof (induction k arbitrary: es ex h)
  case (Suc k)
  note C = cap_okD [OF Suc.prems(1)]
  have "\<exists>g < length (heap_slots h). \<not> live h g" by (rule frame_free [OF Suc.prems(1)]) (use Suc.prems(3) in simp)
  from new_frame_ok(1) [OF C(2) this] obtain h1 f where f: "new_frame h = Some (h1, Some f)" "\<not> live h f" "wf_heap h1"
    "\<And>g. refs h1 g = refs h g + of_bool (g = f)" "keeps_pictures h h1" "fr_d (frames h1 f) = None" by blast
  let ?ex = "fst (exchange_frame ex f)"
  have "length es < length (ex_slots ex)" using Suc.prems(2) by simp
  note c1 = exchange_empty [OF Suc.prems(1) this f(2-6)]
  have l: "length (ex_slots ?ex) = length (ex_slots ex)" by (simp add: exchange_frame_def)
  moreover have "length (heap_slots h1) = length (heap_slots h)" using f(5) by (simp add: keeps_pictures_def)
  ultimately have "\<exists>ex' h' es'. fill_exchanger k ?ex h1 = Inr (ex', h') \<and> cap_ok (held_refs n) (\<lambda>_. 0) [] es' (ex', h', S) \<and>
    length es' = length es + Suc k \<and> length (ex_slots ex') = length (ex_slots ex) \<and> length (heap_slots h') = length (heap_slots h)"
    using Suc.IH [OF c1] Suc.prems(2,3) by simp
  moreover have "exchange_ptr ex (Some f) = exchange_frame ex f" by (simp add: exchange_ptr_def exchange_frame_def)
  ultimately show ?case by (simp add: f(1))
qed auto

lemma capture_start:
  assumes h0: "init_frame_heap sz H = Inr h0" and ex0: "new_exchanger N = Inr ex0" and few: "N + n < H"
    and S: "station_ok dims tgt n D S" "st_held S = (\<lambda>_. None)"
  shows "\<exists>ex h. fill_exchanger N ex0 h0 = Inr (ex, h) \<and> capture_rel dims tgt n D N [] (ex, h, S)"
proof -
  have "0 < H" using few by simp
  from init_frame_heap_wf [OF this, of sz] h0 have h: "wf_heap h0" "free_list h0 = [0..<H]" "length (heap_slots h0) = H"
    by (auto simp: init_frame_heap_def split: if_splits)
  have N: "0 < N" using ex0 by (auto simp: new_exchanger_def split: if_splits)
  from ex_rel_new [OF this] ex0 have ex: "ex_rel ex0 ([], False, [])" "length (ex_slots ex0) = N" by auto
  have "refs h0 g = 0" for g using h by (simp add: refs_def live_def)
  moreover have "held_refs n S g = 0" for g by (simp add: held_refs_def S(2))
  ultimately have "cap_ok (held_refs n) (\<lambda>_. 0) [] [] (ex0, h0, S)" using h(1) ex(1) by (simp add: cap_ok_def)
  from fill_exchanger_ok [OF this, of N] ex(2) h(3) few obtain ex h es where r: "fill_exchanger N ex0 h0 = Inr (ex, h)"
    "cap_ok (held_refs n) (\<lambda>_. 0) [] es (ex, h, S)" "length es = N" "length (ex_slots ex) = N" "length (heap_slots h) = H" by auto
  have "capture_rel dims tgt n D N [] (ex, h, S)" by (rule capture_relI [OF r(2)]) (use r few S(1) in simp_all)
  with r(1) show ?thesis by blast
qed

section \<open>Every event\<close>

lemma camera_ok:
  assumes rel: "capture_rel dims tgt n D N q (ex, h, S)" and b: "blocks h (vf_data vf) = None" and p: "whole_picture tgt D (video_picture v vf bytes)"
  shows "\<exists>ex' h'. get_video_frame_cb v vf (ex, h\<lparr>blocks := (blocks h)(vf_data vf := Some bytes)\<rparr>) = Inr (ex', h') \<and>
    capture_rel dims tgt n D N (fifo N q (Camera v vf bytes)) (ex', h', S)"
  using rel
proof (cases rule: capture_relE)
  case (1 ds es)
  show ?thesis
  proof (cases es)
    case Nil
    with 1 camera_dropped [OF _ b, of "held_refs n" "\<lambda>_. 0" ds ex S v bytes] rel show ?thesis by simp
  next
    case (Cons e es')
    from camera_queued [OF 1(1) [unfolded Cons] b, of v bytes] obtain ex' h' where
      r: "get_video_frame_cb v vf (ex, h\<lparr>blocks := (blocks h)(vf_data vf := Some bytes)\<rparr>) = Inr (ex', h')"
        "cap_ok (held_refs n) (\<lambda>_. 0) (ds @ [e]) es' (ex', h', S)"
        "map (picture h') (ds @ [e]) = map (picture h) ds @ [video_picture v vf bytes]"
        "length (ex_slots ex') = length (ex_slots ex)" "length (heap_slots h') = length (heap_slots h)" by blast
    have "capture_rel dims tgt n D N (fifo N q (Camera v vf bytes)) (ex', h', S)"
      by (rule capture_relI [OF r(2)]) (use 1 Cons r(3-5) p in simp_all)
    with r(1) show ?thesis by blast
  qed
qed

lemma loop_ok:
  assumes rel: "capture_rel dims tgt n D N q (ex, h, S)" and dl: "set dl \<subseteq> D"
  shows "capture_turn wt (deliver_to tgt env) dl (ex, h, S) \<noteq> None \<and>
    (\<forall>s'. capture_turn wt (deliver_to tgt env) dl (ex, h, S) = Some (Inr s') \<longrightarrow> capture_rel dims tgt n D N (tl q) s')"
  using rel
proof (cases rule: capture_relE)
  case (1 ds es)
  show ?thesis
  proof (cases ds)
    case Nil
    have "capture_turn wt (deliver_to tgt env) dl (ex, h, S) = Some (Inr (ex, h, S))" by (rule turn_idle [OF 1(1) [unfolded Nil]])
    with Nil 1(2) rel show ?thesis by simp
  next
    case (Cons d ds')
    then have "whole_picture tgt D (picture h d)" using 1(6) by simp
    note T = destinations.turn_ok [OF 1(1) [unfolded Cons] dl 1(7) this, of wt env]
    have free: "\<exists>g < length (heap_slots h). \<not> live h g" by (rule frame_free [OF 1(1)]) (use 1(3,5) in simp)
    have "capture_rel dims tgt n D N (tl q) s'" if "capture_turn wt (deliver_to tgt env) dl (ex, h, S) = Some (Inr s')" for s'
    proof -
      obtain ex' h' S' where s': "s' = (ex', h', S')" by (cases s')
      from T that free obtain new where new: "cap_ok (held_refs n) (\<lambda>_. 0) ds' (es @ new) (ex', h', S')" "map (picture h') ds' = map (picture h) ds'"
        "length (ex_slots ex') = length (ex_slots ex)" "length (heap_slots h') = length (heap_slots h)" "station_ok dims tgt n D S'" "length new = 1"
        unfolding s' by blast
      show ?thesis unfolding s' by (rule capture_relI [OF new(1)]) (use 1 Cons new(2-6) in simp_all)
    qed
    with T show ?thesis by blast
  qed
qed

lemma other_ok:
  assumes "capture_rel dims tgt n D N q (ex, h, S)" "server_step dims (st_world S) w"
  shows "capture_rel dims tgt n D N q (ex, h, S\<lparr>st_world := w\<rparr>)"
  using assms(1)
proof (cases rule: capture_relE)
  case (1 ds es)
  have "server_ok dims (st_world S)" using 1(7) by (simp add: station_ok_def)
  from station_world [OF 1(7) server_step_ok [OF assms(2) this] server_step_used [OF assms(2)]]
  have "station_ok dims tgt n D (S\<lparr>st_world := w\<rparr>)" .
  moreover have "cap_ok (held_refs n) (\<lambda>_. 0) ds es (ex, h, S\<lparr>st_world := w\<rparr>)" using 1(1) by (simp add: cap_ok_def)
  ultimately show ?thesis using 1(2-6) by (intro capture_relI) simp_all
qed

lemma capture_step_ok:
  assumes step: "capture_step dims tgt dl ev s s'" and rel: "capture_rel dims tgt n D N q s" and D: "set dl \<subseteq> D" "event_ok tgt D ev"
  shows "capture_rel dims tgt n D N (fifo N q ev) s'"
  using step
proof cases
  case (Shot h vf v ex bytes ex' h' S)
  with camera_ok [of dims tgt n D N q ex h S vf v bytes] rel D(2) show ?thesis by (auto simp: event_ok_def)
next
  case (Loop env)
  obtain ex h S where s: "s = (ex, h, S)" by (cases s)
  with loop_ok [of dims tgt n D N q ex h S dl listens env] rel D(1) Loop show ?thesis by (cases s') simp
next
  case (Other S w ex h)
  with other_ok rel show ?thesis by auto
qed

lemma capture_run_ok:
  "capture_run dims tgt dl evs s s' \<Longrightarrow> capture_rel dims tgt n D N q s \<Longrightarrow> set dl \<subseteq> D \<Longrightarrow> list_all (event_ok tgt D) evs \<Longrightarrow>
    capture_rel dims tgt n D N (foldl (fifo N) q evs) s'"
  by (induction rule: capture_run.induct) (auto intro: capture_step_ok)

section \<open>What the locations show\<close>

lemma send_to_streams_only: "send_to_streams w l hs = Inr w' \<Longrightarrow> w' = w\<lparr>conns := conns w'\<rparr>"
proof (induction hs arbitrary: w)
  case (Cons h hs)
  then obtain c C where "send_to_streams (upd_conn c C w) l hs = Inr w'" by (auto simp: bindE_eq_Inr split: option.splits)
  from Cons.IH [OF this] show ?case by (cases w; cases w') simp
qed simp

lemma location_frame_shows:
  assumes r: "location_frame l f (h, S) = Some (Inr (h', S'))" and d: "frame_bytes h f = Inr b" "jpeg_frame b"
  shows "st_held S' = (st_held S)(l := Some f)" "streams_of (st_world S') = streams_of (st_world S)"
    "hl_frame (http_locs (st_world S') k) = (if k = l then Some b else hl_frame (http_locs (st_world S) k))"
proof -
  from r obtain w where w: "jpeg_next_frame (st_world S) l b = Inr w" "S' = S\<lparr>st_world := w, st_held := (st_held S)(l := Some f)\<rparr>"
    by (auto simp: location_frame_def d(1) jpeg_frame_tests(1) [OF d(2)] bindE_eq_Inr)
  let ?J = "\<lambda>j. (st_world S)\<lparr>http_locs := (http_locs (st_world S))(l := (http_locs (st_world S) l)\<lparr>hl_frame := Some b, hl_jfif := j\<rparr>)\<rparr>"
  from w(1) obtain j hs where "send_to_streams (?J j) l hs = Inr w"
    by (auto simp: jpeg_next_frame_def jpeg_frame_tests(1) [OF d(2)] bindE_eq_Inr Let_def)
  from send_to_streams_only [OF this] have "http_locs w = http_locs (?J j)" "streams_of w = streams_of (?J j)"
    by (metis world.select_convs world.surjective world.update_convs)+
  then show "st_held S' = (st_held S)(l := Some f)" "streams_of (st_world S') = streams_of (st_world S)"
    "hl_frame (http_locs (st_world S') k) = (if k = l then Some b else hl_frame (http_locs (st_world S) k))"
    by (simp_all add: w(2))
qed

lemma frame_bytes_picture: "picture h' f = picture h f \<Longrightarrow> frame_bytes h' f = frame_bytes h f"
  by (simp add: picture_def frame_bytes_def Let_def)

definition shows_frame :: "station \<Rightarrow> nat \<Rightarrow> nat \<Rightarrow> byte list \<Rightarrow> bool" where
  "shows_frame S l f b \<longleftrightarrow> st_held S l = Some f \<and> hl_frame (http_locs (st_world S) l) = Some b"

lemma deliver_dests_shows:
  assumes "set dl \<subseteq> locations tgt" "wf_heap h" "live h f" "held_ok (held_refs n) h S f" "station_ok dims tgt n (locations tgt) S"
    "whole_picture tgt (locations tgt) (picture h f)" "frame_bytes h f = Inr b"
    "deliver_dests listens (deliver_to tgt env) f dl (h, S) = Some (Inr (h', S'))"
  shows "(\<forall>d\<in>set dl. \<forall>l. tgt d = Some (Location l) \<and> listens S d \<longrightarrow> shows_frame S' l f b) \<and> (\<forall>l. shows_frame S l f b \<longrightarrow> shows_frame S' l f b)"
  using assms
proof (induction dl arbitrary: h S)
  case (Cons d ds)
  have ds: "set ds \<subseteq> locations tgt" "d \<in> locations tgt" using Cons.prems(1) by simp_all
  show ?case
  proof (cases "listens S d")
    case False
    with Cons.IH [OF ds(1) Cons.prems(2-7)] Cons.prems(8) show ?thesis by auto
  next
    case True
    note R = ref_frame_ok [OF Cons.prems(2,3)]
    from ds(2) obtain l where l: "tgt d = Some (Location l)" by (auto simp: locations_def)
    from Cons.prems(8) True obtain h1 S1 where p: "deliver_to tgt env d f (ref_frame h f, S) = Some (Inr (h1, S1))"
      "deliver_dests listens (deliver_to tgt env) f ds (h1, S1) = Some (Inr (h', S'))" by (auto split: option.splits sum.splits)
    have "picture (ref_frame h f) f = picture h f" using R(3,4) Cons.prems(3) by (simp add: keeps_pictures_def)
    from frame_bytes_picture [OF this] have b: "frame_bytes (ref_frame h f) f = Inr b" using Cons.prems(7) by simp
    from whole_bytes [OF Cons.prems(6)] Cons.prems(7) ds(2) l have jb: "jpeg_frame b" by auto
    note sh = location_frame_shows [OF _ b jb, of l S h1 S1]
    have loc: "location_frame l f (ref_frame h f, S) = Some (Inr (h1, S1))" using p(1) l by (simp add: deliver_to_def)
    have "deliver_dests listens (deliver_to tgt env) f [d] (h, S) = Some (Inr (h1, S1))" using True p(1) by simp
    with destinations.deliver_dests_ok [OF _ Cons.prems(2-6), of "[d]" listens env] ds(2)
    have a: "station_ok dims tgt n (locations tgt) S1" "passes (held_refs n) f 0 (h, S) (h1, S1)" "live h1 f" "held_ok (held_refs n) h1 S1 f"
      by simp_all
    then have k: "wf_heap h1" "picture h1 f = picture h f" using Cons.prems(3) by (simp_all add: passes_def keeps_pictures_def)
    have IH: "(\<forall>d\<in>set ds. \<forall>l. tgt d = Some (Location l) \<and> listens S1 d \<longrightarrow> shows_frame S' l f b) \<and> (\<forall>l. shows_frame S1 l f b \<longrightarrow> shows_frame S' l f b)"
      by (rule Cons.IH [OF ds(1) k(1) a(3,4,1) _ _ p(2)]) (use Cons.prems(6,7) k(2) frame_bytes_picture [OF k(2)] in simp_all)
    have "listens S1 = listens S" using sh(2) [OF loc] by (simp add: fun_eq_iff listens_def)
    moreover have "shows_frame S1 k f b" if "k = l \<or> shows_frame S k f b" for k
      using that sh(1,3) [OF loc] by (auto simp: shows_frame_def)
    ultimately show ?thesis using IH l by auto
  qed
qed simp

lemma locations_served:
  assumes rel: "capture_rel dims tgt n (locations tgt) N (p # q) (ex, h, S)" and dl: "set dl \<subseteq> locations tgt"
  shows "\<exists>ex' h' S' b m r f. capture_turn listens (deliver_to tgt env) dl (ex, h, S) = Some (Inr (ex', h', S')) \<and> p = (Some b, m, r) \<and>
    (\<forall>d\<in>set dl. \<forall>l. tgt d = Some (Location l) \<and> listens S d \<longrightarrow> shows_frame S' l f (take (nat m) b))"
  using rel
proof (cases rule: capture_relE)
  case (1 ds es)
  then obtain d ds' where Cons: "ds = d # ds'" "p = picture h d" by (cases ds) auto
  have w: "whole_picture tgt (locations tgt) (picture h d)" using 1(6) Cons(1) by simp
  note ok = 1(1) [unfolded Cons(1)]
  from places.turn_succeeds [OF ok dl 1(7) w, of listens env] obtain ex' h' S' where
    r: "capture_turn listens (deliver_to tgt env) dl (ex, h, S) = Some (Inr (ex', h', S'))" by blast
  from ok show ?thesis
  proof (cases rule: turn_cases)
    case (room ex1 h1 f)
    have k: "picture h1 d = picture h d" using room(6,9) cap_ok_live [OF ok, of d] by (simp add: keeps_pictures_def)
    from w obtain b m x where p: "picture h d = (Some b, m, x)" "0 \<le> m" "nat m \<le> length b"
      by (auto simp: whole_picture_def split: option.splits)
    have "frame_bytes h1 d = Inr (take (nat m) b)"
      using p unfolding frame_bytes_picture [OF k] by (simp add: picture_def frame_bytes_def Let_def)
    note sh = deliver_dests_shows [OF dl room(4,9,10) 1(7) _ this, of env]
    from r obtain h3 where "deliver_frame_to_stream listens (deliver_to tgt env) d dl (h1, S) = Some (Inr (h3, S'))"
      unfolding room(11) map_result_Inr by auto
    then obtain h2 where "deliver_dests listens (deliver_to tgt env) d dl (h1, S) = Some (Inr (h2, S'))"
      by (auto simp: map_sum_Inr deliver_frame_to_stream_def split: option.splits sum.splits)
    with sh w k have "\<forall>x\<in>set dl. \<forall>l. tgt x = Some (Location l) \<and> listens S x \<longrightarrow> shows_frame S' l d (take (nat m) b)" by simp
    with r p(1) Cons(2) show ?thesis by blast
  next
    case (full ex1 h1)
    with frame_free [OF 1(1)] 1(3,5) show ?thesis by auto
  qed
qed

section \<open>From the camera to the clients\<close>

definition new_station :: "world \<Rightarrow> station" where
  "new_station w = \<lparr>st_world = w, st_held = (\<lambda>_. None)\<rparr>"

lemma new_station_ok: "server_ok dims w \<Longrightarrow> targets_ok tgt n D w \<Longrightarrow> station_ok dims tgt n D (new_station w)"
  by (simp add: station_ok_def new_station_def)

lemma camera_started:
  assumes "init_frame_heap sz H = Inr h0" "new_exchanger N = Inr ex0" "N + n < H" "server_ok dims w0" "targets_ok tgt n D w0"
  shows "\<exists>ex h. fill_exchanger N ex0 h0 = Inr (ex, h) \<and> capture_rel dims tgt n D N [] (ex, h, new_station w0)"
  using capture_start [OF assms(1-3) new_station_ok [OF assms(4,5)]] by (simp add: new_station_def)

text \<open>
  C2. An input with \<open>N\<close> frames and at most \<open>n\<close> HTTP locations, in a program whose heap has more than \<open>N + n\<close>
  frames, is a bounded queue of pictures. The camera delivers whole pictures: the block has the bytes that the
  length names, and when there are locations they are a JPEG picture (\<open>jpeg_frame\<close>: the bytes FF D8 FF and
  at least eight more, less than 2^30 in all). Then through
  every sequence of such pictures, turns of the event loop that return without a fault, and events of the
  server (\<open>server_step\<close>): the pictures that wait are the ones that came and have not left, in their order
  and unchanged, except that a picture which arrives while \<open>N\<close> are waiting is dropped (\<open>fifo\<close>). Every frame is in
  the exchanger once or has exactly the references that locations hold, so none is lost or shared. The
  server stays well-formed, and the next turn of the loop does not hang.
\<close>

theorem capture_is_queue:
  assumes "init_frame_heap sz H = Inr h0" "new_exchanger N = Inr ex0" "N + n < H"
    and "server_ok dims w0" "targets_ok tgt n (set dl) w0" "list_all (event_ok tgt (set dl)) evs"
  shows "\<exists>ex h. fill_exchanger N ex0 h0 = Inr (ex, h) \<and>
    (\<forall>ex' h' S'. capture_run dims tgt dl evs (ex, h, new_station w0) (ex', h', S') \<longrightarrow>
       server_ok dims (st_world S') \<and>
       (\<exists>ds es. ex_rel ex' (ds, False, es) \<and> distinct (ds @ es) \<and> length (ds @ es) = N \<and>
          map (picture h') ds = foldl (fifo N) [] evs \<and> (\<forall>g. refs h' g = held_refs n S' g + of_bool (g \<in> set (ds @ es)))) \<and>
       capture_turn listens (deliver_to tgt env) dl (ex', h', S') \<noteq> None)"
proof -
  from camera_started [OF assms(1-5)] obtain ex h where start: "fill_exchanger N ex0 h0 = Inr (ex, h)"
    "capture_rel dims tgt n (set dl) N [] (ex, h, new_station w0)" by blast
  have "server_ok dims (st_world S') \<and>
       (\<exists>ds es. ex_rel ex' (ds, False, es) \<and> distinct (ds @ es) \<and> length (ds @ es) = N \<and>
          map (picture h') ds = foldl (fifo N) [] evs \<and> (\<forall>g. refs h' g = held_refs n S' g + of_bool (g \<in> set (ds @ es)))) \<and>
       capture_turn listens (deliver_to tgt env) dl (ex', h', S') \<noteq> None"
    if "capture_run dims tgt dl evs (ex, h, new_station w0) (ex', h', S')" for ex' h' S'
  proof -
    from capture_run_ok [OF that start(2) order.refl assms(6)] have rel: "capture_rel dims tgt n (set dl) N (foldl (fifo N) [] evs) (ex', h', S')" .
    then show ?thesis
    proof (cases rule: capture_relE)
      case (1 ds es)
      note C = cap_okD [OF 1(1)]
      from 1(7) have "server_ok dims (st_world S')" by (simp add: station_ok_def)
      with loop_ok [OF rel order.refl, of listens env] C(1,3,6) 1(2,3) show ?thesis
        by (intro conjI exI [of _ ds] exI [of _ es]) simp_all
    qed
  qed
  with start(1) show ?thesis by blast
qed

text \<open>
  C26. A camera whose destinations are all HTTP locations, at most \<open>n\<close> of them, with \<open>N\<close> frames of a heap of
  more than \<open>N + n\<close>: after any sequence of whole JPEG pictures (\<open>jpeg_frame\<close>), turns of the loop and
  events of the server that leaves a picture waiting, the next turn of the event loop succeeds, and then
  every location that waits for frames holds the frame of the oldest waiting picture, whose bytes are
  those that the camera delivered.
\<close>

theorem locations_show_pictures:
  assumes "init_frame_heap sz H = Inr h0" "new_exchanger N = Inr ex0" "N + n < H"
    and "server_ok dims w0" "targets_ok tgt n (locations tgt) w0" "list_all (event_ok tgt (locations tgt)) evs" "set dl \<subseteq> locations tgt"
    and "fill_exchanger N ex0 h0 = Inr (ex, h)" "capture_run dims tgt dl evs (ex, h, new_station w0) (ex', h', S')"
    and "foldl (fifo N) [] evs = p # q"
  shows "\<exists>ex2 h2 S2 b m r f. capture_turn listens (deliver_to tgt env) dl (ex', h', S') = Some (Inr (ex2, h2, S2)) \<and>
    p = (Some b, m, r) \<and> (\<forall>d\<in>set dl. \<forall>l. tgt d = Some (Location l) \<and> listens S' d \<longrightarrow> shows_frame S2 l f (take (nat m) b))"
proof -
  from camera_started [OF assms(1-5)] assms(8) have "capture_rel dims tgt n (locations tgt) N [] (ex, h, new_station w0)" by auto
  from capture_run_ok [OF assms(9) this assms(7,6)] have "capture_rel dims tgt n (locations tgt) N (p # q) (ex', h', S')"
    using assms(10) by simp
  from locations_served [OF this assms(7)] show ?thesis .
qed

definition demo_camera :: input_conf where
  "demo_camera = (new_input 0)\<lparr>in_format := FORMAT_JPEG\<rparr>"

definition demo_shot :: video_frame where
  "demo_shot = \<lparr>vf_data = 0, vf_len = 11, vf_keyframe = True, vf_tick = 0\<rparr>"

lemma demo_whole: "whole_picture tgt D (video_picture demo_camera demo_shot demo_picture)"
  using demo_picture_frame(1) by (simp add: whole_picture_def video_picture_def demo_shot_def) (simp add: demo_picture_def)

lemma capture_is_queue_witness:
  "\<forall>env. \<exists>h0 ex0 ex h. init_frame_heap 0 3 = Inr h0 \<and> new_exchanger 1 = Inr ex0 \<and> fill_exchanger 1 ex0 h0 = Inr (ex, h) \<and>
    (\<forall>ex' h' S'. capture_run (\<lambda>_. (0, 0)) [1 \<mapsto> Track 0] [1] [Camera demo_camera demo_shot demo_picture, Turn env, Elsewhere]
        (ex, h, new_station demo_server) (ex', h', S') \<longrightarrow>
      capture_turn listens (deliver_to [1 \<mapsto> Track 0] env) [1] (ex', h', S') \<noteq> None)" (is "\<forall>env. ?P env")
proof
  fix env
  obtain h0 ex0 where start: "init_frame_heap 0 3 = Inr h0" "new_exchanger 1 = Inr ex0"
    by (simp add: init_frame_heap_def new_exchanger_def)
  have "used demo_server 0" unfolding used_def by (rule exI [of _ 0]) (simp add: demo_server_def demo_sending_def demo_world_def)
  then have t: "targets_ok [1 \<mapsto> Track 0] 1 (set [1]) demo_server" by (simp add: targets_ok_def)
  have e: "list_all (event_ok [1 \<mapsto> Track 0] (set [1])) [Camera demo_camera demo_shot demo_picture, Turn env, Elsewhere]"
    using demo_whole by (simp add: event_ok_def)
  from capture_is_queue [OF start _ demo_server_ok t e, of env] start show "?P env" by auto
qed

lemma locations_show_pictures_witness:
  "\<forall>env. \<exists>w d ex h ex' h' S' ex2 h2 S2 f. capture_run (\<lambda>_. (0, 0)) [d \<mapsto> Location 0] [d] [Camera demo_camera demo_shot demo_picture]
      (ex, h, new_station w) (ex', h', S') \<and>
    capture_turn listens (deliver_to [d \<mapsto> Location 0] env) [d] (ex', h', S') = Some (Inr (ex2, h2, S2)) \<and>
    shows_frame S2 0 f demo_picture" (is "\<forall>env. ?P env")
proof
  fix env
  obtain w where w: "server_ok (\<lambda>_. (0, 0)) w" "waiting (streams_of w) (lt_dest (tracks w 0))" using demo_playing by metis
  define d where "d = lt_dest (tracks w 0)"
  let ?tgt = "[d \<mapsto> Location 0]" and ?evs = "[Camera demo_camera demo_shot demo_picture]"
  obtain h0 ex0 where start: "init_frame_heap 0 3 = Inr h0" "new_exchanger 1 = Inr ex0"
    by (simp add: init_frame_heap_def new_exchanger_def)
  have loc: "locations ?tgt = {d}" by (auto simp: locations_def)
  have t: "targets_ok ?tgt 1 (locations ?tgt) w" unfolding loc by (simp add: targets_ok_def)
  have e: "list_all (event_ok ?tgt (locations ?tgt)) ?evs" using demo_whole by (simp add: event_ok_def)
  from camera_started [OF start _ w(1) t] obtain ex h where f: "fill_exchanger 1 ex0 h0 = Inr (ex, h)"
    and rel: "capture_rel (\<lambda>_. (0, 0)) ?tgt 1 (locations ?tgt) 1 [] (ex, h, new_station w)" by auto
  have "\<forall>b. blocks h0 b = None" using start(1) by (auto simp: init_frame_heap_def)
  moreover have "blocks h = blocks h0" using f start(2) by (auto simp: new_frame_def upd_frame_def split: option.splits if_splits)
  ultimately have "blocks h (vf_data demo_shot) = None" by simp
  from camera_ok [OF rel this demo_whole] this obtain ex' h' where
    "capture_step (\<lambda>_. (0, 0)) ?tgt [d] (Camera demo_camera demo_shot demo_picture) (ex, h, new_station w) (ex', h', new_station w)"
    by (blast intro: capture_step.Shot)
  from capture_run.Step [OF capture_run.Start this] have run: "capture_run (\<lambda>_. (0, 0)) ?tgt [d] ?evs (ex, h, new_station w)
    (ex', h', new_station w)" by simp
  have q: "foldl (fifo 1) [] ?evs = [video_picture demo_camera demo_shot demo_picture]" by simp
  have "listens (new_station w) d" using w(2) by (simp add: listens_def new_station_def d_def)
  moreover have "take (nat (vf_len demo_shot)) demo_picture = demo_picture" by (simp add: demo_shot_def demo_picture_def)
  ultimately show "?P env"
    using locations_show_pictures [OF start _ w(1) t e _ f run q, of env] loc run by (fastforce simp: video_picture_def)
qed

end
