(* ===== verification/Wifi.thy ===== *)
theory Wifi
  imports Config
begin

text \<open>
  \<open>wireless_check.c\<close>: the thread that watches the wireless link of the camera. While some client reports
  losses, or while the server has stopped sending, it asks the driver for the quality of the signal, joins the
  network again, and moves to an access point with a better signal. The answers of the driver are arguments;
  the commands for \<open>iwpriv\<close> and \<open>iwconfig\<close> are the result.
\<close>

section \<open>The driver\<close>

text \<open>A \<open>long\<close> has 32 bits on the targets.\<close>

definition TIME_LESS :: "u32 \<Rightarrow> u32 \<Rightarrow> bool" where
  "TIME_LESS a b \<longleftrightarrow> sint (a - b) < 0"

text \<open>What \<open>get_info\<close> finds out; \<open>None\<close> is its failure. \<open>q_dbm\<close> and \<open>q_invalid\<close> are bits of \<open>qual->updated\<close>.\<close>

record wireless_info =
  has_ap_addr :: bool
  has_essid :: bool
  has_stats :: bool
  has_range :: bool
  q_level :: byte
  q_dbm :: bool
  q_invalid :: bool
  q_qual :: byte

definition get_wifi_signal_quality :: "wireless_info option \<Rightarrow> int" where
  "get_wifi_signal_quality info =
     (case info of
        None \<Rightarrow> 0
      | Some w \<Rightarrow>
          if has_ap_addr w \<and> has_essid w \<and> has_stats w \<and> has_range w \<and> (q_level w \<noteq> 0 \<or> q_dbm w) \<and> \<not> q_invalid w
          then uint (q_qual w) else 0)"

subsection \<open>Looking for access points\<close>

record RT_AP_INFO =
  bssid :: "byte list"
  ssid :: string
  rssi :: byte

text \<open>The loop over the results: the index of the best one, which is not initialised, its signal, and that of the current one.\<close>

fun choose_ap :: "string \<Rightarrow> byte list \<Rightarrow> nat \<Rightarrow> RT_AP_INFO list \<Rightarrow> nat option \<times> int \<times> int \<Rightarrow> nat option \<times> int \<times> int" where
  "choose_ap name addr i [] s = s"
| "choose_ap name addr i (a # as) (best, signal, cur) =
     choose_ap name addr (i + 1) as
       (if ssid a \<noteq> name then (best, signal, cur)
        else let cur = (if bssid a = addr then uint (rssi a) else cur)
             in if signal \<le> uint (rssi a) then (Some i, uint (rssi a), cur) else (best, signal, cur))"

definition better_ap :: "string \<Rightarrow> byte list \<Rightarrow> int \<Rightarrow> RT_AP_INFO list \<Rightarrow> (byte list \<times> bool) cres" where
  "better_ap name addr diff aps =
     (case choose_ap name addr 0 aps (None, -256, -256) of
        (best, signal, cur) \<Rightarrow>
          if cur + diff < signal then (case best of None \<Rightarrow> Inl Fault | Some i \<Rightarrow> Inr (bssid (aps ! i), True))
          else Inr (addr, False))"

text \<open>
  The driver is asked for the results of a scan again and again: they may be too long for the buffer, and the
  driver says how long, or not be there yet. \<open>timeout\<close> counts microseconds; \<open>None\<close> when the answers run out.
\<close>

datatype scan_answer = Results "RT_AP_INFO list" | Too_Big nat | Not_Yet | Scan_Failed | No_Memory

fun read_scan :: "nat \<Rightarrow> int \<Rightarrow> nat \<Rightarrow> scan_answer list \<Rightarrow> (int + RT_AP_INFO list) option" where
  "read_scan version timeout buflen [] = None"
| "read_scan version timeout buflen (a # as) =
     (case a of
        No_Memory \<Rightarrow> Some (Inl (-1))
      | Results aps \<Rightarrow> Some (Inr aps)
      | Too_Big n \<Rightarrow>
          if 16 < version then read_scan version timeout (if buflen < n then n else buflen * 2) as else Some (Inl (-2))
      | Not_Yet \<Rightarrow> if 0 < timeout - 100000 then read_scan version (timeout - 100000) buflen as else Some (Inl (-2))
      | Scan_Failed \<Rightarrow> Some (Inl (-2)))"

datatype scan_start = Started | Not_Permitted | Refused

record scan_env =
  sc_version :: "nat option"
  sc_start :: scan_start
  sc_answers :: "scan_answer list"

definition IW_SCAN_MAX_DATA :: nat where "IW_SCAN_MAX_DATA = 4096"

definition get_bestap_by_ssid :: "scan_env \<Rightarrow> byte list \<Rightarrow> string \<Rightarrow> int \<Rightarrow> (byte list \<times> int) cres option" where
  "get_bestap_by_ssid S addr name diff =
     (case sc_version S of
        None \<Rightarrow> Some (Inr (addr, -1))
      | Some version \<Rightarrow>
          if version < 14 \<or> sc_start S = Refused then Some (Inr (addr, -1))
          else map_option (\<lambda>r. case r of
                   Inl ret \<Rightarrow> Inr (addr, ret)
                 | Inr aps \<Rightarrow> bindE (better_ap name addr diff aps) (\<lambda>(addr, found). Inr (addr, if found then 1 else 0)))
                 (read_scan version (15000000 - (if sc_start S = Started then 250000 else 0)) IW_SCAN_MAX_DATA (sc_answers S)))"

section \<open>The check\<close>

text \<open>\<open>g_bStopSend\<close>, \<open>g_bChkWirelessLink\<close>, \<open>nCurChkTimes\<close> and \<open>nNextChkTime\<close>.\<close>

record link =
  stop_send :: bool
  chk_link :: bool
  chk_times :: int
  next_chk :: u32

definition begin_wireless_check :: "link \<Rightarrow> link" where
  "begin_wireless_check L = L\<lparr>chk_link := True\<rparr>"

definition end_wireless_check :: "link \<Rightarrow> link" where
  "end_wireless_check L = L\<lparr>chk_link := False\<rparr>"

definition init_wireless_check :: "u32 \<Rightarrow> link" where
  "init_wireless_check now = \<lparr>stop_send = False, chk_link = False, chk_times = 0, next_chk = now\<rparr>"

text \<open>What a round finds: the time before and after its calls, and the answers of the driver.\<close>

record link_env =
  ln_now :: u32
  ln_later :: u32
  ln_info :: "wireless_info option"
  ln_addr :: "byte list option"
  ln_scan :: scan_env

datatype link_command = Connect2ssid string | Connect2newap "byte list"

text \<open>Steps 1 and 2: the new values of \<open>nCurChkTimes\<close> and \<open>g_bStopSend\<close>, the delay, and whether to join.\<close>

definition nMaxChkTimes :: int where "nMaxChkTimes = 4"

definition judge_signal :: "int \<Rightarrow> int \<Rightarrow> int \<Rightarrow> bool \<Rightarrow> int \<times> bool \<times> u32 \<times> bool" where
  "judge_signal threshold quality tries stop =
     (if quality = 0 then
        (if stop then (if nMaxChkTimes \<le> tries + 1 then (tries + 1, stop, 0, True) else (tries + 1, stop, 100, False))
         else (tries, stop, 0, True))
      else if threshold \<le> quality then (0, False, 100, False)
      else if stop then (tries + 1, stop, if nMaxChkTimes \<le> tries + 1 then 0 else 50, False)
      else (tries, stop, 0, False))"

definition link_due :: "link \<Rightarrow> link_env \<Rightarrow> bool" where
  "link_due L E \<longleftrightarrow> (stop_send L \<or> chk_link L) \<and> TIME_LESS (next_chk L) (ln_now E)"

definition do_wireless_check :: "wireless \<Rightarrow> link_env \<Rightarrow> link \<Rightarrow> (link \<times> link_command list) cres option" where
  "do_wireless_check W E L =
     (if \<not> link_due L E then Some (Inr (L, []))
      else
        let quality = get_wifi_signal_quality (ln_info E);
            (tries, stop, delay, join) = judge_signal (wi_quality W) quality (chk_times L) (stop_send L)
        in if delay \<noteq> 0 then Some (Inr (L\<lparr>stop_send := stop, chk_times := tries, next_chk := ln_later E + delay\<rparr>, []))
           else map_option (\<lambda>r. bindE r (\<lambda>(join, newap).
                  Inr (L\<lparr>stop_send := stop \<or> join \<or> newap \<noteq> None, chk_times := 0,
                         next_chk := ln_later E + (if newap = None then 100 else 200)\<rparr>,
                       (if join then [Connect2ssid (wi_ssid W)] else []) @
                       (case newap of None \<Rightarrow> [] | Some a \<Rightarrow> [Connect2newap a]))))
                  (case (if quality = 0 then None else ln_addr E) of
                     None \<Rightarrow> Some (Inr (True, None))
                   | Some addr \<Rightarrow>
                       map_option (\<lambda>r. bindE r (\<lambda>(addr, ret). Inr (if 0 < ret then (True, Some addr) else (join, None))))
                         (get_bestap_by_ssid (ln_scan E) addr (wi_ssid W) (wi_diff W))))"

section \<open>Commands\<close>

text \<open>The texts that \<open>connect2ssid\<close> and \<open>connect2newap\<close> print into \<open>szCmd[128]\<close>.\<close>

definition hex_upper :: "nat \<Rightarrow> char" where
  "hex_upper n = ''0123456789ABCDEF'' ! n"

definition iw_ether_ntop :: "byte list \<Rightarrow> string" where
  "iw_ether_ntop a = concat (map (\<lambda>i. (if i = 0 then '''' else '':'') @
     [hex_upper (unat (a ! i) div 16), hex_upper (unat (a ! i) mod 16)]) [0..<6])"

definition WORK_DICTORY :: string where "WORK_DICTORY = ''/mnt/user''"

definition WIRELESS_IFNAME :: string where "WIRELESS_IFNAME = ''eth1''"

definition iwpriv_set :: "string \<Rightarrow> string" where
  "iwpriv_set what = WORK_DICTORY @ ''/iwpriv '' @ WIRELESS_IFNAME @ '' set '' @ what"

definition connect2ssid :: "string \<Rightarrow> string list" where
  "connect2ssid name = map iwpriv_set [''NetworkType=Infra'', ''AuthMode=Open'', ''EncrypType=None'', ''SSID='', ''SSID='' @ name]"

definition connect2newap :: "byte list \<Rightarrow> string list" where
  "connect2newap a = [WORK_DICTORY @ ''//iwconfig '' @ WIRELESS_IFNAME @ '' ap '' @ iw_ether_ntop a]"

definition run_command :: "link_command \<Rightarrow> string list" where
  "run_command c = (case c of Connect2ssid name \<Rightarrow> connect2ssid name | Connect2newap a \<Rightarrow> connect2newap a)"

text \<open>The file of the driver that \<open>c_init_wireless_check\<close> writes through \<open>system\<close>.\<close>

definition to_driver :: "string \<Rightarrow> string \<Rightarrow> string" where
  "to_driver text arrow = ''echo '' @ text @ arrow @ ''/etc/RT2870STA.dat''"

definition c_init_wireless_check :: "wireless \<Rightarrow> string list" where
  "c_init_wireless_check W =
     [to_driver ''[Default]'' ''>'', to_driver (''CountryRegion='' @ dec_int (wi_country W)) ''>>'',
      to_driver (''SSID='' @ [QUOTE] @ wi_ssid W @ [QUOTE]) ''>>'', to_driver ''NetworkType=Infra'' ''>>'',
      to_driver ''AuthMode=OPEN'' ''>>'', to_driver ''EncrypType=NONE'' ''>>'',
      ''insmod /lib/modules/rt3070sta.ko'', ''ifconfig '' @ WIRELESS_IFNAME @ '' '' @ wi_address W @ '' up'']"

end
