(* ===== verification/Wifi_Proofs.thy ===== *)
theory Wifi_Proofs
  imports Wifi Rtsp_Live
begin

text \<open>
  The watch over the wireless link: the choice of an access point, when sending is stopped and
  resumed, and how often the camera joins its network again.
\<close>

section \<open>The choice of an access point\<close>

text \<open>The signal of the current access point, as the last entry for it says.\<close>

definition current_signal :: "string \<Rightarrow> byte list \<Rightarrow> RT_AP_INFO list \<Rightarrow> int" where
  "current_signal name addr aps =
     (case rev (filter (\<lambda>a. ssid a = name \<and> bssid a = addr) aps) of [] \<Rightarrow> -256 | a # _ \<Rightarrow> uint (rssi a))"

definition chosen :: "string \<Rightarrow> byte list \<Rightarrow> RT_AP_INFO list \<Rightarrow> nat option \<times> int \<times> int \<Rightarrow> bool" where
  "chosen name addr aps s \<longleftrightarrow> (case s of (best, signal, cur) \<Rightarrow>
     cur = current_signal name addr aps \<and>
     (case best of
        None \<Rightarrow> signal = -256 \<and> (\<forall>a\<in>set aps. ssid a \<noteq> name)
      | Some i \<Rightarrow> i < length aps \<and> ssid (aps ! i) = name \<and> signal = uint (rssi (aps ! i)) \<and>
          (\<forall>a\<in>set aps. ssid a = name \<longrightarrow> uint (rssi a) \<le> signal)))"

lemma chosen_step:
  assumes "chosen name addr aps (best, signal, cur)"
  shows "chosen name addr (aps @ [a])
    (if ssid a \<noteq> name then (best, signal, cur)
     else let cur = (if bssid a = addr then uint (rssi a) else cur)
          in if signal \<le> uint (rssi a) then (Some (length aps), uint (rssi a), cur) else (best, signal, cur))"
proof (cases "ssid a = name")
  case False
  with assms show ?thesis by (auto simp: chosen_def current_signal_def nth_append split: option.splits)
next
  case True
  have cur: "current_signal name addr (aps @ [a]) = (if bssid a = addr then uint (rssi a) else current_signal name addr aps)"
    using True by (simp add: current_signal_def)
  have "- 256 \<le> uint (rssi a)" by (rule order_trans [of _ 0]) simp_all
  with assms True show ?thesis by (cases best) (auto simp: chosen_def cur nth_append Let_def split: if_splits)
qed

lemma choose_ap_chosen: "chosen name addr aps s \<Longrightarrow> chosen name addr (aps @ as) (choose_ap name addr (length aps) as s)"
proof (induction as arbitrary: aps s)
  case (Cons a as)
  obtain best signal cur where s: "s = (best, signal, cur)" by (cases s) auto
  from Cons.IH [OF chosen_step [of name addr aps best signal cur a]] Cons.prems s show ?case by simp
qed simp

text \<open>
  C22. Roaming: with a threshold that is not negative the choice never reads the index that is not initialised;
  the camera moves exactly when some access point of its network is better than the current one by more than the
  threshold, and then to one with the best signal of all.
\<close>

theorem better_ap_correct:
  assumes "0 \<le> diff"
  shows "\<exists>addr' found. better_ap name addr diff aps = Inr (addr', found) \<and>
    (found \<longleftrightarrow> (\<exists>a\<in>set aps. ssid a = name \<and> current_signal name addr aps + diff < uint (rssi a))) \<and>
    (if found then \<exists>a\<in>set aps. addr' = bssid a \<and> ssid a = name \<and> (\<forall>b\<in>set aps. ssid b = name \<longrightarrow> rssi b \<le> rssi a) else addr' = addr)"
proof -
  obtain best signal cur where r: "choose_ap name addr 0 aps (None, -256, -256) = (best, signal, cur)" by (metis prod_cases3)
  have "chosen name addr [] (None, -256, -256)" by (simp add: chosen_def current_signal_def)
  from choose_ap_chosen [OF this, of aps] r have c: "chosen name addr aps (best, signal, cur)" by simp
  have low: "-256 \<le> current_signal name addr aps"
    using uint_ge_0 by (auto simp: current_signal_def split: list.splits intro: order_trans [of _ 0])
  show ?thesis
  proof (cases best)
    case None
    with c low assms show ?thesis by (auto simp: better_ap_def r chosen_def)
  next
    case (Some i)
    with c have i: "i < length aps" "ssid (aps ! i) = name" "signal = uint (rssi (aps ! i))" "cur = current_signal name addr aps"
      "\<And>a. a \<in> set aps \<Longrightarrow> ssid a = name \<Longrightarrow> uint (rssi a) \<le> signal" by (auto simp: chosen_def)
    have eq: "cur + diff < signal \<longleftrightarrow> (\<exists>a\<in>set aps. ssid a = name \<and> current_signal name addr aps + diff < uint (rssi a))"
      using i by (metis nth_mem order.strict_trans2)
    have "\<exists>a\<in>set aps. bssid (aps ! i) = bssid a \<and> ssid a = name \<and> (\<forall>b\<in>set aps. ssid b = name \<longrightarrow> rssi b \<le> rssi a)"
      by (rule bexI [of _ "aps ! i"]) (use i in \<open>auto simp: word_le_def\<close>)
    then show ?thesis unfolding better_ap_def r prod.case Some option.case using eq by (cases "cur + diff < signal") auto
  qed
qed

lemma better_ap_correct_witness:
  "\<exists>addr' found. better_ap ''n'' [1] 5 [\<lparr>bssid = [1], ssid = ''n'', rssi = 40\<rparr>, \<lparr>bssid = [2], ssid = ''n'', rssi = 50\<rparr>,
      \<lparr>bssid = [3], ssid = ''m'', rssi = 90\<rparr>] = Inr (addr', found) \<and> found \<and> addr' = [2]"
  using better_ap_correct [of 5 "''n''" "[1]" "[\<lparr>bssid = [1], ssid = ''n'', rssi = 40\<rparr>, \<lparr>bssid = [2], ssid = ''n'', rssi = 50\<rparr>,
      \<lparr>bssid = [3], ssid = ''m'', rssi = 90\<rparr>]"]
  by (auto simp: current_signal_def)

text \<open>A scan that is never ready is given up after at most 150 rounds.\<close>

lemma read_scan_ends:
  assumes "timeout \<le> 100000 * int n" "n \<le> length as" "list_all (\<lambda>a. a = Not_Yet) as" "0 < n"
  shows "read_scan version timeout buflen as = Some (Inl (-2))"
  using assms
proof (induction n arbitrary: timeout as)
  case (Suc n)
  then obtain as' where as: "as = Not_Yet # as'" "list_all (\<lambda>a. a = Not_Yet) as'" "n \<le> length as'" by (cases as) auto
  show ?case
  proof (cases n)
    case 0
    with Suc.prems(1) as(1) show ?thesis by simp
  next
    case (Suc k)
    with Suc.IH [of "timeout - 100000" as'] Suc.prems(1) as show ?thesis by simp
  qed
qed simp

section \<open>Stopping and resuming\<close>

definition good_signal :: "wireless \<Rightarrow> link_env \<Rightarrow> bool" where
  "good_signal W E \<longleftrightarrow> get_wifi_signal_quality (ln_info E) \<noteq> 0 \<and> wi_quality W \<le> get_wifi_signal_quality (ln_info E)"

lemma check_idle: "\<not> link_due L E \<Longrightarrow> do_wireless_check W E L = Some (Inr (L, []))"
  by (simp add: do_wireless_check_def)

lemma check_good:
  "link_due L E \<Longrightarrow> good_signal W E \<Longrightarrow>
    do_wireless_check W E L = Some (Inr (L\<lparr>stop_send := False, chk_times := 0, next_chk := ln_later E + 100\<rparr>, []))"
  by (simp add: do_wireless_check_def good_signal_def judge_signal_def)

lemma check_lost:
  assumes "link_due L E" "get_wifi_signal_quality (ln_info E) = 0"
  shows "do_wireless_check W E L =
    (if stop_send L \<and> chk_times L + 1 < nMaxChkTimes then Some (Inr (L\<lparr>chk_times := chk_times L + 1, next_chk := ln_later E + 100\<rparr>, []))
     else Some (Inr (L\<lparr>stop_send := True, chk_times := 0, next_chk := ln_later E + 100\<rparr>, [Connect2ssid (wi_ssid W)])))"
  using assms by (simp add: do_wireless_check_def judge_signal_def)

lemma check_weak_wait:
  assumes "link_due L E" "get_wifi_signal_quality (ln_info E) \<noteq> 0" "\<not> good_signal W E" "stop_send L" "chk_times L + 1 < nMaxChkTimes"
  shows "do_wireless_check W E L = Some (Inr (L\<lparr>chk_times := chk_times L + 1, next_chk := ln_later E + 50\<rparr>, []))"
  using assms by (simp add: do_wireless_check_def judge_signal_def good_signal_def)

text \<open>The search for a better access point.\<close>

definition search :: "wireless \<Rightarrow> link_env \<Rightarrow> (bool \<times> byte list option) cres option" where
  "search W E =
     (case ln_addr E of
        None \<Rightarrow> Some (Inr (True, None))
      | Some addr \<Rightarrow>
          map_option (\<lambda>r. bindE r (\<lambda>(addr, ret). Inr (if 0 < ret then (True, Some addr) else (False, None))))
            (get_bestap_by_ssid (ln_scan E) addr (wi_ssid W) (wi_diff W)))"

lemma search_joins: "search W E = Some (Inr (join, newap)) \<Longrightarrow> newap \<noteq> None \<Longrightarrow> join"
  by (auto simp: search_def bindE_eq_Inr split: option.splits if_splits)

lemma check_weak_search:
  assumes "link_due L E" "get_wifi_signal_quality (ln_info E) \<noteq> 0" "\<not> good_signal W E" "\<not> (stop_send L \<and> chk_times L + 1 < nMaxChkTimes)"
  shows "do_wireless_check W E L = map_option (\<lambda>r. bindE r (\<lambda>(join, newap).
      Inr (L\<lparr>stop_send := stop_send L \<or> join \<or> newap \<noteq> None, chk_times := 0, next_chk := ln_later E + (if newap = None then 100 else 200)\<rparr>,
           (if join then [Connect2ssid (wi_ssid W)] else []) @ (case newap of None \<Rightarrow> [] | Some a \<Rightarrow> [Connect2newap a])))) (search W E)"
proof -
  have "\<not> wi_quality W \<le> get_wifi_signal_quality (ln_info E)" using assms(2,3) by (simp add: good_signal_def)
  with assms(2,4) obtain n where "judge_signal (wi_quality W) (get_wifi_signal_quality (ln_info E)) (chk_times L) (stop_send L) = (n, stop_send L, 0, False)"
    by (cases "stop_send L") (auto simp: judge_signal_def)
  with assms(1,2) show ?thesis by (simp add: do_wireless_check_def search_def)
qed

lemma check_weak:
  assumes "link_due L E" "get_wifi_signal_quality (ln_info E) \<noteq> 0" "\<not> good_signal W E" "do_wireless_check W E L = Some (Inr (L', cs))"
  shows "(stop_send L' \<longleftrightarrow> stop_send L \<or> cs \<noteq> []) \<and> (cs \<noteq> [] \<longrightarrow> Connect2ssid (wi_ssid W) \<in> set cs) \<and>
    (chk_times L' = 0 \<or> chk_times L' = chk_times L + 1 \<and> chk_times L + 1 < nMaxChkTimes)"
proof (cases "stop_send L \<and> chk_times L + 1 < nMaxChkTimes")
  case True
  with check_weak_wait [OF assms(1-3)] assms(4) show ?thesis by auto
next
  case False
  from assms(4) obtain join newap where s: "search W E = Some (Inr (join, newap))"
    unfolding check_weak_search [OF assms(1-3) False] by (auto simp: bindE_eq_Inr)
  with assms(4) search_joins [OF s] show ?thesis unfolding check_weak_search [OF assms(1-3) False] by (cases newap; cases join) auto
qed

lemma check_step:
  assumes r: "do_wireless_check W E L = Some (Inr (L', cs))"
  shows "(0 \<le> chk_times L \<and> chk_times L < nMaxChkTimes \<longrightarrow> 0 \<le> chk_times L' \<and> chk_times L' < nMaxChkTimes) \<and>
    (stop_send L' \<longleftrightarrow> (stop_send L \<and> \<not> (link_due L E \<and> good_signal W E)) \<or> cs \<noteq> []) \<and>
    (cs \<noteq> [] \<longrightarrow> link_due L E \<and> \<not> good_signal W E \<and> Connect2ssid (wi_ssid W) \<in> set cs) \<and> (\<not> link_due L E \<longrightarrow> L' = L)"
proof -
  consider "\<not> link_due L E" | "link_due L E" "good_signal W E" | "link_due L E" "get_wifi_signal_quality (ln_info E) = 0"
    | "link_due L E" "get_wifi_signal_quality (ln_info E) \<noteq> 0" "\<not> good_signal W E" by blast
  then show ?thesis
  proof cases
    case 1
    with r check_idle show ?thesis by auto
  next
    case 2
    with r check_good [OF 2] show ?thesis by (auto simp: nMaxChkTimes_def)
  next
    case 3
    with r check_lost [OF 3] show ?thesis by (auto simp: nMaxChkTimes_def good_signal_def split: if_splits)
  next
    case 4
    with check_weak [OF 4 r] show ?thesis by (auto simp: nMaxChkTimes_def)
  qed
qed

text \<open>A run of rounds, with what the other threads do to the flag in between.\<close>

inductive link_step :: "wireless \<Rightarrow> link \<Rightarrow> link \<Rightarrow> bool" for W where
  Check: "do_wireless_check W E L = Some (Inr (L', cs)) \<Longrightarrow> link_step W L L'"
| Begin: "link_step W L (begin_wireless_check L)"
| Finish: "link_step W L (end_wireless_check L)"

lemma link_reach: "(link_step W)\<^sup>*\<^sup>* (init_wireless_check now) L \<Longrightarrow> 0 \<le> chk_times L \<and> chk_times L < nMaxChkTimes"
proof (induction rule: rtranclp_induct)
  case base
  then show ?case by (simp add: init_wireless_check_def nMaxChkTimes_def)
next
  case (step L1 L2)
  from step.hyps(2) step.IH show ?case
    by cases (auto simp: begin_wireless_check_def end_wireless_check_def dest: check_step)
qed

text \<open>
  C20. The watch over the link stops the server only when it makes the camera join its network again, and
  lets it send only when a check that is due finds a good signal; such a check always does, and gives no command. A
  check that is not due changes nothing. The counter of failed checks stays below four.
\<close>

theorem link_check_sound:
  assumes "(link_step W)\<^sup>*\<^sup>* (init_wireless_check now) L" "do_wireless_check W E L = Some (Inr (L', cs))"
  shows "0 \<le> chk_times L' \<and> chk_times L' < nMaxChkTimes \<and>
    (stop_send L' \<longleftrightarrow> (stop_send L \<and> \<not> (link_due L E \<and> good_signal W E)) \<or> cs \<noteq> []) \<and>
    (cs \<noteq> [] \<longrightarrow> link_due L E \<and> \<not> good_signal W E \<and> Connect2ssid (wi_ssid W) \<in> set cs) \<and>
    (\<not> link_due L E \<longrightarrow> L' = L)"
  using link_reach [OF assms(1)] check_step [OF assms(2)] by blast

definition demo_wireless :: wireless where
  "demo_wireless = \<lparr>wi_country = 2, wi_droprate = 1, wi_quality = 70, wi_diff = 1, wi_ssid = ''n'', wi_address = []\<rparr>"

definition no_link :: "u32 \<Rightarrow> link_env" where
  "no_link now = \<lparr>ln_now = now, ln_later = now, ln_info = None, ln_addr = None,
     ln_scan = \<lparr>sc_version = None, sc_start = Refused, sc_answers = []\<rparr>\<rparr>"

lemma link_check_sound_witness:
  "\<exists>L' cs. do_wireless_check demo_wireless (no_link 5) (begin_wireless_check (init_wireless_check 0)) = Some (Inr (L', cs)) \<and>
    stop_send L' \<and> Connect2ssid ''n'' \<in> set cs"
proof -
  have run: "(link_step demo_wireless)\<^sup>*\<^sup>* (init_wireless_check 0) (begin_wireless_check (init_wireless_check 0))"
    by (blast intro: link_step.Begin)
  have r: "do_wireless_check demo_wireless (no_link 5) (begin_wireless_check (init_wireless_check 0)) =
    Some (Inr (\<lparr>stop_send = True, chk_link = True, chk_times = 0, next_chk = 105\<rparr>, [Connect2ssid ''n'']))"
    by code_simp
  from link_check_sound [OF run r] r show ?thesis by (auto simp: demo_wireless_def)
qed

text \<open>A server that has stopped and has no link joins its network again at the latest with the fourth check.\<close>

fun link_run :: "wireless \<Rightarrow> link_env list \<Rightarrow> link \<Rightarrow> (link \<times> link_command list) cres option" where
  "link_run W [] L = Some (Inr (L, []))"
| "link_run W (E # Es) L =
     (case do_wireless_check W E L of
        Some (Inr (L', cs)) \<Rightarrow> map_option (\<lambda>r. bindE r (\<lambda>(L2, ds). Inr (L2, cs @ ds))) (link_run W Es L')
      | r \<Rightarrow> r)"

fun all_due :: "wireless \<Rightarrow> link_env list \<Rightarrow> link \<Rightarrow> bool" where
  "all_due W [] L = True"
| "all_due W (E # Es) L =
     (link_due L E \<and> (case do_wireless_check W E L of Some (Inr (L', _)) \<Rightarrow> all_due W Es L' | _ \<Rightarrow> False))"

lemma link_lost_run:
  assumes "all_due W Es L" "list_all (\<lambda>E. get_wifi_signal_quality (ln_info E) = 0) Es"
  shows "\<exists>L' cs. link_run W Es L = Some (Inr (L', cs)) \<and>
    (nMaxChkTimes - chk_times L \<le> int (length Es) \<and> stop_send L \<and> Es \<noteq> [] \<longrightarrow> Connect2ssid (wi_ssid W) \<in> set cs)"
  using assms
proof (induction Es arbitrary: L)
  case (Cons E Es)
  then have due: "link_due L E" and q: "get_wifi_signal_quality (ln_info E) = 0" by simp_all
  show ?case
  proof (cases "stop_send L \<and> chk_times L + 1 < nMaxChkTimes")
    case True
    let ?L = "L\<lparr>chk_times := chk_times L + 1, next_chk := ln_later E + 100\<rparr>"
    have r: "do_wireless_check W E L = Some (Inr (?L, []))" unfolding check_lost [OF due q] if_P [OF True] ..
    with Cons.prems Cons.IH [of ?L] obtain L' cs where "link_run W Es ?L = Some (Inr (L', cs))"
      "nMaxChkTimes - (chk_times L + 1) \<le> int (length Es) \<and> stop_send L \<and> Es \<noteq> [] \<longrightarrow> Connect2ssid (wi_ssid W) \<in> set cs" by auto
    moreover have "Es \<noteq> []" if "nMaxChkTimes - chk_times L \<le> int (length (E # Es))" using that True by auto
    ultimately show ?thesis using r by auto
  next
    case False
    let ?L = "L\<lparr>stop_send := True, chk_times := 0, next_chk := ln_later E + 100\<rparr>"
    have r: "do_wireless_check W E L = Some (Inr (?L, [Connect2ssid (wi_ssid W)]))" unfolding check_lost [OF due q] if_not_P [OF False] ..
    with Cons.prems Cons.IH [of ?L] show ?thesis by auto
  qed
qed simp

text \<open>
  C21. A server that has stopped and has lost its link keeps trying: whatever the state, four checks that are due
  and find no link all complete, and at least one of them joins the network again.
\<close>

theorem lost_link_rejoins:
  assumes "(link_step W)\<^sup>*\<^sup>* (init_wireless_check now) L" "stop_send L"
    and "length Es = 4" "all_due W Es L" "list_all (\<lambda>E. get_wifi_signal_quality (ln_info E) = 0) Es"
  shows "\<exists>L' cs. link_run W Es L = Some (Inr (L', cs)) \<and> Connect2ssid (wi_ssid W) \<in> set cs"
proof -
  have "nMaxChkTimes - chk_times L \<le> int (length Es)" using link_reach [OF assms(1)] assms(3) by (simp add: nMaxChkTimes_def)
  with link_lost_run [OF assms(4,5)] assms(2,3) show ?thesis by auto
qed

lemma lost_link_rejoins_witness:
  "\<exists>L L' cs. stop_send L \<and> link_run demo_wireless [no_link 1000, no_link 2000, no_link 3000, no_link 4000] L = Some (Inr (L', cs)) \<and>
    Connect2ssid ''n'' \<in> set cs"
proof -
  let ?L = "\<lparr>stop_send = True, chk_link = True, chk_times = 0, next_chk = 105\<rparr>" and ?Es = "[no_link 1000, no_link 2000, no_link 3000, no_link 4000]"
  have "do_wireless_check demo_wireless (no_link 5) (begin_wireless_check (init_wireless_check 0)) = Some (Inr (?L, [Connect2ssid ''n'']))"
    by code_simp
  from link_step.Check [OF this] have run: "(link_step demo_wireless)\<^sup>*\<^sup>* (init_wireless_check 0) ?L"
    by (meson link_step.Begin converse_rtranclp_into_rtranclp r_into_rtranclp)
  have "all_due demo_wireless ?Es ?L" "list_all (\<lambda>E. get_wifi_signal_quality (ln_info E) = 0) ?Es" by code_simp+
  from lost_link_rejoins [OF run _ _ this] obtain L' cs where
    "link_run demo_wireless ?Es ?L = Some (Inr (L', cs))" "Connect2ssid (wi_ssid demo_wireless) \<in> set cs" by auto
  moreover have "wi_ssid demo_wireless = ''n''" "stop_send ?L" by (simp_all add: demo_wireless_def)
  ultimately show ?thesis by metis
qed

text \<open>
  With a signal below the threshold and no better access point a server that has stopped neither sends nor
  joins again, however long this lasts.
\<close>

lemma weak_signal_stops:
  assumes "link_due L E" "get_wifi_signal_quality (ln_info E) \<noteq> 0" "\<not> good_signal W E" "stop_send L"
    and "search W E = Some (Inr (False, None))"
  shows "\<exists>L'. do_wireless_check W E L = Some (Inr (L', [])) \<and> stop_send L'"
proof (cases "chk_times L + 1 < nMaxChkTimes")
  case True
  with check_weak_wait [OF assms(1-4)] assms(4) show ?thesis by simp
next
  case False
  with check_weak_search [OF assms(1-3)] assms(4,5) show ?thesis by simp
qed

section \<open>The array of the commands\<close>

lemma length_ether [simp]: "length (iw_ether_ntop a) = 17"
  by (simp add: iw_ether_ntop_def upt_rec)

text \<open>The texts with their NUL fit into 128 characters.\<close>

lemma commands_fit:
  assumes "length (wi_ssid W) < 64" "length (wi_address W) < 32" "0 \<le> wi_country W" "wi_country W \<le> 7"
  shows "do_wireless_check W E L = Some (Inr (L', cs)) \<Longrightarrow> c \<in> set cs \<Longrightarrow> s \<in> set (run_command c) \<Longrightarrow> length s < 128"
    "s \<in> set (c_init_wireless_check W) \<Longrightarrow> length s < 128"
proof -
  assume r: "do_wireless_check W E L = Some (Inr (L', cs))" "c \<in> set cs" "s \<in> set (run_command c)"
  have "c = Connect2ssid (wi_ssid W) \<or> (\<exists>a. c = Connect2newap a)"
    using r(1,2) unfolding do_wireless_check_def
    by (auto simp: bindE_eq_Inr Let_def split: if_splits option.splits prod.splits)
  with r(3) assms(1) show "length s < 128"
    by (auto simp: run_command_def connect2ssid_def connect2newap_def iwpriv_set_def WORK_DICTORY_def WIRELESS_IFNAME_def)
next
  have "length (dec_int (wi_country W)) \<le> 11" using assms(3,4) by (intro dec_int_length) simp
  then show "s \<in> set (c_init_wireless_check W) \<Longrightarrow> length s < 128"
    using assms(1,2) by (auto simp: c_init_wireless_check_def to_driver_def WIRELESS_IFNAME_def)
qed

end
