(* ===== verification/Filters.thy ===== *)
theory Filters
  imports Stream Conversions
begin

text \<open>
  How the graph of streams grows: inputs register streams, destinations connect to them, converters and
  frame droppers (the directives of \<open>filter-framedrop.c\<close>) put streams behind streams. Every graph that is
  built like this, and switched on and off in between, runs its sources exactly on demand.
\<close>

section \<open>The directives of the frame dropper\<close>

text \<open>\<open>start_block\<close> leaves \<open>input\<close> as the allocated memory was, here \<open>junk\<close>. A result \<open>-1\<close> is an error.\<close>

record drop_block =
  dr_output :: "nat option"
  dr_input :: "nat option"
  dr_drop :: framedropper

definition framedrop_start_block :: "nat option \<Rightarrow> drop_block" where
  "framedrop_start_block junk = \<lparr>dr_output = None, dr_input = junk, dr_drop = framedrop_start\<rparr>"

definition framedrop_set_input :: "string \<Rightarrow> graph \<times> drop_block \<Rightarrow> (graph \<times> drop_block) \<times> int" where
  "framedrop_set_input name s =
     (case connect_to_stream (fst s) name [] of
        (g, d) \<Rightarrow> ((g, (snd s)\<lparr>dr_input := d\<rparr>), if d = None then -1 else 0))"

text \<open>The output is a stream that passes \<open>set_running\<close> on to the input destination.\<close>

definition filter_stream :: "graph \<Rightarrow> nat \<Rightarrow> string \<Rightarrow> graph \<times> nat" where
  "filter_stream g d name =
     (let (g, s) = new_stream g name (st_format (streams g (dest_stream g d)))
      in (g\<lparr>streams := (streams g)(s := (streams g s)\<lparr>st_set_running := Up d\<rparr>)\<rparr>, s))"

definition framedrop_set_output :: "string \<Rightarrow> graph \<times> drop_block \<Rightarrow> (graph \<times> drop_block) \<times> int" where
  "framedrop_set_output name s =
     (case dr_input (snd s) of
        None \<Rightarrow> (s, -1)
      | Some d \<Rightarrow> (let (g, out) = filter_stream (fst s) d name in ((g, (snd s)\<lparr>dr_output := Some out\<rparr>), 0)))"

definition framedrop_scale :: "int \<Rightarrow> graph \<times> drop_block \<Rightarrow> (graph \<times> drop_block) \<times> int" where
  "framedrop_scale n s =
     (case framedrop_set_scale (dr_drop (snd s)) n of
        None \<Rightarrow> (s, -1)
      | Some fdr \<Rightarrow> ((fst s, (snd s)\<lparr>dr_drop := fdr\<rparr>), 0))"

definition framedrop_end_block :: "drop_block \<Rightarrow> int" where
  "framedrop_end_block D =
     (if dr_input D = None \<or> dr_output D = None \<or> fd_scale (dr_drop D) < 1 then -1 else 0)"

text \<open>\<open>do_framedrop\<close> with its frame, which it hands on or drops.\<close>

definition framedrop_frame ::
  "('w \<Rightarrow> nat \<Rightarrow> bool) \<Rightarrow> (nat \<Rightarrow> nat \<Rightarrow> frame_heap \<times> 'w \<Rightarrow> (frame_heap \<times> 'w) cres option) \<Rightarrow> nat list \<Rightarrow> nat \<Rightarrow>
     framedropper \<Rightarrow> frame_heap \<times> 'w \<Rightarrow> (framedropper \<times> frame_heap \<times> 'w) cres option" where
  "framedrop_frame wt proc ds f D s =
     (let (D', pass) = do_framedrop D
      in map_option (map_sum id (Pair D'))
           (if pass then deliver_frame_to_stream wt proc f ds s
            else map_option (map_sum id (\<lambda>h. (h, snd s))) (unref_frame (fst s) f)))"

section \<open>The converter\<close>

text \<open>
  \<open>convert_uyvy_to_rgb24\<close>. A new frame has no memory for data: \<open>uyvy2rgb\<close> then writes through a null pointer,
  here to an array without elements.
\<close>

definition frame_array :: "frame_heap \<Rightarrow> nat \<Rightarrow> byte list" where
  "frame_array h f = (case Option.bind (fr_d (frames h f)) (blocks h) of None \<Rightarrow> [] | Some d \<Rightarrow> d)"

definition convert_uyvy_to_rgb24 ::
  "('w \<Rightarrow> nat \<Rightarrow> bool) \<Rightarrow> (nat \<Rightarrow> nat \<Rightarrow> frame_heap \<times> 'w \<Rightarrow> (frame_heap \<times> 'w) cres option) \<Rightarrow> nat list \<Rightarrow> nat \<Rightarrow>
     frame_heap \<times> 'w \<Rightarrow> (frame_heap \<times> 'w) cres option" where
  "convert_uyvy_to_rgb24 wt proc ds f s =
     (case new_frame (fst s) of
        None \<Rightarrow> None
      | Some (h, None) \<Rightarrow> Some (Inl Fault)
      | Some (h, Some r) \<Rightarrow>
          (let fr = frames h f;
               h = upd_frame r (\<lambda>x. x\<lparr>fr_format := FORMAT_RAW_RGB24, fr_width := fr_width fr, fr_height := fr_height fr,
                     fr_length := fr_height fr * fr_width fr * 3, fr_key := fr_key fr\<rparr>) h
           in case uyvy2rgb (frame_array h f) (frame_array h r) (nat (fr_length fr div 2)) of
                Inl x \<Rightarrow> Some (Inl x)
              | Inr d \<Rightarrow>
                  (let h = (case fr_d (frames h r) of None \<Rightarrow> h | Some b \<Rightarrow> h\<lparr>blocks := (blocks h)(b := Some d)\<rparr>)
                   in case unref_frame h f of
                        None \<Rightarrow> None
                      | Some (Inl x) \<Rightarrow> Some (Inl x)
                      | Some (Inr h) \<Rightarrow> deliver_frame_to_stream wt proc r ds (h, snd s))))"

end
