(* ===== verification/Filters_Proofs.thy ===== *)
theory Filters_Proofs
  imports Filters
begin

text \<open>
  The graphs that the program can build, and their invariant: every destination is in the list of its stream,
  every stream knows how to be switched, and filters point towards the sources.
\<close>

section \<open>The invariant\<close>

definition shape :: "(nat \<Rightarrow> nat) \<Rightarrow> graph \<Rightarrow> bool" where
  "shape rank g \<longleftrightarrow> wf_graph rank g \<and> (\<forall>s. stream_ok g s) \<and>
     (\<forall>s. next_stream g \<le> s \<longrightarrow> st_dests (streams g s) = [] \<and> st_set_running (streams g s) = No_Fn) \<and>
     (\<forall>s. \<forall>d\<in>set (st_dests (streams g s)). d < next_dest g) \<and>
     (\<forall>d < next_dest g. d \<in> set (st_dests (streams g (dest_stream g d))) \<and> st_set_running (streams g (dest_stream g d)) \<noteq> No_Fn) \<and>
     (\<forall>s d. st_set_running (streams g s) = Up d \<longrightarrow> d < next_dest g) \<and>
     (\<forall>s\<in>set (stream_list g). s < next_stream g \<and> st_set_running (streams g s) \<noteq> No_Fn)"

lemma shapeD:
  assumes "shape rank g"
  shows "wf_graph rank g" "stream_ok g s" "next_stream g \<le> s \<Longrightarrow> st_dests (streams g s) = []"
    "next_stream g \<le> s \<Longrightarrow> st_set_running (streams g s) = No_Fn" "d \<in> set (st_dests (streams g s)) \<Longrightarrow> d < next_dest g"
    "d < next_dest g \<Longrightarrow> d \<in> set (st_dests (streams g (dest_stream g d)))"
    "d < next_dest g \<Longrightarrow> st_set_running (streams g (dest_stream g d)) \<noteq> No_Fn"
    "st_set_running (streams g s) = Up d \<Longrightarrow> d < next_dest g"
    "s \<in> set (stream_list g) \<Longrightarrow> s < next_stream g" "s \<in> set (stream_list g) \<Longrightarrow> st_set_running (streams g s) \<noteq> No_Fn"
  using assms by (auto simp: shape_def)

lemma dest_of: "shape rank g \<Longrightarrow> d \<in> set (st_dests (streams g s)) \<Longrightarrow> dest_stream g d = s"
  using shapeD(1) by (auto simp: wf_graph_def)

lemma dest_below: "shape rank g \<Longrightarrow> d < next_dest g \<Longrightarrow> dest_stream g d < next_stream g"
  using shapeD(4,7) by (metis not_le)

text \<open>A new destination at a stream that is in use.\<close>

lemma new_dest_shape:
  assumes sh: "shape rank g" and s: "st_set_running (streams g s) \<noteq> No_Fn"
  shows "shape rank (fst (new_dest g s))"
proof -
  let ?d = "next_dest g" and ?g = "fst (new_dest g s)"
  have g: "streams ?g t = (if t = s then (streams g s)\<lparr>st_dests := ?d # st_dests (streams g s)\<rparr> else streams g t)"
    "dest_stream ?g = (dest_stream g)(?d := s)" "waiting ?g = (waiting g)(?d := False)" "next_dest ?g = ?d + 1"
    "next_stream ?g = next_stream g" "stream_list ?g = stream_list g" "running ?g = running g" for t
    by (simp_all add: new_dest_def Let_def)
  have sr: "st_set_running (streams ?g t) = st_set_running (streams g t)" for t by (simp add: g)
  have ds: "set (st_dests (streams ?g t)) = (if t = s then insert ?d (set (st_dests (streams g t))) else set (st_dests (streams g t)))" for t
    by (simp add: g)
  have new: "?d \<notin> set (st_dests (streams g t))" "st_set_running (streams g t) \<noteq> Up ?d" for t
    using shapeD(5,8) [OF sh] by blast+
  have "waiting ?g d = waiting g d" if "d \<in> set (st_dests (streams g t))" for t d using new(1) [of t] that by (auto simp: g(3))
  then have any: "any_waiting ?g t = any_waiting g t" for t by (auto simp: any_waiting_def ds) (simp_all add: g(3))
  have "stream_ok ?g t" for t
    using shapeD(2) [OF sh, of t] new(2) [of t] by (auto simp: stream_ok_def sr any g split: set_running_fn.splits)
  moreover have "wf_graph rank ?g"
  proof -
    have "dest_stream ?g d = t" if "d \<in> set (st_dests (streams ?g t))" for t d
      using that dest_of [OF sh] new(1) by (auto simp: ds g(2) split: if_splits)
    moreover have "t = u" if "st_set_running (streams g t) = Up d" "st_set_running (streams g u) = Up d" for t u d
      using that shapeD(1) [OF sh] unfolding wf_graph_def by blast
    moreover have "rank (dest_stream g d) < rank t \<and> d \<in> set (st_dests (streams g (dest_stream g d))) \<and> st_set_running (streams g (dest_stream g d)) \<noteq> No_Fn \<and> d \<noteq> ?d"
      if "st_set_running (streams g t) = Up d" for t d
      using that shapeD(1) [OF sh] new(2) unfolding wf_graph_def by blast
    ultimately show ?thesis unfolding wf_graph_def sr by (auto simp: ds g(2))
  qed
  moreover have "s < next_stream g" using shapeD(4) [OF sh, of s] s by (metis not_le)
  ultimately show ?thesis
    using shapeD(3-10) [OF sh] s unfolding shape_def sr by (auto simp: ds g less_Suc_eq)
qed

text \<open>A new stream, which is a source or belongs to a filter whose input is \<open>d\<close>.\<close>

lemma add_stream_shape:
  assumes sh: "shape rank g" and up: "\<And>d. r = Up d \<Longrightarrow> d < next_dest g \<and> end_dest g d \<and> \<not> waiting g d" and r: "r \<noteq> No_Fn"
    and idle: "\<not> running g (next_stream g)"
    and g': "streams g' = (streams g)(next_stream g := \<lparr>st_name = name, st_format = fmt, st_dests = [], st_set_running = r\<rparr>)"
      "set (stream_list g') \<subseteq> insert (next_stream g) (set (stream_list g))" "next_stream g' = next_stream g + 1"
      "dest_stream g' = dest_stream g" "waiting g' = waiting g" "running g' = running g" "next_dest g' = next_dest g"
  shows "\<exists>rank'. shape rank' g' \<and> (\<forall>t. rank' t \<le> rank t \<or> t = next_stream g)"
proof -
  let ?s = "next_stream g"
  define rank' where "rank' = rank(?s := (case r of Up d \<Rightarrow> rank (dest_stream g d) + 1 | _ \<Rightarrow> 0))"
  have old: "streams g' t = streams g t" if "t \<noteq> ?s" for t using that by (simp add: g')
  have new: "st_dests (streams g' ?s) = []" "st_set_running (streams g' ?s) = r" by (simp_all add: g')
  have ds: "st_dests (streams g' t) = st_dests (streams g t)" for t
    using shapeD(3) [OF sh, of ?s] by (cases "t = ?s") (simp_all add: new old)
  have sr: "st_set_running (streams g' t) = (if t = ?s then r else st_set_running (streams g t))" for t
    by (simp add: new old)
  have at: "dest_stream g d \<noteq> ?s" if "d < next_dest g" for d using dest_below [OF sh that] by simp
  have "stream_ok g' t" for t
  proof (cases "t = ?s")
    case True
    have "\<not> any_waiting g' ?s" by (simp add: any_waiting_def new)
    with True up idle r show ?thesis by (auto simp: stream_ok_def new g'(5,6) split: set_running_fn.splits)
  next
    case False
    have "any_waiting g' t = any_waiting g t" by (simp add: any_waiting_def ds g'(5))
    with shapeD(2) [OF sh, of t] False show ?thesis by (simp add: stream_ok_def old g' split: set_running_fn.splits)
  qed
  moreover have "wf_graph rank' g'"
    unfolding wf_graph_def ds g'(4)
  proof (intro conjI allI impI)
    fix t d assume "d \<in> set (st_dests (streams g t))"
    then show "dest_stream g d = t" by (rule dest_of [OF sh])
  next
    fix t u d assume both: "st_set_running (streams g' t) = Up d \<and> st_set_running (streams g' u) = Up d"
    have "t = u" if "t \<noteq> ?s" "u \<noteq> ?s" using both that shapeD(1) [OF sh] by (auto simp: sr wf_graph_def)
    moreover have "u = ?s" if "t = ?s" using both that up by (auto simp: sr end_dest_def split: if_splits)
    moreover have "t = ?s" if "u = ?s" using both that up by (auto simp: sr end_dest_def split: if_splits)
    ultimately show "t = u" by blast
  next
    fix t d assume t: "st_set_running (streams g' t) = Up d"
    then have d: "d < next_dest g" using up shapeD(8) [OF sh] by (auto simp: sr split: if_splits)
    then show "d \<in> set (st_dests (streams g (dest_stream g d)))" by (rule shapeD(6) [OF sh])
    show "st_set_running (streams g' (dest_stream g d)) \<noteq> No_Fn" using shapeD(7) [OF sh d] at [OF d] by (simp add: sr)
    show "rank' (dest_stream g d) < rank' t"
    proof (cases "t = ?s")
      case True
      with t at [OF d] show ?thesis by (simp add: rank'_def new)
    next
      case False
      with t shapeD(1) [OF sh] at [OF d] show ?thesis by (auto simp: rank'_def sr wf_graph_def)
    qed
  qed
  moreover have "d < next_dest g" if "st_set_running (streams g' t) = Up d" for t d
    using that up shapeD(8) [OF sh] by (auto simp: sr split: if_splits)
  moreover have "st_set_running (streams g' (dest_stream g d)) \<noteq> No_Fn" if "d < next_dest g" for d
    using shapeD(7) [OF sh that] at [OF that] by (simp add: sr)
  moreover have "t < ?s + 1 \<and> st_set_running (streams g' t) \<noteq> No_Fn" if "t \<in> set (stream_list g')" for t
    using that g'(2) shapeD(9,10) [OF sh, of t] r by (auto simp: sr)
  ultimately have "shape rank' g'"
    using shapeD(3-6) [OF sh] unfolding shape_def ds g'(3,4,7) by (auto simp: sr)
  then show ?thesis by (auto simp: rank'_def)
qed

section \<open>The operations keep it\<close>

definition graph_source :: "graph \<Rightarrow> string \<Rightarrow> int \<Rightarrow> graph" where
  "graph_source g name fmt =
     (let (g, s) = new_stream g name fmt in g\<lparr>streams := (streams g)(s := (streams g s)\<lparr>st_set_running := Source\<rparr>)\<rparr>)"

definition graph_inv :: "graph \<Rightarrow> bool" where
  "graph_inv g \<longleftrightarrow> (\<exists>rank B. shape rank g \<and> (\<forall>s. rank s \<le> B)) \<and> (\<forall>s. next_stream g \<le> s \<longrightarrow> \<not> running g s)"

lemma graph_invI: "shape rank g \<Longrightarrow> (\<And>s. rank s \<le> B) \<Longrightarrow> (\<And>s. next_stream g \<le> s \<Longrightarrow> \<not> running g s) \<Longrightarrow> graph_inv g"
  by (auto simp: graph_inv_def)

lemma add_stream_inv:
  assumes "graph_inv g" "\<And>d. r = Up d \<Longrightarrow> d < next_dest g \<and> end_dest g d \<and> \<not> waiting g d" "r \<noteq> No_Fn"
    and "streams g' = (streams g)(next_stream g := \<lparr>st_name = name, st_format = fmt, st_dests = [], st_set_running = r\<rparr>)"
      "set (stream_list g') \<subseteq> insert (next_stream g) (set (stream_list g))" "next_stream g' = next_stream g + 1"
      "dest_stream g' = dest_stream g" "waiting g' = waiting g" "running g' = running g" "next_dest g' = next_dest g"
  shows "graph_inv g'"
proof -
  from assms(1) obtain rank B where sh: "shape rank g" "\<And>s. rank s \<le> B" and idle: "\<And>s. next_stream g \<le> s \<Longrightarrow> \<not> running g s"
    by (auto simp: graph_inv_def)
  from add_stream_shape [OF sh(1) assms(2,3) idle assms(4-10)] obtain rank' where
    r: "shape rank' g'" "\<And>t. rank' t \<le> rank t \<or> t = next_stream g" by auto
  have "rank' t \<le> max B (rank' (next_stream g))" for t using r(2) [of t] sh(2) [of t] by (auto simp: max_def)
  with r(1) show ?thesis by (rule graph_invI) (simp add: assms(6,9) idle)
qed

lemma graph_source_inv: "graph_inv g \<Longrightarrow> graph_inv (graph_source g name fmt)"
  by (rule add_stream_inv [where r = Source]) (auto simp: graph_source_def new_stream_def Let_def)

lemma filter_stream_inv:
  assumes "graph_inv g" "d < next_dest g" "end_dest g d" "\<not> waiting g d"
  shows "graph_inv (fst (filter_stream g d name))"
  by (rule add_stream_inv [where r = "Up d", OF assms(1)])
    (use assms(2-4) in \<open>auto simp: filter_stream_def new_stream_def Let_def\<close>)

lemma new_dest_inv:
  assumes "graph_inv g" "st_set_running (streams g s) \<noteq> No_Fn"
  shows "graph_inv (fst (new_dest g s))"
proof -
  have same: "next_stream (fst (new_dest g s)) = next_stream g" "running (fst (new_dest g s)) = running g"
    by (simp_all add: new_dest_def Let_def)
  from assms(1) obtain rank B where sh: "shape rank g" "\<And>s. rank s \<le> B" "\<And>s. next_stream g \<le> s \<Longrightarrow> \<not> running g s"
    by (auto simp: graph_inv_def)
  show ?thesis by (rule graph_invI [OF new_dest_shape [OF sh(1) assms(2)] sh(2)]) (simp add: same sh(3))
qed

lemma insert_after_set: "set (insert_after b s xs) \<subseteq> insert s (set xs)"
  by (induction xs) auto

lemma convert_stream_inv:
  assumes "graph_inv g" "st_set_running (streams g base) \<noteq> No_Fn"
  shows "graph_inv (fst (new_convert_stream g base fmt))"
    "st_set_running (streams (fst (new_convert_stream g base fmt)) (snd (new_convert_stream g base fmt))) \<noteq> No_Fn"
proof -
  let ?g = "fst (new_dest g base)" and ?d = "next_dest g"
  from assms(1) obtain rank where sh: "shape rank g" by (auto simp: graph_inv_def)
  have g: "next_dest ?g = ?d + 1" "next_stream ?g = next_stream g" "stream_list ?g = stream_list g" "waiting ?g ?d = False"
    "snd (new_dest g base) = ?d" by (simp_all add: new_dest_def Let_def)
  have "st_set_running (streams ?g t) = st_set_running (streams g t)" for t by (simp add: new_dest_def Let_def)
  then have e: "end_dest ?g ?d" using shapeD(8) [OF sh] by (auto simp: end_dest_def)
  have split: "new_convert_stream g base fmt = (?g\<lparr>streams := (streams ?g)(next_stream g := \<lparr>st_name = st_name (streams g base), st_format = fmt,
      st_dests = [], st_set_running = Up ?d\<rparr>), stream_list := insert_after base (next_stream g) (stream_list ?g), next_stream := next_stream g + 1\<rparr>, next_stream g)"
    by (simp add: new_convert_stream_def new_dest_def Let_def)
  show "graph_inv (fst (new_convert_stream g base fmt))"
    by (rule add_stream_inv [where r = "Up ?d", OF new_dest_inv [OF assms]])
      (use e insert_after_set in \<open>auto simp: split g\<close>)
  show "st_set_running (streams (fst (new_convert_stream g base fmt)) (snd (new_convert_stream g base fmt))) \<noteq> No_Fn"
    by (simp add: split)
qed

lemma connect_inv:
  assumes inv: "graph_inv g" and c: "connect_to_stream g name formats = (g', r)"
  shows "graph_inv g'"
proof -
  from inv obtain rank where sh: "shape rank g" by (auto simp: graph_inv_def)
  have known: "st_set_running (streams g s) \<noteq> No_Fn" if "find P (stream_list g) = Some s" for P s
    using that shapeD(10) [OF sh] by (auto simp: find_Some_iff)
  show ?thesis
  proof (cases "find (\<lambda>s. st_name (streams g s) = name \<and> format_match (st_format (streams g s)) formats) (stream_list g)")
    case (Some s)
    with c new_dest_inv [OF inv known [OF Some]] show ?thesis by (auto simp: connect_to_stream_def split: prod.splits)
  next
    case None
    show ?thesis
    proof (cases "find (\<lambda>s. st_name (streams g s) = name \<and> st_format (streams g s) = FORMAT_RAW_UYVY \<and>
        format_match FORMAT_RAW_RGB24 formats) (stream_list g)")
      case (Some s)
      obtain g1 k where k: "new_convert_stream g s FORMAT_RAW_RGB24 = (g1, k)" by fastforce
      note conv = convert_stream_inv [OF inv known [OF Some], of FORMAT_RAW_RGB24, unfolded k fst_conv snd_conv]
      from new_dest_inv [OF conv] c None Some k show ?thesis by (auto simp: connect_to_stream_def split: prod.splits)
    qed (use c None inv in \<open>simp add: connect_to_stream_def\<close>)
  qed
qed

text \<open>\<open>set_waiting\<close> changes only who waits and what runs, and runs only streams that can be switched.\<close>

lemma set_waiting_only:
  "set_waiting g d w = Some (Inr g') \<Longrightarrow> g' = g\<lparr>waiting := waiting g', running := running g'\<rparr> \<and>
     (\<forall>s. st_set_running (streams g s) = No_Fn \<longrightarrow> running g' s = running g s)"
proof (induction g d w "Inr g' :: graph cres" rule: set_waiting.raw_induct [rotated 1, consumes 1])
  case (1 rec g d w)
  let ?s = "dest_stream g d"
  show ?case
  proof (cases "waiting g d = w \<or> \<not> w \<and> any_waiting (g\<lparr>waiting := (waiting g)(d := w)\<rparr>) ?s")
    case True
    with 1(2) show ?thesis by (auto simp: Let_def split: if_splits)
  next
    case False
    show ?thesis
    proof (cases "st_set_running (streams g ?s)")
      case (Up d')
      with False 1(2) have "rec (g\<lparr>waiting := (waiting g)(d := w)\<rparr>) d' w = Some (Inr g')" by (auto simp: Let_def)
      from 1(1) [OF this] show ?thesis by (cases g; cases g') auto
    qed (use False 1(2) in \<open>auto simp: Let_def split: if_splits\<close>)
  qed
qed

lemma set_waiting_inv:
  assumes inv: "graph_inv g" and d: "d < next_dest g" "end_dest g d"
  shows "\<exists>g'. set_waiting g d w = Some (Inr g') \<and> graph_inv g'"
proof -
  from inv obtain rank B where sh: "shape rank g" "\<And>s. rank s \<le> B" "\<And>s. next_stream g \<le> s \<Longrightarrow> \<not> running g s"
    by (auto simp: graph_inv_def)
  have x: "\<forall>s. st_set_running (streams g s) = Up d \<longrightarrow> s \<in> {}" using d(2) by (simp add: end_dest_def)
  from set_waiting_effect [OF shapeD(1) [OF sh(1)] shapeD(6,7) [OF sh(1) d(1)] x, of w] shapeD(2) [OF sh(1)] obtain g' where
    g': "set_waiting g d w = Some (Inr g')" "wf_graph rank g'" "\<forall>s. stream_ok g' s" by auto
  from set_waiting_only [OF g'(1)] have e: "g' = g\<lparr>waiting := waiting g', running := running g'\<rparr>" by blast
  have same: "streams g' = streams g" "stream_list g' = stream_list g" "dest_stream g' = dest_stream g" "next_stream g' = next_stream g"
    "next_dest g' = next_dest g"
    using arg_cong [OF e, of streams] arg_cong [OF e, of stream_list] arg_cong [OF e, of dest_stream]
      arg_cong [OF e, of next_stream] arg_cong [OF e, of graph.next_dest] by simp_all
  have "shape rank g'" using sh(1) g'(2,3) by (simp add: shape_def same)
  moreover have "\<not> running g' s" if "next_stream g \<le> s" for s
    using set_waiting_only [OF g'(1)] sh(3) [OF that] shapeD(4) [OF sh(1) that] by auto
  ultimately have "graph_inv g'" using sh(2) by (intro graph_invI) (simp_all add: same)
  with g'(1) show ?thesis by blast
qed

section \<open>Every graph of the program\<close>

text \<open>
  Inputs add sources, outputs and filters connect to streams, a filter adds its output when it has none yet, and
  destinations that are not inputs of a filter start and stop waiting.
\<close>

definition no_streams :: graph where
  "no_streams = \<lparr>streams = (\<lambda>_. \<lparr>st_name = [], st_format = 0, st_dests = [], st_set_running = No_Fn\<rparr>), stream_list = [],
     dest_stream = (\<lambda>_. 0), waiting = (\<lambda>_. False), running = (\<lambda>_. False), next_stream = 0, next_dest = 0\<rparr>"

inductive built :: "graph \<Rightarrow> bool" where
  Nothing: "built no_streams"
| Input: "built g \<Longrightarrow> built (graph_source g name fmt)"
| Connect: "built g \<Longrightarrow> connect_to_stream g name formats = (g', r) \<Longrightarrow> built g'"
| Output: "built g \<Longrightarrow> dr_input D = Some d \<Longrightarrow> d < next_dest g \<Longrightarrow> end_dest g d \<Longrightarrow> \<not> waiting g d \<Longrightarrow>
    framedrop_set_output name (g, D) = ((g', D'), ret) \<Longrightarrow> built g'"
| Switch: "built g \<Longrightarrow> d < next_dest g \<Longrightarrow> end_dest g d \<Longrightarrow> set_waiting g d w = Some (Inr g') \<Longrightarrow> built g'"

lemma built_inv: "built g \<Longrightarrow> graph_inv g"
proof (induction rule: built.induct)
  case Nothing
  have "shape (\<lambda>_. 0) no_streams"
    by (simp add: shape_def wf_graph_def stream_ok_def any_waiting_def no_streams_def)
  then show ?case by (rule graph_invI) (simp_all add: no_streams_def)
next
  case (Input g name fmt)
  show ?case by (rule graph_source_inv [OF Input.IH])
next
  case (Connect g name formats g' r)
  show ?case by (rule connect_inv [OF Connect.IH Connect.hyps(2)])
next
  case (Output g D d name g' D' ret)
  obtain h out where out: "filter_stream g d name = (h, out)" by fastforce
  with Output.hyps have "g' = h" by (simp add: framedrop_set_output_def)
  with filter_stream_inv [OF Output.IH Output.hyps(3-5), of name] out show ?case by simp
next
  case (Switch g d w g')
  from set_waiting_inv [OF Switch.IH Switch.hyps(2,3), of w] Switch.hyps(4) show ?case by simp
qed

text \<open>
  C11. In every graph that the program builds out of inputs, converters, frame droppers and outputs, and switches
  in any order, turning any end destination on or off returns without a fault, and afterwards every source runs
  exactly when somebody behind it, directly or through filters, waits for its frames.
\<close>

theorem built_graph_runs_sources:
  assumes "built g" "d < next_dest g" "end_dest g d"
  shows "\<exists>g'. set_waiting g d w = Some (Inr g') \<and> built g' \<and> waiting g' d = w \<and>
    (\<forall>s. st_set_running (streams g' s) = Source \<longrightarrow> running g' s = (\<exists>e. feeds g' s e \<and> waiting g' e \<and> end_dest g' e))"
proof -
  from built_inv [OF assms(1)] obtain rank B where sh: "shape rank g" "\<forall>s. rank s \<le> B" by (auto simp: graph_inv_def)
  have x: "\<forall>s. st_set_running (streams g s) = Up d \<longrightarrow> s \<in> {}" using assms(3) by (simp add: end_dest_def)
  from set_waiting_effect [OF shapeD(1) [OF sh(1)] shapeD(6,7) [OF sh(1) assms(2)] x, of w] shapeD(2) [OF sh(1)] obtain g' where
    g': "set_waiting g d w = Some (Inr g')" "wf_graph rank g'" "waiting g' d = w" "\<forall>s. stream_ok g' s" by auto
  have "running g' s = (\<exists>e. feeds g' s e \<and> waiting g' e \<and> end_dest g' e)" if "st_set_running (streams g' s) = Source" for s
  proof -
    have "running g' s = any_waiting g' s" using spec [OF g'(4), of s] that by (simp add: stream_ok_def)
    also have "\<dots> = (\<exists>e. feeds g' s e \<and> waiting g' e \<and> end_dest g' e)"
      using any_waiting_feeds [OF g'(2,4) sh(2)] feeds_any_waiting [OF _ g'(4)] by blast
    finally show ?thesis .
  qed
  with g'(1,3) built.Switch [OF assms g'(1)] show ?thesis by blast
qed

text \<open>A camera, a frame dropper behind it and a listener of the dropper.\<close>

definition cam_graph :: graph where
  "cam_graph = fst (connect_to_stream (graph_source no_streams ''cam'' FORMAT_JPEG) ''cam'' [])"

definition slow_graph :: graph where
  "slow_graph = fst (fst (framedrop_set_output ''slow'' (cam_graph, framedrop_start_block (Some 0))))"

lemma slow_graph_built: "built slow_graph"
proof -
  have "built cam_graph"
    unfolding cam_graph_def by (rule built.Connect [OF built.Input [OF built.Nothing] prod.collapse [symmetric]])
  then show ?thesis
    by (rule built.Output [where D = "framedrop_start_block (Some 0)" and d = 0 and name = "''slow''"])
      (auto simp: slow_graph_def framedrop_start_block_def framedrop_set_output_def filter_stream_def cam_graph_def connect_to_stream_def
         graph_source_def no_streams_def new_stream_def new_dest_def format_match_def end_dest_def Let_def)
qed

definition demo_filters :: graph where
  "demo_filters = fst (connect_to_stream slow_graph ''slow'' [FORMAT_JPEG])"

theorem built_graph_runs_sources_witness:
  "\<exists>g'. set_waiting demo_filters 1 True = Some (Inr g') \<and> built g' \<and> waiting g' 1 = True \<and>
    (\<forall>s. st_set_running (streams g' s) = Source \<longrightarrow> running g' s = (\<exists>e. feeds g' s e \<and> waiting g' e \<and> end_dest g' e))"
proof (rule built_graph_runs_sources)
  show "built demo_filters"
    unfolding demo_filters_def by (rule built.Connect [OF slow_graph_built prod.collapse [symmetric]])
  show "1 < next_dest demo_filters" "end_dest demo_filters 1"
    by (auto simp: demo_filters_def slow_graph_def framedrop_start_block_def framedrop_set_output_def filter_stream_def cam_graph_def
          connect_to_stream_def graph_source_def no_streams_def new_stream_def new_dest_def format_match_def end_dest_def Let_def
          split: if_splits)
qed

section \<open>The converter\<close>

text \<open>No picture with at least one macropixel gets through: the new frame has no memory for it.\<close>

lemma convert_uyvy_to_rgb24_faults:
  assumes "new_frame (fst s) = Some (h, Some r)" "2 \<le> fr_length (frames h f)"
  shows "convert_uyvy_to_rgb24 wt proc ds f s = Some (Inl Fault)"
proof -
  have "fr_d (frames h r) = None"
    using assms(1) by (auto simp: new_frame_def upd_frame_def split: if_splits option.splits)
  then have "frame_array (upd_frame r (\<lambda>x. x\<lparr>fr_format := a, fr_width := b, fr_height := c, fr_length := l, fr_key := k\<rparr>) h) r = []" for a b c l k
    by (simp add: frame_array_def upd_frame_def)
  moreover have "uyvy2rgb src [] (nat (fr_length (frames h f) div 2)) = Inl Fault" for src
    using assms(2) by (simp add: uyvy2rgb_def block_loop.simps [where i = 0])
  ultimately show ?thesis using assms(1) by (simp add: convert_uyvy_to_rgb24_def Let_def)
qed

end
