(* ===== verification/Audio_Ring.thy ===== *)
theory Audio_Ring
  imports Frame Soft_Queue
begin

text \<open>
  The ring of \<open>audio.c\<close>, which cuts the samples of a sound device into frames and sends them through a soft queue.
  The data of its frames lies in the ring itself. Here \<open>ar_buf\<close> is the address of the ring in the heap, an address
  inside the ring is \<open>ar_buf + i\<close>, and only \<open>ar_buf\<close> itself can be freed.
\<close>

section \<open>The ring\<close>

record audio_ring =
  ar_framelen :: nat
  ar_sample_size :: nat
  ar_sample_rate :: nat
  ar_adjust_rate :: int
  ar_adjust_count :: int
  ar_i_r :: nat
  ar_i_w :: nat
  ar_buflen :: nat
  ar_buf :: nat

text \<open>
  \<open>self\<close> says whether there is memory for the structure, \<open>b\<close> is the address of that for the samples, which holds \<open>junk\<close>.
  A remainder by zero is a fault.
\<close>

definition new_audio_ring ::
  "nat \<Rightarrow> nat \<Rightarrow> nat \<Rightarrow> bool \<Rightarrow> nat option \<Rightarrow> (nat \<Rightarrow> byte) \<Rightarrow> frame_heap \<Rightarrow> (audio_ring option \<times> frame_heap) cres" where
  "new_audio_ring sample_size sample_rate framelen self b junk h =
     (let n = sample_size * sample_rate
      in if \<not> self then Inr (None, h)
         else if framelen = 0 then Inl Fault
         else case b of
           None \<Rightarrow> Inr (None, h)
         | Some b \<Rightarrow> (let n = n - n mod framelen
                     in Inr (Some \<lparr>ar_framelen = framelen, ar_sample_size = sample_size, ar_sample_rate = sample_rate,
                               ar_adjust_rate = 0, ar_adjust_count = 0, ar_i_r = 0, ar_i_w = 0, ar_buflen = n, ar_buf = b\<rparr>,
                             h\<lparr>blocks := (blocks h)(b := Some (map junk [0..<n]))\<rparr>)))"

section \<open>Its input\<close>

type_synonym ring_state = "audio_ring \<times> frame_heap \<times> softq"

definition ring_forward :: "nat \<Rightarrow> nat \<Rightarrow> nat \<Rightarrow> nat" where
  "ring_forward n i k = (if i + k = n then 0 else i + k)"

text \<open>The copy of one sample, from \<open>i\<close> on in the input.\<close>

definition put_sample :: "byte list \<Rightarrow> nat \<Rightarrow> ring_state \<Rightarrow> ring_state cres" where
  "put_sample d i s =
     (case s of (R, h, q) \<Rightarrow>
        case blocks h (ar_buf R) of
          None \<Rightarrow> Inl Fault
        | Some mem \<Rightarrow>
            if length d < i + ar_sample_size R \<or> length mem < ar_i_w R + ar_sample_size R then Inl Fault
            else Inr (R\<lparr>ar_i_w := ring_forward (ar_buflen R) (ar_i_w R) (ar_sample_size R)\<rparr>,
                      h\<lparr>blocks := (blocks h)(ar_buf R := Some (blit mem (ar_i_w R) (take (ar_sample_size R) (drop i d))))\<rparr>, q))"

text \<open>A frame that lies in the ring, and a queue that may be full.\<close>

definition fill_ring_frame :: "audio_ring \<Rightarrow> nat \<Rightarrow> frame_heap \<Rightarrow> frame_heap" where
  "fill_ring_frame R f = upd_frame f (\<lambda>fr. fr\<lparr>fr_format := FORMAT_PCM, fr_width := 0, fr_height := 0, fr_key := True,
     fr_step := int (ar_sample_size R), fr_length := int (ar_framelen R), fr_d := Some (ar_buf R + ar_i_r R)\<rparr>)"

definition emit_frame :: "ring_state \<Rightarrow> ring_state cres option" where
  "emit_frame s =
     (case s of (R, h, q) \<Rightarrow>
        let R' = R\<lparr>ar_i_r := ring_forward (ar_buflen R) (ar_i_r R) (ar_framelen R)\<rparr>
        in case new_frame h of
             None \<Rightarrow> None
           | Some (h, None) \<Rightarrow> Some (Inr (R', h, q))
           | Some (h, Some f) \<Rightarrow>
               (let h = fill_ring_frame R f h;
                    (q, ok) = soft_queue_add f q
                in if ok then Some (Inr (R', h, q))
                   else map_option (map_sum id (\<lambda>h. (R', h, q))) (unref_frame h f)))"

text \<open>Samples are left out or doubled; the result is how many copies of the sample are stored.\<close>

definition adjust :: "int \<Rightarrow> int \<Rightarrow> nat \<times> int \<times> int" where
  "adjust rate count =
     (if rate < 0 then (if count - 1 = 0 then (0, - rate, -1) else (1, count - 1, 0))
      else if 0 < rate then (if count - 1 = 0 then (2, rate, 1) else (1, count - 1, 0))
      else (1, count, 0))"

fun put_copies :: "nat \<Rightarrow> byte list \<Rightarrow> nat \<Rightarrow> ring_state \<Rightarrow> ring_state cres" where
  "put_copies 0 d i s = Inr s"
| "put_copies (Suc n) d i s = bindE (put_sample d i s) (put_copies n d i)"

definition ring_sample :: "byte list \<Rightarrow> nat \<Rightarrow> ring_state \<times> nat \<times> int \<Rightarrow> (ring_state \<times> nat \<times> int) cres option" where
  "ring_sample d i st =
     (case st of (s, avail, corr) \<Rightarrow>
        let R = fst s; (n, count, c) = adjust (ar_adjust_rate R) (ar_adjust_count R);
            avail = avail + n * ar_sample_size R
        in case put_copies n d i (R\<lparr>ar_adjust_count := count\<rparr>, snd s) of
             Inl e \<Rightarrow> Some (Inl e)
           | Inr s \<Rightarrow>
               if n = 0 \<or> avail < ar_framelen R then Some (Inr (s, avail, corr + c))
               else map_option (map_sum id (\<lambda>s. (s, avail - ar_framelen R, corr + c))) (emit_frame s))"

function ring_samples :: "byte list \<Rightarrow> nat \<Rightarrow> nat \<Rightarrow> ring_state \<times> nat \<times> int \<Rightarrow> (ring_state \<times> nat \<times> int) cres option" where
  "ring_samples d k i st =
     (if length d \<le> i \<or> k = 0 then Some (Inr st)
      else case ring_sample d i st of
        None \<Rightarrow> None
      | Some (Inl e) \<Rightarrow> Some (Inl e)
      | Some (Inr st) \<Rightarrow> ring_samples d k (i + k) st)"
  by auto
termination by (relation "measure (\<lambda>(d, k, i, st). length d - i)") auto

declare ring_samples.simps [simp del]

text \<open>
  \<open>rate\<close> is the new rate that \<open>meter_count\<close> answers, if it does: the meter computes in floating point. The
  result has the correction for \<open>meter_report_correction\<close>. A division by zero is a fault.
\<close>

definition audio_ring_input :: "int option \<Rightarrow> byte list \<Rightarrow> ring_state \<Rightarrow> (ring_state \<times> int) cres option" where
  "audio_ring_input rate d s =
     (let R = fst s;
          R = (case rate of None \<Rightarrow> R | Some r \<Rightarrow> R\<lparr>ar_adjust_rate := r, ar_adjust_count := 1\<rparr>);
          avail = (if ar_i_w R < ar_i_r R then ar_buflen R - ar_i_r R + ar_i_w R else ar_i_w R - ar_i_r R)
      in if ar_sample_size R = 0 then Some (Inl Fault)
         else map_option (map_sum id (\<lambda>(s, avail, corr). (s, corr)))
                (ring_samples d (ar_sample_size R) 0 ((R, snd s), avail, 0)))"

end
