(* ===== verification/Audio_Ring_Proofs.thy ===== *)
theory Audio_Ring_Proofs
  imports Audio_Ring
begin

text \<open>
  What the ring of \<open>audio.c\<close> makes of the samples: frames that hold consecutive pieces of the stream of samples,
  corrected by the meter.
\<close>

section \<open>The stream of samples\<close>

definition samples_of :: "nat \<Rightarrow> byte list \<Rightarrow> byte list list" where
  "samples_of k d = map (\<lambda>m. take k (drop (m * k) d)) [0..<length d div k]"

text \<open>What is stored, the new counter and the correction.\<close>

fun resample :: "int \<Rightarrow> int \<Rightarrow> 'a list \<Rightarrow> 'a list \<times> int \<times> int" where
  "resample rate count [] = ([], count, 0)"
| "resample rate count (x # xs) =
     (let (n, count, c) = adjust rate count; (ys, count, cs) = resample rate count xs in (replicate n x @ ys, count, c + cs))"

lemma adjust_copies: "adjust rate count = (n, count', c) \<Longrightarrow> n \<le> 2 \<and> int n = 1 + c"
  by (auto simp: adjust_def split: if_splits)

lemma resample_correction: "resample rate count xs = (ys, count', c) \<Longrightarrow> int (length ys) = int (length xs) + c"
proof (induction xs arbitrary: count ys count' c)
  case (Cons x xs)
  then show ?case using adjust_copies by (fastforce simp: Let_def split: prod.splits)
qed simp

text \<open>
  What the meter asks for: with the rate 0 every sample is stored once; otherwise the sample number \<open>n\<close>, counted from 1,
  and every \<open>\<bar>r\<bar>\<close>-th after it are stored twice when \<open>r\<close> is positive, and left out when it is negative.
\<close>

definition copies :: "int \<Rightarrow> int \<Rightarrow> nat \<Rightarrow> nat" where
  "copies r n i = (if r \<noteq> 0 \<and> int i mod \<bar>r\<bar> = (n - 1) mod \<bar>r\<bar> then (if r < 0 then 0 else 2) else 1)"

definition corrected :: "int \<Rightarrow> int \<Rightarrow> 'a list \<Rightarrow> 'a list" where
  "corrected r n xs = concat (map (\<lambda>i. replicate (copies r n i) (xs ! i)) [0..<length xs])"

definition counter_ok :: "int \<Rightarrow> int \<Rightarrow> bool" where
  "counter_ok r n \<longleftrightarrow> (r \<noteq> 0 \<longrightarrow> 1 \<le> n \<and> n \<le> \<bar>r\<bar>)"

lemma adjust_spec:
  assumes "adjust r n = (k, n', c)" "counter_ok r n"
  shows "k = copies r n 0" "counter_ok r n'" "copies r n (Suc i) = copies r n' i"
proof -
  have m: "int (Suc i) mod m = a mod m \<longleftrightarrow> int i mod m = (a - 1) mod m" for a m
    by (simp add: mod_eq_dvd_iff algebra_simps)
  have w: "(m - 1) mod m = (- 1 :: int) mod m" for m by (simp add: mod_eq_dvd_iff)
  have small: "(n - 1) mod \<bar>r\<bar> = n - 1" if "r \<noteq> 0" using assms(2) that by (simp add: counter_ok_def)
  show "k = copies r n 0" using assms small by (auto simp: adjust_def copies_def counter_ok_def split: if_splits)
  show "counter_ok r n'" using assms by (auto simp: adjust_def counter_ok_def split: if_splits)
  have "(n' - 1) mod \<bar>r\<bar> = (n - 2) mod \<bar>r\<bar>" if "r \<noteq> 0"
    using assms that w [of "\<bar>r\<bar>"] by (auto simp: adjust_def counter_ok_def split: if_splits)
  then show "copies r n (Suc i) = copies r n' i" unfolding copies_def m by simp
qed

lemma corrected_Cons: "corrected r n (x # xs) = replicate (copies r n 0) x @ concat (map (\<lambda>i. replicate (copies r n (Suc i)) (xs ! i)) [0..<length xs])"
proof -
  have "[0..<length (x # xs)] = 0 # map Suc [0..<length xs]" by (simp add: upt_conv_Cons map_Suc_upt del: upt_Suc)
  then show ?thesis by (simp add: corrected_def o_def del: upt_Suc)
qed

lemma resample_corrected:
  "counter_ok r n \<Longrightarrow> resample r n xs = (corrected r n xs, fst (snd (resample r n xs)), int (length (corrected r n xs)) - int (length xs)) \<and>
     counter_ok r (fst (snd (resample r n xs)))"
proof (induction xs arbitrary: n)
  case Nil
  then show ?case by (simp add: corrected_def)
next
  case (Cons x xs)
  obtain k n' c where a: "adjust r n = (k, n', c)" by (cases "adjust r n")
  note s = adjust_spec [OF a Cons.prems]
  have cor: "corrected r n (x # xs) = replicate k x @ corrected r n' xs"
    unfolding corrected_Cons s(3) by (simp add: s(1) corrected_def)
  obtain ys n2 c2 where r: "resample r n' xs = (ys, n2, c2)" by (cases "resample r n' xs")
  with Cons.IH [OF s(2)] have "ys = corrected r n' xs" "counter_ok r n2" by auto
  moreover have "resample r n (x # xs) = (replicate k x @ ys, n2, c + c2)" by (simp add: a r)
  moreover from resample_correction [OF this] have "c + c2 = int (length (replicate k x @ ys)) - int (length (x # xs))" by simp
  ultimately show ?case by (simp add: cor)
qed

section \<open>The heap without the data pointers\<close>

definition bare :: "frame_heap \<Rightarrow> frame_heap" where
  "bare h = h\<lparr>frames := (\<lambda>f. (frames h f)\<lparr>fr_d := None\<rparr>)\<rparr>"

lemma bare_simps [simp]:
  "heap_slots (bare h) = heap_slots h" "heap_take (bare h) = heap_take h" "heap_put (bare h) = heap_put h"
  "heap_locked (bare h) = heap_locked h" "blocks (bare h) = blocks h" "free_list (bare h) = free_list h" "live (bare h) = live h"
  "ref_count (frames (bare h) f) = ref_count (frames h f)" "fr_destructor (frames (bare h) f) = fr_destructor (frames h f)"
  "fr_d (frames (bare h) f) = None"
  by (simp_all add: bare_def free_list_def live_def fun_eq_iff)

lemma wf_bare_cong:
  assumes "wf_heap (bare h)" "heap_slots h' = heap_slots h" "heap_take h' = heap_take h" "heap_put h' = heap_put h"
    "heap_locked h' = heap_locked h" "\<And>f. ref_count (frames h' f) = ref_count (frames h f)"
    "\<And>f. fr_destructor (frames h' f) = fr_destructor (frames h f)"
  shows "wf_heap (bare h')"
proof -
  have "free_list h' = free_list h" "live h' = live h" using assms by (simp_all add: free_list_def live_def fun_eq_iff)
  with assms show ?thesis by (simp add: wf_heap_def)
qed

lemma new_frame_bare: "new_frame h = Some (h', r) \<Longrightarrow> new_frame (bare h) = Some (bare h', r)"
  by (auto simp: new_frame_def bare_def upd_frame_def fun_eq_iff split: if_splits option.splits)

lemma new_frame_ring:
  assumes wf: "wf_heap (bare h)" and fl: "free_list h = f # fs"
  shows "\<exists>h'. new_frame h = Some (h', Some f) \<and> wf_heap (bare h') \<and> free_list h' = fs \<and>
    (\<forall>g. g \<noteq> f \<longrightarrow> frames h' g = frames h g) \<and> blocks h' = blocks h \<and>
    ref_count (frames h' f) = 1 \<and> fr_destructor (frames h' f) = None \<and> \<not> heap_locked h'"
proof -
  from new_frame_some [OF wf] fl obtain hb where hb: "new_frame (bare h) = Some (hb, Some f)" "wf_heap hb" "free_list hb = fs"
    by auto
  then obtain h' where h': "new_frame h = Some (h', Some f)"
    by (auto simp: new_frame_def split: if_splits option.splits)
  from new_frame_bare [OF this] hb have "hb = bare h'" by simp
  moreover have "\<forall>g. g \<noteq> f \<longrightarrow> frames h' g = frames h g" "blocks h' = blocks h"
    "ref_count (frames h' f) = 1" "fr_destructor (frames h' f) = None" "\<not> heap_locked h'"
    using h' by (auto simp: new_frame_def upd_frame_def split: if_splits option.splits)
  ultimately show ?thesis using h' hb by auto
qed

section \<open>Writing\<close>

definition ring_shape :: "audio_ring \<Rightarrow> bool" where
  "ring_shape R \<longleftrightarrow> 0 < ar_sample_size R \<and> ar_sample_size R dvd ar_framelen R \<and> 2 * ar_sample_size R \<le> ar_framelen R \<and>
     ar_framelen R dvd ar_buflen R \<and> 0 < ar_buflen R"

text \<open>The bytes \<open>T\<close> have been written from the place \<open>b\<close> of the ring on, and are all still there.\<close>

definition ring_hist :: "audio_ring \<Rightarrow> frame_heap \<Rightarrow> nat \<Rightarrow> byte list \<Rightarrow> bool" where
  "ring_hist R h b T \<longleftrightarrow>
     (\<exists>mem. blocks h (ar_buf R) = Some mem \<and> length mem = ar_buflen R \<and> (\<forall>j < length T. mem ! ((b + j) mod ar_buflen R) = T ! j)) \<and>
     length T \<le> ar_buflen R \<and> ar_i_w R = (b + length T) mod ar_buflen R \<and> ar_sample_size R dvd length T"

lemma ring_forward_mod: "i < n \<Longrightarrow> i + k \<le> n \<Longrightarrow> ring_forward n i k = (i + k) mod n"
  by (auto simp: ring_forward_def)

lemma dvd_room: "(k::nat) dvd n \<Longrightarrow> k dvd i \<Longrightarrow> i < n \<Longrightarrow> i + k \<le> n"
  by (metis add_leD1 dvd_imp_le dvd_minus_self le_diff_conv2 less_imp_le add.commute zero_less_diff dvd_diff_nat)

lemma nth_blit: "off + length xs \<le> length d \<Longrightarrow> i < length d \<Longrightarrow>
    blit d off xs ! i = (if off \<le> i \<and> i < off + length xs then xs ! (i - off) else d ! i)"
  by (auto simp: blit_def nth_append)

lemma put_sample_hist:
  assumes sh: "ring_shape R" and b: "ar_sample_size R dvd b" and hist: "ring_hist R h b T"
    and i: "i + ar_sample_size R \<le> length d" and room: "length T + ar_sample_size R \<le> ar_buflen R"
  shows "\<exists>w m. put_sample d i (R, h, q) = Inr (R\<lparr>ar_i_w := w\<rparr>, h\<lparr>blocks := (blocks h)(ar_buf R := m)\<rparr>, q) \<and>
    ring_hist (R\<lparr>ar_i_w := w\<rparr>) (h\<lparr>blocks := (blocks h)(ar_buf R := m)\<rparr>) b (T @ take (ar_sample_size R) (drop i d))"
proof -
  let ?k = "ar_sample_size R" and ?n = "ar_buflen R" and ?w = "ar_i_w R"
  let ?x = "take ?k (drop i d)"
  from hist obtain mem where mem: "blocks h (ar_buf R) = Some mem" "length mem = ?n" "\<And>j. j < length T \<Longrightarrow> mem ! ((b + j) mod ?n) = T ! j"
    by (auto simp: ring_hist_def)
  have w: "?w = (b + length T) mod ?n" "?k dvd length T" using hist by (simp_all add: ring_hist_def)
  have n: "0 < ?n" "?k dvd ?n" "0 < ?k" using sh by (auto simp: ring_shape_def intro: dvd_trans)
  have wn: "?w < ?n" "?k dvd ?w" using w b n by (simp_all add: dvd_mod)
  then have fit: "?w + ?k \<le> ?n" using dvd_room n(2) by blast
  have lx: "length ?x = ?k" using i by simp
  have old: "blit mem ?w ?x ! ((b + j) mod ?n) = (T @ ?x) ! j" if j: "j < length (T @ ?x)" for j
  proof (cases "j < length T")
    case True
    have "(b + j) mod ?n \<noteq> ?w + m" if "m < ?k" for m
    proof
      assume eq: "(b + j) mod ?n = ?w + m"
      then have "(b + j) mod ?n = (?w + m) mod ?n" using that fit by simp
      also have "\<dots> = (b + (length T + m)) mod ?n" unfolding w(1) by (simp add: mod_simps add.assoc)
      finally have "j = length T + m" using mod_add_inj [of j ?n "length T + m" b] True room that by simp
      with True show False by simp
    qed
    then have "\<not> (?w \<le> (b + j) mod ?n \<and> (b + j) mod ?n < ?w + ?k)" by (metis add_less_cancel_left le_Suc_ex)
    with True mem fit lx n(1) show ?thesis by (auto simp: nth_blit nth_append)
  next
    case False
    let ?m = "j - length T"
    have m: "?m < ?k" "j = length T + ?m" using False j lx by auto
    have "(b + j) mod ?n = (?w + ?m) mod ?n" unfolding w(1) by (subst m(2)) (simp add: mod_simps add.assoc)
    also have "\<dots> = ?w + ?m" using m(1) fit by simp
    finally have at: "(b + j) mod ?n = ?w + ?m" .
    have "blit mem ?w ?x ! (?w + ?m) = ?x ! ?m" using nth_blit [of ?w ?x mem "?w + ?m"] mem(2) m(1) fit lx by auto
    with False show ?thesis unfolding at by (simp add: nth_append)
  qed
  have fw: "ring_forward ?n ?w ?k = (b + length (T @ ?x)) mod ?n"
    unfolding ring_forward_mod [OF wn(1) fit] using lx unfolding w(1) by (simp add: mod_simps add.assoc)
  show ?thesis
    by (rule exI [of _ "ring_forward ?n ?w ?k"], rule exI [of _ "Some (blit mem ?w ?x)"])
      (use mem(1,2) i fit lx fw old room w(2) in \<open>auto simp: put_sample_def ring_hist_def\<close>)
qed


section \<open>Cutting\<close>

text \<open>
  The state in the middle of an input: \<open>T\<close> is what has been written since the last empty moment of the ring, at the
  place \<open>b\<close>; of the frames \<open>F\<close> that were free as many are in the queue, behind \<open>Q\<close>, as \<open>T\<close> has whole pieces.
\<close>

definition pieces :: "audio_ring \<Rightarrow> byte list \<Rightarrow> nat" where
  "pieces R T = length T div ar_framelen R"

definition ring_place :: "audio_ring \<Rightarrow> nat \<Rightarrow> nat \<Rightarrow> nat" where
  "ring_place R b m = (b + m * ar_framelen R) mod ar_buflen R"

definition cut_state :: "nat list \<Rightarrow> nat list \<Rightarrow> nat \<Rightarrow> nat \<Rightarrow> byte list \<Rightarrow> nat \<Rightarrow> ring_state \<Rightarrow> bool" where
  "cut_state F Q N b T k s \<longleftrightarrow>
     (case s of (R, h, q) \<Rightarrow>
        ring_shape R \<and> ar_framelen R dvd b \<and> ring_hist R h b T \<and> ar_i_r R = ring_place R b k \<and>
        wf_heap (bare h) \<and> distinct F \<and> free_list h = drop k F \<and>
        (\<forall>m < k. fr_d (frames h (F ! m)) = Some (ar_buf R + ring_place R b m) \<and> fr_length (frames h (F ! m)) = int (ar_framelen R)) \<and>
        wf_softq q \<and> queued q = Q @ take k F \<and> sq_nodes q = N)"

lemma ring_fields [simp]:
  "ring_shape (R\<lparr>ar_i_w := w\<rparr>) = ring_shape R" "ring_shape (R\<lparr>ar_i_r := w\<rparr>) = ring_shape R"
  "ring_shape (R\<lparr>ar_adjust_count := c\<rparr>) = ring_shape R" "ring_shape (R\<lparr>ar_adjust_rate := r\<rparr>) = ring_shape R"
  "ring_hist (R\<lparr>ar_i_r := w\<rparr>) h b T = ring_hist R h b T" "ring_hist (R\<lparr>ar_adjust_count := c\<rparr>) h b T = ring_hist R h b T"
  "ring_hist (R\<lparr>ar_adjust_rate := r\<rparr>) h b T = ring_hist R h b T"
  "ring_place (R\<lparr>ar_i_w := w\<rparr>) = ring_place R" "ring_place (R\<lparr>ar_i_r := w\<rparr>) = ring_place R"
  "ring_place (R\<lparr>ar_adjust_count := c\<rparr>) = ring_place R" "ring_place (R\<lparr>ar_adjust_rate := r\<rparr>) = ring_place R"
  by (simp_all add: ring_shape_def ring_hist_def ring_place_def fun_eq_iff)

text \<open>Copies of a sample; only the write position and the bytes of the ring change.\<close>

lemma put_copies_cut:
  assumes "cut_state F Q N b T k (R, h, q)" "i + ar_sample_size R \<le> length d" "length T + n * ar_sample_size R \<le> ar_buflen R"
  shows "\<exists>w h'. put_copies n d i (R, h, q) = Inr (R\<lparr>ar_i_w := w\<rparr>, h', q) \<and>
    cut_state F Q N b (T @ concat (replicate n (take (ar_sample_size R) (drop i d)))) k (R\<lparr>ar_i_w := w\<rparr>, h', q)"
  using assms
proof (induction n arbitrary: T R h)
  case 0
  then show ?case by (intro exI [of _ "ar_i_w R"] exI [of _ h]) simp
next
  case (Suc n)
  let ?x = "take (ar_sample_size R) (drop i d)"
  have c: "ring_shape R" "ar_framelen R dvd b" "ring_hist R h b T" using Suc.prems(1) by (simp_all add: cut_state_def)
  then have "ar_sample_size R dvd b" by (auto simp: ring_shape_def intro: dvd_trans)
  from put_sample_hist [OF c(1) this c(3) Suc.prems(2), of q] Suc.prems(3) obtain w m where
    p: "put_sample d i (R, h, q) = Inr (R\<lparr>ar_i_w := w\<rparr>, h\<lparr>blocks := (blocks h)(ar_buf R := m)\<rparr>, q)"
      "ring_hist (R\<lparr>ar_i_w := w\<rparr>) (h\<lparr>blocks := (blocks h)(ar_buf R := m)\<rparr>) b (T @ ?x)" by auto
  let ?R = "R\<lparr>ar_i_w := w\<rparr>" and ?h = "h\<lparr>blocks := (blocks h)(ar_buf R := m)\<rparr>"
  have "wf_heap (bare h)" using Suc.prems(1) by (simp add: cut_state_def)
  then have "wf_heap (bare ?h)" by (rule wf_bare_cong) simp_all
  then have "cut_state F Q N b (T @ ?x) k (?R, ?h, q)"
    using Suc.prems(1) p(2) by (simp add: cut_state_def free_list_def)
  from Suc.IH [OF this] Suc.prems obtain w' h' where
    "put_copies n d i (?R, ?h, q) = Inr (?R\<lparr>ar_i_w := w'\<rparr>, h', q)"
    "cut_state F Q N b ((T @ ?x) @ concat (replicate n ?x)) k (?R\<lparr>ar_i_w := w'\<rparr>, h', q)" by auto
  moreover have "(T @ ?x) @ concat (replicate n ?x) = T @ concat (replicate (Suc n) ?x)" by simp
  ultimately show ?case using p(1) by (intro exI [of _ w'] exI [of _ h']) (simp only: put_copies.simps bindE_simps audio_ring.update_convs, simp)
qed

text \<open>A frame is sent.\<close>

lemma emit_cut:
  assumes cut: "cut_state F Q N b T k (R, h, q)" and F: "k < length F" and N: "length Q + k < N"
  shows "\<exists>r h' q'. emit_frame (R, h, q) = Some (Inr (R\<lparr>ar_i_r := r\<rparr>, h', q')) \<and> cut_state F Q N b T (Suc k) (R\<lparr>ar_i_r := r\<rparr>, h', q')"
proof -
  let ?f = "F ! k" and ?n = "ar_buflen R" and ?l = "ar_framelen R"
  have c: "ring_shape R" "?l dvd b" "ring_hist R h b T" "ar_i_r R = ring_place R b k" "wf_heap (bare h)" "distinct F"
    "free_list h = drop k F" "wf_softq q" "queued q = Q @ take k F" "sq_nodes q = N"
    "\<And>m. m < k \<Longrightarrow> fr_d (frames h (F ! m)) = Some (ar_buf R + ring_place R b m) \<and> fr_length (frames h (F ! m)) = int ?l"
    using cut by (simp_all add: cut_state_def)
  have "free_list h = ?f # drop (Suc k) F" using c(7) F by (simp add: Cons_nth_drop_Suc)
  from new_frame_ring [OF c(5) this] obtain h1 where h1: "new_frame h = Some (h1, Some ?f)" "wf_heap (bare h1)"
    "free_list h1 = drop (Suc k) F" "\<And>g. g \<noteq> ?f \<Longrightarrow> frames h1 g = frames h g" "blocks h1 = blocks h" by auto
  let ?h = "fill_ring_frame R ?f h1"
  obtain q' ok where q: "soft_queue_add ?f q = (q', ok)" by fastforce
  note a = add_spec [OF c(8) q]
  have ok: "ok" using a(3) c(9,10) F N by simp
  have n: "0 < ?n" "?l dvd ?n" using c(1) by (simp_all add: ring_shape_def)
  have r: "ring_forward ?n (ar_i_r R) ?l = ring_place R b (Suc k)"
  proof -
    have "ar_i_r R < ?n" "?l dvd ar_i_r R" using n c(2,4) by (simp_all add: ring_place_def dvd_mod)
    then have "ring_forward ?n (ar_i_r R) ?l = (ar_i_r R + ?l) mod ?n" using dvd_room [OF n(2)] by (intro ring_forward_mod)
    then show ?thesis by (simp add: c(4) ring_place_def mod_simps add_ac)
  qed
  have "emit_frame (R, h, q) = Some (Inr (R\<lparr>ar_i_r := ring_place R b (Suc k)\<rparr>, ?h, q'))"
    using h1(1) q ok by (simp add: emit_frame_def r Let_def)
  moreover have "cut_state F Q N b T (Suc k) (R\<lparr>ar_i_r := ring_place R b (Suc k)\<rparr>, ?h, q')"
  proof -
    have wf: "wf_heap (bare ?h)" by (rule wf_bare_cong [OF h1(2)]) (simp_all add: fill_ring_frame_def)
    have hist: "ring_hist R ?h b T" using c(3) h1(5) by (simp add: ring_hist_def fill_ring_frame_def)
    have fr: "fr_d (frames ?h (F ! m)) = Some (ar_buf R + ring_place R b m) \<and> fr_length (frames ?h (F ! m)) = int ?l" if "m < Suc k" for m
    proof (cases "m = k")
      case True
      then show ?thesis by (simp add: fill_ring_frame_def c(4))
    next
      case False
      with that have "m < k" by simp
      moreover have "F ! m \<noteq> ?f" using \<open>m < k\<close> F c(6) by (simp add: nth_eq_iff_index_eq)
      ultimately show ?thesis using c(11) h1(4) by (simp add: fill_ring_frame_def)
    qed
    have "queued q' = Q @ take (Suc k) F" using a(2) ok c(9) F by (simp add: take_Suc_conv_app_nth)
    with wf hist fr c h1(3) a(1,4) show ?thesis by (simp add: cut_state_def fill_ring_frame_def)
  qed
  ultimately show ?thesis by blast
qed


section \<open>A sample, and all of them\<close>

lemma div_mod_by: "(y::nat) < l \<Longrightarrow> (c * l + y) div l = c \<and> (c * l + y) mod l = y"
  by simp

lemma pieces_grow:
  assumes "0 < (l::nat)" "x \<le> l"
  shows "n mod l + x < l \<Longrightarrow> (n + x) div l = n div l \<and> (n + x) mod l = n mod l + x"
    "l \<le> n mod l + x \<Longrightarrow> (n + x) div l = Suc (n div l) \<and> (n + x) mod l = n mod l + x - l"
proof -
  have n: "n + x = n div l * l + (n mod l + x)" by simp
  show "(n + x) div l = n div l \<and> (n + x) mod l = n mod l + x" if "n mod l + x < l"
    using div_mod_by [OF that, of "n div l"] unfolding n [symmetric] .
  assume a: "l \<le> n mod l + x"
  have "n mod l < l" using assms(1) by simp
  then have "n mod l + x - l < l" using assms(2) by linarith
  moreover have "n + x = Suc (n div l) * l + (n mod l + x - l)" using n a by simp
  ultimately show "(n + x) div l = Suc (n div l) \<and> (n + x) mod l = n mod l + x - l"
    using div_mod_by by metis
qed

text \<open>What can change in the ring.\<close>

definition moved :: "audio_ring \<Rightarrow> int \<Rightarrow> audio_ring \<Rightarrow> bool" where
  "moved R count R' \<longleftrightarrow> R' = R\<lparr>ar_adjust_count := count, ar_i_w := ar_i_w R', ar_i_r := ar_i_r R'\<rparr>"

lemma moved_fields:
  "moved R count R' \<Longrightarrow> ar_framelen R' = ar_framelen R \<and> ar_sample_size R' = ar_sample_size R \<and> ar_buflen R' = ar_buflen R \<and>
     ar_buf R' = ar_buf R \<and> ar_adjust_rate R' = ar_adjust_rate R \<and> ar_adjust_count R' = count"
  unfolding moved_def by (metis audio_ring.select_convs audio_ring.surjective audio_ring.update_convs(5,6,7))

lemma ring_sample_cut:
  assumes cut: "cut_state F Q N b T (length T div l) (R, h, q)" and l: "ar_framelen R = l"
    and i: "i + ar_sample_size R \<le> length d" and a: "adjust (ar_adjust_rate R) (ar_adjust_count R) = (n, count, c)"
    and T': "T' = T @ concat (replicate n (take (ar_sample_size R) (drop i d)))"
    and room: "length T' \<le> ar_buflen R" "length T' div l \<le> length F" "length Q + length T' div l \<le> N"
  shows "\<exists>R' h' q'. ring_sample d i ((R, h, q), length T mod l, corr) = Some (Inr ((R', h', q'), length T' mod l, corr + c)) \<and>
    moved R count R' \<and> cut_state F Q N b T' (length T' div l) (R', h', q')"
proof -
  let ?k = "ar_sample_size R" and ?R = "R\<lparr>ar_adjust_count := count\<rparr>"
  have lT: "length T' = length T + n * ?k" using i by (simp add: T' length_concat sum_list_replicate)
  have sh: "0 < l" "n * ?k \<le> l"
  proof -
    have "2 * ?k \<le> l" "0 < ?k" using cut l by (auto simp: cut_state_def ring_shape_def)
    moreover have "n * ?k \<le> 2 * ?k" using adjust_copies [OF a] by (intro mult_right_mono) auto
    ultimately show "0 < l" "n * ?k \<le> l" by linarith+
  qed
  have "cut_state F Q N b T (length T div l) (?R, h, q)" using cut by (simp add: cut_state_def)
  from put_copies_cut [OF this, of i d n] i room(1) lT T' obtain w h1 where
    p: "put_copies n d i (?R, h, q) = Inr (?R\<lparr>ar_i_w := w\<rparr>, h1, q)" "cut_state F Q N b T' (length T div l) (?R\<lparr>ar_i_w := w\<rparr>, h1, q)"
    by auto
  show ?thesis
  proof (cases "length T mod l + n * ?k < l")
    case True
    have "ring_sample d i ((R, h, q), length T mod l, corr) =
        Some (Inr ((?R\<lparr>ar_i_w := w\<rparr>, h1, q), length T mod l + n * ?k, corr + c))"
      using p(1) a True l by (simp add: ring_sample_def Let_def)
    moreover have "moved R count (?R\<lparr>ar_i_w := w\<rparr>)" by (simp add: moved_def)
    ultimately show ?thesis using p(2) pieces_grow(1) [OF sh True] lT by auto
  next
    case False
    then have g: "length T' div l = Suc (length T div l)" "length T' mod l = length T mod l + n * ?k - l"
      using pieces_grow(2) [OF sh, of "length T"] lT by auto
    have "n \<noteq> 0" using False sh(1) by (intro notI) simp
    from emit_cut [OF p(2)] room(2,3) g(1) obtain r h2 q2 where
      e: "emit_frame (?R\<lparr>ar_i_w := w\<rparr>, h1, q) = Some (Inr (?R\<lparr>ar_i_w := w, ar_i_r := r\<rparr>, h2, q2))"
        "cut_state F Q N b T' (length T' div l) (?R\<lparr>ar_i_w := w, ar_i_r := r\<rparr>, h2, q2)" by auto
    have "ring_sample d i ((R, h, q), length T mod l, corr) =
        Some (Inr ((?R\<lparr>ar_i_w := w, ar_i_r := r\<rparr>, h2, q2), length T' mod l, corr + c))"
      using p(1) a False l e(1) g(2) \<open>n \<noteq> 0\<close> by (simp add: ring_sample_def Let_def)
    moreover have "moved R count (?R\<lparr>ar_i_w := w, ar_i_r := r\<rparr>)" by (simp add: moved_def)
    ultimately show ?thesis using e(2) by blast
  qed
qed

lemma moved_trans: "moved R c1 R1 \<Longrightarrow> moved R1 c2 R2 \<Longrightarrow> moved R c2 R2"
  unfolding moved_def by (cases R; cases R1; cases R2) simp

lemma ring_samples_cut:
  assumes "cut_state F Q N b T (length T div l) (R, h, q)" "ar_framelen R = l" "ar_sample_size R = k"
    and "length d = M * k" "m \<le> M"
    and "resample (ar_adjust_rate R) (ar_adjust_count R) (map (\<lambda>j. take k (drop (j * k) d)) [m..<M]) = (ys, count, c)"
    and "T' = T @ concat ys" "length T' \<le> ar_buflen R" "length T' div l \<le> length F" "length Q + length T' div l \<le> N"
  shows "\<exists>R' h' q'. ring_samples d k (m * k) ((R, h, q), length T mod l, corr) = Some (Inr ((R', h', q'), length T' mod l, corr + c)) \<and>
    moved R count R' \<and> cut_state F Q N b T' (length T' div l) (R', h', q')"
  using assms
proof (induction "M - m" arbitrary: m T R h q corr ys c)
  case 0
  then have m: "m = M" by simp
  then have "ring_samples d k (m * k) ((R, h, q), length T mod l, corr) = Some (Inr ((R, h, q), length T mod l, corr))"
    using 0 by (subst ring_samples.simps) simp
  moreover have "moved R count R" using 0 m by (simp add: moved_def)
  ultimately show ?case using 0 m by auto
next
  case (Suc x)
  have m: "m < M" "[m..<M] = m # [Suc m..<M]" using Suc.hyps(2) by (simp_all add: upt_conv_Cons)
  have k: "0 < k" using Suc.prems(1,3) by (auto simp: cut_state_def ring_shape_def)
  have i: "m * k + ar_sample_size R \<le> length d"
  proof -
    have "Suc m * k \<le> M * k" using m(1) by (intro mult_right_mono) auto
    then show ?thesis using Suc.prems(3,4) by simp
  qed
  obtain n c1 d1 where a: "adjust (ar_adjust_rate R) (ar_adjust_count R) = (n, c1, d1)" by (metis prod_cases3)
  obtain zs c2 d2 where r: "resample (ar_adjust_rate R) c1 (map (\<lambda>j. take k (drop (j * k) d)) [Suc m..<M]) = (zs, c2, d2)"
    by (metis prod_cases3)
  let ?x = "take k (drop (m * k) d)"
  have ys: "ys = replicate n ?x @ zs" "count = c2" "c = d1 + d2" using Suc.prems(6) a r m(2) by (auto simp: Let_def)
  let ?T = "T @ concat (replicate n (take (ar_sample_size R) (drop (m * k) d)))"
  have T: "T' = ?T @ concat zs" using Suc.prems(3,7) ys by simp
  then have le: "length ?T \<le> length T'" by simp
  then have le': "length ?T div l \<le> length T' div l" by (rule div_le_mono)
  have room: "length ?T \<le> ar_buflen R" "length ?T div l \<le> length F" "length Q + length ?T div l \<le> N"
    using Suc.prems(8-10) le le' by linarith+
  from ring_sample_cut [OF Suc.prems(1,2) i a refl room, of corr] obtain R1 h1 q1 where
    1: "ring_sample d (m * k) ((R, h, q), length T mod l, corr) = Some (Inr ((R1, h1, q1), length ?T mod l, corr + d1))"
      "moved R c1 R1" "cut_state F Q N b ?T (length ?T div l) (R1, h1, q1)" by blast
  note f = moved_fields [OF 1(2)]
  have "x = M - Suc m" "Suc m \<le> M" using Suc.hyps(2) m(1) by auto
  have "resample (ar_adjust_rate R1) (ar_adjust_count R1) (map (\<lambda>j. take k (drop (j * k) d)) [Suc m..<M]) = (zs, count, d2)"
    using r f ys(2) by simp
  moreover have "length T' \<le> ar_buflen R1" "ar_framelen R1 = l" "ar_sample_size R1 = k" using Suc.prems(2,3,8) f by simp_all
  ultimately obtain R2 h2 q2 where
    2: "ring_samples d k (Suc m * k) ((R1, h1, q1), length ?T mod l, corr + d1) =
        Some (Inr ((R2, h2, q2), length T' mod l, corr + d1 + d2))" "moved R1 count R2" "cut_state F Q N b T' (length T' div l) (R2, h2, q2)"
    using Suc.hyps(1) [OF \<open>x = M - Suc m\<close> 1(3) _ _ Suc.prems(4) \<open>Suc m \<le> M\<close> _ T _ Suc.prems(9,10), of d2 "corr + d1"] by blast
  have "ring_samples d k (m * k) ((R, h, q), length T mod l, corr) = Some (Inr ((R2, h2, q2), length T' mod l, corr + d1 + d2))"
    by (subst ring_samples.simps) (use 1(1) 2(1) k i Suc.prems(3) in \<open>simp add: add.commute\<close>)
  with 2 moved_trans [OF 1(2) 2(2)] ys(3) show ?case by (auto simp: add.assoc)
qed


section \<open>Between two inputs\<close>

text \<open>\<open>p\<close> are the bytes that wait for the rest of their frame.\<close>

definition ring_ok :: "byte list \<Rightarrow> ring_state \<Rightarrow> bool" where
  "ring_ok p s \<longleftrightarrow> length p < ar_framelen (fst s) \<and> counter_ok (ar_adjust_rate (fst s)) (ar_adjust_count (fst s)) \<and>
     cut_state (free_list (fst (snd s))) (queued (snd (snd s))) (sq_nodes (snd (snd s))) (ar_i_r (fst s)) p 0 s"

text \<open>What is at the data pointer of a frame that lies in the ring.\<close>

definition ring_data :: "ring_state \<Rightarrow> nat \<Rightarrow> byte list option" where
  "ring_data s f =
     (case s of (R, h, q) \<Rightarrow>
        case (fr_d (frames h f), blocks h (ar_buf R)) of
          (Some a, Some mem) \<Rightarrow> if ar_buf R \<le> a then Some (take (nat (fr_length (frames h f))) (drop (a - ar_buf R) mem)) else None
        | _ \<Rightarrow> None)"

lemma ring_place_room:
  assumes "ring_shape R" "ar_framelen R dvd b"
  shows "ring_place R b m < ar_buflen R" "ar_framelen R dvd ring_place R b m" "ring_place R b m + ar_framelen R \<le> ar_buflen R"
proof -
  have n: "0 < ar_buflen R" "ar_framelen R dvd ar_buflen R" using assms(1) by (simp_all add: ring_shape_def)
  then show 1: "ring_place R b m < ar_buflen R" "ar_framelen R dvd ring_place R b m"
    using assms(2) by (simp_all add: ring_place_def dvd_mod)
  show "ring_place R b m + ar_framelen R \<le> ar_buflen R" by (rule dvd_room [OF n(2) 1(2,1)])
qed

lemma cut_data:
  assumes cut: "cut_state F Q N b T k (R, h, q)" and m: "m < k" "k * ar_framelen R \<le> length T"
  shows "ring_data (R, h, q) (F ! m) = Some (take (ar_framelen R) (drop (m * ar_framelen R) T))"
proof -
  let ?l = "ar_framelen R" and ?n = "ar_buflen R"
  have c: "ring_shape R" "?l dvd b" "ring_hist R h b T"
    "fr_d (frames h (F ! m)) = Some (ar_buf R + ring_place R b m)" "fr_length (frames h (F ! m)) = int ?l"
    using cut m(1) by (simp_all add: cut_state_def)
  from c(3) obtain mem where mem: "blocks h (ar_buf R) = Some mem" "length mem = ?n"
    "\<And>j. j < length T \<Longrightarrow> mem ! ((b + j) mod ?n) = T ! j" by (auto simp: ring_hist_def)
  note p = ring_place_room [OF c(1,2), of m]
  have fit: "m * ?l + ?l \<le> length T" using m by (metis Suc_leI add.commute mult_Suc mult_le_mono1 order_trans)
  have "take ?l (drop (ring_place R b m) mem) = take ?l (drop (m * ?l) T)"
  proof (rule nth_equalityI)
    show "length (take ?l (drop (ring_place R b m) mem)) = length (take ?l (drop (m * ?l) T))" using p(3) fit mem(2) by simp
    fix j assume "j < length (take ?l (drop (ring_place R b m) mem))"
    then have j: "j < ?l" by simp
    have "ring_place R b m + j = (ring_place R b m + j) mod ?n" using p(3) j by simp
    also have "\<dots> = (b + (m * ?l + j)) mod ?n" by (simp add: ring_place_def mod_simps add.assoc)
    finally have at: "ring_place R b m + j = (b + (m * ?l + j)) mod ?n" .
    have "mem ! (ring_place R b m + j) = T ! (m * ?l + j)" unfolding at by (rule mem(3)) (use j fit in linarith)
    then show "take ?l (drop (ring_place R b m) mem) ! j = take ?l (drop (m * ?l) T) ! j" using j p(3) fit mem(2) by simp
  qed
  then show ?thesis using c(4,5) mem(1) by (simp add: ring_data_def)
qed

lemma cut_rest:
  assumes cut: "cut_state F Q N b T (length T div ar_framelen R) (R, h, q)" and n: "counter_ok (ar_adjust_rate R) (ar_adjust_count R)"
  shows "ring_ok (drop (length T div ar_framelen R * ar_framelen R) T) (R, h, q)"
proof -
  let ?l = "ar_framelen R" and ?n = "ar_buflen R"
  let ?c = "length T div ?l * ?l"
  have c: "ring_shape R" "?l dvd b" "ring_hist R h b T" "ar_i_r R = ring_place R b (length T div ?l)"
    "wf_heap (bare h)" "wf_softq q" using cut by (simp_all add: cut_state_def)
  from c(3) obtain mem where mem: "blocks h (ar_buf R) = Some mem" "length mem = ?n"
    "\<And>j. j < length T \<Longrightarrow> mem ! ((b + j) mod ?n) = T ! j" by (auto simp: ring_hist_def)
  have l: "0 < ?l" "ar_sample_size R dvd ?l" using c(1) by (auto simp: ring_shape_def intro: Nat.gr0I)
  have le: "?c \<le> length T" by simp
  have w: "length T \<le> ?n" "ar_i_w R = (b + length T) mod ?n" "ar_sample_size R dvd length T"
    using c(3) by (auto simp: ring_hist_def)
  have "mem ! ((ar_i_r R + j) mod ?n) = drop ?c T ! j" if "j < length (drop ?c T)" for j
    using mem(3) [of "?c + j"] that le by (simp add: c(4) ring_place_def mod_simps add.assoc)
  moreover have "ar_i_w R = (ar_i_r R + length (drop ?c T)) mod ?n"
  proof -
    have "(ar_i_r R + x) mod ?n = (b + (?c + x)) mod ?n" for x
      by (simp add: c(4) ring_place_def mod_simps add.assoc)
    then have "(ar_i_r R + length (drop ?c T)) mod ?n = (b + (?c + (length T - ?c))) mod ?n" by (simp only: length_drop)
    also have "\<dots> = (b + length T) mod ?n" using le by (simp only: le_add_diff_inverse)
    finally show ?thesis using w(2) by simp
  qed
  moreover have "ar_sample_size R dvd length (drop ?c T)" using w(3) l(2) by (simp add: dvd_diff_nat)
  ultimately have hist: "ring_hist R h (ar_i_r R) (drop ?c T)" using mem w(1) by (auto simp: ring_hist_def)
  have "length (drop ?c T) < ?l" using l(1) by (simp add: minus_div_mult_eq_mod)
  moreover have "?l dvd ar_i_r R" "ar_i_r R < ?n" using ring_place_room [OF c(1,2)] c(4) by simp_all
  moreover have "distinct (free_list h)" using c(5) by (simp add: wf_heap_def)
  ultimately show ?thesis using c hist n by (simp add: ring_ok_def cut_state_def ring_place_def)
qed

text \<open>
  C31. An input of whole samples to a ring whose frames are at least two samples long, when the bytes to be stored fit into
  the ring together with those that wait, and there are as many free frames and as much room in the queue as pieces to
  be sent. The samples are stored as the meter asks (\<open>copies\<close>): with the rate \<open>r\<close>, one sample of every \<open>\<bar>r\<bar>\<close> is doubled
  when \<open>r\<close> is positive and left out when it is negative, beginning with the first sample after a new answer of the meter
  and else where the counter stands; the correction that is reported is the difference. Together with what waited in the
  ring the samples are cut into frames, which go to the queue in order and hold the consecutive pieces when the function
  returns; the rest waits. Without room in the queue the ring itself may be freed, see \<open>full_queue_frees_ring\<close>.
\<close>

theorem audio_ring_cuts:
  assumes ok: "ring_ok p (R, h, q)" and d: "ar_sample_size R dvd length d"
    and rate: "r = (case rate of None \<Rightarrow> ar_adjust_rate R | Some r \<Rightarrow> r)" "n = (case rate of None \<Rightarrow> ar_adjust_count R | Some _ \<Rightarrow> 1)"
    and ys: "ys = corrected r n (samples_of (ar_sample_size R) d)"
    and T: "T = p @ concat ys" "k = length T div ar_framelen R"
    and room: "length T \<le> ar_buflen R" "k \<le> length (free_list h)" "length (queued q) + k \<le> sq_nodes q"
  shows "\<exists>s. audio_ring_input rate d (R, h, q) = Some (Inr (s, int (length ys) - int (length (samples_of (ar_sample_size R) d)))) \<and>
       ring_ok (drop (k * ar_framelen R) T) s \<and> queued (snd (snd s)) = queued q @ take k (free_list h) \<and>
       (\<forall>m < k. ring_data s (free_list h ! m) = Some (take (ar_framelen R) (drop (m * ar_framelen R) T)))"
proof -
  have "counter_ok r n" using ok rate by (auto simp: ring_ok_def counter_ok_def split: option.splits)
  note res = resample_corrected [OF this, of "samples_of (ar_sample_size R) d", folded ys]
  define count where "count = fst (snd (resample r n (samples_of (ar_sample_size R) d)))"
  define c where "c = int (length ys) - int (length (samples_of (ar_sample_size R) d))"
  have stored: "resample r n (samples_of (ar_sample_size R) d) = (ys, count, c)" and cok: "counter_ok r count"
    using res by (simp_all add: count_def c_def)
  let ?l = "ar_framelen R" and ?k = "ar_sample_size R"
  let ?R = "case rate of None \<Rightarrow> R | Some r \<Rightarrow> R\<lparr>ar_adjust_rate := r, ar_adjust_count := 1\<rparr>"
  have f: "ar_framelen ?R = ?l" "ar_sample_size ?R = ?k" "ar_buflen ?R = ar_buflen R" "ar_adjust_rate ?R = r" "ar_adjust_count ?R = n"
    "ar_i_r ?R = ar_i_r R" "ar_i_w ?R = ar_i_w R" by (simp_all add: rate split: option.splits)
  have p: "length p < ?l" "cut_state (free_list h) (queued q) (sq_nodes q) (ar_i_r R) p 0 (R, h, q)"
    using ok by (simp_all add: ring_ok_def)
  then have sh: "ring_shape R" "?l dvd ar_i_r R" "ar_i_r R = ring_place R (ar_i_r R) 0" "ar_i_w R = (ar_i_r R + length p) mod ar_buflen R"
    by (simp_all add: cut_state_def ring_hist_def)
  have "ar_i_r R + ?l \<le> ar_buflen R" using ring_place_room(3) [OF sh(1,2), of 0] sh(3) by simp
  then have av: "ar_i_w R = ar_i_r R + length p" using sh(4) p(1) by simp
  have cut: "cut_state (free_list h) (queued q) (sq_nodes q) (ar_i_r R) p (length p div ?l) (?R, h, q)"
    using p by (auto simp: cut_state_def split: option.splits)
  have len: "length d = length d div ?k * ?k" using d by simp
  have res0: "resample (ar_adjust_rate ?R) (ar_adjust_count ?R) (map (\<lambda>j. take ?k (drop (j * ?k) d)) [0..<length d div ?k]) = (ys, count, c)"
    using stored f by (simp add: samples_of_def)
  have room': "length T \<le> ar_buflen ?R" "length T div ?l \<le> length (free_list h)" "length (queued q) + length T div ?l \<le> sq_nodes q"
    using room f(3) T(2) by simp_all
  obtain R' h' q' where
    res: "ring_samples d ?k (0 * ?k) ((?R, h, q), length p mod ?l, 0) = Some (Inr ((R', h', q'), length T mod ?l, 0 + c))"
      "moved ?R count R'" "cut_state (free_list h) (queued q) (sq_nodes q) (ar_i_r R) T (length T div ?l) (R', h', q')"
    using ring_samples_cut [OF cut f(1,2) len le0 res0 T(1) room', of 0] by blast
  have R': "ar_framelen R' = ?l" using moved_fields [OF res(2)] f(1) by simp
  have "0 < ?k" using sh(1) by (simp add: ring_shape_def)
  then have "audio_ring_input rate d (R, h, q) = Some (Inr ((R', h', q'), c))"
    using res(1) f p(1) av by (simp add: audio_ring_input_def Let_def)
  moreover have "ring_ok (drop (k * ?l) T) (R', h', q')"
    using cut_rest [of _ _ _ _ T R'] res(3) R' T(2) moved_fields [OF res(2)] cok f(4) by simp
  moreover have "queued q' = queued q @ take k (free_list h)" using res(3) T(2) by (simp add: cut_state_def)
  moreover have "\<forall>m < k. ring_data (R', h', q') (free_list h ! m) = Some (take ?l (drop (m * ?l) T))"
    using cut_data [OF res(3)] R' T(2) by simp
  ultimately show "\<exists>s. audio_ring_input rate d (R, h, q) = Some (Inr (s, int (length ys) - int (length (samples_of ?k d)))) \<and> ring_ok (drop (k * ?l) T) s \<and>
       queued (snd (snd s)) = queued q @ take k (free_list h) \<and>
       (\<forall>m < k. ring_data s (free_list h ! m) = Some (take ?l (drop (m * ?l) T)))" unfolding c_def [symmetric] by auto
qed


text \<open>A new ring is empty.\<close>

lemma new_audio_ring_ok:
  assumes "0 < ss" "ss dvd fl" "2 * ss \<le> fl" "fl \<le> ss * sr" "wf_heap h" "wf_softq q"
  shows "\<exists>R h'. new_audio_ring ss sr fl True (Some b) junk h = Inr (Some R, h') \<and> ring_ok [] (R, h', q) \<and> ar_framelen R = fl \<and>
    ar_sample_size R = ss \<and> ar_adjust_rate R = 0 \<and> ar_buflen R = ss * sr div fl * fl \<and> ar_i_r R = 0 \<and>
    free_list h' = free_list h"
proof -
  let ?n = "ss * sr - ss * sr mod fl"
  have n: "fl dvd ?n" "0 < fl" "0 < ?n" using assms(1-4) by (auto simp: minus_mod_eq_mult_div div_greater_zero_iff)
  let ?R = "\<lparr>ar_framelen = fl, ar_sample_size = ss, ar_sample_rate = sr, ar_adjust_rate = 0, ar_adjust_count = 0, ar_i_r = 0,
    ar_i_w = 0, ar_buflen = ?n, ar_buf = b\<rparr>"
  let ?h = "h\<lparr>blocks := (blocks h)(b := Some (map junk [0..<?n]))\<rparr>"
  have e: "new_audio_ring ss sr fl True (Some b) junk h = Inr (Some ?R, ?h)"
    using n(2) by (simp add: new_audio_ring_def Let_def)
  have fl: "free_list ?h = free_list h" by (simp add: free_list_def)
  have bare: "wf_heap (bare h)"
    using assms(5) by (simp add: wf_heap_def)
  have "wf_heap (bare ?h)" by (rule wf_bare_cong [OF bare]) simp_all
  then have "ring_ok [] (?R, ?h, q)"
    using assms(1-6) n
    by (auto simp: ring_ok_def cut_state_def ring_shape_def ring_hist_def ring_place_def fl wf_heap_def counter_ok_def)
  with e fl show ?thesis by (intro exI [of _ ?R] exI [of _ ?h]) (simp add: minus_mod_eq_div_mult)
qed

section \<open>A full queue\<close>

text \<open>
  When the queue takes no frame, \<open>unref_frame\<close> frees its data: an address inside the ring, which is no block, or the
  ring itself.
\<close>

lemma full_queue_frees_ring:
  assumes cut: "cut_state F Q N b T k (R, h, q)" and F: "k < length F" and full: "length Q + k = N"
    and inside: "\<And>i. 0 < i \<Longrightarrow> i < ar_buflen R \<Longrightarrow> blocks h (ar_buf R + i) = None"
  shows "emit_frame (R, h, q) = Some (Inl Fault) \<or> (\<exists>R' h' q'. emit_frame (R, h, q) = Some (Inr (R', h', q')) \<and> blocks h' (ar_buf R') = None)"
proof -
  let ?f = "F ! k"
  have c: "ring_shape R" "ar_framelen R dvd b" "ring_hist R h b T" "ar_i_r R = ring_place R b k" "wf_heap (bare h)"
    "free_list h = drop k F" "wf_softq q" "queued q = Q @ take k F" "sq_nodes q = N"
    using cut by (simp_all add: cut_state_def)
  have "free_list h = ?f # drop (Suc k) F" using c(6) F by (simp add: Cons_nth_drop_Suc)
  from new_frame_ring [OF c(5) this] obtain h1 where h1: "new_frame h = Some (h1, Some ?f)" "blocks h1 = blocks h"
    "ref_count (frames h1 ?f) = 1" "fr_destructor (frames h1 ?f) = None" "\<not> heap_locked h1" by auto
  obtain q' ok where q: "soft_queue_add ?f q = (q', ok)" by fastforce
  have "\<not> ok" using add_spec(3) [OF c(7) q] c(8,9) F full by simp
  with q h1(1) have e: "emit_frame (R, h, q) = map_option (map_sum id (\<lambda>h. (R\<lparr>ar_i_r := ring_forward (ar_buflen R) (ar_i_r R) (ar_framelen R)\<rparr>, h, q')))
      (unref_frame (fill_ring_frame R ?f h1) ?f)"
    by (simp add: emit_frame_def Let_def)
  have r: "ar_i_r R < ar_buflen R" using ring_place_room(1) [OF c(1,2)] c(4) by simp
  obtain mem where mem: "blocks h (ar_buf R) = Some mem" using c(3) by (auto simp: ring_hist_def)
  show ?thesis
  proof (cases "ar_i_r R = 0")
    case True
    with h1 mem show ?thesis unfolding e
      by (subst (1 2) unref_frame.simps) (auto simp: fill_ring_frame_def release_frame_def free_data_def put_frame_def Let_def)
  next
    case False
    with h1 inside [OF _ r] show ?thesis unfolding e
      by (subst unref_frame.simps) (simp add: fill_ring_frame_def release_frame_def free_data_def Let_def)
  qed
qed


section \<open>An example\<close>

lemma new_soft_queue_size: "sq_nodes (new_soft_queue junk n) = n"
  using queue_lengths [OF new_soft_queue_of [of junk n]] by simp

text \<open>Six samples of two bytes, two of which fill a frame, and every third one doubled.\<close>

theorem audio_ring_cuts_witness:
  "\<exists>R h q s. ring_ok [] (R, h, q) \<and> audio_ring_input (Some 3) [1, 2, 3, 4, 5, 6, 7, 8] (R, h, q) = Some (Inr (s, 2)) \<and>
     ring_data s (free_list h ! 0) = Some [1, 2, 1, 2] \<and> ring_data s (free_list h ! 2) = Some [7, 8, 7, 8] \<and> ring_ok [] s"
proof -
  obtain h where h: "init_frame_heap 100 4 = Inr h" "wf_heap h" "free_list h = [0, 1, 2, 3]"
    using init_frame_heap_wf [of 4 100] by (auto simp: upt_rec)
  let ?q = "new_soft_queue (\<lambda>_. \<lparr>se_next = 0, se_prev = 0, event_data = 0\<rparr>) 16"
  have q: "wf_softq ?q" "queued ?q = []" "sq_nodes ?q = 16"
    using new_soft_queue_ok by (simp_all add: new_soft_queue_size)
  from new_audio_ring_ok [of 2 4 10 h ?q 1000 "\<lambda>_. 0"] h(2) q(1) obtain R h' where
    R: "ring_ok [] (R, h', ?q)" "ar_framelen R = 4" "ar_sample_size R = 2" "ar_buflen R = 20" "free_list h' = free_list h" by auto
  have d: "samples_of 2 [1, 2, 3, 4, 5, 6, 7, 8 :: byte] = [[1, 2], [3, 4], [5, 6], [7, 8]]" by (simp add: samples_of_def upt_rec)
  have st: "corrected 3 1 [[1, 2], [3, 4], [5, 6], [7, 8 :: byte]] = [[1, 2], [1, 2], [3, 4], [5, 6], [7, 8], [7, 8]]"
    by (simp add: corrected_def copies_def upt_rec numeral_2_eq_2)
  from audio_ring_cuts [OF R(1), of "[1, 2, 3, 4, 5, 6, 7, 8]" 3 "Some 3" 1, unfolded R d st, OF _ _ _ refl refl refl] q h(3) obtain s where
    "audio_ring_input (Some 3) [1, 2, 3, 4, 5, 6, 7, 8] (R, h', ?q) = Some (Inr (s, 2))"
    "\<forall>m < 3. ring_data s (free_list h ! m) = Some (take 4 (drop (m * 4) [1, 2, 1, 2, 3, 4, 5, 6, 7, 8, 7, 8]))" "ring_ok [] s"
    by auto
  with R(1,5) show ?thesis by (intro exI [of _ R] exI [of _ h'] exI [of _ ?q] exI [of _ s]) auto
qed

end
