(* ===== verification/Control.thy ===== *)
theory Control
  imports Event_Loop World
begin

text \<open>
  The control socket of \<open>control.c\<close>: a client sends one character for each command, and \<open>a\<close> is answered by the list of
  the sessions that \<open>print_session_list\<close> of \<open>session.c\<close> writes into a buffer of 2048 characters.
\<close>

section \<open>The code\<close>

record ctl_sock =
  cs_fd :: int
  cs_event :: nat

text \<open>With the event loop, the sockets that are allocated, and what has been done to descriptors.\<close>

record control =
  ct_loop :: ev_loop
  ct_socks :: "nat \<Rightarrow> ctl_sock option"
  ct_fresh :: nat
  ct_closed :: "int list"
  ct_out :: "(int \<times> string) list"

text \<open>\<open>opened\<close> has the seconds of \<open>open_time\<close>.\<close>

fun session_text :: "(nat \<Rightarrow> int) \<Rightarrow> world \<Rightarrow> nat list \<Rightarrow> string cres" where
  "session_text opened w [] = Inr []"
| "session_text opened w (s # ss) =
     bindE (deref (sessions w) s) (\<lambda>S. bindE (session_text opened w ss)
       (\<lambda>r. Inr (s_addr S @ '' '' @ dec_int (opened s) @ [LF] @ r)))"

definition print_session_list :: "(nat \<Rightarrow> int) \<Rightarrow> world \<Rightarrow> nat \<Rightarrow> string cres" where
  "print_session_list opened w maxlen =
     bindE (session_text opened w (session_list w)) (\<lambda>r. if length r < maxlen then Inr r else Inl Fault)"

definition drop_sock :: "nat \<Rightarrow> control \<Rightarrow> control cres" where
  "drop_sock cs S = bindE (deref (ct_socks S) cs) (\<lambda>k.
     Inr (S\<lparr>ct_loop := remove_event (cs_event k) (ct_loop S), ct_closed := ct_closed S @ [cs_fd k], ct_socks := (ct_socks S)(cs := None)\<rparr>))"

definition ctl_write :: "nat \<Rightarrow> string \<Rightarrow> control \<Rightarrow> control cres" where
  "ctl_write cs text S = bindE (deref (ct_socks S) cs) (\<lambda>k. Inr (S\<lparr>ct_out := ct_out S @ [(cs_fd k, text)]\<rparr>))"

text \<open>\<open>got\<close> is the character that \<open>read\<close> returns, if it does.\<close>

definition control_read :: "(nat \<Rightarrow> int) \<Rightarrow> world \<Rightarrow> char option \<Rightarrow> nat \<Rightarrow> control \<Rightarrow> control cres" where
  "control_read opened w got cs S =
     (case got of
        None \<Rightarrow> drop_sock cs S
      | Some c \<Rightarrow>
          bindE (if c = CHR ''a'' then bindE (print_session_list opened w 2048) (\<lambda>text. ctl_write cs text S)
                 else if c = CHR ''l'' then Inr S
                 else ctl_write cs (''unknown command'' @ [LF]) S)
            (ctl_write cs [CHR ''.'', LF]))"

text \<open>\<open>fd\<close> is the answer of \<open>accept\<close>, \<open>mem\<close> that of \<open>malloc\<close>.\<close>

definition control_accept :: "int option \<Rightarrow> bool \<Rightarrow> control \<Rightarrow> control" where
  "control_accept fd mem S =
     (case fd of
        None \<Rightarrow> S
      | Some fd \<Rightarrow>
          if \<not> mem then S\<lparr>ct_closed := ct_closed S @ [fd]\<rparr>
          else (let (L, e) = add_fd_event fd False 0 (ct_loop S)
                in S\<lparr>ct_loop := L, ct_socks := (ct_socks S)(ct_fresh S := Some \<lparr>cs_fd = fd, cs_event = e\<rparr>), ct_fresh := ct_fresh S + 1\<rparr>))"

section \<open>Sockets and their events\<close>

text \<open>Every socket has an event of its own, which watches its descriptor.\<close>

definition sock_watched :: "ev_loop \<Rightarrow> ctl_sock \<Rightarrow> bool" where
  "sock_watched L k \<longleftrightarrow> cs_event k < ev_fresh L \<and> cs_event k \<in> set (fd_event_list L) \<and> ev_fd (events L (cs_event k)) = cs_fd k \<and>
     enabled L (cs_event k) \<and> \<not> removed L (cs_event k)"

definition control_ok :: "control \<Rightarrow> bool" where
  "control_ok S \<longleftrightarrow> (\<forall>cs k. ct_socks S cs = Some k \<longrightarrow> cs < ct_fresh S \<and> sock_watched (ct_loop S) k) \<and>
     inj_on (\<lambda>cs. map_option cs_event (ct_socks S cs)) (dom (ct_socks S))"

lemma control_okD:
  assumes "control_ok S" "ct_socks S cs = Some k"
  shows "cs < ct_fresh S" "sock_watched (ct_loop S) k"
  using assms by (auto simp: control_ok_def)

lemma control_ok_distinct: "control_ok S \<Longrightarrow> ct_socks S a = Some k \<Longrightarrow> ct_socks S b = Some l \<Longrightarrow> a \<noteq> b \<Longrightarrow> cs_event k \<noteq> cs_event l"
  using inj_onD [of "\<lambda>cs. map_option cs_event (ct_socks S cs)" "dom (ct_socks S)" a b] by (auto simp: control_ok_def)

lemma remove_event_fields [simp]:
  "fd_event_list (remove_event e L) = fd_event_list L" "ev_fresh (remove_event e L) = ev_fresh L"
  "a \<noteq> e \<Longrightarrow> events (remove_event e L) a = events L a" "removed (remove_event e L) e" "\<not> enabled (remove_event e L) e"
  unfolding event_flag_bits
  by (simp_all add: remove_event_def set_flags_def clear_flags_def upd_event_def EVENT_F_REMOVE_def
      EVENT_F_ENABLED_def EVENT_F_RUNNING_def bit_simps del: bit_0)

lemma sock_watched_other: "cs_event k \<noteq> e \<Longrightarrow> sock_watched (remove_event e L) k = sock_watched L k"
  by (simp add: sock_watched_def flag_def)

lemma sock_watched_new: "sock_watched L k \<Longrightarrow> sock_watched (fst (add_fd_event fd False 0 L)) k"
  by (simp add: sock_watched_def add_fd_event_def flag_def Let_def)

lemma sock_watched_fresh: "sock_watched (fst (add_fd_event fd False 0 L)) \<lparr>cs_fd = fd, cs_event = ev_fresh L\<rparr>"
  unfolding sock_watched_def event_flag_bits by (simp add: add_fd_event_def Let_def new_event_def EVENT_F_ENABLED_def)

lemma drop_sock_ok:
  assumes ok: "control_ok S" and k: "ct_socks S cs = Some k"
  shows "\<exists>S'. drop_sock cs S = Inr S' \<and> control_ok S' \<and> ct_socks S' = (ct_socks S)(cs := None) \<and>
    ct_closed S' = ct_closed S @ [cs_fd k] \<and> removed (ct_loop S') (cs_event k) \<and> \<not> enabled (ct_loop S') (cs_event k)"
proof -
  let ?S = "S\<lparr>ct_loop := remove_event (cs_event k) (ct_loop S), ct_closed := ct_closed S @ [cs_fd k], ct_socks := (ct_socks S)(cs := None)\<rparr>"
  have "a < ct_fresh S \<and> sock_watched (ct_loop ?S) l" if "ct_socks ?S a = Some l" for a l
    using that control_ok_distinct [OF ok k, of a l] control_okD [OF ok] by (auto simp: sock_watched_other split: if_splits)
  moreover have "inj_on (\<lambda>cs. map_option cs_event (ct_socks ?S cs)) (dom (ct_socks ?S))"
    by (rule inj_onI) (use control_ok_distinct [OF ok] in \<open>fastforce split: if_splits\<close>)
  ultimately have "control_ok ?S" by (simp add: control_ok_def)
  then show ?thesis using k by (simp add: drop_sock_def)
qed

lemma control_accept_ok:
  assumes ok: "control_ok S"
  shows "control_ok (control_accept fd mem S)"
proof (cases "fd = None \<or> \<not> mem")
  case True
  with ok show ?thesis by (auto simp: control_accept_def control_ok_def split: option.splits)
next
  case False
  then obtain n where n: "fd = Some n" "mem" by auto
  let ?L = "fst (add_fd_event n False 0 (ct_loop S))" and ?k = "\<lparr>cs_fd = n, cs_event = ev_fresh (ct_loop S)\<rparr>"
  let ?S = "S\<lparr>ct_loop := ?L, ct_socks := (ct_socks S)(ct_fresh S := Some ?k), ct_fresh := ct_fresh S + 1\<rparr>"
  have S': "control_accept fd mem S = ?S" using n by (simp add: control_accept_def add_fd_event_def Let_def)
  have old: "cs_event l \<noteq> ev_fresh (ct_loop S)" if "ct_socks S a = Some l" for a l
    using control_okD(2) [OF ok that] by (auto simp: sock_watched_def)
  have "a < ct_fresh S + 1 \<and> sock_watched ?L l" if "ct_socks ?S a = Some l" for a l
    using that control_okD [OF ok, of a l] sock_watched_new sock_watched_fresh by (auto split: if_splits)
  moreover have "inj_on (\<lambda>cs. map_option cs_event (ct_socks ?S cs)) (dom (ct_socks ?S))"
    by (rule inj_onI) (use control_ok_distinct [OF ok] old in \<open>fastforce split: if_splits\<close>)
  ultimately show ?thesis unfolding S' by (simp add: control_ok_def)
qed

section \<open>Commands\<close>

lemma session_text_lines:
  "\<forall>s\<in>set ss. sessions w s \<noteq> None \<Longrightarrow>
     session_text opened w ss = Inr (concat (map (\<lambda>s. s_addr (the (sessions w s)) @ '' '' @ dec_int (opened s) @ [LF]) ss))"
  by (induction ss) auto

text \<open>
  A command is answered on its own descriptor and ends with a line of a dot; the list has a line for each session,
  the newest first. The end of the input closes the socket, whose event never fires again.
\<close>

lemma control_read_answers:
  assumes ok: "control_ok S" and k: "ct_socks S cs = Some k" and s: "\<forall>s\<in>set (session_list w). sessions w s \<noteq> None"
    and listing: "text = concat (map (\<lambda>s. s_addr (the (sessions w s)) @ '' '' @ dec_int (opened s) @ [LF]) (session_list w))"
    and fits: "length text < 2048"
  shows "\<exists>S'. control_read opened w got cs S = Inr S' \<and> control_ok S' \<and>
    (case got of
       None \<Rightarrow> ct_socks S' = (ct_socks S)(cs := None) \<and> ct_closed S' = ct_closed S @ [cs_fd k] \<and> removed (ct_loop S') (cs_event k)
     | Some c \<Rightarrow> ct_socks S' = ct_socks S \<and> ct_closed S' = ct_closed S \<and>
         ct_out S' = ct_out S @ (if c = CHR ''a'' then [(cs_fd k, text)] else if c = CHR ''l'' then []
           else [(cs_fd k, ''unknown command'' @ [LF])]) @ [(cs_fd k, [CHR ''.'', LF])])"
proof (cases got)
  case None
  with drop_sock_ok [OF ok k] show ?thesis by (auto simp: control_read_def)
next
  case (Some c)
  have "print_session_list opened w 2048 = Inr text"
    using session_text_lines [OF s, of opened] listing fits by (simp add: print_session_list_def)
  then have "\<exists>S'. control_read opened w got cs S = Inr S' \<and> S' = S\<lparr>ct_out := ct_out S @ (if c = CHR ''a'' then [(cs_fd k, text)]
      else if c = CHR ''l'' then [] else [(cs_fd k, ''unknown command'' @ [LF])]) @ [(cs_fd k, [CHR ''.'', LF])]\<rparr>"
    using Some k by (simp add: control_read_def ctl_write_def)
  with ok Some show ?thesis by (auto simp: control_ok_def)
qed

text \<open>The event loop calls \<open>control_read\<close> for sockets with an event that is not removed, and \<open>control_accept\<close> for new clients.\<close>

datatype ctl_op = Client "int option" bool | Input nat "char option"

fun ctl_run :: "(nat \<Rightarrow> int) \<Rightarrow> world \<Rightarrow> ctl_op list \<Rightarrow> control \<Rightarrow> control cres" where
  "ctl_run opened w [] S = Inr S"
| "ctl_run opened w (Client fd mem # ops) S = ctl_run opened w ops (control_accept fd mem S)"
| "ctl_run opened w (Input cs got # ops) S =
     (if ct_socks S cs = None then ctl_run opened w ops S else bindE (control_read opened w got cs S) (ctl_run opened w ops))"

lemma ctl_run_safe:
  assumes s: "\<forall>s\<in>set (session_list w). sessions w s \<noteq> None"
    and fits: "length (concat (map (\<lambda>s. s_addr (the (sessions w s)) @ '' '' @ dec_int (opened s) @ [LF]) (session_list w))) < 2048"
  shows "control_ok S \<Longrightarrow> \<exists>S'. ctl_run opened w ops S = Inr S' \<and> control_ok S'"
proof (induction ops arbitrary: S)
  case (Cons a ops)
  show ?case
  proof (cases a)
    case (Client fd mem)
    with Cons.IH [OF control_accept_ok [OF Cons.prems]] show ?thesis by simp
  next
    case (Input cs got)
    show ?thesis
    proof (cases "ct_socks S cs")
      case None
      with Input Cons show ?thesis by simp
    next
      case (Some k)
      from control_read_answers [OF Cons.prems Some s refl fits] obtain S1 where
        "control_read opened w got cs S = Inr S1" "control_ok S1" by blast
      with Input Some Cons.IH show ?thesis by simp
    qed
  qed
qed simp

text \<open>Enough sessions run over the buffer: it has no room for 82 that are not connected yet.\<close>

lemma many_sessions_overflow:
  assumes s: "\<forall>s\<in>set (session_list w). \<exists>S. sessions w s = Some S \<and> s_addr S = ''(unconnected)''"
    and t: "\<forall>s\<in>set (session_list w). length (dec_int (opened s)) = 10" and many: "82 \<le> length (session_list w)"
  shows "control_read opened w (Some CHR ''a'') cs S = Inl Fault"
proof -
  have "length (concat (map (\<lambda>s. s_addr (the (sessions w s)) @ '' '' @ dec_int (opened s) @ [LF]) ss)) = 25 * length ss"
    if "set ss \<subseteq> set (session_list w)" for ss
    using that by (induction ss) (use s t in fastforce)+
  then have "\<not> length (concat (map (\<lambda>s. s_addr (the (sessions w s)) @ '' '' @ dec_int (opened s) @ [LF]) (session_list w))) < 2048"
    using many by simp
  moreover have "\<forall>s\<in>set (session_list w). sessions w s \<noteq> None" using s by fastforce
  ultimately show ?thesis by (simp add: control_read_def print_session_list_def session_text_lines)
qed

end
