(* ===== verification/Commands.thy ===== *)
theory Commands
  imports Wifi
begin

text \<open>
  The commands of \<open>wireless_check.c\<close> on their way to the driver: they are built in a buffer of 128 characters, and
  \<open>iwpriv\<close> and \<open>iwconfig\<close> cut them into words (\<open>splitstr.c\<close>) for their \<open>argv\<close> of 16. What these two do with
  the words is an argument.
\<close>

section \<open>Cutting into words\<close>

text \<open>\<open>temp\<close> has 128 characters, \<open>items\<close> as many places as the caller has; both are written without a test.\<close>

definition end_item :: "nat \<Rightarrow> string \<Rightarrow> string list \<Rightarrow> string list cres" where
  "end_item places temp items = (if 128 \<le> length temp \<or> places \<le> length items then Inl Fault else Inr (items @ [temp]))"

fun split_loop :: "nat \<Rightarrow> char \<Rightarrow> string \<Rightarrow> string list \<Rightarrow> string \<Rightarrow> string list cres" where
  "split_loop places c temp items [] = end_item places temp items"
| "split_loop places c temp items (x # xs) =
     (if x = c then bindE (end_item places temp items) (\<lambda>items. split_loop places c [] items xs)
      else if 128 \<le> length temp then Inl Fault
      else split_loop places c (temp @ [x]) items xs)"

definition splitString :: "nat \<Rightarrow> string option \<Rightarrow> char \<Rightarrow> string list cres" where
  "splitString places s c = (case s of None \<Rightarrow> Inr [] | Some s \<Rightarrow> if s = [] then Inr [] else split_loop places c [] [] s)"

abbreviation SPACE :: char where "SPACE \<equiv> CHR 32"

definition iwpriv :: "(string list \<Rightarrow> int) \<Rightarrow> string \<Rightarrow> int cres" where
  "iwpriv iwpriv_main cmd = bindE (splitString 16 (Some cmd) SPACE) (\<lambda>argv. Inr (iwpriv_main argv))"

definition iwconfig :: "(string list \<Rightarrow> int) \<Rightarrow> string \<Rightarrow> int cres" where
  "iwconfig iwconfig_main cmd = bindE (splitString 16 (Some cmd) SPACE) (\<lambda>argv. Inr (iwconfig_main argv))"

text \<open>The commands one after another, each in the same buffer; a result that is not 0 is only logged.\<close>

definition sprintf_szCmd :: "string \<Rightarrow> string cres" where
  "sprintf_szCmd s = (if length s < 128 then Inr s else Inl Fault)"

fun run_commands :: "(string \<Rightarrow> int cres) \<Rightarrow> string list \<Rightarrow> int list cres" where
  "run_commands tool [] = Inr []"
| "run_commands tool (cmd # cmds) =
     bindE (sprintf_szCmd cmd) (\<lambda>cmd. bindE (tool cmd) (\<lambda>r. bindE (run_commands tool cmds) (\<lambda>rs. Inr (r # rs))))"

section \<open>The words of a text\<close>

text \<open>The reference: the words between separators, possibly empty.\<close>

fun words_of :: "'a \<Rightarrow> 'a list \<Rightarrow> 'a list list" where
  "words_of c [] = [[]]"
| "words_of c (x # xs) = (if x = c then [] # words_of c xs else (case words_of c xs of [] \<Rightarrow> [[x]] | w # ws \<Rightarrow> (x # w) # ws))"

lemma words_of_ne [simp]: "words_of c xs \<noteq> []"
  by (cases xs) (auto split: list.splits)

fun join :: "'a \<Rightarrow> 'a list list \<Rightarrow> 'a list" where
  "join c [] = []"
| "join c [w] = w"
| "join c (w # v # ws) = w @ c # join c (v # ws)"

lemma join_words: "join c (words_of c xs) = xs"
proof (induction xs)
  case (Cons x xs)
  obtain w ws where "words_of c xs = w # ws" by (cases "words_of c xs") auto
  with Cons show ?case by (cases ws) auto
qed simp

lemma words_of_no_sep: "w \<in> set (words_of c xs) \<Longrightarrow> c \<notin> set w"
proof (induction xs arbitrary: w)
  case (Cons x xs)
  obtain v ws where "words_of c xs = v # ws" by (cases "words_of c xs") auto
  with Cons show ?case by (fastforce split: if_splits)
qed simp

lemma words_of_join: "(\<forall>w\<in>set ws. c \<notin> set w) \<Longrightarrow> ws \<noteq> [] \<Longrightarrow> words_of c (join c ws) = ws"
proof (induction c ws rule: join.induct)
  case (2 c w)
  then show ?case by (induction w) auto
next
  case (3 c w v ws)
  then have "words_of c (join c (v # ws)) = v # ws" by simp
  moreover have "c \<notin> set w" using 3 by simp
  ultimately show ?case by (induction w) auto
qed simp

lemma split_loop_words:
  "split_loop n c temp items xs =
     (let ws = (temp @ hd (words_of c xs)) # tl (words_of c xs)
      in if length items + length ws \<le> n \<and> (\<forall>w\<in>set ws. length w < 128) then Inr (items @ ws) else Inl Fault)"
proof (induction xs arbitrary: temp items)
  case Nil
  then show ?case by (auto simp: end_item_def)
next
  case (Cons x xs)
  obtain w ws where w: "words_of c xs = w # ws" by (cases "words_of c xs") auto
  with Cons.IH show ?case by (auto simp: end_item_def Let_def)
qed

text \<open>
  \<open>splitString\<close> is the reference on every text whose words are shorter than 128 characters and as many as the caller
  has places, and writes outside its arrays on every other text.
\<close>

lemma splitString_words:
  assumes "s \<noteq> []"
  shows "splitString n (Some s) c =
    (if length (words_of c s) \<le> n \<and> (\<forall>w\<in>set (words_of c s). length w < 128) then Inr (words_of c s) else Inl Fault)"
proof -
  obtain w ws where "words_of c s = w # ws" by (cases "words_of c s") auto
  with assms split_loop_words [of n c "[]" "[]" s] show ?thesis by (simp add: splitString_def Let_def)
qed

section \<open>The network of the configuration\<close>

lemma words_single: "c \<notin> set w \<Longrightarrow> words_of c w = [w]"
  using words_of_join [of "[w]" c] by simp

lemma words_split: "c \<notin> set a \<Longrightarrow> words_of c (a @ c # b) = a # words_of c b"
  by (induction a) auto

lemma iwpriv_set_parts: "iwpriv_set what = ''/mnt/user/iwpriv'' @ SPACE # ''eth1'' @ SPACE # ''set'' @ SPACE # what"
  by (simp add: iwpriv_set_def WORK_DICTORY_def WIRELESS_IFNAME_def)

definition told :: "string list \<Rightarrow> string list" where
  "told ws = [''/mnt/user/iwpriv'', ''eth1'', ''set''] @ ws"

lemma words_of_iwpriv: "words_of SPACE (iwpriv_set what) = told (words_of SPACE what)"
proof -
  have "SPACE \<notin> set ''/mnt/user/iwpriv''" "SPACE \<notin> set ''eth1''" "SPACE \<notin> set ''set''" by simp_all
  note 1 = words_split [OF this(1)] and 2 = words_split [OF this(2)] and 3 = words_split [OF this(3)]
  show ?thesis unfolding iwpriv_set_parts 1 2 3 told_def by simp
qed

lemma told_simps: "length (told ws) = 3 + length ws" "(\<forall>w\<in>set (told ws). length w < 128) \<longleftrightarrow> (\<forall>w\<in>set ws. length w < 128)"
  by (simp_all add: told_def)

lemma length_iwpriv [simp]: "length (iwpriv_set what) = 26 + length what"
  by (simp add: iwpriv_set_def WORK_DICTORY_def WIRELESS_IFNAME_def)

lemma iwpriv_set_ne [simp]: "iwpriv_set what \<noteq> []"
  by (simp add: iwpriv_set_def WORK_DICTORY_def)

lemma length_word: "w \<in> set (words_of c xs) \<Longrightarrow> length w \<le> length xs"
proof (induction xs arbitrary: w)
  case (Cons x xs)
  obtain v ws where v: "words_of c xs = v # ws" by (cases "words_of c xs") auto
  with Cons.IH [of v] Cons.IH [of w] Cons.prems show ?case by (auto split: if_splits)
qed simp

text \<open>One command, with the words of its argument.\<close>

lemma iwpriv_words:
  assumes "length what < 102" "length (words_of SPACE what) \<le> 13"
  shows "bindE (sprintf_szCmd (iwpriv_set what)) (iwpriv tool) =
    Inr (tool (told (words_of SPACE what)))"
proof -
  have "\<forall>w\<in>set (words_of SPACE what). length w < 128"
    using assms(1) length_word [of _ SPACE what] by fastforce
  then have "splitString 16 (Some (iwpriv_set what)) SPACE = Inr (told (words_of SPACE what))"
    using assms(2) by (simp add: splitString_words words_of_iwpriv told_simps)
  then show ?thesis using assms(1) by (simp add: iwpriv_def sprintf_szCmd_def)
qed

lemma run_step:
  "length what < 102 \<Longrightarrow> length (words_of SPACE what) \<le> 13 \<Longrightarrow>
     run_commands (iwpriv tool) (iwpriv_set what # cmds) =
     bindE (run_commands (iwpriv tool) cmds) (\<lambda>rs. Inr (tool (told (words_of SPACE what)) # rs))"
  using iwpriv_words [of what tool] by (simp add: bindE_assoc [symmetric])

text \<open>
  A name that is short enough arrives as the words of the last command: the driver is told \<open>SSID=\<close> with the part of the
  name before its first space, and the rest is taken for further arguments.
\<close>

lemma plain_words:
  "\<forall>w\<in>{''NetworkType=Infra'', ''AuthMode=Open'', ''EncrypType=None'', ''SSID=''}. words_of SPACE w = [w] \<and> length w < 102"
  by simp

lemma connect2ssid_prefix:
  "run_commands (iwpriv tool) (connect2ssid name) =
     bindE (run_commands (iwpriv tool) [iwpriv_set (''SSID='' @ name)])
       (\<lambda>rs. Inr (map (\<lambda>w. tool (told [w])) [''NetworkType=Infra'', ''AuthMode=Open'', ''EncrypType=None'', ''SSID=''] @ rs))"
proof -
  have "run_commands (iwpriv tool) (iwpriv_set w # cmds) = bindE (run_commands (iwpriv tool) cmds) (\<lambda>rs. Inr (tool (told [w]) # rs))"
    if "w \<in> {''NetworkType=Infra'', ''AuthMode=Open'', ''EncrypType=None'', ''SSID=''}" for w cmds
    using run_step [of w tool cmds] bspec [OF plain_words that] by simp
  note step = this [OF insertI1] this [OF insertI2, OF insertI1] this [OF insertI2, OF insertI2, OF insertI1]
    this [OF insertI2, OF insertI2, OF insertI2, OF insertI1]
  show ?thesis by (simp only: connect2ssid_def list.map step bindE_assoc bindE_simps append_Cons append_Nil)
qed

lemma words_of_ssid: "words_of SPACE (''SSID='' @ name) = (''SSID='' @ hd (words_of SPACE name)) # tl (words_of SPACE name)"
  by (simp split: list.splits)

lemma connect2ssid_words:
  assumes "length name < 97" "length (words_of SPACE name) \<le> 13"
  shows "run_commands (iwpriv tool) (connect2ssid name) =
    Inr (map (\<lambda>w. tool (told [w])) [''NetworkType=Infra'', ''AuthMode=Open'', ''EncrypType=None'', ''SSID=''] @
         [tool (told ((''SSID='' @ hd (words_of SPACE name)) # tl (words_of SPACE name)))])"
proof -
  have "length (words_of SPACE (''SSID='' @ name)) \<le> 13" using assms(2) unfolding words_of_ssid by simp
  moreover have "length (''SSID='' @ name) < 102" using assms(1) by simp
  ultimately have "run_commands (iwpriv tool) [iwpriv_set (''SSID='' @ name)] =
      Inr [tool (told ((''SSID='' @ hd (words_of SPACE name)) # tl (words_of SPACE name)))]"
    by (simp only: run_step words_of_ssid) simp
  then show ?thesis by (simp only: connect2ssid_prefix bindE_simps)
qed

corollary connect2ssid_whole:
  "SPACE \<notin> set name \<Longrightarrow> length name < 97 \<Longrightarrow> run_commands (iwpriv tool) (connect2ssid name) =
     Inr (map (\<lambda>w. tool (told [w])) [''NetworkType=Infra'', ''AuthMode=Open'', ''EncrypType=None'', ''SSID='', ''SSID='' @ name])"
  using connect2ssid_words [of name tool] by (simp add: words_single)

corollary connect2ssid_cut:
  "SPACE \<notin> set a \<Longrightarrow> length (a @ SPACE # b) < 97 \<Longrightarrow> length (words_of SPACE b) \<le> 12 \<Longrightarrow>
     \<exists>rs. run_commands (iwpriv tool) (connect2ssid (a @ SPACE # b)) = Inr (rs @ [tool (told ((''SSID='' @ a) # words_of SPACE b))])"
  using connect2ssid_words [of "a @ SPACE # b" tool] words_split [of SPACE a b] by auto

text \<open>A name of 14 words is too much for \<open>argv\<close>; such names fit into the 64 characters of \<open>g_szSSID\<close>.\<close>

lemma connect2ssid_many_words:
  assumes "length name < 97" "13 < length (words_of SPACE name)"
  shows "run_commands (iwpriv tool) (connect2ssid name) = Inl Fault"
proof -
  have "13 < length (words_of SPACE (''SSID='' @ name))" using assms(2) unfolding words_of_ssid by simp
  then have "splitString 16 (Some (iwpriv_set (''SSID='' @ name))) SPACE = Inl Fault"
    by (simp add: splitString_words words_of_iwpriv told_simps del: words_of.simps append_Cons)
  then have "run_commands (iwpriv tool) [iwpriv_set (''SSID='' @ name)] = Inl Fault"
    using assms(1) by (simp add: sprintf_szCmd_def iwpriv_def)
  then show ?thesis by (simp only: connect2ssid_prefix bindE_simps)
qed

end
