(* ===== verification/Spec2Isabelle.thy ===== *)
theory Spec2Isabelle
  imports Tcp Stream Rtp_H264 Rtp_Audio Rtp_Jpeg Rtp_Mpeg4 Rtp_Mpv Rtsp_Live Server_Attacks
    Sound_Conv Conversions Conf_Parse Config_Server Soft_Queue Capture_Server Wifi_Proofs
    Filters_Proofs Audio_Ring_Proofs Control Commands
begin

text \<open>
  A verification library for the Spook live streamer: cameras and microphones deliver frames,
  streams carry them to whoever has asked for them, packetisers cut them into RTP packets, and an
  RTSP and HTTP server on one event loop sends them to its clients.

  The program and its theories.

  \<^item> \<open>Prelude\<close>, \<open>Ring\<close>, \<open>Fifo\<close>: the integer types, results that may be a memory fault (\<open>cres\<close>, with
    \<open>Inl Fault\<close> for an access outside an array or through a dangling pointer), the functions of the C
    library that the program calls, circular arrays, and the contract of the queues (locale \<open>fifo\<close>).
  \<^item> \<open>Event\<close>, \<open>Event_Loop\<close>, \<open>Soft_Queue\<close> (\<open>event.c\<close>): timers, descriptors and events that always fire, a
    round of the loop as \<open>event_round\<close>, and the queues between threads. Handlers are arguments that
    may use the functions of \<open>event.h\<close>. The lemmas say which handlers a round calls, that the lists stay
    well typed, how long \<open>select\<close> may sleep, that the linked lists are a bounded queue, and which items of it
    reach which handlers (\<open>logged\<close>).
  \<^item> \<open>Conf_Scan\<close>, \<open>Conf_Parse\<close> (\<open>conf_scan.l\<close>, \<open>conf_parse.c\<close>): the configuration file. The rules of the
    scanner are one function for the length of their matches; the longest match wins. The parser is
    compared with the execution of the directives that a text stands for. \<open>Conf_Invariant\<close> is the
    interface to the modules that register their directives, as the locale \<open>config_modules\<close>.
  \<^item> \<open>Config\<close>, \<open>Config_Proofs\<close>, \<open>Config_Server\<close> (\<open>global_config.h\<close>, \<open>input-video.c\<close>, \<open>input-audio.c\<close>, \<open>live.c\<close>,
    \<open>http.c\<close>, \<open>access_log.c\<close>, \<open>c_rtsp.c\<close>): the directives and what they build; the modules keep the
    contract, so that the server that an accepted text starts is in the invariant of \<open>Server_Run\<close>, unless
    the text ends inside the block of a handler that has no track (\<open>handlers_complete\<close>).
  \<^item> \<open>Frame\<close>, \<open>Stream\<close> (\<open>frame.c\<close>, \<open>stream.c\<close>, \<open>filter-framedrop.c\<close>): the heap of counted frames as two
    cursors in a ring, the exchangers, the graph of streams and destinations, and the frame dropper.
  \<^item> \<open>Filters\<close>, \<open>Filters_Proofs\<close> (\<open>filter-framedrop.c\<close>, \<open>stream.c\<close>): the directives of the dropper, the pixel
    converter, and the graphs that can be built (\<open>built\<close>), with the invariant of their wiring.
  \<^item> \<open>Audio_Ring\<close>, \<open>Audio_Ring_Proofs\<close> (\<open>audio.c\<close>): the ring of samples, whose frames lie in the ring itself; the
    invariant \<open>ring_ok\<close> between two inputs, which samples are doubled or left out (\<open>copies\<close>), and the pieces of
    the stream that the frames hold.
  \<^item> \<open>Sound_Conv\<close>, \<open>Conversions\<close> (\<open>sound_conv.c\<close>, \<open>conversions.c\<close>): the audio codecs and the conversions
    between pixel formats.
  \<^item> \<open>Rtp_Media\<close>, \<open>Rtp_H264\<close>, \<open>Rtp_Audio\<close>, \<open>Rtp_Jpeg\<close>, \<open>Rtp_Mpeg4\<close>, \<open>Rtp_Mpv\<close> (\<open>rtp-*.c\<close>): the packetisers.
    Each has the state of its C structure, the parser that looks at a frame and the loop that cuts it;
    the lemmas say what a receiver rebuilds.
  \<^item> \<open>Rtp\<close> (\<open>rtp.c\<close>): endpoints, the RTP header, the choice of ports, sending and the timeout.
  \<^item> \<open>Pmsg\<close>, \<open>Tcp\<close>, \<open>Md5\<close>, \<open>Http_Auth\<close> (\<open>pmsg.c\<close>, \<open>tcp.c\<close>, \<open>md5.c\<close>, \<open>http-auth.c\<close>): text messages over one buffer,
    the send ring of a connection, the base64 tunnel, and digest authentication.
  \<^item> \<open>World\<close>: the state of the server, with tables for connections, endpoints, sessions, tracks and
    streams; a pointer is a number, a freed object is not in its table. \<open>Replies\<close> is what the two
    servers share.
  \<^item> \<open>Sessions\<close>: the interface that \<open>struct session\<close> is, as a record of functions and the locale of their
    contract. \<open>Live\<close>, \<open>Live_Proofs\<close>, \<open>Live_Calls\<close> (\<open>live.c\<close>, \<open>session.c\<close>) provide it.
  \<^item> \<open>Rtsp\<close>, \<open>Rtsp_Proofs\<close>, \<open>Rtsp_Setup\<close>, \<open>Rtsp_Close\<close> (\<open>rtsp.c\<close>): the requests, proved on any sessions that
    keep the contract; \<open>Rtsp_Live\<close> puts them on the live sessions.
  \<^item> \<open>Http\<close> (\<open>http.c\<close>): pictures over HTTP, single or as a multipart stream.
  \<^item> \<open>Server_State\<close>, \<open>Stable\<close>, \<open>Server\<close>, \<open>Server_Close\<close>, \<open>Server_Http\<close>, \<open>Live_Frames\<close>, \<open>Server_Proofs\<close>
    (\<open>tcp.c\<close> with all of the above): connections from \<open>accept\<close> to their end, the dispatch of requests, the
    invariant \<open>server_ok\<close> and its preservation by each event.
  \<^item> \<open>Reports\<close> (\<open>rtp.c\<close>): the events of an endpoint, its timer and its two UDP sockets, which may end it.
  \<^item> \<open>Server_Run\<close>: the server as a state machine (\<open>server_step\<close>): a client connects, input, output, the timer and
    the UDP input of an endpoint, a picture, a frame, in any order. Inputs are those that the code survives, and a
    frame is a step when its handler returns. The control socket only reads the list of sessions and is no
    step; multicast endpoints are not modelled. \<open>Server_Demo\<close> has the states of the examples, \<open>Server_Attacks\<close> the tunnel and the requests that break the server.
  \<^item> \<open>Capture\<close>, \<open>Capture_Proofs\<close>, \<open>Layout\<close>, \<open>Capture_Server\<close> (\<open>input-video.c\<close>, \<open>input-audio.c\<close>, with the parts above): the
    callbacks of camera and microphone, the ADPCM decoder, and the turn of the event loop that hands a frame to
    the tracks and locations. What a destination owes for the frame it gets is the locale \<open>sink\<close>, those that
    cannot fail are \<open>safe_sink\<close>; the camera, the event loop and the server together are a queue of pictures.
  \<^item> \<open>Wifi\<close>, \<open>Wifi_Proofs\<close> (\<open>wireless/wireless_check.c\<close>): the watch over the wireless link, which stops the server
    from sending (\<open>se_stop\<close> of \<open>Live\<close>) while the camera joins its network, and chooses an access point.
  \<^item> \<open>Commands\<close> (\<open>wireless/splitstr.c\<close>): how the commands for the network reach \<open>iwpriv\<close> as words. \<open>Control\<close>
    (\<open>control.c\<close>): the control socket, its clients and the list of sessions.

  The main invariants. \<open>world_ok\<close> says that no pointer between sessions, endpoints, connections and
  tracks dangles and that each endpoint belongs to one session; \<open>http_ok\<close> that the streaming sessions
  of a location are linked with their connections; \<open>server_ok\<close> is both with the list of connections
  and the send rings. Requests that the code does not survive are excluded by name where an event
  is required not to fault, and have theorems of their own.

  Loops. Most are recursion on the data. The packetisers and the frame loops that the code
  writes as \<open>while\<close> are \<open>partial_function (option)\<close>, so that not ending is \<open>None\<close>, and each claim says
  that there is a result. The scanner and the parser end because every token takes a character. The
  loop of the event loop is unrolled for a given list of answers of the kernel, one for each round.

  Integers are kept at their width where they can leave it: RTP sequence numbers and timestamps,
  flags, MD5 and the codecs are words, \<open>time_diff\<close> wraps at the 32 bits of a \<open>long\<close> on the targets, and \<open>strtol\<close>
  saturates there. Elsewhere they are \<open>nat\<close> or \<open>int\<close>, and array bounds are checked by the model.

  What is an argument of the model: the answers of the kernel, the time, random bytes, the sources of
  frames (their frames and their \<open>set_running\<close> functions), handlers, and the record \<open>env\<close> of what the
  kernel and the camera answer to the directives. Hypotheses on them
  are named in the theorems (\<open>api_only\<close>, \<open>keeps_queue\<close>, \<open>keeps_end\<close>, \<open>keeps_fire\<close>).

  A callback of the camera is one step of the system, that is, the thread of the camera is not interrupted
  between taking an empty frame and delivering it; \<open>Frame\<close> has the exchanger with these as two steps.

  Not modelled: the loops that read a device and the encoders (\<open>input-v4l.c\<close>, \<open>encoder-*.c\<close> and others), which
  call drivers and libraries and are not in the build; multicast; the frame rate meter, which computes in floating
  point; the log and the lines of the access log; the tools for the driver under \<open>wireless/\<close> and the library under
  \<open>enet-1.3.3/\<close>, which are the work of others; \<open>conf_scan.c\<close>, which is generated from \<open>conf_scan.l\<close>; \<open>main/\<close>,
  \<open>c_udp_server.c\<close> and \<open>spook.c\<close>, which start the parts.
\<close>

end
